(* ===== verification/Prelude.thy ===== *)
theory Prelude
  imports
    Main
    "HOL-Library.Word"
    "HOL-Library.Multiset"
    "HOL-Library.Sublist"
    "HOL-Library.Char_ord"
    "HOL-Library.List_Lexorder"
    "HOL-Library.Product_Lexorder"
begin

text \<open>
  Shared vocabulary of the development: the integer ranges of the Rust types, the
  \<open>Result\<close> type with its early-return operator, adjacent pairs of a slice
  (\<open>windows(2)\<close>), decimal and hexadecimal printing, big-endian bytes, and the generic
  lemmas the component theories use. Rust strings are UTF-8 byte sequences: a
  \<open>string\<close> here is that byte sequence, one \<open>char\<close> per byte, and \<open>length\<close> is
  \<open>str::len\<close>. The order on strings is the bytewise lexicographic one of
  \<open>String: Ord\<close>.
\<close>

unbundle bit_operations_syntax

named_theorems catalog_defs \<open>unfolding rules for the catalog's statements\<close>
named_theorems frame_simps \<open>what an operation leaves alone\<close>

type_synonym byte = "8 word"
type_synonym bytes = "byte list"
type_synonym i64 = int
type_synonym i32 = int
type_synonym i16 = int
type_synonym u32 = nat

text \<open>Fallible code returns a sum: \<open>Inl\<close> is \<open>Err\<close>, \<open>Inr\<close> is \<open>Ok\<close>.\<close>

type_synonym ('e, 'a) result = "'e + 'a"

section \<open>Definitions\<close>

definition in_i64 :: "int \<Rightarrow> bool" where
  "in_i64 v \<longleftrightarrow> - (2 ^ 63) \<le> v \<and> v < 2 ^ 63"

definition in_i32 :: "int \<Rightarrow> bool" where
  "in_i32 v \<longleftrightarrow> - (2 ^ 31) \<le> v \<and> v < 2 ^ 31"

definition in_i16 :: "int \<Rightarrow> bool" where
  "in_i16 v \<longleftrightarrow> - (2 ^ 15) \<le> v \<and> v < 2 ^ 15"

text \<open>The \<open>?\<close> operator: continue with the value, or return the error.\<close>

definition rbind :: "('e, 'a) result \<Rightarrow> ('a \<Rightarrow> ('e, 'b) result) \<Rightarrow> ('e, 'b) result" where
  "rbind r f = (case r of Inl e \<Rightarrow> Inl e | Inr x \<Rightarrow> f x)"

definition ok_or :: "'a option \<Rightarrow> 'e \<Rightarrow> ('e, 'a) result" where
  "ok_or m e = (case m of None \<Rightarrow> Inl e | Some x \<Rightarrow> Inr x)"

definition is_ok :: "('e, 'a) result \<Rightarrow> bool" where
  "is_ok r = (case r of Inl _ \<Rightarrow> False | Inr _ \<Rightarrow> True)"

text \<open>\<open>slice.windows(2)\<close>: the adjacent pairs, in order.\<close>

fun windows2 :: "'a list \<Rightarrow> ('a \<times> 'a) list" where
  "windows2 (x # y # xs) = (x, y) # windows2 (y # xs)"
| "windows2 _ = []"

text \<open>Decimal printing of an unsigned and of a signed integer (\<open>Display\<close>).\<close>

definition digit_char :: "nat \<Rightarrow> char" where
  "digit_char d = char_of (48 + d)"

fun show_nat :: "nat \<Rightarrow> string" where
  "show_nat n = (if n < 10 then [digit_char n] else show_nat (n div 10) @ [digit_char (n mod 10)])"

declare show_nat.simps [simp del]

definition show_int :: "int \<Rightarrow> string" where
  "show_int i = (if i < 0 then CHR ''-'' # show_nat (nat (- i)) else show_nat (nat i))"

text \<open>The value of a nonempty string of decimal digits.\<close>

definition digits_value :: "string \<Rightarrow> nat option" where
  "digits_value s =
     (if s \<noteq> [] \<and> list_all (\<lambda>c. 48 \<le> (of_char c :: nat) \<and> (of_char c :: nat) \<le> 57) s
      then Some (foldl (\<lambda>n c. n * 10 + (of_char c - 48)) 0 s) else None)"

text \<open>\<open>{:02x}\<close> of one byte.\<close>

definition hex_digit :: "nat \<Rightarrow> char" where
  "hex_digit d = char_of (if d < 10 then 48 + d else 87 + d)"

definition hex_byte :: "byte \<Rightarrow> string" where
  "hex_byte b = [hex_digit (unat b div 16), hex_digit (unat b mod 16)]"

text \<open>The bytes of a string (\<open>as_bytes\<close>) and \<open>to_be_bytes\<close> of a 64-bit value.\<close>

definition as_bytes :: "string \<Rightarrow> bytes" where
  "as_bytes s = map (\<lambda>c. word_of_nat (of_char c)) s"

definition be_bytes :: "64 word \<Rightarrow> bytes" where
  "be_bytes w = map (\<lambda>i. ucast (drop_bit (8 * i) w)) [7, 6, 5, 4, 3, 2, 1, 0]"

text \<open>The smallest element of a list, if there is one (\<open>iter().min()\<close>, SQL \<open>MIN\<close>).\<close>

definition list_min :: "'a::linorder list \<Rightarrow> 'a option" where
  "list_min xs = (if xs = [] then None else Some (Min (set xs)))"

definition list_max :: "'a::linorder list \<Rightarrow> 'a option" where
  "list_max xs = (if xs = [] then None else Some (Max (set xs)))"

section \<open>Results\<close>

lemma rbind_simps [simp]:
  "rbind (Inl e) f = Inl e"
  "rbind (Inr x) f = f x"
  by (simp_all add: rbind_def)

lemma rbind_eq_Inr_iff: "rbind r f = Inr y \<longleftrightarrow> (\<exists>x. r = Inr x \<and> f x = Inr y)"
  by (cases r) auto

lemma rbind_eq_Inl_iff: "rbind r f = Inl e \<longleftrightarrow> r = Inl e \<or> (\<exists>x. r = Inr x \<and> f x = Inl e)"
  by (cases r) auto

lemma ok_or_simps [simp]:
  "ok_or None e = Inl e"
  "ok_or (Some x) e = Inr x"
  by (simp_all add: ok_or_def)

lemma ok_or_eq_Inr_iff [simp]: "ok_or m e = Inr x \<longleftrightarrow> m = Some x"
  by (cases m) auto

lemma is_ok_simps [simp]: "\<not> is_ok (Inl e)" "is_ok (Inr x)"
  by (simp_all add: is_ok_def)

section \<open>Adjacent pairs\<close>

lemma sorted_wrt_windows2:
  assumes "transp R"
  shows "sorted_wrt R xs \<longleftrightarrow> (\<forall>(x, y) \<in> set (windows2 xs). R x y)"
proof (induction xs rule: windows2.induct)
  case (1 x y xs)
  then show ?case
    using assms by (auto dest: transpD)
qed simp_all

lemma windows2_mem: "(x, y) \<in> set (windows2 xs) \<Longrightarrow> x \<in> set xs \<and> y \<in> set xs"
  by (induction xs rule: windows2.induct) auto

lemma sorted_distinct_windows2:
  fixes xs :: "'a::linorder list"
  assumes "sorted xs"
  shows "distinct xs \<longleftrightarrow> (\<forall>(x, y) \<in> set (windows2 xs). x \<noteq> y)"
  using assms
proof (induction xs rule: windows2.induct)
  case (1 x y xs)
  then show ?case by (auto simp: antisym)
qed simp_all

lemma find_None_windows2:
  "find P xs = None \<longleftrightarrow> (\<forall>x \<in> set xs. \<not> P x)"
  by (auto simp: find_None_iff)

lemma sorted_wrt_irrefl_distinct:
  "sorted_wrt R xs \<Longrightarrow> (\<And>x. x \<in> set xs \<Longrightarrow> \<not> R x x) \<Longrightarrow> distinct xs"
  by (induction xs) auto

lemma sorted_wrt_either:
  "sorted_wrt R xs \<Longrightarrow> x \<in> set xs \<Longrightarrow> y \<in> set xs \<Longrightarrow> x \<noteq> y \<Longrightarrow> R x y \<or> R y x"
  by (induction xs) auto

section \<open>Printing\<close>

lemma digit_char_inj: "a < 10 \<Longrightarrow> b < 10 \<Longrightarrow> digit_char a = digit_char b \<Longrightarrow> a = b"
proof -
  assume "a < 10" "b < 10" and eq: "digit_char a = digit_char b"
  then have "(of_char (digit_char a) :: nat) = of_char (digit_char b)" by simp
  with \<open>a < 10\<close> \<open>b < 10\<close> show "a = b" by (simp add: digit_char_def of_char_of)
qed

lemma show_nat_ne [simp]: "show_nat n \<noteq> []" "[] \<noteq> show_nat n"
  by (subst show_nat.simps, simp)+

lemma show_nat_inj: "show_nat a = show_nat b \<Longrightarrow> a = b"
proof (induction a arbitrary: b rule: show_nat.induct)
  case (1 a)
  show ?case
  proof (cases "a < 10 \<or> b < 10")
    case True
    with "1.prems" show ?thesis
      by (auto simp: show_nat.simps [of a] show_nat.simps [of b] digit_char_inj split: if_splits)
  next
    case False
    with "1.prems" have "show_nat (a div 10) = show_nat (b div 10)"
      and d: "digit_char (a mod 10) = digit_char (b mod 10)"
      by (auto simp: show_nat.simps [of a] show_nat.simps [of b])
    with "1.IH" False have "a div 10 = b div 10" by auto
    moreover from d have "a mod 10 = b mod 10" by (auto intro: digit_char_inj)
    ultimately show ?thesis by (metis div_mult_mod_eq)
  qed
qed

lemma set_show_nat: "set (show_nat n) \<subseteq> digit_char ` {..<10}"
proof (induction n rule: show_nat.induct)
  case (1 n)
  then show ?case by (subst show_nat.simps) auto
qed

lemma digit_char_nondigit:
  assumes "d < 10" and "of_char c < (48::nat) \<or> 57 < (of_char c :: nat)"
  shows "digit_char d \<noteq> c"
proof
  assume "digit_char d = c"
  then have "(of_char c :: nat) = 48 + d"
    using assms(1) by (auto simp: digit_char_def of_char_of)
  with assms show False by auto
qed

lemma nondigit_not_in_show_nat:
  "of_char c < (48::nat) \<or> 57 < (of_char c :: nat) \<Longrightarrow> c \<notin> set (show_nat n)"
  using set_show_nat [of n] digit_char_nondigit by fastforce

lemma show_int_inj: "show_int a = show_int b \<Longrightarrow> a = b"
proof -
  assume eq: "show_int a = show_int b"
  have m: "CHR ''-'' \<notin> set (show_nat n)" for n
    by (rule nondigit_not_in_show_nat) simp
  have hd: "show_nat n = CHR ''-'' # xs \<Longrightarrow> False" for n xs
    using m [of n] by simp
  from eq show "a = b"
    by (auto simp: show_int_def split: if_splits dest!: show_nat_inj hd hd [OF sym])
qed

lemma of_char_digit: "d < 10 \<Longrightarrow> of_char (digit_char d) = (48 + d :: nat)"
  by (simp add: digit_char_def of_char_of)

lemma digits_value_show_nat [simp]: "digits_value (show_nat n) = Some n"
proof -
  have "foldl (\<lambda>n c. n * 10 + (of_char c - 48)) 0 (show_nat n) = n"
  proof (induction n rule: show_nat.induct)
    case (1 n)
    then show ?case by (subst show_nat.simps) (simp add: of_char_digit)
  qed
  moreover have "list_all (\<lambda>c. 48 \<le> (of_char c :: nat) \<and> (of_char c :: nat) \<le> 57) (show_nat n)"
    using set_show_nat [of n] by (auto simp: list_all_iff of_char_digit)
  ultimately show ?thesis by (simp add: digits_value_def)
qed

lemma nonint_not_in_show_int:
  "c \<noteq> CHR ''-'' \<Longrightarrow> of_char c < (48::nat) \<or> 57 < (of_char c :: nat) \<Longrightarrow> c \<notin> set (show_int n)"
  by (auto simp: show_int_def nondigit_not_in_show_nat)

section \<open>Bytes\<close>

lemma length_as_bytes [simp]: "length (as_bytes s) = length s"
  by (simp add: as_bytes_def)

lemma inj_byte_of_char: "inj (\<lambda>c::char. (word_of_nat (of_char c) :: byte))"
proof (rule injI)
  fix c d :: char
  assume "(word_of_nat (of_char c) :: byte) = word_of_nat (of_char d)"
  then have "unat (word_of_nat (of_char c) :: byte) = unat (word_of_nat (of_char d) :: byte)"
    by simp
  then have "(of_char c :: nat) = of_char d"
    by (simp add: unat_of_nat of_char_mod_256 del: of_char_eq_iff)
  then show "c = d" by simp
qed

lemma as_bytes_inj [simp]: "as_bytes s = as_bytes t \<longleftrightarrow> s = t"
  unfolding as_bytes_def by (rule inj_map_eq_map [OF inj_byte_of_char])

lemma length_be_bytes [simp]: "length (be_bytes w) = 8"
  by (simp add: be_bytes_def)

lemma be_bytes_nth_bit:
  assumes "n < 64"
  shows "bit (be_bytes w ! (7 - n div 8)) (n mod 8) = bit w n"
proof -
  have "n div 8 < 8" using assms by simp
  then have "n div 8 \<in> {0, 1, 2, 3, 4, 5, 6, 7}" by auto
  then have "be_bytes w ! (7 - n div 8) = ucast (drop_bit (8 * (n div 8)) w)"
    by (auto simp: be_bytes_def)
  then show ?thesis
    by (simp add: bit_ucast_iff bit_drop_bit_eq)
qed

lemma be_bytes_inj [simp]: "be_bytes v = be_bytes w \<longleftrightarrow> v = w"
proof
  assume eq: "be_bytes v = be_bytes w"
  show "v = w"
  proof (rule bit_word_eqI)
    fix n assume "n < LENGTH(64)"
    then have "n < 64" by simp
    from be_bytes_nth_bit [OF this, of v] be_bytes_nth_bit [OF this, of w] eq
    show "bit v n = bit w n" by simp
  qed
qed simp

lemma word_of_int_i64_inj:
  assumes "in_i64 a" "in_i64 b"
  shows "(word_of_int a :: 64 word) = word_of_int b \<longleftrightarrow> a = b"
proof
  assume "(word_of_int a :: 64 word) = word_of_int b"
  then have "uint (word_of_int a :: 64 word) = uint (word_of_int b :: 64 word)" by simp
  then have "2 ^ 64 dvd a - b"
    by (simp add: uint_word_of_int mod_eq_dvd_iff)
  then obtain k where "a - b = 2 ^ 64 * k" by (elim dvdE)
  then have k: "a - b = 18446744073709551616 * k" by simp
  have "a < 9223372036854775808" "b < 9223372036854775808"
    "- 9223372036854775808 \<le> a" "- 9223372036854775808 \<le> b"
    using assms by (simp_all add: in_i64_def)
  with k have "k < 1" "- 1 < k" by linarith+
  with k show "a = b" by simp
qed simp

lemma word_of_nat_64_inj:
  assumes "a < 2 ^ 64" "b < 2 ^ 64"
  shows "(word_of_nat a :: 64 word) = word_of_nat b \<longleftrightarrow> a = b"
proof
  assume "(word_of_nat a :: 64 word) = word_of_nat b"
  then have "unat (word_of_nat a :: 64 word) = unat (word_of_nat b :: 64 word)" by simp
  with assms show "a = b" by (simp add: unat_of_nat)
qed simp

end
