(* ===== verification/Json.thy ===== *)
theory Json
  imports Prelude
begin

text \<open>
  JSON values as the sources use \<open>serde_json::Value\<close>. An object is an association list;
  \<open>serde_json::Map\<close> (built without \<open>preserve_order\<close>) is an ordered map, so the lists
  that occur have strictly increasing keys, which \<open>wf_json\<close> states. A number is an
  integer or the printed form of a finite float; the printer writes a float with a
  fraction or an exponent, so the two never print alike.
\<close>

section \<open>Definitions\<close>

datatype json_number = JInt int | JFloat string

datatype json =
    JNull
  | JBool bool
  | JNumber json_number
  | JString string
  | JArray "json list"
  | JObject "(string \<times> json) list"

fun number_text :: "json_number \<Rightarrow> string" where
  "number_text (JInt i) = show_int i"
| "number_text (JFloat t) = t"

text \<open>\<open>Value::get\<close>, \<open>as_str\<close>, \<open>as_array\<close>, \<open>as_bool\<close>, \<open>as_i64\<close>.\<close>

fun json_get :: "json \<Rightarrow> string \<Rightarrow> json option" where
  "json_get (JObject kvs) k = map_of kvs k"
| "json_get _ k = None"

fun as_str :: "json \<Rightarrow> string option" where
  "as_str (JString s) = Some s"
| "as_str _ = None"

fun as_array :: "json \<Rightarrow> json list option" where
  "as_array (JArray xs) = Some xs"
| "as_array _ = None"

fun as_bool :: "json \<Rightarrow> bool option" where
  "as_bool (JBool b) = Some b"
| "as_bool _ = None"

fun as_i64 :: "json \<Rightarrow> int option" where
  "as_i64 (JNumber (JInt i)) = (if in_i64 i then Some i else None)"
| "as_i64 _ = None"

text \<open>\<open>Map::insert\<close>: ordered by key, a present key keeps its place and takes the new value.\<close>

fun object_insert :: "string \<Rightarrow> json \<Rightarrow> (string \<times> json) list \<Rightarrow> (string \<times> json) list" where
  "object_insert k v [] = [(k, v)]"
| "object_insert k v ((k', v') # kvs) =
     (if k < k' then (k, v) # (k', v') # kvs
      else if k = k' then (k, v) # kvs
      else (k', v') # object_insert k v kvs)"

definition wf_number :: "json_number \<Rightarrow> bool" where
  "wf_number n =
     (case n of
        JInt i \<Rightarrow> - (2 ^ 63) \<le> i \<and> i < 2 ^ 64
      | JFloat t \<Rightarrow> CHR ''.'' \<in> set t \<or> CHR ''e'' \<in> set t)"

text \<open>Values that can exist: ordered duplicate-free objects, lengths that fit \<open>usize\<close>.\<close>

fun wf_json :: "json \<Rightarrow> bool" where
  "wf_json JNull = True"
| "wf_json (JBool b) = True"
| "wf_json (JNumber n) = (wf_number n \<and> length (number_text n) < 2 ^ 64)"
| "wf_json (JString s) = (length s < 2 ^ 64)"
| "wf_json (JArray xs) = (length xs < 2 ^ 64 \<and> (\<forall>x \<in> set xs. wf_json x))"
| "wf_json (JObject kvs) =
     (length kvs < 2 ^ 64 \<and> sorted_wrt (<) (map fst kvs) \<and>
      (\<forall>kv \<in> set kvs. length (fst kv) < 2 ^ 64 \<and> wf_json (snd kv)))"

text \<open>The value with every object's members in key order: what two spellings of one JSON
  document have in common.\<close>

fun json_norm :: "json \<Rightarrow> json" where
  "json_norm (JArray xs) = JArray (map json_norm xs)"
| "json_norm (JObject kvs) =
     JObject (map (\<lambda>kv. (fst kv, json_norm (snd kv))) (sort_key fst kvs))"
| "json_norm v = v"

section \<open>Lemmas\<close>

lemma number_text_inj:
  assumes "wf_number a" "wf_number b" "number_text a = number_text b"
  shows "a = b"
proof -
  have no: "CHR ''.'' \<notin> set (show_int i)" "CHR ''e'' \<notin> set (show_int i)" for i
    by (rule nonint_not_in_show_int; simp)+
  show ?thesis
    using assms no by (cases a; cases b) (auto simp: wf_number_def dest: show_int_inj)
qed

lemma sort_key_sorted: "sorted_wrt (<) (map fst kvs) \<Longrightarrow> sort_key fst (kvs :: ('a::linorder \<times> 'b) list) = kvs"
proof -
  assume "sorted_wrt (<) (map fst kvs)"
  then have "sorted (map fst kvs)" by (rule strict_sorted_imp_sorted)
  then show ?thesis by (rule sort_key_id_if_sorted)
qed

lemma json_norm_wf: "wf_json j \<Longrightarrow> json_norm j = j"
proof (induction j)
  case (JArray xs)
  then show ?case by (auto intro: map_idI)
next
  case (JObject kvs)
  then have s: "sort_key fst kvs = kvs" by (auto intro: sort_key_sorted)
  have "map (\<lambda>kv. (fst kv, json_norm (snd kv))) kvs = kvs"
  proof (rule map_idI)
    fix kv assume "kv \<in> set kvs"
    moreover have "snd kv \<in> Basic_BNFs.snds kv" by (simp add: snds.simps)
    ultimately have "json_norm (snd kv) = snd kv" using JObject by auto
    then show "(fst kv, json_norm (snd kv)) = kv" by simp
  qed
  with s show ?case by simp
qed auto

lemma map_of_object_insert [simp]:
  "sorted_wrt (<) (map fst kvs) \<Longrightarrow> map_of (object_insert k v kvs) = (map_of kvs)(k \<mapsto> v)"
  by (induction k v kvs rule: object_insert.induct) (auto simp: fun_eq_iff)

lemma set_fst_object_insert: "fst ` set (object_insert k v kvs) = insert k (fst ` set kvs)"
  by (induction k v kvs rule: object_insert.induct) auto

lemma sorted_object_insert:
  "sorted_wrt (<) (map fst kvs) \<Longrightarrow> sorted_wrt (<) (map fst (object_insert k v kvs))"
  by (induction k v kvs rule: object_insert.induct)
    (auto simp: set_fst_object_insert [unfolded image_set, simplified] image_iff
      dest: order.strict_trans)

end
