(* ===== verification/Core.thy ===== *)
theory Core
  imports Json
begin

text \<open>
  The shared types of \<^verbatim>\<open>crates/ukiel-core\<close>: identifiers, part metadata, atomic catalog
  mutations with their outcomes, placement policies, table and pipeline definitions.
  The identifier newtypes are their \<open>i64\<close>.
\<close>

type_synonym hypertable_id = i64
type_synonym logical_table_id = i64
type_synonym part_id = i64
type_synonym commit_id = i64
type_synonym namespace_id = i64
type_synonym pipeline_id = i64
type_synonym stream_table_id = i64

section \<open>Definitions\<close>

record part_meta =
  path :: string
  partition_values :: json
  packing_key_min :: i64
  packing_key_max :: i64
  row_count :: i64
  size_bytes :: i64
  level :: i16
  column_stats :: "json option"

record column_range =
  cr_column :: string
  cr_min :: "i64 option"
  cr_max :: "i64 option"

record part =
  part_id :: part_id
  part_hypertable :: hypertable_id
  part_meta :: part_meta
  created_by_commit :: commit_id

datatype commit_op =
    Add "part_meta list"
  | Replace "part_id list" "part_meta list"
  | Delete "part_id list"

fun commit_op_kind :: "commit_op \<Rightarrow> string" where
  "commit_op_kind (Add parts) = ''add''"
| "commit_op_kind (Replace old new) = ''replace''"
| "commit_op_kind (Delete parts) = ''delete''"

datatype commit_result = Committed commit_id | AlreadyApplied commit_id

fun commit_result_id :: "commit_result \<Rightarrow> commit_id" where
  "commit_result_id (Committed c) = c"
| "commit_result_id (AlreadyApplied c) = c"

record change_event =
  ev_commit_id :: commit_id
  ev_kind :: string
  ev_added :: "part list"
  ev_removed :: "part_id list"

datatype placement = Packed | Separated | SizeTargeted i64

fun placement_from_db :: "i64 option \<Rightarrow> placement" where
  "placement_from_db None = Packed"
| "placement_from_db (Some n) = (if n \<le> 0 then Separated else SizeTargeted n)"

fun placement_to_db :: "placement \<Rightarrow> i64 option" where
  "placement_to_db Packed = None"
| "placement_to_db Separated = Some 0"
| "placement_to_db (SizeTargeted n) = Some n"

record hypertable =
  ht_id :: hypertable_id
  ht_name :: string
  table_schema :: json
  partition_spec :: json
  sort_key_cols :: "string list"
  packing_key :: string
  ht_placement :: placement

record logical_table =
  lt_id :: logical_table_id
  lt_namespace :: namespace_id
  lt_name :: string
  lt_hypertable :: hypertable_id
  column_mapping :: "json option"

datatype endpoint_kind = KafkaKind | ParquetKind

datatype endpoint = Kafka stream_table_id | Parquet hypertable_id

fun endpoint_kind_of :: "endpoint \<Rightarrow> endpoint_kind" where
  "endpoint_kind_of (Kafka i) = KafkaKind"
| "endpoint_kind_of (Parquet i) = ParquetKind"

fun endpoint_id :: "endpoint \<Rightarrow> i64" where
  "endpoint_id (Kafka i) = i"
| "endpoint_id (Parquet i) = i"

datatype error_policy = Stall | Skip

datatype delivery = ExactlyOnce

record stream_table_definition =
  std_name :: string
  std_topic :: string
  std_format :: string
  std_schema :: json

record stream_table =
  st_id :: stream_table_id
  st_definition :: stream_table_definition

record pipeline_definition =
  pd_name :: string
  pd_source :: endpoint
  pd_target :: hypertable_id
  pd_sql :: string
  pd_delivery :: delivery
  pd_error_policy :: error_policy
  pd_event_time_column :: "string option"

record pipeline =
  pl_id :: pipeline_id
  pl_definition :: pipeline_definition

section \<open>Properties\<close>

text \<open>The placement policy survives its database encoding: every stored nullable
  \<open>BIGINT\<close> decodes, decoding what was encoded gives the policy back for every policy a
  table can carry, and encoding what was decoded changes only non-positive targets, to 0.\<close>

lemma placement_db_roundtrip:
  "(p = Packed \<or> p = Separated \<or> (\<exists>n > 0. p = SizeTargeted n)
      \<longleftrightarrow> placement_from_db (placement_to_db p) = p)
   \<and> placement_to_db (placement_from_db v) = map_option (\<lambda>n. max 0 n) v"
  by (cases p; cases v) auto

end
