(* ===== verification/Schema.thy ===== *)
theory Schema
  imports Core
begin

text \<open>
  Table schemas, \<^verbatim>\<open>crates/ukiel-core/src/schema.rs\<close>: parsing the catalog's JSON column
  list, the input, physical and query schemas derived from it, and the type name a result
  field reports. An Arrow \<open>Field\<close> is its name, data type, nullability and metadata; an
  Arrow \<open>Schema\<close> is its field list, and \<open>index_of\<close> is the position of the first field
  with the name.
\<close>

section \<open>Definitions\<close>

datatype data_type = Int64 | Float64 | Utf8 | Utf8View | Boolean | OtherType string

record field =
  f_name :: string
  f_type :: data_type
  f_nullable :: bool
  f_metadata :: "(string \<times> string) list"

type_synonym schema = "field list"

fun index_of :: "schema \<Rightarrow> string \<Rightarrow> nat option" where
  "index_of [] name = None"
| "index_of (f # fs) name = (if f_name f = name then Some 0 else map_option Suc (index_of fs name))"

text \<open>A name in single quotes, as the error messages print it.\<close>

definition quoted :: "string \<Rightarrow> string" where
  "quoted s = CHR 0x27 # s @ [CHR 0x27]"

definition UKIEL_TYPE_META :: string where
  "UKIEL_TYPE_META = ''ukiel:type''"

datatype schema_error = Invalid string | UnsupportedType string

text \<open>\<open>other\<close> is the lower-cased \<open>Debug\<close> print of an Arrow type outside the table types.\<close>

definition ukiel_type_of :: "field \<Rightarrow> string" where
  "ukiel_type_of f =
     (case map_of (f_metadata f) UKIEL_TYPE_META of
        Some t \<Rightarrow> t
      | None \<Rightarrow>
          (case f_type f of
             Int64 \<Rightarrow> ''int64''
           | Float64 \<Rightarrow> ''float64''
           | Utf8 \<Rightarrow> ''utf8''
           | Utf8View \<Rightarrow> ''utf8''
           | Boolean \<Rightarrow> ''bool''
           | OtherType other \<Rightarrow> other))"

datatype column_kind = Stored | Default string | Materialized string | Alias string

record column_spec =
  cs_name :: string
  cs_type :: data_type
  cs_nullable :: bool
  cs_kind :: column_kind
  cs_ukiel_type :: string
  cs_bloom :: bool

type_synonym table_columns = "column_spec list"

definition parse_type :: "string \<Rightarrow> (schema_error, data_type) result" where
  "parse_type type_name =
     (if type_name = ''int64'' \<or> type_name = ''timestamp_ms'' then Inr Int64
      else if type_name = ''float64'' then Inr Float64
      else if type_name = ''utf8'' then Inr Utf8
      else if type_name = ''bool'' then Inr Boolean
      else Inl (UnsupportedType type_name))"

definition get_str :: "json \<Rightarrow> string \<Rightarrow> string option" where
  "get_str f key = Option.bind (json_get f key) as_str"

definition get_bool :: "json \<Rightarrow> string \<Rightarrow> bool option" where
  "get_bool f key = Option.bind (json_get f key) as_bool"

definition parse_kind :: "string \<Rightarrow> json \<Rightarrow> (schema_error, column_kind) result" where
  "parse_kind name f =
     (case (get_str f ''default'', get_str f ''materialized'', get_str f ''alias'') of
        (None, None, None) \<Rightarrow> Inr Stored
      | (Some e, None, None) \<Rightarrow> Inr (Default e)
      | (None, Some e, None) \<Rightarrow> Inr (Materialized e)
      | (None, None, Some e) \<Rightarrow> Inr (Alias e)
      | _ \<Rightarrow> Inl (Invalid (''field '' @ quoted name @ '': default/materialized/alias are mutually exclusive'')))"

fun is_alias :: "column_kind \<Rightarrow> bool" where
  "is_alias (Alias e) = True"
| "is_alias _ = False"

definition parse_field :: "json \<Rightarrow> (schema_error, column_spec) result" where
  "parse_field f =
     rbind (ok_or (get_str f ''name'') (Invalid (''field missing '' @ quoted ''name''))) (\<lambda>name.
     rbind (ok_or (get_str f ''type'') (Invalid (''field '' @ quoted name @ '' missing '' @ quoted ''type''))) (\<lambda>type_name.
     let nullable = (case get_bool f ''nullable'' of None \<Rightarrow> True | Some b \<Rightarrow> b) in
     rbind (parse_type type_name) (\<lambda>data_type.
     rbind (parse_kind name f) (\<lambda>kind.
     let bloom = (case get_bool f ''bloom_filter'' of None \<Rightarrow> False | Some b \<Rightarrow> b) in
     if bloom \<and> is_alias kind then
       Inl (Invalid (''field '' @ quoted name @ '': bloom_filter is invalid on an alias column (never stored)''))
     else Inr \<lparr>cs_name = name, cs_type = data_type, cs_nullable = nullable, cs_kind = kind,
                cs_ukiel_type = type_name, cs_bloom = bloom\<rparr>))))"

fun parse_fields :: "json list \<Rightarrow> (schema_error, table_columns) result" where
  "parse_fields [] = Inr []"
| "parse_fields (f # fs) = rbind (parse_field f) (\<lambda>s. rbind (parse_fields fs) (\<lambda>ss. Inr (s # ss)))"

definition parse :: "json \<Rightarrow> (schema_error, table_columns) result" where
  "parse v =
     rbind (ok_or (Option.bind (json_get v ''fields'') as_array) (Invalid (''missing '' @ quoted ''fields'' @ '' array'')))
       parse_fields"

definition field_of :: "column_spec \<Rightarrow> field" where
  "field_of s =
     \<lparr>f_name = cs_name s, f_type = cs_type s, f_nullable = cs_nullable s,
      f_metadata = (if cs_ukiel_type s = ''timestamp_ms'' then [(UKIEL_TYPE_META, cs_ukiel_type s)] else [])\<rparr>"

definition schema_where :: "(column_kind \<Rightarrow> bool) \<Rightarrow> table_columns \<Rightarrow> schema" where
  "schema_where include_kind specs = map field_of (filter (\<lambda>s. include_kind (cs_kind s)) specs)"

fun is_input :: "column_kind \<Rightarrow> bool" where
  "is_input Stored = True"
| "is_input (Default e) = True"
| "is_input _ = False"

definition input_schema :: "table_columns \<Rightarrow> schema" where
  "input_schema = schema_where is_input"

definition physical_schema :: "table_columns \<Rightarrow> schema" where
  "physical_schema = schema_where (\<lambda>k. \<not> is_alias k)"

definition query_schema :: "table_columns \<Rightarrow> schema" where
  "query_schema = schema_where (\<lambda>_. True)"

definition bloom_columns :: "table_columns \<Rightarrow> string list" where
  "bloom_columns specs = map cs_name (filter (\<lambda>s. cs_bloom s \<and> \<not> is_alias (cs_kind s)) specs)"

definition arrow_schema_from_json :: "json \<Rightarrow> (schema_error, schema) result" where
  "arrow_schema_from_json v = rbind (parse v) (\<lambda>cols. Inr (physical_schema cols))"

section \<open>Lemmas\<close>

lemma index_of_None_iff: "index_of s name = None \<longleftrightarrow> name \<notin> f_name ` set s"
  by (induction s) auto

lemma index_of_Some_nth: "index_of s name = Some i \<Longrightarrow> i < length s \<and> f_name (s ! i) = name"
  by (induction s arbitrary: i) (auto split: if_splits)

lemma parse_type_type_of:
  "parse_type t = Inr d \<Longrightarrow>
     ukiel_type_of \<lparr>f_name = n, f_type = d, f_nullable = b,
       f_metadata = (if t = ''timestamp_ms'' then [(UKIEL_TYPE_META, t)] else [])\<rparr> = t"
  by (auto simp: parse_type_def ukiel_type_of_def split: if_splits)

lemma parse_field_Inr:
  assumes "parse_field f = Inr s"
  shows "get_str f ''name'' = Some (cs_name s)" and "get_str f ''type'' = Some (cs_ukiel_type s)"
    and "parse_type (cs_ukiel_type s) = Inr (cs_type s)"
    and "\<not> (cs_bloom s \<and> is_alias (cs_kind s))"
  using assms by (auto simp: parse_field_def Let_def rbind_eq_Inr_iff split: if_splits)

lemma parse_fields_all:
  "parse_fields fs = Inr ss \<longleftrightarrow> list_all2 (\<lambda>f s. parse_field f = Inr s) fs ss"
proof (induction fs arbitrary: ss)
  case (Cons f fs)
  then show ?case by (cases ss) (auto simp: rbind_eq_Inr_iff)
qed auto

lemma parse_spec:
  assumes "parse v = Inr specs" and "s \<in> set specs"
  shows "\<exists>f. parse_field f = Inr s"
  using assms by (auto simp: parse_def rbind_eq_Inr_iff parse_fields_all list_all2_conv_all_nth in_set_conv_nth)

section \<open>Properties\<close>

text \<open>A table's declared type names survive the Arrow schema: in every schema derived
  from a parsed table, each field reports exactly the type its column declared, although
  \<open>int64\<close> and \<open>timestamp_ms\<close> share one Arrow type.\<close>

lemma declared_type_survives:
  assumes "parse v = Inr specs" and "s \<in> set specs"
  shows "ukiel_type_of (field_of s) = cs_ukiel_type s"
proof -
  from parse_spec [OF assms] obtain f where "parse_field f = Inr s" ..
  from parse_type_type_of [OF parse_field_Inr(3) [OF this]] show ?thesis by (simp add: field_of_def)
qed

text \<open>Parsing is all-or-nothing and positional: it succeeds exactly when every field
  parses, with one column per field in order, and then every bloom column is a stored
  column of the physical schema, and the physical schema is the query schema without the
  alias columns.\<close>

lemma parse_schemas:
  assumes "parse v = Inr specs"
  shows "(\<exists>fs. Option.bind (json_get v ''fields'') as_array = Some fs \<and>
            list_all2 (\<lambda>f s. parse_field f = Inr s) fs specs) \<and>
    set (bloom_columns specs) \<subseteq> f_name ` set (physical_schema specs) \<and>
    (\<forall>s \<in> set specs. cs_bloom s \<longrightarrow> \<not> is_alias (cs_kind s)) \<and>
    subseq (physical_schema specs) (query_schema specs) \<and>
    length (physical_schema specs) + length (filter (\<lambda>s. is_alias (cs_kind s)) specs)
      = length (query_schema specs)"
proof (intro conjI)
  show "\<exists>fs. Option.bind (json_get v ''fields'') as_array = Some fs \<and>
            list_all2 (\<lambda>f s. parse_field f = Inr s) fs specs"
    using assms by (auto simp: parse_def rbind_eq_Inr_iff parse_fields_all)
  show "set (bloom_columns specs) \<subseteq> f_name ` set (physical_schema specs)"
    by (auto simp: bloom_columns_def physical_schema_def schema_where_def field_of_def image_iff)
  show "\<forall>s \<in> set specs. cs_bloom s \<longrightarrow> \<not> is_alias (cs_kind s)"
    using parse_spec [OF assms] parse_field_Inr(4) by blast
  show "subseq (physical_schema specs) (query_schema specs)"
    unfolding physical_schema_def query_schema_def schema_where_def
    by (intro subseq_map) simp
  show "length (physical_schema specs) + length (filter (\<lambda>s. is_alias (cs_kind s)) specs)
      = length (query_schema specs)"
    using sum_length_filter_compl [of "\<lambda>s. is_alias (cs_kind s)" specs]
    by (simp add: physical_schema_def query_schema_def schema_where_def)
qed

end
