(* ===== verification/Sorting.thy ===== *)
theory Sorting
  imports Schema
begin

text \<open>
  The ordering convention and the write-side layout policy,
  \<^verbatim>\<open>crates/ukiel-core/src/sorting.rs\<close>: registration-time validation of a sort key, the
  sorting-column stamps, and the writer properties of a level. \<open>WriterProperties\<close> is
  modelled by the settings the code chooses.
\<close>

section \<open>Definitions\<close>

definition SORT_DESCENDING :: bool where "SORT_DESCENDING = False"
definition SORT_NULLS_FIRST :: bool where "SORT_NULLS_FIRST = True"

datatype sort_key_error =
    Empty
  | PackingKeyNotFirst string string
  | UnknownColumn string
  | TsNotInSortKey string
  | SortArrow

record sorting_column =
  column_idx :: nat
  sc_descending :: bool
  sc_nulls_first :: bool

definition sorting_columns :: "schema \<Rightarrow> string list \<Rightarrow> sorting_column list" where
  "sorting_columns s cols =
     map (\<lambda>i. \<lparr>column_idx = i, sc_descending = SORT_DESCENDING, sc_nulls_first = SORT_NULLS_FIRST\<rparr>)
       (List.map_filter (index_of s) cols)"

definition DEFAULT_MAX_ROW_GROUP_ROWS :: nat where
  "DEFAULT_MAX_ROW_GROUP_ROWS = 128 * 1024"

record write_opts =
  wo_level :: i16
  wo_ts_column :: "string option"
  wo_bloom_columns :: "string list"
  wo_max_row_group_rows :: nat

definition write_opts_for_level :: "i16 \<Rightarrow> write_opts" where
  "write_opts_for_level l =
     \<lparr>wo_level = l, wo_ts_column = None, wo_bloom_columns = [],
      wo_max_row_group_rows = DEFAULT_MAX_ROW_GROUP_ROWS\<rparr>"

definition write_opts_from_columns :: "table_columns \<Rightarrow> string list \<Rightarrow> i16 \<Rightarrow> write_opts" where
  "write_opts_from_columns cols key l =
     \<lparr>wo_level = l,
      wo_ts_column =
        find (\<lambda>name. list_ex (\<lambda>s. cs_name s = name \<and> cs_ukiel_type s = ''timestamp_ms'') cols) key,
      wo_bloom_columns = bloom_columns cols,
      wo_max_row_group_rows = DEFAULT_MAX_ROW_GROUP_ROWS\<rparr>"

datatype compression = LZ4_RAW | ZSTD

record writer_properties =
  wp_compression :: compression
  wp_max_row_group_rows :: nat
  wp_sorting :: "sorting_column list option"
  wp_delta_packed :: "string list"
  wp_dictionary_off :: "string list"
  wp_bloom :: "string list"

definition writer_props :: "schema \<Rightarrow> string list \<Rightarrow> write_opts \<Rightarrow> writer_properties" where
  "writer_props s key opts =
     (let sorting = sorting_columns s key;
          ts = (case wo_ts_column opts of
                  Some ts \<Rightarrow> if index_of s ts \<noteq> None then [ts] else []
                | None \<Rightarrow> [])
      in \<lparr>wp_compression = (if wo_level opts = 0 then LZ4_RAW else ZSTD),
          wp_max_row_group_rows = wo_max_row_group_rows opts,
          wp_sorting = (if sorting \<noteq> [] then Some sorting else None),
          wp_delta_packed = ts,
          wp_dictionary_off = ts,
          wp_bloom = filter (\<lambda>c. index_of s c \<noteq> None) (wo_bloom_columns opts)\<rparr>)"

definition sorted_writer_props :: "schema \<Rightarrow> string list \<Rightarrow> writer_properties" where
  "sorted_writer_props s key = writer_props s key (write_opts_for_level 1)"

definition validate_sort_key ::
  "schema \<Rightarrow> string list \<Rightarrow> string \<Rightarrow> string option \<Rightarrow> (sort_key_error, unit) result" where
  "validate_sort_key s key packing ts_column =
     (case key of
        [] \<Rightarrow> Inl Empty
      | first # _ \<Rightarrow>
          if first \<noteq> packing then Inl (PackingKeyNotFirst first packing)
          else
            case find (\<lambda>name. index_of s name = None) key of
              Some name \<Rightarrow> Inl (UnknownColumn name)
            | None \<Rightarrow>
                case ts_column of
                  Some ts \<Rightarrow> if ts \<notin> set key then Inl (TsNotInSortKey ts) else Inr ()
                | None \<Rightarrow> Inr ())"

section \<open>Lemmas\<close>

lemma find_SomeD: "find P xs = Some x \<Longrightarrow> x \<in> set xs \<and> P x"
  by (auto simp: find_Some_iff)

lemma validate_sort_key_Inr:
  "validate_sort_key s key packing ts_column = Inr () \<longleftrightarrow>
     (\<exists>rest. key = packing # rest) \<and> set key \<subseteq> f_name ` set s \<and> set_option ts_column \<subseteq> set key"
proof (cases key)
  case (Cons k ks)
  have "find (\<lambda>name. index_of s name = None) (k # ks) = None \<longleftrightarrow> set (k # ks) \<subseteq> f_name ` set s"
    by (auto simp only: find_None_iff index_of_None_iff)
  with Cons show ?thesis
    by (cases "find (\<lambda>name. index_of s name = None) (k # ks)"; cases ts_column)
      (auto simp: validate_sort_key_def simp del: find.simps split: if_splits)
qed (auto simp: validate_sort_key_def)

section \<open>Properties\<close>

text \<open>A sort key passes registration exactly when the packing key leads it, every
  column of it is in the schema, and a declared time column is in it; each refusal names
  the reason the code checks first.\<close>

lemma validate_sort_key_spec:
  "(validate_sort_key s key packing ts_column = Inr () \<longleftrightarrow>
      (\<exists>rest. key = packing # rest) \<and> set key \<subseteq> f_name ` set s \<and> set_option ts_column \<subseteq> set key)
   \<and> (validate_sort_key s key packing ts_column = Inl Empty \<longleftrightarrow> key = [])
   \<and> (\<exists>name. validate_sort_key s key packing ts_column = Inl (UnknownColumn name)) =
      ((\<exists>rest. key = packing # rest) \<and> \<not> set key \<subseteq> f_name ` set s)"
proof (intro conjI)
  show "(\<exists>name. validate_sort_key s key packing ts_column = Inl (UnknownColumn name)) =
      ((\<exists>rest. key = packing # rest) \<and> \<not> set key \<subseteq> f_name ` set s)"
  proof (cases key)
    case (Cons k ks)
    have "find (\<lambda>name. index_of s name = None) (k # ks) = None \<longleftrightarrow> set (k # ks) \<subseteq> f_name ` set s"
      by (auto simp only: find_None_iff index_of_None_iff)
    with Cons show ?thesis
      by (cases "find (\<lambda>name. index_of s name = None) (k # ks)"; cases ts_column)
        (auto simp: validate_sort_key_def simp del: find.simps split: if_splits)
  qed (simp add: validate_sort_key_def)
  show "validate_sort_key s key packing ts_column = Inl Empty \<longleftrightarrow> key = []"
    by (simp add: validate_sort_key_def split: list.splits option.splits)
qed (rule validate_sort_key_Inr)

text \<open>Once validated, the stamps written into a file cover the whole sort key in
  order, ascending with nulls first, and start with the packing key; a delta-packed time
  column is always one of the sort columns.\<close>

lemma validated_stamps_cover_sort_key:
  assumes "validate_sort_key (physical_schema cols) key packing ts_column = Inr ()"
  shows "map (\<lambda>c. f_name (physical_schema cols ! column_idx c))
           (sorting_columns (physical_schema cols) key) = key \<and>
    (\<forall>c \<in> set (sorting_columns (physical_schema cols) key). \<not> sc_descending c \<and> sc_nulls_first c) \<and>
    (\<forall>c \<in> set (wp_delta_packed (writer_props (physical_schema cols) key
          (write_opts_from_columns cols key l))). c \<in> set key) \<and>
    wp_sorting (writer_props (physical_schema cols) key (write_opts_from_columns cols key l)) \<noteq> None"
proof -
  let ?s = "physical_schema cols"
  from assms have key: "key \<noteq> []" "set key \<subseteq> f_name ` set ?s"
    by (auto simp: validate_sort_key_Inr)
  have names: "map (\<lambda>c. f_name (?s ! column_idx c)) (sorting_columns ?s ks) = ks"
    if "set ks \<subseteq> f_name ` set ?s" for ks
    using that
  proof (induction ks)
    case (Cons k ks)
    then obtain i where "index_of ?s k = Some i"
      using index_of_None_iff [of ?s k] by (cases "index_of ?s k") auto
    with Cons show ?case
      by (auto simp: sorting_columns_def map_filter_def dest: index_of_Some_nth)
  qed (simp add: sorting_columns_def map_filter_def)
  from names [OF key(2)] key(1) have ne: "sorting_columns ?s key \<noteq> []" by auto
  have "\<forall>c \<in> set (wp_delta_packed (writer_props ?s key (write_opts_from_columns cols key l))). c \<in> set key"
    by (auto simp: writer_props_def write_opts_from_columns_def Let_def
        split: option.splits if_splits dest!: sym [of "Some _"] find_SomeD)
  with names [OF key(2)] ne show ?thesis
    by (auto simp: sorting_columns_def SORT_DESCENDING_def SORT_NULLS_FIRST_def writer_props_def Let_def)
qed

lemma validated_stamps_cover_sort_key_witness:
  "map (\<lambda>c. f_name (physical_schema [\<lparr>cs_name = ''k'', cs_type = Int64, cs_nullable = False,
       cs_kind = Stored, cs_ukiel_type = ''int64'', cs_bloom = False\<rparr>] ! column_idx c))
     (sorting_columns (physical_schema [\<lparr>cs_name = ''k'', cs_type = Int64, cs_nullable = False,
       cs_kind = Stored, cs_ukiel_type = ''int64'', cs_bloom = False\<rparr>]) [''k'']) = [''k'']"
proof -
  have "validate_sort_key (physical_schema [\<lparr>cs_name = ''k'', cs_type = Int64, cs_nullable = False,
       cs_kind = Stored, cs_ukiel_type = ''int64'', cs_bloom = False\<rparr>]) [''k''] ''k'' None = Inr ()"
    by (simp add: validate_sort_key_def physical_schema_def schema_where_def field_of_def)
  from validated_stamps_cover_sort_key [OF this] show ?thesis by blast
qed

end
