(* ===== verification/Operation.thy ===== *)
theory Operation
  imports Core
begin

text \<open>
  Canonical logical identities of retryable catalog mutations,
  \<^verbatim>\<open>crates/ukiel-core/src/operation.rs\<close>: the type-tagged, length-delimited canonical
  bytes, the normalisation of input parts and offset ranges, and the four identity
  factories. \<open>Canonical\<close> is an append-only buffer; each method is modelled by the bytes it
  appends. The digest \<open>blake3::hash\<close> is a parameter; results that need it to separate
  different inputs say so.

  The interface \<open>prefix_code\<close> states what makes a byte encoding self-delimiting; every
  encoder of the module is shown to be one, and from that the canonical bytes of two
  intents agree only when the intents do.
\<close>

section \<open>Definitions\<close>

definition MAX_OPERATION_KEY_LEN :: nat where
  "MAX_OPERATION_KEY_LEN = 128"

record operation_identity =
  oi_hypertable :: hypertable_id
  oi_key :: string
  oi_fingerprint :: bytes

text \<open>\<open>str::split\<close> on one character, and the domain segment of a key; \<open>None\<close> is the panic
  of \<open>expect\<close>.\<close>

fun split_char :: "char \<Rightarrow> string \<Rightarrow> string list" where
  "split_char c [] = [[]]"
| "split_char c (x # xs) =
     (if x = c then [] # split_char c xs
      else case split_char c xs of [] \<Rightarrow> [[x]] | y # ys \<Rightarrow> (x # y) # ys)"

definition oi_domain :: "operation_identity \<Rightarrow> string option" where
  "oi_domain i =
     (let segs = split_char (CHR ''/'') (oi_key i) in if 1 < length segs then Some (segs ! 1) else None)"

datatype ingest_range =
  IngestRange (ir_topic: string) (ir_partition: i32) (ir_first: i64) (ir_last: i64)

text \<open>The derived \<open>Ord\<close>: lexicographic in the order of the fields.\<close>

instantiation ingest_range :: linorder
begin

definition less_eq_ingest_range :: "ingest_range \<Rightarrow> ingest_range \<Rightarrow> bool" where
  "r \<le> r' \<longleftrightarrow> (ir_topic r, ir_partition r, ir_first r, ir_last r)
      \<le> (ir_topic r', ir_partition r', ir_first r', ir_last r')"

definition less_ingest_range :: "ingest_range \<Rightarrow> ingest_range \<Rightarrow> bool" where
  "r < r' \<longleftrightarrow> (ir_topic r, ir_partition r, ir_first r, ir_last r)
      < (ir_topic r', ir_partition r', ir_first r', ir_last r')"

instance
  by intro_classes
    (auto simp: less_eq_ingest_range_def less_ingest_range_def ingest_range.expand)

end

record mv_intent =
  mv_pipeline :: pipeline_id
  mv_source_hypertable :: hypertable_id
  mv_source_commit :: commit_id
  mv_version :: u32

record compaction_intent =
  ci_output_level :: i16
  ci_input_parts :: "part_id list"
  ci_partition_values :: json
  ci_table_schema :: json
  ci_sort_key :: "string list"
  ci_placement :: placement
  ci_version :: u32

record delete_key_intent =
  dk_packing_key :: i64
  dk_input_parts :: "part_id list"
  dk_table_schema :: json
  dk_sort_key :: "string list"
  dk_placement :: placement
  dk_version :: u32

datatype operation_error =
    InvalidId string i64
  | MvSelfLoop
  | NoInputParts
  | DuplicateInputPart i64
  | NoOffsetRanges
  | EmptyTopic
  | InvertedOffsetRange string i32 i64 i64
  | OverlappingOffsetRanges string i32 i64 i64
  | EmptySortKey
  | KeyTooLong nat

definition TAG_STR :: byte where "TAG_STR = 0x02"
definition TAG_INT :: byte where "TAG_INT = 0x03"
definition TAG_LIST :: byte where "TAG_LIST = 0x04"
definition TAG_JSON_NULL :: byte where "TAG_JSON_NULL = 0x10"
definition TAG_JSON_BOOL :: byte where "TAG_JSON_BOOL = 0x11"
definition TAG_JSON_NUMBER :: byte where "TAG_JSON_NUMBER = 0x12"
definition TAG_JSON_STRING :: byte where "TAG_JSON_STRING = 0x13"
definition TAG_JSON_ARRAY :: byte where "TAG_JSON_ARRAY = 0x14"
definition TAG_JSON_OBJECT :: byte where "TAG_JSON_OBJECT = 0x15"

definition canon_len :: "nat \<Rightarrow> bytes" where
  "canon_len n = be_bytes (word_of_nat n)"

definition canon_str :: "string \<Rightarrow> bytes" where
  "canon_str s = TAG_STR # canon_len (length s) @ as_bytes s"

definition canon_int :: "i64 \<Rightarrow> bytes" where
  "canon_int v = TAG_INT # be_bytes (word_of_int v)"

definition canon_list :: "('a \<Rightarrow> bytes) \<Rightarrow> 'a list \<Rightarrow> bytes" where
  "canon_list each items = TAG_LIST # canon_len (length items) @ concat (map each items)"

fun canon_json :: "json \<Rightarrow> bytes" where
  "canon_json JNull = [TAG_JSON_NULL]"
| "canon_json (JBool b) = [TAG_JSON_BOOL, (if b then 1 else 0)]"
| "canon_json (JNumber n) =
     (let s = number_text n in TAG_JSON_NUMBER # canon_len (length s) @ as_bytes s)"
| "canon_json (JString s) = TAG_JSON_STRING # canon_len (length s) @ as_bytes s"
| "canon_json (JArray items) =
     TAG_JSON_ARRAY # canon_len (length items) @ concat (map canon_json items)"
| "canon_json (JObject m) =
     TAG_JSON_OBJECT # canon_len (length m)
       @ concat (map (\<lambda>kv. canon_len (length (fst kv)) @ as_bytes (fst kv) @ canon_json (snd kv))
           (sort_key fst m))"

fun canon_placement :: "placement \<Rightarrow> bytes" where
  "canon_placement Packed = canon_str ''packed''"
| "canon_placement Separated = canon_str ''separated''"
| "canon_placement (SizeTargeted n) = canon_str ''size_targeted'' @ canon_int n"

definition canonical_parts :: "part_id list \<Rightarrow> (operation_error, i64 list) result" where
  "canonical_parts parts =
     (if parts = [] then Inl NoInputParts
      else
        let ids = sort parts in
        case find (\<lambda>w. fst w = snd w) (windows2 ids) of
          Some dup \<Rightarrow> Inl (DuplicateInputPart (fst dup))
        | None \<Rightarrow> Inr ids)"

fun check_ranges :: "ingest_range list \<Rightarrow> (operation_error, unit) result" where
  "check_ranges [] = Inr ()"
| "check_ranges (r # rs) =
     (if ir_topic r = [] then Inl EmptyTopic
      else if ir_first r > ir_last r then
        Inl (InvertedOffsetRange (ir_topic r) (ir_partition r) (ir_first r) (ir_last r))
      else check_ranges rs)"

definition overlapping :: "ingest_range \<times> ingest_range \<Rightarrow> bool" where
  "overlapping w \<longleftrightarrow> ir_topic (fst w) = ir_topic (snd w) \<and> ir_partition (fst w) = ir_partition (snd w) \<and>
     ir_first (snd w) \<le> ir_last (fst w)"

definition canonical_ranges :: "ingest_range list \<Rightarrow> (operation_error, ingest_range list) result" where
  "canonical_ranges ranges =
     (if ranges = [] then Inl NoOffsetRanges
      else
        let sorted = sort ranges in
        rbind (check_ranges sorted) (\<lambda>_.
          case find overlapping (windows2 sorted) of
            Some w \<Rightarrow> Inl (OverlappingOffsetRanges (ir_topic (snd w)) (ir_partition (snd w))
                        (ir_first (snd w)) (ir_last (snd w)))
          | None \<Rightarrow> Inr sorted))"

definition hex :: "bytes \<Rightarrow> string" where
  "hex bs = concat (map hex_byte bs)"

definition canonical_bytes :: "hypertable_id \<Rightarrow> string \<Rightarrow> u32 \<Rightarrow> bytes \<Rightarrow> bytes" where
  "canonical_bytes ht domain version body =
     canon_str ''ukiel'' @ canon_str domain @ canon_int (int version) @ canon_int ht @ body"

definition operation_key :: "string \<Rightarrow> u32 \<Rightarrow> bytes \<Rightarrow> string" where
  "operation_key domain version fingerprint =
     ''ukiel/'' @ domain @ ''/v'' @ show_nat version @ ''/'' @ hex fingerprint"

definition finish ::
  "(bytes \<Rightarrow> bytes) \<Rightarrow> hypertable_id \<Rightarrow> string \<Rightarrow> u32 \<Rightarrow> bytes
   \<Rightarrow> (operation_error, operation_identity) result" where
  "finish blake3 ht domain version body =
     (let fingerprint = blake3 (canonical_bytes ht domain version body);
          key = operation_key domain version fingerprint
      in if length key > MAX_OPERATION_KEY_LEN then Inl (KeyTooLong (length key))
         else Inr \<lparr>oi_hypertable = ht, oi_key = key, oi_fingerprint = fingerprint\<rparr>)"

fun check_ids :: "(string \<times> i64) list \<Rightarrow> (operation_error, unit) result" where
  "check_ids [] = Inr ()"
| "check_ids ((field, value) # rest) =
     (if value \<le> 0 then Inl (InvalidId field value) else check_ids rest)"

definition mv_body :: "mv_intent \<Rightarrow> bytes" where
  "mv_body i = canon_int (int (mv_version i)) @ canon_int (mv_pipeline i)
     @ canon_int (mv_source_hypertable i) @ canon_int (mv_source_commit i)"

definition mv ::
  "(bytes \<Rightarrow> bytes) \<Rightarrow> hypertable_id \<Rightarrow> mv_intent \<Rightarrow> (operation_error, operation_identity) result" where
  "mv blake3 target i =
     rbind (check_ids [(''target_hypertable_id'', target), (''pipeline_id'', mv_pipeline i),
              (''source_hypertable_id'', mv_source_hypertable i), (''source_commit_id'', mv_source_commit i)])
       (\<lambda>_. if target = mv_source_hypertable i then Inl MvSelfLoop
             else finish blake3 target ''mv'' 1 (mv_body i))"

definition canon_range :: "ingest_range \<Rightarrow> bytes" where
  "canon_range r = canon_str (ir_topic r) @ canon_int (ir_partition r)
     @ canon_int (ir_first r) @ canon_int (ir_last r)"

definition ingest_body :: "u32 \<Rightarrow> ingest_range list \<Rightarrow> bytes" where
  "ingest_body version ranges = canon_int (int version) @ canon_list canon_range ranges"

definition ingest ::
  "(bytes \<Rightarrow> bytes) \<Rightarrow> hypertable_id \<Rightarrow> ingest_range list \<Rightarrow> u32
   \<Rightarrow> (operation_error, operation_identity) result" where
  "ingest blake3 ht ranges version =
     rbind (canonical_ranges ranges) (\<lambda>rs. finish blake3 ht ''ingest'' 1 (ingest_body version rs))"

definition compaction_body :: "compaction_intent \<Rightarrow> i64 list \<Rightarrow> bytes" where
  "compaction_body i parts =
     canon_int (int (ci_version i)) @ canon_int (ci_output_level i) @ canon_list canon_int parts
     @ canon_json (ci_partition_values i) @ canon_json (ci_table_schema i)
     @ canon_list canon_str (ci_sort_key i) @ canon_placement (ci_placement i)"

definition compaction ::
  "(bytes \<Rightarrow> bytes) \<Rightarrow> hypertable_id \<Rightarrow> compaction_intent
   \<Rightarrow> (operation_error, operation_identity) result" where
  "compaction blake3 ht i =
     rbind (canonical_parts (ci_input_parts i)) (\<lambda>parts.
       if ci_sort_key i = [] then Inl EmptySortKey
       else finish blake3 ht ''compaction'' 1 (compaction_body i parts))"

definition delete_key_body :: "delete_key_intent \<Rightarrow> i64 list \<Rightarrow> bytes" where
  "delete_key_body i parts =
     canon_int (int (dk_version i)) @ canon_int (dk_packing_key i) @ canon_list canon_int parts
     @ canon_json (dk_table_schema i) @ canon_list canon_str (dk_sort_key i)
     @ canon_placement (dk_placement i)"

definition delete_key ::
  "(bytes \<Rightarrow> bytes) \<Rightarrow> hypertable_id \<Rightarrow> delete_key_intent
   \<Rightarrow> (operation_error, operation_identity) result" where
  "delete_key blake3 ht i =
     rbind (canonical_parts (dk_input_parts i)) (\<lambda>parts.
       if dk_sort_key i = [] then Inl EmptySortKey
       else finish blake3 ht ''delete-key'' 1 (delete_key_body i parts))"

definition from_stored ::
  "hypertable_id \<Rightarrow> string \<Rightarrow> bytes \<Rightarrow> (operation_error, operation_identity) result" where
  "from_stored ht key fingerprint =
     (if length key > MAX_OPERATION_KEY_LEN then Inl (KeyTooLong (length key))
      else Inr \<lparr>oi_hypertable = ht, oi_key = key, oi_fingerprint = fingerprint\<rparr>)"

text \<open>The four kinds of logical intent, on which hypertable, as one type, and the factory
  that serves each. \<open>intent_norm\<close> forgets what is not intent: the order the input parts or
  ranges were listed in, and the key order of JSON objects.\<close>

datatype intent =
    MvIntent hypertable_id mv_intent
  | IngestIntent hypertable_id "ingest_range list" u32
  | CompactionIntent hypertable_id compaction_intent
  | DeleteKeyIntent hypertable_id delete_key_intent

fun identity_of :: "(bytes \<Rightarrow> bytes) \<Rightarrow> intent \<Rightarrow> (operation_error, operation_identity) result" where
  "identity_of h (MvIntent ht i) = mv h ht i"
| "identity_of h (IngestIntent ht rs v) = ingest h ht rs v"
| "identity_of h (CompactionIntent ht i) = compaction h ht i"
| "identity_of h (DeleteKeyIntent ht i) = delete_key h ht i"

fun intent_norm :: "intent \<Rightarrow> intent" where
  "intent_norm (MvIntent ht i) = MvIntent ht i"
| "intent_norm (IngestIntent ht rs v) = IngestIntent ht (sort rs) v"
| "intent_norm (CompactionIntent ht i) =
     CompactionIntent ht (i\<lparr>ci_input_parts := sort (ci_input_parts i),
       ci_partition_values := json_norm (ci_partition_values i),
       ci_table_schema := json_norm (ci_table_schema i)\<rparr>)"
| "intent_norm (DeleteKeyIntent ht i) =
     DeleteKeyIntent ht (i\<lparr>dk_input_parts := sort (dk_input_parts i),
       dk_table_schema := json_norm (dk_table_schema i)\<rparr>)"

fun intent_bytes :: "intent \<Rightarrow> bytes" where
  "intent_bytes (MvIntent ht i) = canonical_bytes ht ''mv'' 1 (mv_body i)"
| "intent_bytes (IngestIntent ht rs v) = canonical_bytes ht ''ingest'' 1 (ingest_body v (sort rs))"
| "intent_bytes (CompactionIntent ht i) =
     canonical_bytes ht ''compaction'' 1 (compaction_body i (sort (ci_input_parts i)))"
| "intent_bytes (DeleteKeyIntent ht i) =
     canonical_bytes ht ''delete-key'' 1 (delete_key_body i (sort (dk_input_parts i)))"

text \<open>What the Rust types guarantee of an intent's fields.\<close>

definition wf_str :: "string \<Rightarrow> bool" where
  "wf_str s \<longleftrightarrow> length s < 2 ^ 64"

fun wf_placement :: "placement \<Rightarrow> bool" where
  "wf_placement (SizeTargeted n) = in_i64 n"
| "wf_placement _ = True"

definition wf_range :: "ingest_range \<Rightarrow> bool" where
  "wf_range r \<longleftrightarrow> wf_str (ir_topic r) \<and> in_i64 (ir_partition r) \<and> in_i64 (ir_first r) \<and> in_i64 (ir_last r)"

definition wf_list :: "('a \<Rightarrow> bool) \<Rightarrow> 'a list \<Rightarrow> bool" where
  "wf_list P xs \<longleftrightarrow> length xs < 2 ^ 64 \<and> (\<forall>x \<in> set xs. P x)"

definition wf_u32 :: "nat \<Rightarrow> bool" where
  "wf_u32 n \<longleftrightarrow> n < 2 ^ 32"

fun wf_intent :: "intent \<Rightarrow> bool" where
  "wf_intent (MvIntent ht i) =
     (in_i64 ht \<and> wf_u32 (mv_version i) \<and> in_i64 (mv_pipeline i) \<and>
      in_i64 (mv_source_hypertable i) \<and> in_i64 (mv_source_commit i))"
| "wf_intent (IngestIntent ht rs v) = (in_i64 ht \<and> wf_u32 v \<and> wf_list wf_range rs)"
| "wf_intent (CompactionIntent ht i) =
     (in_i64 ht \<and> wf_u32 (ci_version i) \<and> in_i64 (ci_output_level i) \<and>
      wf_list in_i64 (ci_input_parts i) \<and> wf_json (ci_partition_values i) \<and>
      wf_json (ci_table_schema i) \<and> wf_list wf_str (ci_sort_key i) \<and> wf_placement (ci_placement i))"
| "wf_intent (DeleteKeyIntent ht i) =
     (in_i64 ht \<and> wf_u32 (dk_version i) \<and> in_i64 (dk_packing_key i) \<and>
      wf_list in_i64 (dk_input_parts i) \<and> wf_json (dk_table_schema i) \<and>
      wf_list wf_str (dk_sort_key i) \<and> wf_placement (dk_placement i))"

section \<open>Self-delimiting encodings\<close>

lemma concat_map_prefix_free:
  assumes "\<And>x y s t. x \<in> set xs \<Longrightarrow> y \<in> set ys \<Longrightarrow> f x @ s = f y @ t \<Longrightarrow> x = y \<and> s = t"
    and "length xs = length ys" and "concat (map f xs) @ s = concat (map f ys) @ t"
  shows "xs = ys \<and> s = t"
  using assms(2,1,3)
proof (induction xs ys rule: list_induct2)
  case (Cons x xs y ys)
  from Cons.prems(2) have "f x @ concat (map f xs) @ s = f y @ concat (map f ys) @ t" by simp
  with Cons.prems(1) have "x = y \<and> concat (map f xs) @ s = concat (map f ys) @ t"
    by (meson list.set_intros(1))
  moreover have "xs = ys \<and> s = t" if "concat (map f xs) @ s = concat (map f ys) @ t"
    by (rule Cons.IH [OF _ that]) (meson Cons.prems(1) list.set_intros(2))
  ultimately show ?case by blast
qed simp

text \<open>An encoding is self-delimiting on a domain when no encoding of one value is a prefix
  of the encoding of another: what follows it in the buffer cannot change how it reads.\<close>

locale prefix_code =
  fixes enc :: "'a \<Rightarrow> bytes" and valid :: "'a \<Rightarrow> bool"
  assumes prefix_free: "valid x \<Longrightarrow> valid y \<Longrightarrow> enc x @ s = enc y @ t \<Longrightarrow> x = y \<and> s = t"
begin

lemma cancel: "valid x \<Longrightarrow> valid y \<Longrightarrow> enc x @ s = enc y @ t \<longleftrightarrow> x = y \<and> s = t"
  using prefix_free by blast

lemma injective: "valid x \<Longrightarrow> valid y \<Longrightarrow> enc x = enc y \<longleftrightarrow> x = y"
  using prefix_free [of x y "[]" "[]"] by auto

lemma list_cancel:
  assumes "wf_list valid xs" "wf_list valid ys"
  shows "canon_list enc xs @ s = canon_list enc ys @ t \<longleftrightarrow> xs = ys \<and> s = t"
proof
  assume eq: "canon_list enc xs @ s = canon_list enc ys @ t"
  then have "canon_len (length xs) = canon_len (length ys)"
    and body: "concat (map enc xs) @ s = concat (map enc ys) @ t"
    by (auto simp: canon_list_def canon_len_def)
  then have "length xs = length ys"
    using assms by (simp add: canon_len_def wf_list_def word_of_nat_64_inj)
  then show "xs = ys \<and> s = t"
    by (rule concat_map_prefix_free [rotated, OF _ body])
      (use assms prefix_free in \<open>unfold wf_list_def, blast\<close>)
qed simp

end

lemma delimited_bytes_cancel:
  assumes "length a < 2 ^ 64" "length b < 2 ^ 64"
  shows "canon_len (length a) @ as_bytes a @ s = canon_len (length b) @ as_bytes b @ t
         \<longleftrightarrow> a = b \<and> s = t"
  using assms by (auto simp: canon_len_def word_of_nat_64_inj append_eq_append_conv)

lemma canon_len_cancel:
  "a < 2 ^ 64 \<Longrightarrow> b < 2 ^ 64 \<Longrightarrow> canon_len a @ s = canon_len b @ t \<longleftrightarrow> a = b \<and> s = t"
  by (auto simp: canon_len_def word_of_nat_64_inj)

interpretation str_code: prefix_code canon_str wf_str
  by unfold_locales (auto simp: canon_str_def wf_str_def delimited_bytes_cancel)

interpretation int_code: prefix_code canon_int in_i64
  by unfold_locales (auto simp: canon_int_def word_of_int_i64_inj)

interpretation range_code: prefix_code canon_range wf_range
  by unfold_locales
    (auto simp: canon_range_def wf_range_def str_code.cancel int_code.cancel ingest_range.expand)

lemmas json_tags =
  TAG_JSON_NULL_def TAG_JSON_BOOL_def TAG_JSON_NUMBER_def TAG_JSON_STRING_def
  TAG_JSON_ARRAY_def TAG_JSON_OBJECT_def

fun json_tag :: "json \<Rightarrow> byte" where
  "json_tag JNull = TAG_JSON_NULL"
| "json_tag (JBool b) = TAG_JSON_BOOL"
| "json_tag (JNumber n) = TAG_JSON_NUMBER"
| "json_tag (JString s) = TAG_JSON_STRING"
| "json_tag (JArray xs) = TAG_JSON_ARRAY"
| "json_tag (JObject kvs) = TAG_JSON_OBJECT"

lemma canon_json_tag: "canon_json x = json_tag x # tl (canon_json x)"
  by (cases x) (simp_all add: Let_def)

lemma canon_json_tag_eq: "canon_json x @ s = canon_json y @ t \<Longrightarrow> json_tag y = json_tag x"
  by (metis canon_json_tag append_Cons list.inject)

lemma json_tag_simps:
  "json_tag y = TAG_JSON_NULL \<longleftrightarrow> y = JNull"
  "json_tag y = TAG_JSON_BOOL \<longleftrightarrow> (\<exists>b. y = JBool b)"
  "json_tag y = TAG_JSON_NUMBER \<longleftrightarrow> (\<exists>n. y = JNumber n)"
  "json_tag y = TAG_JSON_STRING \<longleftrightarrow> (\<exists>u. y = JString u)"
  "json_tag y = TAG_JSON_ARRAY \<longleftrightarrow> (\<exists>xs. y = JArray xs)"
  "json_tag y = TAG_JSON_OBJECT \<longleftrightarrow> (\<exists>kvs. y = JObject kvs)"
  by (cases y; simp add: json_tags)+

lemma canon_json_prefix_free:
  "wf_json x \<Longrightarrow> wf_json y \<Longrightarrow> canon_json x @ s = canon_json y @ t \<Longrightarrow> x = y \<and> s = t"
proof (induction x arbitrary: y s t)
  case JNull
  then have "y = JNull" using canon_json_tag_eq [OF JNull(3)] by (simp add: json_tag_simps)
  with JNull show ?case by simp
next
  case (JBool b)
  then obtain c where "y = JBool c"
    using canon_json_tag_eq [OF JBool(3)] by (auto simp: json_tag_simps)
  with JBool show ?case by (auto split: if_splits)
next
  case (JNumber n)
  then obtain m where "y = JNumber m"
    using canon_json_tag_eq [OF JNumber(3)] by (auto simp: json_tag_simps)
  with JNumber show ?case by (simp add: Let_def delimited_bytes_cancel number_text_inj)
next
  case (JString u)
  then obtain v where "y = JString v"
    using canon_json_tag_eq [OF JString(3)] by (auto simp: json_tag_simps)
  with JString show ?case by (simp add: delimited_bytes_cancel)
next
  case (JArray xs)
  then obtain ys where y: "y = JArray ys"
    using canon_json_tag_eq [OF JArray.prems(3)] by (auto simp: json_tag_simps)
  with JArray.prems have len: "length xs = length ys"
    and body: "concat (map canon_json xs) @ s = concat (map canon_json ys) @ t"
    by (simp_all add: canon_len_cancel)
  have "xs = ys \<and> s = t"
  proof (rule concat_map_prefix_free [OF _ len body])
    fix a b u v
    assume "a \<in> set xs" "b \<in> set ys" "canon_json a @ u = canon_json b @ v"
    with JArray.prems(1,2) y show "a = b \<and> u = v" by (intro JArray.IH) auto
  qed
  with y show ?case by simp
next
  case (JObject kvs)
  let ?f = "\<lambda>kv. canon_len (length (fst kv)) @ as_bytes (fst kv) @ canon_json (snd kv)"
  from JObject.prems obtain ls where y: "y = JObject ls"
    using canon_json_tag_eq [OF JObject.prems(3)] by (auto simp: json_tag_simps)
  have srt: "sort_key fst kvs = kvs" "sort_key fst ls = ls"
    using JObject.prems(1,2) y by (auto intro: sort_key_sorted)
  with JObject.prems y have len: "length kvs = length ls"
    and body: "concat (map ?f kvs) @ s = concat (map ?f ls) @ t"
    by (simp_all add: canon_len_cancel)
  have "kvs = ls \<and> s = t"
  proof (rule concat_map_prefix_free [OF _ len body])
    fix a b u v
    assume ab: "a \<in> set kvs" "b \<in> set ls" and eq: "?f a @ u = ?f b @ v"
    with JObject.prems(1,2) y have wf: "length (fst a) < 2 ^ 64" "length (fst b) < 2 ^ 64"
      "wf_json (snd a)" "wf_json (snd b)" by simp_all
    with eq have ab': "fst a = fst b" "canon_json (snd a) @ u = canon_json (snd b) @ v"
      by (simp_all add: delimited_bytes_cancel)
    have "snd a \<in> Basic_BNFs.snds a" by (simp add: snds.simps)
    from JObject.IH [OF ab(1) this wf(3,4) ab'(2)] ab'(1)
    show "a = b \<and> u = v" by (simp add: prod_eq_iff)
  qed
  with y show ?case by simp
qed

interpretation json_code: prefix_code canon_json wf_json
  by unfold_locales (rule canon_json_prefix_free)

interpretation placement_code: prefix_code canon_placement wf_placement
proof unfold_locales
  have w: "wf_str ''packed''" "wf_str ''separated''" "wf_str ''size_targeted''"
    by (simp_all add: wf_str_def)
  fix x y s t
  assume "wf_placement x" "wf_placement y" "canon_placement x @ s = canon_placement y @ t"
  with w show "x = y \<and> s = t"
    by (cases x; cases y) (auto simp: str_code.cancel int_code.cancel)
qed

lemma canon_json_norm: "canon_json (json_norm j) = canon_json j"
proof (induction j)
  case (JArray xs)
  then show ?case by (auto intro!: arg_cong [where f = concat])
next
  case (JObject kvs)
  let ?n = "\<lambda>kv. (fst kv, json_norm (snd kv))"
  have "sort_key fst (map ?n (sort_key fst kvs)) = map ?n (sort_key fst kvs)"
    by (rule sort_key_id_if_sorted) (simp add: comp_def)
  moreover have "canon_json (json_norm (snd kv)) = canon_json (snd kv)" if "kv \<in> set kvs" for kv
    using JObject that by (auto simp: snds.simps)
  ultimately show ?case
    by (auto simp: comp_def intro!: arg_cong [where f = concat])
qed auto

section \<open>Normalised inputs\<close>

lemma canonical_parts_Inr:
  "canonical_parts parts = Inr ids \<longleftrightarrow> parts \<noteq> [] \<and> distinct parts \<and> ids = sort parts"
proof -
  have "find (\<lambda>w. fst w = snd w) (windows2 (sort parts)) = None \<longleftrightarrow> distinct parts"
    using sorted_distinct_windows2 [of "sort parts"] by (auto simp: find_None_iff)
  then show ?thesis
    by (auto simp: canonical_parts_def Let_def split: option.splits)
qed

lemma check_ranges_Inr:
  "check_ranges rs = Inr () \<longleftrightarrow> (\<forall>r \<in> set rs. ir_topic r \<noteq> [] \<and> ir_first r \<le> ir_last r)"
  by (induction rs) auto

text \<open>In a sorted list of non-inverted ranges, adjacent ranges of one topic partition that do
  not overlap push every later range of that partition past the earlier ones.\<close>

lemma sorted_ranges_disjoint:
  assumes "sorted rs" "\<forall>r \<in> set rs. ir_first r \<le> ir_last r"
    "\<forall>w \<in> set (windows2 rs). \<not> overlapping w"
  shows "sorted_wrt (\<lambda>r r'. ir_topic r = ir_topic r' \<and> ir_partition r = ir_partition r'
           \<longrightarrow> ir_last r < ir_first r') rs"
  using assms
proof (induction rs rule: windows2.induct)
  case (1 x y rs)
  have tail: "sorted_wrt (\<lambda>r r'. ir_topic r = ir_topic r' \<and> ir_partition r = ir_partition r'
           \<longrightarrow> ir_last r < ir_first r') (y # rs)"
    using 1 by auto
  have xy: "ir_topic x = ir_topic y \<and> ir_partition x = ir_partition y \<longrightarrow> ir_last x < ir_first y"
    using "1.prems" by (auto simp: overlapping_def)
  have "ir_last x < ir_first r"
    if r: "r \<in> set rs" and eq: "ir_topic x = ir_topic r" "ir_partition x = ir_partition r" for r
  proof -
    have "x \<le> y" "y \<le> r" using "1.prems"(1) r by auto
    with eq have "ir_topic y = ir_topic r \<and> ir_partition y = ir_partition r"
      by (auto simp: less_eq_ingest_range_def)
    with tail r xy eq "1.prems"(2) show ?thesis by fastforce
  qed
  with tail xy show ?case by auto
qed auto

lemma wf_list_sort [simp]: "wf_list P (sort xs) \<longleftrightarrow> wf_list P xs"
  by (simp add: wf_list_def)

section \<open>Identities and intents\<close>

lemma in_i64_0 [simp]: "in_i64 0"
  by (simp add: in_i64_def)

lemma in_i64_u32: "wf_u32 n \<Longrightarrow> in_i64 (int n)"
  by (simp add: wf_u32_def in_i64_def)

lemmas code_cancel =
  str_code.cancel int_code.cancel json_code.cancel str_code.list_cancel int_code.list_cancel
  range_code.list_cancel

lemma domain_wf: "wf_str ''ukiel''" "wf_str ''mv''" "wf_str ''ingest''" "wf_str ''compaction''"
  "wf_str ''delete-key''"
  by (simp_all add: wf_str_def)

lemma canonical_bytes_cancel:
  assumes "wf_str d" "wf_str d'" "in_i64 ht" "in_i64 ht'"
  shows "canonical_bytes ht d v b = canonical_bytes ht' d' v b' \<longleftrightarrow> d = d' \<and> ht = ht' \<and> b = b'"
  using assms by (auto simp: canonical_bytes_def str_code.cancel int_code.cancel)

lemma mv_body_inj:
  assumes "wf_intent (MvIntent 0 i)" "wf_intent (MvIntent 0 j)"
  shows "mv_body i = mv_body j \<longleftrightarrow> i = j"
  using assms
  by (auto simp: mv_body_def int_code.cancel int_code.injective in_i64_u32 mv_intent.equality)

lemma ingest_body_inj:
  assumes "wf_u32 v" "wf_u32 v'" "wf_list wf_range rs" "wf_list wf_range rs'"
  shows "ingest_body v rs = ingest_body v' rs' \<longleftrightarrow> v = v' \<and> rs = rs'"
  using assms range_code.list_cancel [of rs rs' "[]" "[]"]
  by (auto simp: ingest_body_def int_code.cancel in_i64_u32)

lemma compaction_body_inj:
  assumes "wf_intent (CompactionIntent 0 i)" "wf_intent (CompactionIntent 0 j)"
  shows "compaction_body i (sort (ci_input_parts i)) = compaction_body j (sort (ci_input_parts j))
    \<longleftrightarrow> i\<lparr>ci_input_parts := sort (ci_input_parts i)\<rparr> = j\<lparr>ci_input_parts := sort (ci_input_parts j)\<rparr>"
  using assms
  by (cases i; cases j)
    (auto simp: compaction_body_def code_cancel in_i64_u32 placement_code.injective)

lemma delete_key_body_inj:
  assumes "wf_intent (DeleteKeyIntent 0 i)" "wf_intent (DeleteKeyIntent 0 j)"
  shows "delete_key_body i (sort (dk_input_parts i)) = delete_key_body j (sort (dk_input_parts j))
    \<longleftrightarrow> i\<lparr>dk_input_parts := sort (dk_input_parts i)\<rparr> = j\<lparr>dk_input_parts := sort (dk_input_parts j)\<rparr>"
  using assms
  by (cases i; cases j)
    (auto simp: delete_key_body_def code_cancel in_i64_u32 placement_code.injective)

lemma intent_bytes_inj:
  assumes "wf_intent i" "wf_intent j"
  shows "intent_bytes i = intent_bytes j \<longleftrightarrow> intent_norm i = intent_norm j"
proof (cases i)
  case (MvIntent ht m)
  with assms show ?thesis
    by (cases j) (auto simp: canonical_bytes_cancel domain_wf mv_body_inj)
next
  case (IngestIntent ht rs v)
  with assms show ?thesis
    by (cases j) (auto simp: canonical_bytes_cancel domain_wf ingest_body_inj)
next
  case (CompactionIntent ht c)
  with assms show ?thesis
    by (cases j) (auto simp: canonical_bytes_cancel domain_wf json_norm_wf compaction_body_inj)
next
  case (DeleteKeyIntent ht c)
  with assms show ?thesis
    by (cases j) (auto simp: canonical_bytes_cancel domain_wf json_norm_wf delete_key_body_inj)
qed

fun intent_hypertable :: "intent \<Rightarrow> hypertable_id" where
  "intent_hypertable (MvIntent ht i) = ht"
| "intent_hypertable (IngestIntent ht rs v) = ht"
| "intent_hypertable (CompactionIntent ht i) = ht"
| "intent_hypertable (DeleteKeyIntent ht i) = ht"

fun intent_domain :: "intent \<Rightarrow> string" where
  "intent_domain (MvIntent ht i) = ''mv''"
| "intent_domain (IngestIntent ht rs v) = ''ingest''"
| "intent_domain (CompactionIntent ht i) = ''compaction''"
| "intent_domain (DeleteKeyIntent ht i) = ''delete-key''"

lemma finish_Inr:
  "finish h ht d v b = Inr a \<Longrightarrow>
     a = \<lparr>oi_hypertable = ht, oi_key = operation_key d v (h (canonical_bytes ht d v b)),
          oi_fingerprint = h (canonical_bytes ht d v b)\<rparr>"
  by (auto simp: finish_def Let_def split: if_splits)

lemma identity_of_Inr:
  assumes "identity_of h i = Inr a"
  shows "a = \<lparr>oi_hypertable = intent_hypertable i,
              oi_key = operation_key (intent_domain i) 1 (h (intent_bytes i)),
              oi_fingerprint = h (intent_bytes i)\<rparr>"
  using assms
  by (cases i)
    (auto simp: mv_def ingest_def compaction_def delete_key_def canonical_ranges_def canonical_parts_Inr
       Let_def rbind_eq_Inr_iff split: if_splits option.splits dest!: finish_Inr)

lemma intent_norm_frame:
  "intent_norm i = intent_norm j \<Longrightarrow> intent_hypertable i = intent_hypertable j"
  "intent_norm i = intent_norm j \<Longrightarrow> intent_domain i = intent_domain j"
  by (cases i; cases j; simp)+

section \<open>Keys\<close>

lemma split_char_append:
  "c \<notin> set a \<Longrightarrow> split_char c (a @ c # b) = a # split_char c b"
  by (induction a) auto

lemma length_hex_byte [simp]: "length (hex_byte b) = 2"
  by (simp add: hex_byte_def)

lemma length_hex [simp]: "length (hex bs) = 2 * length bs"
  by (induction bs) (auto simp: hex_def)

lemma show_nat_1: "show_nat (Suc 0) = ''1''"
  by (subst show_nat.simps) code_simp

lemma length_operation_key:
  "length (operation_key d 1 fp) = 10 + length d + 2 * length fp"
  by (simp add: operation_key_def show_nat_1)

lemma oi_domain_operation_key:
  assumes "CHR ''/'' \<notin> set d"
  shows "oi_domain \<lparr>oi_hypertable = ht, oi_key = operation_key d v fp, oi_fingerprint = fp'\<rparr> = Some d"
proof -
  have "split_char (CHR ''/'') (operation_key d v fp)
      = ''ukiel'' # d # split_char (CHR ''/'') (''v'' @ show_nat v @ ''/'' @ hex fp)"
    unfolding operation_key_def
    using split_char_append [of "CHR ''/''" "''ukiel''"] split_char_append [OF assms] by simp
  then show ?thesis by (simp add: oi_domain_def Let_def)
qed

section \<open>Properties\<close>

text \<open>C27: identities name intent. When the digest separates the two canonical byte
  strings, two factory-built identities are equal exactly when the intents are the same
  up to the listing order of parts and ranges and the key order of JSON objects: across
  all four domains, no two different intents share an identity, because the canonical
  bytes are self-delimiting.\<close>

theorem identity_names_intent:
  assumes "wf_intent i" "wf_intent j"
    and "identity_of blake3 i = Inr a" "identity_of blake3 j = Inr b"
    and "blake3 (intent_bytes i) = blake3 (intent_bytes j) \<Longrightarrow> intent_bytes i = intent_bytes j"
  shows "a = b \<longleftrightarrow> intent_norm i = intent_norm j"
proof
  assume "a = b"
  then have "blake3 (intent_bytes i) = blake3 (intent_bytes j)"
    by (simp add: identity_of_Inr [OF assms(3)] identity_of_Inr [OF assms(4)])
  with assms(5) show "intent_norm i = intent_norm j"
    by (simp add: intent_bytes_inj [OF assms(1,2)])
next
  assume n: "intent_norm i = intent_norm j"
  then have "intent_bytes i = intent_bytes j" by (simp add: intent_bytes_inj [OF assms(1,2)])
  with n show "a = b"
    by (simp add: identity_of_Inr [OF assms(3)] identity_of_Inr [OF assms(4)] intent_norm_frame [OF n])
qed

definition toy_digest :: "bytes \<Rightarrow> bytes" where
  "toy_digest bs = replicate 31 0 @ [sum_list bs]"

theorem identity_names_intent_witness:
  "the (case identity_of toy_digest (MvIntent 10 \<lparr>mv_pipeline = 7, mv_source_hypertable = 8,
          mv_source_commit = 9, mv_version = 1\<rparr>) of Inr a \<Rightarrow> Some a | _ \<Rightarrow> None)
   \<noteq> the (case identity_of toy_digest (MvIntent 10 \<lparr>mv_pipeline = 7, mv_source_hypertable = 8,
          mv_source_commit = 13, mv_version = 1\<rparr>) of Inr a \<Rightarrow> Some a | _ \<Rightarrow> None)"
proof -
  let ?i = "MvIntent 10 \<lparr>mv_pipeline = 7, mv_source_hypertable = 8, mv_source_commit = 9, mv_version = 1\<rparr>"
  let ?j = "MvIntent 10 \<lparr>mv_pipeline = 7, mv_source_hypertable = 8, mv_source_commit = 13, mv_version = 1\<rparr>"
  have ok: "\<exists>a. identity_of toy_digest x = Inr a" if "x \<in> {?i, ?j}" for x
    using that
    by (auto simp: mv_def finish_def Let_def toy_digest_def length_operation_key [simplified]
      MAX_OPERATION_KEY_LEN_def)
  then obtain a b where a: "identity_of toy_digest ?i = Inr a" and b: "identity_of toy_digest ?j = Inr b"
    by blast
  have ne: "toy_digest (intent_bytes ?i) \<noteq> toy_digest (intent_bytes ?j)"
    by (simp add: toy_digest_def canonical_bytes_def mv_body_def canon_str_def canon_int_def
      be_bytes_def canon_len_def as_bytes_def TAG_STR_def TAG_INT_def)
  have "a \<noteq> b"
    using identity_names_intent [OF _ _ a b] ne
    by (auto simp: in_i64_def wf_u32_def)
  with a b show ?thesis by simp
qed

text \<open>Enumeration order and JSON key order are not intent: intents with the same normal
  form get the same answer from the factory, identity or error, whatever the digest.\<close>

lemma identity_ignores_enumeration_order:
  assumes "intent_norm i = intent_norm j"
  shows "identity_of blake3 i = identity_of blake3 j"
proof -
  have parts: "canonical_parts p = canonical_parts q" if "sort p = sort q" for p q
  proof -
    have "length p = length q" using arg_cong [OF that, of length] by simp
    then show ?thesis using that by (auto simp: canonical_parts_def)
  qed
  have ranges: "canonical_ranges p = canonical_ranges q" if "sort p = sort q" for p q
  proof -
    have "length p = length q" using arg_cong [OF that, of length] by simp
    then show ?thesis using that by (auto simp: canonical_ranges_def)
  qed
  have json: "canon_json u = canon_json v" if "json_norm u = json_norm v" for u v
    using canon_json_norm [of u] canon_json_norm [of v] that by simp
  show ?thesis
  proof (cases i)
    case (CompactionIntent ht x)
    with assms obtain y where j: "j = CompactionIntent ht y" by (cases j) auto
    have f: "ci_output_level x = ci_output_level y" "sort (ci_input_parts x) = sort (ci_input_parts y)"
      "json_norm (ci_partition_values x) = json_norm (ci_partition_values y)"
      "json_norm (ci_table_schema x) = json_norm (ci_table_schema y)"
      "ci_sort_key x = ci_sort_key y" "ci_placement x = ci_placement y" "ci_version x = ci_version y"
      using assms CompactionIntent j by (cases x; cases y; simp)+
    have "canonical_parts (ci_input_parts x) = canonical_parts (ci_input_parts y)"
      "compaction_body x p = compaction_body y p" for p
      using parts [OF f(2)] json [OF f(3)] json [OF f(4)]
      by (simp_all add: compaction_body_def f)
    with CompactionIntent j f(5) show ?thesis by (cases "ci_sort_key y = []") (simp_all add: compaction_def)
  next
    case (DeleteKeyIntent ht x)
    with assms obtain y where j: "j = DeleteKeyIntent ht y" by (cases j) auto
    have f: "dk_packing_key x = dk_packing_key y" "sort (dk_input_parts x) = sort (dk_input_parts y)"
      "json_norm (dk_table_schema x) = json_norm (dk_table_schema y)"
      "dk_sort_key x = dk_sort_key y" "dk_placement x = dk_placement y" "dk_version x = dk_version y"
      using assms DeleteKeyIntent j by (cases x; cases y; simp)+
    have "canonical_parts (dk_input_parts x) = canonical_parts (dk_input_parts y)"
      "delete_key_body x p = delete_key_body y p" for p
      using parts [OF f(2)] json [OF f(3)] by (simp_all add: delete_key_body_def f)
    with DeleteKeyIntent j f(4) show ?thesis by (cases "dk_sort_key y = []") (simp_all add: delete_key_def)
  next
    case (MvIntent ht x)
    with assms show ?thesis by (cases j) auto
  next
    case (IngestIntent ht rs v)
    with assms obtain ss where "j = IngestIntent ht ss v" "sort rs = sort ss" by (cases j) auto
    with IngestIntent ranges [of rs ss] show ?thesis by (simp add: ingest_def)
  qed
qed

lemma identity_ignores_enumeration_order_witness:
  "identity_of toy_digest (IngestIntent 1 [IngestRange ''t'' 0 5 9, IngestRange ''t'' 0 0 4] 1)
   = identity_of toy_digest (IngestIntent 1 [IngestRange ''t'' 0 0 4, IngestRange ''t'' 0 5 9] 1)"
proof (rule identity_ignores_enumeration_order)
  have "mset [IngestRange ''t'' 0 5 9, IngestRange ''t'' 0 0 4]
      = mset [IngestRange ''t'' 0 0 4, IngestRange ''t'' 0 5 9]" by simp
  then have "sort [IngestRange ''t'' 0 5 9, IngestRange ''t'' 0 0 4]
      = sort [IngestRange ''t'' 0 0 4, IngestRange ''t'' 0 5 9]"
    by (metis mset_sort properties_for_sort sorted_sort)
  then show "intent_norm (IngestIntent 1 [IngestRange ''t'' 0 5 9, IngestRange ''t'' 0 0 4] 1)
    = intent_norm (IngestIntent 1 [IngestRange ''t'' 0 0 4, IngestRange ''t'' 0 5 9] 1)"
    by (simp only: intent_norm.simps)
qed

text \<open>\<open>canonical_ranges\<close> accepts a list of offset ranges exactly when it is non-empty,
  every range has a topic and is not inverted, and no two ranges of one topic partition
  share an offset, adjacent in the list or not; the accepted list comes back sorted.\<close>

lemma canonical_ranges_accepts_disjoint:
  "canonical_ranges rs = Inr out \<longleftrightarrow>
     rs \<noteq> [] \<and> (\<forall>r \<in> set rs. ir_topic r \<noteq> [] \<and> ir_first r \<le> ir_last r) \<and> distinct rs \<and>
     (\<forall>r \<in> set rs. \<forall>r' \<in> set rs. r \<noteq> r' \<and> ir_topic r = ir_topic r' \<and> ir_partition r = ir_partition r'
        \<longrightarrow> {ir_first r .. ir_last r} \<inter> {ir_first r' .. ir_last r'} = {}) \<and>
     out = sort rs"
  (is "_ \<longleftrightarrow> rs \<noteq> [] \<and> ?ok \<and> distinct rs \<and> ?disj \<and> _")
proof -
  let ?no = "\<forall>w \<in> set (windows2 (sort rs)). \<not> overlapping w"
  have acc: "canonical_ranges rs = Inr out \<longleftrightarrow> rs \<noteq> [] \<and> ?ok \<and> ?no \<and> out = sort rs"
    using find_None_iff [of overlapping "windows2 (sort rs)"]
    by (cases "find overlapping (windows2 (sort rs))")
      (auto simp: canonical_ranges_def Let_def rbind_eq_Inr_iff check_ranges_Inr)
  have "?no \<longleftrightarrow> distinct rs \<and> ?disj" if ok: ?ok
  proof
    assume ?no
    with ok have sw: "sorted_wrt (\<lambda>r r'. ir_topic r = ir_topic r' \<and> ir_partition r = ir_partition r'
           \<longrightarrow> ir_last r < ir_first r') (sort rs)"
      by (intro sorted_ranges_disjoint) auto
    have d: "distinct (sort rs)"
      by (rule sorted_wrt_irrefl_distinct [OF sw]) (use ok in \<open>simp add: not_less\<close>)
    have ?disj
    proof (intro ballI impI)
      fix r r'
      assume "r \<in> set rs" "r' \<in> set rs"
        and ne: "r \<noteq> r' \<and> ir_topic r = ir_topic r' \<and> ir_partition r = ir_partition r'"
      with sorted_wrt_either [OF sw, of r r'] ne
      have "ir_last r < ir_first r' \<or> ir_last r' < ir_first r" by auto
      then show "{ir_first r .. ir_last r} \<inter> {ir_first r' .. ir_last r'} = {}" by auto
    qed
    with d show "distinct rs \<and> ?disj" by simp
  next
    assume dd: "distinct rs \<and> ?disj"
    show ?no
    proof
      fix w assume w: "w \<in> set (windows2 (sort rs))"
      obtain r r' where wr: "w = (r, r')" by (cases w)
      have in_rs: "r \<in> set rs" "r' \<in> set rs"
        using windows2_mem w wr by (metis set_sort)+
      have "r \<noteq> r'"
        using sorted_distinct_windows2 [of "sort rs"] dd w wr by auto
      moreover have "r \<le> r'"
        using sorted_wrt_windows2 [of "(\<le>)" "sort rs"] w wr by auto
      ultimately show "\<not> overlapping w"
        using dd ok in_rs by (force simp: wr overlapping_def less_eq_ingest_range_def)
    qed
  qed
  with acc show ?thesis by blast
qed

text \<open>With a 32-byte digest no factory ever fails on the key bound: every error of a
  factory is about the intent, every key fits the stored bound, and the key's domain
  segment is there to be read.\<close>

lemma factory_keys_fit:
  assumes "\<And>bs. length (blake3 bs) = 32"
  shows "(\<forall>n. identity_of blake3 i \<noteq> Inl (KeyTooLong n)) \<and>
    (\<forall>a. identity_of blake3 i = Inr a \<longrightarrow>
       length (oi_key a) \<le> MAX_OPERATION_KEY_LEN \<and> oi_domain a = Some (intent_domain i) \<and>
       from_stored (oi_hypertable a) (oi_key a) (oi_fingerprint a) = Inr a)"
proof -
  have len: "length (operation_key d 1 (blake3 bs)) \<le> MAX_OPERATION_KEY_LEN"
    if "length d \<le> 10" for d bs
    using that by (simp add: length_operation_key [simplified] assms MAX_OPERATION_KEY_LEN_def)
  have dom: "CHR ''/'' \<notin> set (intent_domain i)" "length (intent_domain i) \<le> 10"
    by (cases i; simp)+
  have fin: "finish blake3 ht d 1 b \<noteq> Inl (KeyTooLong n)" if "length d \<le> 10" for ht d b n
    using len [OF that, of "canonical_bytes ht d 1 b"] by (auto simp: finish_def Let_def)
  have ids: "check_ids xs \<noteq> Inl (KeyTooLong n)" for xs n
    by (induction xs rule: check_ids.induct) auto
  have rng: "check_ranges xs \<noteq> Inl (KeyTooLong n)" for xs n
    by (induction xs) auto
  have "identity_of blake3 i \<noteq> Inl (KeyTooLong n)" for n
    by (cases i)
      (auto simp: mv_def ingest_def compaction_def delete_key_def rbind_eq_Inl_iff canonical_ranges_def
        canonical_parts_def Let_def fin [simplified] ids [simplified] rng split: if_splits option.splits)
  moreover have "length (oi_key a) \<le> MAX_OPERATION_KEY_LEN \<and> oi_domain a = Some (intent_domain i) \<and>
       from_stored (oi_hypertable a) (oi_key a) (oi_fingerprint a) = Inr a"
    if "identity_of blake3 i = Inr a" for a
    using len [OF dom(2)] oi_domain_operation_key [OF dom(1)]
    by (simp add: identity_of_Inr [OF that] from_stored_def not_less)
  ultimately show ?thesis by blast
qed

end
