(* ===== verification/CatalogError.thy ===== *)
theory CatalogError
  imports Sorting Operation
begin

text \<open>
  The failures of the catalog client, \<^verbatim>\<open>crates/ukiel-catalog/src/error.rs\<close>, and what
  each one means: its class, the class of a driver error and of an SQLSTATE, and whether
  a role may recover from it. A partition carried by an error is its JSON value; the
  source prints it.
\<close>

section \<open>Definitions\<close>

text \<open>What the callers distinguish of an object-store error.\<close>

datatype store_error = StoreNotFound | StoreFailed

datatype catalog_error_class =
    SemanticConflict
  | OwnershipViolation
  | PermanentInput
  | AbsentResource
  | Transport
  | RetryableDatabase
  | PermanentDatabase

fun as_label :: "catalog_error_class \<Rightarrow> string" where
  "as_label SemanticConflict = ''semantic_conflict''"
| "as_label OwnershipViolation = ''ownership_violation''"
| "as_label PermanentInput = ''permanent_input''"
| "as_label AbsentResource = ''absent_resource''"
| "as_label Transport = ''transport''"
| "as_label RetryableDatabase = ''retryable_database''"
| "as_label PermanentDatabase = ''permanent_database''"

definition class_for_sqlstate :: "string \<Rightarrow> catalog_error_class" where
  "class_for_sqlstate code =
     (if code \<in> {''40001'', ''40P01'', ''55P03''} then RetryableDatabase
      else if code \<in> {''57P01'', ''57P02'', ''57P03'', ''53300''} then Transport
      else if prefix ''08'' code then Transport
      else PermanentDatabase)"

text \<open>\<open>sqlx::Error\<close>, as far as the classification looks: a \<open>Database\<close> error carries its
  SQLSTATE when it has one.\<close>

datatype sqlx_error =
    Io
  | PoolTimedOut
  | Protocol
  | PoolClosed
  | Database "string option"
  | OtherSqlx

fun class_for_db_error :: "sqlx_error \<Rightarrow> catalog_error_class" where
  "class_for_db_error Io = Transport"
| "class_for_db_error PoolTimedOut = Transport"
| "class_for_db_error Protocol = Transport"
| "class_for_db_error PoolClosed = PermanentDatabase"
| "class_for_db_error (Database (Some c)) = class_for_sqlstate c"
| "class_for_db_error (Database None) = PermanentDatabase"
| "class_for_db_error OtherSqlx = PermanentDatabase"

datatype migrate_error = Execute sqlx_error | ExecuteMigration sqlx_error | OtherMigrate

datatype catalog_error =
    InvalidPipeline string
  | Invariant string
  | Conflict (expected: nat) (live_matched: nat)
  | LeaseLost json
  | LeasePartitionMismatch json
  | InvalidLeaseTtl string
  | InvalidLockTimeout string
  | NotFound string
  | OperationKeyCollision string
  | OperationHypertableMismatch hypertable_id hypertable_id
  | AmbiguousMutation operation_identity sqlx_error
  | UnidentifiedAmbiguousMutation sqlx_error
  | OffsetRace string i32
  | SchemaErr schema_error
  | SortKeyErr sort_key_error
  | Db sqlx_error
  | Migrate migrate_error

fun class_of :: "catalog_error \<Rightarrow> catalog_error_class" where
  "class_of (Conflict n m) = SemanticConflict"
| "class_of (LeaseLost p) = OwnershipViolation"
| "class_of (OffsetRace t p) = OwnershipViolation"
| "class_of (SchemaErr e) = PermanentInput"
| "class_of (SortKeyErr e) = PermanentInput"
| "class_of (LeasePartitionMismatch p) = PermanentInput"
| "class_of (InvalidLeaseTtl m) = PermanentInput"
| "class_of (InvalidLockTimeout m) = PermanentInput"
| "class_of (InvalidPipeline m) = PermanentInput"
| "class_of (OperationKeyCollision k) = PermanentInput"
| "class_of (OperationHypertableMismatch a b) = PermanentInput"
| "class_of (AmbiguousMutation i e) = Transport"
| "class_of (UnidentifiedAmbiguousMutation e) = PermanentDatabase"
| "class_of (NotFound m) = AbsentResource"
| "class_of (Invariant m) = PermanentDatabase"
| "class_of (Migrate (Execute e)) = class_for_db_error e"
| "class_of (Migrate (ExecuteMigration e)) = class_for_db_error e"
| "class_of (Migrate OtherMigrate) = PermanentDatabase"
| "class_of (Db e) = class_for_db_error e"

definition is_recoverable_transport :: "catalog_error \<Rightarrow> bool" where
  "is_recoverable_transport e \<longleftrightarrow> class_of e = Transport \<or> class_of e = RetryableDatabase"

section \<open>Properties\<close>

lemma as_label_inj: "as_label a = as_label b \<Longrightarrow> a = b"
  by (cases a; cases b) simp_all

lemma sqlstate_classes:
  "class_for_sqlstate code \<in> {RetryableDatabase, Transport, PermanentDatabase}"
  by (simp add: class_for_sqlstate_def)

end
