(* ===== verification/Stats.thy ===== *)
theory Stats
  imports Schema "HOL-Library.AList"
begin

text \<open>
  Per-part column statistics, \<^verbatim>\<open>crates/ukiel-core/src/stats.rs\<close>: the accumulator of
  distinct packing keys behind the roaring bitmap, the row-group key spans, folding both
  into a part's \<open>column_stats\<close>, and the per-column minima and maxima, computed from one
  batch or accumulated over slices.

  An Arrow batch is its schema and columns; only the \<open>Int64Array\<close> columns are read.
  Library code enters as parameters: \<open>ser\<close> (roaring serialisation then base64), \<open>de\<close>
  (its decoder, giving the members in increasing order), \<open>amin\<close> and \<open>amax\<close>
  (\<open>arrow::compute::min\<close> and \<open>max\<close>). What they promise is a hypothesis where it is used.
\<close>

section \<open>Definitions\<close>

datatype column = Int64Col "i64 option list" | OtherCol nat

record batch =
  b_schema :: schema
  b_columns :: "column list"

definition PACKING_KEYS_STAT :: string where
  "PACKING_KEYS_STAT = ''packing_keys''"

definition KEY_ROW_GROUPS_STAT :: string where
  "KEY_ROW_GROUPS_STAT = ''key_row_groups''"

definition MAX_BITMAP_KEYS :: nat where
  "MAX_BITMAP_KEYS = 10000"

record key_bitmap_acc =
  kb_keys :: "nat set"
  kb_poisoned :: bool

definition kb_default :: key_bitmap_acc where
  "kb_default = \<lparr>kb_keys = {}, kb_poisoned = False\<rparr>"

text \<open>The non-null values of a column (\<open>iter().flatten()\<close>).\<close>

definition somes :: "'a option list \<Rightarrow> 'a list" where
  "somes xs = List.map_filter (\<lambda>x. x) xs"

fun kb_insert_all :: "key_bitmap_acc \<Rightarrow> i64 list \<Rightarrow> key_bitmap_acc" where
  "kb_insert_all acc [] = acc"
| "kb_insert_all acc (v # vs) =
     (if v < 0 then acc\<lparr>kb_poisoned := True\<rparr>
      else kb_insert_all (acc\<lparr>kb_keys := insert (nat v) (kb_keys acc)\<rparr>) vs)"

definition kb_update :: "key_bitmap_acc \<Rightarrow> batch \<Rightarrow> string \<Rightarrow> key_bitmap_acc" where
  "kb_update acc b packing =
     (if kb_poisoned acc then acc
      else
        case index_of (b_schema b) packing of
          None \<Rightarrow> acc\<lparr>kb_poisoned := True\<rparr>
        | Some idx \<Rightarrow>
            (case b_columns b ! idx of
               OtherCol n \<Rightarrow> acc\<lparr>kb_poisoned := True\<rparr>
             | Int64Col vs \<Rightarrow> kb_insert_all acc (somes vs)))"

definition kb_finish :: "(nat set \<Rightarrow> string option) \<Rightarrow> key_bitmap_acc \<Rightarrow> string option" where
  "kb_finish ser acc =
     (if kb_poisoned acc \<or> kb_keys acc = {} then None
      else if card (kb_keys acc) > MAX_BITMAP_KEYS then None
      else ser (kb_keys acc))"

definition key_bitmap :: "(nat set \<Rightarrow> string option) \<Rightarrow> batch \<Rightarrow> string \<Rightarrow> string option" where
  "key_bitmap ser b packing = kb_finish ser (kb_update kb_default b packing)"

definition bitmap_contains :: "(string \<Rightarrow> nat list option) \<Rightarrow> string \<Rightarrow> i64 \<Rightarrow> bool option" where
  "bitmap_contains de encoded key =
     (if key < 0 then None
      else case de encoded of None \<Rightarrow> None | Some m \<Rightarrow> Some (nat key \<in> set m))"

definition bitmap_keys :: "(string \<Rightarrow> nat list option) \<Rightarrow> string \<Rightarrow> i64 list option" where
  "bitmap_keys de encoded =
     (case de encoded of
        None \<Rightarrow> None
      | Some m \<Rightarrow> if list_all (\<lambda>k. k < 2 ^ 63) m then Some (map int m) else None)"

text \<open>What \<open>key_row_groups\<close> reads of a row group's metadata: per column its path and its
  statistics, if any.\<close>

datatype statistics = Int64Stats "i64 option" "i64 option" | OtherStats

type_synonym row_group = "(string \<times> statistics option) list"

definition row_group_span :: "string \<Rightarrow> row_group \<Rightarrow> json option" where
  "row_group_span packing rg =
     (case find (\<lambda>c. fst c = packing) rg of
        Some (_, Some (Int64Stats (Some mn) (Some mx))) \<Rightarrow>
          Some (JArray [JNumber (JInt mn), JNumber (JInt mx)])
      | _ \<Rightarrow> None)"

fun all_spans :: "string \<Rightarrow> row_group list \<Rightarrow> json list option" where
  "all_spans packing [] = Some []"
| "all_spans packing (rg # rgs) =
     (case row_group_span packing rg of
        None \<Rightarrow> None
      | Some s \<Rightarrow> map_option (\<lambda>ss. s # ss) (all_spans packing rgs))"

definition key_row_groups :: "row_group list \<Rightarrow> string \<Rightarrow> json option" where
  "key_row_groups rgs packing =
     (if rgs = [] then None else map_option JArray (all_spans packing rgs))"

definition with_key_index :: "json option \<Rightarrow> string option \<Rightarrow> json option \<Rightarrow> json option" where
  "with_key_index stats bitmap spans =
     (if bitmap = None \<and> spans = None then stats
      else
        let m0 = (case stats of Some (JObject m) \<Rightarrow> m | _ \<Rightarrow> []);
            m1 = (case bitmap of Some b \<Rightarrow> object_insert PACKING_KEYS_STAT (JString b) m0 | None \<Rightarrow> m0);
            m2 = (case spans of Some s \<Rightarrow> object_insert KEY_ROW_GROUPS_STAT s m1 | None \<Rightarrow> m1)
        in Some (JObject m2))"

definition minmax_json :: "i64 \<times> i64 \<Rightarrow> json" where
  "minmax_json mm = JObject [(''max'', JNumber (JInt (snd mm))), (''min'', JNumber (JInt (fst mm)))]"

text \<open>The bounds one batch contributes for the field at one position; \<open>None\<close> is \<open>continue\<close>.\<close>

definition field_bounds ::
  "(i64 option list \<Rightarrow> i64 option) \<Rightarrow> (i64 option list \<Rightarrow> i64 option) \<Rightarrow> batch \<Rightarrow> nat \<times> field
   \<Rightarrow> (i64 \<times> i64) option" where
  "field_bounds amin amax b f =
     (if f_type (snd f) \<noteq> Int64 then None
      else
        case b_columns b ! fst f of
          OtherCol n \<Rightarrow> None
        | Int64Col vs \<Rightarrow>
            (case (amin vs, amax vs) of (Some mn, Some mx) \<Rightarrow> Some (mn, mx) | _ \<Rightarrow> None))"

definition int64_column_stats ::
  "(i64 option list \<Rightarrow> i64 option) \<Rightarrow> (i64 option list \<Rightarrow> i64 option) \<Rightarrow> batch \<Rightarrow> json option" where
  "int64_column_stats amin amax b =
     (let stats = foldl (\<lambda>m f. case field_bounds amin amax b f of
                            None \<Rightarrow> m
                          | Some mm \<Rightarrow> object_insert (f_name (snd f)) (minmax_json mm) m)
                    [] (List.enumerate 0 (b_schema b))
      in if stats = [] then None else Some (JObject stats))"

record stats_acc =
  sa_order :: "string list"
  sa_stats :: "(string \<times> i64 \<times> i64) list"

definition sa_default :: stats_acc where
  "sa_default = \<lparr>sa_order = [], sa_stats = []\<rparr>"

definition sa_update_field ::
  "(i64 option list \<Rightarrow> i64 option) \<Rightarrow> (i64 option list \<Rightarrow> i64 option) \<Rightarrow> batch \<Rightarrow> stats_acc \<Rightarrow> nat \<times> field
   \<Rightarrow> stats_acc" where
  "sa_update_field amin amax b acc f =
     (case field_bounds amin amax b f of
        None \<Rightarrow> acc
      | Some (bmin, bmax) \<Rightarrow>
          (case map_of (sa_stats acc) (f_name (snd f)) of
             Some (mn, mx) \<Rightarrow>
               acc\<lparr>sa_stats := AList.update (f_name (snd f)) (min mn bmin, max mx bmax) (sa_stats acc)\<rparr>
           | None \<Rightarrow>
               acc\<lparr>sa_order := sa_order acc @ [f_name (snd f)],
                   sa_stats := AList.update (f_name (snd f)) (bmin, bmax) (sa_stats acc)\<rparr>))"

definition sa_update ::
  "(i64 option list \<Rightarrow> i64 option) \<Rightarrow> (i64 option list \<Rightarrow> i64 option) \<Rightarrow> stats_acc \<Rightarrow> batch \<Rightarrow> stats_acc" where
  "sa_update amin amax acc b =
     foldl (sa_update_field amin amax b) acc (List.enumerate 0 (b_schema b))"

definition sa_finish :: "stats_acc \<Rightarrow> json option" where
  "sa_finish acc =
     (if sa_stats acc = [] then None
      else Some (JObject (foldl (\<lambda>m name. object_insert name (minmax_json (the (map_of (sa_stats acc) name))) m)
                            [] (sa_order acc))))"

text \<open>The documented contract of \<open>arrow::compute::min\<close> and \<open>max\<close>: the extreme non-null
  value, \<open>None\<close> when there is none.\<close>

definition arrow_minmax ::
  "(i64 option list \<Rightarrow> i64 option) \<Rightarrow> (i64 option list \<Rightarrow> i64 option) \<Rightarrow> bool" where
  "arrow_minmax amin amax \<longleftrightarrow>
     (\<forall>vs. amin vs = list_min (somes vs) \<and> amax vs = list_max (somes vs))"

text \<open>Row-wise concatenation of batches that share one schema: what slicing a batch undoes.\<close>

fun column_append :: "column \<Rightarrow> column \<Rightarrow> column" where
  "column_append (Int64Col xs) (Int64Col ys) = Int64Col (xs @ ys)"
| "column_append (OtherCol m) (OtherCol n) = OtherCol (m + n)"
| "column_append c _ = c"

definition batch_append :: "batch \<Rightarrow> batch \<Rightarrow> batch" where
  "batch_append a b = a\<lparr>b_columns := map2 column_append (b_columns a) (b_columns b)\<rparr>"

definition wf_batch :: "schema \<Rightarrow> batch \<Rightarrow> bool" where
  "wf_batch s b \<longleftrightarrow> b_schema b = s \<and> length (b_columns b) = length s \<and>
     (\<forall>i < length s. f_type (s ! i) = Int64 \<longleftrightarrow> (\<exists>vs. b_columns b ! i = Int64Col vs))"

section \<open>The key bitmap\<close>

lemma somes_append [simp]: "somes (xs @ ys) = somes xs @ somes ys"
  by (induction xs) (auto simp: somes_def map_filter_def)

lemma kb_insert_all_poison: "kb_poisoned acc \<Longrightarrow> kb_poisoned (kb_insert_all acc vs)"
  by (induction vs arbitrary: acc) auto

lemma kb_insert_all_keys:
  assumes "\<not> kb_poisoned (kb_insert_all acc vs)"
  shows "(\<forall>v \<in> set vs. 0 \<le> v) \<and> kb_keys (kb_insert_all acc vs) = kb_keys acc \<union> nat ` set vs"
  using assms
proof (induction vs arbitrary: acc)
  case (Cons v vs)
  show ?case
  proof (cases "v < 0")
    case False
    with Cons.prems Cons.IH [of "acc\<lparr>kb_keys := insert (nat v) (kb_keys acc)\<rparr>"]
    show ?thesis by simp
  qed (use Cons.prems in simp)
qed simp

text \<open>The packing keys of a batch: the non-null values of its packing-key column.\<close>

definition batch_keys :: "batch \<Rightarrow> string \<Rightarrow> i64 set" where
  "batch_keys b packing =
     (case index_of (b_schema b) packing of
        None \<Rightarrow> {}
      | Some idx \<Rightarrow> (case b_columns b ! idx of Int64Col vs \<Rightarrow> set (somes vs) | OtherCol n \<Rightarrow> {}))"

lemma kb_update_keys:
  assumes "\<not> kb_poisoned (kb_update acc b packing)"
  shows "\<not> kb_poisoned acc \<and> (\<forall>v \<in> batch_keys b packing. 0 \<le> v) \<and>
    kb_keys (kb_update acc b packing) = kb_keys acc \<union> nat ` batch_keys b packing"
proof -
  from assms have p: "\<not> kb_poisoned acc" by (auto simp: kb_update_def)
  with assms obtain idx vs where i: "index_of (b_schema b) packing = Some idx"
    "b_columns b ! idx = Int64Col vs"
    by (fastforce simp: kb_update_def split: option.splits column.splits)
  with p have u: "kb_update acc b packing = kb_insert_all acc (somes vs)"
    and k: "batch_keys b packing = set (somes vs)"
    by (simp_all add: kb_update_def batch_keys_def)
  from kb_insert_all_keys [of acc "somes vs"] assms p show ?thesis by (simp add: u k)
qed

lemma kb_updates_keys:
  assumes "\<not> kb_poisoned (foldl (\<lambda>acc b. kb_update acc b packing) acc bs)"
  shows "\<not> kb_poisoned acc \<and> (\<forall>b \<in> set bs. \<forall>v \<in> batch_keys b packing. 0 \<le> v) \<and>
    kb_keys (foldl (\<lambda>acc b. kb_update acc b packing) acc bs)
      = kb_keys acc \<union> (\<Union>b \<in> set bs. nat ` batch_keys b packing)"
  using assms
proof (induction bs arbitrary: acc)
  case (Cons b bs)
  from Cons.IH [of "kb_update acc b packing"] Cons.prems
  have 1: "\<not> kb_poisoned (kb_update acc b packing)" "\<forall>b \<in> set bs. \<forall>v \<in> batch_keys b packing. 0 \<le> v"
    "kb_keys (foldl (\<lambda>acc b. kb_update acc b packing) (kb_update acc b packing) bs)
      = kb_keys (kb_update acc b packing) \<union> (\<Union>b \<in> set bs. nat ` batch_keys b packing)" by auto
  note 2 = kb_update_keys [OF 1(1)]
  from 1(2) 2 have "\<forall>b \<in> set (b # bs). \<forall>v \<in> batch_keys b packing. 0 \<le> v" by simp
  moreover from 1(3) 2 have "kb_keys (foldl (\<lambda>acc b. kb_update acc b packing) acc (b # bs))
      = kb_keys acc \<union> (\<Union>b \<in> set (b # bs). nat ` batch_keys b packing)"
    by (simp add: Un_assoc)
  ultimately show ?case using 2 by blast
qed simp

section \<open>Column bounds\<close>

lemma list_min_eq_None [simp]: "list_min xs = None \<longleftrightarrow> xs = []"
  by (simp add: list_min_def)

lemma list_max_eq_None [simp]: "list_max xs = None \<longleftrightarrow> xs = []"
  by (simp add: list_max_def)

lemma list_min_append:
  "list_min (xs @ ys) = (case (list_min xs, list_min ys) of
      (None, m) \<Rightarrow> m | (Some a, None) \<Rightarrow> Some a | (Some a, Some b) \<Rightarrow> Some (min a b))"
  by (auto simp: list_min_def Min_Un)

lemma list_max_append:
  "list_max (xs @ ys) = (case (list_max xs, list_max ys) of
      (None, m) \<Rightarrow> m | (Some a, None) \<Rightarrow> Some a | (Some a, Some b) \<Rightarrow> Some (max a b))"
  by (auto simp: list_max_def Max_Un)

definition merge_bounds :: "(i64 \<times> i64) option \<Rightarrow> (i64 \<times> i64) option \<Rightarrow> (i64 \<times> i64) option" where
  "merge_bounds x y =
     (case (x, y) of
        (None, m) \<Rightarrow> m
      | (Some a, None) \<Rightarrow> Some a
      | (Some (a, b), Some (c, d)) \<Rightarrow> Some (min a c, max b d))"

lemma field_bounds_append:
  assumes "arrow_minmax amin amax" "wf_batch s a" "wf_batch s b" "i < length s" "f = s ! i"
  shows "field_bounds amin amax (batch_append a b) (i, f)
      = merge_bounds (field_bounds amin amax a (i, f)) (field_bounds amin amax b (i, f))"
proof (cases "f_type f = Int64")
  case True
  with assms obtain xs ys where "b_columns a ! i = Int64Col xs" "b_columns b ! i = Int64Col ys"
    by (auto simp: wf_batch_def)
  moreover from assms have "i < length (b_columns a)" "i < length (b_columns b)"
    by (simp_all add: wf_batch_def)
  ultimately have "field_bounds amin amax (batch_append a b) (i, f)
      = (case (list_min (somes xs @ somes ys), list_max (somes xs @ somes ys)) of
           (Some mn, Some mx) \<Rightarrow> Some (mn, mx) | _ \<Rightarrow> None)"
    "field_bounds amin amax a (i, f) = (case (list_min (somes xs), list_max (somes xs)) of
           (Some mn, Some mx) \<Rightarrow> Some (mn, mx) | _ \<Rightarrow> None)"
    "field_bounds amin amax b (i, f) = (case (list_min (somes ys), list_max (somes ys)) of
           (Some mn, Some mx) \<Rightarrow> Some (mn, mx) | _ \<Rightarrow> None)"
    using True assms(1) by (simp_all add: field_bounds_def batch_append_def arrow_minmax_def)
  then show ?thesis
    by (cases "somes xs = []"; cases "somes ys = []")
      (simp_all add: list_min_append list_max_append merge_bounds_def list_min_def list_max_def
        Min_Un Max_Un)
next
  case False
  then show ?thesis by (simp add: field_bounds_def merge_bounds_def)
qed

lemma b_schema_foldl: "b_schema (foldl batch_append b bs) = b_schema b"
  by (induction bs arbitrary: b) (auto simp: batch_append_def)

lemma wf_batch_append:
  assumes "wf_batch s a" "wf_batch s b"
  shows "wf_batch s (batch_append a b)"
proof -
  have "(\<exists>vs. column_append (b_columns a ! i) (b_columns b ! i) = Int64Col vs)
      \<longleftrightarrow> f_type (s ! i) = Int64" if "i < length s" for i
    using assms that by (cases "b_columns a ! i"; cases "b_columns b ! i") (auto simp: wf_batch_def)
  with assms show ?thesis by (auto simp: wf_batch_def batch_append_def)
qed

section \<open>The accumulator and the one-shot computation\<close>

lemma strict_sorted_alist_eq:
  fixes xs ys :: "('a::linorder \<times> 'b) list"
  assumes "sorted_wrt (<) (map fst xs)" "sorted_wrt (<) (map fst ys)" "map_of xs = map_of ys"
  shows "xs = ys"
proof -
  have "set (map fst xs) = set (map fst ys)"
    using map_of_eq_dom [OF assms(3)] by simp
  with assms have k: "map fst xs = map fst ys" by (intro strict_sorted_equal) auto
  have "distinct (map fst xs)" using assms(1) strict_sorted_iff by blast
  moreover have "map_of (zip (map fst xs) (map snd xs)) = map_of (zip (map fst xs) (map snd ys))"
    using assms(3) by (simp only: zip_map_fst_snd) (simp only: k zip_map_fst_snd)
  moreover have "length ys = length xs" using k by (metis length_map)
  ultimately have "map snd xs = map snd ys"
    by (intro map_of_zip_inject [of "map snd xs" "map fst xs" "map snd ys"]) simp_all
  with k show ?thesis by (metis zip_map_fst_snd)
qed

lemma find_own_name:
  "distinct (map (f_name \<circ> snd) (f # fs)) \<Longrightarrow> find (\<lambda>g. f_name (snd g) = f_name (snd f)) fs = None"
  by (induction fs) auto

text \<open>Both loops handle each field once, by name, when the names are distinct.\<close>

lemma sa_update_fields:
  assumes "distinct (map (f_name \<circ> snd) fs)"
  shows "map_of (sa_stats (foldl (sa_update_field amin amax b) acc fs)) n =
    (case find (\<lambda>f. f_name (snd f) = n) fs of
       None \<Rightarrow> map_of (sa_stats acc) n
     | Some f \<Rightarrow> merge_bounds (map_of (sa_stats acc) n) (field_bounds amin amax b f))"
  using assms
proof (induction fs arbitrary: acc)
  case (Cons f fs)
  have step: "map_of (sa_stats (sa_update_field amin amax b acc f)) n =
      (if f_name (snd f) = n then merge_bounds (map_of (sa_stats acc) n) (field_bounds amin amax b f)
       else map_of (sa_stats acc) n)"
    by (auto simp: sa_update_field_def merge_bounds_def update_conv split: option.splits)
  have "f_name (snd f) = n \<Longrightarrow> find (\<lambda>f. f_name (snd f) = n) fs = None"
    using find_own_name [OF Cons.prems(1)] by auto
  with Cons show ?case by (auto simp: step split: option.splits)
qed simp

lemma sa_update_order:
  assumes "set (sa_order acc) = dom (map_of (sa_stats acc))" "distinct (sa_order acc)"
  shows "set (sa_order (foldl (sa_update_field amin amax b) acc fs))
      = dom (map_of (sa_stats (foldl (sa_update_field amin amax b) acc fs)))
    \<and> distinct (sa_order (foldl (sa_update_field amin amax b) acc fs))"
  using assms
proof (induction fs arbitrary: acc)
  case (Cons f fs)
  have "set (sa_order (sa_update_field amin amax b acc f))
      = dom (map_of (sa_stats (sa_update_field amin amax b acc f)))
    \<and> distinct (sa_order (sa_update_field amin amax b acc f))"
    using Cons.prems by (auto simp: sa_update_field_def update_conv split: option.splits if_splits)
  with Cons.IH show ?case by simp
qed simp

lemma column_stats_fields:
  fixes amin amax b
  assumes "distinct (map (f_name \<circ> snd) fs)" "sorted_wrt (<) (map fst m0)"
  defines "step \<equiv> \<lambda>m f. case field_bounds amin amax b f of
      None \<Rightarrow> m | Some mm \<Rightarrow> object_insert (f_name (snd f)) (minmax_json mm) m"
  shows "sorted_wrt (<) (map fst (foldl step m0 fs)) \<and>
    map_of (foldl step m0 fs) n =
    (case find (\<lambda>f. f_name (snd f) = n) fs of
       None \<Rightarrow> map_of m0 n
     | Some f \<Rightarrow> (case field_bounds amin amax b f of None \<Rightarrow> map_of m0 n | Some mm \<Rightarrow> Some (minmax_json mm)))"
  using assms(1,2)
proof (induction fs arbitrary: m0)
  case (Cons f fs)
  have s: "sorted_wrt (<) (map fst (step m0 f))"
    using Cons.prems(2) by (auto simp: step_def sorted_object_insert split: option.splits)
  have m: "map_of (step m0 f) n =
      (if f_name (snd f) = n then case field_bounds amin amax b f of
         None \<Rightarrow> map_of m0 n | Some mm \<Rightarrow> Some (minmax_json mm) else map_of m0 n)"
    using Cons.prems(2) by (auto simp: step_def split: option.splits)
  have "f_name (snd f) = n \<Longrightarrow> find (\<lambda>f. f_name (snd f) = n) fs = None"
    using find_own_name [OF Cons.prems(1)] by auto
  with Cons.IH [OF _ s] Cons.prems(1) show ?case by (auto simp: m split: option.splits)
qed simp

lemma finish_object:
  assumes "sorted_wrt (<) (map fst m0)" "distinct ns"
  shows "sorted_wrt (<) (map fst (foldl (\<lambda>m name. object_insert name (g name) m) m0 ns)) \<and>
    map_of (foldl (\<lambda>m name. object_insert name (g name) m) m0 ns) n =
      (if n \<in> set ns then Some (g n) else map_of m0 n)"
  using assms
proof (induction ns arbitrary: m0)
  case (Cons k ns)
  from Cons.IH [OF sorted_object_insert [OF Cons.prems(1)], of k "g k"] Cons.prems
  show ?case by auto
qed simp

text \<open>The accumulator after some slices holds, per field, the bounds of the whole batch.\<close>

definition acc_matches where
  "acc_matches amin amax acc b \<longleftrightarrow>
     set (sa_order acc) = dom (map_of (sa_stats acc)) \<and> distinct (sa_order acc) \<and>
     (\<forall>n. map_of (sa_stats acc) n =
        (case find (\<lambda>f. f_name (snd f) = n) (List.enumerate 0 (b_schema b)) of
           None \<Rightarrow> None | Some f \<Rightarrow> field_bounds amin amax b f))"

lemma enumerate_names: "map (f_name \<circ> snd) (List.enumerate 0 s) = map f_name s"
  by (metis map_map map_snd_enumerate)

lemma find_enumerate:
  "find P (List.enumerate 0 s) = Some f \<Longrightarrow> fst f < length s \<and> snd f = s ! fst f"
  by (auto simp: find_Some_iff nth_enumerate_eq)

lemma acc_matches_first:
  assumes "distinct (map f_name (b_schema b))"
  shows "acc_matches amin amax (sa_update amin amax sa_default b) b"
proof -
  have "map_of (sa_stats (sa_update amin amax sa_default b)) n =
      (case find (\<lambda>f. f_name (snd f) = n) (List.enumerate 0 (b_schema b)) of
           None \<Rightarrow> None | Some f \<Rightarrow> field_bounds amin amax b f)" for n
    using sa_update_fields [of "List.enumerate 0 (b_schema b)" amin amax b sa_default n] assms
    by (auto simp: enumerate_names sa_update_def sa_default_def merge_bounds_def split: option.splits)
  with sa_update_order [of sa_default amin amax b "List.enumerate 0 (b_schema b)"] show ?thesis
    by (simp add: acc_matches_def sa_update_def sa_default_def)
qed

lemma acc_matches_step:
  assumes m: "acc_matches amin amax acc a" and d: "distinct (map f_name s)"
    and w: "arrow_minmax amin amax" "wf_batch s a" "wf_batch s b"
  shows "acc_matches amin amax (sa_update amin amax acc b) (batch_append a b)"
proof -
  have sch: "b_schema a = s" "b_schema b = s" "b_schema (batch_append a b) = s"
    using w by (simp_all add: wf_batch_def batch_append_def)
  have "map_of (sa_stats (sa_update amin amax acc b)) n =
      (case find (\<lambda>f. f_name (snd f) = n) (List.enumerate 0 s) of
           None \<Rightarrow> None | Some f \<Rightarrow> field_bounds amin amax (batch_append a b) f)" for n
  proof -
    have "map_of (sa_stats (sa_update amin amax acc b)) n =
        (case find (\<lambda>f. f_name (snd f) = n) (List.enumerate 0 s) of
           None \<Rightarrow> map_of (sa_stats acc) n
         | Some f \<Rightarrow> merge_bounds (map_of (sa_stats acc) n) (field_bounds amin amax b f))"
      using sa_update_fields [of "List.enumerate 0 s" amin amax b acc n] d
      by (simp add: enumerate_names sa_update_def sch)
    also have "\<dots> = (case find (\<lambda>f. f_name (snd f) = n) (List.enumerate 0 s) of
           None \<Rightarrow> None | Some f \<Rightarrow> field_bounds amin amax (batch_append a b) f)"
      using m field_bounds_append [OF w]
      by (auto simp: acc_matches_def sch split: option.splits dest: find_enumerate)
    finally show ?thesis .
  qed
  with m sa_update_order [of acc amin amax b "List.enumerate 0 s"] show ?thesis
    by (simp add: acc_matches_def sa_update_def sch)
qed

lemma acc_matches_all:
  assumes "distinct (map f_name s)" "arrow_minmax amin amax" "wf_batch s a" "\<forall>b \<in> set bs. wf_batch s b"
    "acc_matches amin amax acc a"
  shows "acc_matches amin amax (foldl (sa_update amin amax) acc bs) (foldl batch_append a bs)"
  using assms(3-5)
proof (induction bs arbitrary: acc a)
  case (Cons b bs)
  then show ?case
    using acc_matches_step [OF Cons.prems(3) assms(1,2)] wf_batch_append by simp
qed simp

lemma acc_matches_finish:
  assumes "acc_matches amin amax acc b" "distinct (map f_name (b_schema b))"
  shows "sa_finish acc = int64_column_stats amin amax b"
proof -
  define fs where "fs = List.enumerate 0 (b_schema b)"
  define m where "m = foldl (\<lambda>m f. case field_bounds amin amax b f of
      None \<Rightarrow> m | Some mm \<Rightarrow> object_insert (f_name (snd f)) (minmax_json mm) m) [] fs"
  define m' where "m' = foldl (\<lambda>m name. object_insert name (minmax_json (the (map_of (sa_stats acc) name))) m)
      [] (sa_order acc)"
  have d: "distinct (map (f_name \<circ> snd) fs)" using assms(2) by (simp add: fs_def enumerate_names)
  note 1 = column_stats_fields [OF d, of "[]" amin amax b, folded m_def]
  from assms(1) have "distinct (sa_order acc)" by (simp add: acc_matches_def)
  note 2 = finish_object [OF _ this, of "[]" "\<lambda>name. minmax_json (the (map_of (sa_stats acc) name))", folded m'_def]
  have "map_of m' n = map_of m n" for n
  proof -
    have "map_of (sa_stats acc) n = (case find (\<lambda>f. f_name (snd f) = n) fs of
        None \<Rightarrow> None | Some f \<Rightarrow> field_bounds amin amax b f)"
      and "set (sa_order acc) = dom (map_of (sa_stats acc))"
      using assms(1) by (simp_all add: acc_matches_def fs_def)
    with 1 [of n] 2 [of n] show ?thesis
      by (cases "find (\<lambda>f. f_name (snd f) = n) fs") (auto simp: domIff split: option.splits)
  qed
  then have "m' = m" using 1 2 by (intro strict_sorted_alist_eq) auto
  moreover have "sa_stats acc = [] \<longleftrightarrow> sa_order acc = []"
  proof -
    have "set (sa_order acc) = fst ` set (sa_stats acc)"
      using assms(1) by (simp add: acc_matches_def dom_map_of_conv_image_fst)
    then show ?thesis by (metis empty_set image_is_empty set_empty)
  qed
  moreover have "m' = [] \<longleftrightarrow> sa_order acc = []"
  proof
    assume "m' = []"
    then have "map_of m' n = None" for n by simp
    then have "n \<notin> set (sa_order acc)" for n using 2 [of n] by (auto split: if_splits)
    then show "sa_order acc = []" by (metis list.set_intros(1) neq_Nil_conv)
  qed (simp add: m'_def)
  ultimately show ?thesis
    by (simp add: sa_finish_def int64_column_stats_def Let_def flip: m_def [unfolded fs_def] m'_def)
qed

section \<open>Properties\<close>

text \<open>C30: the key index never hides a key. When the accumulator, fed a part slice by slice,
  yields an encoded bitmap, then every non-negative key is reported present exactly when it
  occurs in some slice, no slice holds a negative key, and the decoded key list is exactly
  the part's distinct keys; a decoder that inverts the serialiser is all it relies on.\<close>

theorem key_bitmap_exact:
  assumes fin: "kb_finish ser (foldl (\<lambda>acc b. kb_update acc b packing) kb_default bs) = Some encoded"
    and inverse: "\<forall>S e. ser S = Some e \<longrightarrow> de e = Some (sorted_list_of_set S)"
    and i64: "\<forall>b \<in> set bs. \<forall>v \<in> batch_keys b packing. in_i64 v"
  shows "(\<forall>key. bitmap_contains de encoded key
        = (if key < 0 then None else Some (\<exists>b \<in> set bs. key \<in> batch_keys b packing)))
    \<and> (\<exists>ks. bitmap_keys de encoded = Some ks \<and> sorted_wrt (<) ks
          \<and> set ks = (\<Union>b \<in> set bs. batch_keys b packing))"
proof -
  define acc where "acc = foldl (\<lambda>acc b. kb_update acc b packing) kb_default bs"
  define K where "K = (\<Union>b \<in> set bs. batch_keys b packing)"
  from fin have np: "\<not> kb_poisoned acc" and ser: "ser (kb_keys acc) = Some encoded"
    by (auto simp: kb_finish_def acc_def split: if_splits)
  from kb_updates_keys [OF np [unfolded acc_def]]
  have pos: "\<forall>v \<in> K. 0 \<le> v" and keys: "kb_keys acc = nat ` K"
    by (auto simp: acc_def kb_default_def K_def)
  have finK: "finite K"
    by (auto simp: K_def batch_keys_def split: option.splits column.splits)
  have de: "de encoded = Some (sorted_list_of_set (nat ` K))" using inverse ser keys by auto
  have mem: "nat key \<in> nat ` K \<longleftrightarrow> key \<in> K" if "0 \<le> key" for key
    using that pos by (auto simp: image_iff) (metis int_nat_eq)
  have "bitmap_contains de encoded key = (if key < 0 then None else Some (key \<in> K))" for key
    using de finK mem by (auto simp: bitmap_contains_def)
  moreover have "\<forall>k \<in> nat ` K. k < 2 ^ 63" using i64 pos by (fastforce simp: K_def in_i64_def)
  then have "bitmap_keys de encoded = Some (map int (sorted_list_of_set (nat ` K)))"
    using de finK by (simp add: bitmap_keys_def list_all_iff)
  moreover have "sorted_wrt (<) (map int (sorted_list_of_set (nat ` K)))"
    by (simp add: sorted_wrt_map)
  moreover have "int ` nat ` K = K" using pos by (force simp: image_iff)
  ultimately show ?thesis using finK by (auto simp: K_def)
qed

text \<open>C30: a part of one batch with keys 3 and 5 whose bitmap serialises to a fixed text.\<close>

theorem key_bitmap_exact_witness:
  fixes f :: field and b :: batch and ser :: "nat set \<Rightarrow> string option"
  defines "f \<equiv> \<lparr>f_name = ''k'', f_type = Int64, f_nullable = False, f_metadata = []\<rparr>"
  defines "b \<equiv> \<lparr>b_schema = [f], b_columns = [Int64Col [Some 5, None, Some 3]]\<rparr>"
  defines "ser \<equiv> (\<lambda>S. if S = {3, 5} then Some ''x'' else None)"
  shows "bitmap_contains (\<lambda>e. Some [3, 5]) ''x'' 5 = Some True
    \<and> bitmap_contains (\<lambda>e. Some [3, 5]) ''x'' 4 = Some False"
proof -
  have "kb_finish ser (foldl (\<lambda>acc b. kb_update acc b ''k'') kb_default [b]) = Some ''x''"
    by (simp add: kb_finish_def kb_update_def kb_default_def b_def f_def ser_def somes_def
        map_filter_def MAX_BITMAP_KEYS_def insert_commute)
  moreover have "\<forall>S e. ser S = Some e \<longrightarrow> Some [3, 5] = Some (sorted_list_of_set S)"
    by (auto simp: ser_def split: if_splits)
  moreover have "\<forall>b \<in> set [b]. \<forall>v \<in> batch_keys b ''k''. in_i64 v"
    by (simp add: batch_keys_def b_def f_def somes_def map_filter_def in_i64_def)
  ultimately show ?thesis
    using key_bitmap_exact [of ser "''k''" "[b]" "''x''" "\<lambda>e. Some [3, 5]"]
    by (simp add: batch_keys_def b_def f_def somes_def map_filter_def)
qed

text \<open>The streaming statistics accumulator, fed a batch in slices, finishes with the JSON
  that the one-shot computation gives for the whole batch, absent statistics included.\<close>

lemma stats_accumulator_equiv:
  assumes "arrow_minmax amin amax" "distinct (map f_name s)"
    and "wf_batch s b" "\<forall>c \<in> set bs. wf_batch s c"
  shows "sa_finish (foldl (sa_update amin amax) sa_default (b # bs))
    = int64_column_stats amin amax (foldl batch_append b bs)"
proof -
  have s: "b_schema b = s" "b_schema (foldl batch_append b bs) = s"
    using assms(3) by (simp_all add: wf_batch_def b_schema_foldl)
  have "acc_matches amin amax (sa_update amin amax sa_default b) b"
    using assms(2) s by (intro acc_matches_first) simp
  from acc_matches_all [OF assms(2,1,3,4) this] assms(2) s show ?thesis
    by (auto intro: acc_matches_finish)
qed

text \<open>Two slices of a two-column batch, one of them without a non-null value.\<close>

lemma stats_accumulator_equiv_witness:
  fixes f g :: field and a b :: batch
  defines "f \<equiv> \<lparr>f_name = ''k'', f_type = Int64, f_nullable = True, f_metadata = []\<rparr>"
  defines "g \<equiv> \<lparr>f_name = ''u'', f_type = Utf8, f_nullable = True, f_metadata = []\<rparr>"
  defines "a \<equiv> \<lparr>b_schema = [f, g], b_columns = [Int64Col [None], OtherCol 1]\<rparr>"
  defines "b \<equiv> \<lparr>b_schema = [f, g], b_columns = [Int64Col [Some 5, Some 3], OtherCol 2]\<rparr>"
  defines "mn \<equiv> \<lambda>vs. list_min (somes vs)" and "mx \<equiv> \<lambda>vs. list_max (somes vs)"
  shows "sa_finish (foldl (sa_update mn mx) sa_default [a, b])
    = Some (JObject [(''k'', JObject [(''max'', JNumber (JInt 5)), (''min'', JNumber (JInt 3))])])"
proof -
  have "arrow_minmax mn mx" by (simp add: arrow_minmax_def mn_def mx_def)
  moreover have "wf_batch [f, g] a" "wf_batch [f, g] b"
    by (auto simp: wf_batch_def a_def b_def f_def g_def less_Suc_eq)
  ultimately have "sa_finish (foldl (sa_update mn mx) sa_default [a, b])
      = int64_column_stats mn mx (foldl batch_append a [b])"
    by (intro stats_accumulator_equiv [of mn mx "[f, g]"]) (simp_all add: f_def g_def)
  then show ?thesis
    by (simp add: int64_column_stats_def batch_append_def a_def b_def f_def g_def field_bounds_def
        mn_def mx_def somes_def map_filter_def list_min_def list_max_def minmax_json_def)
qed

end
