(* ===== verification/CatalogState.thy ===== *)
theory CatalogState
  imports CatalogError Stats
begin

text \<open>
  The catalog's database as the client sees it: one row record per table of the schema,
  the identity sequences, and the handle's armed test fault. A statement either takes
  effect or fails with a driver error chosen by the environment; a failing statement of
  its own transaction may nevertheless have taken effect (a lost acknowledgement), and so
  may a failing \<open>COMMIT\<close>. Inside an explicit transaction an error, and every early return
  before \<open>COMMIT\<close>, drops the transaction: the tables roll back while sequence values stay
  consumed. Transactions are serial here; the one place where their interleaving matters
  for ordering, the feed barrier, has a step relation of its own in the feed theory.
\<close>

type_synonym time = int
type_synonym uuid = nat

section \<open>Rows\<close>

record hypertable_row =
  hr_id :: hypertable_id
  hr_name :: string
  hr_schema :: json
  hr_partition_spec :: json
  hr_sort_key :: "string list"
  hr_packing_key :: string
  hr_target_file_bytes :: "i64 option"

record commit_row =
  cm_id :: commit_id
  cm_hypertable :: hypertable_id
  cm_kind :: string
  cm_key :: "string option"
  cm_fingerprint :: "bytes option"
  cm_created_at :: time

record part_row =
  pr_id :: part_id
  pr_hypertable :: hypertable_id
  pr_meta :: part_meta
  pr_key_filter :: "bytes option"
  pr_created_by :: commit_id
  pr_deleted_by :: "commit_id option"
  pr_purged_at :: "time option"

record offset_row =
  io_hypertable :: hypertable_id
  io_topic :: string
  io_partition :: i32
  io_next :: i64
  io_stream :: "stream_table_id option"

record cursor_row =
  wc_worker :: string
  wc_hypertable :: hypertable_id
  wc_last :: commit_id

record pending_row =
  po_hypertable :: hypertable_id
  po_path :: string
  po_created_at :: time

record compaction_lease =
  cl_hypertable :: hypertable_id
  cl_partition :: json
  cl_owner :: uuid
  cl_generation :: i64
  cl_expires_at :: time

record stream_row =
  sr_id :: stream_table_id
  sr_name :: string
  sr_topic :: string
  sr_format :: string
  sr_schema :: json

record pipeline_row =
  plr_id :: pipeline_id
  plr_name :: string
  plr_source_kind :: string
  plr_source_id :: i64
  plr_target_kind :: string
  plr_target_id :: hypertable_id
  plr_sql :: string
  plr_delivery :: string
  plr_error_policy :: string
  plr_event_time_column :: "string option"

datatype commit_fault = BeforeCommit | AfterCommitBeforeReturn

record catalog =
  hypertables :: "hypertable_row list"
  logical_tables :: "logical_table list"
  commits :: "commit_row list"
  parts :: "part_row list"
  ingest_offsets :: "offset_row list"
  worker_cursors :: "cursor_row list"
  pending_objects :: "pending_row list"
  leases :: "compaction_lease list"
  stream_tables :: "stream_row list"
  pipelines :: "pipeline_row list"
  hypertable_seq :: i64
  logical_table_seq :: i64
  commit_seq :: i64
  part_seq :: i64
  lease_generation_seq :: i64
  stream_table_seq :: i64
  pipeline_seq :: i64
  armed_fault :: "commit_fault option"

definition empty_catalog :: catalog where
  "empty_catalog =
     \<lparr>hypertables = [], logical_tables = [], commits = [], parts = [], ingest_offsets = [],
      worker_cursors = [], pending_objects = [], leases = [], stream_tables = [], pipelines = [],
      hypertable_seq = 0, logical_table_seq = 0, commit_seq = 0, part_seq = 0,
      lease_generation_seq = 0, stream_table_seq = 0, pipeline_seq = 0, armed_fault = None\<rparr>"

section \<open>Statements and transactions\<close>

text \<open>The statements of the client, by call site; a loop's statement carries its iteration.\<close>

datatype stmt =
    SBegin | SCommit | SFeedLockShared | SFeedLockExclusive | SSelectHead
  | SSelectOperation | SSelectConflicting | SSelectLease | SCountInside | SInsertCommit | SInsertPart nat
  | SClearPending | STombstone | SUpsertOffset nat | SAcquireLease | SRenewLease
  | SReleaseLease | SLeaseStats | SSelectOffsets | SGetCursor | SSetCursor | SFeedLags
  | SSelectCommits | SSelectAdded nat | SSelectRemoved nat | SReapable | SNextReapable
  | SNextOrphan | SMarkPurged | SAllPaths | SAllPending | SRegisterPending | SOrphans
  | SClearPendingPaths | SBacklogs | SLiveParts | SLivePruned | SQuiet | SMaxL0
  | SFinalizeCandidates | SCompactionCandidates | SLiveCounts | SBacklogGroups
  | SUnfinalized | SPing | SPartitionParts | SInsertHypertable | SGetHypertable | SInsertLogical
  | SGetLogical | SListLogical | SSetPlacement | SListHypertables | SInsertStream
  | SSelectStream | SLinkOffsets | SPipelineLock | SSelectPipeline | SSourceExists
  | STargetExists | SCycle | SInsertPipeline | SListPipelines | SInsertCursor

text \<open>\<open>env_now\<close> is \<open>now()\<close>, the start of the transaction; \<open>env_clock\<close> is
  \<open>clock_timestamp()\<close> of the statement that reads it. The flag of a failure says whether
  the statement (or \<open>COMMIT\<close>) took effect although it reported an error.\<close>

record env =
  env_now :: time
  env_clock :: time
  env_fail :: "stmt \<Rightarrow> (sqlx_error \<times> bool) option"

definition quiet_env :: "time \<Rightarrow> env" where
  "quiet_env t = \<lparr>env_now = t, env_clock = t, env_fail = (\<lambda>_. None)\<rparr>"

text \<open>What the database promises of a reported failure: only a lost connection can hide an
  effect. An error it sends back means the statement, or the transaction, did not happen.\<close>

definition reports_faithfully :: "env \<Rightarrow> bool" where
  "reports_faithfully env \<longleftrightarrow>
     (\<forall>st e. env_fail env st = Some (e, True) \<longrightarrow> class_for_db_error e = Transport)"

type_synonym 'a tx = "catalog \<Rightarrow> catalog \<times> (catalog_error, 'a) result"

definition tx_return :: "'a \<Rightarrow> 'a tx" where
  "tx_return x = (\<lambda>s. (s, Inr x))"

definition tx_fail :: "catalog_error \<Rightarrow> 'a tx" where
  "tx_fail e = (\<lambda>s. (s, Inl e))"

definition tx_bind :: "'a tx \<Rightarrow> ('a \<Rightarrow> 'b tx) \<Rightarrow> 'b tx" where
  "tx_bind m f = (\<lambda>s. case m s of (s', Inl e) \<Rightarrow> (s', Inl e) | (s', Inr x) \<Rightarrow> f x s')"

text \<open>A statement inside a transaction: \<open>.await?\<close> on its outcome.\<close>

definition exec :: "env \<Rightarrow> stmt \<Rightarrow> 'a tx \<Rightarrow> 'a tx" where
  "exec env st eff =
     (\<lambda>s. case env_fail env st of Some (e, _) \<Rightarrow> (s, Inl (Db e)) | None \<Rightarrow> eff s)"

text \<open>A statement that is its own transaction.\<close>

definition exec_auto :: "env \<Rightarrow> stmt \<Rightarrow> 'a tx \<Rightarrow> 'a tx" where
  "exec_auto env st eff =
     (\<lambda>s. case env_fail env st of
            Some (e, applied) \<Rightarrow> (if applied then fst (eff s) else s, Inl (Db e))
          | None \<Rightarrow> eff s)"

text \<open>A read.\<close>

definition query :: "env \<Rightarrow> stmt \<Rightarrow> (catalog \<Rightarrow> 'a) \<Rightarrow> 'a tx" where
  "query env st q =
     (\<lambda>s. case env_fail env st of Some (e, _) \<Rightarrow> (s, Inl (Db e)) | None \<Rightarrow> (s, Inr (q s)))"

text \<open>\<open>SELECT 1\<close>: the database answers, and nothing else is learned.\<close>

definition ping :: "env \<Rightarrow> unit tx" where
  "ping env = query env SPing (\<lambda>_. ())"

text \<open>Dropping a transaction: the tables of its start, the sequences (and the process-local
  fault) of its end.\<close>

definition rollback :: "catalog \<Rightarrow> catalog \<Rightarrow> catalog" where
  "rollback s0 s = s0\<lparr>hypertable_seq := hypertable_seq s, logical_table_seq := logical_table_seq s,
     commit_seq := commit_seq s, part_seq := part_seq s,
     lease_generation_seq := lease_generation_seq s, stream_table_seq := stream_table_seq s,
     pipeline_seq := pipeline_seq s, armed_fault := armed_fault s\<rparr>"

text \<open>A transaction whose body ends in \<open>tx.commit().await?\<close>.\<close>

definition transact :: "env \<Rightarrow> 'a tx \<Rightarrow> 'a tx" where
  "transact env body =
     (\<lambda>s. case env_fail env SBegin of
            Some (e, _) \<Rightarrow> (s, Inl (Db e))
          | None \<Rightarrow>
              (case body s of
                 (s', Inl err) \<Rightarrow> (rollback s s', Inl err)
               | (s', Inr x) \<Rightarrow>
                   (case env_fail env SCommit of
                      None \<Rightarrow> (s', Inr x)
                    | Some (e, durable) \<Rightarrow> (if durable then s' else rollback s s', Inl (Db e)))))"

definition fk_violation :: catalog_error where
  "fk_violation = Db (Database (Some ''23503''))"

definition unique_violation :: catalog_error where
  "unique_violation = Db (Database (Some ''23505''))"

definition hypertable_exists :: "catalog \<Rightarrow> hypertable_id \<Rightarrow> bool" where
  "hypertable_exists s ht \<longleftrightarrow> list_ex (\<lambda>h. hr_id h = ht) (hypertables s)"

definition live :: "part_row \<Rightarrow> bool" where
  "live p \<longleftrightarrow> pr_deleted_by p = None"

definition part_of_row :: "part_row \<Rightarrow> part" where
  "part_of_row r = \<lparr>part_id = pr_id r, part_hypertable = pr_hypertable r, part_meta = pr_meta r,
     created_by_commit = pr_created_by r\<rparr>"

section \<open>The tables alone\<close>

text \<open>Two states agree on every table; only sequences and the armed fault may differ.\<close>

definition same_tables :: "catalog \<Rightarrow> catalog \<Rightarrow> bool" where
  "same_tables s t \<longleftrightarrow> hypertables s = hypertables t \<and> logical_tables s = logical_tables t \<and>
     commits s = commits t \<and> parts s = parts t \<and> ingest_offsets s = ingest_offsets t \<and>
     worker_cursors s = worker_cursors t \<and> pending_objects s = pending_objects t \<and>
     leases s = leases t \<and> stream_tables s = stream_tables t \<and> pipelines s = pipelines t"

definition seqs_le :: "catalog \<Rightarrow> catalog \<Rightarrow> bool" where
  "seqs_le s t \<longleftrightarrow> hypertable_seq s \<le> hypertable_seq t \<and> logical_table_seq s \<le> logical_table_seq t \<and>
     commit_seq s \<le> commit_seq t \<and> part_seq s \<le> part_seq t \<and>
     lease_generation_seq s \<le> lease_generation_seq t \<and> stream_table_seq s \<le> stream_table_seq t \<and>
     pipeline_seq s \<le> pipeline_seq t"

lemma same_tables_refl [simp]: "same_tables s s"
  by (simp add: same_tables_def)

lemma same_tables_rollback [simp]: "same_tables s (rollback s s')" "same_tables (rollback s s') s"
  by (simp_all add: same_tables_def rollback_def)

lemma rollback_simps [simp]:
  "hypertables (rollback s s') = hypertables s" "logical_tables (rollback s s') = logical_tables s"
  "commits (rollback s s') = commits s" "parts (rollback s s') = parts s"
  "ingest_offsets (rollback s s') = ingest_offsets s" "worker_cursors (rollback s s') = worker_cursors s"
  "pending_objects (rollback s s') = pending_objects s" "leases (rollback s s') = leases s"
  "stream_tables (rollback s s') = stream_tables s" "pipelines (rollback s s') = pipelines s"
  "commit_seq (rollback s s') = commit_seq s'" "part_seq (rollback s s') = part_seq s'"
  "hypertable_seq (rollback s s') = hypertable_seq s'" "logical_table_seq (rollback s s') = logical_table_seq s'"
  "lease_generation_seq (rollback s s') = lease_generation_seq s'"
  "stream_table_seq (rollback s s') = stream_table_seq s'" "pipeline_seq (rollback s s') = pipeline_seq s'"
  "armed_fault (rollback s s') = armed_fault s'"
  by (simp_all add: rollback_def)

lemma seqs_le_refl [simp]: "seqs_le s s"
  by (simp add: seqs_le_def)

lemma seqs_le_trans: "seqs_le s t \<Longrightarrow> seqs_le t u \<Longrightarrow> seqs_le s u"
  by (auto simp: seqs_le_def)

lemma rollback_self [simp]: "rollback s s = s"
  by (simp add: rollback_def)

section \<open>Reasoning about transaction bodies\<close>

lemma tx_bind_Inr:
  "tx_bind m f s = (s2, Inr y) \<longleftrightarrow> (\<exists>s1 x. m s = (s1, Inr x) \<and> f x s1 = (s2, Inr y))"
  by (auto simp: tx_bind_def split: prod.splits sum.splits)

lemma tx_bind_Inl:
  "tx_bind m f s = (s2, Inl e) \<longleftrightarrow>
     m s = (s2, Inl e) \<or> (\<exists>s1 x. m s = (s1, Inr x) \<and> f x s1 = (s2, Inl e))"
  by (auto simp: tx_bind_def split: prod.splits sum.splits)

lemma tx_return_iff: "tx_return x s = (s', r) \<longleftrightarrow> s' = s \<and> r = Inr x"
  by (auto simp: tx_return_def)

lemma tx_fail_iff: "tx_fail e s = (s', r) \<longleftrightarrow> s' = s \<and> r = Inl e"
  by (auto simp: tx_fail_def)

lemma exec_Inr: "exec env st eff s = (s', Inr x) \<longleftrightarrow> env_fail env st = None \<and> eff s = (s', Inr x)"
  by (auto simp: exec_def split: option.splits)

lemma exec_Inl:
  "exec env st eff s = (s', Inl err) \<longleftrightarrow>
     (\<exists>e d. env_fail env st = Some (e, d) \<and> s' = s \<and> err = Db e) \<or>
     (env_fail env st = None \<and> eff s = (s', Inl err))"
  by (auto simp: exec_def split: option.splits)

lemma query_Inr: "query env st q s = (s', Inr x) \<longleftrightarrow> env_fail env st = None \<and> s' = s \<and> x = q s"
  by (auto simp: query_def split: option.splits)

lemma query_Inl:
  "query env st q s = (s', Inl err) \<longleftrightarrow> (\<exists>e d. env_fail env st = Some (e, d) \<and> s' = s \<and> err = Db e)"
  by (auto simp: query_def split: option.splits)

lemma query_state [simp]: "fst (query env st q s) = s"
  by (auto simp: query_def split: option.splits)

lemmas tx_results = tx_bind_Inr tx_bind_Inl tx_return_iff tx_fail_iff exec_Inr exec_Inl query_Inr query_Inl

text \<open>An assertion that every step of a body keeps, whatever its outcome.\<close>

definition keeps :: "(catalog \<Rightarrow> bool) \<Rightarrow> 'a tx \<Rightarrow> bool" where
  "keeps P m \<longleftrightarrow> (\<forall>s. P s \<longrightarrow> P (fst (m s)))"

lemma keeps_bind: "keeps P m \<Longrightarrow> (\<And>x. keeps P (f x)) \<Longrightarrow> keeps P (tx_bind m f)"
  by (fastforce simp: keeps_def tx_bind_def split: prod.splits sum.splits)

lemma keeps_exec: "keeps P eff \<Longrightarrow> keeps P (exec env st eff)"
  by (auto simp: keeps_def exec_def split: option.splits)

lemma keeps_exec_auto: "keeps P eff \<Longrightarrow> keeps P (exec_auto env st eff)"
  by (auto simp: keeps_def exec_auto_def split: option.splits)

lemma keeps_query [simp]: "keeps P (query env st q)"
  by (simp add: keeps_def)

lemma keeps_return [simp]: "keeps P (tx_return x)" "keeps P (tx_fail e)"
  by (simp_all add: keeps_def tx_return_def tx_fail_def)

lemma keeps_transact:
  assumes "keeps P body" "\<And>s s'. P s \<Longrightarrow> P s' \<Longrightarrow> P (rollback s s')"
  shows "keeps P (transact env body)"
proof -
  have "P (fst (transact env body s))" if "P s" for s
  proof -
    have "P (fst (body s))" using assms(1) that by (simp add: keeps_def)
    with that assms(2) show ?thesis
      by (auto simp: transact_def split: option.splits prod.splits sum.splits)
  qed
  then show ?thesis by (simp add: keeps_def)
qed

end
