(* ===== verification/Leases.thy ===== *)
theory Leases
  imports CatalogState
begin

text \<open>
  Compaction partition leases, \<^verbatim>\<open>crates/ukiel-catalog/src/leases.rs\<close>: claiming a
  partition, renewing and releasing a held claim, all judged by the database's clock.
  The tenancy contract the fence and the compactor rely on is a locale over an abstract
  holder table, interpreted on the catalog's lease operations.
\<close>

section \<open>Definitions\<close>

definition ttl_millis :: "nat \<Rightarrow> (catalog_error, i64) result" where
  "ttl_millis ms =
     (if ms = 0 then Inl (InvalidLeaseTtl ''must be greater than zero'')
      else if in_i64 (int ms) then Inr (int ms)
      else Inl (InvalidLeaseTtl ''exceeds i64 milliseconds''))"

definition lease_key :: "compaction_lease \<Rightarrow> hypertable_id \<times> json" where
  "lease_key l = (cl_hypertable l, cl_partition l)"

definition lease_at :: "catalog \<Rightarrow> hypertable_id \<times> json \<Rightarrow> compaction_lease option" where
  "lease_at s k = find (\<lambda>l. lease_key l = k) (leases s)"

definition put_lease :: "compaction_lease \<Rightarrow> compaction_lease list \<Rightarrow> compaction_lease list" where
  "put_lease l ls = map (\<lambda>x. if lease_key x = lease_key l then l else x) ls"

text \<open>The claim as one statement: the \<open>VALUES\<close> list draws its generation before the
  conflict on the primary key is known, so a loser consumes one too.\<close>

definition acquire_stmt ::
  "env \<Rightarrow> hypertable_id \<Rightarrow> json \<Rightarrow> uuid \<Rightarrow> i64 \<Rightarrow> compaction_lease option tx" where
  "acquire_stmt env ht pv owner ms = (\<lambda>s.
     let g = lease_generation_seq s + 1;
         s1 = s\<lparr>lease_generation_seq := g\<rparr>;
         fresh = \<lparr>cl_hypertable = ht, cl_partition = pv, cl_owner = owner,
                  cl_generation = g, cl_expires_at = env_clock env + ms\<rparr>
     in case lease_at s (ht, pv) of
          None \<Rightarrow>
            if hypertable_exists s ht then (s1\<lparr>leases := leases s @ [fresh]\<rparr>, Inr (Some fresh))
            else (s1, Inl fk_violation)
        | Some l \<Rightarrow>
            if cl_expires_at l \<le> env_clock env \<or> cl_owner l = owner then
              let l' = fresh\<lparr>cl_generation :=
                   if cl_owner l = owner \<and> cl_expires_at l > env_clock env then cl_generation l else g\<rparr>
              in (s1\<lparr>leases := put_lease l' (leases s)\<rparr>, Inr (Some l'))
            else (s1, Inr None))"

definition try_acquire_compaction_lease ::
  "env \<Rightarrow> hypertable_id \<Rightarrow> json \<Rightarrow> uuid \<Rightarrow> nat \<Rightarrow> compaction_lease option tx" where
  "try_acquire_compaction_lease env ht pv owner ttl =
     (case ttl_millis ttl of
        Inl e \<Rightarrow> tx_fail e
      | Inr ms \<Rightarrow> exec_auto env SAcquireLease (acquire_stmt env ht pv owner ms))"

definition renew_stmt :: "env \<Rightarrow> compaction_lease \<Rightarrow> i64 \<Rightarrow> compaction_lease option tx" where
  "renew_stmt env lease ms = (\<lambda>s.
     case lease_at s (lease_key lease) of
       None \<Rightarrow> (s, Inr None)
     | Some l \<Rightarrow>
         if cl_owner l = cl_owner lease \<and> cl_generation l = cl_generation lease
            \<and> cl_expires_at l > env_clock env then
           let l' = l\<lparr>cl_expires_at := env_clock env + ms\<rparr>
           in (s\<lparr>leases := put_lease l' (leases s)\<rparr>, Inr (Some l'))
         else (s, Inr None))"

definition renew_compaction_lease :: "env \<Rightarrow> compaction_lease \<Rightarrow> nat \<Rightarrow> compaction_lease option tx" where
  "renew_compaction_lease env lease ttl =
     (case ttl_millis ttl of
        Inl e \<Rightarrow> tx_fail e
      | Inr ms \<Rightarrow> exec_auto env SRenewLease (renew_stmt env lease ms))"

definition same_tenancy :: "compaction_lease \<Rightarrow> compaction_lease \<Rightarrow> bool" where
  "same_tenancy a b \<longleftrightarrow> lease_key a = lease_key b \<and> cl_owner a = cl_owner b
     \<and> cl_generation a = cl_generation b"

definition release_compaction_lease :: "env \<Rightarrow> compaction_lease \<Rightarrow> bool tx" where
  "release_compaction_lease env lease =
     exec_auto env SReleaseLease (\<lambda>s.
       (s\<lparr>leases := filter (\<lambda>l. \<not> same_tenancy l lease) (leases s)\<rparr>,
        Inr (list_ex (\<lambda>l. same_tenancy l lease) (leases s))))"

text \<open>Active leases, and how long ago the longest-expired one lapsed (0 without one).\<close>

definition compaction_lease_stats :: "env \<Rightarrow> (nat \<times> time) tx" where
  "compaction_lease_stats env =
     query env SLeaseStats (\<lambda>s.
       (length (filter (\<lambda>l. cl_expires_at l > env_clock env) (leases s)),
        case list_max (map (\<lambda>l. env_clock env - cl_expires_at l)
                        (filter (\<lambda>l. cl_expires_at l \<le> env_clock env) (leases s))) of
          None \<Rightarrow> 0 | Some a \<Rightarrow> a))"

section \<open>The lease table\<close>

definition wf_leases :: "catalog \<Rightarrow> bool" where
  "wf_leases s \<longleftrightarrow> distinct (map lease_key (leases s)) \<and> 0 \<le> lease_generation_seq s \<and>
     (\<forall>l \<in> set (leases s). 0 < cl_generation l \<and> cl_generation l \<le> lease_generation_seq s) \<and>
     distinct (map cl_generation (leases s))"

lemma lease_at_Some: "lease_at s k = Some l \<Longrightarrow> l \<in> set (leases s) \<and> lease_key l = k"
  by (auto simp: lease_at_def find_Some_iff)

lemma lease_at_key: "lease_at s k = Some l \<Longrightarrow> k \<in> lease_key ` set (leases s)"
  by (auto dest: lease_at_Some)

lemma lease_at_None: "lease_at s k = None \<longleftrightarrow> k \<notin> lease_key ` set (leases s)"
  by (auto simp: lease_at_def find_None_iff)

lemma find_distinct_key:
  "distinct (map f xs) \<Longrightarrow> x \<in> set xs \<Longrightarrow> find (\<lambda>y. f y = f x) xs = Some x"
  by (induction xs) (auto simp: image_iff)

lemma lease_at_member:
  "wf_leases s \<Longrightarrow> l \<in> set (leases s) \<Longrightarrow> lease_at s (lease_key l) = Some l"
  by (simp add: lease_at_def wf_leases_def find_distinct_key)

lemma keys_put_lease [simp]: "map lease_key (put_lease l ls) = map lease_key ls"
  by (simp add: put_lease_def)

lemma find_put_lease:
  "lease_key l \<in> lease_key ` set ls \<Longrightarrow>
     find (\<lambda>x. lease_key x = k) (put_lease l ls)
       = (if k = lease_key l then Some l else find (\<lambda>x. lease_key x = k) ls)"
proof (induction ls)
  case (Cons a ls)
  show ?case
  proof (cases "lease_key a = lease_key l")
    case False
    with Cons show ?thesis by (cases "lease_key a = k") (auto simp: put_lease_def)
  next
    case True
    have "find (\<lambda>x. lease_key x = k) (put_lease l ls) = find (\<lambda>x. lease_key x = k) ls"
      if "k \<noteq> lease_key l" for ls
      using that by (induction ls) (simp_all add: put_lease_def)
    with True show ?thesis by (auto simp: put_lease_def)
  qed
qed simp

lemma find_append:
  "find P (xs @ ys) = (case find P xs of None \<Rightarrow> find P ys | Some x \<Rightarrow> Some x)"
  by (induction xs) auto

lemma find_filter_key:
  assumes "distinct (map f xs)" "find (\<lambda>x. f x = k) xs = Some l"
  shows "find (\<lambda>x. f x = k) (filter Q xs) = (if Q l then Some l else None)"
  using assms
proof (induction xs)
  case (Cons x xs)
  show ?case
  proof (cases "f x = k")
    case True
    with Cons.prems have "x = l" "find (\<lambda>x. f x = k) xs = None" by (auto simp: find_None_iff image_iff)
    with True show ?thesis by (auto simp: find_None_iff)
  next
    case False
    with Cons show ?thesis by auto
  qed
qed simp

lemma find_filter_none: "find P xs = None \<Longrightarrow> find P (filter Q xs) = None"
  by (auto simp: find_None_iff)

lemma set_put_lease:
  "set (put_lease l ls) \<subseteq> insert l {x \<in> set ls. lease_key x \<noteq> lease_key l}"
  by (auto simp: put_lease_def)

lemma distinct_generations_put:
  assumes "distinct (map lease_key ls)" "distinct (map cl_generation ls)"
    and "\<forall>x \<in> set ls. lease_key x \<noteq> lease_key l \<longrightarrow> cl_generation x \<noteq> cl_generation l"
  shows "distinct (map cl_generation (put_lease l ls))"
  using assms
proof (induction ls)
  case (Cons a ls)
  have same: "put_lease l ls = ls" if "lease_key a = lease_key l"
    using Cons.prems(1) that by (auto simp: put_lease_def image_iff intro!: map_idI)
  have "distinct (map cl_generation (put_lease l ls))" using Cons by simp
  moreover have "cl_generation (if lease_key a = lease_key l then l else a)
      \<notin> cl_generation ` set (put_lease l ls)"
  proof (cases "lease_key a = lease_key l")
    case True
    have "lease_key x \<noteq> lease_key l" if "x \<in> set ls" for x
      using Cons.prems(1) True that by (auto simp: image_iff)
    with Cons.prems(3) have "\<forall>x \<in> set ls. cl_generation x \<noteq> cl_generation l" by simp
    with True same show ?thesis by auto
  next
    case False
    with Cons.prems set_put_lease [of l ls] show ?thesis by (auto simp: image_iff)
  qed
  moreover have "put_lease l (a # ls)
      = (if lease_key a = lease_key l then l else a) # put_lease l ls"
    by (simp add: put_lease_def)
  ultimately show ?case by simp
qed (simp add: put_lease_def)

lemma wf_put_lease:
  assumes "wf_leases s" "lease_key l \<in> lease_key ` set (leases s)"
    and "0 < cl_generation l" "cl_generation l \<le> g" "lease_generation_seq s \<le> g"
    and "\<forall>x \<in> set (leases s). lease_key x \<noteq> lease_key l \<longrightarrow> cl_generation x \<noteq> cl_generation l"
  shows "wf_leases (s\<lparr>lease_generation_seq := g, leases := put_lease l (leases s)\<rparr>)"
proof -
  have "\<forall>x \<in> set (put_lease l (leases s)). 0 < cl_generation x \<and> cl_generation x \<le> g"
  proof
    fix x assume "x \<in> set (put_lease l (leases s))"
    with set_put_lease [of l "leases s"] have "x = l \<or> x \<in> set (leases s)" by auto
    with assms(1,3-5) show "0 < cl_generation x \<and> cl_generation x \<le> g"
      by (fastforce simp: wf_leases_def)
  qed
  moreover have "distinct (map cl_generation (put_lease l (leases s)))"
    using assms(1,6) by (intro distinct_generations_put) (simp_all add: wf_leases_def)
  ultimately show ?thesis using assms(1,5) by (simp add: wf_leases_def)
qed

lemma wf_leases_seq:
  "wf_leases s \<Longrightarrow> lease_generation_seq s \<le> g \<Longrightarrow> wf_leases (s\<lparr>lease_generation_seq := g\<rparr>)"
  by (auto simp: wf_leases_def)

lemma wf_acquire: "wf_leases s \<Longrightarrow> wf_leases (fst (acquire_stmt env ht p ow ms s))"
proof (cases "lease_at s (ht, p)")
  case None
  assume wf: "wf_leases s"
  from None have "(ht, p) \<notin> lease_key ` set (leases s)" by (simp add: lease_at_None)
  with None wf show ?thesis
    by (fastforce simp: acquire_stmt_def Let_def wf_leases_def lease_key_def)
next
  case (Some l)
  assume wf: "wf_leases s"
  note l = lease_at_Some [OF Some]
  show ?thesis
  proof (cases "cl_expires_at l \<le> env_clock env \<or> cl_owner l = ow")
    case True
    define g where "g = (if cl_owner l = ow \<and> cl_expires_at l > env_clock env
        then cl_generation l else lease_generation_seq s + 1)"
    define l' where "l' = \<lparr>cl_hypertable = ht, cl_partition = p, cl_owner = ow,
        cl_generation = g, cl_expires_at = env_clock env + ms\<rparr>"
    have key: "lease_key l' = lease_key l" using l by (simp add: l'_def lease_key_def)
    have other: "cl_generation x \<noteq> g" if "x \<in> set (leases s)" "lease_key x \<noteq> lease_key l'" for x
    proof -
      have "x \<noteq> l" using that key by auto
      with wf that l have "cl_generation x \<noteq> cl_generation l"
        by (auto simp: wf_leases_def distinct_map dest: inj_onD)
      moreover have "cl_generation x \<le> lease_generation_seq s" using wf that by (simp add: wf_leases_def)
      ultimately show ?thesis by (auto simp: g_def)
    qed
    have "wf_leases (s\<lparr>lease_generation_seq := lease_generation_seq s + 1, leases := put_lease l' (leases s)\<rparr>)"
    proof (rule wf_put_lease [OF wf])
      show "lease_key l' \<in> lease_key ` set (leases s)" using l key by (metis imageI)
      show "0 < cl_generation l'" "cl_generation l' \<le> lease_generation_seq s + 1"
        using wf l by (auto simp: l'_def g_def wf_leases_def)
      show "\<forall>x\<in>set (leases s). lease_key x \<noteq> lease_key l' \<longrightarrow> cl_generation x \<noteq> cl_generation l'"
        using other by (simp add: l'_def)
    qed simp
    moreover have "fst (acquire_stmt env ht p ow ms s)
        = s\<lparr>lease_generation_seq := lease_generation_seq s + 1, leases := put_lease l' (leases s)\<rparr>"
      using Some True by (simp add: acquire_stmt_def Let_def l'_def g_def)
    ultimately show ?thesis by simp
  next
    case False
    with Some wf wf_leases_seq [OF wf] show ?thesis
      by (simp add: acquire_stmt_def Let_def)
  qed
qed

lemma wf_renew: "wf_leases s \<Longrightarrow> wf_leases (fst (renew_stmt env lease ms s))"
proof (cases "lease_at s (lease_key lease)")
  case (Some l)
  assume wf: "wf_leases s"
  note l = lease_at_Some [OF Some]
  let ?l = "l\<lparr>cl_expires_at := env_clock env + ms\<rparr>"
  have "cl_generation x \<noteq> cl_generation l" if "x \<in> set (leases s)" "lease_key x \<noteq> lease_key l" for x
    using wf that l by (auto simp: wf_leases_def distinct_map dest: inj_onD)
  then have "wf_leases (s\<lparr>lease_generation_seq := lease_generation_seq s, leases := put_lease ?l (leases s)\<rparr>)"
  proof (intro wf_put_lease [OF wf])
    show "lease_key ?l \<in> lease_key ` set (leases s)" 
      using lease_at_key [OF Some] l by (simp add: lease_key_def [of ?l]) (simp add: lease_key_def)
  qed (use wf l in \<open>auto simp: wf_leases_def lease_key_def\<close>)
  with Some wf show ?thesis by (auto simp: renew_stmt_def Let_def)
qed (simp add: renew_stmt_def)

lemma wf_release: "wf_leases s \<Longrightarrow> wf_leases (s\<lparr>leases := filter Q (leases s)\<rparr>)"
  by (auto simp: wf_leases_def distinct_map_filter)

section \<open>Tenancies\<close>

text \<open>What a holder of a generation may rely on: generations are drawn from a counter that
  only grows, and a step either leaves a key's holder alone, clears it, or installs a
  holder under a generation drawn by that step.\<close>

locale tenancy =
  fixes holder :: "'s \<Rightarrow> 'k \<Rightarrow> ('o \<times> int) option"
    and drawn :: "'s \<Rightarrow> int"
    and good :: "'s \<Rightarrow> bool"
    and step :: "'s \<Rightarrow> 's \<Rightarrow> bool"
  assumes good_step: "good s \<Longrightarrow> step s s' \<Longrightarrow> good s'"
    and drawn_mono: "good s \<Longrightarrow> step s s' \<Longrightarrow> drawn s \<le> drawn s'"
    and below: "good s \<Longrightarrow> holder s k = Some (ow, g) \<Longrightarrow> g \<le> drawn s"
    and one_place: "good s \<Longrightarrow> holder s k = Some (ow, g) \<Longrightarrow> holder s k' = Some (ow', g) \<Longrightarrow> k = k'"
    and fresh: "good s \<Longrightarrow> step s s' \<Longrightarrow> holder s' k = Some (ow, g) \<Longrightarrow>
      holder s k = Some (ow, g) \<or> drawn s < g"
begin

lemma good_run: "step\<^sup>*\<^sup>* s s' \<Longrightarrow> good s \<Longrightarrow> good s'"
  by (induction rule: rtranclp_induct) (auto intro: good_step)

lemma drawn_run: "step\<^sup>*\<^sup>* s s' \<Longrightarrow> good s \<Longrightarrow> drawn s \<le> drawn s'"
  by (induction rule: rtranclp_induct) (auto intro: order.trans drawn_mono good_run)

lemma never_returns:
  assumes "step\<^sup>*\<^sup>* s s'" "good s" "g \<le> drawn s" "holder s k \<noteq> Some (ow, g)"
  shows "holder s' k \<noteq> Some (ow, g)"
  using assms
proof (induction rule: rtranclp_induct)
  case (step t u)
  then show ?case using fresh [of t u k ow g] drawn_run [of s t] good_run [of s t] by fastforce
qed simp

lemma generation_unique:
  assumes "step\<^sup>*\<^sup>* s s'" "good s" "holder s k = Some (ow, g)" "holder s' k' = Some (ow', g)"
  shows "k' = k \<and> ow' = ow"
proof -
  have "holder s k' = Some (ow', g)"
    using never_returns [OF assms(1,2) below [OF assms(2,3)]] assms(4) by blast
  moreover from one_place [OF assms(2,3) this] have "k' = k" by simp
  ultimately show ?thesis using assms(3) by simp
qed

end

definition lease_holder :: "catalog \<Rightarrow> hypertable_id \<times> json \<Rightarrow> (uuid \<times> i64) option" where
  "lease_holder s k = map_option (\<lambda>l. (cl_owner l, cl_generation l)) (lease_at s k)"

text \<open>Everything that can happen to the lease table, in any interleaving of workers: the
  three operations under any environment, and every other statement of the catalog, none
  of which writes it.\<close>

inductive lease_step :: "catalog \<Rightarrow> catalog \<Rightarrow> bool" where
  acquire: "lease_step s (fst (try_acquire_compaction_lease env ht pv ow ttl s))"
| renew: "lease_step s (fst (renew_compaction_lease env lease ttl s))"
| release: "lease_step s (fst (release_compaction_lease env lease s))"
| other: "leases s' = leases s \<Longrightarrow> lease_generation_seq s \<le> lease_generation_seq s' \<Longrightarrow> lease_step s s'"

lemma lease_at_acquire:
  assumes "lease_at (fst (acquire_stmt env ht pv ow ms s)) k = Some l"
  shows "lease_at s k = Some l \<or>
    k = (ht, pv) \<and> cl_owner l = ow \<and>
      (cl_generation l = lease_generation_seq s + 1 \<or> lease_holder s k = Some (ow, cl_generation l))"
proof (cases "lease_at s (ht, pv)")
  case None
  with assms show ?thesis
    by (auto simp: acquire_stmt_def Let_def lease_at_def find_append lease_key_def
        split: if_splits option.splits)
next
  case (Some l0)
  note l0 = lease_at_Some [OF Some]
  show ?thesis
  proof (cases "cl_expires_at l0 \<le> env_clock env \<or> cl_owner l0 = ow")
    case True
    define l' where "l' = \<lparr>cl_hypertable = ht, cl_partition = pv, cl_owner = ow,
        cl_generation = (if cl_owner l0 = ow \<and> cl_expires_at l0 > env_clock env
          then cl_generation l0 else lease_generation_seq s + 1),
        cl_expires_at = env_clock env + ms\<rparr>"
    have key: "lease_key l' = (ht, pv)" by (simp add: l'_def lease_key_def)
    have "leases (fst (acquire_stmt env ht pv ow ms s)) = put_lease l' (leases s)"
      using Some True by (simp add: acquire_stmt_def Let_def l'_def)
    with assms have "(if k = (ht, pv) then Some l' else lease_at s k) = Some l"
      using find_put_lease [of l' "leases s" k] l0 imageI [of l0 "set (leases s)" lease_key]
      by (simp add: lease_at_def key)
    then show ?thesis
      using Some by (auto simp: lease_holder_def l'_def split: if_splits)
  next
    case False
    with Some assms show ?thesis by (simp add: acquire_stmt_def Let_def lease_at_def)
  qed
qed

lemma lease_at_renew:
  assumes "lease_at (fst (renew_stmt env lease ms s)) k = Some l"
  shows "lease_holder s k = Some (cl_owner l, cl_generation l)"
proof (cases "fst (renew_stmt env lease ms s) = s")
  case True
  with assms show ?thesis by (simp add: lease_holder_def)
next
  case False
  then obtain l0 where Some: "lease_at s (lease_key lease) = Some l0"
    and "fst (renew_stmt env lease ms s)
      = s\<lparr>leases := put_lease (l0\<lparr>cl_expires_at := env_clock env + ms\<rparr>) (leases s)\<rparr>"
    by (auto simp: renew_stmt_def Let_def split: option.splits if_splits)
  moreover have "lease_key (l0\<lparr>cl_expires_at := env_clock env + ms\<rparr>) = lease_key l0"
    by (simp add: lease_key_def)
  ultimately have "(if k = lease_key l0 then Some (l0\<lparr>cl_expires_at := env_clock env + ms\<rparr>)
      else lease_at s k) = Some l"
    using assms lease_at_Some [OF Some] lease_at_key [OF Some]
      find_put_lease [of "l0\<lparr>cl_expires_at := env_clock env + ms\<rparr>" "leases s" k]
    by (auto simp: lease_at_def split: if_splits)
  with Some lease_at_Some [OF Some] show ?thesis
    by (auto simp: lease_holder_def split: if_splits)
qed

lemma lease_at_release:
  assumes "wf_leases s" "lease_at (s\<lparr>leases := filter Q (leases s)\<rparr>) k = Some l"
  shows "lease_at s k = Some l"
proof (cases "lease_at s k")
  case None
  then have "lease_at (s\<lparr>leases := filter Q (leases s)\<rparr>) k = None"
    unfolding lease_at_def by (simp add: find_filter_none)
  with assms show ?thesis by simp
next
  case (Some l0)
  with assms find_filter_key [of lease_key "leases s" k l0 Q] show ?thesis
    by (simp add: lease_at_def wf_leases_def split: if_splits)
qed

text \<open>The state an operation leaves is the old one or the one its statement computed.\<close>

lemma auto_cases: "fst (exec_auto env st eff s) = s \<or> fst (exec_auto env st eff s) = fst (eff s)"
  by (auto simp: exec_auto_def split: option.splits)

lemma auto_keeps: "P s \<Longrightarrow> P (fst (eff s)) \<Longrightarrow> P (fst (exec_auto env st eff s))"
  using auto_cases [of env st eff s] by auto

lemma lease_step_wf: "lease_step s s' \<Longrightarrow> wf_leases s \<Longrightarrow> wf_leases s'"
proof (induction rule: lease_step.induct)
  case (acquire s env ht pv ow ttl)
  then show ?case
    by (auto simp: try_acquire_compaction_lease_def tx_fail_def wf_acquire auto_keeps split: sum.splits)
next
  case (renew s env lease ttl)
  then show ?case
    by (auto simp: renew_compaction_lease_def tx_fail_def wf_renew auto_keeps split: sum.splits)
next
  case (release s env lease)
  then show ?case
    by (auto simp: release_compaction_lease_def exec_auto_def wf_release split: option.splits)
next
  case (other s' s)
  then show ?case by (auto simp: wf_leases_def)
qed

lemma lease_step_seq: "lease_step s s' \<Longrightarrow> lease_generation_seq s \<le> lease_generation_seq s'"
proof (induction rule: lease_step.induct)
  case (acquire s env ht pv ow ttl)
  show ?case
    by (auto simp: try_acquire_compaction_lease_def tx_fail_def exec_auto_def acquire_stmt_def Let_def
        split: sum.splits option.splits)
next
  case (renew s env lease ttl)
  show ?case
    by (auto simp: renew_compaction_lease_def tx_fail_def exec_auto_def renew_stmt_def Let_def
        split: sum.splits option.splits)
qed (auto simp: release_compaction_lease_def exec_auto_def split: option.splits)

lemma lease_step_fresh:
  "lease_step s s' \<Longrightarrow> wf_leases s \<Longrightarrow> lease_holder s' k = Some (ow, g) \<Longrightarrow>
     lease_holder s k = Some (ow, g) \<or> lease_generation_seq s < g"
proof (induction rule: lease_step.induct)
  case (acquire s env ht pv ow' ttl)
  define Q where "Q t \<longleftrightarrow> (lease_holder t k = Some (ow, g) \<longrightarrow>
      lease_holder s k = Some (ow, g) \<or> lease_generation_seq s < g)" for t
  have "Q (fst (acquire_stmt env ht pv ow' ms s))" for ms
    using lease_at_acquire [of env ht pv ow' ms s k] by (auto simp: Q_def lease_holder_def)
  moreover have "Q s" by (simp add: Q_def)
  ultimately have "Q (fst (try_acquire_compaction_lease env ht pv ow' ttl s))"
    by (auto simp: try_acquire_compaction_lease_def tx_fail_def auto_keeps split: sum.splits)
  with acquire.prems show ?case by (simp add: Q_def)
next
  case (renew s env lease ttl)
  define Q where "Q t \<longleftrightarrow> (lease_holder t k = Some (ow, g) \<longrightarrow> lease_holder s k = Some (ow, g))" for t
  have "Q (fst (renew_stmt env lease ms s))" for ms
    using lease_at_renew [of env lease ms s k] by (auto simp: Q_def lease_holder_def)
  moreover have "Q s" by (simp add: Q_def)
  ultimately have "Q (fst (renew_compaction_lease env lease ttl s))"
    by (auto simp: renew_compaction_lease_def tx_fail_def auto_keeps split: sum.splits)
  with renew.prems show ?case by (simp add: Q_def)
next
  case (release s env lease)
  then show ?case
    using lease_at_release [OF release.prems(1)]
    by (fastforce simp: release_compaction_lease_def exec_auto_def lease_holder_def
        split: option.splits if_splits)
next
  case (other s' s)
  then show ?case by (simp add: lease_holder_def lease_at_def)
qed

interpretation lease_tenancy: tenancy lease_holder lease_generation_seq wf_leases lease_step
proof
  fix s s' k ow g k' ow'
  show "wf_leases s \<Longrightarrow> lease_step s s' \<Longrightarrow> wf_leases s'" by (rule lease_step_wf)
  show "wf_leases s \<Longrightarrow> lease_step s s' \<Longrightarrow> lease_generation_seq s \<le> lease_generation_seq s'"
    by (rule lease_step_seq)
  show "wf_leases s \<Longrightarrow> lease_holder s k = Some (ow, g) \<Longrightarrow> g \<le> lease_generation_seq s"
    by (auto simp: lease_holder_def wf_leases_def dest: lease_at_Some)
  show "wf_leases s \<Longrightarrow> lease_holder s k = Some (ow, g) \<Longrightarrow> lease_holder s k' = Some (ow', g) \<Longrightarrow> k = k'"
    by (fastforce simp: lease_holder_def wf_leases_def distinct_map dest: lease_at_Some inj_onD)
  show "wf_leases s \<Longrightarrow> lease_step s s' \<Longrightarrow> lease_holder s' k = Some (ow, g) \<Longrightarrow>
      lease_holder s k = Some (ow, g) \<or> lease_generation_seq s < g" by (rule lease_step_fresh)
qed

section \<open>Properties\<close>

text \<open>C25: a lease token is never reused. However claims, renewals, releases, lost
  acknowledgements and unrelated statements interleave after a state in which some
  partition is held under generation \<open>g\<close>, a later holder under \<open>g\<close> is the same owner on
  the same partition, and once that tenancy is gone it never comes back. Every operation
  keeps the table well formed: one row per partition, distinct positive generations.\<close>

theorem lease_generation_never_reused:
  assumes "wf_leases s" "lease_step\<^sup>*\<^sup>* s t"
    and "lease_holder s k = Some (ow, g)"
  shows "wf_leases t
    \<and> (\<forall>k' ow'. lease_holder t k' = Some (ow', g) \<longrightarrow> k' = k \<and> ow' = ow)
    \<and> (lease_holder t k \<noteq> Some (ow, g) \<longrightarrow>
        (\<forall>u k' ow'. lease_step\<^sup>*\<^sup>* t u \<longrightarrow> lease_holder u k' \<noteq> Some (ow', g)))"
proof (intro conjI allI impI)
  show wf: "wf_leases t" using lease_tenancy.good_run assms(1,2) by blast
  show "k' = k" "ow' = ow" if "lease_holder t k' = Some (ow', g)" for k' ow'
    using lease_tenancy.generation_unique [OF assms(2,1,3) that] by simp_all
  have "g \<le> lease_generation_seq t"
    using lease_tenancy.below [OF assms(1,3)] lease_tenancy.drawn_run [OF assms(2,1)] by simp
  then show "lease_holder u k' \<noteq> Some (ow', g)"
    if "lease_holder t k \<noteq> Some (ow, g)" "lease_step\<^sup>*\<^sup>* t u" for u k' ow'
    using that lease_tenancy.never_returns [OF that(2) wf]
      lease_tenancy.generation_unique [OF rtranclp_trans [OF assms(2) that(2)] assms(1,3), of k' ow']
    by blast
qed

text \<open>C25: worker 7 claims a partition, releases it, and worker 7 claims it again: a new
  generation.\<close>

theorem lease_generation_never_reused_witness:
  fixes l :: compaction_lease and s :: catalog
  defines "l \<equiv> \<lparr>cl_hypertable = 1, cl_partition = JNull, cl_owner = 7, cl_generation = 1, cl_expires_at = 50\<rparr>"
  defines "s \<equiv> empty_catalog\<lparr>leases := [l], lease_generation_seq := 1\<rparr>"
  shows "lease_holder (fst (release_compaction_lease (quiet_env 10) l s)) (1, JNull) = None
    \<and> (\<nexists>u. lease_step\<^sup>*\<^sup>* (fst (release_compaction_lease (quiet_env 10) l s)) u
          \<and> lease_holder u (1, JNull) = Some (7, 1))"
proof -
  have "wf_leases s" by (simp add: wf_leases_def s_def l_def)
  moreover have "lease_holder s (1, JNull) = Some (7, 1)"
    by (simp add: lease_holder_def lease_at_def lease_key_def s_def l_def)
  moreover have none: "lease_holder (fst (release_compaction_lease (quiet_env 10) l s)) (1, JNull) = None"
    by (simp add: release_compaction_lease_def exec_auto_def quiet_env_def same_tenancy_def
        lease_holder_def lease_at_def s_def)
  moreover have "lease_step\<^sup>*\<^sup>* s (fst (release_compaction_lease (quiet_env 10) l s))"
    by (intro r_into_rtranclp lease_step.release)
  ultimately show ?thesis
    using lease_generation_never_reused [of s "fst (release_compaction_lease (quiet_env 10) l s)" "(1, JNull)" 7 1]
    by auto
qed

text \<open>Claiming a partition. While a peer's lease is unexpired by the database's clock, a
  claim answers \<open>Ok(None)\<close> and the lease rows stay as they are. Otherwise it succeeds, the
  claimant holds the partition until \<open>ttl\<close> from now, an unexpired lease of its own keeps
  its generation, anything else gets the next one, and no other partition's row moves.
  A token that is not the current tenancy renews and releases nothing.\<close>

lemma lease_claim_exclusive:
  assumes "0 < ttl" "in_i64 (int ttl)" "hypertable_exists s ht"
    and ok: "env_fail env SAcquireLease = None" "env_fail env SRenewLease = None" "env_fail env SReleaseLease = None"
  shows "(let r = try_acquire_compaction_lease env ht pv ow ttl s; held = lease_at s (ht, pv) in
      if \<exists>l. held = Some l \<and> cl_owner l \<noteq> ow \<and> env_clock env < cl_expires_at l
      then snd r = Inr None \<and> leases (fst r) = leases s
      else \<exists>l'. snd r = Inr (Some l') \<and> lease_at (fst r) (ht, pv) = Some l'
        \<and> cl_owner l' = ow \<and> cl_expires_at l' = env_clock env + int ttl
        \<and> cl_generation l' = (case held of
            Some l \<Rightarrow> if cl_owner l = ow \<and> env_clock env < cl_expires_at l then cl_generation l
                     else lease_generation_seq s + 1
          | None \<Rightarrow> lease_generation_seq s + 1)
        \<and> (\<forall>k. k \<noteq> (ht, pv) \<longrightarrow> lease_at (fst r) k = lease_at s k))
    \<and> (lease_holder s (lease_key tok) \<noteq> Some (cl_owner tok, cl_generation tok) \<and> wf_leases s \<longrightarrow>
        renew_compaction_lease env tok ttl s = (s, Inr None)
        \<and> release_compaction_lease env tok s = (s, Inr False))" (is "?claim \<and> ?stale")
proof (rule conjI)
  have t: "ttl_millis ttl = Inr (int ttl)" using assms(1,2) by (simp add: ttl_millis_def)
  have a: "try_acquire_compaction_lease env ht pv ow ttl s = acquire_stmt env ht pv ow (int ttl) s"
    by (simp add: try_acquire_compaction_lease_def t exec_auto_def ok)
  show ?claim
  proof (cases "lease_at s (ht, pv)")
    case None
    then show ?thesis
      using assms(3)
      by (auto simp: a acquire_stmt_def Let_def lease_at_def find_append lease_key_def split: option.splits)
  next
    case (Some l)
    note l = lease_at_Some [OF Some] lease_at_key [OF Some]
    show ?thesis
    proof (cases "cl_expires_at l \<le> env_clock env \<or> cl_owner l = ow")
      case True
      define l' where "l' = \<lparr>cl_hypertable = ht, cl_partition = pv, cl_owner = ow,
          cl_generation = (if cl_owner l = ow \<and> cl_expires_at l > env_clock env
            then cl_generation l else lease_generation_seq s + 1),
          cl_expires_at = env_clock env + int ttl\<rparr>"
      have r: "acquire_stmt env ht pv ow (int ttl) s
          = (s\<lparr>lease_generation_seq := lease_generation_seq s + 1, leases := put_lease l' (leases s)\<rparr>, Inr (Some l'))"
        using Some True by (simp add: acquire_stmt_def Let_def l'_def)
      have at: "lease_at (s\<lparr>lease_generation_seq := lease_generation_seq s + 1, leases := put_lease l' (leases s)\<rparr>) k
          = (if k = (ht, pv) then Some l' else lease_at s k)" for k
        using find_put_lease [of l' "leases s" k] l by (simp add: lease_at_def l'_def lease_key_def)
      have f: "cl_owner l' = ow" "cl_expires_at l' = env_clock env + int ttl"
        "cl_generation l' = (if cl_owner l = ow \<and> cl_expires_at l > env_clock env
            then cl_generation l else lease_generation_seq s + 1)"
        by (simp_all add: l'_def)
      from True Some show ?thesis unfolding a r by (auto simp: at Let_def f)
    next
      case False
      with Some show ?thesis by (simp add: a acquire_stmt_def Let_def)
    qed
  qed
  show ?stale
  proof
    assume h: "lease_holder s (lease_key tok) \<noteq> Some (cl_owner tok, cl_generation tok) \<and> wf_leases s"
    then have "\<not> same_tenancy l tok" if "l \<in> set (leases s)" for l
      using lease_at_member [of s l] that by (auto simp: same_tenancy_def lease_holder_def)
    then have "filter (\<lambda>l. \<not> same_tenancy l tok) (leases s) = leases s"
      "\<not> list_ex (\<lambda>l. same_tenancy l tok) (leases s)"
      by (auto simp: filter_id_conv list_ex_iff)
    moreover have "renew_stmt env tok (int ttl) s = (s, Inr None)"
      using h by (auto simp: renew_stmt_def lease_holder_def split: option.splits)
    ultimately show "renew_compaction_lease env tok ttl s = (s, Inr None)
        \<and> release_compaction_lease env tok s = (s, Inr False)"
      by (simp add: renew_compaction_lease_def release_compaction_lease_def t exec_auto_def ok)
  qed
qed

text \<open>A peer claims a partition while it is held, and again after it expired.\<close>

lemma lease_claim_exclusive_witness:
  fixes l :: compaction_lease and s :: catalog and h :: hypertable_row
  defines "l \<equiv> \<lparr>cl_hypertable = 1, cl_partition = JNull, cl_owner = 7, cl_generation = 1, cl_expires_at = 50\<rparr>"
  defines "h \<equiv> \<lparr>hr_id = 1, hr_name = ''t'', hr_schema = JNull, hr_partition_spec = JNull, hr_sort_key = [],
    hr_packing_key = ''k'', hr_target_file_bytes = None\<rparr>"
  defines "s \<equiv> empty_catalog\<lparr>hypertables := [h], leases := [l], lease_generation_seq := 1\<rparr>"
  shows "snd (try_acquire_compaction_lease (quiet_env 10) 1 JNull 8 30 s) = Inr None
    \<and> (\<exists>l'. snd (try_acquire_compaction_lease (quiet_env 50) 1 JNull 8 30 s) = Inr (Some l')
        \<and> cl_generation l' = 2)"
proof -
  have e: "hypertable_exists s 1" "in_i64 (int 30)"
    by (simp_all add: hypertable_exists_def s_def h_def in_i64_def)
  have at: "lease_at s (1, JNull) = Some l" by (simp add: lease_at_def lease_key_def s_def l_def)
  from at e show ?thesis
    using lease_claim_exclusive [of 30 s 1 "quiet_env 10" JNull 8 l]
      lease_claim_exclusive [of 30 s 1 "quiet_env 50" JNull 8 l]
    by (simp add: quiet_env_def Let_def l_def) (auto simp: s_def)
qed

end
