(* ===== verification/KeyFilter.thy ===== *)
theory KeyFilter
  imports Prelude
begin

text \<open>
  The bounded membership filter over a part's packing keys,
  \<^verbatim>\<open>crates/ukiel-core/src/keyfilter.rs\<close>: the three tiers, the Carter-Wegman
  probe positions, \<open>build\<close>, \<open>maybe_contains\<close>, and the SQL predicate the catalog
  generates together with the binds it is handed. The SQL text is modelled by its
  meaning: a list of \<open>CASE\<close> arms over bind numbers, evaluated against a blob, where
  \<open>get_byte\<close> past the end raises (the value \<open>None\<close>).

  Shown here: a built filter never denies a key it was built from; every probe of
  every key lies inside the blob of its tier, so neither Rust's indexing nor SQL's
  \<open>get_byte\<close> can fail; the hash stays inside \<open>i64\<close>; the SQL predicate with the binds
  of a non-negative key decides exactly \<open>maybe_contains\<close>.
\<close>

section \<open>Definitions\<close>

record tier =
  tier_bytes :: nat
  supported_keys :: nat

definition KEY_FILTER_V1 :: byte where
  "KEY_FILTER_V1 = 1"

definition PROBES :: nat where
  "PROBES = 4"

definition TIERS :: "tier list" where
  "TIERS = [\<lparr>tier_bytes = 128, supported_keys = 80\<rparr>,
            \<lparr>tier_bytes = 1024, supported_keys = 640\<rparr>,
            \<lparr>tier_bytes = 2048, supported_keys = 1280\<rparr>]"

definition SUPPORTED_KEYS :: nat where
  "SUPPORTED_KEYS = supported_keys (TIERS ! (length TIERS - 1))"

definition MAX_KEYS_WORTH_FILTERING :: nat where
  "MAX_KEYS_WORTH_FILTERING = 8000"

definition tier_for :: "nat \<Rightarrow> tier" where
  "tier_for keys =
     (case find (\<lambda>t. keys \<le> supported_keys t) TIERS of
        Some t \<Rightarrow> t
      | None \<Rightarrow> TIERS ! (length TIERS - 1))"

definition encoded_len_for :: "nat \<Rightarrow> nat" where
  "encoded_len_for keys =
     (if keys \<le> 1 \<or> keys > MAX_KEYS_WORTH_FILTERING then 0
      else 1 + tier_bytes (tier_for keys))"

record probe =
  probe_byte :: i32
  probe_mask :: i32

definition HASH_PRIME :: i64 where
  "HASH_PRIME = 2147483647"

definition PROBE_PARAMS :: "(i64 \<times> i64) list" where
  "PROBE_PARAMS =
     [(1640531527, 1013904223),
      (1103515245, 12345),
      (1664525, 1566083941),
      (2654435761 mod HASH_PRIME, 362437)]"

text \<open>\<open>rem_euclid\<close> by a positive modulus is HOL's \<open>mod\<close>; the operands of the two later
  remainders are never negative, so Rust's \<open>%\<close> is \<open>mod\<close> there too.\<close>

definition bit_index :: "i64 \<Rightarrow> nat \<Rightarrow> u32 \<Rightarrow> u32" where
  "bit_index key probe bits =
     (let k = key mod HASH_PRIME;
          (a, b) = PROBE_PARAMS ! probe
      in nat (((a * k + b) mod HASH_PRIME) mod int bits))"

definition probes :: "i64 \<Rightarrow> u32 \<Rightarrow> probe list" where
  "probes key bits =
     map (\<lambda>p. let bit = bit_index key p bits
               in \<lparr>probe_byte = 1 + int (bit div 8), probe_mask = 2 ^ (bit mod 8)\<rparr>)
       [0..<PROBES]"

definition set_probe :: "bytes \<Rightarrow> probe \<Rightarrow> bytes" where
  "set_probe blob p =
     blob[nat (probe_byte p) := blob ! nat (probe_byte p) OR word_of_int (probe_mask p)]"

definition set_key :: "u32 \<Rightarrow> bytes \<Rightarrow> i64 \<Rightarrow> bytes" where
  "set_key bits blob key = foldl set_probe blob (probes key bits)"

definition build :: "i64 list \<Rightarrow> bytes option" where
  "build keys =
     (if length keys \<le> 1 \<or> length keys > MAX_KEYS_WORTH_FILTERING \<or> list_ex (\<lambda>k. k < 0) keys
      then None
      else
        let tier = tier_for (length keys);
            blob = KEY_FILTER_V1 # replicate (tier_bytes tier) 0;
            bits = tier_bytes tier * 8
        in Some (foldl (set_key bits) blob keys))"

definition maybe_contains :: "bytes \<Rightarrow> i64 \<Rightarrow> bool" where
  "maybe_contains blob key =
     (if key < 0 \<or> length blob < 2 \<or> blob ! 0 \<noteq> KEY_FILTER_V1 then True
      else
        case find (\<lambda>t. length blob = 1 + tier_bytes t) TIERS of
          None \<Rightarrow> True
        | Some tier \<Rightarrow>
            list_all
              (\<lambda>p. blob ! nat (probe_byte p) AND word_of_int (probe_mask p) \<noteq> 0)
              (probes key (tier_bytes tier * 8)))"

text \<open>The SQL side. \<open>sql_arms\<close> is the list of generated \<open>WHEN octet_length(col) = n THEN ...\<close>
  arms: the length, and per probe the numbers of the binds carrying the byte offset and
  the mask; the bind counter runs through the tiers as the Rust loop's does.\<close>

fun sql_arms :: "tier list \<Rightarrow> nat \<Rightarrow> (nat \<times> (nat \<times> nat) list) list" where
  "sql_arms [] bind = []"
| "sql_arms (t # ts) bind =
     (1 + tier_bytes t, map (\<lambda>i. (bind + 2 * i, bind + 2 * i + 1)) [0..<PROBES])
     # sql_arms ts (bind + 2 * PROBES)"

definition get_byte :: "bytes \<Rightarrow> int \<Rightarrow> int option" where
  "get_byte blob i = (if 0 \<le> i \<and> i < int (length blob) then Some (uint (blob ! nat i)) else None)"

text \<open>A conjunction of \<open>(get_byte(col, $b) & $m) <> 0\<close> tests. SQL promises no
  short-circuit, so one failing \<open>get_byte\<close> fails the whole predicate.\<close>

definition sql_probe_test :: "bytes \<Rightarrow> (nat \<Rightarrow> int) \<Rightarrow> nat \<times> nat \<Rightarrow> bool option" where
  "sql_probe_test blob binds bm =
     map_option (\<lambda>v. v AND binds (snd bm) \<noteq> 0) (get_byte blob (binds (fst bm)))"

definition sql_all :: "bool option list \<Rightarrow> bool option" where
  "sql_all rs = (if None \<in> set rs then None else Some (list_all the rs))"

fun sql_case :: "bytes \<Rightarrow> (nat \<Rightarrow> int) \<Rightarrow> (nat \<times> (nat \<times> nat) list) list \<Rightarrow> bool option" where
  "sql_case blob binds [] = Some True"
| "sql_case blob binds ((n, tests) # arms) =
     (if length blob = n then sql_all (map (sql_probe_test blob binds) tests)
      else sql_case blob binds arms)"

definition sql_predicate :: "nat \<Rightarrow> bytes option \<Rightarrow> (nat \<Rightarrow> int) \<Rightarrow> bool option" where
  "sql_predicate first_bind col binds =
     (case col of
        None \<Rightarrow> Some True
      | Some blob \<Rightarrow>
          if length blob < 2 then Some True
          else if get_byte blob 0 \<noteq> Some (uint KEY_FILTER_V1) then Some True
          else sql_case blob binds (sql_arms TIERS first_bind))"

definition sql_binds :: "i64 \<Rightarrow> i32 list" where
  "sql_binds key =
     concat (map (\<lambda>p. [probe_byte p, probe_mask p])
       (concat (map (\<lambda>t. probes key (tier_bytes t * 8)) TIERS)))"

text \<open>The bind environment of a query that binds the list \<open>vs\<close> from number \<open>first_bind\<close> on.\<close>

definition bind_env :: "nat \<Rightarrow> int list \<Rightarrow> nat \<Rightarrow> int" where
  "bind_env first_bind vs n = vs ! (n - first_bind)"

section \<open>Tiers and probes\<close>

lemma tier_for_mem: "tier_for n \<in> set TIERS"
  by (simp add: tier_for_def TIERS_def)

lemma TIERS_cases:
  assumes "t \<in> set TIERS"
  obtains "t = \<lparr>tier_bytes = 128, supported_keys = 80\<rparr>"
    | "t = \<lparr>tier_bytes = 1024, supported_keys = 640\<rparr>"
    | "t = \<lparr>tier_bytes = 2048, supported_keys = 1280\<rparr>"
  using assms by (auto simp: TIERS_def)

lemma find_tier_by_length:
  "t \<in> set TIERS \<Longrightarrow> find (\<lambda>u. 1 + tier_bytes t = 1 + tier_bytes u) TIERS = Some t"
  by (auto simp: TIERS_def)

lemma HASH_PRIME_pos [simp]: "0 < HASH_PRIME"
  by (simp add: HASH_PRIME_def)

lemma bit_index_less: "0 < bits \<Longrightarrow> bit_index key p bits < bits"
  by (simp add: bit_index_def Let_def case_prod_beta nat_less_iff)

lemma length_probes [simp]: "length (probes key bits) = PROBES"
  by (simp add: probes_def)

lemma probes_range:
  assumes "p \<in> set (probes key (tier_bytes t * 8))" and "0 < tier_bytes t"
  shows "1 \<le> probe_byte p" and "probe_byte p \<le> int (tier_bytes t)"
    and "\<exists>n < 8. probe_mask p = 2 ^ n"
proof -
  from assms(1) obtain i where p: "p = \<lparr>probe_byte = 1 + int (bit_index key i (tier_bytes t * 8) div 8),
      probe_mask = 2 ^ (bit_index key i (tier_bytes t * 8) mod 8)\<rparr>"
    by (auto simp: probes_def Let_def)
  have "bit_index key i (tier_bytes t * 8) < tier_bytes t * 8"
    using assms(2) by (intro bit_index_less) simp
  then have "bit_index key i (tier_bytes t * 8) div 8 < tier_bytes t" by (simp add: div_less_iff_less_mult)
  then show "1 \<le> probe_byte p" "probe_byte p \<le> int (tier_bytes t)" by (simp_all add: p)
  show "\<exists>n < 8. probe_mask p = 2 ^ n"
    by (rule exI [of _ "bit_index key i (tier_bytes t * 8) mod 8"]) (simp add: p)
qed

lemma tier_bytes_pos: "t \<in> set TIERS \<Longrightarrow> 0 < tier_bytes t"
  by (auto simp: TIERS_def)

section \<open>Setting bits\<close>

text \<open>One probe is satisfied by a blob.\<close>

definition hit :: "bytes \<Rightarrow> probe \<Rightarrow> bool" where
  "hit blob p \<longleftrightarrow> blob ! nat (probe_byte p) AND word_of_int (probe_mask p) \<noteq> 0"

lemma length_set_probe [simp]: "length (set_probe blob p) = length blob"
  by (simp add: set_probe_def)

lemma length_foldl_set_probe [simp]: "length (foldl set_probe blob ps) = length blob"
  by (induction ps arbitrary: blob) auto

lemma length_set_key [simp]: "length (set_key bits blob k) = length blob"
  by (simp add: set_key_def)

lemma length_foldl_set_key [simp]: "length (foldl (set_key bits) blob ks) = length blob"
  by (induction ks arbitrary: blob) auto

lemma and_or_mono_ne_0: "x AND m \<noteq> 0 \<Longrightarrow> (x OR y) AND m \<noteq> (0::byte)"
  by (auto simp: bit_eq_iff bit_simps)

lemma hit_set_probe_mono: "hit blob p \<Longrightarrow> hit (set_probe blob q) p"
proof (cases "nat (probe_byte p) = nat (probe_byte q) \<and> nat (probe_byte q) < length blob")
  case True
  then show "hit blob p \<Longrightarrow> ?thesis"
    by (simp add: hit_def set_probe_def and_or_mono_ne_0)
next
  case False
  then have "set_probe blob q ! nat (probe_byte p) = blob ! nat (probe_byte p)"
    by (cases "nat (probe_byte q) < length blob") (auto simp: set_probe_def list_update_beyond)
  then show "hit blob p \<Longrightarrow> ?thesis" by (simp add: hit_def)
qed

lemma byte_mask_ne_0: "n < 8 \<Longrightarrow> (word_of_int (2 ^ n) :: byte) \<noteq> 0"
proof
  assume "n < 8" and "(word_of_int (2 ^ n) :: byte) = 0"
  then have "bit (word_of_int (2 ^ n) :: byte) n = False" by simp
  with \<open>n < 8\<close> show False by (simp add: bit_simps)
qed

lemma hit_set_probe_self:
  assumes "nat (probe_byte p) < length blob" and "n < 8" and "probe_mask p = 2 ^ n"
  shows "hit (set_probe blob p) p"
proof -
  have "((blob ! nat (probe_byte p)) OR word_of_int (probe_mask p)) AND word_of_int (probe_mask p)
      = (word_of_int (probe_mask p) :: byte)"
    by (simp add: and.commute or.commute)
  with assms byte_mask_ne_0 [OF assms(2)] show ?thesis
    by (simp add: hit_def set_probe_def)
qed

lemma hit_foldl_set_probe_mono: "hit blob p \<Longrightarrow> hit (foldl set_probe blob ps) p"
  by (induction ps arbitrary: blob) (auto intro: hit_set_probe_mono)

lemma hit_foldl_set_probe:
  assumes "p \<in> set ps" and "nat (probe_byte p) < length blob" and "\<exists>n < 8. probe_mask p = 2 ^ n"
  shows "hit (foldl set_probe blob ps) p"
  using assms
proof (induction ps arbitrary: blob)
  case (Cons q ps)
  show ?case
  proof (cases "p = q")
    case True
    with Cons.prems have "hit (set_probe blob q) p" by (auto intro: hit_set_probe_self)
    then show ?thesis by (auto intro: hit_foldl_set_probe_mono)
  next
    case False
    with Cons show ?thesis by auto
  qed
qed simp

lemma hit_foldl_set_key_mono: "hit blob p \<Longrightarrow> hit (foldl (set_key bits) blob ks) p"
  by (induction ks arbitrary: blob) (auto simp: set_key_def intro: hit_foldl_set_probe_mono)

lemma hit_foldl_set_key:
  assumes "k \<in> set ks" and "t \<in> set TIERS" and "length blob = 1 + tier_bytes t"
    and "p \<in> set (probes k (tier_bytes t * 8))"
  shows "hit (foldl (set_key (tier_bytes t * 8)) blob ks) p"
  using assms(1,3)
proof (induction ks arbitrary: blob)
  case (Cons q ks)
  show ?case
  proof (cases "k = q")
    case True
    note r = probes_range [OF assms(4) tier_bytes_pos [OF assms(2)]]
    have "nat (probe_byte p) < length blob"
      using r(1,2) Cons.prems(2) by linarith
    then have "hit (set_key (tier_bytes t * 8) blob k) p"
      unfolding set_key_def using assms(4) r(3) by (intro hit_foldl_set_probe)
    then show ?thesis by (auto simp: True intro: hit_foldl_set_key_mono)
  next
    case False
    with Cons show ?thesis by auto
  qed
qed simp

lemma set_probe_0:
  assumes "1 \<le> probe_byte p"
  shows "set_probe blob p ! 0 = blob ! 0"
  using assms by (cases blob) (auto simp: set_probe_def nth_list_update split: nat.splits)

lemma foldl_set_probe_0:
  "\<forall>p \<in> set ps. 1 \<le> probe_byte p \<Longrightarrow> foldl set_probe blob ps ! 0 = blob ! 0"
  by (induction ps arbitrary: blob) (auto simp: set_probe_0)

lemma foldl_set_key_0:
  assumes "t \<in> set TIERS"
  shows "foldl (set_key (tier_bytes t * 8)) blob ks ! 0 = blob ! 0"
proof (induction ks arbitrary: blob)
  case (Cons k ks)
  have "\<forall>p \<in> set (probes k (tier_bytes t * 8)). 1 \<le> probe_byte p"
    using probes_range(1) [OF _ tier_bytes_pos [OF assms]] by blast
  then show ?case
    using Cons by (simp add: set_key_def foldl_set_probe_0)
qed simp

section \<open>The filter built from a key list\<close>

lemma build_SomeD:
  assumes "build keys = Some blob"
  shows "blob = foldl (set_key (tier_bytes (tier_for (length keys)) * 8))
                  (KEY_FILTER_V1 # replicate (tier_bytes (tier_for (length keys))) 0) keys"
    and "length blob = 1 + tier_bytes (tier_for (length keys))"
    and "\<forall>k \<in> set keys. 0 \<le> k"
    and "1 < length keys" and "length keys \<le> MAX_KEYS_WORTH_FILTERING"
  using assms by (auto simp: build_def Let_def list_ex_iff split: if_splits)

lemma build_version: "build keys = Some blob \<Longrightarrow> blob ! 0 = KEY_FILTER_V1"
  by (subst build_SomeD(1)) (simp_all add: foldl_set_key_0 tier_for_mem)

lemma maybe_contains_tier:
  assumes "t \<in> set TIERS" and "length blob = 1 + tier_bytes t" and "blob ! 0 = KEY_FILTER_V1"
    and "0 \<le> key"
  shows "maybe_contains blob key \<longleftrightarrow> (\<forall>p \<in> set (probes key (tier_bytes t * 8)). hit blob p)"
  using assms tier_bytes_pos [OF assms(1)] find_tier_by_length [OF assms(1)]
  by (simp add: maybe_contains_def list_all_iff hit_def)

section \<open>The SQL predicate\<close>

lemma sql_all_map:
  "(\<And>x. x \<in> set xs \<Longrightarrow> f x = Some (g x)) \<Longrightarrow> sql_all (map f xs) = Some (list_all g xs)"
  by (auto simp: sql_all_def list_all_iff)

lemma byte_and_mask:
  assumes "n < 8"
  shows "uint (w::byte) AND 2 ^ n \<noteq> 0 \<longleftrightarrow> w AND word_of_int (2 ^ n) \<noteq> 0"
proof -
  have "uint (w AND word_of_int (2 ^ n)) = uint w AND 2 ^ n"
    using assms by (intro bit_eqI) (auto simp: bit_simps)
  then show ?thesis by (metis uint_0_iff)
qed

lemma sql_probe_test_hit:
  assumes "t \<in> set TIERS" and "length blob = 1 + tier_bytes t"
    and "p \<in> set (probes key (tier_bytes t * 8))"
    and "binds b = probe_byte p" and "binds m = probe_mask p"
  shows "sql_probe_test blob binds (b, m) = Some (hit blob p)"
proof -
  note r = probes_range [OF assms(3) tier_bytes_pos [OF assms(1)]]
  obtain n where n: "n < 8" "probe_mask p = 2 ^ n" using r(3) by blast
  have "get_byte blob (probe_byte p) = Some (uint (blob ! nat (probe_byte p)))"
    using r(1,2) assms(2) by (simp add: get_byte_def)
  then show ?thesis
    using byte_and_mask [OF n(1)] by (simp add: sql_probe_test_def assms(4,5) hit_def n(2))
qed

lemma sql_binds_nth:
  assumes "ti < length TIERS" and "i < PROBES"
  shows "sql_binds key ! (2 * PROBES * ti + 2 * i)
           = probe_byte (probes key (tier_bytes (TIERS ! ti) * 8) ! i)"
    and "sql_binds key ! (2 * PROBES * ti + 2 * i + 1)
           = probe_mask (probes key (tier_bytes (TIERS ! ti) * 8) ! i)"
proof -
  have P4: "probes key b = [probes key b ! 0, probes key b ! 1, probes key b ! 2, probes key b ! 3]" for b
    by (simp add: probes_def PROBES_def upt_rec)
  have "sql_binds key =
    concat (map (\<lambda>p. [probe_byte p, probe_mask p])
      (concat (map (\<lambda>t. [probes key (tier_bytes t * 8) ! 0, probes key (tier_bytes t * 8) ! 1,
         probes key (tier_bytes t * 8) ! 2, probes key (tier_bytes t * 8) ! 3]) TIERS)))"
    unfolding sql_binds_def by (subst P4) (rule refl)
  moreover have "ti \<in> {0, 1, 2}" "i \<in> {0, 1, 2, 3}"
    using assms by (auto simp: TIERS_def PROBES_def)
  ultimately show
    "sql_binds key ! (2 * PROBES * ti + 2 * i) = probe_byte (probes key (tier_bytes (TIERS ! ti) * 8) ! i)"
    "sql_binds key ! (2 * PROBES * ti + 2 * i + 1) = probe_mask (probes key (tier_bytes (TIERS ! ti) * 8) ! i)"
    by (auto simp: TIERS_def PROBES_def)
qed

lemma sql_arm_holds:
  assumes "ti < length TIERS" and "length blob = 1 + tier_bytes (TIERS ! ti)"
    and "bind = first_bind + 2 * PROBES * ti"
  shows "sql_all (map (sql_probe_test blob (bind_env first_bind (sql_binds key)))
            (map (\<lambda>i. (bind + 2 * i, bind + 2 * i + 1)) [0..<PROBES]))
         = Some (\<forall>p \<in> set (probes key (tier_bytes (TIERS ! ti) * 8)). hit blob p)"
proof -
  let ?ps = "probes key (tier_bytes (TIERS ! ti) * 8)"
  have t: "TIERS ! ti \<in> set TIERS" using assms(1) by simp
  have "sql_probe_test blob (bind_env first_bind (sql_binds key)) (bind + 2 * i, bind + 2 * i + 1)
      = Some (hit blob (?ps ! i))" if "i < PROBES" for i
    using that sql_binds_nth [OF assms(1) that, of key]
    by (intro sql_probe_test_hit [OF t assms(2), where key = key])
       (auto simp: bind_env_def assms(3) add.assoc)
  then have "sql_all (map (\<lambda>i. sql_probe_test blob (bind_env first_bind (sql_binds key))
                 (bind + 2 * i, bind + 2 * i + 1)) [0..<PROBES])
      = Some (list_all (\<lambda>i. hit blob (?ps ! i)) [0..<PROBES])"
    by (intro sql_all_map) simp
  also have "list_all (\<lambda>i. hit blob (?ps ! i)) [0..<PROBES] \<longleftrightarrow> (\<forall>p \<in> set ?ps. hit blob p)"
    by (auto simp: list_all_iff all_set_conv_all_nth)
  finally show ?thesis by (simp add: comp_def)
qed

lemma sql_case_tier:
  assumes "ti < length TIERS" and "length blob = 1 + tier_bytes (TIERS ! ti)"
  shows "sql_case blob (bind_env first_bind (sql_binds key)) (sql_arms TIERS first_bind)
         = Some (\<forall>p \<in> set (probes key (tier_bytes (TIERS ! ti) * 8)). hit blob p)"
proof -
  have arm: "length blob = 1 + tier_bytes (TIERS ! j) \<Longrightarrow> j < length TIERS \<Longrightarrow>
      bind = first_bind + 2 * PROBES * j \<Longrightarrow>
      sql_all (map (sql_probe_test blob (bind_env first_bind (sql_binds key)))
            (map (\<lambda>i. (bind + 2 * i, bind + 2 * i + 1)) [0..<PROBES]))
         = Some (\<forall>p \<in> set (probes key (tier_bytes (TIERS ! j) * 8)). hit blob p)" for j bind
    by (rule sql_arm_holds)
  have "ti = 0 \<or> ti = 1 \<or> ti = 2" using assms(1) by (auto simp: TIERS_def)
  then show ?thesis
    using assms arm [of 0 first_bind] arm [of 1 "first_bind + 2 * PROBES"]
      arm [of 2 "first_bind + 2 * PROBES + 2 * PROBES"]
    by (elim disjE) (simp_all add: TIERS_def del: map_map)
qed

lemma sql_case_unknown_length:
  "\<forall>t \<in> set ts. length blob \<noteq> 1 + tier_bytes t \<Longrightarrow> sql_case blob binds (sql_arms ts b) = Some True"
  by (induction ts arbitrary: b) auto

lemma get_byte_version:
  "2 \<le> length blob \<Longrightarrow> get_byte blob 0 = Some (uint KEY_FILTER_V1) \<longleftrightarrow> blob ! 0 = KEY_FILTER_V1"
  by (auto simp: get_byte_def dest: unsigned_word_eqI)

text \<open>With the binds of any key, the predicate on a well-sized filter is the conjunction
  of that key's probes; it never raises.\<close>

lemma sql_predicate_known_tier:
  assumes "t \<in> set TIERS" and "length blob = 1 + tier_bytes t" and "blob ! 0 = KEY_FILTER_V1"
  shows "sql_predicate first_bind (Some blob) (bind_env first_bind (sql_binds key))
         = Some (\<forall>p \<in> set (probes key (tier_bytes t * 8)). hit blob p)"
proof -
  obtain ti where "ti < length TIERS" "TIERS ! ti = t"
    using assms(1) by (auto simp: in_set_conv_nth)
  moreover have "2 \<le> length blob" using tier_bytes_pos [OF assms(1)] assms(2) by simp
  ultimately show ?thesis
    using sql_case_tier [of ti blob first_bind key] assms(2,3)
    by (simp add: sql_predicate_def get_byte_version)
qed

text \<open>What the catalog's pruning rests on: the predicate keeps every part whose filter was
  built from a key list containing the queried key.\<close>

lemma sql_predicate_keeps_members:
  assumes "build keys = Some blob" and "k \<in> set keys"
  shows "sql_predicate first_bind (Some blob) (bind_env first_bind (sql_binds k)) = Some True"
proof -
  have "\<forall>p \<in> set (probes k (tier_bytes (tier_for (length keys)) * 8)). hit blob p"
    using hit_foldl_set_key [OF assms(2) tier_for_mem [of "length keys"]]
    by (auto simp: build_SomeD(1) [OF assms(1)])
  then show ?thesis
    by (simp add: sql_predicate_known_tier [OF tier_for_mem build_SomeD(2) [OF assms(1)]
          build_version [OF assms(1)]])
qed

section \<open>Properties\<close>

text \<open>C28: a filter built from a key list never denies a key of that list: \<open>build\<close> then
  \<open>maybe_contains\<close> keeps every part that holds the key.\<close>

theorem keyfilter_no_false_negative:
  assumes "build keys = Some blob" and "k \<in> set keys"
  shows "maybe_contains blob k"
proof -
  let ?t = "tier_for (length keys)"
  have "\<forall>p \<in> set (probes k (tier_bytes ?t * 8)). hit blob p"
    using hit_foldl_set_key [OF assms(2) tier_for_mem [of "length keys"]]
    by (auto simp: build_SomeD(1) [OF assms(1)])
  then show ?thesis
    using maybe_contains_tier [OF tier_for_mem build_SomeD(2) [OF assms(1)] build_version [OF assms(1)]]
      build_SomeD(3) [OF assms(1)] assms(2) by auto
qed

theorem keyfilter_no_false_negative_witness:
  "build [7, 900, 4000] \<noteq> None \<and> maybe_contains (the (build [7, 900, 4000])) 900"
proof -
  have "build [7, 900, 4000] = Some (the (build [7, 900, 4000]))"
    by (simp add: build_def MAX_KEYS_WORTH_FILTERING_def Let_def)
  then show ?thesis
    using keyfilter_no_false_negative [of "[7, 900, 4000]" _ 900] by auto
qed

text \<open>C29: the SQL predicate, fed with the binds \<open>sql_binds\<close> computes for a non-negative key
  (wherever its bind numbers start), raises nothing and decides exactly what
  \<open>maybe_contains\<close> decides, for every stored blob, malformed ones included.\<close>

theorem sql_predicate_decides_maybe_contains:
  assumes "0 \<le> key"
  shows "sql_predicate first_bind (Some blob) (bind_env first_bind (sql_binds key))
         = Some (maybe_contains blob key)"
proof (cases "2 \<le> length blob \<and> blob ! 0 = KEY_FILTER_V1")
  case True
  show ?thesis
  proof (cases "\<exists>t \<in> set TIERS. length blob = 1 + tier_bytes t")
    case True
    then obtain t where "t \<in> set TIERS" "length blob = 1 + tier_bytes t" by blast
    then show ?thesis
      using \<open>2 \<le> length blob \<and> blob ! 0 = KEY_FILTER_V1\<close> assms
      by (simp add: sql_predicate_known_tier maybe_contains_tier)
  next
    case False
    then have "find (\<lambda>t. length blob = 1 + tier_bytes t) TIERS = None"
      by (auto simp: find_None_iff)
    with False True show ?thesis
      by (simp add: sql_predicate_def maybe_contains_def sql_case_unknown_length)
  qed
next
  case False
  then show ?thesis
    by (auto simp: sql_predicate_def maybe_contains_def get_byte_version)
qed

theorem sql_predicate_decides_maybe_contains_witness:
  "sql_predicate 3 (Some (KEY_FILTER_V1 # replicate 128 0)) (bind_env 3 (sql_binds 42))
   = Some (maybe_contains (KEY_FILTER_V1 # replicate 128 0) 42)"
  by (rule sql_predicate_decides_maybe_contains) simp

text \<open>A negative key is where the two membership tests part: \<open>maybe_contains\<close> answers
  "maybe" for it on every blob, while the SQL predicate hashes it like any other key and
  rejects an all-zero filter. (No filter is ever built over a negative key, so no part
  holding one is dropped.)\<close>

lemma negative_key_sql_divergence:
  assumes "key < 0"
  shows "maybe_contains blob key \<and>
    sql_predicate first_bind (Some (KEY_FILTER_V1 # replicate 128 0))
      (bind_env first_bind (sql_binds key)) = Some False \<and>
    (key \<in> set keys \<longrightarrow> build keys = None)"
proof (intro conjI impI)
  let ?t = "\<lparr>tier_bytes = 128, supported_keys = 80\<rparr>" and ?blob = "KEY_FILTER_V1 # replicate 128 0"
  have t: "?t \<in> set TIERS" by (simp add: TIERS_def)
  have "\<not> hit ?blob p" if "p \<in> set (probes key (tier_bytes ?t * 8))" for p
  proof -
    have "1 \<le> probe_byte p" "probe_byte p \<le> 128"
      using probes_range(1,2) [OF that tier_bytes_pos [OF t]] by simp_all
    then have "?blob ! nat (probe_byte p) = 0"
      by (cases "nat (probe_byte p)") auto
    then show ?thesis by (simp add: hit_def)
  qed
  moreover have "probes key (tier_bytes ?t * 8) ! 0 \<in> set (probes key (tier_bytes ?t * 8))"
    by (rule nth_mem) (simp add: PROBES_def)
  ultimately have "\<not> (\<forall>p \<in> set (probes key (tier_bytes ?t * 8)). hit ?blob p)"
    by blast
  then show "sql_predicate first_bind (Some ?blob) (bind_env first_bind (sql_binds key)) = Some False"
    using sql_predicate_known_tier [OF t, of ?blob first_bind key] by simp
  show "maybe_contains blob key" using assms by (simp add: maybe_contains_def)
  show "build keys = None" if "key \<in> set keys"
    using assms that by (auto simp: build_def list_ex_iff)
qed

lemma negative_key_sql_divergence_witness:
  "maybe_contains [] (- 1) \<and> build [- 1, 5] = None \<and>
   sql_predicate 3 (Some (KEY_FILTER_V1 # replicate 128 0)) (bind_env 3 (sql_binds (- 1))) = Some False"
  using negative_key_sql_divergence [of "- 1" "[]" 3 "[- 1, 5]"] by simp

text \<open>The bounds the layout rests on. A stored filter has exactly the advertised
  size, at most 2049 bytes; every probe of every key lies behind the version byte and
  inside the blob, with a one-bit mask; and the hash never leaves \<open>i64\<close>.\<close>

lemma keyfilter_bounds:
  "(\<forall>blob. build keys = Some blob \<longrightarrow>
      length blob = encoded_len_for (length keys) \<and> length blob \<le> 2049 \<and>
      (\<forall>key. \<forall>p \<in> set (probes key (8 * (length blob - 1))).
          1 \<le> probe_byte p \<and> probe_byte p < int (length blob) \<and> (\<exists>n < 8. probe_mask p = 2 ^ n)))
   \<and> (\<forall>(a, b) \<in> set PROBE_PARAMS.
        0 \<le> a * (key mod HASH_PRIME) + b \<and> in_i64 (a * (key mod HASH_PRIME)) \<and>
        in_i64 (a * (key mod HASH_PRIME) + b))"
proof (intro conjI allI impI)
  fix blob assume b: "build keys = Some blob"
  let ?t = "tier_for (length keys)"
  have len: "length blob = 1 + tier_bytes ?t" by (rule build_SomeD(2) [OF b])
  show "length blob = encoded_len_for (length keys)"
    using build_SomeD(4,5) [OF b] by (simp add: len encoded_len_for_def)
  show "length blob \<le> 2049"
    by (rule TIERS_cases [OF tier_for_mem [of "length keys"]]) (simp_all add: len)
  fix key
  show "\<forall>p \<in> set (probes key (8 * (length blob - 1))).
      1 \<le> probe_byte p \<and> probe_byte p < int (length blob) \<and> (\<exists>n < 8. probe_mask p = 2 ^ n)"
    using probes_range [where t = ?t and key = key] tier_bytes_pos [OF tier_for_mem]
    by (fastforce simp: len mult.commute)
next
  have "0 \<le> key mod HASH_PRIME" "key mod HASH_PRIME < 2147483647"
    by (simp_all add: HASH_PRIME_def)
  then show "\<forall>(a, b) \<in> set PROBE_PARAMS.
        0 \<le> a * (key mod HASH_PRIME) + b \<and> in_i64 (a * (key mod HASH_PRIME)) \<and>
        in_i64 (a * (key mod HASH_PRIME) + b)"
    by (auto simp: PROBE_PARAMS_def in_i64_def HASH_PRIME_def)
qed

end
