(* ===== verification/Commit.thy ===== *)
theory Commit
  imports Leases KeyFilter
begin

text \<open>
  Atomic catalog mutations, \<^verbatim>\<open>crates/ukiel-catalog/src/commit.rs\<close>, with the offset cursors
  of \<^verbatim>\<open>offsets.rs\<close> and the test fault of \<^verbatim>\<open>faults.rs\<close>: ADD, REPLACE and DELETE of parts
  in one transaction, with an operation identity that makes a replay and a lost
  acknowledgement decidable, a lease fence for compaction, and compare-and-set advances of
  ingest offsets. \<open>de\<close> decodes a stored key bitmap (roaring behind base64).
\<close>

section \<open>Definitions\<close>

record offset_range =
  or_topic :: string
  or_partition :: i32
  or_first :: i64
  or_last :: i64

text \<open>\<open>i64\<close> addition of the release build: two's-complement wrap-around.\<close>

definition wrap_i64 :: "int \<Rightarrow> i64" where
  "wrap_i64 v = (v + 2 ^ 63) mod 2 ^ 64 - 2 ^ 63"

datatype operation_lookup = Absent | LookupCommitted commit_id

definition reconcile ::
  "operation_identity \<Rightarrow> (commit_id \<times> bytes option) option \<Rightarrow> (catalog_error, commit_id option) result" where
  "reconcile identity row =
     (case row of
        None \<Rightarrow> Inr None
      | Some (cid, stored) \<Rightarrow>
          (case stored of
             None \<Rightarrow> Inl (OperationKeyCollision (oi_key identity))
           | Some fp \<Rightarrow>
               if fp \<noteq> oi_fingerprint identity then Inl (OperationKeyCollision (oi_key identity))
               else Inr (Some cid)))"

definition keyed_commit :: "catalog \<Rightarrow> hypertable_id \<Rightarrow> string \<Rightarrow> commit_row option" where
  "keyed_commit s ht key = find (\<lambda>c. cm_hypertable c = ht \<and> cm_key c = Some key) (commits s)"

definition operation_row :: "operation_identity \<Rightarrow> catalog \<Rightarrow> (commit_id \<times> bytes option) option" where
  "operation_row identity s =
     map_option (\<lambda>c. (cm_id c, cm_fingerprint c)) (keyed_commit s (oi_hypertable identity) (oi_key identity))"

definition tx_lift :: "(catalog_error, 'a) result \<Rightarrow> 'a tx" where
  "tx_lift r = (case r of Inl e \<Rightarrow> tx_fail e | Inr x \<Rightarrow> tx_return x)"

definition lookup_in_tx :: "env \<Rightarrow> stmt \<Rightarrow> operation_identity \<Rightarrow> commit_id option tx" where
  "lookup_in_tx env st identity =
     tx_bind (query env st (operation_row identity)) (\<lambda>row. tx_lift (reconcile identity row))"

definition lookup_operation :: "env \<Rightarrow> operation_identity \<Rightarrow> operation_lookup tx" where
  "lookup_operation env identity =
     tx_bind (query env SSelectOperation (operation_row identity)) (\<lambda>row.
       tx_bind (tx_lift (reconcile identity row)) (\<lambda>m.
         tx_return (case m of Some cid \<Rightarrow> LookupCommitted cid | None \<Rightarrow> Absent)))"

definition fence_lease :: "env \<Rightarrow> hypertable_id \<Rightarrow> compaction_lease \<Rightarrow> commit_op \<Rightarrow> unit tx" where
  "fence_lease env ht lease op =
     (let pv = cl_partition lease in
      if ht \<noteq> cl_hypertable lease then tx_fail (LeasePartitionMismatch pv)
      else
        tx_bind (query env SSelectLease (\<lambda>s. lease_at s (ht, pv))) (\<lambda>held.
          if \<not> (case held of
                  None \<Rightarrow> False
                | Some l \<Rightarrow> cl_owner l = cl_owner lease \<and> cl_generation l = cl_generation lease
                    \<and> cl_expires_at l > env_clock env)
          then tx_fail (LeaseLost pv)
          else
            case op of
              Replace old new \<Rightarrow>
                if list_ex (\<lambda>p. partition_values p \<noteq> pv) new then tx_fail (LeasePartitionMismatch pv)
                else
                  tx_bind (query env SCountInside (\<lambda>s.
                      length (filter (\<lambda>p. pr_id p \<in> set old \<and> pr_hypertable p = ht
                                          \<and> partition_values (pr_meta p) = pv) (parts s))))
                    (\<lambda>inside. if inside \<noteq> length old then tx_fail (LeasePartitionMismatch pv)
                              else tx_return ())
            | _ \<Rightarrow> tx_fail (LeasePartitionMismatch pv)))"

definition key_filter :: "(string \<Rightarrow> nat list option) \<Rightarrow> part_meta \<Rightarrow> bytes option" where
  "key_filter de p =
     Option.bind (column_stats p) (\<lambda>stats.
       Option.bind (json_get stats PACKING_KEYS_STAT) (\<lambda>v.
         Option.bind (as_str v) (\<lambda>encoded.
           Option.bind (bitmap_keys de encoded) build)))"

definition insert_commit_stmt ::
  "env \<Rightarrow> hypertable_id \<Rightarrow> commit_op \<Rightarrow> operation_identity option \<Rightarrow> commit_id option tx" where
  "insert_commit_stmt env ht op identity = (\<lambda>s.
     let cid = commit_seq s + 1;
         s1 = s\<lparr>commit_seq := cid\<rparr>;
         row = \<lparr>cm_id = cid, cm_hypertable = ht, cm_kind = commit_op_kind op,
                cm_key = map_option oi_key identity,
                cm_fingerprint = map_option oi_fingerprint identity,
                cm_created_at = env_now env\<rparr>
     in if (\<exists>i \<in> set_option identity. keyed_commit s ht (oi_key i) \<noteq> None) then (s1, Inr None)
        else if \<not> hypertable_exists s ht then (s1, Inl fk_violation)
        else (s1\<lparr>commits := commits s @ [row]\<rparr>, Inr (Some cid)))"

definition part_row_of ::
  "(string \<Rightarrow> nat list option) \<Rightarrow> hypertable_id \<Rightarrow> commit_id \<Rightarrow> part_id \<Rightarrow> part_meta \<Rightarrow> part_row" where
  "part_row_of de ht cid pid p =
     \<lparr>pr_id = pid, pr_hypertable = ht, pr_meta = p, pr_key_filter = key_filter de p,
      pr_created_by = cid, pr_deleted_by = None, pr_purged_at = None\<rparr>"

fun insert_part_rows ::
  "env \<Rightarrow> (string \<Rightarrow> nat list option) \<Rightarrow> hypertable_id \<Rightarrow> commit_id \<Rightarrow> nat \<Rightarrow> part_meta list \<Rightarrow> unit tx" where
  "insert_part_rows env de ht cid i [] = tx_return ()"
| "insert_part_rows env de ht cid i (p # ps) =
     tx_bind
       (exec env (SInsertPart i) (\<lambda>s.
          (s\<lparr>part_seq := part_seq s + 1,
             parts := parts s @ [part_row_of de ht cid (part_seq s + 1) p]\<rparr>, Inr ())))
       (\<lambda>_. insert_part_rows env de ht cid (Suc i) ps)"

definition insert_parts ::
  "env \<Rightarrow> (string \<Rightarrow> nat list option) \<Rightarrow> hypertable_id \<Rightarrow> commit_id \<Rightarrow> part_meta list \<Rightarrow> unit tx" where
  "insert_parts env de ht cid ps =
     tx_bind (insert_part_rows env de ht cid 0 ps) (\<lambda>_.
       exec env SClearPending (\<lambda>s.
         (s\<lparr>pending_objects := filter (\<lambda>r. po_path r \<notin> path ` set ps) (pending_objects s)\<rparr>, Inr ())))"

definition tombstone_hit :: "hypertable_id \<Rightarrow> part_id list \<Rightarrow> part_row \<Rightarrow> bool" where
  "tombstone_hit ht ids p \<longleftrightarrow> pr_id p \<in> set ids \<and> pr_hypertable p = ht \<and> live p"

definition tombstone_parts :: "env \<Rightarrow> hypertable_id \<Rightarrow> commit_id \<Rightarrow> part_id list \<Rightarrow> unit tx" where
  "tombstone_parts env ht cid ids =
     exec env STombstone (\<lambda>s.
       let updated = length (filter (tombstone_hit ht ids) (parts s));
           s' = s\<lparr>parts := map (\<lambda>p. if tombstone_hit ht ids p then p\<lparr>pr_deleted_by := Some cid\<rparr> else p)
                             (parts s)\<rparr>
       in (s', if updated \<noteq> length ids then Inl (Conflict (length ids) updated) else Inr ()))"

definition offset_key :: "offset_row \<Rightarrow> hypertable_id \<times> string \<times> i32" where
  "offset_key r = (io_hypertable r, io_topic r, io_partition r)"

definition range_key :: "hypertable_id \<Rightarrow> offset_range \<Rightarrow> hypertable_id \<times> string \<times> i32" where
  "range_key ht r = (ht, or_topic r, or_partition r)"

definition offset_at :: "offset_row list \<Rightarrow> hypertable_id \<times> string \<times> i32 \<Rightarrow> offset_row option" where
  "offset_at rows k = find (\<lambda>r. offset_key r = k) rows"

text \<open>The upsert: \<open>None\<close> when no row is affected.\<close>

definition upsert_offset :: "hypertable_id \<Rightarrow> offset_range \<Rightarrow> offset_row list \<Rightarrow> offset_row list option" where
  "upsert_offset ht r rows =
     (case offset_at rows (range_key ht r) of
        None \<Rightarrow>
          Some (rows @ [\<lparr>io_hypertable = ht, io_topic = or_topic r, io_partition = or_partition r,
                         io_next = wrap_i64 (or_last r + 1), io_stream = None\<rparr>])
      | Some x \<Rightarrow>
          if io_next x \<le> or_first r then
            Some (map (\<lambda>x. if offset_key x = range_key ht r
                           then x\<lparr>io_next := wrap_i64 (or_last r + 1)\<rparr> else x) rows)
          else None)"

fun advance_offsets :: "env \<Rightarrow> hypertable_id \<Rightarrow> nat \<Rightarrow> offset_range list \<Rightarrow> unit tx" where
  "advance_offsets env ht i [] = tx_return ()"
| "advance_offsets env ht i (r # rs) =
     tx_bind
       (exec env (SUpsertOffset i) (\<lambda>s.
          case upsert_offset ht r (ingest_offsets s) of
            None \<Rightarrow> (s, Inl (OffsetRace (or_topic r) (or_partition r)))
          | Some rows \<Rightarrow> (s\<lparr>ingest_offsets := rows\<rparr>, Inr ())))
       (\<lambda>_. advance_offsets env ht (Suc i) rs)"

definition apply_op ::
  "env \<Rightarrow> (string \<Rightarrow> nat list option) \<Rightarrow> hypertable_id \<Rightarrow> commit_id \<Rightarrow> commit_op \<Rightarrow> unit tx" where
  "apply_op env de ht cid op =
     (case op of
        Add ps \<Rightarrow> insert_parts env de ht cid ps
      | Replace old new \<Rightarrow> tx_bind (tombstone_parts env ht cid old) (\<lambda>_. insert_parts env de ht cid new)
      | Delete ids \<Rightarrow> tombstone_parts env ht cid ids)"

text \<open>The test fault: armed on the handle, taken once, on its side of \<open>COMMIT\<close> only.\<close>

definition arm_commit_fault :: "commit_fault \<Rightarrow> catalog \<Rightarrow> catalog" where
  "arm_commit_fault f s = s\<lparr>armed_fault := Some f\<rparr>"

definition take_fault :: "commit_fault \<Rightarrow> catalog \<Rightarrow> catalog \<times> bool" where
  "take_fault f s = (if armed_fault s = Some f then (s\<lparr>armed_fault := None\<rparr>, True) else (s, False))"

definition injected_transport_error :: sqlx_error where
  "injected_transport_error = Io"

definition ambiguous_or_definite :: "operation_identity option \<Rightarrow> sqlx_error \<Rightarrow> catalog_error" where
  "ambiguous_or_definite identity e =
     (if class_of (Db e) \<noteq> Transport then Db e
      else case identity of
             Some i \<Rightarrow> AmbiguousMutation i e
           | None \<Rightarrow> UnidentifiedAmbiguousMutation e)"

text \<open>Before the insert: nothing, or the replay check and then the fence.\<close>

definition lease_gate ::
  "env \<Rightarrow> hypertable_id \<Rightarrow> commit_op \<Rightarrow> operation_identity option \<Rightarrow> compaction_lease option \<Rightarrow> commit_id option tx" where
  "lease_gate env ht op identity lease =
     (case lease of
          None \<Rightarrow> tx_return None
        | Some l \<Rightarrow>
            tx_bind (case identity of None \<Rightarrow> tx_return None | Some i \<Rightarrow> lookup_in_tx env SSelectOperation i)
              (\<lambda>existing. case existing of
                 Some c \<Rightarrow> tx_return (Some c)
               | None \<Rightarrow> tx_bind (fence_lease env ht l op) (\<lambda>_. tx_return None)))"

text \<open>The insert found the key taken. The \<open>expect\<close> on the identity cannot fail: an insert
  without a key conflicts with nothing.\<close>

definition key_conflict :: "env \<Rightarrow> operation_identity option \<Rightarrow> commit_result tx" where
  "key_conflict env identity =
     (case identity of
        None \<Rightarrow> tx_fail (Invariant ''a conflict requires a key, and a key requires an identity'')
      | Some i \<Rightarrow>
          tx_bind (lookup_in_tx env SSelectConflicting i) (\<lambda>existing.
            case existing of
              Some c \<Rightarrow> tx_return (AlreadyApplied c)
            | None \<Rightarrow> tx_fail (NotFound (''commit for operation '' @ oi_key i
                         @ '' vanished between conflict and read''))))"

definition apply_new ::
  "env \<Rightarrow> (string \<Rightarrow> nat list option) \<Rightarrow> hypertable_id \<Rightarrow> commit_op \<Rightarrow> offset_range list \<Rightarrow> commit_id
   \<Rightarrow> commit_result tx" where
  "apply_new env de ht op offsets cid =
     tx_bind (apply_op env de ht cid op) (\<lambda>_.
     tx_bind (advance_offsets env ht 0 offsets) (\<lambda>_.
     tx_return (Committed cid)))"

text \<open>Everything up to \<open>COMMIT\<close>; \<open>AlreadyApplied\<close> is an early return.\<close>

definition commit_body ::
  "env \<Rightarrow> (string \<Rightarrow> nat list option) \<Rightarrow> hypertable_id \<Rightarrow> commit_op \<Rightarrow> operation_identity option
   \<Rightarrow> offset_range list \<Rightarrow> compaction_lease option \<Rightarrow> commit_result tx" where
  "commit_body env de ht op identity offsets lease =
     tx_bind (query env SFeedLockShared (\<lambda>_. ())) (\<lambda>_.
     tx_bind (lease_gate env ht op identity lease) (\<lambda>replayed.
       case replayed of
         Some c \<Rightarrow> tx_return (AlreadyApplied c)
       | None \<Rightarrow>
           tx_bind (exec env SInsertCommit (insert_commit_stmt env ht op identity)) (\<lambda>inserted.
             case inserted of
               None \<Rightarrow> key_conflict env identity
             | Some cid \<Rightarrow> apply_new env de ht op offsets cid)))"

definition commit_boundary ::
  "env \<Rightarrow> operation_identity option \<Rightarrow> catalog \<Rightarrow> catalog \<Rightarrow> commit_id
   \<Rightarrow> catalog \<times> (catalog_error, commit_result) result" where
  "commit_boundary env identity s s' cid =
     (case take_fault BeforeCommit s' of
        (t, True) \<Rightarrow> (rollback s t, Inl (ambiguous_or_definite identity injected_transport_error))
      | (t, False) \<Rightarrow>
          (case env_fail env SCommit of
             Some (e, durable) \<Rightarrow> (if durable then t else rollback s t, Inl (ambiguous_or_definite identity e))
           | None \<Rightarrow>
               (case take_fault AfterCommitBeforeReturn t of
                  (u, True) \<Rightarrow> (u, Inl (ambiguous_or_definite identity injected_transport_error))
                | (u, False) \<Rightarrow> (u, Inr (Committed cid)))))"

definition commit_txn ::
  "env \<Rightarrow> (string \<Rightarrow> nat list option) \<Rightarrow> hypertable_id \<Rightarrow> commit_op \<Rightarrow> operation_identity option
   \<Rightarrow> offset_range list \<Rightarrow> compaction_lease option \<Rightarrow> commit_result tx" where
  "commit_txn env de ht op identity offsets lease = (\<lambda>s.
     if \<exists>i \<in> set_option identity. oi_hypertable i \<noteq> ht then
       (s, Inl (OperationHypertableMismatch (oi_hypertable (the identity)) ht))
     else
       case env_fail env SBegin of
         Some (e, _) \<Rightarrow> (s, Inl (Db e))
       | None \<Rightarrow>
           (case commit_body env de ht op identity offsets lease s of
              (s', Inl err) \<Rightarrow> (rollback s s', Inl err)
            | (s', Inr (AlreadyApplied c)) \<Rightarrow> (rollback s s', Inr (AlreadyApplied c))
            | (s', Inr (Committed cid)) \<Rightarrow> commit_boundary env identity s s' cid))"

text \<open>The three public entry points; \<open>commit_inner\<close> adds metrics around the transaction.\<close>

definition commit_inner ::
  "env \<Rightarrow> (string \<Rightarrow> nat list option) \<Rightarrow> hypertable_id \<Rightarrow> commit_op \<Rightarrow> operation_identity option
   \<Rightarrow> offset_range list \<Rightarrow> compaction_lease option \<Rightarrow> commit_result tx" where
  "commit_inner env de ht op identity offsets lease = commit_txn env de ht op identity offsets lease"

definition commit ::
  "env \<Rightarrow> (string \<Rightarrow> nat list option) \<Rightarrow> hypertable_id \<Rightarrow> commit_op \<Rightarrow> operation_identity option
   \<Rightarrow> commit_result tx" where
  "commit env de ht op identity = commit_inner env de ht op identity [] None"

definition commit_with_offsets ::
  "env \<Rightarrow> (string \<Rightarrow> nat list option) \<Rightarrow> hypertable_id \<Rightarrow> commit_op \<Rightarrow> offset_range list
   \<Rightarrow> operation_identity \<Rightarrow> commit_result tx" where
  "commit_with_offsets env de ht op offsets identity = commit_inner env de ht op (Some identity) offsets None"

definition commit_compaction_replace ::
  "env \<Rightarrow> (string \<Rightarrow> nat list option) \<Rightarrow> hypertable_id \<Rightarrow> compaction_lease \<Rightarrow> part_id list
   \<Rightarrow> part_meta list \<Rightarrow> operation_identity \<Rightarrow> commit_result tx" where
  "commit_compaction_replace env de ht lease old new identity =
     commit_inner env de ht (Replace old new) (Some identity) [] (Some lease)"

definition read_ingest_offsets :: "env \<Rightarrow> hypertable_id \<Rightarrow> string \<Rightarrow> (i32 \<times> i64) list tx" where
  "read_ingest_offsets env ht topic =
     query env SSelectOffsets (\<lambda>s.
       map (\<lambda>r. (io_partition r, io_next r))
         (filter (\<lambda>r. io_hypertable r = ht \<and> io_topic r = topic) (ingest_offsets s)))"

section \<open>What a mutation does to the tables\<close>

definition new_rows ::
  "(string \<Rightarrow> nat list option) \<Rightarrow> hypertable_id \<Rightarrow> commit_id \<Rightarrow> part_id \<Rightarrow> part_meta list \<Rightarrow> part_row list" where
  "new_rows de ht cid seq ps = map2 (part_row_of de ht cid) [seq + 1 .. seq + int (length ps)] ps"

definition tombstone_rows :: "hypertable_id \<Rightarrow> commit_id \<Rightarrow> part_id list \<Rightarrow> part_row list \<Rightarrow> part_row list" where
  "tombstone_rows ht cid ids rows =
     map (\<lambda>p. if tombstone_hit ht ids p then p\<lparr>pr_deleted_by := Some cid\<rparr> else p) rows"

fun op_inputs :: "commit_op \<Rightarrow> part_id list" where
  "op_inputs (Add ps) = []"
| "op_inputs (Replace old new) = old"
| "op_inputs (Delete ids) = ids"

fun op_outputs :: "commit_op \<Rightarrow> part_meta list" where
  "op_outputs (Add ps) = ps"
| "op_outputs (Replace old new) = new"
| "op_outputs (Delete ids) = []"

fun upsert_all :: "hypertable_id \<Rightarrow> offset_range list \<Rightarrow> offset_row list \<Rightarrow> offset_row list option" where
  "upsert_all ht [] rows = Some rows"
| "upsert_all ht (r # rs) rows = Option.bind (upsert_offset ht r rows) (upsert_all ht rs)"

definition commit_row_of :: "env \<Rightarrow> hypertable_id \<Rightarrow> commit_op \<Rightarrow> operation_identity option \<Rightarrow> commit_id \<Rightarrow> commit_row" where
  "commit_row_of env ht op identity cid =
     \<lparr>cm_id = cid, cm_hypertable = ht, cm_kind = commit_op_kind op, cm_key = map_option oi_key identity,
      cm_fingerprint = map_option oi_fingerprint identity, cm_created_at = env_now env\<rparr>"

text \<open>The state after a mutation took effect.\<close>

definition applied ::
  "env \<Rightarrow> (string \<Rightarrow> nat list option) \<Rightarrow> hypertable_id \<Rightarrow> commit_op \<Rightarrow> operation_identity option
   \<Rightarrow> offset_row list \<Rightarrow> catalog \<Rightarrow> catalog" where
  "applied env de ht op identity rows s =
     (let cid = commit_seq s + 1 in
      s\<lparr>commit_seq := cid, commits := commits s @ [commit_row_of env ht op identity cid],
        parts := tombstone_rows ht cid (op_inputs op) (parts s)
                 @ new_rows de ht cid (part_seq s) (op_outputs op),
        part_seq := part_seq s + int (length (op_outputs op)),
        pending_objects := filter (\<lambda>r. po_path r \<notin> path ` set (op_outputs op)) (pending_objects s),
        ingest_offsets := rows\<rparr>)"

lemma new_rows_Nil [simp]: "new_rows de ht cid seq [] = []"
  by (simp add: new_rows_def)

lemma new_rows_Cons:
  "new_rows de ht cid seq (p # ps) = part_row_of de ht cid (seq + 1) p # new_rows de ht cid (seq + 1) ps"
  by (simp add: new_rows_def upto_rec1 algebra_simps)

lemma tombstone_rows_Nil [simp]: "tombstone_rows ht cid [] rows = rows"
  by (simp add: tombstone_rows_def tombstone_hit_def map_idI)

lemma insert_part_rows_Inr:
  "insert_part_rows env de ht cid i ps s = (s', Inr x) \<Longrightarrow>
     s' = s\<lparr>part_seq := part_seq s + int (length ps), parts := parts s @ new_rows de ht cid (part_seq s) ps\<rparr>"
proof (induction ps arbitrary: i s)
  case (Cons p ps)
  from Cons.prems have "insert_part_rows env de ht cid (Suc i) ps
      (s\<lparr>part_seq := part_seq s + 1, parts := parts s @ [part_row_of de ht cid (part_seq s + 1) p]\<rparr>) = (s', Inr x)"
    by (simp add: tx_results)
  from Cons.IH [OF this] show ?case by (simp add: new_rows_Cons)
qed (simp add: tx_results)

lemma insert_parts_Inr:
  assumes "insert_parts env de ht cid ps s = (s', Inr x)"
  shows "s' = s\<lparr>part_seq := part_seq s + int (length ps), parts := parts s @ new_rows de ht cid (part_seq s) ps,
      pending_objects := filter (\<lambda>r. po_path r \<notin> path ` set ps) (pending_objects s)\<rparr>"
proof -
  from assms obtain s1 y where "insert_part_rows env de ht cid 0 ps s = (s1, Inr y)"
    and "s' = s1\<lparr>pending_objects := filter (\<lambda>r. po_path r \<notin> path ` set ps) (pending_objects s1)\<rparr>"
    by (auto simp: insert_parts_def tx_results)
  with insert_part_rows_Inr [of env de ht cid 0 ps s s1 y] show ?thesis by simp
qed

lemma tombstone_parts_Inr:
  assumes "tombstone_parts env ht cid ids s = (s', Inr x)"
  shows "s' = s\<lparr>parts := tombstone_rows ht cid ids (parts s)\<rparr>
    \<and> length (filter (tombstone_hit ht ids) (parts s)) = length ids"
  using assms by (auto simp: tombstone_parts_def exec_Inr Let_def tombstone_rows_def split: if_splits)

definition inputs_live :: "catalog \<Rightarrow> hypertable_id \<Rightarrow> part_id list \<Rightarrow> bool" where
  "inputs_live s ht ids \<longleftrightarrow> length (filter (tombstone_hit ht ids) (parts s)) = length ids"

lemma inputs_live_Nil [simp]: "inputs_live s ht []"
  by (simp add: inputs_live_def tombstone_hit_def)

lemma apply_op_Inr:
  assumes "apply_op env de ht cid op s = (s', Inr x)"
  shows "s' = s\<lparr>parts := tombstone_rows ht cid (op_inputs op) (parts s)
                 @ new_rows de ht cid (part_seq s) (op_outputs op),
        part_seq := part_seq s + int (length (op_outputs op)),
        pending_objects := filter (\<lambda>r. po_path r \<notin> path ` set (op_outputs op)) (pending_objects s)\<rparr>
    \<and> inputs_live s ht (op_inputs op)"
proof (cases op)
  case (Add ps)
  with assms insert_parts_Inr [of env de ht cid ps s s'] show ?thesis by (simp add: apply_op_def)
next
  case (Replace old new)
  with assms obtain s1 where 1: "tombstone_parts env ht cid old s = (s1, Inr ())"
    and 2: "insert_parts env de ht cid new s1 = (s', Inr x)"
    by (auto simp: apply_op_def tx_bind_Inr)
  from tombstone_parts_Inr [OF 1] insert_parts_Inr [OF 2] Replace show ?thesis
    by (simp add: inputs_live_def)
next
  case (Delete ids)
  with assms tombstone_parts_Inr [of env ht cid ids s s'] show ?thesis
    by (simp add: apply_op_def inputs_live_def)
qed

lemma advance_offsets_Inr:
  "advance_offsets env ht i rs s = (s', Inr x) \<Longrightarrow>
     \<exists>rows. upsert_all ht rs (ingest_offsets s) = Some rows \<and> s' = s\<lparr>ingest_offsets := rows\<rparr>"
proof (induction rs arbitrary: i s)
  case (Cons r rs)
  then obtain rows where "upsert_offset ht r (ingest_offsets s) = Some rows"
    "advance_offsets env ht (Suc i) rs (s\<lparr>ingest_offsets := rows\<rparr>) = (s', Inr x)"
    by (auto simp: tx_results split: option.splits)
  with Cons.IH [of "Suc i" "s\<lparr>ingest_offsets := rows\<rparr>"] show ?case by simp
qed (simp add: tx_results)

text \<open>A key is taken on a hypertable.\<close>

definition key_taken :: "catalog \<Rightarrow> hypertable_id \<Rightarrow> operation_identity option \<Rightarrow> bool" where
  "key_taken s ht identity \<longleftrightarrow> (\<exists>i \<in> set_option identity. keyed_commit s ht (oi_key i) \<noteq> None)"

lemma insert_commit_Some:
  "insert_commit_stmt env ht op identity s = (s', Inr (Some cid)) \<longleftrightarrow>
     cid = commit_seq s + 1 \<and> \<not> key_taken s ht identity \<and> hypertable_exists s ht \<and>
     s' = s\<lparr>commit_seq := cid, commits := commits s @ [commit_row_of env ht op identity cid]\<rparr>"
  by (auto simp: insert_commit_stmt_def Let_def key_taken_def commit_row_of_def)

lemma insert_commit_None:
  "insert_commit_stmt env ht op identity s = (s', Inr None) \<longleftrightarrow>
     key_taken s ht identity \<and> s' = s\<lparr>commit_seq := commit_seq s + 1\<rparr>"
  by (auto simp: insert_commit_stmt_def Let_def key_taken_def)

lemma insert_commit_Inl:
  "insert_commit_stmt env ht op identity s = (s', Inl e) \<longleftrightarrow>
     e = fk_violation \<and> \<not> key_taken s ht identity \<and> \<not> hypertable_exists s ht \<and>
     s' = s\<lparr>commit_seq := commit_seq s + 1\<rparr>"
  by (auto simp: insert_commit_stmt_def Let_def key_taken_def)

lemma tx_lift_simps: "tx_lift (Inl e) = tx_fail e" "tx_lift (Inr x) = tx_return x"
  by (simp_all add: tx_lift_def)

lemma tx_lift_state: "tx_lift r s = (s', y) \<longleftrightarrow> s' = s \<and> y = r"
  by (cases r) (auto simp: tx_lift_simps tx_results)

lemma lookup_in_tx_Inr:
  "lookup_in_tx env st i s = (s', Inr m) \<longleftrightarrow>
     env_fail env st = None \<and> s' = s \<and> reconcile i (operation_row i s) = Inr m"
  by (auto simp: lookup_in_tx_def tx_bind_Inr query_Inr tx_lift_state)

lemma lookup_in_tx_state: "fst (lookup_in_tx env st i s) = s"
  by (auto simp: lookup_in_tx_def tx_bind_def query_def tx_lift_def tx_fail_def tx_return_def
      split: option.splits sum.splits)

lemma fence_lease_state: "fst (fence_lease env ht l op s) = s"
  by (simp add: fence_lease_def Let_def tx_bind_def query_def tx_fail_def tx_return_def
      split: option.splits sum.splits commit_op.splits)

text \<open>What the fence establishes.\<close>

definition fence_ok :: "env \<Rightarrow> catalog \<Rightarrow> hypertable_id \<Rightarrow> compaction_lease \<Rightarrow> commit_op \<Rightarrow> bool" where
  "fence_ok env s ht l op \<longleftrightarrow>
     cl_hypertable l = ht \<and>
     (\<exists>h. lease_at s (ht, cl_partition l) = Some h \<and> same_tenancy h l \<and> env_clock env < cl_expires_at h) \<and>
     (\<exists>old new. op = Replace old new \<and> (\<forall>p \<in> set new. partition_values p = cl_partition l) \<and>
        length (filter (\<lambda>p. pr_id p \<in> set old \<and> pr_hypertable p = ht
                            \<and> partition_values (pr_meta p) = cl_partition l) (parts s)) = length old)"

lemma fence_lease_Inr:
  assumes "fence_lease env ht l op s = (s', Inr x)"
  shows "s' = s \<and> fence_ok env s ht l op"
proof -
  define pv where "pv = cl_partition l"
  from assms have ht: "cl_hypertable l = ht"
    by (auto simp: fence_lease_def Let_def tx_fail_def split: if_splits)
  from assms ht obtain h where h: "lease_at s (ht, pv) = Some h"
    "cl_owner h = cl_owner l" "cl_generation h = cl_generation l" "env_clock env < cl_expires_at h"
    by (auto simp: fence_lease_def Let_def tx_results pv_def split: option.splits if_splits)
  with assms ht obtain old new where op: "op = Replace old new"
    by (cases op) (auto simp: fence_lease_def Let_def tx_results pv_def)
  from lease_at_Some [OF h(1)] have key: "lease_key h = (ht, pv)" by simp
  have "list_all (\<lambda>p. partition_values p = pv) new"
    using assms h ht by (auto simp: fence_lease_def Let_def tx_results op pv_def list_ex_iff list_all_iff split: if_splits)
  moreover from this have "length (filter (\<lambda>p. pr_id p \<in> set old \<and> pr_hypertable p = ht
        \<and> partition_values (pr_meta p) = pv) (parts s)) = length old \<and> s' = s"
    using assms h ht by (auto simp: fence_lease_def Let_def tx_results op pv_def list_ex_iff list_all_iff split: if_splits)
  ultimately show ?thesis
    using h ht key by (auto simp: fence_ok_def op same_tenancy_def lease_key_def list_all_iff pv_def)
qed

lemma lease_gate_state: "fst (lease_gate env ht op identity lease s) = s"
proof -
  have "keeps (\<lambda>t. t = s) (lookup_in_tx env SSelectOperation i)" for i
    by (simp add: keeps_def lookup_in_tx_state)
  moreover have "keeps (\<lambda>t. t = s) (fence_lease env ht l op)" for l
    by (simp add: keeps_def fence_lease_state)
  ultimately have "keeps (\<lambda>t. t = s) (lease_gate env ht op identity lease)"
    by (auto simp: lease_gate_def intro!: keeps_bind split: option.split)
  then show ?thesis by (simp add: keeps_def)
qed

lemma lease_gate_None:
  assumes "lease_gate env ht op identity lease s = (s', Inr None)"
  shows "s' = s \<and> (\<forall>l. lease = Some l \<longrightarrow> fence_ok env s ht l op \<and>
     (\<forall>i. identity = Some i \<longrightarrow> reconcile i (operation_row i s) = Inr None))"
  using assms
  by (auto simp: lease_gate_def tx_bind_Inr tx_return_iff lookup_in_tx_Inr
      split: option.splits dest!: fence_lease_Inr)

lemma lease_gate_Some:
  assumes "lease_gate env ht op identity lease s = (s', Inr (Some c))"
  shows "s' = s \<and> (\<exists>i. identity = Some i \<and> reconcile i (operation_row i s) = Inr (Some c))"
  using assms
  by (auto simp: lease_gate_def tx_bind_Inr tx_return_iff lookup_in_tx_Inr split: option.splits)

lemma key_conflict_Inr:
  "key_conflict env identity s = (s', Inr r) \<Longrightarrow>
     s' = s \<and> (\<exists>i c. identity = Some i \<and> r = AlreadyApplied c \<and> reconcile i (operation_row i s) = Inr (Some c))"
  by (auto simp: key_conflict_def tx_bind_Inr tx_return_iff tx_fail_iff lookup_in_tx_Inr split: option.splits)

lemma apply_new_Inr:
  assumes "apply_new env de ht op offsets cid s = (s', Inr r)"
  shows "r = Committed cid \<and> inputs_live s ht (op_inputs op) \<and>
    (\<exists>rows. upsert_all ht offsets (ingest_offsets s) = Some rows \<and>
      s' = s\<lparr>parts := tombstone_rows ht cid (op_inputs op) (parts s)
                 @ new_rows de ht cid (part_seq s) (op_outputs op),
        part_seq := part_seq s + int (length (op_outputs op)),
        pending_objects := filter (\<lambda>r. po_path r \<notin> path ` set (op_outputs op)) (pending_objects s),
        ingest_offsets := rows\<rparr>)"
proof -
  from assms obtain s1 where a: "apply_op env de ht cid op s = (s1, Inr ())"
    and o: "advance_offsets env ht 0 offsets s1 = (s', Inr ())" and r: "r = Committed cid"
    by (auto simp: apply_new_def tx_bind_Inr tx_return_iff)
  from apply_op_Inr [OF a] advance_offsets_Inr [OF o] r show ?thesis by auto
qed

lemma commit_body_split:
  assumes "commit_body env de ht op identity offsets lease s = (s', Inr r)"
  shows "(\<exists>c. r = AlreadyApplied c \<and> lease_gate env ht op identity lease s = (s', Inr (Some c))) \<or>
    (lease_gate env ht op identity lease s = (s, Inr None) \<and>
      (key_taken s ht identity \<and> key_conflict env identity (s\<lparr>commit_seq := commit_seq s + 1\<rparr>) = (s', Inr r) \<or>
       (\<exists>cid s1. insert_commit_stmt env ht op identity s = (s1, Inr (Some cid)) \<and>
          apply_new env de ht op offsets cid s1 = (s', Inr r))))"
proof -
  from assms obtain m s1 where g: "lease_gate env ht op identity lease s = (s1, Inr m)"
    and rest: "(case m of
         Some c \<Rightarrow> tx_return (AlreadyApplied c)
       | None \<Rightarrow>
           tx_bind (exec env SInsertCommit (insert_commit_stmt env ht op identity)) (\<lambda>inserted.
             case inserted of
               None \<Rightarrow> key_conflict env identity
             | Some cid \<Rightarrow> apply_new env de ht op offsets cid)) s1 = (s', Inr r)"
    by (auto simp: commit_body_def tx_bind_Inr query_Inr)
  from g lease_gate_state [of env ht op identity lease s] have s1: "s1 = s" by simp
  show ?thesis
  proof (cases m)
    case (Some c)
    with g rest show ?thesis by (simp add: tx_return_iff)
  next
    case None
    with rest obtain s2 ins where "insert_commit_stmt env ht op identity s = (s2, Inr ins)"
      "(case ins of None \<Rightarrow> key_conflict env identity | Some cid \<Rightarrow> apply_new env de ht op offsets cid) s2
        = (s', Inr r)"
      by (auto simp: tx_bind_Inr exec_Inr s1)
    with None g s1 show ?thesis by (cases ins) (auto simp: insert_commit_None)
  qed
qed

lemma operation_row_seq [simp]: "operation_row i (s\<lparr>commit_seq := n\<rparr>) = operation_row i s"
  by (simp add: operation_row_def keyed_commit_def)

lemma commit_body_AlreadyApplied:
  assumes "commit_body env de ht op identity offsets lease s = (s', Inr (AlreadyApplied c))"
  shows "\<exists>i. identity = Some i \<and> reconcile i (operation_row i s) = Inr (Some c)"
  using commit_body_split [OF assms]
  by (auto dest: lease_gate_Some key_conflict_Inr apply_new_Inr)

lemma commit_body_Committed:
  assumes "commit_body env de ht op identity offsets lease s = (s', Inr (Committed c))"
  shows "c = commit_seq s + 1 \<and> \<not> key_taken s ht identity \<and> hypertable_exists s ht \<and>
    inputs_live s ht (op_inputs op) \<and> (\<forall>l. lease = Some l \<longrightarrow> fence_ok env s ht l op) \<and>
    (\<exists>rows. upsert_all ht offsets (ingest_offsets s) = Some rows \<and> s' = applied env de ht op identity rows s)"
proof -
  from commit_body_split [OF assms] obtain cid s1
    where g: "lease_gate env ht op identity lease s = (s, Inr None)"
      and i: "insert_commit_stmt env ht op identity s = (s1, Inr (Some cid))"
      and a: "apply_new env de ht op offsets cid s1 = (s', Inr (Committed c))"
    by (auto dest: key_conflict_Inr)
  from i have s1: "cid = commit_seq s + 1" "\<not> key_taken s ht identity" "hypertable_exists s ht"
    "s1 = s\<lparr>commit_seq := cid, commits := commits s @ [commit_row_of env ht op identity cid]\<rparr>"
    by (simp_all add: insert_commit_Some)
  from apply_new_Inr [OF a] s1 lease_gate_None [OF g] show ?thesis
    by (auto simp: inputs_live_def applied_def Let_def)
qed

section \<open>Outcomes\<close>

text \<open>Sequences only advance, and a body never touches the armed fault.\<close>

definition advances :: "catalog \<Rightarrow> catalog \<Rightarrow> bool" where
  "advances s0 s \<longleftrightarrow> seqs_le s0 s \<and> armed_fault s = armed_fault s0"

lemma insert_part_rows_keeps:
  "keeps (advances s0) (insert_part_rows env de ht cid i ps)"
  by (induction ps arbitrary: i)
    (auto intro!: keeps_bind keeps_exec simp: keeps_def [of _ "\<lambda>s. (_ s, _ s)"] advances_def seqs_le_def)

lemma advance_offsets_keeps: "keeps (advances s0) (advance_offsets env ht i rs)"
proof (induction rs arbitrary: i)
  case (Cons r rs)
  have "keeps (advances s0) (\<lambda>s. case upsert_offset ht r (ingest_offsets s) of
            None \<Rightarrow> (s, Inl (OffsetRace (or_topic r) (or_partition r)))
          | Some rows \<Rightarrow> (s\<lparr>ingest_offsets := rows\<rparr>, Inr ()))"
    by (auto simp: keeps_def advances_def seqs_le_def split: option.splits)
  with Cons show ?case by (simp add: keeps_bind keeps_exec)
qed simp

lemma tombstone_parts_keeps: "keeps (advances s0) (tombstone_parts env ht cid ids)"
  unfolding tombstone_parts_def
  by (rule keeps_exec) (simp add: keeps_def Let_def advances_def seqs_le_def)

lemma insert_parts_keeps: "keeps (advances s0) (insert_parts env de ht cid ps)"
  unfolding insert_parts_def
  by (intro keeps_bind insert_part_rows_keeps keeps_exec)
    (simp add: keeps_def advances_def seqs_le_def)

lemma apply_new_keeps: "keeps (advances s0) (apply_new env de ht op offsets cid)"
  unfolding apply_new_def apply_op_def
  by (intro keeps_bind keeps_return advance_offsets_keeps)
    (auto simp: insert_parts_keeps tombstone_parts_keeps keeps_bind split: commit_op.splits)

lemma commit_body_keeps: "keeps (advances s0) (commit_body env de ht op identity offsets lease)"
proof -
  have "keeps (advances s0) (insert_commit_stmt env ht op identity)"
    by (auto simp: keeps_def insert_commit_stmt_def Let_def advances_def seqs_le_def)
  moreover have "keeps (advances s0) (lookup_in_tx env SSelectConflicting i)" for i
    by (simp add: keeps_def lookup_in_tx_state)
  then have "keeps (advances s0) (key_conflict env identity)"
    by (auto simp: key_conflict_def intro!: keeps_bind split: option.split)
  moreover have "keeps (advances s0) (lease_gate env ht op identity lease)"
    by (simp add: keeps_def lease_gate_state)
  ultimately show ?thesis
    unfolding commit_body_def
    by (auto intro!: keeps_bind keeps_exec apply_new_keeps split: option.split)
qed

lemma commit_body_advances:
  "commit_body env de ht op identity offsets lease s = (s', r) \<Longrightarrow> advances s s'"
  using commit_body_keeps [of s env de ht op identity offsets lease]
  by (auto simp: keeps_def advances_def dest!: spec [of _ s])

text \<open>A mutation either leaves every table alone, or took effect whole.\<close>

definition took_effect where
  "took_effect env de ht op identity offsets lease s s' \<longleftrightarrow>
     (\<forall>i. identity = Some i \<longrightarrow> oi_hypertable i = ht) \<and>
     \<not> key_taken s ht identity \<and> hypertable_exists s ht \<and> inputs_live s ht (op_inputs op) \<and>
     (\<forall>l. lease = Some l \<longrightarrow> fence_ok env s ht l op) \<and>
     (\<exists>rows f. upsert_all ht offsets (ingest_offsets s) = Some rows \<and>
        s' = (applied env de ht op identity rows s)\<lparr>armed_fault := f\<rparr>)"

lemma commit_boundary_cases:
  assumes "commit_boundary env identity s t cid = (s', r)"
  shows "(\<exists>f. s' = t\<lparr>armed_fault := f\<rparr> \<and>
      (r = Inr (Committed cid) \<or>
       (\<exists>e. r = Inl (ambiguous_or_definite identity e) \<and>
          (e = injected_transport_error \<or> env_fail env SCommit = Some (e, True))))) \<or>
    (\<exists>f e. s' = rollback s (t\<lparr>armed_fault := f\<rparr>) \<and> r = Inl (ambiguous_or_definite identity e))"
proof (cases "armed_fault t = Some BeforeCommit")
  case True
  with assms show ?thesis by (auto simp: commit_boundary_def take_fault_def)
next
  case False
  define a where "a = armed_fault t"
  have t: "t = t\<lparr>armed_fault := a\<rparr>" by (simp add: a_def)
  show ?thesis
  proof (cases "env_fail env SCommit")
    case None
    show ?thesis
    proof (cases "armed_fault t = Some AfterCommitBeforeReturn")
      case True
      with None False assms show ?thesis by (auto simp: commit_boundary_def take_fault_def)
    next
      case no: False
      with None False assms have "s' = t" "r = Inr (Committed cid)"
        by (simp_all add: commit_boundary_def take_fault_def)
      with t show ?thesis by metis
    qed
  next
    case (Some ed)
    obtain e d where ed: "ed = (e, d)" by force
    with Some False assms have "s' = (if d then t else rollback s t)" "r = Inl (ambiguous_or_definite identity e)"
      by (simp_all add: commit_boundary_def take_fault_def)
    with t Some ed show ?thesis by (cases d) metis+
  qed
qed

lemma commit_txn_cases:
  assumes "commit_txn env de ht op identity offsets lease s = (s', r)"
  obtains (untouched) "same_tables s s'" "seqs_le s s'" "\<And>c. r \<noteq> Inr (Committed c)"
    "\<And>c. r = Inr (AlreadyApplied c) \<Longrightarrow>
       \<exists>i. identity = Some i \<and> oi_hypertable i = ht \<and> reconcile i (operation_row i s) = Inr (Some c)"
  | (effect) "took_effect env de ht op identity offsets lease s s'"
    "r = Inr (Committed (commit_seq s + 1)) \<or>
     (\<exists>e. r = Inl (ambiguous_or_definite identity e) \<and>
        (e = injected_transport_error \<or> env_fail env SCommit = Some (e, True)))"
proof (cases "(\<exists>i \<in> set_option identity. oi_hypertable i \<noteq> ht) \<or> env_fail env SBegin \<noteq> None")
  case True
  with assms have "s' = s" "\<exists>e. r = Inl e"
    by (auto simp: commit_txn_def split: if_splits option.splits prod.splits)
  then show ?thesis by (intro untouched) auto
next
  case False
  obtain t q where b: "commit_body env de ht op identity offsets lease s = (t, q)" by force
  note adv = commit_body_advances [OF b]
  from False have scope: "\<forall>i. identity = Some i \<longrightarrow> oi_hypertable i = ht" by auto
  show ?thesis
  proof (cases "\<exists>c. q = Inr (Committed c)")
    case True
    then obtain c where q: "q = Inr (Committed c)" by auto
    note body = commit_body_Committed [OF b [unfolded q]]
    from assms False b q have "commit_boundary env identity s t c = (s', r)"
      by (auto simp: commit_txn_def split: if_splits option.splits)
    from commit_boundary_cases [OF this] show ?thesis
    proof
      assume "\<exists>f. s' = t\<lparr>armed_fault := f\<rparr> \<and> (r = Inr (Committed c) \<or>
       (\<exists>e. r = Inl (ambiguous_or_definite identity e) \<and>
          (e = injected_transport_error \<or> env_fail env SCommit = Some (e, True))))"
      with body scope show ?thesis by (intro effect) (auto simp: took_effect_def)
    next
      assume "\<exists>f e. s' = rollback s (t\<lparr>armed_fault := f\<rparr>) \<and> r = Inl (ambiguous_or_definite identity e)"
      with adv show ?thesis by (intro untouched) (auto simp: advances_def seqs_le_def)
    qed
  next
    case nc: False
    with assms False b have s': "s' = rollback s t" "r = q"
      by (auto simp: commit_txn_def split: if_splits option.splits sum.splits commit_result.splits)
    with adv nc show ?thesis
      using commit_body_AlreadyApplied [of env de ht op identity offsets lease s t] b scope
      by (intro untouched) (auto simp: advances_def seqs_le_def)
  qed
qed

end
