(* ===== verification/CatalogGc.thy ===== *)
theory CatalogGc
  imports CatalogState
begin

text \<open>
  Garbage-collection bookkeeping of the catalog, \<^verbatim>\<open>crates/ukiel-catalog/src/gc.rs\<close>: which
  tombstoned parts may lose their objects, which upload intents are orphaned, and the
  statements that record both. A grace period is an interval on the database's clock (the
  source passes seconds).
\<close>

section \<open>Definitions\<close>

definition I64_MAX :: i64 where
  "I64_MAX = 9223372036854775807"

text \<open>\<open>COALESCE((SELECT MIN(last_commit_id) ...), 9223372036854775807)\<close>\<close>

definition cursor_fence :: "catalog \<Rightarrow> hypertable_id \<Rightarrow> commit_id" where
  "cursor_fence s ht =
     (case list_min (map wc_last (filter (\<lambda>r. wc_hypertable r = ht) (worker_cursors s))) of
        None \<Rightarrow> I64_MAX | Some m \<Rightarrow> m)"

definition reapable :: "env \<Rightarrow> time \<Rightarrow> hypertable_id \<Rightarrow> catalog \<Rightarrow> part_row \<Rightarrow> bool" where
  "reapable env grace ht s p \<longleftrightarrow>
     pr_hypertable p = ht \<and> pr_purged_at p = None \<and>
     (case pr_deleted_by p of
        None \<Rightarrow> False
      | Some d \<Rightarrow>
          list_ex (\<lambda>c. cm_id c = d \<and> cm_created_at c \<le> env_now env - grace) (commits s) \<and>
          d \<le> cursor_fence s ht)"

definition reapable_parts :: "env \<Rightarrow> hypertable_id \<Rightarrow> time \<Rightarrow> part list tx" where
  "reapable_parts env ht grace =
     query env SReapable (\<lambda>s. map part_of_row (sort_key pr_id (filter (reapable env grace ht s) (parts s))))"

definition next_reapable_part :: "env \<Rightarrow> hypertable_id \<Rightarrow> time \<Rightarrow> part option tx" where
  "next_reapable_part env ht grace =
     query env SNextReapable (\<lambda>s.
       case sort_key pr_id (filter (reapable env grace ht s) (parts s)) of
         [] \<Rightarrow> None | p # _ \<Rightarrow> Some (part_of_row p))"

definition orphaned :: "env \<Rightarrow> time \<Rightarrow> hypertable_id \<Rightarrow> pending_row \<Rightarrow> bool" where
  "orphaned env grace ht r \<longleftrightarrow> po_hypertable r = ht \<and> po_created_at r \<le> env_now env - grace"

definition orphan_paths :: "env \<Rightarrow> time \<Rightarrow> hypertable_id \<Rightarrow> catalog \<Rightarrow> string list" where
  "orphan_paths env grace ht s = sort (map po_path (filter (orphaned env grace ht) (pending_objects s)))"

definition next_orphaned_pending_object :: "env \<Rightarrow> hypertable_id \<Rightarrow> time \<Rightarrow> string option tx" where
  "next_orphaned_pending_object env ht grace =
     query env SNextOrphan (\<lambda>s. case orphan_paths env grace ht s of [] \<Rightarrow> None | p # _ \<Rightarrow> Some p)"

definition mark_purged :: "env \<Rightarrow> part_id list \<Rightarrow> unit tx" where
  "mark_purged env ids =
     exec_auto env SMarkPurged (\<lambda>s.
       (s\<lparr>parts := map (\<lambda>p. if pr_id p \<in> set ids then p\<lparr>pr_purged_at := Some (env_now env)\<rparr> else p) (parts s)\<rparr>,
        Inr ()))"

definition all_part_paths :: "env \<Rightarrow> hypertable_id \<Rightarrow> string list tx" where
  "all_part_paths env ht =
     query env SAllPaths (\<lambda>s.
       map (path \<circ> pr_meta) (filter (\<lambda>p. pr_hypertable p = ht \<and> pr_purged_at p = None) (parts s)))"

definition all_pending_paths :: "env \<Rightarrow> hypertable_id \<Rightarrow> string list tx" where
  "all_pending_paths env ht =
     query env SAllPending (\<lambda>s. map po_path (filter (\<lambda>r. po_hypertable r = ht) (pending_objects s)))"

text \<open>\<open>INSERT ... SELECT ... ON CONFLICT (path) DO NOTHING\<close>: row by row, a path that is
  already there, from before or from this statement, is skipped.\<close>

fun insert_pending :: "env \<Rightarrow> hypertable_id \<Rightarrow> string list \<Rightarrow> pending_row list \<Rightarrow> pending_row list" where
  "insert_pending env ht [] rows = rows"
| "insert_pending env ht (p # ps) rows =
     insert_pending env ht ps
       (if list_ex (\<lambda>r. po_path r = p) rows then rows
        else rows @ [\<lparr>po_hypertable = ht, po_path = p, po_created_at = env_now env\<rparr>])"

definition register_pending_objects :: "env \<Rightarrow> hypertable_id \<Rightarrow> string list \<Rightarrow> unit tx" where
  "register_pending_objects env ht paths =
     (if paths = [] then tx_return ()
      else exec_auto env SRegisterPending (\<lambda>s.
        let rows = insert_pending env ht paths (pending_objects s) in
        if rows \<noteq> pending_objects s \<and> \<not> hypertable_exists s ht then (s, Inl fk_violation)
        else (s\<lparr>pending_objects := rows\<rparr>, Inr ())))"

definition orphaned_pending_objects :: "env \<Rightarrow> hypertable_id \<Rightarrow> time \<Rightarrow> string list tx" where
  "orphaned_pending_objects env ht grace = query env SOrphans (orphan_paths env grace ht)"

definition clear_pending_objects :: "env \<Rightarrow> string list \<Rightarrow> unit tx" where
  "clear_pending_objects env paths =
     (if paths = [] then tx_return ()
      else exec_auto env SClearPendingPaths (\<lambda>s.
        (s\<lparr>pending_objects := filter (\<lambda>r. po_path r \<notin> set paths) (pending_objects s)\<rparr>, Inr ())))"

record gc_backlogs =
  gb_pending :: nat
  gb_pending_oldest :: time
  gb_unpurged_tombstones :: nat
  gb_oldest_tombstone :: time

definition age_of_oldest :: "env \<Rightarrow> time list \<Rightarrow> time" where
  "age_of_oldest env ts = (case list_min ts of None \<Rightarrow> 0 | Some t \<Rightarrow> env_now env - t)"

definition read_gc_backlogs :: "env \<Rightarrow> gc_backlogs tx" where
  "read_gc_backlogs env =
     query env SBacklogs (\<lambda>s.
       \<lparr>gb_pending = length (pending_objects s),
        gb_pending_oldest = age_of_oldest env (map po_created_at (pending_objects s)),
        gb_unpurged_tombstones =
          length (filter (\<lambda>p. pr_deleted_by p \<noteq> None \<and> pr_purged_at p = None) (parts s)),
        gb_oldest_tombstone =
          age_of_oldest env
            (concat (map (\<lambda>p. case pr_deleted_by p of
                                None \<Rightarrow> []
                              | Some d \<Rightarrow> map cm_created_at (filter (\<lambda>c. cm_id c = d) (commits s)))
                      (filter (\<lambda>p. pr_purged_at p = None) (parts s))))\<rparr>)"

section \<open>Lemmas\<close>

lemma reapable_tombstoned: "reapable env grace ht s p \<Longrightarrow> \<not> live p"
  by (auto simp: reapable_def live_def split: option.splits)

lemma cursor_fence_le:
  "r \<in> set (worker_cursors s) \<Longrightarrow> wc_hypertable r = ht \<Longrightarrow> cursor_fence s ht \<le> wc_last r"
  by (auto simp: cursor_fence_def list_min_def filter_empty_conv)

lemma next_reapable_Inr:
  assumes "next_reapable_part env ht grace s = (s', Inr (Some q))"
  shows "s' = s \<and> (\<exists>p \<in> set (parts s). q = part_of_row p \<and> reapable env grace ht s p \<and>
      (\<forall>p' \<in> set (parts s). reapable env grace ht s p' \<longrightarrow> pr_id p \<le> pr_id p'))"
proof -
  define xs where "xs = sort_key pr_id (filter (reapable env grace ht s) (parts s))"
  from assms have "s' = s" and "(case xs of [] \<Rightarrow> None | p # _ \<Rightarrow> Some (part_of_row p)) = Some q"
    by (auto simp: next_reapable_part_def query_Inr xs_def)
  then obtain p ps where xs: "xs = p # ps" "q = part_of_row p" by (cases xs) auto
  have set: "set xs = {p \<in> set (parts s). reapable env grace ht s p}" by (simp add: xs_def)
  have "sorted (map pr_id xs)" by (simp add: xs_def)
  with xs have "\<forall>p' \<in> set xs. pr_id p \<le> pr_id p'" by auto
  with set xs \<open>s' = s\<close> show ?thesis by (intro conjI bexI [of _ p]) auto
qed

lemma next_reapable_None:
  "next_reapable_part env ht grace s = (s', Inr None) \<longleftrightarrow>
     env_fail env SNextReapable = None \<and> s' = s \<and> (\<forall>p \<in> set (parts s). \<not> reapable env grace ht s p)"
proof -
  have "(case sort_key pr_id (filter (reapable env grace ht s) (parts s)) of
         [] \<Rightarrow> None | p # _ \<Rightarrow> Some (part_of_row p)) = None
      \<longleftrightarrow> filter (reapable env grace ht s) (parts s) = []"
    by (metis list.case_eq_if option.distinct(1) set_empty set_sort)
  then show ?thesis by (auto simp: next_reapable_part_def query_Inr filter_empty_conv)
qed

lemma orphan_paths_mem: "p \<in> set (orphan_paths env grace ht s) \<longleftrightarrow>
    (\<exists>r \<in> set (pending_objects s). orphaned env grace ht r \<and> po_path r = p)"
  by (auto simp: orphan_paths_def)

lemma insert_pending_paths: "po_path ` set (insert_pending env ht ps rows) = po_path ` set rows \<union> set ps"
  by (induction env ht ps rows rule: insert_pending.induct) (auto simp: list_ex_iff)

lemma insert_pending_keeps: "set rows \<subseteq> set (insert_pending env ht ps rows)"
  by (induction env ht ps rows rule: insert_pending.induct) auto

lemma insert_pending_distinct:
  "distinct (map po_path rows) \<Longrightarrow> distinct (map po_path (insert_pending env ht ps rows))"
proof (induction ps arbitrary: rows)
  case (Cons p ps)
  show ?case
  proof (cases "list_ex (\<lambda>r. po_path r = p) rows")
    case False
    then have "p \<notin> po_path ` set rows" by (auto simp: list_ex_iff)
    with Cons False show ?thesis by simp
  qed (use Cons in simp)
qed simp

end
