(* ===== verification/Feed.thy ===== *)
theory Feed
  imports CatalogState
begin

text \<open>
  Worker cursors and the ordered change feed, \<^verbatim>\<open>crates/ukiel-catalog/src/cursors.rs\<close> and
  \<^verbatim>\<open>feed.rs\<close>. A cursor moves only forward; a feed read returns commits of one hypertable
  in id order, inside the prefix the publication barrier vouches for. The barrier itself
  is a protocol between concurrent transactions, modelled as a step relation at the end.
\<close>

section \<open>Cursors\<close>

definition cursor_at :: "catalog \<Rightarrow> string \<Rightarrow> hypertable_id \<Rightarrow> cursor_row option" where
  "cursor_at s worker ht = find (\<lambda>r. wc_worker r = worker \<and> wc_hypertable r = ht) (worker_cursors s)"

definition get_cursor :: "env \<Rightarrow> string \<Rightarrow> hypertable_id \<Rightarrow> commit_id tx" where
  "get_cursor env worker ht =
     query env SGetCursor (\<lambda>s. case cursor_at s worker ht of None \<Rightarrow> 0 | Some r \<Rightarrow> wc_last r)"

definition set_cursor_stmt :: "string \<Rightarrow> hypertable_id \<Rightarrow> commit_id \<Rightarrow> unit tx" where
  "set_cursor_stmt worker ht cursor = (\<lambda>s.
     case cursor_at s worker ht of
       None \<Rightarrow>
         if hypertable_exists s ht then
           (s\<lparr>worker_cursors := worker_cursors s @ [\<lparr>wc_worker = worker, wc_hypertable = ht, wc_last = cursor\<rparr>]\<rparr>,
            Inr ())
         else (s, Inl fk_violation)
     | Some r \<Rightarrow>
         (s\<lparr>worker_cursors := map (\<lambda>x. if wc_worker x = worker \<and> wc_hypertable x = ht \<and> wc_last x < cursor
                                       then x\<lparr>wc_last := cursor\<rparr> else x) (worker_cursors s)\<rparr>, Inr ()))"

definition set_cursor :: "env \<Rightarrow> string \<Rightarrow> hypertable_id \<Rightarrow> commit_id \<Rightarrow> unit tx" where
  "set_cursor env worker ht cursor = exec_auto env SSetCursor (set_cursor_stmt worker ht cursor)"

text \<open>\<open>SELECT max(id) FROM commits WHERE hypertable_id = ...\<close>\<close>

definition max_commit :: "catalog \<Rightarrow> hypertable_id \<Rightarrow> commit_id option" where
  "max_commit s ht = list_max (map cm_id (filter (\<lambda>c. cm_hypertable c = ht) (commits s)))"

definition feed_lags :: "env \<Rightarrow> (string \<times> hypertable_id \<times> i64) list tx" where
  "feed_lags env =
     query env SFeedLags (\<lambda>s.
       map (\<lambda>c. (wc_worker c, wc_hypertable c,
                 max ((case max_commit s (wc_hypertable c) of None \<Rightarrow> 0 | Some h \<Rightarrow> h) - wc_last c) 0))
         (worker_cursors s))"

section \<open>The feed\<close>

definition feed_head_in_tx :: "env \<Rightarrow> hypertable_id \<Rightarrow> commit_id tx" where
  "feed_head_in_tx env ht =
     tx_bind (query env SFeedLockExclusive (\<lambda>_. ())) (\<lambda>_.
       query env SSelectHead (\<lambda>s. case max_commit s ht of None \<Rightarrow> 0 | Some h \<Rightarrow> h))"

definition feed_head :: "env \<Rightarrow> hypertable_id \<Rightarrow> commit_id tx" where
  "feed_head env ht = transact env (feed_head_in_tx env ht)"

definition sql_limit :: "i64 \<Rightarrow> 'a list \<Rightarrow> (catalog_error, 'a list) result" where
  "sql_limit limit xs =
     (if limit < 0 then Inl (Db (Database (Some ''2201W''))) else Inr (take (nat limit) xs))"

definition feed_commits :: "catalog \<Rightarrow> hypertable_id \<Rightarrow> commit_id \<Rightarrow> commit_id \<Rightarrow> commit_row list" where
  "feed_commits s ht after head =
     sort_key cm_id (filter (\<lambda>c. cm_hypertable c = ht \<and> after < cm_id c \<and> cm_id c \<le> head) (commits s))"

definition event_of :: "catalog \<Rightarrow> commit_row \<Rightarrow> change_event" where
  "event_of s c =
     \<lparr>ev_commit_id = cm_id c, ev_kind = cm_kind c,
      ev_added = map part_of_row (sort_key pr_id (filter (\<lambda>p. pr_created_by p = cm_id c) (parts s))),
      ev_removed = map pr_id (sort_key pr_id (filter (\<lambda>p. pr_deleted_by p = Some (cm_id c)) (parts s)))\<rparr>"

text \<open>One event per commit, two reads each, in order.\<close>

fun fetch_events :: "env \<Rightarrow> nat \<Rightarrow> commit_row list \<Rightarrow> change_event list tx" where
  "fetch_events env i [] = tx_return []"
| "fetch_events env i (c # cs) =
     tx_bind (query env (SSelectAdded i) (\<lambda>s. ev_added (event_of s c))) (\<lambda>added.
     tx_bind (query env (SSelectRemoved i) (\<lambda>s. ev_removed (event_of s c))) (\<lambda>removed.
     tx_bind (fetch_events env (Suc i) cs) (\<lambda>events.
       tx_return (\<lparr>ev_commit_id = cm_id c, ev_kind = cm_kind c, ev_added = added, ev_removed = removed\<rparr> # events))))"

definition changes_since :: "env \<Rightarrow> hypertable_id \<Rightarrow> commit_id \<Rightarrow> i64 \<Rightarrow> change_event list tx" where
  "changes_since env ht after limit =
     tx_bind (feed_head env ht) (\<lambda>head.
     tx_bind (query env SSelectCommits (\<lambda>s. sql_limit limit (feed_commits s ht after head))) (\<lambda>r.
       case r of Inl e \<Rightarrow> tx_fail e | Inr cs \<Rightarrow> fetch_events env 0 cs))"

section \<open>Lemmas\<close>

lemma fetch_events_Inr:
  "fetch_events env i cs s = (s', Inr evs) \<Longrightarrow> s' = s \<and> evs = map (event_of s) cs"
proof (induction cs arbitrary: i evs)
  case (Cons c cs)
  then obtain evs' where "fetch_events env (Suc i) cs s = (s', Inr evs')"
    "evs = \<lparr>ev_commit_id = cm_id c, ev_kind = cm_kind c, ev_added = ev_added (event_of s c),
      ev_removed = ev_removed (event_of s c)\<rparr> # evs'"
    by (auto simp: tx_results)
  with Cons.IH [of "Suc i" evs'] show ?case by (simp add: event_of_def)
qed (simp add: tx_results)

lemma transact_read:
  assumes "\<And>t. fst (body t) = t"
  shows "fst (transact env body s) = s"
  using assms [of s]
  by (auto simp: transact_def split: option.splits prod.splits sum.splits)

lemma feed_head_in_tx_state: "fst (feed_head_in_tx env ht s) = s"
  by (auto simp: feed_head_in_tx_def tx_bind_def query_def split: option.splits)

lemma feed_head_state: "fst (feed_head env ht s) = s"
  unfolding feed_head_def by (rule transact_read) (rule feed_head_in_tx_state)

lemma feed_head_Inr:
  assumes "feed_head env ht s = (s', Inr h)"
  shows "s' = s \<and> h = (case max_commit s ht of None \<Rightarrow> 0 | Some h \<Rightarrow> h)"
proof -
  from assms feed_head_state [of env ht s] have "s' = s" by simp
  moreover from assms have "feed_head_in_tx env ht s = (fst (feed_head_in_tx env ht s), Inr h)"
    by (auto simp: feed_head_def transact_def split: option.splits prod.splits sum.splits)
  ultimately show ?thesis by (auto simp: feed_head_in_tx_def tx_results)
qed

lemma max_commit_ge: "c \<in> set (commits s) \<Longrightarrow> cm_hypertable c = ht \<Longrightarrow>
    \<exists>h. max_commit s ht = Some h \<and> cm_id c \<le> h"
  by (auto simp: max_commit_def list_max_def filter_empty_conv)

lemma changes_since_Inr:
  assumes "changes_since env ht after limit s = (s', Inr evs)"
  shows "s' = s \<and> 0 \<le> limit \<and>
    evs = map (event_of s) (take (nat limit)
            (sort_key cm_id (filter (\<lambda>c. cm_hypertable c = ht \<and> after < cm_id c) (commits s))))"
proof -
  from assms obtain h s1 where h: "feed_head env ht s = (s1, Inr h)"
    and rest: "(case sql_limit limit (feed_commits s1 ht after h) of
        Inl e \<Rightarrow> tx_fail e | Inr cs \<Rightarrow> fetch_events env 0 cs) s1 = (s', Inr evs)"
    by (auto simp: changes_since_def tx_bind_Inr query_Inr)
  from rest obtain cs where l: "sql_limit limit (feed_commits s1 ht after h) = Inr cs"
    and f: "fetch_events env 0 cs s1 = (s', Inr evs)"
    by (cases "sql_limit limit (feed_commits s1 ht after h)") (auto simp: tx_fail_iff)
  note h' = feed_head_Inr [OF h]
  have "filter (\<lambda>c. cm_hypertable c = ht \<and> after < cm_id c \<and> cm_id c \<le> h) (commits s)
      = filter (\<lambda>c. cm_hypertable c = ht \<and> after < cm_id c) (commits s)"
    using h' max_commit_ge [of _ s ht] by (intro filter_cong) fastforce+
  with h' l fetch_events_Inr [OF f] show ?thesis
    by (auto simp: feed_commits_def sql_limit_def split: if_splits)
qed

text \<open>The log a consumer is to see: the commits of a hypertable after a position, by id.\<close>

definition feed_log :: "catalog \<Rightarrow> hypertable_id \<Rightarrow> commit_id \<Rightarrow> commit_row list" where
  "feed_log s ht after = sort_key cm_id (filter (\<lambda>c. cm_hypertable c = ht \<and> after < cm_id c) (commits s))"

definition distinct_commit_ids :: "catalog \<Rightarrow> bool" where
  "distinct_commit_ids s \<longleftrightarrow> distinct (map cm_id (commits s))"

lemma feed_log_strict:
  assumes "distinct_commit_ids s"
  shows "sorted_wrt (<) (map cm_id (feed_log s ht after))"
proof -
  have "distinct (map cm_id (feed_log s ht after))"
    using assms by (simp add: distinct_commit_ids_def feed_log_def distinct_map inj_on_def)
  then show ?thesis by (simp add: strict_sorted_iff feed_log_def)
qed

lemma strict_sorted_filter_split:
  fixes f :: "'a \<Rightarrow> 'b::linorder"
  assumes "sorted_wrt (<) (map f xs)" "xs = ys @ y # zs"
  shows "filter (\<lambda>x. f y < f x) xs = zs"
proof -
  have "\<forall>x \<in> set ys. f x < f y" "\<forall>x \<in> set zs. f y < f x"
    using assms by (auto simp: sorted_wrt_append)
  then have "filter (\<lambda>x. f y < f x) ys = []" "filter (\<lambda>x. f y < f x) zs = zs"
    by (auto simp: filter_empty_conv filter_id_conv)
  with assms(2) show ?thesis by simp
qed

lemma sort_key_filter_later:
  "after \<le> b \<Longrightarrow> filter (\<lambda>c. b < cm_id c) (feed_log s ht after) = feed_log s ht b"
proof -
  assume "after \<le> b"
  then have "filter (\<lambda>c. b < cm_id c) (filter (\<lambda>c. cm_hypertable c = ht \<and> after < cm_id c) (commits s))
      = filter (\<lambda>c. cm_hypertable c = ht \<and> b < cm_id c) (commits s)"
    unfolding filter_filter by (intro filter_cong) auto
  then show ?thesis unfolding feed_log_def filter_sort by simp
qed

lemma cursor_at_Some: "cursor_at s w h = Some x \<Longrightarrow> wc_worker x = w \<and> wc_hypertable x = h"
  by (auto simp: cursor_at_def find_Some_iff)

lemma find_map_same:
  "(\<And>x. P (f x) \<longleftrightarrow> P x) \<Longrightarrow> find P (map f xs) = map_option f (find P xs)"
  by (induction xs) auto

lemma cursor_at_bump:
  "cursor_at s worker ht = Some x0 \<Longrightarrow>
     cursor_at (fst (set_cursor_stmt worker ht cursor s)) w h =
       map_option (\<lambda>x. if wc_worker x = worker \<and> wc_hypertable x = ht \<and> wc_last x < cursor
                       then x\<lparr>wc_last := cursor\<rparr> else x) (cursor_at s w h)"
  by (simp add: set_cursor_stmt_def) (simp add: cursor_at_def find_map_same)

lemma cursor_at_insert:
  "cursor_at s worker ht = None \<Longrightarrow> hypertable_exists s ht \<Longrightarrow>
     cursor_at (fst (set_cursor_stmt worker ht cursor s)) w h =
       (if w = worker \<and> h = ht then Some \<lparr>wc_worker = worker, wc_hypertable = ht, wc_last = cursor\<rparr>
        else cursor_at s w h)"
proof -
  assume a: "cursor_at s worker ht = None" "hypertable_exists s ht"
  have "find P (rows @ [x]) = (case find P rows of None \<Rightarrow> if P x then Some x else None | Some y \<Rightarrow> Some y)"
    for P x and rows :: "cursor_row list"
    by (induction rows) auto
  with a show ?thesis by (auto simp: set_cursor_stmt_def cursor_at_def split: option.splits)
qed

lemma set_cursor_refused:
  "cursor_at s worker ht = None \<Longrightarrow> \<not> hypertable_exists s ht \<Longrightarrow>
     set_cursor_stmt worker ht cursor s = (s, Inl fk_violation)"
  by (simp add: set_cursor_stmt_def)

section \<open>The publication barrier\<close>

text \<open>Concurrent transactions on one hypertable. A writer takes the advisory lock shared, then
  draws its commit id, then commits (its id becomes visible) or aborts; the reader takes the
  same lock exclusively, reads the greatest visible id, and ends its transaction. Other
  hypertables draw from the same sequence at any time. \<open>published\<close> records each head that
  was returned together with the ids visible at that moment.\<close>

datatype writer_phase = Locked | Allocated commit_id

record barrier =
  bar_seq :: i64
  bar_writers :: "nat \<rightharpoonup> writer_phase"
  bar_visible :: "commit_id set"
  bar_reader :: "nat option"
  bar_published :: "(commit_id \<times> commit_id set) list"

definition barrier_init :: "barrier \<Rightarrow> bool" where
  "barrier_init b \<longleftrightarrow> bar_writers b = Map.empty \<and> bar_reader b = None \<and> bar_published b = [] \<and>
     finite (bar_visible b) \<and> (\<forall>c \<in> bar_visible b. 0 < c \<and> c \<le> bar_seq b) \<and> 0 \<le> bar_seq b"

text \<open>The writer's side, the transaction of \<open>commit_txn\<close>: the shared lock first, then the insert
  that draws the id, then the end of the transaction, which gives the lock back.\<close>

inductive writer_step :: "barrier \<Rightarrow> barrier \<Rightarrow> bool" where
  lock_shared: "bar_reader b = None \<Longrightarrow> bar_writers b w = None \<Longrightarrow>
     writer_step b (b\<lparr>bar_writers := (bar_writers b)(w \<mapsto> Locked)\<rparr>)"
| allocate: "bar_writers b w = Some Locked \<Longrightarrow>
     writer_step b (b\<lparr>bar_seq := bar_seq b + 1,
                      bar_writers := (bar_writers b)(w \<mapsto> Allocated (bar_seq b + 1))\<rparr>)"
| commit: "bar_writers b w = Some (Allocated c) \<Longrightarrow>
     writer_step b (b\<lparr>bar_visible := insert c (bar_visible b), bar_writers := (bar_writers b)(w := None)\<rparr>)"
| abort: "bar_writers b w = Some ph \<Longrightarrow>
     writer_step b (b\<lparr>bar_writers := (bar_writers b)(w := None)\<rparr>)"

text \<open>All sides: writers, draws of other hypertables, and the reader's transaction.\<close>

inductive barrier_step :: "barrier \<Rightarrow> barrier \<Rightarrow> bool" where
  writer: "writer_step b b' \<Longrightarrow> barrier_step b b'"
| foreign: "bar_seq b \<le> n \<Longrightarrow> barrier_step b (b\<lparr>bar_seq := n\<rparr>)"
| lock_exclusive: "bar_reader b = None \<Longrightarrow> bar_writers b = Map.empty \<Longrightarrow>
     barrier_step b (b\<lparr>bar_reader := Some r\<rparr>)"
| read_head: "bar_reader b = Some r \<Longrightarrow>
     barrier_step b (b\<lparr>bar_published :=
       (if bar_visible b = {} then 0 else Max (bar_visible b), bar_visible b) # bar_published b\<rparr>)"
| unlock: "bar_reader b = Some r \<Longrightarrow> barrier_step b (b\<lparr>bar_reader := None\<rparr>)"

definition barrier_inv :: "barrier \<Rightarrow> bool" where
  "barrier_inv b \<longleftrightarrow> finite (bar_visible b) \<and> 0 \<le> bar_seq b \<and>
     (\<forall>c \<in> bar_visible b. 0 < c \<and> c \<le> bar_seq b) \<and>
     (bar_reader b \<noteq> None \<longrightarrow> bar_writers b = Map.empty) \<and>
     (\<forall>w c. bar_writers b w = Some (Allocated c) \<longrightarrow>
        0 < c \<and> c \<le> bar_seq b \<and> (\<forall>(h, V) \<in> set (bar_published b). h < c)) \<and>
     (\<forall>(h, V) \<in> set (bar_published b). h \<le> bar_seq b \<and> V = {c \<in> bar_visible b. c \<le> h})"

lemma barrier_init_inv: "barrier_init b \<Longrightarrow> barrier_inv b"
  by (auto simp: barrier_init_def barrier_inv_def)

lemma writer_step_inv: "writer_step b b' \<Longrightarrow> barrier_inv b \<Longrightarrow> barrier_inv b'"
proof (induction rule: writer_step.induct)
  case (lock_shared b w)
  then show ?case by (auto simp: barrier_inv_def)
next
  case (allocate b w)
  then show ?case unfolding barrier_inv_def by (auto split: if_splits) fastforce+
next
  case (commit b w c)
  then have "c \<le> bar_seq b" "0 < c" "\<forall>(h, V) \<in> set (bar_published b). h < c" "bar_reader b = None"
    unfolding barrier_inv_def by (auto simp: fun_eq_iff)
  with commit show ?case unfolding barrier_inv_def by (auto split: if_splits) fastforce+
next
  case (abort b w ph)
  then have "bar_reader b = None" unfolding barrier_inv_def by (auto simp: fun_eq_iff)
  with abort show ?case unfolding barrier_inv_def by (auto split: if_splits)
qed

lemma barrier_step_inv: "barrier_step b b' \<Longrightarrow> barrier_inv b \<Longrightarrow> barrier_inv b'"
proof (induction rule: barrier_step.induct)
  case (writer b b')
  then show ?case by (rule writer_step_inv)
next
  case (foreign b n)
  then show ?case unfolding barrier_inv_def by fastforce
next
  case (lock_exclusive b r)
  then show ?case unfolding barrier_inv_def by simp
next
  case (read_head b r)
  then show ?case unfolding barrier_inv_def by auto
next
  case (unlock b r)
  then show ?case unfolding barrier_inv_def by simp
qed

lemma barrier_run_inv: "barrier_step\<^sup>*\<^sup>* b b' \<Longrightarrow> barrier_inv b \<Longrightarrow> barrier_inv b'"
  by (induction rule: rtranclp_induct) (auto intro: barrier_step_inv)

lemma published_grows: "barrier_step\<^sup>*\<^sup>* b b' \<Longrightarrow> set (bar_published b) \<subseteq> set (bar_published b')"
proof (induction rule: rtranclp_induct)
  case (step y z)
  from step.hyps(2) have "set (bar_published y) \<subseteq> set (bar_published z)"
    by (cases rule: barrier_step.cases) (auto elim: writer_step.cases)
  with step.IH show ?case by simp
qed simp

section \<open>Properties\<close>

text \<open>C23: a head returned by \<open>feed_head\<close> bounds a complete prefix. In any interleaving of
  writers, foreign sequence draws and feed readers, whatever becomes visible after a head
  was returned has a greater commit id: the ids at or below the head are exactly those
  visible when it was read, now and forever.\<close>

theorem feed_head_complete_prefix:
  assumes "barrier_init b0" "barrier_step\<^sup>*\<^sup>* b0 b" "(h, V) \<in> set (bar_published b)" "barrier_step\<^sup>*\<^sup>* b b'"
  shows "{c \<in> bar_visible b'. c \<le> h} = V"
proof -
  have "barrier_inv b'"
    using barrier_run_inv [OF rtranclp_trans [OF assms(2,4)] barrier_init_inv [OF assms(1)]] .
  moreover have "(h, V) \<in> set (bar_published b')" using published_grows [OF assms(4)] assms(3) by auto
  ultimately show ?thesis unfolding barrier_inv_def by fastforce
qed

text \<open>C23: a writer commits id 1, a reader publishes head 1, and a second writer that was
  waiting behind the reader commits id 2: the prefix up to 1 is still \<open>{1}\<close>.\<close>

theorem feed_head_complete_prefix_witness:
  fixes b :: barrier
  defines "b \<equiv> \<lparr>bar_seq = 1, bar_writers = Map.empty, bar_visible = {1}, bar_reader = None,
    bar_published = [(1, {1})]\<rparr>"
  shows "\<exists>b'. barrier_step\<^sup>*\<^sup>* b b' \<and> bar_visible b' = {1, 2} \<and> {c \<in> bar_visible b'. c \<le> 1} = {1}"
proof -
  define i where "i = b\<lparr>bar_published := []\<rparr>"
  have init: "barrier_init i" by (simp add: barrier_init_def i_def b_def)
  define r where "r = i\<lparr>bar_reader := Some 0\<rparr>"
  define r' where "r' = r\<lparr>bar_published := [(1, {1})]\<rparr>"
  have "barrier_step i r" unfolding r_def by (rule lock_exclusive) (simp_all add: i_def b_def)
  moreover have "barrier_step r r'"
    using read_head [of r 0] by (simp add: r'_def r_def i_def b_def)
  moreover have "barrier_step r' b"
    using unlock [of r' 0] by (simp add: r'_def r_def i_def b_def)
  ultimately have run: "barrier_step\<^sup>*\<^sup>* i b" by (meson rtranclp.rtrancl_into_rtrancl rtranclp.rtrancl_refl)
  define w where "w = b\<lparr>bar_writers := [0 \<mapsto> Locked]\<rparr>"
  define w' where "w' = w\<lparr>bar_seq := 2, bar_writers := [0 \<mapsto> Allocated 2]\<rparr>"
  define w'' where "w'' = w'\<lparr>bar_visible := {2, 1}, bar_writers := Map.empty\<rparr>"
  have "barrier_step b w"
    using writer [OF lock_shared [of b 0]] by (simp add: w_def b_def)
  moreover have "barrier_step w w'"
    using writer [OF allocate [of w 0]] by (simp add: w'_def w_def b_def)
  moreover have "barrier_step w' w''"
    using writer [OF writer_step.commit [of w' 0 2]] by (simp add: w''_def w'_def w_def b_def fun_upd_idem)
  ultimately have run2: "barrier_step\<^sup>*\<^sup>* b w''" by (meson rtranclp.rtrancl_into_rtrancl rtranclp.rtrancl_refl)
  have "(1, {1}) \<in> set (bar_published b)" by (simp add: b_def)
  from feed_head_complete_prefix [OF init run this run2] run2 show ?thesis
    by (intro exI [of _ w'']) (auto simp: w''_def)
qed

text \<open>C24: reading the feed page by page loses and repeats nothing. A page is the first
  \<open>limit\<close> events after the cursor, strictly increasing in commit id; with a positive limit
  it is empty only at the end of the feed; and continuing from the last event of a page
  gives exactly the events that page left out.\<close>

theorem feed_pages_compose:
  assumes "distinct_commit_ids s" "changes_since env ht after limit s = (s', Inr evs)"
  shows "s' = s
    \<and> evs = map (event_of s) (take (nat limit) (feed_log s ht after))
    \<and> sorted_wrt (<) (map ev_commit_id evs)
    \<and> (evs = [] \<and> 0 < limit \<longrightarrow> feed_log s ht after = [])
    \<and> (evs \<noteq> [] \<longrightarrow>
        map (event_of s) (feed_log s ht after)
          = evs @ map (event_of s) (feed_log s ht (ev_commit_id (last evs))))"
proof -
  define log where "log = feed_log s ht after"
  note c = changes_since_Inr [OF assms(2), folded feed_log_def, folded log_def]
  have strict: "sorted_wrt (<) (map cm_id log)"
    unfolding log_def by (rule feed_log_strict [OF assms(1)])
  have ids: "map ev_commit_id (map (event_of s) cs) = map cm_id cs" for cs by (simp add: event_of_def)
  have "sorted_wrt (<) (map ev_commit_id evs)"
  proof -
    have "map ev_commit_id evs = take (nat limit) (map cm_id log)" using c ids by (simp add: take_map)
    then show ?thesis using strict by (simp add: sorted_wrt_take)
  qed
  moreover have "map (event_of s) log = evs @ map (event_of s) (feed_log s ht (ev_commit_id (last evs)))"
    if ne: "evs \<noteq> []"
  proof -
    define page where "page = take (nat limit) log"
    have page: "evs = map (event_of s) page" "page \<noteq> []" using c ne by (auto simp: page_def)
    define y where "y = last page"
    have split: "log = butlast page @ y # drop (nat limit) log"
      using page(2) append_take_drop_id [of "nat limit" log]
      by (metis append_butlast_last_id append.assoc append_Cons append_Nil page_def y_def)
    have "y \<in> set log" using split by (metis in_set_conv_decomp)
    then have "after \<le> cm_id y" by (auto simp: log_def feed_log_def)
    then have "feed_log s ht (cm_id y) = drop (nat limit) log"
      using sort_key_filter_later [of after "cm_id y" s ht] strict_sorted_filter_split [OF strict split]
      by (simp add: log_def)
    moreover have "ev_commit_id (last evs) = cm_id y"
      using page by (simp add: last_map y_def event_of_def)
    ultimately show ?thesis
      using append_take_drop_id [of "nat limit" log] by (metis map_append page(1) page_def)
  qed
  ultimately show ?thesis using c by (auto simp: log_def)
qed

text \<open>C24: two commits read one per page.\<close>

theorem feed_pages_compose_witness:
  fixes c1 c2 :: commit_row and s :: catalog
  defines "c1 \<equiv> \<lparr>cm_id = 1, cm_hypertable = 1, cm_kind = ''add'', cm_key = None, cm_fingerprint = None, cm_created_at = 0\<rparr>"
  defines "c2 \<equiv> c1\<lparr>cm_id := 4\<rparr>"
  defines "s \<equiv> empty_catalog\<lparr>commits := [c1, c2], commit_seq := 4\<rparr>"
  shows "map (event_of s) (feed_log s 1 0) = event_of s c1 # map (event_of s) (feed_log s 1 1)"
proof -
  have d: "distinct_commit_ids s" by (simp add: distinct_commit_ids_def s_def c1_def c2_def)
  have log: "feed_log s 1 0 = [c1, c2]"
    by (simp add: feed_log_def s_def c1_def c2_def)
  have r: "changes_since (quiet_env 0) 1 0 1 s = (s, Inr [event_of s c1])"
    by (simp add: changes_since_def feed_head_def feed_head_in_tx_def transact_def tx_bind_def query_def
        quiet_env_def sql_limit_def feed_commits_def tx_return_def max_commit_def list_max_def event_of_def
        s_def c1_def c2_def empty_catalog_def)
  from feed_pages_compose [OF d r] show ?thesis by (simp add: event_of_def c1_def)
qed

text \<open>A cursor never retreats. Whatever happens to the write (it succeeds, fails, or its
  acknowledgement is lost), no worker's cursor is below where it was, the addressed one is
  at the greater of the old and the new position when the write succeeded, and no other
  cursor moves.\<close>

lemma cursor_never_retreats:
  assumes "set_cursor env worker ht cursor s = (s', r)"
  shows "(\<forall>w h x. cursor_at s w h = Some x \<longrightarrow>
        (\<exists>y. cursor_at s' w h = Some y \<and> wc_last x \<le> wc_last y \<and> ((w, h) \<noteq> (worker, ht) \<longrightarrow> y = x)))
    \<and> (r = Inr () \<longrightarrow> (\<exists>y. cursor_at s' worker ht = Some y \<and>
        wc_last y = (case cursor_at s worker ht of None \<Rightarrow> cursor | Some x \<Rightarrow> max (wc_last x) cursor)))"
proof -
  define t where "t = fst (set_cursor_stmt worker ht cursor s)"
  have old: "\<exists>y. cursor_at t w h = Some y \<and> wc_last x \<le> wc_last y \<and> ((w, h) \<noteq> (worker, ht) \<longrightarrow> y = x)"
    if "cursor_at s w h = Some x" for w h x
    using that cursor_at_Some [OF that]
    by (cases "cursor_at s worker ht"; cases "hypertable_exists s ht")
      (auto simp: t_def cursor_at_bump cursor_at_insert set_cursor_refused)
  have new: "\<exists>y. cursor_at t worker ht = Some y \<and>
        wc_last y = (case cursor_at s worker ht of None \<Rightarrow> cursor | Some x \<Rightarrow> max (wc_last x) cursor)"
    if "snd (set_cursor_stmt worker ht cursor s) = Inr ()"
    using that
    by (cases "cursor_at s worker ht"; cases "hypertable_exists s ht")
      (auto simp: t_def cursor_at_bump cursor_at_insert set_cursor_refused max_def dest: cursor_at_Some)
  from assms have "s' = s \<and> r \<noteq> Inr () \<or> s' = t \<and> (r = Inr () \<longrightarrow> snd (set_cursor_stmt worker ht cursor s) = Inr ())"
    by (auto simp: set_cursor_def exec_auto_def t_def split: option.splits if_splits)
  with old new show ?thesis by auto
qed

text \<open>A stale write of 3 over a cursor at 5.\<close>

lemma cursor_never_retreats_witness:
  fixes s :: catalog
  defines "s \<equiv> empty_catalog\<lparr>worker_cursors := [\<lparr>wc_worker = ''gc'', wc_hypertable = 1, wc_last = 5\<rparr>]\<rparr>"
  shows "\<exists>y. cursor_at (fst (set_cursor (quiet_env 0) ''gc'' 1 3 s)) ''gc'' 1 = Some y \<and> wc_last y = 5"
proof -
  have r: "set_cursor (quiet_env 0) ''gc'' 1 3 s = (fst (set_cursor (quiet_env 0) ''gc'' 1 3 s), Inr ())"
    by (simp add: set_cursor_def exec_auto_def quiet_env_def set_cursor_stmt_def cursor_at_def s_def)
  from cursor_never_retreats [OF r] show ?thesis
    by (simp add: cursor_at_def s_def)
qed

end
