(* ===== verification/Tables.thy ===== *)
theory Tables
  imports CatalogState
begin

text \<open>
  Hypertables and logical tables, \<^verbatim>\<open>crates/ukiel-catalog/src/tables.rs\<close>: registration with
  its schema and sort-key checks, lookups by name and id, listing, and the placement knob.
\<close>

section \<open>Definitions\<close>

definition hypertable_from_row :: "hypertable_row \<Rightarrow> hypertable" where
  "hypertable_from_row r =
     \<lparr>ht_id = hr_id r, ht_name = hr_name r, table_schema = hr_schema r, partition_spec = hr_partition_spec r,
      sort_key_cols = hr_sort_key r, packing_key = hr_packing_key r,
      ht_placement = placement_from_db (hr_target_file_bytes r)\<rparr>"

definition create_hypertable ::
  "env \<Rightarrow> string \<Rightarrow> json \<Rightarrow> json \<Rightarrow> string list \<Rightarrow> string \<Rightarrow> hypertable_id tx" where
  "create_hypertable env name schema spec sort_cols packing =
     (case parse schema of
        Inl e \<Rightarrow> tx_fail (SchemaErr e)
      | Inr cols \<Rightarrow>
          (case validate_sort_key (physical_schema cols) sort_cols packing None of
             Inl e \<Rightarrow> tx_fail (SortKeyErr e)
           | Inr _ \<Rightarrow>
               exec_auto env SInsertHypertable (\<lambda>s.
                 let i = hypertable_seq s + 1; s1 = s\<lparr>hypertable_seq := i\<rparr> in
                 if list_ex (\<lambda>h. hr_name h = name) (hypertables s) then (s1, Inl unique_violation)
                 else (s1\<lparr>hypertables := hypertables s @
                        [\<lparr>hr_id = i, hr_name = name, hr_schema = schema, hr_partition_spec = spec,
                          hr_sort_key = sort_cols, hr_packing_key = packing, hr_target_file_bytes = None\<rparr>]\<rparr>,
                       Inr i))))"

definition get_hypertable :: "env \<Rightarrow> string \<Rightarrow> hypertable tx" where
  "get_hypertable env name =
     tx_bind (query env SGetHypertable (\<lambda>s. find (\<lambda>h. hr_name h = name) (hypertables s))) (\<lambda>row.
       case row of
         None \<Rightarrow> tx_fail (NotFound (''hypertable '' @ quoted name))
       | Some r \<Rightarrow> tx_return (hypertable_from_row r))"

definition get_hypertable_by_id :: "env \<Rightarrow> hypertable_id \<Rightarrow> hypertable tx" where
  "get_hypertable_by_id env i =
     tx_bind (query env SGetHypertable (\<lambda>s. find (\<lambda>h. hr_id h = i) (hypertables s))) (\<lambda>row.
       case row of
         None \<Rightarrow> tx_fail (NotFound (''hypertable id '' @ show_int i))
       | Some r \<Rightarrow> tx_return (hypertable_from_row r))"

definition create_logical_table :: "env \<Rightarrow> namespace_id \<Rightarrow> string \<Rightarrow> hypertable_id \<Rightarrow> logical_table_id tx" where
  "create_logical_table env ns name ht =
     exec_auto env SInsertLogical (\<lambda>s.
       let i = logical_table_seq s + 1; s1 = s\<lparr>logical_table_seq := i\<rparr> in
       if list_ex (\<lambda>t. lt_namespace t = ns \<and> lt_name t = name) (logical_tables s) then (s1, Inl unique_violation)
       else if \<not> hypertable_exists s ht then (s1, Inl fk_violation)
       else (s1\<lparr>logical_tables := logical_tables s @
              [\<lparr>lt_id = i, lt_namespace = ns, lt_name = name, lt_hypertable = ht, column_mapping = None\<rparr>]\<rparr>, Inr i))"

definition get_logical_table :: "env \<Rightarrow> namespace_id \<Rightarrow> string \<Rightarrow> logical_table tx" where
  "get_logical_table env ns name =
     tx_bind (query env SGetLogical (\<lambda>s.
         find (\<lambda>t. lt_namespace t = ns \<and> lt_name t = name) (logical_tables s))) (\<lambda>row.
       case row of
         None \<Rightarrow> tx_fail (NotFound (''logical table '' @ quoted name @ '' in namespace '' @ show_int ns))
       | Some t \<Rightarrow> tx_return t)"

definition list_logical_tables :: "env \<Rightarrow> namespace_id \<Rightarrow> logical_table list tx" where
  "list_logical_tables env ns =
     query env SListLogical (\<lambda>s. sort_key lt_name (filter (\<lambda>t. lt_namespace t = ns) (logical_tables s)))"

definition set_placement :: "env \<Rightarrow> hypertable_id \<Rightarrow> placement \<Rightarrow> unit tx" where
  "set_placement env i p =
     exec_auto env SSetPlacement (\<lambda>s.
       let v = placement_to_db p in
       if list_ex (\<lambda>h. hr_id h = i) (hypertables s) \<and> (case v of None \<Rightarrow> False | Some n \<Rightarrow> n < 0)
       then (s, Inl (Db (Database (Some ''23514''))))
       else (s\<lparr>hypertables := map (\<lambda>h. if hr_id h = i then h\<lparr>hr_target_file_bytes := v\<rparr> else h) (hypertables s)\<rparr>,
             Inr ()))"

definition list_hypertables :: "env \<Rightarrow> hypertable list tx" where
  "list_hypertables env =
     query env SListHypertables (\<lambda>s. map hypertable_from_row (sort_key hr_id (hypertables s)))"

section \<open>Lemmas\<close>

definition wf_hypertables :: "catalog \<Rightarrow> bool" where
  "wf_hypertables s \<longleftrightarrow> distinct (map hr_name (hypertables s)) \<and> 0 \<le> hypertable_seq s \<and>
     sorted_wrt (<) (map hr_id (hypertables s)) \<and>
     (\<forall>h \<in> set (hypertables s). 0 < hr_id h \<and> hr_id h \<le> hypertable_seq s)"

text \<open>Registration happened for a schema that parses with a sort key that fits it.\<close>

definition registered_ok :: "hypertable_row \<Rightarrow> bool" where
  "registered_ok h \<longleftrightarrow> (\<exists>cols. parse (hr_schema h) = Inr cols \<and>
     is_ok (validate_sort_key (physical_schema cols) (hr_sort_key h) (hr_packing_key h) None))"

lemma create_hypertable_step:
  assumes "wf_hypertables s \<and> (\<forall>h \<in> set (hypertables s). registered_ok h)"
  shows "wf_hypertables (fst (create_hypertable env name schema spec sort_cols packing s)) \<and>
    (\<forall>h \<in> set (hypertables (fst (create_hypertable env name schema spec sort_cols packing s))). registered_ok h)"
proof -
  have fresh: "\<forall>h \<in> set (hypertables s). hr_id h < hypertable_seq s + 1"
    using assms by (auto simp: wf_hypertables_def)
  show ?thesis
    using assms fresh
    by (auto simp: create_hypertable_def tx_fail_def exec_auto_def Let_def wf_hypertables_def sorted_wrt_append
        registered_ok_def list_ex_iff split: sum.splits option.splits)
qed

lemma find_fresh_append:
  "find P xs = None \<Longrightarrow> P x \<Longrightarrow> find P (xs @ [x]) = Some x"
  "\<not> P x \<Longrightarrow> find P (xs @ [x]) = find P xs"
  by (induction xs) auto

text \<open>Registering a hypertable. It succeeds only for a schema that parses with a sort key
  that fits its physical columns and a name not yet taken; then looking the table up by
  name or by id gives back what was registered, under a new id, with the default
  placement, and every other name resolves as before. A taken name changes no row.\<close>

lemma hypertable_roundtrip:
  assumes "wf_hypertables s" "env_fail env = (\<lambda>_. None)"
    and "create_hypertable env name schema spec sort_cols packing s = (s', r)"
  shows "(case r of
      Inr i \<Rightarrow>
        (let h = \<lparr>ht_id = i, ht_name = name, table_schema = schema, partition_spec = spec, sort_key_cols = sort_cols,
                  packing_key = packing, ht_placement = placement_from_db None\<rparr> in
         get_hypertable env name s' = (s', Inr h) \<and> get_hypertable_by_id env i s' = (s', Inr h)
         \<and> (\<forall>x \<in> set (hypertables s). hr_id x \<noteq> i \<and> hr_name x \<noteq> name)
         \<and> (\<forall>n. n \<noteq> name \<longrightarrow> snd (get_hypertable env n s') = snd (get_hypertable env n s))
         \<and> (\<exists>cols. parse schema = Inr cols \<and> is_ok (validate_sort_key (physical_schema cols) sort_cols packing None)))
    | Inl e \<Rightarrow> hypertables s' = hypertables s \<and>
        ((\<exists>x. e = SchemaErr x \<and> parse schema = Inl x) \<or>
         (\<exists>x cols. e = SortKeyErr x \<and> parse schema = Inr cols \<and>
            validate_sort_key (physical_schema cols) sort_cols packing None = Inl x) \<or>
         (e = unique_violation \<and> name \<in> hr_name ` set (hypertables s))))"
proof (cases "\<exists>cols u. parse schema = Inr cols \<and> validate_sort_key (physical_schema cols) sort_cols packing None = Inr u")
  case False
  with assms(3) show ?thesis
    by (auto simp: create_hypertable_def tx_fail_def split: sum.splits)
next
  case True
  then obtain cols u where c: "parse schema = Inr cols"
    "validate_sort_key (physical_schema cols) sort_cols packing None = Inr u" by blast
  let ?row = "\<lparr>hr_id = hypertable_seq s + 1, hr_name = name, hr_schema = schema, hr_partition_spec = spec,
      hr_sort_key = sort_cols, hr_packing_key = packing, hr_target_file_bytes = None\<rparr>"
  show ?thesis
  proof (cases "name \<in> hr_name ` set (hypertables s)")
    case taken: True
    then have "list_ex (\<lambda>h. hr_name h = name) (hypertables s)" by (auto simp: list_ex_iff)
    with assms(2,3) c have "s' = s\<lparr>hypertable_seq := hypertable_seq s + 1\<rparr>" "r = Inl unique_violation"
      by (simp_all add: create_hypertable_def exec_auto_def Let_def)
    with taken show ?thesis by simp
  next
    case free: False
    then have "\<not> list_ex (\<lambda>h. hr_name h = name) (hypertables s)" by (auto simp: list_ex_iff)
    with assms(2,3) c have s': "r = Inr (hypertable_seq s + 1)"
      "s' = s\<lparr>hypertable_seq := hypertable_seq s + 1, hypertables := hypertables s @ [?row]\<rparr>"
      by (simp_all add: create_hypertable_def exec_auto_def Let_def)
    have fresh: "\<forall>x \<in> set (hypertables s). hr_id x \<noteq> hypertable_seq s + 1 \<and> hr_name x \<noteq> name"
      using assms(1) free by (fastforce simp: wf_hypertables_def)
    then have none: "find (\<lambda>h. hr_name h = name) (hypertables s) = None"
      "find (\<lambda>h. hr_id h = hypertable_seq s + 1) (hypertables s) = None" by (auto simp: find_None_iff)
    have "find (\<lambda>h. hr_name h = name) (hypertables s') = Some ?row"
      "find (\<lambda>h. hr_id h = hypertable_seq s + 1) (hypertables s') = Some ?row"
      "\<And>n. n \<noteq> name \<Longrightarrow> find (\<lambda>h. hr_name h = n) (hypertables s') = find (\<lambda>h. hr_name h = n) (hypertables s)"
      unfolding s'(2) using none by (simp_all add: find_fresh_append)
    with s'(1) fresh c show ?thesis
      by (simp add: get_hypertable_def get_hypertable_by_id_def tx_bind_def query_def assms(2) tx_return_def tx_fail_def
          hypertable_from_row_def is_ok_def split: option.split)
  qed
qed

text \<open>A table of one column, registered in an empty catalog and read back.\<close>

lemma hypertable_roundtrip_witness:
  fixes sch :: json
  defines "sch \<equiv> JObject [(''fields'', JArray [JObject [(''name'', JString ''k''), (''type'', JString ''int64'')]])]"
  shows "\<exists>s'. create_hypertable (quiet_env 0) ''t'' sch JNull [''k''] ''k'' empty_catalog = (s', Inr 1)
    \<and> get_hypertable (quiet_env 0) ''t'' s' = (s', Inr \<lparr>ht_id = 1, ht_name = ''t'', table_schema = sch,
        partition_spec = JNull, sort_key_cols = [''k''], packing_key = ''k'', ht_placement = placement_from_db None\<rparr>)"
proof -
  have w: "wf_hypertables empty_catalog" by (simp add: wf_hypertables_def empty_catalog_def)
  have q: "env_fail (quiet_env 0) = (\<lambda>_. None)" by (simp add: quiet_env_def)
  obtain s' where c: "create_hypertable (quiet_env 0) ''t'' sch JNull [''k''] ''k'' empty_catalog = (s', Inr 1)"
    by (simp add: create_hypertable_def sch_def parse_def parse_field_def get_str_def get_bool_def parse_type_def
        parse_kind_def ok_or_def physical_schema_def schema_where_def field_of_def validate_sort_key_def exec_auto_def
        quiet_env_def empty_catalog_def Let_def)
  from hypertable_roundtrip [OF w q c] c show ?thesis by (simp add: Let_def)
qed

end
