(* ===== verification/Pipelines.thy ===== *)
theory Pipelines
  imports Feed Tables
begin

text \<open>
  Stream tables and pipelines, \<^verbatim>\<open>crates/ukiel-catalog/src/pipelines.rs\<close>: exact-match
  registration of immutable definitions, the cycle check on the graph of table-to-table
  pipelines, and the cursors of materialized-view workers.
\<close>

section \<open>Definitions\<close>

text \<open>\<open>str::trim().is_empty()\<close>: nothing but Unicode white space, on the UTF-8 bytes.\<close>

fun blank_bytes :: "nat list \<Rightarrow> bool" where
  "blank_bytes [] = True"
| "blank_bytes (a # bs) =
     (if a = 32 \<or> (9 \<le> a \<and> a \<le> 13) then blank_bytes bs
      else case bs of
        b # bs' \<Rightarrow>
          (if a = 0xC2 \<and> b \<in> {0x85, 0xA0} then blank_bytes bs'
           else case bs' of
             c # bs'' \<Rightarrow>
               (a, b, c) \<in> {(0xE1, 0x9A, 0x80), (0xE2, 0x80, 0xA8), (0xE2, 0x80, 0xA9),
                             (0xE2, 0x80, 0xAF), (0xE2, 0x81, 0x9F), (0xE3, 0x80, 0x80)}
               \<and> blank_bytes bs''
               \<or> a = 0xE2 \<and> b = 0x80 \<and> 0x80 \<le> c \<and> c \<le> 0x8A \<and> blank_bytes bs''
           | [] \<Rightarrow> False)
      | [] \<Rightarrow> False)"

definition blank :: "string \<Rightarrow> bool" where
  "blank s = blank_bytes (map of_char s)"

definition pipeline_of_row :: "pipeline_row \<Rightarrow> (catalog_error, pipeline) result" where
  "pipeline_of_row r =
     rbind (if plr_source_kind r = ''kafka'' then Inr (Kafka (plr_source_id r))
            else if plr_source_kind r = ''parquet'' then Inr (Parquet (plr_source_id r))
            else Inl (Invariant (''unknown pipeline source kind '' @ plr_source_kind r))) (\<lambda>source.
     rbind (if plr_delivery r = ''exactly_once'' then Inr ExactlyOnce
            else Inl (Invariant (''unknown pipeline delivery '' @ plr_delivery r))) (\<lambda>delivery.
     rbind (if plr_error_policy r = ''stall'' then Inr Stall
            else if plr_error_policy r = ''skip'' then Inr Skip
            else Inl (Invariant (''unknown pipeline error policy '' @ plr_error_policy r))) (\<lambda>policy.
     if plr_target_kind r \<noteq> ''parquet'' then Inl (Invariant ''pipeline target is not parquet'')
     else Inr \<lparr>pl_id = plr_id r,
               pl_definition = \<lparr>pd_name = plr_name r, pd_source = source, pd_target = plr_target_id r,
                 pd_sql = plr_sql r, pd_delivery = delivery, pd_error_policy = policy,
                 pd_event_time_column = plr_event_time_column r\<rparr>\<rparr>)))"

definition stream_table_of_row :: "stream_row \<Rightarrow> (catalog_error, stream_table) result" where
  "stream_table_of_row r =
     (if sr_format r \<noteq> ''json'' then Inl (Invariant (''unknown stream format '' @ sr_format r))
      else Inr \<lparr>st_id = sr_id r, st_definition = \<lparr>std_name = sr_name r, std_topic = sr_topic r,
                  std_format = sr_format r, std_schema = sr_schema r\<rparr>\<rparr>)"

definition lift_result :: "(catalog_error, 'a) result \<Rightarrow> 'a tx" where
  "lift_result r = (case r of Inl e \<Rightarrow> tx_fail e | Inr x \<Rightarrow> tx_return x)"

definition stream_column_ok :: "column_spec \<Rightarrow> bool" where
  "stream_column_ok c \<longleftrightarrow> \<not> prefix ''__ukiel_'' (cs_name c) \<and> cs_kind c = Stored"

definition insert_stream :: "stream_table_definition \<Rightarrow> unit tx" where
  "insert_stream def = (\<lambda>s.
     let i = stream_table_seq s + 1; s1 = s\<lparr>stream_table_seq := i\<rparr> in
     if list_ex (\<lambda>r. sr_name r = std_name def) (stream_tables s) then (s1, Inr ())
     else if list_ex (\<lambda>r. sr_topic r = std_topic def) (stream_tables s) then (s1, Inl unique_violation)
     else (s1\<lparr>stream_tables := stream_tables s @
            [\<lparr>sr_id = i, sr_name = std_name def, sr_topic = std_topic def, sr_format = std_format def,
              sr_schema = std_schema def\<rparr>]\<rparr>, Inr ()))"

definition find_stream :: "string \<Rightarrow> catalog \<Rightarrow> stream_row option" where
  "find_stream name s = find (\<lambda>r. sr_name r = name) (stream_tables s)"

definition ensure_stream_table :: "env \<Rightarrow> stream_table_definition \<Rightarrow> stream_table tx" where
  "ensure_stream_table env def =
     (if blank (std_name def) \<or> blank (std_topic def) \<or> std_format def \<noteq> ''json'' then
        tx_fail (InvalidPipeline ''stream name/topic and JSON format are required'')
      else
        case parse (std_schema def) of
          Inl e \<Rightarrow> tx_fail (SchemaErr e)
        | Inr cols \<Rightarrow>
            if list_ex (\<lambda>c. \<not> stream_column_ok c) cols then
              tx_fail (InvalidPipeline ''stream fields must be stored and cannot use the __ukiel_ prefix'')
            else transact env (
              tx_bind (exec env SInsertStream (insert_stream def)) (\<lambda>_.
              tx_bind (query env SSelectStream (find_stream (std_name def))) (\<lambda>row.
              tx_bind (case row of None \<Rightarrow> tx_fail (Db OtherSqlx) | Some r \<Rightarrow> lift_result (stream_table_of_row r))
                (\<lambda>found.
              if st_definition found \<noteq> def then
                tx_fail (InvalidPipeline (''stream '' @ std_name def @ '' differs from its immutable definition''))
              else
                exec env SLinkOffsets (\<lambda>s.
                  (s\<lparr>ingest_offsets := map (\<lambda>r. if io_topic r = std_topic def \<and> io_stream r = None
                        then r\<lparr>io_stream := Some (st_id found)\<rparr> else r) (ingest_offsets s)\<rparr>, Inr found)))))))"

definition get_stream_table :: "env \<Rightarrow> string \<Rightarrow> stream_table tx" where
  "get_stream_table env name =
     tx_bind (query env SSelectStream (find_stream name)) (\<lambda>row.
       case row of
         None \<Rightarrow> tx_fail (NotFound (''stream table '' @ name))
       | Some r \<Rightarrow> lift_result (stream_table_of_row r))"

definition get_stream_table_by_id :: "env \<Rightarrow> stream_table_id \<Rightarrow> stream_table tx" where
  "get_stream_table_by_id env i =
     tx_bind (query env SSelectStream (\<lambda>s. find (\<lambda>r. sr_id r = i) (stream_tables s))) (\<lambda>row.
       case row of
         None \<Rightarrow> tx_fail (NotFound (''stream table '' @ show_int i))
       | Some r \<Rightarrow> lift_result (stream_table_of_row r))"

text \<open>The edges of the table-to-table graph, and the recursive query: \<open>UNION\<close> keeps what is
  new, and iteration stops when nothing is.\<close>

definition pipeline_edges :: "pipeline_row list \<Rightarrow> (i64 \<times> hypertable_id) list" where
  "pipeline_edges rows =
     map (\<lambda>r. (plr_source_id r, plr_target_id r)) (filter (\<lambda>r. plr_source_kind r = ''parquet'') rows)"

function reachable_ids :: "(i64 \<times> i64) list \<Rightarrow> i64 list \<Rightarrow> i64 list \<Rightarrow> i64 list" where
  "reachable_ids es work seen =
     (let new = remdups (filter (\<lambda>t. t \<notin> set seen) (map snd (filter (\<lambda>e. fst e \<in> set work) es)))
      in if new = [] then seen else reachable_ids es new (seen @ new))"
  by pat_completeness auto

termination
proof (relation "measure (\<lambda>(es, work, seen). card (snd ` set es - set seen))")
  fix es :: "(i64 \<times> i64) list" and work seen new
  assume new: "new = remdups (filter (\<lambda>t. t \<notin> set seen) (map snd (filter (\<lambda>e. fst e \<in> set work) es)))" "new \<noteq> []"
  then obtain t where "t \<in> set new" by (meson hd_in_set)
  with new have "t \<in> snd ` set es - set seen" "t \<notin> snd ` set es - set (seen @ new)" by auto
  then have "snd ` set es - set (seen @ new) \<subset> snd ` set es - set seen" by auto
  then show "((es, new, seen @ new), es, work, seen) \<in> measure (\<lambda>(es, work, seen). card (snd ` set es - set seen))"
    by (simp add: psubset_card_mono)
qed simp

declare reachable_ids.simps [simp del]

definition creates_cycle :: "pipeline_row list \<Rightarrow> hypertable_id \<Rightarrow> hypertable_id \<Rightarrow> bool" where
  "creates_cycle rows source target \<longleftrightarrow> source \<in> set (reachable_ids (pipeline_edges rows) [target] [target])"

fun source_kind_text :: "endpoint \<Rightarrow> string" where
  "source_kind_text (Kafka i) = ''kafka''"
| "source_kind_text (Parquet i) = ''parquet''"

fun error_policy_text :: "error_policy \<Rightarrow> string" where
  "error_policy_text Stall = ''stall''"
| "error_policy_text Skip = ''skip''"

definition row_of_definition :: "pipeline_id \<Rightarrow> pipeline_definition \<Rightarrow> pipeline_row" where
  "row_of_definition i def =
     \<lparr>plr_id = i, plr_name = pd_name def, plr_source_kind = source_kind_text (pd_source def),
      plr_source_id = endpoint_id (pd_source def), plr_target_kind = ''parquet'', plr_target_id = pd_target def,
      plr_sql = pd_sql def, plr_delivery = ''exactly_once'', plr_error_policy = error_policy_text (pd_error_policy def),
      plr_event_time_column = pd_event_time_column def\<rparr>"

definition find_pipeline :: "string \<Rightarrow> catalog \<Rightarrow> pipeline_row option" where
  "find_pipeline name s = find (\<lambda>r. plr_name r = name) (pipelines s)"

definition source_exists :: "endpoint \<Rightarrow> catalog \<Rightarrow> bool" where
  "source_exists src s =
     (case src of
        Kafka i \<Rightarrow> list_ex (\<lambda>r. sr_id r = i) (stream_tables s)
      | Parquet i \<Rightarrow> hypertable_exists s i)"

definition insert_pipeline :: "pipeline_definition \<Rightarrow> pipeline_row tx" where
  "insert_pipeline def = (\<lambda>s.
     let i = pipeline_seq s + 1; row = row_of_definition i def
     in (s\<lparr>pipeline_seq := i, pipelines := pipelines s @ [row]\<rparr>, Inr row))"

definition register_pipeline :: "env \<Rightarrow> pipeline_definition \<Rightarrow> pipeline tx" where
  "register_pipeline env def =
     tx_bind (query env SSourceExists (source_exists (pd_source def))) (\<lambda>src_ok.
     tx_bind (query env STargetExists (\<lambda>s. hypertable_exists s (pd_target def))) (\<lambda>tgt_ok.
     if \<not> src_ok \<or> \<not> tgt_ok then
       tx_fail (InvalidPipeline ''pipeline endpoint does not exist in the declared kind'')
     else
       tx_bind (case pd_source def of
                  Kafka _ \<Rightarrow> tx_return False
                | Parquet source \<Rightarrow> query env SCycle (\<lambda>s. creates_cycle (pipelines s) source (pd_target def)))
         (\<lambda>cycle.
       if cycle then tx_fail (InvalidPipeline ''pipeline would create a cycle'')
       else tx_bind (exec env SInsertPipeline (insert_pipeline def)) (\<lambda>row. lift_result (pipeline_of_row row)))))"

definition ensure_pipeline :: "env \<Rightarrow> pipeline_definition \<Rightarrow> pipeline tx" where
  "ensure_pipeline env def =
     (if blank (pd_name def) \<or> blank (pd_sql def) \<or> endpoint_id (pd_source def) \<le> 0 \<or> pd_target def \<le> 0 then
        tx_fail (InvalidPipeline ''pipeline name, SQL, and valid endpoints are required'')
      else transact env (
        tx_bind (query env SPipelineLock (\<lambda>_. ())) (\<lambda>_.
        tx_bind (query env SSelectPipeline (find_pipeline (pd_name def))) (\<lambda>row.
          case row of
            Some r \<Rightarrow>
              tx_bind (lift_result (pipeline_of_row r)) (\<lambda>found.
                if pl_definition found \<noteq> def then
                  tx_fail (InvalidPipeline (''pipeline '' @ pd_name def @ '' differs from its immutable definition''))
                else tx_return found)
          | None \<Rightarrow> register_pipeline env def))))"

definition get_pipeline :: "env \<Rightarrow> string \<Rightarrow> pipeline tx" where
  "get_pipeline env name =
     tx_bind (query env SSelectPipeline (find_pipeline name)) (\<lambda>row.
       case row of
         None \<Rightarrow> tx_fail (NotFound (''pipeline '' @ name))
       | Some r \<Rightarrow> lift_result (pipeline_of_row r))"

definition get_pipeline_by_id :: "env \<Rightarrow> pipeline_id \<Rightarrow> pipeline tx" where
  "get_pipeline_by_id env i =
     tx_bind (query env SSelectPipeline (\<lambda>s. find (\<lambda>r. plr_id r = i) (pipelines s))) (\<lambda>row.
       case row of
         None \<Rightarrow> tx_fail (NotFound (''pipeline '' @ show_int i))
       | Some r \<Rightarrow> lift_result (pipeline_of_row r))"

fun collect_results :: "(catalog_error, 'a) result list \<Rightarrow> (catalog_error, 'a list) result" where
  "collect_results [] = Inr []"
| "collect_results (r # rs) = rbind r (\<lambda>x. rbind (collect_results rs) (\<lambda>xs. Inr (x # xs)))"

definition list_pipelines :: "env \<Rightarrow> pipeline list tx" where
  "list_pipelines env =
     tx_bind (query env SListPipelines (\<lambda>s. sort_key plr_name (pipelines s))) (\<lambda>rows.
       lift_result (collect_results (map pipeline_of_row rows)))"

definition mv_worker :: "pipeline_id \<Rightarrow> string" where
  "mv_worker i = ''mv/'' @ show_int i"

text \<open>\<open>ON CONFLICT DO NOTHING\<close>: a registered cursor stays where it is.\<close>

definition insert_cursor_stmt :: "string \<Rightarrow> hypertable_id \<Rightarrow> commit_id \<Rightarrow> unit tx" where
  "insert_cursor_stmt worker ht head = (\<lambda>s.
     if cursor_at s worker ht \<noteq> None then (s, Inr ())
     else if \<not> hypertable_exists s ht then (s, Inl fk_violation)
     else (s\<lparr>worker_cursors := worker_cursors s @ [\<lparr>wc_worker = worker, wc_hypertable = ht, wc_last = head\<rparr>]\<rparr>, Inr ()))"

definition ensure_mv_cursor :: "env \<Rightarrow> pipeline_id \<Rightarrow> commit_id tx" where
  "ensure_mv_cursor env i =
     transact env (
       tx_bind (query env SSelectPipeline (\<lambda>s. find (\<lambda>r. plr_id r = i) (pipelines s))) (\<lambda>row.
         case row of
           None \<Rightarrow> tx_fail (NotFound (''pipeline '' @ show_int i))
         | Some r \<Rightarrow>
             if plr_source_kind r \<noteq> ''parquet'' then
               tx_fail (InvalidPipeline ''MV cursor requires a Parquet source'')
             else
               tx_bind (feed_head_in_tx env (plr_source_id r)) (\<lambda>head.
               tx_bind (exec env SInsertCursor (insert_cursor_stmt (mv_worker i) (plr_source_id r) head)) (\<lambda>_.
               tx_bind (query env SGetCursor (\<lambda>s. cursor_at s (mv_worker i) (plr_source_id r))) (\<lambda>c.
                 case c of None \<Rightarrow> tx_fail (Db OtherSqlx) | Some x \<Rightarrow> tx_return (wc_last x))))))"

definition read_mv_cursor :: "env \<Rightarrow> pipeline_id \<Rightarrow> commit_id tx" where
  "read_mv_cursor env i =
     tx_bind (query env SGetCursor (\<lambda>s.
         map_option (\<lambda>r. (plr_source_kind r, map_option wc_last (cursor_at s (mv_worker i) (plr_source_id r))))
           (find (\<lambda>r. plr_id r = i) (pipelines s)))) (\<lambda>row.
       case row of
         None \<Rightarrow> tx_fail (NotFound (''pipeline '' @ show_int i))
       | Some (kind, cursor) \<Rightarrow>
           if kind \<noteq> ''parquet'' then tx_fail (InvalidPipeline ''MV cursor requires a Parquet source'')
           else case cursor of
             None \<Rightarrow> tx_fail (Invariant (''MV '' @ show_int i @ '' has no registered cursor''))
           | Some c \<Rightarrow> tx_return c)"

section \<open>Reachability\<close>

lemma reachable_ids_sound:
  assumes "set work \<subseteq> set seen" "\<forall>x \<in> set seen. (a, x) \<in> (set es)\<^sup>*"
  shows "\<forall>x \<in> set (reachable_ids es work seen). (a, x) \<in> (set es)\<^sup>*"
  using assms
proof (induction es work seen rule: reachable_ids.induct)
  case (1 es work seen)
  define new where "new = remdups (filter (\<lambda>t. t \<notin> set seen) (map snd (filter (\<lambda>e. fst e \<in> set work) es)))"
  show ?case
  proof (cases "new = []")
    case True
    with 1 show ?thesis by (subst reachable_ids.simps) (simp add: new_def)
  next
    case False
    have "(a, x) \<in> (set es)\<^sup>*" if "x \<in> set new" for x
      using that "1.prems" by (force simp: new_def intro: rtrancl_into_rtrancl)
    with "1.prems" "1.IH" [OF new_def False] False show ?thesis
      by (subst reachable_ids.simps) (auto simp: Let_def simp flip: new_def)
  qed
qed

lemma reachable_ids_closed:
  assumes "set work \<subseteq> set seen" "\<forall>(x, y) \<in> set es. x \<in> set seen - set work \<longrightarrow> y \<in> set seen"
  shows "set seen \<subseteq> set (reachable_ids es work seen) \<and>
    (\<forall>(x, y) \<in> set es. x \<in> set (reachable_ids es work seen) \<longrightarrow> y \<in> set (reachable_ids es work seen))"
  using assms
proof (induction es work seen rule: reachable_ids.induct)
  case (1 es work seen)
  define new where "new = remdups (filter (\<lambda>t. t \<notin> set seen) (map snd (filter (\<lambda>e. fst e \<in> set work) es)))"
  have step: "y \<in> set seen \<union> set new" if "(x, y) \<in> set es" "x \<in> set seen" for x y
    using that "1.prems"(2) by (force simp: new_def)
  show ?case
  proof (cases "new = []")
    case True
    then have "reachable_ids es work seen = seen" by (subst reachable_ids.simps) (simp add: new_def)
    with step True show ?thesis by auto
  next
    case False
    then have "reachable_ids es work seen = reachable_ids es new (seen @ new)"
      by (subst reachable_ids.simps) (simp add: Let_def flip: new_def)
    moreover have "set new \<subseteq> set (seen @ new)" by simp
    moreover have "\<forall>(x, y) \<in> set es. x \<in> set (seen @ new) - set new \<longrightarrow> y \<in> set (seen @ new)"
      using step by auto
    ultimately show ?thesis using "1.IH" [OF new_def False] by auto
  qed
qed

lemma reachable_ids_rtrancl:
  "set (reachable_ids es [a] [a]) = {b. (a, b) \<in> (set es)\<^sup>*}"
proof
  show "set (reachable_ids es [a] [a]) \<subseteq> {b. (a, b) \<in> (set es)\<^sup>*}"
    using reachable_ids_sound [of "[a]" "[a]" a es] by auto
  have c: "a \<in> set (reachable_ids es [a] [a])"
    "\<And>x y. (x, y) \<in> set es \<Longrightarrow> x \<in> set (reachable_ids es [a] [a]) \<Longrightarrow> y \<in> set (reachable_ids es [a] [a])"
    using reachable_ids_closed [of "[a]" "[a]" es] by auto
  have "b \<in> set (reachable_ids es [a] [a])" if "(a, b) \<in> (set es)\<^sup>*" for b
    using that by (induction rule: rtrancl_induct) (auto intro: c)
  then show "{b. (a, b) \<in> (set es)\<^sup>*} \<subseteq> set (reachable_ids es [a] [a])" by auto
qed

lemma pipeline_edges_append: "pipeline_edges (xs @ ys) = pipeline_edges xs @ pipeline_edges ys"
  by (simp add: pipeline_edges_def)

definition acyclic_pipelines :: "catalog \<Rightarrow> bool" where
  "acyclic_pipelines s \<longleftrightarrow> acyclic (set (pipeline_edges (pipelines s)))"

lemma decode_row: "pipeline_of_row (row_of_definition i def) = Inr \<lparr>pl_id = i, pl_definition = def\<rparr>"
proof -
  have "pd_delivery def = ExactlyOnce" by (cases "pd_delivery def") simp
  then show ?thesis
    by (cases "pd_source def"; cases "pd_error_policy def") (simp_all add: pipeline_of_row_def row_of_definition_def)
qed

lemma edge_of_definition:
  "pipeline_edges [row_of_definition i def] =
     (case pd_source def of Kafka _ \<Rightarrow> [] | Parquet src \<Rightarrow> [(src, pd_target def)])"
  by (cases "pd_source def") (simp_all add: pipeline_edges_def row_of_definition_def)

lemma lift_result_iff: "lift_result r s = (s', y) \<longleftrightarrow> s' = s \<and> y = r"
  by (cases r) (auto simp: lift_result_def tx_results)

text \<open>What registering does when it gets as far as the insert.\<close>

definition pipeline_registered :: "pipeline_definition \<Rightarrow> catalog \<Rightarrow> catalog \<Rightarrow> bool" where
  "pipeline_registered def s s' \<longleftrightarrow>
     source_exists (pd_source def) s \<and> hypertable_exists s (pd_target def) \<and>
     (\<forall>src. pd_source def = Parquet src \<longrightarrow> \<not> creates_cycle (pipelines s) src (pd_target def)) \<and>
     s' = s\<lparr>pipeline_seq := pipeline_seq s + 1,
            pipelines := pipelines s @ [row_of_definition (pipeline_seq s + 1) def]\<rparr>"

lemma register_pipeline_cases:
  assumes "register_pipeline env def s = (s', r)"
  shows "s' = s \<and> (\<exists>e. r = Inl e) \<or>
    pipeline_registered def s s' \<and> r = Inr \<lparr>pl_id = pipeline_seq s + 1, pl_definition = def\<rparr>"
proof (cases "env_fail env SSourceExists = None \<and> env_fail env STargetExists = None \<and>
    source_exists (pd_source def) s \<and> hypertable_exists s (pd_target def)")
  case False
  with assms show ?thesis
    by (auto simp: register_pipeline_def tx_bind_def query_def tx_fail_def split: option.splits if_splits)
next
  case True
  then have ok: "register_pipeline env def s =
      tx_bind (case pd_source def of
                  Kafka _ \<Rightarrow> tx_return False
                | Parquet source \<Rightarrow> query env SCycle (\<lambda>s. creates_cycle (pipelines s) source (pd_target def)))
         (\<lambda>cycle.
       if cycle then tx_fail (InvalidPipeline ''pipeline would create a cycle'')
       else tx_bind (exec env SInsertPipeline (insert_pipeline def)) (\<lambda>row. lift_result (pipeline_of_row row))) s"
    by (simp add: register_pipeline_def tx_bind_def query_def)
  show ?thesis
  proof (cases "(\<exists>src. pd_source def = Parquet src \<and>
      (env_fail env SCycle \<noteq> None \<or> creates_cycle (pipelines s) src (pd_target def))) \<or> env_fail env SInsertPipeline \<noteq> None")
    case True
    with assms show ?thesis unfolding ok
      by (cases "pd_source def")
        (auto simp: tx_bind_def query_def tx_fail_def tx_return_def exec_def split: option.splits if_splits)
  next
    case no: False
    then have "register_pipeline env def s = lift_result
        (pipeline_of_row (row_of_definition (pipeline_seq s + 1) def))
        (s\<lparr>pipeline_seq := pipeline_seq s + 1, pipelines := pipelines s @ [row_of_definition (pipeline_seq s + 1) def]\<rparr>)"
      unfolding ok by (cases "pd_source def")
        (auto simp: tx_bind_def query_def tx_return_def exec_def insert_pipeline_def Let_def split: option.splits)
    with assms no True show ?thesis
      by (auto simp: lift_result_iff decode_row pipeline_registered_def)
  qed
qed

lemma ensure_pipeline_cases:
  assumes "ensure_pipeline env def s = (s', r)"
  shows "same_tables s s' \<and> seqs_le s s' \<and>
      (\<forall>p. r = Inr p \<longrightarrow> (\<exists>row. find_pipeline (pd_name def) s = Some row \<and> pipeline_of_row row = Inr p \<and> pl_definition p = def)) \<or>
    find_pipeline (pd_name def) s = None \<and> pipeline_registered def s s' \<and>
      (\<forall>p. r = Inr p \<longrightarrow> p = \<lparr>pl_id = pipeline_seq s + 1, pl_definition = def\<rparr>)"
proof (cases "blank (pd_name def) \<or> blank (pd_sql def) \<or> endpoint_id (pd_source def) \<le> 0 \<or> pd_target def \<le> 0")
  case True
  with assms have "s' = s" "r = Inl (InvalidPipeline ''pipeline name, SQL, and valid endpoints are required'')"
    by (simp_all add: ensure_pipeline_def tx_fail_def)
  then show ?thesis by simp
next
  case False
  define body where "body = tx_bind (query env SPipelineLock (\<lambda>_. ())) (\<lambda>_.
        tx_bind (query env SSelectPipeline (find_pipeline (pd_name def))) (\<lambda>row.
          case row of
            Some r \<Rightarrow>
              tx_bind (lift_result (pipeline_of_row r)) (\<lambda>found.
                if pl_definition found \<noteq> def then
                  tx_fail (InvalidPipeline (''pipeline '' @ pd_name def @ '' differs from its immutable definition''))
                else tx_return found)
          | None \<Rightarrow> register_pipeline env def))"
  from assms False have tr: "transact env body s = (s', r)" by (simp add: ensure_pipeline_def body_def)
  obtain t q where b: "body s = (t, q)" by force
  have "t = s \<and> (\<forall>p. q = Inr p \<longrightarrow> (\<exists>row. find_pipeline (pd_name def) s = Some row \<and>
            pipeline_of_row row = Inr p \<and> pl_definition p = def)) \<or>
        find_pipeline (pd_name def) s = None \<and> pipeline_registered def s t \<and>
            q = Inr \<lparr>pl_id = pipeline_seq s + 1, pl_definition = def\<rparr>"
  proof (cases "find_pipeline (pd_name def) s")
    case None
    with b register_pipeline_cases [of env def s] show ?thesis
      by (auto simp: body_def tx_bind_def query_def split: option.splits)
  next
    case (Some row)
    with b show ?thesis
      by (cases "pipeline_of_row row")
        (auto simp: body_def tx_bind_def query_def lift_result_def tx_fail_def tx_return_def split: option.splits if_splits)
  qed
  with tr b show ?thesis
    by (auto simp: transact_def pipeline_registered_def same_tables_def seqs_le_def split: option.splits sum.splits if_splits)
qed

lemma registered_acyclic:
  assumes "acyclic_pipelines s" "pipeline_registered def s s'"
  shows "acyclic_pipelines s'"
proof -
  have e: "set (pipeline_edges (pipelines s')) = set (pipeline_edges (pipelines s)) \<union>
      set (case pd_source def of Kafka _ \<Rightarrow> [] | Parquet src \<Rightarrow> [(src, pd_target def)])"
    using assms(2) by (simp add: pipeline_registered_def pipeline_edges_append edge_of_definition)
  show ?thesis
  proof (cases "pd_source def")
    case (Parquet src)
    then have "(pd_target def, src) \<notin> (set (pipeline_edges (pipelines s)))\<^sup>*"
      using assms(2) by (simp add: pipeline_registered_def creates_cycle_def reachable_ids_rtrancl)
    with assms(1) e Parquet show ?thesis by (simp add: acyclic_pipelines_def acyclic_insert)
  qed (use assms(1) e in \<open>simp add: acyclic_pipelines_def\<close>)
qed

section \<open>Properties\<close>

text \<open>C31: the pipeline graph stays acyclic. Registering a pipeline, under any driver failure
  or lost acknowledgement, never closes a cycle among table-to-table pipelines; the cycle
  check is exact (it refuses precisely the edges that would close one) and terminates.\<close>

theorem pipeline_graph_stays_acyclic:
  assumes "acyclic_pipelines s" "ensure_pipeline env def s = (s', r)"
  shows "acyclic_pipelines s'
    \<and> (\<forall>src tgt. creates_cycle (pipelines s) src tgt \<longleftrightarrow>
          \<not> acyclic (insert (src, tgt) (set (pipeline_edges (pipelines s)))))"
proof
  from ensure_pipeline_cases [OF assms(2)] show "acyclic_pipelines s'"
    using assms(1) registered_acyclic by (auto simp: acyclic_pipelines_def same_tables_def)
  show "\<forall>src tgt. creates_cycle (pipelines s) src tgt \<longleftrightarrow>
          \<not> acyclic (insert (src, tgt) (set (pipeline_edges (pipelines s))))"
    using assms(1) by (simp add: creates_cycle_def reachable_ids_rtrancl acyclic_insert acyclic_pipelines_def)
qed

text \<open>C31: a pipeline from table 2 back to table 1, refused because table 1 already feeds 2.\<close>

theorem pipeline_graph_stays_acyclic_witness:
  fixes d :: pipeline_definition and s :: catalog
  defines "d \<equiv> \<lparr>pd_name = ''p'', pd_source = Parquet 1, pd_target = 2, pd_sql = ''q'', pd_delivery = ExactlyOnce,
    pd_error_policy = Stall, pd_event_time_column = None\<rparr>"
  defines "s \<equiv> empty_catalog\<lparr>pipelines := [row_of_definition 1 d], pipeline_seq := 1\<rparr>"
  shows "creates_cycle (pipelines s) 2 1 \<and> acyclic_pipelines (fst (ensure_pipeline (quiet_env 0) d s))"
proof -
  have e: "set (pipeline_edges (pipelines s)) = {(1, 2)}"
    using edge_of_definition [of 1 d] by (simp add: s_def d_def)
  then have ac: "acyclic_pipelines s" by (simp add: acyclic_pipelines_def acyclic_insert) (simp add: acyclic_def)
  have "(2::int, 1) \<in> {(2, 1), (1, 2::int)}\<^sup>+" "(1::int, 2) \<in> {(2, 1), (1, 2::int)}\<^sup>+"
    by (simp_all add: r_into_trancl)
  then have "(2::int, 2) \<in> {(2, 1), (1, 2::int)}\<^sup>+" by (rule trancl_trans)
  then have "\<not> acyclic {(2, 1), (1, 2::int)}" by (auto simp: acyclic_def)
  with pipeline_graph_stays_acyclic [OF ac, of "quiet_env 0" d] e show ?thesis
    by (cases "ensure_pipeline (quiet_env 0) d s") simp
qed

text \<open>Registration is an exact-match bootstrap. What a successful call returns carries
  exactly the requested definition and is what a lookup by name finds afterwards; the same
  call again returns the same pipeline and changes no table; and a different definition
  under a taken name is refused without a change.\<close>

lemma ensure_pipeline_exact_match:
  assumes ok: "ensure_pipeline env def s = (s', Inr p)" and q: "env_fail env' = (\<lambda>_. None)"
  shows "pl_definition p = def
    \<and> get_pipeline env' (pd_name def) s' = (s', Inr p)
    \<and> ensure_pipeline env' def s' = (s', Inr p)
    \<and> (\<forall>d. pd_name d = pd_name def \<and> d \<noteq> def \<longrightarrow>
        fst (ensure_pipeline env' d s') = s' \<and> (\<exists>e. snd (ensure_pipeline env' d s') = Inl (InvalidPipeline e)))"
proof -
  have snoc: "find P (xs @ [x]) = Some x" if "find P xs = None" "P x" for P and xs :: "pipeline_row list" and x
    using that by (induction xs) (auto split: if_splits)
  from ensure_pipeline_cases [OF ok] obtain row
    where row: "find_pipeline (pd_name def) s' = Some row" "pipeline_of_row row = Inr p" "pl_definition p = def"
  proof (elim disjE)
    assume "find_pipeline (pd_name def) s = None \<and> pipeline_registered def s s' \<and>
      (\<forall>q. Inr p = (Inr q :: (catalog_error, pipeline) result) \<longrightarrow> q = \<lparr>pl_id = pipeline_seq s + 1, pl_definition = def\<rparr>)"
    then have "find_pipeline (pd_name def) s' = Some (row_of_definition (pipeline_seq s + 1) def)"
      "p = \<lparr>pl_id = pipeline_seq s + 1, pl_definition = def\<rparr>"
      by (auto simp: find_pipeline_def pipeline_registered_def row_of_definition_def intro!: snoc)
    with that decode_row show thesis by simp
  qed (auto simp: find_pipeline_def same_tables_def intro: that)
  have nb: "\<not> (blank (pd_name def) \<or> blank (pd_sql def) \<or> endpoint_id (pd_source def) \<le> 0 \<or> pd_target def \<le> 0)"
    using ok by (auto simp: ensure_pipeline_def tx_fail_def split: if_splits)
  have "fst (ensure_pipeline env' d s') = s' \<and> (\<exists>e. snd (ensure_pipeline env' d s') = Inl (InvalidPipeline e))"
    if "pd_name d = pd_name def" "d \<noteq> def" for d
    using that row
    by (simp add: ensure_pipeline_def tx_fail_def transact_def q tx_bind_def query_def lift_result_def tx_return_def)
  moreover have "get_pipeline env' (pd_name def) s' = (s', Inr p)"
    using row by (simp add: get_pipeline_def tx_bind_def query_def q lift_result_def tx_return_def)
  moreover have "ensure_pipeline env' def s' = (s', Inr p)"
    using row nb by (simp add: ensure_pipeline_def transact_def q tx_bind_def query_def lift_result_def tx_return_def)
  ultimately show ?thesis using row(3) by blast
qed

text \<open>Registering a Kafka pipeline into table 1 on a catalog that has the endpoints.\<close>

lemma ensure_pipeline_exact_match_witness:
  fixes d :: pipeline_definition and s :: catalog and h :: hypertable_row
  defines "d \<equiv> \<lparr>pd_name = ''p'', pd_source = Kafka 3, pd_target = 1, pd_sql = ''q'', pd_delivery = ExactlyOnce,
    pd_error_policy = Stall, pd_event_time_column = None\<rparr>"
  defines "h \<equiv> \<lparr>hr_id = 1, hr_name = ''t'', hr_schema = JNull, hr_partition_spec = JNull, hr_sort_key = [],
    hr_packing_key = ''k'', hr_target_file_bytes = None\<rparr>"
  defines "s \<equiv> empty_catalog\<lparr>hypertables := [h],
    stream_tables := [\<lparr>sr_id = 3, sr_name = ''s'', sr_topic = ''t'', sr_format = ''json'', sr_schema = JNull\<rparr>]\<rparr>"
  shows "get_pipeline (quiet_env 0) ''p'' (fst (ensure_pipeline (quiet_env 0) d s))
    = (fst (ensure_pipeline (quiet_env 0) d s), Inr \<lparr>pl_id = 1, pl_definition = d\<rparr>)"
proof -
  have q: "env_fail (quiet_env 0) = (\<lambda>_. None)" by (simp add: quiet_env_def)
  have "ensure_pipeline (quiet_env 0) d s = (fst (ensure_pipeline (quiet_env 0) d s), Inr \<lparr>pl_id = 1, pl_definition = d\<rparr>)"
    by (simp add: ensure_pipeline_def register_pipeline_def transact_def q tx_bind_def query_def exec_def
        insert_pipeline_def Let_def lift_result_def decode_row tx_return_def tx_fail_def find_pipeline_def
        source_exists_def hypertable_exists_def s_def h_def blank_def empty_catalog_def d_def)
  from ensure_pipeline_exact_match [OF this q] show ?thesis by (simp add: d_def)
qed

end
