(* ===== verification/CatalogRun.thy ===== *)
theory CatalogRun
  imports Commit CatalogGc Pipelines
begin

text \<open>
  Runs of the catalog: any sequence of its mutating operations by any clients, each under
  its own environment of clocks, driver failures and lost acknowledgements. The step
  relation has one rule per operation; the invariants and the promises that span
  operations (exactly-once commits, tombstones, offsets, the lease fence) are proved by
  rule induction over it. \<open>Q\<close> restricts the offset ranges a run's commits may carry.
\<close>

section \<open>Steps\<close>

inductive catalog_step :: "(offset_range list \<Rightarrow> bool) \<Rightarrow> catalog \<Rightarrow> catalog \<Rightarrow> bool" for Q where
  commit: "Q offsets \<Longrightarrow> catalog_step Q s (fst (commit_txn env de ht op identity offsets lease s))"
| acquire: "catalog_step Q s (fst (try_acquire_compaction_lease env ht pv ow ttl s))"
| renew: "catalog_step Q s (fst (renew_compaction_lease env l ttl s))"
| release: "catalog_step Q s (fst (release_compaction_lease env l s))"
| cursor: "catalog_step Q s (fst (set_cursor env worker ht c s))"
| purge: "catalog_step Q s (fst (mark_purged env ids s))"
| register: "catalog_step Q s (fst (register_pending_objects env ht paths s))"
| clear: "catalog_step Q s (fst (clear_pending_objects env paths s))"
| hypertable: "catalog_step Q s (fst (create_hypertable env name sch spec sk pk s))"
| logical: "catalog_step Q s (fst (create_logical_table env ns name ht s))"
| placement: "catalog_step Q s (fst (set_placement env ht pl s))"
| stream: "catalog_step Q s (fst (ensure_stream_table env sdef s))"
| pipeline: "catalog_step Q s (fst (ensure_pipeline env pdef s))"
| mv_cursor: "catalog_step Q s (fst (ensure_mv_cursor env pid s))"
| arm: "catalog_step Q s (arm_commit_fault f s)"

inductive_cases catalog_stepE: "catalog_step Q s s'"

section \<open>What only a commit changes\<close>

definition strip_stream :: "offset_row \<Rightarrow> offset_row" where
  "strip_stream r = r\<lparr>io_stream := None\<rparr>"

definition log_frame :: "catalog \<Rightarrow> catalog \<Rightarrow> bool" where
  "log_frame s0 s \<longleftrightarrow> commits s = commits s0 \<and> commit_seq s = commit_seq s0 \<and> part_seq s = part_seq s0 \<and>
     (\<exists>f. parts s = map (\<lambda>p. p\<lparr>pr_purged_at := f p\<rparr>) (parts s0)) \<and>
     map strip_stream (ingest_offsets s) = map strip_stream (ingest_offsets s0) \<and>
     hr_id ` set (hypertables s0) \<subseteq> hr_id ` set (hypertables s)"

definition lease_frame :: "catalog \<Rightarrow> catalog \<Rightarrow> bool" where
  "lease_frame s0 s \<longleftrightarrow> leases s = leases s0 \<and> lease_generation_seq s = lease_generation_seq s0"

definition frame :: "catalog \<Rightarrow> catalog \<Rightarrow> bool" where
  "frame s0 s \<longleftrightarrow> log_frame s0 s \<and> lease_frame s0 s"

lemma log_frame_refl: "log_frame s s"
  unfolding log_frame_def by (auto intro!: exI [of _ pr_purged_at] map_idI [symmetric])

lemma frame_refl: "frame s s"
  by (simp add: frame_def log_frame_refl lease_frame_def)

lemma frame_rollback: "frame s0 s \<Longrightarrow> frame s0 s' \<Longrightarrow> frame s0 (rollback s s')"
  by (auto simp: frame_def log_frame_def lease_frame_def)

lemma frame_same_log:
  assumes "frame s0 s" "commits t = commits s" "commit_seq t = commit_seq s" "part_seq t = part_seq s"
    "parts t = parts s" "ingest_offsets t = ingest_offsets s" "hypertables t = hypertables s"
    "leases t = leases s" "lease_generation_seq t = lease_generation_seq s"
  shows "frame s0 t"
  using assms by (simp add: frame_def log_frame_def lease_frame_def)

lemma keepsI: "(\<And>s. P s \<Longrightarrow> P (fst (m s))) \<Longrightarrow> keeps P m"
  by (simp add: keeps_def)

lemma frame_cursor: "keeps (frame s0) (set_cursor env worker ht c)"
  unfolding set_cursor_def
  by (intro keeps_exec_auto keepsI, rule frame_same_log, assumption)
    (auto simp: set_cursor_stmt_def split: option.splits)

lemma frame_trans:
  assumes "frame s0 s" "frame s t"
  shows "frame s0 t"
proof -
  from assms(1) obtain f where f: "parts s = map (\<lambda>p. p\<lparr>pr_purged_at := f p\<rparr>) (parts s0)"
    unfolding frame_def log_frame_def by blast
  from assms(2) obtain g where g: "parts t = map (\<lambda>p. p\<lparr>pr_purged_at := g p\<rparr>) (parts s)"
    unfolding frame_def log_frame_def by blast
  from f g have "parts t = map (\<lambda>p. p\<lparr>pr_purged_at := g (p\<lparr>pr_purged_at := f p\<rparr>)\<rparr>) (parts s0)" by simp
  then have "\<exists>f. parts t = map (\<lambda>p. p\<lparr>pr_purged_at := f p\<rparr>) (parts s0)"
    by (rule exI [of _ "\<lambda>p. g (p\<lparr>pr_purged_at := f p\<rparr>)"])
  with assms show ?thesis unfolding frame_def log_frame_def lease_frame_def by (auto dest: order.trans)
qed

lemma keeps_frameI: "(\<And>s. frame s (fst (m s))) \<Longrightarrow> keeps (frame s0) m"
  using frame_trans by (auto simp: keeps_def)

lemma frame_purge: "keeps (frame s0) (mark_purged env ids)"
  unfolding mark_purged_def
proof (intro keeps_exec_auto keeps_frameI)
  fix s :: catalog
  let ?ps = "map (\<lambda>p. if pr_id p \<in> set ids then p\<lparr>pr_purged_at := Some (env_now env)\<rparr> else p) (parts s)"
  have "?ps = map (\<lambda>p. p\<lparr>pr_purged_at := if pr_id p \<in> set ids then Some (env_now env) else pr_purged_at p\<rparr>) (parts s)"
    by (rule map_cong) simp_all
  then have "\<exists>f. ?ps = map (\<lambda>p. p\<lparr>pr_purged_at := f p\<rparr>) (parts s)"
    by (rule exI [of _ "\<lambda>p. if pr_id p \<in> set ids then Some (env_now env) else pr_purged_at p"])
  then show "frame s (fst (s\<lparr>parts := ?ps\<rparr>, Inr ()))"
    unfolding frame_def log_frame_def lease_frame_def by simp
qed

lemma frame_register: "keeps (frame s0) (register_pending_objects env ht paths)"
proof -
  have "keeps (frame s0) (\<lambda>s.
        let rows = insert_pending env ht paths (pending_objects s) in
        if rows \<noteq> pending_objects s \<and> \<not> hypertable_exists s ht then (s, Inl fk_violation)
        else (s\<lparr>pending_objects := rows\<rparr>, Inr ()))"
    by (rule keepsI) (auto simp: Let_def elim: frame_same_log)
  then show ?thesis by (simp add: register_pending_objects_def keeps_exec_auto)
qed

lemma frame_clear: "keeps (frame s0) (clear_pending_objects env paths)"
proof -
  have "keeps (frame s0) (\<lambda>s.
        (s\<lparr>pending_objects := filter (\<lambda>r. po_path r \<notin> set paths) (pending_objects s)\<rparr>, Inr ()))"
    by (rule keepsI) (auto elim: frame_same_log)
  then show ?thesis by (simp add: clear_pending_objects_def keeps_exec_auto)
qed

lemma frame_hypertable: "keeps (frame s0) (create_hypertable env name sch spec sk pk)"
proof -
  have "keeps (frame s0) (\<lambda>s.
      let i = hypertable_seq s + 1; s1 = s\<lparr>hypertable_seq := i\<rparr> in
      if list_ex (\<lambda>h. hr_name h = name) (hypertables s) then (s1, Inl unique_violation)
      else (s1\<lparr>hypertables := hypertables s @
             [\<lparr>hr_id = i, hr_name = name, hr_schema = sch, hr_partition_spec = spec,
               hr_sort_key = sk, hr_packing_key = pk, hr_target_file_bytes = None\<rparr>]\<rparr>, Inr i))"
    by (rule keepsI) (auto simp: Let_def frame_def log_frame_def lease_frame_def)
  then show ?thesis by (simp add: create_hypertable_def keeps_exec_auto split: sum.split)
qed

lemma frame_logical: "keeps (frame s0) (create_logical_table env ns name ht)"
  unfolding create_logical_table_def
  by (rule keeps_exec_auto, rule keepsI) (auto simp: Let_def elim: frame_same_log)

lemma frame_placement: "keeps (frame s0) (set_placement env ht pl)"
  unfolding set_placement_def
proof (intro keeps_exec_auto keeps_frameI)
  fix s :: catalog
  let ?hs = "map (\<lambda>h. if hr_id h = ht then h\<lparr>hr_target_file_bytes := placement_to_db pl\<rparr> else h) (hypertables s)"
  have "map hr_id ?hs = map hr_id (hypertables s)" by simp
  then have "hr_id ` set ?hs = hr_id ` set (hypertables s)" by (metis list.set_map)
  moreover have "log_frame s s" by (rule log_frame_refl)
  ultimately have "frame s (s\<lparr>hypertables := ?hs\<rparr>)"
    unfolding frame_def log_frame_def lease_frame_def by simp
  then show "frame s (fst (let v = placement_to_db pl in
       if list_ex (\<lambda>h. hr_id h = ht) (hypertables s) \<and> (case v of None \<Rightarrow> False | Some n \<Rightarrow> n < 0)
       then (s, Inl (Db (Database (Some ''23514''))))
       else (s\<lparr>hypertables := map (\<lambda>h. if hr_id h = ht then h\<lparr>hr_target_file_bytes := v\<rparr> else h) (hypertables s)\<rparr>,
             Inr ())))"
    by (simp add: Let_def frame_refl)
qed

lemma keeps_lift: "keeps P (lift_result r)"
  by (simp add: lift_result_def split: sum.splits)

lemma frame_stream: "keeps (frame s0) (ensure_stream_table env def)"
proof -
  have i: "keeps (frame s0) (insert_stream def)"
    by (rule keepsI, erule frame_same_log) (auto simp: insert_stream_def Let_def)
  have l: "keeps (frame s0) (\<lambda>s. (s\<lparr>ingest_offsets := map (\<lambda>r. if io_topic r = tp \<and> io_stream r = None
        then r\<lparr>io_stream := Some k\<rparr> else r) (ingest_offsets s)\<rparr>, Inr x))" for k tp and x :: stream_table
  proof (rule keepsI)
    fix s assume f: "frame s0 s"
    have "map strip_stream (map (\<lambda>r. if io_topic r = tp \<and> io_stream r = None
        then r\<lparr>io_stream := Some k\<rparr> else r) (ingest_offsets s)) = map strip_stream (ingest_offsets s)"
      unfolding map_map by (rule map_cong) (simp_all add: strip_stream_def)
    with f show "frame s0 (fst (s\<lparr>ingest_offsets := map (\<lambda>r. if io_topic r = tp \<and> io_stream r = None
        then r\<lparr>io_stream := Some k\<rparr> else r) (ingest_offsets s)\<rparr>, Inr x))"
      by (auto simp: frame_def log_frame_def lease_frame_def)
  qed
  show ?thesis
    unfolding ensure_stream_table_def
    by (auto intro!: keeps_transact keeps_bind keeps_exec i l keeps_lift frame_rollback
        split: sum.splits option.splits)
qed

lemma frame_pipeline: "keeps (frame s0) (ensure_pipeline env def)"
proof -
  have "keeps (frame s0) (insert_pipeline def)"
    by (rule keepsI, erule frame_same_log) (auto simp: insert_pipeline_def Let_def)
  then have "keeps (frame s0) (register_pipeline env def)"
    unfolding register_pipeline_def
    by (auto intro!: keeps_bind keeps_exec keeps_lift split: endpoint.split)
  then show ?thesis
    unfolding ensure_pipeline_def
    by (auto intro!: keeps_transact keeps_bind keeps_lift frame_rollback split: option.split)
qed

lemma frame_mv_cursor: "keeps (frame s0) (ensure_mv_cursor env i)"
proof -
  have "keeps (frame s0) (insert_cursor_stmt w ht h)" for w ht h
    by (rule keepsI, erule frame_same_log) (auto simp: insert_cursor_stmt_def)
  moreover have "keeps (frame s0) (feed_head_in_tx env ht)" for ht
    by (simp add: keeps_def feed_head_in_tx_state)
  ultimately show ?thesis
    unfolding ensure_mv_cursor_def
    by (auto intro!: keeps_transact keeps_bind keeps_exec frame_rollback split: option.split)
qed

lemma frame_arm: "frame s (arm_commit_fault f s)"
  by (rule frame_same_log [OF frame_refl]) (simp_all add: arm_commit_fault_def)

lemma keeps_frameD: "(\<And>s0. keeps (frame s0) m) \<Longrightarrow> frame s (fst (m s))"
  using frame_refl by (auto simp: keeps_def)

lemma log_frame_lease_ops:
  "log_frame s (fst (try_acquire_compaction_lease env ht pv ow ttl s))"
  "log_frame s (fst (renew_compaction_lease env l ttl s))"
  "log_frame s (fst (release_compaction_lease env l s))"
proof -
  have same: "log_frame s t" if "commits t = commits s" "commit_seq t = commit_seq s" "part_seq t = part_seq s"
    "parts t = parts s" "ingest_offsets t = ingest_offsets s" "hypertables t = hypertables s" for t
    using log_frame_refl [of s] that by (simp add: log_frame_def)
  show "log_frame s (fst (try_acquire_compaction_lease env ht pv ow ttl s))"
    by (rule same) (auto simp: try_acquire_compaction_lease_def tx_fail_def exec_auto_def acquire_stmt_def Let_def
        split: sum.splits option.splits)
  show "log_frame s (fst (renew_compaction_lease env l ttl s))"
    by (rule same) (auto simp: renew_compaction_lease_def tx_fail_def exec_auto_def renew_stmt_def Let_def
        split: sum.splits option.splits)
  show "log_frame s (fst (release_compaction_lease env l s))"
    by (rule same) (auto simp: release_compaction_lease_def exec_auto_def split: option.splits)
qed

lemmas frame_ops =
  keeps_frameD [OF frame_cursor] keeps_frameD [OF frame_purge] keeps_frameD [OF frame_register]
  keeps_frameD [OF frame_clear] keeps_frameD [OF frame_hypertable] keeps_frameD [OF frame_logical]
  keeps_frameD [OF frame_placement] keeps_frameD [OF frame_stream] keeps_frameD [OF frame_pipeline]
  keeps_frameD [OF frame_mv_cursor] frame_arm

text \<open>Every step is a commit, or leaves the log alone; and every step is a lease step.\<close>

lemma catalog_step_cases:
  assumes "catalog_step Q s s'"
  obtains (commit) env de ht op identity offsets lease r
    where "Q offsets" "commit_txn env de ht op identity offsets lease s = (s', r)"
  | (frame) "log_frame s s'"
proof -
  have *: "(\<exists>env de ht op identity offsets lease r. Q offsets \<and>
      commit_txn env de ht op identity offsets lease s = (s', r)) \<or> log_frame s s'"
    using assms
  proof cases
    case (commit offsets env de ht op identity lease)
    then show ?thesis by (metis prod.collapse)
  qed (auto simp: log_frame_lease_ops intro: frame_ops [unfolded frame_def, THEN conjunct1])
  then show thesis using commit frame by blast
qed

lemma took_effect_leases:
  "took_effect env de ht op identity offsets lease s s' \<Longrightarrow>
     leases s' = leases s \<and> lease_generation_seq s' = lease_generation_seq s"
  by (auto simp: took_effect_def applied_def Let_def)

lemma frame_lease_step: "frame s s' \<Longrightarrow> lease_step s s'"
  by (rule lease_step.other) (simp_all add: frame_def lease_frame_def)

lemma catalog_step_lease: "catalog_step Q s s' \<Longrightarrow> lease_step s s'"
proof (induction rule: catalog_step.induct)
  case (commit offsets s env de ht op identity lease)
  obtain s' r where e: "commit_txn env de ht op identity offsets lease s = (s', r)" by force
  then have "lease_step s s'"
    by (cases rule: commit_txn_cases)
      (auto intro!: lease_step.other simp: same_tables_def seqs_le_def dest: took_effect_leases)
  then show ?case by (simp add: e)
qed (auto intro: lease_step.intros frame_lease_step frame_ops)

section \<open>Well-formed logs\<close>

definition wf_commits :: "catalog \<Rightarrow> bool" where
  "wf_commits s \<longleftrightarrow> sorted_wrt (<) (map cm_id (commits s)) \<and> 0 \<le> commit_seq s \<and>
     (\<forall>c \<in> set (commits s). 0 < cm_id c \<and> cm_id c \<le> commit_seq s \<and>
        cm_hypertable c \<in> hr_id ` set (hypertables s)) \<and>
     (\<forall>c \<in> set (commits s). \<forall>c' \<in> set (commits s).
        cm_key c \<noteq> None \<and> cm_key c = cm_key c' \<and> cm_hypertable c = cm_hypertable c' \<longrightarrow> c = c')"

definition has_commit :: "commit_row list \<Rightarrow> commit_id \<Rightarrow> hypertable_id \<Rightarrow> bool" where
  "has_commit cs i ht \<longleftrightarrow> (\<exists>c \<in> set cs. cm_id c = i \<and> cm_hypertable c = ht)"

definition part_ok :: "commit_row list \<Rightarrow> part_row \<Rightarrow> bool" where
  "part_ok cs p \<longleftrightarrow> has_commit cs (pr_created_by p) (pr_hypertable p) \<and>
     (\<forall>d. pr_deleted_by p = Some d \<longrightarrow> pr_created_by p < d \<and> has_commit cs d (pr_hypertable p))"

definition wf_parts :: "catalog \<Rightarrow> bool" where
  "wf_parts s \<longleftrightarrow> sorted_wrt (<) (map pr_id (parts s)) \<and> 0 \<le> part_seq s \<and>
     (\<forall>p \<in> set (parts s). 0 < pr_id p \<and> pr_id p \<le> part_seq s \<and> part_ok (commits s) p)"

definition wf_offsets :: "catalog \<Rightarrow> bool" where
  "wf_offsets s \<longleftrightarrow> distinct (map offset_key (ingest_offsets s))"

definition wf_log :: "catalog \<Rightarrow> bool" where
  "wf_log s \<longleftrightarrow> wf_commits s \<and> wf_parts s \<and> wf_offsets s"

lemma wf_log_same_tables: "wf_log s \<Longrightarrow> same_tables s s' \<Longrightarrow> seqs_le s s' \<Longrightarrow> wf_log s'"
  by (fastforce simp: wf_log_def wf_commits_def wf_parts_def wf_offsets_def same_tables_def seqs_le_def)

lemma wf_log_frame:
  assumes "wf_log s" "log_frame s s'"
  shows "wf_log s'"
proof -
  from assms(2) obtain f where p: "parts s' = map (\<lambda>p. p\<lparr>pr_purged_at := f p\<rparr>) (parts s)"
    unfolding log_frame_def by blast
  have keys: "map offset_key (map strip_stream rs) = map offset_key rs" for rs
    by (simp add: strip_stream_def offset_key_def)
  from assms(2) have "map offset_key (map strip_stream (ingest_offsets s'))
      = map offset_key (map strip_stream (ingest_offsets s))" by (simp only: log_frame_def)
  then have "map offset_key (ingest_offsets s') = map offset_key (ingest_offsets s)" by (simp only: keys)
  then have "wf_offsets s'" using assms(1) by (simp add: wf_log_def wf_offsets_def)
  moreover have "wf_commits s'" using assms unfolding wf_log_def wf_commits_def log_frame_def by auto
  moreover have "wf_parts s'"
  proof -
    have "map pr_id (parts s') = map pr_id (parts s)" by (simp add: p)
    moreover have "part_ok cs (p\<lparr>pr_purged_at := t\<rparr>) = part_ok cs p" for cs p t by (simp add: part_ok_def)
    then have "\<forall>q \<in> set (parts s'). 0 < pr_id q \<and> pr_id q \<le> part_seq s \<and> part_ok (commits s) q"
      using assms(1) by (simp add: p wf_log_def wf_parts_def)
    ultimately show ?thesis
      using assms unfolding wf_log_def wf_parts_def log_frame_def by simp
  qed
  ultimately show ?thesis by (simp add: wf_log_def)
qed

lemma map_pr_id_tombstone [simp]: "map pr_id (tombstone_rows ht cid ids rows) = map pr_id rows"
  by (simp add: tombstone_rows_def)

lemma map_pr_id_new_rows: "map pr_id (new_rows de ht cid seq ps) = [seq + 1 .. seq + int (length ps)]"
proof (induction ps arbitrary: seq)
  case (Cons p ps)
  have "[seq + 1 .. seq + int (length (p # ps))] = (seq + 1) # [seq + 1 + 1 .. seq + 1 + int (length ps)]"
    by (subst upto_rec1) (simp_all add: algebra_simps)
  with Cons show ?case by (simp add: new_rows_Cons part_row_of_def)
qed simp

lemma new_rows_mem: "p \<in> set (new_rows de ht cid seq ps) \<Longrightarrow>
    pr_hypertable p = ht \<and> pr_created_by p = cid \<and> pr_deleted_by p = None \<and> pr_meta p \<in> set ps
    \<and> pr_purged_at p = None \<and> seq < pr_id p \<and> pr_id p \<le> seq + int (length ps)
    \<and> pr_key_filter p = key_filter de (pr_meta p)"
proof (induction ps arbitrary: seq)
  case (Cons q ps)
  then show ?case by (fastforce simp: new_rows_Cons part_row_of_def)
qed simp

lemma keyed_commit_None:
  "keyed_commit s ht key = None \<longleftrightarrow> (\<forall>c \<in> set (commits s). \<not> (cm_hypertable c = ht \<and> cm_key c = Some key))"
  by (auto simp: keyed_commit_def find_None_iff)

lemma hypertable_exists_iff: "hypertable_exists s ht \<longleftrightarrow> ht \<in> hr_id ` set (hypertables s)"
  by (auto simp: hypertable_exists_def list_ex_iff)

lemma applied_simps [simp]:
  "commits (applied env de ht op identity rows s) = commits s @ [commit_row_of env ht op identity (commit_seq s + 1)]"
  "commit_seq (applied env de ht op identity rows s) = commit_seq s + 1"
  "parts (applied env de ht op identity rows s) = tombstone_rows ht (commit_seq s + 1) (op_inputs op) (parts s)
     @ new_rows de ht (commit_seq s + 1) (part_seq s) (op_outputs op)"
  "part_seq (applied env de ht op identity rows s) = part_seq s + int (length (op_outputs op))"
  "ingest_offsets (applied env de ht op identity rows s) = rows"
  "hypertables (applied env de ht op identity rows s) = hypertables s"
  "pending_objects (applied env de ht op identity rows s) =
     filter (\<lambda>r. po_path r \<notin> path ` set (op_outputs op)) (pending_objects s)"
  "worker_cursors (applied env de ht op identity rows s) = worker_cursors s"
  "leases (applied env de ht op identity rows s) = leases s"
  by (simp_all add: applied_def Let_def)

lemma wf_commits_applied:
  assumes "wf_commits s" "\<not> key_taken s ht identity" "hypertable_exists s ht"
  shows "wf_commits (applied env de ht op identity rows s)"
proof -
  have sorted: "sorted_wrt (<) (map cm_id (commits s @ [commit_row_of env ht op identity (commit_seq s + 1)]))"
    using assms(1) by (auto simp: wf_commits_def sorted_wrt_append commit_row_of_def)
  have "\<not> (cm_key c = map_option oi_key identity \<and> cm_key c \<noteq> None \<and> cm_hypertable c = ht)"
    if "c \<in> set (commits s)" for c
    using assms(2) that by (cases identity) (auto simp: key_taken_def keyed_commit_None)
  note nokey = this
  have row: "cm_id (commit_row_of env ht op identity n) = n" "cm_hypertable (commit_row_of env ht op identity n) = ht"
    "cm_key (commit_row_of env ht op identity n) = map_option oi_key identity" for n
    by (simp_all add: commit_row_of_def)
  have "\<forall>c \<in> set (commits s @ [commit_row_of env ht op identity (commit_seq s + 1)]).
      0 < cm_id c \<and> cm_id c \<le> commit_seq s + 1 \<and> cm_hypertable c \<in> hr_id ` set (hypertables s)"
  proof
    fix c assume "c \<in> set (commits s @ [commit_row_of env ht op identity (commit_seq s + 1)])"
    then consider "c \<in> set (commits s)" | "c = commit_row_of env ht op identity (commit_seq s + 1)" by auto
    then show "0 < cm_id c \<and> cm_id c \<le> commit_seq s + 1 \<and> cm_hypertable c \<in> hr_id ` set (hypertables s)"
      using assms(1,3) by cases (auto simp: wf_commits_def hypertable_exists_iff row)
  qed
  moreover have "c = c'" if "c \<in> set (commits s @ [commit_row_of env ht op identity (commit_seq s + 1)])"
    "c' \<in> set (commits s @ [commit_row_of env ht op identity (commit_seq s + 1)])"
    "cm_key c \<noteq> None" "cm_key c = cm_key c'" "cm_hypertable c = cm_hypertable c'" for c c'
  proof (cases "c \<in> set (commits s) \<and> c' \<in> set (commits s)")
    case True
    with that assms(1) show ?thesis unfolding wf_commits_def by blast
  next
    case False
    with that nokey [of c] nokey [of c'] show ?thesis by (auto simp: row)
  qed
  ultimately show ?thesis
    using assms(1) sorted unfolding wf_commits_def applied_simps by auto
qed

lemma has_commit_append: "has_commit cs i ht \<Longrightarrow> has_commit (cs @ ds) i ht"
  by (auto simp: has_commit_def)

lemma wf_parts_applied:
  assumes "wf_commits s" "wf_parts s"
  shows "wf_parts (applied env de ht op identity rows s)"
proof -
  let ?cid = "commit_seq s + 1" and ?cs = "commits (applied env de ht op identity rows s)"
  have new: "has_commit ?cs ?cid ht" by (auto simp: has_commit_def commit_row_of_def)
  have old: "part_ok ?cs q" if "p \<in> set (parts s)" "q = p \<or> tombstone_hit ht ids p \<and> q = p\<lparr>pr_deleted_by := Some ?cid\<rparr>"
    for p q ids
  proof -
    have ok: "part_ok (commits s) p" using assms(2) that(1) by (simp add: wf_parts_def)
    then obtain c where "c \<in> set (commits s)" "cm_id c = pr_created_by p" by (auto simp: part_ok_def has_commit_def)
    then have "pr_created_by p < ?cid" using assms(1) by (auto simp: wf_commits_def)
    with ok that(2) new show ?thesis
      by (auto simp: part_ok_def tombstone_hit_def intro: has_commit_append)
  qed
  have "sorted_wrt (<) (map pr_id (parts (applied env de ht op identity rows s)))"
    using assms(2) by (auto simp: wf_parts_def sorted_wrt_append map_pr_id_new_rows)
  moreover have "part_ok ?cs p \<and> 0 < pr_id p \<and> pr_id p \<le> part_seq s + int (length (op_outputs op))"
    if "p \<in> set (tombstone_rows ht ?cid (op_inputs op) (parts s))" for p
  proof -
    from that obtain q where q: "q \<in> set (parts s)"
      "p = q \<or> tombstone_hit ht (op_inputs op) q \<and> p = q\<lparr>pr_deleted_by := Some ?cid\<rparr>"
      by (auto simp: tombstone_rows_def split: if_splits)
    from q assms(2) have "0 < pr_id p \<and> pr_id p \<le> part_seq s" by (auto simp: wf_parts_def)
    with old [OF q] show ?thesis by auto
  qed
  moreover have "part_ok ?cs p \<and> 0 < pr_id p \<and> pr_id p \<le> part_seq s + int (length (op_outputs op))"
    if "p \<in> set (new_rows de ht ?cid (part_seq s) (op_outputs op))" for p
    using new_rows_mem [OF that] new assms(2) by (auto simp: part_ok_def wf_parts_def)
  moreover have "0 \<le> part_seq s" using assms(2) by (simp add: wf_parts_def)
  ultimately show ?thesis unfolding wf_parts_def by auto
qed

lemma upsert_offset_distinct:
  "upsert_offset ht r rows = Some rows' \<Longrightarrow> distinct (map offset_key rows) \<Longrightarrow> distinct (map offset_key rows')"
proof (cases "offset_at rows (range_key ht r)")
  case None
  assume u: "upsert_offset ht r rows = Some rows'" "distinct (map offset_key rows)"
  from None have "range_key ht r \<notin> offset_key ` set rows" by (auto simp: offset_at_def find_None_iff)
  with u None show ?thesis by (auto simp: upsert_offset_def offset_key_def range_key_def)
next
  case (Some x)
  assume u: "upsert_offset ht r rows = Some rows'" "distinct (map offset_key rows)"
  then have "rows' = map (\<lambda>x. if offset_key x = range_key ht r
      then x\<lparr>io_next := wrap_i64 (or_last r + 1)\<rparr> else x) rows"
    using Some by (simp add: upsert_offset_def split: if_splits)
  then have "map offset_key rows' = map offset_key rows" by (simp add: offset_key_def)
  with u show ?thesis by simp
qed

lemma upsert_all_distinct:
  "upsert_all ht rs rows = Some rows' \<Longrightarrow> distinct (map offset_key rows) \<Longrightarrow> distinct (map offset_key rows')"
proof (induction rs arbitrary: rows)
  case (Cons r rs)
  then show ?case by (auto simp: bind_eq_Some_conv intro: upsert_offset_distinct)
qed simp

lemma wf_log_took_effect:
  assumes "wf_log s" "took_effect env de ht op identity offsets lease s s'"
  shows "wf_log s'"
proof -
  from assms(2) obtain rows f where e: "upsert_all ht offsets (ingest_offsets s) = Some rows"
    "s' = (applied env de ht op identity rows s)\<lparr>armed_fault := f\<rparr>"
    and k: "\<not> key_taken s ht identity" "hypertable_exists s ht"
    by (auto simp: took_effect_def)
  have "wf_log (applied env de ht op identity rows s)"
    using assms(1) wf_commits_applied [of s ht identity env de op rows] wf_parts_applied [of s env de ht op identity rows]
      k upsert_all_distinct [OF e(1)]
    by (simp add: wf_log_def wf_offsets_def)
  moreover have "wf_log (t\<lparr>armed_fault := f\<rparr>) = wf_log t" for t
    by (simp add: wf_log_def wf_commits_def wf_parts_def wf_offsets_def)
  ultimately show ?thesis using e by simp
qed

lemma catalog_step_wf_log: "catalog_step Q s s' \<Longrightarrow> wf_log s \<Longrightarrow> wf_log s'"
proof (erule catalog_step_cases)
  fix env de ht op identity offsets lease r
  assume "commit_txn env de ht op identity offsets lease s = (s', r)" "wf_log s"
  then show ?thesis
    by (cases rule: commit_txn_cases) (auto intro: wf_log_same_tables wf_log_took_effect)
qed (auto intro: wf_log_frame)

end
