(* ===== verification/CommitSafety.thy ===== *)
theory CommitSafety
  imports CatalogRun
begin

text \<open>
  What a commit promises, over arbitrary runs of the catalog: its effect on the live set,
  atomicity, exactly-once application of an identified operation, decidable ambiguity,
  parts consumed at most once, offsets consumed at most once, and the lease fence.
\<close>

section \<open>Live inputs\<close>

definition live_ids :: "catalog \<Rightarrow> hypertable_id \<Rightarrow> part_id set" where
  "live_ids s ht = pr_id ` {p \<in> set (parts s). pr_hypertable p = ht \<and> live p}"

lemma hits_card:
  assumes "wf_parts s"
  shows "length (filter (tombstone_hit ht ids) (parts s)) = card (set ids \<inter> live_ids s ht)"
proof -
  define H where "H = filter (tombstone_hit ht ids) (parts s)"
  have d: "distinct (map pr_id H)"
    using assms by (auto simp: H_def wf_parts_def strict_sorted_iff distinct_map_filter)
  have "set (map pr_id H) = set ids \<inter> live_ids s ht"
    by (auto simp: H_def tombstone_hit_def live_ids_def)
  with distinct_card [OF d] show ?thesis by (simp add: H_def)
qed

lemma subset_count: "card (set ids \<inter> A) = length ids \<longleftrightarrow> distinct ids \<and> set ids \<subseteq> A"
proof
  have le: "card (set ids \<inter> A) \<le> card (set ids)" by (rule card_mono) auto
  assume "card (set ids \<inter> A) = length ids"
  with le card_length [of ids] have "card (set ids) = length ids" "card (set ids \<inter> A) = card (set ids)"
    by simp_all
  then show "distinct ids \<and> set ids \<subseteq> A"
    using card_distinct card_subset_eq [of "set ids" "set ids \<inter> A"] by auto
next
  assume "distinct ids \<and> set ids \<subseteq> A"
  then show "card (set ids \<inter> A) = length ids"
    using distinct_card [of ids] by (simp add: Int_absorb2)
qed

lemma inputs_live_iff:
  "wf_parts s \<Longrightarrow> inputs_live s ht ids \<longleftrightarrow> distinct ids \<and> set ids \<subseteq> live_ids s ht"
  using subset_count [of ids "live_ids s ht"] by (simp add: hits_card inputs_live_def)

lemma part_by_id: "wf_parts s \<Longrightarrow> p \<in> set (parts s) \<Longrightarrow> q \<in> set (parts s) \<Longrightarrow> pr_id p = pr_id q \<Longrightarrow> p = q"
  by (auto simp: wf_parts_def strict_sorted_iff distinct_map dest: inj_onD)

lemma live_ids_applied:
  assumes "wf_parts s" "set (op_inputs op) \<subseteq> live_ids s ht"
  shows "live_ids (applied env de ht op identity rows s) h =
    (if h = ht then live_ids s ht - set (op_inputs op) \<union> {part_seq s + 1 .. part_seq s + int (length (op_outputs op))}
     else live_ids s h)"
proof -
  let ?cid = "commit_seq s + 1"
  let ?old = "tombstone_rows ht ?cid (op_inputs op) (parts s)" and ?new = "new_rows de ht ?cid (part_seq s) (op_outputs op)"
  have old: "pr_id ` {p \<in> set ?old. pr_hypertable p = h \<and> live p}
      = (if h = ht then live_ids s ht - set (op_inputs op) else live_ids s h)"
  proof -
    have "{p \<in> set ?old. pr_hypertable p = h \<and> live p}
        = {p \<in> set (parts s). pr_hypertable p = h \<and> live p \<and> \<not> tombstone_hit ht (op_inputs op) p}"
      by (auto simp: tombstone_rows_def live_def split: if_splits)
    also have "pr_id ` \<dots> = (if h = ht then live_ids s ht - set (op_inputs op) else live_ids s h)"
    proof (cases "h = ht")
      case True
      have "i \<notin> set (op_inputs op)" if "p \<in> set (parts s)" "pr_id p = i" "\<not> tombstone_hit ht (op_inputs op) p"
        "pr_hypertable p = ht" "live p" for i p
        using that by (auto simp: tombstone_hit_def)
      with True show ?thesis by (auto simp: live_ids_def tombstone_hit_def)
    next
      case False
      then show ?thesis by (auto simp: live_ids_def tombstone_hit_def)
    qed
    finally show ?thesis .
  qed
  have "pr_hypertable p = ht \<and> live p" if "p \<in> set ?new" for p
    using new_rows_mem [OF that] by (simp add: live_def)
  then have "{p \<in> set ?new. pr_hypertable p = h \<and> live p} = (if h = ht then set ?new else {})" by auto
  moreover have "pr_id ` set ?new = {part_seq s + 1 .. part_seq s + int (length (op_outputs op))}"
    using map_pr_id_new_rows [of de ht ?cid "part_seq s" "op_outputs op"] by (metis list.set_map set_upto)
  moreover have "live_ids (applied env de ht op identity rows s) h
      = pr_id ` {p \<in> set ?old. pr_hypertable p = h \<and> live p} \<union> pr_id ` {p \<in> set ?new. pr_hypertable p = h \<and> live p}"
    by (auto simp: live_ids_def)
  ultimately show ?thesis by (simp add: old)
qed

lemma armed_fault_irrelevant [simp]:
  "live_ids (s\<lparr>armed_fault := f\<rparr>) h = live_ids s h"
  "keyed_commit (s\<lparr>armed_fault := f\<rparr>) h k = keyed_commit s h k"
  by (simp_all add: live_ids_def keyed_commit_def)

section \<open>Recorded operations\<close>

lemma find_append_Some: "find P xs = Some x \<Longrightarrow> find P (xs @ ys) = Some x"
  by (induction xs) (auto split: if_splits)

lemma catalog_step_commits:
  assumes "catalog_step Q s s'"
  shows "\<exists>new. commits s' = commits s @ new"
  using assms
proof (cases rule: catalog_step_cases)
  case (commit env de ht op identity offsets lease r)
  from commit(2) show ?thesis
    by (cases rule: commit_txn_cases) (auto simp: same_tables_def took_effect_def)
qed (auto simp: log_frame_def)

lemma run_commits: "(catalog_step Q)\<^sup>*\<^sup>* s t \<Longrightarrow> \<exists>new. commits t = commits s @ new"
  by (induction rule: rtranclp_induct) (fastforce dest: catalog_step_commits)+

lemma run_wf_log: "(catalog_step Q)\<^sup>*\<^sup>* s t \<Longrightarrow> wf_log s \<Longrightarrow> wf_log t"
  by (induction rule: rtranclp_induct) (auto intro: catalog_step_wf_log)

lemma run_keyed: "(catalog_step Q)\<^sup>*\<^sup>* s t \<Longrightarrow> keyed_commit s ht k = Some c \<Longrightarrow> keyed_commit t ht k = Some c"
  using run_commits [of Q s t] by (auto simp: keyed_commit_def find_append_Some)

lemma run_lease: "(catalog_step Q)\<^sup>*\<^sup>* s t \<Longrightarrow> lease_step\<^sup>*\<^sup>* s t"
  by (induction rule: rtranclp_induct) (auto intro: catalog_step_lease rtranclp.rtrancl_into_rtrancl)

text \<open>An operation is recorded under a commit id.\<close>

definition recorded :: "catalog \<Rightarrow> operation_identity \<Rightarrow> commit_id \<Rightarrow> bool" where
  "recorded s i c \<longleftrightarrow> operation_row i s = Some (c, Some (oi_fingerprint i))"

lemma recorded_reconcile: "recorded s i c \<Longrightarrow> reconcile i (operation_row i s) = Inr (Some c)"
  by (simp add: recorded_def reconcile_def)

lemma reconcile_recorded: "reconcile i (operation_row i s) = Inr (Some c) \<longleftrightarrow> recorded s i c"
  by (auto simp: recorded_def reconcile_def split: option.splits if_splits)

lemma recorded_taken: "recorded s i c \<Longrightarrow> key_taken s (oi_hypertable i) (Some i)"
  by (auto simp: recorded_def operation_row_def key_taken_def)

lemma run_recorded: "(catalog_step Q)\<^sup>*\<^sup>* s t \<Longrightarrow> recorded s i c \<Longrightarrow> recorded t i c"
  using run_keyed [of Q s t "oi_hypertable i" "oi_key i"] by (auto simp: recorded_def operation_row_def)

lemma took_effect_records:
  assumes "took_effect env de ht op (Some i) offsets lease s s'"
  shows "recorded s' i (commit_seq s + 1)"
proof -
  from assms have ht: "oi_hypertable i = ht" and no: "keyed_commit s ht (oi_key i) = None"
    by (auto simp: took_effect_def key_taken_def)
  have "find P (xs @ [x]) = Some x" if "find P xs = None" "P x" for P and xs :: "commit_row list" and x
    using that by (induction xs) (auto split: if_splits)
  with no have "keyed_commit s' ht (oi_key i) = Some (commit_row_of env ht op (Some i) (commit_seq s + 1))"
    using assms by (auto simp: took_effect_def keyed_commit_def commit_row_of_def)
  then show ?thesis by (simp add: recorded_def operation_row_def ht commit_row_of_def)
qed

lemma recorded_not_again:
  assumes "recorded s i c"
  shows "\<not> took_effect env de ht op (Some i) offsets lease s s'"
  using recorded_taken [OF assms] by (auto simp: took_effect_def)

lemma recorded_replay:
  assumes "recorded s i c" "env_fail env = (\<lambda>_. None)" "oi_hypertable i = ht"
  shows "\<exists>s'. commit_txn env de ht op (Some i) offsets lease s = (s', Inr (AlreadyApplied c))"
proof -
  have rec: "reconcile i (operation_row i s) = Inr (Some c)" by (rule recorded_reconcile [OF assms(1)])
  have q: "query env st f t = (t, Inr (f t))" for st f and t :: catalog
    by (simp add: query_def assms(2))
  have look: "lookup_in_tx env st i t = (t, Inr (Some c))" if "operation_row i t = operation_row i s" for st t
    by (simp add: lookup_in_tx_def tx_bind_def q that rec tx_lift_simps tx_return_def)
  have "\<exists>t. commit_body env de ht op (Some i) offsets lease s = (t, Inr (AlreadyApplied c))"
  proof (cases lease)
    case None
    have "key_taken s ht (Some i)" using recorded_taken [OF assms(1)] assms(3) by simp
    then have ins: "insert_commit_stmt env ht op (Some i) s = (s\<lparr>commit_seq := commit_seq s + 1\<rparr>, Inr None)"
      by (simp add: insert_commit_None)
    show ?thesis
      by (simp add: commit_body_def lease_gate_def None tx_bind_def q tx_return_def exec_def assms(2) ins
          key_conflict_def look)
  next
    case (Some l)
    then show ?thesis
      by (simp add: commit_body_def lease_gate_def tx_bind_def q look tx_return_def)
  qed
  then show ?thesis using assms(2,3) by (auto simp: commit_txn_def)
qed

section \<open>Parts over time\<close>

definition same_part :: "part_row \<Rightarrow> part_row \<Rightarrow> bool" where
  "same_part p q \<longleftrightarrow> pr_id q = pr_id p \<and> pr_hypertable q = pr_hypertable p \<and> pr_meta q = pr_meta p \<and>
     pr_key_filter q = pr_key_filter p \<and> pr_created_by q = pr_created_by p \<and>
     (\<forall>d. pr_deleted_by p = Some d \<longrightarrow> pr_deleted_by q = Some d)"

lemma same_part_trans: "same_part p q \<Longrightarrow> same_part q r \<Longrightarrow> same_part p r"
  by (auto simp: same_part_def)

lemma tombstone_same_part:
  "p \<in> set rows \<Longrightarrow> \<exists>q \<in> set (tombstone_rows ht cid ids rows). same_part p q"
proof (intro bexI)
  let ?q = "if tombstone_hit ht ids p then p\<lparr>pr_deleted_by := Some cid\<rparr> else p"
  show "same_part p ?q" by (simp add: same_part_def tombstone_hit_def live_def)
  show "p \<in> set rows \<Longrightarrow> ?q \<in> set (tombstone_rows ht cid ids rows)"
    unfolding tombstone_rows_def set_map by (rule image_eqI [of _ _ p]) simp_all
qed

lemma catalog_step_part:
  assumes "catalog_step Q s s'" "p \<in> set (parts s)"
  shows "\<exists>q \<in> set (parts s'). same_part p q"
  using assms(1)
proof (cases rule: catalog_step_cases)
  case (commit env de ht op identity offsets lease r)
  from commit(2) show ?thesis
  proof (cases rule: commit_txn_cases)
    case untouched
    with assms(2) show ?thesis by (auto simp: same_tables_def same_part_def)
  next
    case effect
    then obtain rows f where "s' = (applied env de ht op identity rows s)\<lparr>armed_fault := f\<rparr>"
      by (auto simp: took_effect_def)
    with tombstone_same_part [OF assms(2), of ht "commit_seq s + 1" "op_inputs op"] show ?thesis by auto
  qed
next
  case frame
  then obtain f where "parts s' = map (\<lambda>p. p\<lparr>pr_purged_at := f p\<rparr>) (parts s)" by (auto simp: log_frame_def)
  with assms(2) show ?thesis by (auto simp: same_part_def)
qed

lemma run_part:
  "(catalog_step Q)\<^sup>*\<^sup>* s t \<Longrightarrow> p \<in> set (parts s) \<Longrightarrow> \<exists>q \<in> set (parts t). same_part p q"
proof (induction rule: rtranclp_induct)
  case base
  then show ?case by (auto simp: same_part_def)
next
  case (step t u)
  then show ?case using catalog_step_part same_part_trans by meson
qed

lemma took_effect_tombstones:
  assumes "wf_log s" "took_effect env de ht op identity offsets lease s s'" "i \<in> set (op_inputs op)"
  shows "\<exists>p \<in> set (parts s'). pr_id p = i \<and> pr_deleted_by p = Some (commit_seq s + 1)"
proof -
  from assms have "i \<in> live_ids s ht"
    by (auto simp: took_effect_def wf_log_def inputs_live_iff)
  then obtain p where p: "p \<in> set (parts s)" "pr_id p = i" "pr_hypertable p = ht" "live p"
    by (auto simp: live_ids_def)
  with assms(3) have "tombstone_hit ht (op_inputs op) p" by (simp add: tombstone_hit_def)
  with p(1) have "p\<lparr>pr_deleted_by := Some (commit_seq s + 1)\<rparr>
      \<in> set (tombstone_rows ht (commit_seq s + 1) (op_inputs op) (parts s))"
    by (auto simp: tombstone_rows_def intro!: image_eqI [of _ _ p])
  moreover from assms(2) obtain rows f where "s' = (applied env de ht op identity rows s)\<lparr>armed_fault := f\<rparr>"
    by (auto simp: took_effect_def)
  ultimately show ?thesis using p(2) by (intro bexI [of _ "p\<lparr>pr_deleted_by := Some (commit_seq s + 1)\<rparr>"]) simp_all
qed

section \<open>Offsets over time\<close>

definition next_offset :: "offset_row list \<Rightarrow> hypertable_id \<times> string \<times> i32 \<Rightarrow> i64 option" where
  "next_offset rows k = map_option io_next (offset_at rows k)"

definition consumable :: "offset_range \<Rightarrow> bool" where
  "consumable r \<longleftrightarrow> or_first r \<le> or_last r \<and> in_i64 (or_last r + 1)"

definition reached :: "i64 option \<Rightarrow> i64 \<Rightarrow> bool" where
  "reached n v \<longleftrightarrow> (\<exists>x. n = Some x \<and> v \<le> x)"

lemma wrap_i64_id: "in_i64 v \<Longrightarrow> wrap_i64 v = v"
  by (auto simp: wrap_i64_def in_i64_def)

lemma offset_at_append:
  "offset_at (rows @ [x]) k = (case offset_at rows k of None \<Rightarrow> if offset_key x = k then Some x else None | Some y \<Rightarrow> Some y)"
  by (induction rows) (auto simp: offset_at_def)

lemma offset_at_map:
  "(\<And>x. offset_key (f x) = offset_key x) \<Longrightarrow> offset_at (map f rows) k = map_option f (offset_at rows k)"
  by (induction rows) (auto simp: offset_at_def)

lemma offset_at_Some: "offset_at rows k = Some x \<Longrightarrow> offset_key x = k"
  by (auto simp: offset_at_def find_Some_iff)

lemma upsert_offset_next:
  assumes "upsert_offset ht r rows = Some rows'"
  shows "next_offset rows' k = (if k = range_key ht r then Some (wrap_i64 (or_last r + 1)) else next_offset rows k)
    \<and> (\<forall>x. next_offset rows (range_key ht r) = Some x \<longrightarrow> x \<le> or_first r)"
proof (cases "offset_at rows (range_key ht r)")
  case None
  with assms show ?thesis
    by (auto simp: upsert_offset_def next_offset_def offset_at_append offset_key_def range_key_def split: option.splits)
next
  case (Some y)
  let ?f = "\<lambda>x. if offset_key x = range_key ht r then x\<lparr>io_next := wrap_i64 (or_last r + 1)\<rparr> else x"
  from Some assms have "rows' = map ?f rows" "io_next y \<le> or_first r"
    by (auto simp: upsert_offset_def split: if_splits)
  moreover have "offset_key (?f x) = offset_key x" for x by (simp add: offset_key_def)
  ultimately have "next_offset rows' k = map_option io_next (map_option ?f (offset_at rows k))"
    by (simp add: next_offset_def offset_at_map)
  moreover have "map_option io_next (map_option ?f (offset_at rows k)) =
      (if k = range_key ht r then Some (wrap_i64 (or_last r + 1)) else next_offset rows k)"
    using Some by (cases "offset_at rows k") (auto simp: next_offset_def dest: offset_at_Some)
  ultimately show ?thesis using Some \<open>io_next y \<le> or_first r\<close> by (simp add: next_offset_def)
qed

lemma upsert_offset_reached:
  assumes "upsert_offset ht r rows = Some rows'" "consumable r" "reached (next_offset rows k) v"
  shows "reached (next_offset rows' k) v"
proof (cases "k = range_key ht r")
  case True
  with assms(3) obtain x where "next_offset rows (range_key ht r) = Some x" "v \<le> x" by (auto simp: reached_def)
  with upsert_offset_next [OF assms(1), of k] True assms(2) show ?thesis
    by (auto simp: reached_def consumable_def wrap_i64_id)
qed (use upsert_offset_next [OF assms(1), of k] assms(3) in simp)

lemma upsert_all_reached:
  "upsert_all ht rs rows = Some rows' \<Longrightarrow> \<forall>r \<in> set rs. consumable r \<Longrightarrow> reached (next_offset rows k) v
     \<Longrightarrow> reached (next_offset rows' k) v"
proof (induction rs arbitrary: rows)
  case (Cons r rs)
  from Cons.prems obtain mid where m: "upsert_offset ht r rows = Some mid" "upsert_all ht rs mid = Some rows'"
    by (auto simp: bind_eq_Some_conv)
  have "reached (next_offset mid k) v" using upsert_offset_reached [OF m(1) _ Cons.prems(3)] Cons.prems(2) by simp
  with Cons.IH [OF m(2)] Cons.prems(2) show ?case by simp
qed simp

lemma upsert_all_consumes:
  "upsert_all ht rs rows = Some rows' \<Longrightarrow> \<forall>r \<in> set rs. consumable r \<Longrightarrow> r \<in> set rs
     \<Longrightarrow> reached (next_offset rows' (range_key ht r)) (or_last r + 1)"
proof (induction rs arbitrary: rows)
  case (Cons a rs)
  from Cons.prems obtain mid where m: "upsert_offset ht a rows = Some mid" "upsert_all ht rs mid = Some rows'"
    by (auto simp: bind_eq_Some_conv)
  show ?case
  proof (cases "r = a")
    case True
    have "reached (next_offset mid (range_key ht r)) (or_last r + 1)"
      using upsert_offset_next [OF m(1), of "range_key ht r"] Cons.prems(2) True
      by (auto simp: reached_def consumable_def wrap_i64_id)
    with upsert_all_reached [OF m(2)] Cons.prems(2) show ?thesis by simp
  next
    case False
    with Cons m show ?thesis by simp
  qed
qed simp

lemma upsert_all_requires:
  "upsert_all ht rs rows = Some rows' \<Longrightarrow> \<forall>r \<in> set rs. consumable r \<Longrightarrow> r \<in> set rs
     \<Longrightarrow> reached (next_offset rows (range_key ht r)) v \<Longrightarrow> v \<le> or_first r"
proof (induction rs arbitrary: rows)
  case (Cons a rs)
  from Cons.prems obtain mid where m: "upsert_offset ht a rows = Some mid" "upsert_all ht rs mid = Some rows'"
    by (auto simp: bind_eq_Some_conv)
  show ?case
  proof (cases "r = a")
    case True
    with upsert_offset_next [OF m(1), of "range_key ht r", THEN conjunct2] Cons.prems(4) show ?thesis
      by (fastforce simp: reached_def)
  next
    case False
    with Cons m upsert_offset_reached [OF m(1)] show ?thesis by auto
  qed
qed simp

lemma next_offset_strip: "next_offset (map strip_stream rows) k = next_offset rows k"
proof -
  have "offset_key (strip_stream x) = offset_key x" for x by (simp add: strip_stream_def offset_key_def)
  then have "offset_at (map strip_stream rows) k = map_option strip_stream (offset_at rows k)"
    by (rule offset_at_map)
  then show ?thesis by (cases "offset_at rows k") (simp_all add: next_offset_def strip_stream_def)
qed

lemma catalog_step_reached:
  assumes "catalog_step (list_all consumable) s s'" "reached (next_offset (ingest_offsets s) k) v"
  shows "reached (next_offset (ingest_offsets s') k) v"
  using assms(1)
proof (cases rule: catalog_step_cases)
  case (commit env de ht op identity offsets lease r)
  from commit(2) show ?thesis
  proof (cases rule: commit_txn_cases)
    case untouched
    with assms(2) show ?thesis by (simp add: same_tables_def)
  next
    case effect
    then obtain rows f where "upsert_all ht offsets (ingest_offsets s) = Some rows"
      "s' = (applied env de ht op identity rows s)\<lparr>armed_fault := f\<rparr>"
      by (auto simp: took_effect_def)
    with upsert_all_reached [OF this(1)] commit(1) assms(2) show ?thesis by (simp add: list_all_iff)
  qed
next
  case frame
  then have "map strip_stream (ingest_offsets s') = map strip_stream (ingest_offsets s)" by (simp add: log_frame_def)
  with assms(2) show ?thesis by (metis next_offset_strip)
qed

lemma run_reached:
  "(catalog_step (list_all consumable))\<^sup>*\<^sup>* s t \<Longrightarrow> reached (next_offset (ingest_offsets s) k) v
     \<Longrightarrow> reached (next_offset (ingest_offsets t) k) v"
  by (induction rule: rtranclp_induct) (auto intro: catalog_step_reached)

section \<open>Outcomes without failures\<close>

lemma quiet_stmts:
  assumes "env_fail env = (\<lambda>_. None)"
  shows "exec env st eff = eff" "query env st q = (\<lambda>s. (s, Inr (q s)))"
  by (simp_all add: fun_eq_iff exec_def query_def assms)

lemma insert_part_rows_quiet:
  "env_fail env = (\<lambda>_. None) \<Longrightarrow> snd (insert_part_rows env de ht cid i ps s) = Inr ()"
  by (induction ps arbitrary: i s) (simp_all add: tx_return_def tx_bind_def quiet_stmts)

lemma insert_parts_quiet:
  assumes "env_fail env = (\<lambda>_. None)"
  shows "snd (insert_parts env de ht cid ps s) = Inr ()"
  using insert_part_rows_quiet [OF assms, of de ht cid 0 ps s]
  by (auto simp: insert_parts_def tx_bind_def quiet_stmts assms split: prod.splits sum.splits)

definition hits :: "catalog \<Rightarrow> hypertable_id \<Rightarrow> part_id list \<Rightarrow> nat" where
  "hits s ht ids = length (filter (tombstone_hit ht ids) (parts s))"

lemma tombstone_parts_quiet:
  "env_fail env = (\<lambda>_. None) \<Longrightarrow> snd (tombstone_parts env ht cid ids s) =
     (if inputs_live s ht ids then Inr () else Inl (Conflict (length ids) (hits s ht ids)))"
  by (simp add: tombstone_parts_def quiet_stmts Let_def inputs_live_def hits_def)

lemma apply_op_quiet:
  assumes "env_fail env = (\<lambda>_. None)"
  shows "snd (apply_op env de ht cid op s) =
    (if inputs_live s ht (op_inputs op) then Inr ()
     else Inl (Conflict (length (op_inputs op)) (hits s ht (op_inputs op))))"
proof (cases op)
  case (Replace old new)
  have "snd (tx_bind m f s) = (case snd (m s) of Inl e \<Rightarrow> Inl e | Inr x \<Rightarrow> snd (f x (fst (m s))))"
    for m :: "unit tx" and f :: "unit \<Rightarrow> unit tx"
    by (simp add: tx_bind_def split: prod.split sum.split)
  with Replace tombstone_parts_quiet [OF assms] insert_parts_quiet [OF assms] show ?thesis
    by (simp add: apply_op_def)
qed (simp_all add: apply_op_def insert_parts_quiet tombstone_parts_quiet assms)

text \<open>Offsets as a map from cursors to the next offset: the first range that starts behind
  its cursor, every earlier range already applied.\<close>

fun first_race ::
  "hypertable_id \<Rightarrow> offset_range list \<Rightarrow> (hypertable_id \<times> string \<times> i32 \<Rightarrow> i64 option) \<Rightarrow> offset_range option" where
  "first_race ht [] m = None"
| "first_race ht (r # rs) m =
     (if (case m (range_key ht r) of None \<Rightarrow> False | Some x \<Rightarrow> or_first r < x) then Some r
      else first_race ht rs (m(range_key ht r \<mapsto> wrap_i64 (or_last r + 1))))"

lemma upsert_offset_None:
  "upsert_offset ht r rows = None \<longleftrightarrow>
     (case next_offset rows (range_key ht r) of None \<Rightarrow> False | Some x \<Rightarrow> or_first r < x)"
  by (auto simp: upsert_offset_def next_offset_def split: option.splits)

lemma next_offset_upsert:
  "upsert_offset ht r rows = Some rows' \<Longrightarrow>
     next_offset rows' = (next_offset rows)(range_key ht r \<mapsto> wrap_i64 (or_last r + 1))"
  using upsert_offset_next [of ht r rows rows'] by (auto simp: fun_eq_iff)

lemma advance_offsets_quiet:
  assumes "env_fail env = (\<lambda>_. None)"
  shows "snd (advance_offsets env ht i rs s) =
    (case first_race ht rs (next_offset (ingest_offsets s)) of
       None \<Rightarrow> Inr () | Some r \<Rightarrow> Inl (OffsetRace (or_topic r) (or_partition r)))"
proof (induction rs arbitrary: i s)
  case (Cons r rs)
  show ?case
  proof (cases "upsert_offset ht r (ingest_offsets s)")
    case None
    then show ?thesis
      by (simp add: tx_bind_def quiet_stmts assms upsert_offset_None [symmetric])
  next
    case (Some rows)
    then have "\<not> (case next_offset (ingest_offsets s) (range_key ht r) of None \<Rightarrow> False | Some x \<Rightarrow> or_first r < x)"
      by (simp add: upsert_offset_None [symmetric])
    with Some show ?thesis
      by (simp add: tx_bind_def quiet_stmts assms Cons.IH next_offset_upsert fun_upd_def)
  qed
qed (simp add: tx_return_def)

lemma snd_tx_bind:
  "snd (tx_bind m f s) = (case snd (m s) of Inl e \<Rightarrow> Inl e | Inr x \<Rightarrow> snd (f x (fst (m s))))"
  by (simp add: tx_bind_def split: prod.split sum.split)

text \<open>The verdict on an operation that is new.\<close>

definition verdict_new ::
  "catalog \<Rightarrow> hypertable_id \<Rightarrow> commit_op \<Rightarrow> offset_range list \<Rightarrow> (catalog_error, commit_result) result" where
  "verdict_new s ht op offsets =
     (let ids = op_inputs op in
      if \<not> hypertable_exists s ht then Inl fk_violation
      else if \<not> (distinct ids \<and> set ids \<subseteq> live_ids s ht)
      then Inl (Conflict (length ids) (card (set ids \<inter> live_ids s ht)))
      else case first_race ht offsets (next_offset (ingest_offsets s)) of
             Some r \<Rightarrow> Inl (OffsetRace (or_topic r) (or_partition r))
           | None \<Rightarrow> Inr (Committed (commit_seq s + 1)))"

lemma apply_new_quiet:
  assumes "env_fail env = (\<lambda>_. None)"
  shows "snd (apply_new env de ht op offsets cid s) =
    (if \<not> inputs_live s ht (op_inputs op) then Inl (Conflict (length (op_inputs op)) (hits s ht (op_inputs op)))
     else case first_race ht offsets (next_offset (ingest_offsets s)) of
            Some r \<Rightarrow> Inl (OffsetRace (or_topic r) (or_partition r))
          | None \<Rightarrow> Inr (Committed cid))"
proof (cases "inputs_live s ht (op_inputs op)")
  case True
  then obtain t where t: "apply_op env de ht cid op s = (t, Inr ())"
    using apply_op_quiet [OF assms, of de ht cid op s] by (metis prod.collapse)
  from apply_op_Inr [OF t] have "ingest_offsets t = ingest_offsets s" by simp
  with True t show ?thesis
    by (simp add: apply_new_def snd_tx_bind advance_offsets_quiet assms tx_return_def split: option.split)
qed (simp add: apply_new_def snd_tx_bind apply_op_quiet assms)

lemma insert_commit_quiet:
  assumes "env_fail env = (\<lambda>_. None)" "wf_log s" "\<not> key_taken s ht identity"
  shows "snd (tx_bind (exec env SInsertCommit (insert_commit_stmt env ht op identity)) (\<lambda>inserted.
       case inserted of None \<Rightarrow> key_conflict env identity | Some cid \<Rightarrow> apply_new env de ht op offsets cid) s)
    = verdict_new s ht op offsets"
proof (cases "hypertable_exists s ht")
  case False
  with assms(3) have "insert_commit_stmt env ht op identity s = (s\<lparr>commit_seq := commit_seq s + 1\<rparr>, Inl fk_violation)"
    by (simp add: insert_commit_Inl)
  with False show ?thesis by (simp add: snd_tx_bind quiet_stmts assms(1) verdict_new_def Let_def)
next
  case True
  let ?t = "s\<lparr>commit_seq := commit_seq s + 1,
      commits := commits s @ [commit_row_of env ht op identity (commit_seq s + 1)]\<rparr>"
  from True assms(3) have "insert_commit_stmt env ht op identity s = (?t, Inr (Some (commit_seq s + 1)))"
    by (simp add: insert_commit_Some)
  moreover have "inputs_live ?t ht ids = (distinct ids \<and> set ids \<subseteq> live_ids s ht)"
    "hits ?t ht ids = card (set ids \<inter> live_ids s ht)" for ids
    using assms(2) inputs_live_iff [of s ht ids] hits_card [of s ht ids]
    by (simp_all add: wf_log_def inputs_live_def hits_def)
  ultimately show ?thesis
    using True by (simp add: snd_tx_bind quiet_stmts assms(1) apply_new_quiet verdict_new_def Let_def)
qed

end
