(* ===== verification/CommitProps.thy ===== *)
theory CommitProps
  imports CommitSafety
begin

text \<open>
  The promises of a commit to its callers, stated over the transaction as it is written
  and over arbitrary runs of the catalog around it.
\<close>

section \<open>Errors a transaction body can raise\<close>

definition raises :: "(catalog_error \<Rightarrow> bool) \<Rightarrow> 'a tx \<Rightarrow> bool" where
  "raises P m \<longleftrightarrow> (\<forall>s e. snd (m s) = Inl e \<longrightarrow> P e)"

lemma raises_bind: "raises P m \<Longrightarrow> (\<And>x. raises P (f x)) \<Longrightarrow> raises P (tx_bind m f)"
  by (auto simp: raises_def snd_tx_bind split: sum.splits)

lemma raises_exec: "raises P eff \<Longrightarrow> (\<And>e. P (Db e)) \<Longrightarrow> raises P (exec env st eff)"
  by (auto simp: raises_def exec_def split: option.splits)

lemma raises_query: "(\<And>e. P (Db e)) \<Longrightarrow> raises P (query env st q)"
  by (auto simp: raises_def query_def split: option.splits)

lemma raises_return [simp]: "raises P (tx_return x)"
  by (simp add: raises_def tx_return_def)

lemma raises_fail [simp]: "raises P (tx_fail e) \<longleftrightarrow> P e"
  by (simp add: raises_def tx_fail_def)

definition ambiguous :: "catalog_error \<Rightarrow> bool" where
  "ambiguous e \<longleftrightarrow> (\<exists>i x. e = AmbiguousMutation i x) \<or> (\<exists>x. e = UnidentifiedAmbiguousMutation x)"

lemma ambiguous_simps [simp]:
  "\<not> ambiguous (Db x)" "\<not> ambiguous (Conflict m n)" "\<not> ambiguous (OffsetRace t p)" "\<not> ambiguous (LeaseLost j)"
  "\<not> ambiguous (LeasePartitionMismatch j)" "\<not> ambiguous (OperationKeyCollision k)" "\<not> ambiguous (NotFound k)"
  "\<not> ambiguous (Invariant k)" "\<not> ambiguous fk_violation" "ambiguous (AmbiguousMutation i x)"
  "ambiguous (UnidentifiedAmbiguousMutation x)" "\<not> ambiguous (OperationHypertableMismatch a b)"
  by (simp_all add: ambiguous_def fk_violation_def)

abbreviation definite :: "'a tx \<Rightarrow> bool" where
  "definite \<equiv> raises (\<lambda>e. \<not> ambiguous e)"

lemma definite_query [simp]: "definite (query env st q)"
  by (simp add: raises_query)

lemma definite_exec: "definite eff \<Longrightarrow> definite (exec env st eff)"
  by (rule raises_exec) simp_all

lemma definite_lookup: "definite (lookup_in_tx env st i)"
  unfolding lookup_in_tx_def
  by (rule raises_bind, rule definite_query)
    (auto simp: raises_def tx_lift_def reconcile_def tx_fail_def tx_return_def split: option.splits if_splits)

lemma definite_fence: "definite (fence_lease env ht l op)"
  unfolding fence_lease_def Let_def by (auto intro!: raises_bind split: commit_op.split)

lemma definite_gate: "definite (lease_gate env ht op identity lease)"
  unfolding lease_gate_def
  by (auto intro!: raises_bind definite_lookup definite_fence split: option.split)

lemma definite_insert_commit: "definite (insert_commit_stmt env ht op identity)"
  by (auto simp: raises_def insert_commit_stmt_def Let_def)

lemma definite_conflict: "definite (key_conflict env identity)"
  unfolding key_conflict_def by (auto intro!: raises_bind definite_lookup split: option.split)

lemma definite_tombstone: "definite (tombstone_parts env ht cid ids)"
  unfolding tombstone_parts_def by (rule definite_exec) (auto simp: raises_def Let_def)

lemma definite_insert_rows: "definite (insert_part_rows env de ht cid i ps)"
proof (induction ps arbitrary: i)
  case (Cons p ps)
  have "definite (\<lambda>s. (f s, Inr ()))" for f by (simp add: raises_def)
  with Cons show ?case by (simp add: raises_bind definite_exec)
qed simp

lemma definite_insert_parts: "definite (insert_parts env de ht cid ps)"
  unfolding insert_parts_def
  by (intro raises_bind definite_insert_rows definite_exec) (simp add: raises_def)

lemma definite_offsets: "definite (advance_offsets env ht i rs)"
proof (induction rs arbitrary: i)
  case (Cons r rs)
  have "definite (\<lambda>s. case upsert_offset ht r (ingest_offsets s) of
            None \<Rightarrow> (s, Inl (OffsetRace (or_topic r) (or_partition r)))
          | Some rows \<Rightarrow> (s\<lparr>ingest_offsets := rows\<rparr>, Inr ()))"
    by (auto simp: raises_def split: option.splits)
  with Cons show ?case by (simp add: raises_bind definite_exec)
qed simp

lemma definite_body: "definite (commit_body env de ht op identity offsets lease)"
  unfolding commit_body_def apply_new_def apply_op_def
  by (auto intro!: raises_bind definite_exec definite_gate definite_insert_commit definite_conflict
      definite_tombstone definite_insert_parts definite_offsets split: option.split commit_op.split)

text \<open>An ambiguous outcome arises at \<open>COMMIT\<close> only: the body had accepted the operation.\<close>

lemma ambiguous_at_commit:
  assumes "commit_txn env de ht op identity offsets lease s = (s', Inl e)" "ambiguous e"
  shows "\<not> key_taken s ht identity \<and> (\<exists>x. e = ambiguous_or_definite identity x)"
proof -
  from assms have ok: "\<not> (\<exists>i \<in> set_option identity. oi_hypertable i \<noteq> ht)" "env_fail env SBegin = None"
    by (auto simp: commit_txn_def split: if_splits option.splits)
  obtain t r where b: "commit_body env de ht op identity offsets lease s = (t, r)" by force
  show ?thesis
  proof (cases "\<exists>c. r = Inr (Committed c)")
    case True
    then obtain c where r: "r = Inr (Committed c)" by auto
    with assms(1) ok b have "commit_boundary env identity s t c = (s', Inl e)" by (simp add: commit_txn_def)
    from commit_boundary_cases [OF this] commit_body_Committed [OF b [unfolded r]] show ?thesis by auto
  next
    case False
    with assms(1) ok b have "r = Inl e"
      by (auto simp: commit_txn_def split: sum.splits commit_result.splits)
    with b definite_body [of env de ht op identity offsets lease] assms(2) show ?thesis
      by (auto simp: raises_def dest!: spec [of _ s])
  qed
qed

section \<open>Atomicity\<close>

text \<open>C1: a mutation is atomic and its outcome says which way it went. \<open>Committed\<close> means the
  whole operation took effect under the next commit id; \<open>AlreadyApplied\<close> names the commit
  that recorded this very operation and nothing changed; an error other than an ambiguous
  one means nothing changed; an ambiguous one, which needs a lost connection at \<open>COMMIT\<close>,
  means all or nothing. The database must report a definite error only for a transaction
  that did not commit.\<close>

theorem commit_atomic:
  assumes "reports_faithfully env"
    and "commit_txn env de ht op identity offsets lease s = (s', r)"
  shows "case r of
      Inr (Committed c) \<Rightarrow> c = commit_seq s + 1 \<and> took_effect env de ht op identity offsets lease s s'
    | Inr (AlreadyApplied c) \<Rightarrow> same_tables s s' \<and>
        (\<exists>i. identity = Some i \<and> oi_hypertable i = ht \<and> recorded s i c)
    | Inl e \<Rightarrow> same_tables s s' \<or> (ambiguous e \<and> took_effect env de ht op identity offsets lease s s')"
  using assms(2)
proof (cases rule: commit_txn_cases)
  case untouched
  then show ?thesis
    by (auto simp: reconcile_recorded split: sum.splits commit_result.splits)
next
  case effect
  have "ambiguous (ambiguous_or_definite identity e)" if "class_of (Db e) = Transport" for e
    using that by (auto simp: ambiguous_or_definite_def split: option.splits)
  moreover have "class_of (Db e) = Transport" if "env_fail env SCommit = Some (e, True)" for e
    using that assms(1) by (simp add: reports_faithfully_def)
  ultimately show ?thesis using effect by (auto simp: injected_transport_error_def)
qed

text \<open>A small catalog for the examples below: one hypertable, and a part it adds.\<close>

definition demo_hypertable :: hypertable_row where
  "demo_hypertable = \<lparr>hr_id = 1, hr_name = ''events'', hr_schema = JNull, hr_partition_spec = JNull,
     hr_sort_key = [], hr_packing_key = ''account_id'', hr_target_file_bytes = None\<rparr>"

definition demo_meta :: "string \<Rightarrow> part_meta" where
  "demo_meta p = \<lparr>path = p, partition_values = JNull, packing_key_min = 0, packing_key_max = 9,
     row_count = 5, size_bytes = 100, level = 0, column_stats = None\<rparr>"

definition demo_row :: "part_id \<Rightarrow> part_row" where
  "demo_row i = \<lparr>pr_id = i, pr_hypertable = 1, pr_meta = demo_meta ''old'', pr_key_filter = None,
     pr_created_by = 1, pr_deleted_by = None, pr_purged_at = None\<rparr>"

definition demo_commit :: commit_row where
  "demo_commit = \<lparr>cm_id = 1, cm_hypertable = 1, cm_kind = ''add'', cm_key = None, cm_fingerprint = None,
     cm_created_at = 0\<rparr>"

definition demo_catalog :: catalog where
  "demo_catalog = empty_catalog\<lparr>hypertables := [demo_hypertable], commits := [demo_commit], commit_seq := 1,
     parts := [demo_row 1, demo_row 2], part_seq := 2\<rparr>"

definition demo_identity :: operation_identity where
  "demo_identity = \<lparr>oi_hypertable = 1, oi_key = ''compaction:1'', oi_fingerprint = [1]\<rparr>"

lemmas demo_defs = demo_catalog_def demo_hypertable_def demo_meta_def demo_row_def demo_commit_def
  demo_identity_def empty_catalog_def

text \<open>The transaction, executed without failures.\<close>

lemmas commit_exec = commit_txn_def commit_body_def lease_gate_def commit_boundary_def take_fault_def
  tx_bind_def tx_return_def tx_fail_def exec_def query_def insert_commit_stmt_def Let_def keyed_commit_def
  hypertable_exists_def apply_new_def apply_op_def insert_parts_def tombstone_parts_def tombstone_hit_def live_def
  part_row_of_def key_filter_def upsert_offset_def offset_at_def offset_key_def range_key_def key_conflict_def
  lookup_in_tx_def operation_row_def reconcile_def tx_lift_def rollback_def

lemma live_ids_code:
  "live_ids s ht = set (map pr_id (filter (\<lambda>p. pr_hypertable p = ht \<and> live p) (parts s)))"
  by (auto simp: live_ids_def)

lemma demo_wf: "wf_log demo_catalog"
  by (simp add: demo_defs wf_log_def wf_commits_def wf_parts_def wf_offsets_def part_ok_def has_commit_def)

text \<open>C1: compacting two parts into one commits; a lost acknowledgement of the same \<open>COMMIT\<close>
  leaves the same effect behind an ambiguous error.\<close>

theorem commit_atomic_witness:
  defines "lost \<equiv> (quiet_env 5)\<lparr>env_fail := (\<lambda>st. if st = SCommit then Some (Io, True) else None)\<rparr>"
  defines "op \<equiv> Replace [1, 2] [demo_meta ''new'']"
  shows "(\<exists>s'. commit_txn (quiet_env 5) (\<lambda>_. None) 1 op (Some demo_identity) [] None demo_catalog
        = (s', Inr (Committed 2)) \<and>
      took_effect (quiet_env 5) (\<lambda>_. None) 1 op (Some demo_identity) [] None demo_catalog s')
    \<and> (\<exists>s'. commit_txn lost (\<lambda>_. None) 1 op (Some demo_identity) [] None demo_catalog
        = (s', Inl (AmbiguousMutation demo_identity Io)) \<and> \<not> same_tables demo_catalog s' \<and>
      took_effect lost (\<lambda>_. None) 1 op (Some demo_identity) [] None demo_catalog s')"
proof -
  have f: "reports_faithfully (quiet_env 5)" "reports_faithfully lost"
    by (simp_all add: reports_faithfully_def quiet_env_def lost_def)
  obtain s' where 1: "commit_txn (quiet_env 5) (\<lambda>_. None) 1 op (Some demo_identity) [] None demo_catalog
      = (s', Inr (Committed 2))"
    by (simp add: op_def commit_exec quiet_env_def demo_defs)
  obtain t' where 2: "commit_txn lost (\<lambda>_. None) 1 op (Some demo_identity) [] None demo_catalog
      = (t', Inl (AmbiguousMutation demo_identity Io))" "commits t' \<noteq> commits demo_catalog"
    by (simp add: op_def commit_exec quiet_env_def demo_defs lost_def ambiguous_or_definite_def)
  from 2(2) have "\<not> same_tables demo_catalog t'" by (auto simp: same_tables_def)
  with commit_atomic [OF f(1) 1] commit_atomic [OF f(2) 2(1)] 1 2(1) show ?thesis by auto
qed

section \<open>The effect of a commit\<close>

text \<open>C6: what a committed operation did. Its inputs were distinct live parts of its
  hypertable and are live no longer; its outputs are live under fresh ids, in order, with
  the given metadata and the blocked-bloom filter of their key bitmap; no other part of
  any hypertable changed liveness; the log grew by one row under an id above all others;
  the outputs' pending markers are gone and no other marker is; leases, cursors and
  hypertables are untouched.\<close>

theorem commit_live_effect:
  assumes "wf_log s" "commit_txn env de ht op identity offsets lease s = (s', Inr (Committed c))"
  shows "distinct (op_inputs op) \<and> set (op_inputs op) \<subseteq> live_ids s ht
    \<and> (\<forall>h. live_ids s' h = (if h = ht
          then live_ids s ht - set (op_inputs op) \<union> {part_seq s + 1 .. part_seq s + int (length (op_outputs op))}
          else live_ids s h))
    \<and> (\<forall>p \<in> set (parts s). pr_id p \<le> part_seq s)
    \<and> map (\<lambda>p. (pr_meta p, pr_key_filter p, pr_created_by p)) (drop (length (parts s)) (parts s'))
        = map (\<lambda>m. (m, key_filter de m, c)) (op_outputs op)
    \<and> commits s' = commits s @ [commit_row_of env ht op identity c]
    \<and> (\<forall>x \<in> set (commits s). cm_id x < c)
    \<and> pending_objects s' = filter (\<lambda>r. po_path r \<notin> path ` set (op_outputs op)) (pending_objects s)
    \<and> leases s' = leases s \<and> worker_cursors s' = worker_cursors s \<and> hypertables s' = hypertables s"
proof -
  from assms(2) have e: "took_effect env de ht op identity offsets lease s s'" "c = commit_seq s + 1"
    by (cases rule: commit_txn_cases; auto)+
  then obtain rows f where s': "s' = (applied env de ht op identity rows s)\<lparr>armed_fault := f\<rparr>"
    and il: "inputs_live s ht (op_inputs op)" by (auto simp: took_effect_def)
  have wp: "wf_parts s" using assms(1) by (simp add: wf_log_def)
  note ins = inputs_live_iff [OF wp, THEN iffD1, OF il]
  have below: "\<forall>x \<in> set (commits s). cm_id x < c" "\<forall>p \<in> set (parts s). pr_id p \<le> part_seq s"
    using assms(1) e(2) by (fastforce simp: wf_log_def wf_commits_def wf_parts_def)+
  have meta: "map (\<lambda>p. (pr_meta p, pr_key_filter p, pr_created_by p)) (new_rows de ht cid n ps)
      = map (\<lambda>m. (m, key_filter de m, cid)) ps" for cid n ps
    by (induction ps arbitrary: n) (simp_all add: new_rows_Cons part_row_of_def)
  have len: "length (tombstone_rows ht cid ids rows) = length rows" for cid ids rows
    by (simp add: tombstone_rows_def)
  have live: "\<forall>h. live_ids s' h = (if h = ht
          then live_ids s ht - set (op_inputs op) \<union> {part_seq s + 1 .. part_seq s + int (length (op_outputs op))}
          else live_ids s h)"
    using live_ids_applied [OF wp conjunct2 [OF ins]] by (simp add: s')
  show ?thesis
    using ins live below by (simp add: s' len meta e(2))
qed

text \<open>C6: the two parts give way to one.\<close>

theorem commit_live_effect_witness:
  "\<exists>s'. commit_txn (quiet_env 5) (\<lambda>_. None) 1 (Replace [1, 2] [demo_meta ''new'']) None [] None demo_catalog
      = (s', Inr (Committed 2)) \<and> live_ids demo_catalog 1 = {1, 2} \<and> live_ids s' 1 = {3}"
proof -
  obtain s' where 1: "commit_txn (quiet_env 5) (\<lambda>_. None) 1 (Replace [1, 2] [demo_meta ''new'']) None [] None
      demo_catalog = (s', Inr (Committed 2))"
    by (simp add: commit_exec quiet_env_def demo_defs)
  have "live_ids demo_catalog 1 = {1, 2}" "part_seq demo_catalog = 2"
    by (simp_all add: live_ids_code demo_defs live_def)
  with commit_live_effect [OF demo_wf 1] 1 show ?thesis by auto
qed

section \<open>The verdict\<close>

text \<open>The log's answer to an identity: replay, collision, or new.\<close>

definition log_answer :: "catalog \<Rightarrow> operation_identity option \<Rightarrow> (catalog_error, commit_result) result option" where
  "log_answer s identity =
     (case identity of
        None \<Rightarrow> None
      | Some i \<Rightarrow>
          (case operation_row i s of
             None \<Rightarrow> None
           | Some (c, fp) \<Rightarrow>
               Some (if fp = Some (oi_fingerprint i) then Inr (AlreadyApplied c)
                     else Inl (OperationKeyCollision (oi_key i)))))"

lemma log_answer_None:
  "(\<forall>i. identity = Some i \<longrightarrow> oi_hypertable i = ht) \<Longrightarrow> log_answer s identity = None \<longleftrightarrow> \<not> key_taken s ht identity"
  by (auto simp: log_answer_def key_taken_def operation_row_def split: option.splits)

lemma log_answer_reconcile:
  "log_answer s (Some i) = (case reconcile i (operation_row i s) of
     Inl e \<Rightarrow> Some (Inl e) | Inr None \<Rightarrow> None | Inr (Some c) \<Rightarrow> Some (Inr (AlreadyApplied c)))"
  by (auto simp: log_answer_def reconcile_def split: option.splits)

lemma lookup_quiet:
  "env_fail env = (\<lambda>_. None) \<Longrightarrow> lookup_in_tx env st i s = (s, reconcile i (operation_row i s))"
  by (simp add: lookup_in_tx_def tx_bind_def quiet_stmts tx_lift_state)

lemma commit_txn_quiet:
  assumes "env_fail env = (\<lambda>_. None)" "armed_fault s = None" "\<forall>i. identity = Some i \<longrightarrow> oi_hypertable i = ht"
  shows "snd (commit_txn env de ht op identity offsets lease s)
    = snd (commit_body env de ht op identity offsets lease s)"
proof -
  obtain t r where b: "commit_body env de ht op identity offsets lease s = (t, r)" by force
  from commit_body_advances [OF b] assms(2) have "armed_fault t = None" by (simp add: advances_def)
  then show ?thesis
    using assms(1,3)
    by (auto simp: commit_txn_def b commit_boundary_def take_fault_def split: sum.splits commit_result.splits)
qed

text \<open>After the gate: the insert decides.\<close>

lemma after_gate_quiet:
  assumes "env_fail env = (\<lambda>_. None)" "wf_log s" "\<forall>i. identity = Some i \<longrightarrow> oi_hypertable i = ht"
  shows "snd (tx_bind (exec env SInsertCommit (insert_commit_stmt env ht op identity)) (\<lambda>inserted.
       case inserted of None \<Rightarrow> key_conflict env identity | Some cid \<Rightarrow> apply_new env de ht op offsets cid) s)
    = (case log_answer s identity of Some a \<Rightarrow> a | None \<Rightarrow> verdict_new s ht op offsets)"
proof (cases "key_taken s ht identity")
  case False
  then have "log_answer s identity = None" using log_answer_None [OF assms(3)] by blast
  with insert_commit_quiet [OF assms(1,2) False] show ?thesis by simp
next
  case True
  then obtain i where i: "identity = Some i" by (auto simp: key_taken_def)
  from True have "log_answer s identity \<noteq> None" using log_answer_None [OF assms(3)] by simp
  moreover from True have "insert_commit_stmt env ht op identity s = (s\<lparr>commit_seq := commit_seq s + 1\<rparr>, Inr None)"
    by (simp add: insert_commit_None)
  ultimately show ?thesis
    by (auto simp: snd_tx_bind quiet_stmts assms(1) key_conflict_def i lookup_quiet log_answer_reconcile
        tx_return_def split: sum.splits option.splits)
qed

text \<open>C13: without failures, the outcome of a mutation is decided by the tables. A recorded
  identity replays or collides; otherwise an unknown hypertable is a foreign-key error,
  inputs that are not distinct live parts of the hypertable are a conflict that counts the
  live ones, an offset range behind its cursor (earlier ranges of the batch applied) is an
  offset race, and everything else commits under the next id.\<close>

theorem commit_decides:
  assumes "wf_log s" "env_fail env = (\<lambda>_. None)" "armed_fault s = None"
    and "\<forall>i. identity = Some i \<longrightarrow> oi_hypertable i = ht"
  shows "snd (commit_txn env de ht op identity offsets None s) =
    (case log_answer s identity of
       Some a \<Rightarrow> a
     | None \<Rightarrow>
         if \<not> hypertable_exists s ht then Inl fk_violation
         else if \<not> (distinct (op_inputs op) \<and> set (op_inputs op) \<subseteq> live_ids s ht)
         then Inl (Conflict (length (op_inputs op)) (card (set (op_inputs op) \<inter> live_ids s ht)))
         else case first_race ht offsets (next_offset (ingest_offsets s)) of
                Some r \<Rightarrow> Inl (OffsetRace (or_topic r) (or_partition r))
              | None \<Rightarrow> Inr (Committed (commit_seq s + 1)))"
proof -
  have "snd (commit_body env de ht op identity offsets None s)
      = (case log_answer s identity of Some a \<Rightarrow> a | None \<Rightarrow> verdict_new s ht op offsets)"
    using after_gate_quiet [OF assms(2,1,4), of op de offsets]
    by (simp add: commit_body_def lease_gate_def snd_tx_bind quiet_stmts [OF assms(2)] tx_return_def)
  then show ?thesis
    unfolding commit_txn_quiet [OF assms(2-4)] verdict_new_def Let_def .
qed

text \<open>C13: naming a part that is not there, or one part twice, conflicts and counts.\<close>

theorem commit_decides_witness:
  "snd (commit_txn (quiet_env 5) (\<lambda>_. None) 1 (Delete [1, 9]) None [] None demo_catalog) = Inl (Conflict 2 1)
   \<and> snd (commit_txn (quiet_env 5) (\<lambda>_. None) 1 (Delete [1, 1]) None [] None demo_catalog) = Inl (Conflict 2 1)
   \<and> snd (commit_txn (quiet_env 5) (\<lambda>_. None) 1 (Delete [2]) None [] None demo_catalog) = Inr (Committed 2)"
proof -
  have e: "env_fail (quiet_env 5) = (\<lambda>_. None)" "armed_fault demo_catalog = None"
    by (simp_all add: quiet_env_def demo_defs)
  have l: "live_ids demo_catalog 1 = {1, 2}" "hypertable_exists demo_catalog 1" "commit_seq demo_catalog = 1"
    by (simp_all add: live_ids_code demo_defs live_def hypertable_exists_def)
  show ?thesis
    using commit_decides [OF demo_wf e, of None 1 "\<lambda>_. None" "Delete [1, 9]" "[]"]
      commit_decides [OF demo_wf e, of None 1 "\<lambda>_. None" "Delete [1, 1]" "[]"]
      commit_decides [OF demo_wf e, of None 1 "\<lambda>_. None" "Delete [2]" "[]"]
    by (simp add: l log_answer_def)
qed

text \<open>The parts of one partition, live or not.\<close>

definition partition_ids :: "catalog \<Rightarrow> hypertable_id \<Rightarrow> json \<Rightarrow> part_id set" where
  "partition_ids s ht pv = pr_id ` {p \<in> set (parts s). pr_hypertable p = ht \<and> partition_values (pr_meta p) = pv}"

lemma partition_ids_code:
  "partition_ids s ht pv = set (map pr_id (filter (\<lambda>p. pr_hypertable p = ht \<and> partition_values (pr_meta p) = pv) (parts s)))"
  by (auto simp: partition_ids_def)

lemma inside_count:
  assumes "wf_parts s"
  shows "length (filter (\<lambda>p. pr_id p \<in> set old \<and> pr_hypertable p = ht \<and> partition_values (pr_meta p) = pv) (parts s))
      = length old \<longleftrightarrow> distinct old \<and> set old \<subseteq> partition_ids s ht pv"
proof -
  define H where "H = filter (\<lambda>p. pr_id p \<in> set old \<and> pr_hypertable p = ht \<and> partition_values (pr_meta p) = pv) (parts s)"
  have d: "distinct (map pr_id H)"
    using assms by (auto simp: H_def wf_parts_def strict_sorted_iff distinct_map_filter)
  have "set (map pr_id H) = set old \<inter> partition_ids s ht pv"
    by (auto simp: H_def partition_ids_def)
  with distinct_card [OF d] have "length H = card (set old \<inter> partition_ids s ht pv)" by simp
  moreover have "card (set old \<inter> partition_ids s ht pv) = length old
      \<longleftrightarrow> distinct old \<and> set old \<subseteq> partition_ids s ht pv"
    using subset_count [of old] by simp
  ultimately show ?thesis by (simp add: H_def)
qed

text \<open>C14: without failures, the outcome of a fenced compaction commit. The log answers a
  replay before the lease is looked at, so a worker whose \<open>COMMIT\<close> succeeded learns it even
  after losing the partition; then a token of another hypertable is a mismatch, a token
  that is not the current unexpired tenancy has lost its lease, inputs that are not
  distinct parts of the leased partition or outputs outside it are a mismatch; then the
  verdict is that of any replacement.\<close>

theorem compaction_decides:
  assumes "wf_log s" "env_fail env = (\<lambda>_. None)" "armed_fault s = None" "oi_hypertable i = ht"
  shows "snd (commit_compaction_replace env de ht l old new i s) =
    (let pv = cl_partition l in
     case log_answer s (Some i) of
       Some a \<Rightarrow> a
     | None \<Rightarrow>
         if cl_hypertable l \<noteq> ht then Inl (LeasePartitionMismatch pv)
         else if \<not> (\<exists>h. lease_at s (ht, pv) = Some h \<and> same_tenancy h l \<and> env_clock env < cl_expires_at h)
         then Inl (LeaseLost pv)
         else if \<not> ((\<forall>p \<in> set new. partition_values p = pv) \<and> distinct old \<and> set old \<subseteq> partition_ids s ht pv)
         then Inl (LeasePartitionMismatch pv)
         else verdict_new s ht (Replace old new) [])"
proof -
  let ?op = "Replace old new" and ?pv = "cl_partition l"
  have scope: "\<forall>j. Some i = Some j \<longrightarrow> oi_hypertable j = ht" using assms(4) by simp
  have wp: "wf_parts s" using assms(1) by (simp add: wf_log_def)
  have held: "(case lease_at s (ht, ?pv) of None \<Rightarrow> False
        | Some h \<Rightarrow> cl_owner h = cl_owner l \<and> cl_generation h = cl_generation l \<and> cl_expires_at h > env_clock env)
      \<longleftrightarrow> (\<exists>h. lease_at s (ht, ?pv) = Some h \<and> same_tenancy h l \<and> env_clock env < cl_expires_at h)"
    if "cl_hypertable l = ht"
    using that by (auto simp: same_tenancy_def lease_key_def dest: lease_at_Some split: option.splits)
  have outside: "list_ex (\<lambda>p. partition_values p \<noteq> ?pv) new \<longleftrightarrow> \<not> (\<forall>p \<in> set new. partition_values p = ?pv)"
    by (auto simp: list_ex_iff)
  have fence: "fence_lease env ht l ?op s = (s,
      if cl_hypertable l \<noteq> ht then Inl (LeasePartitionMismatch ?pv)
      else if \<not> (\<exists>h. lease_at s (ht, ?pv) = Some h \<and> same_tenancy h l \<and> env_clock env < cl_expires_at h)
      then Inl (LeaseLost ?pv)
      else if \<not> ((\<forall>p \<in> set new. partition_values p = ?pv) \<and> distinct old \<and> set old \<subseteq> partition_ids s ht ?pv)
      then Inl (LeasePartitionMismatch ?pv)
      else Inr ())"
    using held outside inside_count [OF wp, of old ht ?pv]
    by (auto simp: fence_lease_def Let_def tx_bind_def quiet_stmts assms(2) tx_fail_def tx_return_def)
  have "snd (commit_body env de ht ?op (Some i) [] (Some l) s) =
     (case log_answer s (Some i) of
       Some a \<Rightarrow> a
     | None \<Rightarrow> (case snd (fence_lease env ht l ?op s) of Inl e \<Rightarrow> Inl e | Inr _ \<Rightarrow> verdict_new s ht ?op []))"
    using after_gate_quiet [OF assms(2,1) scope, of ?op de "[]"] fence_lease_state [of env ht l ?op s]
    by (auto simp: commit_body_def lease_gate_def snd_tx_bind quiet_stmts assms(2) lookup_quiet tx_bind_def
        log_answer_reconcile tx_return_def split: sum.splits option.splits prod.splits)
  then show ?thesis
    unfolding commit_compaction_replace_def commit_inner_def commit_txn_quiet [OF assms(2,3) scope]
    by (auto simp: fence Let_def split: option.splits)
qed

text \<open>C1: the holder of the unexpired lease replaces; after the expiry it has lost it.\<close>

definition demo_lease :: compaction_lease where
  "demo_lease = \<lparr>cl_hypertable = 1, cl_partition = JNull, cl_owner = 7, cl_generation = 1, cl_expires_at = 50\<rparr>"

theorem compaction_decides_witness:
  fixes s :: catalog
  defines "s \<equiv> demo_catalog\<lparr>leases := [demo_lease], lease_generation_seq := 1\<rparr>"
  shows "snd (commit_compaction_replace (quiet_env 10) (\<lambda>_. None) 1 demo_lease [1, 2] [demo_meta ''new''] demo_identity s)
      = Inr (Committed 2)
    \<and> snd (commit_compaction_replace (quiet_env 50) (\<lambda>_. None) 1 demo_lease [1, 2] [demo_meta ''new''] demo_identity s)
      = Inl (LeaseLost JNull)"
proof -
  have w: "wf_log s" 
    by (simp add: s_def demo_defs wf_log_def wf_commits_def wf_parts_def wf_offsets_def part_ok_def has_commit_def)
  have e: "env_fail (quiet_env t) = (\<lambda>_. None)" "env_clock (quiet_env t) = t" "armed_fault s = None" for t
    by (simp_all add: quiet_env_def demo_defs s_def)
  have f: "log_answer s (Some demo_identity) = None" "lease_at s (1, JNull) = Some demo_lease"
    "cl_partition demo_lease = JNull" "cl_hypertable demo_lease = 1" "cl_expires_at demo_lease = 50"
    "oi_hypertable demo_identity = 1"
    by (simp_all add: s_def log_answer_def operation_row_def keyed_commit_def lease_at_def lease_key_def demo_defs
        demo_lease_def)
  have p: "partition_ids s 1 JNull = {1, 2}" "partition_values (demo_meta ''new'') = JNull"
    by (simp_all add: s_def partition_ids_code demo_defs)
  have v: "verdict_new s 1 (Replace [1, 2] [demo_meta ''new'']) [] = Inr (Committed 2)"
    by (simp add: verdict_new_def Let_def live_ids_code s_def demo_defs live_def hypertable_exists_def)
  show ?thesis
    using compaction_decides [OF w e(1,3) f(6), of 10 "\<lambda>_. None" demo_lease "[1, 2]" "[demo_meta ''new'']"]
      compaction_decides [OF w e(1,3) f(6), of 50 "\<lambda>_. None" demo_lease "[1, 2]" "[demo_meta ''new'']"]
    by (simp add: Let_def f p v e same_tenancy_def)
qed

section \<open>Exactly once\<close>

text \<open>C5: an identified operation takes effect at most once. After it committed under \<open>c\<close>, and
  after any further activity by any clients, every attempt with the same identity, whatever
  it carries, leaves every table alone, is never \<open>Committed\<close> again and names no other
  commit; an attempt that meets no failure is answered \<open>AlreadyApplied(c)\<close>, and so is a
  lookup.\<close>

theorem identity_commits_once:
  assumes "commit_txn env de ht op (Some i) offsets lease s = (s', Inr (Committed c))"
    and "(catalog_step Q)\<^sup>*\<^sup>* s' t"
    and "commit_txn env' de' ht' op' (Some i) offsets' lease' t = (t', r)"
  shows "same_tables t t' \<and> (\<forall>c'. r \<noteq> Inr (Committed c')) \<and> (\<forall>c'. r = Inr (AlreadyApplied c') \<longrightarrow> c' = c)
    \<and> (env_fail env' = (\<lambda>_. None) \<and> ht' = ht \<longrightarrow>
        r = Inr (AlreadyApplied c) \<and> lookup_operation env' i t = (t, Inr (LookupCommitted c)))"
proof -
  from assms(1) have e: "took_effect env de ht op (Some i) offsets lease s s'" "c = commit_seq s + 1"
    by (cases rule: commit_txn_cases; auto)+
  have rec: "recorded t i c"
    using run_recorded [OF assms(2) took_effect_records [OF e(1)]] e(2) by simp
  have ht: "oi_hypertable i = ht" using e(1) by (simp add: took_effect_def)
  from assms(3) have core: "same_tables t t' \<and> (\<forall>c'. r \<noteq> Inr (Committed c')) \<and>
      (\<forall>c'. r = Inr (AlreadyApplied c') \<longrightarrow> c' = c)"
  proof (cases rule: commit_txn_cases)
    case untouched
    with recorded_reconcile [OF rec] show ?thesis by auto
  next
    case effect
    with recorded_not_again [OF rec] show ?thesis by simp
  qed
  moreover have "lookup_operation env' i t = (t, Inr (LookupCommitted c))" if "env_fail env' = (\<lambda>_. None)"
    using that recorded_reconcile [OF rec]
    by (simp add: lookup_operation_def tx_bind_def quiet_stmts tx_lift_simps tx_return_def)
  moreover have "r = Inr (AlreadyApplied c)" if "env_fail env' = (\<lambda>_. None)" "ht' = ht"
  proof -
    have "\<exists>u. commit_txn env' de' ht' op' (Some i) offsets' lease' t = (u, Inr (AlreadyApplied c))"
      by (rule recorded_replay [OF rec that(1)]) (simp add: that(2) ht)
    with assms(3) show ?thesis by auto
  qed
  ultimately show ?thesis by blast
qed

text \<open>C5: a replay of the demonstration compaction with other outputs.\<close>

theorem identity_commits_once_witness:
  "\<exists>s'. commit_txn (quiet_env 5) (\<lambda>_. None) 1 (Replace [1, 2] [demo_meta ''a'']) (Some demo_identity) [] None
      demo_catalog = (s', Inr (Committed 2)) \<and>
    snd (commit_txn (quiet_env 9) (\<lambda>_. None) 1 (Add [demo_meta ''b'']) (Some demo_identity) [] None s')
      = Inr (AlreadyApplied 2)"
proof -
  obtain s' where 1: "commit_txn (quiet_env 5) (\<lambda>_. None) 1 (Replace [1, 2] [demo_meta ''a'']) (Some demo_identity) []
      None demo_catalog = (s', Inr (Committed 2))"
    by (simp add: commit_exec quiet_env_def demo_defs)
  obtain t' r where 2: "commit_txn (quiet_env 9) (\<lambda>_. None) 1 (Add [demo_meta ''b'']) (Some demo_identity) [] None s'
      = (t', r)" by force
  have "env_fail (quiet_env 9) = (\<lambda>_. None)" by (simp add: quiet_env_def)
  with identity_commits_once [OF 1 rtranclp.rtrancl_refl 2] have "r = Inr (AlreadyApplied 2)" by blast
  with 1 2 show ?thesis by (intro exI [of _ s']) simp
qed

text \<open>C12: an ambiguous outcome is decidable. A mutation with an identity whose connection was
  lost at \<open>COMMIT\<close> reports that identity; a lookup that gets through finds it
  committed under the id this attempt drew when the attempt took effect, and absent when
  it left every table alone, and one of the two is the case.\<close>

theorem ambiguous_mutation_decided:
  assumes "commit_txn env de ht op (Some i) offsets lease s = (s', Inl (AmbiguousMutation j e))"
    and "env_fail env' = (\<lambda>_. None)"
  shows "j = i \<and>
    (took_effect env de ht op (Some i) offsets lease s s' \<and>
       lookup_operation env' i s' = (s', Inr (LookupCommitted (commit_seq s + 1))) \<or>
     same_tables s s' \<and> lookup_operation env' i s' = (s', Inr Absent))"
proof -
  from ambiguous_at_commit [OF assms(1)] obtain x where no: "\<not> key_taken s ht (Some i)"
    and a: "AmbiguousMutation j e = ambiguous_or_definite (Some i) x" by auto
  from a have "j = i" by (auto simp: ambiguous_or_definite_def split: if_splits)
  moreover have look: "lookup_operation env' i s' = (s', Inr (case m of Some c \<Rightarrow> LookupCommitted c | None \<Rightarrow> Absent))"
    if "reconcile i (operation_row i s') = Inr m" for m
    using that by (simp add: lookup_operation_def tx_bind_def quiet_stmts assms(2) tx_lift_simps tx_return_def)
  from assms(1) have "oi_hypertable i = ht" by (auto simp: commit_txn_def split: if_splits)
  with no have absent: "operation_row i s = None" by (simp add: key_taken_def operation_row_def)
  from assms(1) have "took_effect env de ht op (Some i) offsets lease s s' \<and>
       lookup_operation env' i s' = (s', Inr (LookupCommitted (commit_seq s + 1))) \<or>
     same_tables s s' \<and> lookup_operation env' i s' = (s', Inr Absent)"
  proof (cases rule: commit_txn_cases)
    case untouched
    then have "operation_row i s' = None" using absent by (simp add: same_tables_def operation_row_def keyed_commit_def)
    with look [of None] untouched show ?thesis by (simp add: reconcile_def)
  next
    case effect
    from look [OF recorded_reconcile [OF took_effect_records [OF effect(1)]]] effect(1) show ?thesis by simp
  qed
  ultimately show ?thesis by blast
qed

text \<open>C12: the two sides of \<open>COMMIT\<close>, by the armed fault.\<close>

theorem ambiguous_mutation_decided_witness:
  fixes before after :: catalog
  defines "before \<equiv> fst (commit_txn (quiet_env 5) (\<lambda>_. None) 1 (Delete [1]) (Some demo_identity) [] None
      (arm_commit_fault BeforeCommit demo_catalog))"
  defines "after \<equiv> fst (commit_txn (quiet_env 5) (\<lambda>_. None) 1 (Delete [1]) (Some demo_identity) [] None
      (arm_commit_fault AfterCommitBeforeReturn demo_catalog))"
  shows "snd (lookup_operation (quiet_env 9) demo_identity before) = Inr Absent \<and> commits before = [demo_commit]
    \<and> snd (lookup_operation (quiet_env 9) demo_identity after) = Inr (LookupCommitted 2)"
proof -
  have q: "env_fail (quiet_env 9) = (\<lambda>_. None)" by (simp add: quiet_env_def)
  have 1: "commit_txn (quiet_env 5) (\<lambda>_. None) 1 (Delete [1]) (Some demo_identity) [] None
      (arm_commit_fault BeforeCommit demo_catalog) = (before, Inl (AmbiguousMutation demo_identity Io))"
    and b: "commits before = [demo_commit]"
    by (simp_all add: before_def commit_exec quiet_env_def demo_defs arm_commit_fault_def ambiguous_or_definite_def
        injected_transport_error_def)
  have 2: "commit_txn (quiet_env 5) (\<lambda>_. None) 1 (Delete [1]) (Some demo_identity) [] None
      (arm_commit_fault AfterCommitBeforeReturn demo_catalog) = (after, Inl (AmbiguousMutation demo_identity Io))"
    and a: "length (commits after) = 2" and seq: "commit_seq (arm_commit_fault AfterCommitBeforeReturn demo_catalog) = 1"
    by (simp_all add: after_def commit_exec quiet_env_def demo_defs arm_commit_fault_def ambiguous_or_definite_def
        injected_transport_error_def)
  have "\<not> took_effect env de ht op i offs l (arm_commit_fault BeforeCommit demo_catalog) before" for env de ht op i offs l
    using b by (auto simp: took_effect_def arm_commit_fault_def demo_catalog_def)
  moreover have "\<not> same_tables (arm_commit_fault AfterCommitBeforeReturn demo_catalog) after"
  proof
    assume "same_tables (arm_commit_fault AfterCommitBeforeReturn demo_catalog) after"
    then have "commits after = [demo_commit]" by (simp add: same_tables_def arm_commit_fault_def demo_catalog_def)
    with a show False by simp
  qed
  ultimately show ?thesis
    using ambiguous_mutation_decided [OF 1 q] ambiguous_mutation_decided [OF 2 q] b seq by auto
qed

section \<open>Parts and offsets are consumed once\<close>

text \<open>C7: a part is consumed at most once. The inputs of a committed operation carry its id
  as their tombstone ever after, and no operation that
  commits later, on any hypertable, has one of them as an input: two compactions, or a
  compaction and a deletion, never both consume a part.\<close>

theorem part_consumed_once:
  assumes "wf_log s" "commit_txn env de ht op identity offsets lease s = (s', Inr (Committed c))"
    and "(catalog_step Q)\<^sup>*\<^sup>* s' t"
  shows "(\<forall>i \<in> set (op_inputs op). \<exists>p \<in> set (parts t). pr_id p = i \<and> pr_deleted_by p = Some c)
    \<and> (\<forall>env' de' ht' op' identity' offsets' lease' t' c'.
        commit_txn env' de' ht' op' identity' offsets' lease' t = (t', Inr (Committed c')) \<longrightarrow>
        set (op_inputs op) \<inter> set (op_inputs op') = {})"
proof -
  from assms(2) have e: "took_effect env de ht op identity offsets lease s s'" "c = commit_seq s + 1"
    by (cases rule: commit_txn_cases; auto)+
  have wf: "wf_log t" using run_wf_log [OF assms(3)] wf_log_took_effect [OF assms(1) e(1)] .
  have dead: "\<exists>p \<in> set (parts t). pr_id p = i \<and> pr_deleted_by p = Some c" if i: "i \<in> set (op_inputs op)" for i
  proof -
    obtain p where p: "p \<in> set (parts s')" "pr_id p = i" "pr_deleted_by p = Some c"
      using took_effect_tombstones [OF assms(1) e(1) i] e(2) by auto
    from run_part [OF assms(3) p(1)] obtain q where "q \<in> set (parts t)" "same_part p q" by blast
    with p(2,3) show ?thesis by (intro bexI [of _ q]) (simp_all add: same_part_def)
  qed
  have "i \<notin> set (op_inputs op')"
    if i: "i \<in> set (op_inputs op)"
      and c': "commit_txn env' de' ht' op' identity' offsets' lease' t = (t', Inr (Committed c'))"
    for i env' de' ht' op' identity' offsets' lease' t' c'
  proof
    assume "i \<in> set (op_inputs op')"
    moreover from c' have "took_effect env' de' ht' op' identity' offsets' lease' t t'"
      by (cases rule: commit_txn_cases) auto
    then have "set (op_inputs op') \<subseteq> live_ids t ht'"
      using wf by (auto simp: took_effect_def wf_log_def inputs_live_iff)
    ultimately obtain q where "q \<in> set (parts t)" "pr_id q = i" "live q" by (auto simp: live_ids_def)
    moreover obtain p where "p \<in> set (parts t)" "pr_id p = i" "pr_deleted_by p = Some c" using dead [OF i] by blast
    ultimately show False using part_by_id [of t p q] wf by (simp add: wf_log_def live_def)
  qed
  with dead show ?thesis by blast
qed

text \<open>C7: deleting a compacted part.\<close>

theorem part_consumed_once_witness:
  "\<exists>s'. commit_txn (quiet_env 5) (\<lambda>_. None) 1 (Replace [1] [demo_meta ''a'']) None [] None demo_catalog
      = (s', Inr (Committed 2)) \<and>
    (\<forall>env t' c'. commit_txn env (\<lambda>_. None) 1 (Delete [1]) None [] None s' \<noteq> (t', Inr (Committed c')))"
proof -
  obtain s' where 1: "commit_txn (quiet_env 5) (\<lambda>_. None) 1 (Replace [1] [demo_meta ''a'']) None [] None demo_catalog
      = (s', Inr (Committed 2))"
    by (simp add: commit_exec quiet_env_def demo_defs)
  have "commit_txn env (\<lambda>_. None) 1 (Delete [1]) None [] None s' \<noteq> (t', Inr (Committed c'))" for env t' c'
  proof
    assume "commit_txn env (\<lambda>_. None) 1 (Delete [1]) None [] None s' = (t', Inr (Committed c'))"
    from part_consumed_once [OF demo_wf 1 rtranclp.rtrancl_refl, THEN conjunct2, rule_format, OF this]
    show False by simp
  qed
  with 1 show ?thesis by (intro exI [of _ s']) simp
qed

text \<open>C11: an offset is consumed at most once. When every range ever committed is in order and
  its end is representable, a range that committed after another on the same topic
  partition of the same hypertable, with any activity in between, starts past the other's
  end: records are not ingested twice.\<close>

theorem offsets_consumed_once:
  assumes "commit_txn env de ht op identity offsets lease s = (s', Inr (Committed c))"
    and "(catalog_step (list_all consumable))\<^sup>*\<^sup>* s' t"
    and "commit_txn env' de' ht op' identity' offsets' lease' t = (t', Inr (Committed c'))"
    and "list_all consumable offsets" "list_all consumable offsets'"
    and "r \<in> set offsets" "r' \<in> set offsets'"
    and "or_topic r' = or_topic r" "or_partition r' = or_partition r"
  shows "or_last r < or_first r'"
proof -
  from assms(1) obtain rows f where 1: "upsert_all ht offsets (ingest_offsets s) = Some rows"
    "s' = (applied env de ht op identity rows s)\<lparr>armed_fault := f\<rparr>"
    by (cases rule: commit_txn_cases) (auto simp: took_effect_def)
  from assms(3) obtain rows' where 2: "upsert_all ht offsets' (ingest_offsets t) = Some rows'"
    by (cases rule: commit_txn_cases) (auto simp: took_effect_def)
  have k: "range_key ht r' = range_key ht r" using assms(8,9) by (simp add: range_key_def)
  have "reached (next_offset (ingest_offsets s') (range_key ht r)) (or_last r + 1)"
    using upsert_all_consumes [OF 1(1) _ assms(6)] assms(4) 1(2) by (simp add: list_all_iff)
  then have "reached (next_offset (ingest_offsets t) (range_key ht r')) (or_last r + 1)"
    unfolding k by (rule run_reached [OF assms(2)])
  from upsert_all_requires [OF 2 _ assms(7) this] assms(5) show ?thesis by (simp add: list_all_iff)
qed

text \<open>C11: two batches of one topic partition.\<close>

theorem offsets_consumed_once_witness:
  fixes a b :: offset_range
  defines "a \<equiv> \<lparr>or_topic = ''t'', or_partition = 0, or_first = 0, or_last = 9\<rparr>"
  defines "b \<equiv> \<lparr>or_topic = ''t'', or_partition = 0, or_first = 10, or_last = 14\<rparr>"
  shows "\<exists>s' t'. commit_txn (quiet_env 5) (\<lambda>_. None) 1 (Add []) None [a] None demo_catalog = (s', Inr (Committed 2))
    \<and> commit_txn (quiet_env 6) (\<lambda>_. None) 1 (Add []) None [b] None s' = (t', Inr (Committed 3))
    \<and> or_last a < or_first b"
proof -
  obtain s' where 1: "commit_txn (quiet_env 5) (\<lambda>_. None) 1 (Add []) None [a] None demo_catalog = (s', Inr (Committed 2))"
    "\<exists>t'. commit_txn (quiet_env 6) (\<lambda>_. None) 1 (Add []) None [b] None s' = (t', Inr (Committed 3))"
    by (simp add: commit_exec quiet_env_def demo_defs a_def b_def wrap_i64_def)
  then obtain t' where 2: "commit_txn (quiet_env 6) (\<lambda>_. None) 1 (Add []) None [b] None s' = (t', Inr (Committed 3))"
    by blast
  have "or_last a < or_first b"
    by (rule offsets_consumed_once [OF 1(1) rtranclp.rtrancl_refl 2])
      (simp_all add: a_def b_def consumable_def in_i64_def)
  with 1 2 show ?thesis by blast
qed

section \<open>The fence\<close>

text \<open>C8: a worker that lost its lease commits nothing. Once a drawn token is not the tenancy
  of its partition, then after any further activity by any clients, re-acquisition by
  another worker or by the same one included, a fenced commit under the old token leaves
  every table alone and is not \<open>Committed\<close>.\<close>

theorem zombie_cannot_commit:
  assumes "wf_leases s" "cl_generation l \<le> lease_generation_seq s"
    and "lease_holder s (lease_key l) \<noteq> Some (cl_owner l, cl_generation l)"
    and "(catalog_step Q)\<^sup>*\<^sup>* s t"
    and "commit_txn env de ht op identity offsets (Some l) t = (t', r)"
  shows "same_tables t t' \<and> (\<forall>c. r \<noteq> Inr (Committed c))"
  using assms(5)
proof (cases rule: commit_txn_cases)
  case untouched
  then show ?thesis by auto
next
  case effect
  then obtain h where "cl_hypertable l = ht" "lease_at t (ht, cl_partition l) = Some h" "same_tenancy h l"
    by (auto simp: took_effect_def fence_ok_def)
  then have "lease_holder t (lease_key l) = Some (cl_owner l, cl_generation l)"
    by (simp add: lease_holder_def lease_key_def same_tenancy_def)
  with lease_tenancy.never_returns [OF run_lease [OF assms(4)] assms(1) assms(2) assms(3)] show ?thesis by simp
qed

text \<open>C8: the token of generation 1 was lost and its own holder has claimed the partition again,
  under generation 2; a commit still under the old token is refused.\<close>

theorem zombie_cannot_commit_witness:
  fixes s t :: catalog
  defines "s \<equiv> demo_catalog\<lparr>lease_generation_seq := 1\<rparr>"
  defines "t \<equiv> fst (try_acquire_compaction_lease (quiet_env 5) 1 JNull (cl_owner demo_lease) 100 s)"
  shows "lease_holder t (1, JNull) = Some (cl_owner demo_lease, 2) \<and>
    (\<exists>t' r. commit_txn (quiet_env 10) (\<lambda>_. None) 1 (Replace [1] []) None [] (Some demo_lease) t = (t', r) \<and>
      same_tables t t' \<and> r = Inl (LeaseLost JNull))"
proof -
  have "wf_leases s" "cl_generation demo_lease \<le> lease_generation_seq s"
    "lease_holder s (lease_key demo_lease) \<noteq> Some (cl_owner demo_lease, cl_generation demo_lease)"
    by (simp_all add: s_def demo_defs wf_leases_def demo_lease_def lease_holder_def lease_at_def)
  note z = zombie_cannot_commit [OF this]
  have run: "(catalog_step (\<lambda>_. True))\<^sup>*\<^sup>* s t" unfolding t_def by (intro r_into_rtranclp catalog_step.acquire)
  have h: "lease_holder t (1, JNull) = Some (cl_owner demo_lease, 2)"
    by (simp add: t_def s_def try_acquire_compaction_lease_def ttl_millis_def in_i64_def exec_auto_def acquire_stmt_def Let_def
        lease_holder_def lease_at_def lease_key_def hypertable_exists_def demo_defs quiet_env_def)
  obtain t' r where c: "commit_txn (quiet_env 10) (\<lambda>_. None) 1 (Replace [1] []) None [] (Some demo_lease) t = (t', r)"
    by force
  have "r = Inl (LeaseLost JNull)" using arg_cong [OF c, of snd]
    by (simp add: t_def s_def try_acquire_compaction_lease_def ttl_millis_def in_i64_def exec_auto_def acquire_stmt_def Let_def
        lease_holder_def lease_at_def lease_key_def commit_exec fence_lease_def demo_defs quiet_env_def demo_lease_def)
  with h c z [OF run c] show ?thesis by blast
qed

section \<open>The catalog's invariant\<close>

text \<open>C18: every catalog that operations can produce from the empty one, whatever fails on the
  way, is well formed: commit ids and part ids are unique, positive and below their
  sequences; an operation key appears once per hypertable; every part was created by a
  commit of its own hypertable that is in the log, and a tombstoned one deleted by a later
  such commit; there is one cursor per topic partition; lease rows are unique per
  partition with distinct drawn generations.\<close>

theorem reachable_catalog_wf:
  assumes "(catalog_step Q)\<^sup>*\<^sup>* empty_catalog s"
  shows "wf_log s \<and> wf_leases s"
proof
  show "wf_log s"
    by (rule run_wf_log [OF assms])
      (simp add: empty_catalog_def wf_log_def wf_commits_def wf_parts_def wf_offsets_def)
  have "wf_leases empty_catalog" by (simp add: wf_leases_def empty_catalog_def)
  then show "wf_leases s" using lease_tenancy.good_run run_lease [OF assms] by blast
qed

text \<open>C18: the catalog after a hypertable is registered, two parts are added to it and one of them is
  deleted.\<close>

theorem reachable_catalog_wf_witness:
  fixes sch :: json
  defines "sch \<equiv> JObject [(''fields'', JArray [JObject [(''name'', JString ''k''), (''type'', JString ''int64'')]])]"
  shows "\<exists>s1 s2 s3. create_hypertable (quiet_env 0) ''t'' sch JNull [''k''] ''k'' empty_catalog = (s1, Inr 1) \<and>
    commit_txn (quiet_env 5) (\<lambda>_. None) 1 (Add [demo_meta ''a'', demo_meta ''b'']) None [] None s1 = (s2, Inr (Committed 1)) \<and>
    commit_txn (quiet_env 6) (\<lambda>_. None) 1 (Delete [2]) None [] None s2 = (s3, Inr (Committed 2)) \<and>
    map pr_deleted_by (parts s3) = [None, Some 2] \<and> wf_log s3 \<and> wf_leases s3"
proof -
  let ?row = "\<lparr>hr_id = 1, hr_name = ''t'', hr_schema = sch, hr_partition_spec = JNull, hr_sort_key = [''k''],
     hr_packing_key = ''k'', hr_target_file_bytes = None\<rparr>"
  let ?s1 = "empty_catalog\<lparr>hypertables := [?row], hypertable_seq := 1\<rparr>"
  have 1: "create_hypertable (quiet_env 0) ''t'' sch JNull [''k''] ''k'' empty_catalog = (?s1, Inr 1)"
    by (simp add: create_hypertable_def sch_def parse_def parse_field_def get_str_def get_bool_def parse_type_def
        parse_kind_def ok_or_def physical_schema_def schema_where_def field_of_def validate_sort_key_def exec_auto_def
        quiet_env_def empty_catalog_def Let_def)
  obtain s2 s3 where 2: "commit_txn (quiet_env 5) (\<lambda>_. None) 1 (Add [demo_meta ''a'', demo_meta ''b'']) None [] None ?s1 = (s2, Inr (Committed 1))"
      and 3: "commit_txn (quiet_env 6) (\<lambda>_. None) 1 (Delete [2]) None [] None s2 = (s3, Inr (Committed 2))"
      and d: "map pr_deleted_by (parts s3) = [None, Some 2]"
    by (simp add: commit_exec quiet_env_def demo_defs)
  have commit: "catalog_step (\<lambda>_. True) s t" if "commit_txn env de ht op i offs l s = (t, r)" for env de ht op i offs l s t r
    using catalog_step.commit [of "\<lambda>_. True" offs s env de ht op i l] that by simp
  have "catalog_step (\<lambda>_. True) empty_catalog ?s1"
    using catalog_step.hypertable [of "\<lambda>_. True" empty_catalog "quiet_env 0" "''t''" sch JNull "[''k'']" "''k''"] unfolding 1 fst_conv .
  with commit [OF 2] commit [OF 3]
  have "(catalog_step (\<lambda>_. True))\<^sup>*\<^sup>* empty_catalog s3" by (meson converse_rtranclp_into_rtranclp r_into_rtranclp)
  from reachable_catalog_wf [OF this] 1 2 3 d show ?thesis by (intro exI [of _ ?s1] exI [of _ s2] exI [of _ s3] conjI) simp_all
qed

end
