(* ===== verification/GcWorker.thy ===== *)
theory GcWorker
  imports CommitProps
begin

text \<open>
  The garbage-collection worker, \<^verbatim>\<open>crates/ukiel-gc/src/lib.rs\<close>: reaping tombstoned parts,
  sweeping orphaned uploads, the listing backstop and the ticking loop. The worker is
  sequential; what other clients do to the catalog and the store between two of its calls
  is the environment's \<open>ge_others\<close>. The object store is third-party code: its failures and
  its path normalisation (\<open>Path::from\<close>) and prefix test (\<open>list\<close>) come from the environment.
  Times are milliseconds, so a grace of \<open>n\<close> seconds is \<open>1000 * n\<close>. Every external call appends to
  a trace what it met: its number and the catalog it ran on, the objects it listed, the object it
  deleted. The worker never reads the trace; the theorems are stated over it.
\<close>

section \<open>Definitions\<close>

datatype gc_error = GcCatalog catalog_error | GcObjectStore store_error

record gc_config =
  tombstone_grace :: time
  orphan_grace_secs :: i64
  poll_interval_ms :: nat
  reconcile_every_n_passes :: nat
  ready :: bool

definition gc_default_config :: gc_config where
  "gc_default_config = \<lparr>tombstone_grace = 900000, orphan_grace_secs = 3600, poll_interval_ms = 60000,
     reconcile_every_n_passes = 60, ready = False\<rparr>"

record gc_stats =
  reaped_parts :: nat
  swept_orphans :: nat
  reconciled_orphans :: nat

definition gc_default_stats :: gc_stats where
  "gc_default_stats = \<lparr>reaped_parts = 0, swept_orphans = 0, reconciled_orphans = 0\<rparr>"

type_synonym objects = "(string \<times> time) list"

datatype gc_event =
    Called nat catalog
  | Listed nat string objects
  | Deleted nat string catalog

record gc_world =
  gw_tick :: nat
  gw_catalog :: catalog
  gw_objects :: objects
  gw_ready :: bool
  gw_trace :: "gc_event list"

text \<open>The environment of the \<open>n\<close>-th external call.\<close>

record gc_env =
  ge_db :: "nat \<Rightarrow> env"
  ge_others :: "nat \<Rightarrow> catalog \<times> objects \<Rightarrow> catalog \<times> objects"
  ge_delete :: "nat \<Rightarrow> (store_error \<times> bool) option"
  ge_list :: "nat \<Rightarrow> store_error option"
  ge_utc :: "nat \<Rightarrow> time"
  ge_path :: "string \<Rightarrow> string"
  ge_under :: "string \<Rightarrow> string \<Rightarrow> bool"

type_synonym 'a gc = "gc_world \<Rightarrow> gc_world \<times> (gc_error, 'a) result"

definition gc_call :: "gc_env \<Rightarrow> (env \<Rightarrow> 'a tx) \<Rightarrow> 'a gc" where
  "gc_call ge m w =
     (let n = gw_tick w; (c, os) = ge_others ge n (gw_catalog w, gw_objects w); (c', r) = m (ge_db ge n) c
      in (w\<lparr>gw_tick := Suc n, gw_catalog := c', gw_objects := os, gw_trace := gw_trace w @ [Called n c]\<rparr>, map_sum GcCatalog id r))"

definition gc_bind :: "'a gc \<Rightarrow> ('a \<Rightarrow> 'b gc) \<Rightarrow> 'b gc" where
  "gc_bind m f = (\<lambda>w. case m w of (w', Inl e) \<Rightarrow> (w', Inl e) | (w', Inr x) \<Rightarrow> f x w')"

definition gc_return :: "'a \<Rightarrow> 'a gc" where
  "gc_return x = (\<lambda>w. (w, Inr x))"

text \<open>\<open>store.delete\<close>, with \<open>NotFound\<close> counted as deleted by every caller.\<close>

definition remove_object :: "string \<Rightarrow> objects \<Rightarrow> objects" where
  "remove_object p os = filter (\<lambda>x. fst x \<noteq> p) os"

definition gc_delete_object :: "gc_env \<Rightarrow> string \<Rightarrow> unit gc" where
  "gc_delete_object ge p w =
     (let n = gw_tick w; (c, os) = ge_others ge n (gw_catalog w, gw_objects w);
          w' = w\<lparr>gw_tick := Suc n, gw_catalog := c, gw_trace := gw_trace w @ [Deleted n p c]\<rparr>
      in case ge_delete ge n of
           None \<Rightarrow> (w'\<lparr>gw_objects := remove_object p os\<rparr>, Inr ())
         | Some (e, gone) \<Rightarrow>
             (w'\<lparr>gw_objects := if gone then remove_object p os else os\<rparr>,
              if e = StoreNotFound then Inr () else Inl (GcObjectStore e)))"

text \<open>One iteration of a destructive loop answers whether a candidate was handled; the loop
  asks again until there is none, and counts.\<close>

partial_function (option) authorized_loop ::
  "('w \<Rightarrow> 'w \<times> ('e, bool) result) \<Rightarrow> 'w \<Rightarrow> nat \<Rightarrow> ('w \<times> nat \<times> ('e, unit) result) option" where
  "authorized_loop step w n =
     (case step w of
        (w', Inl e) \<Rightarrow> Some (w', n, Inl e)
      | (w', Inr again) \<Rightarrow> if again then authorized_loop step w' (Suc n) else Some (w', n, Inr ()))"

definition authorized_step ::
  "gc_env \<Rightarrow> (env \<Rightarrow> 'c option tx) \<Rightarrow> ('c \<Rightarrow> string) \<Rightarrow> (env \<Rightarrow> 'c \<Rightarrow> unit tx) \<Rightarrow> bool gc" where
  "authorized_step ge candidate location settle =
     gc_bind (gc_call ge candidate) (\<lambda>found.
       case found of
         None \<Rightarrow> gc_return False
       | Some x \<Rightarrow>
           gc_bind (gc_delete_object ge (location x)) (\<lambda>_.
           gc_bind (gc_call ge (\<lambda>env. settle env x)) (\<lambda>_.
             gc_return True)))"

definition reap_step :: "gc_env \<Rightarrow> gc_config \<Rightarrow> hypertable_id \<Rightarrow> bool gc" where
  "reap_step ge cfg ht =
     authorized_step ge
       (\<lambda>env. next_reapable_part env ht (tombstone_grace cfg))
       (\<lambda>part. ge_path ge (path (part_meta part)))
       (\<lambda>env part. mark_purged env [part_id part])"

definition reap ::
  "gc_env \<Rightarrow> gc_config \<Rightarrow> hypertable_id \<Rightarrow> gc_stats \<Rightarrow> gc_world \<Rightarrow> (gc_world \<times> gc_stats \<times> (gc_error, unit) result) option" where
  "reap ge cfg ht stats w =
     map_option (\<lambda>(w', n, r). (w', stats\<lparr>reaped_parts := reaped_parts stats + n\<rparr>, r))
       (authorized_loop (reap_step ge cfg ht) w 0)"

definition sweep_step :: "gc_env \<Rightarrow> gc_config \<Rightarrow> hypertable_id \<Rightarrow> bool gc" where
  "sweep_step ge cfg ht =
     authorized_step ge
       (\<lambda>env. next_orphaned_pending_object env ht (1000 * orphan_grace_secs cfg))
       (\<lambda>p. ge_path ge p)
       (\<lambda>env p. clear_pending_objects env [p])"

definition sweep ::
  "gc_env \<Rightarrow> gc_config \<Rightarrow> hypertable_id \<Rightarrow> gc_stats \<Rightarrow> gc_world \<Rightarrow> (gc_world \<times> gc_stats \<times> (gc_error, unit) result) option" where
  "sweep ge cfg ht stats w =
     map_option (\<lambda>(w', n, r). (w', stats\<lparr>swept_orphans := swept_orphans stats + n\<rparr>, r))
       (authorized_loop (sweep_step ge cfg ht) w 0)"

fun gc_hypertables ::
  "gc_env \<Rightarrow> gc_config \<Rightarrow> hypertable list \<Rightarrow> gc_stats \<Rightarrow> gc_world \<Rightarrow> (gc_world \<times> (gc_error, gc_stats) result) option" where
  "gc_hypertables ge cfg [] stats w = Some (w, Inr stats)"
| "gc_hypertables ge cfg (h # hs) stats w =
     Option.bind (reap ge cfg (ht_id h) stats w) (\<lambda>(w1, st1, r1).
       case r1 of
         Inl e \<Rightarrow> Some (w1, Inl e)
       | Inr _ \<Rightarrow>
           Option.bind (sweep ge cfg (ht_id h) st1 w1) (\<lambda>(w2, st2, r2).
             case r2 of
               Inl e \<Rightarrow> Some (w2, Inl e)
             | Inr _ \<Rightarrow> gc_hypertables ge cfg hs st2 w2))"

definition run_once :: "gc_env \<Rightarrow> gc_config \<Rightarrow> gc_world \<Rightarrow> (gc_world \<times> (gc_error, gc_stats) result) option" where
  "run_once ge cfg w =
     (case gc_call ge list_hypertables w of
        (w', Inl e) \<Rightarrow> Some (w', Inl e)
      | (w', Inr hs) \<Rightarrow> gc_hypertables ge cfg hs gc_default_stats w')"

text \<open>\<open>Duration::num_seconds\<close> truncates toward zero.\<close>

definition num_seconds :: "time \<Rightarrow> int" where
  "num_seconds d = (if 0 \<le> d then d div 1000 else - (- d div 1000))"

fun reconcile_objects ::
  "gc_env \<Rightarrow> gc_config \<Rightarrow> string set \<Rightarrow> time \<Rightarrow> objects \<Rightarrow> bool \<Rightarrow> gc_stats \<Rightarrow> gc_stats gc" where
  "reconcile_objects ge cfg known now [] deleted_any stats = gc_return stats"
| "reconcile_objects ge cfg known now ((loc, modified) # objs) deleted_any stats =
     (if loc \<in> known then reconcile_objects ge cfg known now objs deleted_any stats
      else if num_seconds (now - modified) < orphan_grace_secs cfg
      then reconcile_objects ge cfg known now objs deleted_any stats
      else
        gc_bind (if deleted_any then gc_call ge ping else gc_return ()) (\<lambda>_.
        gc_bind (gc_delete_object ge loc) (\<lambda>_.
          reconcile_objects ge cfg known now objs True
            (stats\<lparr>reconciled_orphans := reconciled_orphans stats + 1\<rparr>))))"

definition gc_list :: "gc_env \<Rightarrow> string \<Rightarrow> objects gc" where
  "gc_list ge pre w =
     (let n = gw_tick w; (c, os) = ge_others ge n (gw_catalog w, gw_objects w);
          w' = w\<lparr>gw_tick := Suc n, gw_catalog := c, gw_objects := os\<rparr>
      in case ge_list ge n of
           Some e \<Rightarrow> (w', Inl (GcObjectStore e))
         | None \<Rightarrow>
             let objs = filter (\<lambda>x. ge_under ge pre (fst x)) os
             in (w'\<lparr>gw_trace := gw_trace w @ [Listed n pre objs]\<rparr>, Inr objs))"

definition reconcile_hypertable :: "gc_env \<Rightarrow> gc_config \<Rightarrow> hypertable_id \<Rightarrow> gc_stats \<Rightarrow> gc_stats gc" where
  "reconcile_hypertable ge cfg ht stats =
     gc_bind (gc_call ge (\<lambda>env. all_part_paths env ht)) (\<lambda>committed.
     gc_bind (gc_call ge (\<lambda>env. all_pending_paths env ht)) (\<lambda>pending.
     gc_bind (gc_list ge (ge_path ge (''ht/'' @ show_int ht))) (\<lambda>objs w.
       reconcile_objects ge cfg (set committed \<union> set pending) (ge_utc ge (gw_tick w)) objs False stats w)))"

fun reconcile_hypertables :: "gc_env \<Rightarrow> gc_config \<Rightarrow> hypertable list \<Rightarrow> gc_stats \<Rightarrow> gc_stats gc" where
  "reconcile_hypertables ge cfg [] stats = gc_return stats"
| "reconcile_hypertables ge cfg (h # hs) stats =
     gc_bind (reconcile_hypertable ge cfg (ht_id h) stats) (reconcile_hypertables ge cfg hs)"

definition reconcile_once :: "gc_env \<Rightarrow> gc_config \<Rightarrow> gc_stats gc" where
  "reconcile_once ge cfg =
     gc_bind (gc_call ge list_hypertables) (\<lambda>hs. reconcile_hypertables ge cfg hs gc_default_stats)"

text \<open>\<open>run\<close>: \<open>ticks\<close> ticks fire before the cancellation; \<open>pass\<close> counts completed passes.\<close>

fun gc_run :: "gc_env \<Rightarrow> gc_config \<Rightarrow> nat \<Rightarrow> nat \<Rightarrow> gc_world \<Rightarrow> (gc_world \<times> (gc_error, unit) result) option" where
  "gc_run ge cfg 0 pass w = Some (w, Inr ())"
| "gc_run ge cfg (Suc ticks) pass w =
     Option.bind (run_once ge cfg w) (\<lambda>(w1, r).
       case r of
         Inl e \<Rightarrow> Some (w1, Inl e)
       | Inr stats \<Rightarrow>
           let w2 = (if ready cfg then w1\<lparr>gw_ready := True\<rparr> else w1) in
           if 0 < reconcile_every_n_passes cfg \<and> reconcile_every_n_passes cfg dvd Suc pass then
             (case reconcile_once ge cfg w2 of
                (w3, Inl e) \<Rightarrow> Some (w3, Inl e)
              | (w3, Inr _) \<Rightarrow> gc_run ge cfg ticks (Suc pass) w3)
           else gc_run ge cfg ticks (Suc pass) w2)"

section \<open>Destructive loops\<close>

lemma authorized_loop_induct:
  assumes "authorized_loop step w n = Some y"
    and "\<And>w n w' e. step w = (w', Inl e) \<Longrightarrow> P w n (w', n, Inl e)"
    and "\<And>w n w'. step w = (w', Inr False) \<Longrightarrow> P w n (w', n, Inr ())"
    and "\<And>w n w' y. step w = (w', Inr True) \<Longrightarrow> P w' (Suc n) y \<Longrightarrow> P w n y"
  shows "P w n y"
proof -
  have "st = step \<longrightarrow> P w n y" if "authorized_loop st w n = Some y" for st w n y
  proof (rule authorized_loop.raw_induct [where P = "\<lambda>st w n y. st = step \<longrightarrow> P w n y", OF _ that], rule impI)
    fix f st w n y
    assume IH: "\<And>st w n y. f st w n = Some y \<Longrightarrow> st = step \<longrightarrow> P w n y"
      and y: "(case st w of (w', Inl e) \<Rightarrow> Some (w', n, Inl e)
        | (w', Inr again) \<Rightarrow> if again then f st w' (Suc n) else Some (w', n, Inr ())) = Some y"
      and st: "st = step"
    obtain w' r where s: "step w = (w', r)" by force
    show "P w n y"
    proof (cases r)
      case (Inl e)
      with y s st assms(2) show ?thesis by auto
    next
      case (Inr b)
      with y s st assms(3,4) IH show ?thesis by (cases b) auto
    qed
  qed
  with assms(1) show ?thesis by blast
qed

text \<open>What every iteration keeps sound, the loop keeps sound.\<close>

locale safe_loop =
  fixes step :: "'w \<Rightarrow> 'w \<times> ('e, bool) result"
    and sound :: "'w \<Rightarrow> 'w \<Rightarrow> bool"
  assumes step_sound: "step w = (w', r) \<Longrightarrow> sound w w'"
    and sound_trans: "sound a b \<Longrightarrow> sound b c \<Longrightarrow> sound a c"
begin

lemma loop_sound:
  assumes "authorized_loop step w n = Some (w', m, r)"
  shows "sound w w'"
proof -
  let ?P = "\<lambda>w n y. sound w (fst y)"
  have "?P w n (w', m, r)"
  proof (rule authorized_loop_induct [where P = ?P, OF assms])
    fix w n w' y assume "step w = (w', Inr True)" "?P w' (Suc n) y"
    then show "?P w n y" using step_sound [of w w'] by (blast intro: sound_trans)
  qed (use step_sound in auto)
  then show ?thesis by simp
qed

end

text \<open>What every completed iteration shrinks makes the loop end, and end with nothing left.\<close>

locale progress_loop =
  fixes step :: "'w \<Rightarrow> 'w \<times> ('e, bool) result"
    and backlog :: "'w \<Rightarrow> nat"
    and calm :: "'w \<Rightarrow> bool"
    and exhausted :: "'w \<Rightarrow> bool"
  assumes progress: "calm w \<Longrightarrow> step w = (w', Inr True) \<Longrightarrow> calm w' \<and> Suc (backlog w') \<le> backlog w"
    and complete: "calm w \<Longrightarrow> step w = (w', Inr False) \<Longrightarrow> exhausted w' \<and> backlog w' \<le> backlog w"
begin

lemma loop_ends:
  "calm w \<Longrightarrow> \<exists>w' m r. authorized_loop step w n = Some (w', m, r) \<and>
     (r = Inr () \<longrightarrow> exhausted w' \<and> m + backlog w' \<le> n + backlog w)"
proof (induction "backlog w" arbitrary: w n rule: less_induct)
  case less
  obtain w' r where s: "step w = (w', r)" by force
  show ?case
  proof (cases r)
    case (Inl e)
    with s show ?thesis by (simp add: authorized_loop.simps)
  next
    case (Inr b)
    show ?thesis
    proof (cases b)
      case True
      with progress [OF less.prems] s Inr have *: "calm w'" "Suc (backlog w') \<le> backlog w" by simp_all
      then have "backlog w' < backlog w" by simp
      from less.hyps [OF this *(1), of "Suc n"] obtain w'' m r'
        where "authorized_loop step w' (Suc n) = Some (w'', m, r')"
          "r' = Inr () \<longrightarrow> exhausted w'' \<and> m + backlog w'' \<le> Suc n + backlog w'" by blast
      moreover have "authorized_loop step w n = authorized_loop step w' (Suc n)"
        using s Inr True by (simp add: authorized_loop.simps [of step w n])
      ultimately show ?thesis using *(2) by fastforce
    next
      case False
      with complete [OF less.prems] s Inr show ?thesis by (simp add: authorized_loop.simps)
    qed
  qed
qed

end

section \<open>What an iteration does\<close>

lemma gc_bind_Inl:
  "gc_bind m f w = (w', Inl e) \<longleftrightarrow> m w = (w', Inl e) \<or> (\<exists>w1 x. m w = (w1, Inr x) \<and> f x w1 = (w', Inl e))"
  by (auto simp: gc_bind_def split: prod.splits sum.splits)

lemma gc_bind_Inr:
  "gc_bind m f w = (w', Inr y) \<longleftrightarrow> (\<exists>w1 x. m w = (w1, Inr x) \<and> f x w1 = (w', Inr y))"
  by (auto simp: gc_bind_def split: prod.splits sum.splits)

lemma gc_return_iff: "gc_return x w = (w', r) \<longleftrightarrow> w' = w \<and> r = Inr x"
  by (auto simp: gc_return_def)

text \<open>\<open>reap_done\<close> and \<open>sweep_done\<close> below judge by the clock of the worker's last call. What
  others may do between calls: any run of the catalog.\<close>

definition others_run :: "gc_env \<Rightarrow> bool" where
  "others_run ge \<longleftrightarrow> (\<forall>n c os c' os'. ge_others ge n (c, os) = (c', os') \<longrightarrow> (catalog_step (\<lambda>_. True))\<^sup>*\<^sup>* c c')"

definition undisturbed :: "gc_env \<Rightarrow> bool" where
  "undisturbed ge \<longleftrightarrow> ge_others ge = (\<lambda>n x. x)"

lemma gc_call_cases:
  assumes "gc_call ge m w = (w', r)"
  obtains c os r' where "ge_others ge (gw_tick w) (gw_catalog w, gw_objects w) = (c, os)"
    "m (ge_db ge (gw_tick w)) c = (gw_catalog w', r')" "r = map_sum GcCatalog id r'" "gw_objects w' = os"
    "gw_tick w' = Suc (gw_tick w)" "gw_trace w' = gw_trace w @ [Called (gw_tick w) c]"
  using assms that by (auto simp: gc_call_def Let_def split: prod.splits)

lemma gc_call_Inr:
  assumes "gc_call ge m w = (w', Inr x)"
  obtains c os where "ge_others ge (gw_tick w) (gw_catalog w, gw_objects w) = (c, os)"
    "m (ge_db ge (gw_tick w)) c = (gw_catalog w', Inr x)" "gw_objects w' = os"
    "gw_tick w' = Suc (gw_tick w)" "gw_trace w' = gw_trace w @ [Called (gw_tick w) c]"
proof (rule gc_call_cases [OF assms])
  fix c os r' assume *: "ge_others ge (gw_tick w) (gw_catalog w, gw_objects w) = (c, os)"
    "m (ge_db ge (gw_tick w)) c = (gw_catalog w', r')" "Inr x = map_sum GcCatalog id r'" "gw_objects w' = os"
    "gw_tick w' = Suc (gw_tick w)" "gw_trace w' = gw_trace w @ [Called (gw_tick w) c]"
  from *(3) have "r' = Inr x" by (cases r') auto
  with * that show thesis by blast
qed

lemma gc_delete_cases:
  assumes "gc_delete_object ge p w = (w', r)"
  obtains c os where "ge_others ge (gw_tick w) (gw_catalog w, gw_objects w) = (c, os)" "gw_catalog w' = c"
    "gw_tick w' = Suc (gw_tick w)" "gw_trace w' = gw_trace w @ [Deleted (gw_tick w) p c]"
  using assms that by (auto simp: gc_delete_object_def Let_def split: prod.splits option.splits)

lemma authorized_step_cases:
  assumes "authorized_step ge candidate location settle w = (w', r)"
  obtains (refused) e where "gc_call ge candidate w = (w', Inl e)" "r = Inl e"
  | (none) "gc_call ge candidate w = (w', Inr None)" "r = Inr False"
  | (kept) w1 x e where "gc_call ge candidate w = (w1, Inr (Some x))"
      "gc_delete_object ge (location x) w1 = (w', Inl e)" "r = Inl e"
  | (gone) w1 x w2 r3 where "gc_call ge candidate w = (w1, Inr (Some x))"
      "gc_delete_object ge (location x) w1 = (w2, Inr ())"
      "gc_call ge (\<lambda>env. settle env x) w2 = (w', r3)" "r = map_sum id (\<lambda>_. True) r3"
proof -
  obtain w1 f where 1: "gc_call ge candidate w = (w1, f)" by force
  show thesis
  proof (cases f)
    case (Inl e)
    with assms 1 show thesis by (intro refused) (auto simp: authorized_step_def gc_bind_def)
  next
    case (Inr m)
    show thesis
    proof (cases m)
      case None
      with assms 1 Inr show thesis by (intro none) (auto simp: authorized_step_def gc_bind_def gc_return_def)
    next
      case (Some x)
      obtain w2 r2 where 2: "gc_delete_object ge (location x) w1 = (w2, r2)" by force
      obtain w3 r3 where 3: "gc_call ge (\<lambda>env. settle env x) w2 = (w3, r3)" by force
      show thesis
      proof (cases r2)
        case (Inl e)
        with assms 1 \<open>f = Inr m\<close> Some 2 show thesis
          by (intro kept) (auto simp: authorized_step_def gc_bind_def)
      next
        case (Inr u)
        with assms 1 \<open>f = Inr m\<close> Some 2 3 have "w' = w3" "r = map_sum id (\<lambda>_. True) r3"
          by (auto simp: authorized_step_def gc_bind_def gc_return_def split: sum.splits)
        with gone 1 \<open>f = Inr m\<close> Some 2 3 Inr show thesis by simp
      qed
    qed
  qed
qed

lemma delete_run:
  assumes "ge_others ge n (c, os) = (c', os')" "others_run ge"
  shows "(catalog_step (\<lambda>_. True))\<^sup>*\<^sup>* c c'"
  using assms unfolding others_run_def by blast

text \<open>What may stand at a delete. \<open>before\<close> is the trace up to it, \<open>n\<close> the number of the call, \<open>loc\<close>
  the object and \<open>c\<close> the catalog at that moment.

  A reap: the call directly before it, number \<open>n - 1\<close>, met a catalog that answers the candidate
  query with a part at that path, which is reapable there, and is still tombstoned in \<open>c\<close>.\<close>

definition reap_delete_ok :: "gc_env \<Rightarrow> gc_config \<Rightarrow> gc_event list \<Rightarrow> nat \<Rightarrow> string \<Rightarrow> catalog \<Rightarrow> bool" where
  "reap_delete_ok ge cfg before n loc c \<longleftrightarrow> (\<exists>m c0 ht. \<exists>p \<in> set (parts c0). \<exists>q \<in> set (parts c).
     n = Suc m \<and> suffix [Called m c0] before \<and>
     next_reapable_part (ge_db ge m) ht (tombstone_grace cfg) c0 = (c0, Inr (Some (part_of_row p))) \<and>
     reapable (ge_db ge m) (tombstone_grace cfg) ht c0 p \<and>
     loc = ge_path ge (path (pr_meta p)) \<and> same_part p q \<and> \<not> live q)"

text \<open>A sweep: the call directly before it met a catalog that answers the candidate query with an
  upload intent at that path, orphaned by the clock of that call.\<close>

definition sweep_delete_ok :: "gc_env \<Rightarrow> gc_config \<Rightarrow> gc_event list \<Rightarrow> nat \<Rightarrow> string \<Rightarrow> bool" where
  "sweep_delete_ok ge cfg before n loc \<longleftrightarrow> (\<exists>m c0 ht. \<exists>r \<in> set (pending_objects c0).
     n = Suc m \<and> suffix [Called m c0] before \<and>
     next_orphaned_pending_object (ge_db ge m) ht (1000 * orphan_grace_secs cfg) c0 = (c0, Inr (Some (po_path r))) \<and>
     orphaned (ge_db ge m) (1000 * orphan_grace_secs cfg) ht r \<and> loc = ge_path ge (po_path r))"

text \<open>A backstop delete: the last listing is that of a hypertable's prefix, directly after a catalog
  call that met \<open>c0\<close> and one that met \<open>c1\<close>; the object is in it and as old as the grace by the clock
  read then; no unpurged part of the hypertable had its path in \<open>c0\<close> and no intent in \<open>c1\<close>. The delete
  directly follows the listing or an answered ping.\<close>

definition reconcile_delete_ok :: "gc_env \<Rightarrow> gc_config \<Rightarrow> gc_event list \<Rightarrow> nat \<Rightarrow> string \<Rightarrow> bool" where
  "reconcile_delete_ok ge cfg before n loc \<longleftrightarrow> (\<exists>ht m c0 c1 objs older since modified.
     before = older @ [Called m c0, Called (m + 1) c1, Listed (m + 2) (ge_path ge (''ht/'' @ show_int ht)) objs] @ since \<and>
     (\<forall>e \<in> set since. \<forall>k pre os. e \<noteq> Listed k pre os) \<and>
     (since = [] \<and> n = m + 3 \<or>
      (\<exists>k ck. n = Suc k \<and> suffix [Called k ck] since \<and> ping (ge_db ge k) ck = (ck, Inr ()))) \<and>
     (loc, modified) \<in> set objs \<and> ge_under ge (ge_path ge (''ht/'' @ show_int ht)) loc \<and>
     orphan_grace_secs cfg \<le> num_seconds (ge_utc ge (m + 3) - modified) \<and>
     (\<forall>p \<in> set (parts c0). pr_hypertable p = ht \<and> pr_purged_at p = None \<longrightarrow> path (pr_meta p) \<noteq> loc) \<and>
     (\<forall>r \<in> set (pending_objects c1). po_hypertable r = ht \<longrightarrow> po_path r \<noteq> loc))"

definition delete_ok :: "gc_env \<Rightarrow> gc_config \<Rightarrow> gc_event list \<Rightarrow> nat \<Rightarrow> string \<Rightarrow> catalog \<Rightarrow> bool" where
  "delete_ok ge cfg before n loc c \<longleftrightarrow>
     reap_delete_ok ge cfg before n loc c \<or> sweep_delete_ok ge cfg before n loc \<or> reconcile_delete_ok ge cfg before n loc"

text \<open>Every delete of a run of events, judged by the trace before it.\<close>

fun deletes_ok :: "gc_env \<Rightarrow> gc_config \<Rightarrow> gc_event list \<Rightarrow> gc_event list \<Rightarrow> bool" where
  "deletes_ok ge cfg before [] \<longleftrightarrow> True"
| "deletes_ok ge cfg before (e # es) \<longleftrightarrow>
     (case e of Deleted n loc c \<Rightarrow> delete_ok ge cfg before n loc c | _ \<Rightarrow> True) \<and> deletes_ok ge cfg (before @ [e]) es"

lemma deletes_ok_append:
  "deletes_ok ge cfg before (xs @ ys) \<longleftrightarrow> deletes_ok ge cfg before xs \<and> deletes_ok ge cfg (before @ xs) ys"
  by (induction xs arbitrary: before) auto

definition sound_since :: "gc_env \<Rightarrow> gc_config \<Rightarrow> gc_world \<Rightarrow> gc_world \<Rightarrow> bool" where
  "sound_since ge cfg w w' \<longleftrightarrow> (\<exists>es. gw_trace w' = gw_trace w @ es \<and> deletes_ok ge cfg (gw_trace w) es)"

lemma sound_since_trans: "sound_since ge cfg a b \<Longrightarrow> sound_since ge cfg b c \<Longrightarrow> sound_since ge cfg a c"
  by (auto simp: sound_since_def deletes_ok_append)

lemma sound_since_same: "gw_trace w' = gw_trace w \<Longrightarrow> sound_since ge cfg w w'"
  by (simp add: sound_since_def)

lemma call_sound_since: "gc_call ge m w = (w', r) \<Longrightarrow> sound_since ge cfg w w'"
  by (erule gc_call_cases) (simp add: sound_since_def)

lemma delete_sound_since:
  assumes "gc_delete_object ge loc w = (w', r)"
    and "\<And>c os. ge_others ge (gw_tick w) (gw_catalog w, gw_objects w) = (c, os) \<Longrightarrow> delete_ok ge cfg (gw_trace w) (gw_tick w) loc c"
  shows "sound_since ge cfg w w'"
  using assms(1) by (rule gc_delete_cases) (simp add: sound_since_def assms(2))

text \<open>An iteration asks, and deletes what the answer names directly after it.\<close>

lemma authorized_step_sound:
  assumes "authorized_step ge candidate location settle w = (w', r)"
    and ok: "\<And>before m c c1 x c' os os'. candidate (ge_db ge m) c = (c1, Inr (Some x)) \<Longrightarrow>
      ge_others ge (Suc m) (c1, os) = (c', os') \<Longrightarrow> delete_ok ge cfg (before @ [Called m c]) (Suc m) (location x) c'"
  shows "sound_since ge cfg w w'"
proof -
  have del: "sound_since ge cfg w w2" if call: "gc_call ge candidate w = (w1, Inr (Some x))"
    and del: "gc_delete_object ge (location x) w1 = (w2, r2)" for w1 x w2 r2
  proof (rule sound_since_trans [OF call_sound_since [OF call] delete_sound_since [OF del]])
    from call obtain c where c: "candidate (ge_db ge (gw_tick w)) c = (gw_catalog w1, Inr (Some x))"
      "gw_tick w1 = Suc (gw_tick w)" "gw_trace w1 = gw_trace w @ [Called (gw_tick w) c]" by (rule gc_call_Inr)
    fix c' os assume "ge_others ge (gw_tick w1) (gw_catalog w1, gw_objects w1) = (c', os)"
    with ok [OF c(1)] c(2,3) show "delete_ok ge cfg (gw_trace w1) (gw_tick w1) (location x) c'" by simp
  qed
  from assms(1) show ?thesis
    by (cases rule: authorized_step_cases) (auto intro: call_sound_since del sound_since_trans [OF del])
qed

lemma undisturbed_call:
  assumes "undisturbed ge" "gc_call ge m w = (w', Inr x)"
  shows "m (ge_db ge (gw_tick w)) (gw_catalog w) = (gw_catalog w', Inr x)"
  using gc_call_Inr [OF assms(2)] assms(1) unfolding undisturbed_def by (metis prod.inject)

lemma undisturbed_delete:
  assumes "undisturbed ge" "gc_delete_object ge p w = (w', r)"
  shows "gw_catalog w' = gw_catalog w"
  using assms(2) by (rule gc_delete_cases) (use assms(1) in \<open>simp add: undisturbed_def\<close>)

lemma undisturbed_step:
  assumes "undisturbed ge" "authorized_step ge candidate location settle w = (w', Inr True)"
    and reads: "\<And>env c. fst (candidate env c) = c"
  shows "\<exists>n n' x. candidate (ge_db ge n) (gw_catalog w) = (gw_catalog w, Inr (Some x)) \<and>
    settle (ge_db ge n') x (gw_catalog w) = (gw_catalog w', Inr ())"
  using assms(2)
proof (cases rule: authorized_step_cases)
  case (gone w1 x w2 r3)
  then have r3: "r3 = Inr ()" by (cases r3) auto
  note q = undisturbed_call [OF assms(1) gone(1)]
  from q reads [of "ge_db ge (gw_tick w)" "gw_catalog w"] have w1: "gw_catalog w1 = gw_catalog w" by simp
  with undisturbed_delete [OF assms(1) gone(2)] have "gw_catalog w2 = gw_catalog w" by simp
  with q w1 undisturbed_call [OF assms(1) gone(3) [unfolded r3]] show ?thesis by metis
qed auto

lemma undisturbed_none:
  assumes "undisturbed ge" "authorized_step ge candidate location settle w = (w', Inr False)"
  shows "candidate (ge_db ge (gw_tick w' - 1)) (gw_catalog w) = (gw_catalog w', Inr None)"
  using assms(2)
proof (cases rule: authorized_step_cases)
  case none
  from none(1) have "gw_tick w' = Suc (gw_tick w)" by (rule gc_call_Inr)
  with undisturbed_call [OF assms(1) none(1)] show ?thesis by simp
next
  case (gone w1 x w2 r3)
  then show ?thesis by (cases r3) auto
qed auto

section \<open>Reaping\<close>

lemma part_of_row_simps [simp]:
  "part_id (part_of_row p) = pr_id p" "part_meta (part_of_row p) = pr_meta p"
  by (simp_all add: part_of_row_def)

lemma candidate_reads:
  "fst (next_reapable_part env ht grace c) = c" "fst (next_orphaned_pending_object env ht grace c) = c"
  by (simp_all add: next_reapable_part_def next_orphaned_pending_object_def)

text \<open>A reap: the part the catalog named is dead, and dead parts stay dead.\<close>

lemma reap_answer_ok:
  assumes "others_run ge" "next_reapable_part (ge_db ge m) ht (tombstone_grace cfg) c = (c1, Inr (Some x))"
    and "ge_others ge (Suc m) (c1, os) = (c', os')"
  shows "delete_ok ge cfg (before @ [Called m c]) (Suc m) (ge_path ge (path (part_meta x))) c'"
proof -
  have c1: "c1 = c" using candidate_reads(1) [of "ge_db ge m" ht "tombstone_grace cfg" c] assms(2) by simp
  from next_reapable_Inr [OF assms(2)] obtain p where p: "p \<in> set (parts c)" "x = part_of_row p"
    "reapable (ge_db ge m) (tombstone_grace cfg) ht c p" unfolding c1 by blast
  from run_part [OF delete_run [OF assms(3,1)], unfolded c1, OF p(1)] obtain q where q: "q \<in> set (parts c')" "same_part p q" by blast
  from p(3) have "pr_deleted_by p \<noteq> None" by (auto simp: reapable_def split: option.splits)
  with q(2) have "\<not> live q" by (auto simp: same_part_def live_def)
  with p q assms(2) have "reap_delete_ok ge cfg (before @ [Called m c]) (Suc m) (ge_path ge (path (part_meta x))) c'"
    unfolding reap_delete_ok_def c1 by (intro exI [of _ m] exI [of _ c] exI [of _ ht] bexI [of _ p] bexI [of _ q]) (simp_all add: suffix_def)
  then show ?thesis by (simp add: delete_ok_def)
qed

interpretation reap_safe: safe_loop "reap_step ge cfg ht" "\<lambda>w w'. others_run ge \<longrightarrow> sound_since ge cfg w w'" for ge cfg ht
  by unfold_locales (auto simp: reap_step_def intro: reap_answer_ok sound_since_trans elim!: authorized_step_sound)

definition unpurged :: "catalog \<Rightarrow> nat" where
  "unpurged c = length (filter (\<lambda>p. pr_deleted_by p \<noteq> None \<and> pr_purged_at p = None) (parts c))"

definition reap_done :: "gc_env \<Rightarrow> gc_config \<Rightarrow> hypertable_id \<Rightarrow> gc_world \<Rightarrow> bool" where
  "reap_done ge cfg ht w \<longleftrightarrow> (\<forall>p \<in> set (parts (gw_catalog w)).
     \<not> reapable (ge_db ge (gw_tick w - 1)) (tombstone_grace cfg) ht (gw_catalog w) p)"

lemma filter_map_le: "(\<And>x. Q (f x) \<Longrightarrow> Q x) \<Longrightarrow> length (filter Q (map f xs)) \<le> length (filter Q xs)"
  by (induction xs) (auto intro: le_SucI)

lemma filter_map_less:
  assumes "\<And>x. Q (f x) \<Longrightarrow> Q x" "x \<in> set xs" "Q x" "\<not> Q (f x)"
  shows "length (filter Q (map f xs)) < length (filter Q xs)"
  using assms(2)
proof (induction xs)
  case (Cons y ys)
  show ?case
  proof (cases "y = x")
    case True
    with assms(3,4) filter_map_le [of Q f ys, OF assms(1)] show ?thesis by (simp add: less_Suc_eq_le)
  next
    case False
    with Cons assms(1) [of y] show ?thesis by auto
  qed
qed simp

lemma mark_purged_Inr:
  assumes "mark_purged env ids c = (c', Inr x)"
  shows "parts c' = map (\<lambda>p. if pr_id p \<in> set ids then p\<lparr>pr_purged_at := Some (env_now env)\<rparr> else p) (parts c)"
  using assms by (auto simp: mark_purged_def exec_auto_def split: option.splits)

lemma unpurged_mark:
  assumes "mark_purged env [pr_id p] c = (c', Inr x)" "p \<in> set (parts c)" "pr_deleted_by p \<noteq> None" "pr_purged_at p = None"
  shows "Suc (unpurged c') \<le> unpurged c"
  unfolding unpurged_def mark_purged_Inr [OF assms(1)]
  by (rule Suc_leI, rule filter_map_less [OF _ assms(2)]) (use assms(3,4) in \<open>auto split: if_splits\<close>)

interpretation reap_progress: progress_loop "reap_step ge cfg ht" "\<lambda>w. unpurged (gw_catalog w)" "\<lambda>_. undisturbed ge"
  "reap_done ge cfg ht" for ge cfg ht
proof
  fix w w' assume u: "undisturbed ge" and s: "reap_step ge cfg ht w = (w', Inr True)"
  from undisturbed_step [OF u s [unfolded reap_step_def] candidate_reads(1)] obtain n n' pt
    where q: "next_reapable_part (ge_db ge n) ht (tombstone_grace cfg) (gw_catalog w) = (gw_catalog w, Inr (Some pt))"
      and m: "mark_purged (ge_db ge n') [part_id pt] (gw_catalog w) = (gw_catalog w', Inr ())" by blast
  from next_reapable_Inr [OF q] obtain p where p: "p \<in> set (parts (gw_catalog w))" "pt = part_of_row p"
    "pr_deleted_by p \<noteq> None" "pr_purged_at p = None"
    by (auto simp: reapable_def split: option.splits)
  with u m unpurged_mark [of "ge_db ge n'" p "gw_catalog w" "gw_catalog w'"]
  show "undisturbed ge \<and> Suc (unpurged (gw_catalog w')) \<le> unpurged (gw_catalog w)" by simp
next
  fix w w' assume u: "undisturbed ge" and s: "reap_step ge cfg ht w = (w', Inr False)"
  from undisturbed_none [OF u s [unfolded reap_step_def]]
  show "reap_done ge cfg ht w' \<and> unpurged (gw_catalog w') \<le> unpurged (gw_catalog w)"
    by (auto simp: next_reapable_None reap_done_def)
qed

section \<open>Sweeping\<close>

definition sweep_done :: "gc_env \<Rightarrow> gc_config \<Rightarrow> hypertable_id \<Rightarrow> gc_world \<Rightarrow> bool" where
  "sweep_done ge cfg ht w \<longleftrightarrow> (\<forall>r \<in> set (pending_objects (gw_catalog w)).
     \<not> orphaned (ge_db ge (gw_tick w - 1)) (1000 * orphan_grace_secs cfg) ht r)"

lemma next_orphan_Some:
  assumes "next_orphaned_pending_object env ht grace c = (c', Inr (Some p))"
  shows "c' = c \<and> (\<exists>r \<in> set (pending_objects c). orphaned env grace ht r \<and> po_path r = p)"
proof -
  from assms have "c' = c" and "(case orphan_paths env grace ht c of [] \<Rightarrow> None | p # _ \<Rightarrow> Some p) = Some p"
    by (auto simp: next_orphaned_pending_object_def query_Inr)
  then have "p \<in> set (orphan_paths env grace ht c)" by (cases "orphan_paths env grace ht c") auto
  with \<open>c' = c\<close> show ?thesis by (simp add: orphan_paths_mem)
qed

lemma sweep_answer_ok:
  assumes "next_orphaned_pending_object (ge_db ge m) ht (1000 * orphan_grace_secs cfg) c = (c1, Inr (Some x))"
  shows "delete_ok ge cfg (before @ [Called m c]) (Suc m) (ge_path ge x) c'"
proof -
  from next_orphan_Some [OF assms] obtain r where "c1 = c" "r \<in> set (pending_objects c)"
    "orphaned (ge_db ge m) (1000 * orphan_grace_secs cfg) ht r" "po_path r = x" by blast
  with assms have "sweep_delete_ok ge cfg (before @ [Called m c]) (Suc m) (ge_path ge x)"
    unfolding sweep_delete_ok_def by (intro exI [of _ m] exI [of _ c] exI [of _ ht] bexI [of _ r]) (simp_all add: suffix_def)
  then show ?thesis by (simp add: delete_ok_def)
qed

interpretation sweep_safe: safe_loop "sweep_step ge cfg ht" "sound_since ge cfg" for ge cfg ht
  by unfold_locales (auto simp: sweep_step_def intro: sweep_answer_ok sound_since_trans elim!: authorized_step_sound)

lemma next_orphan_None:
  assumes "next_orphaned_pending_object env ht grace c = (c', Inr None)"
  shows "c' = c \<and> (\<forall>r \<in> set (pending_objects c). \<not> orphaned env grace ht r)"
proof -
  from assms have "c' = c" and "(case orphan_paths env grace ht c of [] \<Rightarrow> None | p # _ \<Rightarrow> Some p) = None"
    by (auto simp: next_orphaned_pending_object_def query_Inr)
  then have "orphan_paths env grace ht c = []" by (cases "orphan_paths env grace ht c") auto
  with \<open>c' = c\<close> orphan_paths_mem [of _ env grace ht c] show ?thesis by auto
qed

lemma clear_pending_Inr:
  assumes "clear_pending_objects env [p] c = (c', Inr x)"
  shows "pending_objects c' = filter (\<lambda>r. po_path r \<noteq> p) (pending_objects c)"
  using assms by (auto simp: clear_pending_objects_def exec_auto_def split: option.splits)

interpretation sweep_progress: progress_loop "sweep_step ge cfg ht" "\<lambda>w. length (pending_objects (gw_catalog w))"
  "\<lambda>_. undisturbed ge" "sweep_done ge cfg ht" for ge cfg ht
proof
  fix w w' assume u: "undisturbed ge" and s: "sweep_step ge cfg ht w = (w', Inr True)"
  from undisturbed_step [OF u s [unfolded sweep_step_def] candidate_reads(2)] obtain n n' p
    where q: "next_orphaned_pending_object (ge_db ge n) ht (1000 * orphan_grace_secs cfg) (gw_catalog w)
        = (gw_catalog w, Inr (Some p))"
      and m: "clear_pending_objects (ge_db ge n') [p] (gw_catalog w) = (gw_catalog w', Inr ())" by blast
  from next_orphan_Some [OF q] obtain r where "r \<in> set (pending_objects (gw_catalog w))" "po_path r = p" by blast
  then have "length (filter (\<lambda>r. po_path r \<noteq> p) (pending_objects (gw_catalog w))) < length (pending_objects (gw_catalog w))"
    by (intro length_filter_less) auto
  with u clear_pending_Inr [OF m] show "undisturbed ge \<and>
      Suc (length (pending_objects (gw_catalog w'))) \<le> length (pending_objects (gw_catalog w))" by simp
next
  fix w w' assume u: "undisturbed ge" and s: "sweep_step ge cfg ht w = (w', Inr False)"
  from next_orphan_None [OF undisturbed_none [OF u s [unfolded sweep_step_def]]] show "sweep_done ge cfg ht w' \<and>
      length (pending_objects (gw_catalog w')) \<le> length (pending_objects (gw_catalog w))"
    by (auto simp: sweep_done_def)
qed

section \<open>A pass\<close>

lemma reap_sound_since: "others_run ge \<Longrightarrow> reap ge cfg ht st w = Some (w', st', r) \<Longrightarrow> sound_since ge cfg w w'"
  by (auto simp: reap_def dest: reap_safe.loop_sound)

lemma sweep_sound_since: "sweep ge cfg ht st w = Some (w', st', r) \<Longrightarrow> sound_since ge cfg w w'"
  by (auto simp: sweep_def dest: sweep_safe.loop_sound)

lemma gc_hypertables_sound:
  "others_run ge \<Longrightarrow> gc_hypertables ge cfg hs st w = Some (w', r) \<Longrightarrow> sound_since ge cfg w w'"
proof (induction hs arbitrary: st w)
  case (Cons h hs)
  from Cons.prems(2) obtain w1 st1 r1 where 1: "reap ge cfg (ht_id h) st w = Some (w1, st1, r1)"
    by (auto simp: bind_eq_Some_conv)
  note s1 = reap_sound_since [OF Cons.prems(1) 1]
  show ?case
  proof (cases r1)
    case (Inl e)
    with Cons.prems(2) 1 s1 show ?thesis by simp
  next
    case (Inr u)
    with Cons.prems(2) 1 obtain w2 st2 r2 where 2: "sweep ge cfg (ht_id h) st1 w1 = Some (w2, st2, r2)"
      by (auto simp: bind_eq_Some_conv)
    note s2 = sound_since_trans [OF s1 sweep_sound_since [OF 2]]
    from Cons.prems(2) 1 2 Inr s2 Cons.IH [OF Cons.prems(1), of st2 w2] show ?thesis
      by (cases r2) (auto intro: sound_since_trans)
  qed
qed (simp add: sound_since_same)

lemma reap_ends:
  assumes "undisturbed ge"
  shows "\<exists>w' st' r. reap ge cfg ht st w = Some (w', st', r) \<and> (r = Inr () \<longrightarrow> reap_done ge cfg ht w')"
  using reap_progress.loop_ends [OF assms, of cfg ht w 0] by (auto simp: reap_def)

lemma sweep_ends:
  assumes "undisturbed ge"
  shows "\<exists>w' st' r. sweep ge cfg ht st w = Some (w', st', r) \<and> (r = Inr () \<longrightarrow> sweep_done ge cfg ht w')"
  using sweep_progress.loop_ends [OF assms, of cfg ht w 0] by (auto simp: sweep_def)

lemma gc_hypertables_ends:
  assumes "undisturbed ge"
  shows "\<exists>y. gc_hypertables ge cfg hs st w = Some y"
proof (induction hs arbitrary: st w)
  case (Cons h hs)
  from reap_ends [OF assms, of cfg "ht_id h" st w] obtain w1 st1 r1 where 1: "reap ge cfg (ht_id h) st w = Some (w1, st1, r1)"
    by blast
  from sweep_ends [OF assms, of cfg "ht_id h" st1 w1] obtain w2 st2 r2 where
    2: "sweep ge cfg (ht_id h) st1 w1 = Some (w2, st2, r2)" by blast
  from Cons 1 2 show ?case by (auto split: sum.splits)
qed simp

section \<open>The backstop\<close>

definition sound_gc :: "gc_env \<Rightarrow> gc_config \<Rightarrow> 'a gc \<Rightarrow> bool" where
  "sound_gc ge cfg m \<longleftrightarrow> (\<forall>w w' r. m w = (w', r) \<longrightarrow> sound_since ge cfg w w')"

lemma sound_bind:
  assumes "sound_gc ge cfg m" "\<And>w w1 x w' r. m w = (w1, Inr x) \<Longrightarrow> f x w1 = (w', r) \<Longrightarrow> sound_since ge cfg w1 w'"
  shows "sound_gc ge cfg (gc_bind m f)"
  unfolding sound_gc_def
proof (intro allI impI)
  fix w w' r assume b: "gc_bind m f w = (w', r)"
  obtain w1 r1 where m: "m w = (w1, r1)" by force
  with assms(1) have s: "sound_since ge cfg w w1" by (auto simp: sound_gc_def)
  show "sound_since ge cfg w w'"
  proof (cases r1)
    case (Inl e)
    with b m s show ?thesis by (auto simp: gc_bind_def)
  next
    case (Inr x)
    with b m have "f x w1 = (w', r)" by (simp add: gc_bind_def)
    with assms(2) m Inr s show ?thesis by (blast intro: sound_since_trans)
  qed
qed

lemma sound_gcD: "sound_gc ge cfg m \<Longrightarrow> m w = (w', r) \<Longrightarrow> sound_since ge cfg w w'"
  by (auto simp: sound_gc_def)

lemma sound_call: "sound_gc ge cfg (gc_call ge m)"
  by (auto simp: sound_gc_def intro: call_sound_since)

lemma sound_return: "sound_gc ge cfg (gc_return x)"
  by (simp add: sound_gc_def gc_return_def sound_since_same)

lemma ping_Inr: "ping env c = (c', Inr ()) \<Longrightarrow> c' = c"
  by (auto simp: ping_def query_Inr)

text \<open>Within the backstop's loop over one listing: the listing, the two catalog reads before it and
  what the loop did since.\<close>

definition listed_since :: "nat \<Rightarrow> catalog \<Rightarrow> catalog \<Rightarrow> string \<Rightarrow> objects \<Rightarrow> bool \<Rightarrow> gc_world \<Rightarrow> bool" where
  "listed_since m c0 c1 pre objs deleted_any w \<longleftrightarrow> (\<exists>older since.
     gw_trace w = older @ [Called m c0, Called (m + 1) c1, Listed (m + 2) pre objs] @ since \<and>
     (\<forall>e \<in> set since. \<forall>k p os. e \<noteq> Listed k p os) \<and> (\<not> deleted_any \<longrightarrow> since = [] \<and> gw_tick w = m + 3))"

lemma listed_since_step:
  assumes "listed_since m c0 c1 pre objs da w" "gw_trace w' = gw_trace w @ [e]" "\<forall>k p os. e \<noteq> Listed k p os"
  shows "listed_since m c0 c1 pre objs True w'"
proof -
  from assms(1) obtain older since where "gw_trace w = older @ [Called m c0, Called (m + 1) c1, Listed (m + 2) pre objs] @ since"
    "\<forall>e \<in> set since. \<forall>k p os. e \<noteq> Listed k p os" unfolding listed_since_def by blast
  with assms(2,3) show ?thesis unfolding listed_since_def by (intro exI [of _ older] exI [of _ "since @ [e]"]) auto
qed

text \<open>The object of a delete, judged by the listing.\<close>

definition stale_object :: "gc_env \<Rightarrow> gc_config \<Rightarrow> hypertable_id \<Rightarrow> nat \<Rightarrow> catalog \<Rightarrow> catalog \<Rightarrow> objects \<Rightarrow> string \<Rightarrow> bool" where
  "stale_object ge cfg ht m c0 c1 objs loc \<longleftrightarrow> (\<exists>modified. (loc, modified) \<in> set objs \<and>
     ge_under ge (ge_path ge (''ht/'' @ show_int ht)) loc \<and>
     orphan_grace_secs cfg \<le> num_seconds (ge_utc ge (m + 3) - modified) \<and>
     (\<forall>p \<in> set (parts c0). pr_hypertable p = ht \<and> pr_purged_at p = None \<longrightarrow> path (pr_meta p) \<noteq> loc) \<and>
     (\<forall>r \<in> set (pending_objects c1). po_hypertable r = ht \<longrightarrow> po_path r \<noteq> loc))"

lemma reconcile_okI:
  assumes "listed_since m c0 c1 (ge_path ge (''ht/'' @ show_int ht)) objs da w" "stale_object ge cfg ht m c0 c1 objs loc"
    and "da \<Longrightarrow> n = Suc k \<and> ping (ge_db ge k) ck = (ck, Inr ()) \<and> before = gw_trace w @ [Called k ck]"
    and "\<not> da \<Longrightarrow> n = gw_tick w \<and> before = gw_trace w"
  shows "delete_ok ge cfg before n loc c"
proof -
  let ?three = "[Called m c0, Called (m + 1) c1, Listed (m + 2) (ge_path ge (''ht/'' @ show_int ht)) objs]"
  from assms(1) obtain older since where t: "gw_trace w = older @ ?three @ since"
    "\<forall>e \<in> set since. \<forall>k p os. e \<noteq> Listed k p os" "\<not> da \<longrightarrow> since = [] \<and> gw_tick w = m + 3" unfolding listed_since_def by blast
  define since' where "since' = (if da then since @ [Called k ck] else since)"
  have "before = older @ ?three @ since'" using assms(3,4) t(1) by (cases da) (simp_all add: since'_def)
  moreover have "\<forall>e \<in> set since'. \<forall>k p os. e \<noteq> Listed k p os" using t(2) by (simp add: since'_def)
  moreover have "since' = [] \<and> n = m + 3 \<or> (\<exists>k ck. n = Suc k \<and> suffix [Called k ck] since' \<and> ping (ge_db ge k) ck = (ck, Inr ()))"
    using assms(3,4) t(3) by (cases da) (auto simp: since'_def suffix_def)
  ultimately have "reconcile_delete_ok ge cfg before n loc"
    using assms(2) unfolding reconcile_delete_ok_def stale_object_def by blast
  then show ?thesis by (simp add: delete_ok_def)
qed

lemma sound_objects:
  assumes "reconcile_objects ge cfg known (ge_utc ge (m + 3)) objs da st w = (w', r)"
    and "listed_since m c0 c1 (ge_path ge (''ht/'' @ show_int ht)) all da w"
    and "\<And>loc modified. (loc, modified) \<in> set objs \<Longrightarrow> loc \<notin> known \<Longrightarrow>
      orphan_grace_secs cfg \<le> num_seconds (ge_utc ge (m + 3) - modified) \<Longrightarrow> stale_object ge cfg ht m c0 c1 all loc"
  shows "sound_since ge cfg w w'"
  using assms
proof (induction objs arbitrary: da st w)
  case (Cons x objs)
  obtain loc modified where x: "x = (loc, modified)" by force
  show ?case
  proof (cases "loc \<in> known \<or> num_seconds (ge_utc ge (m + 3) - modified) < orphan_grace_secs cfg")
    case True
    with Cons.prems(1) have "reconcile_objects ge cfg known (ge_utc ge (m + 3)) objs da st w = (w', r)" by (cases "loc \<in> known") (simp_all add: x)
    with Cons show ?thesis by (meson list.set_intros(2))
  next
    case False
    then have stale: "stale_object ge cfg ht m c0 c1 all loc" using Cons.prems(3) [of loc modified] by (simp add: x)
    obtain w1 r1 where 1: "(if da then gc_call ge ping else gc_return ()) w = (w1, r1)" by force
    have s1: "sound_since ge cfg w w1" using 1 by (cases da) (auto simp: gc_return_def intro: call_sound_since sound_since_same)
    show ?thesis
    proof (cases r1)
      case (Inl e)
      with Cons.prems(1) 1 False s1 show ?thesis by (simp add: x gc_bind_def)
    next
      case (Inr u)
      have ok: "delete_ok ge cfg (gw_trace w1) (gw_tick w1) loc c" for c
      proof (cases da)
        case True
        with 1 Inr have "gc_call ge ping w = (w1, Inr ())" by simp
        then obtain ck where "ping (ge_db ge (gw_tick w)) ck = (gw_catalog w1, Inr ())" "gw_tick w1 = Suc (gw_tick w)"
          "gw_trace w1 = gw_trace w @ [Called (gw_tick w) ck]" by (rule gc_call_Inr)
        with True show ?thesis by (intro reconcile_okI [OF Cons.prems(2) stale, of _ "gw_tick w" ck]) (auto dest: ping_Inr)
      next
        case False
        with 1 show ?thesis by (intro reconcile_okI [OF Cons.prems(2) stale]) (simp_all add: gc_return_def)
      qed
      obtain w2 r2 where 2: "gc_delete_object ge loc w1 = (w2, r2)" by force
      have s2: "sound_since ge cfg w w2" by (rule sound_since_trans [OF s1 delete_sound_since [OF 2 ok]])
      have since: "listed_since m c0 c1 (ge_path ge (''ht/'' @ show_int ht)) all True w2"
      proof -
        have l1: "listed_since m c0 c1 (ge_path ge (''ht/'' @ show_int ht)) all da w1"
        proof (cases da)
          case True
          with 1 have "gc_call ge ping w = (w1, r1)" by simp
          then obtain ck where "gw_trace w1 = gw_trace w @ [Called (gw_tick w) ck]" by (rule gc_call_cases)
          with listed_since_step [OF Cons.prems(2)] True show ?thesis by simp
        qed (use 1 Cons.prems(2) in \<open>simp add: gc_return_def\<close>)
        from 2 obtain c where "gw_trace w2 = gw_trace w1 @ [Deleted (gw_tick w1) loc c]" by (rule gc_delete_cases)
        with listed_since_step [OF l1] show ?thesis by simp
      qed
      from Cons.prems(1) 1 2 Inr False have "(\<exists>e. r2 = Inl e \<and> w' = w2) \<or>
          (\<exists>st'. reconcile_objects ge cfg known (ge_utc ge (m + 3)) objs True st' w2 = (w', r))"
        by (cases r2) (auto simp: x gc_bind_def)
      with s2 Cons.IH [OF _ since] Cons.prems(3) show ?thesis by (auto intro: sound_since_trans)
    qed
  qed
qed (auto simp: gc_return_def sound_since_same)

lemma gc_list_cases:
  assumes "gc_list ge pre w = (w', r)"
  obtains (failed) e where "r = Inl e" "gw_trace w' = gw_trace w"
  | (listed) objs where "r = Inr objs" "gw_trace w' = gw_trace w @ [Listed (gw_tick w) pre objs]" "gw_tick w' = Suc (gw_tick w)"
      "\<forall>x \<in> set objs. ge_under ge pre (fst x)"
  using assms by (auto simp: gc_list_def Let_def split: prod.splits option.splits)

text \<open>The paths the two reads return are those the catalog has at that moment.\<close>

lemma all_paths_Inr:
  "all_part_paths env ht c = (c', Inr ps) \<Longrightarrow> p \<in> set (parts c) \<Longrightarrow> pr_hypertable p = ht \<Longrightarrow> pr_purged_at p = None \<Longrightarrow>
     path (pr_meta p) \<in> set ps"
  "all_pending_paths env ht c = (c', Inr qs) \<Longrightarrow> q \<in> set (pending_objects c) \<Longrightarrow> po_hypertable q = ht \<Longrightarrow> po_path q \<in> set qs"
  by (auto simp: all_part_paths_def all_pending_paths_def query_Inr)

lemma sound_reconcile_hypertable: "sound_gc ge cfg (reconcile_hypertable ge cfg ht st)"
  unfolding sound_gc_def
proof (intro allI impI)
  fix w w' r assume run: "reconcile_hypertable ge cfg ht st w = (w', r)"
  let ?pre = "ge_path ge (''ht/'' @ show_int ht)"
  obtain w1 r1 where 1: "gc_call ge (\<lambda>env. all_part_paths env ht) w = (w1, r1)" by force
  obtain w2 r2 where 2: "gc_call ge (\<lambda>env. all_pending_paths env ht) w1 = (w2, r2)" by force
  obtain w3 r3 where 3: "gc_list ge ?pre w2 = (w3, r3)" by force
  have s3: "sound_since ge cfg w2 w3" using 3 by (cases rule: gc_list_cases) (simp_all add: sound_since_def)
  note s12 = call_sound_since [OF 1, of cfg] call_sound_since [OF 2, of cfg]
  show "sound_since ge cfg w w'"
  proof (cases "\<exists>ps qs objs. r1 = Inr ps \<and> r2 = Inr qs \<and> r3 = Inr objs")
    case False
    with run 1 2 3 have "w' = w1 \<or> w' = w2 \<or> w' = w3"
      by (cases r1; cases r2; cases r3) (auto simp: reconcile_hypertable_def gc_bind_def)
    with s12 s3 show ?thesis by (blast intro: sound_since_trans)
  next
    case True
    then obtain ps qs objs where r: "r1 = Inr ps" "r2 = Inr qs" "r3 = Inr objs" by blast
    obtain c0 where c0: "all_part_paths (ge_db ge (gw_tick w)) ht c0 = (gw_catalog w1, Inr ps)" "gw_tick w1 = Suc (gw_tick w)"
      "gw_trace w1 = gw_trace w @ [Called (gw_tick w) c0]" by (rule gc_call_Inr [OF 1 [unfolded r]])
    obtain c1 where c1: "all_pending_paths (ge_db ge (gw_tick w1)) ht c1 = (gw_catalog w2, Inr qs)" "gw_tick w2 = Suc (gw_tick w1)"
      "gw_trace w2 = gw_trace w1 @ [Called (gw_tick w1) c1]" by (rule gc_call_Inr [OF 2 [unfolded r]])
    have l: "gw_trace w3 = gw_trace w2 @ [Listed (gw_tick w2) ?pre objs]" "gw_tick w3 = gw_tick w + 3"
      "\<forall>x \<in> set objs. ge_under ge ?pre (fst x)"
      using 3 r c0(2) c1(2) by (auto elim!: gc_list_cases)
    have since: "listed_since (gw_tick w) c0 c1 ?pre objs False w3"
      unfolding listed_since_def using l c0(2,3) c1(2,3) by (intro exI [of _ "gw_trace w"] exI [of _ "[]"]) simp
    have "reconcile_objects ge cfg (set ps \<union> set qs) (ge_utc ge (gw_tick w + 3)) objs False st w3 = (w', r)"
      using run 1 2 3 r l(2) by (simp add: reconcile_hypertable_def gc_bind_def)
    then have "sound_since ge cfg w3 w'"
      by (rule sound_objects [OF _ since])
        (use l(3) all_paths_Inr(1) [OF c0(1)] all_paths_Inr(2) [OF c1(1)] in \<open>fastforce simp: stale_object_def\<close>)
    with s12 s3 show ?thesis by (blast intro: sound_since_trans)
  qed
qed

lemma sound_reconcile_once: "sound_gc ge cfg (reconcile_once ge cfg)"
proof -
  have hs: "sound_gc ge cfg (reconcile_hypertables ge cfg hs st)" for hs st
  proof (induction hs arbitrary: st)
    case (Cons h hs)
    then show ?case by (auto intro!: sound_bind sound_reconcile_hypertable dest: sound_gcD)
  qed (simp add: sound_return)
  show ?thesis
    unfolding reconcile_once_def by (rule sound_bind [OF sound_call]) (rule sound_gcD [OF hs])
qed

lemma run_once_sound:
  assumes "others_run ge" "run_once ge cfg w = Some (w', r)"
  shows "sound_since ge cfg w w'"
proof -
  obtain w1 r1 where 1: "gc_call ge list_hypertables w = (w1, r1)" by force
  have s: "sound_since ge cfg w w1" by (rule sound_gcD [OF sound_call 1])
  show ?thesis
  proof (cases r1)
    case (Inl e)
    with assms(2) 1 s show ?thesis by (simp add: run_once_def)
  next
    case (Inr hs)
    with assms(2) 1 have "gc_hypertables ge cfg hs gc_default_stats w1 = Some (w', r)" by (simp add: run_once_def)
    with gc_hypertables_sound [OF assms(1)] s show ?thesis by (blast intro: sound_since_trans)
  qed
qed

lemma gc_run_sound:
  assumes "others_run ge"
  shows "gc_run ge cfg ticks pass w = Some (w', r) \<Longrightarrow> sound_since ge cfg w w'"
proof (induction ticks arbitrary: pass w)
  case (Suc ticks)
  from Suc.prems obtain w1 r1 where 1: "run_once ge cfg w = Some (w1, r1)" by (auto simp: bind_eq_Some_conv)
  note s1 = run_once_sound [OF assms 1]
  show ?case
  proof (cases r1)
    case (Inl e)
    with Suc.prems 1 s1 show ?thesis by simp
  next
    case (Inr st)
    define w2 where "w2 = (if ready cfg then w1\<lparr>gw_ready := True\<rparr> else w1)"
    have s2: "sound_since ge cfg w w2" using s1 by (simp add: w2_def sound_since_def)
    obtain w3 r3 where 3: "reconcile_once ge cfg w2 = (w3, r3)" by force
    have s3: "sound_since ge cfg w w3" using s2 sound_gcD [OF sound_reconcile_once 3] by (rule sound_since_trans)
    show ?thesis
    proof (cases "0 < reconcile_every_n_passes cfg \<and> reconcile_every_n_passes cfg dvd Suc pass")
      case True
      with Suc.prems 1 Inr 3 have "(\<exists>e. r3 = Inl e \<and> w' = w3) \<or> gc_run ge cfg ticks (Suc pass) w3 = Some (w', r)"
        by (cases r3) (auto simp: w2_def [symmetric] Let_def)
      with Suc.IH s3 show ?thesis by (blast intro: sound_since_trans)
    next
      case False
      with Suc.prems 1 Inr have "gc_run ge cfg ticks (Suc pass) w2 = Some (w', r)"
        by (auto simp: w2_def [symmetric] Let_def)
      with Suc.IH s2 show ?thesis by (blast intro: sound_since_trans)
    qed
  qed
qed (simp add: sound_since_same)

section \<open>Properties\<close>

text \<open>C21: the worker deletes only on an answer it has just received. Whatever other clients do
  between its calls, and whichever calls fail, each delete over any number of ticks stands in
  the trace of external calls directly behind what authorises it. Either the call before it, by
  number, met a catalog that answers the reap query with a part at that path, tombstoned by a
  commit older than the grace and passed by every feed cursor, and the part is still dead when
  the object goes, so that no live part loses its object provided the catalog's part paths are
  distinct, which the schema does not enforce; or the call before it met a catalog that answers
  the sweep query with an upload intent at that path older than the orphan grace; or it is the
  backstop: the object is in the last listing, as old as the grace and in neither of the path sets
  read in the two calls before the listing, and the call before the delete is that listing or a
  ping the catalog answered.\<close>

theorem gc_deletes_authorized:
  assumes "others_run ge" "gc_run ge cfg ticks pass w = Some (w', r)"
  shows "\<exists>es. gw_trace w' = gw_trace w @ es \<and> (\<forall>us n loc c vs. es = us @ Deleted n loc c # vs \<longrightarrow>
    reap_delete_ok ge cfg (gw_trace w @ us) n loc c \<and>
      (inj_on (\<lambda>p. ge_path ge (path (pr_meta p))) (set (parts c)) \<longrightarrow>
        (\<forall>q \<in> set (parts c). live q \<longrightarrow> ge_path ge (path (pr_meta q)) \<noteq> loc)) \<or>
    sweep_delete_ok ge cfg (gw_trace w @ us) n loc \<or>
    reconcile_delete_ok ge cfg (gw_trace w @ us) n loc)"
proof -
  from gc_run_sound [OF assms] obtain es where es: "gw_trace w' = gw_trace w @ es" "deletes_ok ge cfg (gw_trace w) es"
    by (auto simp: sound_since_def)
  have "ge_path ge (path (pr_meta q)) \<noteq> loc"
    if ok: "reap_delete_ok ge cfg us n loc c" and inj: "inj_on (\<lambda>p. ge_path ge (path (pr_meta p))) (set (parts c))"
      and q: "q \<in> set (parts c)" "live q" for us n loc c q
  proof
    assume loc: "ge_path ge (path (pr_meta q)) = loc"
    from ok obtain p t where t: "t \<in> set (parts c)" "loc = ge_path ge (path (pr_meta p))" "same_part p t" "\<not> live t"
      unfolding reap_delete_ok_def by blast
    then have "ge_path ge (path (pr_meta q)) = ge_path ge (path (pr_meta t))" using loc by (auto simp: same_part_def)
    with inj q t show False by (auto dest: inj_onD)
  qed
  note no_live = this
  have "delete_ok ge cfg (gw_trace w @ us) n loc c" if "es = us @ Deleted n loc c # vs" for us n loc c vs
    using es(2) by (simp add: that deletes_ok_append)
  with es(1) show ?thesis unfolding delete_ok_def using no_live by (intro exI [of _ es]) blast
qed

text \<open>A quiet environment for the worker, and a catalog whose only part is dead.\<close>

definition demo_gc_env :: gc_env where
  "demo_gc_env = \<lparr>ge_db = (\<lambda>n. quiet_env 2000000), ge_others = (\<lambda>n x. x), ge_delete = (\<lambda>n. None),
     ge_list = (\<lambda>n. None), ge_utc = (\<lambda>n. 5000000), ge_path = (\<lambda>p. p),
     ge_under = (\<lambda>pre p. take (length pre + 1) p = pre @ ''/'')\<rparr>"

definition demo_gc_world :: gc_world where
  "demo_gc_world = \<lparr>gw_tick = 0,
     gw_catalog = demo_catalog\<lparr>parts := [(demo_row 1)\<lparr>pr_deleted_by := Some 1\<rparr>]\<rparr>,
     gw_objects = [(''old'', 0), (''new'', 0)], gw_ready = False, gw_trace = []\<rparr>"

lemma loop_more: "step w = (w', Inr True) \<Longrightarrow> authorized_loop step w n = authorized_loop step w' (Suc n)"
  by (simp add: authorized_loop.simps [of step w n])

lemma loop_done: "step w = (w', Inr False) \<Longrightarrow> authorized_loop step w n = Some (w', n, Inr ())"
  by (simp add: authorized_loop.simps [of step w n])

text \<open>The worker, executed.\<close>

lemmas gc_exec = reap_step_def sweep_step_def authorized_step_def gc_bind_def gc_call_def Let_def gc_return_def
  next_reapable_part_def next_orphaned_pending_object_def mark_purged_def clear_pending_objects_def query_def
  exec_auto_def reapable_def cursor_fence_def list_min_def I64_MAX_def orphan_paths_def gc_delete_object_def
  remove_object_def gc_default_config_def quiet_env_def part_of_row_def loop_more loop_done

lemmas gc_pass_exec = run_once_def gc_call_def list_hypertables_def query_def quiet_env_def hypertable_from_row_def
  reap_def sweep_def

text \<open>C21: one tick on the catalog with a dead part: the object goes, and its delete is the call after
  the reap query.\<close>

theorem gc_deletes_authorized_witness:
  "\<exists>w' us n c vs. gc_run demo_gc_env gc_default_config 1 0 demo_gc_world = Some (w', Inr ()) \<and>
     gw_objects w' = [(''new'', 0)] \<and> gw_trace w' = us @ Deleted n ''old'' c # vs \<and>
     reap_delete_ok demo_gc_env gc_default_config us n ''old'' c"
proof -
  have o: "others_run demo_gc_env" by (simp add: others_run_def demo_gc_env_def)
  obtain w' c c0 c1 vs where w': "gc_run demo_gc_env gc_default_config 1 0 demo_gc_world = Some (w', Inr ())"
    "gw_objects w' = [(''new'', 0)]" "gw_trace w' = [Called 0 c0, Called 1 c1] @ Deleted 2 ''old'' c # vs" "pending_objects c1 = []"
    by (simp add: gc_pass_exec demo_gc_env_def demo_gc_world_def demo_defs)
      (simp add: gc_exec)
  have e: "gw_trace demo_gc_world = []" by (simp add: demo_gc_world_def)
  have "\<not> sweep_delete_ok demo_gc_env gc_default_config [Called 0 c0, Called 1 c1] 2 ''old''"
    using w'(4) by (auto simp: sweep_delete_ok_def suffix_def Cons_eq_append_conv)
  moreover have "\<not> reconcile_delete_ok demo_gc_env gc_default_config [Called 0 c0, Called 1 c1] 2 ''old''"
    by (auto simp: reconcile_delete_ok_def Cons_eq_append_conv)
  ultimately have "reap_delete_ok demo_gc_env gc_default_config [Called 0 c0, Called 1 c1] 2 ''old'' c"
    using gc_deletes_authorized [OF o w'(1)] w'(3) unfolding e append_Nil by blast
  with w' show ?thesis by blast
qed

text \<open>C22: an undisturbed pass ends. Whatever the catalog holds and whichever calls fail, the
  reap and the sweep loop and the whole pass return; a reap that reports success leaves no
  part reapable by the clock of its last question, and a sweep no orphaned intent.\<close>

theorem gc_pass_ends:
  assumes "undisturbed ge"
  shows "(\<exists>w' st' r. reap ge cfg ht st w = Some (w', st', r) \<and> (r = Inr () \<longrightarrow> (\<forall>p \<in> set (parts (gw_catalog w')).
        \<not> reapable (ge_db ge (gw_tick w' - 1)) (tombstone_grace cfg) ht (gw_catalog w') p)))
    \<and> (\<exists>w' st' r. sweep ge cfg ht st w = Some (w', st', r) \<and> (r = Inr () \<longrightarrow>
        (\<forall>x \<in> set (pending_objects (gw_catalog w')).
          \<not> orphaned (ge_db ge (gw_tick w' - 1)) (1000 * orphan_grace_secs cfg) ht x)))
    \<and> (\<exists>w' r. run_once ge cfg w = Some (w', r))"
proof (intro conjI)
  show "\<exists>w' r. run_once ge cfg w = Some (w', r)"
    using gc_hypertables_ends [OF assms] by (auto simp: run_once_def split: prod.splits sum.splits)
qed (use reap_ends [OF assms, of cfg ht st w] sweep_ends [OF assms, of cfg ht st w] in
  \<open>simp_all add: reap_done_def sweep_done_def\<close>)

text \<open>C22: in the quiet environment.\<close>

theorem gc_pass_ends_witness:
  "\<exists>w' r. run_once demo_gc_env gc_default_config demo_gc_world = Some (w', r)"
  using gc_pass_ends [of demo_gc_env] by (simp add: undisturbed_def demo_gc_env_def)

text \<open>The backstop reads the part paths before the intent paths. A commit between the two
  reads moves a path from the second set into the first, and the worker sees it in neither.\<close>

definition race_env :: gc_env where
  "race_env = demo_gc_env\<lparr>ge_others := (\<lambda>n (c, os). if n = 2
     then (fst (commit_txn (quiet_env 5) (\<lambda>_. None) 1 (Add [demo_meta ''ht/1/a'']) None [] None c), os) else (c, os))\<rparr>"

definition race_world :: gc_world where
  "race_world = demo_gc_world\<lparr>gw_catalog := demo_catalog\<lparr>parts := [],
       pending_objects := [\<lparr>po_hypertable = 1, po_path = ''ht/1/a'', po_created_at = 0\<rparr>]\<rparr>,
     gw_objects := [(''ht/1/a'', 0)]\<rparr>"

text \<open>The backstop can delete the object of a live part that the catalog knew throughout:
  an upload intent covers the object until the commit that makes it a part, but the commit
  falls between the backstop's two reads and the upload is older than the grace.\<close>

lemma reconcile_race:
  "others_run race_env
   \<and> po_path ` set (pending_objects (gw_catalog race_world)) = {''ht/1/a''}
   \<and> (\<exists>w' st. reconcile_once race_env gc_default_config race_world = (w', Inr st) \<and> reconciled_orphans st = 1
      \<and> (\<exists>p \<in> set (parts (gw_catalog w')). live p \<and> pr_purged_at p = None \<and> path (pr_meta p) = ''ht/1/a'')
      \<and> gw_objects w' = [])"
proof (intro conjI)
  have one: "show_int 1 = ''1''" by code_simp
  show "others_run race_env"
    by (auto simp: others_run_def race_env_def intro!: catalog_step.commit r_into_rtranclp split: if_splits)
  show "po_path ` set (pending_objects (gw_catalog race_world)) = {''ht/1/a''}" by (simp add: race_world_def)
  show "\<exists>w' st. reconcile_once race_env gc_default_config race_world = (w', Inr st) \<and> reconciled_orphans st = 1
      \<and> (\<exists>p \<in> set (parts (gw_catalog w')). live p \<and> pr_purged_at p = None \<and> path (pr_meta p) = ''ht/1/a'')
      \<and> gw_objects w' = []"
    by (simp add: reconcile_once_def reconcile_hypertable_def gc_bind_def gc_call_def gc_list_def race_env_def
        race_world_def demo_gc_env_def demo_gc_world_def demo_defs commit_exec quiet_env_def list_hypertables_def
        hypertable_from_row_def all_part_paths_def all_pending_paths_def one num_seconds_def
        gc_delete_object_def gc_default_config_def gc_return_def gc_default_stats_def remove_object_def)
qed

end
