(* ===== verification/PartQueries.thy ===== *)
theory PartQueries
  imports Commit Feed
begin

text \<open>
  Reading parts, \<^verbatim>\<open>crates/ukiel-catalog/src/parts.rs\<close>: the live set, the pruned live set
  with its generated SQL in three-valued logic, and the bounded, lease-aware, resumable
  windows of compaction and finalization candidates. Parameters stand for PostgreSQL:
  \<open>pv_text\<close> renders a \<open>jsonb\<close> as text, \<open>bigint\<close> casts a text to \<open>BIGINT\<close> (\<open>None\<close>
  raises, as on an integer outside 64 bits: \<open>bigint_cast\<close>).
\<close>

section \<open>Live parts\<close>

definition live_parts :: "env \<Rightarrow> hypertable_id \<Rightarrow> i64 option \<Rightarrow> part list tx" where
  "live_parts env ht key =
     query env SLiveParts (\<lambda>s.
       map part_of_row (sort_key pr_id (filter (\<lambda>p.
         pr_hypertable p = ht \<and> live p \<and>
         (case key of None \<Rightarrow> True
          | Some k \<Rightarrow> packing_key_min (pr_meta p) \<le> k \<and> k \<le> packing_key_max (pr_meta p))) (parts s))))"

text \<open>\<open>column_stats -> col\<close>, then \<open>->> 'max'\<close> (NULL on anything but an object with the
  member, and on a JSON null), then \<open>::bigint\<close>.\<close>

definition json_arrow :: "json option \<Rightarrow> string \<Rightarrow> json option" where
  "json_arrow j k = Option.bind j (\<lambda>v. json_get v k)"

fun json_text :: "(json \<Rightarrow> string) \<Rightarrow> json \<Rightarrow> string option" where
  "json_text pv_text JNull = None"
| "json_text pv_text (JString t) = Some t"
| "json_text pv_text v = Some (pv_text v)"

datatype 'a sql = Raises | Null | Value 'a

definition stat_bigint ::
  "(json \<Rightarrow> string) \<Rightarrow> (string \<Rightarrow> i64 option) \<Rightarrow> json \<Rightarrow> string \<Rightarrow> i64 sql" where
  "stat_bigint pv_text bigint entry field =
     (case Option.bind (json_arrow (Some entry) field) (json_text pv_text) of
        None \<Rightarrow> Null
      | Some t \<Rightarrow> (case bigint t of None \<Rightarrow> Raises | Some v \<Rightarrow> Value v))"

definition sql_cmp :: "(i64 \<Rightarrow> bool) \<Rightarrow> i64 sql \<Rightarrow> bool sql" where
  "sql_cmp P v = (case v of Raises \<Rightarrow> Raises | Null \<Rightarrow> Null | Value x \<Rightarrow> Value (P x))"

fun sql_and :: "bool sql \<Rightarrow> bool sql \<Rightarrow> bool sql" where
  "sql_and (Value False) b = Value False"
| "sql_and (Value True) b = b"
| "sql_and Raises b = Raises"
| "sql_and Null (Value False) = Value False"
| "sql_and Null Raises = Raises"
| "sql_and Null b = Null"

text \<open>The clause of one range; an open bound is \<open>NULL\<close> and makes its side true.\<close>

definition range_clause ::
  "(json \<Rightarrow> string) \<Rightarrow> (string \<Rightarrow> i64 option) \<Rightarrow> json option \<Rightarrow> column_range \<Rightarrow> bool sql" where
  "range_clause pv_text bigint stats r =
     (case json_arrow stats (cr_column r) of
        None \<Rightarrow> Value True
      | Some entry \<Rightarrow>
          sql_and
            (case cr_min r of None \<Rightarrow> Value True
             | Some mn \<Rightarrow> sql_cmp (\<lambda>v. v \<ge> mn) (stat_bigint pv_text bigint entry ''max''))
            (case cr_max r of None \<Rightarrow> Value True
             | Some mx \<Rightarrow> sql_cmp (\<lambda>v. v \<le> mx) (stat_bigint pv_text bigint entry ''min'')))"

definition ranges_clause ::
  "(json \<Rightarrow> string) \<Rightarrow> (string \<Rightarrow> i64 option) \<Rightarrow> column_range list \<Rightarrow> part_row \<Rightarrow> bool sql" where
  "ranges_clause pv_text bigint ranges p =
     foldr (\<lambda>r acc. sql_and (range_clause pv_text bigint (column_stats (pr_meta p)) r) acc) ranges (Value True)"

text \<open>The inner selection: live rows of the hypertable and, with a key, the range and the
  key filter, whose predicate starts at bind 3 and never raises.\<close>

definition key_clause :: "i64 option \<Rightarrow> part_row \<Rightarrow> bool" where
  "key_clause key p =
     (case key of
        None \<Rightarrow> True
      | Some k \<Rightarrow> packing_key_min (pr_meta p) \<le> k \<and> k \<le> packing_key_max (pr_meta p) \<and>
          sql_predicate 3 (pr_key_filter p) (bind_env 3 (sql_binds k)) = Some True)"

definition live_parts_pruned ::
  "env \<Rightarrow> (json \<Rightarrow> string) \<Rightarrow> (string \<Rightarrow> i64 option) \<Rightarrow> hypertable_id \<Rightarrow> i64 option \<Rightarrow> column_range list
   \<Rightarrow> part list tx" where
  "live_parts_pruned env pv_text bigint ht key ranges =
     tx_bind (query env SLivePruned (\<lambda>s.
         filter (\<lambda>p. pr_hypertable p = ht \<and> live p \<and> key_clause key p) (parts s))) (\<lambda>inner.
       if list_ex (\<lambda>p. ranges_clause pv_text bigint ranges p = Raises) inner
       then tx_fail (Db (Database (Some ''22P02'')))
       else tx_return (map part_of_row
              (sort_key pr_id (filter (\<lambda>p. ranges_clause pv_text bigint ranges p = Value True) inner))))"

definition live_partition_parts :: "env \<Rightarrow> hypertable_id \<Rightarrow> json \<Rightarrow> part list tx" where
  "live_partition_parts env ht pv =
     query env SPartitionParts (\<lambda>s.
       map part_of_row (sort_key pr_id (filter (\<lambda>p.
         pr_hypertable p = ht \<and> live p \<and> partition_values (pr_meta p) = pv) (parts s))))"

section \<open>Run counts\<close>

definition run_count :: "catalog \<Rightarrow> (part_row \<Rightarrow> bool) \<Rightarrow> nat" where
  "run_count s P = card (set (map pr_created_by (filter (\<lambda>p. live p \<and> P p) (parts s))))"

definition in_partition :: "hypertable_id \<Rightarrow> json \<Rightarrow> part_row \<Rightarrow> bool" where
  "in_partition ht pv p \<longleftrightarrow> pr_hypertable p = ht \<and> partition_values (pr_meta p) = pv"

text \<open>When the L0 parts of a partition arrived, tombstoned ones included.\<close>

definition l0_arrivals :: "catalog \<Rightarrow> hypertable_id \<Rightarrow> json \<Rightarrow> time list" where
  "l0_arrivals s ht pv =
     concat (map (\<lambda>p. map cm_created_at (filter (\<lambda>c. cm_id c = pr_created_by p) (commits s)))
       (filter (\<lambda>p. in_partition ht pv p \<and> level (pr_meta p) = 0) (parts s)))"

definition partition_l0_quiet_since :: "env \<Rightarrow> hypertable_id \<Rightarrow> json \<Rightarrow> time \<Rightarrow> bool tx" where
  "partition_l0_quiet_since env ht pv quiet =
     query env SQuiet (\<lambda>s.
       case list_max (l0_arrivals s ht pv) of None \<Rightarrow> True | Some t \<Rightarrow> t < env_now env - quiet)"

definition max_live_l0_parts :: "env \<Rightarrow> hypertable_id \<Rightarrow> json list \<Rightarrow> nat tx" where
  "max_live_l0_parts env ht pvs =
     (if pvs = [] then tx_return 0
      else query env SMaxL0 (\<lambda>s.
        let hit = filter (\<lambda>p. pr_hypertable p = ht \<and> live p \<and> level (pr_meta p) = 0
                    \<and> partition_values (pr_meta p) \<in> set pvs) (parts s);
            groups = remdups (map (partition_values \<circ> pr_meta) hit)
        in case list_max (map (\<lambda>pv. length (filter (\<lambda>p. partition_values (pr_meta p) = pv) hit)) groups) of
             None \<Rightarrow> 0 | Some n \<Rightarrow> n))"

section \<open>Candidate windows\<close>

record candidate_window =
  cw_partitions :: "json list"
  cw_next_cursor :: "string option"
  cw_eligible :: nat
  cw_leased :: nat

definition claimable :: "candidate_window \<Rightarrow> int" where
  "claimable w = int (cw_eligible w) - int (cw_leased w)"

type_synonym window_row = "nat \<times> nat \<times> json option \<times> string option"

definition from_rows :: "window_row list \<Rightarrow> candidate_window" where
  "from_rows rows =
     (let (eligible, leased) = (case rows of [] \<Rightarrow> (0, 0) | r # _ \<Rightarrow> (fst r, fst (snd r)));
          next_cursor = (if rows = [] then None else snd (snd (snd (last rows))))
      in \<lparr>cw_partitions = List.map_filter (\<lambda>r. fst (snd (snd r))) rows, cw_next_cursor = next_cursor,
          cw_eligible = eligible, cw_leased = leased\<rparr>)"

definition leased_by_peer :: "env \<Rightarrow> catalog \<Rightarrow> hypertable_id \<Rightarrow> uuid \<Rightarrow> json \<Rightarrow> bool" where
  "leased_by_peer env s ht owner pv \<longleftrightarrow>
     list_ex (\<lambda>l. cl_hypertable l = ht \<and> cl_partition l = pv \<and> cl_expires_at l > env_clock env
                  \<and> cl_owner l \<noteq> owner) (leases s)"

definition window_rows ::
  "env \<Rightarrow> (json \<Rightarrow> string) \<Rightarrow> catalog \<Rightarrow> hypertable_id \<Rightarrow> json list \<Rightarrow> uuid \<Rightarrow> nat \<Rightarrow> string option
   \<Rightarrow> window_row list" where
  "window_rows env pv_text s ht eligible owner limit after =
     (let leased = filter (leased_by_peer env s ht owner) eligible;
          free = sort_key pv_text (filter (\<lambda>pv. \<not> leased_by_peer env s ht owner pv \<and>
                   (case after of None \<Rightarrow> True | Some a \<Rightarrow> a < pv_text pv)) eligible);
          w = take limit free;
          n = length eligible; m = length leased
      in if w = [] then [(n, m, None, None)]
         else map (\<lambda>pv. (n, m, Some pv, Some (pv_text pv))) w)"

definition live_partitions :: "catalog \<Rightarrow> hypertable_id \<Rightarrow> json list" where
  "live_partitions s ht =
     remdups (map (partition_values \<circ> pr_meta) (filter (\<lambda>p. pr_hypertable p = ht \<and> live p) (parts s)))"

definition finalize_eligible :: "env \<Rightarrow> time \<Rightarrow> catalog \<Rightarrow> hypertable_id \<Rightarrow> json list" where
  "finalize_eligible env quiet s ht =
     filter (\<lambda>pv. 2 \<le> run_count s (in_partition ht pv) \<and>
                   \<not> list_ex (\<lambda>t. env_now env - quiet \<le> t) (l0_arrivals s ht pv)) (live_partitions s ht)"

definition merge_trigger :: "i64 \<Rightarrow> i64 \<Rightarrow> i16 \<Rightarrow> i64" where
  "merge_trigger l0_fanout fanout lvl = (if lvl = 0 then l0_fanout else fanout)"

definition compaction_eligible :: "i64 \<Rightarrow> i64 \<Rightarrow> catalog \<Rightarrow> hypertable_id \<Rightarrow> json list" where
  "compaction_eligible l0_fanout fanout s ht =
     filter (\<lambda>pv. list_ex (\<lambda>lvl.
        merge_trigger l0_fanout fanout lvl
          \<le> int (run_count s (\<lambda>p. in_partition ht pv p \<and> level (pr_meta p) = lvl)))
        (map (level \<circ> pr_meta) (filter (\<lambda>p. live p \<and> in_partition ht pv p) (parts s)))) (live_partitions s ht)"

definition window_query ::
  "env \<Rightarrow> stmt \<Rightarrow> (json \<Rightarrow> string) \<Rightarrow> (catalog \<Rightarrow> json list) \<Rightarrow> hypertable_id \<Rightarrow> uuid \<Rightarrow> i64
   \<Rightarrow> string option \<Rightarrow> candidate_window tx" where
  "window_query env st pv_text eligible ht owner limit after =
     tx_bind (query env st (\<lambda>s. window_rows env pv_text s ht (eligible s) owner (nat limit) after)) (\<lambda>rows.
       if limit < 0 then tx_fail (Db (Database (Some ''2201W''))) else tx_return (from_rows rows))"

definition finalize_candidates ::
  "env \<Rightarrow> (json \<Rightarrow> string) \<Rightarrow> hypertable_id \<Rightarrow> uuid \<Rightarrow> time \<Rightarrow> i64 \<Rightarrow> string option \<Rightarrow> candidate_window tx" where
  "finalize_candidates env pv_text ht owner quiet limit after =
     window_query env SFinalizeCandidates pv_text (\<lambda>s. finalize_eligible env quiet s ht) ht owner limit after"

definition compaction_candidates ::
  "env \<Rightarrow> (json \<Rightarrow> string) \<Rightarrow> hypertable_id \<Rightarrow> uuid \<Rightarrow> i64 \<Rightarrow> i64 \<Rightarrow> i64 \<Rightarrow> string option
   \<Rightarrow> candidate_window tx" where
  "compaction_candidates env pv_text ht owner l0_fanout fanout limit after =
     window_query env SCompactionCandidates pv_text (\<lambda>s. compaction_eligible l0_fanout fanout s ht) ht owner
       limit after"

section \<open>Gauges\<close>

definition live_part_counts :: "env \<Rightarrow> (hypertable_id \<times> i16 \<times> nat) list tx" where
  "live_part_counts env =
     query env SLiveCounts (\<lambda>s.
       let rows = map (\<lambda>p. (pr_hypertable p, level (pr_meta p))) (filter live (parts s))
       in map (\<lambda>(ht, lvl). (ht, lvl, length (filter (\<lambda>r. r = (ht, lvl)) rows))) (remdups rows))"

definition backlog_groups :: "env \<Rightarrow> i64 \<Rightarrow> i64 \<Rightarrow> nat tx" where
  "backlog_groups env l0_fanout fanout =
     query env SBacklogGroups (\<lambda>s.
       length (filter (\<lambda>(ht, pv, lvl).
           merge_trigger l0_fanout fanout lvl
             \<le> int (run_count s (\<lambda>p. in_partition ht pv p \<and> level (pr_meta p) = lvl)))
         (remdups (map (\<lambda>p. (pr_hypertable p, partition_values (pr_meta p), level (pr_meta p)))
            (filter live (parts s))))))"

definition unfinalized_partitions :: "env \<Rightarrow> time \<Rightarrow> (nat \<times> time) tx" where
  "unfinalized_partitions env quiet =
     query env SUnfinalized (\<lambda>s.
       let groups = filter (\<lambda>(ht, pv). 2 \<le> run_count s (in_partition ht pv))
             (remdups (map (\<lambda>p. (pr_hypertable p, partition_values (pr_meta p))) (filter live (parts s))));
           last_l0 = (\<lambda>(ht, pv). list_max (l0_arrivals s ht pv));
           cold = filter (\<lambda>g. case last_l0 g of None \<Rightarrow> True | Some t \<Rightarrow> t < env_now env - quiet) groups
       in (length cold,
           case list_max (map (\<lambda>t. env_now env - t) (somes (map last_l0 cold))) of
             None \<Rightarrow> 0 | Some a \<Rightarrow> a))"

section \<open>Lemmas\<close>

lemma take_page_split:
  fixes f :: "'a \<Rightarrow> 'b::linorder"
  assumes "sorted_wrt (<) (map f xs)" "take n xs \<noteq> []"
  shows "filter (\<lambda>x. f (last (take n xs)) < f x) xs = drop n xs"
proof -
  have "xs = butlast (take n xs) @ last (take n xs) # drop n xs"
    using assms(2) by (metis append_butlast_last_id append_take_drop_id append.assoc append_Cons append_Nil)
  from strict_sorted_filter_split [OF assms(1) this] show ?thesis .
qed

text \<open>What an owner could take now, in sweep order.\<close>

definition claimable_after ::
  "env \<Rightarrow> (json \<Rightarrow> string) \<Rightarrow> catalog \<Rightarrow> hypertable_id \<Rightarrow> json list \<Rightarrow> uuid \<Rightarrow> string option \<Rightarrow> json list" where
  "claimable_after env pv_text s ht eligible owner after =
     sort_key pv_text (filter (\<lambda>pv. \<not> leased_by_peer env s ht owner pv \<and>
        (case after of None \<Rightarrow> True | Some a \<Rightarrow> a < pv_text pv)) eligible)"

lemma window_of_rows:
  "from_rows (window_rows env pv_text s ht eligible owner limit after) =
     (let w = take limit (claimable_after env pv_text s ht eligible owner after)
      in \<lparr>cw_partitions = w, cw_next_cursor = (if w = [] then None else Some (pv_text (last w))),
          cw_eligible = length eligible, cw_leased = length (filter (leased_by_peer env s ht owner) eligible)\<rparr>)"
proof -
  define w where "w = take limit (claimable_after env pv_text s ht eligible owner after)"
  define g where "g pv = (length eligible, length (filter (leased_by_peer env s ht owner) eligible),
      Some pv, Some (pv_text pv))" for pv
  have rows: "window_rows env pv_text s ht eligible owner limit after
      = (if w = [] then [(length eligible, length (filter (leased_by_peer env s ht owner) eligible), None, None)]
         else map g w)"
    by (simp add: window_rows_def Let_def claimable_after_def w_def g_def [abs_def])
  show ?thesis
  proof (cases "w = []")
    case True
    then show ?thesis unfolding rows by (simp add: from_rows_def List.map_filter_simps w_def)
  next
    case False
    have "List.map_filter (\<lambda>r. fst (snd (snd r))) (map g xs) = xs" for xs
      by (induction xs) (simp_all add: List.map_filter_simps g_def)
    moreover have "(case map g w of [] \<Rightarrow> (0, 0) | r # _ \<Rightarrow> (fst r, fst (snd r)))
        = (length eligible, length (filter (leased_by_peer env s ht owner) eligible))"
      using False by (cases w) (simp_all add: g_def)
    moreover have "snd (snd (snd (last (map g w)))) = Some (pv_text (last w))"
      using False by (simp add: last_map g_def)
    ultimately show ?thesis
      unfolding rows using False by (simp add: from_rows_def Let_def flip: w_def)
  qed
qed

section \<open>Properties\<close>

text \<open>A part holds a key: its range covers it and, if its statistics carry a decodable key
  set, the key is in that set.\<close>

definition holds_key :: "(string \<Rightarrow> nat list option) \<Rightarrow> part_meta \<Rightarrow> i64 \<Rightarrow> bool" where
  "holds_key de m k \<longleftrightarrow> packing_key_min m \<le> k \<and> k \<le> packing_key_max m \<and>
     (\<forall>stats v e ks. column_stats m = Some stats \<longrightarrow> json_get stats PACKING_KEYS_STAT = Some v \<longrightarrow>
        as_str v = Some e \<longrightarrow> bitmap_keys de e = Some ks \<longrightarrow> k \<in> set ks)"

lemma key_filter_keeps:
  assumes "holds_key de m k"
  shows "sql_predicate b (key_filter de m) (bind_env b (sql_binds k)) = Some True"
proof (cases "key_filter de m")
  case None
  then show ?thesis by (simp add: sql_predicate_def)
next
  case (Some blob)
  then obtain ks where "build ks = Some blob" "k \<in> set ks"
    using assms by (auto simp: key_filter_def holds_key_def Option.bind_eq_Some_conv)
  from sql_predicate_keeps_members [OF this] Some show ?thesis by simp
qed

text \<open>The statistics entry of a range's column, as the writers record it, bounds a value the
  part holds there; an Int64 column's bounds are 64-bit integers.\<close>

definition holds_value :: "part_meta \<Rightarrow> column_range \<Rightarrow> bool" where
  "holds_value m r \<longleftrightarrow>
     (\<exists>v. (\<forall>mn. cr_min r = Some mn \<longrightarrow> mn \<le> v) \<and> (\<forall>mx. cr_max r = Some mx \<longrightarrow> v \<le> mx) \<and>
       (\<forall>entry. json_arrow (column_stats m) (cr_column r) = Some entry \<longrightarrow>
          (\<exists>a b. entry = minmax_json (a, b) \<and> in_i64 a \<and> in_i64 b \<and> a \<le> v \<and> v \<le> b)))"

text \<open>What pruning relies on of PostgreSQL: an integer is printed and cast back to \<open>BIGINT\<close>
  unchanged within 64 bits, and the cast raises outside.\<close>

definition bigint_cast :: "(json \<Rightarrow> string) \<Rightarrow> (string \<Rightarrow> i64 option) \<Rightarrow> bool" where
  "bigint_cast pv_text bigint \<longleftrightarrow> (\<forall>i. bigint (pv_text (JNumber (JInt i))) = (if in_i64 i then Some i else None))"

lemma range_clause_keeps:
  assumes "holds_value m r" "bigint_cast pv_text bigint"
  shows "range_clause pv_text bigint (column_stats m) r = Value True"
proof (cases "json_arrow (column_stats m) (cr_column r)")
  case (Some entry)
  with assms(1) obtain v a b where v: "\<forall>mn. cr_min r = Some mn \<longrightarrow> mn \<le> v" "\<forall>mx. cr_max r = Some mx \<longrightarrow> v \<le> mx"
    "entry = minmax_json (a, b)" "in_i64 a" "in_i64 b" "a \<le> v" "v \<le> b" by (auto simp: holds_value_def)
  have "stat_bigint pv_text bigint entry ''max'' = Value b" "stat_bigint pv_text bigint entry ''min'' = Value a"
    using assms(2) v(3-5) by (simp_all add: bigint_cast_def stat_bigint_def json_arrow_def minmax_json_def)
  with v show ?thesis
    by (auto simp: range_clause_def Some sql_cmp_def split: option.splits)
qed (simp add: range_clause_def)

text \<open>A cast with these laws: the decimal text of an integer, and its reading bounded to 64 bits.\<close>

definition decimal_text :: "json \<Rightarrow> string" where
  "decimal_text j = (case j of JNumber n \<Rightarrow> number_text n | _ \<Rightarrow> [])"

definition int8in :: "string \<Rightarrow> i64 option" where
  "int8in t =
     (case (case t of
              [] \<Rightarrow> None
            | c # ds \<Rightarrow> if c = CHR ''-'' then map_option (\<lambda>n. - int n) (digits_value ds) else map_option int (digits_value t)) of
        None \<Rightarrow> None
      | Some v \<Rightarrow> if in_i64 v then Some v else None)"

lemma int8in_show_int: "int8in (show_int i) = (if in_i64 i then Some i else None)"
proof (cases "i < 0")
  case False
  then have e: "show_int i = show_nat (nat i)" by (simp add: show_int_def)
  obtain c cs where c: "show_nat (nat i) = c # cs" by (cases "show_nat (nat i)") auto
  have "CHR ''-'' \<notin> set (show_nat (nat i))" by (rule nondigit_not_in_show_nat) simp
  with c have "c \<noteq> CHR ''-''" by auto
  moreover have "digits_value (c # cs) = Some (nat i)" using digits_value_show_nat [of "nat i"] by (simp add: c)
  ultimately show ?thesis using False by (simp add: int8in_def e c)
qed (simp add: int8in_def show_int_def)

lemma int8in_cast: "bigint_cast decimal_text int8in"
  by (simp add: bigint_cast_def decimal_text_def int8in_show_int)

lemma ranges_clause_keeps:
  assumes "\<forall>r \<in> set rs. range_clause pv_text bigint (column_stats (pr_meta p)) r = Value True"
  shows "ranges_clause pv_text bigint rs p = Value True"
  using assms by (induction rs) (auto simp: ranges_clause_def)

lemma pruned_parts:
  assumes "live_parts_pruned env pv_text bigint ht key ranges s = (s', Inr ps)"
  shows "s' = s \<and> set ps = part_of_row ` {p \<in> set (parts s). pr_hypertable p = ht \<and> live p \<and> key_clause key p
    \<and> ranges_clause pv_text bigint ranges p = Value True}"
  using assms by (auto simp: live_parts_pruned_def tx_results split: if_splits)

lemma matching_part_clauses:
  assumes "bigint_cast pv_text bigint"
    and "pr_key_filter p = key_filter de (pr_meta p)" "\<forall>k. key = Some k \<longrightarrow> holds_key de (pr_meta p) k"
    and "\<forall>r \<in> set ranges. holds_value (pr_meta p) r"
  shows "key_clause key p \<and> ranges_clause pv_text bigint ranges p = Value True"
  using assms
  by (auto simp: key_clause_def key_filter_keeps holds_key_def ranges_clause_keeps range_clause_keeps
      split: option.splits)

text \<open>C26: pruning never loses a part that matters. A live part that holds the requested key
  and, for every requested range, a value inside it, is in the pruned result whenever the
  query answers at all; and the result never contains a part outside the live set. What it
  relies on: the part's filter was derived from its own statistics when it was inserted,
  and PostgreSQL prints a 64-bit integer and casts it back unchanged, and raises outside 64 bits.\<close>

theorem pruning_keeps_matching_parts:
  assumes "live_parts_pruned env pv_text bigint ht key ranges s = (s', Inr ps)"
    and "bigint_cast pv_text bigint"
  shows "(\<forall>p \<in> set (parts s). pr_hypertable p = ht \<and> live p
        \<and> pr_key_filter p = key_filter de (pr_meta p)
        \<and> (\<forall>k. key = Some k \<longrightarrow> holds_key de (pr_meta p) k)
        \<and> (\<forall>r \<in> set ranges. holds_value (pr_meta p) r)
        \<longrightarrow> part_of_row p \<in> set ps)
    \<and> (\<forall>q \<in> set ps. \<exists>p \<in> set (parts s). q = part_of_row p \<and> live p \<and> pr_hypertable p = ht)"
proof -
  note ps = pruned_parts [OF assms(1)]
  have "key_clause key p \<and> ranges_clause pv_text bigint ranges p = Value True"
    if "pr_key_filter p = key_filter de (pr_meta p)" "\<forall>k. key = Some k \<longrightarrow> holds_key de (pr_meta p) k"
      "\<forall>r \<in> set ranges. holds_value (pr_meta p) r" for p
    by (rule matching_part_clauses [OF assms(2) that])
  with ps show ?thesis by auto
qed

text \<open>C26: a part of rows with \<open>ts\<close> between 10 and 20, asked for key 5 and \<open>ts\<close> at least 15, with a
  bounded cast; the same query raises once a statistic leaves 64 bits.\<close>

theorem pruning_keeps_matching_parts_witness:
  fixes m :: part_meta and s :: catalog and r :: column_range and p :: part_row
  defines "m \<equiv> \<lparr>path = ''f'', partition_values = JNull, packing_key_min = 5, packing_key_max = 5, row_count = 1,
    size_bytes = 1, level = 0, column_stats = Some (JObject [(''ts'', minmax_json (10, 20))])\<rparr>"
  defines "p \<equiv> part_row_of (\<lambda>_. None) 1 1 1 m"
  defines "s \<equiv> empty_catalog\<lparr>parts := [p]\<rparr>"
  defines "r \<equiv> \<lparr>cr_column = ''ts'', cr_min = Some 15, cr_max = None\<rparr>"
  shows "bigint_cast decimal_text int8in
    \<and> (\<exists>ps. live_parts_pruned (quiet_env 0) decimal_text int8in 1 (Some 5) [r] s = (s, Inr ps) \<and> part_of_row p \<in> set ps)
    \<and> int8in (decimal_text (JNumber (JInt (2 ^ 63)))) = None"
proof -
  have "\<exists>a b. minmax_json (10, 20) = minmax_json (a, b) \<and> in_i64 a \<and> in_i64 b \<and> a \<le> 16 \<and> 16 \<le> b"
    by (rule exI [of _ 10], rule exI [of _ 20]) (simp add: in_i64_def)
  then have hv: "holds_value m r"
    unfolding holds_value_def by (intro exI [of _ 16]) (simp add: m_def r_def json_arrow_def)
  have c: "ranges_clause decimal_text int8in [r] p = Value True"
    using range_clause_keeps [OF hv int8in_cast] by (simp add: ranges_clause_def p_def part_row_of_def)
  define ps where "ps = map part_of_row (sort_key pr_id (filter (\<lambda>p. ranges_clause decimal_text int8in [r] p = Value True)
      (filter (\<lambda>p. pr_hypertable p = 1 \<and> live p \<and> key_clause (Some 5) p) (parts s))))"
  have q: "live_parts_pruned (quiet_env 0) decimal_text int8in 1 (Some 5) [r] s = (s, Inr ps)"
    using c by (simp add: live_parts_pruned_def tx_bind_def query_def quiet_env_def tx_return_def ps_def s_def list_ex_iff)
  have "part_of_row p \<in> set ps"
    using pruning_keeps_matching_parts [OF q int8in_cast, of "\<lambda>_. None"] hv
    by (auto simp: s_def p_def part_row_of_def live_def holds_key_def m_def PACKING_KEYS_STAT_def)
  moreover have "int8in (decimal_text (JNumber (JInt (2 ^ 63)))) = None"
    unfolding decimal_text_def by (simp add: int8in_show_int in_i64_def)
  ultimately show ?thesis using q int8in_cast by blast
qed

text \<open>Where pruning can go wrong. A statistics object keys the key bitmap by the literal
  name \<open>packing_keys\<close>, beside the columns' own entries: on a part with a bitmap, any bound
  on a column of that name evaluates to NULL, so the part is dropped whatever it holds.\<close>

lemma bitmap_entry_shadows_column:
  assumes "cr_column r = PACKING_KEYS_STAT" "cr_min r \<noteq> None \<or> cr_max r \<noteq> None"
    and "\<forall>stats m. stats0 = Some stats \<longrightarrow> stats = JObject m \<longrightarrow> sorted_wrt (<) (map fst m)"
  shows "range_clause pv_text bigint (with_key_index stats0 (Some b) None) r = Null"
proof -
  define m where "m = (case stats0 of Some (JObject m) \<Rightarrow> m | _ \<Rightarrow> [])"
  have "sorted_wrt (<) (map fst m)" using assms(3) by (auto simp: m_def split: option.splits json.splits)
  then have "json_get (JObject (object_insert PACKING_KEYS_STAT (JString b) m)) PACKING_KEYS_STAT = Some (JString b)"
    by simp
  then have "json_arrow (with_key_index stats0 (Some b) None) (cr_column r) = Some (JString b)"
    by (simp add: with_key_index_def Let_def json_arrow_def assms(1) flip: m_def)
  moreover have "stat_bigint pv_text bigint (JString b) f = Null" for f
    by (simp add: stat_bigint_def json_arrow_def)
  ultimately show ?thesis
    using assms(2) by (cases "cr_min r"; cases "cr_max r") (auto simp: range_clause_def sql_cmp_def)
qed

text \<open>A part whose \<open>packing_keys\<close> column spans 1 to 9, asked for values of at least 2.\<close>

lemma bitmap_entry_shadows_column_witness:
  "range_clause (\<lambda>_. ''1'') (\<lambda>_. Some 1)
     (with_key_index (Some (JObject [(''packing_keys'', minmax_json (1, 9))])) (Some ''b64'') None)
     \<lparr>cr_column = ''packing_keys'', cr_min = Some 2, cr_max = None\<rparr> = Null"
  by (rule bitmap_entry_shadows_column) (simp_all add: PACKING_KEYS_STAT_def)

text \<open>Sweeping by windows covers the backlog. A window is the first \<open>limit\<close> claimable
  partitions after the cursor in one fixed order; continuing from its cursor gives exactly
  the claimable partitions it left out; and what a window leaves out as leased is exactly
  what the owner's own claim would be refused at that instant.\<close>

lemma candidate_windows_rotate:
  assumes "window_query env st pv_text eligible ht owner limit after s = (s', Inr w)"
    and inj: "inj_on pv_text (set (eligible s))" and dist: "distinct (eligible s)" and wf: "wf_leases s"
  shows "s' = s
    \<and> cw_partitions w = take (nat limit) (claimable_after env pv_text s ht (eligible s) owner after)
    \<and> (case cw_next_cursor w of
         None \<Rightarrow> cw_partitions w = []
       | Some c \<Rightarrow> claimable_after env pv_text s ht (eligible s) owner after
            = cw_partitions w @ claimable_after env pv_text s ht (eligible s) owner (Some c))
    \<and> (\<forall>pv ms. hypertable_exists s ht \<longrightarrow>
         (leased_by_peer env s ht owner pv \<longleftrightarrow> snd (acquire_stmt env ht pv owner ms s) = Inr None))"
proof -
  define log where "log = claimable_after env pv_text s ht (eligible s) owner after"
  from assms(1) have s': "s' = s" and w: "w = from_rows (window_rows env pv_text s ht (eligible s) owner (nat limit) after)"
    by (auto simp: window_query_def tx_results split: if_splits)
  have "distinct (map pv_text log)"
    using inj dist by (auto simp: log_def claimable_after_def distinct_map intro: inj_on_subset)
  then have strict: "sorted_wrt (<) (map pv_text log)"
    by (simp add: strict_sorted_iff log_def claimable_after_def)
  have parts: "cw_partitions w = take (nat limit) log"
    and cur: "cw_next_cursor w = (if take (nat limit) log = [] then None else Some (pv_text (last (take (nat limit) log))))"
    by (simp_all add: w window_of_rows Let_def log_def)
  have rest: "claimable_after env pv_text s ht (eligible s) owner (Some c) = drop (nat limit) log"
    if ne: "take (nat limit) log \<noteq> []" and c: "c = pv_text (last (take (nat limit) log))" for c
  proof -
    have "last (take (nat limit) log) \<in> set log" using ne by (meson in_set_takeD last_in_set)
    then have "\<forall>a. after = Some a \<longrightarrow> a < c" by (auto simp: c log_def claimable_after_def)
    then have "claimable_after env pv_text s ht (eligible s) owner (Some c) = filter (\<lambda>pv. c < pv_text pv) log"
      unfolding log_def claimable_after_def filter_sort filter_filter
      by (intro arg_cong [where f = "sort_key pv_text"] filter_cong refl) (auto split: option.splits)
    with take_page_split [OF strict ne] c show ?thesis by simp
  qed
  have "leased_by_peer env s ht owner pv \<longleftrightarrow> snd (acquire_stmt env ht pv owner ms s) = Inr None"
    if ex: "hypertable_exists s ht" for pv ms
  proof (cases "lease_at s (ht, pv)")
    case None
    then have "\<not> leased_by_peer env s ht owner pv"
      by (auto simp: lease_at_None leased_by_peer_def list_ex_iff lease_key_def image_iff)
    with None ex show ?thesis by (simp add: acquire_stmt_def Let_def)
  next
    case (Some l)
    have "leased_by_peer env s ht owner pv \<longleftrightarrow> env_clock env < cl_expires_at l \<and> cl_owner l \<noteq> owner"
    proof -
      have "x = l" if "x \<in> set (leases s)" "cl_hypertable x = ht" "cl_partition x = pv" for x
        using lease_at_member [OF wf that(1)] Some that(2,3) by (simp add: lease_key_def)
      with lease_at_Some [OF Some] show ?thesis
        unfolding leased_by_peer_def list_ex_iff lease_key_def by auto
    qed
    with Some show ?thesis by (auto simp: acquire_stmt_def Let_def)
  qed
  moreover have "case cw_next_cursor w of None \<Rightarrow> cw_partitions w = []
      | Some c \<Rightarrow> log = cw_partitions w @ claimable_after env pv_text s ht (eligible s) owner (Some c)"
    using rest by (simp add: parts cur)
  ultimately show ?thesis using s' parts unfolding log_def by blast
qed

text \<open>Two partitions swept one per window.\<close>

lemma candidate_windows_rotate_witness:
  fixes ren :: "json \<Rightarrow> string" and el :: "catalog \<Rightarrow> json list"
  defines "ren \<equiv> (\<lambda>j. case j of JString t \<Rightarrow> t | _ \<Rightarrow> [])"
  defines "el \<equiv> (\<lambda>_. [JString ''b'', JString ''a''])"
  shows "\<exists>w. window_query (quiet_env 0) SCompactionCandidates ren el 1 7 1 None empty_catalog = (empty_catalog, Inr w)
    \<and> cw_partitions w = [JString ''a'']
    \<and> claimable_after (quiet_env 0) ren empty_catalog 1 (el empty_catalog) 7 (cw_next_cursor w) = [JString ''b'']"
proof -
  let ?w = "from_rows (window_rows (quiet_env 0) ren empty_catalog 1 (el empty_catalog) 7 (nat 1) None)"
  have q: "window_query (quiet_env 0) SCompactionCandidates ren el 1 7 1 None empty_catalog = (empty_catalog, Inr ?w)"
    by (simp add: window_query_def tx_bind_def query_def quiet_env_def tx_return_def)
  have "inj_on ren (set (el empty_catalog))" "distinct (el empty_catalog)" "wf_leases empty_catalog"
    by (simp_all add: ren_def el_def wf_leases_def empty_catalog_def)
  from candidate_windows_rotate [OF q this]
  have "cw_partitions ?w = take (nat 1) (claimable_after (quiet_env 0) ren empty_catalog 1 (el empty_catalog) 7 None)"
    by simp
  moreover have "claimable_after (quiet_env 0) ren empty_catalog 1 (el empty_catalog) 7 None = [JString ''a'', JString ''b'']"
    by (simp add: claimable_after_def el_def ren_def leased_by_peer_def empty_catalog_def)
  moreover have "cw_next_cursor ?w = Some ''a''"
    using calculation(2) by (simp add: window_of_rows Let_def) (simp add: ren_def)
  moreover have "claimable_after (quiet_env 0) ren empty_catalog 1 (el empty_catalog) 7 (Some ''a'') = [JString ''b'']"
    by (simp add: claimable_after_def el_def ren_def leased_by_peer_def empty_catalog_def)
  ultimately show ?thesis using q by auto
qed

end
