(* ===== verification/Provider.thy ===== *)
theory Provider
  imports PartQueries Tables
begin

text \<open>
  The query path's table provider, \<^verbatim>\<open>crates/ukiel-query/src/provider.rs\<close>, with the name
  resolution of \<^verbatim>\<open>context.rs\<close> and the string view types of \<^verbatim>\<open>view_types.rs\<close>: which files
  and row groups a scan opens, and the isolation predicate above it. DataFusion's plan nodes
  are records of what the provider hands it; \<open>refs\<close> and \<open>compile\<close> stand for the SQL
  expression compiler, \<open>de\<close> for the bitmap decoder, \<open>pv_text\<close> and \<open>bigint\<close> for PostgreSQL,
  \<open>arrive\<close> for the order in which DataFusion merges the streams of the files.
  An expression is kept as far as the range extraction looks at it.
\<close>

section \<open>Definitions\<close>

datatype operator = Eq | NotEq | Lt | LtEq | Gt | GtEq | OtherOperator

datatype expr =
    Column string
  | LitInt64 "i64 option"
  | BinaryExpr expr operator expr
  | OtherExpr string

type_synonym bounds = "(string \<times> i64 option \<times> i64 option) list"

definition raise_min :: "i64 option \<Rightarrow> i64 \<Rightarrow> i64 option" where
  "raise_min m v = Some (case m of None \<Rightarrow> v | Some x \<Rightarrow> max x v)"

definition lower_max :: "i64 option \<Rightarrow> i64 \<Rightarrow> i64 option" where
  "lower_max m v = Some (case m of None \<Rightarrow> v | Some x \<Rightarrow> min x v)"

fun apply_bound :: "operator \<Rightarrow> i64 \<Rightarrow> i64 option \<times> i64 option \<Rightarrow> i64 option \<times> i64 option" where
  "apply_bound Eq v (mn, mx) = (raise_min mn v, lower_max mx v)"
| "apply_bound Gt v (mn, mx) = (raise_min mn (wrap_i64 (v + 1)), mx)"
| "apply_bound GtEq v (mn, mx) = (raise_min mn v, mx)"
| "apply_bound Lt v (mn, mx) = (mn, lower_max mx (wrap_i64 (v - 1)))"
| "apply_bound LtEq v (mn, mx) = (mn, lower_max mx v)"
| "apply_bound _ v e = e"

text \<open>\<open>HashMap::entry(..).or_insert(..)\<close>, then the update.\<close>

fun with_entry :: "string \<Rightarrow> (i64 option \<times> i64 option \<Rightarrow> i64 option \<times> i64 option) \<Rightarrow> bounds \<Rightarrow> bounds" where
  "with_entry c f [] = [(c, f (None, None))]"
| "with_entry c f ((c', e) # bs) = (if c' = c then (c, f e) # bs else (c', e) # with_entry c f bs)"

definition apply_filter :: "schema \<Rightarrow> string \<Rightarrow> operator \<Rightarrow> i64 \<Rightarrow> bounds \<Rightarrow> bounds" where
  "apply_filter schema name op v bs =
     (case find (\<lambda>f. f_name f = name) schema of
        None \<Rightarrow> bs
      | Some f \<Rightarrow> if f_type f \<noteq> Int64 then bs else with_entry name (apply_bound op v) bs)"

fun mirrored :: "operator \<Rightarrow> operator" where
  "mirrored Lt = Gt"
| "mirrored LtEq = GtEq"
| "mirrored Gt = Lt"
| "mirrored GtEq = LtEq"
| "mirrored other = other"

fun extract_filter :: "schema \<Rightarrow> expr \<Rightarrow> bounds \<Rightarrow> bounds" where
  "extract_filter schema (BinaryExpr (Column c) op (LitInt64 (Some v))) bs = apply_filter schema c op v bs"
| "extract_filter schema (BinaryExpr (LitInt64 (Some v)) op (Column c)) bs =
     apply_filter schema c (mirrored op) v bs"
| "extract_filter schema _ bs = bs"

definition extract_int64_ranges :: "expr list \<Rightarrow> schema \<Rightarrow> column_range list" where
  "extract_int64_ranges filters schema =
     map (\<lambda>(c, mn, mx). \<lparr>cr_column = c, cr_min = mn, cr_max = mx\<rparr>) (fold (extract_filter schema) filters [])"

definition part_excludes_key :: "(string \<Rightarrow> nat list option) \<Rightarrow> part \<Rightarrow> i64 \<Rightarrow> bool" where
  "part_excludes_key de p key =
     (case Option.bind (column_stats (part_meta p)) (\<lambda>s.
             Option.bind (json_get s PACKING_KEYS_STAT) (\<lambda>v.
               Option.bind (as_str v) (\<lambda>encoded. bitmap_contains de encoded key))) of
        None \<Rightarrow> False | Some present \<Rightarrow> \<not> present)"

fun json_at :: "json \<Rightarrow> nat \<Rightarrow> json option" where
  "json_at (JArray xs) i = (if i < length xs then Some (xs ! i) else None)"
| "json_at _ i = None"

text \<open>One flag per row group: is it scanned? \<open>None\<close> is the bail-out on a malformed span.\<close>

fun span_flags :: "i64 \<Rightarrow> json list \<Rightarrow> bool list option" where
  "span_flags key [] = Some []"
| "span_flags key (span # spans) =
     (case (Option.bind (json_at span 0) as_i64, Option.bind (json_at span 1) as_i64) of
        (Some lo, Some hi) \<Rightarrow> map_option (\<lambda>fs. (\<not> (key < lo \<or> key > hi)) # fs) (span_flags key spans)
      | _ \<Rightarrow> None)"

definition access_plan_for :: "part \<Rightarrow> i64 \<Rightarrow> bool list option" where
  "access_plan_for p key =
     Option.bind (column_stats (part_meta p)) (\<lambda>s.
       Option.bind (json_get s KEY_ROW_GROUPS_STAT) (\<lambda>v.
         Option.bind (as_array v) (\<lambda>spans.
           if spans = [] then None
           else Option.bind (span_flags key spans) (\<lambda>flags.
             if list_all (\<lambda>f. f) flags then None else Some flags))))"

definition view_typed :: "schema \<Rightarrow> schema" where
  "view_typed s = map (\<lambda>f. if f_type f = Utf8 then f\<lparr>f_type := Utf8View\<rparr> else f) s"

record table_provider =
  tp_hypertable :: hypertable
  tp_physical :: schema
  tp_query :: schema
  tp_columns :: table_columns
  tp_slice :: "i64 option"

definition try_new :: "hypertable \<Rightarrow> i64 option \<Rightarrow> (schema_error, table_provider) result" where
  "try_new h slc =
     rbind (parse (table_schema h)) (\<lambda>cols. Inr
       \<lparr>tp_hypertable = h, tp_physical = view_typed (physical_schema cols),
        tp_query = view_typed (query_schema cols), tp_columns = cols, tp_slice = slc\<rparr>)"

record scan_file =
  sf_path :: string
  sf_size :: nat
  sf_plan :: "bool list option"

text \<open>\<open>size_bytes as u64\<close>\<close>

definition as_u64 :: "i64 \<Rightarrow> nat" where
  "as_u64 v = nat (v mod 2 ^ 64)"

definition scan_file_for :: "(string \<Rightarrow> nat list option) \<Rightarrow> i64 option \<Rightarrow> part \<Rightarrow> scan_file option" where
  "scan_file_for de slc p =
     (let file = \<lparr>sf_path = path (part_meta p), sf_size = as_u64 (size_bytes (part_meta p)), sf_plan = None\<rparr> in
      case slc of
        None \<Rightarrow> Some file
      | Some key \<Rightarrow>
          if part_excludes_key de p key then None
          else case access_plan_for p key of
                 Some plan \<Rightarrow> if \<not> list_ex (\<lambda>f. f) plan then None else Some (file\<lparr>sf_plan := Some plan\<rparr>)
               | None \<Rightarrow> Some file)"

datatype query_error =
    QueryCatalog catalog_error
  | QuerySchema schema_error
  | QueryExpr string
  | QueryMissingColumn string
  | QueryPanic

datatype out_expr = OutColumn string | OutCompiled string field

record scan_plan =
  sp_files :: "scan_file list"
  sp_projection :: "nat list"
  sp_predicate :: "(string \<times> i64) option"
  sp_ordering :: "string list"
  sp_isolation :: "(string \<times> i64) option"
  sp_exprs :: "(out_expr \<times> string) list"
  sp_limit :: "nat option"

definition column_of :: "schema \<Rightarrow> string \<Rightarrow> (query_error, string) result" where
  "column_of schema name = (if index_of schema name = None then Inl (QueryMissingColumn name) else Inr name)"

fun map_result :: "('a \<Rightarrow> ('e, 'b) result) \<Rightarrow> 'a list \<Rightarrow> ('e, 'b list) result" where
  "map_result f [] = Inr []"
| "map_result f (x # xs) = rbind (f x) (\<lambda>y. rbind (map_result f xs) (\<lambda>ys. Inr (y # ys)))"

text \<open>The columns one requested index needs; \<open>specs[i]\<close> panics out of range.\<close>

definition needed_for ::
  "(string \<Rightarrow> schema \<Rightarrow> (string, string list) result) \<Rightarrow> table_provider \<Rightarrow> nat \<Rightarrow> (query_error, string list) result" where
  "needed_for refs tp i =
     (if i < length (tp_columns tp) then
        case cs_kind (tp_columns tp ! i) of
          Alias sql \<Rightarrow> map_sum QueryExpr id (refs sql (tp_physical tp))
        | _ \<Rightarrow> Inr [cs_name (tp_columns tp ! i)]
      else Inl QueryPanic)"

definition out_for ::
  "(string \<Rightarrow> schema \<Rightarrow> field \<Rightarrow> (string, unit) result) \<Rightarrow> table_provider \<Rightarrow> schema \<Rightarrow> nat
   \<Rightarrow> (query_error, out_expr \<times> string) result" where
  "out_for compile tp scanned i =
     (if i < length (tp_columns tp) \<and> i < length (tp_query tp) then
        let field = tp_query tp ! i in
        case cs_kind (tp_columns tp ! i) of
          Alias sql \<Rightarrow> rbind (map_sum QueryExpr id (compile sql scanned field))
                         (\<lambda>_. Inr (OutCompiled sql field, f_name field))
        | _ \<Rightarrow> rbind (column_of scanned (f_name field)) (\<lambda>c. Inr (OutColumn c, f_name field))
      else Inl QueryPanic)"

definition column_index :: "schema \<Rightarrow> string \<Rightarrow> (query_error, nat) result" where
  "column_index schema name = (case index_of schema name of None \<Rightarrow> Inl (QueryMissingColumn name) | Some i \<Rightarrow> Inr i)"

definition isolation_for :: "table_provider \<Rightarrow> schema \<Rightarrow> (query_error, (string \<times> i64) option) result" where
  "isolation_for tp schema =
     (case tp_slice tp of
        None \<Rightarrow> Inr None
      | Some key \<Rightarrow> rbind (column_of schema (packing_key (tp_hypertable tp))) (\<lambda>c. Inr (Some (c, key))))"

text \<open>Everything after the file list.\<close>

definition plan_scan ::
  "(string \<Rightarrow> schema \<Rightarrow> (string, string list) result) \<Rightarrow> (string \<Rightarrow> schema \<Rightarrow> field \<Rightarrow> (string, unit) result)
   \<Rightarrow> table_provider \<Rightarrow> nat list option \<Rightarrow> nat option \<Rightarrow> scan_file list \<Rightarrow> (query_error, scan_plan) result" where
  "plan_scan refs compile tp projection limit files =
     (let indices = (case projection of Some p \<Rightarrow> p | None \<Rightarrow> [0..<length (tp_query tp)]);
          base = (case tp_slice tp of Some _ \<Rightarrow> [packing_key (tp_hypertable tp)] | None \<Rightarrow> []) in
      rbind (map_result (needed_for refs tp) indices) (\<lambda>extra.
      rbind (map_result (column_index (tp_physical tp)) (base @ concat extra)) (\<lambda>cols.
        let scan_projection = remdups_adj (sort cols);
            scanned = map (nth (tp_physical tp)) scan_projection in
        rbind (isolation_for tp (tp_physical tp)) (\<lambda>pushdown.
        rbind (isolation_for tp scanned) (\<lambda>isolation.
        rbind (map_result (out_for compile tp scanned) indices) (\<lambda>exprs.
          Inr \<lparr>sp_files = files, sp_projection = scan_projection, sp_predicate = pushdown,
               sp_ordering = (if pushdown = None then []
                  else takeWhile (\<lambda>c. index_of (tp_physical tp) c \<noteq> None) (sort_key_cols (tp_hypertable tp))),
               sp_isolation = isolation, sp_exprs = exprs, sp_limit = limit\<rparr>))))))"

definition scan ::
  "env \<Rightarrow> (string \<Rightarrow> nat list option) \<Rightarrow> (json \<Rightarrow> string) \<Rightarrow> (string \<Rightarrow> i64 option)
   \<Rightarrow> (string \<Rightarrow> schema \<Rightarrow> (string, string list) result) \<Rightarrow> (string \<Rightarrow> schema \<Rightarrow> field \<Rightarrow> (string, unit) result)
   \<Rightarrow> table_provider \<Rightarrow> nat list option \<Rightarrow> expr list \<Rightarrow> nat option \<Rightarrow> catalog \<Rightarrow> (query_error, scan_plan) result" where
  "scan env de pv_text bigint refs compile tp projection filters limit s =
     (case snd (live_parts_pruned env pv_text bigint (ht_id (tp_hypertable tp)) (tp_slice tp)
                  (extract_int64_ranges filters (tp_physical tp)) s) of
        Inl e \<Rightarrow> Inl (QueryCatalog e)
      | Inr ps \<Rightarrow>
          plan_scan refs compile tp projection limit (List.map_filter (scan_file_for de (tp_slice tp)) ps))"

text \<open>A name in a namespace's session: the slice is the namespace's own id.\<close>

definition resolve_table ::
  "env \<Rightarrow> namespace_id \<Rightarrow> string \<Rightarrow> catalog \<Rightarrow> (query_error, table_provider option) result" where
  "resolve_table env ns name s =
     (case snd (get_logical_table env ns name s) of
        Inl (NotFound _) \<Rightarrow> Inr None
      | Inl e \<Rightarrow> Inl (QueryCatalog e)
      | Inr logical \<Rightarrow>
          (case snd (get_hypertable_by_id env (lt_hypertable logical) s) of
             Inl e \<Rightarrow> Inl (QueryCatalog e)
           | Inr h \<Rightarrow> (case try_new h (Some ns) of
                          Inl e \<Rightarrow> Inl (QuerySchema e) | Inr tp \<Rightarrow> Inr (Some tp))))"

definition session_tables :: "env \<Rightarrow> namespace_id \<Rightarrow> catalog \<Rightarrow> (query_error, string list) result" where
  "session_tables env ns s = map_sum QueryCatalog (map lt_name) (snd (list_logical_tables env ns s))"

definition operator_tables :: "env \<Rightarrow> catalog \<Rightarrow> (query_error, (string \<times> table_provider) list) result" where
  "operator_tables env s =
     rbind (map_sum QueryCatalog id (snd (list_hypertables env s)))
       (map_result (\<lambda>h. rbind (map_sum QuerySchema id (try_new h None)) (\<lambda>tp. Inr (ht_name h, tp))))"

section \<open>What a plan reads\<close>

text \<open>A row, as far as the provider's predicates look: its Int64 columns. A file is its row
  groups. The Parquet source reads the groups of the access plan and, as filter pushdown is
  on, drops the rows that fail the pushed-down predicate; the files are separate streams,
  merged in some order \<open>arrive\<close>; the isolation node above keeps the rows of one key, and the
  limit node on top the first \<open>n\<close> of what arrives. The query's own filters are declared
  inexact: DataFusion applies them to these rows.\<close>

type_synonym row = "string \<Rightarrow> i64 option"
type_synonym file_store = "string \<Rightarrow> row list list"

definition read_file :: "file_store \<Rightarrow> scan_file \<Rightarrow> row list" where
  "read_file files f =
     (case sf_plan f of
        None \<Rightarrow> concat (files (sf_path f))
      | Some flags \<Rightarrow> concat (map (\<lambda>(g, keep). if keep then g else []) (zip (files (sf_path f)) flags)))"

definition satisfies :: "(string \<times> i64) option \<Rightarrow> row \<Rightarrow> bool" where
  "satisfies predicate r = (case predicate of None \<Rightarrow> True | Some (c, k) \<Rightarrow> r c = Some k)"

definition limited :: "nat option \<Rightarrow> 'a list \<Rightarrow> 'a list" where
  "limited limit xs = (case limit of None \<Rightarrow> xs | Some n \<Rightarrow> take n xs)"

definition plan_rows :: "(row list list \<Rightarrow> row list) \<Rightarrow> file_store \<Rightarrow> scan_plan \<Rightarrow> row list" where
  "plan_rows arrive files plan =
     limited (sp_limit plan) (filter (satisfies (sp_isolation plan))
       (arrive (map (\<lambda>f. filter (satisfies (sp_predicate plan)) (read_file files f)) (sp_files plan))))"






text \<open>The parts a table has, the ones whose metadata tells the truth, the rows of a set of parts and
  the rows of the session's slice.\<close>

definition table_part :: "table_provider \<Rightarrow> part_row \<Rightarrow> bool" where
  "table_part tp p \<longleftrightarrow> live p \<and> pr_hypertable p = ht_id (tp_hypertable tp)"



definition in_slice :: "table_provider \<Rightarrow> row \<Rightarrow> bool" where
  "in_slice tp r \<longleftrightarrow> (\<forall>k. tp_slice tp = Some k \<longrightarrow> r (packing_key (tp_hypertable tp)) = Some k)"

section \<open>Ranges\<close>












section \<open>Keys and row groups\<close>




definition part_reads :: "(string \<Rightarrow> nat list option) \<Rightarrow> file_store \<Rightarrow> i64 option \<Rightarrow> part \<Rightarrow> row list" where
  "part_reads de files slc p = (case scan_file_for de slc p of None \<Rightarrow> [] | Some f \<Rightarrow> read_file files f)"


section \<open>Plans\<close>

lemma plan_scan_Inr:
  assumes "plan_scan refs compile tp projection limit fs = Inr plan"
  shows "sp_files plan = fs" "sp_limit plan = limit"
    "satisfies (sp_predicate plan) = in_slice tp" "satisfies (sp_isolation plan) = in_slice tp"
  using assms
  by (auto simp: plan_scan_def Let_def rbind_eq_Inr_iff isolation_for_def column_of_def satisfies_def in_slice_def
      split: option.splits if_splits)

text \<open>The parts the catalog returns, and the rows they lead to.\<close>

definition pruned_row :: "(json \<Rightarrow> string) \<Rightarrow> (string \<Rightarrow> i64 option) \<Rightarrow> table_provider \<Rightarrow> expr list \<Rightarrow> part_row \<Rightarrow> bool" where
  "pruned_row pv_text bigint tp filters p \<longleftrightarrow> table_part tp p \<and> key_clause (tp_slice tp) p \<and>
     ranges_clause pv_text bigint (extract_int64_ranges filters (tp_physical tp)) p = Value True"

lemma pruned_list:
  assumes "snd (live_parts_pruned env pv_text bigint (ht_id (tp_hypertable tp)) (tp_slice tp)
      (extract_int64_ranges filters (tp_physical tp)) s) = Inr ps"
  shows "ps = map part_of_row (sort_key pr_id (filter (pruned_row pv_text bigint tp filters) (parts s)))"
proof -
  have "filter (\<lambda>p. ranges_clause pv_text bigint rs p = Value True)
      (filter (\<lambda>p. pr_hypertable p = ht_id (tp_hypertable tp) \<and> live p \<and> key_clause (tp_slice tp) p) (parts s))
      = filter (\<lambda>p. table_part tp p \<and> key_clause (tp_slice tp) p \<and> ranges_clause pv_text bigint rs p = Value True) (parts s)" for rs
    by (auto simp: table_part_def intro: filter_cong)
  with assms show ?thesis
    by (auto simp: live_parts_pruned_def tx_bind_def query_def tx_return_def tx_fail_def pruned_row_def [abs_def] split: option.splits if_splits)
qed

lemma concat_map_map_filter:
  "concat (map g (List.map_filter f xs)) = concat (map (\<lambda>x. case f x of None \<Rightarrow> [] | Some y \<Rightarrow> g y) xs)"
  by (induction xs) (auto simp: List.map_filter_simps split: option.splits)

lemma mset_of_concat_map: "mset (concat (map g xs)) = (\<Sum>x \<in># mset xs. mset (g x))"
  by (induction xs) simp_all





definition unlimited_rows :: "(row list list \<Rightarrow> row list) \<Rightarrow> file_store \<Rightarrow> scan_plan \<Rightarrow> row list" where
  "unlimited_rows arrive files plan = filter (satisfies (sp_isolation plan))
     (arrive (map (\<lambda>f. filter (satisfies (sp_predicate plan)) (read_file files f)) (sp_files plan)))"

lemma plan_rows_limited: "plan_rows arrive files plan = limited (sp_limit plan) (unlimited_rows arrive files plan)"
  by (simp add: plan_rows_def unlimited_rows_def)

lemma scan_Inr:
  assumes "scan env de pv_text bigint refs compile tp projection filters limit s = Inr plan"
  shows "sp_limit plan = limit" "satisfies (sp_isolation plan) = in_slice tp"
    "(\<forall>xss. mset (arrive xss) = mset (concat xss)) \<Longrightarrow> mset (unlimited_rows arrive files plan) =
       mset (concat (map (\<lambda>p. filter (in_slice tp) (part_reads de files (tp_slice tp) (part_of_row p)))
         (filter (pruned_row pv_text bigint tp filters) (parts s))))"
proof -
  let ?ps = "map part_of_row (sort_key pr_id (filter (pruned_row pv_text bigint tp filters) (parts s)))"
  obtain ps where ps: "snd (live_parts_pruned env pv_text bigint (ht_id (tp_hypertable tp)) (tp_slice tp)
      (extract_int64_ranges filters (tp_physical tp)) s) = Inr ps"
    and "plan_scan refs compile tp projection limit (List.map_filter (scan_file_for de (tp_slice tp)) ps) = Inr plan"
    using assms by (auto simp: scan_def split: sum.splits)
  with pruned_list [OF ps] have plan: "plan_scan refs compile tp projection limit (List.map_filter (scan_file_for de (tp_slice tp)) ?ps) = Inr plan"
    by simp
  note p = plan_scan_Inr [OF plan]
  show "sp_limit plan = limit" "satisfies (sp_isolation plan) = in_slice tp" by (fact p)+
  assume arrive: "\<forall>xss. mset (arrive xss) = mset (concat xss)"
  have "mset (unlimited_rows arrive files plan) = filter_mset (in_slice tp) (mset (concat (map (filter (in_slice tp) \<circ> read_file files) (sp_files plan))))"
    using arrive by (simp add: unlimited_rows_def p comp_def)
  also have "\<dots> = mset (filter (in_slice tp) (concat (map (read_file files) (sp_files plan))))"
    by (simp add: filter_concat comp_def flip: mset_filter)
  also have "concat (map (read_file files) (sp_files plan)) = concat (map (part_reads de files (tp_slice tp)) ?ps)"
    unfolding p(1) by (simp add: concat_map_map_filter part_reads_def [abs_def])
  also have "mset (filter (in_slice tp) (concat (map (part_reads de files (tp_slice tp)) ?ps)))
      = mset (concat (map (\<lambda>p. filter (in_slice tp) (part_reads de files (tp_slice tp) (part_of_row p)))
         (filter (pruned_row pv_text bigint tp filters) (parts s))))"
    by (simp add: filter_concat comp_def mset_of_concat_map del: mset_filter)
  finally show "mset (unlimited_rows arrive files plan) = \<dots>" .
qed


lemma snd_tx_bind_query:
  "snd (tx_bind (query env st q) f s) = Inr y \<longleftrightarrow> env_fail env st = None \<and> snd (f (q s) s) = Inr y"
  by (auto simp: tx_bind_def query_def split: option.splits)



text \<open>C20: namespaces are isolated. Whatever tables a namespace's session resolves and whatever
  it scans, with any filters and projection, every row it sees carries the namespace's own
  packing key; a name the namespace has not registered resolves to nothing.\<close>

theorem namespace_isolation:
  assumes "resolve_table env ns name s = Inr (Some tp)"
    and "scan env' de pv_text bigint refs compile tp projection filters limit s' = Inr plan"
  shows "(\<exists>t \<in> set (logical_tables s). lt_namespace t = ns \<and> lt_name t = name \<and>
        lt_hypertable t = ht_id (tp_hypertable tp))
    \<and> (\<forall>r \<in> set (plan_rows arrive files plan). r (packing_key (tp_hypertable tp)) = Some ns)"
proof -
  from assms(1) obtain t h cols where t: "snd (get_logical_table env ns name s) = Inr t"
    and h: "snd (get_hypertable_by_id env (lt_hypertable t) s) = Inr h" and tp: "try_new h (Some ns) = Inr tp"
    by (auto simp: resolve_table_def split: sum.splits catalog_error.splits)
  from t have "find (\<lambda>t. lt_namespace t = ns \<and> lt_name t = name) (logical_tables s) = Some t"
    by (auto simp: get_logical_table_def snd_tx_bind_query tx_fail_def tx_return_def split: option.splits)
  then have "t \<in> set (logical_tables s)" "lt_namespace t = ns" "lt_name t = name" by (auto simp: find_Some_iff)
  moreover from h have "ht_id h = lt_hypertable t"
    by (auto simp: get_hypertable_by_id_def snd_tx_bind_query tx_fail_def tx_return_def hypertable_from_row_def find_Some_iff
        split: option.splits)
  moreover from tp have "tp_slice tp = Some ns" "tp_hypertable tp = h" by (auto simp: try_new_def rbind_eq_Inr_iff)
  moreover have "set (plan_rows arrive files plan) \<subseteq> {r. in_slice tp r}"
    unfolding plan_rows_limited unlimited_rows_def scan_Inr(2) [OF assms(2)]
    by (auto simp: limited_def split: option.splits dest: in_set_takeD)
  ultimately show ?thesis by (auto simp: in_slice_def)
qed

text \<open>C20: namespace 5 reads its table.\<close>

theorem namespace_isolation_witness:
  fixes h :: hypertable_row and lt :: logical_table and p :: part_row and s :: catalog and files :: file_store
    and m :: part_meta
  defines "h \<equiv> \<lparr>hr_id = 1, hr_name = ''events'', hr_schema = JObject [(''fields'', JArray [JObject
      [(''name'', JString ''k''), (''type'', JString ''int64'')]])], hr_partition_spec = JNull, hr_sort_key = [],
      hr_packing_key = ''k'', hr_target_file_bytes = None\<rparr>"
  defines "lt \<equiv> \<lparr>lt_id = 1, lt_namespace = 5, lt_name = ''t'', lt_hypertable = 1, column_mapping = None\<rparr>"
  defines "m \<equiv> \<lparr>path = ''f'', partition_values = JNull, packing_key_min = 5, packing_key_max = 8, row_count = 2,
    size_bytes = 1, level = 0, column_stats = None\<rparr>"
  defines "p \<equiv> part_row_of (\<lambda>_. None) 1 1 1 m"
  defines "s \<equiv> empty_catalog\<lparr>hypertables := [h], logical_tables := [lt], parts := [p]\<rparr>"
  defines "files \<equiv> (\<lambda>_. [[\<lambda>_. Some 5, \<lambda>_. Some 8]])"
  shows "\<exists>tp plan. resolve_table (quiet_env 0) 5 ''t'' s = Inr (Some tp)
    \<and> scan (quiet_env 0) (\<lambda>_. None) (\<lambda>_. []) (\<lambda>_. None) (\<lambda>_ _. Inr []) (\<lambda>_ _ _. Inr ()) tp (Some [0]) [] None s = Inr plan
    \<and> map sf_path (sp_files plan) = [''f''] \<and> (\<forall>r \<in> set (plan_rows concat files plan). r ''k'' = Some 5)"
proof -
  obtain tp where r: "resolve_table (quiet_env 0) 5 ''t'' s = Inr (Some tp)" and tp: "tp_slice tp = Some 5"
    "tp_hypertable tp = hypertable_from_row h"
    "tp_physical tp = [\<lparr>f_name = ''k'', f_type = Int64, f_nullable = True, f_metadata = []\<rparr>]"
    "tp_query tp = tp_physical tp" "length (tp_columns tp) = 1" "cs_kind (tp_columns tp ! 0) = Stored" "cs_name (tp_columns tp ! 0) = ''k''"
    by (simp add: resolve_table_def get_logical_table_def get_hypertable_by_id_def tx_bind_def query_def quiet_env_def
        tx_return_def s_def h_def lt_def try_new_def hypertable_from_row_def parse_def parse_field_def get_str_def
        get_bool_def parse_type_def parse_kind_def physical_schema_def query_schema_def schema_where_def field_of_def
        view_typed_def ok_or_def)
  have hp: "packing_key (hypertable_from_row h) = ''k''" "ht_id (hypertable_from_row h) = 1"
    by (simp_all add: hypertable_from_row_def h_def)
  have "holds_key (\<lambda>_. None) m 5" by (simp add: holds_key_def m_def)
  then have "sql_predicate 3 (key_filter (\<lambda>_. None) m) (bind_env 3 (sql_binds 5)) = Some True" by (rule key_filter_keeps)
  then have "key_clause (Some 5) p" by (simp add: key_clause_def p_def part_row_of_def m_def)
  then have l: "live_parts_pruned (quiet_env 0) (\<lambda>_. []) (\<lambda>_. None) 1 (Some 5) [] s = (s, Inr [part_of_row p])"
    by (simp add: live_parts_pruned_def tx_bind_def query_def quiet_env_def tx_return_def s_def ranges_clause_def
        p_def part_row_of_def live_def)
  have "scan_file_for (\<lambda>_. None) (Some 5) (part_of_row p) = Some \<lparr>sf_path = ''f'', sf_size = 1, sf_plan = None\<rparr>"
    by (simp add: scan_file_for_def part_excludes_key_def access_plan_for_def part_of_row_def p_def part_row_of_def
        m_def as_u64_def)
  then obtain plan where pl: "scan (quiet_env 0) (\<lambda>_. None) (\<lambda>_. []) (\<lambda>_. None) (\<lambda>_ _. Inr []) (\<lambda>_ _ _. Inr ()) tp
      (Some [0]) [] None s = Inr plan" "map sf_path (sp_files plan) = [''f'']"
    using l
    by (simp add: scan_def tp hp extract_int64_ranges_def plan_scan_def needed_for_def column_index_def
        isolation_for_def column_of_def out_for_def Let_def List.map_filter_simps)
  from namespace_isolation [OF r pl(1), of concat files] have iso: "\<forall>r \<in> set (plan_rows concat files plan). r ''k'' = Some 5"
    by (simp add: tp hp)
  show ?thesis
    by (intro exI [of _ tp] exI [of _ plan] conjI) (rule r pl iso)+
qed

end
