(* ===== verification/Arrow.thy ===== *)
theory Arrow
  imports Stats Sorting
begin

text \<open>
  Record batches as the write path handles them. A \<open>RecordBatch\<close> is its schema and its rows;
  a cell is null, an \<open>Int64\<close> value, or the bytes of a value of another type. What the code
  takes from the Arrow and Parquet crates is a record of functions: the value under a null
  slot, the row converter's comparable bytes, \<open>min\<close> and \<open>max\<close>, the roaring serialiser, and the
  Parquet file writer with the sizes and row-group metadata it reports. \<open>writer_ok\<close> says what
  is documented of the file writer: it keeps the rows in order, a flush ends the row group,
  and the statistics of a flushed group bound its values.
\<close>

section \<open>Definitions\<close>

datatype cell = Null | I64 i64 | Cell string

type_synonym cells = "cell list"

record rbatch =
  rb_schema :: schema
  rb_rows :: "cells list"

definition num_rows :: "rbatch \<Rightarrow> nat" where
  "num_rows b = length (rb_rows b)"

definition batch_slice :: "rbatch \<Rightarrow> nat \<Rightarrow> nat \<Rightarrow> rbatch" where
  "batch_slice b start n = b\<lparr>rb_rows := take n (drop start (rb_rows b))\<rparr>"

definition concat_batches :: "schema \<Rightarrow> rbatch list \<Rightarrow> rbatch" where
  "concat_batches s bs = \<lparr>rb_schema = s, rb_rows = concat (map rb_rows bs)\<rparr>"

text \<open>The column view the statistics read.\<close>

fun cell_i64 :: "cell \<Rightarrow> i64 option" where
  "cell_i64 (I64 v) = Some v"
| "cell_i64 _ = None"

definition column_at :: "rbatch \<Rightarrow> nat \<Rightarrow> column" where
  "column_at b i =
     (if f_type (rb_schema b ! i) = Int64 then Int64Col (map (\<lambda>r. cell_i64 (r ! i)) (rb_rows b))
      else OtherCol (num_rows b))"

definition batch_of :: "rbatch \<Rightarrow> batch" where
  "batch_of b = \<lparr>b_schema = rb_schema b, b_columns = map (column_at b) [0..<length (rb_schema b)]\<rparr>"

text \<open>A row of a batch has a cell of the right kind for every field.\<close>

definition cell_fits :: "field \<Rightarrow> cell \<Rightarrow> bool" where
  "cell_fits f c \<longleftrightarrow> (case c of Null \<Rightarrow> f_nullable f | I64 v \<Rightarrow> f_type f = Int64 \<and> in_i64 v | Cell _ \<Rightarrow> f_type f \<noteq> Int64)"

definition wf_rows :: "schema \<Rightarrow> cells list \<Rightarrow> bool" where
  "wf_rows s rs \<longleftrightarrow> (\<forall>r \<in> set rs. list_all2 cell_fits s r)"

record ('w, 'f) arrow =
  ar_null :: i64
  ar_converter :: "field list \<Rightarrow> (cells \<Rightarrow> string) option"
  ar_min :: "i64 option list \<Rightarrow> i64 option"
  ar_max :: "i64 option list \<Rightarrow> i64 option"
  ar_ser :: "nat set \<Rightarrow> string option"
  pw_new :: "schema \<Rightarrow> writer_properties \<Rightarrow> 'w option"
  pw_write :: "'w \<Rightarrow> cells list \<Rightarrow> 'w option"
  pw_flush :: "'w \<Rightarrow> 'w option"
  pw_close :: "'w \<Rightarrow> 'f option"
  pw_in_progress_rows :: "'w \<Rightarrow> nat"
  pw_encoded_size :: "'w \<Rightarrow> nat"
  pw_row_groups :: "'w \<Rightarrow> row_group list"
  pw_groups :: "'w \<Rightarrow> cells list list"
  pw_open :: "'w \<Rightarrow> cells list"
  pw_schema :: "'w \<Rightarrow> schema"
  pq_open :: "'f \<Rightarrow> (schema \<times> cells list option list) option"
  pq_groups :: "'f \<Rightarrow> cells list list"
  pq_size :: "'f \<Rightarrow> nat"

text \<open>\<open>ArrowWriter\<close>: \<open>pw_groups\<close> are the flushed row groups and \<open>pw_open\<close> the rows of the one in
  progress, which only the contract mentions, as it does the row groups \<open>pq_groups\<close> of a file.
  \<open>pq_open\<close> is the reader: the file's schema and its batches, \<open>None\<close> where decoding fails.\<close>

definition pw_rows :: "('w, 'f) arrow \<Rightarrow> 'w \<Rightarrow> cells list" where
  "pw_rows L w = concat (pw_groups L w) @ pw_open L w"

definition group_stats_ok :: "schema \<Rightarrow> row_group \<Rightarrow> cells list \<Rightarrow> bool" where
  "group_stats_ok s rg rs \<longleftrightarrow>
     (\<forall>c i mn mx. index_of s c = Some i \<and> find (\<lambda>x. fst x = c) rg = Some (c, Some (Int64Stats (Some mn) (Some mx))) \<longrightarrow>
        (\<forall>r \<in> set rs. \<forall>v. r ! i = I64 v \<longrightarrow> mn \<le> v \<and> v \<le> mx))"

definition closed_groups :: "('w, 'f) arrow \<Rightarrow> 'w \<Rightarrow> cells list list" where
  "closed_groups L w = pw_groups L w @ (if pw_open L w = [] then [] else [pw_open L w])"

definition writer_ok :: "('w, 'f) arrow \<Rightarrow> bool" where
  "writer_ok L \<longleftrightarrow>
     (\<forall>s p w. pw_new L s p = Some w \<longrightarrow> pw_groups L w = [] \<and> pw_open L w = [] \<and> pw_schema L w = s) \<and>
     (\<forall>w rs w'. pw_write L w rs = Some w' \<longrightarrow> pw_rows L w' = pw_rows L w @ rs \<and> pw_schema L w' = pw_schema L w) \<and>
     (\<forall>w w'. pw_flush L w = Some w' \<longrightarrow> pw_groups L w' = closed_groups L w \<and> pw_open L w' = [] \<and>
        pw_schema L w' = pw_schema L w) \<and>
     (\<forall>w. pw_in_progress_rows L w = length (pw_open L w)) \<and>
     (\<forall>w. list_all2 (group_stats_ok (pw_schema L w)) (pw_row_groups L w) (pw_groups L w)) \<and>
     (\<forall>w f. pw_close L w = Some f \<longrightarrow> pq_groups L f = closed_groups L w \<and>
        (\<exists>bs. pq_open L f = Some (pw_schema L w, map Some bs) \<and> concat bs = concat (closed_groups L w)))"

section \<open>Lemmas\<close>

lemma num_rows_slice [simp]: "num_rows (batch_slice b i n) = min n (num_rows b - i)"
  by (simp add: num_rows_def batch_slice_def)

lemma rb_schema_slice [simp]: "rb_schema (batch_slice b i n) = rb_schema b"
  by (simp add: batch_slice_def)

lemma wf_rows_append [simp]: "wf_rows s (a @ b) \<longleftrightarrow> wf_rows s a \<and> wf_rows s b"
  by (auto simp: wf_rows_def)

lemma wf_rows_concat: "wf_rows s (concat rss) \<longleftrightarrow> (\<forall>rs \<in> set rss. wf_rows s rs)"
  by (auto simp: wf_rows_def)

lemma wf_rows_subset: "wf_rows s b \<Longrightarrow> set a \<subseteq> set b \<Longrightarrow> wf_rows s a"
  by (auto simp: wf_rows_def)

lemma wf_rows_cell: "wf_rows s rs \<Longrightarrow> r \<in> set rs \<Longrightarrow> i < length s \<Longrightarrow> cell_fits (s ! i) (r ! i)"
  by (auto simp: wf_rows_def list_all2_conv_all_nth)

lemma concat_closed_groups [simp]: "concat (closed_groups L w) = pw_rows L w"
  by (simp add: closed_groups_def pw_rows_def)

text \<open>The two views agree on the packing keys.\<close>

lemma batch_keys_batch_of:
  assumes "index_of (rb_schema b) packing = Some i" "f_type (rb_schema b ! i) = Int64"
  shows "batch_keys (batch_of b) packing = {v. \<exists>r \<in> set (rb_rows b). r ! i = I64 v}"
proof -
  have "i < length (rb_schema b)" using assms(1) index_of_Some_nth by blast
  then have "b_columns (batch_of b) ! i = Int64Col (map (\<lambda>r. cell_i64 (r ! i)) (rb_rows b))"
    using assms(2) by (simp add: batch_of_def column_at_def)
  moreover have "set (somes (map (\<lambda>r. cell_i64 (r ! i)) rs)) = {v. \<exists>r \<in> set rs. r ! i = I64 v}" for rs
  proof (induction rs)
    case (Cons r rs)
    then show ?case by (cases "r ! i") (auto simp: somes_def map_filter_def)
  qed (simp add: somes_def map_filter_def)
  ultimately show ?thesis using assms(1) by (simp add: batch_keys_def batch_of_def)
qed

lemma batch_of_append:
  "batch_append (batch_of a) (batch_of b) = batch_of (a\<lparr>rb_rows := rb_rows a @ rb_rows b\<rparr>)"
  if "rb_schema b = rb_schema a"
  using that by (auto simp: batch_append_def batch_of_def column_at_def num_rows_def intro!: nth_equalityI)

lemma wf_batch_of: "wf_batch (rb_schema b) (batch_of b)"
  by (auto simp: wf_batch_def batch_of_def column_at_def)

section \<open>An example library\<close>

text \<open>A library that keeps the row groups themselves, for examples: a key's bytes are as many
  letters as its value, files have no statistics, and a row counts ten bytes.\<close>

type_synonym demo_writer = "schema \<times> cells list list \<times> cells list"

definition demo_cell :: "cell \<Rightarrow> string" where
  "demo_cell c = (case c of Null \<Rightarrow> [] | I64 v \<Rightarrow> replicate (nat v) CHR ''a'' | Cell s \<Rightarrow> s)"

definition demo_arrow :: "(demo_writer, schema \<times> cells list list) arrow" where
  "demo_arrow = \<lparr>ar_null = 0, ar_converter = (\<lambda>_. Some (\<lambda>r. concat (map demo_cell (take 1 r)))),
     ar_min = (\<lambda>vs. list_min (somes vs)), ar_max = (\<lambda>vs. list_max (somes vs)), ar_ser = (\<lambda>_. None),
     pw_new = (\<lambda>s _. Some (s, [], [])), pw_write = (\<lambda>(s, gs, rs) new. Some (s, gs, rs @ new)),
     pw_flush = (\<lambda>(s, gs, rs). Some (s, gs @ (if rs = [] then [] else [rs]), [])),
     pw_close = (\<lambda>(s, gs, rs). Some (s, gs @ (if rs = [] then [] else [rs]))),
     pw_in_progress_rows = (\<lambda>(s, gs, rs). length rs), pw_encoded_size = (\<lambda>(s, gs, rs). 10 * length (concat gs @ rs)),
     pw_row_groups = (\<lambda>(s, gs, rs). map (\<lambda>_. []) gs), pw_groups = (\<lambda>(s, gs, rs). gs), pw_open = (\<lambda>(s, gs, rs). rs),
     pw_schema = fst, pq_open = (\<lambda>(s, gs). Some (s, map Some gs)), pq_groups = snd, pq_size = (\<lambda>(s, gs). 10 * length (concat gs))\<rparr>"

lemma demo_arrow_ok: "writer_ok demo_arrow"
  by (auto simp: writer_ok_def demo_arrow_def pw_rows_def closed_groups_def list_all2_conv_all_nth group_stats_ok_def)

lemma demo_minmax: "arrow_minmax (ar_min demo_arrow) (ar_max demo_arrow)"
  by (simp add: arrow_minmax_def demo_arrow_def)

end
