(* ===== verification/Expr.thy ===== *)
theory Expr
  imports Arrow
begin

text \<open>
  Default, materialised and alias columns, \<^verbatim>\<open>crates/ukiel-expr/src/lib.rs\<close>. DataFusion enters as a
  record: the column references of an expression, and its compilation (parse, two casts,
  coercion, simplification, physical planning) to a function from a batch to a column.
\<close>

section \<open>Definitions\<close>

datatype expr_error = ExprSchema schema_error | ExprDataFusion | ExprArrow

record datafusion =
  df_refs :: "string \<Rightarrow> schema \<Rightarrow> string set option"
  df_compile :: "string \<Rightarrow> schema \<Rightarrow> data_type \<Rightarrow> data_type \<Rightarrow> (rbatch \<Rightarrow> cell list option) option"

text \<open>\<open>RecordBatch::try_new\<close> on columns of the schema's types: a null needs a nullable field.\<close>

definition try_batch :: "schema \<Rightarrow> cells list \<Rightarrow> rbatch option" where
  "try_batch s rs =
     (if list_all (\<lambda>r. list_all (\<lambda>(f, c). c = Null \<longrightarrow> f_nullable f) (zip s r)) rs
      then Some \<lparr>rb_schema = s, rb_rows = rs\<rparr> else None)"

definition column_refs :: "datafusion \<Rightarrow> string \<Rightarrow> schema \<Rightarrow> (expr_error, string list) result" where
  "column_refs D sql s = map_sum id sorted_list_of_set (ok_or (df_refs D sql s) ExprDataFusion)"

definition compile :: "datafusion \<Rightarrow> string \<Rightarrow> schema \<Rightarrow> data_type \<Rightarrow> (expr_error, rbatch \<Rightarrow> cell list option) result" where
  "compile D sql s target = ok_or (df_compile D sql s target target) ExprDataFusion"

text \<open>\<open>DataType::Timestamp(Millisecond, None)\<close>\<close>

definition TIMESTAMP_MS :: data_type where
  "TIMESTAMP_MS = OtherType ''timestamp(millisecond, none)''"

definition compile_for_field ::
  "datafusion \<Rightarrow> string \<Rightarrow> schema \<Rightarrow> field \<Rightarrow> (expr_error, rbatch \<Rightarrow> cell list option) result" where
  "compile_for_field D sql s target =
     (let intermediate = (if map_of (f_metadata target) UKIEL_TYPE_META = Some ''timestamp_ms'' then TIMESTAMP_MS
                          else f_type target)
      in ok_or (df_compile D sql s intermediate (f_type target)) ExprDataFusion)"

definition evaluate :: "(rbatch \<Rightarrow> cell list option) \<Rightarrow> rbatch \<Rightarrow> (expr_error, cell list) result" where
  "evaluate e b = ok_or (e b) ExprDataFusion"

text \<open>\<open>columns[idx] = ...\<close>, for all rows.\<close>

definition set_column :: "nat \<Rightarrow> (cell \<Rightarrow> cell \<Rightarrow> cell) \<Rightarrow> cell list \<Rightarrow> cells list \<Rightarrow> cells list" where
  "set_column idx f computed rs = map2 (\<lambda>r c. r[idx := f (r ! idx) c]) rs computed"

fun apply_specs :: "datafusion \<Rightarrow> schema \<Rightarrow> column_spec list \<Rightarrow> cells list \<Rightarrow> (expr_error, cells list) result" where
  "apply_specs D s [] rs = Inr rs"
| "apply_specs D s (spec # specs) rs =
     (case (case cs_kind spec of
              Default e \<Rightarrow> Some (e, \<lambda>old new. if old = Null then new else old)
            | Materialized e \<Rightarrow> Some (e, \<lambda>old new. new)
            | _ \<Rightarrow> None) of
        None \<Rightarrow> apply_specs D s specs rs
      | Some (sql, f) \<Rightarrow>
          rbind (ok_or (index_of s (cs_name spec)) ExprArrow) (\<lambda>idx.
          rbind (ok_or (try_batch s rs) ExprArrow) (\<lambda>current.
          rbind (compile_for_field D sql s (s ! idx)) (\<lambda>compiled.
          rbind (evaluate compiled current) (\<lambda>computed.
            apply_specs D s specs (set_column idx f computed rs))))))"

definition apply_defaults_and_materialized :: "datafusion \<Rightarrow> rbatch \<Rightarrow> table_columns \<Rightarrow> (expr_error, rbatch) result" where
  "apply_defaults_and_materialized D b cols =
     rbind (apply_specs D (rb_schema b) cols (rb_rows b)) (\<lambda>rs. ok_or (try_batch (rb_schema b) rs) ExprArrow)"

definition apply_missing_defaults_and_materialized ::
  "datafusion \<Rightarrow> rbatch \<Rightarrow> table_columns \<Rightarrow> schema \<Rightarrow> (expr_error, rbatch) result" where
  "apply_missing_defaults_and_materialized D b cols file_schema =
     apply_defaults_and_materialized D b (filter (\<lambda>spec. index_of file_schema (cs_name spec) = None) cols)"

fun validate_specs :: "datafusion \<Rightarrow> schema \<Rightarrow> schema \<Rightarrow> schema \<Rightarrow> column_spec list \<Rightarrow> (expr_error, unit) result" where
  "validate_specs D inp phys qry [] = Inr ()"
| "validate_specs D inp phys qry (spec # specs) =
     rbind (case cs_kind spec of
              Stored \<Rightarrow> Inr ()
            | Default e \<Rightarrow> rbind (ok_or (find (\<lambda>f. f_name f = cs_name spec) qry) ExprArrow)
                (\<lambda>f. map_sum id (\<lambda>_. ()) (compile_for_field D e inp f))
            | Materialized e \<Rightarrow> rbind (ok_or (find (\<lambda>f. f_name f = cs_name spec) qry) ExprArrow)
                (\<lambda>f. map_sum id (\<lambda>_. ()) (compile_for_field D e inp f))
            | Alias e \<Rightarrow> rbind (ok_or (find (\<lambda>f. f_name f = cs_name spec) qry) ExprArrow)
                (\<lambda>f. map_sum id (\<lambda>_. ()) (compile_for_field D e phys f)))
       (\<lambda>_. validate_specs D inp phys qry specs)"

definition validate_table_schema :: "datafusion \<Rightarrow> json \<Rightarrow> (expr_error, unit) result" where
  "validate_table_schema D v =
     rbind (map_sum ExprSchema id (parse v)) (\<lambda>cols.
       validate_specs D (input_schema cols) (physical_schema cols) (query_schema cols) cols)"

text \<open>What DataFusion promises of an evaluation: one value per row.\<close>

definition evaluates_rows :: "datafusion \<Rightarrow> bool" where
  "evaluates_rows D \<longleftrightarrow> (\<forall>sql s t u e b col. df_compile D sql s t u = Some e \<and> e b = Some col \<longrightarrow> length col = num_rows b)"

section \<open>Lemmas\<close>

lemma try_batch_Some: "try_batch s rs = Some b \<Longrightarrow> b = \<lparr>rb_schema = s, rb_rows = rs\<rparr>"
  by (auto simp: try_batch_def split: if_splits)

lemma set_column_length: "length computed = length rs \<Longrightarrow> length (set_column idx f computed rs) = length rs"
  by (simp add: set_column_def)

lemma set_column_nth:
  assumes "length computed = length rs" "j < length rs"
  shows "set_column idx f computed rs ! j = (rs ! j)[idx := f (rs ! j ! idx) (computed ! j)]"
  using assms by (simp add: set_column_def)

text \<open>A column that no spec names keeps its cells, row by row.\<close>

lemma apply_specs_keeps:
  assumes "evaluates_rows D" "apply_specs D s specs rs = Inr rs'" "i < length s"
    "\<forall>spec \<in> set specs. index_of s (cs_name spec) \<noteq> Some i"
  shows "length rs' = length rs \<and> (\<forall>j < length rs. length (rs' ! j) = length (rs ! j) \<and> rs' ! j ! i = rs ! j ! i)"
  using assms(2-4)
proof (induction specs arbitrary: rs)
  case (Cons spec specs)
  show ?case
  proof (cases "\<exists>sql f. (case cs_kind spec of
              Default e \<Rightarrow> Some (e, \<lambda>old new. if old = Null then new else old)
            | Materialized e \<Rightarrow> Some (e, \<lambda>old new. new) | _ \<Rightarrow> None) = Some (sql, f)")
    case False
    with Cons show ?thesis by (auto split: column_kind.splits)
  next
    case True
    then obtain sql f where k: "(case cs_kind spec of
              Default e \<Rightarrow> Some (e, \<lambda>old new. if old = Null then new else old)
            | Materialized e \<Rightarrow> Some (e, \<lambda>old new. new) | _ \<Rightarrow> None) = Some (sql, f)" by blast
    with Cons.prems(1) obtain idx b e computed where x: "index_of s (cs_name spec) = Some idx" "try_batch s rs = Some b"
      "compile_for_field D sql s (s ! idx) = Inr e" "evaluate e b = Inr computed"
      and r: "apply_specs D s specs (set_column idx f computed rs) = Inr rs'"
      by (auto simp: rbind_eq_Inr_iff)
    have l: "length computed = length rs"
      using assms(1) x try_batch_Some [OF x(2)]
      by (auto simp: evaluates_rows_def compile_for_field_def evaluate_def Let_def num_rows_def)
    have "idx \<noteq> i" using Cons.prems(3) x(1) by auto
    with Cons.IH [OF r Cons.prems(2)] Cons.prems(3) l show ?thesis
      by (auto simp: set_column_length set_column_nth)
  qed
qed simp

text \<open>A rewrite never recomputes a stored value: a column the file has keeps every cell, a
  stored null included, and the number of rows stays.\<close>

lemma missing_keeps_stored:
  assumes "evaluates_rows D" "apply_missing_defaults_and_materialized D b cols file_schema = Inr b'"
    and "i < length (rb_schema b)" "index_of file_schema (f_name (rb_schema b ! i)) \<noteq> None"
  shows "rb_schema b' = rb_schema b \<and> num_rows b' = num_rows b \<and>
    (\<forall>j < num_rows b. rb_rows b' ! j ! i = rb_rows b ! j ! i)"
proof -
  from assms(2) obtain rs where r: "apply_specs D (rb_schema b) (filter (\<lambda>spec. index_of file_schema (cs_name spec) = None) cols)
      (rb_rows b) = Inr rs" "try_batch (rb_schema b) rs = Some b'"
    by (auto simp: apply_missing_defaults_and_materialized_def apply_defaults_and_materialized_def rbind_eq_Inr_iff)
  have "\<forall>spec \<in> set (filter (\<lambda>spec. index_of file_schema (cs_name spec) = None) cols).
      index_of (rb_schema b) (cs_name spec) \<noteq> Some i"
    using assms(4) by (auto dest: index_of_Some_nth)
  from apply_specs_keeps [OF assms(1) r(1) assms(3) this] try_batch_Some [OF r(2)] show ?thesis
    by (simp add: num_rows_def)
qed

end
