(* ===== verification/Merge.thy ===== *)
theory Merge
  imports Expr CatalogError
begin

text \<open>
  The k-way streaming merge, \<^verbatim>\<open>crates/ukiel-compactor/src/merge.rs\<close>, and the compactor's
  errors (\<^verbatim>\<open>error.rs\<close>). A batch stream is the list of what it yields. The row converter gives
  each row bytes that compare as the sort key does; it is the \<open>ar_converter\<close> of the library
  record. The binary heap of \<open>Reverse\<close> pairs is the sorted list of its entries: \<open>pop\<close> takes
  the least pair, \<open>push\<close> inserts one. The output stream is unfolded by \<open>merge_unfold\<close>, which
  returns for every input.
\<close>

section \<open>Definitions\<close>

datatype compactor_error =
    CSchema schema_error
  | CArrow
  | CParquet
  | CObjectStore store_error
  | CCatalog catalog_error
  | CExpr expr_error
  | CSortKey sort_key_error
  | COperation operation_error
  | MissingColumn string
  | NotInt64 string
  | PartRead string
  | MergeOrderViolation string nat

definition MERGE_BATCH_ROWS :: nat where
  "MERGE_BATCH_ROWS = 8 * 1024"

type_synonym batch_stream = "(compactor_error, rbatch) result list"

record part_batch_stream =
  ps_path :: string
  ps_stream :: batch_stream

record merge_cursor =
  mc_stream :: batch_stream
  mc_path :: string
  mc_batch :: rbatch
  mc_rows :: "string list"
  mc_idx :: nat
  mc_exhausted :: bool
  mc_last :: "string option"

type_synonym merge_heap = "(string \<times> nat) list"

record merge_state =
  ms_cursors :: "merge_cursor list"
  ms_heap :: merge_heap
  ms_key :: "cells \<Rightarrow> string"

text \<open>\<open>convert_columns\<close> of the sort columns, row by row; \<open>key\<close> is the converter after the
  projection to those columns.\<close>

definition convert_and_guard ::
  "(cells \<Rightarrow> string) \<Rightarrow> rbatch \<Rightarrow> string \<Rightarrow> string option \<Rightarrow> (compactor_error, string list \<times> string) result" where
  "convert_and_guard key b pth prev_last =
     (let rows = map key (rb_rows b) in
      case find (\<lambda>i. rows ! i < rows ! (i - 1)) [1..<length rows] of
        Some i \<Rightarrow> Inl (MergeOrderViolation pth i)
      | None \<Rightarrow>
          if (case prev_last of Some prev \<Rightarrow> rows ! 0 < prev | None \<Rightarrow> False)
          then Inl (MergeOrderViolation pth 0)
          else Inr (rows, rows ! (length rows - 1)))"

text \<open>The loop of \<open>refill\<close> on cursor \<open>s\<close>, over what its stream still yields.\<close>

fun refill_cursor ::
  "(cells \<Rightarrow> string) \<Rightarrow> nat \<Rightarrow> merge_cursor \<Rightarrow> merge_heap \<Rightarrow> batch_stream
   \<Rightarrow> (compactor_error, merge_cursor \<times> merge_heap) result" where
  "refill_cursor key s c heap [] = Inr (c\<lparr>mc_stream := [], mc_exhausted := True\<rparr>, heap)"
| "refill_cursor key s c heap (Inl e # rest) = Inl e"
| "refill_cursor key s c heap (Inr b # rest) =
     (if num_rows b = 0 then refill_cursor key s c heap rest
      else
        rbind (convert_and_guard key b (mc_path c) (mc_last c)) (\<lambda>(rows, l).
          Inr (c\<lparr>mc_stream := rest, mc_batch := b, mc_rows := rows, mc_idx := 0, mc_last := Some l\<rparr>,
               insort (rows ! 0, s) heap)))"

definition refill :: "nat \<Rightarrow> merge_state \<Rightarrow> (compactor_error, merge_state) result" where
  "refill s st =
     rbind (refill_cursor (ms_key st) s (ms_cursors st ! s) (ms_heap st) (mc_stream (ms_cursors st ! s)))
       (\<lambda>(c, heap). Inr (st\<lparr>ms_cursors := (ms_cursors st)[s := c], ms_heap := heap\<rparr>))"

fun refill_all :: "nat list \<Rightarrow> merge_state \<Rightarrow> (compactor_error, merge_state) result" where
  "refill_all [] st = Inr st"
| "refill_all (s # ss) st = rbind (refill s st) (refill_all ss)"

text \<open>\<open>sort_indices\<close>: the first unknown column is the error.\<close>

fun sort_indices :: "schema \<Rightarrow> string list \<Rightarrow> (compactor_error, nat list) result" where
  "sort_indices schema [] = Inr []"
| "sort_indices schema (n # ns) =
     rbind (ok_or (index_of schema n) (MissingColumn n)) (\<lambda>i.
       rbind (sort_indices schema ns) (\<lambda>is. Inr (i # is)))"

definition merge_key :: "('w, 'f) arrow \<Rightarrow> schema \<Rightarrow> nat list \<Rightarrow> (cells \<Rightarrow> string) option" where
  "merge_key L schema is = map_option (\<lambda>conv r. conv (map ((!) r) is)) (ar_converter L (map ((!) schema) is))"

definition merge_init ::
  "('w, 'f) arrow \<Rightarrow> part_batch_stream list \<Rightarrow> schema \<Rightarrow> string list \<Rightarrow> (compactor_error, merge_state) result" where
  "merge_init L streams schema cols =
     rbind (sort_indices schema cols) (\<lambda>is.
       rbind (ok_or (merge_key L schema is) CArrow) (\<lambda>key.
         refill_all [0..<length streams]
           \<lparr>ms_cursors = map (\<lambda>ps. \<lparr>mc_stream = ps_stream ps, mc_path = ps_path ps,
               mc_batch = \<lparr>rb_schema = schema, rb_rows = []\<rparr>, mc_rows = [], mc_idx = 0, mc_exhausted = False,
               mc_last = None\<rparr>) streams,
            ms_heap = [], ms_key = key\<rparr>))"

text \<open>\<open>interleave_record_batch\<close> on the cursors' current batches.\<close>

definition merge_build :: "merge_state \<Rightarrow> (nat \<times> nat) list \<Rightarrow> rbatch" where
  "merge_build st indices =
     \<lparr>rb_schema = rb_schema (mc_batch (ms_cursors st ! 0)),
      rb_rows = map (\<lambda>(s, i). rb_rows (mc_batch (ms_cursors st ! s)) ! i) indices\<rparr>"

function next_batch ::
  "merge_state \<Rightarrow> (nat \<times> nat) list \<Rightarrow> (compactor_error, rbatch option \<times> merge_state) result" where
  "next_batch st indices =
     (case ms_heap st of
        [] \<Rightarrow> Inr (if indices = [] then None else Some (merge_build st indices), st)
      | (_, s) # heap \<Rightarrow>
          let c = ms_cursors st ! s;
              indices' = indices @ [(s, mc_idx c)];
              c' = c\<lparr>mc_idx := mc_idx c + 1\<rparr>;
              st' = st\<lparr>ms_cursors := (ms_cursors st)[s := c'], ms_heap := heap\<rparr>
          in if mc_idx c' \<ge> num_rows (mc_batch c') then
               rbind (refill s st') (\<lambda>st''. Inr (Some (merge_build st' indices'), st''))
             else
               let st'' = st'\<lparr>ms_heap := insort (mc_rows c' ! mc_idx c', s) heap\<rparr>
               in if length indices' \<ge> MERGE_BATCH_ROWS then Inr (Some (merge_build st'' indices'), st'')
                  else next_batch st'' indices')"
  by pat_completeness auto
termination
  by (relation "measure (\<lambda>(st, indices). MERGE_BATCH_ROWS - length indices)") auto

partial_function (option) merge_unfold :: "merge_state \<Rightarrow> batch_stream option" where
  "merge_unfold st =
     (case next_batch st [] of
        Inl e \<Rightarrow> Some [Inl e]
      | Inr (None, _) \<Rightarrow> Some []
      | Inr (Some b, st') \<Rightarrow> Option.bind (merge_unfold st') (\<lambda>out. Some (Inr b # out)))"

declare merge_unfold.simps [code]

definition merge_streams ::
  "('w, 'f) arrow \<Rightarrow> part_batch_stream list \<Rightarrow> schema \<Rightarrow> string list \<Rightarrow> batch_stream option" where
  "merge_streams L streams schema cols =
     (case merge_init L streams schema cols of
        Inl e \<Rightarrow> Some [Inl e]
      | Inr st \<Rightarrow> merge_unfold st)"

section \<open>The merge invariant\<close>

text \<open>What a cursor still has in hand, and what its stream still yields.\<close>

definition todo :: "merge_cursor \<Rightarrow> cells list" where
  "todo c = drop (mc_idx c) (rb_rows (mc_batch c))"

definition stream_rows :: "batch_stream \<Rightarrow> cells list" where
  "stream_rows bs = concat (map (\<lambda>r. case r of Inr b \<Rightarrow> rb_rows b | Inl _ \<Rightarrow> []) bs)"

definition remaining :: "merge_state \<Rightarrow> cells list" where
  "remaining st = concat (map (\<lambda>c. todo c @ stream_rows (mc_stream c)) (ms_cursors st))"

definition cursor_ok :: "(cells \<Rightarrow> string) \<Rightarrow> merge_cursor \<Rightarrow> bool" where
  "cursor_ok key c \<longleftrightarrow> mc_rows c = map key (rb_rows (mc_batch c)) \<and> sorted (mc_rows c) \<and>
     mc_idx c \<le> num_rows (mc_batch c) \<and>
     mc_last c = (if rb_rows (mc_batch c) = [] then None else Some (last (mc_rows c)))"

definition heap_entries :: "(cells \<Rightarrow> string) \<Rightarrow> merge_cursor list \<Rightarrow> (string \<times> nat) set" where
  "heap_entries key cs = {(key (hd (todo (cs ! s))), s) | s. s < length cs \<and> todo (cs ! s) \<noteq> []}"

definition merge_inv :: "merge_state \<Rightarrow> bool" where
  "merge_inv st \<longleftrightarrow> (\<forall>c \<in> set (ms_cursors st). cursor_ok (ms_key st) c) \<and>
     sorted (ms_heap st) \<and> distinct (ms_heap st) \<and> set (ms_heap st) = heap_entries (ms_key st) (ms_cursors st)"

definition refilled :: "merge_cursor \<Rightarrow> bool" where
  "refilled c \<longleftrightarrow> (todo c = [] \<longrightarrow> mc_stream c = [])"

text \<open>A stream without errors whose rows, after the current batch, are in order.\<close>

definition in_order :: "(cells \<Rightarrow> string) \<Rightarrow> cells list \<Rightarrow> batch_stream \<Rightarrow> bool" where
  "in_order key before bs \<longleftrightarrow> (\<forall>r \<in> set bs. \<exists>b. r = Inr b) \<and> sorted (map key (before @ stream_rows bs))"

definition cursor_good :: "(cells \<Rightarrow> string) \<Rightarrow> merge_cursor \<Rightarrow> bool" where
  "cursor_good key c \<longleftrightarrow> in_order key (rb_rows (mc_batch c)) (mc_stream c)"

lemma stream_rows_simps [simp]:
  "stream_rows [] = []" "stream_rows (Inr b # bs) = rb_rows b @ stream_rows bs" "stream_rows (Inl e # bs) = stream_rows bs"
  by (simp_all add: stream_rows_def)

lemma find_descent_None:
  "find (\<lambda>i. rows ! i < rows ! (i - 1)) [1..<length rows] = None \<longleftrightarrow> sorted rows" for rows :: "'a::linorder list"
proof
  assume "find (\<lambda>i. rows ! i < rows ! (i - 1)) [1..<length rows] = None"
  then have "rows ! i \<le> rows ! Suc i" if "Suc i < length rows" for i
    using that by (auto simp: find_None_iff dest!: spec [of _ "Suc i"])
  then show "sorted rows" by (simp add: sorted_iff_nth_Suc)
next
  assume "sorted rows"
  then have "\<not> rows ! i < rows ! (i - 1)" if "i < length rows" for i
    using that by (simp add: sorted_iff_nth_mono not_less)
  then show "find (\<lambda>i. rows ! i < rows ! (i - 1)) [1..<length rows] = None"
    by (auto simp: find_None_iff)
qed

lemma convert_and_guard_Inr:
  assumes "rb_rows b \<noteq> []"
  shows "convert_and_guard key b pth prev = Inr (rows, l) \<longleftrightarrow>
    rows = map key (rb_rows b) \<and> l = last rows \<and> sorted rows \<and> (\<forall>p. prev = Some p \<longrightarrow> p \<le> hd rows)"
proof -
  have "rows ! 0 = hd rows \<and> rows ! (length rows - 1) = last rows" if "rows = map key (rb_rows b)" for rows
    using that assms by (simp add: hd_conv_nth last_conv_nth)
  then show ?thesis
    using find_descent_None [of "map key (rb_rows b)"]
    by (auto simp: convert_and_guard_def Let_def not_less split: option.splits if_splits)
qed

lemma convert_and_guard_Inl:
  "convert_and_guard key b pth prev = Inl e \<Longrightarrow> \<exists>i. e = MergeOrderViolation pth i"
  by (auto simp: convert_and_guard_def Let_def split: option.splits if_splits)

text \<open>How a cursor evolves: its stream only shrinks, and order and schema stay.\<close>

definition cursor_next :: "(cells \<Rightarrow> string) \<Rightarrow> merge_cursor \<Rightarrow> merge_cursor \<Rightarrow> bool" where
  "cursor_next key c c' \<longleftrightarrow> mc_path c' = mc_path c \<and> set (mc_stream c') \<subseteq> set (mc_stream c) \<and>
     (mc_batch c' = mc_batch c \<or> Inr (mc_batch c') \<in> set (mc_stream c)) \<and> (cursor_good key c' = cursor_good key c)"

lemma cursor_next_refl [simp]: "cursor_next key c c"
  by (simp add: cursor_next_def)

lemma cursor_next_trans: "cursor_next key a b \<Longrightarrow> cursor_next key b c \<Longrightarrow> cursor_next key a c"
  by (auto simp: cursor_next_def)

lemma cursors_next_trans:
  "list_all2 (cursor_next key) as bs \<Longrightarrow> list_all2 (cursor_next key) bs cs \<Longrightarrow> list_all2 (cursor_next key) as cs"
  by (rule list_all2_trans [OF cursor_next_trans])

lemma cursor_next_update:
  "s < length cs \<Longrightarrow> cursor_next key (cs ! s) c \<Longrightarrow> list_all2 (cursor_next key) cs (cs[s := c])"
  by (auto simp: list_all2_conv_all_nth nth_list_update)

text \<open>A refill keeps the rows and the order.\<close>

lemma refill_cursor_Inr:
  assumes "refill_cursor key s c heap bs = Inr (c', heap')" "cursor_ok key c" "todo c = []"
  shows "cursor_ok key c' \<and> refilled c' \<and> mc_path c' = mc_path c
    \<and> todo c' @ stream_rows (mc_stream c') = stream_rows bs
    \<and> (\<forall>p. mc_last c = Some p \<longrightarrow> (\<forall>x \<in> set (todo c'). p \<le> key x))
    \<and> heap' = (if todo c' = [] then heap else insort (key (hd (todo c')), s) heap)
    \<and> (cursor_good key c' = in_order key (rb_rows (mc_batch c)) bs)
    \<and> set (mc_stream c') \<subseteq> set bs \<and> (mc_batch c' = mc_batch c \<or> Inr (mc_batch c') \<in> set bs)"
  using assms
proof (induction key s c heap bs rule: refill_cursor.induct)
  case (1 key s c heap)
  then show ?case by (auto simp: refilled_def todo_def cursor_ok_def cursor_good_def)
next
  case (3 key s c heap b rest)
  show ?case
  proof (cases "num_rows b = 0")
    case True
    with 3 show ?thesis by (auto simp: num_rows_def in_order_def)
  next
    case False
    then have ne: "rb_rows b \<noteq> []" by (simp add: num_rows_def)
    from 3(2) False obtain rows l where g: "convert_and_guard key b (mc_path c) (mc_last c) = Inr (rows, l)"
      and c': "c' = c\<lparr>mc_stream := rest, mc_batch := b, mc_rows := rows, mc_idx := 0, mc_last := Some l\<rparr>"
      and h: "heap' = insort (rows ! 0, s) heap"
      by (auto simp: rbind_eq_Inr_iff)
    note r = g [unfolded convert_and_guard_Inr [OF ne]]
    have t: "todo c' = rb_rows b" by (simp add: c' todo_def)
    have "p \<le> key x" if p: "mc_last c = Some p" and x: "x \<in> set (rb_rows b)" for p x
    proof -
      have "hd rows \<le> key x"
        using r x ne by (cases "rb_rows b") auto
      with r p show ?thesis by (meson order_trans)
    qed
    moreover have "cursor_good key c' = in_order key (rb_rows (mc_batch c)) (Inr b # rest)"
    proof -
      have before: "key y \<le> key x" if y: "y \<in> set (rb_rows (mc_batch c))" and x: "x \<in> set (rb_rows b)" for x y
      proof -
        from y have ne: "rb_rows (mc_batch c) \<noteq> []" by auto
        have m: "mc_rows c = map key (rb_rows (mc_batch c))" "sorted (mc_rows c)" "mc_last c = Some (last (mc_rows c))"
          using 3(3) ne by (auto simp: cursor_ok_def)
        have "key y \<le> last (mc_rows c)" using m(1,2) ne y by (cases "rb_rows (mc_batch c)" rule: rev_cases) (auto simp: sorted_append)
        also have "\<dots> \<le> hd rows" using r m(3) by blast
        also have "hd rows \<le> key x" using r x ne by (cases "rb_rows b") auto
        finally show ?thesis .
      qed
      moreover have "sorted (map key (rb_rows (mc_batch c)))" using 3(3) by (metis cursor_ok_def)
      moreover have "key y \<le> key z" if y: "y \<in> set (rb_rows (mc_batch c))" and z: "z \<in> set (stream_rows rest)"
        and s: "\<forall>x \<in> set (rb_rows b). \<forall>z \<in> set (stream_rows rest). key x \<le> key z" for y z
        using before [OF y, of "hd (rb_rows b)"] s z ne by (meson hd_in_set order_trans)
      ultimately show ?thesis by (auto simp: cursor_good_def in_order_def c' sorted_append)
    qed
    ultimately show ?thesis using r ne h t
      by (auto simp: cursor_ok_def refilled_def c' hd_conv_nth last_map)
  qed
qed simp

lemma refill_cursor_good:
  assumes "in_order key before bs" "\<forall>p. mc_last c = Some p \<longrightarrow> before \<noteq> [] \<and> p = key (last before)"
  shows "\<exists>r. refill_cursor key s c heap bs = Inr r"
  using assms
proof (induction bs)
  case Nil
  then show ?case by simp
next
  case (Cons r bs)
  then obtain b where r: "r = Inr b" by (auto simp: in_order_def)
  show ?case
  proof (cases "num_rows b = 0")
    case True
    with Cons r show ?thesis by (auto simp: in_order_def num_rows_def)
  next
    case False
    then have ne: "rb_rows b \<noteq> []" by (simp add: num_rows_def)
    from Cons.prems(1) r have s: "sorted (map key before @ map key (rb_rows b) @ map key (stream_rows bs))"
      by (simp add: in_order_def)
    have "p \<le> hd (map key (rb_rows b))" if "mc_last c = Some p" for p
      using s Cons.prems(2) that ne by (simp add: sorted_append hd_map)
    then have "convert_and_guard key b (mc_path c) (mc_last c)
        = Inr (map key (rb_rows b), last (map key (rb_rows b)))"
      using s by (subst convert_and_guard_Inr [OF ne]) (simp add: sorted_append)
    then show ?thesis using r False by simp
  qed
qed

text \<open>The heap's top is the least head; ties go to the earlier stream.\<close>

lemma merge_top:
  assumes "merge_inv st" "ms_heap st = (k, s) # heap"
  defines "c \<equiv> ms_cursors st ! s"
  shows "s < length (ms_cursors st) \<and> mc_idx c < num_rows (mc_batch c) \<and> k = ms_key st (hd (todo c))
    \<and> hd (todo c) = rb_rows (mc_batch c) ! mc_idx c
    \<and> (\<forall>t < length (ms_cursors st). \<forall>y \<in> set (todo (ms_cursors st ! t)).
        k \<le> ms_key st y \<and> (t < s \<longrightarrow> k < ms_key st y))"
proof -
  have mem: "(k, s) \<in> heap_entries (ms_key st) (ms_cursors st)"
    using assms(1,2) by (metis list.set_intros(1) merge_inv_def)
  then have s: "s < length (ms_cursors st)" and k: "k = ms_key st (hd (todo c))" and ne: "todo c \<noteq> []"
    by (auto simp: heap_entries_def c_def)
  have idx: "mc_idx c < num_rows (mc_batch c)" using ne by (auto simp: todo_def num_rows_def)
  have hd: "hd (todo c) = rb_rows (mc_batch c) ! mc_idx c"
    using ne by (simp add: todo_def hd_drop_conv_nth)
  have "k \<le> ms_key st y \<and> (t < s \<longrightarrow> k < ms_key st y)"
    if t: "t < length (ms_cursors st)" and y: "y \<in> set (todo (ms_cursors st ! t))" for t y
  proof -
    let ?d = "ms_cursors st ! t"
    have "(ms_key st (hd (todo ?d)), t) \<in> set (ms_heap st)"
      using assms(1) t y by (auto simp: merge_inv_def heap_entries_def)
    then have le: "(k, s) \<le> (ms_key st (hd (todo ?d)), t)"
      using assms(1,2) by (auto simp: merge_inv_def)
    have "cursor_ok (ms_key st) ?d" using assms(1) t by (simp add: merge_inv_def)
    then have "sorted (map (ms_key st) (todo ?d))"
      using sorted_wrt_drop [of "(\<le>)" "mc_rows ?d" "mc_idx ?d"] by (auto simp: cursor_ok_def todo_def drop_map)
    with y have "ms_key st (hd (todo ?d)) \<le> ms_key st y" by (cases "todo ?d") auto
    with le show ?thesis by (auto simp: less_eq_prod_def)
  qed
  with s idx k hd show ?thesis by blast
qed

lemma heap_entries_update:
  assumes "s < length cs"
  shows "heap_entries key (cs[s := c]) =
    {e \<in> heap_entries key cs. snd e \<noteq> s} \<union> (if todo c = [] then {} else {(key (hd (todo c)), s)})"
  using assms by (auto simp: heap_entries_def nth_list_update split: if_splits)

lemma todo_advance:
  "mc_idx c < num_rows (mc_batch c) \<Longrightarrow> todo c = hd (todo c) # todo (c\<lparr>mc_idx := mc_idx c + 1\<rparr>)"
  by (simp add: todo_def num_rows_def hd_drop_conv_nth Cons_nth_drop_Suc)

lemma heap_rest:
  assumes "merge_inv st" "ms_heap st = (k, s) # heap"
  shows "set heap = {e \<in> heap_entries (ms_key st) (ms_cursors st). snd e \<noteq> s}" "sorted heap" "distinct heap"
proof -
  define H where "H = heap_entries (ms_key st) (ms_cursors st)"
  have "set (ms_heap st) = H" "sorted (ms_heap st)" "distinct (ms_heap st)"
    using assms(1) by (simp_all add: merge_inv_def H_def)
  then have ih: "insert (k, s) (set heap) = H" "(k, s) \<notin> set heap" "sorted heap" "distinct heap"
    unfolding assms(2) by simp_all
  then have h: "set heap = H - {(k, s)}" by blast
  have "e = (k, s) \<longleftrightarrow> snd e = s" if e: "e \<in> H" for e
  proof -
    from e obtain t where "e = (ms_key st (hd (todo (ms_cursors st ! t))), t)"
      unfolding H_def heap_entries_def by blast
    then show ?thesis using merge_top [OF assms, THEN conjunct2, THEN conjunct2, THEN conjunct1] by auto
  qed
  then have "H - {(k, s)} = {e \<in> H. snd e \<noteq> s}" by blast
  with h show "set heap = {e \<in> heap_entries (ms_key st) (ms_cursors st). snd e \<noteq> s}" by (simp add: H_def)
  from ih show "sorted heap" "distinct heap" by simp_all
qed

text \<open>Taking the top row: the state before the cursor's new head is pushed, or its stream read.\<close>

definition popped :: "merge_state \<Rightarrow> nat \<Rightarrow> merge_heap \<Rightarrow> merge_state" where
  "popped st s heap = st\<lparr>ms_cursors := (ms_cursors st)[s := (ms_cursors st ! s)\<lparr>mc_idx := mc_idx (ms_cursors st ! s) + 1\<rparr>],
     ms_heap := heap\<rparr>"

definition repushed :: "merge_state \<Rightarrow> nat \<Rightarrow> merge_heap \<Rightarrow> merge_state" where
  "repushed st s heap = (let c = ms_cursors (popped st s heap) ! s in
     if mc_idx c \<ge> num_rows (mc_batch c) then popped st s heap
     else (popped st s heap)\<lparr>ms_heap := insort (mc_rows c ! mc_idx c, s) heap\<rparr>)"

lemma repushed_inv:
  assumes "merge_inv st" "ms_heap st = (k, s) # heap"
  shows "merge_inv (repushed st s heap)"
proof -
  let ?c = "ms_cursors st ! s" and ?c' = "(ms_cursors st ! s)\<lparr>mc_idx := mc_idx (ms_cursors st ! s) + 1\<rparr>"
  note top = merge_top [OF assms] and rest = heap_rest [OF assms]
  then have s: "s < length (ms_cursors st)" and i: "mc_idx ?c < num_rows (mc_batch ?c)" by auto
  have cs: "ms_cursors (popped st s heap) = (ms_cursors st)[s := ?c']" "ms_cursors (popped st s heap) ! s = ?c'"
    using s by (simp_all add: popped_def)
  have ok: "cursor_ok (ms_key st) ?c" "\<forall>c \<in> set (ms_cursors st). cursor_ok (ms_key st) c"
    using assms(1) s by (auto simp: merge_inv_def)
  have ok': "cursor_ok (ms_key st) ?c'" using ok(1) i by (auto simp: cursor_ok_def)
  have all: "\<forall>c \<in> set ((ms_cursors st)[s := ?c']). cursor_ok (ms_key st) c"
    using ok ok' set_update_subset_insert by fastforce
  have td: "todo ?c' = [] \<longleftrightarrow> mc_idx ?c' \<ge> num_rows (mc_batch ?c')" by (simp add: todo_def num_rows_def)
  have hd: "mc_rows ?c' ! mc_idx ?c' = ms_key st (hd (todo ?c'))" if "todo ?c' \<noteq> []"
    using that ok' by (simp add: cursor_ok_def todo_def hd_drop_conv_nth num_rows_def)
  show ?thesis
  proof (cases "todo ?c' = []")
    case True
    then have "repushed st s heap = popped st s heap" using td s by (simp add: repushed_def cs(2) Let_def)
    then show ?thesis
      using rest all True by (simp add: merge_inv_def cs heap_entries_update [OF s] popped_def)
  next
    case False
    then have "repushed st s heap = (popped st s heap)\<lparr>ms_heap := insort (mc_rows ?c' ! mc_idx ?c', s) heap\<rparr>"
      using td s by (simp add: repushed_def cs(2) Let_def)
    then show ?thesis
      using rest all False hd
      by (auto simp: merge_inv_def cs heap_entries_update [OF s] popped_def sorted_insort distinct_insort set_insort_key)
  qed
qed

section \<open>One pop\<close>

lemma sort_key_least:
  "\<forall>a \<in> set A. f x < f a \<Longrightarrow> \<forall>b \<in> set B. f x \<le> f b \<Longrightarrow> sort_key f (A @ x # B) = x # sort_key f (A @ B)"
  by (induction A) (auto simp: insort_is_Cons)

lemma concat_map_update:
  "s < length cs \<Longrightarrow> g c = g (cs ! s) \<Longrightarrow> concat (map g (cs[s := c])) = concat (map g cs)"
  by (metis list_update_id map_update)

definition todo_above :: "merge_state \<Rightarrow> string \<Rightarrow> bool" where
  "todo_above st k \<longleftrightarrow> (\<forall>c \<in> set (ms_cursors st). \<forall>y \<in> set (todo c). k \<le> ms_key st y)"

definition ready_state :: "merge_state \<Rightarrow> bool" where
  "ready_state st \<longleftrightarrow> merge_inv st \<and> (\<forall>c \<in> set (ms_cursors st). refilled c)"

definition good_state :: "merge_state \<Rightarrow> bool" where
  "good_state st \<longleftrightarrow> (\<forall>c \<in> set (ms_cursors st). cursor_good (ms_key st) c)"

lemma refill_Inr:
  assumes "refill s st = Inr st'" "merge_inv st" "s < length (ms_cursors st)" "todo (ms_cursors st ! s) = []"
  shows "merge_inv st' \<and> ms_key st' = ms_key st \<and> remaining st' = remaining st
    \<and> (\<exists>c'. ms_cursors st' = (ms_cursors st)[s := c'] \<and> refilled c' \<and> cursor_next (ms_key st) (ms_cursors st ! s) c'
        \<and> (\<forall>p. mc_last (ms_cursors st ! s) = Some p \<longrightarrow> (\<forall>x \<in> set (todo c'). p \<le> ms_key st x)))"
proof -
  let ?c = "ms_cursors st ! s"
  from assms(1) obtain c' heap' where r: "refill_cursor (ms_key st) s ?c (ms_heap st) (mc_stream ?c) = Inr (c', heap')"
    and st': "st' = st\<lparr>ms_cursors := (ms_cursors st)[s := c'], ms_heap := heap'\<rparr>"
    by (auto simp: refill_def rbind_eq_Inr_iff)
  have ok: "cursor_ok (ms_key st) ?c" "\<forall>c \<in> set (ms_cursors st). cursor_ok (ms_key st) c"
    and h: "sorted (ms_heap st)" "distinct (ms_heap st)" "set (ms_heap st) = heap_entries (ms_key st) (ms_cursors st)"
    using assms(2,3) by (auto simp: merge_inv_def)
  note c' = refill_cursor_Inr [OF r ok(1) assms(4)]
  have all: "\<forall>c \<in> set ((ms_cursors st)[s := c']). cursor_ok (ms_key st) c"
    using ok c' set_update_subset_insert by fastforce
  have ns: "{e \<in> heap_entries (ms_key st) (ms_cursors st). snd e \<noteq> s} = heap_entries (ms_key st) (ms_cursors st)"
    using assms(4) by (auto simp: heap_entries_def)
  have "(k, s) \<notin> set (ms_heap st)" for k using h(3) assms(4) by (auto simp: heap_entries_def)
  then have inv: "merge_inv st'"
    using c' all h ns
    by (cases "todo c' = []")
      (auto simp: merge_inv_def st' heap_entries_update [OF assms(3)] sorted_insort distinct_insort set_insort_key)
  have "remaining st' = remaining st"
    unfolding remaining_def st' using c' assms(3,4) by (simp add: concat_map_update)
  with inv c' st' show ?thesis by (auto simp: cursor_next_def cursor_good_def)
qed

lemma merge_pop:
  assumes "ready_state st" "ms_heap st = (k, s) # heap"
  defines "c \<equiv> ms_cursors st ! s" and "x \<equiv> hd (todo (ms_cursors st ! s))"
  shows "k = ms_key st x \<and> todo_above st (ms_key st x) \<and> x = rb_rows (mc_batch c) ! mc_idx c \<and> x \<in> set (todo c)
    \<and> (\<exists>A B. remaining st = A @ x # B \<and> remaining (popped st s heap) = A @ B
        \<and> (good_state st \<longrightarrow> sort_key (ms_key st) (A @ x # B) = x # sort_key (ms_key st) (A @ B)))"
proof -
  let ?cs = "ms_cursors st" and ?c' = "c\<lparr>mc_idx := mc_idx c + 1\<rparr>"
  have inv: "merge_inv st" and rf: "\<forall>c \<in> set ?cs. refilled c" using assms(1) by (simp_all add: ready_state_def)
  note top = merge_top [OF inv assms(2), folded c_def]
  have s: "s < length ?cs" and i: "mc_idx c < num_rows (mc_batch c)"
    and k: "k = ms_key st x" and xi: "x = rb_rows (mc_batch c) ! mc_idx c"
    using top unfolding x_def c_def by blast+
  have least: "ms_key st x \<le> ms_key st y \<and> (t < s \<longrightarrow> ms_key st x < ms_key st y)"
    if "t < length ?cs" "y \<in> set (todo (?cs ! t))" for t y
    unfolding k [symmetric] using top that by blast
  have td: "todo c = x # todo ?c'" using i todo_advance [of c] by (simp add: c_def x_def)
  define g where "g = (\<lambda>c. todo c @ stream_rows (mc_stream c))"
  define A where "A = concat (map g (take s ?cs))"
  define R where "R = concat (map g (drop (Suc s) ?cs))"
  have rem: "remaining st = A @ x # (todo ?c' @ stream_rows (mc_stream c) @ R)"
    unfolding remaining_def g_def [symmetric] A_def R_def
    by (subst id_take_nth_drop [OF s]) (simp add: g_def c_def [symmetric] td)
  have rem': "remaining (popped st s heap) = A @ (todo ?c' @ stream_rows (mc_stream c) @ R)"
    unfolding remaining_def popped_def g_def [symmetric] A_def R_def c_def [symmetric]
    using s by (simp add: upd_conv_take_nth_drop g_def)
  have above: "todo_above st (ms_key st x)"
    unfolding todo_above_def by (metis least in_set_conv_nth)
  have srt: "sort_key (ms_key st) (A @ x # (todo ?c' @ stream_rows (mc_stream c) @ R))
      = x # sort_key (ms_key st) (A @ (todo ?c' @ stream_rows (mc_stream c) @ R))" if good: "good_state st"
  proof (rule sort_key_least)
    have gs: "sorted (map (ms_key st) (g d))" if "d \<in> set ?cs" for d
    proof -
      have "sorted (map (ms_key st) (rb_rows (mc_batch d) @ stream_rows (mc_stream d)))"
        using good that by (simp add: good_state_def cursor_good_def in_order_def)
      then have "sorted (drop (mc_idx d) (map (ms_key st) (rb_rows (mc_batch d))) @ map (ms_key st) (stream_rows (mc_stream d)))"
        by (fastforce simp: sorted_append sorted_wrt_drop dest: in_set_dropD)
      then show ?thesis by (simp add: g_def todo_def drop_map)
    qed
    have lb: "ms_key st x \<le> ms_key st y \<and> (t < s \<longrightarrow> ms_key st x < ms_key st y)"
      if t: "t < length ?cs" and y: "y \<in> set (g (?cs ! t))" for t y
    proof -
      have ne: "todo (?cs ! t) \<noteq> []" using y rf t by (auto simp: g_def refilled_def)
      then obtain z zs where z: "todo (?cs ! t) = z # zs" by (cases "todo (?cs ! t)") auto
      have "ms_key st z \<le> ms_key st y" using gs [of "?cs ! t"] t y z by (auto simp: g_def)
      moreover have "ms_key st x \<le> ms_key st z \<and> (t < s \<longrightarrow> ms_key st x < ms_key st z)"
        using t z by (intro least) simp_all
      ultimately show ?thesis by auto
    qed
    show "\<forall>a \<in> set A. ms_key st x < ms_key st a"
    proof
      fix a assume "a \<in> set A"
      then obtain d where d: "d \<in> set (take s ?cs)" "a \<in> set (g d)" by (auto simp: A_def)
      then obtain t where "t < s" "t < length ?cs" "?cs ! t = d" by (auto simp: in_set_conv_nth)
      with lb [of t a] d(2) show "ms_key st x < ms_key st a" by simp
    qed
    have "ms_key st x \<le> ms_key st y" if "y \<in> set (todo ?c' @ stream_rows (mc_stream c))" for y
    proof -
      have "y \<in> set (g (?cs ! s))" using that td by (auto simp: g_def simp flip: c_def)
      with lb [OF s] show ?thesis by blast
    qed
    moreover have "ms_key st x \<le> ms_key st y" if "y \<in> set R" for y
    proof -
      from that obtain d where d: "d \<in> set (drop (Suc s) ?cs)" "y \<in> set (g d)" by (auto simp: R_def)
      then obtain t where "t < length ?cs" "?cs ! t = d" by (meson in_set_conv_nth in_set_dropD)
      with lb d(2) show ?thesis by blast
    qed
    ultimately show "\<forall>b \<in> set (todo ?c' @ stream_rows (mc_stream c) @ R). ms_key st x \<le> ms_key st b" by auto
  qed
  have "\<exists>A B. remaining st = A @ x # B \<and> remaining (popped st s heap) = A @ B
      \<and> (good_state st \<longrightarrow> sort_key (ms_key st) (A @ x # B) = x # sort_key (ms_key st) (A @ B))"
    using rem rem' srt by blast
  moreover have "x \<in> set (todo c)" by (simp add: td)
  ultimately show ?thesis using above k xi by blast
qed

lemma todo_above_top:
  assumes "ready_state st" "ms_heap st = (k, s) # heap" "todo_above st m"
  shows "m \<le> ms_key st (hd (todo (ms_cursors st ! s)))"
proof -
  have "s < length (ms_cursors st)" using merge_top assms(1,2) by (metis ready_state_def)
  then have "ms_cursors st ! s \<in> set (ms_cursors st)" by simp
  moreover have "hd (todo (ms_cursors st ! s)) \<in> set (todo (ms_cursors st ! s))"
    using merge_pop [OF assms(1,2)] by blast
  ultimately show ?thesis using assms(3) unfolding todo_above_def by blast
qed

section \<open>A whole batch\<close>

text \<open>What one call of \<open>next_batch\<close> does: after the rows already chosen it takes \<open>xs\<close>, the least
  rows in hand, in order; nothing else is lost, and on streams in order the rest of the stable
  sort remains.\<close>

definition takes :: "merge_state \<Rightarrow> cells list \<Rightarrow> merge_state \<Rightarrow> bool" where
  "takes st xs st' \<longleftrightarrow> ready_state st' \<and> ms_key st' = ms_key st \<and> list_all2 (cursor_next (ms_key st)) (ms_cursors st) (ms_cursors st')
     \<and> mset (remaining st) = mset xs + mset (remaining st')
     \<and> sorted (map (ms_key st) xs) \<and> (\<forall>x \<in> set xs. todo_above st' (ms_key st x))
     \<and> (\<forall>k. todo_above st k \<longrightarrow> todo_above st' k \<and> (\<forall>x \<in> set xs. k \<le> ms_key st x))
     \<and> (good_state st \<longrightarrow> sort_key (ms_key st) (remaining st) = xs @ sort_key (ms_key st) (remaining st'))"

lemma good_state_next:
  "list_all2 (cursor_next (ms_key st)) (ms_cursors st) (ms_cursors st') \<Longrightarrow> ms_key st' = ms_key st \<Longrightarrow>
   good_state st' = good_state st"
  unfolding good_state_def by (metis list_all2_conv_all_nth in_set_conv_nth cursor_next_def nth_mem)

lemma takes_refl: "ready_state st \<Longrightarrow> takes st [] st"
  by (simp add: takes_def list_all2_refl)

lemma takes_Cons: "takes st [x] st1 \<Longrightarrow> takes st1 xs st2 \<Longrightarrow> takes st (x # xs) st2"
  using cursors_next_trans [of "ms_key st" "ms_cursors st" "ms_cursors st1" "ms_cursors st2"] good_state_next [of st st1]
  by (auto simp: takes_def)

text \<open>The top row when its cursor has more, and when its batch is spent and its stream is read.\<close>

lemma takes_repushed:
  assumes "ready_state st" "ms_heap st = (k, s) # heap"
    and "\<not> mc_idx (ms_cursors st ! s) + 1 \<ge> num_rows (mc_batch (ms_cursors st ! s))"
  shows "takes st [hd (todo (ms_cursors st ! s))] (repushed st s heap)"
proof -
  let ?c = "ms_cursors st ! s" and ?c' = "(ms_cursors st ! s)\<lparr>mc_idx := mc_idx (ms_cursors st ! s) + 1\<rparr>"
  have inv: "merge_inv st" and rf: "\<forall>c \<in> set (ms_cursors st). refilled c" using assms(1) by (simp_all add: ready_state_def)
  have s: "s < length (ms_cursors st)" using merge_top [OF inv assms(2)] by blast
  note pop = merge_pop [OF assms(1,2)]
  have cs: "ms_cursors (repushed st s heap) = (ms_cursors st)[s := ?c']" "ms_key (repushed st s heap) = ms_key st"
    by (simp_all add: repushed_def popped_def Let_def)
  have rem: "remaining (repushed st s heap) = remaining (popped st s heap)"
    by (simp add: remaining_def repushed_def Let_def)
  have ne: "todo ?c' \<noteq> []" using assms(3) by (simp add: todo_def num_rows_def)
  have "todo ?c = hd (todo ?c) # todo ?c'" using merge_top [OF inv assms(2)] by (intro todo_advance) blast
  then have sub: "set (todo ?c') \<subseteq> set (todo ?c)" by (metis set_subset_Cons)
  have mono: "todo_above (repushed st s heap) m" if "todo_above st m" for m
    using that sub s set_update_subset_insert [of "ms_cursors st" s ?c']
    by (fastforce simp: todo_above_def cs)
  have "ready_state (repushed st s heap)"
    using repushed_inv [OF inv assms(2)] rf ne set_update_subset_insert [of "ms_cursors st" s ?c']
    by (auto simp: ready_state_def cs refilled_def)
  moreover have "list_all2 (cursor_next (ms_key st)) (ms_cursors st) (ms_cursors (repushed st s heap))"
    unfolding cs by (rule cursor_next_update [OF s]) (simp add: cursor_next_def cursor_good_def)
  ultimately show ?thesis
    using pop mono todo_above_top [OF assms(1,2)] by (auto simp: takes_def rem cs)
qed

lemma takes_refilled:
  assumes "ready_state st" "ms_heap st = (k, s) # heap"
    and "mc_idx (ms_cursors st ! s) + 1 \<ge> num_rows (mc_batch (ms_cursors st ! s))"
    and "refill s (popped st s heap) = Inr st'"
  shows "takes st [hd (todo (ms_cursors st ! s))] st'"
proof -
  let ?c = "ms_cursors st ! s" and ?c' = "(ms_cursors st ! s)\<lparr>mc_idx := mc_idx (ms_cursors st ! s) + 1\<rparr>"
    and ?p = "popped st s heap"
  have inv: "merge_inv st" and rf: "\<forall>c \<in> set (ms_cursors st). refilled c" using assms(1) by (simp_all add: ready_state_def)
  note top = merge_top [OF inv assms(2)] and pop = merge_pop [OF assms(1,2)]
  then have s: "s < length (ms_cursors st)" by blast
  have cs: "ms_cursors ?p = (ms_cursors st)[s := ?c']" "ms_key ?p = ms_key st" by (simp_all add: popped_def)
  have "repushed st s heap = ?p" using assms(3) s by (simp add: repushed_def Let_def cs)
  then have invp: "merge_inv ?p" using repushed_inv [OF inv assms(2)] by simp
  have e: "todo (ms_cursors ?p ! s) = []" using assms(3) s by (simp add: cs todo_def num_rows_def)
  from refill_Inr [OF assms(4) invp _ e] s obtain d where inv': "merge_inv st'" and key: "ms_key st' = ms_key st"
    and rem: "remaining st' = remaining ?p" and d: "ms_cursors st' = (ms_cursors st)[s := d]" "refilled d"
      "cursor_next (ms_key st) ?c' d"
    and l: "\<forall>p. mc_last ?c = Some p \<longrightarrow> (\<forall>x \<in> set (todo d). p \<le> ms_key st x)"
    by (auto simp: cs)
  have up: "set (ms_cursors st') \<subseteq> insert d (set (ms_cursors st))" by (simp add: d set_update_subset_insert)
  have "mc_last ?c = Some (ms_key st (hd (todo ?c)))"
  proof -
    have ok: "cursor_ok (ms_key st) ?c" using inv s by (simp add: merge_inv_def)
    have "mc_idx ?c = length (rb_rows (mc_batch ?c)) - 1" "rb_rows (mc_batch ?c) \<noteq> []"
      using top assms(3) by (auto simp: num_rows_def)
    with ok pop show ?thesis by (simp add: cursor_ok_def last_map last_conv_nth)
  qed
  with l have ld: "\<forall>y \<in> set (todo d). ms_key st (hd (todo ?c)) \<le> ms_key st y" by blast
  have mono: "todo_above st' m" if "todo_above st m" for m
  proof -
    from todo_above_top [OF assms(1,2) that] ld have "\<forall>y \<in> set (todo d). m \<le> ms_key st y" by (meson order_trans)
    with that up show ?thesis by (auto simp: todo_above_def key)
  qed
  moreover have "ready_state st'" using inv' rf d(2) up by (auto simp: ready_state_def)
  moreover have "list_all2 (cursor_next (ms_key st)) (ms_cursors st) (ms_cursors st')"
    unfolding d using s d(3) by (intro cursor_next_update) (auto simp: cursor_next_def cursor_good_def)
  ultimately show ?thesis
    using pop todo_above_top [OF assms(1,2)] by (auto simp: takes_def rem key)
qed

declare next_batch.simps [simp del]

definition chosen :: "merge_state \<Rightarrow> (nat \<times> nat) list \<Rightarrow> cells list" where
  "chosen st ixs = map (\<lambda>(s, i). rb_rows (mc_batch (ms_cursors st ! s)) ! i) ixs"

lemma chosen_simps [simp]: "chosen st [] = []" "length (chosen st ixs) = length ixs"
  by (simp_all add: chosen_def)

lemma chosen_popped [simp]: "chosen (popped st s heap) ixs = chosen st ixs"
proof -
  have "mc_batch (ms_cursors (popped st s heap) ! t) = mc_batch (ms_cursors st ! t)" for t
    by (cases "s < length (ms_cursors st)") (auto simp: popped_def nth_list_update list_update_beyond)
  then show ?thesis by (simp add: chosen_def)
qed

lemma chosen_repushed [simp]: "chosen (repushed st s heap) ixs = chosen st ixs"
proof -
  have "ms_cursors (repushed st s heap) = ms_cursors (popped st s heap)" by (simp add: repushed_def Let_def)
  then have "chosen (repushed st s heap) ixs = chosen (popped st s heap) ixs" by (simp add: chosen_def)
  then show ?thesis by simp
qed

text \<open>The loop body in these terms.\<close>

lemma next_batch_step:
  fixes ixs :: "(nat \<times> nat) list"
  assumes "s < length (ms_cursors st)" "ms_heap st = (k, s) # heap"
  defines "c \<equiv> ms_cursors st ! s" and "ixs' \<equiv> ixs @ [(s, mc_idx (ms_cursors st ! s))]"
  shows "next_batch st ixs =
    (if mc_idx c + 1 \<ge> num_rows (mc_batch c)
     then rbind (refill s (popped st s heap)) (\<lambda>st''. Inr (Some (merge_build (popped st s heap) ixs'), st''))
     else if length ixs' \<ge> MERGE_BATCH_ROWS
     then Inr (Some (merge_build (repushed st s heap) ixs'), repushed st s heap)
     else next_batch (repushed st s heap) ixs')"
  using assms(1)
  by (subst next_batch.simps) (simp add: assms(2) Let_def popped_def repushed_def c_def ixs'_def)

lemma rb_rows_build [simp]: "rb_rows (merge_build st ixs) = chosen st ixs"
  by (simp add: merge_build_def chosen_def)

lemma next_batch_takes:
  assumes "next_batch st ixs = Inr (ob, st')" "ready_state st" "length ixs < MERGE_BATCH_ROWS"
  shows "\<exists>xs. takes st xs st' \<and>
    (case ob of
       None \<Rightarrow> ixs = [] \<and> xs = [] \<and> ms_heap st = []
     | Some b \<Rightarrow> rb_rows b = chosen st ixs @ xs \<and> (ixs = [] \<longrightarrow> xs \<noteq> []) \<and> length (rb_rows b) \<le> MERGE_BATCH_ROWS)"
  using assms
proof (induction "MERGE_BATCH_ROWS - length ixs" arbitrary: st ixs rule: less_induct)
  case less
  show ?case
  proof (cases "ms_heap st")
    case Nil
    with less.prems have "st' = st" "ob = (if ixs = [] then None else Some (merge_build st ixs))"
      by (simp_all add: next_batch.simps [of st ixs])
    with less.prems Nil takes_refl show ?thesis by (intro exI [of _ "[]"]) simp
  next
    case (Cons ks heap)
    then obtain k s where h: "ms_heap st = (k, s) # heap" by (cases ks) auto
    have inv: "merge_inv st" using less.prems(2) by (simp add: ready_state_def)
    have s: "s < length (ms_cursors st)" using merge_top [OF inv h] by blast
    let ?c = "ms_cursors st ! s" and ?ixs = "ixs @ [(s, mc_idx (ms_cursors st ! s))]" and ?x = "hd (todo (ms_cursors st ! s))"
    have x: "chosen st ?ixs = chosen st ixs @ [?x]" using merge_pop [OF less.prems(2) h] by (simp add: chosen_def)
    note step = next_batch_step [OF s h, of ixs]
    show ?thesis
    proof (cases "mc_idx ?c + 1 \<ge> num_rows (mc_batch ?c)")
      case True
      with less.prems(1) step have r: "refill s (popped st s heap) = Inr st'" "ob = Some (merge_build (popped st s heap) ?ixs)"
        by (auto simp: rbind_eq_Inr_iff)
      from takes_refilled [OF less.prems(2) h True r(1)] r(2) x less.prems(3) show ?thesis
        by (intro exI [of _ "[?x]"]) simp
    next
      case False
      note t = takes_repushed [OF less.prems(2) h False]
      then have rd: "ready_state (repushed st s heap)" by (simp add: takes_def)
      show ?thesis
      proof (cases "length ?ixs \<ge> MERGE_BATCH_ROWS")
        case True
        with False less.prems(1) step have "st' = repushed st s heap" "ob = Some (merge_build (repushed st s heap) ?ixs)"
          by auto
        with t x less.prems(3) True show ?thesis by (intro exI [of _ "[?x]"]) simp
      next
        case more: False
        with False less.prems(1) step have r: "next_batch (repushed st s heap) ?ixs = Inr (ob, st')" by simp
        have "\<exists>xs. takes (repushed st s heap) xs st' \<and>
          (case ob of None \<Rightarrow> ?ixs = [] \<and> xs = [] \<and> ms_heap (repushed st s heap) = []
           | Some b \<Rightarrow> rb_rows b = chosen (repushed st s heap) ?ixs @ xs \<and> (?ixs = [] \<longrightarrow> xs \<noteq> []) \<and>
               length (rb_rows b) \<le> MERGE_BATCH_ROWS)"
          using less.prems(3) more r rd by (intro less.hyps) simp_all
        then obtain xs where xs: "takes (repushed st s heap) xs st'"
          "case ob of None \<Rightarrow> ?ixs = [] \<and> xs = [] \<and> ms_heap (repushed st s heap) = []
           | Some b \<Rightarrow> rb_rows b = chosen (repushed st s heap) ?ixs @ xs \<and> (?ixs = [] \<longrightarrow> xs \<noteq> []) \<and>
               length (rb_rows b) \<le> MERGE_BATCH_ROWS" by blast
        from takes_Cons [OF t xs(1)] xs(2) x show ?thesis
          by (intro exI [of _ "?x # xs"]) (auto split: option.splits)
      qed
    qed
  qed
qed

section \<open>The output stream\<close>

lemma refill_cursor_Inl:
  assumes "refill_cursor key s c heap bs = Inl e"
  shows "Inl e \<in> set bs \<or> (\<exists>i. e = MergeOrderViolation (mc_path c) i)"
  using assms
  by (induction key s c heap bs rule: refill_cursor.induct)
    (auto simp: rbind_eq_Inl_iff split: if_splits dest: convert_and_guard_Inl)

lemma refill_Inl:
  assumes "refill s st = Inl e" "merge_inv st" "s < length (ms_cursors st)"
  shows "\<exists>c \<in> set (ms_cursors st). \<not> cursor_good (ms_key st) c \<and>
    (Inl e \<in> set (mc_stream c) \<or> (\<exists>i. e = MergeOrderViolation (mc_path c) i))"
proof -
  let ?c = "ms_cursors st ! s"
  have r: "refill_cursor (ms_key st) s ?c (ms_heap st) (mc_stream ?c) = Inl e"
    using assms(1) by (auto simp: refill_def rbind_eq_Inl_iff)
  have "cursor_ok (ms_key st) ?c" using assms(2,3) by (simp add: merge_inv_def)
  then have l: "\<forall>p. mc_last ?c = Some p \<longrightarrow> rb_rows (mc_batch ?c) \<noteq> [] \<and> p = ms_key st (last (rb_rows (mc_batch ?c)))"
    by (auto simp: cursor_ok_def last_map)
  have "\<not> cursor_good (ms_key st) ?c"
  proof
    assume "cursor_good (ms_key st) ?c"
    from refill_cursor_good [OF this [unfolded cursor_good_def] l, of s "ms_heap st"] r show False by simp
  qed
  with refill_cursor_Inl [OF r] nth_mem [OF assms(3)] show ?thesis by (intro bexI [of _ ?c]) simp_all
qed

lemma popped_next: "s < length (ms_cursors st) \<Longrightarrow> list_all2 (cursor_next key) (ms_cursors st) (ms_cursors (popped st s heap))"
  unfolding popped_def by (simp add: cursor_next_update cursor_next_def cursor_good_def)

lemma stuck_before:
  assumes "list_all2 (cursor_next key) cs cs'"
    and "\<exists>c \<in> set cs'. \<not> cursor_good key c \<and> (Inl e \<in> set (mc_stream c) \<or> (\<exists>i. e = MergeOrderViolation (mc_path c) i))"
  shows "\<exists>c \<in> set cs. \<not> cursor_good key c \<and> (Inl e \<in> set (mc_stream c) \<or> (\<exists>i. e = MergeOrderViolation (mc_path c) i))"
proof -
  from assms(2) obtain t where t: "t < length cs'" "\<not> cursor_good key (cs' ! t)"
    "Inl e \<in> set (mc_stream (cs' ! t)) \<or> (\<exists>i. e = MergeOrderViolation (mc_path (cs' ! t)) i)"
    by (auto simp: in_set_conv_nth [of _ cs'])
  then have "t < length cs" "cursor_next key (cs ! t) (cs' ! t)"
    using assms(1) by (auto simp: list_all2_conv_all_nth)
  with t show ?thesis by (intro bexI [of _ "cs ! t"]) (auto simp: cursor_next_def)
qed

lemma next_batch_Inl:
  assumes "next_batch st ixs = Inl e" "ready_state st"
  shows "\<exists>c \<in> set (ms_cursors st). \<not> cursor_good (ms_key st) c \<and>
    (Inl e \<in> set (mc_stream c) \<or> (\<exists>i. e = MergeOrderViolation (mc_path c) i))"
  using assms
proof (induction "MERGE_BATCH_ROWS - length ixs" arbitrary: st ixs rule: less_induct)
  case less
  from less.prems(1) obtain k s heap where h: "ms_heap st = (k, s) # heap"
    by (cases "ms_heap st") (auto simp: next_batch.simps [of st ixs])
  have inv: "merge_inv st" using less.prems(2) by (simp add: ready_state_def)
  have s: "s < length (ms_cursors st)" using merge_top [OF inv h] by blast
  let ?c = "ms_cursors st ! s" and ?ixs = "ixs @ [(s, mc_idx (ms_cursors st ! s))]"
  note step = next_batch_step [OF s h, of ixs]
  show ?case
  proof (cases "mc_idx ?c + 1 \<ge> num_rows (mc_batch ?c)")
    case True
    with less.prems(1) step have r: "refill s (popped st s heap) = Inl e" by (auto simp: rbind_eq_Inl_iff)
    have "repushed st s heap = popped st s heap" using True s by (simp add: repushed_def Let_def popped_def)
    then have "merge_inv (popped st s heap)" using repushed_inv [OF inv h] by simp
    from refill_Inl [OF r this] s have "\<exists>c \<in> set (ms_cursors (popped st s heap)). \<not> cursor_good (ms_key st) c \<and>
        (Inl e \<in> set (mc_stream c) \<or> (\<exists>i. e = MergeOrderViolation (mc_path c) i))" by (simp add: popped_def)
    then show ?thesis by (rule stuck_before [OF popped_next [OF s]])
  next
    case False
    note t = takes_repushed [OF less.prems(2) h False]
    from False less.prems(1) step have r: "next_batch (repushed st s heap) ?ixs = Inl e" "\<not> length ?ixs \<ge> MERGE_BATCH_ROWS"
      by (auto split: if_splits)
    have k: "ms_key (repushed st s heap) = ms_key st" and rd: "ready_state (repushed st s heap)"
      and n: "list_all2 (cursor_next (ms_key st)) (ms_cursors st) (ms_cursors (repushed st s heap))"
      using t by (simp_all add: takes_def)
    from less.hyps [OF _ r(1) rd] r(2) show ?thesis unfolding k by (intro stuck_before [OF n]) simp
  qed
qed

text \<open>The schema of every batch in play.\<close>

definition cursor_schema :: "schema \<Rightarrow> merge_cursor \<Rightarrow> bool" where
  "cursor_schema S c \<longleftrightarrow> rb_schema (mc_batch c) = S \<and> (\<forall>b. Inr b \<in> set (mc_stream c) \<longrightarrow> rb_schema b = S)"

lemma cursor_schema_next:
  assumes "list_all2 (cursor_next key) cs cs'" "\<forall>c \<in> set cs. cursor_schema S c"
  shows "\<forall>c \<in> set cs'. cursor_schema S c"
proof
  fix c' assume "c' \<in> set cs'"
  with assms(1) obtain c where "c \<in> set cs" "cursor_next key c c'"
    by (metis in_set_conv_nth list_all2_conv_all_nth)
  with assms(2) show "cursor_schema S c'" by (auto simp: cursor_schema_def cursor_next_def)
qed

lemma build_schema: "ms_cursors st \<noteq> [] \<Longrightarrow> \<forall>c \<in> set (ms_cursors st). cursor_schema S c \<Longrightarrow> rb_schema (merge_build st ixs) = S"
  by (simp add: merge_build_def cursor_schema_def)

lemma next_batch_schema:
  assumes "next_batch st ixs = Inr (Some b, st')" "ready_state st" "ms_cursors st \<noteq> []"
    "\<forall>c \<in> set (ms_cursors st). cursor_schema S c"
  shows "rb_schema b = S"
  using assms
proof (induction "MERGE_BATCH_ROWS - length ixs" arbitrary: st ixs rule: less_induct)
  case less
  show ?case
  proof (cases "ms_heap st")
    case Nil
    with less.prems show ?thesis by (auto simp: next_batch.simps [of st ixs] build_schema split: if_splits)
  next
    case (Cons ks heap)
    then obtain k s where h: "ms_heap st = (k, s) # heap" by (cases ks) auto
    have inv: "merge_inv st" using less.prems(2) by (simp add: ready_state_def)
    have s: "s < length (ms_cursors st)" using merge_top [OF inv h] by blast
    let ?c = "ms_cursors st ! s"
    note step = next_batch_step [OF s h, of ixs]
    have sch: "\<forall>c \<in> set (ms_cursors (popped st s heap)). cursor_schema S c" "ms_cursors (popped st s heap) \<noteq> []"
      using cursor_schema_next [OF popped_next [OF s] less.prems(4)] less.prems(3) by (auto simp: popped_def)
    have rp: "ms_cursors (repushed st s heap) = ms_cursors (popped st s heap)" by (simp add: repushed_def Let_def)
    show ?thesis
    proof (cases "mc_idx ?c + 1 \<ge> num_rows (mc_batch ?c)")
      case True
      with less.prems(1) step sch show ?thesis by (auto simp: rbind_eq_Inr_iff build_schema)
    next
      case False
      have rd: "ready_state (repushed st s heap)"
        using takes_repushed [OF less.prems(2) h False] by (simp add: takes_def)
      show ?thesis
      proof (cases "length ixs + 1 \<ge> MERGE_BATCH_ROWS")
        case True
        with False less.prems(1) step sch rp show ?thesis by (auto simp: build_schema)
      next
        case more: False
        with False less.prems(1) step
        have "next_batch (repushed st s heap) (ixs @ [(s, mc_idx ?c)]) = Inr (Some b, st')" by simp
        from less.hyps [OF _ this rd] more sch rp show ?thesis by simp
      qed
    qed
  qed
qed

lemma remaining_done: "ready_state st \<Longrightarrow> ms_heap st = [] \<Longrightarrow> remaining st = []"
proof -
  assume "ready_state st" "ms_heap st = []"
  then have "heap_entries (ms_key st) (ms_cursors st) = {}" "\<forall>c \<in> set (ms_cursors st). refilled c"
    by (auto simp: ready_state_def merge_inv_def)
  moreover have "todo c = []" if c: "c \<in> set (ms_cursors st)" for c
  proof -
    from c obtain t where "t < length (ms_cursors st)" "ms_cursors st ! t = c" by (meson in_set_conv_nth)
    with calculation(1) show ?thesis by (auto simp: heap_entries_def)
  qed
  ultimately show ?thesis by (auto simp: remaining_def refilled_def)
qed

definition stuck :: "merge_state \<Rightarrow> compactor_error \<Rightarrow> bool" where
  "stuck st e \<longleftrightarrow> (\<exists>c \<in> set (ms_cursors st). \<not> cursor_good (ms_key st) c \<and>
     (Inl e \<in> set (mc_stream c) \<or> (\<exists>i. e = MergeOrderViolation (mc_path c) i)))"

text \<open>The specification of the output: whole batches in order, then at most one error.\<close>

definition merges :: "merge_state \<Rightarrow> rbatch list \<Rightarrow> compactor_error list \<Rightarrow> bool" where
  "merges st bs errs \<longleftrightarrow> length errs \<le> 1 \<and> (\<forall>b \<in> set bs. 0 < num_rows b \<and> num_rows b \<le> MERGE_BATCH_ROWS)
     \<and> sorted (map (ms_key st) (concat (map rb_rows bs)))
     \<and> (\<forall>k. todo_above st k \<longrightarrow> (\<forall>x \<in> set (concat (map rb_rows bs)). k \<le> ms_key st x))
     \<and> mset (concat (map rb_rows bs)) \<subseteq># mset (remaining st)
     \<and> (\<forall>e \<in> set errs. stuck st e)
     \<and> (errs = [] \<longleftrightarrow> good_state st)
     \<and> (good_state st \<longrightarrow> concat (map rb_rows bs) = sort_key (ms_key st) (remaining st))
     \<and> (\<forall>S. (\<forall>c \<in> set (ms_cursors st). cursor_schema S c) \<longrightarrow> (\<forall>b \<in> set bs. rb_schema b = S))"

lemma good_done:
  assumes "ready_state st" "ms_heap st = []"
  shows "good_state st"
  unfolding good_state_def
proof
  fix c assume c: "c \<in> set (ms_cursors st)"
  have "todo c @ stream_rows (mc_stream c) = []" using remaining_done [OF assms] c by (simp add: remaining_def)
  with assms(1) c have "mc_stream c = []" by (auto simp: ready_state_def refilled_def)
  with assms(1) c show "cursor_good (ms_key st) c"
    by (auto simp: cursor_good_def in_order_def ready_state_def merge_inv_def) (metis cursor_ok_def)
qed

lemma merges_Nil: "ready_state st \<Longrightarrow> ms_heap st = [] \<Longrightarrow> merges st [] []"
  by (simp add: merges_def remaining_done good_done)

lemma merges_error: "stuck st e \<Longrightarrow> merges st [] [e]"
  by (auto simp: merges_def stuck_def good_state_def)

lemma merges_Cons:
  assumes "takes st (rb_rows b) st'" "merges st' bs errs" "rb_rows b \<noteq> []" "num_rows b \<le> MERGE_BATCH_ROWS"
    "\<And>S. \<forall>c \<in> set (ms_cursors st). cursor_schema S c \<Longrightarrow> rb_schema b = S"
  shows "merges st (b # bs) errs"
proof -
  have k: "ms_key st' = ms_key st" and n: "list_all2 (cursor_next (ms_key st)) (ms_cursors st) (ms_cursors st')"
    and t: "mset (remaining st) = mset (rb_rows b) + mset (remaining st')" "sorted (map (ms_key st) (rb_rows b))"
      "\<forall>x \<in> set (rb_rows b). todo_above st' (ms_key st x)"
      "\<forall>k. todo_above st k \<longrightarrow> todo_above st' k \<and> (\<forall>x \<in> set (rb_rows b). k \<le> ms_key st x)"
      "good_state st \<longrightarrow> sort_key (ms_key st) (remaining st) = rb_rows b @ sort_key (ms_key st) (remaining st')"
    using assms(1) by (simp_all add: takes_def)
  have m: "length errs \<le> 1" "\<forall>b \<in> set bs. 0 < num_rows b \<and> num_rows b \<le> MERGE_BATCH_ROWS"
    "sorted (map (ms_key st) (concat (map rb_rows bs)))"
    "\<forall>k. todo_above st' k \<longrightarrow> (\<forall>x \<in> set (concat (map rb_rows bs)). k \<le> ms_key st x)"
    "mset (concat (map rb_rows bs)) \<subseteq># mset (remaining st')"
    "errs = [] \<longleftrightarrow> good_state st'" "\<forall>e \<in> set errs. stuck st' e"
    "good_state st' \<longrightarrow> concat (map rb_rows bs) = sort_key (ms_key st) (remaining st')"
    "\<forall>S. (\<forall>c \<in> set (ms_cursors st'). cursor_schema S c) \<longrightarrow> (\<forall>b \<in> set bs. rb_schema b = S)"
    using assms(2) by (simp_all add: merges_def k)
  have "sorted (map (ms_key st) (concat (map rb_rows (b # bs))))"
    using t(2,3) m(3,4) by (auto simp: sorted_append)
  moreover have "\<forall>e \<in> set errs. stuck st e"
    using m(7) stuck_before [OF n] unfolding stuck_def k by blast
  moreover have "errs = [] \<longleftrightarrow> good_state st" using m(6) good_state_next [OF n k] by simp
  moreover have "good_state st \<longrightarrow> concat (map rb_rows (b # bs)) = sort_key (ms_key st) (remaining st)"
    using t(5) m(8) good_state_next [OF n k] by auto
  moreover have "\<forall>S. (\<forall>c \<in> set (ms_cursors st). cursor_schema S c) \<longrightarrow> (\<forall>x \<in> set (b # bs). rb_schema x = S)"
    using assms(5) m(9) cursor_schema_next [OF n] by (metis set_ConsD)
  moreover have "0 < num_rows b" using assms(3) by (simp add: num_rows_def)
  ultimately show ?thesis
    using m(1,2,4,5) t(1,4) assms(4) unfolding merges_def by (auto simp: subset_mset.add_left_mono)
qed

lemma merge_unfold_merges:
  assumes "ready_state st"
  shows "\<exists>bs errs. merge_unfold st = Some (map Inr bs @ map Inl errs) \<and> merges st bs errs"
  using assms
proof (induction "length (remaining st)" arbitrary: st rule: less_induct)
  case less
  have M: "length [] < MERGE_BATCH_ROWS" by (simp add: MERGE_BATCH_ROWS_def)
  show ?case
  proof (cases "next_batch st []")
    case (Inl e)
    then have "stuck st e" using next_batch_Inl [OF Inl less.prems] by (simp add: stuck_def)
    moreover have "merge_unfold st = Some [Inl e]" by (subst merge_unfold.simps) (simp add: Inl)
    ultimately show ?thesis by (intro exI [of _ "[]"] exI [of _ "[e]"]) (simp add: merges_error)
  next
    case (Inr r)
    then obtain ob st' where n: "next_batch st [] = Inr (ob, st')" by (cases r) auto
    from next_batch_takes [OF n less.prems M] obtain xs where xs: "takes st xs st'"
      "case ob of None \<Rightarrow> xs = [] \<and> ms_heap st = []
       | Some b \<Rightarrow> rb_rows b = xs \<and> xs \<noteq> [] \<and> length (rb_rows b) \<le> MERGE_BATCH_ROWS"
      by (auto split: option.splits)
    show ?thesis
    proof (cases ob)
      case None
      then have "merge_unfold st = Some []" by (subst merge_unfold.simps) (simp add: n)
      moreover have "merges st [] []" using None xs(2) less.prems by (intro merges_Nil) simp_all
      ultimately show ?thesis by (intro exI [of _ "[]"]) simp
    next
      case (Some b)
      with xs have t: "takes st (rb_rows b) st'" "rb_rows b \<noteq> []" "num_rows b \<le> MERGE_BATCH_ROWS"
        by (auto simp: num_rows_def)
      then have "mset (remaining st) = mset (rb_rows b) + mset (remaining st')" "ready_state st'"
        by (simp_all add: takes_def)
      from arg_cong [OF this(1), of size] this(2) t(2)
      have "length (remaining st') < length (remaining st)" "ready_state st'" by simp_all
      with less.hyps obtain bs errs where u: "merge_unfold st' = Some (map Inr bs @ map Inl errs)" "merges st' bs errs"
        by blast
      have "rb_schema b = S" if "\<forall>c \<in> set (ms_cursors st). cursor_schema S c" for S
      proof (cases "ms_cursors st = []")
        case True
        then have "remaining st = []" by (simp add: remaining_def)
        with t(1,2) show ?thesis by (simp add: takes_def)
      next
        case False
        with next_batch_schema [OF _ less.prems this that] n Some show ?thesis by blast
      qed
      then have "merges st (b # bs) errs" by (intro merges_Cons [OF t(1) u(2) t(2,3)])
      moreover have "merge_unfold st = Some (map Inr (b # bs) @ map Inl errs)"
        by (subst merge_unfold.simps) (simp add: n Some u(1))
      ultimately show ?thesis by blast
    qed
  qed
qed

section \<open>Opening the streams\<close>

definition opened :: "(cells \<Rightarrow> string) \<Rightarrow> schema \<Rightarrow> part_batch_stream list \<Rightarrow> merge_state" where
  "opened key schema streams =
     \<lparr>ms_cursors = map (\<lambda>ps. \<lparr>mc_stream = ps_stream ps, mc_path = ps_path ps,
        mc_batch = \<lparr>rb_schema = schema, rb_rows = []\<rparr>, mc_rows = [], mc_idx = 0, mc_exhausted = False,
        mc_last = None\<rparr>) streams, ms_heap = [], ms_key = key\<rparr>"

lemma opened_facts:
  "merge_inv (opened key schema streams)" "ms_key (opened key schema streams) = key"
  "length (ms_cursors (opened key schema streams)) = length streams"
  "s < length streams \<Longrightarrow> todo (ms_cursors (opened key schema streams) ! s) = []"
  "remaining (opened key schema streams) = concat (map (stream_rows \<circ> ps_stream) streams)"
  by (auto simp: opened_def merge_inv_def cursor_ok_def heap_entries_def todo_def num_rows_def remaining_def comp_def)

lemma refill_all_Inr:
  assumes "refill_all ss st = Inr st'" "merge_inv st" "distinct ss"
    and "\<forall>s \<in> set ss. s < length (ms_cursors st) \<and> todo (ms_cursors st ! s) = []"
    and "\<forall>t < length (ms_cursors st). t \<notin> set ss \<longrightarrow> refilled (ms_cursors st ! t)"
  shows "ready_state st' \<and> ms_key st' = ms_key st \<and> remaining st' = remaining st
    \<and> list_all2 (cursor_next (ms_key st)) (ms_cursors st) (ms_cursors st')"
  using assms
proof (induction ss arbitrary: st)
  case Nil
  then show ?case by (auto simp: ready_state_def in_set_conv_nth list_all2_refl)
next
  case (Cons s ss)
  then obtain st1 where r: "refill s st = Inr st1" "refill_all ss st1 = Inr st'" by (auto simp: rbind_eq_Inr_iff)
  have s: "s < length (ms_cursors st)" "todo (ms_cursors st ! s) = []" using Cons.prems(4) by auto
  from refill_Inr [OF r(1) Cons.prems(2) s] obtain c where inv: "merge_inv st1" and k: "ms_key st1 = ms_key st"
    and rem: "remaining st1 = remaining st" and c: "ms_cursors st1 = (ms_cursors st)[s := c]" "refilled c"
      "cursor_next (ms_key st) (ms_cursors st ! s) c"
    by blast
  have n: "list_all2 (cursor_next (ms_key st)) (ms_cursors st) (ms_cursors st1)"
    unfolding c by (rule cursor_next_update [OF s(1) c(3)])
  have "ready_state st' \<and> ms_key st' = ms_key st1 \<and> remaining st' = remaining st1
      \<and> list_all2 (cursor_next (ms_key st1)) (ms_cursors st1) (ms_cursors st')"
    using Cons.prems(3-5) c(1,2) s(1) by (intro Cons.IH [OF r(2) inv]) (auto simp: nth_list_update)
  then show ?case using k rem cursors_next_trans [OF n] by simp
qed

lemma refill_all_Inl:
  assumes "refill_all ss st = Inl e" "merge_inv st" "distinct ss"
    and "\<forall>s \<in> set ss. s < length (ms_cursors st) \<and> todo (ms_cursors st ! s) = []"
  shows "stuck st e"
  using assms
proof (induction ss arbitrary: st)
  case (Cons s ss)
  have s: "s < length (ms_cursors st)" "todo (ms_cursors st ! s) = []" using Cons.prems(4) by auto
  show ?case
  proof (cases "refill s st")
    case (Inl e')
    with Cons.prems(1) refill_Inl [OF Inl Cons.prems(2) s(1)] show ?thesis by (simp add: stuck_def)
  next
    case (Inr st1)
    from refill_Inr [OF Inr Cons.prems(2) s] obtain c where inv: "merge_inv st1" and k: "ms_key st1 = ms_key st"
      and c: "ms_cursors st1 = (ms_cursors st)[s := c]" "cursor_next (ms_key st) (ms_cursors st ! s) c" by blast
    have n: "list_all2 (cursor_next (ms_key st)) (ms_cursors st) (ms_cursors st1)"
      unfolding c by (rule cursor_next_update [OF s(1) c(2)])
    have "stuck st1 e"
      using Cons.prems(1,3,4) Inr c(1) s(1) by (intro Cons.IH [OF _ inv]) (auto simp: nth_list_update)
    then show ?thesis using stuck_before [OF n] unfolding stuck_def k by blast
  qed
qed simp

lemma merge_streams_result:
  assumes "sort_indices schema cols = Inr is" "merge_key L schema is = Some key"
  shows "\<exists>bs errs. merge_streams L streams schema cols = Some (map Inr bs @ map Inl errs)
    \<and> length errs \<le> 1 \<and> (\<forall>b \<in> set bs. 0 < num_rows b \<and> num_rows b \<le> MERGE_BATCH_ROWS)
    \<and> sorted (map key (concat (map rb_rows bs)))
    \<and> (\<forall>e \<in> set errs. \<exists>ps \<in> set streams. \<not> in_order key [] (ps_stream ps) \<and>
        (Inl e \<in> set (ps_stream ps) \<or> (\<exists>i. e = MergeOrderViolation (ps_path ps) i)))
    \<and> (errs = [] \<longleftrightarrow> (\<forall>ps \<in> set streams. in_order key [] (ps_stream ps)))
    \<and> (errs = [] \<longrightarrow> concat (map rb_rows bs) = sort_key key (concat (map (stream_rows \<circ> ps_stream) streams)))
    \<and> ((\<forall>ps \<in> set streams. \<forall>b. Inr b \<in> set (ps_stream ps) \<longrightarrow> rb_schema b = schema) \<longrightarrow>
        (\<forall>b \<in> set bs. rb_schema b = schema))"
proof -
  let ?o = "opened key schema streams" and ?ss = "[0..<length streams]"
  have init: "merge_init L streams schema cols = refill_all ?ss ?o"
    by (simp add: merge_init_def assms opened_def)
  have pre: "distinct ?ss" "\<forall>s \<in> set ?ss. s < length (ms_cursors ?o) \<and> todo (ms_cursors ?o ! s) = []"
    "\<forall>t < length (ms_cursors ?o). t \<notin> set ?ss \<longrightarrow> refilled (ms_cursors ?o ! t)"
    by (auto simp: opened_facts)
  have good: "good_state ?o \<longleftrightarrow> (\<forall>ps \<in> set streams. in_order key [] (ps_stream ps))"
    by (simp add: good_state_def opened_def cursor_good_def)
  have stuck: "stuck ?o e \<longleftrightarrow> (\<exists>ps \<in> set streams. \<not> in_order key [] (ps_stream ps) \<and>
      (Inl e \<in> set (ps_stream ps) \<or> (\<exists>i. e = MergeOrderViolation (ps_path ps) i)))" for e
    by (simp add: stuck_def opened_def cursor_good_def)
  have sch: "(\<forall>c \<in> set (ms_cursors ?o). cursor_schema schema c) \<longleftrightarrow>
      (\<forall>ps \<in> set streams. \<forall>b. Inr b \<in> set (ps_stream ps) \<longrightarrow> rb_schema b = schema)"
    by (simp add: opened_def cursor_schema_def)
  show ?thesis
  proof (cases "refill_all ?ss ?o")
    case (Inl e)
    have e: "stuck ?o e" by (rule refill_all_Inl [OF Inl opened_facts(1) pre(1,2)])
    then have "\<not> good_state ?o" by (auto simp: stuck_def good_state_def)
    with Inl init e show ?thesis unfolding good stuck
      by (intro exI [of _ "[]"] exI [of _ "[e]"]) (simp add: merge_streams_def)
  next
    case (Inr st)
    note r = refill_all_Inr [OF Inr opened_facts(1) pre]
    from merge_unfold_merges r obtain bs errs where u: "merge_unfold st = Some (map Inr bs @ map Inl errs)"
      and m: "merges st bs errs" by blast
    have k: "ms_key st = key" and rem: "remaining st = concat (map (stream_rows \<circ> ps_stream) streams)"
      and n: "list_all2 (cursor_next (ms_key ?o)) (ms_cursors ?o) (ms_cursors st)" using r by (auto simp: opened_facts)
    have "\<forall>e \<in> set errs. stuck ?o e"
      using m stuck_before [OF n] unfolding merges_def stuck_def k opened_facts(2) by blast
    moreover have "good_state st = good_state ?o" using good_state_next [OF n] k by (simp add: opened_facts)
    moreover have "merge_streams L streams schema cols = Some (map Inr bs @ map Inl errs)"
      using u init Inr by (simp add: merge_streams_def)
    moreover note cursor_schema_next [OF n, of schema]
    ultimately show ?thesis using m unfolding merges_def good stuck sch k rem
      by (intro exI [of _ bs] exI [of _ errs]) blast
  qed
qed

section \<open>Properties\<close>

text \<open>C35: the streaming merge is a stable sort. It always returns: whole batches of at most 8192
  rows, none empty, in the sort key's order, then at most one error. There is no error exactly
  when every input stream was read completely and is in order, and then the output is the
  stable sort of the concatenated inputs. An error names an input that is not in order: its
  own read error, or an order violation with its path.\<close>

theorem merge_streams_correct:
  assumes "sort_indices schema cols = Inr is" "merge_key L schema is = Some key"
  shows "\<exists>bs errs. merge_streams L streams schema cols = Some (map Inr bs @ map Inl errs)
    \<and> length errs \<le> 1 \<and> (\<forall>b \<in> set bs. 0 < num_rows b \<and> num_rows b \<le> MERGE_BATCH_ROWS)
    \<and> sorted (map key (concat (map rb_rows bs)))
    \<and> (\<forall>e \<in> set errs. \<exists>ps \<in> set streams. \<not> in_order key [] (ps_stream ps) \<and>
        (Inl e \<in> set (ps_stream ps) \<or> (\<exists>i. e = MergeOrderViolation (ps_path ps) i)))
    \<and> (errs = [] \<longleftrightarrow> (\<forall>ps \<in> set streams. in_order key [] (ps_stream ps)))
    \<and> (errs = [] \<longrightarrow> concat (map rb_rows bs) = sort_key key (concat (map (stream_rows \<circ> ps_stream) streams)))
    \<and> ((\<forall>ps \<in> set streams. \<forall>b. Inr b \<in> set (ps_stream ps) \<longrightarrow> rb_schema b = schema) \<longrightarrow>
        (\<forall>b \<in> set bs. rb_schema b = schema))"
  by (rule merge_streams_result [OF assms])

text \<open>C35: two streams of two rows each, merged by their only column, one of them with a tie.\<close>

theorem merge_streams_correct_witness:
  fixes f :: field and b1 b2 :: rbatch and s1 s2 :: part_batch_stream
  defines "f \<equiv> \<lparr>f_name = ''k'', f_type = Utf8, f_nullable = False, f_metadata = []\<rparr>"
  defines "b1 \<equiv> \<lparr>rb_schema = [f], rb_rows = [[Cell ''a''], [Cell ''c'']]\<rparr>"
  defines "b2 \<equiv> \<lparr>rb_schema = [f], rb_rows = [[Cell ''b''], [Cell ''c'']]\<rparr>"
  defines "s1 \<equiv> \<lparr>ps_path = ''p1'', ps_stream = [Inr b1]\<rparr>" and "s2 \<equiv> \<lparr>ps_path = ''p2'', ps_stream = [Inr b2]\<rparr>"
  shows "\<exists>bs. merge_streams demo_arrow [s1, s2] [f] [''k''] = Some (map Inr bs)
    \<and> concat (map rb_rows bs) = [[Cell ''a''], [Cell ''b''], [Cell ''c''], [Cell ''c'']]"
proof -
  define key where "key = (\<lambda>r :: cells. demo_cell (r ! 0))"
  have "sort_indices [f] [''k''] = Inr [0]" by (simp add: f_def)
  moreover have "merge_key demo_arrow [f] [0] = Some key" by (simp add: merge_key_def demo_arrow_def key_def)
  moreover have "\<forall>ps \<in> set [s1, s2]. in_order key [] (ps_stream ps)"
    by (simp add: in_order_def s1_def s2_def b1_def b2_def key_def demo_cell_def)
  moreover have "sort_key key (concat (map (stream_rows \<circ> ps_stream) [s1, s2]))
      = [[Cell ''a''], [Cell ''b''], [Cell ''c''], [Cell ''c'']]"
    by (simp add: s1_def s2_def b1_def b2_def key_def demo_cell_def)
  ultimately show ?thesis
    using merge_streams_correct [of "[f]" "[''k'']" "[0]" demo_arrow key "[s1, s2]"] by fastforce
qed

end
