(* ===== verification/Worker.thy ===== *)
theory Worker
  imports CatalogState
begin

text \<open>
  The world of a worker process: the catalog, the object store and what happens around the
  worker's calls. A call is numbered by \<open>w_tick\<close>. Before it runs, others have been at work
  (\<open>we_others\<close>), and the worker's future may have been dropped meanwhile, by a crash or because
  its lease is gone; a future may also be dropped while a call is in flight, after the call's
  effect (\<open>we_cut\<close>). Both give \<open>Dropped\<close>. A catalog call runs under the database environment of
  its number. An upload may fail and still have stored the object; \<open>w_uploads\<close> logs the objects
  this worker stored. A read sees the object as it is when it is opened and may fail at any of
  its batches. The type of an object's contents is a parameter.
\<close>

section \<open>Definitions\<close>

datatype drop_cause = Crash | LeaseGone catalog_error

datatype 'e stop = Dropped drop_cause | Raised 'e

type_synonym 'f outside = "catalog \<times> (string \<Rightarrow> 'f option)"

record 'f world =
  w_tick :: nat
  w_catalog :: catalog
  w_files :: "string \<Rightarrow> 'f option"
  w_uploads :: "(string \<times> 'f) list"

record 'f wenv =
  we_db :: "nat \<Rightarrow> env"
  we_others :: "nat \<Rightarrow> 'f outside \<Rightarrow> 'f outside \<times> drop_cause option"
  we_cut :: "nat \<Rightarrow> drop_cause option"
  we_read :: "nat \<Rightarrow> nat option"
  we_put :: "nat \<Rightarrow> (store_error \<times> bool) option"
  we_head :: "nat \<Rightarrow> store_error option"
  we_uuid :: "nat \<Rightarrow> string"

type_synonym ('f, 'e, 'a) act = "'f world \<Rightarrow> 'f world \<times> ('e stop, 'a) result"

definition act_return :: "'a \<Rightarrow> ('f, 'e, 'a) act" where
  "act_return x = (\<lambda>w. (w, Inr x))"

definition act_raise :: "'e \<Rightarrow> ('f, 'e, 'a) act" where
  "act_raise e = (\<lambda>w. (w, Inl (Raised e)))"

definition act_bind :: "('f, 'e, 'a) act \<Rightarrow> ('a \<Rightarrow> ('f, 'e, 'b) act) \<Rightarrow> ('f, 'e, 'b) act" where
  "act_bind m f = (\<lambda>w. case m w of (w', Inl e) \<Rightarrow> (w', Inl e) | (w', Inr x) \<Rightarrow> f x w')"

definition act_lift :: "('e, 'a) result \<Rightarrow> ('f, 'e, 'a) act" where
  "act_lift r = (case r of Inl e \<Rightarrow> act_raise e | Inr x \<Rightarrow> act_return x)"

text \<open>A caller that goes on after an error, but not after it was dropped.\<close>

definition act_try :: "('f, 'e, 'a) act \<Rightarrow> ('f, 'd, ('e, 'a) result) act" where
  "act_try m = (\<lambda>w. case m w of
       (w', Inl (Dropped d)) \<Rightarrow> (w', Inl (Dropped d))
     | (w', Inl (Raised e)) \<Rightarrow> (w', Inr (Inl e))
     | (w', Inr x) \<Rightarrow> (w', Inr (Inr x)))"

text \<open>The state in which call number \<open>w_tick\<close> runs, and a call on it.\<close>

definition others_ran :: "'f wenv \<Rightarrow> 'f world \<Rightarrow> 'f world" where
  "others_ran we w =
     (let ((c, fs), _) = we_others we (w_tick w) (w_catalog w, w_files w)
      in w\<lparr>w_tick := Suc (w_tick w), w_catalog := c, w_files := fs\<rparr>)"

definition dropped_before :: "'f wenv \<Rightarrow> 'f world \<Rightarrow> drop_cause option" where
  "dropped_before we w = snd (we_others we (w_tick w) (w_catalog w, w_files w))"

definition act_step :: "'f wenv \<Rightarrow> ('f world \<Rightarrow> 'f world \<times> ('e, 'a) result) \<Rightarrow> ('f, 'e, 'a) act" where
  "act_step we m = (\<lambda>w.
     case dropped_before we w of
       Some d \<Rightarrow> (others_ran we w, Inl (Dropped d))
     | None \<Rightarrow>
         let (w', r) = m (others_ran we w)
         in (w', case we_cut we (w_tick w) of Some d \<Rightarrow> Inl (Dropped d) | None \<Rightarrow> map_sum Raised id r))"

definition act_call :: "'f wenv \<Rightarrow> (catalog_error \<Rightarrow> 'e) \<Rightarrow> (env \<Rightarrow> 'a tx) \<Rightarrow> ('f, 'e, 'a) act" where
  "act_call we err m = (\<lambda>w. act_step we (\<lambda>w1.
     let (c, r) = m (we_db we (w_tick w)) (w_catalog w1) in (w1\<lparr>w_catalog := c\<rparr>, map_sum err id r)) w)"

text \<open>\<open>store.put\<close>, and the end of a multipart upload.\<close>

definition act_put :: "'f wenv \<Rightarrow> (store_error \<Rightarrow> 'e) \<Rightarrow> string \<Rightarrow> 'f \<Rightarrow> ('f, 'e, unit) act" where
  "act_put we err p f = (\<lambda>w. act_step we (\<lambda>w1.
     let stored = w1\<lparr>w_files := (w_files w1)(p := Some f), w_uploads := w_uploads w1 @ [(p, f)]\<rparr>
     in case we_put we (w_tick w) of
          None \<Rightarrow> (stored, Inr ())
        | Some (e, durable) \<Rightarrow> (if durable then stored else w1, Inl (err e))) w)"

text \<open>A step of a multipart upload before its end: it may fail, and nothing is visible yet.\<close>

definition act_io :: "'f wenv \<Rightarrow> (store_error \<Rightarrow> 'e) \<Rightarrow> ('f, 'e, unit) act" where
  "act_io we err = (\<lambda>w. act_step we (\<lambda>w1.
     case we_put we (w_tick w) of None \<Rightarrow> (w1, Inr ()) | Some (e, _) \<Rightarrow> (w1, Inl (err e))) w)"

text \<open>Opening an object: its contents, and the number of the batch at which reading it fails.\<close>

definition act_open :: "'f wenv \<Rightarrow> 'e \<Rightarrow> string \<Rightarrow> ('f, 'e, 'f \<times> nat option) act" where
  "act_open we err p = (\<lambda>w. act_step we (\<lambda>w1.
     case w_files w1 p of
       None \<Rightarrow> (w1, Inl err)
     | Some f \<Rightarrow>
         if we_read we (w_tick w) = Some 0 then (w1, Inl err) else (w1, Inr (f, we_read we (w_tick w)))) w)"

definition act_head :: "'f wenv \<Rightarrow> (store_error \<Rightarrow> 'e) \<Rightarrow> ('f \<Rightarrow> nat) \<Rightarrow> string \<Rightarrow> ('f, 'e, nat) act" where
  "act_head we err sz p = (\<lambda>w. act_step we (\<lambda>w1.
     case we_head we (w_tick w) of
       Some e \<Rightarrow> (w1, Inl (err e))
     | None \<Rightarrow> (case w_files w1 p of None \<Rightarrow> (w1, Inl (err StoreNotFound)) | Some f \<Rightarrow> (w1, Inr (sz f)))) w)"

text \<open>\<open>Uuid::new_v4\<close>, drawn at the current call number.\<close>

definition act_uuid :: "'f wenv \<Rightarrow> ('f, 'e, string) act" where
  "act_uuid we = (\<lambda>w. (w, Inr (we_uuid we (w_tick w))))"

section \<open>Reasoning\<close>

lemma act_return_Inr [simp]: "act_return x w = (w', Inr y) \<longleftrightarrow> w' = w \<and> y = x"
  by (auto simp: act_return_def)

lemma act_return_Inl [simp]: "act_return x w \<noteq> (w', Inl e)"
  by (simp add: act_return_def)

lemma act_raise_iff [simp]: "act_raise e w = (w', r) \<longleftrightarrow> w' = w \<and> r = Inl (Raised e)"
  by (auto simp: act_raise_def)

lemma act_bind_Inr:
  "act_bind m f w = (w2, Inr y) \<longleftrightarrow> (\<exists>w1 x. m w = (w1, Inr x) \<and> f x w1 = (w2, Inr y))"
  by (auto simp: act_bind_def split: prod.splits sum.splits)

lemma act_bind_Inl:
  "act_bind m f w = (w2, Inl e) \<longleftrightarrow>
     m w = (w2, Inl e) \<or> (\<exists>w1 x. m w = (w1, Inr x) \<and> f x w1 = (w2, Inl e))"
  by (auto simp: act_bind_def split: prod.splits sum.splits)

lemma act_lift_Inr [simp]: "act_lift r w = (w', Inr x) \<longleftrightarrow> w' = w \<and> r = Inr x"
  by (auto simp: act_lift_def split: sum.splits)

lemma act_bind_lift [simp]: "act_bind (act_lift (Inr x)) f = f x"
  by (simp add: act_bind_def act_lift_def act_return_def)

lemma act_bind_return [simp]: "act_bind (act_return x) f = f x"
  by (simp add: act_bind_def act_return_def)

lemma act_lift_Inl: "act_lift r w = (w', Inl e) \<longleftrightarrow> w' = w \<and> (\<exists>x. e = Raised x \<and> r = Inl x)"
  by (auto simp: act_lift_def split: sum.splits)

lemma act_try_Inr:
  "act_try m w = (w', Inr r) \<longleftrightarrow> m w = (w', map_sum Raised id r)"
  by (cases r) (auto simp: act_try_def split: prod.splits sum.splits stop.splits)

lemma others_ran_simps [simp]:
  "w_tick (others_ran we w) = Suc (w_tick w)" "w_uploads (others_ran we w) = w_uploads w"
  by (simp_all add: others_ran_def split: prod.splits)

lemma act_step_Inr:
  "act_step we m w = (w', Inr x) \<longleftrightarrow>
     dropped_before we w = None \<and> we_cut we (w_tick w) = None \<and> m (others_ran we w) = (w', Inr x)"
  by (auto simp: act_step_def Let_def map_sum_def split: option.splits prod.splits sum.splits)

text \<open>A call's effect is that of its body, or nothing.\<close>

lemma act_step_effect:
  "act_step we m w = (w', r) \<Longrightarrow> w' = others_ran we w \<or> w' = fst (m (others_ran we w))"
  by (auto simp: act_step_def Let_def split: option.splits prod.splits)

lemma act_call_Inr:
  "act_call we err m w = (w', Inr x) \<longleftrightarrow> dropped_before we w = None \<and> we_cut we (w_tick w) = None \<and>
     (\<exists>c. m (we_db we (w_tick w)) (w_catalog (others_ran we w)) = (c, Inr x) \<and> w' = (others_ran we w)\<lparr>w_catalog := c\<rparr>)"
  by (auto simp: act_call_def act_step_Inr Let_def map_sum_def split: prod.splits sum.splits)

lemma act_call_uploads: "act_call we err m w = (w', r) \<Longrightarrow> w_uploads w' = w_uploads w"
  by (auto simp: act_call_def Let_def dest!: act_step_effect split: prod.splits)

lemma act_put_Inr:
  "act_put we err p f w = (w', Inr ()) \<longleftrightarrow>
     dropped_before we w = None \<and> we_cut we (w_tick w) = None \<and> we_put we (w_tick w) = None \<and>
     w' = (others_ran we w)\<lparr>w_files := (w_files (others_ran we w))(p := Some f), w_uploads := w_uploads w @ [(p, f)]\<rparr>"
  by (auto simp: act_put_def act_step_Inr Let_def split: option.splits)

lemma act_put_uploads:
  "act_put we err p f w = (w', r) \<Longrightarrow> w_uploads w' = w_uploads w \<or> w_uploads w' = w_uploads w @ [(p, f)]"
  by (auto simp: act_put_def Let_def dest!: act_step_effect split: option.splits if_splits)

lemma act_io_Inr:
  "act_io we err w = (w', Inr ()) \<longleftrightarrow>
     dropped_before we w = None \<and> we_cut we (w_tick w) = None \<and> we_put we (w_tick w) = None \<and> w' = others_ran we w"
  by (auto simp: act_io_def act_step_Inr split: option.splits)

lemma act_io_uploads: "act_io we err w = (w', r) \<Longrightarrow> w_uploads w' = w_uploads w"
  by (auto simp: act_io_def dest!: act_step_effect split: option.splits)

lemma act_open_Inr:
  "act_open we err p w = (w', Inr (f, n)) \<longleftrightarrow>
     dropped_before we w = None \<and> we_cut we (w_tick w) = None \<and> w' = others_ran we w \<and>
     w_files (others_ran we w) p = Some f \<and> n = we_read we (w_tick w) \<and> n \<noteq> Some 0"
  by (auto simp: act_open_def act_step_Inr split: option.splits)

lemma act_open_uploads: "act_open we err p w = (w', r) \<Longrightarrow> w_uploads w' = w_uploads w"
  by (auto simp: act_open_def dest!: act_step_effect split: option.splits if_splits)

lemma act_head_Inr:
  "act_head we err sz p w = (w', Inr n) \<Longrightarrow> w' = others_ran we w \<and> (\<exists>f. w_files w' p = Some f \<and> n = sz f)"
  by (auto simp: act_head_def act_step_Inr split: option.splits)

lemma act_head_uploads: "act_head we err sz p w = (w', r) \<Longrightarrow> w_uploads w' = w_uploads w"
  by (auto simp: act_head_def dest!: act_step_effect split: option.splits)

lemma act_uuid_iff [simp]: "act_uuid we w = (w', r) \<longleftrightarrow> w' = w \<and> r = Inr (we_uuid we (w_tick w))"
  by (auto simp: act_uuid_def)

lemmas act_results = act_bind_Inr act_bind_Inl act_lift_Inl act_call_Inr act_put_Inr

section \<open>Undisturbed runs\<close>

text \<open>No failure, no crash, and nobody else at work.\<close>

definition quiet_world :: "'f wenv \<Rightarrow> bool" where
  "quiet_world we \<longleftrightarrow> (\<forall>n. we_cut we n = None \<and> we_put we n = None \<and> we_head we n = None \<and> we_read we n = None \<and>
     (\<forall>x. we_others we n x = (x, None)))"

definition always :: "('f, 'e, 'a) act \<Rightarrow> bool" where
  "always m \<longleftrightarrow> (\<forall>w. \<exists>w' x. m w = (w', Inr x))"

lemma always_return [simp]: "always (act_return x)"
  by (simp add: always_def act_return_def)

lemma always_bind: "always m \<Longrightarrow> (\<And>x. always (f x)) \<Longrightarrow> always (act_bind m f)"
  unfolding always_def act_bind_def by (metis (no_types, lifting) prod.case sum.simps(6))

lemma always_lift [simp]: "always (act_lift r) \<longleftrightarrow> (\<exists>x. r = Inr x)"
  by (cases r) (auto simp: always_def act_lift_def act_return_def act_raise_def)

lemma quiet_others [simp]:
  "quiet_world we \<Longrightarrow> others_ran we w = w\<lparr>w_tick := Suc (w_tick w)\<rparr>" "quiet_world we \<Longrightarrow> dropped_before we w = None"
  by (simp_all add: quiet_world_def others_ran_def dropped_before_def)

lemma quiet_cut [simp]: "quiet_world we \<Longrightarrow> we_cut we n = None"
  by (simp add: quiet_world_def)

lemma always_io [simp]: "quiet_world we \<Longrightarrow> always (act_io we err)"
  by (simp add: always_def act_io_def act_step_def) (simp add: quiet_world_def)

lemma always_put_head:
  assumes "quiet_world we" "\<And>n. always (f n)"
  shows "always (act_bind (act_put we err p pq) (\<lambda>_. act_bind (act_head we err' sz p) f))"
  unfolding always_def
proof
  fix w
  let ?w1 = "(others_ran we w)\<lparr>w_files := (w_files (others_ran we w))(p := Some pq), w_uploads := w_uploads w @ [(p, pq)]\<rparr>"
  have "act_put we err p pq w = (?w1, Inr ())" using assms(1) by (simp add: act_put_Inr) (simp add: quiet_world_def)
  moreover have "act_head we err' sz p ?w1 = (others_ran we ?w1, Inr (sz pq))"
    using assms(1) by (simp add: act_head_def act_step_def) (simp add: quiet_world_def)
  ultimately show "\<exists>w' x. act_bind (act_put we err p pq) (\<lambda>_. act_bind (act_head we err' sz p) f) w = (w', Inr x)"
    using assms(2) by (simp add: act_bind_def always_def)
qed

text \<open>A world without failures at a fixed time, for examples.\<close>

definition calm_wenv :: "time \<Rightarrow> 'f wenv" where
  "calm_wenv t = \<lparr>we_db = (\<lambda>_. quiet_env t), we_others = (\<lambda>_ x. (x, None)), we_cut = (\<lambda>_. None), we_read = (\<lambda>_. None),
     we_put = (\<lambda>_. None), we_head = (\<lambda>_. None), we_uuid = show_nat\<rparr>"

lemma quiet_calm [simp]: "quiet_world (calm_wenv t)"
  by (simp add: quiet_world_def calm_wenv_def)

end
