(* ===== verification/Rewrite.thy ===== *)
theory Rewrite
  imports Merge Worker
begin

text \<open>
  The rewrite engine, \<^verbatim>\<open>crates/ukiel-compactor/src/rewrite.rs\<close>: reading parts as adapted and
  back-filled batch streams, cutting a sorted batch at its packing keys, and the streaming
  chunk writer that shapes merge outputs by the placement policy. The value under a null
  packing key is \<open>ar_null\<close>. The \<open>next_path\<close> and \<open>on_open\<close> closures are actions of the writer's
  record. Comparisons of the \<open>f64\<close> size estimate of \<open>plan_chunks\<close> are its parameter
  \<open>exceeds\<close>: whether that many rows are estimated over the target.
\<close>

section \<open>Definitions\<close>

definition int64_array :: "rbatch \<Rightarrow> string \<Rightarrow> (compactor_error, i64 option list) result" where
  "int64_array b name =
     rbind (ok_or (index_of (rb_schema b) name) (MissingColumn name)) (\<lambda>idx.
       if f_type (rb_schema b ! idx) = Int64 then Inr (map (\<lambda>r. cell_i64 (r ! idx)) (rb_rows b))
       else Inl (NotInt64 name))"

definition key_value :: "('w, 'f) arrow \<Rightarrow> i64 option \<Rightarrow> i64" where
  "key_value L v = (case v of Some x \<Rightarrow> x | None \<Rightarrow> ar_null L)"

text \<open>One round of the loop of \<open>split_by_key\<close>.\<close>

definition split_step :: "i64 list \<Rightarrow> rbatch \<Rightarrow> (i64 \<times> rbatch) list \<times> nat \<Rightarrow> nat \<Rightarrow> (i64 \<times> rbatch) list \<times> nat" where
  "split_step ks b = (\<lambda>(out, start) i.
     if i = length ks \<or> ks ! i \<noteq> ks ! start then (out @ [(ks ! start, batch_slice b start (i - start))], i)
     else (out, start))"

definition split_by_key :: "('w, 'f) arrow \<Rightarrow> rbatch \<Rightarrow> string \<Rightarrow> (compactor_error, (i64 \<times> rbatch) list) result" where
  "split_by_key L b packing =
     rbind (int64_array b packing) (\<lambda>keys.
       let ks = map (key_value L) keys
       in Inr (fst (foldl (split_step ks b) ([], 0) [1..<Suc (length ks)])))"

definition key_range :: "('w, 'f) arrow \<Rightarrow> rbatch \<Rightarrow> string \<Rightarrow> (compactor_error, i64 \<times> i64) result" where
  "key_range L b packing =
     rbind (int64_array b packing) (\<lambda>keys.
       rbind (ok_or (ar_min L keys) (MissingColumn packing)) (\<lambda>mn.
         rbind (ok_or (ar_max L keys) (MissingColumn packing)) (\<lambda>mx. Inr (mn, mx))))"

text \<open>The loop of \<open>plan_chunks\<close> for \<open>SizeTargeted\<close>: \<open>start\<close> and \<open>rows\<close> delimit the open chunk.\<close>

fun plan_runs ::
  "(nat \<Rightarrow> bool) \<Rightarrow> rbatch \<Rightarrow> nat \<Rightarrow> nat \<Rightarrow> i64 \<Rightarrow> i64 \<Rightarrow> (i64 \<times> rbatch) list \<Rightarrow> (i64 \<times> i64 \<times> rbatch) list" where
  "plan_runs exceeds sorted_b start rows mn mx [] = (if rows > 0 then [(mn, mx, batch_slice sorted_b start rows)] else [])"
| "plan_runs exceeds sorted_b start rows mn mx ((k, run) # runs) =
     (if rows > 0 \<and> exceeds (rows + num_rows run) then
        (mn, mx, batch_slice sorted_b start rows) # plan_runs exceeds sorted_b (start + rows) (num_rows run) k k runs
      else plan_runs exceeds sorted_b start (rows + num_rows run) (if rows = 0 then k else mn) k runs)"

definition plan_chunks ::
  "('w, 'f) arrow \<Rightarrow> (i64 \<Rightarrow> nat \<Rightarrow> bool) \<Rightarrow> rbatch \<Rightarrow> string \<Rightarrow> placement
   \<Rightarrow> (compactor_error, (i64 \<times> i64 \<times> rbatch) list) result" where
  "plan_chunks L exceeds sorted_b packing pl =
     (case pl of
        Packed \<Rightarrow> map_sum id (\<lambda>(mn, mx). [(mn, mx, sorted_b)]) (key_range L sorted_b packing)
      | Separated \<Rightarrow> map_sum id (map (\<lambda>(k, b). (k, k, b))) (split_by_key L sorted_b packing)
      | SizeTargeted target \<Rightarrow>
          map_sum id (plan_runs (exceeds target) sorted_b 0 0 0 0) (split_by_key L sorted_b packing))"

definition adapt_to_schema :: "rbatch \<Rightarrow> schema \<Rightarrow> (compactor_error, rbatch) result" where
  "adapt_to_schema b target =
     (if list_all (\<lambda>f. case index_of (rb_schema b) (f_name f) of
            Some i \<Rightarrow> f_type (rb_schema b ! i) = f_type f | None \<Rightarrow> True) target
      then ok_or (try_batch target (map (\<lambda>r. map (\<lambda>f. case index_of (rb_schema b) (f_name f) of
            Some i \<Rightarrow> r ! i | None \<Rightarrow> Null) target) (rb_rows b))) CArrow
      else Inl CArrow)"

text \<open>One batch of a part's stream.\<close>

definition adapt_batch ::
  "datafusion \<Rightarrow> schema \<Rightarrow> table_columns \<Rightarrow> string \<Rightarrow> schema \<Rightarrow> cells list option \<Rightarrow> (compactor_error, rbatch) result" where
  "adapt_batch D schema cols pth file_schema item =
     rbind (ok_or item (PartRead pth)) (\<lambda>rs.
       rbind (adapt_to_schema \<lparr>rb_schema = file_schema, rb_rows = rs\<rparr> schema) (\<lambda>adapted.
         map_sum CExpr id (apply_missing_defaults_and_materialized D adapted cols file_schema)))"

definition part_stream ::
  "('w, 'f) arrow \<Rightarrow> datafusion \<Rightarrow> schema \<Rightarrow> table_columns \<Rightarrow> string \<Rightarrow> 'f \<times> nat option
   \<Rightarrow> (compactor_error, part_batch_stream) result" where
  "part_stream L D schema cols pth = (\<lambda>(file, fails_at).
     rbind (ok_or (pq_open L file) (PartRead pth)) (\<lambda>(file_schema, items).
       Inr \<lparr>ps_path = pth,
            ps_stream = (case fails_at of
                None \<Rightarrow> map (adapt_batch D schema cols pth file_schema) items
              | Some n \<Rightarrow> map (adapt_batch D schema cols pth file_schema) (take n items) @ [Inl (PartRead pth)])\<rparr>))"

fun part_streams ::
  "'f wenv \<Rightarrow> ('w, 'f) arrow \<Rightarrow> datafusion \<Rightarrow> schema \<Rightarrow> table_columns \<Rightarrow> part list
   \<Rightarrow> ('f, compactor_error, part_batch_stream list) act" where
  "part_streams we L D schema cols [] = act_return []"
| "part_streams we L D schema cols (p # ps) =
     (let pth = path (part_meta p) in
      act_bind (act_open we (PartRead pth) pth) (\<lambda>opened.
      act_bind (act_lift (part_stream L D schema cols pth opened)) (\<lambda>s.
      act_bind (part_streams we L D schema cols ps) (\<lambda>ss. act_return (s # ss)))))"

fun collect_stream :: "batch_stream \<Rightarrow> (compactor_error, rbatch list) result" where
  "collect_stream [] = Inr []"
| "collect_stream (r # rs) = rbind r (\<lambda>b. map_sum id (\<lambda>bs. b # bs) (collect_stream rs))"

definition read_parts_for_rewrite ::
  "'f wenv \<Rightarrow> ('w, 'f) arrow \<Rightarrow> datafusion \<Rightarrow> table_columns \<Rightarrow> part list \<Rightarrow> ('f, compactor_error, rbatch) act" where
  "read_parts_for_rewrite we L D cols ps =
     (let schema = physical_schema cols in
      act_bind (part_streams we L D schema cols ps) (\<lambda>streams.
        act_lift (map_sum id (concat_batches schema) (collect_stream (concat (map ps_stream streams))))))"

definition encode_parquet :: "('w, 'f) arrow \<Rightarrow> rbatch \<Rightarrow> writer_properties \<Rightarrow> (compactor_error, 'f) result" where
  "encode_parquet L b props =
     ok_or (Option.bind (pw_new L (rb_schema b) props) (\<lambda>w.
       Option.bind (pw_write L w (rb_rows b)) (pw_close L))) CParquet"

definition batch_to_parquet :: "('w, 'f) arrow \<Rightarrow> rbatch \<Rightarrow> string list \<Rightarrow> (compactor_error, 'f) result" where
  "batch_to_parquet L b key = encode_parquet L b (sorted_writer_props (rb_schema b) key)"

definition batch_to_parquet_opts :: "('w, 'f) arrow \<Rightarrow> rbatch \<Rightarrow> string list \<Rightarrow> write_opts \<Rightarrow> (compactor_error, 'f) result" where
  "batch_to_parquet_opts L b key opts = encode_parquet L b (writer_props (rb_schema b) key opts)"

fun write_aligned :: "('w, 'f) arrow \<Rightarrow> nat \<Rightarrow> 'w \<Rightarrow> (i64 \<times> rbatch) list \<Rightarrow> 'w option" where
  "write_aligned L cap w [] = Some w"
| "write_aligned L cap w ((k, piece) # runs) =
     Option.bind (if pw_in_progress_rows L w > 0 \<and> pw_in_progress_rows L w + num_rows piece > cap
                  then pw_flush L w else Some w) (\<lambda>w1.
       Option.bind (pw_write L w1 (rb_rows piece)) (\<lambda>w2. write_aligned L cap w2 runs))"

definition batch_to_parquet_key_aligned ::
  "('w, 'f) arrow \<Rightarrow> rbatch \<Rightarrow> string \<Rightarrow> string list \<Rightarrow> write_opts \<Rightarrow> (compactor_error, 'f \<times> json option) result" where
  "batch_to_parquet_key_aligned L b packing key opts =
     rbind (ok_or (pw_new L (rb_schema b) (writer_props (rb_schema b) key opts)) CParquet) (\<lambda>w.
     rbind (split_by_key L b packing) (\<lambda>runs.
       ok_or (Option.bind (write_aligned L (wo_max_row_group_rows opts) w runs) (\<lambda>w1.
         Option.bind (pw_flush L w1) (\<lambda>w2.
           map_option (\<lambda>file. (file, key_row_groups (pw_row_groups L w2) packing)) (pw_close L w2)))) CParquet))"

record chunk_output =
  co_path :: string
  co_key_min :: i64
  co_key_max :: i64
  co_row_count :: i64
  co_size_bytes :: i64
  co_column_stats :: "json option"

record 'w open_output =
  of_writer :: 'w
  of_path :: string
  of_key_min :: i64
  of_key_max :: i64
  of_current_key :: i64
  of_rows :: i64
  of_stats :: stats_acc
  of_keys :: key_bitmap_acc
  of_packing_key :: string
  of_dedicated :: bool

text \<open>\<open>writer.write\<close> and \<open>writer.flush\<close> of the asynchronous writer: encode, then hand finished
  bytes to the upload.\<close>

definition async_step :: "'f wenv \<Rightarrow> 'w option \<Rightarrow> ('f, compactor_error, 'w) act" where
  "async_step we res =
     act_bind (act_lift (ok_or res CParquet)) (\<lambda>w. act_bind (act_io we (\<lambda>_. CParquet)) (\<lambda>_. act_return w))"

definition write_slice ::
  "'f wenv \<Rightarrow> ('w, 'f) arrow \<Rightarrow> 'w open_output \<Rightarrow> i64 \<Rightarrow> rbatch \<Rightarrow> ('f, compactor_error, 'w open_output) act" where
  "write_slice we L f key piece =
     act_bind (async_step we (pw_write L (of_writer f) (rb_rows piece))) (\<lambda>w.
       act_return (f\<lparr>of_writer := w, of_key_max := max (of_key_max f) key, of_current_key := key,
         of_rows := of_rows f + int (num_rows piece),
         of_stats := sa_update (ar_min L) (ar_max L) (of_stats f) (batch_of piece),
         of_keys := kb_update (of_keys f) (batch_of piece) (of_packing_key f)\<rparr>))"

definition encoded_size :: "('w, 'f) arrow \<Rightarrow> 'w open_output \<Rightarrow> nat" where
  "encoded_size L f = pw_encoded_size L (of_writer f)"

definition close_file :: "'f wenv \<Rightarrow> ('w, 'f) arrow \<Rightarrow> 'w open_output \<Rightarrow> ('f, compactor_error, chunk_output) act" where
  "close_file we L f =
     act_bind
       (if of_key_min f \<noteq> of_key_max f then
          act_bind (async_step we (pw_flush L (of_writer f))) (\<lambda>w.
            act_return (w, kb_finish (ar_ser L) (of_keys f), key_row_groups (pw_row_groups L w) (of_packing_key f)))
        else act_return (of_writer f, None, None)) (\<lambda>(w, bitmap, spans).
     act_bind (act_lift (ok_or (pw_close L w) CParquet)) (\<lambda>file.
     act_bind (act_put we (\<lambda>_. CParquet) (of_path f) file) (\<lambda>_.
     act_bind (act_head we CObjectStore (pq_size L) (of_path f)) (\<lambda>sz.
       act_return \<lparr>co_path = of_path f, co_key_min = of_key_min f, co_key_max = of_key_max f,
         co_row_count = of_rows f, co_size_bytes = int sz,
         co_column_stats = with_key_index (sa_finish (of_stats f)) bitmap spans\<rparr>))))"

record 'f chunk_writer =
  cw_schema :: schema
  cw_opts :: write_opts
  cw_placement :: placement
  cw_packing_key :: string
  cw_sort_key :: "string list"
  cw_next_path :: "('f, compactor_error, string) act"
  cw_on_open :: "string \<Rightarrow> ('f, compactor_error, unit) act"

text \<open>What \<open>write\<close> threads through: the open file, the outputs and \<open>last_closed_key\<close>.\<close>

record 'w write_state =
  ws_open :: "'w open_output option"
  ws_outputs :: "chunk_output list"
  ws_last_closed_key :: "i64 option"

definition open_file ::
  "('w, 'f) arrow \<Rightarrow> 'f chunk_writer \<Rightarrow> i64 \<Rightarrow> bool \<Rightarrow> ('f, compactor_error, 'w open_output) act" where
  "open_file L cw key dedicated =
     act_bind (cw_next_path cw) (\<lambda>pth.
     act_bind (cw_on_open cw pth) (\<lambda>_.
     act_bind (act_lift (ok_or (pw_new L (cw_schema cw) (writer_props (cw_schema cw) (cw_sort_key cw) (cw_opts cw))) CParquet))
       (\<lambda>w. act_return \<lparr>of_writer = w, of_path = pth, of_key_min = key, of_key_max = key, of_current_key = key,
         of_rows = 0, of_stats = sa_default, of_keys = kb_default, of_packing_key = cw_packing_key cw,
         of_dedicated = dedicated\<rparr>)))"

definition close_open ::
  "'f wenv \<Rightarrow> ('w, 'f) arrow \<Rightarrow> 'w open_output \<Rightarrow> 'w write_state \<Rightarrow> ('f, compactor_error, 'w write_state) act" where
  "close_open we L f st =
     act_bind (close_file we L f) (\<lambda>out.
       act_return (st\<lparr>ws_open := None, ws_last_closed_key := Some (of_current_key f), ws_outputs := ws_outputs st @ [out]\<rparr>))"

text \<open>\<open>*n as usize\<close>\<close>

definition target_usize :: "i64 \<Rightarrow> nat" where
  "target_usize n = nat (n mod 2 ^ 64)"

definition cut_before_key :: "('w, 'f) arrow \<Rightarrow> placement \<Rightarrow> 'w open_output \<Rightarrow> i64 \<Rightarrow> bool" where
  "cut_before_key L pl f k =
     (case pl of
        Packed \<Rightarrow> False
      | Separated \<Rightarrow> of_current_key f \<noteq> k
      | SizeTargeted n \<Rightarrow> of_current_key f \<noteq> k \<and> (encoded_size L f \<ge> target_usize n \<or> of_dedicated f))"

definition cut_after_slice :: "('w, 'f) arrow \<Rightarrow> placement \<Rightarrow> 'w open_output \<Rightarrow> bool" where
  "cut_after_slice L pl f = (case pl of SizeTargeted n \<Rightarrow> encoded_size L f \<ge> target_usize n | _ \<Rightarrow> False)"

text \<open>The loop over one key's run, from row \<open>start\<close>.\<close>

function consume_rows ::
  "'f wenv \<Rightarrow> ('w, 'f) arrow \<Rightarrow> 'f chunk_writer \<Rightarrow> i64 \<Rightarrow> rbatch \<Rightarrow> nat \<Rightarrow> 'w write_state
   \<Rightarrow> ('f, compactor_error, 'w write_state) act" where
  "consume_rows we L cw k run start st =
     (if start < num_rows run then
        let cap = max (wo_max_row_group_rows (cw_opts cw)) 1;
            n = min (num_rows run - start) cap
        in act_bind (case ws_open st of
                       None \<Rightarrow> open_file L cw k (ws_last_closed_key st = Some k)
                     | Some f \<Rightarrow> act_return f) (\<lambda>f.
           act_bind (if pw_in_progress_rows L (of_writer f) > 0 \<and>
                        pw_in_progress_rows L (of_writer f) + (num_rows run - start) > cap
                     then act_bind (async_step we (pw_flush L (of_writer f))) (\<lambda>w. act_return (f\<lparr>of_writer := w\<rparr>))
                     else act_return f) (\<lambda>f1.
           act_bind (write_slice we L f1 k (batch_slice run start n)) (\<lambda>f2.
           act_bind (if cut_after_slice L (cw_placement cw) f2 then close_open we L f2 (st\<lparr>ws_open := Some f2\<rparr>)
                     else act_return (st\<lparr>ws_open := Some f2\<rparr>)) (\<lambda>st2.
             consume_rows we L cw k run (start + n) st2))))
      else act_return st)"
  by pat_completeness auto
termination
  by (relation "measure (\<lambda>(we, L, cw, k, run, start, st). num_rows run - start)") auto

definition consume_key_run ::
  "'f wenv \<Rightarrow> ('w, 'f) arrow \<Rightarrow> 'f chunk_writer \<Rightarrow> i64 \<Rightarrow> rbatch \<Rightarrow> 'w write_state
   \<Rightarrow> ('f, compactor_error, 'w write_state) act" where
  "consume_key_run we L cw k run st =
     act_bind (case ws_open st of
                 Some f \<Rightarrow> if cut_before_key L (cw_placement cw) f k then close_open we L f st else act_return st
               | None \<Rightarrow> act_return st) (\<lambda>st1.
       consume_rows we L cw k run 0 st1)"

fun consume_runs ::
  "'f wenv \<Rightarrow> ('w, 'f) arrow \<Rightarrow> 'f chunk_writer \<Rightarrow> (i64 \<times> rbatch) list \<Rightarrow> 'w write_state
   \<Rightarrow> ('f, compactor_error, 'w write_state) act" where
  "consume_runs we L cw [] st = act_return st"
| "consume_runs we L cw ((k, run) # runs) st =
     act_bind (consume_key_run we L cw k run st) (consume_runs we L cw runs)"

fun write_batches ::
  "'f wenv \<Rightarrow> ('w, 'f) arrow \<Rightarrow> 'f chunk_writer \<Rightarrow> batch_stream \<Rightarrow> 'w write_state
   \<Rightarrow> ('f, compactor_error, 'w write_state) act" where
  "write_batches we L cw [] st = act_return st"
| "write_batches we L cw (r # rest) st =
     act_bind (act_lift r) (\<lambda>b.
     act_bind (act_lift (split_by_key L b (cw_packing_key cw))) (\<lambda>runs.
     act_bind (consume_runs we L cw runs st) (write_batches we L cw rest)))"

definition write_chunks ::
  "'f wenv \<Rightarrow> ('w, 'f) arrow \<Rightarrow> 'f chunk_writer \<Rightarrow> batch_stream \<Rightarrow> ('f, compactor_error, chunk_output list) act" where
  "write_chunks we L cw stream =
     act_bind (write_batches we L cw stream \<lparr>ws_open = None, ws_outputs = [], ws_last_closed_key = None\<rparr>) (\<lambda>st.
       case ws_open st of
         None \<Rightarrow> act_return (ws_outputs st)
       | Some f \<Rightarrow> act_bind (close_file we L f) (\<lambda>out. act_return (ws_outputs st @ [out])))"

section \<open>Splitting by key\<close>

definition row_key :: "('w, 'f) arrow \<Rightarrow> nat \<Rightarrow> cells \<Rightarrow> i64" where
  "row_key L i r = key_value L (cell_i64 (r ! i))"

definition run_of :: "('w, 'f) arrow \<Rightarrow> nat \<Rightarrow> schema \<Rightarrow> i64 \<times> rbatch \<Rightarrow> bool" where
  "run_of L i s kr \<longleftrightarrow> rb_schema (snd kr) = s \<and> rb_rows (snd kr) \<noteq> [] \<and>
     (\<forall>r \<in> set (rb_rows (snd kr)). row_key L i r = fst kr)"

lemma int64_array_Inr:
  "int64_array b packing = Inr ks \<longleftrightarrow> (\<exists>i. index_of (rb_schema b) packing = Some i \<and>
     f_type (rb_schema b ! i) = Int64 \<and> ks = map (\<lambda>r. cell_i64 (r ! i)) (rb_rows b))"
  by (auto simp: int64_array_def rbind_eq_Inr_iff)

lemma split_loop:
  assumes ks: "ks = map (row_key L i) (rb_rows b)" and "j \<le> length ks"
    and "foldl (split_step ks b) ([], 0) [1..<Suc j] = (out, start)"
  shows "start \<le> j \<and> concat (map (rb_rows \<circ> snd) out) = take start (rb_rows b) \<and>
    (\<forall>x. start \<le> x \<and> x \<le> j \<and> x < length ks \<longrightarrow> ks ! x = ks ! start) \<and>
    (\<forall>kr \<in> set out. run_of L i (rb_schema b) kr) \<and> (j = length ks \<longrightarrow> start = length ks) \<and>
    successively (\<noteq>) (map fst out) \<and> (out \<noteq> [] \<and> start < length ks \<longrightarrow> fst (last out) \<noteq> ks ! start)"
  using assms(2,3)
proof (induction j arbitrary: out start)
  case 0
  then show ?case by auto
next
  case (Suc j)
  obtain out' start' where p: "foldl (split_step ks b) ([], 0) [1..<Suc j] = (out', start')" by (rule prod.exhaust)
  from Suc.prems(1) have "j \<le> length ks" by simp
  from Suc.IH [OF this p] have ih: "start' \<le> j" "concat (map (rb_rows \<circ> snd) out') = take start' (rb_rows b)"
    "\<forall>x. start' \<le> x \<and> x \<le> j \<and> x < length ks \<longrightarrow> ks ! x = ks ! start'"
    "\<forall>kr \<in> set out'. run_of L i (rb_schema b) kr" "successively (\<noteq>) (map fst out')"
    "out' \<noteq> [] \<and> start' < length ks \<longrightarrow> fst (last out') \<noteq> ks ! start'" by blast+
  have "[1..<Suc (Suc j)] = [1..<Suc j] @ [Suc j]" by simp
  then have step: "(out, start) = split_step ks b (out', start') (Suc j)"
    using Suc.prems(2) p by (simp only: foldl_append foldl.simps)
  show ?case
  proof (cases "Suc j = length ks \<or> ks ! Suc j \<noteq> ks ! start'")
    case False
    with step have eq: "out = out'" "start = start'" by (auto simp: split_step_def)
    have all: "\<forall>x. start' \<le> x \<and> x \<le> Suc j \<and> x < length ks \<longrightarrow> ks ! x = ks ! start'"
      using ih(3) False le_Suc_eq by blast
    show ?thesis unfolding eq using ih(1,2,4-6) False by (intro conjI all) (auto simp: comp_def)
  next
    case True
    let ?run = "batch_slice b start' (Suc j - start')"
    from True step have o: "out = out' @ [(ks ! start', ?run)]" "start = Suc j" by (auto simp: split_step_def)
    have len: "length ks = length (rb_rows b)" using ks by simp
    have "row_key L i r = ks ! start'" if "r \<in> set (rb_rows ?run)" for r
    proof -
      from that obtain y where y: "y < Suc j - start'" "start' + y < length ks" "r = rb_rows b ! (start' + y)"
        by (auto simp: batch_slice_def len in_set_conv_nth)
      then have "row_key L i r = ks ! (start' + y)" by (simp add: ks)
      moreover have "start' \<le> start' + y \<and> start' + y \<le> j \<and> start' + y < length ks" using y by simp
      then have "ks ! (start' + y) = ks ! start'" using ih(3) by blast
      ultimately show ?thesis by simp
    qed
    moreover have "rb_rows ?run \<noteq> []" using ih(1) Suc.prems(1) len by (simp add: batch_slice_def)
    ultimately have "run_of L i (rb_schema b) (ks ! start', ?run)" by (simp add: run_of_def)
    moreover have "take (Suc j) (rb_rows b) = take start' (rb_rows b) @ rb_rows ?run"
      using ih(1) take_add [of start' "Suc j - start'" "rb_rows b"] by (simp add: batch_slice_def)
    moreover have "start' < length ks" using ih(1) Suc.prems(1) by simp
    then have "successively (\<noteq>) (map fst out)"
      using ih(5,6) o by (auto simp: successively_append_iff last_map)
    moreover have "fst (last out) \<noteq> ks ! start" if "start < length ks" using o True that by simp
    ultimately show ?thesis using ih(2,4) o(2) Suc.prems(1) by (auto simp: o(1) comp_def dest: le_antisym)
  qed
qed

lemma split_by_key_Inr:
  assumes "split_by_key L b packing = Inr runs"
  shows "\<exists>i. index_of (rb_schema b) packing = Some i \<and> f_type (rb_schema b ! i) = Int64 \<and>
    concat (map (rb_rows \<circ> snd) runs) = rb_rows b \<and> (\<forall>kr \<in> set runs. run_of L i (rb_schema b) kr) \<and>
    successively (\<noteq>) (map fst runs)"
proof -
  from assms obtain i where i: "index_of (rb_schema b) packing = Some i" "f_type (rb_schema b ! i) = Int64"
    and r: "runs = fst (foldl (split_step (map (row_key L i) (rb_rows b)) b) ([], 0) [1..<Suc (num_rows b)])"
    by (auto simp: split_by_key_def rbind_eq_Inr_iff int64_array_Inr Let_def row_key_def [abs_def] num_rows_def comp_def simp del: upt_Suc)
  obtain start where "foldl (split_step (map (row_key L i) (rb_rows b)) b) ([], 0) [1..<Suc (num_rows b)] = (runs, start)"
    using r by (metis prod.collapse)
  from split_loop [OF refl _ this] i show ?thesis by (auto simp: num_rows_def)
qed

lemma split_by_key_ok:
  "index_of (rb_schema b) packing = Some i \<Longrightarrow> f_type (rb_schema b ! i) = Int64 \<Longrightarrow> \<exists>runs. split_by_key L b packing = Inr runs"
  by (simp add: split_by_key_def int64_array_def Let_def)

section \<open>The streaming chunk writer\<close>

definition file_rows :: "('w, 'f) arrow \<Rightarrow> 'f \<Rightarrow> cells list" where
  "file_rows L f = concat (pq_groups L f)"

text \<open>The column statistics and key index of a set of rows, written in pieces.\<close>

definition accumulates ::
  "('w, 'f) arrow \<Rightarrow> schema \<Rightarrow> string \<Rightarrow> cells list \<Rightarrow> stats_acc \<Rightarrow> key_bitmap_acc \<Rightarrow> bool" where
  "accumulates L s packing rs sa kb \<longleftrightarrow> (\<exists>pieces. concat pieces = rs \<and>
     sa = foldl (sa_update (ar_min L) (ar_max L)) sa_default (map (\<lambda>p. batch_of \<lparr>rb_schema = s, rb_rows = p\<rparr>) pieces) \<and>
     kb = foldl (\<lambda>acc b. kb_update acc b packing) kb_default (map (\<lambda>p. batch_of \<lparr>rb_schema = s, rb_rows = p\<rparr>) pieces))"

text \<open>The keys a file's metadata records: the first, the greatest and the last.\<close>

definition keyed :: "('w, 'f) arrow \<Rightarrow> nat \<Rightarrow> cells list \<Rightarrow> i64 \<Rightarrow> i64 \<Rightarrow> i64 \<Rightarrow> bool" where
  "keyed L i rs mn mx cur \<longleftrightarrow>
     (if rs = [] then mn = mx \<and> cur = mx
      else mn = row_key L i (hd rs) \<and> mx = Max (row_key L i ` set rs) \<and> cur = row_key L i (last rs))"

definition file_ok :: "('w, 'f) arrow \<Rightarrow> 'f chunk_writer \<Rightarrow> nat \<Rightarrow> 'w open_output \<Rightarrow> bool" where
  "file_ok L cw i f \<longleftrightarrow> pw_schema L (of_writer f) = cw_schema cw \<and> of_packing_key f = cw_packing_key cw \<and>
     of_rows f = int (length (pw_rows L (of_writer f))) \<and>
     accumulates L (cw_schema cw) (cw_packing_key cw) (pw_rows L (of_writer f)) (of_stats f) (of_keys f) \<and>
     keyed L i (pw_rows L (of_writer f)) (of_key_min f) (of_key_max f) (of_current_key f)"

text \<open>What the catalog metadata of an output says of the stored file.\<close>

definition output_stats_ok :: "('w, 'f) arrow \<Rightarrow> 'f chunk_writer \<Rightarrow> chunk_output \<Rightarrow> 'f \<Rightarrow> bool" where
  "output_stats_ok L cw out f \<longleftrightarrow> (\<exists>sa kb rgs bitmap spans.
     accumulates L (cw_schema cw) (cw_packing_key cw) (file_rows L f) sa kb \<and>
     list_all2 (group_stats_ok (cw_schema cw)) rgs (pq_groups L f) \<and>
     (bitmap, spans) \<in> {(None, None), (kb_finish (ar_ser L) kb, key_row_groups rgs (cw_packing_key cw))} \<and>
     co_column_stats out = with_key_index (sa_finish sa) bitmap spans)"

definition chunk_ok :: "('w, 'f) arrow \<Rightarrow> 'f chunk_writer \<Rightarrow> nat \<Rightarrow> chunk_output \<Rightarrow> 'f \<Rightarrow> bool" where
  "chunk_ok L cw i out f \<longleftrightarrow> file_rows L f \<noteq> [] \<and> co_row_count out = int (length (file_rows L f)) \<and>
     co_key_min out = row_key L i (hd (file_rows L f)) \<and> co_key_max out = Max (row_key L i ` set (file_rows L f)) \<and>
     (\<exists>bs. pq_open L f = Some (cw_schema cw, map Some bs) \<and> concat bs = file_rows L f) \<and> output_stats_ok L cw out f"

text \<open>How the placement policy shapes consecutive files.\<close>

definition single_key :: "('w, 'f) arrow \<Rightarrow> nat \<Rightarrow> cells list \<Rightarrow> bool" where
  "single_key L i rs \<longleftrightarrow> (\<exists>k. \<forall>r \<in> set rs. row_key L i r = k)"

definition shaped :: "('w, 'f) arrow \<Rightarrow> nat \<Rightarrow> placement \<Rightarrow> cells list list \<Rightarrow> bool" where
  "shaped L i pl rss \<longleftrightarrow>
     (case pl of
        Packed \<Rightarrow> length rss \<le> 1
      | Separated \<Rightarrow> (\<forall>rs \<in> set rss. single_key L i rs) \<and>
          successively (\<lambda>a b. row_key L i (last a) \<noteq> row_key L i (hd b)) rss
      | SizeTargeted _ \<Rightarrow>
          successively (\<lambda>a b. row_key L i (last a) = row_key L i (hd b) \<longrightarrow> single_key L i b) rss)"

definition all_rows :: "('w, 'f) arrow \<Rightarrow> 'f list \<Rightarrow> 'w write_state \<Rightarrow> cells list list" where
  "all_rows L files st = map (file_rows L) files @ (case ws_open st of None \<Rightarrow> [] | Some f \<Rightarrow> [pw_rows L (of_writer f)])"

definition last_key :: "('w, 'f) arrow \<Rightarrow> nat \<Rightarrow> 'f list \<Rightarrow> i64 option" where
  "last_key L i files = (if files = [] then None else Some (row_key L i (last (file_rows L (last files)))))"

definition ws_ok ::
  "('w, 'f) arrow \<Rightarrow> 'f chunk_writer \<Rightarrow> nat \<Rightarrow> (string \<times> 'f) list \<Rightarrow> cells list \<Rightarrow> 'f world \<Rightarrow> 'w write_state \<Rightarrow> bool" where
  "ws_ok L cw i ups rs w st \<longleftrightarrow> (\<exists>files.
     w_uploads w = ups @ zip (map co_path (ws_outputs st)) files \<and> list_all2 (chunk_ok L cw i) (ws_outputs st) files \<and>
     concat (all_rows L files st) = rs \<and> [] \<notin> set (all_rows L files st) \<and> shaped L i (cw_placement cw) (all_rows L files st) \<and>
     ws_last_closed_key st = last_key L i files \<and>
     (\<forall>f. ws_open st = Some f \<longrightarrow> file_ok L cw i f \<and> of_dedicated f = (last_key L i files = Some (of_key_min f))))"

text \<open>The library and the closures of the writer.\<close>

definition cw_env :: "('w, 'f) arrow \<Rightarrow> 'f chunk_writer \<Rightarrow> nat \<Rightarrow> bool" where
  "cw_env L cw i \<longleftrightarrow> writer_ok L \<and> index_of (cw_schema cw) (cw_packing_key cw) = Some i \<and>
     (\<forall>w w' r. cw_next_path cw w = (w', r) \<longrightarrow> w_uploads w' = w_uploads w) \<and>
     (\<forall>p w w' r. cw_on_open cw p w = (w', r) \<longrightarrow> w_uploads w' = w_uploads w)"

lemma writer_okD:
  assumes "writer_ok L"
  shows "pw_new L s p = Some w \<Longrightarrow> pw_rows L w = [] \<and> pw_schema L w = s"
    "pw_write L w rs = Some w' \<Longrightarrow> pw_rows L w' = pw_rows L w @ rs \<and> pw_schema L w' = pw_schema L w"
    "pw_flush L w = Some w' \<Longrightarrow> pw_rows L w' = pw_rows L w \<and> pw_groups L w' = closed_groups L w \<and> pw_open L w' = [] \<and>
       pw_schema L w' = pw_schema L w"
    "pw_close L w = Some f \<Longrightarrow> pq_groups L f = closed_groups L w \<and> file_rows L f = pw_rows L w \<and>
       (\<exists>bs. pq_open L f = Some (pw_schema L w, map Some bs) \<and> concat bs = pw_rows L w)"
    "list_all2 (group_stats_ok (pw_schema L w)) (pw_row_groups L w) (pw_groups L w)"
  using assms by (auto simp: writer_ok_def pw_rows_def file_rows_def)

lemma accumulates_Nil: "accumulates L s packing [] sa_default kb_default"
  unfolding accumulates_def by (rule exI [of _ "[]"]) simp

lemma accumulates_snoc:
  assumes "accumulates L s packing rs sa kb"
  shows "accumulates L s packing (rs @ p) (sa_update (ar_min L) (ar_max L) sa (batch_of \<lparr>rb_schema = s, rb_rows = p\<rparr>))
    (kb_update kb (batch_of \<lparr>rb_schema = s, rb_rows = p\<rparr>) packing)"
proof -
  from assms obtain ps where "concat ps = rs"
    "sa = foldl (sa_update (ar_min L) (ar_max L)) sa_default (map (\<lambda>p. batch_of \<lparr>rb_schema = s, rb_rows = p\<rparr>) ps)"
    "kb = foldl (\<lambda>acc b. kb_update acc b packing) kb_default (map (\<lambda>p. batch_of \<lparr>rb_schema = s, rb_rows = p\<rparr>) ps)"
    by (auto simp: accumulates_def)
  then show ?thesis unfolding accumulates_def by (intro exI [of _ "ps @ [p]"]) simp
qed

lemma keyed_snoc:
  assumes "keyed L i rs mn mx cur" "p \<noteq> []" "\<forall>r \<in> set p. row_key L i r = k" "rs = [] \<longrightarrow> mn = k"
  shows "keyed L i (rs @ p) mn (max mx k) k"
proof -
  have p: "row_key L i ` set p = {k}" using assms(2,3) by (auto simp: image_iff neq_Nil_conv)
  have h: "row_key L i (hd p) = k" "row_key L i (last p) = k" using assms(2,3) by auto
  show ?thesis
  proof (cases "rs = []")
    case True
    with assms p h show ?thesis by (auto simp: keyed_def)
  next
    case False
    then have "Max (row_key L i ` set (rs @ p)) = max (Max (row_key L i ` set rs)) k"
      using p by (simp add: image_Un Max.union)
    with False assms h show ?thesis by (simp add: keyed_def)
  qed
qed

lemma async_step_Inr:
  "async_step we res w = (w', Inr x) \<Longrightarrow> res = Some x \<and> w_uploads w' = w_uploads w"
  by (auto simp: async_step_def act_bind_Inr act_io_Inr)

lemma write_slice_Inr:
  assumes "write_slice we L f k b w = (w', Inr f')" "file_ok L cw i f" "writer_ok L"
    and "run_of L i (cw_schema cw) (k, b)" "pw_rows L (of_writer f) = [] \<longrightarrow> of_key_min f = k"
  shows "file_ok L cw i f' \<and> pw_rows L (of_writer f') = pw_rows L (of_writer f) @ rb_rows b \<and> w_uploads w' = w_uploads w \<and>
    of_current_key f' = k \<and> of_key_min f' = of_key_min f \<and> of_path f' = of_path f \<and> of_dedicated f' = of_dedicated f"
proof -
  from assms(1) obtain x where x: "pw_write L (of_writer f) (rb_rows b) = Some x" "w_uploads w' = w_uploads w"
    and f': "f' = f\<lparr>of_writer := x, of_key_max := max (of_key_max f) k, of_current_key := k,
         of_rows := of_rows f + int (num_rows b),
         of_stats := sa_update (ar_min L) (ar_max L) (of_stats f) (batch_of b),
         of_keys := kb_update (of_keys f) (batch_of b) (of_packing_key f)\<rparr>"
    by (auto simp: write_slice_def act_bind_Inr dest!: async_step_Inr)
  note rows = writer_okD(2) [OF assms(3) x(1)]
  have b: "b = \<lparr>rb_schema = cw_schema cw, rb_rows = rb_rows b\<rparr>" using assms(4) by (cases b) (simp add: run_of_def)
  have "keyed L i (pw_rows L (of_writer f) @ rb_rows b) (of_key_min f) (max (of_key_max f) k) k"
    using assms(2,4,5) by (intro keyed_snoc) (auto simp: file_ok_def run_of_def)
  moreover have "accumulates L (cw_schema cw) (cw_packing_key cw) (pw_rows L (of_writer f) @ rb_rows b)
      (sa_update (ar_min L) (ar_max L) (of_stats f) (batch_of b)) (kb_update (of_keys f) (batch_of b) (cw_packing_key cw))"
    using assms(2) by (subst (2 3) b, intro accumulates_snoc) (simp add: file_ok_def)
  ultimately show ?thesis using assms(2) rows x(2) by (simp add: f' file_ok_def num_rows_def)
qed

lemma open_file_Inr:
  assumes "open_file L cw k d w = (w', Inr f)" "cw_env L cw i"
  shows "file_ok L cw i f \<and> pw_rows L (of_writer f) = [] \<and> w_uploads w' = w_uploads w \<and> of_key_min f = k \<and> of_dedicated f = d"
proof -
  from assms(1) obtain p w1 w2 x where s: "cw_next_path cw w = (w1, Inr p)" "cw_on_open cw p w1 = (w2, Inr ())" "w' = w2"
    and x: "pw_new L (cw_schema cw) (writer_props (cw_schema cw) (cw_sort_key cw) (cw_opts cw)) = Some x"
    and f: "f = \<lparr>of_writer = x, of_path = p, of_key_min = k, of_key_max = k, of_current_key = k,
         of_rows = 0, of_stats = sa_default, of_keys = kb_default, of_packing_key = cw_packing_key cw, of_dedicated = d\<rparr>"
    by (auto simp: open_file_def act_bind_Inr)
  have ok: "writer_ok L" and "w_uploads w' = w_uploads w" using s assms(2) unfolding cw_env_def by (blast, metis)
  with writer_okD(1) [OF ok x] show ?thesis by (simp add: f file_ok_def keyed_def accumulates_Nil)
qed

lemma close_file_Inr:
  assumes "close_file we L f w = (w', Inr out)" "file_ok L cw i f" "writer_ok L" "pw_rows L (of_writer f) \<noteq> []"
  shows "\<exists>pq. w_uploads w' = w_uploads w @ [(co_path out, pq)] \<and> chunk_ok L cw i out pq \<and>
    file_rows L pq = pw_rows L (of_writer f)"
proof -
  define multi where "multi \<longleftrightarrow> of_key_min f \<noteq> of_key_max f"
  define first where "first = (if multi then act_bind (async_step we (pw_flush L (of_writer f))) (\<lambda>x.
      act_return (x, kb_finish (ar_ser L) (of_keys f), key_row_groups (pw_row_groups L x) (of_packing_key f)))
    else act_return (of_writer f, None, None))"
  from assms(1) obtain w1 x bitmap spans pq w2 sz
    where first: "first w = (w1, Inr (x, bitmap, spans))" and pq: "pw_close L x = Some pq"
    and put: "act_put we (\<lambda>_. CParquet) (of_path f) pq w1 = (w2, Inr ())"
    and h: "act_head we CObjectStore (pq_size L) (of_path f) w2 = (w', Inr sz)"
    and out: "out = \<lparr>co_path = of_path f, co_key_min = of_key_min f, co_key_max = of_key_max f,
         co_row_count = of_rows f, co_size_bytes = int sz,
         co_column_stats = with_key_index (sa_finish (of_stats f)) bitmap spans\<rparr>"
    unfolding close_file_def act_bind_Inr multi_def [symmetric] first_def [symmetric] by (auto simp: act_bind_Inr)
  have s: "multi \<longrightarrow> pw_flush L (of_writer f) = Some x \<and> bitmap = kb_finish (ar_ser L) (of_keys f) \<and>
        spans = key_row_groups (pw_row_groups L x) (of_packing_key f)"
      "\<not> multi \<longrightarrow> x = of_writer f \<and> bitmap = None \<and> spans = None" "w_uploads w1 = w_uploads w"
    using first by (auto simp: first_def act_bind_Inr split: if_splits dest!: async_step_Inr)
  have stored: "pw_close L x = Some pq" "w_uploads w' = w_uploads w @ [(of_path f, pq)]"
    using pq put act_head_uploads [OF h] s(3) by (auto simp: act_put_Inr)
  have same: "pw_rows L x = pw_rows L (of_writer f)" "pw_schema L x = cw_schema cw"
    using s(1,2) assms(2) writer_okD(3) [OF assms(3)] by (cases multi; force simp: file_ok_def)+
  note c = writer_okD(4) [OF assms(3) stored(1)]
  have "\<exists>rgs. list_all2 (group_stats_ok (cw_schema cw)) rgs (pq_groups L pq) \<and>
      (bitmap, spans) \<in> {(None, None), (kb_finish (ar_ser L) (of_keys f), key_row_groups rgs (cw_packing_key cw))}"
  proof (cases multi)
    case True
    with s(1) have fl: "pw_flush L (of_writer f) = Some x" by blast
    have "closed_groups L x = pw_groups L x" using writer_okD(3) [OF assms(3) fl] by (simp add: closed_groups_def)
    with c writer_okD(5) [OF assms(3), of x] same(2)
    have "list_all2 (group_stats_ok (cw_schema cw)) (pw_row_groups L x) (pq_groups L pq)" by simp
    with True s(1) assms(2) show ?thesis by (auto simp: file_ok_def)
  next
    case False
    have "\<exists>rgs. list_all2 (group_stats_ok (cw_schema cw)) rgs gs" for gs
      by (rule exI [of _ "map (\<lambda>_. []) gs"]) (simp add: list_all2_conv_all_nth group_stats_ok_def)
    with False s(2) show ?thesis by auto
  qed
  then obtain rgs where "list_all2 (group_stats_ok (cw_schema cw)) rgs (pq_groups L pq)"
    "(bitmap, spans) \<in> {(None, None), (kb_finish (ar_ser L) (of_keys f), key_row_groups rgs (cw_packing_key cw))}" by blast
  moreover have "accumulates L (cw_schema cw) (cw_packing_key cw) (file_rows L pq) (of_stats f) (of_keys f)"
    using assms(2) c same(1) by (simp add: file_ok_def)
  ultimately have "output_stats_ok L cw out pq"
    unfolding output_stats_ok_def out chunk_output.simps by blast
  then show ?thesis using stored c same assms(2,4)
    by (intro exI [of _ pq]) (auto simp: chunk_ok_def out file_ok_def keyed_def)
qed

lemma all_rows_simps [simp]:
  "ws_open st = None \<Longrightarrow> all_rows L files st = map (file_rows L) files"
  "ws_open st = Some f \<Longrightarrow> all_rows L files st = map (file_rows L) files @ [pw_rows L (of_writer f)]"
  by (simp_all add: all_rows_def)

lemma ws_okE:
  assumes "ws_ok L cw i ups rs w st"
  obtains files where "w_uploads w = ups @ zip (map co_path (ws_outputs st)) files"
    "list_all2 (chunk_ok L cw i) (ws_outputs st) files" "concat (all_rows L files st) = rs" "[] \<notin> set (all_rows L files st)"
    "shaped L i (cw_placement cw) (all_rows L files st)" "ws_last_closed_key st = last_key L i files"
    "\<And>f. ws_open st = Some f \<Longrightarrow> file_ok L cw i f \<and> of_dedicated f = (last_key L i files = Some (of_key_min f))"
  using assms by (auto simp: ws_ok_def)

lemma ws_ok_open:
  assumes "ws_ok L cw i ups rs w st" "ws_open st = Some f"
  shows "file_ok L cw i f \<and> pw_rows L (of_writer f) \<noteq> []"
proof -
  from assms(1) obtain files where "[] \<notin> set (all_rows L files st)" "file_ok L cw i f"
    using assms(2) by (elim ws_okE) blast
  with assms(2) show ?thesis by auto
qed

text \<open>Closing the open file turns its rows into those of a stored object.\<close>

lemma close_open_Inr:
  assumes "close_open we L f st w = (w', Inr st')" "ws_ok L cw i ups rs w st" "ws_open st = Some f" "writer_ok L"
  shows "ws_ok L cw i ups rs w' st' \<and> ws_open st' = None \<and> ws_last_closed_key st' = Some (of_current_key f)"
proof -
  from assms(1) obtain out where c: "close_file we L f w = (w', Inr out)"
    and st': "st' = st\<lparr>ws_open := None, ws_last_closed_key := Some (of_current_key f), ws_outputs := ws_outputs st @ [out]\<rparr>"
    by (auto simp: close_open_def act_bind_Inr)
  from assms(2) obtain files where f: "w_uploads w = ups @ zip (map co_path (ws_outputs st)) files"
    "list_all2 (chunk_ok L cw i) (ws_outputs st) files" "concat (all_rows L files st) = rs" "[] \<notin> set (all_rows L files st)"
    "shaped L i (cw_placement cw) (all_rows L files st)" "file_ok L cw i f"
    using assms(3) by (elim ws_okE) blast
  then have ne: "pw_rows L (of_writer f) \<noteq> []" using assms(3) by auto
  from close_file_Inr [OF c f(6) assms(4) ne] obtain pq where pq: "w_uploads w' = w_uploads w @ [(co_path out, pq)]"
    "chunk_ok L cw i out pq" "file_rows L pq = pw_rows L (of_writer f)" by blast
  have "all_rows L (files @ [pq]) st' = all_rows L files st" using assms(3) pq(3) by (simp add: st')
  moreover have "last_key L i (files @ [pq]) = Some (of_current_key f)"
    using f(6) ne pq(3) by (simp add: last_key_def file_ok_def keyed_def)
  moreover have "length files = length (ws_outputs st)" using f(2) by (simp add: list_all2_lengthD)
  ultimately have "ws_ok L cw i ups rs w' st'"
    unfolding ws_ok_def using f pq(1,2) by (intro exI [of _ "files @ [pq]"]) (simp add: st' list_all2_appendI)
  then show ?thesis by (simp add: st')
qed

text \<open>The file a run of key \<open>k\<close> may go on with.\<close>

definition ready_for :: "placement \<Rightarrow> i64 \<Rightarrow> 'w write_state \<Rightarrow> bool" where
  "ready_for pl k st \<longleftrightarrow> (pl = Packed \<longrightarrow> ws_last_closed_key st = None) \<and>
     (case ws_open st of
        None \<Rightarrow> pl = Separated \<longrightarrow> ws_last_closed_key st \<noteq> Some k
      | Some f \<Rightarrow> (pl = Separated \<longrightarrow> of_current_key f = k) \<and>
          ((\<exists>n. pl = SizeTargeted n) \<and> of_dedicated f \<longrightarrow> of_current_key f = k))"

lemma single_key_snoc:
  "single_key L i rs \<Longrightarrow> \<forall>r \<in> set p. row_key L i r = k \<Longrightarrow> (rs \<noteq> [] \<Longrightarrow> row_key L i (last rs) = k) \<Longrightarrow> single_key L i (rs @ p)"
  unfolding single_key_def by (cases "rs = []") (force, metis UnE last_in_set set_append)

lemma shaped_extend:
  assumes "shaped L i pl (xs @ [rs])" "p \<noteq> []" "\<forall>r \<in> set p. row_key L i r = k" "rs \<noteq> []"
    and "pl = Separated \<longrightarrow> row_key L i (last rs) = k"
    and "(\<exists>n. pl = SizeTargeted n) \<and> xs \<noteq> [] \<and> row_key L i (last (last xs)) = row_key L i (hd rs) \<longrightarrow> row_key L i (last rs) = k"
  shows "shaped L i pl (xs @ [rs @ p])"
  using assms by (cases pl) (auto simp: shaped_def successively_append_iff intro: single_key_snoc)

lemma shaped_new:
  assumes "shaped L i pl xs" "p \<noteq> []" "\<forall>r \<in> set p. row_key L i r = k"
    and "pl = Packed \<longrightarrow> xs = []" "pl = Separated \<and> xs \<noteq> [] \<longrightarrow> row_key L i (last (last xs)) \<noteq> k"
  shows "shaped L i pl (xs @ [p])"
proof -
  have "row_key L i (hd p) = k" "single_key L i p" using assms(2,3) by (force simp: single_key_def)+
  with assms show ?thesis by (cases pl) (auto simp: shaped_def successively_append_iff)
qed

text \<open>The rows of the open file, when there is one, and its keys.\<close>

definition continues :: "('w, 'f) arrow \<Rightarrow> i64 \<Rightarrow> 'w write_state \<Rightarrow> 'w open_output \<Rightarrow> bool" where
  "continues L k st f \<longleftrightarrow>
     (case ws_open st of
        None \<Rightarrow> pw_rows L (of_writer f) = [] \<and> of_key_min f = k \<and> of_dedicated f = (ws_last_closed_key st = Some k)
      | Some f0 \<Rightarrow> pw_rows L (of_writer f) = pw_rows L (of_writer f0) \<and> of_key_min f = of_key_min f0 \<and>
          of_dedicated f = of_dedicated f0 \<and> of_current_key f = of_current_key f0)"

lemma flush_file_ok:
  "file_ok L cw i f \<Longrightarrow> writer_ok L \<Longrightarrow> pw_flush L (of_writer f) = Some x \<Longrightarrow>
    file_ok L cw i (f\<lparr>of_writer := x\<rparr>) \<and> pw_rows L x = pw_rows L (of_writer f)"
  by (drule (1) writer_okD(3)) (simp add: file_ok_def)

lemma last_key_None [simp]: "last_key L i files = None \<longleftrightarrow> files = []"
  by (simp add: last_key_def)

lemma ws_ok_write:
  assumes ok: "ws_ok L cw i ups rs w st" and ready: "ready_for (cw_placement cw) k st"
    and c: "continues L k st f1" and f2: "file_ok L cw i f2" "pw_rows L (of_writer f2) = pw_rows L (of_writer f1) @ p"
      "of_key_min f2 = of_key_min f1" "of_current_key f2 = k" "of_dedicated f2 = of_dedicated f1"
    and p: "p \<noteq> []" "\<forall>r \<in> set p. row_key L i r = k" and up: "w_uploads w' = w_uploads w"
  shows "ws_ok L cw i ups (rs @ p) w' (st\<lparr>ws_open := Some f2\<rparr>) \<and> ready_for (cw_placement cw) k (st\<lparr>ws_open := Some f2\<rparr>)"
proof -
  let ?st = "st\<lparr>ws_open := Some f2\<rparr>" and ?pl = "cw_placement cw"
  from ok obtain files where f: "w_uploads w = ups @ zip (map co_path (ws_outputs st)) files"
    "list_all2 (chunk_ok L cw i) (ws_outputs st) files" "concat (all_rows L files st) = rs" "[] \<notin> set (all_rows L files st)"
    "shaped L i ?pl (all_rows L files st)" "ws_last_closed_key st = last_key L i files"
    "\<And>f. ws_open st = Some f \<Longrightarrow> file_ok L cw i f \<and> of_dedicated f = (last_key L i files = Some (of_key_min f))"
    by (elim ws_okE) blast
  let ?xs = "map (file_rows L) files"
  have lk: "last_key L i files = Some k' \<longleftrightarrow> ?xs \<noteq> [] \<and> row_key L i (last (last ?xs)) = k'" for k'
    by (auto simp: last_key_def last_map)
  have goals: "concat (all_rows L files ?st) = rs @ p \<and> [] \<notin> set (all_rows L files ?st) \<and>
      shaped L i ?pl (all_rows L files ?st) \<and> of_dedicated f2 = (last_key L i files = Some (of_key_min f2))"
  proof (cases "ws_open st")
    case None
    with c f2(2) have r: "pw_rows L (of_writer f2) = p" "of_key_min f1 = k" "of_dedicated f1 = (ws_last_closed_key st = Some k)"
      by (auto simp: continues_def)
    have "shaped L i ?pl (?xs @ [p])"
      using f(5,6) None ready p lk [of k] by (intro shaped_new [where k = k]) (auto simp: ready_for_def)
    with None f(3,4,6) r f2 p show ?thesis by auto
  next
    case (Some f0)
    with c have r: "pw_rows L (of_writer f1) = pw_rows L (of_writer f0)" "of_key_min f1 = of_key_min f0"
      "of_dedicated f1 = of_dedicated f0" by (simp_all add: continues_def)
    have ne: "pw_rows L (of_writer f0) \<noteq> []" using f(4) Some by auto
    have k: "of_key_min f0 = row_key L i (hd (pw_rows L (of_writer f0)))"
      "of_current_key f0 = row_key L i (last (pw_rows L (of_writer f0)))"
      using f(7) [OF Some] ne by (auto simp: file_ok_def keyed_def)
    have "shaped L i ?pl (?xs @ [pw_rows L (of_writer f0) @ p])"
      using f(5) f(7) [OF Some] Some ready p lk [of "of_key_min f0"] ne k
      by (intro shaped_extend [where k = k]) (auto simp: ready_for_def)
    with Some f(3,4) f(7) [OF Some] r f2 p show ?thesis by auto
  qed
  have "ws_ok L cw i ups (rs @ p) w' ?st"
    unfolding ws_ok_def using f(1,2,6) goals f2(1) up by (intro exI [of _ files]) simp
  moreover have "ready_for ?pl k ?st" using ready f2(4) by (auto simp: ready_for_def)
  ultimately show ?thesis by blast
qed

lemma cut_after_ready:
  "cut_after_slice L pl f \<Longrightarrow> ws_open st = None \<Longrightarrow> ready_for pl k st"
  by (cases pl) (auto simp: ready_for_def cut_after_slice_def)

declare consume_rows.simps [simp del]

lemma run_slice:
  assumes "run_of L i s (k, b)" "start < num_rows b" "0 < n"
  shows "run_of L i s (k, batch_slice b start n)"
  using assms by (auto simp: run_of_def batch_slice_def num_rows_def dest!: in_set_takeD in_set_dropD)

lemma consume_step:
  fixes cw :: "'f chunk_writer" and L :: "('w, 'f) arrow"
  assumes "start < num_rows run"
  defines "cap \<equiv> max (wo_max_row_group_rows (cw_opts cw)) 1" and "n \<equiv> min (num_rows run - start) (max (wo_max_row_group_rows (cw_opts cw)) 1)"
  assumes "consume_rows we L cw k run start st w = (w', Inr st')"
  obtains f w1 f1 w2 f2 w3 st2 w4 where
    "(case ws_open st of None \<Rightarrow> open_file L cw k (ws_last_closed_key st = Some k) | Some f \<Rightarrow> act_return f) w = (w1, Inr f)"
    "(if pw_in_progress_rows L (of_writer f) > 0 \<and> pw_in_progress_rows L (of_writer f) + (num_rows run - start) > cap
      then act_bind (async_step we (pw_flush L (of_writer f))) (\<lambda>w. act_return (f\<lparr>of_writer := w\<rparr>))
      else act_return f) w1 = (w2, Inr f1)"
    "write_slice we L f1 k (batch_slice run start n) w2 = (w3, Inr f2)"
    "(if cut_after_slice L (cw_placement cw) f2 then close_open we L f2 (st\<lparr>ws_open := Some f2\<rparr>)
      else act_return (st\<lparr>ws_open := Some f2\<rparr>)) w3 = (w4, Inr st2)"
    "consume_rows we L cw k run (start + n) st2 w4 = (w', Inr st')"
  using assms(4) unfolding consume_rows.simps [of we L cw k run start] n_def cap_def
  by (simp only: assms(1) if_True Let_def act_bind_Inr) blast

lemma consume_rows_Inr:
  assumes "consume_rows we L cw k run start st w = (w', Inr st')" "ws_ok L cw i ups rs w st" "cw_env L cw i"
    "ready_for (cw_placement cw) k st" "run_of L i (cw_schema cw) (k, run)"
  shows "ws_ok L cw i ups (rs @ drop start (rb_rows run)) w' st' \<and> ready_for (cw_placement cw) k st'"
  using assms(1,2,4)
proof (induction "num_rows run - start" arbitrary: start st w rs rule: less_induct)
  case less
  show ?case
  proof (cases "start < num_rows run")
    case False
    with less.prems show ?thesis by (simp add: consume_rows.simps [of _ _ _ _ _ start] num_rows_def)
  next
    case True
    let ?n = "min (num_rows run - start) (max (wo_max_row_group_rows (cw_opts cw)) 1)"
    have n: "0 < ?n" using True by simp
    have L: "writer_ok L" using assms(3) by (simp add: cw_env_def)
    obtain f w1 f1 w2 f2 w3 st2 w4 where
      a: "(case ws_open st of None \<Rightarrow> open_file L cw k (ws_last_closed_key st = Some k) | Some f \<Rightarrow> act_return f) w = (w1, Inr f)"
      and b: "(if pw_in_progress_rows L (of_writer f) > 0 \<and> pw_in_progress_rows L (of_writer f) + (num_rows run - start) >
            max (wo_max_row_group_rows (cw_opts cw)) 1
          then act_bind (async_step we (pw_flush L (of_writer f))) (\<lambda>w. act_return (f\<lparr>of_writer := w\<rparr>))
          else act_return f) w1 = (w2, Inr f1)"
      and c: "write_slice we L f1 k (batch_slice run start ?n) w2 = (w3, Inr f2)"
      and d: "(if cut_after_slice L (cw_placement cw) f2 then close_open we L f2 (st\<lparr>ws_open := Some f2\<rparr>)
          else act_return (st\<lparr>ws_open := Some f2\<rparr>)) w3 = (w4, Inr st2)"
      and e: "consume_rows we L cw k run (start + ?n) st2 w4 = (w', Inr st')" by (rule consume_step [OF True less.prems(1)])
    have 1: "file_ok L cw i f \<and> w_uploads w1 = w_uploads w \<and> continues L k st f"
    proof (cases "ws_open st")
      case None
      with a have "open_file L cw k (ws_last_closed_key st = Some k) w = (w1, Inr f)" by simp
      from open_file_Inr [OF this assms(3)] None show ?thesis by (simp add: continues_def)
    next
      case (Some f0)
      with a ws_ok_open [OF less.prems(2) Some] show ?thesis by (simp add: continues_def)
    qed
    then have 2: "file_ok L cw i f1 \<and> w_uploads w2 = w_uploads w \<and> continues L k st f1"
      using b flush_file_ok [OF _ L, of cw i f]
      by (auto simp: act_bind_Inr continues_def split: if_splits option.splits dest!: async_step_Inr)
    let ?p = "rb_rows (batch_slice run start ?n)"
    have run: "run_of L i (cw_schema cw) (k, batch_slice run start ?n)" by (rule run_slice [OF assms(5) True n])
    have fresh: "pw_rows L (of_writer f1) = [] \<longrightarrow> of_key_min f1 = k"
    proof (cases "ws_open st")
      case (Some f0)
      with ws_ok_open [OF less.prems(2) Some] 2 show ?thesis by (simp add: continues_def)
    qed (use 2 in \<open>simp add: continues_def\<close>)
    note 3 = write_slice_Inr [OF c conjunct1 [OF 2] L run fresh]
    have 4: "ws_ok L cw i ups (rs @ ?p) w3 (st\<lparr>ws_open := Some f2\<rparr>) \<and> ready_for (cw_placement cw) k (st\<lparr>ws_open := Some f2\<rparr>)"
      using 2 3 run by (intro ws_ok_write [OF less.prems(2,3), of f1]) (auto simp: run_of_def)
    have 5: "ws_ok L cw i ups (rs @ ?p) w4 st2 \<and> ready_for (cw_placement cw) k st2"
      using d 4 close_open_Inr [OF _ conjunct1 [OF 4] _ L, of we f2 w4 st2]
      by (auto split: if_splits intro: cut_after_ready)
    have "?p @ drop (start + ?n) (rb_rows run) = drop start (rb_rows run)"
      using append_take_drop_id [of ?n "drop start (rb_rows run)"] by (simp add: batch_slice_def add.commute)
    with less.hyps [OF _ e, of "rs @ ?p"] 5 True n show ?thesis by simp
  qed
qed

lemma consume_rows_open:
  assumes "consume_rows we L cw k run start st w = (w', Inr st')" "\<forall>n. cw_placement cw \<noteq> SizeTargeted n"
    and "start < num_rows run \<or> ws_open st \<noteq> None"
  shows "ws_open st' \<noteq> None \<and> ws_last_closed_key st' = ws_last_closed_key st"
  using assms(1,3)
proof (induction "num_rows run - start" arbitrary: start st w rule: less_induct)
  case less
  show ?case
  proof (cases "start < num_rows run")
    case False
    with less.prems show ?thesis by (simp add: consume_rows.simps [of _ _ _ _ _ start])
  next
    case True
    let ?n = "min (num_rows run - start) (max (wo_max_row_group_rows (cw_opts cw)) 1)"
    obtain f2 w3 st2 w4 where d: "(if cut_after_slice L (cw_placement cw) f2 then close_open we L f2 (st\<lparr>ws_open := Some f2\<rparr>)
          else act_return (st\<lparr>ws_open := Some f2\<rparr>)) w3 = (w4, Inr st2)"
      and e: "consume_rows we L cw k run (start + ?n) st2 w4 = (w', Inr st')" by (rule consume_step [OF True less.prems(1)])
    from d assms(2) have "st2 = st\<lparr>ws_open := Some f2\<rparr>" by (simp add: cut_after_slice_def split: placement.splits)
    with less.hyps [OF _ e] True show ?thesis by simp
  qed
qed

text \<open>Between two runs, only a size target leaves no file open once one was closed.\<close>

definition between_runs :: "placement \<Rightarrow> 'w write_state \<Rightarrow> bool" where
  "between_runs pl st \<longleftrightarrow> (pl = Packed \<longrightarrow> ws_last_closed_key st = None) \<and>
     (pl = Separated \<and> ws_open st = None \<longrightarrow> ws_last_closed_key st = None)"

lemma consume_key_run_Inr:
  assumes "consume_key_run we L cw k run st w = (w', Inr st')" "ws_ok L cw i ups rs w st" "cw_env L cw i"
    and "between_runs (cw_placement cw) st" "run_of L i (cw_schema cw) (k, run)"
  shows "ws_ok L cw i ups (rs @ rb_rows run) w' st' \<and> between_runs (cw_placement cw) st'"
proof -
  from assms(1) obtain st1 w1 where
    a: "(case ws_open st of Some f \<Rightarrow> if cut_before_key L (cw_placement cw) f k then close_open we L f st else act_return st
         | None \<Rightarrow> act_return st) w = (w1, Inr st1)"
    and b: "consume_rows we L cw k run 0 st1 w1 = (w', Inr st')"
    by (auto simp: consume_key_run_def act_bind_Inr)
  have L: "writer_ok L" using assms(3) by (simp add: cw_env_def)
  have 1: "ws_ok L cw i ups rs w1 st1 \<and> ready_for (cw_placement cw) k st1 \<and>
      (cw_placement cw = Packed \<longrightarrow> ws_last_closed_key st1 = None)"
  proof (cases "ws_open st")
    case None
    with a assms(2,4) show ?thesis by (simp add: ready_for_def between_runs_def)
  next
    case (Some f)
    show ?thesis
    proof (cases "cut_before_key L (cw_placement cw) f k")
      case True
      with a Some have "close_open we L f st w = (w1, Inr st1)" by simp
      from close_open_Inr [OF this assms(2) Some L] True show ?thesis
        by (auto simp: ready_for_def cut_before_key_def split: placement.splits)
    next
      case False
      with a Some assms(2,4) show ?thesis
        by (auto simp: ready_for_def cut_before_key_def between_runs_def split: placement.splits)
    qed
  qed
  moreover have "0 < num_rows run" using assms(5) by (simp add: run_of_def num_rows_def)
  then have "between_runs (cw_placement cw) st'"
    using consume_rows_open [OF b] 1 by (cases "cw_placement cw") (auto simp: between_runs_def)
  ultimately show ?thesis using consume_rows_Inr [OF b _ assms(3) _ assms(5), of ups rs] by simp
qed

lemma consume_runs_Inr:
  assumes "consume_runs we L cw runs st w = (w', Inr st')" "ws_ok L cw i ups rs w st" "cw_env L cw i"
    "between_runs (cw_placement cw) st" "\<forall>kr \<in> set runs. run_of L i (cw_schema cw) kr"
  shows "ws_ok L cw i ups (rs @ concat (map (rb_rows \<circ> snd) runs)) w' st' \<and> between_runs (cw_placement cw) st'"
  using assms(1,2,4,5)
proof (induction runs arbitrary: st w rs)
  case (Cons kr runs)
  obtain k run where kr: "kr = (k, run)" by (rule prod.exhaust)
  with Cons.prems(1) obtain st1 w1 where c: "consume_key_run we L cw k run st w = (w1, Inr st1)"
    and r: "consume_runs we L cw runs st1 w1 = (w', Inr st')" by (auto simp: act_bind_Inr)
  have "run_of L i (cw_schema cw) (k, run)" using Cons.prems(4) kr by simp
  from consume_key_run_Inr [OF c Cons.prems(2) assms(3) Cons.prems(3) this] Cons.IH [OF r] Cons.prems(4) kr
  show ?case by (fastforce simp: comp_def)
qed simp

lemma write_batches_Inr:
  assumes "write_batches we L cw stream st w = (w', Inr st')" "ws_ok L cw i ups rs w st" "cw_env L cw i"
    "between_runs (cw_placement cw) st" "\<forall>b. Inr b \<in> set stream \<longrightarrow> rb_schema b = cw_schema cw"
  shows "ws_ok L cw i ups (rs @ stream_rows stream) w' st' \<and> (\<forall>r \<in> set stream. \<exists>b. r = Inr b)"
  using assms(1,2,4,5)
proof (induction stream arbitrary: st w rs)
  case (Cons r stream)
  from Cons.prems(1) obtain b runs st1 w1 where r: "r = Inr b" and s: "split_by_key L b (cw_packing_key cw) = Inr runs"
    and c: "consume_runs we L cw runs st w = (w1, Inr st1)" and rest: "write_batches we L cw stream st1 w1 = (w', Inr st')"
    by (auto simp: act_bind_Inr)
  have sch: "rb_schema b = cw_schema cw" using Cons.prems(4) r by simp
  from split_by_key_Inr [OF s] obtain j where "index_of (cw_schema cw) (cw_packing_key cw) = Some j"
    and cat: "concat (map (rb_rows \<circ> snd) runs) = rb_rows b" and "\<forall>kr \<in> set runs. run_of L j (cw_schema cw) kr"
    by (auto simp: sch)
  then have runs: "\<forall>kr \<in> set runs. run_of L i (cw_schema cw) kr" using assms(3) by (simp add: cw_env_def)
  from consume_runs_Inr [OF c Cons.prems(2) assms(3) Cons.prems(3) runs]
  have "ws_ok L cw i ups (rs @ rb_rows b) w1 st1" "between_runs (cw_placement cw) st1" by (simp_all only: cat)
  from Cons.IH [OF rest this] Cons.prems(4) r show ?case by simp
qed simp

lemma write_chunks_Inr:
  assumes "write_chunks we L cw stream w = (w', Inr outs)" "cw_env L cw i"
    "\<forall>b. Inr b \<in> set stream \<longrightarrow> rb_schema b = cw_schema cw"
  shows "\<exists>files. w_uploads w' = w_uploads w @ zip (map co_path outs) files \<and> list_all2 (chunk_ok L cw i) outs files \<and>
    concat (map (file_rows L) files) = stream_rows stream \<and> shaped L i (cw_placement cw) (map (file_rows L) files) \<and>
    (\<forall>r \<in> set stream. \<exists>b. r = Inr b)"
proof -
  let ?st0 = "\<lparr>ws_open = None, ws_outputs = [], ws_last_closed_key = None\<rparr>"
  from assms(1) obtain st w1 where b: "write_batches we L cw stream ?st0 w = (w1, Inr st)"
    and c: "(case ws_open st of None \<Rightarrow> act_return (ws_outputs st)
       | Some f \<Rightarrow> act_bind (close_file we L f) (\<lambda>out. act_return (ws_outputs st @ [out]))) w1 = (w', Inr outs)"
    by (auto simp: write_chunks_def act_bind_Inr)
  have "ws_ok L cw i (w_uploads w) [] w ?st0"
    unfolding ws_ok_def by (rule exI [of _ "[]"]) (simp add: shaped_def last_key_def split: placement.splits)
  from write_batches_Inr [OF b this assms(2) _ assms(3)]
  have ok: "ws_ok L cw i (w_uploads w) (stream_rows stream) w1 st" and all: "\<forall>r \<in> set stream. \<exists>b. r = Inr b"
    by (auto simp: between_runs_def)
  have "\<exists>st2. ws_ok L cw i (w_uploads w) (stream_rows stream) w' st2 \<and> ws_open st2 = None \<and> ws_outputs st2 = outs"
  proof (cases "ws_open st")
    case None
    with c ok show ?thesis by auto
  next
    case (Some f)
    with c obtain out where o: "close_file we L f w1 = (w', Inr out)" "outs = ws_outputs st @ [out]"
      by (auto simp: act_bind_Inr)
    then have "close_open we L f st w1 = (w', Inr (st\<lparr>ws_open := None, ws_last_closed_key := Some (of_current_key f),
        ws_outputs := outs\<rparr>))" by (simp add: close_open_def act_bind_Inr)
    from close_open_Inr [OF this ok Some] assms(2) show ?thesis by (auto simp: cw_env_def)
  qed
  with all show ?thesis by (auto simp: ws_ok_def)
qed

section \<open>Undisturbed writing\<close>

text \<open>Encoding never fails.\<close>

definition codec_total :: "('w, 'f) arrow \<Rightarrow> bool" where
  "codec_total L \<longleftrightarrow> (\<forall>s p. pw_new L s p \<noteq> None) \<and> (\<forall>w rs. pw_write L w rs \<noteq> None) \<and> (\<forall>w. pw_flush L w \<noteq> None) \<and>
     (\<forall>w. pw_close L w \<noteq> None)"

lemma always_async: "quiet_world we \<Longrightarrow> res \<noteq> None \<Longrightarrow> always (async_step we res)"
  unfolding async_step_def by (intro always_bind) auto

lemma always_close:
  assumes "quiet_world we" "codec_total L"
  shows "always (close_file we L f)"
  unfolding close_file_def
proof (rule always_bind)
  show "always (if of_key_min f \<noteq> of_key_max f then
          act_bind (async_step we (pw_flush L (of_writer f))) (\<lambda>w.
            act_return (w, kb_finish (ar_ser L) (of_keys f), key_row_groups (pw_row_groups L w) (of_packing_key f)))
        else act_return (of_writer f, None, None))"
    using assms by (auto simp: codec_total_def intro!: always_bind always_async)
qed (use assms in \<open>auto simp: codec_total_def split: prod.splits intro!: always_bind always_put_head\<close>)

lemma always_consume_rows:
  assumes "quiet_world we" "codec_total L" "always (cw_next_path cw)" "\<And>p. always (cw_on_open cw p)"
  shows "always (consume_rows we L cw k run start st)"
proof (induction "num_rows run - start" arbitrary: start st rule: less_induct)
  case less
  have "always (open_file L cw k d)" for d
    unfolding open_file_def using assms by (intro always_bind) (auto simp: codec_total_def)
  moreover have "always (write_slice we L f k b)" for f b
    unfolding write_slice_def using assms by (intro always_bind always_async) (auto simp: codec_total_def)
  moreover have "always (close_open we L f s)" for f s
    unfolding close_open_def by (intro always_bind always_close assms) simp
  moreover have "always (async_step we (pw_flush L w))" for w
    using assms(1,2) by (intro always_async) (simp_all add: codec_total_def)
  ultimately show ?case
    by (subst consume_rows.simps)
      (auto simp: Let_def split: option.splits intro!: always_bind less.hyps)
qed

lemma always_consume_runs:
  assumes "quiet_world we" "codec_total L" "always (cw_next_path cw)" "\<And>p. always (cw_on_open cw p)"
  shows "always (consume_runs we L cw runs st)"
proof (induction runs arbitrary: st)
  case (Cons kr runs)
  have "always (consume_key_run we L cw k run s)" for k run s
    unfolding consume_key_run_def using always_close [OF assms(1,2)]
    by (auto simp: close_open_def split: option.splits intro!: always_bind always_consume_rows assms)
  then show ?case using Cons by (cases kr) (auto intro!: always_bind)
qed simp

lemma write_chunks_succeeds:
  assumes "quiet_world we" "codec_total L" "always (cw_next_path cw)" "\<And>p. always (cw_on_open cw p)"
    and "index_of (cw_schema cw) (cw_packing_key cw) = Some i" "f_type (cw_schema cw ! i) = Int64"
    and "\<forall>r \<in> set stream. \<exists>b. r = Inr b \<and> rb_schema b = cw_schema cw"
  shows "\<exists>w' outs. write_chunks we L cw stream w = (w', Inr outs)"
proof -
  have "always (write_batches we L cw stream st)" for st
    using assms(7)
  proof (induction stream arbitrary: st)
    case (Cons r stream)
    then obtain b where r: "r = Inr b" "rb_schema b = cw_schema cw" by auto
    with split_by_key_ok [of b] assms(5,6) obtain runs where "split_by_key L b (cw_packing_key cw) = Inr runs" by metis
    with r Cons show ?case by (auto intro!: always_bind always_consume_runs assms(1-4))
  qed simp
  then have "always (write_chunks we L cw stream)"
    unfolding write_chunks_def
    by (auto split: option.splits intro!: always_bind always_close assms(1,2))
  then show ?thesis by (simp add: always_def)
qed

section \<open>Placement of sorted rows\<close>

lemma sorted_concat_parts:
  assumes "sorted (map key (concat xss))" "j < length xss"
  shows "sorted (map key (xss ! j))"
  using assms by (induction xss arbitrary: j) (auto simp: sorted_append nth_Cons split: nat.splits)

lemma sorted_concat_adjacent:
  fixes key :: "'a \<Rightarrow> 'b::linorder"
  assumes "sorted (map key (concat xss))" "Suc j < length xss" "xss ! j \<noteq> []" "xss ! Suc j \<noteq> []"
  shows "key (last (xss ! j)) \<le> key (hd (xss ! Suc j))"
  using assms
proof (induction xss arbitrary: j)
  case (Cons xs xss)
  show ?case
  proof (cases j)
    case 0
    with Cons.prems obtain ys yss where y: "xss = ys # yss" "xs \<noteq> []" "ys \<noteq> []" by (cases xss) auto
    with Cons.prems(1) have "\<forall>x \<in> set xs. \<forall>y \<in> set ys. key x \<le> key y" by (auto simp: sorted_append)
    with y 0 show ?thesis by simp
  next
    case (Suc j')
    with Cons.prems Cons.IH [of j'] show ?thesis by (simp add: sorted_append)
  qed
qed simp

lemma sorted_range:
  fixes key :: "'a \<Rightarrow> 'b::linorder"
  assumes "sorted (map key rs)" "rs \<noteq> []"
  shows "Max (key ` set rs) = key (last rs) \<and> (\<forall>r \<in> set rs. key (hd rs) \<le> key r \<and> key r \<le> key (last rs))"
proof -
  have "\<forall>r \<in> set rs. key (hd rs) \<le> key r" using assms by (cases rs) auto
  moreover have "\<forall>r \<in> set rs. key r \<le> key (last rs)"
    using assms by (cases rs rule: rev_cases) (auto simp: sorted_append)
  ultimately show ?thesis using assms(2) by (auto intro!: Max_eqI)
qed

text \<open>What a policy promises of the key ranges of consecutive outputs.\<close>

definition placed :: "placement \<Rightarrow> chunk_output list \<Rightarrow> bool" where
  "placed pl outs \<longleftrightarrow>
     (case pl of
        Packed \<Rightarrow> length outs \<le> 1
      | Separated \<Rightarrow> (\<forall>out \<in> set outs. co_key_min out = co_key_max out) \<and>
          successively (\<lambda>a b. co_key_max a < co_key_min b) outs
      | SizeTargeted _ \<Rightarrow>
          successively (\<lambda>a b. co_key_max a < co_key_min b \<or> co_key_max a = co_key_min b \<and> co_key_min b = co_key_max b) outs)"

lemma shaped_placed:
  assumes ok: "list_all2 (chunk_ok L cw i) outs files" and sh: "shaped L i pl (map (file_rows L) files)"
    and sorted: "sorted (map (row_key L i) (concat (map (file_rows L) files)))"
  shows "placed pl outs \<and> list_all2 (\<lambda>out f. \<forall>r \<in> set (file_rows L f). co_key_min out \<le> row_key L i r \<and> row_key L i r \<le> co_key_max out) outs files"
proof -
  let ?rs = "\<lambda>j. file_rows L (files ! j)"
  have len: "length files = length outs" using ok by (simp add: list_all2_lengthD)
  have facts: "?rs j \<noteq> [] \<and> co_key_min (outs ! j) = row_key L i (hd (?rs j)) \<and> co_key_max (outs ! j) = row_key L i (last (?rs j)) \<and>
      (\<forall>r \<in> set (?rs j). co_key_min (outs ! j) \<le> row_key L i r \<and> row_key L i r \<le> co_key_max (outs ! j))" if "j < length outs" for j
  proof -
    have c: "chunk_ok L cw i (outs ! j) (files ! j)" using ok that by (simp add: list_all2_nthD)
    have "sorted (map (row_key L i) (?rs j))" using sorted_concat_parts [OF sorted, of j] that len by simp
    from sorted_range [OF this] c show ?thesis by (simp add: chunk_ok_def)
  qed
  have adj: "co_key_max (outs ! j) \<le> co_key_min (outs ! Suc j)" if "Suc j < length outs" for j
    using sorted_concat_adjacent [OF sorted, of j] facts [of j] facts [of "Suc j"] that len by simp
  have single: "co_key_min (outs ! j) = co_key_max (outs ! j)" if "j < length outs" "single_key L i (?rs j)" for j
    using facts [of j] that by (force simp: single_key_def)
  have "placed pl outs"
  proof (cases pl)
    case Separated
    with sh have "\<forall>j < length outs. single_key L i (?rs j)"
      and ne: "\<forall>j. Suc j < length outs \<longrightarrow> row_key L i (last (?rs j)) \<noteq> row_key L i (hd (?rs (Suc j)))"
      by (auto simp: shaped_def successively_conv_nth len)
    then have "\<forall>out \<in> set outs. co_key_min out = co_key_max out" using single by (metis in_set_conv_nth)
    moreover have "co_key_max (outs ! j) < co_key_min (outs ! Suc j)" if "Suc j < length outs" for j
      using adj [OF that] ne facts [of j] facts [of "Suc j"] that by fastforce
    ultimately show ?thesis by (simp add: placed_def Separated successively_conv_nth)
  next
    case (SizeTargeted n)
    with sh have "\<forall>j. Suc j < length outs \<longrightarrow> row_key L i (last (?rs j)) = row_key L i (hd (?rs (Suc j))) \<longrightarrow> single_key L i (?rs (Suc j))"
      by (auto simp: shaped_def successively_conv_nth len)
    then have "co_key_max (outs ! j) < co_key_min (outs ! Suc j) \<or>
        co_key_max (outs ! j) = co_key_min (outs ! Suc j) \<and> co_key_min (outs ! Suc j) = co_key_max (outs ! Suc j)" if "Suc j < length outs" for j
      using adj [OF that] facts [of j] facts [of "Suc j"] single [of "Suc j"] that by fastforce
    then show ?thesis by (simp add: placed_def SizeTargeted successively_conv_nth)
  qed (use sh len in \<open>simp add: placed_def shaped_def\<close>)
  with facts len [symmetric] show ?thesis unfolding list_all2_conv_all_nth by blast
qed

section \<open>Properties\<close>

text \<open>C36: the streaming chunk writer loses nothing and describes what it stores. When it
  succeeds, it stored one object per output under the output's path, the objects hold the
  stream's rows in the stream's order, none is empty, and each output's row count, least and
  greatest key and statistics are those of its object. On rows sorted by packing key the
  outputs follow the placement policy: packed gives at most one file, separated gives one
  file per key, and a size target cuts between keys except that a key may go on in files of
  its own. In an undisturbed world it succeeds. The hypotheses are the file writer's
  contract and closures that store nothing.\<close>

theorem write_chunks_correct:
  assumes "cw_env L cw i" "f_type (cw_schema cw ! i) = Int64"
    and "\<forall>b. Inr b \<in> set stream \<longrightarrow> rb_schema b = cw_schema cw"
  shows "(\<forall>w w' outs. write_chunks we L cw stream w = (w', Inr outs) \<longrightarrow>
      (\<exists>files. w_uploads w' = w_uploads w @ zip (map co_path outs) files \<and> list_all2 (chunk_ok L cw i) outs files
        \<and> concat (map (file_rows L) files) = stream_rows stream \<and> (\<forall>r \<in> set stream. \<exists>b. r = Inr b)
        \<and> (sorted (map (row_key L i) (stream_rows stream)) \<longrightarrow> placed (cw_placement cw) outs \<and>
            list_all2 (\<lambda>out f. \<forall>r \<in> set (file_rows L f). co_key_min out \<le> row_key L i r \<and> row_key L i r \<le> co_key_max out)
              outs files)))
    \<and> (quiet_world we \<and> codec_total L \<and> always (cw_next_path cw) \<and> (\<forall>p. always (cw_on_open cw p)) \<and>
        (\<forall>r \<in> set stream. \<exists>b. r = Inr b) \<longrightarrow> (\<forall>w. \<exists>w' outs. write_chunks we L cw stream w = (w', Inr outs)))"
proof (intro conjI allI impI)
  fix w w' outs assume "write_chunks we L cw stream w = (w', Inr outs)"
  from write_chunks_Inr [OF this assms(1,3)] obtain files where
    f: "w_uploads w' = w_uploads w @ zip (map co_path outs) files" "list_all2 (chunk_ok L cw i) outs files"
      "concat (map (file_rows L) files) = stream_rows stream" "shaped L i (cw_placement cw) (map (file_rows L) files)"
      "\<forall>r \<in> set stream. \<exists>b. r = Inr b" by blast
  show "\<exists>files. w_uploads w' = w_uploads w @ zip (map co_path outs) files \<and>
      list_all2 (chunk_ok L cw i) outs files
        \<and> concat (map (file_rows L) files) = stream_rows stream \<and> (\<forall>r \<in> set stream. \<exists>b. r = Inr b)
        \<and> (sorted (map (row_key L i) (stream_rows stream)) \<longrightarrow> placed (cw_placement cw) outs \<and>
            list_all2 (\<lambda>out f. \<forall>r \<in> set (file_rows L f). co_key_min out \<le> row_key L i r \<and> row_key L i r \<le> co_key_max out)
              outs files)"
    using f(1,3,5) f(2) shaped_placed [OF f(2,4)] by (intro exI [of _ files] conjI impI) (simp_all only: simp_thms)
next
  fix w
  assume "quiet_world we \<and> codec_total L \<and> always (cw_next_path cw) \<and> (\<forall>p. always (cw_on_open cw p)) \<and>
        (\<forall>r \<in> set stream. \<exists>b. r = Inr b)"
  then show "\<exists>w' outs. write_chunks we L cw stream w = (w', Inr outs)"
    using assms by (intro write_chunks_succeeds) (auto simp: cw_env_def)
qed

text \<open>C42: three rows of keys 1, 1 and 2, separated by key.\<close>

definition demo_key_field :: field where
  "demo_key_field = \<lparr>f_name = ''k'', f_type = Int64, f_nullable = False, f_metadata = []\<rparr>"

definition demo_cw :: "placement \<Rightarrow> (schema \<times> cells list list) chunk_writer" where
  "demo_cw pl = \<lparr>cw_schema = [demo_key_field], cw_opts = write_opts_for_level 1, cw_placement = pl, cw_packing_key = ''k'',
     cw_sort_key = [''k''], cw_next_path = act_uuid (calm_wenv 0), cw_on_open = (\<lambda>_. act_return ())\<rparr>"

lemma demo_cw_env: "cw_env demo_arrow (demo_cw pl) 0"
  by (auto simp: cw_env_def demo_arrow_ok demo_cw_def demo_key_field_def act_return_def)

theorem write_chunks_correct_witness:
  "\<exists>w' outs. write_chunks (calm_wenv 0) demo_arrow (demo_cw Separated)
      [Inr \<lparr>rb_schema = [demo_key_field], rb_rows = [[I64 1], [I64 1], [I64 2]]\<rparr>]
      \<lparr>w_tick = 0, w_catalog = empty_catalog, w_files = Map.empty, w_uploads = []\<rparr> = (w', Inr outs)
    \<and> concat (map (file_rows demo_arrow \<circ> snd) (w_uploads w')) = [[I64 1], [I64 1], [I64 2]]
    \<and> placed Separated outs"
proof -
  let ?stream = "[Inr \<lparr>rb_schema = [demo_key_field], rb_rows = [[I64 1], [I64 1], [I64 2]]\<rparr>] :: batch_stream"
  let ?w = "\<lparr>w_tick = 0, w_catalog = empty_catalog, w_files = Map.empty, w_uploads = []\<rparr> :: (schema \<times> cells list list) world"
  note c = write_chunks_correct [OF demo_cw_env, of Separated ?stream "calm_wenv 0"]
  have pre: "f_type (cw_schema (demo_cw Separated) ! 0) = Int64"
    "\<forall>b. Inr b \<in> set ?stream \<longrightarrow> rb_schema b = cw_schema (demo_cw Separated)"
    by (simp_all add: demo_cw_def demo_key_field_def)
  have "codec_total demo_arrow" by (auto simp: codec_total_def demo_arrow_def)
  moreover have "always (cw_next_path (demo_cw Separated))" by (simp add: demo_cw_def always_def)
  moreover have "always (cw_on_open (demo_cw Separated) p)" for p by (simp add: demo_cw_def)
  ultimately obtain w' outs where r: "write_chunks (calm_wenv 0) demo_arrow (demo_cw Separated) ?stream ?w = (w', Inr outs)"
    using c [OF pre] by fastforce
  have "sorted (map (row_key demo_arrow 0) (stream_rows ?stream))"
    by (simp add: row_key_def key_value_def demo_arrow_def)
  with c [OF pre] r obtain files where "w_uploads w' = zip (map co_path outs) files" "length files = length outs"
    "concat (map (file_rows demo_arrow) files) = stream_rows ?stream" "placed Separated outs"
    by (fastforce simp: demo_cw_def dest: list_all2_lengthD)
  with r show ?thesis by (auto simp flip: map_map)
qed

end
