(* ===== verification/Compactor.thy ===== *)
theory Compactor
  imports Rewrite Leases Commit Feed CatalogGc PartQueries Tables Operation
begin

text \<open>
  The compactor, \<^verbatim>\<open>crates/ukiel-compactor/src/compactor.rs\<close>: the level ladder, finalisation, the
  rotating sweep, and one merge under a lease with its renewal task. The renewal task is
  interleaved with the merge: between two calls of the merge it ticks as often as the schedule
  \<open>renewals\<close> says, each tick after some activity of other clients, and a tick that finds the
  lease gone drops the merge. Metrics and tracing are left out. Durations are in
  milliseconds, as \<open>time\<close> is.
\<close>

section \<open>Definitions\<close>

definition COMPACTION_TRANSFORMATION_VERSION :: u32 where
  "COMPACTION_TRANSFORMATION_VERSION = 2"

text \<open>The parameters that stand for code outside: the digest, the roaring decoder, Postgres's
  text of a partition value, the Arrow and Parquet crates and DataFusion.\<close>

record ('w, 'f) libs =
  lb_blake3 :: "bytes \<Rightarrow> bytes"
  lb_de :: "string \<Rightarrow> nat list option"
  lb_text :: "json \<Rightarrow> string"
  lb_arrow :: "('w, 'f) arrow"
  lb_df :: datafusion

definition compaction_identity_for ::
  "(bytes \<Rightarrow> bytes) \<Rightarrow> hypertable \<Rightarrow> part list \<Rightarrow> i16 \<Rightarrow> (compactor_error, operation_identity) result" where
  "compaction_identity_for blake3 ht grp output_level =
     map_sum COperation id (compaction blake3 (ht_id ht)
       \<lparr>ci_output_level = output_level, ci_input_parts = map part_id grp,
        ci_partition_values = partition_values (part_meta (grp ! 0)), ci_table_schema = table_schema ht,
        ci_sort_key = sort_key_cols ht, ci_placement = ht_placement ht,
        ci_version = COMPACTION_TRANSFORMATION_VERSION\<rparr>)"

record compactor_config =
  cc_worker_name :: string
  cc_l0_fanout :: nat
  cc_fanout :: nat
  cc_finalize_after_secs :: nat
  cc_finalize_poll_interval_ms :: nat
  cc_poll_interval_ms :: nat
  cc_candidate_limit :: i64
  cc_lease_ttl_ms :: nat
  cc_lease_renew_interval_ms :: nat
  cc_owner_id :: "uuid option"

definition default_compactor_config :: compactor_config where
  "default_compactor_config = \<lparr>cc_worker_name = ''compactor'', cc_l0_fanout = 2, cc_fanout = 2,
     cc_finalize_after_secs = 3600, cc_finalize_poll_interval_ms = 60000, cc_poll_interval_ms = 5000,
     cc_candidate_limit = 64, cc_lease_ttl_ms = 60000, cc_lease_renew_interval_ms = 20000, cc_owner_id = None\<rparr>"

record compaction_stats =
  cst_merged_groups :: nat
  cst_parts_in :: nat
  cst_parts_out :: nat
  cst_conflicts :: nat
  cst_candidates :: nat
  cst_eligible :: nat
  cst_leased_skips :: nat
  cst_sweep_wraps :: nat

definition default_stats :: compaction_stats where
  "default_stats = \<lparr>cst_merged_groups = 0, cst_parts_in = 0, cst_parts_out = 0, cst_conflicts = 0,
     cst_candidates = 0, cst_eligible = 0, cst_leased_skips = 0, cst_sweep_wraps = 0\<rparr>"

type_synonym sweep_cursors = "hypertable_id \<rightharpoonup> string"

record compactor =
  cp_config :: compactor_config
  cp_owner_id :: uuid
  cp_ladder :: sweep_cursors
  cp_finalize :: sweep_cursors

text \<open>\<open>Compactor::new\<close>; the fresh owner id is the caller's.\<close>

definition new_compactor :: "compactor_config \<Rightarrow> uuid \<Rightarrow> compactor" where
  "new_compactor cfg fresh =
     \<lparr>cp_config = cfg, cp_owner_id = (case cc_owner_id cfg of Some o' \<Rightarrow> o' | None \<Rightarrow> fresh),
      cp_ladder = Map.empty, cp_finalize = Map.empty\<rparr>"

definition wrap_i16 :: "int \<Rightarrow> i16" where
  "wrap_i16 v = (v + 2 ^ 15) mod 2 ^ 16 - 2 ^ 15"

definition sweep_partitions ::
  "compactor_config \<Rightarrow> sweep_cursors \<Rightarrow> hypertable_id \<Rightarrow> compaction_stats
   \<Rightarrow> (string option \<Rightarrow> ('f, compactor_error, candidate_window) act)
   \<Rightarrow> ('f, compactor_error, candidate_window \<times> sweep_cursors \<times> compaction_stats) act" where
  "sweep_partitions cfg cursors ht stats window_at =
     (let cursor = cursors ht in
      act_bind (window_at cursor) (\<lambda>first.
      let ran_off_tail = cursor \<noteq> None \<and> cw_partitions first = [] in
      act_bind (if ran_off_tail then window_at None else act_return first) (\<lambda>window.
      let exhausted = length (cw_partitions window) < nat (cc_candidate_limit cfg mod 2 ^ 64);
          cursors' = cursors(ht := if exhausted then None else cw_next_cursor window);
          wrapped = cw_eligible window > 0 \<and> (ran_off_tail \<or> exhausted)
      in act_return (window, cursors',
           stats\<lparr>cst_candidates := cst_candidates stats + length (cw_partitions window),
                 cst_eligible := cst_eligible stats + cw_eligible window,
                 cst_leased_skips := cst_leased_skips stats + cw_leased window,
                 cst_sweep_wraps := cst_sweep_wraps stats + (if wrapped then 1 else 0)\<rparr>))))"

definition claim ::
  "'f wenv \<Rightarrow> compactor_config \<Rightarrow> uuid \<Rightarrow> hypertable_id \<Rightarrow> json \<Rightarrow> ('f, compactor_error, compaction_lease option) act" where
  "claim we cfg owner ht pv =
     act_call we CCatalog (\<lambda>env. try_acquire_compaction_lease env ht pv owner (cc_lease_ttl_ms cfg))"

definition release :: "'f wenv \<Rightarrow> compaction_lease \<Rightarrow> ('f, compactor_error, unit) act" where
  "release we lease =
     act_bind (act_try (act_call we CCatalog (\<lambda>env. release_compaction_lease env lease))
       :: ('f, compactor_error, (compactor_error, bool) result) act) (\<lambda>_. act_return ())"

text \<open>The lowest level whose live runs reach its trigger, with its parts in order.\<close>

definition runs_of :: "part list \<Rightarrow> nat" where
  "runs_of grp = card (set (map created_by_commit grp))"

definition eligible_level :: "compactor_config \<Rightarrow> part list \<Rightarrow> (i16 \<times> part list) option" where
  "eligible_level cfg ps =
     find (\<lambda>(l, grp). runs_of grp \<ge> (if l = 0 then cc_l0_fanout cfg else cc_fanout cfg))
       (map (\<lambda>l. (l, filter (\<lambda>p. level (part_meta p) = l) ps))
         (sorted_list_of_set (set (map (level \<circ> part_meta) ps))))"

definition output_path :: "'f wenv \<Rightarrow> hypertable_id \<Rightarrow> i16 \<Rightarrow> nat \<Rightarrow> string" where
  "output_path we ht output_level n =
     ''ht/'' @ show_int ht @ ''/L'' @ show_int output_level @ ''/'' @ we_uuid we n @ ''.parquet''"

text \<open>The writer \<open>merge_parts\<close> builds.\<close>

definition merge_writer ::
  "'f wenv \<Rightarrow> hypertable \<Rightarrow> table_columns \<Rightarrow> i16 \<Rightarrow> 'f chunk_writer" where
  "merge_writer we ht cols output_level =
     \<lparr>cw_schema = physical_schema cols, cw_opts = write_opts_from_columns cols (sort_key_cols ht) output_level,
      cw_placement = ht_placement ht, cw_packing_key = packing_key ht, cw_sort_key = sort_key_cols ht,
      cw_next_path = (\<lambda>w. (w, Inr (output_path we (ht_id ht) output_level (w_tick w)))),
      cw_on_open = (\<lambda>p. act_call we CCatalog (\<lambda>env. register_pending_objects env (ht_id ht) [p]))\<rparr>"

definition part_of_output :: "json \<Rightarrow> i16 \<Rightarrow> chunk_output \<Rightarrow> part_meta" where
  "part_of_output pv output_level c =
     \<lparr>path = co_path c, partition_values = pv, packing_key_min = co_key_min c, packing_key_max = co_key_max c,
      row_count = co_row_count c, size_bytes = co_size_bytes c, level = output_level, column_stats = co_column_stats c\<rparr>"

definition write_merge ::
  "'f wenv \<Rightarrow> ('w, 'f) libs \<Rightarrow> hypertable \<Rightarrow> table_columns \<Rightarrow> part list \<Rightarrow> i16
   \<Rightarrow> ('f, compactor_error, chunk_output list) act" where
  "write_merge we lb ht cols grp output_level =
     act_bind (part_streams we (lb_arrow lb) (lb_df lb) (physical_schema cols) cols grp) (\<lambda>streams.
       case merge_streams (lb_arrow lb) streams (physical_schema cols) (sort_key_cols ht) of
         None \<Rightarrow> (\<lambda>w. (w, Inl (Dropped Crash)))
       | Some merged \<Rightarrow> write_chunks we (lb_arrow lb) (merge_writer we ht cols output_level) merged)"

definition merge_parts ::
  "'f wenv \<Rightarrow> ('w, 'f) libs \<Rightarrow> hypertable \<Rightarrow> compaction_lease \<Rightarrow> operation_identity \<Rightarrow> part list \<Rightarrow> i16
   \<Rightarrow> ('f, compactor_error, nat) act" where
  "merge_parts we lb ht lease identity grp output_level =
     act_bind (act_lift (map_sum CSchema id (parse (table_schema ht)))) (\<lambda>cols.
     act_bind (write_merge we lb ht cols grp output_level) (\<lambda>outputs.
     let new_parts = map (part_of_output (partition_values (part_meta (grp ! 0))) output_level) outputs in
     act_bind (act_call we CCatalog (\<lambda>env.
         commit_compaction_replace env (lb_de lb) (ht_id ht) lease (map part_id grp) new_parts identity)) (\<lambda>_.
       act_return (length new_parts))))"

text \<open>The renewal task, over the ticks that fall between two calls of the merge.\<close>

fun renew_until_cancelled ::
  "compaction_lease \<Rightarrow> nat \<Rightarrow> (('f outside \<Rightarrow> 'f outside) \<times> env) list \<Rightarrow> 'f outside
   \<Rightarrow> 'f outside \<times> catalog_error option" where
  "renew_until_cancelled lease ttl [] x = (x, None)"
| "renew_until_cancelled lease ttl ((others, env) # ticks) x =
     (let (c, fs) = others x in
      case renew_compaction_lease env lease ttl c of
        (c', Inr (Some _)) \<Rightarrow> renew_until_cancelled lease ttl ticks (c', fs)
      | (c', Inr None) \<Rightarrow> ((c', fs), Some (LeaseLost (cl_partition lease)))
      | (c', Inl e) \<Rightarrow> ((c', fs), Some e))"

type_synonym 'f renewals = "nat \<Rightarrow> (('f outside \<Rightarrow> 'f outside) \<times> env) list"

definition with_renewals :: "'f wenv \<Rightarrow> 'f renewals \<Rightarrow> compaction_lease \<Rightarrow> nat \<Rightarrow> 'f wenv" where
  "with_renewals we renewals lease ttl =
     we\<lparr>we_others := (\<lambda>n x.
       case we_others we n x of
         (x', Some d) \<Rightarrow> (x', Some d)
       | (x', None) \<Rightarrow>
           (case renew_until_cancelled lease ttl (renewals n) x' of
              (x'', res) \<Rightarrow> (x'', map_option LeaseGone res)))\<rparr>"

text \<open>The merge beside its renewals. A drop by the renewal task becomes its error; the task
  may still finish a tick after the merge has ended.\<close>

definition merge_under_lease ::
  "'f wenv \<Rightarrow> 'f renewals \<Rightarrow> ('w, 'f) libs \<Rightarrow> compactor_config \<Rightarrow> hypertable \<Rightarrow> compaction_lease \<Rightarrow> part list \<Rightarrow> i16
   \<Rightarrow> ('f, compactor_error, nat) act" where
  "merge_under_lease we renewals lb cfg ht lease grp output_level =
     act_bind (act_lift (compaction_identity_for (lb_blake3 lb) ht grp output_level)) (\<lambda>identity w.
       let ttl = cc_lease_ttl_ms cfg;
           (w1, r) = merge_parts (with_renewals we renewals lease ttl) lb ht lease identity grp output_level w
       in case r of
            Inl (Dropped (LeaseGone e)) \<Rightarrow> (w1, Inl (Raised (CCatalog e)))
          | Inl (Dropped Crash) \<Rightarrow> (w1, Inl (Dropped Crash))
          | _ \<Rightarrow>
              let (c, fs) = fst (renew_until_cancelled lease ttl (renewals (w_tick w1)) (w_catalog w1, w_files w1))
              in (w1\<lparr>w_catalog := c, w_files := fs\<rparr>, r))"

definition compact_partition ::
  "'f wenv \<Rightarrow> 'f renewals \<Rightarrow> ('w, 'f) libs \<Rightarrow> compactor_config \<Rightarrow> hypertable \<Rightarrow> compaction_lease \<Rightarrow> compaction_stats
   \<Rightarrow> ('f, compactor_error, compaction_stats) act" where
  "compact_partition we renewals lb cfg ht lease stats =
     act_bind (act_call we CCatalog (\<lambda>env. live_partition_parts env (ht_id ht) (cl_partition lease))) (\<lambda>ps.
       case eligible_level cfg ps of
         None \<Rightarrow> act_return stats
       | Some (l, grp) \<Rightarrow>
           act_bind (act_try (merge_under_lease we renewals lb cfg ht lease grp (wrap_i16 (l + 1)))) (\<lambda>r.
             case r of
               Inr parts_out \<Rightarrow>
                 act_return (stats\<lparr>cst_merged_groups := cst_merged_groups stats + 1,
                   cst_parts_in := cst_parts_in stats + length grp, cst_parts_out := cst_parts_out stats + parts_out\<rparr>)
             | Inl (CCatalog (Conflict _ _)) \<Rightarrow> act_return (stats\<lparr>cst_conflicts := cst_conflicts stats + 1\<rparr>)
             | Inl (CCatalog (LeaseLost _)) \<Rightarrow> act_return stats
             | Inl e \<Rightarrow> act_raise e))"

fun compact_partitions ::
  "'f wenv \<Rightarrow> 'f renewals \<Rightarrow> ('w, 'f) libs \<Rightarrow> compactor_config \<Rightarrow> uuid \<Rightarrow> hypertable \<Rightarrow> json list \<Rightarrow> compaction_stats
   \<Rightarrow> ('f, compactor_error, compaction_stats) act" where
  "compact_partitions we renewals lb cfg owner ht [] stats = act_return stats"
| "compact_partitions we renewals lb cfg owner ht (pv # pvs) stats =
     act_bind (claim we cfg owner (ht_id ht) pv) (\<lambda>held.
       case held of
         None \<Rightarrow> compact_partitions we renewals lb cfg owner ht pvs stats
       | Some lease \<Rightarrow>
           act_bind (act_try (compact_partition we renewals lb cfg ht lease stats)) (\<lambda>r.
           act_bind (release we lease) (\<lambda>_.
           act_bind (act_lift r) (\<lambda>stats'. compact_partitions we renewals lb cfg owner ht pvs stats'))))"

definition compact_hypertable ::
  "'f wenv \<Rightarrow> 'f renewals \<Rightarrow> ('w, 'f) libs \<Rightarrow> compactor \<Rightarrow> hypertable \<Rightarrow> compaction_stats
   \<Rightarrow> ('f, compactor_error, compactor \<times> compaction_stats) act" where
  "compact_hypertable we renewals lb cp ht stats =
     (let cfg = cp_config cp in
      act_bind (sweep_partitions cfg (cp_ladder cp) (ht_id ht) stats (\<lambda>after.
          act_call we CCatalog (\<lambda>env. compaction_candidates env (lb_text lb) (ht_id ht) (cp_owner_id cp)
            (wrap_i64 (int (cc_l0_fanout cfg))) (wrap_i64 (int (cc_fanout cfg))) (cc_candidate_limit cfg) after)))
        (\<lambda>(window, cursors, stats1).
      act_bind (compact_partitions we renewals lb cfg (cp_owner_id cp) ht (cw_partitions window) stats1) (\<lambda>stats2.
      act_bind (act_call we CCatalog (\<lambda>env. feed_head env (ht_id ht))) (\<lambda>head.
      act_bind (act_call we CCatalog (\<lambda>env. set_cursor env (cc_worker_name cfg) (ht_id ht) head)) (\<lambda>_.
        act_return (cp\<lparr>cp_ladder := cursors\<rparr>, stats2))))))"

fun compact_hypertables ::
  "'f wenv \<Rightarrow> 'f renewals \<Rightarrow> ('w, 'f) libs \<Rightarrow> compactor \<Rightarrow> hypertable list \<Rightarrow> compaction_stats
   \<Rightarrow> ('f, compactor_error, compactor \<times> compaction_stats) act" where
  "compact_hypertables we renewals lb cp [] stats = act_return (cp, stats)"
| "compact_hypertables we renewals lb cp (ht # hts) stats =
     act_bind (compact_hypertable we renewals lb cp ht stats) (\<lambda>(cp', stats').
       compact_hypertables we renewals lb cp' hts stats')"

definition compactor_run_once ::
  "'f wenv \<Rightarrow> 'f renewals \<Rightarrow> ('w, 'f) libs \<Rightarrow> compactor \<Rightarrow> ('f, compactor_error, compactor \<times> compaction_stats) act" where
  "compactor_run_once we renewals lb cp =
     act_bind (act_call we CCatalog list_hypertables) (\<lambda>hts. compact_hypertables we renewals lb cp hts default_stats)"

definition finalize_partition ::
  "'f wenv \<Rightarrow> 'f renewals \<Rightarrow> ('w, 'f) libs \<Rightarrow> compactor_config \<Rightarrow> hypertable \<Rightarrow> compaction_lease
   \<Rightarrow> ('f, compactor_error, bool) act" where
  "finalize_partition we renewals lb cfg ht lease =
     act_bind (act_call we CCatalog (\<lambda>env. partition_l0_quiet_since env (ht_id ht) (cl_partition lease)
         (int (cc_finalize_after_secs cfg) * 1000))) (\<lambda>quiet.
       if \<not> quiet then act_return False
       else act_bind (act_call we CCatalog (\<lambda>env. live_partition_parts env (ht_id ht) (cl_partition lease))) (\<lambda>ps.
         if runs_of ps < 2 then act_return False
         else
           let top = (case list_max (map (level \<circ> part_meta) ps) of Some l \<Rightarrow> l | None \<Rightarrow> 0)
           in act_bind (merge_under_lease we renewals lb cfg ht lease ps (wrap_i16 (top + 1))) (\<lambda>_. act_return True)))"

fun finalize_partitions ::
  "'f wenv \<Rightarrow> 'f renewals \<Rightarrow> ('w, 'f) libs \<Rightarrow> compactor_config \<Rightarrow> uuid \<Rightarrow> hypertable \<Rightarrow> json list \<Rightarrow> nat
   \<Rightarrow> ('f, compactor_error, nat) act" where
  "finalize_partitions we renewals lb cfg owner ht [] finalized = act_return finalized"
| "finalize_partitions we renewals lb cfg owner ht (pv # pvs) finalized =
     act_bind (claim we cfg owner (ht_id ht) pv) (\<lambda>held.
       case held of
         None \<Rightarrow> finalize_partitions we renewals lb cfg owner ht pvs finalized
       | Some lease \<Rightarrow>
           act_bind (act_try (finalize_partition we renewals lb cfg ht lease)) (\<lambda>r.
           act_bind (release we lease) (\<lambda>_.
             case r of
               Inr b \<Rightarrow> finalize_partitions we renewals lb cfg owner ht pvs (if b then finalized + 1 else finalized)
             | Inl (CCatalog (Conflict _ _)) \<Rightarrow> finalize_partitions we renewals lb cfg owner ht pvs finalized
             | Inl (CCatalog (LeaseLost _)) \<Rightarrow> finalize_partitions we renewals lb cfg owner ht pvs finalized
             | Inl e \<Rightarrow> act_raise e)))"

fun finalize_hypertables ::
  "'f wenv \<Rightarrow> 'f renewals \<Rightarrow> ('w, 'f) libs \<Rightarrow> compactor \<Rightarrow> hypertable list \<Rightarrow> nat \<Rightarrow> compaction_stats
   \<Rightarrow> ('f, compactor_error, compactor \<times> nat) act" where
  "finalize_hypertables we renewals lb cp [] finalized stats = act_return (cp, finalized)"
| "finalize_hypertables we renewals lb cp (ht # hts) finalized stats =
     (let cfg = cp_config cp in
      act_bind (sweep_partitions cfg (cp_finalize cp) (ht_id ht) stats (\<lambda>after.
          act_call we CCatalog (\<lambda>env. finalize_candidates env (lb_text lb) (ht_id ht) (cp_owner_id cp)
            (int (cc_finalize_after_secs cfg) * 1000) (cc_candidate_limit cfg) after)))
        (\<lambda>(window, cursors, stats').
      act_bind (finalize_partitions we renewals lb cfg (cp_owner_id cp) ht (cw_partitions window) finalized) (\<lambda>n.
        finalize_hypertables we renewals lb (cp\<lparr>cp_finalize := cursors\<rparr>) hts n stats')))"

definition finalize_once ::
  "'f wenv \<Rightarrow> 'f renewals \<Rightarrow> ('w, 'f) libs \<Rightarrow> compactor \<Rightarrow> ('f, compactor_error, compactor \<times> nat) act" where
  "finalize_once we renewals lb cp =
     act_bind (act_call we CCatalog list_hypertables) (\<lambda>hts. finalize_hypertables we renewals lb cp hts 0 default_stats)"

text \<open>\<open>run\<close>, over the events its \<open>select!\<close> takes.\<close>

datatype compactor_event = Tick | FinalizeTick | Shutdown

fun compactor_run ::
  "'f wenv \<Rightarrow> 'f renewals \<Rightarrow> ('w, 'f) libs \<Rightarrow> compactor \<Rightarrow> compactor_event list \<Rightarrow> ('f, compactor_error, compactor) act" where
  "compactor_run we renewals lb cp [] = act_return cp"
| "compactor_run we renewals lb cp (Shutdown # es) = act_return cp"
| "compactor_run we renewals lb cp (Tick # es) =
     act_bind (compactor_run_once we renewals lb cp) (\<lambda>(cp', _). compactor_run we renewals lb cp' es)"
| "compactor_run we renewals lb cp (FinalizeTick # es) =
     act_bind (finalize_once we renewals lb cp) (\<lambda>(cp', _). compactor_run we renewals lb cp' es)"

end
