(* ===== verification/Contents.thy ===== *)
theory Contents
  imports Compactor CommitSafety "HOL-Library.Code_Target_Nat"
begin

text \<open>
  A hypertable as the multiset of its rows: the abstract view under which the write path's
  operations are specified. What a part contributes is what a rewrite reads of its object,
  adapted to the current schema. A \<open>REPLACE\<close> exchanges the rows of its inputs for those of its
  outputs; the compactor's merge leaves the multiset as it is. The second half shows that the
  objects a merge wrote, and the ones it read, are still in the store when it commits.
\<close>

section \<open>What a rewrite reads of an object\<close>

definition file_view :: "('w, 'f) arrow \<Rightarrow> datafusion \<Rightarrow> table_columns \<Rightarrow> 'f \<Rightarrow> cells list option" where
  "file_view L D cols f =
     (case part_stream L D (physical_schema cols) cols [] (f, None) of
        Inl _ \<Rightarrow> None
      | Inr ps \<Rightarrow> (case collect_stream (ps_stream ps) of Inl _ \<Rightarrow> None | Inr bs \<Rightarrow> Some (concat (map rb_rows bs))))"

definition row_fits :: "schema \<Rightarrow> cells \<Rightarrow> bool" where
  "row_fits s r \<longleftrightarrow> length r = length s \<and> list_all (\<lambda>(f, c). c = cell.Null \<longrightarrow> f_nullable f) (zip s r)"

lemma map_sum_eq_Inr: "map_sum f g r = Inr y \<longleftrightarrow> (\<exists>x. r = Inr x \<and> y = g x)"
  by (cases r) auto

lemma apply_specs_lengths:
  assumes "apply_specs D s specs rs = Inr rs'" "\<forall>r \<in> set rs. length r = n"
  shows "\<forall>r \<in> set rs'. length r = n"
  using assms
proof (induction specs arbitrary: rs)
  case (Cons spec specs)
  have keep: "\<forall>r \<in> set (set_column idx f computed rs). length r = n" for idx f computed
    using Cons.prems(2) by (auto simp: set_column_def dest: set_zip_leftD)
  show ?case
    using Cons.prems Cons.IH [of rs] Cons.IH [OF _ keep]
    by (auto simp: rbind_eq_Inr_iff split: column_kind.splits)
qed simp

lemma apply_specs_alias:
  "\<forall>spec \<in> set specs. \<exists>e. cs_kind spec = Alias e \<Longrightarrow> apply_specs D s specs rs = Inr rs"
  by (induction specs) auto

lemma adapt_batch_fits:
  assumes "adapt_batch D s cols p file_schema item = Inr b"
  shows "rb_schema b = s \<and> (\<forall>r \<in> set (rb_rows b). row_fits s r)"
proof -
  from assms obtain rs adapted rs' where item: "item = Some rs"
    and a: "adapt_to_schema \<lparr>rb_schema = file_schema, rb_rows = rs\<rparr> s = Inr adapted"
    and m: "apply_specs D (rb_schema adapted) (filter (\<lambda>spec. index_of file_schema (cs_name spec) = None) cols)
      (rb_rows adapted) = Inr rs'" and b: "try_batch (rb_schema adapted) rs' = Some b"
    by (auto simp: adapt_batch_def rbind_eq_Inr_iff map_sum_eq_Inr apply_missing_defaults_and_materialized_def
        apply_defaults_and_materialized_def)
  from a have ad: "rb_schema adapted = s" "\<forall>r \<in> set (rb_rows adapted). length r = length s"
    by (auto simp: adapt_to_schema_def split: if_splits dest!: try_batch_Some)
  from apply_specs_lengths [OF m ad(2)] b ad(1) show ?thesis
    by (auto simp: try_batch_def row_fits_def list_all_iff split: if_splits)
qed

lemma index_of_nth: "distinct (map f_name s) \<Longrightarrow> i < length s \<Longrightarrow> index_of s (f_name (s ! i)) = Some i"
proof (induction s arbitrary: i)
  case (Cons f s)
  then show ?case by (cases i) (auto simp: image_iff nth_mem)
qed simp

lemma missing_are_aliases:
  "spec \<in> set (filter (\<lambda>spec. index_of (physical_schema cols) (cs_name spec) = None) cols) \<Longrightarrow> \<exists>e. cs_kind spec = Alias e"
  by (auto simp: index_of_None_iff physical_schema_def schema_where_def field_of_def image_iff split: column_kind.splits)
    (metis column_kind.exhaust is_alias.simps)

lemma adapt_batch_id:
  assumes "distinct (map f_name (physical_schema cols))" "\<forall>r \<in> set rs. row_fits (physical_schema cols) r"
  shows "adapt_batch D (physical_schema cols) cols p (physical_schema cols) (Some rs)
    = Inr \<lparr>rb_schema = physical_schema cols, rb_rows = rs\<rparr>"
proof -
  let ?s = "physical_schema cols"
  have idx: "f \<in> set ?s \<Longrightarrow> \<exists>i. index_of ?s (f_name f) = Some i \<and> ?s ! i = f" for f
    using index_of_nth [OF assms(1)] by (metis in_set_conv_nth)
  have "map (\<lambda>f. case index_of ?s (f_name f) of Some i \<Rightarrow> r ! i | None \<Rightarrow> cell.Null) ?s = r" if "length r = length ?s" for r
    using that by (intro nth_equalityI) (simp_all add: index_of_nth [OF assms(1)])
  then have "map (\<lambda>r. map (\<lambda>f. case index_of ?s (f_name f) of Some i \<Rightarrow> r ! i | None \<Rightarrow> cell.Null) ?s) rs = rs"
    using assms(2) by (intro map_idI) (simp add: row_fits_def)
  moreover have t: "try_batch ?s rs = Some \<lparr>rb_schema = ?s, rb_rows = rs\<rparr>"
    using assms(2) by (simp add: try_batch_def row_fits_def list_all_iff)
  moreover have "list_all (\<lambda>f. case index_of ?s (f_name f) of Some i \<Rightarrow> f_type (?s ! i) = f_type f | None \<Rightarrow> True) ?s"
    using idx by (fastforce simp: list_all_iff split: option.splits)
  ultimately have "adapt_to_schema \<lparr>rb_schema = ?s, rb_rows = rs\<rparr> ?s = Inr \<lparr>rb_schema = ?s, rb_rows = rs\<rparr>"
    unfolding adapt_to_schema_def rbatch.simps by simp
  moreover have "apply_specs D ?s (filter (\<lambda>spec. index_of ?s (cs_name spec) = None) cols) rs = Inr rs"
    by (rule apply_specs_alias) (use missing_are_aliases in blast)
  ultimately show ?thesis
    by (simp add: adapt_batch_def apply_missing_defaults_and_materialized_def apply_defaults_and_materialized_def t)
qed

lemma collect_stream_Inr:
  "collect_stream bs = Inr xs \<longleftrightarrow> bs = map Inr xs"
  by (induction bs arbitrary: xs) (auto simp: rbind_eq_Inr_iff map_sum_eq_Inr)

text \<open>A file of the current schema whose rows fit it reads back as its rows.\<close>

lemma file_view_written:
  assumes "distinct (map f_name (physical_schema cols))" "pq_open L f = Some (physical_schema cols, map Some bs)"
    "\<forall>r \<in> set (concat bs). row_fits (physical_schema cols) r"
  shows "file_view L D cols f = Some (concat bs)"
proof -
  let ?s = "physical_schema cols"
  have "map (adapt_batch D ?s cols [] ?s) (map Some bs) = map Inr (map (\<lambda>rs. \<lparr>rb_schema = ?s, rb_rows = rs\<rparr>) bs)"
    using assms(1,3) by (simp add: adapt_batch_id)
  then have "collect_stream (map (adapt_batch D ?s cols [] ?s) (map Some bs))
      = Inr (map (\<lambda>rs. \<lparr>rb_schema = ?s, rb_rows = rs\<rparr>) bs)" by (simp only: collect_stream_Inr)
  then show ?thesis by (simp add: file_view_def part_stream_def assms(2) comp_def)
qed

section \<open>The rows of a hypertable\<close>

definition view_rows :: "('f \<Rightarrow> cells list option) \<Rightarrow> 'f \<Rightarrow> cells multiset" where
  "view_rows V f = (case V f of None \<Rightarrow> {#} | Some rs \<Rightarrow> mset rs)"

definition object_rows :: "('f \<Rightarrow> cells list option) \<Rightarrow> (string \<Rightarrow> 'f option) \<Rightarrow> part_meta \<Rightarrow> cells multiset" where
  "object_rows V fs m =
     (case fs (path m) of None \<Rightarrow> {#} | Some f \<Rightarrow> view_rows V f)"

definition contents :: "('f \<Rightarrow> cells list option) \<Rightarrow> (string \<Rightarrow> 'f option) \<Rightarrow> catalog \<Rightarrow> hypertable_id \<Rightarrow> cells multiset" where
  "contents V fs s ht =
     sum_list (map (object_rows V fs \<circ> pr_meta) (filter (\<lambda>p. pr_hypertable p = ht \<and> live p) (parts s)))"

lemma contents_same_tables: "same_tables s s' \<Longrightarrow> contents V fs s' ht = contents V fs s ht"
  by (simp add: contents_def same_tables_def)

lemma tombstone_split:
  "sum_list (map (g \<circ> pr_meta) (filter (\<lambda>p. pr_hypertable p = h \<and> live p) (tombstone_rows ht cid ids rows)))
     + (if h = ht then sum_list (map (g \<circ> pr_meta) (filter (tombstone_hit ht ids) rows)) else 0)
   = sum_list (map (g \<circ> pr_meta) (filter (\<lambda>p. pr_hypertable p = h \<and> live p) rows))"
  for g :: "part_meta \<Rightarrow> cells multiset"
  unfolding tombstone_rows_def
  by (induction rows) (auto simp: tombstone_hit_def live_def algebra_simps)

lemma new_rows_sum:
  "sum_list (map (g \<circ> pr_meta) (filter (\<lambda>p. pr_hypertable p = h \<and> live p) (new_rows de ht cid n ps)))
     = (if h = ht then sum_list (map g ps) else 0)"
  for g :: "part_meta \<Rightarrow> cells multiset"
  by (induction ps arbitrary: n) (auto simp: new_rows_Cons part_row_of_def live_def)

lemma contents_applied:
  "contents V fs (applied env de ht op identity rows s) h
     + (if h = ht then sum_list (map (object_rows V fs \<circ> pr_meta) (filter (tombstone_hit ht (op_inputs op)) (parts s))) else 0)
   = contents V fs s h + (if h = ht then sum_list (map (object_rows V fs) (op_outputs op)) else 0)"
  using tombstone_split [of "object_rows V fs" h ht "commit_seq s + 1" "op_inputs op" "parts s"]
    new_rows_sum [of "object_rows V fs" h de ht "commit_seq s + 1" "part_seq s" "op_outputs op"]
  by (simp add: contents_def applied_def Let_def algebra_simps split: if_splits)

lemma inputs_sum:
  fixes h :: "part_meta \<Rightarrow> cells multiset"
  assumes "wf_parts s" "inputs_live s ht (map part_id grp)"
    and "\<forall>p \<in> set grp. \<exists>r \<in> set (parts s). pr_id r = part_id p \<and> pr_meta r = part_meta p"
  shows "sum_list (map (h \<circ> pr_meta) (filter (tombstone_hit ht (map part_id grp)) (parts s))) = sum_list (map (h \<circ> part_meta) grp)"
proof -
  let ?ids = "map part_id grp" and ?hits = "filter (tombstone_hit ht (map part_id grp)) (parts s)"
  from assms(1,2) have ids: "distinct ?ids" "set ?ids \<subseteq> live_ids s ht" using inputs_live_iff by blast+
  define row where "row i = (THE r. r \<in> set (parts s) \<and> pr_id r = i)" for i
  have row: "row (pr_id r) = r" if "r \<in> set (parts s)" for r
    unfolding row_def using that part_by_id [OF assms(1)] by (intro the_equality) auto
  have "distinct ?hits" using assms(1) by (auto simp: wf_parts_def strict_sorted_iff distinct_map)
  then have "sum_list (map (h \<circ> pr_meta) ?hits) = sum (h \<circ> pr_meta) (set ?hits)" by (rule sum_list_distinct_conv_sum_set)
  also have "\<dots> = sum (\<lambda>i. h (pr_meta (row i))) (pr_id ` set ?hits)"
    using row part_by_id [OF assms(1)] by (subst sum.reindex) (auto simp: inj_on_def)
  also have "pr_id ` set ?hits = set ?ids"
  proof
    show "pr_id ` set ?hits \<subseteq> set ?ids" by (auto simp: tombstone_hit_def)
    show "set ?ids \<subseteq> pr_id ` set ?hits"
    proof
      fix i assume i: "i \<in> set ?ids"
      with ids(2) obtain r where "r \<in> set (parts s)" "pr_hypertable r = ht" "live r" "pr_id r = i"
        unfolding live_ids_def by blast
      with i show "i \<in> pr_id ` set ?hits" by (intro image_eqI [of _ _ r]) (simp_all add: tombstone_hit_def)
    qed
  qed
  also have "sum (\<lambda>i. h (pr_meta (row i))) (set ?ids) = sum_list (map (\<lambda>i. h (pr_meta (row i))) ?ids)"
    using sum_list_distinct_conv_sum_set [OF ids(1), of "\<lambda>i. h (pr_meta (row i))"] by simp
  also have "map (\<lambda>i. h (pr_meta (row i))) ?ids = map (h \<circ> part_meta) grp"
    using assms(3) by (auto dest!: row)
  finally show ?thesis .
qed

text \<open>A replacement trades the rows of its inputs for those of its outputs, in whatever way the
  call ends; a call without effect leaves everything as it was.\<close>

definition traded ::
  "('f \<Rightarrow> cells list option) \<Rightarrow> (string \<Rightarrow> 'f option) \<Rightarrow> hypertable_id \<Rightarrow> part list \<Rightarrow> part_meta list \<Rightarrow> catalog \<Rightarrow> catalog \<Rightarrow> bool" where
  "traded V fs ht grp new s s' \<longleftrightarrow> (\<forall>h.
     contents V fs s' h + (if h = ht then sum_list (map (object_rows V fs \<circ> part_meta) grp) else {#})
     = contents V fs s h + (if h = ht then sum_list (map (object_rows V fs) new) else {#}))"

lemma replace_traded:
  assumes "wf_log s" "took_effect env de ht (Replace (map part_id grp) new) identity offsets lease s s'"
    and "\<forall>p \<in> set grp. \<exists>x \<in> set (parts s). pr_id x = part_id p \<and> pr_meta x = part_meta p"
  shows "traded V fs ht grp new s s'"
  unfolding traded_def
proof
  fix h
  from assms(2) obtain rows f where s': "s' = (applied env de ht (Replace (map part_id grp) new) identity rows s)\<lparr>armed_fault := f\<rparr>"
    and l: "inputs_live s ht (map part_id grp)" by (auto simp: took_effect_def)
  have "contents V fs s' h = contents V fs (applied env de ht (Replace (map part_id grp) new) identity rows s) h"
    by (simp add: s' contents_def)
  moreover have "wf_parts s" using assms(1) by (simp add: wf_log_def)
  note inputs_sum [OF this l assms(3), of "object_rows V fs"]
  ultimately show "contents V fs s' h + (if h = ht then sum_list (map (object_rows V fs \<circ> part_meta) grp) else {#})
     = contents V fs s h + (if h = ht then sum_list (map (object_rows V fs) new) else {#})"
    using contents_applied [of V fs env de ht "Replace (map part_id grp) new" identity rows s h]
    by (auto split: if_splits)
qed

lemma replace_contents:
  fixes grp :: "part list"
  assumes "wf_log s" "commit_txn env de ht (Replace (map part_id grp) new) identity offsets lease s = (s', r)"
    and "\<forall>p \<in> set grp. \<exists>x \<in> set (parts s). pr_id x = part_id p \<and> pr_meta x = part_meta p"
    and "sum_list (map (object_rows V fs) new) = sum_list (map (object_rows V fs \<circ> part_meta) grp)"
  shows "contents V fs s' h = contents V fs s h"
  using assms(2)
proof (cases rule: commit_txn_cases)
  case untouched
  then show ?thesis by (simp add: contents_same_tables)
next
  case effect
  from replace_traded [OF assms(1) effect(1) assms(3), of V fs] show ?thesis
    unfolding traded_def assms(4) by (metis add_right_cancel)
qed

section \<open>Objects stay until the commit\<close>

text \<open>What is assumed of others: they act on the catalog through its operations, and they leave
  alone the objects \<open>G\<close> the worker reads and the paths \<open>P\<close> it draws, which are distinct and new.\<close>

abbreviation catalog_run :: "catalog \<Rightarrow> catalog \<Rightarrow> bool" where
  "catalog_run \<equiv> (catalog_step (\<lambda>_. True))\<^sup>*\<^sup>*"

definition store_env :: "'f wenv \<Rightarrow> (string \<rightharpoonup> 'f) \<Rightarrow> (nat \<Rightarrow> string set) \<Rightarrow> bool" where
  "store_env we G P \<longleftrightarrow> (\<forall>m n. m \<noteq> n \<longrightarrow> P m \<inter> P n = {}) \<and> \<Union>(range P) \<inter> dom G = {} \<and>
     (\<forall>n x. catalog_run (fst x) (fst (fst (we_others we n x))) \<and>
        (\<forall>p f. p \<in> dom G \<union> \<Union>(range P) \<and> snd x p = Some f \<longrightarrow> snd (fst (we_others we n x)) p = Some f))"

text \<open>The objects read are there, and so is everything uploaded since upload \<open>n0\<close>; \<open>cur\<close> is the path
  of the file being written.\<close>

definition objects_ok ::
  "(string \<rightharpoonup> 'f) \<Rightarrow> (nat \<Rightarrow> string set) \<Rightarrow> nat \<Rightarrow> catalog \<Rightarrow> string option \<Rightarrow> 'f world \<Rightarrow> bool" where
  "objects_ok G P n0 c0 cur w \<longleftrightarrow>
     (\<forall>p f. G p = Some f \<longrightarrow> w_files w p = Some f) \<and> n0 \<le> length (w_uploads w) \<and> catalog_run c0 (w_catalog w) \<and>
     distinct (map fst (drop n0 (w_uploads w))) \<and>
     (\<forall>x \<in> set (drop n0 (w_uploads w)). w_files w (fst x) = Some (snd x) \<and> (\<exists>m < w_tick w. fst x \<in> P m) \<and> cur \<noteq> Some (fst x)) \<and>
     (\<forall>p. cur = Some p \<longrightarrow> (\<exists>m < w_tick w. p \<in> P m))"

definition valid :: "('f world \<Rightarrow> bool) \<Rightarrow> ('f, 'e, 'a) act \<Rightarrow> ('a \<Rightarrow> 'f world \<Rightarrow> bool) \<Rightarrow> bool" where
  "valid Pre m Post \<longleftrightarrow> (\<forall>w w' x. Pre w \<and> m w = (w', Inr x) \<longrightarrow> Post x w')"

lemma validD: "valid Pre m Post \<Longrightarrow> m w = (w', Inr x) \<Longrightarrow> Pre w \<Longrightarrow> Post x w'"
  by (simp add: valid_def)

lemma valid_bind: "valid A m B \<Longrightarrow> (\<And>x. valid (B x) (f x) C) \<Longrightarrow> valid A (act_bind m f) C"
  unfolding valid_def act_bind_Inr by blast

lemma valid_return [simp]: "valid A (act_return x) B \<longleftrightarrow> (\<forall>w. A w \<longrightarrow> B x w)"
  by (simp add: valid_def)

lemma valid_bind_lift: "(\<And>x. valid A (f x) C) \<Longrightarrow> valid A (act_bind (act_lift r) f) C"
  by (auto simp: valid_def act_bind_Inr)

lemma store_envD:
  assumes "store_env we G P"
  shows "m \<noteq> n \<Longrightarrow> P m \<inter> P n = {}" "\<Union>(range P) \<inter> dom G = {}"
    "catalog_run (fst x) (fst (fst (we_others we n x)))"
    "p \<in> dom G \<union> \<Union>(range P) \<Longrightarrow> snd x p = Some f \<Longrightarrow> snd (fst (we_others we n x)) p = Some f"
proof -
  note c = assms [unfolded store_env_def]
  show "m \<noteq> n \<Longrightarrow> P m \<inter> P n = {}" by (rule c [THEN conjunct1, rule_format])
  show "\<Union>(range P) \<inter> dom G = {}" by (rule c [THEN conjunct2, THEN conjunct1])
  note rest = c [THEN conjunct2, THEN conjunct2, THEN spec, THEN spec]
  show "catalog_run (fst x) (fst (fst (we_others we n x)))" by (rule rest [THEN conjunct1])
  show "p \<in> dom G \<union> \<Union>(range P) \<Longrightarrow> snd x p = Some f \<Longrightarrow> snd (fst (we_others we n x)) p = Some f"
    by (rule rest [THEN conjunct2, rule_format]) (rule conjI)
qed

lemma objects_others:
  assumes "store_env we G P" "objects_ok G P n0 c0 cur w"
  shows "objects_ok G P n0 c0 cur (others_ran we w)"
proof -
  obtain c fs d where o: "we_others we (w_tick w) (w_catalog w, w_files w) = ((c, fs), d)" by (metis surj_pair)
  have w': "others_ran we w = w\<lparr>w_tick := Suc (w_tick w), w_catalog := c, w_files := fs\<rparr>" by (simp add: others_ran_def o)
  note env = store_envD(3,4) [OF assms(1)]
  have run: "catalog_run (w_catalog w) c" using env(1) [of "(w_catalog w, w_files w)" "w_tick w"] by (simp only: o fst_conv snd_conv)
  have keep: "fs p = Some f" if "p \<in> dom G \<union> \<Union>(range P)" "w_files w p = Some f" for p f
    using env(2) [OF that(1), of "(w_catalog w, w_files w)" f "w_tick w"] that(2) by (simp only: o fst_conv snd_conv)
  have "catalog_run c0 (w_catalog w)" using assms(2) by (simp add: objects_ok_def)
  then have "catalog_run c0 c" using run by (rule rtranclp_trans)
  moreover have "fs p = Some f" if "G p = Some f" for p f
    using that assms(2) by (intro keep) (auto simp: objects_ok_def)
  moreover have "fs (fst x) = Some (snd x)" if "x \<in> set (drop n0 (w_uploads w))" for x
    using that assms(2) by (intro keep) (auto simp: objects_ok_def)
  ultimately show ?thesis using assms(2) unfolding w' objects_ok_def by (auto simp: less_Suc_eq)
qed

lemma valid_call:
  assumes "store_env we G P" "\<And>env s. catalog_run s (fst (m env s))"
  shows "valid (objects_ok G P n0 c0 cur) (act_call we err m) (\<lambda>_ w. objects_ok G P n0 c0 cur w)"
  unfolding valid_def
proof (intro allI impI, elim conjE)
  fix w w' x assume w: "objects_ok G P n0 c0 cur w" and r: "act_call we err m w = (w', Inr x)"
  then obtain c where c: "m (we_db we (w_tick w)) (w_catalog (others_ran we w)) = (c, Inr x)"
    "w' = (others_ran we w)\<lparr>w_catalog := c\<rparr>" by (auto simp: act_call_Inr)
  have "catalog_run (w_catalog (others_ran we w)) c" using assms(2) [of "w_catalog (others_ran we w)"] c(1) by (metis fst_conv)
  with objects_others [OF assms(1) w] show "objects_ok G P n0 c0 cur w'"
    by (auto simp: objects_ok_def c(2) intro: rtranclp_trans)
qed

lemma valid_io:
  "store_env we G P \<Longrightarrow> valid (objects_ok G P n0 c0 cur) (act_io we err) (\<lambda>_ w. objects_ok G P n0 c0 cur w)"
  by (auto simp: valid_def act_io_Inr intro: objects_others)

lemma valid_head:
  "store_env we G P \<Longrightarrow> valid (objects_ok G P n0 c0 cur) (act_head we err sz p) (\<lambda>_ w. objects_ok G P n0 c0 cur w)"
  by (auto simp: valid_def dest!: act_head_Inr intro: objects_others)

lemma valid_put:
  assumes "store_env we G P"
  shows "valid (objects_ok G P n0 c0 (Some p)) (act_put we err p f) (\<lambda>_ w. objects_ok G P n0 c0 None w)"
  unfolding valid_def
proof (intro allI impI, elim conjE)
  fix w w' x assume w: "objects_ok G P n0 c0 (Some p) w" and r: "act_put we err p f w = (w', Inr x)"
  let ?w1 = "others_ran we w"
  from r have w': "w' = ?w1\<lparr>w_files := (w_files ?w1)(p := Some f), w_uploads := w_uploads ?w1 @ [(p, f)]\<rparr>"
    by (simp add: act_put_Inr)
  note o = objects_others [OF assms w]
  have "p \<in> \<Union>(range P)" using o by (auto simp: objects_ok_def)
  then have "G p = None" using store_envD(2) [OF assms] by (auto simp: domIff disjoint_iff)
  with o show "objects_ok G P n0 c0 None w'" unfolding objects_ok_def w' by auto
qed

text \<open>The chunk writer with numbered paths and a catalog call before each file.\<close>

definition numbered :: "'f wenv \<Rightarrow> (nat \<Rightarrow> string set) \<Rightarrow> 'f chunk_writer \<Rightarrow> bool" where
  "numbered we P cw \<longleftrightarrow> (\<exists>q. cw_next_path cw = (\<lambda>w. (w, Inr (q (w_tick w)))) \<and> (\<forall>n. q n \<in> P n)) \<and>
     (\<forall>p. \<exists>err m. cw_on_open cw p = act_call we err m \<and> (\<forall>env s. catalog_run s (fst (m env s))))"

lemma valid_async:
  "store_env we G P \<Longrightarrow> valid (objects_ok G P n0 c0 cur) (async_step we res) (\<lambda>_ w. objects_ok G P n0 c0 cur w)"
  by (auto simp: async_step_def valid_def act_bind_Inr act_io_Inr intro: objects_others)

lemma valid_write_slice:
  "store_env we G P \<Longrightarrow> valid (objects_ok G P n0 c0 (Some (of_path f))) (write_slice we L f k b)
    (\<lambda>f' w. objects_ok G P n0 c0 (Some (of_path f')) w)"
  unfolding write_slice_def by (rule valid_bind [OF valid_async]) auto

lemma fresh_path:
  assumes "store_env we G P" "objects_ok G P n0 c0 cur w" "p \<in> P (w_tick w)" "x \<in> set (drop n0 (w_uploads w))"
  shows "p \<noteq> fst x"
proof -
  obtain m where "m < w_tick w" "fst x \<in> P m" using assms(2,4) by (auto simp: objects_ok_def)
  moreover have "m < w_tick w \<Longrightarrow> P m \<inter> P (w_tick w) = {}" using store_envD(1) [OF assms(1)] by simp
  ultimately show ?thesis using assms(3) by auto
qed

text \<open>A path drawn before a catalog call, for the file written after it.\<close>

lemma objects_draw:
  assumes "store_env we G P" "\<And>env s. catalog_run s (fst (m env s))" "act_call we err m w = (w', Inr x)"
    "objects_ok G P n0 c0 None w" "p \<in> P (w_tick w)"
  shows "objects_ok G P n0 c0 (Some p) w'"
proof -
  have "objects_ok G P n0 c0 None w'" by (rule validD [OF valid_call [OF assms(1,2)] assms(3,4)])
  moreover have "w_tick w' = Suc (w_tick w)" "w_uploads w' = w_uploads w" using assms(3) by (auto simp: act_call_Inr)
  moreover note fresh_path [OF assms(1,4,5)]
  ultimately show ?thesis using assms(5) by (auto simp: objects_ok_def)
qed

lemma valid_open_file:
  assumes "store_env we G P" "numbered we P cw"
  shows "valid (objects_ok G P n0 c0 None) (open_file L cw k d) (\<lambda>f w. objects_ok G P n0 c0 (Some (of_path f)) w)"
  unfolding valid_def
proof (intro allI impI, elim conjE)
  fix w w' f assume w: "objects_ok G P n0 c0 None w" and r: "open_file L cw k d w = (w', Inr f)"
  obtain q where q: "cw_next_path cw = (\<lambda>w. (w, Inr (q (w_tick w))))" "\<And>n. q n \<in> P n"
    using assms(2) unfolding numbered_def by blast
  obtain err m where o: "cw_on_open cw (q (w_tick w)) = act_call we err m" and run: "\<And>env s. catalog_run s (fst (m env s))"
    using assms(2) unfolding numbered_def by blast
  from r q(1) o have c: "act_call we err m w = (w', Inr ())" and p: "of_path f = q (w_tick w)"
    by (auto simp: open_file_def act_bind_Inr)
  from objects_draw [OF assms(1) run c w q(2)] show "objects_ok G P n0 c0 (Some (of_path f)) w'" by (simp only: p)
qed

lemma valid_close_file:
  assumes "store_env we G P"
  shows "valid (objects_ok G P n0 c0 (Some (of_path f))) (close_file we L f) (\<lambda>_ w. objects_ok G P n0 c0 None w)"
proof -
  have flush: "valid (objects_ok G P n0 c0 (Some (of_path f)))
      (if of_key_min f \<noteq> of_key_max f then act_bind (async_step we (pw_flush L (of_writer f))) (\<lambda>w.
         act_return (w, kb_finish (ar_ser L) (of_keys f), key_row_groups (pw_row_groups L w) (of_packing_key f)))
       else act_return (of_writer f, None, None)) (\<lambda>_ w. objects_ok G P n0 c0 (Some (of_path f)) w)"
    using assms by (auto intro!: valid_bind [OF valid_async])
  have rest: "valid (objects_ok G P n0 c0 (Some (of_path f)))
      (act_bind (act_put we e1 (of_path f) pq) (\<lambda>_. act_bind (act_head we e2 sz (of_path f)) (\<lambda>n. act_return (g n))))
      (\<lambda>_ w. objects_ok G P n0 c0 None w)" for e1 pq e2 sz g
    by (rule valid_bind [OF valid_put [OF assms]], rule valid_bind [OF valid_head [OF assms]]) simp
  show ?thesis unfolding close_file_def
    by (rule valid_bind [OF flush])
      (auto split: prod.split intro!: valid_bind_lift rest)
qed

abbreviation open_path :: "'w write_state \<Rightarrow> string option" where
  "open_path st \<equiv> map_option of_path (ws_open st)"

lemma valid_close_open:
  assumes "store_env we G P"
  shows "valid (objects_ok G P n0 c0 (Some (of_path f))) (close_open we L f st) (\<lambda>st' w. objects_ok G P n0 c0 (open_path st') w)"
  unfolding close_open_def by (rule valid_bind [OF valid_close_file [OF assms]]) simp

lemma valid_consume_rows:
  assumes "store_env we G P" "numbered we P cw"
  shows "valid (objects_ok G P n0 c0 (open_path st)) (consume_rows we L cw k run start st)
    (\<lambda>st' w. objects_ok G P n0 c0 (open_path st') w)"
proof (induction "num_rows run - start" arbitrary: start st rule: less_induct)
  case less
  let ?I = "\<lambda>cur. objects_ok G P n0 c0 cur"
  show ?case
  proof (cases "start < num_rows run")
    case True
    show ?thesis unfolding valid_def
    proof (intro allI impI, elim conjE)
      fix w w' st' assume w: "?I (open_path st) w" and r: "consume_rows we L cw k run start st w = (w', Inr st')"
      let ?n = "min (num_rows run - start) (max (wo_max_row_group_rows (cw_opts cw)) 1)"
      obtain f w1 f1 w2 f2 w3 st2 w4 where
        a: "(case ws_open st of None \<Rightarrow> open_file L cw k (ws_last_closed_key st = Some k) | Some f \<Rightarrow> act_return f) w = (w1, Inr f)"
        and b: "(if pw_in_progress_rows L (of_writer f) > 0 \<and> pw_in_progress_rows L (of_writer f) + (num_rows run - start) >
              max (wo_max_row_group_rows (cw_opts cw)) 1
            then act_bind (async_step we (pw_flush L (of_writer f))) (\<lambda>w. act_return (f\<lparr>of_writer := w\<rparr>))
            else act_return f) w1 = (w2, Inr f1)"
        and c: "write_slice we L f1 k (batch_slice run start ?n) w2 = (w3, Inr f2)"
        and d: "(if cut_after_slice L (cw_placement cw) f2 then close_open we L f2 (st\<lparr>ws_open := Some f2\<rparr>)
            else act_return (st\<lparr>ws_open := Some f2\<rparr>)) w3 = (w4, Inr st2)"
        and e: "consume_rows we L cw k run (start + ?n) st2 w4 = (w', Inr st')" by (rule consume_step [OF True r])
      have 1: "?I (Some (of_path f)) w1"
        using a w validD [OF valid_open_file [OF assms], of L k "ws_last_closed_key st = Some k" w w1 f n0 c0] by (cases "ws_open st") auto
      have 2: "?I (Some (of_path f1)) w2"
        using b 1 validD [OF valid_async [OF assms(1)], of "pw_flush L (of_writer f)"]
        by (fastforce simp: act_bind_Inr split: if_splits)
      have 3: "?I (Some (of_path f2)) w3" by (rule validD [OF valid_write_slice [OF assms(1)] c 2])
      have 4: "?I (open_path st2) w4"
        using d 3 validD [OF valid_close_open [OF assms(1)], of L f2 "st\<lparr>ws_open := Some f2\<rparr>" w3 w4 st2] by (auto split: if_splits)
      have "num_rows run - (start + ?n) < num_rows run - start" using True by simp
      from validD [OF less [OF this] e 4] show "?I (open_path st') w'" .
    qed
  qed (simp add: consume_rows.simps [of _ _ _ _ _ start])
qed

lemma valid_consume_runs:
  assumes "store_env we G P" "numbered we P cw"
  shows "valid (objects_ok G P n0 c0 (open_path st)) (consume_runs we L cw runs st)
    (\<lambda>st' w. objects_ok G P n0 c0 (open_path st') w)"
proof (induction runs arbitrary: st)
  case (Cons kr runs)
  have "valid (objects_ok G P n0 c0 (open_path st)) (consume_key_run we L cw k run st)
      (\<lambda>st' w. objects_ok G P n0 c0 (open_path st') w)" for k run
    unfolding consume_key_run_def
    by (rule valid_bind [OF _ valid_consume_rows [OF assms]])
      (auto split: option.split intro!: valid_close_open [OF assms(1)])
  from valid_bind [OF this Cons.IH] show ?case by (cases kr) simp
qed simp

lemma valid_write_batches:
  assumes "store_env we G P" "numbered we P cw"
  shows "valid (objects_ok G P n0 c0 (open_path st)) (write_batches we L cw stream st)
    (\<lambda>st' w. objects_ok G P n0 c0 (open_path st') w)"
proof (induction stream arbitrary: st)
  case (Cons r stream)
  show ?case unfolding write_batches.simps
    by (rule valid_bind_lift, rule valid_bind_lift, rule valid_bind [OF valid_consume_runs [OF assms]], rule Cons.IH)
qed simp

lemma valid_write_chunks:
  assumes "store_env we G P" "numbered we P cw"
  shows "valid (objects_ok G P n0 c0 None) (write_chunks we L cw stream) (\<lambda>_ w. objects_ok G P n0 c0 None w)"
  unfolding write_chunks_def
proof (rule valid_bind)
  show "valid (objects_ok G P n0 c0 None) (write_batches we L cw stream \<lparr>ws_open = None, ws_outputs = [], ws_last_closed_key = None\<rparr>)
      (\<lambda>st w. objects_ok G P n0 c0 (open_path st) w)"
    using valid_write_batches [OF assms, of n0 c0 "\<lparr>ws_open = None, ws_outputs = [], ws_last_closed_key = None\<rparr>" L stream] by simp
qed (auto split: option.split intro!: valid_bind [OF valid_close_file [OF assms(1)]])

section \<open>Reading the inputs of a merge\<close>

lemma part_streams_Inr:
  assumes "store_env we G P" "part_streams we L D s cols ps w = (w', Inr streams)" "objects_ok G P n0 c0 None w"
    "\<forall>p \<in> set ps. path (part_meta p) \<in> dom G"
  shows "objects_ok G P n0 c0 None w' \<and> w_uploads w' = w_uploads w \<and>
    list_all2 (\<lambda>p st. \<exists>f n. G (path (part_meta p)) = Some f \<and> part_stream L D s cols (path (part_meta p)) (f, n) = Inr st) ps streams"
  using assms(2-4)
proof (induction ps arbitrary: w streams)
  case (Cons p ps)
  from Cons.prems(1) obtain f n w1 st sts where o: "act_open we (PartRead (path (part_meta p))) (path (part_meta p)) w = (w1, Inr (f, n))"
    and st: "part_stream L D s cols (path (part_meta p)) (f, n) = Inr st"
    and r: "part_streams we L D s cols ps w1 = (w', Inr sts)" and eq: "streams = st # sts"
    by (auto simp: act_bind_Inr Let_def)
  from o have w1: "w1 = others_ran we w" "w_files w1 (path (part_meta p)) = Some f" by (auto simp: act_open_Inr)
  have ok: "objects_ok G P n0 c0 None w1" using objects_others [OF assms(1) Cons.prems(2)] w1(1) by simp
  obtain g where g: "G (path (part_meta p)) = Some g" using Cons.prems(3) by auto
  with ok w1(2) have "g = f" by (auto simp: objects_ok_def)
  with Cons.IH [OF r ok] Cons.prems(3) g st w1(1) eq show ?case by auto
qed simp

lemma adapt_batch_path: "adapt_batch D s cols p fs item = Inr b \<longleftrightarrow> adapt_batch D s cols q fs item = Inr b"
  by (simp add: adapt_batch_def rbind_eq_Inr_iff)

lemma map_Inr_cong:
  "map g xs = map Inr bs \<Longrightarrow> (\<And>x b. g x = Inr b \<Longrightarrow> h x = Inr b) \<Longrightarrow> map h xs = map Inr bs"
  by (induction xs arbitrary: bs) (auto simp: Cons_eq_map_conv)

lemma clean_stream_view:
  assumes "part_stream L D (physical_schema cols) cols pth (f, n) = Inr st" "\<forall>r \<in> set (ps_stream st). \<exists>b. r = Inr b"
  shows "file_view L D cols f = Some (stream_rows (ps_stream st)) \<and>
    (\<forall>b. Inr b \<in> set (ps_stream st) \<longrightarrow> rb_schema b = physical_schema cols \<and> (\<forall>r \<in> set (rb_rows b). row_fits (physical_schema cols) r))"
proof -
  let ?s = "physical_schema cols"
  from assms obtain fs items where o: "pq_open L f = Some (fs, items)" and n: "n = None"
    and st: "ps_stream st = map (adapt_batch D ?s cols pth fs) items"
    by (cases n) (auto simp: part_stream_def rbind_eq_Inr_iff)
  have "\<exists>bs. ps_stream st = map Inr bs" unfolding ex_map_conv using assms(2) by blast
  then obtain bs where bs: "ps_stream st = map Inr bs" by blast
  then have "map (adapt_batch D ?s cols [] fs) items = map Inr bs"
    unfolding st by (rule map_Inr_cong) (simp add: adapt_batch_path [of D ?s cols pth fs _ _ "[]"])
  then have "file_view L D cols f = Some (concat (map rb_rows bs))"
    by (simp add: file_view_def part_stream_def o collect_stream_Inr [THEN iffD2])
  moreover have "stream_rows (ps_stream st) = concat (map rb_rows bs)" by (simp add: bs stream_rows_def comp_def)
  moreover have "rb_schema b = ?s \<and> (\<forall>r \<in> set (rb_rows b). row_fits ?s r)" if "Inr b \<in> set (ps_stream st)" for b
  proof -
    from that st obtain item where "adapt_batch D ?s cols pth fs item = Inr b" by (metis imageE list.set_map)
    then show ?thesis by (rule adapt_batch_fits)
  qed
  ultimately show ?thesis by simp
qed

text \<open>The merge's outputs hold the rows its inputs show.\<close>

lemma stream_rows_Inr: "stream_rows (map Inr bs) = concat (map rb_rows bs)"
  by (simp add: stream_rows_def comp_def)

lemma mset_concat_map: "mset (concat (map g xs)) = sum_list (map (mset \<circ> g) xs)"
  by (induction xs) simp_all

lemma merge_reads_all:
  assumes "list_all2 (\<lambda>p st. \<exists>f n. G (path (part_meta p)) = Some f \<and>
      part_stream L D (physical_schema cols) cols (path (part_meta p)) (f, n) = Inr st) grp streams"
    and "merge_streams L streams (physical_schema cols) key_cols = Some merged" "\<forall>r \<in> set merged. \<exists>b. r = Inr b"
  shows "mset (stream_rows merged) = sum_list (map (object_rows (file_view L D cols) G \<circ> part_meta) grp) \<and>
    (\<forall>b. Inr b \<in> set merged \<longrightarrow> rb_schema b = physical_schema cols) \<and>
    (\<forall>r \<in> set (stream_rows merged). row_fits (physical_schema cols) r)"
proof -
  let ?s = "physical_schema cols"
  have "\<exists>is key. sort_indices ?s key_cols = Inr is \<and> merge_key L ?s is = Some key"
    using assms(2,3) by (auto simp: merge_streams_def merge_init_def rbind_def ok_or_def split: sum.splits option.splits)
  then obtain "is" key where k: "sort_indices ?s key_cols = Inr is" "merge_key L ?s is = Some key" by blast
  from merge_streams_result [OF k, of streams] assms(2) obtain bs errs where m: "merged = map Inr bs @ map Inl errs"
    "errs = [] \<longleftrightarrow> (\<forall>ps \<in> set streams. in_order key [] (ps_stream ps))"
    "errs = [] \<longrightarrow> concat (map rb_rows bs) = sort_key key (concat (map (stream_rows \<circ> ps_stream) streams))"
    "(\<forall>ps \<in> set streams. \<forall>b. Inr b \<in> set (ps_stream ps) \<longrightarrow> rb_schema b = ?s) \<longrightarrow> (\<forall>b \<in> set bs. rb_schema b = ?s)"
    by auto
  have e: "errs = []" using assms(3) m(1) by (cases errs) auto
  have clean: "\<forall>r \<in> set (ps_stream st). \<exists>b. r = Inr b" if "st \<in> set streams" for st
    using m(2) e that by (auto simp: in_order_def)
  have view: "object_rows (file_view L D cols) G (part_meta p) = mset (stream_rows (ps_stream st)) \<and>
      (\<forall>b. Inr b \<in> set (ps_stream st) \<longrightarrow> rb_schema b = ?s \<and> (\<forall>r \<in> set (rb_rows b). row_fits ?s r))"
    if "st \<in> set streams" "G (path (part_meta p)) = Some f"
      "part_stream L D ?s cols (path (part_meta p)) (f, n) = Inr st" for p st f n
    using clean_stream_view [OF that(3) clean [OF that(1)]] that(2) by (simp add: object_rows_def view_rows_def)
  have sum: "sum_list (map (object_rows (file_view L D cols) G \<circ> part_meta) grp) = sum_list (map (mset \<circ> (stream_rows \<circ> ps_stream)) streams)"
  proof (intro arg_cong [of _ _ sum_list] nth_equalityI)
    show "length (map (object_rows (file_view L D cols) G \<circ> part_meta) grp) = length (map (mset \<circ> (stream_rows \<circ> ps_stream)) streams)"
      using assms(1) by (simp add: list_all2_lengthD)
    fix j assume "j < length (map (object_rows (file_view L D cols) G \<circ> part_meta) grp)"
    then have j: "j < length grp" "j < length streams" using assms(1) by (simp_all add: list_all2_lengthD)
    from list_all2_nthD [OF assms(1) j(1)] view [OF nth_mem [OF j(2)]] j
    show "map (object_rows (file_view L D cols) G \<circ> part_meta) grp ! j = map (mset \<circ> (stream_rows \<circ> ps_stream)) streams ! j"
      by auto
  qed
  have fits: "rb_schema b = ?s \<and> (\<forall>r \<in> set (rb_rows b). row_fits ?s r)" if "st \<in> set streams" "Inr b \<in> set (ps_stream st)" for st b
  proof -
    from that(1) obtain j where j: "j < length streams" "streams ! j = st" by (auto simp: in_set_conv_nth)
    from list_all2_nthD2 [OF assms(1) j(1)] obtain f n where "G (path (part_meta (grp ! j))) = Some f"
      "part_stream L D ?s cols (path (part_meta (grp ! j))) (f, n) = Inr st" unfolding j(2) by blast
    from view [OF that(1) this] that(2) show ?thesis by blast
  qed
  have rows: "stream_rows merged = sort_key key (concat (map (stream_rows \<circ> ps_stream) streams))"
    using m(1,3) e by (simp add: stream_rows_Inr)
  have "row_fits ?s r" if "r \<in> set (stream_rows merged)" for r
  proof -
    from that rows obtain st where st: "st \<in> set streams" "r \<in> set (stream_rows (ps_stream st))" by auto
    then obtain b where "Inr b \<in> set (ps_stream st)" "r \<in> set (rb_rows b)"
      by (auto simp: stream_rows_def split: sum.splits)
    with fits [OF st(1)] show ?thesis by blast
  qed
  moreover have "\<forall>b. Inr b \<in> set merged \<longrightarrow> rb_schema b = ?s" using m(1,4) e fits by auto
  ultimately show ?thesis using sum rows by (simp add: mset_concat_map)
qed

section \<open>The merge\<close>

definition drawn_paths :: "'f wenv \<Rightarrow> hypertable_id \<Rightarrow> nat \<Rightarrow> string set" where
  "drawn_paths we ht n = range (\<lambda>l. output_path we ht l n)"

definition merge_env :: "'f wenv \<Rightarrow> ('w, 'f) libs \<Rightarrow> hypertable \<Rightarrow> table_columns \<Rightarrow> i16 \<Rightarrow> (string \<rightharpoonup> 'f) \<Rightarrow> bool" where
  "merge_env we lb ht cols output_level G \<longleftrightarrow> writer_ok (lb_arrow lb) \<and> distinct (map f_name (physical_schema cols)) \<and>
     index_of (physical_schema cols) (packing_key ht) \<noteq> None \<and> store_env we G (drawn_paths we (ht_id ht))"

lemma numbered_merge_writer: "numbered we (drawn_paths we (ht_id ht)) (merge_writer we ht cols output_level)"
proof -
  have "\<exists>err m. cw_on_open (merge_writer we ht cols output_level) p = act_call we err m \<and> (\<forall>env s. catalog_run s (fst (m env s)))" for p
    unfolding merge_writer_def chunk_writer.simps
    by (intro exI conjI, rule refl, intro allI r_into_rtranclp) (rule catalog_step.register)
  moreover have "\<exists>q. cw_next_path (merge_writer we ht cols output_level) = (\<lambda>w. (w, Inr (q (w_tick w)))) \<and>
      (\<forall>n. q n \<in> drawn_paths we (ht_id ht) n)"
    by (rule exI [of _ "output_path we (ht_id ht) output_level"]) (simp add: merge_writer_def drawn_paths_def)
  ultimately show ?thesis by (simp add: numbered_def)
qed

lemma list_all2_zip: "list_all2 R xs ys \<Longrightarrow> j < length xs \<Longrightarrow> (g (xs ! j), ys ! j) \<in> set (zip (map g xs) ys)"
  by (auto simp: set_zip list_all2_lengthD intro!: exI [of _ j])

lemma write_chunks_clean:
  assumes "write_chunks we L cw stream w = (w', Inr outs)"
  shows "\<forall>r \<in> set stream. \<exists>b. r = Inr b"
proof -
  have "\<forall>r \<in> set stream. \<exists>b. r = Inr b" if "write_batches we L cw stream st w = (w', Inr st')" for st st' w w'
    using that by (induction stream arbitrary: st w) (fastforce simp: act_bind_Inr)+
  then show ?thesis using assms by (auto simp: write_chunks_def act_bind_Inr)
qed

lemma write_merge_rows:
  assumes env: "merge_env we lb ht cols output_level G"
    and w: "write_merge we lb ht cols grp output_level w = (w', Inr outs)"
    and there: "\<forall>p \<in> set grp. path (part_meta p) \<in> dom G" "\<forall>p f. G p = Some f \<longrightarrow> w_files w p = Some f"
  defines "V \<equiv> file_view (lb_arrow lb) (lb_df lb) cols"
  shows "objects_ok G (drawn_paths we (ht_id ht)) (length (w_uploads w)) (w_catalog w) None w' \<and>
    (\<forall>w1. objects_ok G (drawn_paths we (ht_id ht)) (length (w_uploads w)) (w_catalog w) None w1 \<and>
        w_uploads w1 = w_uploads w' \<longrightarrow>
      sum_list (map (object_rows V (w_files w1)) (map (part_of_output pv output_level) outs))
        = sum_list (map (object_rows V (w_files w1) \<circ> part_meta) grp))"
proof -
  let ?L = "lb_arrow lb" and ?D = "lb_df lb" and ?s = "physical_schema cols" and ?cw = "merge_writer we ht cols output_level"
  let ?P = "drawn_paths we (ht_id ht)"
  let ?I = "objects_ok G ?P (length (w_uploads w)) (w_catalog w) None"
  have L: "writer_ok ?L" and d: "distinct (map f_name ?s)" and se: "store_env we G ?P" using env by (simp_all add: merge_env_def)
  from env obtain i where i: "index_of ?s (packing_key ht) = Some i" by (auto simp: merge_env_def)
  from w obtain w1 streams merged where ps: "part_streams we ?L ?D ?s cols grp w = (w1, Inr streams)"
    and m: "merge_streams ?L streams ?s (sort_key_cols ht) = Some merged" and c: "write_chunks we ?L ?cw merged w1 = (w', Inr outs)"
    by (auto simp: write_merge_def act_bind_Inr split: option.splits)
  have "?I w" using there(2) by (simp add: objects_ok_def)
  note read = part_streams_Inr [OF se ps this there(1)]
  have fin: "?I w'" by (rule validD [OF valid_write_chunks [OF se numbered_merge_writer] c]) (use read in blast)
  have cw: "cw_env ?L ?cw i"
    using L i by (auto simp: cw_env_def merge_writer_def dest: act_call_uploads)
  have clean: "\<forall>r \<in> set merged. \<exists>b. r = Inr b" by (rule write_chunks_clean [OF c])
  note rows = merge_reads_all [OF conjunct2 [OF conjunct2 [OF read]] m clean]
  then have "\<forall>b. Inr b \<in> set merged \<longrightarrow> rb_schema b = cw_schema ?cw" by (simp add: merge_writer_def)
  from write_chunks_Inr [OF c cw this] obtain files where up: "w_uploads w' = w_uploads w1 @ zip (map co_path outs) files"
    and ok: "list_all2 (chunk_ok ?L ?cw i) outs files" and cat: "concat (map (file_rows ?L) files) = stream_rows merged" by blast
  have len: "length files = length outs" using ok by (simp add: list_all2_lengthD)
  have "sum_list (map (object_rows V (w_files w2)) (map (part_of_output pv output_level) outs))
      = sum_list (map (object_rows V (w_files w2) \<circ> part_meta) grp)" if w2: "?I w2" "w_uploads w2 = w_uploads w'" for w2
  proof -
    have new: "drop (length (w_uploads w)) (w_uploads w2) = zip (map co_path outs) files" using w2(2) up read by simp
    have "object_rows V (w_files w2) (part_of_output pv output_level (outs ! j)) = mset (file_rows ?L (files ! j))"
      if j: "j < length outs" for j
    proof -
      have "(co_path (outs ! j), files ! j) \<in> set (zip (map co_path outs) files)" by (rule list_all2_zip [OF ok j])
      with w2(1) new have "w_files w2 (co_path (outs ! j)) = Some (files ! j)" by (fastforce simp: objects_ok_def)
      moreover obtain bs where bs: "pq_open ?L (files ! j) = Some (?s, map Some bs)" "concat bs = file_rows ?L (files ! j)"
        using list_all2_nthD [OF ok j] by (auto simp: chunk_ok_def merge_writer_def)
      have "set (file_rows ?L (files ! j)) \<subseteq> set (stream_rows merged)" using j len by (auto simp flip: cat intro!: bexI [of _ "files ! j"])
      then have "V (files ! j) = Some (file_rows ?L (files ! j))"
        using rows bs(2) unfolding V_def by (subst file_view_written [OF d bs(1)]) auto
      ultimately show ?thesis by (simp add: object_rows_def view_rows_def part_of_output_def)
    qed
    then have e1: "map (object_rows V (w_files w2)) (map (part_of_output pv output_level) outs) = map (mset \<circ> file_rows ?L) files"
      using len by (intro nth_equalityI) simp_all
    have "object_rows V (w_files w2) (part_meta p) = object_rows V G (part_meta p)" if "p \<in> set grp" for p
      using there(1) that w2(1) by (fastforce simp: object_rows_def view_rows_def objects_ok_def)
    then have e2: "map (object_rows V (w_files w2) \<circ> part_meta) grp = map (object_rows V G \<circ> part_meta) grp" by simp
    have "sum_list (map (mset \<circ> file_rows ?L) files) = mset (stream_rows merged)"
      by (simp only: cat [symmetric] mset_concat_map)
    then show ?thesis unfolding e1 e2 using rows by (simp add: V_def)
  qed
  with fin show ?thesis by blast
qed

lemma run_part_meta:
  assumes "catalog_run s t" "wf_log s" "r \<in> set (parts s)"
  shows "wf_log t \<and> (\<exists>q \<in> set (parts t). pr_id q = pr_id r \<and> pr_meta q = pr_meta r)"
  using run_wf_log [OF assms(1,2)] run_part [OF assms(1,3)] unfolding same_part_def by metis

lemma act_call_files:
  "act_call we err m w = (w', r) \<Longrightarrow> w_files w' = w_files (others_ran we w) \<and>
    (w_catalog w' = w_catalog (others_ran we w) \<or>
     w_catalog w' = fst (m (we_db we (w_tick w)) (w_catalog (others_ran we w))))"
  by (auto simp: act_call_def Let_def dest!: act_step_effect split: prod.splits)

text \<open>The renewal task is one more of the others.\<close>

lemma renew_keeps:
  assumes "\<forall>t \<in> set ticks. \<forall>x. catalog_run (fst x) (fst (fst t x)) \<and> (\<forall>p f. Q p \<and> snd x p = Some f \<longrightarrow> snd (fst t x) p = Some f)"
  shows "catalog_run (fst x) (fst (fst (renew_until_cancelled lease ttl ticks x))) \<and>
    (\<forall>p f. Q p \<and> snd x p = Some f \<longrightarrow> snd (fst (renew_until_cancelled lease ttl ticks x)) p = Some f)"
  using assms
proof (induction ticks arbitrary: x)
  case (Cons t ticks)
  obtain others env where t: "t = (others, env)" by (rule prod.exhaust)
  obtain c fs where o: "others x = (c, fs)" by (rule prod.exhaust)
  obtain c' r where n: "renew_compaction_lease env lease ttl c = (c', r)" by (rule prod.exhaust)
  have 1: "catalog_run (fst x) c" and keep: "\<forall>p f. Q p \<and> snd x p = Some f \<longrightarrow> fs p = Some f"
    using Cons.prems t o by (metis fst_conv list.set_intros(1) snd_conv)+
  have "catalog_step (\<lambda>_. True) c c'" using catalog_step.renew [of _ c env lease ttl] n by simp
  with 1 have run: "catalog_run (fst x) c'" by (rule rtranclp.rtrancl_into_rtrancl)
  have "catalog_run c' (fst (fst (renew_until_cancelled lease ttl ticks (c', fs)))) \<and>
      (\<forall>p f. Q p \<and> fs p = Some f \<longrightarrow> snd (fst (renew_until_cancelled lease ttl ticks (c', fs))) p = Some f)"
    using Cons.IH [of "(c', fs)"] Cons.prems by simp
  with run keep rtranclp_trans [OF run] show ?case by (auto simp: t o n split: sum.splits option.splits)
qed simp

lemma store_env_renewals:
  assumes "store_env we G P"
    and "\<forall>n. \<forall>t \<in> set (renewals n). \<forall>x. catalog_run (fst x) (fst (fst t x)) \<and>
      (\<forall>p f. p \<in> dom G \<union> \<Union>(range P) \<and> snd x p = Some f \<longrightarrow> snd (fst t x) p = Some f)"
  shows "store_env (with_renewals we renewals lease ttl) G P"
proof -
  have H: "catalog_run (fst x) (fst (fst (we_others (with_renewals we renewals lease ttl) n x))) \<and>
      (\<forall>p f. p \<in> dom G \<union> \<Union>(range P) \<and> snd x p = Some f \<longrightarrow> snd (fst (we_others (with_renewals we renewals lease ttl) n x)) p = Some f)" for n x
  proof -
    obtain x' d where o: "we_others we n x = (x', d)" by (rule prod.exhaust)
    have 1: "catalog_run (fst x) (fst x')" "\<forall>p f. p \<in> dom G \<union> \<Union>(range P) \<and> snd x p = Some f \<longrightarrow> snd x' p = Some f"
      using store_envD(3) [OF assms(1), of x n] store_envD(4) [OF assms(1), of _ x _ n] by (auto simp only: o fst_conv)
    show ?thesis
    proof (cases d)
      case None
      from renew_keeps [of "renewals n" "\<lambda>p. p \<in> dom G \<union> \<Union>(range P)" x' lease ttl] assms(2)
      have 2: "catalog_run (fst x') (fst (fst (renew_until_cancelled lease ttl (renewals n) x')))"
        "\<forall>p f. p \<in> dom G \<union> \<Union>(range P) \<and> snd x' p = Some f \<longrightarrow> snd (fst (renew_until_cancelled lease ttl (renewals n) x')) p = Some f"
        by blast+
      have "we_others (with_renewals we renewals lease ttl) n x
          = map_prod id (map_option LeaseGone) (renew_until_cancelled lease ttl (renewals n) x')"
        by (simp add: with_renewals_def o None map_prod_def)
      with 1 2 show ?thesis using rtranclp_trans [OF 1(1) 2(1)] by simp
    qed (use 1 in \<open>simp add: with_renewals_def o\<close>)
  qed
  show ?thesis unfolding store_env_def
    using store_envD(1,2) [OF assms(1)] H by (intro conjI [of "\<forall>m n. m \<noteq> n \<longrightarrow> P m \<inter> P n = {}"] conjI [of "_ = {}"] allI impI)
qed

lemma merge_parts_contents:
  assumes env: "merge_env we lb ht cols output_level G" and cols: "parse (table_schema ht) = Inr cols"
    and m: "merge_parts we lb ht lease identity grp output_level w = (w', r)"
    and there: "\<forall>p \<in> set grp. path (part_meta p) \<in> dom G" "\<forall>p f. G p = Some f \<longrightarrow> w_files w p = Some f"
    and known: "wf_log (w_catalog w)" "\<forall>p \<in> set grp. \<exists>x \<in> set (parts (w_catalog w)). part_of_row x = p"
  defines "V \<equiv> file_view (lb_arrow lb) (lb_df lb) cols"
  shows "(\<exists>e. write_merge we lb ht cols grp output_level w = (w', Inl e) \<and> r = Inl e) \<or>
    (\<exists>w1 outs. write_merge we lb ht cols grp output_level w = (w1, Inr outs) \<and> r \<in> range Inl \<union> {Inr (length outs)} \<and>
       catalog_run (w_catalog w) (w_catalog (others_ran we w1)) \<and> w_files w' = w_files (others_ran we w1) \<and>
       (\<forall>h. contents V (w_files w') (w_catalog w') h = contents V (w_files w') (w_catalog (others_ran we w1)) h))"
proof -
  let ?P = "drawn_paths we (ht_id ht)" and ?pv = "partition_values (part_meta (grp ! 0))"
  have mp: "merge_parts we lb ht lease identity grp output_level
      = act_bind (write_merge we lb ht cols grp output_level) (\<lambda>outs.
          act_bind (act_call we CCatalog (\<lambda>env. commit_compaction_replace env (lb_de lb) (ht_id ht) lease (map part_id grp)
            (map (part_of_output ?pv output_level) outs) identity))
            (\<lambda>_. act_return (length (map (part_of_output ?pv output_level) outs))))"
    by (simp only: merge_parts_def cols map_sum.simps id_apply act_bind_lift Let_def)
  obtain w1 x where wm: "write_merge we lb ht cols grp output_level w = (w1, x)" by (rule prod.exhaust)
  show ?thesis
  proof (cases x)
    case (Inl e)
    with m wm show ?thesis unfolding mp by (simp add: act_bind_def)
  next
    case (Inr outs)
    let ?new = "map (part_of_output ?pv output_level) outs" and ?w2 = "others_ran we w1"
    let ?commit = "\<lambda>env. commit_compaction_replace env (lb_de lb) (ht_id ht) lease (map part_id grp) ?new identity"
    from m wm Inr have c: "act_bind (act_call we CCatalog ?commit) (\<lambda>_. act_return (length ?new)) w1 = (w', r)"
      unfolding mp by (simp add: act_bind_def [of "write_merge we lb ht cols grp output_level"])
    then obtain y where y: "act_call we CCatalog ?commit w1 = (w', y)" "r \<in> range Inl \<union> {Inr (length outs)}"
      by (auto simp: act_bind_def split: prod.splits sum.splits) (simp add: act_return_def)
    note rows = write_merge_rows [OF env wm [unfolded Inr] there, of ?pv, folded V_def]
    have se: "store_env we G ?P" using env by (simp add: merge_env_def)
    have w2: "objects_ok G ?P (length (w_uploads w)) (w_catalog w) None ?w2"
      using objects_others [OF se conjunct1 [OF rows]] .
    with rows have sum: "sum_list (map (object_rows V (w_files ?w2)) ?new) = sum_list (map (object_rows V (w_files ?w2) \<circ> part_meta) grp)"
      by simp
    have run: "catalog_run (w_catalog w) (w_catalog ?w2)" using w2 by (simp add: objects_ok_def)
    have wf: "wf_log (w_catalog ?w2)" using run_wf_log [OF run known(1)] .
    have "\<forall>p \<in> set grp. \<exists>q \<in> set (parts (w_catalog ?w2)). pr_id q = part_id p \<and> pr_meta q = part_meta p"
      using known(2) run_part_meta [OF run known(1)] by (fastforce simp: part_of_row_def)
    note keep = replace_contents [OF wf _ this sum, of _ _ _ _ _ _ "fst (?commit (we_db we (w_tick w1)) (w_catalog ?w2))"
        "snd (?commit (we_db we (w_tick w1)) (w_catalog ?w2))"]
    have "contents V (w_files ?w2) (fst (?commit (we_db we (w_tick w1)) (w_catalog ?w2))) h = contents V (w_files ?w2) (w_catalog ?w2) h" for h
      by (rule keep) (simp add: commit_compaction_replace_def commit_inner_def)
    with act_call_files [OF y(1)] y(2) wm Inr run show ?thesis by auto
  qed
qed

section \<open>An example world\<close>


definition demo_schema_json :: json where
  "demo_schema_json = JObject [(''fields'', JArray [JObject [(''name'', JString ''k''), (''type'', JString ''int64''),
     (''nullable'', JBool False)]])]"

definition demo_ht :: hypertable where
  "demo_ht = \<lparr>ht_id = 1, ht_name = ''events'', table_schema = demo_schema_json, partition_spec = JNull,
     sort_key_cols = [''k''], packing_key = ''k'', ht_placement = Separated\<rparr>"

definition demo_part_row :: "part_id \<Rightarrow> string \<Rightarrow> i64 \<Rightarrow> i64 \<Rightarrow> part_row" where
  "demo_part_row i p mn mx = \<lparr>pr_id = i, pr_hypertable = 1,
     pr_meta = \<lparr>path = p, partition_values = JNull, packing_key_min = mn, packing_key_max = mx, row_count = 2,
       size_bytes = 20, level = 0, column_stats = None\<rparr>,
     pr_key_filter = None, pr_created_by = 1, pr_deleted_by = None, pr_purged_at = None\<rparr>"

definition demo_lease_a :: compaction_lease where
  "demo_lease_a = \<lparr>cl_hypertable = 1, cl_partition = JNull, cl_owner = 7, cl_generation = 1, cl_expires_at = 100\<rparr>"

definition demo_state :: catalog where
  "demo_state = empty_catalog\<lparr>
     hypertables := [\<lparr>hr_id = 1, hr_name = ''events'', hr_schema = demo_schema_json, hr_partition_spec = JNull,
       hr_sort_key = [''k''], hr_packing_key = ''k'', hr_target_file_bytes = Some 0\<rparr>],
     commits := [\<lparr>cm_id = 1, cm_hypertable = 1, cm_kind = ''add'', cm_key = None, cm_fingerprint = None, cm_created_at = 0\<rparr>],
     commit_seq := 1, parts := [demo_part_row 1 ''a'' 1 3, demo_part_row 2 ''b'' 2 3], part_seq := 2,
     leases := [demo_lease_a], lease_generation_seq := 1\<rparr>"

definition demo_world :: "(schema \<times> cells list list) world" where
  "demo_world = \<lparr>w_tick = 0, w_catalog = demo_state,
     w_files = [''a'' \<mapsto> ([demo_key_field], [[[I64 1], [I64 3]]]), ''b'' \<mapsto> ([demo_key_field], [[[I64 2]], [[I64 3]]])],
     w_uploads = []\<rparr>"

definition demo_libs :: "(demo_writer, schema \<times> cells list list) libs" where
  "demo_libs = \<lparr>lb_blake3 = (\<lambda>_. [1]), lb_de = (\<lambda>_. None), lb_text = (\<lambda>_. []), lb_arrow = demo_arrow,
     lb_df = \<lparr>df_refs = (\<lambda>_ _. None), df_compile = (\<lambda>_ _ _ _. None)\<rparr>\<rparr>"

definition demo_op :: operation_identity where
  "demo_op = \<lparr>oi_hypertable = 1, oi_key = ''compaction:1'', oi_fingerprint = [1]\<rparr>"

definition demo_group :: "part list" where
  "demo_group = map part_of_row (parts demo_state)"

lemmas demo_world_defs = demo_world_def demo_state_def demo_part_row_def demo_group_def demo_ht_def demo_lease_a_def
  empty_catalog_def

definition demo_columns :: table_columns where
  "demo_columns = [\<lparr>cs_name = ''k'', cs_type = Int64, cs_nullable = False, cs_kind = Stored, cs_ukiel_type = ''int64'',
     cs_bloom = False\<rparr>]"

lemma demo_cols: "parse (table_schema demo_ht) = Inr demo_columns"
  by code_simp

lemma demo_physical: "physical_schema demo_columns = [demo_key_field]"
  by code_simp

lemma demo_merge:
  "snd (merge_parts (with_renewals (calm_wenv 5) (\<lambda>_. [(id, quiet_env 5)]) demo_lease_a 60) demo_libs demo_ht demo_lease_a demo_op
      demo_group 1 demo_world) = Inr 3"
  by code_simp

lemma first_split:
  "xs @ c # ys = xs' @ c # ys' \<Longrightarrow> c \<notin> set xs \<Longrightarrow> c \<notin> set xs' \<Longrightarrow> ys = ys'"
  by (induction xs arbitrary: xs') (auto simp: Cons_eq_append_conv)

lemma demo_paths: "m \<noteq> n \<Longrightarrow> drawn_paths (calm_wenv t) ht m \<inter> drawn_paths (calm_wenv t) ht n = {}"
proof -
  have slash: "CHR 0x2F \<notin> set (show_int l)" for l by (intro nonint_not_in_show_int) simp_all
  have "m = n" if "show_int l @ CHR 0x2F # show_nat m @ s = show_int l' @ CHR 0x2F # show_nat n @ s" for l l' s
  proof -
    from first_split [OF that slash slash] show ?thesis by (simp add: show_nat_inj)
  qed
  then show "m \<noteq> n \<Longrightarrow> drawn_paths (calm_wenv t) ht m \<inter> drawn_paths (calm_wenv t) ht n = {}"
    by (auto simp: drawn_paths_def output_path_def calm_wenv_def)
qed

lemma demo_state_wf: "wf_log demo_state"
  by (simp add: demo_world_defs wf_log_def wf_commits_def wf_parts_def wf_offsets_def part_ok_def has_commit_def)

lemma demo_merge_env: "merge_env (calm_wenv 5) demo_libs demo_ht demo_columns l (w_files demo_world)"
proof -
  have "store_env (calm_wenv 5) (w_files demo_world) (drawn_paths (calm_wenv 5) 1)"
    using demo_paths [of _ _ 5 1] unfolding store_env_def
    by (simp add: calm_wenv_def demo_world_def) (auto simp: drawn_paths_def output_path_def)
  then show ?thesis by (simp add: merge_env_def demo_libs_def demo_arrow_ok demo_physical demo_key_field_def demo_ht_def)
qed

section \<open>Properties\<close>

text \<open>C2: compaction refines doing nothing. Let a table's contents be the multiset of rows its
  live parts show under the current schema. However a merge under a lease ends, its work is
  either abandoned before the commit, or the \<open>REPLACE\<close> it issues leaves the contents of every
  hypertable exactly as the call found them: whatever the call answers, a lost acknowledgement
  or a drop in flight included. The renewal task runs beside it. Hypotheses: the file writer's
  contract, a table whose packing key is a column and whose column names are distinct, inputs
  read from the catalog whose objects exist, and other clients that use the catalog's
  operations and touch neither the input objects nor the paths the worker draws, which are
  distinct.\<close>

theorem compaction_preserves_contents:
  assumes "merge_env we lb ht cols output_level G" "parse (table_schema ht) = Inr cols"
    and "\<forall>n. \<forall>t \<in> set (renewals n). \<forall>x. catalog_run (fst x) (fst (fst t x)) \<and>
      (\<forall>p f. p \<in> dom G \<union> \<Union>(range (drawn_paths we (ht_id ht))) \<and> snd x p = Some f \<longrightarrow> snd (fst t x) p = Some f)"
    and "\<forall>p \<in> set grp. path (part_meta p) \<in> dom G" "\<forall>p f. G p = Some f \<longrightarrow> w_files w p = Some f"
    and "wf_log (w_catalog w)" "\<forall>p \<in> set grp. \<exists>x \<in> set (parts (w_catalog w)). part_of_row x = p"
    and "merge_parts (with_renewals we renewals lease ttl) lb ht lease identity grp output_level w = (w', r)"
  defines "we' \<equiv> with_renewals we renewals lease ttl" and "V \<equiv> file_view (lb_arrow lb) (lb_df lb) cols"
  shows "(\<exists>e. write_merge we' lb ht cols grp output_level w = (w', Inl e) \<and> r = Inl e) \<or>
    (\<exists>w1 outs. write_merge we' lb ht cols grp output_level w = (w1, Inr outs) \<and> r \<in> range Inl \<union> {Inr (length outs)} \<and>
       catalog_run (w_catalog w) (w_catalog (others_ran we' w1)) \<and> w_files w' = w_files (others_ran we' w1) \<and>
       (\<forall>h. contents V (w_files w') (w_catalog w') h = contents V (w_files w') (w_catalog (others_ran we' w1)) h))"
proof -
  have "drawn_paths we' = drawn_paths we" by (intro ext) (simp add: we'_def with_renewals_def drawn_paths_def output_path_def)
  with assms(1,3) have "merge_env we' lb ht cols output_level G"
    unfolding merge_env_def we'_def using store_env_renewals [of we G "drawn_paths we (ht_id ht)"] by simp
  from merge_parts_contents [OF this assms(2) assms(8) [folded we'_def] assms(4-7)] show ?thesis by (simp add: V_def)
qed

text \<open>C2: two parts of two rows each become three files, one per key, and the table holds the
  same four rows.\<close>

theorem compaction_preserves_contents_witness:
  "\<exists>w' c. merge_parts (with_renewals (calm_wenv 5) (\<lambda>_. [(id, quiet_env 5)]) demo_lease_a 60) demo_libs demo_ht demo_lease_a demo_op
      demo_group 1 demo_world = (w', Inr 3) \<and> catalog_run demo_state c \<and>
    contents (file_view (lb_arrow demo_libs) (lb_df demo_libs) demo_columns) (w_files w') (w_catalog w') 1
      = contents (file_view (lb_arrow demo_libs) (lb_df demo_libs) demo_columns) (w_files w') c 1"
proof -
  let ?we = "with_renewals (calm_wenv 5) (\<lambda>_. [(id, quiet_env 5)]) demo_lease_a 60"
  obtain w' where m: "merge_parts ?we demo_libs demo_ht demo_lease_a demo_op demo_group 1 demo_world = (w', Inr 3)"
    using demo_merge by (metis prod.collapse)
  have a: "merge_env (calm_wenv 5) demo_libs demo_ht demo_columns 1 (w_files demo_world)" by (rule demo_merge_env)
  have b: "\<forall>n. \<forall>t \<in> set [(id, quiet_env 5) :: ((schema \<times> cells list list) outside \<Rightarrow> _) \<times> env]. \<forall>x. catalog_run (fst x) (fst (fst t x)) \<and>
      (\<forall>p f. p \<in> dom (w_files demo_world) \<union> \<Union>(range (drawn_paths (calm_wenv 5) (ht_id demo_ht))) \<and> snd x p = Some f \<longrightarrow>
        snd (fst t x) p = Some f)" by simp
  have c: "\<forall>p \<in> set demo_group. path (part_meta p) \<in> dom (w_files demo_world)"
    by (simp add: demo_world_defs part_of_row_def)
  have d: "wf_log (w_catalog demo_world)" using demo_state_wf by (simp add: demo_world_def)
  have e: "\<forall>p \<in> set demo_group. \<exists>x \<in> set (parts (w_catalog demo_world)). part_of_row x = p"
    by (auto simp: demo_group_def demo_world_def)
  have g: "\<forall>p f. w_files demo_world p = Some f \<longrightarrow> w_files demo_world p = Some f" by simp
  from compaction_preserves_contents [OF a demo_cols b c g d e m] show ?thesis
  proof (elim disjE exE conjE)
    fix w1 outs
    assume "catalog_run (w_catalog demo_world) (w_catalog (others_ran ?we w1))"
    then have run: "catalog_run demo_state (w_catalog (others_ran ?we w1))" by (simp add: demo_world_def)
    assume "\<forall>h. contents (file_view (lb_arrow demo_libs) (lb_df demo_libs) demo_columns) (w_files w') (w_catalog w') h
      = contents (file_view (lb_arrow demo_libs) (lb_df demo_libs) demo_columns) (w_files w') (w_catalog (others_ran ?we w1)) h"
    from m run spec [OF this, of 1] show ?thesis by (intro exI conjI)
  qed simp
qed

end
