(* ===== verification/Deletion.thy ===== *)
theory Deletion
  imports Contents
begin

text \<open>
  Key deletion, \<^verbatim>\<open>crates/ukiel-compactor/src/deletion.rs\<close>: parts that hold the key alone are
  dropped, the others are rewritten without its rows, in one \<open>REPLACE\<close>. The mask of \<open>neq\<close> is
  null on a null key, and \<open>filter_record_batch\<close> keeps the rows whose mask is true.
\<close>

section \<open>Definitions\<close>

definition DELETION_TRANSFORMATION_VERSION :: u32 where
  "DELETION_TRANSFORMATION_VERSION = 2"

record deletion_stats =
  del_dropped_parts :: nat
  del_rewritten_parts :: nat
  del_rows_deleted :: i64

definition no_deletion :: deletion_stats where
  "no_deletion = \<lparr>del_dropped_parts = 0, del_rewritten_parts = 0, del_rows_deleted = 0\<rparr>"

text \<open>\<open>neq\<close> and \<open>filter_record_batch\<close>\<close>

definition filter_neq :: "rbatch \<Rightarrow> i64 option list \<Rightarrow> i64 \<Rightarrow> rbatch" where
  "filter_neq b keys key =
     b\<lparr>rb_rows := map fst (filter (\<lambda>(r, k). \<exists>v \<in> set_option k. v \<noteq> key) (zip (rb_rows b) keys))\<rparr>"

definition kept_meta ::
  "('w, 'f) arrow \<Rightarrow> hypertable \<Rightarrow> part \<Rightarrow> string \<Rightarrow> i64 \<times> i64 \<Rightarrow> rbatch \<Rightarrow> 'f \<times> json option \<Rightarrow> part_meta" where
  "kept_meta L ht p pth = (\<lambda>(key_min, key_max) kept (pq, spans).
     \<lparr>path = pth, partition_values = partition_values (part_meta p), packing_key_min = key_min, packing_key_max = key_max,
      row_count = int (num_rows kept), size_bytes = int (pq_size L pq), level = level (part_meta p),
      column_stats = with_key_index (int64_column_stats (ar_min L) (ar_max L) (batch_of kept))
        (if key_min \<noteq> key_max then key_bitmap (ar_ser L) (batch_of kept) (packing_key ht) else None)
        (if key_min \<noteq> key_max then spans else None)\<rparr>)"

text \<open>One rewritten part: encode what is left, register the upload, store it.\<close>

definition rewrite_kept ::
  "'f wenv \<Rightarrow> ('w, 'f) libs \<Rightarrow> hypertable \<Rightarrow> table_columns \<Rightarrow> part \<Rightarrow> rbatch \<Rightarrow> ('f, compactor_error, part_meta) act" where
  "rewrite_kept we lb ht cols p kept =
     (let L = lb_arrow lb in
      act_bind (act_lift (key_range L kept (packing_key ht))) (\<lambda>bounds.
      act_bind (act_lift (batch_to_parquet_key_aligned L kept (packing_key ht) (sort_key_cols ht)
          (write_opts_from_columns cols (sort_key_cols ht) (level (part_meta p))))) (\<lambda>encoded w.
        let pth = output_path we (ht_id ht) (level (part_meta p)) (w_tick w) in
        act_bind (act_call we CCatalog (\<lambda>env. register_pending_objects env (ht_id ht) [pth])) (\<lambda>_.
        act_bind (act_put we CObjectStore pth (fst encoded)) (\<lambda>_.
          act_return (kept_meta L ht p pth bounds kept encoded))) w)))"

fun delete_from_parts ::
  "'f wenv \<Rightarrow> ('w, 'f) libs \<Rightarrow> hypertable \<Rightarrow> table_columns \<Rightarrow> i64 \<Rightarrow> part list \<Rightarrow> deletion_stats \<Rightarrow> part_meta list
   \<Rightarrow> ('f, compactor_error, deletion_stats \<times> part_meta list) act" where
  "delete_from_parts we lb ht cols key [] stats new_parts = act_return (stats, new_parts)"
| "delete_from_parts we lb ht cols key (p # ps) stats new_parts =
     (if packing_key_min (part_meta p) = key \<and> packing_key_max (part_meta p) = key then
        delete_from_parts we lb ht cols key ps
          (stats\<lparr>del_dropped_parts := del_dropped_parts stats + 1,
                 del_rows_deleted := del_rows_deleted stats + row_count (part_meta p)\<rparr>) new_parts
      else
        act_bind (read_parts_for_rewrite we (lb_arrow lb) (lb_df lb) cols [p]) (\<lambda>b.
        act_bind (act_lift (int64_array b (packing_key ht))) (\<lambda>keys.
        let kept = filter_neq b keys key;
            stats' = stats\<lparr>del_rewritten_parts := del_rewritten_parts stats + 1,
              del_rows_deleted := del_rows_deleted stats + (int (num_rows b) - int (num_rows kept))\<rparr>
        in if num_rows kept = 0 then delete_from_parts we lb ht cols key ps stats' new_parts
           else act_bind (rewrite_kept we lb ht cols p kept) (\<lambda>m.
             delete_from_parts we lb ht cols key ps stats' (new_parts @ [m])))))"

definition deletion_intent :: "hypertable \<Rightarrow> i64 \<Rightarrow> part_id list \<Rightarrow> delete_key_intent" where
  "deletion_intent ht key input_parts =
     \<lparr>dk_packing_key = key, dk_input_parts = input_parts, dk_table_schema = table_schema ht, dk_sort_key = sort_key_cols ht,
      dk_placement = ht_placement ht, dk_version = DELETION_TRANSFORMATION_VERSION\<rparr>"

definition delete_key_from ::
  "'f wenv \<Rightarrow> ('w, 'f) libs \<Rightarrow> hypertable \<Rightarrow> i64 \<Rightarrow> ('f, compactor_error, deletion_stats) act" where
  "delete_key_from we lb ht key =
     act_bind (act_call we CCatalog (\<lambda>env. live_parts env (ht_id ht) (Some key))) (\<lambda>overlapping.
       if overlapping = [] then act_return no_deletion
       else
         let input_parts = map part_id overlapping in
         act_bind (act_lift (map_sum COperation id (delete_key (lb_blake3 lb) (ht_id ht) (deletion_intent ht key input_parts)))) (\<lambda>identity.
         act_bind (act_lift (map_sum CSchema id (parse (table_schema ht)))) (\<lambda>cols.
         act_bind (delete_from_parts we lb ht cols key overlapping no_deletion []) (\<lambda>(stats, new_parts).
         act_bind (act_call we CCatalog (\<lambda>env. commit env (lb_de lb) (ht_id ht) (Replace input_parts new_parts) (Some identity)))
           (\<lambda>_. act_return stats)))))"

section \<open>What a rewritten part keeps\<close>

lemma write_aligned_rows:
  assumes "writer_ok L" "write_aligned L cap w runs = Some w'"
  shows "pw_rows L w' = pw_rows L w @ concat (map (rb_rows \<circ> snd) runs) \<and> pw_schema L w' = pw_schema L w"
  using assms(2)
proof (induction runs arbitrary: w)
  case (Cons kr runs)
  obtain k piece where kr: "kr = (k, piece)" by (rule prod.exhaust)
  from Cons.prems obtain w1 w2 where 1: "w1 = w \<or> pw_flush L w = Some w1" and 2: "pw_write L w1 (rb_rows piece) = Some w2"
    and 3: "write_aligned L cap w2 runs = Some w'" by (auto simp: kr bind_eq_Some_conv split: if_splits)
  have "pw_rows L w1 = pw_rows L w \<and> pw_schema L w1 = pw_schema L w" using 1 writer_okD(3) [OF assms(1)] by auto
  with writer_okD(2) [OF assms(1) 2] Cons.IH [OF 3] show ?case by (simp add: kr)
qed simp

lemma key_aligned_rows:
  assumes "writer_ok L" "batch_to_parquet_key_aligned L b packing key opts = Inr (f, spans)"
  shows "\<exists>bs. pq_open L f = Some (rb_schema b, map Some bs) \<and> concat bs = rb_rows b"
proof -
  from assms(2) obtain w runs w1 w2 where n: "pw_new L (rb_schema b) (writer_props (rb_schema b) key opts) = Some w"
    and s: "split_by_key L b packing = Inr runs" and a: "write_aligned L (wo_max_row_group_rows opts) w runs = Some w1"
    and fl: "pw_flush L w1 = Some w2" and c: "pw_close L w2 = Some f"
    by (auto simp: batch_to_parquet_key_aligned_def rbind_eq_Inr_iff bind_eq_Some_conv)
  have "concat (map (rb_rows \<circ> snd) runs) = rb_rows b" using split_by_key_Inr [OF s] by blast
  with writer_okD(1) [OF assms(1) n] write_aligned_rows [OF assms(1) a] writer_okD(3) [OF assms(1) fl] writer_okD(4) [OF assms(1) c]
  show ?thesis by auto
qed

definition row_kept :: "nat \<Rightarrow> i64 \<Rightarrow> cells \<Rightarrow> bool" where
  "row_kept i key r \<longleftrightarrow> (\<exists>v. cell_i64 (r ! i) = Some v \<and> v \<noteq> key)"

lemma filter_neq_rows: "rb_rows (filter_neq b (map (\<lambda>r. cell_i64 (r ! i)) (rb_rows b)) key) = filter (row_kept i key) (rb_rows b)"
proof -
  have "map fst (filter (\<lambda>(r, k). \<exists>v \<in> set_option k. v \<noteq> key) (zip rs (map (\<lambda>r. cell_i64 (r ! i)) rs))) = filter (row_kept i key) rs" for rs
    by (induction rs) (auto simp: row_kept_def elem_set)
  then show ?thesis by (simp add: filter_neq_def)
qed

text \<open>What erasing a key removes with a part, given the rows its object shows.\<close>

definition dedicated :: "i64 \<Rightarrow> part_meta \<Rightarrow> bool" where
  "dedicated key m \<longleftrightarrow> packing_key_min m = key \<and> packing_key_max m = key"

definition erased :: "('f \<Rightarrow> cells list option) \<Rightarrow> (string \<Rightarrow> 'f option) \<Rightarrow> nat \<Rightarrow> i64 \<Rightarrow> part_meta \<Rightarrow> cells multiset" where
  "erased V fs i key m =
     (if dedicated key m then object_rows V fs m else filter_mset (\<lambda>r. \<not> row_kept i key r) (object_rows V fs m))"

definition erased_count :: "('f \<Rightarrow> cells list option) \<Rightarrow> (string \<Rightarrow> 'f option) \<Rightarrow> nat \<Rightarrow> i64 \<Rightarrow> part_meta \<Rightarrow> int" where
  "erased_count V fs i key m = (if dedicated key m then row_count m else int (size (erased V fs i key m)))"

lemma read_one:
  assumes "store_env we G P" "read_parts_for_rewrite we L D cols [p] w = (w', Inr b)" "objects_ok G P n0 c0 None w"
    "path (part_meta p) \<in> dom G"
  shows "objects_ok G P n0 c0 None w' \<and> w_uploads w' = w_uploads w \<and> rb_schema b = physical_schema cols \<and>
    object_rows (file_view L D cols) G (part_meta p) = mset (rb_rows b) \<and> (\<forall>r \<in> set (rb_rows b). row_fits (physical_schema cols) r)"
proof -
  from assms(2) obtain streams bs where s: "part_streams we L D (physical_schema cols) cols [p] w = (w', Inr streams)"
    and c: "collect_stream (concat (map ps_stream streams)) = Inr bs" and b: "b = concat_batches (physical_schema cols) bs"
    by (auto simp: read_parts_for_rewrite_def Let_def act_bind_Inr map_sum_eq_Inr)
  have dom: "\<forall>q \<in> set [p]. path (part_meta q) \<in> dom G" using assms(4) by simp
  note r = part_streams_Inr [OF assms(1) s assms(3) dom]
  then obtain st f n where st: "streams = [st]" "G (path (part_meta p)) = Some f"
    "part_stream L D (physical_schema cols) cols (path (part_meta p)) (f, n) = Inr st" by (auto simp: list_all2_Cons1)
  have bs: "ps_stream st = map Inr bs" using c by (simp add: st(1) collect_stream_Inr)
  have "\<forall>x \<in> set (ps_stream st). \<exists>b. x = Inr b" by (auto simp: bs)
  from clean_stream_view [OF st(3) this] r b st(2) show ?thesis
    by (auto simp: bs stream_rows_Inr concat_batches_def object_rows_def view_rows_def)
qed

lemma rewrite_kept_Inr:
  assumes "merge_env we lb ht cols l G" "rewrite_kept we lb ht cols p kept w = (w', Inr m)"
    "objects_ok G (drawn_paths we (ht_id ht)) n0 c0 None w"
    "rb_schema kept = physical_schema cols" "\<forall>r \<in> set (rb_rows kept). row_fits (physical_schema cols) r"
  shows "objects_ok G (drawn_paths we (ht_id ht)) n0 c0 None w' \<and>
    (\<exists>f. w_uploads w' = w_uploads w @ [(path m, f)] \<and> file_view (lb_arrow lb) (lb_df lb) cols f = Some (rb_rows kept))"
proof -
  let ?L = "lb_arrow lb" and ?P = "drawn_paths we (ht_id ht)"
  let ?p = "output_path we (ht_id ht) (level (part_meta p)) (w_tick w)"
  have L: "writer_ok ?L" and d: "distinct (map f_name (physical_schema cols))" and se: "store_env we G ?P"
    using assms(1) by (simp_all add: merge_env_def)
  from assms(2) obtain mn mx f spans w1 where
    e: "batch_to_parquet_key_aligned ?L kept (packing_key ht) (sort_key_cols ht)
          (write_opts_from_columns cols (sort_key_cols ht) (level (part_meta p))) = Inr (f, spans)"
    and c: "act_call we CCatalog (\<lambda>env. register_pending_objects env (ht_id ht) [?p]) w = (w1, Inr ())"
    and u: "act_put we CObjectStore ?p f w1 = (w', Inr ())" and m: "m = kept_meta ?L ht p ?p (mn, mx) kept (f, spans)"
    by (auto simp: rewrite_kept_def Let_def act_bind_Inr)
  have run: "catalog_run s (fst (register_pending_objects env (ht_id ht) [?p] s))" for env s
    by (intro r_into_rtranclp) (rule catalog_step.register)
  have "objects_ok G ?P n0 c0 (Some ?p) w1"
    by (rule objects_draw [OF se run c assms(3)]) (simp add: drawn_paths_def)
  from validD [OF valid_put [OF se] u this] have ok: "objects_ok G ?P n0 c0 None w'" .
  have "w_uploads w' = w_uploads w @ [(?p, f)]" using u c by (simp add: act_put_Inr act_call_uploads)
  moreover obtain bs where "pq_open ?L f = Some (physical_schema cols, map Some bs)" "concat bs = rb_rows kept"
    using key_aligned_rows [OF L e] assms(4) by auto
  then have "file_view ?L (lb_df lb) cols f = Some (rb_rows kept)" using file_view_written [OF d] assms(5) by metis
  ultimately show ?thesis using ok by (simp add: m kept_meta_def)
qed

lemma delete_from_parts_Inr:
  assumes "merge_env we lb ht cols l G" "index_of (physical_schema cols) (packing_key ht) = Some i"
    and "delete_from_parts we lb ht cols key ps stats new w = (w', Inr (stats', new'))"
    and "objects_ok G (drawn_paths we (ht_id ht)) n0 c0 None w" "\<forall>p \<in> set ps. path (part_meta p) \<in> dom G"
  defines "V \<equiv> file_view (lb_arrow lb) (lb_df lb) cols"
  shows "objects_ok G (drawn_paths we (ht_id ht)) n0 c0 None w' \<and>
    del_rows_deleted stats' = del_rows_deleted stats + sum_list (map (erased_count V G i key \<circ> part_meta) ps) \<and>
    (\<exists>added files. new' = new @ added \<and> length files = length added \<and>
      w_uploads w' = w_uploads w @ zip (map path added) files \<and>
      sum_list (map (view_rows V) files) + sum_list (map (erased V G i key \<circ> part_meta) ps)
        = sum_list (map (object_rows V G \<circ> part_meta) ps))"
  using assms(3-5)
proof (induction ps arbitrary: stats new w)
  case (Cons p ps)
  let ?L = "lb_arrow lb" and ?P = "drawn_paths we (ht_id ht)" and ?m = "part_meta p"
  show ?case
  proof (cases "dedicated key ?m")
    case True
    from Cons.IH [OF _ Cons.prems(2)] Cons.prems True show ?thesis
      by (simp add: dedicated_def [symmetric] erased_def erased_count_def algebra_simps)
  next
    case False
    from Cons.prems(1) False obtain w1 b where
      r: "read_parts_for_rewrite we ?L (lb_df lb) cols [p] w = (w1, Inr b)" 
      by (auto simp: dedicated_def [symmetric] act_bind_Inr Let_def)
    have se: "store_env we G ?P" using assms(1) by (simp add: merge_env_def)
    note rd = read_one [OF se r Cons.prems(2)]
    have dom: "path ?m \<in> dom G" "\<forall>q \<in> set ps. path (part_meta q) \<in> dom G" using Cons.prems(3) by simp_all
    have b: "objects_ok G ?P n0 c0 None w1" "w_uploads w1 = w_uploads w" "rb_schema b = physical_schema cols"
      "object_rows V G ?m = mset (rb_rows b)" "\<forall>r \<in> set (rb_rows b). row_fits (physical_schema cols) r"
      using rd [OF dom(1)] by (simp_all add: V_def)
    define kept where "kept = filter_neq b (map (\<lambda>r. cell_i64 (r ! i)) (rb_rows b)) key"
    define stats1 where "stats1 = stats\<lparr>del_rewritten_parts := del_rewritten_parts stats + 1,
      del_rows_deleted := del_rows_deleted stats + (int (num_rows b) - int (num_rows kept))\<rparr>"
    have rows: "rb_rows kept = filter (row_kept i key) (rb_rows b)" and sch: "rb_schema kept = physical_schema cols"
      using b(3) by (simp_all add: kept_def filter_neq_rows) (simp add: filter_neq_def)
    have er: "mset (rb_rows kept) + erased V G i key ?m = object_rows V G ?m"
      using False by (simp add: rows b(4) erased_def)
    have "num_rows b = num_rows kept + size (erased V G i key ?m)"
      using arg_cong [OF er, of size] by (simp add: b(4) num_rows_def)
    then have cnt: "del_rows_deleted stats1 = del_rows_deleted stats + erased_count V G i key ?m"
      using False by (simp add: stats1_def erased_count_def)
    have rest: "(if num_rows kept = 0 then delete_from_parts we lb ht cols key ps stats1 new
        else act_bind (rewrite_kept we lb ht cols p kept) (\<lambda>m. delete_from_parts we lb ht cols key ps stats1 (new @ [m]))) w1
        = (w', Inr (stats', new'))"
      using Cons.prems(1) False r b(3) assms(2)
      by (auto simp: dedicated_def [symmetric] act_bind_Inr Let_def int64_array_Inr kept_def stats1_def)
    show ?thesis
    proof (cases "num_rows kept = 0")
      case True
      then have "erased V G i key ?m = object_rows V G ?m" using er by (simp add: num_rows_def)
      with Cons.IH [OF _ b(1) dom(2), of stats1 new] rest True b(2) cnt show ?thesis by (simp add: algebra_simps)
    next
      case False
      with rest obtain w2 m where k: "rewrite_kept we lb ht cols p kept w1 = (w2, Inr m)"
        and r2: "delete_from_parts we lb ht cols key ps stats1 (new @ [m]) w2 = (w', Inr (stats', new'))"
        by (auto simp: act_bind_Inr)
      have "\<forall>r \<in> set (rb_rows kept). row_fits (physical_schema cols) r" using b(5) rows by auto
      from rewrite_kept_Inr [OF assms(1) k b(1) sch this] obtain f where ok: "objects_ok G ?P n0 c0 None w2"
        and f: "w_uploads w2 = w_uploads w1 @ [(path m, f)]" "V f = Some (rb_rows kept)" by (auto simp: V_def)
      from Cons.IH [OF r2 ok dom(2)] obtain added files where ih: "objects_ok G ?P n0 c0 None w'"
        "del_rows_deleted stats' = del_rows_deleted stats1 + sum_list (map (erased_count V G i key \<circ> part_meta) ps)"
        "new' = (new @ [m]) @ added" "length files = length added" "w_uploads w' = w_uploads w2 @ zip (map path added) files"
        "sum_list (map (view_rows V) files) + sum_list (map (erased V G i key \<circ> part_meta) ps)
          = sum_list (map (object_rows V G \<circ> part_meta) ps)" by blast
      have v: "view_rows V f + erased V G i key ?m = object_rows V G ?m" using er f(2) by (simp add: view_rows_def)
      have "sum_list (map (view_rows V) (f # files)) + sum_list (map (erased V G i key \<circ> part_meta) (p # ps))
          = sum_list (map (object_rows V G \<circ> part_meta) (p # ps))"
        using ih(6) v by (simp add: ac_simps)
      with ih b(2) f(1) cnt show ?thesis
        by (intro conjI exI [of _ "m # added"] exI [of _ "f # files"]) (simp_all add: comp_def)
    qed
  qed
qed simp

section \<open>The commit\<close>

lemma traded_rest:
  assumes "traded V fs ht grp new s s'"
    and "sum_list (map (object_rows V fs) new) + E = sum_list (map (object_rows V fs \<circ> part_meta) grp)"
  shows "contents V fs s' h + (if h = ht then E else {#}) = contents V fs s h"
proof (cases "h = ht")
  case True
  let ?new = "sum_list (map (object_rows V fs) new)"
  have "contents V fs s' h + (?new + E) = contents V fs s h + ?new"
    using assms(1) [unfolded traded_def, THEN spec, of h] True by (simp add: assms(2))
  then have "(contents V fs s' h + E) + ?new = contents V fs s h + ?new" by (simp add: ac_simps)
  with True show ?thesis by simp
qed (use assms(1) [unfolded traded_def, THEN spec, of h] in simp)

text \<open>A part whose recorded key range is true of the object's rows.\<close>

definition range_true :: "('f \<Rightarrow> cells list option) \<Rightarrow> (string \<Rightarrow> 'f option) \<Rightarrow> nat \<Rightarrow> part_meta \<Rightarrow> bool" where
  "range_true V fs i m \<longleftrightarrow> (\<forall>r \<in># object_rows V fs m. \<exists>v. cell_i64 (r ! i) = Some v \<and> packing_key_min m \<le> v \<and> v \<le> packing_key_max m)"

abbreviation overlaps :: "i64 \<Rightarrow> part_meta \<Rightarrow> bool" where
  "overlaps key m \<equiv> packing_key_min m \<le> key \<and> key \<le> packing_key_max m"

lemma range_true_erased:
  assumes "range_true V fs i m"
  shows "erased V fs i key m = filter_mset (\<lambda>r. \<not> row_kept i key r) (object_rows V fs m)"
proof (cases "dedicated key m")
  case True
  with assms have "filter_mset (\<lambda>r. \<not> row_kept i key r) (object_rows V fs m) = object_rows V fs m"
    by (intro filter_mset_eq_conv [THEN iffD2]) (auto simp: range_true_def dedicated_def row_kept_def)
  with True show ?thesis by (simp add: erased_def)
qed (simp add: erased_def)

lemma range_true_outside:
  assumes "range_true V fs i m" "\<not> overlaps key m" "r \<in># object_rows V fs m"
  shows "row_kept i key r"
  using assms by (fastforce simp: range_true_def row_kept_def)

text \<open>Erasing from every part that overlaps the key leaves the rows of other keys.\<close>

lemma erased_all:
  assumes wf: "wf_parts s" and l: "inputs_live s ht (map part_id grp)"
    and grp: "\<forall>p \<in> set grp. \<exists>r \<in> set (parts s). pr_id r = part_id p \<and> pr_meta r = part_meta p"
    and true: "\<forall>r \<in> set (parts s). pr_hypertable r = ht \<and> live r \<longrightarrow> range_true V fs i (pr_meta r)"
    and all: "\<forall>r \<in> set (parts s). pr_hypertable r = ht \<and> live r \<and> overlaps key (pr_meta r) \<longrightarrow> pr_id r \<in> part_id ` set grp"
  shows "filter_mset (row_kept i key) (contents V fs s ht) + sum_list (map (erased V fs i key \<circ> part_meta) grp) = contents V fs s ht"
proof -
  let ?gone = "\<lambda>m. filter_mset (\<lambda>r. \<not> row_kept i key r) (object_rows V fs m)"
  let ?live = "filter (\<lambda>p. pr_hypertable p = ht \<and> live p) (parts s)"
  have hit: "tombstone_hit ht (map part_id grp) r \<longleftrightarrow> pr_hypertable r = ht \<and> live r \<and> pr_id r \<in> part_id ` set grp" for r
    by (auto simp: tombstone_hit_def live_def)
  have split: "sum_list (map (?gone \<circ> pr_meta) ?live) = sum_list (map (?gone \<circ> pr_meta) (filter (tombstone_hit ht (map part_id grp)) (parts s)))"
    unfolding hit using true all
  proof (induction "parts s" arbitrary: s)
    case (Cons r rs)
    from Cons(1) [of "s\<lparr>parts := rs\<rparr>"] Cons.prems Cons(2) [symmetric] show ?case
      by (auto dest: range_true_outside)
  qed simp
  have "erased V fs i key (pr_meta r) = ?gone (pr_meta r)" if "tombstone_hit ht (map part_id grp) r" "r \<in> set (parts s)" for r
    using that true by (intro range_true_erased) (simp add: hit)
  then have "map (erased V fs i key \<circ> pr_meta) (filter (tombstone_hit ht (map part_id grp)) (parts s))
      = map (?gone \<circ> pr_meta) (filter (tombstone_hit ht (map part_id grp)) (parts s))" by simp
  with split inputs_sum [OF wf l grp, of "erased V fs i key"]
  have "sum_list (map (erased V fs i key \<circ> part_meta) grp) = sum_list (map (?gone \<circ> pr_meta) ?live)" by simp
  also have "\<dots> = filter_mset (\<lambda>r. \<not> row_kept i key r) (contents V fs s ht)"
    by (simp add: contents_def filter_mset_sum_list comp_def)
  finally show ?thesis by (simp only: multiset_partition [symmetric])
qed

lemma uploaded_rows:
  assumes "objects_ok G P n0 c0 cur w" "drop n0 (w_uploads w) = zip (map path new) files" "length files = length new"
  shows "sum_list (map (object_rows V (w_files w)) new) = sum_list (map (view_rows V) files)"
proof (intro arg_cong [of _ _ sum_list] nth_equalityI)
  fix j assume "j < length (map (object_rows V (w_files w)) new)"
  then have j: "j < length new" "j < length files" using assms(3) by simp_all
  then have "(path (new ! j), files ! j) \<in> set (drop n0 (w_uploads w))"
    unfolding assms(2) by (auto simp: set_zip intro!: exI [of _ j])
  with assms(1) have "w_files w (path (new ! j)) = Some (files ! j)" by (fastforce simp: objects_ok_def)
  with j show "map (object_rows V (w_files w)) new ! j = map (view_rows V) files ! j" by (simp add: object_rows_def)
qed (simp add: assms(3))

lemma object_rows_kept:
  "objects_ok G P n0 c0 cur w \<Longrightarrow> path m \<in> dom G \<Longrightarrow> object_rows V (w_files w) m = object_rows V G m"
  by (fastforce simp: object_rows_def objects_ok_def)

lemma erased_kept:
  "objects_ok G P n0 c0 cur w \<Longrightarrow> path m \<in> dom G \<Longrightarrow>
     erased V (w_files w) i key m = erased V G i key m \<and> erased_count V (w_files w) i key m = erased_count V G i key m"
  by (simp add: erased_count_def erased_def object_rows_kept)

section \<open>Properties\<close>

text \<open>C34: erasing a key. The parts it works on are those whose range holds the key when it reads
  the catalog. If it succeeds, either there were none, or the operation was on record already, or
  the commit took effect: then every table's contents are as before it, less, in the table at
  hand, the rows of the parts dedicated to the key and the rows of the key (or with a null key)
  of the others, and \<open>rows_deleted\<close> counts them by the dropped parts' \<open>row_count\<close> and the rows
  filtered out. If the recorded ranges are true and no part overlapping the key came in between,
  what is left is exactly the table's rows of other keys. Others act meanwhile as for a merge.\<close>

theorem deletion_erases_key:
  assumes env: "merge_env we lb ht cols 0 G" and cols: "parse (table_schema ht) = Inr cols"
    and i: "index_of (physical_schema cols) (packing_key ht) = Some i" and wf: "wf_log (w_catalog w)"
    and there: "\<forall>p f. G p = Some f \<longrightarrow> w_files w p = Some f"
    and dom: "\<forall>x \<in> set (parts (w_catalog (others_ran we w))). pr_hypertable x = ht_id ht \<and> live x \<longrightarrow> path (pr_meta x) \<in> dom G"
    and del: "delete_key_from we lb ht key w = (w', Inr stats)"
  defines "V \<equiv> file_view (lb_arrow lb) (lb_df lb) cols" and "fs \<equiv> w_files w'"
  shows "\<exists>grp c. catalog_run (w_catalog (others_ran we w)) c \<and>
    set grp = part_of_row ` {x \<in> set (parts (w_catalog (others_ran we w))). pr_hypertable x = ht_id ht \<and> live x \<and> overlaps key (pr_meta x)} \<and>
    (if grp = [] then stats = no_deletion \<and> w_catalog w' = c
     else (\<exists>op cid. delete_key (lb_blake3 lb) (ht_id ht) (deletion_intent ht key (map part_id grp)) = Inr op \<and>
         reconcile op (operation_row op c) = Inr (Some cid) \<and> same_tables c (w_catalog w')) \<or>
       (\<forall>h. contents V fs (w_catalog w') h + (if h = ht_id ht then sum_list (map (erased V fs i key \<circ> part_meta) grp) else {#})
          = contents V fs c h) \<and>
       del_rows_deleted stats = sum_list (map (erased_count V fs i key \<circ> part_meta) grp) \<and>
       ((\<forall>r \<in> set (parts c). pr_hypertable r = ht_id ht \<and> live r \<longrightarrow>
            range_true V fs i (pr_meta r) \<and> (overlaps key (pr_meta r) \<longrightarrow> pr_id r \<in> part_id ` set grp)) \<longrightarrow>
          contents V fs (w_catalog w') (ht_id ht) = filter_mset (row_kept i key) (contents V fs c (ht_id ht))))"
proof -
  let ?P = "drawn_paths we (ht_id ht)" and ?c0 = "w_catalog (others_ran we w)" and ?n0 = "length (w_uploads w)"
  define grp where "grp = map part_of_row (sort_key pr_id (filter (\<lambda>p. pr_hypertable p = ht_id ht \<and> live p \<and> overlaps key (pr_meta p)) (parts ?c0)))"
  have grp: "set grp = part_of_row ` {x \<in> set (parts ?c0). pr_hypertable x = ht_id ht \<and> live x \<and> overlaps key (pr_meta x)}"
    by (auto simp: grp_def)
  have se: "store_env we G ?P" using env by (simp add: merge_env_def)
  have w0: "objects_ok G ?P ?n0 (w_catalog w) None w" using there by (simp add: objects_ok_def)
  have w1: "objects_ok G ?P ?n0 (w_catalog w) None (others_ran we w)" by (rule objects_others [OF se w0])
  then have o1: "objects_ok G ?P ?n0 ?c0 None (others_ran we w)" by (simp add: objects_ok_def)
  have wf0: "wf_log ?c0" using w1 run_wf_log wf by (auto simp: objects_ok_def)
  have read: "act_call we CCatalog (\<lambda>env. live_parts env (ht_id ht) (Some key)) w = (w1, Inr ps) \<longleftrightarrow>
      dropped_before we w = None \<and> we_cut we (w_tick w) = None \<and> env_fail (we_db we (w_tick w)) SLiveParts = None \<and>
      w1 = others_ran we w \<and> ps = grp" for w1 ps
    by (auto simp: act_call_Inr live_parts_def query_Inr grp_def)
  show ?thesis
  proof (cases "grp = []")
    case True
    with del read have "w' = others_ran we w \<and> stats = no_deletion" by (auto simp: delete_key_from_def act_bind_Inr split: if_splits)
    with True grp show ?thesis by (intro exI [of _ grp] exI [of _ ?c0]) simp
  next
    case False
    with del obtain op w2 new r where op: "delete_key (lb_blake3 lb) (ht_id ht) (deletion_intent ht key (map part_id grp)) = Inr op"
      and d: "delete_from_parts we lb ht cols key grp no_deletion [] (others_ran we w) = (w2, Inr (stats, new))"
      and c: "act_call we CCatalog (\<lambda>env. commit env (lb_de lb) (ht_id ht) (Replace (map part_id grp) new) (Some op)) w2 = (w', Inr r)"
      by (auto simp: delete_key_from_def act_bind_Inr read cols map_sum_eq_Inr Let_def split: if_splits)
    let ?w3 = "others_ran we w2" and ?cm = "w_catalog (others_ran we w2)"
    have pd: "\<forall>p \<in> set grp. path (part_meta p) \<in> dom G" using dom by (auto simp: grp part_of_row_def)
    from delete_from_parts_Inr [OF env i d o1 pd, folded V_def] obtain files where o2: "objects_ok G ?P ?n0 ?c0 None w2"
      and cnt: "del_rows_deleted stats = sum_list (map (erased_count V G i key \<circ> part_meta) grp)"
      and len: "length files = length new" and up: "w_uploads w2 = w_uploads w @ zip (map path new) files"
      and sum: "sum_list (map (view_rows V) files) + sum_list (map (erased V G i key \<circ> part_meta) grp)
          = sum_list (map (object_rows V G \<circ> part_meta) grp)" by (auto simp: no_deletion_def)
    have o3: "objects_ok G ?P ?n0 ?c0 None ?w3" by (rule objects_others [OF se o2])
    have fs: "fs = w_files ?w3" using c by (auto simp: act_call_Inr fs_def)
    have run: "catalog_run ?c0 ?cm" using o3 by (simp add: objects_ok_def)
    have wf3: "wf_log ?cm" by (rule run_wf_log [OF run wf0])
    have e: "map (erased V fs i key \<circ> part_meta) grp = map (erased V G i key \<circ> part_meta) grp"
      "map (erased_count V fs i key \<circ> part_meta) grp = map (erased_count V G i key \<circ> part_meta) grp"
      "map (object_rows V fs \<circ> part_meta) grp = map (object_rows V G \<circ> part_meta) grp"
      using pd erased_kept [OF o3] object_rows_kept [OF o3] by (simp_all add: fs)
    have new: "sum_list (map (object_rows V fs) new) = sum_list (map (view_rows V) files)"
      unfolding fs by (rule uploaded_rows [OF o3 _ len]) (simp add: up)
    have meta: "\<forall>p \<in> set grp. \<exists>q \<in> set (parts ?cm). pr_id q = part_id p \<and> pr_meta q = part_meta p"
      using run_part_meta [OF run wf0] by (fastforce simp: grp part_of_row_def)
    from c obtain c' where ct: "commit_txn (we_db we (w_tick w2)) (lb_de lb) (ht_id ht) (Replace (map part_id grp) new) (Some op) [] None ?cm
        = (c', Inr r)" and c': "w_catalog w' = c'" by (auto simp: act_call_Inr commit_def commit_inner_def)
    from ct show ?thesis
    proof (cases rule: commit_txn_cases)
      case untouched
      then obtain cid where "reconcile op (operation_row op ?cm) = Inr (Some cid)" by (cases r) auto
      with untouched(1) op run grp False show ?thesis unfolding c' by (intro exI [of _ grp] exI [of _ ?cm]) auto
    next
      case effect
      have "traded V fs (ht_id ht) grp new ?cm c'" by (rule replace_traded [OF wf3 effect(1) meta])
      from traded_rest [OF this, of "sum_list (map (erased V fs i key \<circ> part_meta) grp)"]
      have less: "\<forall>h. contents V fs c' h + (if h = ht_id ht then sum_list (map (erased V fs i key \<circ> part_meta) grp) else {#})
          = contents V fs ?cm h" using sum unfolding e new by blast
      have "inputs_live ?cm (ht_id ht) (map part_id grp)" "wf_parts ?cm"
        using effect(1) wf3 by (auto simp: took_effect_def wf_log_def)
      note all = erased_all [OF this(2,1) meta, of V fs i key]
      have "contents V fs c' (ht_id ht) = filter_mset (row_kept i key) (contents V fs ?cm (ht_id ht))"
        if "\<forall>r \<in> set (parts ?cm). pr_hypertable r = ht_id ht \<and> live r \<longrightarrow>
            range_true V fs i (pr_meta r) \<and> (overlaps key (pr_meta r) \<longrightarrow> pr_id r \<in> part_id ` set grp)"
      proof -
        have "filter_mset (row_kept i key) (contents V fs ?cm (ht_id ht)) + sum_list (map (erased V fs i key \<circ> part_meta) grp)
            = contents V fs ?cm (ht_id ht)" by (rule all) (use that in auto)
        also have "\<dots> = contents V fs c' (ht_id ht) + sum_list (map (erased V fs i key \<circ> part_meta) grp)"
          using less [THEN spec, of "ht_id ht"] by simp
        finally show ?thesis by simp
      qed
      with less cnt run grp False show ?thesis unfolding c'
        by (intro exI [of _ grp] exI [of _ ?cm]) (simp add: e)
    qed
  qed
qed

lemma demo_deletion_op:
  "delete_key (lb_blake3 demo_libs) (ht_id demo_ht) (deletion_intent demo_ht 3 [1, 2])
     = Inr \<lparr>oi_hypertable = 1, oi_key = operation_key ''delete-key'' 1 [1], oi_fingerprint = [1]\<rparr>"
proof -
  have "canonical_parts [1, 2] = Inr [1, 2]" by code_simp
  moreover have "length (operation_key ''delete-key'' 1 [1]) \<le> MAX_OPERATION_KEY_LEN" by code_simp
  ultimately show ?thesis by (simp add: delete_key_def deletion_intent_def demo_ht_def finish_def Let_def demo_libs_def)
qed

lemma demo_deletion_work:
  "snd (act_bind (delete_from_parts (calm_wenv 5) demo_libs demo_ht demo_columns 3 demo_group no_deletion []) (\<lambda>(stats, new_parts).
     act_bind (act_call (calm_wenv 5) CCatalog (\<lambda>env. commit env (lb_de demo_libs) 1 (Replace [1, 2] new_parts)
       (Some \<lparr>oi_hypertable = 1, oi_key = k, oi_fingerprint = f\<rparr>))) (\<lambda>_. act_return stats)) (demo_world\<lparr>w_tick := 1\<rparr>))
   = Inr \<lparr>del_dropped_parts = 0, del_rewritten_parts = 2, del_rows_deleted = 2\<rparr>"
  by code_simp

lemma demo_deletion_read:
  "act_call (calm_wenv 5) CCatalog (\<lambda>env. live_parts env (ht_id demo_ht) (Some 3)) demo_world = (demo_world\<lparr>w_tick := 1\<rparr>, Inr demo_group)"
  by (simp add: act_call_Inr live_parts_def query_Inr calm_wenv_def quiet_env_def demo_world_defs others_ran_def dropped_before_def live_def)

lemma demo_deletion:
  "snd (delete_key_from (calm_wenv 5) demo_libs demo_ht 3 demo_world)
     = Inr \<lparr>del_dropped_parts = 0, del_rewritten_parts = 2, del_rows_deleted = 2\<rparr>"
proof -
  have g: "demo_group \<noteq> []" "map part_id demo_group = [1, 2]" by (simp_all add: demo_world_defs part_of_row_def)
  have "delete_key_from (calm_wenv 5) demo_libs demo_ht 3 demo_world
      = act_bind (delete_from_parts (calm_wenv 5) demo_libs demo_ht demo_columns 3 demo_group no_deletion []) (\<lambda>(stats, new_parts).
     act_bind (act_call (calm_wenv 5) CCatalog (\<lambda>env. commit env (lb_de demo_libs) (ht_id demo_ht) (Replace [1, 2] new_parts)
       (Some \<lparr>oi_hypertable = 1, oi_key = operation_key ''delete-key'' 1 [1], oi_fingerprint = [1]\<rparr>))) (\<lambda>_. act_return stats)) (demo_world\<lparr>w_tick := 1\<rparr>)"
    unfolding delete_key_from_def act_bind_def [of "act_call _ _ _"] demo_deletion_read
    by (simp add: g demo_deletion_op demo_cols)
  also have "ht_id demo_ht = 1" by (simp add: demo_ht_def)
  finally show ?thesis by (simp only: demo_deletion_work)
qed

text \<open>C34: key 3 is erased from two parts of two rows each.\<close>

theorem deletion_erases_key_witness:
  "\<exists>w' grp c. let V = file_view (lb_arrow demo_libs) (lb_df demo_libs) demo_columns; fs = w_files w' in
     delete_key_from (calm_wenv 5) demo_libs demo_ht 3 demo_world
       = (w', Inr \<lparr>del_dropped_parts = 0, del_rewritten_parts = 2, del_rows_deleted = 2\<rparr>) \<and>
     catalog_run demo_state c \<and> set grp = set demo_group \<and>
     ((\<exists>op cid. reconcile op (operation_row op c) = Inr (Some cid) \<and> same_tables c (w_catalog w')) \<or>
      contents V fs (w_catalog w') 1 + sum_list (map (erased V fs 0 3 \<circ> part_meta) grp) = contents V fs c 1)"
proof -
  obtain w' where d: "delete_key_from (calm_wenv 5) demo_libs demo_ht 3 demo_world
      = (w', Inr \<lparr>del_dropped_parts = 0, del_rewritten_parts = 2, del_rows_deleted = 2\<rparr>)"
    using demo_deletion by (metis prod.collapse)
  have a: "merge_env (calm_wenv 5) demo_libs demo_ht demo_columns 0 (w_files demo_world)" by (rule demo_merge_env)
  have b: "index_of (physical_schema demo_columns) (packing_key demo_ht) = Some 0"
    by (simp add: demo_physical demo_key_field_def demo_ht_def)
  have c: "wf_log (w_catalog demo_world)" using demo_state_wf by (simp add: demo_world_def)
  have e: "\<forall>p f. w_files demo_world p = Some f \<longrightarrow> w_files demo_world p = Some f" by simp
  have f: "\<forall>x \<in> set (parts (w_catalog (others_ran (calm_wenv 5) demo_world))).
      pr_hypertable x = ht_id demo_ht \<and> live x \<longrightarrow> path (pr_meta x) \<in> dom (w_files demo_world)"
    by (simp add: demo_world_defs)
  have g: "part_of_row ` {x \<in> set (parts demo_state). pr_hypertable x = 1 \<and> live x \<and> overlaps 3 (pr_meta x)} = set demo_group"
    by (auto simp: demo_world_defs live_def)
  from deletion_erases_key [OF a demo_cols b c e f d] show ?thesis
  proof (elim exE conjE)
    fix grp c
    assume run: "catalog_run (w_catalog (others_ran (calm_wenv 5) demo_world)) c"
      and grp: "set grp = part_of_row ` {x \<in> set (parts (w_catalog (others_ran (calm_wenv 5) demo_world))).
        pr_hypertable x = ht_id demo_ht \<and> live x \<and> overlaps 3 (pr_meta x)}"
    have s: "w_catalog (others_ran (calm_wenv 5) demo_world) = demo_state" "ht_id demo_ht = 1"
      by (simp_all add: demo_world_def demo_ht_def)
    have G: "set grp = set demo_group" using grp unfolding s g .
    then have ne: "grp \<noteq> []" by (auto simp: demo_world_defs)
    let ?V = "file_view (lb_arrow demo_libs) (lb_df demo_libs) demo_columns" and ?fs = "w_files w'"
    assume "if grp = [] then \<lparr>del_dropped_parts = 0, del_rewritten_parts = 2, del_rows_deleted = 2\<rparr> = no_deletion \<and> w_catalog w' = c
      else (\<exists>op cid. delete_key (lb_blake3 demo_libs) (ht_id demo_ht) (deletion_intent demo_ht 3 (map part_id grp)) = Inr op \<and>
          reconcile op (operation_row op c) = Inr (Some cid) \<and> same_tables c (w_catalog w')) \<or>
        (\<forall>h. contents ?V ?fs (w_catalog w') h + (if h = ht_id demo_ht then sum_list (map (erased ?V ?fs 0 3 \<circ> part_meta) grp) else {#})
          = contents ?V ?fs c h) \<and>
        del_rows_deleted \<lparr>del_dropped_parts = 0, del_rewritten_parts = 2, del_rows_deleted = 2\<rparr>
          = sum_list (map (erased_count ?V ?fs 0 3 \<circ> part_meta) grp) \<and>
        ((\<forall>r \<in> set (parts c). pr_hypertable r = ht_id demo_ht \<and> live r \<longrightarrow>
            range_true ?V ?fs 0 (pr_meta r) \<and> (overlaps 3 (pr_meta r) \<longrightarrow> pr_id r \<in> part_id ` set grp)) \<longrightarrow>
          contents ?V ?fs (w_catalog w') (ht_id demo_ht) = filter_mset (row_kept 0 3) (contents ?V ?fs c (ht_id demo_ht)))"
    then have "(\<exists>op cid. reconcile op (operation_row op c) = Inr (Some cid) \<and> same_tables c (w_catalog w')) \<or>
      contents ?V ?fs (w_catalog w') 1 + sum_list (map (erased ?V ?fs 0 3 \<circ> part_meta) grp) = contents ?V ?fs c 1"
      using ne unfolding s by (auto dest: spec [where x = 1])
    with run G d show ?thesis unfolding s Let_def by (intro exI [of _ w'] exI [of _ grp] exI [of _ c] conjI)
  qed
qed

end
