(* ===== verification/Float64.thy ===== *)
theory Float64
  imports Complex_Main Prelude
begin

text \<open>
  Double-precision arithmetic as the sources use it: finite values are rationals, an operation is the
  exact one followed by rounding to 53 bits, nearest with ties to even (\<open>fl\<close>). The exponent range is
  left out: the values the code computes with (fractions of a hash, seconds up to \<open>2 ^ 64\<close>) are far
  inside it. Rounding is monotone and exact on powers of two, which is what bounds need.
\<close>

section \<open>Definitions\<close>

definition round_half_even :: "rat \<Rightarrow> int" where
  "round_half_even x = (let f = \<lfloor>x\<rfloor>; d = x - of_int f in
     if d < 1 / 2 then f else if d > 1 / 2 then f + 1 else if even f then f else f + 1)"

fun bit_len :: "nat \<Rightarrow> nat" where
  "bit_len n = (if n = 0 then 0 else Suc (bit_len (n div 2)))"

declare bit_len.simps [simp del]

text \<open>The exponent of a positive rational: \<open>2 powi flog x \<le> x < 2 powi (flog x + 1)\<close>.\<close>

definition flog :: "rat \<Rightarrow> int" where
  "flog x = (let (n, d) = quotient_of x; k = int (bit_len (nat n)) - int (bit_len (nat d)) in
     if 2 powi k \<le> x then k else k - 1)"

definition fl_pos :: "rat \<Rightarrow> rat" where
  "fl_pos x = of_int (round_half_even (x * 2 powi (52 - flog x))) * 2 powi (flog x - 52)"

definition fl :: "rat \<Rightarrow> rat" where
  "fl x = (if x > 0 then fl_pos x else if x < 0 then - fl_pos (- x) else 0)"

text \<open>A value of type \<open>f64\<close>.\<close>

datatype f64 = Fin rat | PosInf | NegInf | NaN

text \<open>\<open>a >= b\<close> and \<open>(a..=b).contains(&x)\<close>: false when an operand is a NaN.\<close>

fun f64_le :: "f64 \<Rightarrow> f64 \<Rightarrow> bool" where
  "f64_le (Fin a) (Fin b) = (a \<le> b)"
| "f64_le NegInf y = (y \<noteq> NaN)"
| "f64_le x PosInf = (x \<noteq> NaN)"
| "f64_le _ _ = False"

section \<open>Rounding\<close>

lemma round_half_even_int [simp]: "round_half_even (of_int n) = n"
  by (simp add: round_half_even_def)

lemma round_half_even_bounds: "\<lfloor>x\<rfloor> \<le> round_half_even x" "round_half_even x \<le> \<lfloor>x\<rfloor> + 1"
  by (simp_all add: round_half_even_def Let_def)

lemma round_half_even_mono:
  assumes "x \<le> y"
  shows "round_half_even x \<le> round_half_even y"
proof (cases "\<lfloor>x\<rfloor> = \<lfloor>y\<rfloor>")
  case True
  with assms show ?thesis by (auto simp: round_half_even_def Let_def)
next
  case False
  with floor_mono [OF assms] have "\<lfloor>x\<rfloor> + 1 \<le> \<lfloor>y\<rfloor>" by simp
  with round_half_even_bounds [of x] round_half_even_bounds [of y] show ?thesis by linarith
qed

lemma bit_len_bounds: "0 < n \<Longrightarrow> 2 ^ (bit_len n - 1) \<le> n \<and> n < 2 ^ bit_len n \<and> 0 < bit_len n"
proof (induction n rule: bit_len.induct)
  case (1 n)
  show ?case
  proof (cases "n = 1")
    case False
    then have d: "0 < n div 2" "n \<noteq> 0" using "1.prems" by auto
    from "1.IH" [OF d(2) d(1)] have b: "2 ^ (bit_len (n div 2) - 1) \<le> n div 2" "n div 2 < 2 ^ bit_len (n div 2)" "0 < bit_len (n div 2)" by auto
    from b(3) have "(2::nat) ^ bit_len (n div 2) = 2 * 2 ^ (bit_len (n div 2) - 1)" by (cases "bit_len (n div 2)") auto
    with b have "2 ^ bit_len (n div 2) \<le> n" "n < 2 * 2 ^ bit_len (n div 2)" by linarith+
    with d(2) show ?thesis by (simp add: bit_len.simps [of n])
  qed (simp add: bit_len.simps)
qed

lemma flog_bounds:
  assumes "0 < x"
  shows "2 powi flog x \<le> x" "x < 2 powi (flog x + 1)"
proof -
  obtain n d where q: "quotient_of x = (n, d)" by (cases "quotient_of x")
  have d: "0 < d" using q by (rule quotient_of_denom_pos)
  have x: "x = of_int n / of_int d" using q by (rule quotient_of_div)
  with assms d have n: "0 < n" by (simp add: zero_less_divide_iff)
  let ?bn = "bit_len (nat n)" and ?bd = "bit_len (nat d)"
  let ?k = "int ?bn - int ?bd"
  have bn: "2 ^ (?bn - 1) \<le> nat n" "nat n < 2 ^ ?bn" "0 < ?bn" using bit_len_bounds [of "nat n"] n by auto
  have bd: "2 ^ (?bd - 1) \<le> nat d" "nat d < 2 ^ ?bd" "0 < ?bd" using bit_len_bounds [of "nat d"] d by auto
  have cast: "(of_int v :: rat) = of_nat (nat v)" if "0 < v" for v using that by simp
  have N: "(2::rat) ^ (?bn - 1) \<le> of_int n" "(of_int n :: rat) < 2 ^ ?bn"
    unfolding cast [OF n] using bn by (metis of_nat_le_iff of_nat_less_iff of_nat_numeral of_nat_power)+
  have D: "(2::rat) ^ (?bd - 1) \<le> of_int d" "(of_int d :: rat) < 2 ^ ?bd"
    unfolding cast [OF d] using bd by (metis of_nat_le_iff of_nat_less_iff of_nat_numeral of_nat_power)+
  have d': "(0::rat) < of_int d" using d by simp
  have "x < 2 ^ ?bn / 2 ^ (?bd - 1)"
  proof -
    have "x < 2 ^ ?bn / of_int d" unfolding x using N(2) d' by (simp add: divide_strict_right_mono)
    also have "\<dots> \<le> 2 ^ ?bn / 2 ^ (?bd - 1)" using D(1) d' by (intro divide_left_mono) auto
    finally show ?thesis .
  qed
  also have "(2::rat) ^ ?bn / 2 ^ (?bd - 1) = 2 powi (?k + 1)"
    using bd(3) by (simp add: power_int_diff power_int_add power_diff)
  finally have hi: "x < 2 powi (?k + 1)" .
  have "2 powi (?k - 1) = (2::rat) ^ (?bn - 1) / 2 ^ ?bd"
    using bn(3) by (simp add: power_int_diff power_diff)
  also have "\<dots> \<le> of_int n / 2 ^ ?bd" using N(1) by (simp add: divide_right_mono)
  also have "\<dots> \<le> x" unfolding x using D(2) n d' by (intro divide_left_mono) auto
  finally have lo: "2 powi (?k - 1) \<le> x" .
  have f: "flog x = (if 2 powi ?k \<le> x then ?k else ?k - 1)" by (simp add: flog_def q Let_def)
  show "2 powi flog x \<le> x" "x < 2 powi (flog x + 1)" using lo hi by (auto simp: f)
qed

lemma powi_mono: "a \<le> b \<Longrightarrow> (2::rat) powi a \<le> 2 powi b"
  by (intro power_int_increasing) simp_all

lemma flog_unique:
  assumes "2 powi k \<le> x" "x < 2 powi (k + 1)"
  shows "flog x = k"
proof -
  have "0 < x" by (rule less_le_trans [OF _ assms(1)]) simp
  from flog_bounds [OF this] assms have "(2::rat) powi flog x < 2 powi (k + 1)" "(2::rat) powi k < 2 powi (flog x + 1)" by linarith+
  then have "flog x < k + 1" "k < flog x + 1" by (meson not_le powi_mono)+
  then show ?thesis by simp
qed

lemma flog_mono: "0 < x \<Longrightarrow> x \<le> y \<Longrightarrow> flog x \<le> flog y"
proof (rule ccontr)
  assume a: "0 < x" "x \<le> y" "\<not> flog x \<le> flog y"
  have "y < 2 powi (flog y + 1)" using a by (intro flog_bounds) simp
  also have "\<dots> \<le> 2 powi flog x" using a(3) by (intro powi_mono) simp
  also have "\<dots> \<le> x" by (rule flog_bounds [OF a(1)])
  finally show False using a(2) by simp
qed

lemma round_half_even_le: "x \<le> of_int n \<Longrightarrow> round_half_even x \<le> n"
  using round_half_even_mono [of x "of_int n"] by simp

lemma round_half_even_ge: "of_int n \<le> x \<Longrightarrow> n \<le> round_half_even x"
  using round_half_even_mono [of "of_int n" x] by simp

text \<open>A rounded value stays between the powers of two around it.\<close>

lemma fl_pos_bounds:
  assumes "0 < x"
  shows "2 powi flog x \<le> fl_pos x" "fl_pos x \<le> 2 powi (flog x + 1)"
proof -
  let ?m = "x * 2 powi (52 - flog x)"
  have s: "2 powi a * 2 powi b = (2::rat) powi (a + b)" for a b by (simp add: power_int_add)
  have "2 powi flog x * 2 powi (52 - flog x) \<le> ?m" "?m \<le> 2 powi (flog x + 1) * 2 powi (52 - flog x)"
    using flog_bounds [OF assms] by (auto intro!: mult_right_mono)
  then have "of_int (2 ^ 52) \<le> ?m" "?m \<le> of_int (2 ^ 53)" by (simp_all add: s)
  then have r: "2 ^ 52 \<le> round_half_even ?m" "round_half_even ?m \<le> 2 ^ 53" by (auto intro: round_half_even_ge round_half_even_le)
  then have "of_int (2 ^ 52) \<le> (of_int (round_half_even ?m) :: rat)" "(of_int (round_half_even ?m) :: rat) \<le> of_int (2 ^ 53)"
    by (simp_all only: of_int_le_iff)
  then have "2 powi 52 * 2 powi (flog x - 52) \<le> fl_pos x" "fl_pos x \<le> 2 powi 53 * 2 powi (flog x - 52)"
    unfolding fl_pos_def by (auto intro!: mult_right_mono)
  then show "2 powi flog x \<le> fl_pos x" "fl_pos x \<le> 2 powi (flog x + 1)" by (simp_all only: s) (simp_all add: algebra_simps)
qed

lemma fl_pos_mono:
  assumes "0 < x" "x \<le> y"
  shows "fl_pos x \<le> fl_pos y"
proof (cases "flog x = flog y")
  case True
  have "round_half_even (x * 2 powi (52 - flog y)) \<le> round_half_even (y * 2 powi (52 - flog y))"
    using assms(2) by (intro round_half_even_mono mult_right_mono) simp_all
  then show ?thesis unfolding fl_pos_def True by (intro mult_right_mono) simp_all
next
  case False
  with flog_mono [OF assms] have "flog x + 1 \<le> flog y" by simp
  then have "(2::rat) powi (flog x + 1) \<le> 2 powi flog y" by (rule powi_mono)
  moreover have "0 < y" using assms by simp
  ultimately show ?thesis using fl_pos_bounds [OF assms(1)] fl_pos_bounds [of y] by linarith
qed

lemma fl_pos_ge_0: "0 < x \<Longrightarrow> 0 \<le> fl_pos x"
  using fl_pos_bounds(1) [of x] by (rule order_trans [rotated]) simp_all

lemma fl_mono: "x \<le> y \<Longrightarrow> fl x \<le> fl y"
  using fl_pos_mono [of x y] fl_pos_mono [of "- y" "- x"] fl_pos_ge_0 [of y] fl_pos_ge_0 [of "- x"] by (auto simp: fl_def)

lemma fl_0 [simp]: "fl 0 = 0"
  by (simp add: fl_def)

lemma fl_minus: "fl (- x) = - fl x"
  by (simp add: fl_def)

text \<open>Integers up to \<open>2 ^ 53\<close> and powers of two are exact.\<close>

lemma fl_powi [simp]: "fl (2 powi k) = 2 powi k"
proof -
  have "flog (2 powi k) = k" by (rule flog_unique) (simp_all add: power_int_strict_increasing)
  moreover have "(2::rat) powi k * 2 powi (52 - k) = of_int (2 ^ 52)" by (simp add: power_int_add [symmetric])
  moreover have "of_int (2 ^ 52) * 2 powi (k - 52) = (2::rat) powi k" using power_int_add [of "2::rat" 52 "k - 52"] by simp
  ultimately have "fl_pos (2 powi k) = 2 powi k" by (simp only: fl_pos_def round_half_even_int)
  then show ?thesis by (simp add: fl_def)
qed

lemma fl_exact:
  assumes "2 ^ 52 \<le> m" "m < 2 ^ 53"
  shows "fl (of_int m * 2 powi e) = of_int m * 2 powi e"
proof -
  let ?x = "of_int m * 2 powi e :: rat"
  have "2 ^ 52 * 2 powi e \<le> ?x" "?x < 2 ^ 53 * 2 powi e"
    using assms by (simp_all del: of_int_less_iff of_int_le_iff add: of_int_le_iff [of "2 ^ 52", where ?'a = rat, simplified] of_int_less_iff [of _ "2 ^ 53", where ?'a = rat, simplified])
  moreover have "(2::rat) ^ 52 * 2 powi e = 2 powi (e + 52)" "(2::rat) ^ 53 * 2 powi e = 2 powi (e + 52 + 1)"
    using power_int_add [of "2::rat" 52 e] power_int_add [of "2::rat" 53 e] by (simp_all add: add.commute)
  ultimately have "2 powi (e + 52) \<le> ?x" "?x < 2 powi (e + 52 + 1)" by (simp_all only:)
  then have g: "flog ?x = e + 52" by (rule flog_unique)
  have "?x * 2 powi (52 - (e + 52)) = of_int m" by (simp add: power_int_minus)
  then have "fl_pos ?x = ?x" unfolding fl_pos_def g by (simp only: round_half_even_int) simp
  moreover have "0 < ?x" using assms by simp
  ultimately show ?thesis by (simp add: fl_def)
qed

lemma fl_1 [simp]: "fl 1 = 1"
  using fl_powi [of 0] by simp

lemma fl_ge_0: "0 \<le> x \<Longrightarrow> 0 \<le> fl x"
  using fl_mono [of 0 x] by simp

end
