(* ===== verification/L0Write.thy ===== *)
theory L0Write
  imports Contents
begin

text \<open>
  The L0 writer, \<^verbatim>\<open>crates/ukiel-write/src/lib.rs\<close>, with \<open>sort_batch\<close> of \<^verbatim>\<open>ukiel-core/src/sorting.rs\<close>:
  adapting batches to a table, grouping rows by partition, encoding a sorted batch and
  publishing the parts in one identified \<open>ADD\<close>. The Arrow kernels (\<open>lexsort_to_indices\<close>, \<open>cast\<close>,
  the size of a batch in memory) and the JSON of a cell are fields of \<open>write_libs\<close>. The \<open>n\<close>th path
  of a publication is drawn under the \<open>n\<close>th number from the current call on.
\<close>

section \<open>Definitions\<close>

datatype write_error =
    WCatalog catalog_error
  | WObjectStore store_error
  | WSchema schema_error
  | WArrow
  | WParquet
  | WExpr expr_error
  | WSortKey sort_key_error
  | InvalidTarget string
  | BudgetExceeded nat
  | EmptyBatch

record ('w, 'f) write_libs = "('w, 'f) libs" +
  wl_lexsort :: "field list \<Rightarrow> cells list \<Rightarrow> nat list option"
  wl_can_cast :: "data_type \<Rightarrow> data_type \<Rightarrow> bool"
  wl_cast :: "data_type \<Rightarrow> data_type \<Rightarrow> cell list \<Rightarrow> cell list option"
  wl_is_timestamp :: "data_type \<Rightarrow> bool"
  wl_memory :: "rbatch \<Rightarrow> nat"
  wl_value :: "data_type \<Rightarrow> string \<Rightarrow> json option"
  wl_json_text :: "json \<Rightarrow> string"

text \<open>\<open>sort_batch\<close>: the sort columns in order, the kernel's permutation, and \<open>take\<close>.\<close>

fun sort_columns :: "schema \<Rightarrow> string list \<Rightarrow> (sort_key_error, nat list) result" where
  "sort_columns s [] = Inr []"
| "sort_columns s (name # names) =
     rbind (ok_or (index_of s name) (UnknownColumn name)) (\<lambda>i. rbind (sort_columns s names) (\<lambda>is. Inr (i # is)))"

definition sort_batch :: "('w, 'f) write_libs \<Rightarrow> rbatch \<Rightarrow> string list \<Rightarrow> (sort_key_error, rbatch) result" where
  "sort_batch W b key =
     rbind (sort_columns (rb_schema b) key) (\<lambda>is.
     rbind (ok_or (wl_lexsort W (map ((!) (rb_schema b)) is) (map (\<lambda>r. map ((!) r) is) (rb_rows b))) SortArrow) (\<lambda>indices.
       ok_or (try_batch (rb_schema b) (map ((!) (rb_rows b)) indices)) SortArrow))"

record 'f encoded_part =
  ep_bytes :: 'f
  ep_row_count :: i64
  ep_key_min :: i64
  ep_key_max :: i64
  ep_column_stats :: "json option"

record 'f flush_item =
  fi_partition_values :: json
  fi_part :: "'f encoded_part"

datatype add_commit = IngestAdd "offset_range list" operation_identity | PlainAdd operation_identity

fun add_identity :: "add_commit \<Rightarrow> operation_identity" where
  "add_identity (IngestAdd offsets identity) = identity"
| "add_identity (PlainAdd identity) = identity"

definition part_of_item :: "('w, 'f) arrow \<Rightarrow> string \<times> 'f flush_item \<Rightarrow> part_meta" where
  "part_of_item L = (\<lambda>(pth, item).
     \<lparr>path = pth, partition_values = fi_partition_values item, packing_key_min = ep_key_min (fi_part item),
      packing_key_max = ep_key_max (fi_part item), row_count = ep_row_count (fi_part item),
      size_bytes = int (pq_size L (ep_bytes (fi_part item))), level = 0, column_stats = ep_column_stats (fi_part item)\<rparr>)"

fun upload_items ::
  "'f wenv \<Rightarrow> ('w, 'f) arrow \<Rightarrow> (string \<times> 'f flush_item) list \<Rightarrow> ('f, write_error, part_meta list) act" where
  "upload_items we L [] = act_return []"
| "upload_items we L (x # xs) =
     act_bind (act_put we WObjectStore (fst x) (ep_bytes (fi_part (snd x)))) (\<lambda>_.
     act_bind (upload_items we L xs) (\<lambda>ps. act_return (part_of_item L x # ps)))"

definition commit_add ::
  "(string \<Rightarrow> nat list option) \<Rightarrow> hypertable_id \<Rightarrow> part_meta list \<Rightarrow> add_commit \<Rightarrow> env \<Rightarrow> commit_result tx" where
  "commit_add de ht ps commit_as env =
     (case commit_as of
        IngestAdd offsets identity \<Rightarrow> commit_with_offsets env de ht (Add ps) offsets identity
      | PlainAdd identity \<Rightarrow> commit env de ht (Add ps) (Some identity))"

definition prepared :: "'f wenv \<Rightarrow> hypertable_id \<Rightarrow> nat \<Rightarrow> 'f flush_item list \<Rightarrow> (string \<times> 'f flush_item) list" where
  "prepared we ht n items = map (\<lambda>(j, item). (output_path we ht 0 (n + j), item)) (enumerate 0 items)"

definition publish_add ::
  "'f wenv \<Rightarrow> ('w, 'f) write_libs \<Rightarrow> hypertable \<Rightarrow> 'f flush_item list \<Rightarrow> add_commit \<Rightarrow> ('f, write_error, commit_result) act" where
  "publish_add we W target items commit_as =
     (if oi_hypertable (add_identity commit_as) \<noteq> ht_id target then
        act_raise (WCatalog (OperationHypertableMismatch (oi_hypertable (add_identity commit_as)) (ht_id target)))
      else (\<lambda>w.
        let xs = prepared we (ht_id target) (w_tick w) items in
        act_bind (act_call we WCatalog (\<lambda>env. register_pending_objects env (ht_id target) (map fst xs))) (\<lambda>_.
        act_bind (upload_items we (lb_arrow W) xs) (\<lambda>ps.
          act_call we WCatalog (commit_add (lb_de W) (ht_id target) ps commit_as))) w))"

fun as_names :: "json list \<Rightarrow> (write_error, string list) result" where
  "as_names [] = Inr []"
| "as_names (c # cs) =
     rbind (ok_or (as_str c) (InvalidTarget ''partition columns must be names'')) (\<lambda>n.
       rbind (as_names cs) (\<lambda>ns. Inr (n # ns)))"

definition partition_columns :: "hypertable \<Rightarrow> (write_error, string list) result" where
  "partition_columns target =
     (case Option.bind (json_get (partition_spec target) ''columns'') as_array of
        None \<Rightarrow> Inl (InvalidTarget ''partition spec must contain a columns array'')
      | Some cs \<Rightarrow> as_names cs)"

fun debug_type :: "data_type \<Rightarrow> string" where
  "debug_type Int64 = ''Int64''"
| "debug_type Float64 = ''Float64''"
| "debug_type Utf8 = ''Utf8''"
| "debug_type Utf8View = ''Utf8View''"
| "debug_type Boolean = ''Boolean''"
| "debug_type (OtherType t) = t"

fun check_output_fields :: "('w, 'f) write_libs \<Rightarrow> table_columns \<Rightarrow> schema \<Rightarrow> (write_error, unit) result" where
  "check_output_fields W cols [] = Inr ()"
| "check_output_fields W cols (f # fs) =
     (case find (\<lambda>c. cs_name c = f_name f) cols of
        None \<Rightarrow> Inl (InvalidTarget (''unknown output column '' @ f_name f))
      | Some spec \<Rightarrow>
          (case cs_kind spec of
             Alias _ \<Rightarrow> Inl (InvalidTarget (''column '' @ cs_name spec @ '' is not writable''))
           | Materialized _ \<Rightarrow> Inl (InvalidTarget (''column '' @ cs_name spec @ '' is not writable''))
           | _ \<Rightarrow>
               if \<not> wl_can_cast W (f_type f) (cs_type spec)
               then Inl (InvalidTarget (''column '' @ cs_name spec @ '' cannot be cast to '' @ debug_type (cs_type spec)))
               else check_output_fields W cols fs))"

definition required_columns :: "hypertable \<Rightarrow> string list \<Rightarrow> string list" where
  "required_columns target partitions = sort_key_cols target @ partitions @ [packing_key target]"

definition validate_output_schema :: "('w, 'f) write_libs \<Rightarrow> schema \<Rightarrow> hypertable \<Rightarrow> (write_error, unit) result" where
  "validate_output_schema W output target =
     rbind (map_sum WSchema id (parse (table_schema target))) (\<lambda>cols.
     rbind (partition_columns target) (\<lambda>partitions.
     let required = required_columns target partitions in
     rbind (check_output_fields W cols output) (\<lambda>_.
     case find (\<lambda>spec. cs_kind spec = Stored \<and> (\<not> cs_nullable spec \<or> cs_name spec \<in> set required) \<and>
                 index_of output (cs_name spec) = None) cols of
       Some spec \<Rightarrow> Inl (InvalidTarget (''missing required column '' @ cs_name spec))
     | None \<Rightarrow>
         rbind (map_sum WSortKey id (validate_sort_key (physical_schema cols) (sort_key_cols target) (packing_key target) None)) (\<lambda>_.
           if list_all (\<lambda>name. index_of (physical_schema cols) name \<noteq> None) required then Inr () else Inl WArrow))))"

section \<open>Batches to L0 items\<close>

definition batch_column :: "rbatch \<Rightarrow> nat \<Rightarrow> cell list" where
  "batch_column b i = map (\<lambda>r. r ! i) (rb_rows b)"

definition rows_of_columns :: "nat \<Rightarrow> cell list list \<Rightarrow> cells list" where
  "rows_of_columns n columns = map (\<lambda>j. map (\<lambda>c. c ! j) columns) [0..<n]"

definition adapt_column :: "('w, 'f) write_libs \<Rightarrow> rbatch \<Rightarrow> column_spec \<Rightarrow> cell list option" where
  "adapt_column W b spec =
     (case index_of (rb_schema b) (cs_name spec) of
        None \<Rightarrow> Some (replicate (num_rows b) cell.Null)
      | Some i \<Rightarrow>
          let t = f_type (rb_schema b ! i) in
          if cs_ukiel_type spec = ''timestamp_ms'' \<and> wl_is_timestamp W t
          then Option.bind (wl_cast W t TIMESTAMP_MS (batch_column b i)) (wl_cast W TIMESTAMP_MS Int64)
          else wl_cast W t (cs_type spec) (batch_column b i))"

definition saturating_usize :: "nat \<Rightarrow> nat" where
  "saturating_usize n = min n (2 ^ 64 - 1)"

definition null_column :: "schema \<Rightarrow> rbatch \<Rightarrow> field option" where
  "null_column s b =
     map_option fst (find (\<lambda>(f, i). \<not> f_nullable f \<and> cell.Null \<in> set (batch_column b i)) (zip s [0..<length s]))"

definition fill_batch ::
  "('w, 'f) write_libs \<Rightarrow> table_columns \<Rightarrow> rbatch \<Rightarrow> (write_error, rbatch) result" where
  "fill_batch W cols b =
     (let evaluation_schema = map (\<lambda>f. f\<lparr>f_nullable := True\<rparr>) (physical_schema cols) in
      rbind (ok_or (those (map (adapt_column W b) (filter (\<lambda>c. \<not> is_alias (cs_kind c)) cols))) WArrow) (\<lambda>arrays.
      rbind (ok_or (try_batch evaluation_schema (rows_of_columns (num_rows b) arrays)) WArrow) (\<lambda>wide.
        map_sum WExpr id (apply_defaults_and_materialized (lb_df W) wide cols))))"

definition check_filled :: "hypertable \<Rightarrow> schema \<Rightarrow> rbatch \<Rightarrow> (write_error, rbatch) result" where
  "check_filled target s filled =
     (case null_column s filled of
        Some f \<Rightarrow> Inl (InvalidTarget (''NULL in non-null column '' @ f_name f))
      | None \<Rightarrow>
          rbind (ok_or (index_of s (packing_key target)) WArrow) (\<lambda>k.
            if cell.Null \<in> set (batch_column filled k) then Inl (InvalidTarget ''packing key contains NULL'')
            else ok_or (try_batch s (rb_rows filled)) WArrow))"

fun adapt_batches ::
  "('w, 'f) write_libs \<Rightarrow> hypertable \<Rightarrow> table_columns \<Rightarrow> nat \<Rightarrow> nat \<Rightarrow> nat \<Rightarrow> rbatch list \<Rightarrow> (write_error, rbatch list) result" where
  "adapt_batches W target cols max_bytes used materialized [] = Inr []"
| "adapt_batches W target cols max_bytes used materialized (b # bs) =
     rbind (validate_output_schema W (rb_schema b) target) (\<lambda>_.
     let used' = saturating_usize (used + wl_memory W b) in
     if used' > max_bytes then Inl (BudgetExceeded max_bytes)
     else if num_rows b = 0 then adapt_batches W target cols max_bytes used' materialized bs
     else rbind (fill_batch W cols b) (\<lambda>filled.
       let materialized' = saturating_usize (materialized + wl_memory W filled) in
       if materialized' > max_bytes then Inl (BudgetExceeded max_bytes)
       else rbind (check_filled target (physical_schema cols) filled) (\<lambda>a.
         rbind (adapt_batches W target cols max_bytes used' materialized' bs) (\<lambda>rest. Inr (a # rest)))))"

definition partition_cell ::
  "('w, 'f) write_libs \<Rightarrow> string \<Rightarrow> data_type \<Rightarrow> cell \<Rightarrow> (write_error, json) result" where
  "partition_cell W name t c =
     (case (t, c) of
        (_, cell.Null) \<Rightarrow> Inr JNull
      | (Int64, I64 v) \<Rightarrow> Inr (JNumber (JInt v))
      | (Float64, Cell s) \<Rightarrow> ok_or (wl_value W Float64 s) (InvalidTarget (''non-finite partition value in '' @ name))
      | (Boolean, Cell s) \<Rightarrow> ok_or (wl_value W Boolean s) WArrow
      | (Utf8, Cell s) \<Rightarrow> ok_or (wl_value W Utf8 s) WArrow
      | _ \<Rightarrow> Inl (InvalidTarget (''unsupported partition column '' @ name)))"

fun partition_value ::
  "('w, 'f) write_libs \<Rightarrow> schema \<Rightarrow> string list \<Rightarrow> cells \<Rightarrow> (string \<times> json) list \<Rightarrow> (write_error, json) result" where
  "partition_value W s [] r vs = Inr (JObject vs)"
| "partition_value W s (name # names) r vs =
     rbind (ok_or (index_of s name) WArrow) (\<lambda>i.
     rbind (partition_cell W name (f_type (s ! i)) (r ! i)) (\<lambda>v.
       partition_value W s names r (object_insert name v vs)))"

text \<open>\<open>groups.entry(key).or_insert_with(..).1.push(row)\<close> on the ordered map.\<close>

fun group_push :: "string \<Rightarrow> json \<Rightarrow> 'a \<Rightarrow> (string \<times> json \<times> 'a list) list \<Rightarrow> (string \<times> json \<times> 'a list) list" where
  "group_push k v row [] = [(k, v, [row])]"
| "group_push k v row ((k', v', rows) # gs) =
     (if k = k' then (k', v', rows @ [row]) # gs
      else if k < k' then (k, v, [row]) # (k', v', rows) # gs
      else (k', v', rows) # group_push k v row gs)"

fun group_rows ::
  "('w, 'f) write_libs \<Rightarrow> schema \<Rightarrow> string list \<Rightarrow> cells list \<Rightarrow> (string \<times> json \<times> cells list) list
   \<Rightarrow> (write_error, (string \<times> json \<times> cells list) list) result" where
  "group_rows W s partitions [] gs = Inr gs"
| "group_rows W s partitions (r # rs) gs =
     rbind (partition_value W s partitions r []) (\<lambda>v.
       group_rows W s partitions rs (group_push (wl_json_text W v) v r gs))"

definition encode_batch ::
  "('w, 'f) write_libs \<Rightarrow> rbatch \<Rightarrow> string \<Rightarrow> string list \<Rightarrow> write_opts \<Rightarrow> (write_error, 'f encoded_part) result" where
  "encode_batch W b packing key opts =
     (let L = lb_arrow W in
      rbind (ok_or (index_of (rb_schema b) packing) WArrow) (\<lambda>k.
      if f_type (rb_schema b ! k) \<noteq> Int64 then Inl (InvalidTarget ''packing key must be Int64'')
      else let keys = map (\<lambda>r. cell_i64 (r ! k)) (rb_rows b) in
      if None \<in> set keys then Inl (InvalidTarget ''packing key contains NULL'')
      else rbind (ok_or (ar_min L keys) EmptyBatch) (\<lambda>key_min.
      rbind (ok_or (ar_max L keys) EmptyBatch) (\<lambda>key_max.
      rbind (map_sum (\<lambda>_. WParquet) id (encode_parquet L b (writer_props (rb_schema b) key opts))) (\<lambda>bytes.
        Inr \<lparr>ep_bytes = bytes, ep_row_count = int (num_rows b), ep_key_min = key_min, ep_key_max = key_max,
             ep_column_stats = with_key_index (int64_column_stats (ar_min L) (ar_max L) (batch_of b))
               (if key_min \<noteq> key_max then key_bitmap (ar_ser L) (batch_of b) packing else None) None\<rparr>)))))"

fun encode_groups ::
  "('w, 'f) write_libs \<Rightarrow> hypertable \<Rightarrow> table_columns \<Rightarrow> (string \<times> json \<times> cells list) list
   \<Rightarrow> (write_error, 'f flush_item list) result" where
  "encode_groups W target cols [] = Inr []"
| "encode_groups W target cols ((k, v, rs) # gs) =
     rbind (map_sum WSortKey id (sort_batch W \<lparr>rb_schema = physical_schema cols, rb_rows = rs\<rparr> (sort_key_cols target))) (\<lambda>b.
     rbind (encode_batch W b (packing_key target) (sort_key_cols target)
              (write_opts_from_columns cols (sort_key_cols target) 0)) (\<lambda>p.
     rbind (encode_groups W target cols gs) (\<lambda>items.
       Inr (\<lparr>fi_partition_values = v, fi_part = p\<rparr> # items))))"

definition batches_to_l0_items ::
  "('w, 'f) write_libs \<Rightarrow> rbatch list \<Rightarrow> hypertable \<Rightarrow> nat \<Rightarrow> (write_error, 'f flush_item list) result" where
  "batches_to_l0_items W batches target max_bytes =
     rbind (map_sum WSchema id (parse (table_schema target))) (\<lambda>cols.
     rbind (partition_columns target) (\<lambda>partitions.
     rbind (adapt_batches W target cols max_bytes 0 0 batches) (\<lambda>adapted.
     let rows = concat (map rb_rows adapted) in
     if adapted = [] then Inr []
     else if length rows > 2 ^ 32 - 1 then Inl (InvalidTarget ''too many output rows for one write'')
     else rbind (group_rows W (physical_schema cols) partitions rows []) (encode_groups W target cols))))"

section \<open>Sorted and encoded batches\<close>

text \<open>What is documented of \<open>lexsort_to_indices\<close>: a permutation that puts the rows in the order of the
  row converter, which compares under the same options.\<close>

definition lexsort_ok :: "('w, 'f) write_libs \<Rightarrow> bool" where
  "lexsort_ok W \<longleftrightarrow> (\<forall>fs rs is. wl_lexsort W fs rs = Some is \<longrightarrow> mset is = mset [0..<length rs] \<and>
     (\<forall>conv. ar_converter (lb_arrow W) fs = Some conv \<longrightarrow> sorted (map (\<lambda>i. conv (rs ! i)) is)))"

lemma sort_columns_merge: "sort_columns s names = Inr is \<longleftrightarrow> sort_indices s names = Inr is"
  by (induction names arbitrary: "is") (auto simp: rbind_eq_Inr_iff)

lemma sort_columns_bound: "sort_columns s names = Inr is \<Longrightarrow> \<forall>i \<in> set is. i < length s"
  by (induction names arbitrary: "is") (auto simp: rbind_eq_Inr_iff dest: index_of_Some_nth)

lemma mset_permuted:
  assumes "mset is = mset [0..<length xs]"
  shows "mset (map ((!) xs) is) = mset xs"
proof -
  have "mset (map ((!) xs) is) = image_mset ((!) xs) (mset is)" by simp
  also have "\<dots> = mset (map ((!) xs) [0..<length xs])" unfolding assms by simp
  finally show ?thesis by (simp add: map_nth)
qed

lemma sort_batch_Inr:
  assumes "lexsort_ok W" "sort_batch W b key = Inr b'"
  shows "rb_schema b' = rb_schema b \<and> mset (rb_rows b') = mset (rb_rows b) \<and>
    (\<forall>is mk. sort_indices (rb_schema b) key = Inr is \<and> merge_key (lb_arrow W) (rb_schema b) is = Some mk \<longrightarrow>
       sorted (map mk (rb_rows b')))"
proof -
  from assms(2) obtain "is" indices where i: "sort_columns (rb_schema b) key = Inr is"
    and l: "wl_lexsort W (map ((!) (rb_schema b)) is) (map (\<lambda>r. map ((!) r) is) (rb_rows b)) = Some indices"
    and b': "try_batch (rb_schema b) (map ((!) (rb_rows b)) indices) = Some b'"
    by (auto simp: sort_batch_def rbind_eq_Inr_iff)
  from assms(1) l have perm: "mset indices = mset [0..<length (rb_rows b)]"
    and srt: "\<And>conv. ar_converter (lb_arrow W) (map ((!) (rb_schema b)) is) = Some conv \<Longrightarrow>
      sorted (map (\<lambda>j. conv (map (\<lambda>r. map ((!) r) is) (rb_rows b) ! j)) indices)"
    by (auto simp: lexsort_ok_def)
  have "set indices = set [0..<length (rb_rows b)]" using perm by (metis set_mset_mset)
  then have lt: "\<forall>j \<in> set indices. j < length (rb_rows b)" by simp
  have "sorted (map mk (rb_rows b'))" if "merge_key (lb_arrow W) (rb_schema b) is = Some mk" for mk
  proof -
    from that obtain conv where c: "ar_converter (lb_arrow W) (map ((!) (rb_schema b)) is) = Some conv"
      and mk: "mk = (\<lambda>r. conv (map ((!) r) is))" by (auto simp: merge_key_def)
    have "map mk (map ((!) (rb_rows b)) indices) = map (\<lambda>j. conv (map (\<lambda>r. map ((!) r) is) (rb_rows b) ! j)) indices"
      using lt by (simp add: mk)
    with srt [OF c] try_batch_Some [OF b'] show ?thesis by (simp only: rbatch.simps)
  qed
  with i mset_permuted [OF perm] try_batch_Some [OF b'] show ?thesis by (simp add: sort_columns_merge)
qed

lemma encode_batch_Inr:
  assumes "writer_ok (lb_arrow W)" "encode_batch W b packing key opts = Inr p"
  shows "\<exists>k bs. index_of (rb_schema b) packing = Some k \<and> f_type (rb_schema b ! k) = Int64 \<and>
    pq_open (lb_arrow W) (ep_bytes p) = Some (rb_schema b, map Some bs) \<and> concat bs = rb_rows b \<and>
    ep_row_count p = int (num_rows b) \<and> (\<forall>r \<in> set (rb_rows b). cell_i64 (r ! k) \<noteq> None) \<and>
    ar_min (lb_arrow W) (map (\<lambda>r. cell_i64 (r ! k)) (rb_rows b)) = Some (ep_key_min p) \<and>
    ar_max (lb_arrow W) (map (\<lambda>r. cell_i64 (r ! k)) (rb_rows b)) = Some (ep_key_max p)"
proof -
  let ?L = "lb_arrow W"
  from assms(2) obtain k bytes where k: "index_of (rb_schema b) packing = Some k" "f_type (rb_schema b ! k) = Int64"
    and n: "None \<notin> set (map (\<lambda>r. cell_i64 (r ! k)) (rb_rows b))"
    and mm: "ar_min ?L (map (\<lambda>r. cell_i64 (r ! k)) (rb_rows b)) = Some (ep_key_min p)"
      "ar_max ?L (map (\<lambda>r. cell_i64 (r ! k)) (rb_rows b)) = Some (ep_key_max p)"
    and e: "encode_parquet ?L b (writer_props (rb_schema b) key opts) = Inr bytes" "ep_bytes p = bytes" "ep_row_count p = int (num_rows b)"
    by (auto simp: encode_batch_def Let_def rbind_eq_Inr_iff map_sum_eq_Inr split: if_splits)
  from e(1) obtain w w1 where w: "pw_new ?L (rb_schema b) (writer_props (rb_schema b) key opts) = Some w"
    "pw_write ?L w (rb_rows b) = Some w1" "pw_close ?L w1 = Some bytes"
    by (auto simp: encode_parquet_def bind_eq_Some_conv)
  from writer_okD(1) [OF assms(1) w(1)] writer_okD(2) [OF assms(1) w(2)] writer_okD(4) [OF assms(1) w(3)]
  obtain bs where "pq_open ?L bytes = Some (rb_schema b, map Some bs)" "concat bs = rb_rows b" by auto
  moreover have "\<forall>r \<in> set (rb_rows b). cell_i64 (r ! k) \<noteq> None" using n by (metis (mono_tags) imageI list.set_map)
  ultimately show ?thesis using k mm e by blast
qed

lemma map_encoded_view:
  assumes "writer_ok (lb_arrow W)" "encode_batch W b packing key opts = Inr p" "distinct (map f_name (physical_schema cols))"
    "rb_schema b = physical_schema cols" "\<forall>r \<in> set (rb_rows b). row_fits (physical_schema cols) r"
  shows "file_view (lb_arrow W) (lb_df W) cols (ep_bytes p) = Some (rb_rows b)"
  using encode_batch_Inr [OF assms(1,2)] file_view_written [OF assms(3)] assms(4,5) by metis

section \<open>Grouping keeps the rows\<close>

definition group_mset :: "(string \<times> json \<times> 'a list) list \<Rightarrow> 'a multiset" where
  "group_mset gs = sum_list (map (\<lambda>(_, _, rows). mset rows) gs)"

lemma group_push_mset: "group_mset (group_push k v r gs) = add_mset r (group_mset gs)"
  by (induction k v r gs rule: group_push.induct) (auto simp: group_mset_def)

lemma group_rows_mset:
  "group_rows W s partitions rs gs = Inr gs' \<Longrightarrow> group_mset gs' = group_mset gs + mset rs"
  by (induction rs arbitrary: gs) (auto simp: rbind_eq_Inr_iff group_push_mset)

lemma sort_batch_fits:
  assumes "lexsort_ok W" "sort_batch W b key = Inr b'" "\<forall>r \<in> set (rb_rows b). row_fits s r"
  shows "\<forall>r \<in> set (rb_rows b'). row_fits s r"
  using sort_batch_Inr [OF assms(1,2)] assms(3) by (metis set_mset_mset)

lemma encode_groups_rows:
  assumes "writer_ok (lb_arrow W)" "lexsort_ok W" "distinct (map f_name (physical_schema cols))"
    "encode_groups W target cols gs = Inr items" "\<forall>r \<in># group_mset gs. row_fits (physical_schema cols) r"
  shows "sum_list (map (view_rows (file_view (lb_arrow W) (lb_df W) cols) \<circ> (ep_bytes \<circ> fi_part)) items) = group_mset gs \<and>
    map fi_partition_values items = map (fst \<circ> snd) gs"
  using assms(4,5)
proof (induction gs arbitrary: items)
  case (Cons g gs)
  let ?s = "physical_schema cols"
  obtain k v rs where g: "g = (k, v, rs)" by (rule prod_cases3)
  from Cons.prems obtain b p items' where b: "sort_batch W \<lparr>rb_schema = ?s, rb_rows = rs\<rparr> (sort_key_cols target) = Inr b"
    and p: "encode_batch W b (packing_key target) (sort_key_cols target) (write_opts_from_columns cols (sort_key_cols target) 0) = Inr p"
    and r: "encode_groups W target cols gs = Inr items'" and items: "items = \<lparr>fi_partition_values = v, fi_part = p\<rparr> # items'"
    by (auto simp: g rbind_eq_Inr_iff map_sum_eq_Inr)
  have fits: "\<forall>r \<in> set rs. row_fits ?s r" "\<forall>r \<in># group_mset gs. row_fits ?s r" using Cons.prems(2) by (auto simp: g group_mset_def)
  have "\<forall>r \<in> set (rb_rows b). row_fits ?s r" using sort_batch_fits [OF assms(2) b] fits(1) by simp
  from map_encoded_view [OF assms(1) p assms(3) _ this] sort_batch_Inr [OF assms(2) b]
  have "view_rows (file_view (lb_arrow W) (lb_df W) cols) (ep_bytes p) = mset rs" by (simp add: view_rows_def)
  with Cons.IH [OF r fits(2)] show ?case by (simp add: items g group_mset_def)
qed (simp add: group_mset_def)

lemma adapt_batches_fit:
  assumes "adapt_batches W target cols max_bytes used materialized bs = Inr adapted"
  shows "\<forall>a \<in> set adapted. rb_schema a = physical_schema cols"
  using assms
proof (induction bs arbitrary: used materialized adapted)
  case (Cons b bs)
  have "rb_schema a = s" if "check_filled target s filled = Inr a" for a s filled
    using that by (auto simp: check_filled_def rbind_eq_Inr_iff split: option.splits if_splits dest: try_batch_Some)
  with Cons show ?case by (auto simp: rbind_eq_Inr_iff Let_def split: if_splits)
qed simp

end
