(* ===== verification/PipelineExec.thy ===== *)
theory PipelineExec
  imports L0Write
begin

text \<open>
  SQL over one logical input, \<^verbatim>\<open>crates/ukiel-pipeline/src/lib.rs\<close>. DataFusion is a record of functions:
  building a session over an input, planning, the physical plan, the schema of a plan, and the
  stream of an execution, which depends on the attempt because expressions such as \<open>now()\<close> are
  evaluated afresh. A logical plan is the tree that \<open>apply_with_subqueries\<close> visits. An error is
  represented by its root, which is all that \<open>find_root\<close> looks at.
\<close>

section \<open>Definitions\<close>

datatype datafusion_error = DfExecution | DfArrow | DfOther

datatype pipeline_error =
    PDataFusion datafusion_error
  | InvalidQuery
  | InputSchemaMismatch
  | PBudgetExceeded string nat
  | InvalidLimits

fun is_runtime_data_error :: "pipeline_error \<Rightarrow> bool" where
  "is_runtime_data_error (PDataFusion DfExecution) = True"
| "is_runtime_data_error (PDataFusion DfArrow) = True"
| "is_runtime_data_error _ = False"

record execution_limits =
  el_input_bytes :: nat
  el_output_bytes :: nat
  el_output_rows :: nat
  el_operator_memory_bytes :: nat

definition default_limits :: execution_limits where
  "default_limits = \<lparr>el_input_bytes = 64 * 1024 * 1024, el_output_bytes = 64 * 1024 * 1024, el_output_rows = 1000000,
     el_operator_memory_bytes = 128 * 1024 * 1024\<rparr>"

datatype plan_node =
    TableScan string
  | JoinNode
  | DdlNode
  | DmlNode
  | StatementNode
  | CopyNode
  | DescribeTableNode
  | ExplainNode
  | AnalyzeNode
  | ExtensionNode
  | RecursiveQueryNode
  | OtherNode

text \<open>A node with the plans under it: those inside its expressions and its inputs.\<close>

datatype logical_plan = LogicalPlan plan_node "logical_plan list"

record ('w, 'f) pipeline_libs = "('w, 'f) write_libs" +
  pl_session :: "string \<Rightarrow> schema \<Rightarrow> rbatch list \<Rightarrow> execution_limits \<Rightarrow> (datafusion_error, unit) result"
  pl_logical :: "string \<Rightarrow> schema \<Rightarrow> string \<Rightarrow> (datafusion_error, logical_plan) result"
  pl_physical :: "logical_plan \<Rightarrow> (datafusion_error, unit) result"
  pl_output_schema :: "logical_plan \<Rightarrow> schema"
  pl_stream :: "nat \<Rightarrow> logical_plan \<Rightarrow> execution_limits \<Rightarrow> rbatch list
    \<Rightarrow> (datafusion_error, (datafusion_error, rbatch) result list) result"

record prepared_pipeline =
  pp_source_name :: string
  pp_sql :: string
  pp_input_schema :: schema
  pp_output_schema :: schema
  pp_limits :: execution_limits

definition check_budget :: "string \<Rightarrow> nat \<Rightarrow> nat \<Rightarrow> (pipeline_error, unit) result" where
  "check_budget resource v limit = (if v > limit then Inl (PBudgetExceeded resource limit) else Inr ())"

definition context_of ::
  "('w, 'f) pipeline_libs \<Rightarrow> string \<Rightarrow> schema \<Rightarrow> rbatch list \<Rightarrow> execution_limits \<Rightarrow> (pipeline_error, unit) result" where
  "context_of I source_name s input limits =
     (if 0 \<in> {el_input_bytes limits, el_output_bytes limits, el_output_rows limits, el_operator_memory_bytes limits}
      then Inl InvalidLimits
      else map_sum PDataFusion id (pl_session I source_name s input limits))"

fun plan_nodes :: "logical_plan \<Rightarrow> plan_node list" where
  "plan_nodes (LogicalPlan n children) = n # concat (map plan_nodes children)"

fun is_scan :: "plan_node \<Rightarrow> bool" where
  "is_scan (TableScan _) = True"
| "is_scan _ = False"

fun node_invalid :: "string \<Rightarrow> plan_node \<Rightarrow> bool" where
  "node_invalid source_name (TableScan t) = (t \<noteq> source_name)"
| "node_invalid source_name OtherNode = False"
| "node_invalid source_name _ = True"

definition validate_plan :: "logical_plan \<Rightarrow> string \<Rightarrow> (pipeline_error, unit) result" where
  "validate_plan plan source_name =
     (let nodes = plan_nodes plan; scans = length (filter is_scan nodes); invalid = list_ex (node_invalid source_name) nodes
      in if invalid \<or> scans \<noteq> 1 then Inl InvalidQuery else Inr ())"

definition prepare_pipeline ::
  "('w, 'f) pipeline_libs \<Rightarrow> string \<Rightarrow> string \<Rightarrow> schema \<Rightarrow> execution_limits \<Rightarrow> (pipeline_error, prepared_pipeline) result" where
  "prepare_pipeline I source_name sql in_schema limits =
     rbind (context_of I source_name in_schema [] limits) (\<lambda>_.
     rbind (map_sum PDataFusion id (pl_logical I source_name in_schema sql)) (\<lambda>plan.
     rbind (validate_plan plan source_name) (\<lambda>_.
     rbind (map_sum PDataFusion id (pl_physical I plan)) (\<lambda>_.
       Inr \<lparr>pp_source_name = source_name, pp_sql = sql, pp_input_schema = in_schema,
            pp_output_schema = pl_output_schema I plan, pp_limits = limits\<rparr>))))"

fun check_input ::
  "('w, 'f) pipeline_libs \<Rightarrow> prepared_pipeline \<Rightarrow> nat \<Rightarrow> rbatch list \<Rightarrow> (pipeline_error, unit) result" where
  "check_input I pp bytes [] = Inr ()"
| "check_input I pp bytes (b # bs) =
     (if rb_schema b \<noteq> pp_input_schema pp then Inl InputSchemaMismatch
      else let bytes' = saturating_usize (bytes + wl_memory I b) in
        rbind (check_budget ''input bytes'' bytes' (el_input_bytes (pp_limits pp))) (\<lambda>_. check_input I pp bytes' bs))"

fun drain_stream ::
  "('w, 'f) pipeline_libs \<Rightarrow> execution_limits \<Rightarrow> nat \<Rightarrow> nat \<Rightarrow> (datafusion_error, rbatch) result list
   \<Rightarrow> (pipeline_error, rbatch list) result" where
  "drain_stream I limits bytes rows [] = Inr []"
| "drain_stream I limits bytes rows (Inl e # items) = Inl (PDataFusion e)"
| "drain_stream I limits bytes rows (Inr b # items) =
     (let bytes' = saturating_usize (bytes + wl_memory I b); rows' = saturating_usize (rows + num_rows b) in
      rbind (check_budget ''output bytes'' bytes' (el_output_bytes limits)) (\<lambda>_.
      rbind (check_budget ''output rows'' rows' (el_output_rows limits)) (\<lambda>_.
      rbind (drain_stream I limits bytes' rows' items) (\<lambda>rest. Inr (b # rest)))))"

definition execute_pipeline ::
  "('w, 'f) pipeline_libs \<Rightarrow> nat \<Rightarrow> prepared_pipeline \<Rightarrow> rbatch list \<Rightarrow> (pipeline_error, rbatch list) result" where
  "execute_pipeline I attempt pp input =
     rbind (check_input I pp 0 input) (\<lambda>_.
     rbind (context_of I (pp_source_name pp) (pp_input_schema pp) input (pp_limits pp)) (\<lambda>_.
     rbind (map_sum PDataFusion id (pl_logical I (pp_source_name pp) (pp_input_schema pp) (pp_sql pp))) (\<lambda>plan.
     rbind (validate_plan plan (pp_source_name pp)) (\<lambda>_.
     rbind (map_sum PDataFusion id (pl_stream I attempt plan (pp_limits pp) input)) (\<lambda>stream.
       drain_stream I (pp_limits pp) 0 0 stream)))))"

section \<open>Lemmas\<close>

lemma validate_plan_Inr:
  "validate_plan plan source_name = Inr () \<longleftrightarrow>
     filter is_scan (plan_nodes plan) = [TableScan source_name] \<and> set (plan_nodes plan) \<subseteq> {TableScan source_name, OtherNode}"
proof -
  let ?ns = "plan_nodes plan"
  have inv: "\<not> node_invalid source_name n \<longleftrightarrow> n \<in> {TableScan source_name, OtherNode}" for n by (cases n) auto
  have "\<not> list_ex (node_invalid source_name) ?ns \<longleftrightarrow> set ?ns \<subseteq> {TableScan source_name, OtherNode}"
    using inv by (auto simp: list_ex_iff)
  moreover have "length (filter is_scan ?ns) = 1 \<longleftrightarrow> filter is_scan ?ns = [TableScan source_name]"
    if "set ?ns \<subseteq> {TableScan source_name, OtherNode}"
  proof
    assume "length (filter is_scan ?ns) = 1"
    then obtain n where n: "filter is_scan ?ns = [n]" by (auto simp: length_Suc_conv)
    then have "n \<in> set (filter is_scan ?ns)" by simp
    with that have "n = TableScan source_name" by auto
    with n show "filter is_scan ?ns = [TableScan source_name]" by simp
  qed simp
  ultimately show ?thesis by (auto simp: validate_plan_def Let_def)
qed

lemma drain_stream_Inr:
  assumes "drain_stream I limits bytes rows items = Inr out"
  shows "items = map Inr out"
  using assms
proof (induction items arbitrary: bytes rows out)
  case (Cons x items)
  then show ?case by (cases x) (auto simp: rbind_eq_Inr_iff Let_def)
qed simp
lemma saturating_usize_add [simp]: "saturating_usize (saturating_usize a + b) = saturating_usize (a + b)"
  by (auto simp: saturating_usize_def min_def)

lemma check_input_Inr:
  assumes "check_input I pp bytes bs = Inr ()" "saturating_usize bytes \<le> el_input_bytes (pp_limits pp)"
  shows "(\<forall>b \<in> set bs. rb_schema b = pp_input_schema pp) \<and>
    saturating_usize (bytes + sum_list (map (wl_memory I) bs)) \<le> el_input_bytes (pp_limits pp)"
  using assms
proof (induction bs arbitrary: bytes)
  case (Cons b bs)
  from Cons.prems(1) have b: "rb_schema b = pp_input_schema pp" "saturating_usize (bytes + wl_memory I b) \<le> el_input_bytes (pp_limits pp)"
    and r: "check_input I pp (saturating_usize (bytes + wl_memory I b)) bs = Inr ()"
    by (auto simp: Let_def rbind_eq_Inr_iff check_budget_def split: if_splits)
  from Cons.IH [OF r] b show ?case using saturating_usize_add [of "bytes + wl_memory I b" 0] by (simp add: add.assoc)
qed simp

lemma drain_stream_bounds:
  assumes "drain_stream I limits bytes rows items = Inr out"
    "saturating_usize bytes \<le> el_output_bytes limits" "saturating_usize rows \<le> el_output_rows limits"
  shows "saturating_usize (bytes + sum_list (map (wl_memory I) out)) \<le> el_output_bytes limits \<and>
    saturating_usize (rows + sum_list (map num_rows out)) \<le> el_output_rows limits"
  using assms
proof (induction items arbitrary: bytes rows out)
  case (Cons x items)
  from Cons.prems(1) obtain b rest where x: "x = Inr b" and out: "out = b # rest"
    and r: "drain_stream I limits (saturating_usize (bytes + wl_memory I b)) (saturating_usize (rows + num_rows b)) items = Inr rest"
    and k: "saturating_usize (bytes + wl_memory I b) \<le> el_output_bytes limits" "saturating_usize (rows + num_rows b) \<le> el_output_rows limits"
    by (cases x) (auto simp: Let_def rbind_eq_Inr_iff check_budget_def split: if_splits)
  have "saturating_usize (saturating_usize n) = saturating_usize n" for n using saturating_usize_add [of n 0] by simp
  with Cons.IH [OF r] k show ?case by (simp add: out add.assoc)
qed simp

section \<open>Properties\<close>

text \<open>C38: an execution that succeeds stayed within its limits and gives the whole answer. Every input
  batch had the prepared schema; the memory of the input, and the memory and the rows of the output,
  as \<open>usize\<close> sums that saturate, are within the limits, which are all positive; the plan is one that
  scans the declared source once and has no node but such a scan and plain ones; and the output is
  the complete stream of that plan over the whole input.\<close>

theorem execution_within_budget:
  assumes "execute_pipeline I attempt pp input = Inr out"
  shows "(\<forall>b \<in> set input. rb_schema b = pp_input_schema pp) \<and>
    saturating_usize (sum_list (map (wl_memory I) input)) \<le> el_input_bytes (pp_limits pp) \<and>
    saturating_usize (sum_list (map (wl_memory I) out)) \<le> el_output_bytes (pp_limits pp) \<and>
    saturating_usize (sum_list (map num_rows out)) \<le> el_output_rows (pp_limits pp) \<and>
    0 < el_operator_memory_bytes (pp_limits pp) \<and>
    (\<exists>plan. pl_logical I (pp_source_name pp) (pp_input_schema pp) (pp_sql pp) = Inr plan \<and>
      filter is_scan (plan_nodes plan) = [TableScan (pp_source_name pp)] \<and>
      set (plan_nodes plan) \<subseteq> {TableScan (pp_source_name pp), OtherNode} \<and>
      pl_stream I attempt plan (pp_limits pp) input = Inr (map Inr out))"
proof -
  from assms obtain plan stream where i: "check_input I pp 0 input = Inr ()"
    and c: "context_of I (pp_source_name pp) (pp_input_schema pp) input (pp_limits pp) = Inr ()"
    and p: "pl_logical I (pp_source_name pp) (pp_input_schema pp) (pp_sql pp) = Inr plan" "validate_plan plan (pp_source_name pp) = Inr ()"
    and s: "pl_stream I attempt plan (pp_limits pp) input = Inr stream" "drain_stream I (pp_limits pp) 0 0 stream = Inr out"
    by (auto simp: execute_pipeline_def rbind_eq_Inr_iff map_sum_eq_Inr)
  have z: "saturating_usize 0 = 0" by (simp add: saturating_usize_def)
  have "0 < el_operator_memory_bytes (pp_limits pp)" using c by (auto simp: context_of_def split: if_splits)
  with check_input_Inr [OF i] drain_stream_bounds [OF s(2)] drain_stream_Inr [OF s(2)] p(1) s(1) validate_plan_Inr [THEN iffD1, OF p(2)]
  show ?thesis by (simp add: z)
qed

end
