(* ===== verification/Publish.thy ===== *)
theory Publish
  imports L0Write
begin

text \<open>
  Publishing beside others. The other clients are given by what they keep: a predicate \<open>J\<close> on
  the catalog and the store, the paths the worker draws, and the objects under them until a part
  refers to them. Under that rely a publication either leaves \<open>J\<close> as it is or reaches its commit
  in a state that satisfies \<open>J\<close>, with every item stored under the path its part names.
\<close>

section \<open>The rely\<close>

definition part_paths :: "catalog \<Rightarrow> string set" where
  "part_paths c = path ` pr_meta ` set (parts c)"

abbreviation offsets_run :: "catalog \<Rightarrow> catalog \<Rightarrow> bool" where
  "offsets_run \<equiv> (catalog_step (list_all consumable))\<^sup>*\<^sup>*"

definition rely :: "'f wenv \<Rightarrow> (nat \<Rightarrow> string set) \<Rightarrow> ('f outside \<Rightarrow> bool) \<Rightarrow> bool" where
  "rely we P J \<longleftrightarrow> (\<forall>m n. m \<noteq> n \<longrightarrow> P m \<inter> P n = {}) \<and>
     (\<forall>n x. (J x \<longrightarrow> J (fst (we_others we n x))) \<and> offsets_run (fst x) (fst (fst (we_others we n x))) \<and>
        part_paths (fst (fst (we_others we n x))) \<inter> \<Union>(range P) \<subseteq> part_paths (fst x) \<and>
        (\<forall>p f. p \<in> \<Union>(range P) - part_paths (fst x) \<and> snd x p = Some f \<longrightarrow> snd (fst (we_others we n x)) p = Some f))"

text \<open>A predicate that neither an object no part refers to nor a registered intent disturbs.\<close>

definition framed :: "('f outside \<Rightarrow> bool) \<Rightarrow> bool" where
  "framed J \<longleftrightarrow> (\<forall>c fs p f. J (c, fs) \<and> p \<notin> part_paths c \<longrightarrow> J (c, fs(p := Some f))) \<and>
     (\<forall>c fs env ht paths. J (c, fs) \<longrightarrow> J (fst (register_pending_objects env ht paths c), fs))"

text \<open>The state of a publication that began at call \<open>t\<close> and has stored \<open>ups\<close>.\<close>

definition pub_inv :: "(nat \<Rightarrow> string set) \<Rightarrow> ('f outside \<Rightarrow> bool) \<Rightarrow> nat \<Rightarrow> nat \<Rightarrow> catalog \<Rightarrow> (string \<times> 'f) list \<Rightarrow> 'f world \<Rightarrow> bool" where
  "pub_inv P J t j c0 ups w \<longleftrightarrow> J (w_catalog w, w_files w) \<and> offsets_run c0 (w_catalog w) \<and> t + j \<le> w_tick w \<and>
     (\<forall>p \<in> part_paths (w_catalog w). \<forall>m. p \<in> P m \<longrightarrow> m < t) \<and> distinct (map fst ups) \<and>
     (\<forall>x \<in> set ups. w_files w (fst x) = Some (snd x) \<and> (\<exists>m. t \<le> m \<and> m < t + j \<and> fst x \<in> P m))"

lemma relyD:
  assumes "rely we P J"
  shows "m \<noteq> n \<Longrightarrow> P m \<inter> P n = {}" "J x \<Longrightarrow> J (fst (we_others we n x))"
    "offsets_run (fst x) (fst (fst (we_others we n x)))"
    "part_paths (fst (fst (we_others we n x))) \<inter> \<Union>(range P) \<subseteq> part_paths (fst x)"
    "p \<in> P m \<Longrightarrow> p \<notin> part_paths (fst x) \<Longrightarrow> snd x p = Some f \<Longrightarrow> snd (fst (we_others we n x)) p = Some f"
proof -
  note c = assms [unfolded rely_def]
  note o = c [THEN conjunct2, THEN spec, THEN spec, of x n]
  show "m \<noteq> n \<Longrightarrow> P m \<inter> P n = {}" by (rule c [THEN conjunct1, rule_format])
  show "J x \<Longrightarrow> J (fst (we_others we n x))" by (rule o [THEN conjunct1, rule_format])
  show "offsets_run (fst x) (fst (fst (we_others we n x)))" by (rule o [THEN conjunct2, THEN conjunct1])
  show "part_paths (fst (fst (we_others we n x))) \<inter> \<Union>(range P) \<subseteq> part_paths (fst x)"
    by (rule o [THEN conjunct2, THEN conjunct2, THEN conjunct1])
  show "p \<in> P m \<Longrightarrow> p \<notin> part_paths (fst x) \<Longrightarrow> snd x p = Some f \<Longrightarrow> snd (fst (we_others we n x)) p = Some f"
    by (rule o [THEN conjunct2, THEN conjunct2, THEN conjunct2, rule_format]) blast
qed

lemma others_world:
  "w_catalog (others_ran we w) = fst (fst (we_others we (w_tick w) (w_catalog w, w_files w)))"
  "w_files (others_ran we w) = snd (fst (we_others we (w_tick w) (w_catalog w, w_files w)))"
  by (simp_all add: others_ran_def split: prod.split)

lemma pub_others:
  assumes "rely we P J" "pub_inv P J t j c0 ups w"
  shows "pub_inv P J t j c0 ups (others_ran we w)"
proof -
  let ?x = "(w_catalog w, w_files w)" and ?w = "others_ran we w"
  have i: "J ?x" "offsets_run c0 (w_catalog w)" "t + j \<le> w_tick w" "\<forall>p \<in> part_paths (w_catalog w). \<forall>m. p \<in> P m \<longrightarrow> m < t"
    "distinct (map fst ups)" "\<forall>x \<in> set ups. w_files w (fst x) = Some (snd x) \<and> (\<exists>m. t \<le> m \<and> m < t + j \<and> fst x \<in> P m)"
    using assms(2) by (simp_all add: pub_inv_def)
  have "J (w_catalog ?w, w_files ?w)" using relyD(2) [OF assms(1) i(1), of "w_tick w"] by (simp add: others_world)
  moreover have "offsets_run c0 (w_catalog ?w)"
    using rtranclp_trans [OF i(2) relyD(3) [OF assms(1), of ?x "w_tick w", unfolded fst_conv]] by (simp add: others_world)
  moreover have "m < t" if "p \<in> part_paths (w_catalog ?w)" "p \<in> P m" for p m
  proof -
    have "p \<in> part_paths (w_catalog ?w) \<inter> \<Union>(range P)" using that by blast
    then have "p \<in> part_paths (w_catalog w)" using relyD(4) [OF assms(1), of "w_tick w" ?x] by (auto simp only: others_world fst_conv)
    with i(4) that(2) show ?thesis by simp
  qed
  moreover have "w_files ?w (fst x) = Some (snd x)" if "x \<in> set ups" for x
  proof -
    note b = bspec [OF i(6) that]
    then obtain m where m: "t \<le> m" "fst x \<in> P m" by auto
    have "fst x \<notin> part_paths (w_catalog w)" using i(4) m by (meson not_le)
    with relyD(5) [OF assms(1), of "fst x" m ?x "snd x" "w_tick w"] m(2) b show ?thesis by (simp add: others_world)
  qed
  ultimately show ?thesis using i(3,5,6) by (simp add: pub_inv_def)
qed

lemma pub_put:
  assumes "rely we P J" "framed J" "pub_inv P J t j c0 ups w" "p \<in> P (t + j)" "Suc (t + j) \<le> w_tick w"
  shows "pub_inv P J t (Suc j) c0 (ups @ [(p, f)]) (w\<lparr>w_files := (w_files w)(p := Some f), w_uploads := u\<rparr>)"
proof -
  have i: "J (w_catalog w, w_files w)" "\<forall>p \<in> part_paths (w_catalog w). \<forall>m. p \<in> P m \<longrightarrow> m < t"
    "\<forall>x \<in> set ups. w_files w (fst x) = Some (snd x) \<and> (\<exists>m. t \<le> m \<and> m < t + j \<and> fst x \<in> P m)"
    using assms(3) by (simp_all add: pub_inv_def)
  have fresh: "p \<notin> part_paths (w_catalog w)" using i(2) assms(4) by fastforce
  with i(1) assms(2) have J: "J (w_catalog w, (w_files w)(p := Some f))" by (simp add: framed_def)
  have ne: "fst x \<noteq> p" if x: "x \<in> set ups" for x
  proof
    assume "fst x = p"
    with i(3) x obtain m where m: "m < t + j" "p \<in> P m" by blast
    then have "P m \<inter> P (t + j) = {}" by (intro relyD(1) [OF assms(1)]) simp
    with m(2) assms(4) show False by blast
  qed
  have "\<exists>m. t \<le> m \<and> m < t + Suc j \<and> fst x \<in> P m" if "x \<in> set ups" for x
    using bspec [OF i(3) that] by (metis add_Suc_right less_Suc_eq)
  moreover have "\<exists>m. t \<le> m \<and> m < t + Suc j \<and> p \<in> P m" using assms(4) by (intro exI [of _ "t + j"]) simp
  ultimately show ?thesis using assms(3,5) J ne by (auto simp: pub_inv_def)
qed

section \<open>A publication\<close>

text \<open>\<open>map_err\<close> on an asynchronous result\<close>

definition act_map_err :: "('e \<Rightarrow> 'd) \<Rightarrow> ('f, 'e, 'a) act \<Rightarrow> ('f, 'd, 'a) act" where
  "act_map_err g m = (\<lambda>w. case m w of
       (w', Inl (Dropped d)) \<Rightarrow> (w', Inl (Dropped d))
     | (w', Inl (Raised e)) \<Rightarrow> (w', Inl (Raised (g e)))
     | (w', Inr x) \<Rightarrow> (w', Inr x))"

lemma register_effect:
  "\<exists>rows. fst (register_pending_objects env ht paths c) = c\<lparr>pending_objects := rows\<rparr>"
proof -
  have "\<exists>rows. c = c\<lparr>pending_objects := rows\<rparr>" by (rule exI [of _ "pending_objects c"]) simp
  then show ?thesis
    by (auto simp: register_pending_objects_def exec_auto_def tx_return_def Let_def split: option.splits prod.splits if_splits)
qed

text \<open>How a call of a worker can end: the worker is gone before it, or it runs.\<close>

lemma act_call_runs:
  "act_call we err m w = (w', r) \<Longrightarrow>
     (w' = others_ran we w \<and> (\<exists>d. r = Inl d)) \<or>
     (\<exists>c x. m (we_db we (w_tick w)) (w_catalog (others_ran we w)) = (c, x) \<and> w' = (others_ran we w)\<lparr>w_catalog := c\<rparr> \<and>
        ((\<exists>d. r = Inl d) \<or> r = map_sum (Raised \<circ> err) id x))"
  by (auto simp: act_call_def act_step_def Let_def map_sum_def split: option.splits prod.splits sum.splits)

lemma act_put_runs:
  "act_put we err p f w = (w', r) \<Longrightarrow>
     (w' = others_ran we w \<and> (\<exists>d. r = Inl d)) \<or>
     w' = (others_ran we w)\<lparr>w_files := (w_files (others_ran we w))(p := Some f), w_uploads := w_uploads w @ [(p, f)]\<rparr>"
  by (auto simp: act_put_def act_step_def Let_def split: option.splits prod.splits if_splits)

lemma upload_items_inv:
  assumes "rely we P J" "framed J"
    and "upload_items we L xs w = (w', r)" "pub_inv P J t j c0 ups w" "Suc (t + j) \<le> w_tick w"
    and "\<forall>i < length xs. fst (xs ! i) \<in> P (t + j + i)"
  shows "(\<exists>e j' ups'. r = Inl e \<and> pub_inv P J t j' c0 ups' w') \<or>
    (r = Inr (map (part_of_item L) xs) \<and> pub_inv P J t (j + length xs) c0 (ups @ map (\<lambda>x. (fst x, ep_bytes (fi_part (snd x)))) xs) w')"
  using assms(3-6)
proof (induction xs arbitrary: w j ups r)
  case (Cons x xs)
  let ?f = "ep_bytes (fi_part (snd x))" and ?w1 = "others_ran we w"
  obtain w1 q where p: "act_put we WObjectStore (fst x) ?f w = (w1, q)" by (rule prod.exhaust)
  have o: "pub_inv P J t j c0 ups ?w1" by (rule pub_others [OF assms(1) Cons.prems(2)])
  have "fst x \<in> P (t + j)" using Cons.prems(4) [rule_format, of 0] by simp
  from pub_put [OF assms(1,2) o this, of ?f "w_uploads w @ [(fst x, ?f)]"] Cons.prems(3)
  have stored: "pub_inv P J t (Suc j) c0 (ups @ [(fst x, ?f)])
      (?w1\<lparr>w_files := (w_files ?w1)(fst x := Some ?f), w_uploads := w_uploads w @ [(fst x, ?f)]\<rparr>)" by simp
  have w1: "(w1 = ?w1 \<and> (\<exists>d. q = Inl d)) \<or> pub_inv P J t (Suc j) c0 (ups @ [(fst x, ?f)]) w1"
    using act_put_runs [OF p] stored by blast
  show ?case
  proof (cases q)
    case (Inl e)
    with p Cons.prems(1) have "w' = w1" "r = Inl e" by (simp_all add: act_bind_def)
    with w1 o show ?thesis by blast
  next
    case (Inr u)
    with w1 have i1: "pub_inv P J t (Suc j) c0 (ups @ [(fst x, ?f)]) w1" by blast
    have t1: "w_tick w1 = Suc (w_tick w)" using p Inr by (simp add: act_put_Inr)
    obtain r2 where u: "upload_items we L xs w1 = (w', r2)" and r: "r = map_sum id (\<lambda>ps. part_of_item L x # ps) r2"
      using Cons.prems(1) p Inr by (auto simp: act_bind_def split: prod.splits sum.splits) (simp add: act_return_def)+
    have "\<forall>i < length xs. fst (xs ! i) \<in> P (t + Suc j + i)"
    proof (intro allI impI)
      fix i assume "i < length xs"
      with Cons.prems(4) [rule_format, of "Suc i"] show "fst (xs ! i) \<in> P (t + Suc j + i)" by simp
    qed
    from Cons.IH [OF u i1 _ this] t1 Cons.prems(3) r show ?thesis by auto
  qed
qed (auto simp: act_return_def)

definition fresh_paths :: "(nat \<Rightarrow> string set) \<Rightarrow> 'f world \<Rightarrow> bool" where
  "fresh_paths P w \<longleftrightarrow> (\<forall>p \<in> part_paths (w_catalog w). \<forall>m. p \<in> P m \<longrightarrow> m < w_tick w)"

lemma pub_start:
  "J (w_catalog w, w_files w) \<Longrightarrow> fresh_paths P w \<Longrightarrow> pub_inv P J (w_tick w) 0 (w_catalog w) [] w"
  by (simp add: pub_inv_def fresh_paths_def)

lemma pub_fresh: "pub_inv P J t j c0 ups w \<Longrightarrow> fresh_paths P w"
  unfolding pub_inv_def fresh_paths_def by (meson add_leE order.strict_trans2)

fun add_offsets :: "add_commit \<Rightarrow> offset_range list" where
  "add_offsets (IngestAdd offsets identity) = offsets"
| "add_offsets (PlainAdd identity) = []"

lemma commit_add_txn: "commit_add de ht ps cm env = commit_txn env de ht (Add ps) (Some (add_identity cm)) (add_offsets cm) None"
  by (cases cm) (simp_all add: commit_add_def commit_with_offsets_def commit_def commit_inner_def)

lemma part_paths_applied:
  "part_paths (applied env de ht op identity rows s) = part_paths s \<union> path ` set (op_outputs op)"
proof -
  have "map pr_meta (tombstone_rows ht cid ids ps) = map pr_meta ps" for cid ids ps by (simp add: tombstone_rows_def)
  then have "pr_meta ` set (tombstone_rows ht cid ids ps) = pr_meta ` set ps" for cid ids ps by (metis list.set_map)
  moreover have "pr_meta ` set (new_rows de ht cid n ms) = set ms" for cid n ms
    by (induction ms arbitrary: n) (simp_all add: new_rows_Cons part_row_of_def)
  ultimately show ?thesis by (simp add: part_paths_def applied_def Let_def image_Un del: image_image)
qed

lemma commit_add_paths:
  assumes "commit_add de ht ps cm env c = (c', x)"
  shows "part_paths c' \<subseteq> part_paths c \<union> path ` set ps"
  using assms unfolding commit_add_txn
proof (cases rule: commit_txn_cases)
  case untouched
  then show ?thesis by (simp add: same_tables_def part_paths_def)
next
  case effect
  then obtain rows f where "c' = (applied env de ht (Add ps) (Some (add_identity cm)) rows c)\<lparr>armed_fault := f\<rparr>"
    by (auto simp: took_effect_def)
  then have "part_paths c' = part_paths (applied env de ht (Add ps) (Some (add_identity cm)) rows c)" by (simp add: part_paths_def)
  then show ?thesis by (simp add: part_paths_applied)
qed

lemma commit_add_run:
  "commit_add de ht ps cm env c = (c', x) \<Longrightarrow> list_all consumable (add_offsets cm) \<Longrightarrow> offsets_run c c'"
  using catalog_step.commit [of "list_all consumable" "add_offsets cm" c env de ht "Add ps" "Some (add_identity cm)" None]
  by (simp add: commit_add_txn r_into_rtranclp)

lemma stored_rows:
  assumes "pub_inv P J t j c0 (map (\<lambda>x. (fst x, ep_bytes (fi_part (snd x)))) xs) w"
  shows "sum_list (map (object_rows V (w_files w)) (map (part_of_item L) xs))
    = sum_list (map (view_rows V \<circ> (ep_bytes \<circ> fi_part) \<circ> snd) xs)"
proof -
  have "object_rows V (w_files w) (part_of_item L x) = view_rows V (ep_bytes (fi_part (snd x)))" if "x \<in> set xs" for x
    using assms that by (auto simp: pub_inv_def object_rows_def part_of_item_def split: prod.split)
  then show ?thesis by (simp add: comp_def cong: map_cong)
qed

text \<open>Either no commit ran, or it ran in a state the rely keeps, with the items in the store.\<close>

definition committed_from ::
  "(nat \<Rightarrow> string set) \<Rightarrow> ('f outside \<Rightarrow> bool) \<Rightarrow> ('w, 'f) write_libs \<Rightarrow> hypertable_id \<Rightarrow> 'f flush_item list \<Rightarrow> add_commit
   \<Rightarrow> 'f world \<Rightarrow> 'f world \<Rightarrow> (write_error stop, commit_result) result \<Rightarrow> bool" where
  "committed_from P J W ht items cm w w' r \<longleftrightarrow> (\<exists>c env ps x. J (c, w_files w') \<and> offsets_run (w_catalog w) c \<and>
     commit_add (lb_de W) ht ps cm env c = (w_catalog w', x) \<and> ((\<exists>d. r = Inl d) \<or> r = map_sum (Raised \<circ> WCatalog) id x) \<and>
     (\<forall>V. sum_list (map (object_rows V (w_files w')) ps) = sum_list (map (view_rows V \<circ> (ep_bytes \<circ> fi_part)) items)))"

lemma publish_add_outcome:
  assumes rely: "rely we P J" and fr: "framed J" and paths: "\<forall>n. output_path we (ht_id target) 0 n \<in> P n"
    and w: "J (w_catalog w, w_files w)" "fresh_paths P w" and pub: "publish_add we W target items cm w = (w', r)"
  shows "fresh_paths P w' \<and> ((\<exists>e. r = Inl e) \<and> J (w_catalog w', w_files w') \<and> offsets_run (w_catalog w) (w_catalog w') \<or>
    committed_from P J W (ht_id target) items cm w w' r)"
proof -
  let ?xs = "prepared we (ht_id target) (w_tick w) items" and ?c0 = "w_catalog w"
  let ?reg = "act_call we WCatalog (\<lambda>env. register_pending_objects env (ht_id target) (map fst ?xs))"
  note start = pub_start [of J w P, OF w]
  have inv_ok: ?thesis if "pub_inv P J (w_tick w) j ?c0 ups w'" "r = Inl e" for j ups e
    using that pub_fresh [OF that(1)] by (auto simp: pub_inv_def)
  show ?thesis
  proof (cases "oi_hypertable (add_identity cm) \<noteq> ht_id target")
    case True
    with pub have "w' = w" "r = Inl (Raised (WCatalog (OperationHypertableMismatch (oi_hypertable (add_identity cm)) (ht_id target))))"
      by (simp_all add: publish_add_def)
    with start inv_ok show ?thesis by simp
  next
    case False
    obtain w1 q where reg: "?reg w = (w1, q)" by (rule prod.exhaust)
    have i1: "pub_inv P J (w_tick w) 0 ?c0 [] w1 \<and> w_tick w1 = Suc (w_tick w)"
    proof -
      note o = pub_others [OF rely start]
      have reg_ok: "pub_inv P J (w_tick w) 0 ?c0 [] ((others_ran we w)\<lparr>w_catalog := c\<rparr>)"
        if c: "register_pending_objects (we_db we (w_tick w)) (ht_id target) (map fst ?xs) (w_catalog (others_ran we w)) = (c, x)" for c x
      proof -
        have "J (w_catalog (others_ran we w), w_files (others_ran we w))" using o by (simp add: pub_inv_def)
        then have "J (fst (register_pending_objects (we_db we (w_tick w)) (ht_id target) (map fst ?xs) (w_catalog (others_ran we w))),
            w_files (others_ran we w))" using fr unfolding framed_def by blast
        then have "J (c, w_files (others_ran we w))" by (simp add: c)
        moreover have "parts c = parts (w_catalog (others_ran we w))"
          using register_effect [of "we_db we (w_tick w)" "ht_id target" "map fst ?xs" "w_catalog (others_ran we w)"] c by auto
        moreover have "offsets_run (w_catalog (others_ran we w)) c"
          using catalog_step.register [of "list_all consumable" "w_catalog (others_ran we w)" "we_db we (w_tick w)" "ht_id target" "map fst ?xs"] c
          by (simp add: r_into_rtranclp)
        ultimately show ?thesis using o by (auto simp: pub_inv_def part_paths_def intro: rtranclp_trans)
      qed
      from act_call_runs [OF reg] show ?thesis
      proof
        assume "w1 = others_ran we w \<and> (\<exists>d. q = Inl d)"
        with o show ?thesis by simp
      next
        assume "\<exists>c x. register_pending_objects (we_db we (w_tick w)) (ht_id target) (map fst ?xs) (w_catalog (others_ran we w)) = (c, x) \<and>
          w1 = (others_ran we w)\<lparr>w_catalog := c\<rparr> \<and> ((\<exists>d. q = Inl d) \<or> q = map_sum (Raised \<circ> WCatalog) id x)"
        with reg_ok show ?thesis by auto
      qed
    qed
    let ?rest = "\<lambda>_. act_bind (upload_items we (lb_arrow W) ?xs) (\<lambda>ps. act_call we WCatalog (commit_add (lb_de W) (ht_id target) ps cm))"
    have pub': "act_bind ?reg ?rest w = (w', r)" using pub False by (simp add: publish_add_def Let_def)
    show ?thesis
    proof (cases q)
      case (Inl e)
      with pub' reg have "w' = w1" "r = Inl e" by (simp_all add: act_bind_def)
      with i1 inv_ok show ?thesis by blast
    next
      case (Inr u)
      obtain w2 r2 where up: "upload_items we (lb_arrow W) ?xs w1 = (w2, r2)" by (rule prod.exhaust)
      have "\<forall>i < length ?xs. fst (?xs ! i) \<in> P (w_tick w + 0 + i)"
        using paths by (simp add: prepared_def nth_enumerate_eq)
      from upload_items_inv [OF rely fr up conjunct1 [OF i1] _ this] i1
      consider e j ups where "r2 = Inl e" "pub_inv P J (w_tick w) j ?c0 ups w2"
        | "r2 = Inr (map (part_of_item (lb_arrow W)) ?xs)"
          "pub_inv P J (w_tick w) (length ?xs) ?c0 (map (\<lambda>x. (fst x, ep_bytes (fi_part (snd x)))) ?xs) w2" by auto
      then show ?thesis
      proof cases
        case 1
        with pub' reg Inr up have "w' = w2" "r = Inl e" by (simp_all add: act_bind_def)
        with 1(2) inv_ok show ?thesis by blast
      next
        case 2
        let ?ps = "map (part_of_item (lb_arrow W)) ?xs"
        have call: "act_call we WCatalog (commit_add (lb_de W) (ht_id target) ?ps cm) w2 = (w', r)"
          using pub' reg Inr up 2(1) by (simp add: act_bind_def)
        note o = pub_others [OF rely 2(2)]
        from act_call_runs [OF call] show ?thesis
        proof
          assume "w' = others_ran we w2 \<and> (\<exists>d. r = Inl d)"
          with o inv_ok show ?thesis by blast
        next
          assume "\<exists>c x. commit_add (lb_de W) (ht_id target) ?ps cm (we_db we (w_tick w2)) (w_catalog (others_ran we w2)) = (c, x) \<and>
            w' = (others_ran we w2)\<lparr>w_catalog := c\<rparr> \<and> ((\<exists>d. r = Inl d) \<or> r = map_sum (Raised \<circ> WCatalog) id x)"
          then obtain c x where c: "commit_add (lb_de W) (ht_id target) ?ps cm (we_db we (w_tick w2)) (w_catalog (others_ran we w2)) = (c, x)"
            and w': "w' = (others_ran we w2)\<lparr>w_catalog := c\<rparr>" and r: "(\<exists>d. r = Inl d) \<or> r = map_sum (Raised \<circ> WCatalog) id x" by blast
          have fs: "w_files w' = w_files (others_ran we w2)" and cat: "w_catalog w' = c" by (simp_all add: w')
          have items: "map snd ?xs = items" by (simp add: prepared_def comp_def enumerate_eq_zip split_def)
          have "sum_list (map (object_rows V (w_files w')) ?ps) = sum_list (map (view_rows V \<circ> (ep_bytes \<circ> fi_part)) items)" for V
          proof -
            have "map (view_rows V \<circ> (ep_bytes \<circ> fi_part) \<circ> snd) ?xs = map (view_rows V \<circ> (ep_bytes \<circ> fi_part)) (map snd ?xs)" by simp
            with stored_rows [OF o, of V "lb_arrow W"] show ?thesis by (simp only: items fs)
          qed
          moreover have "J (w_catalog (others_ran we w2), w_files w')" "offsets_run (w_catalog w) (w_catalog (others_ran we w2))"
            using o by (simp_all add: pub_inv_def w')
          ultimately have "committed_from P J W (ht_id target) items cm w w' r"
            unfolding committed_from_def cat using c r by blast
          moreover have "fresh_paths P w'" unfolding fresh_paths_def
          proof (intro ballI allI impI)
            fix p m assume p: "p \<in> part_paths (w_catalog w')" "p \<in> P m"
            have t: "w_tick w + length ?xs \<le> w_tick w'" using o by (simp add: pub_inv_def w')
            from p(1) commit_add_paths [OF c] have "p \<in> part_paths (w_catalog (others_ran we w2)) \<or> p \<in> path ` set ?ps" by (auto simp: w')
            then show "m < w_tick w'"
            proof
              assume "p \<in> part_paths (w_catalog (others_ran we w2))"
              with o p(2) have "m < w_tick w" by (simp add: pub_inv_def)
              with t show ?thesis by simp
            next
              assume "p \<in> path ` set ?ps"
              then obtain x where "x \<in> set ?xs" "p = fst x" by (auto simp: part_of_item_def split: prod.splits)
              with o obtain n where n: "n < w_tick w + length ?xs" "p \<in> P n" by (auto simp: pub_inv_def)
              then have "m = n" using relyD(1) [OF rely, of m n] p(2) by blast
              with n(1) t show ?thesis by simp
            qed
          qed
          ultimately show ?thesis by blast
        qed
      qed
    qed
  qed
qed

section \<open>Calls beside others\<close>

lemma recorded_new:
  assumes "took_effect env de ht op (Some i) offsets lease s s'" "recorded s' j cid"
  shows "recorded s j cid \<or> oi_fingerprint j = oi_fingerprint i"
proof (cases "keyed_commit s (oi_hypertable j) (oi_key j)")
  case None
  from assms(1) have "commits s' = commits s @ [commit_row_of env ht op (Some i) (commit_seq s + 1)]"
    by (auto simp: took_effect_def applied_def Let_def)
  moreover have "find P (xs @ [x]) = (if P x then Some x else None)" if "find P xs = None" for P and xs :: "commit_row list" and x
    using that by (induction xs) (auto split: if_splits)
  ultimately have "keyed_commit s' (oi_hypertable j) (oi_key j) \<in> {None, Some (commit_row_of env ht op (Some i) (commit_seq s + 1))}"
    using None unfolding keyed_commit_def by simp
  with assms(2) show ?thesis by (auto simp: recorded_def operation_row_def commit_row_of_def)
next
  case (Some x)
  from assms(1) have "commits s' = commits s @ [commit_row_of env ht op (Some i) (commit_seq s + 1)]"
    by (auto simp: took_effect_def applied_def Let_def)
  moreover have "find P (xs @ ys) = Some x" if "find P xs = Some x" for P and xs ys :: "commit_row list" and x
    using that by (induction xs) (auto split: if_splits)
  ultimately have "keyed_commit s' (oi_hypertable j) (oi_key j) = Some x" using Some unfolding keyed_commit_def by simp
  with Some assms(2) show ?thesis by (simp add: recorded_def operation_row_def)
qed

lemma act_call_read:
  assumes "act_call we err m w = (w', r)" "\<And>env c. fst (m env c) = c"
  shows "w' = others_ran we w" "r = Inr v \<Longrightarrow> \<exists>env. snd (m env (w_catalog w')) = Inr v"
proof -
  let ?c = "w_catalog (others_ran we w)" and ?env = "we_db we (w_tick w)"
  obtain c x where cx: "m ?env ?c = (c, x)" by (rule prod.exhaust)
  then have "c = ?c" using assms(2) [of ?env ?c] by simp
  with cx have m: "m ?env ?c = (?c, x)" by simp
  from act_call_runs [OF assms(1)] m have both: "w' = others_ran we w \<and> ((\<exists>d. r = Inl d) \<or> r = map_sum (Raised \<circ> err) id x)" by auto
  then show w': "w' = others_ran we w" by blast
  show "\<exists>env. snd (m env (w_catalog w')) = Inr v" if "r = Inr v"
    using both that m unfolding w' by (intro exI [of _ ?env]) (cases x; simp)
qed

lemma others_keep:
  assumes "rely we P J" "J (w_catalog w, w_files w)" "fresh_paths P w"
  shows "J (w_catalog (others_ran we w), w_files (others_ran we w))" "fresh_paths P (others_ran we w)"
    "offsets_run (w_catalog w) (w_catalog (others_ran we w))"
proof -
  note p = pub_others [OF assms(1) pub_start [of J w P, OF assms(2,3)]]
  show "fresh_paths P (others_ran we w)" by (rule pub_fresh [OF p])
  from p show "J (w_catalog (others_ran we w), w_files (others_ran we w))"
    "offsets_run (w_catalog w) (w_catalog (others_ran we w))" by (simp_all add: pub_inv_def)
qed

end
