(* ===== verification/Mv.thy ===== *)
theory Mv
  imports PipelineExec Publish Pipelines
begin

text \<open>
  The materialised-view worker, \<^verbatim>\<open>crates/ukiel-mv/src/lib.rs\<close>: choosing pipelines, reading the source
  parts of one feed event, running the pipeline's SQL, publishing the result under the identity of
  the event and advancing the cursor. It runs in the world of \<open>Worker\<close>. The chain of causes of a read
  error is a list; a missing object shows up in it below the reader's own error. The wait between
  passes and the cancellation are a list of the answers to \<open>is_cancelled\<close>.
\<close>

section \<open>Definitions\<close>

definition MV_TRANSFORMATION_VERSION :: u32 where
  "MV_TRANSFORMATION_VERSION = 1"

datatype read_cause = ObjectNotFound | ReadFailure

datatype mv_error =
    MCatalog catalog_error
  | MPipeline pipeline_error
  | MWrite write_error
  | MSchema schema_error
  | MExpr expr_error
  | MArrow
  | MOperation operation_error
  | MConfig string
  | InputBudget nat
  | SourceRead commit_id part_id string "read_cause list"
  | SourceInputUnavailable commit_id part_id string "read_cause list"

fun mv_catalog_error :: "mv_error \<Rightarrow> catalog_error option" where
  "mv_catalog_error (MCatalog e) = Some e"
| "mv_catalog_error (MWrite (WCatalog e)) = Some e"
| "mv_catalog_error _ = None"

fun is_data_error :: "mv_error \<Rightarrow> bool" where
  "is_data_error (MPipeline e) = is_runtime_data_error e"
| "is_data_error (MWrite WArrow) = True"
| "is_data_error (MWrite (WExpr _)) = True"
| "is_data_error (MWrite (InvalidTarget _)) = True"
| "is_data_error _ = False"

record mv_config =
  mc_pipelines :: "string list"
  mc_poll_interval_ms :: nat
  mc_limits :: execution_limits

definition default_mv_config :: mv_config where
  "default_mv_config = \<lparr>mc_pipelines = [], mc_poll_interval_ms = 1000, mc_limits = default_limits\<rparr>"

record selected =
  sel_pipeline :: pipeline
  sel_source :: hypertable
  sel_target :: hypertable
  sel_prepared :: prepared_pipeline

record mv_fleet =
  fl_selected :: "selected list"
  fl_config :: mv_config

text \<open>\<open>MvFleet::new\<close>\<close>

definition select_pipeline ::
  "'f wenv \<Rightarrow> ('w, 'f) pipeline_libs \<Rightarrow> mv_config \<Rightarrow> string \<Rightarrow> (hypertable_id \<times> hypertable_id) list \<Rightarrow> ('f, mv_error, selected) act" where
  "select_pipeline we I config name edges =
     act_bind (act_call we MCatalog (\<lambda>env. get_pipeline env name)) (\<lambda>p.
     case pd_source (pl_definition p) of
       Kafka _ \<Rightarrow> act_raise (MConfig (''pipeline '' @ name @ '' is not Parquet-sourced''))
     | Parquet source_id \<Rightarrow>
         if (source_id, pd_target (pl_definition p)) \<in> set edges then
           act_raise (MConfig ''duplicate selected source/target pair'')
         else
           act_bind (act_call we MCatalog (\<lambda>env. get_hypertable_by_id env source_id)) (\<lambda>source.
           act_bind (act_call we MCatalog (\<lambda>env. get_hypertable_by_id env (pd_target (pl_definition p)))) (\<lambda>target.
           act_bind (act_lift (map_sum MExpr id (validate_table_schema (lb_df I) (table_schema source)))) (\<lambda>_.
           act_bind (act_lift (map_sum MExpr id (validate_table_schema (lb_df I) (table_schema target)))) (\<lambda>_.
           act_bind (act_lift (map_sum MSchema query_schema (parse (table_schema source)))) (\<lambda>input.
           act_bind (act_lift (map_sum MPipeline id (prepare_pipeline I (ht_name source) (pd_sql (pl_definition p)) input (mc_limits config)))) (\<lambda>prepared.
           act_bind (act_lift (map_sum MWrite id (validate_output_schema (write_libs.truncate I) (pp_output_schema prepared) target))) (\<lambda>_.
             case pd_event_time_column (pl_definition p) of
               Some c \<Rightarrow>
                 if index_of (pp_output_schema prepared) c = None then act_raise MArrow
                 else act_return \<lparr>sel_pipeline = p, sel_source = source, sel_target = target, sel_prepared = prepared\<rparr>
             | None \<Rightarrow> act_return \<lparr>sel_pipeline = p, sel_source = source, sel_target = target, sel_prepared = prepared\<rparr>))))))))"

definition sel_edge :: "selected \<Rightarrow> hypertable_id \<times> hypertable_id" where
  "sel_edge s = (ht_id (sel_source s), ht_id (sel_target s))"

fun select_all ::
  "'f wenv \<Rightarrow> ('w, 'f) pipeline_libs \<Rightarrow> mv_config \<Rightarrow> string list \<Rightarrow> (hypertable_id \<times> hypertable_id) list \<Rightarrow> string list
   \<Rightarrow> ('f, mv_error, selected list) act" where
  "select_all we I config seen edges [] = act_return []"
| "select_all we I config seen edges (name # names) =
     (if name \<in> set seen then act_raise (MConfig (''duplicate selected pipeline '' @ name))
      else act_bind (select_pipeline we I config name edges) (\<lambda>s.
        act_bind (select_all we I config (name # seen)
            ((case pd_source (pl_definition (sel_pipeline s)) of Parquet i \<Rightarrow> i | Kafka i \<Rightarrow> i, pd_target (pl_definition (sel_pipeline s))) # edges)
            names) (\<lambda>rest. act_return (s # rest))))"

text \<open>The search for a cycle: \<open>pending\<close> is a stack, its top first.\<close>

function cycle_found :: "(hypertable_id \<times> hypertable_id) list \<Rightarrow> hypertable_id \<Rightarrow> hypertable_id list \<Rightarrow> hypertable_id list \<Rightarrow> bool" where
  "cycle_found es source [] visited = False"
| "cycle_found es source (node # pending) visited =
     (if node = source then True
      else if node \<in> set visited then cycle_found es source pending visited
      else cycle_found es source (rev (map snd (filter (\<lambda>e. fst e = node) es)) @ pending) (node # visited))"
  by pat_completeness auto

termination
proof (relation "measures [\<lambda>(es, source, pending, visited). card ((snd ` set es \<union> set pending) - set visited),
    \<lambda>(es, source, pending, visited). length pending]")
  fix es :: "(hypertable_id \<times> hypertable_id) list" and source node :: hypertable_id and pending visited :: "hypertable_id list"
  assume "node \<in> set visited"
  have "card ((snd ` set es \<union> set pending) - set visited) \<le> card ((snd ` set es \<union> set (node # pending)) - set visited)"
    by (intro card_mono) auto
  then show "((es, source, pending, visited), es, source, node # pending, visited) \<in> measures
      [\<lambda>(es, source, pending, visited). card ((snd ` set es \<union> set pending) - set visited), \<lambda>(es, source, pending, visited). length pending]"
    by auto
next
  fix es :: "(hypertable_id \<times> hypertable_id) list" and source node :: hypertable_id and pending visited :: "hypertable_id list"
  assume "node \<notin> set visited"
  let ?next = "rev (map snd (filter (\<lambda>e. fst e = node) es)) @ pending"
  have "card ((snd ` set es \<union> set ?next) - set (node # visited)) < card ((snd ` set es \<union> set (node # pending)) - set visited)"
    using \<open>node \<notin> set visited\<close> by (intro psubset_card_mono) auto
  then show "((es, source, ?next, node # visited), es, source, node # pending, visited) \<in> measures
      [\<lambda>(es, source, pending, visited). card ((snd ` set es \<union> set pending) - set visited), \<lambda>(es, source, pending, visited). length pending]"
    by auto
qed simp

fun ensure_cursors :: "'f wenv \<Rightarrow> selected list \<Rightarrow> ('f, mv_error, unit) act" where
  "ensure_cursors we [] = act_return ()"
| "ensure_cursors we (s # ss) =
     act_bind (act_call we MCatalog (\<lambda>env. ensure_mv_cursor env (pl_id (sel_pipeline s)))) (\<lambda>_. ensure_cursors we ss)"

definition fleet_new :: "'f wenv \<Rightarrow> ('w, 'f) pipeline_libs \<Rightarrow> mv_config \<Rightarrow> ('f, mv_error, mv_fleet) act" where
  "fleet_new we I config =
     (if mc_pipelines config = [] \<or> mc_poll_interval_ms config = 0
      then act_raise (MConfig ''a non-empty pipeline list and positive poll interval are required'')
      else act_bind (select_all we I config [] [] (mc_pipelines config)) (\<lambda>ss.
        if list_ex (\<lambda>s. cycle_found (map sel_edge ss) (ht_id (sel_source s)) [ht_id (sel_target s)] []) ss
        then act_raise (MConfig ''selected pipeline graph contains a cycle'')
        else act_bind (ensure_cursors we ss) (\<lambda>_. act_return \<lparr>fl_selected = ss, fl_config = config\<rparr>)))"

text \<open>\<open>read_input\<close>\<close>

definition source_columns :: "('w, 'f) pipeline_libs \<Rightarrow> schema \<Rightarrow> rbatch \<Rightarrow> rbatch option" where
  "source_columns I physical b =
     Option.bind (those (map (\<lambda>f. case index_of (rb_schema b) (f_name f) of
          Some i \<Rightarrow> wl_cast I (f_type (rb_schema b ! i)) (f_type f) (batch_column b i)
        | None \<Rightarrow> Some (replicate (num_rows b) cell.Null)) physical)) (\<lambda>arrays.
       try_batch physical (rows_of_columns (num_rows b) arrays))"

definition alias_columns :: "('w, 'f) pipeline_libs \<Rightarrow> table_columns \<Rightarrow> rbatch \<Rightarrow> rbatch option" where
  "alias_columns I cols stored =
     (let physical = physical_schema cols; query = query_schema cols in
      Option.bind (those (map (\<lambda>spec.
          case cs_kind spec of
            Alias sql \<Rightarrow>
              Option.bind (index_of query (cs_name spec)) (\<lambda>i.
                case compile_for_field (lb_df I) sql physical (query ! i) of
                  Inl _ \<Rightarrow> None
                | Inr e \<Rightarrow> (case evaluate e stored of Inl _ \<Rightarrow> None | Inr c \<Rightarrow> Some c))
          | _ \<Rightarrow> map_option (batch_column stored) (index_of (rb_schema stored) (cs_name spec))) cols)) (\<lambda>arrays.
        try_batch query (rows_of_columns (num_rows stored) arrays)))"

definition adapt_source :: "('w, 'f) pipeline_libs \<Rightarrow> table_columns \<Rightarrow> rbatch \<Rightarrow> rbatch option" where
  "adapt_source I cols b = Option.bind (source_columns I (physical_schema cols) b) (alias_columns I cols)"

text \<open>The batches of one opened part: \<open>fails_at\<close> is the batch at which reading breaks off.\<close>

fun read_batches ::
  "('w, 'f) pipeline_libs \<Rightarrow> table_columns \<Rightarrow> (read_cause list \<Rightarrow> mv_error) \<Rightarrow> nat \<Rightarrow> nat option \<Rightarrow> schema \<Rightarrow> cells list option list \<Rightarrow> nat
   \<Rightarrow> (mv_error, nat \<times> rbatch list) result" where
  "read_batches I cols err limit fails_at s [] bytes = (if fails_at = Some 0 then Inl (err [ReadFailure]) else Inr (bytes, []))"
| "read_batches I cols err limit fails_at s (item # items) bytes =
     (if fails_at = Some 0 then Inl (err [ReadFailure])
      else rbind (ok_or item (err [ReadFailure])) (\<lambda>rs.
     rbind (ok_or (adapt_source I cols \<lparr>rb_schema = s, rb_rows = rs\<rparr>) (err [ReadFailure])) (\<lambda>b.
     let bytes' = saturating_usize (bytes + wl_memory I b) in
     if bytes' > limit then Inl (InputBudget limit)
     else rbind (read_batches I cols err limit (map_option (\<lambda>n. n - 1) fails_at) s items bytes') (\<lambda>(total, bs).
       Inr (total, b # bs)))))"

definition open_source :: "'f wenv \<Rightarrow> (read_cause list \<Rightarrow> mv_error) \<Rightarrow> string \<Rightarrow> ('f, mv_error, 'f \<times> nat option) act" where
  "open_source we err p = (\<lambda>w. act_step we (\<lambda>w1.
     case w_files w1 p of
       None \<Rightarrow> (w1, Inl (err [ReadFailure, ObjectNotFound]))
     | Some f \<Rightarrow> if we_read we (w_tick w) = Some 0 then (w1, Inl (err [ReadFailure])) else (w1, Inr (f, we_read we (w_tick w)))) w)"

fun read_parts ::
  "'f wenv \<Rightarrow> ('w, 'f) pipeline_libs \<Rightarrow> table_columns \<Rightarrow> commit_id \<Rightarrow> nat \<Rightarrow> part list \<Rightarrow> nat \<Rightarrow> ('f, mv_error, rbatch list) act" where
  "read_parts we I cols cid limit [] bytes = act_return []"
| "read_parts we I cols cid limit (p # ps) bytes =
     (let pth = path (part_meta p); err = SourceRead cid (part_id p) pth in
      act_bind (open_source we err pth) (\<lambda>(f, fails_at).
      act_bind (act_lift (rbind (ok_or (pq_open (lb_arrow I) f) (err [ReadFailure])) (\<lambda>(s, items).
          read_batches I cols err limit fails_at s items bytes))) (\<lambda>(bytes', bs).
      act_bind (read_parts we I cols cid limit ps bytes') (\<lambda>rest. act_return (bs @ rest)))))"

definition read_input ::
  "'f wenv \<Rightarrow> ('w, 'f) pipeline_libs \<Rightarrow> hypertable \<Rightarrow> change_event \<Rightarrow> nat \<Rightarrow> ('f, mv_error, rbatch list) act" where
  "read_input we I source event limit =
     act_bind (act_lift (map_sum MSchema id (parse (table_schema source)))) (\<lambda>cols.
       read_parts we I cols (ev_commit_id event) limit (ev_added event) 0)"

fun required_source_error :: "mv_error \<Rightarrow> mv_error" where
  "required_source_error (SourceRead cid p pth causes) =
     (if ObjectNotFound \<in> set causes then SourceInputUnavailable cid p pth causes else SourceRead cid p pth causes)"
| "required_source_error e = e"

text \<open>One event\<close>

definition advance :: "'f wenv \<Rightarrow> selected \<Rightarrow> commit_id \<Rightarrow> ('f, mv_error, unit) act" where
  "advance we s cid =
     act_call we MCatalog (\<lambda>env. set_cursor env (mv_worker (pl_id (sel_pipeline s))) (ht_id (sel_source s)) cid)"

definition completed :: "'f wenv \<Rightarrow> selected \<Rightarrow> commit_id \<Rightarrow> operation_identity \<Rightarrow> ('f, mv_error, bool) act" where
  "completed we s event identity =
     act_bind (act_call we MCatalog (\<lambda>env. read_mv_cursor env (pl_id (sel_pipeline s)))) (\<lambda>cursor.
       if cursor \<ge> event then act_return True
       else act_bind (act_call we MCatalog (\<lambda>env. lookup_operation env identity)) (\<lambda>l.
         case l of
           LookupCommitted _ \<Rightarrow> act_bind (advance we s event) (\<lambda>_. act_return True)
         | Absent \<Rightarrow> act_return False))"

definition mv_identity :: "(bytes \<Rightarrow> bytes) \<Rightarrow> selected \<Rightarrow> commit_id \<Rightarrow> (mv_error, operation_identity) result" where
  "mv_identity blake3 s cid =
     map_sum MOperation id (mv blake3 (ht_id (sel_target s))
       \<lparr>mv_pipeline = pl_id (sel_pipeline s), mv_source_hypertable = ht_id (sel_source s), mv_source_commit = cid,
        mv_version = MV_TRANSFORMATION_VERSION\<rparr>)"

definition mv_encode ::
  "('w, 'f) pipeline_libs \<Rightarrow> nat \<Rightarrow> execution_limits \<Rightarrow> selected \<Rightarrow> change_event \<Rightarrow> rbatch list \<Rightarrow> (mv_error, 'f flush_item list) result" where
  "mv_encode I attempt limits s event input =
     rbind (if ev_added event = [] then Inr [] else map_sum MPipeline id (execute_pipeline I attempt (sel_prepared s) input)) (\<lambda>output.
       map_sum MWrite id (batches_to_l0_items (write_libs.truncate I) output (sel_target s) (el_output_bytes limits)))"

definition mv_publish ::
  "'f wenv \<Rightarrow> ('w, 'f) pipeline_libs \<Rightarrow> selected \<Rightarrow> change_event \<Rightarrow> operation_identity \<Rightarrow> 'f flush_item list \<Rightarrow> ('f, mv_error, unit) act" where
  "mv_publish we I s event identity items =
     act_bind (completed we s (ev_commit_id event) identity) (\<lambda>superseded.
       if superseded then act_return ()
       else act_bind (act_map_err MWrite (publish_add we (write_libs.truncate I) (sel_target s) items (PlainAdd identity))) (\<lambda>_.
         advance we s (ev_commit_id event)))"

definition mv_transform ::
  "'f wenv \<Rightarrow> ('w, 'f) pipeline_libs \<Rightarrow> execution_limits \<Rightarrow> selected \<Rightarrow> change_event \<Rightarrow> operation_identity \<Rightarrow> rbatch list
   \<Rightarrow> ('f, mv_error, unit) act" where
  "mv_transform we I limits s event identity input = (\<lambda>w.
     case mv_encode I (w_tick w) limits s event input of
       Inr items \<Rightarrow> mv_publish we I s event identity items w
     | Inl e \<Rightarrow>
         act_bind (completed we s (ev_commit_id event) identity) (\<lambda>superseded.
           if superseded then act_return ()
           else if pd_error_policy (pl_definition (sel_pipeline s)) = Skip \<and> is_data_error e
             then mv_publish we I s event identity []
           else act_raise e) w)"

definition process_add ::
  "'f wenv \<Rightarrow> ('w, 'f) pipeline_libs \<Rightarrow> execution_limits \<Rightarrow> selected \<Rightarrow> change_event \<Rightarrow> operation_identity \<Rightarrow> ('f, mv_error, unit) act" where
  "process_add we I limits s event identity =
     act_bind (completed we s (ev_commit_id event) identity) (\<lambda>superseded.
       if superseded then act_return ()
       else act_bind (act_try (read_input we I (sel_source s) event (el_input_bytes limits))) (\<lambda>r.
         case r of
           Inr input \<Rightarrow> mv_transform we I limits s event identity input
         | Inl e \<Rightarrow>
             act_bind (completed we s (ev_commit_id event) identity) (\<lambda>superseded.
               if superseded then act_return () else act_raise (required_source_error e))))"

definition process_event ::
  "'f wenv \<Rightarrow> ('w, 'f) pipeline_libs \<Rightarrow> execution_limits \<Rightarrow> selected \<Rightarrow> change_event \<Rightarrow> ('f, mv_error, unit) act" where
  "process_event we I limits s event =
     (if ev_kind event \<in> {''replace'', ''delete''} then advance we s (ev_commit_id event)
      else if ev_kind event \<noteq> ''add'' then act_raise (MConfig (''unknown feed kind '' @ ev_kind event))
      else act_bind (act_lift (mv_identity (lb_blake3 I) s (ev_commit_id event))) (process_add we I limits s event))"

text \<open>One pass\<close>

definition process_selected ::
  "'f wenv \<Rightarrow> ('w, 'f) pipeline_libs \<Rightarrow> execution_limits \<Rightarrow> selected \<Rightarrow> ('f, mv_error, bool) act" where
  "process_selected we I limits s =
     act_bind (act_call we MCatalog (\<lambda>env. read_mv_cursor env (pl_id (sel_pipeline s)))) (\<lambda>cursor.
     act_bind (act_call we MCatalog (\<lambda>env. changes_since env (ht_id (sel_source s)) cursor 1)) (\<lambda>events.
       case events of
         [] \<Rightarrow> act_return False
       | event # _ \<Rightarrow> act_bind (process_event we I limits s event) (\<lambda>_. act_return True)))"

fun process_pass ::
  "'f wenv \<Rightarrow> ('w, 'f) pipeline_libs \<Rightarrow> execution_limits \<Rightarrow> selected list \<Rightarrow> nat \<Rightarrow> mv_error option \<Rightarrow> ('f, mv_error, nat) act" where
  "process_pass we I limits [] processed stalled = (case stalled of Some e \<Rightarrow> act_raise e | None \<Rightarrow> act_return processed)"
| "process_pass we I limits (s # ss) processed stalled =
     act_bind (act_try (process_selected we I limits s)) (\<lambda>r.
       case r of
         Inr b \<Rightarrow> process_pass we I limits ss (if b then processed + 1 else processed) stalled
       | Inl e \<Rightarrow>
           if is_data_error e then process_pass we I limits ss processed (case stalled of None \<Rightarrow> Some e | Some x \<Rightarrow> Some x)
           else act_raise e)"

definition process_once :: "'f wenv \<Rightarrow> ('w, 'f) pipeline_libs \<Rightarrow> mv_fleet \<Rightarrow> ('f, mv_error, nat) act" where
  "process_once we I fleet = process_pass we I (mc_limits (fl_config fleet)) (fl_selected fleet) 0 None"

text \<open>The loop consumes an answer of \<open>is_cancelled\<close> per look and one per wait.\<close>

fun mv_run :: "'f wenv \<Rightarrow> ('w, 'f) pipeline_libs \<Rightarrow> mv_fleet \<Rightarrow> bool list \<Rightarrow> ('f, mv_error, unit) act" where
  "mv_run we I fleet [] = act_return ()"
| "mv_run we I fleet (True # cs) = act_return ()"
| "mv_run we I fleet [False] = act_bind (act_try (process_once we I fleet)) (\<lambda>r.
     case r of Inl e \<Rightarrow> if is_data_error e then act_return () else act_raise e | Inr _ \<Rightarrow> act_return ())"
| "mv_run we I fleet (False # c # cs) =
     act_bind (act_try (process_once we I fleet)) (\<lambda>r.
       let wait = (if c then act_return () else mv_run we I fleet cs) in
       case r of
         Inr processed \<Rightarrow> if processed > 0 then mv_run we I fleet (c # cs) else wait
       | Inl e \<Rightarrow> if is_data_error e then wait else act_raise e)"

end
