(* ===== verification/Ingest.thy ===== *)
theory Ingest
  imports Publish
begin

text \<open>
  The ingest route, \<^verbatim>\<open>crates/ukiel-ingest/src\<close>: offsets and assignment (\<^verbatim>\<open>assignment.rs\<close>), the buffers,
  the flush policy and the event loop (\<^verbatim>\<open>consumer.rs\<close>), encoding (\<^verbatim>\<open>writer.rs\<close>) and the flusher
  (\<^verbatim>\<open>flusher.rs\<close>). The Kafka client is a parameter: the metadata polls before the deadline, and the
  events the loop's \<open>select!\<close> takes once an assignment is made, a message with the wall clock at
  which it is buffered. \<open>serde_json::from_slice\<close>, the Arrow JSON decoder, the calendar day of a
  timestamp and the iteration order of hash maps are fields of \<open>ingest_libs\<close>. A hash map is an
  association list with distinct keys.
\<close>

section \<open>Definitions\<close>

datatype ingest_error =
    ISchema schema_error
  | IArrow
  | IParquet
  | IObjectStore store_error
  | ICatalog catalog_error
  | IKafka
  | IExpr expr_error
  | ISortKey sort_key_error
  | IOperation operation_error
  | IMissingColumn nat string
  | EmptyFlush
  | IConfig string

fun ingest_error_of_write :: "write_error \<Rightarrow> ingest_error" where
  "ingest_error_of_write (WCatalog e) = ICatalog e"
| "ingest_error_of_write (WObjectStore e) = IObjectStore e"
| "ingest_error_of_write (WSchema e) = ISchema e"
| "ingest_error_of_write WArrow = IArrow"
| "ingest_error_of_write WParquet = IParquet"
| "ingest_error_of_write (WExpr e) = IExpr e"
| "ingest_error_of_write (WSortKey e) = ISortKey e"
| "ingest_error_of_write EmptyBatch = EmptyFlush"
| "ingest_error_of_write (InvalidTarget e) = IConfig e"
| "ingest_error_of_write (BudgetExceeded n) = IConfig (''write input exceeds '' @ show_nat n @ '' bytes'')"

record ('w, 'f) ingest_libs = "('w, 'f) write_libs" +
  il_parse :: "string \<Rightarrow> json option"
  il_decode :: "schema \<Rightarrow> json list \<Rightarrow> cells list option option"
  il_day :: "i64 \<Rightarrow> string option"
  il_days :: "nat \<Rightarrow> string list \<Rightarrow> string list"
  il_partitions :: "nat \<Rightarrow> i32 list \<Rightarrow> i32 list"

record ingest_config =
  ic_brokers :: string
  ic_group_id :: string
  ic_flush_interval_ms :: nat
  ic_max_buffer_rows :: nat
  ic_l0_slowdown_parts :: nat
  ic_l0_stop_parts :: nat
  ic_warn_partitions_per_flush :: nat
  ic_max_event_age_days :: nat
  ic_max_event_future_secs :: nat

record table_route =
  tr_topic :: string
  tr_hypertable :: string
  tr_ts_column :: string

text \<open>\<open>assignment.rs\<close>\<close>

datatype ownership = AllPartitions | Subset "i32 set"

fun owns :: "ownership \<Rightarrow> i32 \<Rightarrow> bool" where
  "owns AllPartitions p = True"
| "owns (Subset s) p = (p \<in> s)"

record partition_start =
  pst_partition :: i32
  pst_offset :: i64

definition desired_assignment :: "i32 list \<Rightarrow> ownership \<Rightarrow> (i32 \<times> i64) list \<Rightarrow> partition_start list" where
  "desired_assignment existing ownership stored =
     sort_key pst_partition (map (\<lambda>p. \<lparr>pst_partition = p,
         pst_offset = (case map_of stored p of Some n \<Rightarrow> n | None \<Rightarrow> 0)\<rparr>) (filter (owns ownership) existing))"

text \<open>\<open>HashMap::entry(k).or_insert(d)\<close> followed by an update\<close>

fun entry_update :: "'k \<Rightarrow> 'v \<Rightarrow> ('v \<Rightarrow> 'v) \<Rightarrow> ('k \<times> 'v) list \<Rightarrow> ('k \<times> 'v) list" where
  "entry_update k d f [] = [(k, f d)]"
| "entry_update k d f ((k', v) # m) = (if k = k' then (k', f v) # m else (k', v) # entry_update k d f m)"

definition drain :: "(nat \<Rightarrow> 'k list \<Rightarrow> 'k list) \<Rightarrow> nat \<Rightarrow> ('k \<times> 'v) list \<Rightarrow> ('k \<times> 'v) list" where
  "drain order n m = map (\<lambda>k. (k, the (map_of m k))) (order n (map fst m))"

record buffers =
  bf_rows_by_day :: "(string \<times> json list) list"
  bf_ranges :: "(i32 \<times> i64 \<times> i64) list"
  bf_total_rows :: nat
  bf_max_event_ts :: "i64 option"
  bf_deferred :: nat

definition empty_buffers :: buffers where
  "empty_buffers = \<lparr>bf_rows_by_day = [], bf_ranges = [], bf_total_rows = 0, bf_max_event_ts = None, bf_deferred = 0\<rparr>"

definition track_event_ts :: "i64 option \<Rightarrow> i64 \<Rightarrow> i64" where
  "track_event_ts current ts = (case current of None \<Rightarrow> ts | Some m \<Rightarrow> max m ts)"

datatype flush_verdict = Flush | Defer

definition flush_decision :: "i64 \<Rightarrow> nat \<Rightarrow> nat \<Rightarrow> ingest_config \<Rightarrow> flush_verdict" where
  "flush_decision max_live_l0 deferred total_rows cfg =
     (if total_rows \<ge> saturating_usize (ic_max_buffer_rows cfg * 2) then Flush
      else if max_live_l0 \<ge> wrap_i64 (int (ic_l0_stop_parts cfg)) then Defer
      else if max_live_l0 \<ge> wrap_i64 (int (ic_l0_slowdown_parts cfg)) \<and> deferred = 0 then Defer
      else Flush)"

definition saturating_i64 :: "int \<Rightarrow> i64" where
  "saturating_i64 v = max (- (2 ^ 63)) (min (2 ^ 63 - 1) v)"

definition event_time_in_bounds :: "i64 \<Rightarrow> i64 \<Rightarrow> ingest_config \<Rightarrow> bool" where
  "event_time_in_bounds ts_ms now_ms cfg =
     (let max_age_ms = saturating_i64 (wrap_i64 (int (ic_max_event_age_days cfg)) * (24 * 3600 * 1000));
          max_future_ms = saturating_i64 (wrap_i64 (int (ic_max_event_future_secs cfg)) * 1000)
      in ts_ms \<ge> saturating_i64 (now_ms - max_age_ms) \<and> ts_ms \<le> saturating_i64 (now_ms + max_future_ms))"

definition buffer_message ::
  "('w, 'f) ingest_libs \<Rightarrow> ingest_config \<Rightarrow> table_route \<Rightarrow> string \<Rightarrow> string option \<Rightarrow> i32 \<Rightarrow> i64 \<Rightarrow> i64 \<Rightarrow> buffers \<Rightarrow> buffers" where
  "buffer_message I cfg route packing payload part_no offset now b =
     (let b1 = b\<lparr>bf_ranges := entry_update part_no (offset, offset) (\<lambda>(first, _). (first, offset)) (bf_ranges b)\<rparr> in
      case payload of
        None \<Rightarrow> b1
      | Some bytes \<Rightarrow>
          (case il_parse I bytes of
             None \<Rightarrow> b1
           | Some row \<Rightarrow>
               (case Option.bind (json_get row (tr_ts_column route)) as_i64 of
                  None \<Rightarrow> b1
                | Some ts \<Rightarrow>
                    if Option.bind (json_get row packing) as_i64 = None then b1
                    else if \<not> event_time_in_bounds ts now cfg then b1
                    else (case il_day I ts of
                            None \<Rightarrow> b1
                          | Some day \<Rightarrow>
                              b1\<lparr>bf_rows_by_day := entry_update day [] (\<lambda>rows. rows @ [row]) (bf_rows_by_day b1),
                                 bf_total_rows := bf_total_rows b1 + 1,
                                 bf_max_event_ts := Some (track_event_ts (bf_max_event_ts b1) ts)\<rparr>))))"

text \<open>\<open>writer.rs\<close>\<close>

fun missing_column :: "nat \<Rightarrow> string list \<Rightarrow> json list \<Rightarrow> (nat \<times> string) option" where
  "missing_column i cols [] = None"
| "missing_column i cols (row # rows) =
     (case find (\<lambda>col. Option.bind (json_get row col) as_i64 = None) cols of
        Some col \<Rightarrow> Some (i, col)
      | None \<Rightarrow> missing_column (Suc i) cols rows)"

definition decode_rows ::
  "('w, 'f) ingest_libs \<Rightarrow> schema \<Rightarrow> string \<Rightarrow> string \<Rightarrow> json list \<Rightarrow> (ingest_error, rbatch) result" where
  "decode_rows I s packing ts_column rows =
     (if rows = [] then Inl EmptyFlush
      else case missing_column 0 [packing, ts_column] rows of
        Some (i, col) \<Rightarrow> Inl (IMissingColumn i col)
      | None \<Rightarrow>
          (case il_decode I s rows of
             None \<Rightarrow> Inl IArrow
           | Some None \<Rightarrow> Inl EmptyFlush
           | Some (Some rs) \<Rightarrow> Inr \<lparr>rb_schema = s, rb_rows = rs\<rparr>))"

definition finish_batch ::
  "('w, 'f) ingest_libs \<Rightarrow> rbatch \<Rightarrow> string \<Rightarrow> string list \<Rightarrow> write_opts \<Rightarrow> (ingest_error, 'f encoded_part) result" where
  "finish_batch I b packing key opts = map_sum ingest_error_of_write id (encode_batch (write_libs.truncate I) b packing key opts)"

definition rows_to_parquet ::
  "('w, 'f) ingest_libs \<Rightarrow> schema \<Rightarrow> string \<Rightarrow> string \<Rightarrow> string list \<Rightarrow> json list \<Rightarrow> (ingest_error, 'f encoded_part) result" where
  "rows_to_parquet I s packing ts_column key rows =
     rbind (decode_rows I s packing ts_column rows) (\<lambda>b.
     rbind (map_sum ISortKey id (sort_batch (write_libs.truncate I) b key)) (\<lambda>b'.
       finish_batch I b' packing key ((write_opts_for_level 0)\<lparr>wo_ts_column := Some ts_column\<rparr>)))"

definition encode_rows ::
  "('w, 'f) ingest_libs \<Rightarrow> table_columns \<Rightarrow> string \<Rightarrow> string \<Rightarrow> string list \<Rightarrow> json list \<Rightarrow> (ingest_error, 'f encoded_part) result" where
  "encode_rows I cols packing ts_column key rows =
     rbind (decode_rows I (physical_schema cols) packing ts_column rows) (\<lambda>b.
     rbind (map_sum IExpr id (apply_defaults_and_materialized (lb_df I) b cols)) (\<lambda>filled.
     rbind (map_sum ISortKey id (sort_batch (write_libs.truncate I) filled key)) (\<lambda>sorted_b.
       finish_batch I sorted_b packing key (write_opts_from_columns cols key 0))))"

text \<open>\<open>flusher.rs\<close>\<close>

definition INGEST_TRANSFORMATION_VERSION :: u32 where
  "INGEST_TRANSFORMATION_VERSION = 1"

definition ingest_ranges :: "offset_range list \<Rightarrow> ingest_range list" where
  "ingest_ranges offsets = map (\<lambda>r. IngestRange (or_topic r) (or_partition r) (or_first r) (or_last r)) offsets"

definition ingest_identity ::
  "(bytes \<Rightarrow> bytes) \<Rightarrow> hypertable_id \<Rightarrow> offset_range list \<Rightarrow> (ingest_error, operation_identity) result" where
  "ingest_identity blake3 ht offsets =
     map_sum IOperation id (ingest blake3 ht (ingest_ranges offsets) INGEST_TRANSFORMATION_VERSION)"

definition flusher_flush ::
  "'f wenv \<Rightarrow> ('w, 'f) ingest_libs \<Rightarrow> hypertable \<Rightarrow> 'f flush_item list \<Rightarrow> offset_range list \<Rightarrow> ('f, ingest_error, commit_result) act" where
  "flusher_flush we I ht items offsets =
     act_bind (act_lift (ingest_identity (lb_blake3 I) (ht_id ht) offsets)) (\<lambda>identity.
       act_map_err ingest_error_of_write (publish_add we (write_libs.truncate I) ht items (IngestAdd offsets identity)))"

text \<open>\<open>RouteIngest\<close>\<close>

definition day_value :: "string \<Rightarrow> json" where
  "day_value day = JObject [(''day'', JString day)]"

fun encode_days ::
  "('w, 'f) ingest_libs \<Rightarrow> table_columns \<Rightarrow> hypertable \<Rightarrow> table_route \<Rightarrow> (string \<times> json list) list
   \<Rightarrow> (ingest_error, 'f flush_item list) result" where
  "encode_days I cols ht route [] = Inr []"
| "encode_days I cols ht route ((day, rows) # days) =
     rbind (encode_rows I cols (packing_key ht) (tr_ts_column route) (sort_key_cols ht) rows) (\<lambda>p.
     rbind (encode_days I cols ht route days) (\<lambda>items.
       Inr (\<lparr>fi_partition_values = day_value day, fi_part = p\<rparr> # items)))"

definition range_of :: "table_route \<Rightarrow> i32 \<times> i64 \<times> i64 \<Rightarrow> offset_range" where
  "range_of route = (\<lambda>(p, first, l). \<lparr>or_topic = tr_topic route, or_partition = p, or_first = first, or_last = l\<rparr>)"

definition deferred_by_backpressure ::
  "'f wenv \<Rightarrow> ingest_config \<Rightarrow> hypertable \<Rightarrow> buffers \<Rightarrow> bool \<Rightarrow> ('f, ingest_error, bool) act" where
  "deferred_by_backpressure we cfg ht b force =
     (if \<not> force \<and> bf_rows_by_day b \<noteq> [] then
        act_bind (act_call we ICatalog (\<lambda>env. max_live_l0_parts env (ht_id ht) (map (day_value \<circ> fst) (bf_rows_by_day b)))) (\<lambda>max_live.
          act_return (flush_decision (int max_live) (bf_deferred b) (bf_total_rows b) cfg = Defer))
      else act_return False)"

definition flush ::
  "'f wenv \<Rightarrow> ('w, 'f) ingest_libs \<Rightarrow> ingest_config \<Rightarrow> table_route \<Rightarrow> hypertable \<Rightarrow> buffers \<Rightarrow> bool \<Rightarrow> ('f, ingest_error, buffers) act" where
  "flush we I cfg route ht b force =
     (if bf_ranges b = [] then act_return b
      else act_bind (deferred_by_backpressure we cfg ht b force) (\<lambda>deferred.
        if deferred then act_return (b\<lparr>bf_deferred := bf_deferred b + 1\<rparr>)
        else act_bind (act_lift (map_sum ISchema id (parse (table_schema ht)))) (\<lambda>cols w.
          act_bind (act_lift (encode_days I cols ht route (drain (il_days I) (w_tick w) (bf_rows_by_day b)))) (\<lambda>items.
          act_bind (flusher_flush we I ht items (map (range_of route) (drain (il_partitions I) (w_tick w) (bf_ranges b)))) (\<lambda>_.
            act_return empty_buffers)) w)))"

datatype ingest_event = Message "string option" i32 i64 i64 | RecvError | FlushTick | StopRoute

fun route_loop ::
  "'f wenv \<Rightarrow> ('w, 'f) ingest_libs \<Rightarrow> ingest_config \<Rightarrow> table_route \<Rightarrow> hypertable \<Rightarrow> buffers \<Rightarrow> ingest_event list
   \<Rightarrow> ('f, ingest_error, unit) act" where
  "route_loop we I cfg route ht b [] = act_return ()"
| "route_loop we I cfg route ht b (StopRoute # es) =
     act_bind (flush we I cfg route ht b True) (\<lambda>_. act_return ())"
| "route_loop we I cfg route ht b (FlushTick # es) =
     act_bind (flush we I cfg route ht b False) (\<lambda>b'. route_loop we I cfg route ht b' es)"
| "route_loop we I cfg route ht b (RecvError # es) = act_raise IKafka"
| "route_loop we I cfg route ht b (Message payload part_no offset now # es) =
     (let b1 = buffer_message I cfg route (packing_key ht) payload part_no offset now b in
      if bf_total_rows b1 \<ge> ic_max_buffer_rows cfg
      then act_bind (flush we I cfg route ht b1 False) (\<lambda>b'. route_loop we I cfg route ht b' es)
      else route_loop we I cfg route ht b1 es)"

text \<open>The metadata polls that fit before the deadline.\<close>

fun await_partitions :: "string \<Rightarrow> i32 list option list \<Rightarrow> (ingest_error, i32 list) result" where
  "await_partitions topic [] = Inl (IConfig (''topic '' @ quoted topic @ '' has no partitions after 30s''))"
| "await_partitions topic (None # polls) = Inl IKafka"
| "await_partitions topic (Some ids # polls) = (if ids \<noteq> [] then Inr ids else await_partitions topic polls)"

definition connect ::
  "'f wenv \<Rightarrow> table_route \<Rightarrow> hypertable \<Rightarrow> i32 list option list \<Rightarrow> ('f, ingest_error, partition_start list) act" where
  "connect we route ht polls =
     act_bind (act_call we ICatalog (\<lambda>env. read_ingest_offsets env (ht_id ht) (tr_topic route))) (\<lambda>stored.
     act_bind (act_lift (await_partitions (tr_topic route) polls)) (\<lambda>existing.
       act_return (desired_assignment existing AllPartitions stored)))"

definition route_work ::
  "'f wenv \<Rightarrow> ('w, 'f) ingest_libs \<Rightarrow> ingest_config \<Rightarrow> table_route \<Rightarrow> hypertable \<Rightarrow> i32 list option list
   \<Rightarrow> (partition_start list \<Rightarrow> ingest_event list) \<Rightarrow> ('f, ingest_error, unit) act" where
  "route_work we I cfg route ht polls kafka =
     act_bind (connect we route ht polls) (\<lambda>assigned. route_loop we I cfg route ht empty_buffers (kafka assigned))"

definition route_run ::
  "'f wenv \<Rightarrow> ('w, 'f) ingest_libs \<Rightarrow> ingest_config \<Rightarrow> table_route \<Rightarrow> i32 list option list
   \<Rightarrow> (partition_start list \<Rightarrow> ingest_event list) \<Rightarrow> ('f, ingest_error, unit) act" where
  "route_run we I cfg route polls kafka =
     act_bind (act_call we ICatalog (\<lambda>env. get_hypertable env (tr_hypertable route))) (\<lambda>ht.
     act_bind (act_lift (map_sum ISchema id (parse (table_schema ht)))) (\<lambda>cols.
     act_bind (act_lift (map_sum ISortKey id (validate_sort_key (physical_schema cols) (sort_key_cols ht) (packing_key ht)
         (Some (tr_ts_column route))))) (\<lambda>_.
       route_work we I cfg route ht polls kafka)))"

text \<open>\<open>ReadyGate\<close>: the count of routes still to arrive, and whether the signal fires.\<close>

definition arrive :: "nat \<Rightarrow> nat \<times> bool" where
  "arrive n = ((n + 2 ^ 64 - 1) mod 2 ^ 64, n = 1)"

end
