(* ===== verification/Config.thy ===== *)
theory Config
  imports Float64 Mv Ingest Compactor
begin

text \<open>
  The configuration of a process, \<^verbatim>\<open>crates/ukield/src/config.rs\<close>: its sections with their defaults, the
  validation that runs before anything starts, the worker configurations made from it, and the
  table schema a \<open>[[tables]]\<close> entry stands for. Parsing TOML is a parameter. \<open>u64\<close> arithmetic wraps, as
  in a release build. A refusal is a constructor with the values its message prints.
\<close>

section \<open>Definitions\<close>

datatype role = IngestRole | MvRole | QueryRole | CompactorRole | GcRole

definition default_roles :: "role list" where
  "default_roles = [IngestRole, QueryRole, CompactorRole, GcRole]"

definition DEFAULT_POOL_SIZE :: nat where
  "DEFAULT_POOL_SIZE = 16"

record catalog_config =
  cg_url :: string
  cg_max_connections :: nat
  cg_min_connections :: nat
  cg_acquire_timeout_ms :: nat
  cg_lock_timeout_ms :: nat
  cg_idle_timeout_secs :: nat
  cg_max_lifetime_secs :: nat
  cg_test_before_acquire :: bool
  cg_retry_base_ms :: nat
  cg_retry_max_ms :: nat
  cg_retry_jitter_ratio :: f64
  cg_recovery_probe_timeout_ms :: nat
  cg_query_admission_timeout_ms :: nat
  cg_retry_after_secs :: nat

text \<open>The literal \<open>0.20\<close> is the double nearest to it.\<close>

definition default_catalog_config :: catalog_config where
  "default_catalog_config = \<lparr>cg_url = [], cg_max_connections = DEFAULT_POOL_SIZE, cg_min_connections = 0,
     cg_acquire_timeout_ms = 2000, cg_lock_timeout_ms = 2000, cg_idle_timeout_secs = 600, cg_max_lifetime_secs = 1800,
     cg_test_before_acquire = True, cg_retry_base_ms = 100, cg_retry_max_ms = 5000,
     cg_retry_jitter_ratio = Fin (3602879701896397 / 18014398509481984), cg_recovery_probe_timeout_ms = 2000,
     cg_query_admission_timeout_ms = 1000, cg_retry_after_secs = 1\<rparr>"

text \<open>A \<open>Duration\<close> is a number of nanoseconds.\<close>

type_synonym duration = nat

definition from_millis :: "nat \<Rightarrow> duration" where "from_millis n = n * 1000000"
definition from_secs :: "nat \<Rightarrow> duration" where "from_secs n = n * 1000000000"

record catalog_pool_config =
  pc_max_connections :: nat
  pc_min_connections :: nat
  pc_acquire_timeout :: duration
  pc_lock_timeout :: duration
  pc_idle_timeout :: "duration option"
  pc_max_lifetime :: "duration option"
  pc_test_before_acquire :: bool

definition default_pool_config :: catalog_pool_config where
  "default_pool_config = \<lparr>pc_max_connections = DEFAULT_POOL_SIZE, pc_min_connections = 0, pc_acquire_timeout = from_millis 2000,
     pc_lock_timeout = from_millis 2000, pc_idle_timeout = Some (from_secs 600), pc_max_lifetime = Some (from_secs 1800),
     pc_test_before_acquire = True\<rparr>"

text \<open>The session option of every connection, or a refusal; parsing the URL is a parameter.\<close>

definition connect_options :: "(string \<Rightarrow> sqlx_error option) \<Rightarrow> catalog_pool_config \<Rightarrow> string \<Rightarrow> (catalog_error, string) result" where
  "connect_options bad_url pc url =
     (let millis = pc_lock_timeout pc div 1000000 in
      if millis = 0 \<or> millis > 2 ^ 31 - 1 \<or> pc_lock_timeout pc \<noteq> from_millis millis
      then Inl (InvalidLockTimeout ''expected whole milliseconds in 1..=2147483647'')
      else case bad_url url of Some e \<Rightarrow> Inl (Db e) | None \<Rightarrow> Inr (show_nat millis @ ''ms''))"

definition pool_config :: "catalog_config \<Rightarrow> catalog_pool_config" where
  "pool_config c = \<lparr>pc_max_connections = cg_max_connections c, pc_min_connections = cg_min_connections c,
     pc_acquire_timeout = from_millis (cg_acquire_timeout_ms c), pc_lock_timeout = from_millis (cg_lock_timeout_ms c),
     pc_idle_timeout = Some (from_secs (cg_idle_timeout_secs c)), pc_max_lifetime = Some (from_secs (cg_max_lifetime_secs c)),
     pc_test_before_acquire = cg_test_before_acquire c\<rparr>"

record object_store_config =
  os_kind :: string
  os_endpoint :: string
  os_bucket :: string
  os_access_key_id :: string
  os_secret_access_key :: string
  os_region :: string
  os_allow_http :: bool

record cache_config =
  ch_large_object_threshold :: nat
  ch_chunk_size :: nat
  ch_write_through :: bool
  ch_max_bytes :: nat
  ch_max_entries :: nat
  ch_size_entries :: nat

definition default_cache_config :: cache_config where
  "default_cache_config = \<lparr>ch_large_object_threshold = 64 * 1024 * 1024, ch_chunk_size = 8 * 1024 * 1024, ch_write_through = True,
     ch_max_bytes = 16 * 1024 * 1024 * 1024, ch_max_entries = 100000, ch_size_entries = 10000\<rparr>"

record query_config =
  qc_listen :: string
  qc_cache_dir :: string
  qc_cache_write_through :: bool
  qc_cache_large_object_threshold :: nat
  qc_cache_chunk_size :: nat
  qc_cache_max_bytes :: nat
  qc_cache_max_entries :: nat
  qc_cache_size_entries :: nat
  qc_statement_timeout_secs :: nat

definition default_query_config :: query_config where
  "default_query_config = (let cache = default_cache_config in
     \<lparr>qc_listen = ''127.0.0.1:8080'', qc_cache_dir = [], qc_cache_write_through = ch_write_through cache,
      qc_cache_large_object_threshold = ch_large_object_threshold cache, qc_cache_chunk_size = ch_chunk_size cache,
      qc_cache_max_bytes = ch_max_bytes cache, qc_cache_max_entries = ch_max_entries cache,
      qc_cache_size_entries = ch_size_entries cache, qc_statement_timeout_secs = 300\<rparr>)"

record ingest_section =
  is_brokers :: string
  is_group_id :: string
  is_flush_interval_ms :: nat
  is_max_buffer_rows :: nat
  is_l0_slowdown_parts :: nat
  is_l0_stop_parts :: nat
  is_warn_partitions_per_flush :: nat
  is_max_event_age_days :: nat
  is_max_event_future_secs :: nat

definition default_ingest_section :: ingest_section where
  "default_ingest_section = \<lparr>is_brokers = ''127.0.0.1:9092'', is_group_id = ''ukield'', is_flush_interval_ms = 10000,
     is_max_buffer_rows = 100000, is_l0_slowdown_parts = 30, is_l0_stop_parts = 200, is_warn_partitions_per_flush = 64,
     is_max_event_age_days = 3650, is_max_event_future_secs = 3600\<rparr>"

record mv_section =
  ms_pipelines :: "string list"
  ms_poll_interval_ms :: nat
  ms_input_bytes :: nat
  ms_output_bytes :: nat
  ms_output_rows :: nat
  ms_operator_memory_bytes :: nat

definition default_mv_section :: mv_section where
  "default_mv_section = (let limits = default_limits in
     \<lparr>ms_pipelines = [], ms_poll_interval_ms = 1000, ms_input_bytes = el_input_bytes limits,
      ms_output_bytes = el_output_bytes limits, ms_output_rows = el_output_rows limits,
      ms_operator_memory_bytes = el_operator_memory_bytes limits\<rparr>)"

definition worker_config :: "mv_section \<Rightarrow> mv_config" where
  "worker_config m = \<lparr>mc_pipelines = ms_pipelines m, mc_poll_interval_ms = ms_poll_interval_ms m,
     mc_limits = \<lparr>el_input_bytes = ms_input_bytes m, el_output_bytes = ms_output_bytes m, el_output_rows = ms_output_rows m,
       el_operator_memory_bytes = ms_operator_memory_bytes m\<rparr>\<rparr>"

record mv_pipeline_config =
  mp_name :: string
  mp_source :: string
  mp_target :: string
  mp_sql :: string
  mp_error_policy :: error_policy

record compactor_section =
  co_poll_interval_ms :: nat
  co_l0_fanout :: nat
  co_fanout :: nat
  co_finalize_after_secs :: nat
  co_finalize_poll_interval_ms :: nat
  co_lease_ttl_secs :: nat
  co_lease_renew_interval_secs :: nat
  co_candidate_limit :: i64

definition default_compactor_section :: compactor_section where
  "default_compactor_section = \<lparr>co_poll_interval_ms = 5000, co_l0_fanout = 4, co_fanout = 10, co_finalize_after_secs = 3600,
     co_finalize_poll_interval_ms = 60000, co_lease_ttl_secs = 60, co_lease_renew_interval_secs = 20, co_candidate_limit = 64\<rparr>"

record gc_section =
  gs_poll_interval_ms :: nat
  gs_tombstone_grace_secs :: f64
  gs_orphan_grace_secs :: i64

definition default_gc_section :: gc_section where
  "default_gc_section = \<lparr>gs_poll_interval_ms = 60000, gs_tombstone_grace_secs = Fin 900, gs_orphan_grace_secs = 3600\<rparr>"

record collector_section =
  cs_interval_ms :: nat
  cs_cache_walk_every :: nat

definition default_collector_section :: collector_section where
  "default_collector_section = \<lparr>cs_interval_ms = 30000, cs_cache_walk_every = 10\<rparr>"

record column_config =
  cf_name :: string
  cf_type_name :: string
  cf_nullable :: "bool option"
  cf_default :: "string option"
  cf_materialized :: "string option"
  cf_alias :: "string option"

record table_config =
  tb_name :: string
  tb_topic :: "string option"
  tb_ts_column :: string
  tb_packing_key :: string
  tb_sort_key :: "string list"
  tb_partition_columns :: "string list"
  tb_placement :: "string option"
  tb_target_file_mb :: "nat option"
  tb_namespaces :: "namespace_id list"
  tb_columns :: "column_config list"

record ukield_config =
  uc_roles :: "role list"
  uc_catalog :: catalog_config
  uc_object_store :: object_store_config
  uc_query :: query_config
  uc_ingest :: ingest_section
  uc_mv :: mv_section
  uc_compactor :: compactor_section
  uc_gc :: gc_section
  uc_collector :: collector_section
  uc_metrics_listen :: string
  uc_tables :: "table_config list"
  uc_pipelines :: "mv_pipeline_config list"

datatype config_error =
    CacheCapacities
  | MvPipelinesEmpty
  | MvLimits
  | TimeoutOutlivesGrace nat f64
  | LeaseNotPositive nat nat
  | RenewalTooSlow nat nat
  | CandidateLimit i64
  | UrlRequired
  | MaxConnectionsZero
  | MinAboveMax nat nat
  | NotPositive string
  | LockTimeoutTooLong
  | BaseAboveMax nat nat
  | JitterOutOfRange f64

definition u64_mul :: "nat \<Rightarrow> nat \<Rightarrow> nat" where
  "u64_mul a b = a * b mod 2 ^ 64"

text \<open>\<open>n as f64\<close>\<close>

definition f64_of_u64 :: "nat \<Rightarrow> f64" where
  "f64_of_u64 n = Fin (fl (of_nat n))"

definition validate_catalog :: "catalog_config \<Rightarrow> (config_error, unit) result" where
  "validate_catalog cat =
     (if cg_url cat = [] then Inl UrlRequired
      else if cg_max_connections cat = 0 then Inl MaxConnectionsZero
      else if cg_min_connections cat > cg_max_connections cat then Inl (MinAboveMax (cg_min_connections cat) (cg_max_connections cat))
      else case find (\<lambda>(_, v). v = 0)
          [(''acquire_timeout_ms'', cg_acquire_timeout_ms cat), (''lock_timeout_ms'', cg_lock_timeout_ms cat),
           (''retry_base_ms'', cg_retry_base_ms cat), (''retry_max_ms'', cg_retry_max_ms cat),
           (''recovery_probe_timeout_ms'', cg_recovery_probe_timeout_ms cat),
           (''query_admission_timeout_ms'', cg_query_admission_timeout_ms cat)] of
        Some (name, _) \<Rightarrow> Inl (NotPositive name)
      | None \<Rightarrow>
          if cg_lock_timeout_ms cat > 2 ^ 31 - 1 then Inl LockTimeoutTooLong
          else if cg_retry_base_ms cat > cg_retry_max_ms cat then Inl (BaseAboveMax (cg_retry_base_ms cat) (cg_retry_max_ms cat))
          else if \<not> (f64_le (Fin 0) (cg_retry_jitter_ratio cat) \<and> f64_le (cg_retry_jitter_ratio cat) (Fin 1))
          then Inl (JitterOutOfRange (cg_retry_jitter_ratio cat))
          else Inr ())"

definition validate :: "ukield_config \<Rightarrow> (config_error, unit) result" where
  "validate cfg =
     (let q = uc_query cfg; m = uc_mv cfg; ttl = co_lease_ttl_secs (uc_compactor cfg); renew = co_lease_renew_interval_secs (uc_compactor cfg) in
      if qc_cache_dir q \<noteq> [] \<and> (qc_cache_max_bytes q = 0 \<or> qc_cache_max_entries q = 0 \<or> qc_cache_size_entries q = 0 \<or> qc_cache_chunk_size q = 0)
      then Inl CacheCapacities
      else if MvRole \<in> set (uc_roles cfg) \<and> ms_pipelines m = [] then Inl MvPipelinesEmpty
      else if ms_poll_interval_ms m = 0 \<or> 0 \<in> {ms_input_bytes m, ms_output_bytes m, ms_output_rows m, ms_operator_memory_bytes m}
      then Inl MvLimits
      else if QueryRole \<in> set (uc_roles cfg) \<and> GcRole \<in> set (uc_roles cfg) \<and>
        f64_le (gs_tombstone_grace_secs (uc_gc cfg)) (f64_of_u64 (qc_statement_timeout_secs q))
      then Inl (TimeoutOutlivesGrace (qc_statement_timeout_secs q) (gs_tombstone_grace_secs (uc_gc cfg)))
      else if ttl = 0 \<or> renew = 0 then Inl (LeaseNotPositive ttl renew)
      else if u64_mul renew 3 > ttl then Inl (RenewalTooSlow renew (ttl div 3))
      else if co_candidate_limit (uc_compactor cfg) \<le> 0 then Inl (CandidateLimit (co_candidate_limit (uc_compactor cfg)))
      else validate_catalog (uc_catalog cfg))"

text \<open>\<open>UkieldConfig::load\<close>: the file's text and the environment are arguments, the parser a parameter.\<close>

datatype load_error = ReadingConfig | ParsingConfig

definition load :: "(string \<Rightarrow> ukield_config option) \<Rightarrow> (string \<Rightarrow> string option) \<Rightarrow> string option \<Rightarrow> (load_error, ukield_config) result" where
  "load toml_parse env_var raw =
     rbind (ok_or raw ReadingConfig) (\<lambda>text.
     rbind (ok_or (toml_parse text) ParsingConfig) (\<lambda>cfg.
     let cfg1 = (case env_var ''UKIELD_CATALOG_URL'' of None \<Rightarrow> cfg | Some url \<Rightarrow> cfg\<lparr>uc_catalog := (uc_catalog cfg)\<lparr>cg_url := url\<rparr>\<rparr>);
         cfg2 = (case env_var ''UKIELD_S3_ACCESS_KEY_ID'' of None \<Rightarrow> cfg1
                 | Some key \<Rightarrow> cfg1\<lparr>uc_object_store := (uc_object_store cfg1)\<lparr>os_access_key_id := key\<rparr>\<rparr>)
     in Inr (case env_var ''UKIELD_S3_SECRET_ACCESS_KEY'' of None \<Rightarrow> cfg2
             | Some secret \<Rightarrow> cfg2\<lparr>uc_object_store := (uc_object_store cfg2)\<lparr>os_secret_access_key := secret\<rparr>\<rparr>)))"

definition insert_some :: "string \<Rightarrow> json option \<Rightarrow> (string \<times> json) list \<Rightarrow> (string \<times> json) list" where
  "insert_some k v kvs = (case v of None \<Rightarrow> kvs | Some x \<Rightarrow> object_insert k x kvs)"

definition column_json :: "column_config \<Rightarrow> json" where
  "column_json c = JObject
     (insert_some ''alias'' (map_option JString (cf_alias c))
     (insert_some ''materialized'' (map_option JString (cf_materialized c))
     (insert_some ''default'' (map_option JString (cf_default c))
     (insert_some ''nullable'' (map_option JBool (cf_nullable c))
       [(''name'', JString (cf_name c)), (''type'', JString (cf_type_name c))]))))"

definition schema_json :: "table_config \<Rightarrow> json" where
  "schema_json t = JObject [(''fields'', JArray (map column_json (tb_columns t)))]"

definition partition_spec_json :: "table_config \<Rightarrow> json" where
  "partition_spec_json t = JObject [(''columns'', JArray (map JString (tb_partition_columns t)))]"

section \<open>Lemmas\<close>

lemma map_of_insert: "map_of (object_insert k v kvs) k' = (if k' = k then Some v else map_of kvs k')"
  by (induction k v kvs rule: object_insert.induct) auto

lemma json_get_insert_some:
  "json_get (JObject (insert_some k v kvs)) k' = (if k' = k \<and> v \<noteq> None then v else json_get (JObject kvs) k')"
  by (auto simp: insert_some_def map_of_insert split: option.split)

lemma column_json_get:
  "json_get (column_json c) ''name'' = Some (JString (cf_name c))" "json_get (column_json c) ''type'' = Some (JString (cf_type_name c))"
  "json_get (column_json c) ''nullable'' = map_option JBool (cf_nullable c)"
  "json_get (column_json c) ''default'' = map_option JString (cf_default c)"
  "json_get (column_json c) ''materialized'' = map_option JString (cf_materialized c)"
  "json_get (column_json c) ''alias'' = map_option JString (cf_alias c)" "json_get (column_json c) ''bloom_filter'' = None"
  unfolding column_json_def json_get_insert_some by simp_all
text \<open>What a column entry stands for, when it is one the schema language accepts.\<close>

definition valid_column :: "column_config \<Rightarrow> bool" where
  "valid_column c \<longleftrightarrow> cf_type_name c \<in> {''int64'', ''timestamp_ms'', ''float64'', ''utf8'', ''bool''} \<and>
     length (filter (\<lambda>e. e \<noteq> None) [cf_default c, cf_materialized c, cf_alias c]) \<le> 1"

definition column_spec_of :: "column_config \<Rightarrow> column_spec" where
  "column_spec_of c = \<lparr>cs_name = cf_name c,
     cs_type = (if cf_type_name c = ''float64'' then Float64 else if cf_type_name c = ''utf8'' then Utf8
       else if cf_type_name c = ''bool'' then Boolean else Int64),
     cs_nullable = (cf_nullable c \<noteq> Some False),
     cs_kind = (case (cf_default c, cf_materialized c, cf_alias c) of
         (Some e, _, _) \<Rightarrow> Default e | (None, Some e, _) \<Rightarrow> Materialized e | (None, None, Some e) \<Rightarrow> Alias e | (None, None, None) \<Rightarrow> Stored),
     cs_ukiel_type = cf_type_name c, cs_bloom = False\<rparr>"

lemma parse_column:
  "parse_field (column_json c) = Inr s \<longleftrightarrow> valid_column c \<and> s = column_spec_of c"
proof -
  have t: "parse_type (cf_type_name c) = Inr d \<longleftrightarrow>
      cf_type_name c \<in> {''int64'', ''timestamp_ms'', ''float64'', ''utf8'', ''bool''} \<and>
      d = (if cf_type_name c = ''float64'' then Float64 else if cf_type_name c = ''utf8'' then Utf8
        else if cf_type_name c = ''bool'' then Boolean else Int64)" for d
    by (auto simp: parse_type_def)
  have k: "parse_kind (cf_name c) (column_json c) = Inr k \<longleftrightarrow>
      length (filter (\<lambda>e. e \<noteq> None) [cf_default c, cf_materialized c, cf_alias c]) \<le> 1 \<and> k = cs_kind (column_spec_of c)" for k
    by (cases "cf_default c"; cases "cf_materialized c"; cases "cf_alias c")
      (auto simp: parse_kind_def get_str_def column_json_get column_spec_of_def)
  have n: "(case get_bool (column_json c) ''nullable'' of None \<Rightarrow> True | Some b \<Rightarrow> b) = (cf_nullable c \<noteq> Some False)"
    by (cases "cf_nullable c") (auto simp: get_bool_def column_json_get)
  have "parse_field (column_json c) = rbind (parse_type (cf_type_name c)) (\<lambda>d. rbind (parse_kind (cf_name c) (column_json c)) (\<lambda>k.
      Inr \<lparr>cs_name = cf_name c, cs_type = d, cs_nullable = (cf_nullable c \<noteq> Some False), cs_kind = k,
        cs_ukiel_type = cf_type_name c, cs_bloom = False\<rparr>))"
    unfolding parse_field_def n by (simp add: get_str_def get_bool_def column_json_get rbind_def ok_or_def)
  then show ?thesis by (auto simp: rbind_eq_Inr_iff t k valid_column_def) (auto simp: column_spec_of_def)
qed

section \<open>Properties\<close>

text \<open>C40: the schema of a configured table round trips. The JSON made from a \<open>[[tables]]\<close> entry parses
  exactly when every column has a known type and at most one of \<open>default\<close>, \<open>materialized\<close> and \<open>alias\<close>,
  and then to the columns of the entry, in order, nullable unless the entry says otherwise.\<close>

theorem schema_json_roundtrip:
  "parse (schema_json t) = Inr specs \<longleftrightarrow>
     list_all valid_column (tb_columns t) \<and> specs = map column_spec_of (tb_columns t)"
proof -
  have "parse_fields (map column_json cs) = Inr ss \<longleftrightarrow> list_all valid_column cs \<and> ss = map column_spec_of cs" for cs ss
    by (induction cs arbitrary: ss) (auto simp: rbind_eq_Inr_iff parse_column)
  then show ?thesis by (simp add: parse_def schema_json_def rbind_def ok_or_def)
qed

text \<open>A validated configuration starts its workers. Whatever passes \<open>validate\<close> is accepted where it is
  used: the view worker has pipelines when its role is on and no execution refuses its limits, the
  pool accepts the lock timeout, a lease outlives three renewals (unless the product overflows), and
  with both roles in one process no statement outlives the collector's grace (unless that is a NaN).\<close>

lemma validated_config_accepted:
  assumes "validate cfg = Inr ()"
  shows "(MvRole \<in> set (uc_roles cfg) \<longrightarrow> mc_pipelines (worker_config (uc_mv cfg)) \<noteq> []) \<and>
    mc_poll_interval_ms (worker_config (uc_mv cfg)) \<noteq> 0 \<and>
    context_of I name s input (mc_limits (worker_config (uc_mv cfg))) \<noteq> Inl InvalidLimits \<and>
    connect_options bad_url (pool_config (uc_catalog cfg)) url \<noteq> Inl (InvalidLockTimeout m) \<and>
    (co_lease_renew_interval_secs (uc_compactor cfg) * 3 < 2 ^ 64 \<longrightarrow>
      0 < co_lease_renew_interval_secs (uc_compactor cfg) \<and>
      3 * co_lease_renew_interval_secs (uc_compactor cfg) \<le> co_lease_ttl_secs (uc_compactor cfg)) \<and>
    (QueryRole \<in> set (uc_roles cfg) \<and> GcRole \<in> set (uc_roles cfg) \<and> gs_tombstone_grace_secs (uc_gc cfg) = Fin grace \<longrightarrow>
      fl (of_nat (qc_statement_timeout_secs (uc_query cfg))) < grace)"
proof -
  let ?cat = "uc_catalog cfg" and ?m = "uc_mv cfg" and ?c = "uc_compactor cfg"
  from assms have v: "MvRole \<in> set (uc_roles cfg) \<longrightarrow> ms_pipelines ?m \<noteq> []" "ms_poll_interval_ms ?m \<noteq> 0"
      "0 \<notin> {ms_input_bytes ?m, ms_output_bytes ?m, ms_output_rows ?m, ms_operator_memory_bytes ?m}"
    and g: "QueryRole \<in> set (uc_roles cfg) \<and> GcRole \<in> set (uc_roles cfg) \<longrightarrow>
      \<not> f64_le (gs_tombstone_grace_secs (uc_gc cfg)) (f64_of_u64 (qc_statement_timeout_secs (uc_query cfg)))"
    and l: "0 < co_lease_renew_interval_secs ?c" "u64_mul (co_lease_renew_interval_secs ?c) 3 \<le> co_lease_ttl_secs ?c"
    and k: "validate_catalog ?cat = Inr ()"
    by (auto simp: validate_def Let_def split: if_splits)
  from k have "cg_lock_timeout_ms ?cat \<noteq> 0" "cg_lock_timeout_ms ?cat \<le> 2 ^ 31 - 1"
    by (auto simp: validate_catalog_def split: if_splits option.splits)
  then have "connect_options bad_url (pool_config ?cat) url \<noteq> Inl (InvalidLockTimeout m)"
    by (auto simp: connect_options_def pool_config_def from_millis_def split: option.splits)
  moreover have "context_of I name s input (mc_limits (worker_config ?m)) \<noteq> Inl InvalidLimits"
    using v(3) by (cases "pl_session I name s input (mc_limits (worker_config ?m))") (auto simp: context_of_def worker_config_def)
  moreover have "3 * co_lease_renew_interval_secs ?c \<le> co_lease_ttl_secs ?c" if "co_lease_renew_interval_secs ?c * 3 < 2 ^ 64"
    using l(2) that by (simp add: u64_mul_def)
  ultimately show ?thesis using v l(1) g by (auto simp: worker_config_def f64_of_u64_def)
qed

definition demo_config :: ukield_config where
  "demo_config = \<lparr>uc_roles = MvRole # default_roles, uc_catalog = default_catalog_config\<lparr>cg_url := ''postgres://db''\<rparr>,
     uc_object_store = \<lparr>os_kind = ''memory'', os_endpoint = [], os_bucket = ''ukiel'', os_access_key_id = [], os_secret_access_key = [],
       os_region = ''us-east-1'', os_allow_http = False\<rparr>,
     uc_query = default_query_config, uc_ingest = default_ingest_section, uc_mv = default_mv_section\<lparr>ms_pipelines := [''copy'']\<rparr>,
     uc_compactor = default_compactor_section, uc_gc = default_gc_section, uc_collector = default_collector_section,
     uc_metrics_listen = [], uc_tables = [], uc_pipelines = []\<rparr>"

lemma validated_config_accepted_witness:
  "validate demo_config = Inr () \<and> 3 * co_lease_renew_interval_secs (uc_compactor demo_config) \<le> co_lease_ttl_secs (uc_compactor demo_config)"
proof -
  have v: "validate demo_config = Inr ()" by code_simp
  have "co_lease_renew_interval_secs (uc_compactor demo_config) * 3 < 2 ^ 64" by code_simp
  with v validated_config_accepted [OF v] show ?thesis by blast
qed

end
