(* ===== verification/Health.thy ===== *)
theory Health
  imports Config
begin

text \<open>
  Role and catalog health, \<^verbatim>\<open>crates/ukield/src/health.rs\<close>. The registry is a value; every method takes the
  instant it runs at. The map of roles is the list of its entries in key order. What a handle does
  to the registry is also given as a value, an event, so that a supervisor can be described by the
  events it causes and several handles by an interleaving of theirs. The gauges are left out.
\<close>

section \<open>Definitions\<close>

datatype catalog_health = CatalogHealthy | CatalogUnavailable

datatype role_state = Starting | Healthy | Degraded | Reconciling | Failed | Stopped

fun state_label :: "role_state \<Rightarrow> string" where
  "state_label Starting = ''starting''"
| "state_label Healthy = ''healthy''"
| "state_label Degraded = ''degraded''"
| "state_label Reconciling = ''reconciling''"
| "state_label Failed = ''failed''"
| "state_label Stopped = ''stopped''"

fun is_terminal :: "role_state \<Rightarrow> bool" where
  "is_terminal Failed = True"
| "is_terminal Stopped = True"
| "is_terminal _ = False"

fun role_label :: "role \<Rightarrow> string" where
  "role_label IngestRole = ''ingest''"
| "role_label MvRole = ''mv''"
| "role_label QueryRole = ''query''"
| "role_label CompactorRole = ''compactor''"
| "role_label GcRole = ''gc''"

record role_snapshot =
  rs_state :: role_state
  rs_state_age_seconds :: nat
  rs_recovery_attempts :: nat
  rs_last_error_class :: "string option"

record health_snapshot =
  hs_ready :: bool
  hs_catalog :: catalog_health
  hs_catalog_last_success_seconds :: "nat option"
  hs_roles :: "(string \<times> role_snapshot) list"

record role_entry =
  re_state :: role_state
  re_since :: duration
  re_recovery_attempts :: nat
  re_last_error_class :: "catalog_error_class option"

record registry =
  hg_catalog :: catalog_health
  hg_last_success :: "duration option"
  hg_roles :: "(string \<times> role_entry) list"

fun entry_insert :: "string \<Rightarrow> role_entry \<Rightarrow> (string \<times> role_entry) list \<Rightarrow> (string \<times> role_entry) list" where
  "entry_insert k v [] = [(k, v)]"
| "entry_insert k v ((k', v') # kvs) =
     (if k < k' then (k, v) # (k', v') # kvs
      else if k = k' then (k, v) # kvs
      else (k', v') # entry_insert k v kvs)"

definition registry_new :: "duration \<Rightarrow> role list \<Rightarrow> registry" where
  "registry_new now roles = \<lparr>hg_catalog = CatalogUnavailable, hg_last_success = None,
     hg_roles = fold (\<lambda>r. entry_insert (role_label r)
       \<lparr>re_state = Starting, re_since = now, re_recovery_attempts = 0, re_last_error_class = None\<rparr>) roles []\<rparr>"

definition catalog_reachable :: "duration \<Rightarrow> registry \<Rightarrow> registry" where
  "catalog_reachable now g = g\<lparr>hg_catalog := CatalogHealthy, hg_last_success := Some now\<rparr>"

definition catalog_unavailable :: "registry \<Rightarrow> registry" where
  "catalog_unavailable g = g\<lparr>hg_catalog := CatalogUnavailable\<rparr>"

definition as_secs :: "duration \<Rightarrow> nat" where
  "as_secs d = d div 1000000000"

definition snapshot :: "duration \<Rightarrow> registry \<Rightarrow> health_snapshot" where
  "snapshot now g =
     \<lparr>hs_ready = (hg_catalog g = CatalogHealthy \<and> list_all (\<lambda>(_, e). re_state e = Healthy) (hg_roles g)),
      hs_catalog = hg_catalog g,
      hs_catalog_last_success_seconds = map_option (\<lambda>t. as_secs (now - t)) (hg_last_success g),
      hs_roles = map (\<lambda>(l, e). (l, \<lparr>rs_state = re_state e, rs_state_age_seconds = as_secs (now - re_since e),
        rs_recovery_attempts = re_recovery_attempts e, rs_last_error_class = map_option as_label (re_last_error_class e)\<rparr>)) (hg_roles g)\<rparr>"

definition transition ::
  "duration \<Rightarrow> string \<Rightarrow> role_state \<Rightarrow> catalog_error_class option \<Rightarrow> (role_entry \<Rightarrow> role_entry) \<Rightarrow> registry \<Rightarrow> registry" where
  "transition now label to class adjust g =
     g\<lparr>hg_roles := map (\<lambda>(l, e).
       (l, if l \<noteq> label \<or> is_terminal (re_state e) then e
           else let e1 = (if re_state e \<noteq> to then e\<lparr>re_since := now\<rparr> else e);
                    e2 = e1\<lparr>re_state := to\<rparr>;
                    e3 = (if class \<noteq> None then e2\<lparr>re_last_error_class := class\<rparr> else e2)
                in adjust e3)) (hg_roles g)\<rparr>"

definition role_healthy :: "duration \<Rightarrow> string \<Rightarrow> registry \<Rightarrow> registry" where
  "role_healthy now label = transition now label Healthy None (\<lambda>e. e\<lparr>re_recovery_attempts := 0\<rparr>)"

definition role_degraded :: "duration \<Rightarrow> string \<Rightarrow> catalog_error_class \<Rightarrow> registry \<Rightarrow> registry" where
  "role_degraded now label class = transition now label Degraded (Some class) (\<lambda>e. e)"

definition role_reconciling :: "duration \<Rightarrow> string \<Rightarrow> registry \<Rightarrow> registry" where
  "role_reconciling now label = transition now label Reconciling None
     (\<lambda>e. e\<lparr>re_recovery_attempts := (re_recovery_attempts e + 1) mod 2 ^ 32\<rparr>)"

definition role_failed :: "duration \<Rightarrow> string \<Rightarrow> catalog_error_class option \<Rightarrow> registry \<Rightarrow> registry" where
  "role_failed now label class = transition now label Failed class (\<lambda>e. e)"

definition role_stopped :: "duration \<Rightarrow> string \<Rightarrow> registry \<Rightarrow> registry" where
  "role_stopped now label = transition now label Stopped None (\<lambda>e. e)"

definition entry_of :: "registry \<Rightarrow> string \<Rightarrow> role_entry option" where
  "entry_of g label = map_of (hg_roles g) label"

definition handle_state :: "registry \<Rightarrow> string \<Rightarrow> role_state" where
  "handle_state g label = (case entry_of g label of Some e \<Rightarrow> re_state e | None \<Rightarrow> Stopped)"

text \<open>What a role's handle, or a probe, does to the registry.\<close>

datatype health_event =
    HealthyEv
  | DegradedEv catalog_error_class
  | ReconcilingEv
  | FailedEv "catalog_error_class option"
  | StoppedEv
  | CatalogUp
  | CatalogDown

fun apply_event :: "duration \<Rightarrow> string \<Rightarrow> health_event \<Rightarrow> registry \<Rightarrow> registry" where
  "apply_event now label HealthyEv g = role_healthy now label g"
| "apply_event now label (DegradedEv c) g = role_degraded now label c g"
| "apply_event now label ReconcilingEv g = role_reconciling now label g"
| "apply_event now label (FailedEv c) g = role_failed now label c g"
| "apply_event now label StoppedEv g = role_stopped now label g"
| "apply_event now label CatalogUp g = catalog_reachable now g"
| "apply_event now label CatalogDown g = catalog_unavailable g"

text \<open>One step of a process: some handle, at some instant, causes some event.\<close>

inductive health_step :: "string \<Rightarrow> health_event \<Rightarrow> registry \<Rightarrow> registry \<Rightarrow> bool" where
  health_step: "health_step label ev g (apply_event now label ev g)"

inductive_cases health_step_cases: "health_step label ev g g'"

text \<open>A run of a process: the events of all handles, in the order they happen.\<close>

inductive health_run :: "(string \<times> health_event) list \<Rightarrow> registry \<Rightarrow> registry \<Rightarrow> bool" where
  run_nil: "health_run [] g g"
| run_step: "health_step label ev g g1 \<Longrightarrow> health_run evs g1 g2 \<Longrightarrow> health_run ((label, ev) # evs) g g2"

inductive_cases health_run_cases: "health_run [] g g'" "health_run (x # evs) g g'"

section \<open>Lemmas\<close>

text \<open>Where an event leaves the role of its handle.\<close>

fun state_after :: "health_event \<Rightarrow> role_state \<Rightarrow> role_state" where
  "state_after HealthyEv s = (if is_terminal s then s else Healthy)"
| "state_after (DegradedEv c) s = (if is_terminal s then s else Degraded)"
| "state_after ReconcilingEv s = (if is_terminal s then s else Reconciling)"
| "state_after (FailedEv c) s = (if is_terminal s then s else Failed)"
| "state_after StoppedEv s = (if is_terminal s then s else Stopped)"
| "state_after _ s = s"

lemma map_of_map_key: "map_of (map (\<lambda>(l, e). (l, f l e)) xs) k = map_option (f k) (map_of xs k)"
  by (induction xs) auto

lemma entry_transition:
  "entry_of (transition now label to class adjust g) l =
     map_option (\<lambda>e. if l \<noteq> label \<or> is_terminal (re_state e) then e
       else adjust ((if re_state e \<noteq> to then e\<lparr>re_since := now\<rparr> else e)
         \<lparr>re_state := to, re_last_error_class := (if class \<noteq> None then class else re_last_error_class e)\<rparr>)) (entry_of g l)"
  by (cases "map_of (hg_roles g) l") (auto simp: entry_of_def transition_def map_of_map_key Let_def)

lemmas handle_defs = role_healthy_def role_degraded_def role_reconciling_def role_failed_def role_stopped_def
  catalog_reachable_def catalog_unavailable_def

lemma entry_event_other: "l \<noteq> label \<Longrightarrow> entry_of (apply_event now label ev g) l = entry_of g l"
  by (cases ev) (auto simp: handle_defs entry_transition option.map_ident entry_of_def [of "_\<lparr>hg_catalog := _\<rparr>"]
    entry_of_def [of "_\<lparr>hg_catalog := _, hg_last_success := _\<rparr>"] entry_of_def [symmetric])

lemma entry_event_terminal:
  "entry_of g l = Some e \<Longrightarrow> is_terminal (re_state e) \<Longrightarrow> entry_of (apply_event now label ev g) l = Some e"
  by (cases ev) (simp_all add: handle_defs entry_transition, simp_all add: entry_of_def)

lemma state_event:
  "map_option re_state (entry_of (apply_event now label ev g) label) = map_option (\<lambda>e. state_after ev (re_state e)) (entry_of g label)"
  by (cases ev; cases "entry_of g label") (simp_all add: handle_defs entry_transition, simp_all add: entry_of_def)

text \<open>A role's state after a run depends on its own events only.\<close>

definition own_events :: "string \<Rightarrow> (string \<times> health_event) list \<Rightarrow> health_event list" where
  "own_events label evs = map snd (filter (\<lambda>(l, _). l = label) evs)"

lemma run_state:
  assumes "health_run evs g g'"
  shows "map_option re_state (entry_of g' label) = map_option (\<lambda>e. fold state_after (own_events label evs) (re_state e)) (entry_of g label)"
  using assms
proof (induction rule: health_run.induct)
  case (run_step l ev g g1 evs g2)
  from run_step.hyps(1) obtain now where g1: "g1 = apply_event now l ev g" by (rule health_step_cases)
  show ?case
  proof (cases "l = label")
    case True
    then have "map_option re_state (entry_of g1 label) = map_option (\<lambda>e. state_after ev (re_state e)) (entry_of g label)"
      using state_event by (simp add: g1)
    with run_step.IH True show ?thesis
      by (cases "entry_of g label"; cases "entry_of g1 label") (simp_all add: own_events_def)
  next
    case False
    with run_step.IH show ?thesis by (simp add: g1 entry_event_other own_events_def)
  qed
qed (simp add: own_events_def)
lemma entry_insert_of: "map_of (entry_insert k v kvs) l = (if l = k then Some v else map_of kvs l)"
  by (induction k v kvs rule: entry_insert.induct) auto

lemma registry_new_entry:
  assumes "r \<in> set roles"
  shows "entry_of (registry_new now roles) (role_label r) =
    Some \<lparr>re_state = Starting, re_since = now, re_recovery_attempts = 0, re_last_error_class = None\<rparr>"
proof -
  let ?e = "\<lparr>re_state = Starting, re_since = now, re_recovery_attempts = 0, re_last_error_class = None\<rparr>"
  have "map_of (fold (\<lambda>r. entry_insert (role_label r) ?e) rs kvs) l = Some ?e"
    if "l \<in> role_label ` set rs \<or> map_of kvs l = Some ?e" for rs kvs l
    using that by (induction rs arbitrary: kvs) (auto simp: entry_insert_of)
  with assms show ?thesis by (simp add: entry_of_def registry_new_def)
qed

lemma run_catalog: "health_run evs g g' \<Longrightarrow>
  hg_catalog g' = fold (\<lambda>(_, ev) c. case ev of CatalogUp \<Rightarrow> CatalogHealthy | CatalogDown \<Rightarrow> CatalogUnavailable | _ \<Rightarrow> c) evs (hg_catalog g)"
proof (induction rule: health_run.induct)
  case (run_step l ev g g1 evs g2)
  from run_step.hyps(1) obtain now where "g1 = apply_event now l ev g" by (rule health_step_cases)
  then have "hg_catalog g1 = (case ev of CatalogUp \<Rightarrow> CatalogHealthy | CatalogDown \<Rightarrow> CatalogUnavailable | _ \<Rightarrow> hg_catalog g)"
    by (cases ev) (simp_all add: handle_defs transition_def)
  with run_step.IH show ?case by simp
qed simp

lemma run_terminal:
  "health_run evs g g' \<Longrightarrow> entry_of g l = Some e \<Longrightarrow> is_terminal (re_state e) \<Longrightarrow> entry_of g' l = Some e"
proof (induction rule: health_run.induct)
  case (run_step l' ev g g1 evs g2)
  from run_step.hyps(1) obtain now where "g1 = apply_event now l' ev g" by (rule health_step_cases)
  with run_step.IH run_step.prems entry_event_terminal show ?case by simp
qed

text \<open>The state a role reports with a run of its own events.\<close>

definition reported :: "health_event list \<Rightarrow> role_state" where
  "reported evs = fold state_after evs Starting"

section \<open>Properties\<close>

text \<open>C16: readiness is earned, and an end is final. A process that starts with some roles and whose handles
  act in any order reports \<open>ready\<close> only if the last thing learned of the catalog is that it answered, and
  each configured role, by its own handle and not by a probe or another role, ended up healthy. And
  an entry that is \<open>Failed\<close> or \<open>Stopped\<close> at any moment stays exactly as it is.\<close>

theorem readiness_is_earned:
  assumes "health_run evs (registry_new now roles) g" "health_run evs' g g'"
  shows "(hs_ready (snapshot later g) \<longrightarrow>
      (\<forall>r \<in> set roles. reported (own_events (role_label r) evs) = Healthy) \<and>
      (\<exists>pre label post. evs = pre @ (label, CatalogUp) # post \<and> (\<forall>x \<in> set post. snd x \<noteq> CatalogDown))) \<and>
    (\<forall>label e. entry_of g label = Some e \<and> is_terminal (re_state e) \<longrightarrow> entry_of g' label = Some e)"
proof (intro conjI impI allI ballI, goal_cases)
  case (1 r)
  have "map_option re_state (entry_of g (role_label r)) = Some (reported (own_events (role_label r) evs))"
    using run_state [OF assms(1), of "role_label r"] registry_new_entry [OF 1(2), of now] by (simp add: reported_def)
  then obtain e where e: "map_of (hg_roles g) (role_label r) = Some e" "re_state e = reported (own_events (role_label r) evs)"
    by (auto simp: entry_of_def)
  with 1(1) map_of_SomeD [OF e(1)] show ?case by (auto simp: snapshot_def list_all_iff)
next
  case 2
  let ?step = "\<lambda>(_, ev) c. case ev of CatalogUp \<Rightarrow> CatalogHealthy | CatalogDown \<Rightarrow> CatalogUnavailable | _ \<Rightarrow> c"
  have "\<exists>pre label post. xs = pre @ (label, CatalogUp) # post \<and> (\<forall>x \<in> set post. snd x \<noteq> CatalogDown)"
    if "fold ?step xs CatalogUnavailable = CatalogHealthy" for xs :: "(string \<times> health_event) list"
    using that
  proof (induction xs rule: rev_induct)
    case (snoc x xs)
    obtain l ev where x: "x = (l, ev)" by (cases x)
    show ?case
    proof (cases "ev = CatalogUp")
      case True
      then show ?thesis by (intro exI [of _ xs] exI [of _ l] exI [of _ "[]"]) (simp add: x)
    next
      case False
      with snoc.prems have "ev \<noteq> CatalogDown" "fold ?step xs CatalogUnavailable = CatalogHealthy"
        by (cases ev; simp add: x)+
      with snoc.IH obtain pre l' post where "xs = pre @ (l', CatalogUp) # post" "\<forall>x \<in> set post. snd x \<noteq> CatalogDown" by blast
      with \<open>ev \<noteq> CatalogDown\<close> show ?thesis by (intro exI [of _ pre] exI [of _ l'] exI [of _ "post @ [x]"]) (auto simp: x)
    qed
  qed simp
  moreover have "hg_catalog g = CatalogHealthy" using 2 by (simp add: snapshot_def)
  ultimately show ?case using run_catalog [OF assms(1)] by (simp add: registry_new_def)
next
  case (3 label e)
  with run_terminal [OF assms(2)] show ?case by blast
qed

text \<open>C16: a query and a collector role, both up.\<close>

theorem readiness_is_earned_witness:
  "\<exists>g. health_run [(''query'', CatalogUp), (''gc'', HealthyEv), (''query'', HealthyEv), (''gc'', StoppedEv)] (registry_new 0 [QueryRole, GcRole]) g \<and>
     (\<exists>e. entry_of g ''gc'' = Some e \<and> re_state e = Stopped) \<and>
     hs_ready (snapshot 9 (apply_event 3 ''query'' HealthyEv (apply_event 2 ''gc'' HealthyEv (apply_event 1 ''query'' CatalogUp (registry_new 0 [QueryRole, GcRole]))))) \<and>
     reported (own_events ''gc'' [(''query'', CatalogUp), (''gc'', HealthyEv), (''query'', HealthyEv)]) = Healthy"
proof -
  let ?g3 = "apply_event 3 ''query'' HealthyEv (apply_event 2 ''gc'' HealthyEv (apply_event 1 ''query'' CatalogUp (registry_new 0 [QueryRole, GcRole])))"
  let ?evs = "[(''query'', CatalogUp), (''gc'', HealthyEv), (''query'', HealthyEv)]"
  have step: "health_run ((l, ev) # evs) g g'" if "health_run evs (apply_event now l ev g) g'" for l ev evs g g' now
    using that by (intro health_run.intros(2) [OF health_step.intros])
  have nil: "health_run [] g g" for g by (rule health_run.intros(1))
  have r: "health_run ?evs (registry_new 0 [QueryRole, GcRole]) ?g3" by (rule step, rule step, rule step, rule nil)
  have s: "health_run [(''gc'', StoppedEv)] ?g3 (apply_event 4 ''gc'' StoppedEv ?g3)" by (rule step, rule nil)
  have ready: "hs_ready (snapshot 9 ?g3)" by code_simp
  have gc: "\<exists>e. entry_of (apply_event 4 ''gc'' StoppedEv ?g3) ''gc'' = Some e \<and> re_state e = Stopped"
    by (rule exI [of _ "the (entry_of (apply_event 4 ''gc'' StoppedEv ?g3) ''gc'')"]) code_simp
  have "reported (own_events (role_label GcRole) ?evs) = Healthy"
    using readiness_is_earned [OF r s, of 9] ready by (simp del: role_label.simps)
  moreover have "health_run (?evs @ [(''gc'', StoppedEv)]) (registry_new 0 [QueryRole, GcRole]) (apply_event 4 ''gc'' StoppedEv ?g3)"
    unfolding append_Cons append_Nil by (rule step, rule step, rule step, rule step, rule nil)
  ultimately show ?thesis using ready gc by auto
qed

end
