(* ===== verification/Recovery.thy ===== *)
theory Recovery
  imports Health Publish
begin

text \<open>
  Waiting out a catalog outage, \<^verbatim>\<open>crates/ukield/src/recovery.rs\<close>: the backoff schedule with its
  deterministic jitter, at the width and precision of the code, and the probe loop. A delay is
  \<open>None\<close> where \<open>Duration::mul_f64\<close> would panic; that never happens for a validated configuration.
  What the waiting code does to the world comes with the list of what it did besides: health
  events, sleeps, attempts, answers. The loop is bounded by a budget; running out of it is the
  outcome \<open>StillRunning\<close>, so that statements about every outcome cover every moment of the loop.
\<close>

section \<open>Definitions\<close>

record recovery_policy =
  rp_base :: duration
  rp_max :: duration
  rp_jitter_ratio :: f64
  rp_probe_timeout :: duration
  rp_seed :: "64 word"

definition policy_from_config :: "catalog_config \<Rightarrow> 64 word \<Rightarrow> recovery_policy" where
  "policy_from_config cfg seed = \<lparr>rp_base = from_millis (cg_retry_base_ms cfg), rp_max = from_millis (cg_retry_max_ms cfg),
     rp_jitter_ratio = cg_retry_jitter_ratio cfg, rp_probe_timeout = from_millis (cg_recovery_probe_timeout_ms cfg), rp_seed = seed\<rparr>"

record backoff =
  bo_policy :: recovery_policy
  bo_attempt :: nat

definition policy_backoff :: "recovery_policy \<Rightarrow> backoff" where
  "policy_backoff p = \<lparr>bo_policy = p, bo_attempt = 0\<rparr>"

definition backoff_reset :: "backoff \<Rightarrow> backoff" where
  "backoff_reset b = b\<lparr>bo_attempt := 0\<rparr>"

definition DURATION_MAX :: duration where
  "DURATION_MAX = 2 ^ 64 * 1000000000 - 1"

text \<open>The finalizer of SplitMix64, and the hash of an attempt.\<close>

definition splitmix :: "64 word \<Rightarrow> 64 word" where
  "splitmix x = (let x1 = (x XOR drop_bit 30 x) * 0xBF58476D1CE4E5B9; x2 = (x1 XOR drop_bit 27 x1) * 0x94D049BB133111EB
     in x2 XOR drop_bit 31 x2)"

definition jitter_hash :: "64 word \<Rightarrow> nat \<Rightarrow> 64 word" where
  "jitter_hash seed attempt = splitmix (seed XOR (of_nat attempt * 0x9E3779B97F4A7C15))"

text \<open>\<open>(x as f64 / u64::MAX as f64) * 2.0 - 1.0\<close>\<close>

definition jitter_unit :: "64 word \<Rightarrow> rat" where
  "jitter_unit x = fl (fl (fl (fl (of_nat (unat x)) / fl (2 ^ 64 - 1)) * 2) - 1)"

text \<open>\<open>ratio.min(1.0)\<close>; the minimum of a NaN and a number is the number.\<close>

fun min_one :: "f64 \<Rightarrow> rat" where
  "min_one (Fin r) = min r 1"
| "min_one _ = 1"

definition jitter_factor :: "64 word \<Rightarrow> f64 \<Rightarrow> rat" where
  "jitter_factor x ratio = max (fl (1 + fl (jitter_unit x * min_one ratio))) 0"

definition as_secs_f64 :: "duration \<Rightarrow> rat" where
  "as_secs_f64 d = fl (fl (of_nat (d div 1000000000)) + fl (fl (of_nat (d mod 1000000000)) / 1000000000))"

definition from_secs_f64 :: "rat \<Rightarrow> duration option" where
  "from_secs_f64 x = (let ns = round_half_even (x * 1000000000) in
     if x < 0 \<or> ns > int DURATION_MAX then None else Some (nat ns))"

definition mul_f64 :: "duration \<Rightarrow> rat \<Rightarrow> duration option" where
  "mul_f64 d f = from_secs_f64 (fl (f * as_secs_f64 d))"

definition jitter :: "duration \<Rightarrow> f64 \<Rightarrow> 64 word \<Rightarrow> nat \<Rightarrow> duration option" where
  "jitter delay ratio seed attempt =
     (if f64_le ratio (Fin 0) \<or> delay = 0 then Some delay
      else mul_f64 delay (jitter_factor (jitter_hash seed attempt) ratio))"

definition capped_delay :: "backoff \<Rightarrow> duration" where
  "capped_delay b = min (min (rp_base (bo_policy b) * 2 ^ min (bo_attempt b) 31) DURATION_MAX) (rp_max (bo_policy b))"

definition next_delay :: "backoff \<Rightarrow> (duration \<times> backoff) option" where
  "next_delay b =
     (let b' = b\<lparr>bo_attempt := min (bo_attempt b + 1) (2 ^ 32 - 1)\<rparr> in
      map_option (\<lambda>d. (d, b')) (jitter (capped_delay b) (rp_jitter_ratio (bo_policy b)) (rp_seed (bo_policy b)) (bo_attempt b')))"

text \<open>The supervised process.\<close>

datatype sup_event =
    Health health_event
  | Slept duration
  | AttemptStarted nat
  | AttemptFailed "operation_identity option"
  | LookedUp operation_identity operation_lookup

datatype 'e halt = StillRunning | ProcessGone drop_cause | Panicked | ShutDown | Fails 'e

type_synonym ('f, 'e, 'a) sup = "'f world \<Rightarrow> 'f world \<times> sup_event list \<times> ('e halt, 'a) result"

definition sup_return :: "'a \<Rightarrow> ('f, 'e, 'a) sup" where
  "sup_return x = (\<lambda>w. (w, [], Inr x))"

definition sup_halt :: "'e halt \<Rightarrow> ('f, 'e, 'a) sup" where
  "sup_halt h = (\<lambda>w. (w, [], Inl h))"

definition sup_emit :: "sup_event list \<Rightarrow> ('f, 'e, unit) sup" where
  "sup_emit evs = (\<lambda>w. (w, evs, Inr ()))"

definition sup_bind :: "('f, 'e, 'a) sup \<Rightarrow> ('a \<Rightarrow> ('f, 'e, 'b) sup) \<Rightarrow> ('f, 'e, 'b) sup" where
  "sup_bind m f = (\<lambda>w. case m w of
       (w1, t1, Inl h) \<Rightarrow> (w1, t1, Inl h)
     | (w1, t1, Inr x) \<Rightarrow> (case f x w1 of (w2, t2, r) \<Rightarrow> (w2, t1 @ t2, r)))"

text \<open>A call whose error the caller looks at.\<close>

definition sup_call :: "('f, 'd, 'a) act \<Rightarrow> ('f, 'e, ('d, 'a) result) sup" where
  "sup_call m = (\<lambda>w. case m w of
       (w1, Inl (Dropped d)) \<Rightarrow> (w1, [], Inl (ProcessGone d))
     | (w1, Inl (Raised e)) \<Rightarrow> (w1, [], Inr (Inl e))
     | (w1, Inr x) \<Rightarrow> (w1, [], Inr (Inr x)))"

text \<open>Whether the token is cancelled, and whether a probe that answers has overrun its timeout,
  when the call of that number is due.\<close>

record sup_env =
  sv_cancelled :: "nat \<Rightarrow> bool"
  sv_late :: "nat \<Rightarrow> bool"

definition probe_catalog :: "'f wenv \<Rightarrow> sup_env \<Rightarrow> ('f, 'e, bool) sup" where
  "probe_catalog we sv = (\<lambda>w. sup_bind (sup_call (act_call we id ping)) (\<lambda>r.
     sup_return (case r of Inr _ \<Rightarrow> \<not> sv_late sv (w_tick w) | Inl _ \<Rightarrow> False)) w)"

fun wait_loop :: "'f wenv \<Rightarrow> sup_env \<Rightarrow> nat \<Rightarrow> backoff \<Rightarrow> ('f, 'e, unit) sup" where
  "wait_loop we sv 0 b = sup_halt StillRunning"
| "wait_loop we sv (Suc n) b = (\<lambda>w.
     if sv_cancelled sv (w_tick w) then sup_halt ShutDown w
     else sup_bind (probe_catalog we sv) (\<lambda>ok.
       if ok then sup_emit [Health CatalogUp]
       else sup_bind (sup_emit [Health CatalogDown]) (\<lambda>_.
         case next_delay b of
           None \<Rightarrow> sup_halt Panicked
         | Some (d, b') \<Rightarrow> (\<lambda>w1.
             if sv_cancelled sv (w_tick w1) then sup_halt ShutDown w1
             else sup_bind (sup_emit [Slept d]) (\<lambda>_. wait_loop we sv n b') w1))) w)"

definition wait_for_catalog :: "'f wenv \<Rightarrow> sup_env \<Rightarrow> recovery_policy \<Rightarrow> nat \<Rightarrow> ('f, 'e, unit) sup" where
  "wait_for_catalog we sv policy n = wait_loop we sv n (policy_backoff policy)"

section \<open>The jitter stays in its band\<close>

lemma fl_2 [simp]: "fl 2 = 2"
  using fl_powi [of 1] by simp

lemma fl_pow: "fl (2 ^ n) = 2 ^ n"
  using fl_powi [of "int n"] by simp

lemma jitter_unit_bounds: "- 1 \<le> jitter_unit x" "jitter_unit x \<le> 1"
proof -
  let ?M = "fl (2 ^ 64 - 1 :: rat)"
  have M: "0 < ?M" using fl_mono [of 1 "2 ^ 64 - 1"] by simp
  define q where "q = fl (of_nat (unat x))"
  have "unat x < 2 ^ 64" using unsigned_less [of x] by simp
  then have "unat x \<le> 2 ^ 64 - 1" by simp
  then have "(of_nat (unat x) :: rat) \<le> of_nat (2 ^ 64 - 1)" by (rule of_nat_mono)
  then have "q \<le> ?M" unfolding q_def by (intro fl_mono) (simp add: of_nat_diff)
  moreover have "0 \<le> q" unfolding q_def by (rule fl_ge_0) (rule of_nat_0_le_iff)
  ultimately have "0 \<le> fl (q / ?M)" "fl (q / ?M) \<le> fl 1" using M by (intro fl_ge_0 fl_mono; simp)+
  then have "0 \<le> fl (fl (q / ?M) * 2)" "fl (fl (q / ?M) * 2) \<le> fl 2" by (intro fl_ge_0 fl_mono; simp)+
  then have "fl (- 1) \<le> fl (fl (fl (q / ?M) * 2) - 1)" "fl (fl (fl (q / ?M) * 2) - 1) \<le> fl 1" by (intro fl_mono; simp)+
  then show "- 1 \<le> jitter_unit x" "jitter_unit x \<le> 1" unfolding jitter_unit_def q_def [symmetric] by (simp_all add: fl_minus)
qed

lemma jitter_factor_bounds:
  assumes "0 \<le> r" "r \<le> 1" "fl r = r"
  shows "0 \<le> fl (1 - r)" "fl (1 - r) \<le> jitter_factor x (Fin r)" "jitter_factor x (Fin r) \<le> fl (1 + r)" "fl (1 + r) \<le> 2"
proof -
  let ?v = "jitter_unit x * r"
  have "- r \<le> ?v" "?v \<le> r"
    using mult_right_mono [OF jitter_unit_bounds(1) assms(1), of x] mult_right_mono [OF jitter_unit_bounds(2) assms(1), of x] by simp_all
  then have "- r \<le> fl ?v" "fl ?v \<le> r" using fl_mono [of "- r" ?v] fl_mono [of ?v r] fl_minus [of r] assms(3) by simp_all
  then have "fl (1 - r) \<le> fl (1 + fl ?v)" "fl (1 + fl ?v) \<le> fl (1 + r)" by (intro fl_mono; simp)+
  moreover show "0 \<le> fl (1 - r)" using assms(2) by (intro fl_ge_0) simp
  moreover have "0 \<le> fl (1 + r)" using assms(1) by (intro fl_ge_0) simp
  moreover have "min r 1 = r" using assms(2) by simp
  ultimately show "fl (1 - r) \<le> jitter_factor x (Fin r)" "jitter_factor x (Fin r) \<le> fl (1 + r)"
    by (simp_all add: jitter_factor_def)
  show "fl (1 + r) \<le> 2" using fl_mono [of "1 + r" 2] assms(2) by simp
qed

lemma as_secs_f64_bounds:
  assumes "d < 2 ^ 55 * 1000000000"
  shows "0 \<le> as_secs_f64 d" "as_secs_f64 d \<le> 2 ^ 56"
proof -
  have "d div 1000000000 < 2 ^ 55" using assms by (simp add: less_mult_imp_div_less)
  then have "(of_nat (d div 1000000000) :: rat) \<le> of_nat (2 ^ 55)" by (intro of_nat_mono) simp
  then have s: "fl (of_nat (d div 1000000000)) \<le> 2 ^ 55" using fl_mono [of _ "2 ^ 55"] fl_pow [of 55] by simp
  have "(of_nat (d mod 1000000000) :: rat) \<le> of_nat (2 ^ 30)" by (intro of_nat_mono) (rule order_trans [OF mod_le_divisor], simp_all)
  then have "fl (of_nat (d mod 1000000000)) \<le> 2 ^ 30" using fl_mono [of _ "2 ^ 30"] fl_pow [of 30] by simp
  then have "fl (of_nat (d mod 1000000000)) / 1000000000 \<le> 2" by simp
  then have n: "fl (fl (of_nat (d mod 1000000000)) / 1000000000) \<le> 2" using fl_mono [of _ 2] by simp
  from s n have "fl (of_nat (d div 1000000000)) + fl (fl (of_nat (d mod 1000000000)) / 1000000000) \<le> 2 ^ 56" by simp
  then show "as_secs_f64 d \<le> 2 ^ 56" unfolding as_secs_f64_def using fl_mono [of _ "2 ^ 56"] fl_pow [of 56] by simp
  show "0 \<le> as_secs_f64 d" unfolding as_secs_f64_def by (intro fl_ge_0 add_nonneg_nonneg divide_nonneg_nonneg) simp_all
qed

text \<open>\<open>scaled f d\<close>: the nanoseconds of \<open>d\<close> times \<open>f\<close>, as the multiplication rounds it.\<close>

definition scaled :: "rat \<Rightarrow> duration \<Rightarrow> int" where
  "scaled f d = round_half_even (fl (f * as_secs_f64 d) * 1000000000)"

lemma scaled_mono: "0 \<le> as_secs_f64 d \<Longrightarrow> f \<le> g \<Longrightarrow> scaled f d \<le> scaled g d"
  unfolding scaled_def by (intro round_half_even_mono mult_right_mono fl_mono) simp_all

lemma mul_f64_bounded:
  assumes d: "d < 2 ^ 55 * 1000000000" and f: "0 \<le> f" "f \<le> 2"
  shows "mul_f64 d f = Some (nat (scaled f d)) \<and> 0 \<le> scaled f d"
proof -
  note s = as_secs_f64_bounds [OF d]
  have p: "0 \<le> fl (f * as_secs_f64 d)" using f s by (intro fl_ge_0) simp
  have "f * as_secs_f64 d \<le> 2 * 2 ^ 56" using f s by (intro mult_mono) simp_all
  then have "fl (f * as_secs_f64 d) \<le> 2 ^ 57" using fl_mono [of _ "2 ^ 57"] fl_pow [of 57] by simp
  then have "fl (f * as_secs_f64 d) * 1000000000 \<le> of_int (2 ^ 57 * 1000000000)" by simp
  then have "scaled f d \<le> 2 ^ 57 * 1000000000" unfolding scaled_def by (rule round_half_even_le)
  moreover have "0 \<le> scaled f d" unfolding scaled_def using p by (intro round_half_even_ge) simp
  ultimately show ?thesis using p by (simp add: mul_f64_def from_secs_f64_def Let_def scaled_def [symmetric] DURATION_MAX_def)
qed

text \<open>A policy that a validated configuration gives.\<close>

definition policy_ok :: "recovery_policy \<Rightarrow> rat \<Rightarrow> bool" where
  "policy_ok p r \<longleftrightarrow> rp_jitter_ratio p = Fin r \<and> 0 \<le> r \<and> r \<le> 1 \<and> fl r = r \<and> 0 < rp_base p \<and> rp_base p \<le> rp_max p \<and>
     rp_max p < 2 ^ 55 * 1000000000"

lemma validated_policy:
  assumes "validate_catalog cfg = Inr ()" "cg_retry_max_ms cfg < 2 ^ 64" "\<And>r. cg_retry_jitter_ratio cfg = Fin r \<Longrightarrow> fl r = r"
  shows "\<exists>r. policy_ok (policy_from_config cfg seed) r"
proof -
  have z: "find (\<lambda>(_, v). v = 0) xs = None \<Longrightarrow> x \<in> set xs \<Longrightarrow> snd x \<noteq> 0" for xs and x :: "string \<times> nat"
    by (induction xs) (auto split: if_splits)
  from assms(1) have v: "cg_retry_base_ms cfg \<noteq> 0" "cg_retry_base_ms cfg \<le> cg_retry_max_ms cfg"
      "f64_le (Fin 0) (cg_retry_jitter_ratio cfg)" "f64_le (cg_retry_jitter_ratio cfg) (Fin 1)"
    by (auto simp: validate_catalog_def Let_def split: if_splits option.splits)
  then obtain r where r: "cg_retry_jitter_ratio cfg = Fin r" "0 \<le> r" "r \<le> 1" by (cases "cg_retry_jitter_ratio cfg") auto
  have "from_millis (cg_retry_max_ms cfg) < 2 ^ 55 * 1000000000" using assms(2) by (simp add: from_millis_def)
  with v r assms(3) [OF r(1)] show ?thesis by (intro exI [of _ r]) (auto simp: policy_ok_def policy_from_config_def from_millis_def)
qed

lemma capped_delay_bounds:
  assumes "policy_ok (bo_policy b) r"
  shows "capped_delay b = min (rp_base (bo_policy b) * 2 ^ min (bo_attempt b) 31) (rp_max (bo_policy b))"
    "0 < capped_delay b" "capped_delay b < 2 ^ 55 * 1000000000"
proof -
  have "rp_max (bo_policy b) \<le> DURATION_MAX" using assms by (simp add: policy_ok_def DURATION_MAX_def)
  then show "capped_delay b = min (rp_base (bo_policy b) * 2 ^ min (bo_attempt b) 31) (rp_max (bo_policy b))" by (simp add: capped_delay_def)
  then show "0 < capped_delay b" "capped_delay b < 2 ^ 55 * 1000000000" using assms by (auto simp: policy_ok_def)
qed

text \<open>The band of a delay: exact without jitter, and otherwise between the ideal delay times
  \<open>1 - r\<close> and times \<open>1 + r\<close>, as double arithmetic rounds them.\<close>

definition in_band :: "rat \<Rightarrow> duration \<Rightarrow> duration \<Rightarrow> bool" where
  "in_band r ideal d \<longleftrightarrow> (if r = 0 then d = ideal else scaled (fl (1 - r)) ideal \<le> int d \<and> int d \<le> scaled (fl (1 + r)) ideal)"

lemma next_delay_band:
  assumes "policy_ok (bo_policy b) r"
  shows "\<exists>d. next_delay b = Some (d, b\<lparr>bo_attempt := min (bo_attempt b + 1) (2 ^ 32 - 1)\<rparr>) \<and> in_band r (capped_delay b) d"
proof -
  note p = assms [unfolded policy_ok_def] and c = capped_delay_bounds [OF assms]
  let ?d = "capped_delay b" and ?a = "min (bo_attempt b + 1) (2 ^ 32 - 1)"
  show ?thesis
  proof (cases "r = 0")
    case True
    with p show ?thesis by (simp add: next_delay_def jitter_def in_band_def Let_def)
  next
    case False
    let ?f = "jitter_factor (jitter_hash (rp_seed (bo_policy b)) ?a) (Fin r)"
    have f: "fl (1 - r) \<le> ?f" "?f \<le> fl (1 + r)" "0 \<le> ?f" "?f \<le> 2"
      using jitter_factor_bounds [of r] p by (auto intro: order_trans)
    note m = mul_f64_bounded [OF c(3) f(3,4)] and s = as_secs_f64_bounds(1) [OF c(3)]
    have "jitter ?d (rp_jitter_ratio (bo_policy b)) (rp_seed (bo_policy b)) ?a = Some (nat (scaled ?f ?d))"
      using p False c(2) m by (simp add: jitter_def)
    moreover have "in_band r ?d (nat (scaled ?f ?d))"
      using False m scaled_mono [OF s f(1)] scaled_mono [OF s f(2)] by (simp add: in_band_def)
    ultimately show ?thesis by (simp add: next_delay_def Let_def)
  qed
qed

section \<open>The wait ends\<close>

text \<open>Nothing stops the process from call \<open>t\<close> on; a probe that answers in time.\<close>

definition uninterrupted :: "'f wenv \<Rightarrow> nat \<Rightarrow> bool" where
  "uninterrupted we t \<longleftrightarrow> (\<forall>m \<ge> t. (\<forall>x. snd (we_others we m x) = None) \<and> we_cut we m = None)"

definition answers :: "'f wenv \<Rightarrow> sup_env \<Rightarrow> nat \<Rightarrow> bool" where
  "answers we sv m \<longleftrightarrow> env_fail (we_db we m) SPing = None \<and> \<not> sv_late sv m"

lemma probe_uninterrupted:
  assumes "uninterrupted we (w_tick w)"
  shows "probe_catalog we sv w = (others_ran we w, [], Inr (answers we sv (w_tick w)))"
proof -
  have "dropped_before we w = None" "we_cut we (w_tick w) = None" using assms by (simp_all add: uninterrupted_def dropped_before_def)
  then have "act_call we id ping w = (others_ran we w, case env_fail (we_db we (w_tick w)) SPing of None \<Rightarrow> Inr () | Some (e, _) \<Rightarrow> Inl (Raised (Db e)))"
    by (cases "env_fail (we_db we (w_tick w)) SPing") (auto simp: act_call_def act_step_def ping_def query_def)
  note call = this
  show ?thesis
  proof (cases "env_fail (we_db we (w_tick w)) SPing")
    case None
    with call show ?thesis unfolding probe_catalog_def sup_bind_def sup_call_def by (simp add: sup_return_def answers_def)
  next
    case (Some x)
    with call show ?thesis unfolding probe_catalog_def sup_bind_def sup_call_def by (cases x) (simp add: sup_return_def answers_def)
  qed
qed

text \<open>The trace of a wait: a report that the catalog is down before every sleep, and at the end the
  report that it is up, or the last failed probe's report when the shutdown came in its wake.\<close>

definition wait_trace :: "nat \<Rightarrow> bool \<Rightarrow> duration list \<Rightarrow> sup_event list" where
  "wait_trace n stopped ds = concat (map (\<lambda>d. [Health CatalogDown, Slept d]) ds) @
     (if \<not> stopped then [Health CatalogUp] else if n = 0 then [] else [Health CatalogDown])"

lemma wait_trace_Cons: "wait_trace n stopped (d # ds) = Health CatalogDown # Slept d # wait_trace n stopped ds"
  by (simp add: wait_trace_def)

text \<open>The \<open>k\<close>-th sleep of a backoff lies in the band of the attempt \<open>k\<close> after the one it starts with.\<close>

definition sleeps_in_band :: "rat \<Rightarrow> recovery_policy \<Rightarrow> nat \<Rightarrow> duration list \<Rightarrow> bool" where
  "sleeps_in_band r p a ds \<longleftrightarrow> (\<forall>k < length ds. in_band r (min (rp_base p * 2 ^ min (a + k) 31) (rp_max p)) (ds ! k))"

lemma sleeps_in_band_Nil [simp]: "sleeps_in_band r p a []"
  by (simp add: sleeps_in_band_def)

lemma sleeps_in_band_Cons:
  assumes "in_band r (min (rp_base p * 2 ^ min a 31) (rp_max p)) d" "sleeps_in_band r p (Suc a) ds"
  shows "sleeps_in_band r p a (d # ds)"
  using assms by (auto simp: sleeps_in_band_def nth_Cons split: nat.split)

lemma sleeps_in_band_saturated: "sleeps_in_band r p (min (a + 1) (2 ^ 32 - 1)) ds = sleeps_in_band r p (Suc a) ds"
proof -
  have "min (min (a + 1) (2 ^ 32 - 1) + k) 31 = min (Suc a + k) 31" for k by simp
  then show ?thesis by (simp only: sleeps_in_band_def)
qed

lemma wait_loop_ends:
  fixes we :: "'f wenv"
  assumes "policy_ok (bo_policy b) r" "uninterrupted we (w_tick w)" "n < fuel"
    and "\<forall>m. w_tick w \<le> m \<and> m < w_tick w + n \<longrightarrow> \<not> sv_cancelled sv m \<and> \<not> answers we sv m"
    and "sv_cancelled sv (w_tick w + n) \<or> answers we sv (w_tick w + n)"
  shows "\<exists>w' ds. (wait_loop we sv fuel b :: ('f, 'e, unit) sup) w =
      (w', wait_trace n (sv_cancelled sv (w_tick w + n)) ds, if sv_cancelled sv (w_tick w + n) then Inl ShutDown else Inr ()) \<and>
    w_tick w' = w_tick w + (if sv_cancelled sv (w_tick w + n) then n else Suc n) \<and>
    length ds = (if sv_cancelled sv (w_tick w + n) then n - 1 else n) \<and> sleeps_in_band r (bo_policy b) (bo_attempt b) ds"
  using assms
proof (induction n arbitrary: fuel b w)
  case 0
  then obtain k where k: "fuel = Suc k" by (cases fuel) auto
  show ?case
  proof (cases "sv_cancelled sv (w_tick w)")
    case True
    then show ?thesis by (simp add: k sup_halt_def wait_trace_def)
  next
    case False
    with "0.prems" show ?thesis by (simp add: k sup_bind_def probe_uninterrupted sup_emit_def wait_trace_def)
  qed
next
  case (Suc n)
  then obtain k where k: "fuel = Suc k" "n < k" by (cases fuel) auto
  let ?w = "others_ran we w"
  have now: "\<not> sv_cancelled sv (w_tick w)" "\<not> answers we sv (w_tick w)" using Suc.prems(4) by auto
  obtain d where d: "next_delay b = Some (d, b\<lparr>bo_attempt := min (bo_attempt b + 1) (2 ^ 32 - 1)\<rparr>)" "in_band r (capped_delay b) d"
    using next_delay_band [OF Suc.prems(1)] by blast
  let ?b = "b\<lparr>bo_attempt := min (bo_attempt b + 1) (2 ^ 32 - 1)\<rparr>"
  have step: "(wait_loop we sv fuel b :: ('f, 'e, unit) sup) w = (if sv_cancelled sv (Suc (w_tick w)) then (?w, [Health CatalogDown], Inl ShutDown)
      else (case wait_loop we sv k ?b ?w of (w2, t2, x) \<Rightarrow> (w2, Health CatalogDown # Slept d # t2, x)))"
    using now Suc.prems(2) d(1) by (simp add: k(1) sup_bind_def probe_uninterrupted sup_emit_def sup_halt_def split: prod.split)
  have u: "policy_ok (bo_policy ?b) r" "uninterrupted we (w_tick ?w)" using Suc.prems(1,2) by (simp_all add: uninterrupted_def)
  have later: "\<forall>m. w_tick ?w \<le> m \<and> m < w_tick ?w + n \<longrightarrow> \<not> sv_cancelled sv m \<and> \<not> answers we sv m"
    "sv_cancelled sv (w_tick ?w + n) \<or> answers we sv (w_tick ?w + n)" using Suc.prems(4,5) by auto
  show ?case
  proof (cases "sv_cancelled sv (Suc (w_tick w))")
    case True
    with Suc.prems(4) have "n = 0" by (cases n) auto
    with True step show ?thesis by (simp add: wait_trace_def)
  next
    case False
    let ?c = "sv_cancelled sv (Suc (w_tick w + n))"
    have tb: "bo_policy ?b = bo_policy b" "bo_attempt ?b = min (bo_attempt b + 1) (2 ^ 32 - 1)" "w_tick ?w = Suc (w_tick w)"
      "Suc (w_tick w) + n = Suc (w_tick w + n)" by simp_all
    from Suc.IH [OF u k(2) later] obtain w' ds where m:
        "(wait_loop we sv k ?b :: ('f, 'e, unit) sup) ?w = (w', wait_trace n ?c ds, if ?c then Inl ShutDown else Inr ())"
        "w_tick w' = Suc (w_tick w) + (if ?c then n else Suc n)" "length ds = (if ?c then n - 1 else n)"
        "sleeps_in_band r (bo_policy b) (Suc (bo_attempt b)) ds"
      unfolding tb sleeps_in_band_saturated by blast
    have n: "?c \<longrightarrow> n \<noteq> 0" using False by (cases n) auto
    have "sleeps_in_band r (bo_policy b) (bo_attempt b) (d # ds)"
      using d(2) m(4) capped_delay_bounds(1) [OF Suc.prems(1)] by (intro sleeps_in_band_Cons) simp_all
    moreover have "wait_trace (Suc n) ?c ds = wait_trace n ?c ds" using n by (auto simp: wait_trace_def)
    moreover have "length (d # ds) = (if ?c then Suc n - 1 else Suc n)" using m(3) n by (auto split: if_splits)
    ultimately show ?thesis using m(1,2) False step by (intro exI [of _ w'] exI [of _ "d # ds"]) (simp add: wait_trace_Cons)
  qed
qed

section \<open>Properties\<close>

text \<open>C39: backoff never panics and stays in its band. For any validated configuration, any seed and any
  number of attempts, \<open>next_delay\<close> gives a delay: exactly \<open>min (base * 2 ^ min attempt 31) max\<close> without
  jitter, and otherwise between that times \<open>1 - ratio\<close> and times \<open>1 + ratio\<close> in double arithmetic, so
  never negative; and the attempt counter saturates.\<close>

theorem backoff_in_band:
  assumes "validate_catalog cfg = Inr ()" "cg_retry_max_ms cfg < 2 ^ 64" "\<And>r. cg_retry_jitter_ratio cfg = Fin r \<Longrightarrow> fl r = r"
    and "bo_policy b = policy_from_config cfg seed"
  shows "\<exists>r d. cg_retry_jitter_ratio cfg = Fin r \<and>
    next_delay b = Some (d, b\<lparr>bo_attempt := min (bo_attempt b + 1) (2 ^ 32 - 1)\<rparr>) \<and>
    in_band r (min (from_millis (cg_retry_base_ms cfg) * 2 ^ min (bo_attempt b) 31) (from_millis (cg_retry_max_ms cfg))) d"
proof -
  obtain r where r: "policy_ok (bo_policy b) r" using validated_policy [OF assms(1-3), of seed] assms(4) by auto
  then have "cg_retry_jitter_ratio cfg = Fin r" by (simp add: policy_ok_def assms(4) policy_from_config_def)
  with next_delay_band [OF r] capped_delay_bounds(1) [OF r] show ?thesis by (auto simp: assms(4) policy_from_config_def)
qed

text \<open>C17: waiting for the catalog ends when it can, and backs off on the way. If nothing interrupts the
  process, the first \<open>n\<close> probes fail or overrun with no shutdown in between, and then the catalog answers
  or the shutdown comes, the wait returns: \<open>Ok\<close> after \<open>n + 1\<close> probes and exactly \<open>n\<close> sleeps when the catalog
  answers, one after each failed probe, and \<open>Shutdown\<close> after \<open>n\<close> probes otherwise, the sleep after the last
  one cut short. The trace is the reported outage before every sleep, and the \<open>k\<close>-th sleep lies in the
  band of \<open>min (base * 2 ^ min k 31) max\<close>.\<close>

theorem wait_for_catalog_ends:
  assumes "policy_ok policy r" "uninterrupted we (w_tick w)"
    and "\<forall>m. w_tick w \<le> m \<and> m < w_tick w + n \<longrightarrow> \<not> sv_cancelled sv m \<and> \<not> answers we sv m"
    and "sv_cancelled sv (w_tick w + n) \<or> answers we sv (w_tick w + n)"
  shows "\<exists>w' ds. wait_for_catalog we sv policy (Suc n) w =
      (w', wait_trace n (sv_cancelled sv (w_tick w + n)) ds, if sv_cancelled sv (w_tick w + n) then Inl ShutDown else Inr ()) \<and>
    w_tick w' = w_tick w + (if sv_cancelled sv (w_tick w + n) then n else Suc n) \<and>
    length ds = (if sv_cancelled sv (w_tick w + n) then n - 1 else n) \<and>
    (\<forall>k < length ds. in_band r (min (rp_base policy * 2 ^ min k 31) (rp_max policy)) (ds ! k))"
proof -
  have p: "policy_ok (bo_policy (policy_backoff policy)) r" using assms(1) by (simp add: policy_backoff_def)
  have b: "bo_policy (policy_backoff policy) = policy" "bo_attempt (policy_backoff policy) = 0" by (simp_all add: policy_backoff_def)
  from wait_loop_ends [OF p assms(2) lessI assms(3,4)] show ?thesis
    unfolding wait_for_catalog_def b sleeps_in_band_def add_0 .
qed

text \<open>The default jitter ratio, the double next to 0.2, is a double.\<close>

lemma fl_default_ratio: "fl (3602879701896397 / 18014398509481984) = 3602879701896397 / 18014398509481984"
proof -
  have "(2::rat) powi (- 55) = 1 / 2 ^ 55" by (simp only: power_int_minus_divide power_int_numeral)
  then have "(of_int 7205759403792794 * 2 powi (- 55) :: rat) = 3602879701896397 / 18014398509481984" by simp
  with fl_exact [of 7205759403792794 "- 55"] show ?thesis by simp
qed

text \<open>C39: the first delay of the default configuration.\<close>

theorem backoff_in_band_witness:
  "\<exists>d. next_delay (policy_backoff (policy_from_config (uc_catalog demo_config) 1)) = Some (d, \<lparr>bo_policy = policy_from_config (uc_catalog demo_config) 1, bo_attempt = 1\<rparr>) \<and>
     in_band (3602879701896397 / 18014398509481984) 100000000 d"
proof -
  let ?b = "policy_backoff (policy_from_config (uc_catalog demo_config) 1)"
  have v: "validate_catalog (uc_catalog demo_config) = Inr ()" by code_simp
  have r: "cg_retry_jitter_ratio (uc_catalog demo_config) = Fin (3602879701896397 / 18014398509481984)" by code_simp
  have m: "cg_retry_max_ms (uc_catalog demo_config) < 2 ^ 64" by code_simp
  have b: "bo_policy ?b = policy_from_config (uc_catalog demo_config) 1" "bo_attempt ?b = 0" by (simp_all add: policy_backoff_def)
  have i: "min (from_millis (cg_retry_base_ms (uc_catalog demo_config)) * 2 ^ min 0 31) (from_millis (cg_retry_max_ms (uc_catalog demo_config))) = 100000000"
    by code_simp
  have f: "cg_retry_jitter_ratio (uc_catalog demo_config) = Fin q \<Longrightarrow> fl q = q" for q using fl_default_ratio by (simp only: r f64.inject)
  from backoff_in_band [OF v m f b(1)] obtain q d where "Fin (3602879701896397 / 18014398509481984) = Fin q"
      "next_delay ?b = Some (d, ?b\<lparr>bo_attempt := min (0 + 1) (2 ^ 32 - 1)\<rparr>)" "in_band q 100000000 d"
    unfolding r b(2) i by metis
  then have "next_delay ?b = Some (d, ?b\<lparr>bo_attempt := 1\<rparr>)" "in_band (3602879701896397 / 18014398509481984) 100000000 d" by (simp_all only: f64.inject) simp
  then show ?thesis by (auto simp: policy_backoff_def)
qed

text \<open>A database that misses the first two probes.\<close>

definition missing_we :: "unit wenv" where
  "missing_we = (calm_wenv 0)\<lparr>we_db := (\<lambda>n. if n < 2 then (quiet_env 0)\<lparr>env_fail := (\<lambda>_. Some (PoolTimedOut, False))\<rparr> else quiet_env 0)\<rparr>"

theorem wait_for_catalog_ends_witness:
  "\<exists>w' d0 d1. (wait_for_catalog missing_we \<lparr>sv_cancelled = (\<lambda>_. False), sv_late = (\<lambda>_. False)\<rparr> (policy_from_config (uc_catalog demo_config) 1) 3
      :: (unit, unit, unit) sup) \<lparr>w_tick = 0, w_catalog = empty_catalog, w_files = Map.empty, w_uploads = []\<rparr> =
        (w', [Health CatalogDown, Slept d0, Health CatalogDown, Slept d1, Health CatalogUp], Inr ()) \<and>
     in_band (3602879701896397 / 18014398509481984) 100000000 d0 \<and> in_band (3602879701896397 / 18014398509481984) 200000000 d1"
proof -
  let ?w = "\<lparr>w_tick = 0, w_catalog = empty_catalog, w_files = Map.empty, w_uploads = []\<rparr> :: unit world"
  let ?sv = "\<lparr>sv_cancelled = (\<lambda>_. False), sv_late = (\<lambda>_. False)\<rparr>" and ?p = "policy_from_config (uc_catalog demo_config) 1"
  let ?r = "3602879701896397 / 18014398509481984 :: rat"
  have p: "policy_ok ?p ?r"
    by (simp add: policy_ok_def policy_from_config_def demo_config_def default_catalog_config_def from_millis_def fl_default_ratio)
  have i: "min (rp_base ?p * 2 ^ min 0 31) (rp_max ?p) = 100000000" "min (rp_base ?p * 2 ^ min 1 31) (rp_max ?p) = 200000000"
    by code_simp+
  have u: "uninterrupted missing_we (w_tick ?w)" by (simp add: uninterrupted_def missing_we_def calm_wenv_def)
  have no: "\<forall>m. w_tick ?w \<le> m \<and> m < w_tick ?w + 2 \<longrightarrow> \<not> sv_cancelled ?sv m \<and> \<not> answers missing_we ?sv m"
    by (simp add: answers_def missing_we_def)
  have yes: "sv_cancelled ?sv (w_tick ?w + 2) \<or> answers missing_we ?sv (w_tick ?w + 2)"
    by (simp add: answers_def missing_we_def quiet_env_def)
  from wait_for_catalog_ends [OF p u no yes] obtain w' ds where
      w: "(wait_for_catalog missing_we ?sv ?p (Suc 2) :: (unit, unit, unit) sup) ?w = (w', wait_trace 2 False ds, Inr ())"
      and ds: "length ds = 2" "\<forall>k < length ds. in_band ?r (min (rp_base ?p * 2 ^ min k 31) (rp_max ?p)) (ds ! k)" by auto
  from ds(1) obtain d0 d1 where d: "ds = [d0, d1]" by (auto simp: numeral_2_eq_2 length_Suc_conv)
  have "in_band ?r (min (rp_base ?p * 2 ^ min 0 31) (rp_max ?p)) d0" "in_band ?r (min (rp_base ?p * 2 ^ min 1 31) (rp_max ?p)) d1"
    using spec [OF ds(2), of 0] spec [OF ds(2), of 1] by (simp_all only: d) simp_all
  then have "in_band ?r 100000000 d0" "in_band ?r 200000000 d1" by (simp_all only: i)
  moreover have "wait_trace 2 False ds = [Health CatalogDown, Slept d0, Health CatalogDown, Slept d1, Health CatalogUp]" by (simp add: d wait_trace_def)
  moreover have "Suc 2 = 3" by simp
  ultimately show ?thesis using w by auto
qed

end
