(* ===== verification/IngestSafety.thy ===== *)
theory IngestSafety
  imports Ingest
begin

text \<open>
  Exactly-once ingest. A Kafka log is a list of records; a record is consumed when the catalog's
  offset of its partition is past it. The ledger says that a table holds, once each, the rows of
  consumed records that were accepted. Whatever happens to a route, the ledger holds: a flush adds
  to the table exactly the rows between the old and the new offsets.
\<close>

section \<open>Rows one by one\<close>

text \<open>What is assumed of the decoder and of expressions: they work row by row.\<close>

definition decodes :: "('w, 'f) ingest_libs \<Rightarrow> schema \<Rightarrow> (json \<Rightarrow> cells) \<Rightarrow> bool" where
  "decodes I s dec \<longleftrightarrow> (\<forall>rows rs. il_decode I s rows = Some (Some rs) \<longrightarrow> rs = map dec rows \<and> (\<forall>r \<in> set rs. length r = length s))"

definition rowwise :: "datafusion \<Rightarrow> (string \<Rightarrow> schema \<Rightarrow> data_type \<Rightarrow> data_type \<Rightarrow> cells \<Rightarrow> cell) \<Rightarrow> bool" where
  "rowwise D E \<longleftrightarrow> (\<forall>sql s t u e b col. df_compile D sql s t u = Some e \<and> e b = Some col \<longrightarrow> col = map (E sql s t u) (rb_rows b))"

fun fill_row ::
  "(string \<Rightarrow> schema \<Rightarrow> data_type \<Rightarrow> data_type \<Rightarrow> cells \<Rightarrow> cell) \<Rightarrow> schema \<Rightarrow> column_spec list \<Rightarrow> cells \<Rightarrow> cells" where
  "fill_row E s [] r = r"
| "fill_row E s (spec # specs) r =
     (case (case cs_kind spec of
              Default e \<Rightarrow> Some (e, \<lambda>old new. if old = cell.Null then new else old)
            | Materialized e \<Rightarrow> Some (e, \<lambda>old new. new)
            | _ \<Rightarrow> None) of
        None \<Rightarrow> fill_row E s specs r
      | Some (sql, f) \<Rightarrow>
          let idx = the (index_of s (cs_name spec));
              t = (if map_of (f_metadata (s ! idx)) UKIEL_TYPE_META = Some ''timestamp_ms'' then TIMESTAMP_MS else f_type (s ! idx))
          in fill_row E s specs (r[idx := f (r ! idx) (E sql s t (f_type (s ! idx)) r)]))"

lemma set_column_map: "set_column idx f (map g rs) rs = map (\<lambda>r. r[idx := f (r ! idx) (g r)]) rs"
  unfolding set_column_def by (induction rs) simp_all

lemma apply_specs_rowwise:
  assumes "rowwise D E" "apply_specs D s specs rs = Inr rs'"
  shows "rs' = map (fill_row E s specs) rs"
  using assms(2)
proof (induction specs arbitrary: rs)
  case (Cons spec specs)
  let ?k = "case cs_kind spec of
              Default e \<Rightarrow> Some (e, \<lambda>old new. if old = cell.Null then new else old)
            | Materialized e \<Rightarrow> Some (e, \<lambda>old new. new)
            | _ \<Rightarrow> None"
  show ?case
  proof (cases ?k)
    case None
    with Cons show ?thesis by simp
  next
    case (Some a)
    obtain sql f where a: "a = (sql, f)" by (rule prod.exhaust)
    from Cons.prems Some a obtain idx current e computed where idx: "index_of s (cs_name spec) = Some idx"
      and cur: "try_batch s rs = Some current" and c: "compile_for_field D sql s (s ! idx) = Inr e" and ev: "e current = Some computed"
      and r: "apply_specs D s specs (set_column idx f computed rs) = Inr rs'"
      by (auto simp: rbind_eq_Inr_iff evaluate_def)
    define t where "t = (if map_of (f_metadata (s ! idx)) UKIEL_TYPE_META = Some ''timestamp_ms'' then TIMESTAMP_MS else f_type (s ! idx))"
    have "df_compile D sql s t (f_type (s ! idx)) = Some e" using c by (simp add: compile_for_field_def Let_def t_def)
    with assms(1) ev have "computed = map (E sql s t (f_type (s ! idx))) (rb_rows current)" unfolding rowwise_def by blast
    then have "computed = map (E sql s t (f_type (s ! idx))) rs" using try_batch_Some [OF cur] by simp
    with Cons.IH [OF r] show ?thesis
      by (simp add: Some a idx set_column_map Let_def t_def [symmetric] comp_def)
  qed
qed (simp add: map_idI)

text \<open>The row a JSON object becomes.\<close>

definition table_row ::
  "(string \<Rightarrow> schema \<Rightarrow> data_type \<Rightarrow> data_type \<Rightarrow> cells \<Rightarrow> cell) \<Rightarrow> (json \<Rightarrow> cells) \<Rightarrow> table_columns \<Rightarrow> json \<Rightarrow> cells" where
  "table_row E dec cols row = fill_row E (physical_schema cols) cols (dec row)"

definition ingest_env_ok ::
  "('w, 'f) ingest_libs \<Rightarrow> table_columns \<Rightarrow> (string \<Rightarrow> schema \<Rightarrow> data_type \<Rightarrow> data_type \<Rightarrow> cells \<Rightarrow> cell) \<Rightarrow> (json \<Rightarrow> cells) \<Rightarrow> bool" where
  "ingest_env_ok I cols E dec \<longleftrightarrow> writer_ok (lb_arrow I) \<and> lexsort_ok (write_libs.truncate I) \<and> rowwise (lb_df I) E \<and>
     decodes I (physical_schema cols) dec \<and> distinct (map f_name (physical_schema cols)) \<and>
     (\<forall>n xs. mset (il_days I n xs) = mset xs) \<and> (\<forall>n xs. mset (il_partitions I n xs) = mset xs)"

lemma truncate_libs [simp]: "lb_arrow (write_libs.truncate I) = lb_arrow I" "lb_df (write_libs.truncate I) = lb_df I"
  "lb_de (write_libs.truncate I) = lb_de I"
  by (simp_all add: write_libs.defs)

lemma encode_rows_view:
  assumes env: "ingest_env_ok I cols E dec" and enc: "encode_rows I cols packing ts key rows = Inr p"
  shows "view_rows (file_view (lb_arrow I) (lb_df I) cols) (ep_bytes p) = mset (map (table_row E dec cols) rows)"
proof -
  let ?s = "physical_schema cols" and ?W = "write_libs.truncate I"
  from enc obtain b filled srt where d: "decode_rows I ?s packing ts rows = Inr b"
    and f: "apply_defaults_and_materialized (lb_df I) b cols = Inr filled" and so: "sort_batch ?W filled key = Inr srt"
    and e: "encode_batch ?W srt packing key (write_opts_from_columns cols key 0) = Inr p"
    by (auto simp: encode_rows_def finish_batch_def rbind_eq_Inr_iff map_sum_eq_Inr)
  from d obtain rs where rs: "il_decode I ?s rows = Some (Some rs)" and b: "b = \<lparr>rb_schema = ?s, rb_rows = rs\<rparr>"
    by (auto simp: decode_rows_def split: if_splits option.splits)
  have dec: "rs = map dec rows" "\<forall>r \<in> set rs. length r = length ?s" using env rs by (auto simp: ingest_env_ok_def decodes_def)
  from f obtain rs' where a: "apply_specs (lb_df I) ?s cols rs = Inr rs'" and t: "try_batch ?s rs' = Some filled"
    by (auto simp: apply_defaults_and_materialized_def rbind_eq_Inr_iff b)
  have "rowwise (lb_df I) E" using env by (simp add: ingest_env_ok_def)
  from apply_specs_rowwise [OF this a] have rs': "rs' = map (table_row E dec cols) rows"
    by (simp add: dec(1) table_row_def)
  have filled: "filled = \<lparr>rb_schema = ?s, rb_rows = rs'\<rparr>" by (rule try_batch_Some [OF t])
  have fits: "\<forall>r \<in> set (rb_rows filled). row_fits ?s r"
    using t apply_specs_lengths [OF a dec(2)] by (auto simp: filled try_batch_def row_fits_def list_all_iff split: if_splits)
  have W: "writer_ok (lb_arrow ?W)" "lexsort_ok ?W" "distinct (map f_name ?s)" using env by (simp_all add: ingest_env_ok_def)
  note srt = sort_batch_Inr [OF W(2) so]
  have "file_view (lb_arrow ?W) (lb_df ?W) cols (ep_bytes p) = Some (rb_rows srt)"
    by (rule map_encoded_view [OF W(1) e W(3)]) (use srt filled sort_batch_fits [OF W(2) so fits] in simp_all)
  with srt rs' filled show ?thesis by (simp add: view_rows_def)
qed

lemma encode_days_view:
  assumes "ingest_env_ok I cols E dec" "encode_days I cols ht route days = Inr items"
  shows "sum_list (map (view_rows (file_view (lb_arrow I) (lb_df I) cols) \<circ> (ep_bytes \<circ> fi_part)) items)
    = mset (map (table_row E dec cols) (concat (map snd days)))"
  using assms(2)
proof (induction days arbitrary: items)
  case (Cons d days)
  then show ?case using encode_rows_view [OF assms(1)] by (cases d) (auto simp: rbind_eq_Inr_iff)
qed simp

section \<open>Buffers\<close>

lemma map_of_entry_update:
  "map_of (entry_update k d f m) k' = (if k' = k then Some (f (case map_of m k of None \<Rightarrow> d | Some v \<Rightarrow> v)) else map_of m k')"
  by (induction m) auto

lemma keys_entry_update: "fst ` set (entry_update k d f m) = insert k (fst ` set m)"
  by (induction k d f m rule: entry_update.induct) auto

lemma distinct_entry_update: "distinct (map fst m) \<Longrightarrow> distinct (map fst (entry_update k d f m))"
  by (induction k d f m rule: entry_update.induct) (auto simp: keys_entry_update)

lemma concat_entry_update:
  "mset (concat (map snd (entry_update k [] (\<lambda>rows. rows @ [x]) m))) = add_mset x (mset (concat (map snd m)))"
  by (induction m) auto

lemma drain_mset:
  assumes "\<And>n xs. mset (order n xs) = mset xs" "distinct (map fst m)"
  shows "mset (drain order n m) = mset m"
proof -
  have "mset (drain order n m) = image_mset (\<lambda>k. (k, the (map_of m k))) (mset (map fst m))"
    by (simp only: drain_def mset_map assms(1))
  also have "\<dots> = mset (map (\<lambda>x. (fst x, the (map_of m (fst x)))) m)" by (simp add: multiset.map_comp comp_def)
  also have "map (\<lambda>x. (fst x, the (map_of m (fst x)))) m = m" using assms(2) by (intro map_idI) (auto simp: map_of_is_SomeI)
  finally show ?thesis .
qed

section \<open>The log\<close>

type_synonym log_record = "i32 \<times> i64 \<times> string option"

abbreviation rec_offset :: "log_record \<Rightarrow> i64" where
  "rec_offset r \<equiv> fst (snd r)"

definition on_partition :: "i32 \<Rightarrow> log_record list \<Rightarrow> log_record list" where
  "on_partition p rs = filter (\<lambda>r. fst r = p) rs"

definition good_log :: "log_record list \<Rightarrow> bool" where
  "good_log log \<longleftrightarrow> (\<forall>p. sorted_wrt (<) (map rec_offset (on_partition p log))) \<and>
     (\<forall>r \<in> set log. - (2 ^ 31) \<le> fst r \<and> fst r < 2 ^ 31 \<and> 0 \<le> rec_offset r \<and> in_i64 (rec_offset r + 1))"

text \<open>The messages of a run of the event loop, each with the wall clock when it was buffered.\<close>

fun messages :: "ingest_event list \<Rightarrow> (log_record \<times> i64) list" where
  "messages [] = []"
| "messages (Message payload part_no offset now # es) = ((part_no, offset, payload), now) # messages es"
| "messages (_ # es) = messages es"

text \<open>A consumer gets, per assigned partition, a prefix of the log from the offset it was assigned.\<close>

definition delivers :: "log_record list \<Rightarrow> (partition_start list \<Rightarrow> ingest_event list) \<Rightarrow> bool" where
  "delivers log kafka \<longleftrightarrow> (\<forall>assigned p. prefix (on_partition p (map fst (messages (kafka assigned))))
     (case map_of (map (\<lambda>a. (pst_partition a, pst_offset a)) assigned) p of
        None \<Rightarrow> []
      | Some start \<Rightarrow> filter (\<lambda>r. start \<le> rec_offset r) (on_partition p log)))"

definition accepts :: "('w, 'f) ingest_libs \<Rightarrow> ingest_config \<Rightarrow> table_route \<Rightarrow> string \<Rightarrow> i64 \<Rightarrow> log_record \<Rightarrow> bool" where
  "accepts I cfg route pk now r =
     (case Option.bind (snd (snd r)) (il_parse I) of
        None \<Rightarrow> False
      | Some row \<Rightarrow>
          (case Option.bind (json_get row (tr_ts_column route)) as_i64 of
             None \<Rightarrow> False
           | Some ts \<Rightarrow> Option.bind (json_get row pk) as_i64 \<noteq> None \<and> event_time_in_bounds ts now cfg \<and> il_day I ts \<noteq> None))"

definition json_row :: "('w, 'f) ingest_libs \<Rightarrow> log_record \<Rightarrow> json" where
  "json_row I r = the (Option.bind (snd (snd r)) (il_parse I))"

text \<open>What the buffers hold after the messages \<open>bs\<close>.\<close>

definition buf_ok :: "('w, 'f) ingest_libs \<Rightarrow> ingest_config \<Rightarrow> table_route \<Rightarrow> string \<Rightarrow> (log_record \<times> i64) list \<Rightarrow> buffers \<Rightarrow> bool" where
  "buf_ok I cfg route pk bs b \<longleftrightarrow> distinct (map fst (bf_rows_by_day b)) \<and> distinct (map fst (bf_ranges b)) \<and>
     (\<forall>p. map_of (bf_ranges b) p = (let rs = on_partition p (map fst bs) in
        if rs = [] then None else Some (rec_offset (hd rs), rec_offset (last rs)))) \<and>
     mset (concat (map snd (bf_rows_by_day b))) = mset (map (json_row I \<circ> fst) (filter (\<lambda>x. accepts I cfg route pk (snd x) (fst x)) bs))"

lemma buf_ok_empty: "buf_ok I cfg route pk [] empty_buffers"
  by (simp add: buf_ok_def empty_buffers_def on_partition_def)

lemma buf_ok_deferred: "buf_ok I cfg route pk bs (b\<lparr>bf_deferred := n\<rparr>) = buf_ok I cfg route pk bs b"
  by (simp add: buf_ok_def)

lemma buffer_message_parts:
  "bf_ranges (buffer_message I cfg route pk payload p off now b) = entry_update p (off, off) (\<lambda>(first, _). (first, off)) (bf_ranges b)"
  "bf_rows_by_day (buffer_message I cfg route pk payload p off now b) =
     (if accepts I cfg route pk now (p, off, payload)
      then (let row = json_row I (p, off, payload); ts = the (Option.bind (json_get row (tr_ts_column route)) as_i64) in
        entry_update (the (il_day I ts)) [] (\<lambda>rows. rows @ [row]) (bf_rows_by_day b))
      else bf_rows_by_day b)"
  by (auto simp: buffer_message_def accepts_def json_row_def Let_def split: option.splits)

lemma buffer_message_ok:
  assumes "buf_ok I cfg route pk bs b"
  shows "buf_ok I cfg route pk (bs @ [((p, off, payload), now)]) (buffer_message I cfg route pk payload p off now b)"
proof -
  let ?b = "buffer_message I cfg route pk payload p off now b"
  let ?bs = "bs @ [((p, off, payload), now)]"
  have d: "distinct (map fst (bf_rows_by_day b))" "distinct (map fst (bf_ranges b))"
    and m: "\<And>q. map_of (bf_ranges b) q = (let rs = on_partition q (map fst bs) in
        if rs = [] then None else Some (rec_offset (hd rs), rec_offset (last rs)))"
    and r: "mset (concat (map snd (bf_rows_by_day b))) = mset (map (json_row I \<circ> fst) (filter (\<lambda>x. accepts I cfg route pk (snd x) (fst x)) bs))"
    using assms by (simp_all add: buf_ok_def)
  have "distinct (map fst (bf_rows_by_day ?b))" "distinct (map fst (bf_ranges ?b))"
    using d by (simp_all add: buffer_message_parts distinct_entry_update Let_def)
  moreover have "map_of (bf_ranges ?b) q = (let rs = on_partition q (map fst ?bs) in
        if rs = [] then None else Some (rec_offset (hd rs), rec_offset (last rs)))" for q
    using m [of q] m [of p] by (auto simp: buffer_message_parts map_of_entry_update on_partition_def Let_def)
  moreover have "mset (concat (map snd (bf_rows_by_day ?b))) = mset (map (json_row I \<circ> fst) (filter (\<lambda>x. accepts I cfg route pk (snd x) (fst x)) ?bs))"
    using r by (simp add: buffer_message_parts concat_entry_update Let_def)
  ultimately show ?thesis by (simp add: buf_ok_def)
qed

section \<open>The ledger\<close>

definition consumed :: "catalog \<Rightarrow> hypertable_id \<Rightarrow> string \<Rightarrow> log_record \<Rightarrow> bool" where
  "consumed c ht topic r \<longleftrightarrow> reached (next_offset (ingest_offsets c) (ht, topic, fst r)) (rec_offset r + 1)"

text \<open>The offset lists a flush of this log can commit, and what a recorded one says.\<close>

definition flushable :: "log_record list \<Rightarrow> string \<Rightarrow> offset_range list \<Rightarrow> bool" where
  "flushable log topic offs \<longleftrightarrow> offs \<noteq> [] \<and> distinct (map or_partition offs) \<and>
     (\<forall>x \<in> set offs. or_topic x = topic \<and> or_first x \<le> or_last x \<and>
        (\<exists>r \<in> set log. fst r = or_partition x \<and> rec_offset r = or_first x) \<and>
        (\<exists>r \<in> set log. fst r = or_partition x \<and> rec_offset r = or_last x))"

abbreviation flush_intent :: "hypertable_id \<Rightarrow> offset_range list \<Rightarrow> intent" where
  "flush_intent ht offs \<equiv> IngestIntent ht (ingest_ranges offs) INGEST_TRANSFORMATION_VERSION"

definition separates :: "(bytes \<Rightarrow> bytes) \<Rightarrow> hypertable_id \<Rightarrow> string \<Rightarrow> log_record list \<Rightarrow> bool" where
  "separates blake3 ht topic log \<longleftrightarrow> (\<forall>a b. flushable log topic a \<and> flushable log topic b \<and>
     blake3 (intent_bytes (flush_intent ht a)) = blake3 (intent_bytes (flush_intent ht b))
     \<longrightarrow> intent_bytes (flush_intent ht a) = intent_bytes (flush_intent ht b))"

definition identities_ok :: "(bytes \<Rightarrow> bytes) \<Rightarrow> hypertable_id \<Rightarrow> string \<Rightarrow> log_record list \<Rightarrow> catalog \<Rightarrow> bool" where
  "identities_ok blake3 ht topic log c \<longleftrightarrow> (\<forall>offs i cid. flushable log topic offs \<and>
     ingest_identity blake3 ht offs = Inr i \<and> recorded c i cid
     \<longrightarrow> (\<forall>x \<in> set offs. reached (next_offset (ingest_offsets c) (range_key ht x)) (or_last x + 1)))"

definition ledger ::
  "('w, 'f) ingest_libs \<Rightarrow> ingest_config \<Rightarrow> table_route \<Rightarrow> hypertable \<Rightarrow> ('f \<Rightarrow> cells list option) \<Rightarrow> (json \<Rightarrow> cells) \<Rightarrow> i64 set
   \<Rightarrow> log_record list \<Rightarrow> 'f outside \<Rightarrow> bool" where
  "ledger I cfg route ht V row T log x \<longleftrightarrow> wf_log (fst x) \<and> identities_ok (lb_blake3 I) (ht_id ht) (tr_topic route) log (fst x) \<and>
     (\<exists>kept \<subseteq> {r \<in> set log. consumed (fst x) (ht_id ht) (tr_topic route) r}.
        (\<forall>r \<in> set log. consumed (fst x) (ht_id ht) (tr_topic route) r \<longrightarrow>
           (r \<in> kept \<longrightarrow> (\<exists>now \<in> T. accepts I cfg route (packing_key ht) now r)) \<and>
           ((\<forall>now \<in> T. accepts I cfg route (packing_key ht) now r) \<longrightarrow> r \<in> kept)) \<and>
        contents V (snd x) (fst x) (ht_id ht) = image_mset (row \<circ> json_row I) (mset_set kept))"

lemma mset_set_filter_distinct: "distinct xs \<Longrightarrow> mset (filter P xs) = mset_set {x \<in> set xs. P x}"
  by (simp flip: mset_set_set add: set_filter)

section \<open>Offsets after a flush\<close>

lemma upsert_all_next:
  assumes "upsert_all ht rs rows = Some rows'" "distinct (map (range_key ht) rs)"
  shows "r \<in> set rs \<Longrightarrow> next_offset rows' (range_key ht r) = Some (wrap_i64 (or_last r + 1))"
    "k \<notin> range_key ht ` set rs \<Longrightarrow> next_offset rows' k = next_offset rows k"
proof -
  have "(\<forall>r \<in> set rs. next_offset rows' (range_key ht r) = Some (wrap_i64 (or_last r + 1))) \<and>
      (\<forall>k. k \<notin> range_key ht ` set rs \<longrightarrow> next_offset rows' k = next_offset rows k)"
    using assms
  proof (induction rs arbitrary: rows)
    case (Cons a rs)
    from Cons.prems obtain mid where m: "upsert_offset ht a rows = Some mid" "upsert_all ht rs mid = Some rows'"
      by (auto simp: bind_eq_Some_conv)
    have k: "next_offset mid k = (if k = range_key ht a then Some (wrap_i64 (or_last a + 1)) else next_offset rows k)" for k
      using upsert_offset_next [OF m(1), of k] by blast
    from Cons.prems(2) have d: "distinct (map (range_key ht) rs)" "range_key ht a \<notin> range_key ht ` set rs" by simp_all
    note ih = Cons.IH [OF m(2) d(1)]
    have "next_offset rows' (range_key ht a) = Some (wrap_i64 (or_last a + 1))"
      using ih [THEN conjunct2, THEN spec, of "range_key ht a"] d(2) k [of "range_key ht a"] by simp
    moreover have "next_offset rows' k = next_offset rows k" if "k \<notin> range_key ht ` set (a # rs)" for k
      using that ih [THEN conjunct2, THEN spec, of k] k [of k] by simp
    ultimately show ?case using ih by simp
  qed simp
  then show "r \<in> set rs \<Longrightarrow> next_offset rows' (range_key ht r) = Some (wrap_i64 (or_last r + 1))"
    "k \<notin> range_key ht ` set rs \<Longrightarrow> next_offset rows' k = next_offset rows k" by blast+
qed

lemma flushable_wf:
  assumes "good_log log" "flushable log topic offs" "in_i64 ht" "wf_str topic"
  shows "wf_intent (flush_intent ht offs)" "list_all consumable offs"
proof -
  have r: "- (2 ^ 31) \<le> or_partition x \<and> or_partition x < 2 ^ 31 \<and> in_i64 (or_first x) \<and> in_i64 (or_last x) \<and>
      in_i64 (or_last x + 1) \<and> or_first x \<le> or_last x \<and> or_topic x = topic" if x: "x \<in> set offs" for x
  proof -
    from assms(2) x obtain a b where a: "a \<in> set log" "fst a = or_partition x" "rec_offset a = or_first x"
      and b: "b \<in> set log" "rec_offset b = or_last x" and le: "or_first x \<le> or_last x" "or_topic x = topic"
      unfolding flushable_def by blast
    have "- (2 ^ 31) \<le> fst a \<and> fst a < 2 ^ 31 \<and> 0 \<le> rec_offset a" "0 \<le> rec_offset b \<and> in_i64 (rec_offset b + 1)"
      using assms(1) a(1) b(1) by (auto simp: good_log_def)
    with a b le show ?thesis by (simp add: in_i64_def)
  qed
  have "length offs = card (set (map or_partition offs))" using assms(2) distinct_card [of "map or_partition offs"] by (simp add: flushable_def)
  also have "\<dots> \<le> card {- (2 ^ 31) ..< (2::int) ^ 31}" using r by (intro card_mono) auto
  also have "\<dots> < 2 ^ 64" by simp
  finally have "length (ingest_ranges offs) < 2 ^ 64" by (simp add: ingest_ranges_def)
  moreover have "wf_range y" if y: "y \<in> set (ingest_ranges offs)" for y
  proof -
    from y obtain x where x: "x \<in> set offs" "y = IngestRange (or_topic x) (or_partition x) (or_first x) (or_last x)"
      by (auto simp: ingest_ranges_def)
    from r [OF x(1)] assms(4) show ?thesis by (simp add: x(2) wf_range_def in_i64_def)
  qed
  ultimately show "wf_intent (flush_intent ht offs)"
    using assms(3) by (simp add: wf_list_def wf_u32_def INGEST_TRANSFORMATION_VERSION_def)
  show "list_all consumable offs" using r by (simp add: list_all_iff consumable_def)
qed

lemma same_flush:
  assumes "good_log log" "in_i64 ht" "wf_str topic" "separates blake3 ht topic log"
    and a: "flushable log topic a" "ingest_identity blake3 ht a = Inr i"
    and b: "flushable log topic b" "ingest_identity blake3 ht b = Inr j"
    and eq: "oi_fingerprint i = oi_fingerprint j"
  shows "set a = set b"
proof -
  have "identity_of blake3 (flush_intent ht a) = Inr i" "identity_of blake3 (flush_intent ht b) = Inr j"
    using a(2) b(2) by (simp_all add: ingest_identity_def map_sum_eq_Inr)
  from identity_of_Inr [OF this(1)] identity_of_Inr [OF this(2)] eq
  have "blake3 (intent_bytes (flush_intent ht a)) = blake3 (intent_bytes (flush_intent ht b))" by simp
  with assms(4) a(1) b(1) have "intent_bytes (flush_intent ht a) = intent_bytes (flush_intent ht b)"
    unfolding separates_def by blast
  then have "intent_norm (flush_intent ht a) = intent_norm (flush_intent ht b)"
    using intent_bytes_inj [OF flushable_wf(1) [OF assms(1) a(1) assms(2,3)] flushable_wf(1) [OF assms(1) b(1) assms(2,3)]] by blast
  then have "sort (ingest_ranges a) = sort (ingest_ranges b)" by simp
  then have "set (sort (ingest_ranges a)) = set (sort (ingest_ranges b))" by (rule arg_cong)
  then have e: "(\<lambda>x. IngestRange (or_topic x) (or_partition x) (or_first x) (or_last x)) ` set a
      = (\<lambda>x. IngestRange (or_topic x) (or_partition x) (or_first x) (or_last x)) ` set b"
    by (simp add: ingest_ranges_def)
  have "inj (\<lambda>x :: offset_range. IngestRange (or_topic x) (or_partition x) (or_first x) (or_last x))" by (rule injI) simp
  from iffD1 [OF inj_image_eq_iff [OF this] e] show ?thesis .
qed

lemma identities_ok_commit:
  assumes "good_log log" "in_i64 ht" "wf_str topic" "separates blake3 ht topic log"
    and te: "took_effect env de ht op (Some i) offs lease c c'"
    and offs: "flushable log topic offs" "ingest_identity blake3 ht offs = Inr i" and run: "offsets_run c c'"
    and ok: "identities_ok blake3 ht topic log c"
  shows "identities_ok blake3 ht topic log c'"
  unfolding identities_ok_def
proof (intro allI impI ballI, elim conjE)
  fix a j cid x assume a: "flushable log topic a" "ingest_identity blake3 ht a = Inr j" and rec: "recorded c' j cid" and x: "x \<in> set a"
  from recorded_new [OF te rec] show "reached (next_offset (ingest_offsets c') (range_key ht x)) (or_last x + 1)"
  proof
    assume "recorded c j cid"
    with ok a x have "reached (next_offset (ingest_offsets c) (range_key ht x)) (or_last x + 1)" unfolding identities_ok_def by blast
    then show ?thesis by (rule run_reached [OF run])
  next
    assume "oi_fingerprint j = oi_fingerprint i"
    from same_flush [OF assms(1-4) a offs this] x have x': "x \<in> set offs" by simp
    from te obtain rows where rows: "upsert_all ht offs (ingest_offsets c) = Some rows" "ingest_offsets c' = rows"
      by (auto simp: took_effect_def)
    from upsert_all_consumes [OF rows(1) _ x'] flushable_wf(2) [OF assms(1) offs(1) assms(2,3)] rows(2) show ?thesis
      by (simp add: list_all_iff)
  qed
qed

section \<open>A flush and the ledger\<close>

text \<open>Per partition, the buffered records continue a stretch of the log that is already consumed.\<close>

definition covered :: "log_record list \<Rightarrow> (log_record \<Rightarrow> bool) \<Rightarrow> log_record list \<Rightarrow> log_record list \<Rightarrow> bool" where
  "covered log Q bs rest \<longleftrightarrow>
     (\<forall>p. \<exists>pre. prefix (pre @ on_partition p bs @ on_partition p rest) (on_partition p log) \<and> (\<forall>r \<in> set pre. Q r))"

lemma on_partition_set: "r \<in> set (on_partition p rs) \<longleftrightarrow> r \<in> set rs \<and> fst r = p"
  by (auto simp: on_partition_def)

lemma covered_mono: "covered log Q bs rest \<Longrightarrow> (\<And>r. Q r \<Longrightarrow> Q' r) \<Longrightarrow> covered log Q' bs rest"
  unfolding covered_def by meson

lemma covered_flushed:
  assumes "covered log Q bs rest" "\<forall>r \<in> set bs. Q r"
  shows "covered log Q [] rest"
  unfolding covered_def
proof
  fix p
  from assms(1) obtain pre where p: "prefix (pre @ on_partition p bs @ on_partition p rest) (on_partition p log)" "\<forall>r \<in> set pre. Q r"
    unfolding covered_def by blast
  with assms(2) show "\<exists>pre. prefix (pre @ on_partition p [] @ on_partition p rest) (on_partition p log) \<and> (\<forall>r \<in> set pre. Q r)"
    by (intro exI [of _ "pre @ on_partition p bs"]) (auto simp: on_partition_def)
qed

lemma covered_message:
  "covered log Q bs (r # rest) \<longleftrightarrow> covered log Q (bs @ [r]) rest"
proof -
  have "on_partition p (bs @ [r]) @ on_partition p rest = on_partition p bs @ on_partition p (r # rest)" for p
    by (simp add: on_partition_def)
  then show ?thesis by (simp add: covered_def)
qed

lemma sorted_bounds:
  assumes "sorted_wrt (<) (map f (pre @ rs @ post))" "(rs :: 'a list) \<noteq> []"
  shows "\<forall>r \<in> set rs. f (hd rs) \<le> (f r :: int) \<and> f r \<le> f (last rs)" "\<forall>r \<in> set post. f (last rs) < f r"
proof -
  have s: "sorted_wrt (<) (map f rs)" "\<forall>r \<in> set post. f (last rs) < f r"
    using assms by (auto simp: sorted_wrt_append)
  from s(2) show "\<forall>r \<in> set post. f (last rs) < f r" .
  have "f (hd rs) \<le> f r" if "r \<in> set rs" for r using s(1) that by (cases rs) auto
  moreover have "f r \<le> f (last rs)" if "r \<in> set rs" for r
    using s(1) that by (induction rs rule: rev_induct) (auto simp: sorted_wrt_append)
  ultimately show "\<forall>r \<in> set rs. f (hd rs) \<le> f r \<and> f r \<le> f (last rs)" by blast
qed

lemma covered_facts:
  assumes "good_log log" "covered log Q bs rest"
  shows "set (on_partition p bs) \<subseteq> set log" "distinct (on_partition p bs)"
    "r \<in> set (on_partition p bs) \<Longrightarrow> rec_offset (hd (on_partition p bs)) \<le> rec_offset r \<and> rec_offset r \<le> rec_offset (last (on_partition p bs))"
    "on_partition p bs \<noteq> [] \<Longrightarrow> r \<in> set log \<Longrightarrow> fst r = p \<Longrightarrow> rec_offset r \<le> rec_offset (last (on_partition p bs)) \<Longrightarrow> Q r \<or> r \<in> set (on_partition p bs)"
proof -
  let ?rs = "on_partition p bs"
  from assms(2) obtain pre post where l: "on_partition p log = pre @ ?rs @ post" and q: "\<forall>r \<in> set pre. Q r"
    unfolding covered_def prefix_def by (metis append.assoc)
  have s: "sorted_wrt (<) (map rec_offset (pre @ ?rs @ post))" using assms(1) l [symmetric] by (simp add: good_log_def)
  have "set ?rs \<subseteq> set (on_partition p log)" unfolding l by auto
  then show "set ?rs \<subseteq> set log" by (auto simp: on_partition_set)
  have "distinct (map rec_offset (pre @ ?rs @ post))" using s strict_sorted_iff by blast
  then show "distinct ?rs" by (simp add: distinct_map)
  show "rec_offset (hd ?rs) \<le> rec_offset r \<and> rec_offset r \<le> rec_offset (last ?rs)" if "r \<in> set ?rs"
    using sorted_bounds(1) [OF s] that by (cases "?rs = []") auto
  show "Q r \<or> r \<in> set ?rs" if "?rs \<noteq> []" "r \<in> set log" "fst r = p" "rec_offset r \<le> rec_offset (last ?rs)"
  proof -
    have "r \<in> set (pre @ ?rs @ post)" using that(2,3) l [symmetric] by (simp add: on_partition_set)
    moreover have "r \<notin> set post" using sorted_bounds(2) [OF s that(1)] that(4) by force
    ultimately show ?thesis using q by auto
  qed
qed

lemma distinct_by_partition: "(\<And>p. distinct (on_partition p rs)) \<Longrightarrow> distinct rs"
proof (induction rs)
  case (Cons r rs)
  have "distinct (on_partition p rs)" for p using Cons.prems [of p] by (auto simp: on_partition_def split: if_splits)
  moreover have "r \<notin> set rs" using Cons.prems [of "fst r"] by (simp add: on_partition_def)
  ultimately show ?case using Cons.IH by simp
qed simp

text \<open>The offset list of a flush.\<close>

lemma flush_offsets:
  assumes "buf_ok I cfg route pk bs b" "\<And>n xs. mset (order n xs) = mset xs"
    and "offs = map (range_of route) (drain order n (bf_ranges b))"
  shows "set offs = {range_of route (p, rec_offset (hd (on_partition p (map fst bs))), rec_offset (last (on_partition p (map fst bs)))) | p.
      on_partition p (map fst bs) \<noteq> []}" "distinct (map or_partition offs)"
proof -
  have d: "distinct (map fst (bf_ranges b))" and m: "\<And>p. map_of (bf_ranges b) p = (let rs = on_partition p (map fst bs) in
        if rs = [] then None else Some (rec_offset (hd rs), rec_offset (last rs)))" using assms(1) by (simp_all add: buf_ok_def)
  have ms: "mset (drain order n (bf_ranges b)) = mset (bf_ranges b)" by (rule drain_mset [OF assms(2) d])
  have mem: "(p, v) \<in> set (bf_ranges b) \<longleftrightarrow> map_of (bf_ranges b) p = Some v" for p v using d by simp
  have "set offs = range_of route ` set (bf_ranges b)" using mset_eq_setD [OF ms] by (simp add: assms(3))
  also have "set (bf_ranges b) = {(p, rec_offset (hd (on_partition p (map fst bs))), rec_offset (last (on_partition p (map fst bs)))) | p.
      on_partition p (map fst bs) \<noteq> []}" by (auto simp: mem m Let_def split: if_splits)
  finally show "set offs = {range_of route (p, rec_offset (hd (on_partition p (map fst bs))), rec_offset (last (on_partition p (map fst bs)))) | p.
      on_partition p (map fst bs) \<noteq> []}" by auto
  have "or_partition \<circ> range_of route = fst" by (auto simp: range_of_def)
  then have "mset (map or_partition offs) = mset (map fst (bf_ranges b))" using ms by (simp add: assms(3))
  then show "distinct (map or_partition offs)" using d mset_eq_imp_distinct_iff by blast
qed

lemma flush_offsets_flushable:
  assumes "good_log log" "covered log Q (map fst bs) rest" "buf_ok I cfg route pk bs b" "\<And>n xs. mset (order n xs) = mset xs"
    and "offs = map (range_of route) (drain order n (bf_ranges b))" "bf_ranges b \<noteq> []"
  shows "flushable log (tr_topic route) offs"
proof -
  note o = flush_offsets [OF assms(3-5)]
  have "size (mset (drain order n (bf_ranges b))) = size (mset (bf_ranges b))"
    using drain_mset [where order = order, OF assms(4), of "bf_ranges b" n] assms(3) by (simp add: buf_ok_def)
  then have "offs \<noteq> []" using assms(5,6) by auto
  moreover have "or_topic x = tr_topic route \<and> or_first x \<le> or_last x \<and> (\<exists>r \<in> set log. fst r = or_partition x \<and> rec_offset r = or_first x) \<and>
      (\<exists>r \<in> set log. fst r = or_partition x \<and> rec_offset r = or_last x)" if x: "x \<in> set offs" for x
  proof -
    from x obtain p where p: "on_partition p (map fst bs) \<noteq> []"
      and xp: "x = range_of route (p, rec_offset (hd (on_partition p (map fst bs))), rec_offset (last (on_partition p (map fst bs))))"
      unfolding o(1) by blast
    let ?rs = "on_partition p (map fst bs)"
    note sub = covered_facts(1) [OF assms(1,2), of p]
    have in_log: "hd ?rs \<in> set log" "last ?rs \<in> set log" "fst (hd ?rs) = p" "fst (last ?rs) = p"
      using subsetD [OF sub hd_in_set [OF p]] subsetD [OF sub last_in_set [OF p]] hd_in_set [OF p] last_in_set [OF p]
      by (simp_all add: on_partition_set)
    have "rec_offset (hd ?rs) \<le> rec_offset (last ?rs)" using covered_facts(3) [OF assms(1,2), of "last ?rs" p] p by simp
    with in_log show ?thesis by (auto simp: xp range_of_def)
  qed
  ultimately show ?thesis using o(2) by (simp add: flushable_def)
qed

lemma accepted_rows:
  assumes "distinct (map fst bs)"
  shows "mset (map (json_row I \<circ> fst) (filter P bs)) = image_mset (json_row I) (mset_set (fst ` {x \<in> set bs. P x}))"
proof -
  have "distinct (map fst (filter P bs))" using assms by (simp add: distinct_map inj_on_def)
  from mset_set_set [OF this] show ?thesis by (simp add: multiset.map_comp flip: mset_map)
qed

text \<open>The records of a partition that a flush moves past are the buffered ones.\<close>

lemma consumed_flush:
  assumes log: "good_log log" and cov: "covered log (consumed c ht (tr_topic route)) (map fst bs) rest"
    and buf: "buf_ok I cfg route pk bs b" and ord: "\<And>n xs. mset (order n xs) = mset xs"
    and offs: "offs = map (range_of route) (drain order n (bf_ranges b))"
    and up: "upsert_all ht offs (ingest_offsets c) = Some (ingest_offsets c')" and ht: "in_i64 ht" "wf_str (tr_topic route)"
    and ne: "bf_ranges b \<noteq> []" and r: "r \<in> set log"
  shows "consumed c' ht (tr_topic route) r \<longleftrightarrow> consumed c ht (tr_topic route) r \<or> r \<in> fst ` set bs"
    "\<not> (consumed c ht (tr_topic route) r \<and> r \<in> fst ` set bs)"
proof -
  let ?p = "fst r" and ?t = "tr_topic route"
  let ?rs = "on_partition ?p (map fst bs)"
  note o = flush_offsets [OF buf ord offs]
  have fl: "flushable log ?t offs" by (rule flush_offsets_flushable [OF log cov buf ord offs ne])
  have cons: "\<forall>x \<in> set offs. consumable x" using flushable_wf(2) [OF log fl ht] by (simp add: list_all_iff)
  have top: "range_key ht x = (ht, ?t, or_partition x)" if "x \<in> set offs" for x
    using fl that by (auto simp: flushable_def range_key_def)
  have "map (range_key ht) offs = map (\<lambda>p. (ht, ?t, p)) (map or_partition offs)" using top by simp
  then have dk: "distinct (map (range_key ht) offs)" using o(2) by (simp add: distinct_map inj_on_def)
  note next' = upsert_all_next [OF up dk]
  have in_rs: "r \<in> set ?rs \<longleftrightarrow> r \<in> fst ` set bs" by (auto simp: on_partition_set)
  have "(consumed c' ht ?t r \<longleftrightarrow> consumed c ht ?t r \<or> r \<in> set ?rs) \<and> \<not> (consumed c ht ?t r \<and> r \<in> set ?rs)"
  proof (cases "?rs = []")
    case True
    then have "(ht, ?t, ?p) \<notin> range_key ht ` set offs" by (auto simp: o(1) range_key_def range_of_def)
    from next'(2) [OF this] True show ?thesis by (simp add: consumed_def)
  next
    case False
    let ?x = "range_of route (?p, rec_offset (hd ?rs), rec_offset (last ?rs))"
    have x: "?x \<in> set offs" unfolding o(1) using False by blast
    have k: "range_key ht ?x = (ht, ?t, ?p)" by (simp add: range_key_def range_of_def)
    have "in_i64 (rec_offset (last ?rs) + 1)" using cons x by (auto simp: consumable_def range_of_def)
    then have n: "next_offset (ingest_offsets c') (ht, ?t, ?p) = Some (rec_offset (last ?rs) + 1)"
      using next'(1) [OF x] by (simp add: k wrap_i64_id) (simp add: range_of_def wrap_i64_id)
    have req: "v \<le> rec_offset (hd ?rs)" if "reached (next_offset (ingest_offsets c) (ht, ?t, ?p)) v" for v
      using upsert_all_requires [OF up cons x] that by (simp add: k) (simp add: range_of_def)
    have "consumed c' ht ?t r \<longleftrightarrow> rec_offset r \<le> rec_offset (last ?rs)" by (simp add: consumed_def n reached_def)
    moreover have "consumed c ht ?t r \<Longrightarrow> rec_offset r < rec_offset (hd ?rs)" using req by (force simp: consumed_def)
    moreover have "rec_offset (hd ?rs) \<le> rec_offset (last ?rs)" using covered_facts(3) [OF log cov, of "last ?rs" ?p] False by simp
    ultimately show ?thesis
      using covered_facts(3) [OF log cov, of r ?p] covered_facts(4) [OF log cov False r refl] by fastforce
  qed
  then show "consumed c' ht ?t r \<longleftrightarrow> consumed c ht ?t r \<or> r \<in> fst ` set bs" "\<not> (consumed c ht ?t r \<and> r \<in> fst ` set bs)"
    using in_rs by blast+
qed

lemma ledger_same:
  assumes "same_tables c c'" "seqs_le c c'" "ledger I cfg route ht V row T log (c, fs)"
  shows "ledger I cfg route ht V row T log (c', fs)"
proof -
  have "wf_log c'" using assms wf_log_same_tables by (auto simp: ledger_def)
  moreover have "ingest_offsets c' = ingest_offsets c" "commits c' = commits c" using assms(1) by (simp_all add: same_tables_def)
  moreover from this have "identities_ok h t p log c' = identities_ok h t p log c" "consumed c' t p = consumed c t p" for h t p
    by (simp_all add: identities_ok_def consumed_def fun_eq_iff recorded_def operation_row_def keyed_commit_def)
  ultimately show ?thesis using assms(3) by (simp add: ledger_def contents_same_tables [OF assms(1)])
qed

lemma ledger_commit:
  assumes log: "good_log log" and ht: "in_i64 (ht_id ht)" "wf_str (tr_topic route)" and sep: "separates (lb_blake3 I) (ht_id ht) (tr_topic route) log"
    and led: "ledger I cfg route ht V row T log (c, fs)"
    and cov: "covered log (consumed c (ht_id ht) (tr_topic route)) (map fst bs) rest" and T: "snd ` set bs \<subseteq> T"
    and buf: "buf_ok I cfg route (packing_key ht) bs b" and ord: "\<And>n xs. mset (order n xs) = mset xs"
    and offs: "offs = map (range_of route) (drain order n (bf_ranges b))" and ne: "bf_ranges b \<noteq> []"
    and id: "ingest_identity (lb_blake3 I) (ht_id ht) offs = Inr i"
    and rows: "sum_list (map (object_rows V fs) ps) = mset (map row (concat (map snd (bf_rows_by_day b))))"
    and cm: "commit_add de (ht_id ht) ps (IngestAdd offs i) env c = (c', x)"
  shows "ledger I cfg route ht V row T log (c', fs) \<and> (\<forall>y. x = Inr y \<longrightarrow> (\<forall>r \<in> fst ` set bs. consumed c' (ht_id ht) (tr_topic route) r))"
proof -
  let ?acc = "accepts I cfg route (packing_key ht)" and ?cons = "\<lambda>c. consumed c (ht_id ht) (tr_topic route)"
  have fl: "flushable log (tr_topic route) offs" by (rule flush_offsets_flushable [OF log cov buf ord offs ne])
  have in_log: "fst ` set bs \<subseteq> set log" using covered_facts(1) [OF log cov] by (fastforce simp: on_partition_set)
  have run: "offsets_run c c'" using commit_add_run [OF cm] flushable_wf(2) [OF log fl ht] by simp
  from led obtain kept where wf: "wf_log c" and ids: "identities_ok (lb_blake3 I) (ht_id ht) (tr_topic route) log c"
    and kept: "kept \<subseteq> {r \<in> set log. ?cons c r}" and bounds: "\<forall>r \<in> set log. ?cons c r \<longrightarrow>
           (r \<in> kept \<longrightarrow> (\<exists>now \<in> T. ?acc now r)) \<and> ((\<forall>now \<in> T. ?acc now r) \<longrightarrow> r \<in> kept)"
    and con: "contents V fs c (ht_id ht) = image_mset (row \<circ> json_row I) (mset_set kept)" by (auto simp: ledger_def)
  from cm [unfolded commit_add_txn] show ?thesis
  proof (cases rule: commit_txn_cases)
    case untouched
    have "?cons c' r" if y: "x = Inr y" and r: "r \<in> fst ` set bs" for y r
    proof -
      from untouched(3,4) y obtain cid where "reconcile i (operation_row i c) = Inr (Some cid)" by (cases y) auto
      then have "recorded c i cid" by (simp add: reconcile_recorded)
      with ids fl id have reach: "\<forall>z \<in> set offs. reached (next_offset (ingest_offsets c) (range_key (ht_id ht) z)) (or_last z + 1)"
        unfolding identities_ok_def by blast
      let ?rs = "on_partition (fst r) (map fst bs)"
      have rs: "r \<in> set ?rs" using r by (auto simp: on_partition_set)
      let ?z = "range_of route (fst r, rec_offset (hd ?rs), rec_offset (last ?rs))"
      have "?z \<in> set offs" unfolding flush_offsets(1) [OF buf ord offs] using rs by fastforce
      from bspec [OF reach this] covered_facts(3) [OF log cov rs] have "?cons c r"
        by (auto simp: consumed_def range_key_def range_of_def reached_def)
      with untouched(1) show ?thesis by (simp add: consumed_def same_tables_def)
    qed
    with ledger_same [OF untouched(1,2) led] show ?thesis by blast
  next
    case effect
    from effect(1) obtain orows f where up: "upsert_all (ht_id ht) offs (ingest_offsets c) = Some orows"
      and c': "c' = (applied env de (ht_id ht) (Add ps) (Some i) orows c)\<lparr>armed_fault := f\<rparr>"
      by (auto simp: took_effect_def)
    have up': "upsert_all (ht_id ht) offs (ingest_offsets c) = Some (ingest_offsets c')" using up by (simp add: c')
    note con' = consumed_flush [OF log cov buf ord offs up' ht ne]
    define new where "new = fst ` {x \<in> set bs. ?acc (snd x) (fst x)}"
    have db: "distinct (map fst bs)" by (rule distinct_by_partition) (rule covered_facts(2) [OF log cov])
    have fin: "finite kept" "finite new" using kept finite_subset by (fastforce simp: new_def)+
    have nb: "new \<subseteq> fst ` set bs" by (auto simp: new_def)
    with kept con'(2) have dis: "kept \<inter> new = {}" by blast
    have "contents V fs c' (ht_id ht) = contents V fs (applied env de (ht_id ht) (Add ps) (Some i) orows c) (ht_id ht)"
      by (simp add: contents_def c')
    also have "\<dots> = contents V fs c (ht_id ht) + mset (map row (concat (map snd (bf_rows_by_day b))))"
      using contents_applied [of V fs env de "ht_id ht" "Add ps" "Some i" orows c "ht_id ht"] rows
      by (simp add: tombstone_hit_def)
    also have "mset (map row (concat (map snd (bf_rows_by_day b)))) = image_mset (row \<circ> json_row I) (mset_set new)"
      using buf accepted_rows [OF db, of I "\<lambda>x. ?acc (snd x) (fst x)"] by (simp add: buf_ok_def new_def multiset.map_comp)
    also have "contents V fs c (ht_id ht) + image_mset (row \<circ> json_row I) (mset_set new) = image_mset (row \<circ> json_row I) (mset_set (kept \<union> new))"
      by (simp add: con mset_set_Union [OF fin dis])
    finally have C: "contents V fs c' (ht_id ht) = image_mset (row \<circ> json_row I) (mset_set (kept \<union> new))" .
    have sub: "kept \<union> new \<subseteq> {r \<in> set log. ?cons c' r}" using kept in_log nb con'(1) by blast
    have B: "(r \<in> kept \<union> new \<longrightarrow> (\<exists>now \<in> T. ?acc now r)) \<and> ((\<forall>now \<in> T. ?acc now r) \<longrightarrow> r \<in> kept \<union> new)"
      if r: "r \<in> set log" "?cons c' r" for r
    proof (cases "?cons c r")
      case True
      then have "r \<notin> fst ` set bs" using con'(2) [OF r(1)] by blast
      then have "r \<notin> new" by (auto simp: new_def)
      with bspec [OF bounds r(1)] True show ?thesis by blast
    next
      case False
      with r con'(1) obtain now where now: "(r, now) \<in> set bs" by fastforce
      then have "now \<in> T" using T by force
      have "r \<notin> kept" using False kept by blast
      moreover have "r \<in> new \<Longrightarrow> \<exists>now \<in> T. ?acc now r" using T by (auto simp: new_def)
      moreover have "?acc now r \<Longrightarrow> r \<in> new" unfolding new_def using now by force
      ultimately show ?thesis using \<open>now \<in> T\<close> by blast
    qed
    have "wf_log c'" by (rule wf_log_took_effect [OF wf effect(1)])
    moreover have "identities_ok (lb_blake3 I) (ht_id ht) (tr_topic route) log c'"
      using identities_ok_commit [OF log ht sep _ fl id run ids] effect(1) by simp
    ultimately have "ledger I cfg route ht V row T log (c', fs)"
      unfolding ledger_def fst_conv snd_conv using sub B C by blast
    moreover have "\<forall>r \<in> fst ` set bs. ?cons c' r" using con'(1) in_log by blast
    ultimately show ?thesis by blast
  qed
qed

section \<open>The route beside others\<close>

lemma ledger_framed: "framed (ledger I cfg route ht V row T log)"
  unfolding framed_def
proof (intro conjI allI impI, elim conjE)
  fix c fs p f assume l: "ledger I cfg route ht V row T log (c, fs)" and p: "p \<notin> part_paths c"
  have "object_rows V (fs(p := Some f)) (pr_meta q) = object_rows V fs (pr_meta q)" if "q \<in> set (parts c)" for q
    using p that by (auto simp: object_rows_def part_paths_def)
  then have "contents V (fs(p := Some f)) c (ht_id ht) = contents V fs c (ht_id ht)"
    unfolding contents_def by (intro arg_cong [where f = sum_list] map_cong) auto
  with l show "ledger I cfg route ht V row T log (c, fs(p := Some f))" by (simp add: ledger_def)
next
  fix c :: catalog and fs env h paths assume l: "ledger I cfg route ht V row T log (c, fs)"
  obtain rows where c': "fst (register_pending_objects env h paths c) = c\<lparr>pending_objects := rows\<rparr>" using register_effect by blast
  have "identities_ok b k t log (c\<lparr>pending_objects := rows\<rparr>) = identities_ok b k t log c"
    "consumed (c\<lparr>pending_objects := rows\<rparr>) k t = consumed c k t" for b k t
    by (simp_all add: identities_ok_def consumed_def fun_eq_iff recorded_def operation_row_def keyed_commit_def)
  moreover have "wf_log (c\<lparr>pending_objects := rows\<rparr>) = wf_log c" by (simp add: wf_log_def wf_commits_def wf_parts_def wf_offsets_def)
  moreover have "contents V fs (c\<lparr>pending_objects := rows\<rparr>) (ht_id ht) = contents V fs c (ht_id ht)" by (simp add: contents_def)
  ultimately show "ledger I cfg route ht V row T log (fst (register_pending_objects env h paths c), fs)"
    using l by (simp add: c' ledger_def)
qed

lemma covered_run:
  assumes "covered log (consumed c ht topic) bs rest" "offsets_run c c'"
  shows "covered log (consumed c' ht topic) bs rest"
  using covered_mono [OF assms(1)] run_reached [OF assms(2)] by (simp add: consumed_def)

lemma seen_run:
  assumes "\<forall>r \<in> S. r \<in> B \<or> consumed c ht topic r" "offsets_run c c'"
  shows "\<forall>r \<in> S. r \<in> B \<or> consumed c' ht topic r"
  using assms(1) run_reached [OF assms(2)] by (auto simp: consumed_def)

text \<open>What the route is assumed to work with.\<close>

definition ingest_world ::
  "'f wenv \<Rightarrow> ('w, 'f) ingest_libs \<Rightarrow> ingest_config \<Rightarrow> table_route \<Rightarrow> hypertable \<Rightarrow> table_columns
   \<Rightarrow> (string \<Rightarrow> schema \<Rightarrow> data_type \<Rightarrow> data_type \<Rightarrow> cells \<Rightarrow> cell) \<Rightarrow> (json \<Rightarrow> cells) \<Rightarrow> i64 set \<Rightarrow> log_record list \<Rightarrow> (nat \<Rightarrow> string set) \<Rightarrow> bool" where
  "ingest_world we I cfg route ht cols E dec T log P \<longleftrightarrow> good_log log \<and> in_i64 (ht_id ht) \<and> wf_str (tr_topic route) \<and>
     separates (lb_blake3 I) (ht_id ht) (tr_topic route) log \<and> parse (table_schema ht) = Inr cols \<and> ingest_env_ok I cols E dec \<and>
     (\<forall>n. output_path we (ht_id ht) 0 n \<in> P n) \<and>
     rely we P (ledger I cfg route ht (file_view (lb_arrow I) (lb_df I) cols) (table_row E dec cols) T log)"

text \<open>The state of the event loop: the messages \<open>S\<close> were received, the buffers hold \<open>bs\<close>.\<close>

definition loop_inv where
  "loop_inv I cfg route ht cols E dec T log P S bs rest b w \<longleftrightarrow>
     (\<forall>r \<in> S. r \<in> fst ` set bs \<or> consumed (w_catalog w) (ht_id ht) (tr_topic route) r) \<and>
     ledger I cfg route ht (file_view (lb_arrow I) (lb_df I) cols) (table_row E dec cols) T log (w_catalog w, w_files w) \<and>
     fresh_paths P w \<and> buf_ok I cfg route (packing_key ht) bs b \<and> snd ` set bs \<subseteq> T \<and>
     covered log (consumed (w_catalog w) (ht_id ht) (tr_topic route)) (map fst bs) rest"

lemma flusher_flush_ok:
  assumes env: "ingest_world we I cfg route ht cols E dec T log P" and inv: "loop_inv I cfg route ht cols E dec T log P S bs rest b w"
    and ne: "bf_ranges b \<noteq> []" and items: "encode_days I cols ht route (drain (il_days I) n (bf_rows_by_day b)) = Inr items"
    and fl: "flusher_flush we I ht items (map (range_of route) (drain (il_partitions I) m (bf_ranges b))) w = (w', r)"
  shows "\<exists>b' bs'. loop_inv I cfg route ht cols E dec T log P S bs' rest b' w'"
    "r = Inr y \<Longrightarrow> loop_inv I cfg route ht cols E dec T log P S [] rest empty_buffers w'"
proof -
  let ?V = "file_view (lb_arrow I) (lb_df I) cols" and ?row = "table_row E dec cols"
  let ?J = "ledger I cfg route ht ?V ?row T log" and ?W = "write_libs.truncate I"
  define offs where "offs = map (range_of route) (drain (il_partitions I) m (bf_ranges b))"
  have e: "good_log log" "in_i64 (ht_id ht)" "wf_str (tr_topic route)" "separates (lb_blake3 I) (ht_id ht) (tr_topic route) log"
    "ingest_env_ok I cols E dec" "\<forall>n. output_path we (ht_id ht) 0 n \<in> P n" "rely we P ?J"
    using env by (simp_all add: ingest_world_def)
  have i: "?J (w_catalog w, w_files w)" "fresh_paths P w" "buf_ok I cfg route (packing_key ht) bs b" "snd ` set bs \<subseteq> T"
    "covered log (consumed (w_catalog w) (ht_id ht) (tr_topic route)) (map fst bs) rest"
    "\<forall>r \<in> S. r \<in> fst ` set bs \<or> consumed (w_catalog w) (ht_id ht) (tr_topic route) r" using inv by (simp_all add: loop_inv_def)
  have ord: "mset (il_days I n xs) = mset xs" "mset (il_partitions I n ps) = mset ps" for n xs ps
    using e(5) by (simp_all add: ingest_env_ok_def)
  have "mset (drain (il_days I) n (bf_rows_by_day b)) = mset (bf_rows_by_day b)"
    using drain_mset [of "il_days I" "bf_rows_by_day b" n] ord(1) i(3) by (simp add: buf_ok_def)
  then have "mset (concat (map snd (drain (il_days I) n (bf_rows_by_day b)))) = mset (concat (map snd (bf_rows_by_day b)))"
    by (simp add: mset_concat flip: sum_mset_sum_list)
  then have "mset (map ?row (concat (map snd (drain (il_days I) n (bf_rows_by_day b))))) = mset (map ?row (concat (map snd (bf_rows_by_day b))))"
    by (simp only: mset_map)
  with encode_days_view [OF e(5) items] have rows: "sum_list (map (view_rows ?V \<circ> (ep_bytes \<circ> fi_part)) items)
      = mset (map ?row (concat (map snd (bf_rows_by_day b))))" by simp
  have "(\<exists>b' bs'. loop_inv I cfg route ht cols E dec T log P S bs' rest b' w') \<and>
    (\<forall>y. r = Inr y \<longrightarrow> loop_inv I cfg route ht cols E dec T log P S [] rest empty_buffers w')"
  proof (cases "ingest_identity (lb_blake3 I) (ht_id ht) offs")
    case (Inl x)
    with fl have "w' = w" "\<exists>z. r = Inl z" by (auto simp: flusher_flush_def act_bind_def act_lift_def act_raise_def offs_def [symmetric])
    with inv show ?thesis by auto
  next
    case (Inr ident)
    obtain q where pub: "publish_add we ?W ht items (IngestAdd offs ident) w = (w', q)" and r: "\<And>y. r = Inr y \<Longrightarrow> q = Inr y"
      using fl Inr by (auto simp: flusher_flush_def act_bind_def act_lift_def act_return_def offs_def [symmetric] act_map_err_def
        split: prod.splits sum.splits stop.splits)
    from publish_add_outcome [OF e(7) ledger_framed e(6) i(1,2) pub] have fresh: "fresh_paths P w'"
      and "(\<exists>x. q = Inl x) \<and> ?J (w_catalog w', w_files w') \<and> offsets_run (w_catalog w) (w_catalog w') \<or>
        committed_from P ?J ?W (ht_id ht) items (IngestAdd offs ident) w w' q" by blast+
    then consider x where "q = Inl x" "?J (w_catalog w', w_files w')" "offsets_run (w_catalog w) (w_catalog w')"
      | "committed_from P ?J ?W (ht_id ht) items (IngestAdd offs ident) w w' q" by blast
    then show ?thesis
    proof cases
      case 1
      then have "loop_inv I cfg route ht cols E dec T log P S bs rest b w'"
        using fresh i(3,4) covered_run [OF i(5)] seen_run [OF i(6)] by (simp add: loop_inv_def)
      with 1(1) r show ?thesis by auto
    next
      case 2
      then obtain c env ps x where c: "?J (c, w_files w')" "offsets_run (w_catalog w) c"
        "commit_add (lb_de ?W) (ht_id ht) ps (IngestAdd offs ident) env c = (w_catalog w', x)"
        and q: "(\<exists>d. q = Inl d) \<or> q = map_sum (Raised \<circ> WCatalog) id x"
        and ps: "\<And>V. sum_list (map (object_rows V (w_files w')) ps) = sum_list (map (view_rows V \<circ> (ep_bytes \<circ> fi_part)) items)"
        unfolding committed_from_def by blast
      note cov = covered_run [OF i(5) c(2)]
      have led: "?J (w_catalog w', w_files w')" and past: "\<forall>y. x = Inr y \<longrightarrow> (\<forall>r \<in> fst ` set bs. consumed (w_catalog w') (ht_id ht) (tr_topic route) r)"
        using ledger_commit [OF e(1-4) c(1) cov i(4,3) ord(2) offs_def ne Inr _ c(3)] ps [of ?V] rows by simp_all
      have "list_all consumable offs"
        by (rule flushable_wf(2) [OF e(1) flush_offsets_flushable [OF e(1) cov i(3) ord(2) offs_def ne] e(2,3)])
      then have run: "offsets_run c (w_catalog w')" using commit_add_run [OF c(3)] by simp
      note cov' = covered_run [OF cov run]
      note seen = seen_run [OF i(6) rtranclp_trans [OF c(2) run]]
      have "loop_inv I cfg route ht cols E dec T log P S bs rest b w'" using led fresh i(3,4) cov' seen by (simp add: loop_inv_def)
      moreover have "loop_inv I cfg route ht cols E dec T log P S [] rest empty_buffers w'" if "r = Inr y" for y
      proof -
        from r [OF that] q have "\<exists>y. x = Inr y" by (cases x) auto
        with past have p: "\<forall>r \<in> set (map fst bs). consumed (w_catalog w') (ht_id ht) (tr_topic route) r" by auto
        have "\<forall>r \<in> S. consumed (w_catalog w') (ht_id ht) (tr_topic route) r" using seen p unfolding set_map by blast
        with covered_flushed [OF cov' p] led fresh show ?thesis by (simp add: loop_inv_def buf_ok_empty)
      qed
      ultimately show ?thesis by blast
    qed
  qed
  then show "\<exists>b' bs'. loop_inv I cfg route ht cols E dec T log P S bs' rest b' w'"
    "r = Inr y \<Longrightarrow> loop_inv I cfg route ht cols E dec T log P S [] rest empty_buffers w'" by blast+
qed

lemma loop_inv_others:
  assumes "ingest_world we I cfg route ht cols E dec T log P" "loop_inv I cfg route ht cols E dec T log P S bs rest b w"
  shows "loop_inv I cfg route ht cols E dec T log P S bs rest b (others_ran we w)"
proof -
  let ?J = "ledger I cfg route ht (file_view (lb_arrow I) (lb_df I) cols) (table_row E dec cols) T log"
  have r: "rely we P ?J" using assms(1) by (simp add: ingest_world_def)
  have i: "?J (w_catalog w, w_files w)" "fresh_paths P w"
    "covered log (consumed (w_catalog w) (ht_id ht) (tr_topic route)) (map fst bs) rest"
    "\<forall>r \<in> S. r \<in> fst ` set bs \<or> consumed (w_catalog w) (ht_id ht) (tr_topic route) r" using assms(2) by (simp_all add: loop_inv_def)
  note k = others_keep [OF r i(1,2)]
  show ?thesis using assms(2) k(1,2) covered_run [OF i(3) k(3)] seen_run [OF i(4) k(3)] by (simp add: loop_inv_def)
qed

lemma backpressure_ok:
  assumes env: "ingest_world we I cfg route ht cols E dec T log P" and inv: "loop_inv I cfg route ht cols E dec T log P S bs rest b w"
    and d: "deferred_by_backpressure we cfg ht b force w = (w', r)"
  shows "loop_inv I cfg route ht cols E dec T log P S bs rest b w'"
proof -
  have ran: "loop_inv I cfg route ht cols E dec T log P S bs rest b (others_ran we w)" by (rule loop_inv_others [OF env inv])
  have pure: "fst (max_live_l0_parts env h pvs c) = c" for env h pvs c
    by (simp add: max_live_l0_parts_def query_def tx_return_def split: option.split)
  have "w' = w \<or> w' = others_ran we w"
  proof (cases "\<not> force \<and> bf_rows_by_day b \<noteq> []")
    case True
    obtain w1 q where c: "act_call we ICatalog (\<lambda>env. max_live_l0_parts env (ht_id ht) (map (day_value \<circ> fst) (bf_rows_by_day b))) w = (w1, q)"
      by (rule prod.exhaust)
    from act_call_read(1) [OF c pure] d c True show ?thesis
      by (auto simp: deferred_by_backpressure_def act_bind_def act_return_def split: sum.splits)
  qed (use d in \<open>auto simp: deferred_by_backpressure_def act_return_def\<close>)
  with inv ran show ?thesis by blast
qed

lemma flush_ok:
  assumes env: "ingest_world we I cfg route ht cols E dec T log P" and inv: "loop_inv I cfg route ht cols E dec T log P S bs rest b w"
    and fl: "flush we I cfg route ht b force w = (w', r)"
  shows "(\<exists>b' bs'. loop_inv I cfg route ht cols E dec T log P S bs' rest b' w') \<and>
    (\<forall>b'. r = Inr b' \<longrightarrow> (\<exists>bs'. loop_inv I cfg route ht cols E dec T log P S bs' rest b' w' \<and> (force \<longrightarrow> bs' = [])))"
proof (cases "bf_ranges b = []")
  case True
  then have "\<forall>p. on_partition p (map fst bs) = []" using inv by (auto simp: loop_inv_def buf_ok_def Let_def split: if_splits)
  then have "bs = []" by (cases bs) (auto simp: on_partition_def split: if_splits)
  with True fl inv show ?thesis by (auto simp: flush_def act_return_def)
next
  case False
  obtain w1 q where d: "deferred_by_backpressure we cfg ht b force w = (w1, q)" by (rule prod.exhaust)
  note i1 = backpressure_ok [OF env inv d]
  have cols: "parse (table_schema ht) = Inr cols" using env by (simp add: ingest_world_def)
  consider x where "q = Inl x" | "q = Inr True" | "q = Inr False" by (metis (full_types) obj_sumE)
  then show ?thesis
  proof cases
    case 1
    with fl False d i1 show ?thesis by (auto simp: flush_def act_bind_def)
  next
    case 2
    with fl False d have "w' = w1" "r = Inr (b\<lparr>bf_deferred := bf_deferred b + 1\<rparr>)" by (auto simp: flush_def act_bind_def act_return_def)
    moreover have "\<not> force" using d 2 by (auto simp: deferred_by_backpressure_def act_return_def)
    moreover have "loop_inv I cfg route ht cols E dec T log P S bs rest (b\<lparr>bf_deferred := bf_deferred b + 1\<rparr>) w1"
      using i1 by (simp add: loop_inv_def buf_ok_deferred)
    ultimately show ?thesis by blast
  next
    case 3
    let ?days = "drain (il_days I) (w_tick w1) (bf_rows_by_day b)" and ?parts = "drain (il_partitions I) (w_tick w1) (bf_ranges b)"
    show ?thesis
    proof (cases "encode_days I cols ht route ?days")
      case (Inl x)
      with fl False d 3 cols have "w' = w1" "\<exists>y. r = Inl y"
        by (auto simp: flush_def act_bind_def act_lift_def act_raise_def act_return_def)
      with i1 show ?thesis by auto
    next
      case (Inr items)
      obtain w2 q2 where f: "flusher_flush we I ht items (map (range_of route) ?parts) w1 = (w2, q2)" by (rule prod.exhaust)
      with fl False d 3 cols Inr have "w' = w2" "\<And>b'. r = Inr b' \<Longrightarrow> b' = empty_buffers \<and> (\<exists>y. q2 = Inr y)"
        by (auto simp: flush_def act_bind_def act_lift_def act_raise_def act_return_def split: sum.splits)
      with flusher_flush_ok [OF env i1 False Inr f] show ?thesis by blast
    qed
  qed
qed

lemma route_loop_ok:
  assumes env: "ingest_world we I cfg route ht cols E dec T log P"
  shows "route_loop we I cfg route ht b evs w = (w', r) \<Longrightarrow>
    loop_inv I cfg route ht cols E dec T log P S bs (map fst (messages evs)) b w \<Longrightarrow> snd ` set (messages evs) \<subseteq> T \<Longrightarrow>
    (\<exists>S' b' bs' rest. loop_inv I cfg route ht cols E dec T log P S' bs' rest b' w') \<and>
    (r = Inr () \<and> StopRoute \<in> set evs \<longrightarrow>
       (\<forall>x \<in> S \<union> fst ` set (messages (takeWhile (\<lambda>e. e \<noteq> StopRoute) evs)). consumed (w_catalog w') (ht_id ht) (tr_topic route) x))"
proof (induction evs arbitrary: b bs w S)
  case Nil
  then show ?case by (auto simp: act_return_def)
next
  case (Cons ev evs)
  let ?goal = "\<lambda>S. (\<exists>S' b' bs' rest. loop_inv I cfg route ht cols E dec T log P S' bs' rest b' w') \<and>
    (r = Inr () \<and> StopRoute \<in> set evs \<longrightarrow>
       (\<forall>x \<in> S \<union> fst ` set (messages (takeWhile (\<lambda>e. e \<noteq> StopRoute) evs)). consumed (w_catalog w') (ht_id ht) (tr_topic route) x))"
  have flushed: "?goal S1"
    if l: "act_bind (flush we I cfg route ht b1 False) (\<lambda>b'. route_loop we I cfg route ht b' evs) w = (w', r)"
      and i: "loop_inv I cfg route ht cols E dec T log P S1 bs1 (map fst (messages evs)) b1 w"
      and T: "snd ` set (messages evs) \<subseteq> T" for b1 bs1 S1
  proof -
    obtain w1 q where f: "flush we I cfg route ht b1 False w = (w1, q)" by (rule prod.exhaust)
    note ok = flush_ok [OF env i f]
    show ?thesis
    proof (cases q)
      case (Inl x)
      with l f have "w' = w1" "r \<noteq> Inr ()" by (auto simp: act_bind_def)
      with ok show ?thesis by blast
    next
      case (Inr b')
      with l f have l': "route_loop we I cfg route ht b' evs w1 = (w', r)" by (simp add: act_bind_def)
      from ok Inr obtain bs' where i': "loop_inv I cfg route ht cols E dec T log P S1 bs' (map fst (messages evs)) b' w1" by auto
      from Cons.IH [OF l' i' T] show ?thesis .
    qed
  qed
  show ?case
  proof (cases ev)
    case RecvError
    with Cons.prems show ?thesis by (auto simp: act_raise_def)
  next
    case StopRoute
    obtain w1 q where f: "flush we I cfg route ht b True w = (w1, q)" by (rule prod.exhaust)
    with Cons.prems(1) StopRoute have w': "w' = w1" "r = Inr () \<Longrightarrow> \<exists>b'. q = Inr b'" by (auto simp: act_bind_def act_return_def split: sum.splits)
    note ok = flush_ok [OF env Cons.prems(2) f]
    have "\<forall>x \<in> S. consumed (w_catalog w') (ht_id ht) (tr_topic route) x" if "r = Inr ()"
    proof -
      from w'(2) [OF that] obtain b' where "q = Inr b'" by blast
      with ok have "loop_inv I cfg route ht cols E dec T log P S [] (map fst (messages (ev # evs))) b' w1" by blast
      then show ?thesis by (simp add: w'(1) loop_inv_def)
    qed
    moreover have "\<exists>S' b' bs' rest. loop_inv I cfg route ht cols E dec T log P S' bs' rest b' w'" using ok w'(1) by blast
    ultimately show ?thesis by (simp add: StopRoute)
  next
    case FlushTick
    with Cons.prems flushed [of b S bs] show ?thesis by simp
  next
    case (Message payload p off now)
    let ?b = "buffer_message I cfg route (packing_key ht) payload p off now b" and ?bs = "bs @ [((p, off, payload), now)]"
    let ?S = "insert (p, off, payload) S"
    have i: "loop_inv I cfg route ht cols E dec T log P ?S ?bs (map fst (messages evs)) ?b w"
      using Cons.prems(2,3) Message buffer_message_ok [of I cfg route "packing_key ht" bs b p off payload now]
        covered_message [of log _ "map fst bs" "(p, off, payload)" "map fst (messages evs)"]
      by (simp add: loop_inv_def)
    have T: "snd ` set (messages evs) \<subseteq> T" using Cons.prems(3) Message by simp
    have "?goal ?S"
    proof (cases "bf_total_rows ?b \<ge> ic_max_buffer_rows cfg")
      case False
      with Cons.prems(1) Message have "route_loop we I cfg route ht ?b evs w = (w', r)" by (simp add: Let_def)
      from Cons.IH [OF this i T] show ?thesis .
    next
      case True
      with Cons.prems(1) Message flushed [OF _ i T] show ?thesis by (simp add: Let_def)
    qed
    then show ?thesis by (simp add: Message)
  qed
qed


section \<open>Assignment\<close>

lemma stored_offset:
  "map_of (map (\<lambda>r. (io_partition r, io_next r)) (filter (\<lambda>r. io_hypertable r = ht \<and> io_topic r = topic) rows)) p
     = next_offset rows (ht, topic, p)"
  by (induction rows) (auto simp: next_offset_def offset_at_def offset_key_def)

lemma sorted_cut:
  "sorted_wrt (<) (map f xs) \<Longrightarrow> xs = filter (\<lambda>x. f x < (n :: int)) xs @ filter (\<lambda>x. n \<le> f x) xs"
proof (induction xs)
  case (Cons x xs)
  show ?case
  proof (cases "f x < n")
    case True
    with Cons show ?thesis by simp
  next
    case False
    with Cons.prems have "filter (\<lambda>x. f x < n) xs = []" by (force simp: filter_empty_conv)
    moreover have "filter (\<lambda>x. n \<le> f x) xs = xs" using Cons.prems False by (force simp: filter_id_conv)
    ultimately show ?thesis using False by simp
  qed
qed simp

lemma assigned_covered:
  assumes log: "good_log log" and del: "delivers log kafka"
    and st: "stored = map (\<lambda>r. (io_partition r, io_next r)) (filter (\<lambda>r. io_hypertable r = ht \<and> io_topic r = topic) (ingest_offsets c))"
  shows "covered log (consumed c ht topic) [] (map fst (messages (kafka (desired_assignment existing AllPartitions stored))))"
  unfolding covered_def
proof
  fix p
  let ?a = "desired_assignment existing AllPartitions stored" and ?L = "on_partition p log"
  let ?ms = "on_partition p (map fst (messages (kafka ?a)))"
  note d = del [unfolded delivers_def, THEN spec, THEN spec, of p ?a]
  show "\<exists>pre. prefix (pre @ on_partition p [] @ ?ms) ?L \<and> (\<forall>r \<in> set pre. consumed c ht topic r)"
  proof (cases "map_of (map (\<lambda>a. (pst_partition a, pst_offset a)) ?a) p")
    case None
    with d have "?ms = []" by simp
    then show ?thesis by (intro exI [of _ "[]"]) (simp add: on_partition_def)
  next
    case (Some start)
    from map_of_SomeD [OF this] have start: "start = (case map_of stored p of Some n \<Rightarrow> n | None \<Rightarrow> 0)"
      by (auto simp: desired_assignment_def)
    let ?pre = "filter (\<lambda>r. rec_offset r < start) ?L"
    have "?L = ?pre @ filter (\<lambda>r. start \<le> rec_offset r) ?L" using log by (intro sorted_cut) (simp add: good_log_def)
    with d Some have "prefix (?pre @ ?ms) ?L" by (metis (no_types, lifting) option.simps(5) same_prefix_prefix)
    moreover have "consumed c ht topic r" if r: "r \<in> set ?pre" for r
    proof -
      from r have rl: "r \<in> set log" "fst r = p" "rec_offset r < start" by (auto simp: on_partition_set)
      moreover have "0 \<le> rec_offset r" using log rl(1) by (simp add: good_log_def)
      ultimately obtain n where "map_of stored p = Some n" "rec_offset r + 1 \<le> n" by (auto simp: start split: option.splits)
      then show ?thesis using rl(2) by (auto simp: consumed_def reached_def st stored_offset)
    qed
    ultimately show ?thesis by (intro exI [of _ ?pre]) (simp add: on_partition_def)
  qed
qed

lemma connect_ok:
  assumes env: "ingest_world we I cfg route ht cols E dec T log P" and del: "delivers log kafka"
    and w: "ledger I cfg route ht (file_view (lb_arrow I) (lb_df I) cols) (table_row E dec cols) T log (w_catalog w, w_files w)" "fresh_paths P w"
    and c: "connect we route ht polls w = (w', r)"
  shows "loop_inv I cfg route ht cols E dec T log P {} [] [] empty_buffers w'"
    "r = Inr assigned \<Longrightarrow> loop_inv I cfg route ht cols E dec T log P {} [] (map fst (messages (kafka assigned))) empty_buffers w'"
proof -
  let ?m = "\<lambda>env. read_ingest_offsets env (ht_id ht) (tr_topic route)"
  have pure: "fst (?m env c) = c" for env c by (simp add: read_ingest_offsets_def query_def split: option.split)
  obtain w1 q where a: "act_call we ICatalog ?m w = (w1, q)" by (rule prod.exhaust)
  note rd = act_call_read [OF a pure]
  have log: "good_log log" using env by (simp add: ingest_world_def)
  have none: "covered log Q [] []" for Q unfolding covered_def by (intro allI exI [of _ "[]"]) (simp add: on_partition_def)
  have "loop_inv I cfg route ht cols E dec T log P {} [] [] empty_buffers w" using w none by (simp add: loop_inv_def buf_ok_empty)
  from loop_inv_others [OF env this] have i1: "loop_inv I cfg route ht cols E dec T log P {} [] [] empty_buffers w1" by (simp add: rd(1))
  have w': "w' = w1" using c a by (auto simp: connect_def act_bind_def act_lift_def act_return_def act_raise_def split: sum.splits)
  with i1 show "loop_inv I cfg route ht cols E dec T log P {} [] [] empty_buffers w'" by simp
  show "loop_inv I cfg route ht cols E dec T log P {} [] (map fst (messages (kafka assigned))) empty_buffers w'" if "r = Inr assigned"
  proof -
    from c a that obtain stored existing where q: "q = Inr stored" and as: "assigned = desired_assignment existing AllPartitions stored"
      by (auto simp: connect_def act_bind_def act_lift_def act_return_def act_raise_def split: sum.splits)
    from rd(2) [OF q] have "stored = map (\<lambda>r. (io_partition r, io_next r)) (filter (\<lambda>r. io_hypertable r = ht_id ht \<and> io_topic r = tr_topic route) (ingest_offsets (w_catalog w1)))"
      by (auto simp: read_ingest_offsets_def query_def split: option.splits)
    from assigned_covered [OF log del this, of existing] i1 w' show ?thesis by (simp add: as loop_inv_def)
  qed
qed

lemma route_work_ok:
  assumes env: "ingest_world we I cfg route ht cols E dec T log P" and del: "delivers log kafka"
    and T: "\<And>assigned. snd ` set (messages (kafka assigned)) \<subseteq> T"
    and w: "ledger I cfg route ht (file_view (lb_arrow I) (lb_df I) cols) (table_row E dec cols) T log (w_catalog w, w_files w)" "fresh_paths P w"
    and run: "route_work we I cfg route ht polls kafka w = (w', r)"
  shows "(\<exists>S b bs rest. loop_inv I cfg route ht cols E dec T log P S bs rest b w') \<and>
    (\<forall>w1 assigned. connect we route ht polls w = (w1, Inr assigned) \<and> r = Inr () \<and> StopRoute \<in> set (kafka assigned) \<longrightarrow>
       (\<forall>x \<in> fst ` set (messages (takeWhile (\<lambda>e. e \<noteq> StopRoute) (kafka assigned))). consumed (w_catalog w') (ht_id ht) (tr_topic route) x))"
proof -
  obtain w1 q where c: "connect we route ht polls w = (w1, q)" by (rule prod.exhaust)
  note ok = connect_ok [OF env del w c]
  show ?thesis
  proof (cases q)
    case (Inl x)
    with run c have "w' = w1" by (simp add: route_work_def act_bind_def)
    with ok(1) c Inl show ?thesis by auto
  next
    case (Inr assigned)
    with run c have l: "route_loop we I cfg route ht empty_buffers (kafka assigned) w1 = (w', r)" by (simp add: route_work_def act_bind_def)
    from route_loop_ok [OF env l ok(2) [OF Inr] T] c Inr show ?thesis by simp
  qed
qed

section \<open>Properties\<close>

text \<open>C3: ingest is exactly-once. A route consumes a Kafka log while other clients change the catalog
  and the store under the rely: the ledger (per partition the offset is past exactly the consumed
  records, and the table holds one row for each kept record and nothing else, where a consumed record
  is kept when it was acceptable at every time a message was buffered, and only when it was
  acceptable at some) holds however the route ends: crashes between any two steps, failed or ambiguous
  commits, lost races for an offset range, replays. When the route stops cleanly, every message it was
  handed before the stop is consumed.\<close>

theorem ingest_exactly_once:
  assumes "ingest_world we I cfg route ht cols E dec T log P" "delivers log kafka"
    and "\<And>assigned. snd ` set (messages (kafka assigned)) \<subseteq> T"
    and "ledger I cfg route ht (file_view (lb_arrow I) (lb_df I) cols) (table_row E dec cols) T log (w_catalog w, w_files w)"
    and "fresh_paths P w" "route_work we I cfg route ht polls kafka w = (w', r)"
  shows "ledger I cfg route ht (file_view (lb_arrow I) (lb_df I) cols) (table_row E dec cols) T log (w_catalog w', w_files w') \<and>
    fresh_paths P w' \<and>
    (\<forall>w1 assigned. connect we route ht polls w = (w1, Inr assigned) \<and> r = Inr () \<and> StopRoute \<in> set (kafka assigned) \<longrightarrow>
      (\<forall>x \<in> fst ` set (messages (takeWhile (\<lambda>e. e \<noteq> StopRoute) (kafka assigned))). consumed (w_catalog w') (ht_id ht) (tr_topic route) x))"
  using route_work_ok [OF assms] unfolding loop_inv_def by blast

abbreviation demo_we :: "(schema \<times> cells list list) wenv" where
  "demo_we \<equiv> calm_wenv 5"

definition demo_ingest_libs :: "(demo_writer, schema \<times> cells list list) ingest_libs" where
  "demo_ingest_libs = \<lparr>lb_blake3 = (\<lambda>bs. drop (length bs - 18) bs), lb_de = (\<lambda>_. None), lb_text = (\<lambda>_. []), lb_arrow = demo_arrow,
     lb_df = \<lparr>df_refs = (\<lambda>_ _. None), df_compile = (\<lambda>_ _ _ _. None)\<rparr>,
     wl_lexsort = (\<lambda>fs rs. map_option (\<lambda>conv. sort_key (\<lambda>i. conv (rs ! i)) [0..<length rs]) (ar_converter demo_arrow fs)),
     wl_can_cast = (\<lambda>_ _. False), wl_cast = (\<lambda>_ _ _. None), wl_is_timestamp = (\<lambda>_. False), wl_memory = (\<lambda>_. 0),
     wl_value = (\<lambda>_ _. None), wl_json_text = (\<lambda>_. []),
     il_parse = (\<lambda>s. if s = ''five'' then Some (JObject [(''k'', JNumber (JInt 5))]) else None),
     il_decode = (\<lambda>s rows. if length s = 1 then Some (Some (map (\<lambda>_. [I64 5]) rows)) else None),
     il_day = (\<lambda>_. Some ''1970-01-01''), il_days = (\<lambda>_ xs. xs), il_partitions = (\<lambda>_ xs. rev xs)\<rparr>"

definition demo_ingest_config :: ingest_config where
  "demo_ingest_config = \<lparr>ic_brokers = [], ic_group_id = [], ic_flush_interval_ms = 1000, ic_max_buffer_rows = 100,
     ic_l0_slowdown_parts = 10, ic_l0_stop_parts = 20, ic_warn_partitions_per_flush = 10, ic_max_event_age_days = 1,
     ic_max_event_future_secs = 60\<rparr>"

definition demo_route :: table_route where
  "demo_route = \<lparr>tr_topic = ''t'', tr_hypertable = ''events'', tr_ts_column = ''k''\<rparr>"

definition demo_log :: "log_record list" where
  "demo_log = [(0, 0, Some ''five''), (0, 1, None)]"

definition demo_kafka :: "partition_start list \<Rightarrow> ingest_event list" where
  "demo_kafka assigned =
     (case map_of (map (\<lambda>a. (pst_partition a, pst_offset a)) assigned) 0 of
        None \<Rightarrow> []
      | Some start \<Rightarrow> map (\<lambda>(p, off, payload). Message payload p off 7) (filter (\<lambda>r. start \<le> rec_offset r) demo_log)) @ [StopRoute]"

definition demo_ingest_world :: "(schema \<times> cells list list) world" where
  "demo_ingest_world = \<lparr>w_tick = 0, w_catalog = empty_catalog\<lparr>hypertables := hypertables demo_state\<rparr>, w_files = Map.empty, w_uploads = []\<rparr>"

lemma demo_ingest_run:
  "snd (route_work demo_we demo_ingest_libs demo_ingest_config demo_route demo_ht [Some [0]] demo_kafka demo_ingest_world) = Inr ()"
  by code_simp


lemma demo_ingest_connect:
  "\<exists>w1. connect demo_we demo_route demo_ht [Some [0]] demo_ingest_world = (w1, Inr [\<lparr>pst_partition = 0, pst_offset = 0\<rparr>])"
proof -
  have "snd (connect demo_we demo_route demo_ht [Some [0]] demo_ingest_world) = Inr [\<lparr>pst_partition = 0, pst_offset = 0\<rparr>]" by code_simp
  then show ?thesis by (metis prod.collapse)
qed

lemma demo_ingest_env: "ingest_env_ok demo_ingest_libs demo_columns (\<lambda>_ _ _ _ _. cell.Null) (\<lambda>_. [I64 5])"
proof -
  have "lexsort_ok (write_libs.truncate demo_ingest_libs)"
    by (auto simp: lexsort_ok_def demo_ingest_libs_def write_libs.defs)
  moreover have "decodes demo_ingest_libs (physical_schema demo_columns) (\<lambda>_. [I64 5])"
    by (auto simp: decodes_def demo_ingest_libs_def demo_physical)
  ultimately show ?thesis
    by (simp add: ingest_env_ok_def demo_physical rowwise_def) (simp add: demo_ingest_libs_def demo_arrow_ok)
qed

lemma demo_good_log: "good_log demo_log"
  by (simp add: good_log_def demo_log_def on_partition_def in_i64_def)

lemma demo_delivers: "delivers demo_log demo_kafka"
proof -
  have "messages (xs @ [StopRoute]) = messages xs" for xs by (induction xs rule: messages.induct) simp_all
  moreover have "map fst (messages (map (\<lambda>(p, off, payload). Message payload p off 7) rs)) = rs" for rs by (induction rs) auto
  ultimately show ?thesis
    by (auto simp: delivers_def demo_kafka_def on_partition_def demo_log_def split: option.split)
qed

text \<open>A digest that keeps the two offsets separates the flushes of a one-partition log.\<close>

lemma demo_separates: "separates (lb_blake3 demo_ingest_libs) 1 ''t'' demo_log"
proof -
  have one: "\<exists>x. a = [x] \<and> or_topic x = ''t'' \<and> or_partition x = 0" if "flushable demo_log ''t'' a" for a
  proof -
    from that have p: "\<And>x. x \<in> set a \<Longrightarrow> or_topic x = ''t'' \<and> or_partition x = 0" "a \<noteq> []" "distinct (map or_partition a)"
      by (force simp: flushable_def demo_log_def)+
    from p(2) obtain x xs where a: "a = x # xs" by (cases a) simp_all
    have "xs = []"
    proof (rule ccontr)
      assume "xs \<noteq> []"
      then have "hd xs \<in> set xs" by simp
      with p(1) [of "hd xs"] p(1) [of x] p(3) show False by (simp add: a image_iff)
    qed
    with p(1) [of x] a show ?thesis by simp
  qed
  have len: "length (canon_int v) = 9" for v by (simp add: canon_int_def be_bytes_def)
  define pre where "pre = canon_str ''ukiel'' @ canon_str ''ingest'' @ canon_int 1 @ canon_int 1 @ canon_int 1 @ TAG_LIST # canon_len 1 @ canon_str ''t'' @ canon_int 0"
  have bytes: "intent_bytes (flush_intent 1 [x]) = pre @ canon_int (or_first x) @ canon_int (or_last x)"
    if "or_topic x = ''t''" "or_partition x = 0" for x
    using that by (simp add: pre_def canonical_bytes_def ingest_body_def ingest_ranges_def canon_range_def canon_list_def INGEST_TRANSFORMATION_VERSION_def)
  show ?thesis
    unfolding separates_def
  proof (intro allI impI, elim conjE)
    fix a b assume a: "flushable demo_log ''t'' a" and b: "flushable demo_log ''t'' b"
      and eq: "lb_blake3 demo_ingest_libs (intent_bytes (flush_intent 1 a)) = lb_blake3 demo_ingest_libs (intent_bytes (flush_intent 1 b))"
    from one [OF a] one [OF b] obtain x y where x: "a = [x]" "or_topic x = ''t''" "or_partition x = 0"
      and y: "b = [y]" "or_topic y = ''t''" "or_partition y = 0" by blast
    from eq show "intent_bytes (flush_intent 1 a) = intent_bytes (flush_intent 1 b)"
      unfolding x(1) y(1) bytes [OF x(2,3)] bytes [OF y(2,3)] by (simp add: demo_ingest_libs_def len)
  qed
qed

lemma demo_ingest_ok:
  "ingest_world demo_we demo_ingest_libs demo_ingest_config demo_route demo_ht demo_columns (\<lambda>_ _ _ _ _. cell.Null) (\<lambda>_. [I64 5])
     {7} demo_log (drawn_paths demo_we 1)"
proof -
  have "rely demo_we (drawn_paths demo_we 1) J" for J
    using demo_paths [of _ _ 5 1] by (auto simp: rely_def calm_wenv_def)
  moreover have "output_path demo_we 1 0 n \<in> drawn_paths demo_we 1 n" for n unfolding drawn_paths_def by blast
  ultimately show ?thesis
    using demo_good_log demo_cols demo_ingest_env demo_separates
    by (simp add: ingest_world_def demo_route_def demo_ht_def in_i64_def wf_str_def)
qed


lemma demo_ledger:
  "ledger demo_ingest_libs demo_ingest_config demo_route demo_ht V row T demo_log (w_catalog demo_ingest_world, w_files demo_ingest_world)"
proof -
  let ?c = "w_catalog demo_ingest_world"
  have e: "ingest_offsets ?c = []" "commits ?c = []" "parts ?c = []" by (simp_all add: demo_ingest_world_def empty_catalog_def)
  have "wf_log ?c" by (simp add: demo_ingest_world_def empty_catalog_def wf_log_def wf_commits_def wf_parts_def wf_offsets_def)
  moreover have "\<not> consumed ?c h t r" for h t r by (simp add: consumed_def next_offset_def offset_at_def reached_def e)
  moreover have "identities_ok b h t log ?c" for b h t log
    by (simp add: identities_ok_def recorded_def operation_row_def keyed_commit_def e)
  ultimately show ?thesis by (simp add: ledger_def contents_def e)
qed

lemma demo_accepts:
  "accepts demo_ingest_libs demo_ingest_config demo_route (packing_key demo_ht) 7 r \<longleftrightarrow> snd (snd r) = Some ''five''"
proof (cases "snd (snd r)")
  case (Some p)
  have "event_time_in_bounds 5 7 demo_ingest_config" by code_simp
  with Some show ?thesis
    by (simp add: accepts_def demo_ingest_libs_def demo_route_def demo_ht_def in_i64_def)
qed (simp add: accepts_def)

theorem ingest_exactly_once_witness:
  "contents (file_view demo_arrow (lb_df demo_ingest_libs) demo_columns)
     (w_files (fst (route_work demo_we demo_ingest_libs demo_ingest_config demo_route demo_ht [Some [0]] demo_kafka demo_ingest_world)))
     (w_catalog (fst (route_work demo_we demo_ingest_libs demo_ingest_config demo_route demo_ht [Some [0]] demo_kafka demo_ingest_world))) 1
   = {#[I64 5]#}"
proof -
  let ?run = "route_work demo_we demo_ingest_libs demo_ingest_config demo_route demo_ht [Some [0]] demo_kafka demo_ingest_world"
  let ?row = "table_row (\<lambda>_ _ _ _ _. cell.Null) (\<lambda>_. [I64 5]) demo_columns" and ?r = "(0, 0, Some ''five'') :: log_record"
  obtain w' where w': "?run = (w', Inr ())" using demo_ingest_run by (metis prod.collapse)
  obtain w1 where w1: "connect demo_we demo_route demo_ht [Some [0]] demo_ingest_world = (w1, Inr [\<lparr>pst_partition = 0, pst_offset = 0\<rparr>])"
    using demo_ingest_connect by blast
  have T: "snd ` set (messages (demo_kafka assigned)) \<subseteq> {7}" for assigned
    by (auto simp: demo_kafka_def demo_log_def split: option.split)
  have fresh: "fresh_paths (drawn_paths demo_we 1) demo_ingest_world"
    by (simp add: fresh_paths_def part_paths_def demo_ingest_world_def empty_catalog_def)
  note all = ingest_exactly_once [OF demo_ingest_ok demo_delivers T demo_ledger fresh w']
  have ms: "demo_kafka [\<lparr>pst_partition = 0, pst_offset = 0\<rparr>] = [Message (Some ''five'') 0 0 7, Message None 0 1 7, StopRoute]"
    by (simp add: demo_kafka_def demo_log_def)
  have cons: "\<forall>x \<in> set demo_log. consumed (w_catalog w') 1 ''t'' x"
    using all [THEN conjunct2, THEN conjunct2, THEN spec, THEN spec, of w1 "[\<lparr>pst_partition = 0, pst_offset = 0\<rparr>]"] w1
    by (simp add: ms demo_log_def) (simp add: demo_ht_def demo_route_def)
  have ids: "ht_id demo_ht = 1" "tr_topic demo_route = ''t''" "lb_arrow demo_ingest_libs = demo_arrow"
    by (simp_all add: demo_ht_def demo_route_def demo_ingest_libs_def)
  from all [THEN conjunct1, unfolded ledger_def fst_conv snd_conv ids demo_accepts]
  obtain kept where sub: "kept \<subseteq> {r \<in> set demo_log. consumed (w_catalog w') 1 ''t'' r}"
    and b: "\<forall>r \<in> set demo_log. consumed (w_catalog w') 1 ''t'' r \<longrightarrow>
      (r \<in> kept \<longrightarrow> (\<exists>now \<in> {7}. accepts demo_ingest_libs demo_ingest_config demo_route (packing_key demo_ht) now r)) \<and>
      ((\<forall>now \<in> {7}. accepts demo_ingest_libs demo_ingest_config demo_route (packing_key demo_ht) now r) \<longrightarrow> r \<in> kept)"
    and c: "contents (file_view demo_arrow (lb_df demo_ingest_libs) demo_columns) (w_files w') (w_catalog w') 1
      = image_mset (?row \<circ> json_row demo_ingest_libs) (mset_set kept)" by blast
  have k: "kept \<subseteq> set demo_log" "\<forall>r \<in> set demo_log. r \<in> kept \<longleftrightarrow> snd (snd r) = Some ''five''"
    using sub b cons demo_accepts by auto
  have "kept = {?r}" using k by (auto simp: demo_log_def)
  moreover have "?row j = [I64 5]" for j by (simp add: table_row_def demo_columns_def)
  ultimately show ?thesis using c w' by simp
qed

end
