(* ===== verification/MvSafety.thy ===== *)
theory MvSafety
  imports Mv IngestSafety
begin

text \<open>
  Exactly-once materialised views. An \<open>ADD\<close> of the source is applied when the catalog records the
  identity of its event. The ledger of a view says that every source \<open>ADD\<close> up to the cursor is
  applied, and that the target holds, for each applied \<open>ADD\<close>, the rows of one attempt at it and
  nothing else. A turn of the worker keeps the ledger whatever replicas do meanwhile.
\<close>

section \<open>Events over time\<close>

definition added_parts :: "catalog \<Rightarrow> commit_id \<Rightarrow> part list" where
  "added_parts c n = map part_of_row (sort_key pr_id (filter (\<lambda>p. pr_created_by p = n) (parts c)))"

lemma event_of_parts: "ev_added (event_of c e) = added_parts c (cm_id e)" "ev_commit_id (event_of c e) = cm_id e" "ev_kind (event_of c e) = cm_kind e"
  by (simp_all add: event_of_def added_parts_def)

lemma sort_key_map: "(\<And>x. f (g x) = f x) \<Longrightarrow> sort_key f (map g xs) = map g (sort_key f xs)"
proof (induction xs)
  case (Cons x xs)
  have "insort_key f (g x) (map g ys) = map g (insort_key f x ys)" for ys using Cons.prems by (induction ys) auto
  with Cons show ?case by simp
qed simp

lemma added_parts_map:
  assumes "parts c' = map g (parts c)" "\<And>p. pr_id (g p) = pr_id p \<and> pr_created_by (g p) = pr_created_by p \<and> part_of_row (g p) = part_of_row p"
  shows "added_parts c' n = added_parts c n"
proof -
  have "filter (\<lambda>p. pr_created_by p = n) (map g (parts c)) = map g (filter (\<lambda>p. pr_created_by p = n) (parts c))"
    using assms(2) by (simp add: filter_map comp_def)
  moreover have "sort_key pr_id (map g xs) = map g (sort_key pr_id xs)" for xs by (rule sort_key_map) (simp add: assms(2))
  moreover have "map part_of_row (map g xs) = map part_of_row xs" for xs using assms(2) by simp
  ultimately show ?thesis unfolding added_parts_def assms(1) by presburger
qed

lemma catalog_step_added:
  assumes "catalog_step Q c c'" "n \<le> commit_seq c"
  shows "added_parts c' n = added_parts c n \<and> n \<le> commit_seq c'"
  using assms(1)
proof (cases rule: catalog_step_cases)
  case (commit env de ht op identity offsets lease r)
  from commit(2) show ?thesis
  proof (cases rule: commit_txn_cases)
    case untouched
    with assms(2) show ?thesis by (auto simp: same_tables_def added_parts_def seqs_le_def)
  next
    case effect
    then obtain rows f where c': "c' = (applied env de ht op identity rows c)\<lparr>armed_fault := f\<rparr>" by (auto simp: took_effect_def)
    let ?old = "tombstone_rows ht (commit_seq c + 1) (op_inputs op) (parts c)"
    have "filter (\<lambda>p. pr_created_by p = n) (new_rows de ht (commit_seq c + 1) (part_seq c) (op_outputs op)) = []"
      using assms(2) new_rows_mem [of _ de ht "commit_seq c + 1"] unfolding filter_empty_conv by fastforce
    then have "added_parts c' n = added_parts (c\<lparr>parts := ?old\<rparr>) n" by (simp add: c' added_parts_def applied_def Let_def)
    also have "\<dots> = added_parts c n"
      by (rule added_parts_map [where g = "\<lambda>p. if tombstone_hit ht (op_inputs op) p then p\<lparr>pr_deleted_by := Some (commit_seq c + 1)\<rparr> else p"])
        (simp_all add: tombstone_rows_def part_of_row_def)
    finally show ?thesis using assms(2) by (simp add: c' applied_def Let_def)
  qed
next
  case frame
  then obtain f where "parts c' = map (\<lambda>p. p\<lparr>pr_purged_at := f p\<rparr>) (parts c)" "commit_seq c' = commit_seq c" by (auto simp: log_frame_def)
  with assms(2) show ?thesis by (simp add: added_parts_map [where g = "\<lambda>p. p\<lparr>pr_purged_at := f p\<rparr>"] part_of_row_def)
qed

lemma run_added:
  assumes "(catalog_step Q)\<^sup>*\<^sup>* c c'" "n \<le> commit_seq c"
  shows "added_parts c' n = added_parts c n \<and> n \<le> commit_seq c'"
  using assms(1)
proof (induction rule: rtranclp_induct)
  case (step y z)
  with catalog_step_added [of Q y z n] show ?case by simp
qed (simp add: assms(2))

section \<open>What an attempt writes\<close>

lemma those_Some: "those xs = Some ys \<longleftrightarrow> xs = map Some ys"
proof (induction xs arbitrary: ys)
  case (Cons x xs)
  then show ?case by (cases x; cases ys) auto
qed auto

lemma adapt_batches_rows:
  assumes "adapt_batches W target cols max_bytes used materialized bs = Inr adapted"
  shows "\<forall>a \<in> set adapted. \<forall>r \<in> set (rb_rows a). row_fits (physical_schema cols) r"
  using assms
proof (induction bs arbitrary: used materialized adapted)
  case (Cons b bs)
  let ?s = "physical_schema cols"
  have fits: "\<forall>r \<in> set (rb_rows a). row_fits ?s r"
    if f: "fill_batch W cols b = Inr filled" and c: "check_filled target ?s filled = Inr a" for filled a
  proof -
    from f obtain arrays wide where ar: "those (map (adapt_column W b) (filter (\<lambda>c. \<not> is_alias (cs_kind c)) cols)) = Some arrays"
      and w: "try_batch (map (\<lambda>f. f\<lparr>f_nullable := True\<rparr>) ?s) (rows_of_columns (num_rows b) arrays) = Some wide"
      and ap: "apply_defaults_and_materialized (lb_df W) wide cols = Inr filled"
      by (auto simp: fill_batch_def Let_def rbind_eq_Inr_iff map_sum_eq_Inr)
    have "length arrays = length ?s" using arg_cong [OF iffD1 [OF those_Some ar], of length]
      by (simp add: physical_schema_def schema_where_def)
    then have "\<forall>r \<in> set (rb_rows wide). length r = length ?s" using try_batch_Some [OF w] by (auto simp: rows_of_columns_def)
    with ap have "\<forall>r \<in> set (rb_rows filled). length r = length ?s"
      by (auto simp: apply_defaults_and_materialized_def rbind_eq_Inr_iff dest!: apply_specs_lengths try_batch_Some)
    moreover from c have "try_batch ?s (rb_rows filled) = Some a"
      by (auto simp: check_filled_def rbind_eq_Inr_iff split: option.splits if_splits)
    ultimately show ?thesis by (auto simp: try_batch_def row_fits_def list_all_iff split: if_splits)
  qed
  from Cons show ?case by (auto simp: rbind_eq_Inr_iff Let_def split: if_splits) (use fits in blast)
qed simp

text \<open>The L0 items of a list of batches hold the adapted rows.\<close>

lemma l0_items_rows:
  assumes "writer_ok (lb_arrow W)" "lexsort_ok W" "parse (table_schema target) = Inr cols" "distinct (map f_name (physical_schema cols))"
    and "batches_to_l0_items W batches target max_bytes = Inr items"
  shows "\<exists>adapted. adapt_batches W target cols max_bytes 0 0 batches = Inr adapted \<and>
    sum_list (map (view_rows (file_view (lb_arrow W) (lb_df W) cols) \<circ> (ep_bytes \<circ> fi_part)) items) = mset (concat (map rb_rows adapted))"
proof -
  from assms(3,5) obtain partitions adapted where a: "adapt_batches W target cols max_bytes 0 0 batches = Inr adapted"
    and r: "(if adapted = [] then Inr []
       else if length (concat (map rb_rows adapted)) > 2 ^ 32 - 1 then Inl (InvalidTarget ''too many output rows for one write'')
       else rbind (group_rows W (physical_schema cols) partitions (concat (map rb_rows adapted)) []) (encode_groups W target cols)) = Inr items"
    by (auto simp: batches_to_l0_items_def rbind_eq_Inr_iff Let_def)
  show ?thesis
  proof (cases "adapted = []")
    case True
    with a r show ?thesis by auto
  next
    case False
    with r obtain gs where gs: "group_rows W (physical_schema cols) partitions (concat (map rb_rows adapted)) [] = Inr gs"
      and e: "encode_groups W target cols gs = Inr items" by (auto simp: rbind_eq_Inr_iff split: if_splits)
    have m: "group_mset gs = mset (concat (map rb_rows adapted))" using group_rows_mset [OF gs] by (simp add: group_mset_def)
    have "\<forall>r \<in># group_mset gs. row_fits (physical_schema cols) r" unfolding m using adapt_batches_rows [OF a] by auto
    from encode_groups_rows [OF assms(1,2,4) e this] m a show ?thesis by auto
  qed
qed

section \<open>Reading an event\<close>

definition part_input :: "('w, 'f) pipeline_libs \<Rightarrow> table_columns \<Rightarrow> 'f \<Rightarrow> rbatch list option" where
  "part_input I cols f = Option.bind (pq_open (lb_arrow I) f) (\<lambda>(s, items).
     those (map (\<lambda>item. Option.bind item (\<lambda>rs. adapt_source I cols \<lparr>rb_schema = s, rb_rows = rs\<rparr>)) items))"

definition input_of :: "('w, 'f) pipeline_libs \<Rightarrow> table_columns \<Rightarrow> (string \<Rightarrow> 'f) \<Rightarrow> part list \<Rightarrow> rbatch list option" where
  "input_of I cols G ps = map_option concat (those (map (\<lambda>p. part_input I cols (G (path (part_meta p)))) ps))"

lemma read_batches_Inr:
  "read_batches I cols err limit fails_at s items bytes = Inr (sum_bytes, bs) \<Longrightarrow>
     those (map (\<lambda>item. Option.bind item (\<lambda>rs. adapt_source I cols \<lparr>rb_schema = s, rb_rows = rs\<rparr>)) items) = Some bs"
  by (induction I cols err limit fails_at s items bytes arbitrary: sum_bytes bs rule: read_batches.induct)
    (auto simp: rbind_eq_Inr_iff Let_def split: if_splits)

section \<open>The ledger of a view\<close>

definition source_adds :: "selected \<Rightarrow> catalog \<Rightarrow> commit_row set" where
  "source_adds s c = {e \<in> set (commits c). cm_hypertable e = ht_id (sel_source s) \<and> cm_kind e = ''add''}"

definition applied_adds :: "(bytes \<Rightarrow> bytes) \<Rightarrow> selected \<Rightarrow> catalog \<Rightarrow> commit_id set" where
  "applied_adds blake3 s c = {n \<in> cm_id ` source_adds s c. \<exists>i cid. mv_identity blake3 s n = Inr i \<and> recorded c i cid}"

definition view_cursor :: "selected \<Rightarrow> catalog \<Rightarrow> commit_id option" where
  "view_cursor s c = map_option wc_last (cursor_at c (mv_worker (pl_id (sel_pipeline s))) (ht_id (sel_source s)))"

text \<open>The rows of some attempt at an event that added the parts \<open>ps\<close>: what its SQL put out, adapted to
  the target, or nothing, where the data made the attempt fail and the policy is to skip.\<close>

definition mv_outcome ::
  "('w, 'f) pipeline_libs \<Rightarrow> execution_limits \<Rightarrow> selected \<Rightarrow> (string \<Rightarrow> 'f) \<Rightarrow> part list \<Rightarrow> cells multiset \<Rightarrow> bool" where
  "mv_outcome I limits s G ps rows \<longleftrightarrow> (\<exists>cols input attempt ev. ev_added ev = ps \<and>
     parse (table_schema (sel_source s)) = Inr cols \<and> input_of I cols G ps = Some input \<and>
     (case mv_encode I attempt limits s ev input of
        Inr _ \<Rightarrow> (\<exists>output tcols adapted. (if ps = [] then output = [] else execute_pipeline I attempt (sel_prepared s) input = Inr output) \<and>
          parse (table_schema (sel_target s)) = Inr tcols \<and>
          adapt_batches (write_libs.truncate I) (sel_target s) tcols (el_output_bytes limits) 0 0 output = Inr adapted \<and>
          rows = mset (concat (map rb_rows adapted)))
      | Inl e \<Rightarrow> is_data_error e \<and> pd_error_policy (pl_definition (sel_pipeline s)) = Skip \<and> rows = {#}))"

definition mv_ledger ::
  "('w, 'f) pipeline_libs \<Rightarrow> execution_limits \<Rightarrow> selected \<Rightarrow> commit_id \<Rightarrow> (string \<Rightarrow> 'f) \<Rightarrow> ('f \<Rightarrow> cells list option) \<Rightarrow> 'f outside \<Rightarrow> bool" where
  "mv_ledger I limits s start G V x \<longleftrightarrow> wf_log (fst x) \<and>
     (\<forall>r \<in> set (pipelines (fst x)). plr_id r = pl_id (sel_pipeline s) \<longrightarrow> plr_source_id r = ht_id (sel_source s)) \<and>
     (\<forall>p \<in> set (parts (fst x)). pr_hypertable p = ht_id (sel_source s) \<longrightarrow> snd x (path (pr_meta p)) \<in> {None, Some (G (path (pr_meta p)))}) \<and>
     (\<forall>e \<in> source_adds s (fst x). in_i64 (cm_id e)) \<and>
     (\<forall>k. view_cursor s (fst x) = Some k \<longrightarrow> k \<le> commit_seq (fst x) \<and>
        (\<forall>e \<in> source_adds s (fst x). start < cm_id e \<and> cm_id e \<le> k \<longrightarrow> cm_id e \<in> applied_adds (lb_blake3 I) s (fst x))) \<and>
     (\<exists>rows. (\<forall>n \<in> applied_adds (lb_blake3 I) s (fst x). mv_outcome I limits s G (added_parts (fst x) n) (rows n)) \<and>
        contents V (snd x) (fst x) (ht_id (sel_target s)) = (\<Sum>n \<in> applied_adds (lb_blake3 I) s (fst x). rows n))"

definition view_intent :: "selected \<Rightarrow> commit_id \<Rightarrow> intent" where
  "view_intent s n = MvIntent (ht_id (sel_target s)) \<lparr>mv_pipeline = pl_id (sel_pipeline s),
     mv_source_hypertable = ht_id (sel_source s), mv_source_commit = n, mv_version = MV_TRANSFORMATION_VERSION\<rparr>"

definition mv_world ::
  "'f wenv \<Rightarrow> ('w, 'f) pipeline_libs \<Rightarrow> execution_limits \<Rightarrow> selected \<Rightarrow> commit_id \<Rightarrow> (string \<Rightarrow> 'f) \<Rightarrow> table_columns \<Rightarrow> (nat \<Rightarrow> string set) \<Rightarrow> bool" where
  "mv_world we I limits s start G tcols P \<longleftrightarrow>
     rely we P (mv_ledger I limits s start G (file_view (lb_arrow I) (lb_df I) tcols)) \<and>
     (\<forall>n. output_path we (ht_id (sel_target s)) 0 n \<in> P n) \<and> writer_ok (lb_arrow I) \<and> lexsort_ok (write_libs.truncate I) \<and>
     parse (table_schema (sel_target s)) = Inr tcols \<and> distinct (map f_name (physical_schema tcols)) \<and>
     ht_id (sel_source s) \<noteq> ht_id (sel_target s) \<and>
     in_i64 (pl_id (sel_pipeline s)) \<and> in_i64 (ht_id (sel_source s)) \<and> in_i64 (ht_id (sel_target s)) \<and>
     (\<forall>m n. in_i64 m \<and> in_i64 n \<and> lb_blake3 I (intent_bytes (view_intent s m)) = lb_blake3 I (intent_bytes (view_intent s n))
        \<longrightarrow> intent_bytes (view_intent s m) = intent_bytes (view_intent s n))"

lemma pipeline_truncate [simp]: "lb_arrow (write_libs.truncate (I :: ('w, 'f) pipeline_libs)) = lb_arrow I"
  "lb_df (write_libs.truncate (I :: ('w, 'f) pipeline_libs)) = lb_df I" "lb_de (write_libs.truncate (I :: ('w, 'f) pipeline_libs)) = lb_de I"
  by (simp_all add: write_libs.defs)

lemma applied_finite [simp]: "finite (applied_adds b s c)"
  unfolding applied_adds_def source_adds_def by (rule finite_subset [of _ "cm_id ` set (commits c)"]) auto

lemma view_frame:
  assumes "commits c' = commits c"
  shows "source_adds s c' = source_adds s c" "applied_adds b s c' = applied_adds b s c"
  using assms by (simp_all add: source_adds_def applied_adds_def recorded_def operation_row_def keyed_commit_def)

text \<open>Only a change of the log, of the source's objects or of the cursor matters to the ledger.\<close>

lemma mv_ledger_frame:
  assumes "mv_ledger I limits s start G V (c, fs)" "commits c' = commits c" "parts c' = parts c" "wf_log c'"
    "pipelines c' = pipelines c" "commit_seq c \<le> commit_seq c'"
    and "\<And>p. p \<in> part_paths c \<Longrightarrow> fs' p = fs p"
    and "\<And>k. view_cursor s c' = Some k \<Longrightarrow> view_cursor s c \<noteq> Some k \<Longrightarrow> k \<le> commit_seq c' \<and>
      (\<forall>e \<in> source_adds s c. start < cm_id e \<and> cm_id e \<le> k \<longrightarrow> cm_id e \<in> applied_adds (lb_blake3 I) s c)"
  shows "mv_ledger I limits s start G V (c', fs')"
proof -
  have p: "path (pr_meta q) \<in> part_paths c" if "q \<in> set (parts c)" for q using that by (auto simp: part_paths_def)
  have "object_rows V fs' (pr_meta q) = object_rows V fs (pr_meta q)" if "q \<in> set (parts c)" for q
    using assms(7) [OF p [OF that]] by (simp add: object_rows_def)
  then have C: "contents V fs' c' h = contents V fs c h" for h
    unfolding contents_def assms(3) by (intro arg_cong [where f = sum_list] map_cong) auto
  have A: "added_parts c' n = added_parts c n" for n by (simp add: added_parts_def assms(3))
  have cur: "k \<le> commit_seq c' \<and> (\<forall>e \<in> source_adds s c. start < cm_id e \<and> cm_id e \<le> k \<longrightarrow> cm_id e \<in> applied_adds (lb_blake3 I) s c)"
    if "view_cursor s c' = Some k" for k
  proof (cases "view_cursor s c = Some k")
    case True
    with assms(1) have "k \<le> commit_seq c \<and> (\<forall>e \<in> source_adds s c. start < cm_id e \<and> cm_id e \<le> k \<longrightarrow> cm_id e \<in> applied_adds (lb_blake3 I) s c)"
      by (simp add: mv_ledger_def)
    with assms(6) show ?thesis by force
  qed (use assms(8) [OF that] in blast)
  have files: "fs' (path (pr_meta q)) \<in> {None, Some (G (path (pr_meta q)))}"
    if "q \<in> set (parts c)" "pr_hypertable q = ht_id (sel_source s)" for q
    using assms(1) that assms(7) [OF p [OF that(1)]] by (simp add: mv_ledger_def)
  show ?thesis using assms(1) assms(4) cur files
    unfolding mv_ledger_def fst_conv snd_conv view_frame [OF assms(2)] assms(3,5) C A by blast
qed

lemma mv_ledger_framed: "framed (mv_ledger I limits s start G V)"
  unfolding framed_def
proof (intro conjI allI impI, elim conjE)
  fix c fs p f assume l: "mv_ledger I limits s start G V (c, fs)" and p: "p \<notin> part_paths c"
  have "wf_log c" using l by (simp add: mv_ledger_def)
  then show "mv_ledger I limits s start G V (c, fs(p := Some f))" by (intro mv_ledger_frame [OF l]) (use p in auto)
next
  fix c :: catalog and fs env h paths assume l: "mv_ledger I limits s start G V (c, fs)"
  obtain rows where c': "fst (register_pending_objects env h paths c) = c\<lparr>pending_objects := rows\<rparr>" using register_effect by blast
  have "wf_log (c\<lparr>pending_objects := rows\<rparr>) = wf_log c" by (simp add: wf_log_def wf_commits_def wf_parts_def wf_offsets_def)
  moreover have "wf_log c" using l by (simp add: mv_ledger_def)
  ultimately show "mv_ledger I limits s start G V (fst (register_pending_objects env h paths c), fs)"
    unfolding c' by (intro mv_ledger_frame [OF l]) (auto simp: view_cursor_def cursor_at_def)
qed

section \<open>Committing an attempt\<close>

lemma view_identity:
  assumes "mv_identity b s n = Inr i"
  shows "oi_hypertable i = ht_id (sel_target s)" "oi_fingerprint i = b (intent_bytes (view_intent s n))"
proof -
  have "identity_of b (view_intent s n) = Inr i" using assms by (simp add: view_intent_def mv_identity_def map_sum_eq_Inr)
  from identity_of_Inr [OF this] show "oi_hypertable i = ht_id (sel_target s)" "oi_fingerprint i = b (intent_bytes (view_intent s n))"
    by (simp_all add: view_intent_def)
qed

lemma view_identity_inj:
  assumes env: "mv_world we I limits s start G tcols P" and n: "in_i64 m" "in_i64 n"
    and id: "mv_identity (lb_blake3 I) s m = Inr i" "mv_identity (lb_blake3 I) s n = Inr j" and eq: "oi_fingerprint i = oi_fingerprint j"
  shows "m = n"
proof -
  have "lb_blake3 I (intent_bytes (view_intent s m)) = lb_blake3 I (intent_bytes (view_intent s n))"
    using eq by (simp add: view_identity(2) [OF id(1)] view_identity(2) [OF id(2)])
  with env n have "intent_bytes (view_intent s m) = intent_bytes (view_intent s n)" unfolding mv_world_def by blast
  moreover have "wf_intent (view_intent s k)" if "in_i64 k" for k
    using env that by (simp add: mv_world_def view_intent_def MV_TRANSFORMATION_VERSION_def wf_u32_def)
  ultimately have "intent_norm (view_intent s m) = intent_norm (view_intent s n)" using n intent_bytes_inj by blast
  then show ?thesis by (simp add: view_intent_def)
qed

text \<open>A commit under the identity of event \<open>n\<close> applies \<open>n\<close> and nothing else.\<close>

lemma applied_commit:
  assumes env: "mv_world we I limits s start G tcols P" and wf: "wf_log c" and iss: "\<forall>e \<in> source_adds s c. in_i64 (cm_id e)"
    and n: "n \<in> cm_id ` source_adds s c" and id: "mv_identity (lb_blake3 I) s n = Inr i"
    and te: "took_effect db de (ht_id (sel_target s)) (Add ps) (Some i) [] None c c'" and run: "catalog_run c c'"
  shows "source_adds s c' = source_adds s c" "n \<notin> applied_adds (lb_blake3 I) s c"
    "applied_adds (lb_blake3 I) s c' = insert n (applied_adds (lb_blake3 I) s c)"
    "m \<in> insert n (applied_adds (lb_blake3 I) s c) \<Longrightarrow> added_parts c' m = added_parts c m"
proof -
  let ?A = "applied_adds (lb_blake3 I) s" and ?t = "ht_id (sel_target s)"
  obtain rows f where c': "c' = (applied db de ?t (Add ps) (Some i) rows c)\<lparr>armed_fault := f\<rparr>" using te by (auto simp: took_effect_def)
  have st: "ht_id (sel_source s) \<noteq> ?t" using env by (simp add: mv_world_def)
  show src: "source_adds s c' = source_adds s c" using st by (auto simp: source_adds_def c' applied_def Let_def commit_row_of_def)
  show "n \<notin> ?A c" using recorded_not_again te id by (auto simp: applied_adds_def)
  show "?A c' = insert n (?A c)"
  proof
    show "insert n (?A c) \<subseteq> ?A c'"
      using n id took_effect_records [OF te] run_recorded [OF run] by (auto simp: applied_adds_def src)
    show "?A c' \<subseteq> insert n (?A c)"
    proof
      fix m assume m: "m \<in> ?A c'"
      then obtain j cid where j: "m \<in> cm_id ` source_adds s c" "mv_identity (lb_blake3 I) s m = Inr j" "recorded c' j cid"
        by (auto simp: applied_adds_def src)
      from recorded_new [OF te j(3)] show "m \<in> insert n (?A c)"
      proof
        assume "recorded c j cid"
        with j show ?thesis by (auto simp: applied_adds_def)
      next
        assume "oi_fingerprint j = oi_fingerprint i"
        then have "m = n" using view_identity_inj [OF env _ _ j(2) id] iss n j(1) by auto
        then show ?thesis by simp
      qed
    qed
  qed
  have "m \<le> commit_seq c" if "m \<in> cm_id ` source_adds s c" for m
    using wf that by (auto simp: wf_log_def wf_commits_def source_adds_def)
  then show "m \<in> insert n (?A c) \<Longrightarrow> added_parts c' m = added_parts c m"
    using run_added [OF run, of m] n by (auto simp: applied_adds_def)
qed

lemma mv_ledger_commit:
  assumes env: "mv_world we I limits s start G tcols P" and l: "mv_ledger I limits s start G V (c, fs)"
    and n: "n \<in> cm_id ` source_adds s c" and id: "mv_identity (lb_blake3 I) s n = Inr i"
    and out: "mv_outcome I limits s G (added_parts c n) (sum_list (map (object_rows V fs) ps))"
    and cm: "commit_add de (ht_id (sel_target s)) ps (PlainAdd i) db c = (c', x)"
  shows "mv_ledger I limits s start G V (c', fs) \<and> (\<forall>y. x = Inr y \<longrightarrow> n \<in> applied_adds (lb_blake3 I) s c')"
  using cm unfolding commit_add_txn
proof (cases rule: commit_txn_cases)
  case untouched
  have t: "commits c' = commits c" "parts c' = parts c" "pipelines c' = pipelines c" "worker_cursors c' = worker_cursors c"
    "commit_seq c \<le> commit_seq c'" using untouched(1,2) by (simp_all add: same_tables_def seqs_le_def)
  have "wf_log c'" using wf_log_same_tables [OF _ untouched(1,2)] l by (simp add: mv_ledger_def)
  from mv_ledger_frame [OF l t(1,2) this t(3,5)] t(4) have "mv_ledger I limits s start G V (c', fs)"
    by (simp add: view_cursor_def cursor_at_def)
  moreover have "n \<in> applied_adds (lb_blake3 I) s c'" if "x = Inr y" for y
  proof -
    from untouched(3,4) that obtain cid where "reconcile i (operation_row i c) = Inr (Some cid)" by (cases y) auto
    then have "recorded c i cid" by (simp add: reconcile_recorded)
    then show ?thesis unfolding view_frame [OF t(1)] using n id by (auto simp: applied_adds_def)
  qed
  ultimately show ?thesis by blast
next
  case effect
  let ?A = "applied_adds (lb_blake3 I) s" and ?t = "ht_id (sel_target s)"
  have te: "took_effect db de ?t (Add ps) (Some i) [] None c c'" using effect(1) by simp
  then obtain rows f where c': "c' = (applied db de ?t (Add ps) (Some i) rows c)\<lparr>armed_fault := f\<rparr>" by (auto simp: took_effect_def)
  have st: "ht_id (sel_source s) \<noteq> ?t" using env by (simp add: mv_world_def)
  have wf: "wf_log c" and iss: "\<forall>e \<in> source_adds s c. in_i64 (cm_id e)" using l by (simp_all add: mv_ledger_def)
  have run: "catalog_run c c'" using catalog_step.commit [of "\<lambda>_. True" "[]" c db de ?t "Add ps" "Some i" None] cm
    by (simp add: commit_add_txn r_into_rtranclp)
  note src = applied_commit(1) [OF env wf iss n id te run] and old = applied_commit(2) [OF env wf iss n id te run]
    and A = applied_commit(3) [OF env wf iss n id te run] and parts = applied_commit(4) [OF env wf iss n id te run]
  from l obtain rw where rw: "\<forall>m \<in> ?A c. mv_outcome I limits s G (added_parts c m) (rw m)"
    and con: "contents V fs c ?t = (\<Sum>m \<in> ?A c. rw m)" by (auto simp: mv_ledger_def)
  let ?rw = "rw(n := sum_list (map (object_rows V fs) ps))"
  have "contents V fs c' ?t = contents V fs c ?t + sum_list (map (object_rows V fs) ps)"
    using contents_applied [of V fs db de ?t "Add ps" "Some i" rows c ?t] by (simp add: c' contents_def tombstone_hit_def)
  also have "\<dots> = (\<Sum>m \<in> ?A c'. ?rw m)"
  proof -
    have "sum ?rw (?A c) = sum rw (?A c)" using old by (intro sum.cong) auto
    then show ?thesis unfolding A con using old by (simp add: add.commute)
  qed
  finally have C: "contents V fs c' ?t = (\<Sum>m \<in> ?A c'. ?rw m)" .
  have R: "\<forall>m \<in> ?A c'. mv_outcome I limits s G (added_parts c' m) (?rw m)" unfolding A using rw out parts old by auto
  have files: "fs (path (pr_meta q)) \<in> {None, Some (G (path (pr_meta q)))}"
    if q: "q \<in> set (parts c')" "pr_hypertable q = ht_id (sel_source s)" for q
  proof -
    from q st have "q \<in> set (parts c)" by (auto simp: c' applied_def Let_def dest: new_rows_mem)
    with q(2) l show ?thesis by (simp add: mv_ledger_def)
  qed
  have cur: "k \<le> commit_seq c' \<and> (\<forall>e \<in> source_adds s c'. start < cm_id e \<and> cm_id e \<le> k \<longrightarrow> cm_id e \<in> ?A c')"
    if "view_cursor s c' = Some k" for k
  proof -
    have "view_cursor s c = Some k" using that by (simp add: view_cursor_def cursor_at_def c' applied_def Let_def)
    with l have "k \<le> commit_seq c \<and> (\<forall>e \<in> source_adds s c. start < cm_id e \<and> cm_id e \<le> k \<longrightarrow> cm_id e \<in> ?A c)" by (simp add: mv_ledger_def)
    then show ?thesis unfolding src A by (auto simp: c' applied_def Let_def)
  qed
  have "pipelines c' = pipelines c" by (simp add: c' applied_def Let_def)
  then have "mv_ledger I limits s start G V (c', fs)"
    using l wf_log_took_effect [OF wf te] files cur iss R C unfolding mv_ledger_def fst_conv snd_conv src by (simp del: fun_upd_apply) blast
  with A show ?thesis by blast
qed

section \<open>The event at hand\<close>

lemma catalog_step_seq:
  assumes "catalog_step Q c c'"
  shows "commit_seq c \<le> commit_seq c' \<and> (\<exists>new. commits c' = commits c @ new \<and> (\<forall>e \<in> set new. commit_seq c < cm_id e))"
  using assms
proof (cases rule: catalog_step_cases)
  case (commit env de ht op identity offsets lease r)
  from commit(2) show ?thesis
  proof (cases rule: commit_txn_cases)
    case untouched
    then show ?thesis by (simp add: same_tables_def seqs_le_def)
  next
    case effect
    then obtain rows f where "c' = (applied env de ht op identity rows c)\<lparr>armed_fault := f\<rparr>" by (auto simp: took_effect_def)
    then show ?thesis by (simp add: applied_def Let_def commit_row_of_def)
  qed
qed (simp add: log_frame_def)

lemma run_seq:
  "(catalog_step Q)\<^sup>*\<^sup>* c c' \<Longrightarrow> commit_seq c \<le> commit_seq c' \<and> (\<exists>new. commits c' = commits c @ new \<and> (\<forall>e \<in> set new. commit_seq c < cm_id e))"
proof (induction rule: rtranclp_induct)
  case (step y z)
  then obtain a b where "commits y = commits c @ a" "\<forall>e \<in> set a. commit_seq c < cm_id e" "commits z = commits y @ b"
    "\<forall>e \<in> set b. commit_seq y < cm_id e" "commit_seq c \<le> commit_seq y" "commit_seq y \<le> commit_seq z"
    using catalog_step_seq [OF step.hyps(2)] by blast
  then show ?case by (intro conjI exI [of _ "a @ b"]) auto
qed simp

text \<open>A commit is due when it is in the log and every source \<open>ADD\<close> before it is applied.\<close>

definition due :: "(bytes \<Rightarrow> bytes) \<Rightarrow> selected \<Rightarrow> commit_id \<Rightarrow> commit_row \<Rightarrow> catalog \<Rightarrow> bool" where
  "due b s start e c \<longleftrightarrow> e \<in> set (commits c) \<and> cm_hypertable e = ht_id (sel_source s) \<and> cm_id e \<le> commit_seq c \<and>
     (\<forall>d \<in> source_adds s c. start < cm_id d \<and> cm_id d < cm_id e \<longrightarrow> cm_id d \<in> applied_adds b s c)"

lemma applied_run: "(catalog_step Q)\<^sup>*\<^sup>* c c' \<Longrightarrow> applied_adds b s c \<subseteq> applied_adds b s c'"
  using run_seq [of Q c c'] run_recorded [of Q c c'] by (fastforce simp: applied_adds_def source_adds_def)

lemma due_run:
  assumes "(catalog_step Q)\<^sup>*\<^sup>* c c'" "due b s start e c"
  shows "due b s start e c'"
proof -
  from run_seq [OF assms(1)] obtain new where le: "commit_seq c \<le> commit_seq c'" and new: "commits c' = commits c @ new"
    "\<forall>d \<in> set new. commit_seq c < cm_id d" by blast
  have "cm_id d \<in> applied_adds b s c'" if d: "d \<in> source_adds s c'" "start < cm_id d" "cm_id d < cm_id e" for d
  proof -
    have "d \<notin> set new" using new(2) d(3) assms(2) by (auto simp: due_def)
    then have "d \<in> source_adds s c" using d(1) new(1) by (simp add: source_adds_def)
    with assms(2) d(2,3) have "cm_id d \<in> applied_adds b s c" by (simp add: due_def)
    with applied_run [OF assms(1)] show ?thesis by blast
  qed
  with assms(2) le new show ?thesis by (auto simp: due_def)
qed

lemma next_due:
  assumes l: "mv_ledger I limits s start G V (c0, fs)" and k: "view_cursor s c0 = Some k" and run: "offsets_run c0 c"
    and evs: "changes_since env (ht_id (sel_source s)) k 1 c = (c', Inr (ev # rest))" and wf: "wf_log c"
  shows "\<exists>e. ev = event_of c e \<and> due (lb_blake3 I) s start e c"
proof -
  let ?log = "sort_key cm_id (filter (\<lambda>e. cm_hypertable e = ht_id (sel_source s) \<and> k < cm_id e) (commits c))"
  have "ev # rest = map (event_of c) (take 1 ?log)" using changes_since_Inr [OF evs] by simp
  then obtain e es where e: "?log = e # es" "ev = event_of c e" by (cases ?log) auto
  have "e \<in> set ?log" using e(1) by simp
  then have in_log: "e \<in> set (commits c)" "cm_hypertable e = ht_id (sel_source s)" "k < cm_id e" by auto
  have least: "cm_id e \<le> cm_id d" if "d \<in> set (commits c)" "cm_hypertable d = ht_id (sel_source s)" "k < cm_id d" for d
  proof -
    have "sorted (map cm_id (e # es))" unfolding e(1) [symmetric] by simp
    moreover have "d \<in> set (e # es)" unfolding e(1) [symmetric] using that by simp
    ultimately show ?thesis by auto
  qed
  from run_seq [OF run] obtain new where new: "commits c = commits c0 @ new" "\<forall>d \<in> set new. commit_seq c0 < cm_id d" by blast
  have kc: "k \<le> commit_seq c0" and ap: "\<forall>d \<in> source_adds s c0. start < cm_id d \<and> cm_id d \<le> k \<longrightarrow> cm_id d \<in> applied_adds (lb_blake3 I) s c0"
    using l k by (simp_all add: mv_ledger_def)
  have "cm_id d \<in> applied_adds (lb_blake3 I) s c" if d: "d \<in> source_adds s c" "start < cm_id d" "cm_id d < cm_id e" for d
  proof -
    have dk: "cm_id d \<le> k" using least [of d] d by (force simp: source_adds_def)
    then have "d \<notin> set new" using new(2) kc by auto
    then have "d \<in> source_adds s c0" using d(1) new(1) by (simp add: source_adds_def)
    with ap d(2) dk applied_run [OF run] show ?thesis by blast
  qed
  moreover have "cm_id e \<le> commit_seq c" using wf in_log(1) by (simp add: wf_log_def wf_commits_def)
  ultimately show ?thesis using e(2) in_log by (auto simp: due_def)
qed

section \<open>The steps of a turn\<close>

definition mv_inv where
  "mv_inv I limits s start G tcols P w \<longleftrightarrow>
     mv_ledger I limits s start G (file_view (lb_arrow I) (lb_df I) tcols) (w_catalog w, w_files w) \<and> fresh_paths P w"

lemma mv_others:
  assumes "mv_world we I limits s start G tcols P" "mv_inv I limits s start G tcols P w"
  shows "mv_inv I limits s start G tcols P (others_ran we w)" "offsets_run (w_catalog w) (w_catalog (others_ran we w))"
proof -
  let ?J = "mv_ledger I limits s start G (file_view (lb_arrow I) (lb_df I) tcols)"
  have "rely we P ?J" using assms(1) by (simp add: mv_world_def)
  moreover have "?J (w_catalog w, w_files w)" "fresh_paths P w" using assms(2) by (simp_all add: mv_inv_def)
  ultimately show "mv_inv I limits s start G tcols P (others_ran we w)" "offsets_run (w_catalog w) (w_catalog (others_ran we w))"
    unfolding mv_inv_def using others_keep [of we P ?J w] by blast+
qed

lemma mv_read:
  assumes "mv_world we I limits s start G tcols P" "mv_inv I limits s start G tcols P w"
    and "act_call we err m w = (w', r)" "\<And>env c. fst (m env c) = c"
  shows "mv_inv I limits s start G tcols P w'" "offsets_run (w_catalog w) (w_catalog w')"
    "r = Inr v \<Longrightarrow> \<exists>env. snd (m env (w_catalog w')) = Inr v"
  using mv_others [OF assms(1,2)] act_call_read [OF assms(3,4)] by simp_all

lemma set_cursor_effect:
  "\<exists>rows. fst (set_cursor env worker ht k c) = c\<lparr>worker_cursors := rows\<rparr> \<and>
     (\<forall>x. cursor_at (fst (set_cursor env worker ht k c)) worker ht = Some x \<longrightarrow> cursor_at c worker ht = Some x \<or> wc_last x = k)"
proof -
  let ?c = "fst (set_cursor_stmt worker ht k c)"
  have "\<exists>rows. ?c = c\<lparr>worker_cursors := rows\<rparr>"
  proof -
    have "c = c\<lparr>worker_cursors := worker_cursors c\<rparr>" by simp
    then have "\<exists>rows. c = c\<lparr>worker_cursors := rows\<rparr>" by blast
    then show ?thesis by (auto simp: set_cursor_stmt_def split: option.split)
  qed
  moreover have "cursor_at c worker ht = Some x \<or> wc_last x = k" if x: "cursor_at ?c worker ht = Some x" for x
  proof (cases "cursor_at c worker ht")
    case None
    show ?thesis
    proof (cases "hypertable_exists c ht")
      case True
      from cursor_at_insert [OF None True, of k worker ht] x show ?thesis by auto
    qed (use x None in \<open>simp add: set_cursor_stmt_def\<close>)
  next
    case (Some y)
    from cursor_at_bump [OF Some, of k worker ht] x Some show ?thesis by (auto split: if_splits)
  qed
  moreover have "fst (set_cursor env worker ht k c) \<in> {c, ?c}"
    by (auto simp: set_cursor_def exec_auto_def split: option.splits prod.splits if_splits)
  moreover have "\<exists>rows. c = c\<lparr>worker_cursors := rows\<rparr>" by (rule exI [of _ "worker_cursors c"]) simp
  ultimately show ?thesis by auto
qed

lemma wf_log_cursors: "wf_log (c\<lparr>worker_cursors := rows\<rparr>) = wf_log c"
  by (simp add: wf_log_def wf_commits_def wf_parts_def wf_offsets_def)

lemma advance_ok:
  assumes env: "mv_world we I limits s start G tcols P" and inv: "mv_inv I limits s start G tcols P w"
    and due: "due (lb_blake3 I) s start e (w_catalog w)"
    and fin: "cm_kind e \<noteq> ''add'' \<or> cm_id e \<in> applied_adds (lb_blake3 I) s (w_catalog w)"
    and adv: "advance we s (cm_id e) w = (w', r)"
  shows "mv_inv I limits s start G tcols P w'"
proof -
  let ?w = "others_ran we w" and ?A = "applied_adds (lb_blake3 I) s" and ?V = "file_view (lb_arrow I) (lb_df I) tcols"
  note o = mv_others [OF env inv]
  note due' = due_run [OF o(2) due]
  have l: "mv_ledger I limits s start G ?V (w_catalog ?w, w_files ?w)" using o(1) by (simp add: mv_inv_def)
  have fin': "cm_kind e \<noteq> ''add'' \<or> cm_id e \<in> ?A (w_catalog ?w)" using fin applied_run [OF o(2)] by blast
  have ap: "cm_id d \<in> ?A (w_catalog ?w)" if d: "d \<in> source_adds s (w_catalog ?w)" "start < cm_id d" "cm_id d \<le> cm_id e" for d
  proof (cases "cm_id d = cm_id e")
    case True
    have "d = e"
    proof -
      have "wf_commits (w_catalog ?w)" using l by (simp add: mv_ledger_def wf_log_def)
      then have "distinct (map cm_id (commits (w_catalog ?w)))" by (simp add: wf_commits_def strict_sorted_iff)
      moreover have "d \<in> set (commits (w_catalog ?w))" "e \<in> set (commits (w_catalog ?w))" using d(1) due' by (auto simp: source_adds_def due_def)
      ultimately show ?thesis using True by (auto simp: distinct_map inj_on_def)
    qed
    with fin' d(1) show ?thesis by (auto simp: source_adds_def)
  qed (use due' d in \<open>auto simp: due_def\<close>)
  have moved: "mv_inv I limits s start G tcols P (?w\<lparr>w_catalog := fst (set_cursor db (mv_worker (pl_id (sel_pipeline s))) (ht_id (sel_source s)) (cm_id e) (w_catalog ?w))\<rparr>)" for db
  proof -
    from set_cursor_effect [of db "mv_worker (pl_id (sel_pipeline s))" "ht_id (sel_source s)" "cm_id e" "w_catalog ?w"]
    obtain rows where c: "fst (set_cursor db (mv_worker (pl_id (sel_pipeline s))) (ht_id (sel_source s)) (cm_id e) (w_catalog ?w)) = (w_catalog ?w)\<lparr>worker_cursors := rows\<rparr>"
      and cu: "\<forall>x. cursor_at ((w_catalog ?w)\<lparr>worker_cursors := rows\<rparr>) (mv_worker (pl_id (sel_pipeline s))) (ht_id (sel_source s)) = Some x \<longrightarrow>
        cursor_at (w_catalog ?w) (mv_worker (pl_id (sel_pipeline s))) (ht_id (sel_source s)) = Some x \<or> wc_last x = cm_id e" by auto
    have wf: "wf_log ((w_catalog ?w)\<lparr>worker_cursors := rows\<rparr>)" using l by (simp add: mv_ledger_def wf_log_cursors)
    have "mv_ledger I limits s start G ?V ((w_catalog ?w)\<lparr>worker_cursors := rows\<rparr>, w_files ?w)"
    proof (rule mv_ledger_frame [OF l _ _ wf])
      fix k assume "view_cursor s ((w_catalog ?w)\<lparr>worker_cursors := rows\<rparr>) = Some k" "view_cursor s (w_catalog ?w) \<noteq> Some k"
      then have "k = cm_id e" using cu by (auto simp: view_cursor_def)
      then show "k \<le> commit_seq ((w_catalog ?w)\<lparr>worker_cursors := rows\<rparr>) \<and>
          (\<forall>d \<in> source_adds s (w_catalog ?w). start < cm_id d \<and> cm_id d \<le> k \<longrightarrow> cm_id d \<in> ?A (w_catalog ?w))"
        using due' ap by (auto simp: due_def)
    qed simp_all
    then show ?thesis using o(1) by (simp add: mv_inv_def c fresh_paths_def part_paths_def)
  qed
  from act_call_runs [OF adv [unfolded advance_def]] show ?thesis
    using o(1) moved [of "we_db we (w_tick w)"] by auto
qed

lemma completed_ok:
  assumes env: "mv_world we I limits s start G tcols P" and inv: "mv_inv I limits s start G tcols P w"
    and due: "due (lb_blake3 I) s start e (w_catalog w)" "cm_kind e = ''add''" and id: "mv_identity (lb_blake3 I) s (cm_id e) = Inr i"
    and co: "completed we s (cm_id e) i w = (w', r)"
  shows "mv_inv I limits s start G tcols P w'" "r = Inr False \<Longrightarrow> offsets_run (w_catalog w) (w_catalog w')"
proof -
  have pure: "fst (read_mv_cursor db p c) = c" "fst (lookup_operation db j c) = c" for db p j and c :: catalog
    by (auto simp: read_mv_cursor_def lookup_operation_def tx_bind_def query_def tx_fail_def tx_return_def tx_lift_def
        split: option.splits prod.splits sum.splits)
  obtain w1 q1 where r1: "act_call we MCatalog (\<lambda>env. read_mv_cursor env (pl_id (sel_pipeline s))) w = (w1, q1)" by (rule prod.exhaust)
  note a1 = mv_read [OF env inv r1 pure(1)]
  note due1 = due_run [OF a1(2) due(1)]
  have "mv_inv I limits s start G tcols P w' \<and> (r = Inr False \<longrightarrow> offsets_run (w_catalog w) (w_catalog w'))"
  proof (cases "\<exists>k. q1 = Inr k \<and> \<not> k \<ge> cm_id e")
    case False
    with co r1 have "w' = w1" "r \<noteq> Inr False" by (auto simp: completed_def act_bind_def act_return_def split: sum.splits if_splits)
    with a1 show ?thesis by simp
  next
    case True
    obtain w2 q2 where r2: "act_call we MCatalog (\<lambda>env. lookup_operation env i) w1 = (w2, q2)" by (rule prod.exhaust)
    note a2 = mv_read [OF env a1(1) r2 pure(2)]
    note due2 = due_run [OF a2(2) due1]
    show ?thesis
    proof (cases "\<exists>cid. q2 = Inr (LookupCommitted cid)")
      case False
      with co r1 r2 True have "w' = w2" by (auto simp: completed_def act_bind_def act_return_def split: sum.splits operation_lookup.splits)
      with a2 a1(2) show ?thesis by (auto intro: rtranclp_trans)
    next
      case True
      then obtain cid where q2: "q2 = Inr (LookupCommitted cid)" by blast
      obtain w3 q3 where r3: "advance we s (cm_id e) w2 = (w3, q3)" by (rule prod.exhaust)
      from a2(3) [OF q2] obtain db where "snd (lookup_operation db i (w_catalog w2)) = Inr (LookupCommitted cid)" by blast
      then have "reconcile i (operation_row i (w_catalog w2)) = Inr (Some cid)"
        by (auto simp: lookup_operation_def tx_bind_def query_def tx_return_def tx_lift_def tx_fail_def
            split: option.splits sum.splits prod.splits)
      then have "recorded (w_catalog w2) i cid" by (simp add: reconcile_recorded)
      moreover have "e \<in> source_adds s (w_catalog w2)" using due2 due(2) by (auto simp: due_def source_adds_def)
      ultimately have "cm_id e \<in> applied_adds (lb_blake3 I) s (w_catalog w2)" using id by (auto simp: applied_adds_def)
      with advance_ok [OF env a2(1) due2 _ r3] have "mv_inv I limits s start G tcols P w3" by blast
      moreover have "w' = w3" "r \<noteq> Inr False" using co r1 r2 r3 q2 \<open>\<exists>k. q1 = Inr k \<and> \<not> k \<ge> cm_id e\<close>
        by (auto simp: completed_def act_bind_def act_return_def split: sum.splits)
      ultimately show ?thesis by simp
    qed
  qed
  then show "mv_inv I limits s start G tcols P w'" "r = Inr False \<Longrightarrow> offsets_run (w_catalog w) (w_catalog w')" by blast+
qed

text \<open>The parts of the event at hand are rows of the catalog, now and later.\<close>

lemma event_part:
  assumes l: "mv_ledger I limits s start G V (c, fs)" and due: "due b s start e c" and p: "p \<in> set (added_parts c (cm_id e))"
  shows "fs (path (part_meta p)) \<in> {None, Some (G (path (part_meta p)))}"
proof -
  from p obtain q where q: "q \<in> set (parts c)" "pr_created_by q = cm_id e" "p = part_of_row q" by (auto simp: added_parts_def)
  have "has_commit (commits c) (cm_id e) (pr_hypertable q)" using l q(1,2) by (auto simp: mv_ledger_def wf_log_def wf_parts_def part_ok_def)
  then obtain d where d: "d \<in> set (commits c)" "cm_id d = cm_id e" "cm_hypertable d = pr_hypertable q" by (auto simp: has_commit_def)
  have "distinct (map cm_id (commits c))" using l by (simp add: mv_ledger_def wf_log_def wf_commits_def strict_sorted_iff)
  moreover have "e \<in> set (commits c)" using due by (simp add: due_def)
  ultimately have "d = e" using d(1,2) by (auto simp: distinct_map inj_on_def)
  then have "pr_hypertable q = ht_id (sel_source s)" using d(3) due by (simp add: due_def)
  with l q(1,3) show ?thesis by (simp add: mv_ledger_def part_of_row_def)
qed

lemma read_parts_Cons:
  assumes "read_parts we I cols cid limit (p # ps) bytes w = (w', r)"
  obtains (failed) "w' = others_ran we w" "\<exists>x. r = Inl x"
    | (read) f bs bytes' r2 where "w_files (others_ran we w) (path (part_meta p)) = Some f" "part_input I cols f = Some bs"
        "read_parts we I cols cid limit ps bytes' (others_ran we w) = (w', r2)" "r = map_sum id (\<lambda>rest. bs @ rest) r2"
proof -
  let ?err = "SourceRead cid (part_id p) (path (part_meta p))" and ?w = "others_ran we w"
  obtain w1 q where op: "open_source we ?err (path (part_meta p)) w = (w1, q)" by (rule prod.exhaust)
  have w1: "w1 = ?w" using op by (auto simp: open_source_def act_step_def Let_def split: option.splits prod.splits if_splits)
  show thesis
  proof (cases q)
    case (Inl x)
    with assms op w1 show thesis by (intro failed) (auto simp: act_bind_def Let_def)
  next
    case (Inr fn)
    obtain f n where fn: "fn = (f, n)" by (rule prod.exhaust)
    have f: "w_files ?w (path (part_meta p)) = Some f"
      using op Inr fn by (auto simp: open_source_def act_step_Inr split: option.splits if_splits)
    let ?r = "rbind (ok_or (pq_open (lb_arrow I) f) (?err [ReadFailure])) (\<lambda>(s, items). read_batches I cols ?err limit n s items bytes)"
    show thesis
    proof (cases ?r)
      case (Inl x)
      with assms op w1 \<open>q = Inr fn\<close> fn show thesis by (intro failed) (auto simp: act_bind_def Let_def act_lift_def act_raise_def)
    next
      case (Inr bb)
      obtain bytes' bs where bb: "bb = (bytes', bs)" by (rule prod.exhaust)
      with Inr obtain sch items where "pq_open (lb_arrow I) f = Some (sch, items)" "read_batches I cols ?err limit n sch items bytes = Inr (bytes', bs)"
        by (auto simp: rbind_eq_Inr_iff)
      then have part: "part_input I cols f = Some bs" by (simp add: part_input_def read_batches_Inr)
      obtain w4 r4 where r4: "read_parts we I cols cid limit ps bytes' ?w = (w4, r4)" by (rule prod.exhaust)
      with assms op w1 \<open>q = Inr fn\<close> fn Inr bb have "w' = w4" "r = map_sum id (\<lambda>rest. bs @ rest) r4"
        by (auto simp: act_bind_def Let_def act_return_def act_lift_def split: sum.splits)
      with r4 f part show thesis by (intro read [of f bs bytes' r4]) simp_all
    qed
  qed
qed

lemma read_parts_ok:
  assumes env: "mv_world we I limits s start G tcols P"
  shows "read_parts we I cols cid limit ps bytes w = (w', r) \<Longrightarrow> mv_inv I limits s start G tcols P w \<Longrightarrow>
    due (lb_blake3 I) s start e (w_catalog w) \<Longrightarrow> set ps \<subseteq> set (added_parts (w_catalog w) (cm_id e)) \<Longrightarrow>
    mv_inv I limits s start G tcols P w' \<and> offsets_run (w_catalog w) (w_catalog w') \<and>
    (\<forall>input. r = Inr input \<longrightarrow> input_of I cols G ps = Some input)"
proof (induction ps arbitrary: bytes w r)
  case Nil
  then show ?case by (auto simp: act_return_def input_of_def)
next
  case (Cons p ps)
  let ?w = "others_ran we w"
  note o = mv_others [OF env Cons.prems(2)]
  have due: "due (lb_blake3 I) s start e (w_catalog ?w)" by (rule due_run [OF o(2) Cons.prems(3)])
  have "added_parts (w_catalog ?w) (cm_id e) = added_parts (w_catalog w) (cm_id e)"
    using run_added [OF o(2), of "cm_id e"] Cons.prems(3) by (simp add: due_def)
  then have sub: "p \<in> set (added_parts (w_catalog ?w) (cm_id e))" "set ps \<subseteq> set (added_parts (w_catalog ?w) (cm_id e))"
    using Cons.prems(4) by simp_all
  from Cons.prems(1) show ?case
  proof (cases rule: read_parts_Cons)
    case failed
    with o show ?thesis by auto
  next
    case (read f bs bytes' r2)
    note ih = Cons.IH [OF read(3) o(1) due sub(2)]
    have "G (path (part_meta p)) = f" using event_part [OF _ due sub(1), of I limits G _ "w_files ?w"] o(1) read(1) by (auto simp: mv_inv_def)
    then have part: "part_input I cols (G (path (part_meta p))) = Some bs" using read(2) by simp
    have "input_of I cols G (p # ps) = Some input" if "r = Inr input" for input
    proof -
      from that read(4) obtain rest where rest: "r2 = Inr rest" "input = bs @ rest" by (cases r2) auto
      with ih have "input_of I cols G ps = Some rest" by simp
      with part rest(2) show ?thesis by (auto simp: input_of_def)
    qed
    with ih o(2) show ?thesis by (auto intro: rtranclp_trans)
  qed
qed

lemma publish_ok:
  assumes env: "mv_world we I limits s start G tcols P" and inv: "mv_inv I limits s start G tcols P w"
    and due: "due (lb_blake3 I) s start e (w_catalog w)" "cm_kind e = ''add''" and id: "mv_identity (lb_blake3 I) s (cm_id e) = Inr i"
    and out: "mv_outcome I limits s G (added_parts (w_catalog w) (cm_id e))
      (sum_list (map (view_rows (file_view (lb_arrow I) (lb_df I) tcols) \<circ> (ep_bytes \<circ> fi_part)) items))"
    and pub: "publish_add we (write_libs.truncate I) (sel_target s) items (PlainAdd i) w = (w', r)"
  shows "mv_inv I limits s start G tcols P w' \<and> (\<forall>y. r = Inr y \<longrightarrow>
    due (lb_blake3 I) s start e (w_catalog w') \<and> cm_id e \<in> applied_adds (lb_blake3 I) s (w_catalog w'))"
proof -
  let ?V = "file_view (lb_arrow I) (lb_df I) tcols"
  let ?J = "mv_ledger I limits s start G ?V" and ?W = "write_libs.truncate I"
  have rel: "rely we P ?J" and paths: "\<forall>n. output_path we (ht_id (sel_target s)) 0 n \<in> P n" using env by (simp_all add: mv_world_def)
  have i: "?J (w_catalog w, w_files w)" "fresh_paths P w" using inv by (simp_all add: mv_inv_def)
  from publish_add_outcome [OF rel mv_ledger_framed paths i pub] have fresh: "fresh_paths P w'"
    and "(\<exists>x. r = Inl x) \<and> ?J (w_catalog w', w_files w') \<or> committed_from P ?J ?W (ht_id (sel_target s)) items (PlainAdd i) w w' r" by blast+
  then consider "\<exists>x. r = Inl x" "?J (w_catalog w', w_files w')" | "committed_from P ?J ?W (ht_id (sel_target s)) items (PlainAdd i) w w' r" by blast
  then show ?thesis
  proof cases
    case 1
    with fresh show ?thesis by (auto simp: mv_inv_def)
  next
    case 2
    then obtain c db ps x where c: "?J (c, w_files w')" "offsets_run (w_catalog w) c"
      "commit_add (lb_de ?W) (ht_id (sel_target s)) ps (PlainAdd i) db c = (w_catalog w', x)"
      and r: "(\<exists>d. r = Inl d) \<or> r = map_sum (Raised \<circ> WCatalog) id x"
      and ps: "\<And>V. sum_list (map (object_rows V (w_files w')) ps) = sum_list (map (view_rows V \<circ> (ep_bytes \<circ> fi_part)) items)"
      unfolding committed_from_def by blast
    note due' = due_run [OF c(2) due(1)]
    have n: "cm_id e \<in> cm_id ` source_adds s c" using due' due(2) by (auto simp: due_def source_adds_def)
    have "added_parts c (cm_id e) = added_parts (w_catalog w) (cm_id e)" using run_added [OF c(2), of "cm_id e"] due(1) by (simp add: due_def)
    then have "mv_outcome I limits s G (added_parts c (cm_id e)) (sum_list (map (object_rows ?V (w_files w')) ps))" using out ps [of ?V] by simp
    from mv_ledger_commit [OF env c(1) n id this c(3)] have l: "?J (w_catalog w', w_files w')"
      and ap: "\<forall>y. x = Inr y \<longrightarrow> cm_id e \<in> applied_adds (lb_blake3 I) s (w_catalog w')" by blast+
    have "due (lb_blake3 I) s start e (w_catalog w')" using due_run [OF commit_add_run [OF c(3)] due'] by simp
    moreover have "\<exists>y. x = Inr y" if "r = Inr z" for z using that r by (cases x) auto
    ultimately show ?thesis using l ap fresh by (auto simp: mv_inv_def)
  qed
qed

lemma mv_publish_ok:
  assumes env: "mv_world we I limits s start G tcols P" and inv: "mv_inv I limits s start G tcols P w"
    and due: "due (lb_blake3 I) s start e (w_catalog w)" "cm_kind e = ''add''" and id: "mv_identity (lb_blake3 I) s (cm_id e) = Inr i"
    and out: "mv_outcome I limits s G (added_parts (w_catalog w) (cm_id e))
      (sum_list (map (view_rows (file_view (lb_arrow I) (lb_df I) tcols) \<circ> (ep_bytes \<circ> fi_part)) items))"
    and ev: "ev_commit_id ev = cm_id e" and pub: "mv_publish we I s ev i items w = (w', r)"
  shows "mv_inv I limits s start G tcols P w'"
proof -
  obtain w1 q1 where c: "completed we s (cm_id e) i w = (w1, q1)" by (rule prod.exhaust)
  note a1 = completed_ok [OF env inv due id c]
  show ?thesis
  proof (cases "q1 = Inr False")
    case False
    with pub c ev have "w' = w1" by (auto simp: mv_publish_def act_bind_def act_return_def split: sum.splits if_splits)
    with a1(1) show ?thesis by simp
  next
    case True
    note run = a1(2) [OF True]
    have "added_parts (w_catalog w1) (cm_id e) = added_parts (w_catalog w) (cm_id e)" using run_added [OF run, of "cm_id e"] due(1) by (simp add: due_def)
    with out have out1: "mv_outcome I limits s G (added_parts (w_catalog w1) (cm_id e))
      (sum_list (map (view_rows (file_view (lb_arrow I) (lb_df I) tcols) \<circ> (ep_bytes \<circ> fi_part)) items))" by simp
    obtain w2 q2 where p: "publish_add we (write_libs.truncate I) (sel_target s) items (PlainAdd i) w1 = (w2, q2)" by (rule prod.exhaust)
    note a2 = publish_ok [OF env a1(1) due_run [OF run due(1)] due(2) id out1 p]
    show ?thesis
    proof (cases q2)
      case (Inl x)
      with pub c ev True p have "w' = w2" by (auto simp: mv_publish_def act_bind_def act_map_err_def split: stop.splits)
      with a2 show ?thesis by simp
    next
      case (Inr y)
      with pub c ev True p have adv: "advance we s (cm_id e) w2 = (w', r)" by (auto simp: mv_publish_def act_bind_def act_map_err_def)
      from a2 Inr have "due (lb_blake3 I) s start e (w_catalog w2)" "cm_id e \<in> applied_adds (lb_blake3 I) s (w_catalog w2)" by auto
      with advance_ok [OF env conjunct1 [OF a2] _ _ adv] show ?thesis by blast
    qed
  qed
qed

text \<open>The items of a successful attempt hold the rows of its outcome.\<close>

lemma encoded_outcome:
  assumes env: "mv_world we I limits s start G tcols P" and cols: "parse (table_schema (sel_source s)) = Inr cols"
    and input: "input_of I cols G ps = Some input" and ev: "ev_added ev = ps" and enc: "mv_encode I attempt limits s ev input = Inr items"
  shows "mv_outcome I limits s G ps (sum_list (map (view_rows (file_view (lb_arrow I) (lb_df I) tcols) \<circ> (ep_bytes \<circ> fi_part)) items))"
proof -
  let ?W = "write_libs.truncate I"
  from enc obtain bs where o: "if ps = [] then bs = [] else execute_pipeline I attempt (sel_prepared s) input = Inr bs"
    and b: "batches_to_l0_items ?W bs (sel_target s) (el_output_bytes limits) = Inr items"
    by (auto simp: mv_encode_def ev rbind_eq_Inr_iff map_sum_eq_Inr split: if_splits)
  have e: "writer_ok (lb_arrow ?W)" "lexsort_ok ?W" "parse (table_schema (sel_target s)) = Inr tcols" "distinct (map f_name (physical_schema tcols))"
    using env by (simp_all add: mv_world_def)
  from l0_items_rows [OF e b] obtain adapted where a: "adapt_batches ?W (sel_target s) tcols (el_output_bytes limits) 0 0 bs = Inr adapted"
    "sum_list (map (view_rows (file_view (lb_arrow I) (lb_df I) tcols) \<circ> (ep_bytes \<circ> fi_part)) items) = mset (concat (map rb_rows adapted))" by auto
  have "\<exists>output tcols adapted. (if ps = [] then output = [] else execute_pipeline I attempt (sel_prepared s) input = Inr output) \<and>
      parse (table_schema (sel_target s)) = Inr tcols \<and> adapt_batches ?W (sel_target s) tcols (el_output_bytes limits) 0 0 output = Inr adapted \<and>
      sum_list (map (view_rows (file_view (lb_arrow I) (lb_df I) tcols) \<circ> (ep_bytes \<circ> fi_part)) items) = mset (concat (map rb_rows adapted))"
    using o e(3) a by blast
  then show ?thesis unfolding mv_outcome_def
    by (intro exI [of _ cols] exI [of _ input] exI [of _ attempt] exI [of _ ev]) (use enc e(3) cols input ev in simp)
qed

lemma mv_transform_ok:
  assumes env: "mv_world we I limits s start G tcols P" and inv: "mv_inv I limits s start G tcols P w"
    and due: "due (lb_blake3 I) s start e (w_catalog w)" "cm_kind e = ''add''" and id: "mv_identity (lb_blake3 I) s (cm_id e) = Inr i"
    and ev: "ev_commit_id ev = cm_id e" "ev_added ev = added_parts (w_catalog w) (cm_id e)"
    and cols: "parse (table_schema (sel_source s)) = Inr cols" and input: "input_of I cols G (ev_added ev) = Some input"
    and tr: "mv_transform we I limits s ev i input w = (w', r)"
  shows "mv_inv I limits s start G tcols P w'"
proof (cases "mv_encode I (w_tick w) limits s ev input")
  case (Inr items)
  with tr have p: "mv_publish we I s ev i items w = (w', r)" by (simp add: mv_transform_def)
  from encoded_outcome [OF env cols input refl Inr] show ?thesis
    by (intro mv_publish_ok [OF env inv due id _ ev(1) p]) (simp add: ev(2))
next
  case (Inl x)
  obtain w1 q where c: "completed we s (cm_id e) i w = (w1, q)" by (rule prod.exhaust)
  note a = completed_ok [OF env inv due id c]
  show ?thesis
  proof (cases "q = Inr False \<and> pd_error_policy (pl_definition (sel_pipeline s)) = Skip \<and> is_data_error x")
    case True
    then have q: "q = Inr False" by simp
    with tr Inl c ev True have p: "mv_publish we I s ev i [] w1 = (w', r)" by (simp add: mv_transform_def act_bind_def)
    have "added_parts (w_catalog w1) (cm_id e) = ev_added ev" using run_added [OF a(2) [OF q], of "cm_id e"] due(1) ev(2) by (simp add: due_def)
    moreover have "mv_outcome I limits s G (ev_added ev) {#}" unfolding mv_outcome_def
      by (intro exI [of _ cols] exI [of _ input] exI [of _ "w_tick w"] exI [of _ ev]) (use Inl True cols input in simp)
    ultimately show ?thesis by (intro mv_publish_ok [OF env a(1) due_run [OF a(2) [OF q] due(1)] due(2) id _ ev(1) p]) simp
  next
    case False
    with tr Inl c ev have "w' = w1"
      by (auto simp: mv_transform_def act_bind_def act_return_def act_raise_def split: sum.splits if_splits)
    with a(1) show ?thesis by simp
  qed
qed

lemma process_add_ok:
  assumes env: "mv_world we I limits s start G tcols P" and inv: "mv_inv I limits s start G tcols P w"
    and due: "due (lb_blake3 I) s start e (w_catalog w)" "cm_kind e = ''add''" and id: "mv_identity (lb_blake3 I) s (cm_id e) = Inr i"
    and ev: "ev_commit_id ev = cm_id e" "ev_added ev = added_parts (w_catalog w) (cm_id e)"
    and pa: "process_add we I limits s ev i w = (w', r)"
  shows "mv_inv I limits s start G tcols P w'"
proof -
  obtain w1 q1 where c: "completed we s (cm_id e) i w = (w1, q1)" by (rule prod.exhaust)
  note a1 = completed_ok [OF env inv due id c]
  show ?thesis
  proof (cases "q1 = Inr False")
    case False
    with pa c ev have "w' = w1" by (auto simp: process_add_def act_bind_def act_return_def split: sum.splits if_splits)
    with a1(1) show ?thesis by simp
  next
    case True
    note run1 = a1(2) [OF True] and due1 = due_run [OF a1(2) [OF True] due(1)]
    have ap1: "ev_added ev = added_parts (w_catalog w1) (cm_id e)" using run_added [OF run1, of "cm_id e"] due(1) ev(2) by (simp add: due_def)
    obtain w2 q2 where rd: "read_input we I (sel_source s) ev (el_input_bytes limits) w1 = (w2, q2)" by (rule prod.exhaust)
    have a2: "mv_inv I limits s start G tcols P w2 \<and> offsets_run (w_catalog w1) (w_catalog w2) \<and>
      (\<forall>input. q2 = Inr input \<longrightarrow> (\<exists>cols. parse (table_schema (sel_source s)) = Inr cols \<and> input_of I cols G (ev_added ev) = Some input))"
    proof (cases "parse (table_schema (sel_source s))")
      case (Inl x)
      with rd have "w2 = w1" "\<exists>y. q2 = Inl y" by (auto simp: read_input_def act_bind_def act_lift_def act_raise_def)
      with a1(1) show ?thesis by auto
    next
      case (Inr cols)
      with rd have "read_parts we I cols (ev_commit_id ev) (el_input_bytes limits) (ev_added ev) 0 w1 = (w2, q2)" by (simp add: read_input_def)
      from read_parts_ok [OF env this a1(1) due1] ap1 Inr show ?thesis by auto
    qed
    show ?thesis
    proof (cases q2)
      case (Inr input)
      with a2 obtain cols where cols: "parse (table_schema (sel_source s)) = Inr cols" "input_of I cols G (ev_added ev) = Some input" by blast
      from pa c ev True rd Inr have tr: "mv_transform we I limits s ev i input w2 = (w', r)" by (simp add: process_add_def act_bind_def act_try_def)
      note run2 = conjunct1 [OF conjunct2 [OF a2]]
      have "ev_added ev = added_parts (w_catalog w2) (cm_id e)" using run_added [OF run2, of "cm_id e"] due1 ap1 by (simp add: due_def)
      from mv_transform_ok [OF env conjunct1 [OF a2] due_run [OF run2 due1] due(2) id ev(1) this cols tr] show ?thesis .
    next
      case (Inl x)
      note run2 = conjunct1 [OF conjunct2 [OF a2]]
      obtain w3 q3 where c3: "completed we s (cm_id e) i w2 = (w3, q3)" by (rule prod.exhaust)
      note a3 = completed_ok [OF env conjunct1 [OF a2] due_run [OF run2 due1] due(2) id c3]
      have "w' = w2 \<or> w' = w3" using pa c ev True rd Inl c3
        by (auto simp: process_add_def act_bind_def act_try_def act_return_def act_raise_def split: sum.splits if_splits stop.splits)
      with a2 a3(1) show ?thesis by blast
    qed
  qed
qed

lemma changes_since_state: "fst (changes_since env ht k limit c) = c"
proof -
  have fe: "fst (fetch_events env i cs c) = c" for i cs
  proof (induction cs arbitrary: i)
    case (Cons e cs)
    from Cons.IH [of "Suc i"] show ?case
      by (cases "fetch_events env (Suc i) cs c") (auto simp: tx_bind_def query_def tx_return_def split: option.splits sum.splits)
  qed (simp add: tx_return_def)
  show ?thesis using feed_head_state [of env ht c] fe
    by (auto simp: changes_since_def tx_bind_def query_def tx_fail_def split: option.splits prod.splits sum.splits)
qed

lemma read_mv_cursor_view:
  assumes "mv_ledger I limits s start G V (c, fs)" "snd (read_mv_cursor env (pl_id (sel_pipeline s)) c) = Inr k"
  shows "view_cursor s c = Some k"
proof -
  from assms(2) obtain r where r: "find (\<lambda>r. plr_id r = pl_id (sel_pipeline s)) (pipelines c) = Some r"
    and k: "map_option wc_last (cursor_at c (mv_worker (pl_id (sel_pipeline s))) (plr_source_id r)) = Some k"
    by (auto simp: read_mv_cursor_def tx_bind_def query_def tx_fail_def tx_return_def split: option.splits prod.splits sum.splits if_splits)
  from r have "r \<in> set (pipelines c)" "plr_id r = pl_id (sel_pipeline s)" by (auto simp: find_Some_iff)
  with assms(1) have "plr_source_id r = ht_id (sel_source s)" by (simp add: mv_ledger_def)
  with k show ?thesis by (simp add: view_cursor_def)
qed

lemma process_selected_ok:
  assumes env: "mv_world we I limits s start G tcols P" and inv: "mv_inv I limits s start G tcols P w"
    and ps: "process_selected we I limits s w = (w', r)"
  shows "mv_inv I limits s start G tcols P w'"
proof -
  let ?m = "\<lambda>env. read_mv_cursor env (pl_id (sel_pipeline s))"
  have pure1: "fst (?m db c) = c" for db c
    by (auto simp: read_mv_cursor_def tx_bind_def query_def tx_fail_def tx_return_def split: option.splits prod.splits sum.splits)
  obtain w1 q1 where r1: "act_call we MCatalog ?m w = (w1, q1)" by (rule prod.exhaust)
  note a1 = mv_read [OF env inv r1 pure1]
  show ?thesis
  proof (cases q1)
    case (Inl x)
    with ps r1 have "w' = w1" by (simp add: process_selected_def act_bind_def)
    with a1(1) show ?thesis by simp
  next
    case (Inr k)
    let ?ch = "\<lambda>env. changes_since env (ht_id (sel_source s)) k 1"
    have pure2: "fst (?ch db c) = c" for db c by (rule changes_since_state)
    obtain w2 q2 where r2: "act_call we MCatalog ?ch w1 = (w2, q2)" by (rule prod.exhaust)
    note a2 = mv_read [OF env a1(1) r2 pure2]
    have l1: "mv_ledger I limits s start G (file_view (lb_arrow I) (lb_df I) tcols) (w_catalog w1, w_files w1)" using a1(1) by (simp add: mv_inv_def)
    from a1(3) [OF Inr] obtain db where "snd (read_mv_cursor db (pl_id (sel_pipeline s)) (w_catalog w1)) = Inr k" by blast
    then have k: "view_cursor s (w_catalog w1) = Some k" by (rule read_mv_cursor_view [OF l1])
    show ?thesis
    proof (cases "\<exists>ev evs. q2 = Inr (ev # evs)")
      case False
      with ps r1 r2 Inr have "w' = w2" by (auto simp: process_selected_def act_bind_def act_return_def split: sum.splits list.splits)
      with a2(1) show ?thesis by simp
    next
      case True
      then obtain ev evs where q2: "q2 = Inr (ev # evs)" by blast
      from a2(3) [OF q2] obtain db2 where "snd (?ch db2 (w_catalog w2)) = Inr (ev # evs)" by blast
      with pure2 [of db2 "w_catalog w2"] have ch: "?ch db2 (w_catalog w2) = (w_catalog w2, Inr (ev # evs))" by (simp add: prod_eq_iff)
      have wf2: "wf_log (w_catalog w2)" using a2(1) by (simp add: mv_inv_def mv_ledger_def)
      from next_due [OF l1 k a2(2) ch wf2] obtain e where e: "ev = event_of (w_catalog w2) e" "due (lb_blake3 I) s start e (w_catalog w2)" by blast
      obtain w3 q3 where pe: "process_event we I limits s ev w2 = (w3, q3)" by (rule prod.exhaust)
      have w': "w' = w3" using ps r1 r2 Inr q2 pe by (auto simp: process_selected_def act_bind_def act_return_def split: sum.splits)
      have "mv_inv I limits s start G tcols P w3"
      proof (cases "cm_kind e = ''add''")
        case False
        with pe e(1) consider "advance we s (cm_id e) w2 = (w3, q3)" | "w3 = w2"
          by (auto simp: process_event_def event_of_parts act_raise_def split: if_splits)
        then show ?thesis using advance_ok [OF env a2(1) e(2)] a2(1) False by cases blast+
      next
        case True
        show ?thesis
        proof (cases "mv_identity (lb_blake3 I) s (cm_id e)")
          case (Inl x)
          with pe e(1) True have "w3 = w2" by (auto simp: process_event_def event_of_parts act_bind_def act_lift_def act_raise_def)
          with a2(1) show ?thesis by simp
        next
          case (Inr i)
          with pe e(1) True have "process_add we I limits s ev i w2 = (w3, q3)" by (simp add: process_event_def event_of_parts)
          from process_add_ok [OF env a2(1) e(2) True Inr _ _ this] e(1) show ?thesis by (simp add: event_of_parts)
        qed
      qed
      with w' show ?thesis by simp
    qed
  qed
qed

lemma process_once_ok:
  assumes "mv_world we I (mc_limits (fl_config fleet)) s start G tcols P" "fl_selected fleet = [s]"
    and "mv_inv I (mc_limits (fl_config fleet)) s start G tcols P w" "process_once we I fleet w = (w', r)"
  shows "mv_inv I (mc_limits (fl_config fleet)) s start G tcols P w'"
proof -
  obtain w1 q where p: "process_selected we I (mc_limits (fl_config fleet)) s w = (w1, q)" by (rule prod.exhaust)
  have "w' = w1" using assms(2,4) p
    by (auto simp: process_once_def act_bind_def act_try_def act_return_def act_raise_def split: sum.splits stop.splits if_splits)
  with process_selected_ok [OF assms(1,3) p] show ?thesis by simp
qed

lemma mv_run_ok:
  assumes env: "mv_world we I (mc_limits (fl_config fleet)) s start G tcols P" and fleet: "fl_selected fleet = [s]"
  shows "mv_run we I fleet cs w = (w', r) \<Longrightarrow> mv_inv I (mc_limits (fl_config fleet)) s start G tcols P w \<Longrightarrow>
    mv_inv I (mc_limits (fl_config fleet)) s start G tcols P w'"
proof (induction cs arbitrary: w rule: length_induct)
  case (1 cs)
  show ?case
  proof (cases "cs = [] \<or> hd cs")
    case True
    with 1 show ?thesis by (cases cs) (auto simp: act_return_def)
  next
    case False
    then obtain cs' where cs: "cs = False # cs'" by (cases cs) auto
    obtain w1 q where p: "process_once we I fleet w = (w1, q)" by (rule prod.exhaust)
    note i1 = process_once_ok [OF env fleet 1(3) p]
    have "w' = w1 \<or> (\<exists>ds. length ds < length cs \<and> mv_run we I fleet ds w1 = (w', r))"
    proof (cases cs')
      case Nil
      with 1(2) cs p show ?thesis by (auto simp: act_bind_def act_try_def act_return_def act_raise_def split: sum.splits stop.splits if_splits)
    next
      case (Cons c ds)
      then have "length (c # ds) < length cs" "length ds < length cs" by (simp_all add: cs)
      moreover have "w' = w1 \<or> mv_run we I fleet (c # ds) w1 = (w', r) \<or> mv_run we I fleet ds w1 = (w', r)"
        using 1(2) cs Cons p
        by (auto simp: act_bind_def act_try_def act_return_def act_raise_def Let_def split: sum.splits stop.splits if_splits)
      ultimately show ?thesis by blast
    qed
    with 1(1) i1 show ?thesis by blast
  qed
qed

section \<open>Cycles\<close>

lemma reach_exits:
  assumes "(v, t) \<in> E\<^sup>*" "v \<in> V" "t \<notin> V" "\<And>a b. a \<in> V \<Longrightarrow> (a, b) \<in> E \<Longrightarrow> b \<in> V \<union> X"
  shows "\<exists>x \<in> X - V. (x, t) \<in> E\<^sup>*"
  using assms(1,2)
proof (induction rule: converse_rtrancl_induct)
  case (step y z)
  then show ?case using assms(4) [OF step.prems step.hyps(1)] by blast
qed (use assms(3) in blast)

lemma cycle_found_iff:
  assumes "source \<notin> set visited" "\<And>a b. a \<in> set visited \<Longrightarrow> (a, b) \<in> set es \<Longrightarrow> b \<in> set visited \<union> set pending"
  shows "cycle_found es source pending visited \<longleftrightarrow> (\<exists>x \<in> set pending. (x, source) \<in> (set es)\<^sup>*)"
  using assms
proof (induction es source pending visited rule: cycle_found.induct)
  case (2 es source node pending visited)
  let ?E = "set es" and ?next = "rev (map snd (filter (\<lambda>e. fst e = node) es)) @ pending"
  consider "node = source" | "node \<noteq> source" "node \<in> set visited" | "node \<noteq> source" "node \<notin> set visited" by blast
  then show ?case
  proof cases
    case 2
    have "\<exists>x \<in> set pending. (x, source) \<in> ?E\<^sup>*" if "(node, source) \<in> ?E\<^sup>*"
    proof -
      have "\<exists>x \<in> set (node # pending) - set visited. (x, source) \<in> ?E\<^sup>*"
        by (rule reach_exits [OF that 2(2) "2.prems"(1)]) (rule "2.prems"(2))
      with 2(2) show ?thesis by auto
    qed
    moreover have "cycle_found es source pending visited \<longleftrightarrow> (\<exists>x \<in> set pending. (x, source) \<in> ?E\<^sup>*)"
      using "2.prems" 2(2) by (intro "2.IH"(1) [OF 2]) auto
    ultimately show ?thesis using 2 by auto
  next
    case 3
    have "(node, source) \<in> ?E\<^sup>* \<longleftrightarrow> (\<exists>x. (node, x) \<in> ?E \<and> (x, source) \<in> ?E\<^sup>*)"
      using 3(1) by (metis converse_rtranclE r_into_rtrancl rtrancl_trans)
    moreover have "set ?next = {x. (node, x) \<in> ?E} \<union> set pending" by force
    moreover have "cycle_found es source ?next (node # visited) \<longleftrightarrow> (\<exists>x \<in> set ?next. (x, source) \<in> ?E\<^sup>*)"
      using "2.prems" 3(1) by (intro "2.IH"(2) [OF 3]) (auto simp: image_iff)
    ultimately show ?thesis using 3 by auto
  qed simp
qed simp

text \<open>The guard fires exactly when the selected edges contain a cycle.\<close>

lemma cycle_guard:
  "list_ex (\<lambda>s. cycle_found (map sel_edge ss) (ht_id (sel_source s)) [ht_id (sel_target s)] []) ss \<longleftrightarrow> \<not> acyclic (set (map sel_edge ss))"
proof -
  let ?E = "set (map sel_edge ss)"
  have "cycle_found (map sel_edge ss) a [b] [] \<longleftrightarrow> (b, a) \<in> ?E\<^sup>*" for a b using cycle_found_iff [of a "[]" "map sel_edge ss" "[b]"] by simp
  then have "list_ex (\<lambda>s. cycle_found (map sel_edge ss) (ht_id (sel_source s)) [ht_id (sel_target s)] []) ss \<longleftrightarrow>
      (\<exists>(a, b) \<in> ?E. (b, a) \<in> ?E\<^sup>*)" by (auto simp: list_ex_iff sel_edge_def)
  also have "\<dots> \<longleftrightarrow> \<not> acyclic ?E"
  proof -
    have "(\<exists>(a, b) \<in> E. (b, a) \<in> E\<^sup>*) \<longleftrightarrow> \<not> acyclic E" for E :: "(hypertable_id \<times> hypertable_id) set"
      unfolding acyclic_def by (auto intro: rtrancl_into_trancl2 dest!: tranclD)
    then show ?thesis .
  qed
  finally show ?thesis .
qed


section \<open>Properties\<close>

text \<open>C4: a materialised view is exactly-once. A worker of one pipeline runs, with replicas and every other
  client at work between its calls, until it is cancelled, fails or is dropped anywhere: the ledger
  of the view holds throughout. Each source \<open>ADD\<close> up to the cursor is applied; the target holds, for
  each applied \<open>ADD\<close>, the rows of exactly one attempt at it (an attempt's SQL may read the clock, so two
  attempts may differ) or nothing where the error policy skips it, and nothing else.\<close>

theorem mv_exactly_once:
  assumes "mv_world we I (mc_limits (fl_config fleet)) s start G tcols P" "fl_selected fleet = [s]"
    and "mv_ledger I (mc_limits (fl_config fleet)) s start G (file_view (lb_arrow I) (lb_df I) tcols) (w_catalog w, w_files w)"
    and "fresh_paths P w" "mv_run we I fleet cs w = (w', r)"
  shows "mv_ledger I (mc_limits (fl_config fleet)) s start G (file_view (lb_arrow I) (lb_df I) tcols) (w_catalog w', w_files w')
    \<and> fresh_paths P w'"
  using mv_run_ok [OF assms(1,2,5)] assms(3,4) by (simp add: mv_inv_def)

definition demo_mv_libs :: "(demo_writer, schema \<times> cells list list) pipeline_libs" where
  "demo_mv_libs = \<lparr>lb_blake3 = (\<lambda>bs. drop (length bs - 9) bs), lb_de = (\<lambda>_. None), lb_text = (\<lambda>_. []), lb_arrow = demo_arrow,
     lb_df = \<lparr>df_refs = (\<lambda>_ _. None), df_compile = (\<lambda>_ _ _ _. None)\<rparr>,
     wl_lexsort = (\<lambda>fs rs. map_option (\<lambda>conv. sort_key (\<lambda>i. conv (rs ! i)) [0..<length rs]) (ar_converter demo_arrow fs)),
     wl_can_cast = (\<lambda>a b. a = b), wl_cast = (\<lambda>a b c. if a = b then Some c else None), wl_is_timestamp = (\<lambda>_. False), wl_memory = (\<lambda>_. 1),
     wl_value = (\<lambda>_ _. None), wl_json_text = (\<lambda>_. []),
     pl_session = (\<lambda>_ _ _ _. Inr ()), pl_logical = (\<lambda>n _ _. Inr (LogicalPlan OtherNode [LogicalPlan (TableScan n) []])),
     pl_physical = (\<lambda>_. Inr ()), pl_output_schema = (\<lambda>_. [demo_key_field]), pl_stream = (\<lambda>_ _ _ input. Inr (map Inr input))\<rparr>"

definition demo_view :: pipeline_row where
  "demo_view = \<lparr>plr_id = 1, plr_name = ''copy'', plr_source_kind = ''parquet'', plr_source_id = 1, plr_target_kind = ''parquet'',
     plr_target_id = 2, plr_sql = ''select * from events'', plr_delivery = ''exactly_once'', plr_error_policy = ''stall'',
     plr_event_time_column = None\<rparr>"

definition demo_mv_state :: catalog where
  "demo_mv_state = demo_state\<lparr>
     hypertables := hypertables demo_state @ [\<lparr>hr_id = 2, hr_name = ''copy'', hr_schema = demo_schema_json,
       hr_partition_spec = JObject [(''columns'', JArray [])],
       hr_sort_key = [''k''], hr_packing_key = ''k'', hr_target_file_bytes = Some 0\<rparr>],
     pipelines := [demo_view], worker_cursors := [\<lparr>wc_worker = ''mv/1'', wc_hypertable = 1, wc_last = 0\<rparr>]\<rparr>"

definition demo_mv_world :: "(schema \<times> cells list list) world" where
  "demo_mv_world = demo_world\<lparr>w_catalog := demo_mv_state\<rparr>"

definition demo_mv_config :: mv_config where
  "demo_mv_config = default_mv_config\<lparr>mc_pipelines := [''copy'']\<rparr>"

definition demo_fleet :: mv_fleet where
  "demo_fleet = (case snd (fleet_new demo_we demo_mv_libs demo_mv_config demo_mv_world) of Inr f \<Rightarrow> f | Inl _ \<Rightarrow> \<lparr>fl_selected = [], fl_config = demo_mv_config\<rparr>)"
definition demo_sel :: selected where
  "demo_sel = hd (fl_selected demo_fleet)"

lemma demo_fleet_sel: "fl_selected demo_fleet = [demo_sel]"
  by code_simp

lemma demo_sel_ids: "ht_id (sel_source demo_sel) = 1" "ht_id (sel_target demo_sel) = 2" "pl_id (sel_pipeline demo_sel) = 1"
  by code_simp+

lemma demo_target_cols: "parse (table_schema (sel_target demo_sel)) = Inr demo_columns"
  by code_simp

text \<open>A digest that keeps the source commit separates the events of one view.\<close>

lemma demo_view_separates:
  assumes "lb_blake3 demo_mv_libs (intent_bytes (view_intent demo_sel m)) = lb_blake3 demo_mv_libs (intent_bytes (view_intent demo_sel n))"
  shows "intent_bytes (view_intent demo_sel m) = intent_bytes (view_intent demo_sel n)"
proof -
  have len: "length (canon_int v) = 9" for v by (simp add: canon_int_def be_bytes_def)
  obtain pre where "\<And>n. intent_bytes (view_intent demo_sel n) = pre @ canon_int n"
    using that [of "canon_str ''ukiel'' @ canon_str ''mv'' @ canon_int 1 @ canon_int 2 @ canon_int 1 @ canon_int 1 @ canon_int 1"]
    by (simp add: view_intent_def demo_sel_ids canonical_bytes_def mv_body_def MV_TRANSFORMATION_VERSION_def)
  with assms show ?thesis by (simp add: demo_mv_libs_def len)
qed

lemma demo_mv_ok:
  "mv_world demo_we demo_mv_libs limits demo_sel 0 G demo_columns (drawn_paths demo_we 2)"
proof -
  have "rely demo_we (drawn_paths demo_we 2) J" for J
    using demo_paths [of _ _ 5 2] by (auto simp: rely_def calm_wenv_def)
  moreover have "output_path demo_we 2 0 n \<in> drawn_paths demo_we 2 n" for n unfolding drawn_paths_def by blast
  moreover have "lexsort_ok (write_libs.truncate demo_mv_libs)"
    by (auto simp: lexsort_ok_def demo_mv_libs_def write_libs.defs)
  moreover have "writer_ok (lb_arrow demo_mv_libs)" by (simp add: demo_mv_libs_def demo_arrow_ok)
  ultimately show ?thesis
    using demo_target_cols demo_view_separates
    by (auto simp: mv_world_def demo_sel_ids in_i64_def demo_physical)
qed

lemma demo_mv_ledger:
  "mv_ledger demo_mv_libs limits demo_sel 0 (\<lambda>p. the (w_files demo_world p)) V (w_catalog demo_mv_world, w_files demo_mv_world)"
proof -
  let ?c = "w_catalog demo_mv_world"
  have "wf_log ?c" using demo_state_wf
    by (auto simp: demo_mv_world_def demo_mv_state_def wf_log_def wf_commits_def wf_parts_def wf_offsets_def)
  moreover have "applied_adds b demo_sel ?c = {}" for b
    by (simp add: applied_adds_def recorded_def operation_row_def keyed_commit_def demo_mv_world_def demo_mv_state_def demo_world_defs)
  moreover have "source_adds demo_sel ?c = set (commits demo_state)"
    by (auto simp: source_adds_def demo_sel_ids demo_mv_world_def demo_mv_state_def demo_world_defs)
  moreover have "view_cursor demo_sel ?c = Some 0" by code_simp
  moreover have "contents V fs ?c 2 = {#}" for fs
    by (simp add: contents_def demo_mv_world_def demo_mv_state_def demo_world_defs)
  ultimately show ?thesis
    by (simp add: mv_ledger_def demo_sel_ids) (simp add: demo_mv_world_def demo_mv_state_def demo_view_def demo_world_defs in_i64_def)
qed

lemma demo_mv_run:
  "view_cursor demo_sel (w_catalog (fst (mv_run demo_we demo_mv_libs demo_fleet [False, True] demo_mv_world))) = Some 1"
  "list_ex (\<lambda>e. cm_id e = 1 \<and> cm_hypertable e = 1 \<and> cm_kind e = ''add'')
     (commits (w_catalog (fst (mv_run demo_we demo_mv_libs demo_fleet [False, True] demo_mv_world))))"
  by code_simp+

theorem mv_exactly_once_witness:
  "let G = (\<lambda>p. the (w_files demo_world p)); V = file_view demo_arrow (lb_df demo_mv_libs) demo_columns;
       w' = fst (mv_run demo_we demo_mv_libs demo_fleet [False, True] demo_mv_world);
       ledger_at = (\<lambda>w. mv_ledger demo_mv_libs (mc_limits (fl_config demo_fleet)) demo_sel 0 G V (w_catalog w, w_files w))
   in ledger_at demo_mv_world \<and> ledger_at w' \<and> 1 \<in> applied_adds (lb_blake3 demo_mv_libs) demo_sel (w_catalog w')"
proof -
  let ?run = "mv_run demo_we demo_mv_libs demo_fleet [False, True] demo_mv_world"
  let ?V = "file_view demo_arrow (lb_df demo_mv_libs) demo_columns" and ?G = "\<lambda>p. the (w_files demo_world p)"
  obtain w' r where w': "?run = (w', r)" by (cases ?run)
  have V: "?V = file_view (lb_arrow demo_mv_libs) (lb_df demo_mv_libs) demo_columns" by (simp add: demo_mv_libs_def)
  have "path (pr_meta p) \<in> {''a'', ''b''}" if "p \<in> set (parts (w_catalog demo_mv_world))" for p
    using that by (auto simp: demo_mv_world_def demo_mv_state_def demo_world_defs)
  then have "part_paths (w_catalog demo_mv_world) \<subseteq> {''a'', ''b''}" unfolding part_paths_def by blast
  then have fresh: "fresh_paths (drawn_paths demo_we 2) demo_mv_world"
    by (auto simp: fresh_paths_def drawn_paths_def output_path_def)
  note l = demo_mv_ledger [of "mc_limits (fl_config demo_fleet)" ?V]
  have l': "mv_ledger demo_mv_libs (mc_limits (fl_config demo_fleet)) demo_sel 0 ?G ?V (w_catalog w', w_files w')"
    using mv_exactly_once [OF demo_mv_ok demo_fleet_sel l [unfolded V] fresh w'] unfolding V by blast
  have "view_cursor demo_sel (w_catalog w') = Some 1" "\<exists>e \<in> source_adds demo_sel (w_catalog w'). cm_id e = 1"
    using demo_mv_run [unfolded w' fst_conv] by (auto simp: source_adds_def demo_sel_ids list_ex_iff)
  with l' have "1 \<in> applied_adds (lb_blake3 demo_mv_libs) demo_sel (w_catalog w')" by (force simp: mv_ledger_def)
  with l l' show ?thesis unfolding Let_def w' fst_conv by blast
qed

text \<open>C37: the fleet's cycle check is exact. Once every configured pipeline has been resolved, the fleet
  starts when the graph of (source, target) pairs is acyclic, and is refused before any cursor is
  seeded when it has a cycle, of whatever length: the depth-first search with its visited set neither
  misses a cycle nor reports one that is not there, and ends.\<close>

theorem fleet_guard_exact:
  assumes "mc_pipelines config \<noteq> []" "mc_poll_interval_ms config \<noteq> 0"
    and "select_all we I config [] [] (mc_pipelines config) w = (w1, Inr ss)"
  shows "fleet_new we I config w =
    (if acyclic (set (map sel_edge ss))
     then act_bind (ensure_cursors we ss) (\<lambda>_. act_return \<lparr>fl_selected = ss, fl_config = config\<rparr>) w1
     else (w1, Inl (Raised (MConfig ''selected pipeline graph contains a cycle''))))"
  using assms unfolding fleet_new_def cycle_guard by (simp add: act_bind_def act_raise_def)

lemma demo_select: "snd (select_all demo_we demo_mv_libs demo_mv_config [] [] (mc_pipelines demo_mv_config) demo_mv_world) = Inr [demo_sel]"
  by code_simp

theorem fleet_guard_exact_witness:
  "\<exists>w1. fleet_new demo_we demo_mv_libs demo_mv_config demo_mv_world =
     act_bind (ensure_cursors demo_we [demo_sel]) (\<lambda>_. act_return \<lparr>fl_selected = [demo_sel], fl_config = demo_mv_config\<rparr>) w1"
proof -
  obtain w1 where w1: "select_all demo_we demo_mv_libs demo_mv_config [] [] (mc_pipelines demo_mv_config) demo_mv_world = (w1, Inr [demo_sel])"
    using demo_select by (metis prod.collapse)
  have "acyclic (set (map sel_edge [demo_sel]))"
    by (simp add: sel_edge_def demo_sel_ids acyclic_insert) (simp add: acyclic_def)
  with fleet_guard_exact [OF _ _ w1] show ?thesis by (auto simp: demo_mv_config_def default_mv_config_def)
qed
theorem execution_within_budget_witness:
  "let b = \<lparr>rb_schema = [demo_key_field], rb_rows = [[I64 1], [I64 3]]\<rparr>; pp = sel_prepared demo_sel
   in execute_pipeline demo_mv_libs 0 pp [b] = Inr [b] \<and> saturating_usize (sum_list (map num_rows [b])) \<le> el_output_rows (pp_limits pp)"
proof -
  let ?b = "\<lparr>rb_schema = [demo_key_field], rb_rows = [[I64 1], [I64 3]]\<rparr>"
  have e: "execute_pipeline demo_mv_libs 0 (sel_prepared demo_sel) [?b] = Inr [?b]" by code_simp
  from execution_within_budget [OF e] e show ?thesis unfolding Let_def by blast
qed

end
