(* ===== verification/Supervisor.thy ===== *)
theory Supervisor
  imports Recovery MvSafety
begin

text \<open>
  Role supervision, \<^verbatim>\<open>crates/ukield/src/supervisor.rs\<close>: a worker is run, and after a recoverable catalog
  failure rebuilt, until it stops, fails for good or the process is shut down. An attempt is an
  action in the world of \<open>Worker\<close>; a fresh worker is the next action of the sequence. Whether an
  attempt fired its ready signal is part of the worker's description.
\<close>

section \<open>Definitions\<close>

text \<open>\<open>RoleFailure::catalog_error\<close> of the roles.\<close>

fun ingest_catalog_error :: "ingest_error \<Rightarrow> catalog_error option" where
  "ingest_catalog_error (ICatalog e) = Some e"
| "ingest_catalog_error _ = None"

fun compactor_catalog_error :: "compactor_error \<Rightarrow> catalog_error option" where
  "compactor_catalog_error (CCatalog e) = Some e"
| "compactor_catalog_error _ = None"

record ('f, 'e) role_worker =
  rw_attempt :: "nat \<Rightarrow> ('f, 'e, unit) act"
  rw_ready :: "nat \<Rightarrow> bool"
  rw_catalog_error :: "'e \<Rightarrow> catalog_error option"

definition ambiguous_operation :: "('e \<Rightarrow> catalog_error option) \<Rightarrow> 'e \<Rightarrow> operation_identity option" where
  "ambiguous_operation ce e = (case ce e of Some (AmbiguousMutation i _) \<Rightarrow> Some i | _ \<Rightarrow> None)"

definition recoverable_class :: "('e \<Rightarrow> catalog_error option) \<Rightarrow> 'e \<Rightarrow> catalog_error_class option" where
  "recoverable_class ce e = (case ce e of Some c \<Rightarrow> if is_recoverable_transport c then Some (class_of c) else None | None \<Rightarrow> None)"

datatype 'e sup_error = WorkerError 'e | ReconcileError catalog_error

text \<open>A match on how a computation ended.\<close>

definition sup_case :: "('f, 'd, 'a) sup \<Rightarrow> ('d halt \<Rightarrow> ('f, 'e, 'b) sup) \<Rightarrow> ('a \<Rightarrow> ('f, 'e, 'b) sup) \<Rightarrow> ('f, 'e, 'b) sup" where
  "sup_case m f g = (\<lambda>w. case m w of (w1, t1, r) \<Rightarrow>
     (case (case r of Inl h \<Rightarrow> f h w1 | Inr x \<Rightarrow> g x w1) of (w2, t2, r2) \<Rightarrow> (w2, t1 @ t2, r2)))"

fun reconcile_operation :: "'f wenv \<Rightarrow> sup_env \<Rightarrow> recovery_policy \<Rightarrow> nat \<Rightarrow> operation_identity \<Rightarrow> ('f, catalog_error, unit) sup" where
  "reconcile_operation we sv policy 0 identity = sup_halt StillRunning"
| "reconcile_operation we sv policy (Suc n) identity =
     sup_bind (sup_call (act_call we id (\<lambda>env. lookup_operation env identity))) (\<lambda>r.
       case r of
         Inr l \<Rightarrow> sup_emit [LookedUp identity l]
       | Inl e \<Rightarrow>
           if is_recoverable_transport e then
             sup_bind (wait_for_catalog we sv policy n) (\<lambda>_.
             sup_bind (sup_emit [Health ReconcilingEv]) (\<lambda>_. reconcile_operation we sv policy n identity))
           else sup_halt (Fails e))"

text \<open>From the failure of an attempt to the point where the next may be built.\<close>

definition recover ::
  "'f wenv \<Rightarrow> sup_env \<Rightarrow> recovery_policy \<Rightarrow> nat \<Rightarrow> catalog_error_class \<Rightarrow> operation_identity option \<Rightarrow> ('f, catalog_error, unit) sup" where
  "recover we sv policy n class ambiguous =
     sup_bind (sup_emit [AttemptFailed ambiguous, Health (DegradedEv class)]) (\<lambda>_.
     sup_bind (wait_for_catalog we sv policy n) (\<lambda>_.
     sup_bind (sup_emit [Health ReconcilingEv]) (\<lambda>_.
       case ambiguous of None \<Rightarrow> sup_return () | Some identity \<Rightarrow> reconcile_operation we sv policy n identity)))"

definition stop_or_fail :: "catalog_error halt \<Rightarrow> ('f, 'e sup_error, unit) sup" where
  "stop_or_fail h = (case h of
       ShutDown \<Rightarrow> sup_emit [Health StoppedEv]
     | Fails c \<Rightarrow> sup_bind (sup_emit [Health (FailedEv (Some (class_of c)))]) (\<lambda>_. sup_halt (Fails (ReconcileError c)))
     | StillRunning \<Rightarrow> sup_halt StillRunning
     | ProcessGone d \<Rightarrow> sup_halt (ProcessGone d)
     | Panicked \<Rightarrow> sup_halt Panicked)"

definition after_attempt ::
  "('e \<Rightarrow> catalog_error option) \<Rightarrow> (catalog_error_class \<Rightarrow> operation_identity option \<Rightarrow> ('f, catalog_error, unit) sup)
   \<Rightarrow> ('f, 'e sup_error, unit) sup \<Rightarrow> ('e, unit) result \<Rightarrow> ('f, 'e sup_error, unit) sup" where
  "after_attempt ce recovery rebuild outcome =
     (case outcome of
        Inr _ \<Rightarrow> sup_emit [Health StoppedEv]
      | Inl e \<Rightarrow>
          (case recoverable_class ce e of
             None \<Rightarrow> sup_bind (sup_emit [Health (FailedEv (map_option class_of (ce e)))]) (\<lambda>_. sup_halt (Fails (WorkerError e)))
           | Some class \<Rightarrow> sup_case (recovery class (ambiguous_operation ce e)) stop_or_fail (\<lambda>_. rebuild)))"

fun supervise_loop :: "'f wenv \<Rightarrow> sup_env \<Rightarrow> ('f, 'e) role_worker \<Rightarrow> recovery_policy \<Rightarrow> nat \<Rightarrow> nat \<Rightarrow> ('f, 'e sup_error, unit) sup" where
  "supervise_loop we sv rw policy 0 k = sup_halt StillRunning"
| "supervise_loop we sv rw policy (Suc n) k =
     sup_bind (sup_emit [AttemptStarted k]) (\<lambda>_.
     sup_bind (sup_call (rw_attempt rw k)) (\<lambda>r.
     sup_bind (sup_emit (if rw_ready rw k then [Health HealthyEv] else [])) (\<lambda>_.
       after_attempt (rw_catalog_error rw) (recover we sv policy n) (supervise_loop we sv rw policy n (Suc k)) r)))"

definition supervise_role :: "'f wenv \<Rightarrow> sup_env \<Rightarrow> ('f, 'e) role_worker \<Rightarrow> recovery_policy \<Rightarrow> nat \<Rightarrow> ('f, 'e sup_error, unit) sup" where
  "supervise_role we sv rw policy n = supervise_loop we sv rw policy n 0"

text \<open>A startup step: \<open>Fails None\<close> is the shutdown while waiting.\<close>

fun with_catalog_recovery ::
  "'f wenv \<Rightarrow> sup_env \<Rightarrow> recovery_policy \<Rightarrow> ('e \<Rightarrow> catalog_error option) \<Rightarrow> ('f, 'e, 'a) act \<Rightarrow> nat \<Rightarrow> ('f, 'e option, 'a) sup" where
  "with_catalog_recovery we sv policy ce step 0 = sup_halt StillRunning"
| "with_catalog_recovery we sv policy ce step (Suc n) =
     sup_bind (sup_call step) (\<lambda>r.
       case r of
         Inr v \<Rightarrow> sup_bind (sup_emit [Health CatalogUp]) (\<lambda>_. sup_return v)
       | Inl e \<Rightarrow>
           if recoverable_class ce e = None then sup_halt (Fails (Some e))
           else sup_bind (sup_emit [Health CatalogDown]) (\<lambda>_.
             sup_case (wait_for_catalog we sv policy n :: ('f, unit, unit) sup)
               (\<lambda>h. case h of
                  ShutDown \<Rightarrow> sup_halt (Fails None)
                | StillRunning \<Rightarrow> sup_halt StillRunning
                | ProcessGone d \<Rightarrow> sup_halt (ProcessGone d)
                | Panicked \<Rightarrow> sup_halt Panicked
                | Fails _ \<Rightarrow> sup_halt StillRunning)
               (\<lambda>_. with_catalog_recovery we sv policy ce step n)))"

section \<open>What a supervised process keeps\<close>

definition sup_keeps :: "('f world \<Rightarrow> bool) \<Rightarrow> ('f, 'e, 'a) sup \<Rightarrow> bool" where
  "sup_keeps J m \<longleftrightarrow> (\<forall>w w' t r. J w \<longrightarrow> m w = (w', t, r) \<longrightarrow> J w')"

named_theorems keeps_rules

lemma sup_keepsD: "sup_keeps J m \<Longrightarrow> J w \<Longrightarrow> m w = (w', t, r) \<Longrightarrow> J w'"
  unfolding sup_keeps_def by blast

lemma sup_keeps_basic [keeps_rules]: "sup_keeps J (sup_return x)" "sup_keeps J (sup_halt h)" "sup_keeps J (sup_emit evs)"
  by (simp_all add: sup_keeps_def sup_return_def sup_halt_def sup_emit_def)

lemma sup_caseE:
  assumes "sup_case m f g w = (w', t, r)"
  obtains w1 t1 r1 t2 where "m w = (w1, t1, r1)" "t = t1 @ t2" "(case r1 of Inl h \<Rightarrow> f h w1 | Inr x \<Rightarrow> g x w1) = (w', t2, r)"
proof -
  obtain w1 t1 r1 where m: "m w = (w1, t1, r1)" by (rule prod_cases3)
  obtain w2 t2 r2 where c: "(case r1 of Inl h \<Rightarrow> f h w1 | Inr x \<Rightarrow> g x w1) = (w2, t2, r2)" by (rule prod_cases3)
  from assms have "w' = w2" "t = t1 @ t2" "r = r2" by (simp_all add: sup_case_def m c)
  with m c show ?thesis by (intro that) auto
qed

lemma sup_bind_case: "sup_bind m f = sup_case m sup_halt f"
proof
  fix w
  obtain w1 t1 r1 where "m w = (w1, t1, r1)" by (rule prod_cases3)
  then show "sup_bind m f w = sup_case m sup_halt f w" by (cases r1) (simp_all add: sup_bind_def sup_case_def sup_halt_def)
qed

lemma sup_keeps_case [keeps_rules]:
  assumes "sup_keeps J m" "\<And>h. sup_keeps J (f h)" "\<And>x. sup_keeps J (g x)"
  shows "sup_keeps J (sup_case m f g)"
  unfolding sup_keeps_def
proof (intro allI impI)
  fix w w' t r assume J: "J w" and "sup_case m f g w = (w', t, r)"
  then obtain w1 t1 r1 t2 where m: "m w = (w1, t1, r1)" and c: "(case r1 of Inl h \<Rightarrow> f h w1 | Inr x \<Rightarrow> g x w1) = (w', t2, r)"
    by (elim sup_caseE)
  have J1: "J w1" by (rule sup_keepsD [OF assms(1) J m])
  show "J w'"
  proof (cases r1)
    case (Inl h)
    with c show ?thesis by (intro sup_keepsD [OF assms(2) J1]) simp
  next
    case (Inr x)
    with c show ?thesis by (intro sup_keepsD [OF assms(3) J1]) simp
  qed
qed

lemma sup_keeps_bind [keeps_rules]: "sup_keeps J m \<Longrightarrow> (\<And>x. sup_keeps J (f x)) \<Longrightarrow> sup_keeps J (sup_bind m f)"
  unfolding sup_bind_case by (intro keeps_rules)

lemma sup_keeps_if [keeps_rules]: "sup_keeps J m \<Longrightarrow> sup_keeps J n \<Longrightarrow> sup_keeps J (\<lambda>w. if P w then m w else n w)"
  unfolding sup_keeps_def by (metis (full_types))

lemma sup_keeps_at: "(\<And>w. sup_keeps J (m w)) \<Longrightarrow> sup_keeps J (\<lambda>w. m w w)"
  unfolding sup_keeps_def by blast

lemma sup_keeps_call:
  assumes "\<And>w w' r. J w \<Longrightarrow> m w = (w', r) \<Longrightarrow> J w'"
  shows "sup_keeps J (sup_call m)"
  unfolding sup_keeps_def
proof (intro allI impI)
  fix w w' t r assume J: "J w" and c: "sup_call m w = (w', t, r)"
  obtain w1 r1 where m: "m w = (w1, r1)" by (cases "m w")
  have "w' = w1" using c by (simp add: sup_call_def m split: sum.splits stop.splits)
  with assms [OF J m] show "J w'" by simp
qed

text \<open>The contract of a worker that is rebuilt: every attempt, however it ends, and everything others do
  between two calls, keep an invariant of the world. Then supervision keeps it.\<close>

locale rebuilt_worker =
  fixes we :: "'f wenv" and attempt :: "nat \<Rightarrow> ('f, 'e, unit) act" and J :: "'f world \<Rightarrow> bool"
  assumes attempt: "J w \<Longrightarrow> attempt k w = (w', r) \<Longrightarrow> J w'"
    and others: "J w \<Longrightarrow> J (others_ran we w)"
begin

lemma read_call: "(\<And>env c. fst (m env c) = c) \<Longrightarrow> sup_keeps J (sup_call (act_call we err m))"
proof (rule sup_keeps_call)
  fix w w' r assume m: "\<And>env c. fst (m env c) = c" and J: "J w" and c: "act_call we err m w = (w', r)"
  have "w' = others_ran we w"
    using act_step_effect [OF c [unfolded act_call_def]] m [of "we_db we (w_tick w)" "w_catalog (others_ran we w)"]
    by (auto simp: Let_def split: prod.splits)
  with others [OF J] show "J w'" by simp
qed

lemma ping_keeps [keeps_rules]: "sup_keeps J (sup_call (act_call we id ping))"
  by (rule read_call) (simp add: ping_def query_def split: option.split)

lemma lookup_keeps [keeps_rules]: "sup_keeps J (sup_call (act_call we id (\<lambda>env. lookup_operation env i)))"
  by (rule read_call) (auto simp: lookup_operation_def tx_bind_def query_def tx_lift_def tx_return_def tx_fail_def split: option.split sum.split)

lemma probe_keeps [keeps_rules]: "sup_keeps J (probe_catalog we sv)"
  unfolding probe_catalog_def by (rule sup_keeps_at [where m = "\<lambda>w. sup_bind (sup_call (act_call we id ping)) (\<lambda>r. sup_return (G w r))" for G])
    (intro keeps_rules)

lemma wait_keeps [keeps_rules]: "sup_keeps J (wait_loop we sv n b :: ('f, 'x, unit) sup)"
proof (induction n arbitrary: b)
  case (Suc n)
  have "sup_keeps J (case next_delay b of None \<Rightarrow> sup_halt Panicked | Some (d, b') \<Rightarrow> (\<lambda>w1.
      if sv_cancelled sv (w_tick w1) then sup_halt ShutDown w1 else sup_bind (sup_emit [Slept d]) (\<lambda>_. wait_loop we sv n b' :: ('f, 'x, unit) sup) w1))"
  proof (cases "next_delay b")
    case (Some x)
    then show ?thesis by (cases x) (simp, intro keeps_rules Suc.IH)
  qed (simp add: keeps_rules)
  note delay = this
  have "sup_keeps J (if ok then sup_emit [Health CatalogUp] else sup_bind (sup_emit [Health CatalogDown]) (\<lambda>_.
      case next_delay b of None \<Rightarrow> sup_halt Panicked | Some (d, b') \<Rightarrow> (\<lambda>w1.
      if sv_cancelled sv (w_tick w1) then sup_halt ShutDown w1 else sup_bind (sup_emit [Slept d]) (\<lambda>_. wait_loop we sv n b' :: ('f, 'x, unit) sup) w1)))" for ok
  proof (cases ok)
    case False
    show ?thesis by (subst if_not_P [OF False]) (intro sup_keeps_bind sup_keeps_basic delay)
  qed (simp add: keeps_rules)
  then show ?case unfolding wait_loop.simps by (intro sup_keeps_if sup_keeps_bind sup_keeps_basic probe_keeps)
qed (simp add: keeps_rules)

lemma reconcile_keeps [keeps_rules]: "sup_keeps J (reconcile_operation we sv policy n i)"
proof (induction n)
  case (Suc n)
  have "sup_keeps J (case r of Inr l \<Rightarrow> sup_emit [LookedUp i l] | Inl e \<Rightarrow>
      if is_recoverable_transport e then sup_bind (wait_for_catalog we sv policy n) (\<lambda>_.
        sup_bind (sup_emit [Health ReconcilingEv]) (\<lambda>_. reconcile_operation we sv policy n i))
      else sup_halt (Fails e))" for r
    by (cases r) (auto simp: wait_for_catalog_def intro!: keeps_rules Suc.IH)
  then show ?case unfolding reconcile_operation.simps by (intro sup_keeps_bind lookup_keeps)
qed (simp add: keeps_rules)

lemma recover_keeps [keeps_rules]: "sup_keeps J (recover we sv policy n class ambiguous)"
  unfolding recover_def wait_for_catalog_def by (cases ambiguous) (auto intro!: keeps_rules)

lemma attempt_keeps: "sup_keeps J (sup_call (attempt k))"
  by (rule sup_keeps_call) (rule attempt)

lemma after_attempt_keeps:
  assumes "sup_keeps J rebuild" "\<And>c a. sup_keeps J (recovery c a)"
  shows "sup_keeps J (after_attempt ce recovery rebuild outcome)"
  unfolding after_attempt_def stop_or_fail_def
  by (cases outcome) (auto intro!: keeps_rules assms split: option.split halt.split)

lemma supervise_keeps:
  assumes "rw_attempt rw = attempt"
  shows "sup_keeps J (supervise_loop we sv rw policy n k)"
proof (induction n arbitrary: k)
  case (Suc n)
  then show ?case
    unfolding supervise_loop.simps assms by (intro sup_keeps_bind sup_keeps_basic attempt_keeps after_attempt_keeps recover_keeps)
qed (simp add: keeps_rules)

lemma supervised_keeps:
  assumes "rw_attempt rw = attempt" "J w" "supervise_role we sv rw policy n w = (w', t, r)"
  shows "J w'"
  using sup_keepsD [OF supervise_keeps [OF assms(1)] assms(2)] assms(3) by (simp add: supervise_role_def)

end
section \<open>What a supervised process does\<close>

definition emits :: "sup_event set \<Rightarrow> ('f, 'e, 'a) sup \<Rightarrow> bool" where
  "emits E m \<longleftrightarrow> (\<forall>w w' t r. m w = (w', t, r) \<longrightarrow> set t \<subseteq> E)"

named_theorems emits_rules

lemma emitsD: "emits E m \<Longrightarrow> m w = (w', t, r) \<Longrightarrow> set t \<subseteq> E"
  unfolding emits_def by blast

lemma emits_basic [emits_rules]: "emits E (sup_return x)" "emits E (sup_halt h)" "set evs \<subseteq> E \<Longrightarrow> emits E (sup_emit evs)"
  by (simp_all add: emits_def sup_return_def sup_halt_def sup_emit_def)

lemma emits_call [emits_rules]: "emits E (sup_call m)"
proof -
  have "t = []" if "sup_call m w = (w', t, r)" for w w' t r
    using that by (auto simp: sup_call_def split: prod.splits sum.splits stop.splits)
  then show ?thesis unfolding emits_def by fastforce
qed

lemma emits_case [emits_rules]:
  assumes "emits E m" "\<And>h. emits E (f h)" "\<And>x. emits E (g x)"
  shows "emits E (sup_case m f g)"
  unfolding emits_def
proof (intro allI impI)
  fix w w' t r assume "sup_case m f g w = (w', t, r)"
  then obtain w1 t1 r1 t2 where m: "m w = (w1, t1, r1)" and t: "t = t1 @ t2"
    and c: "(case r1 of Inl h \<Rightarrow> f h w1 | Inr x \<Rightarrow> g x w1) = (w', t2, r)" by (elim sup_caseE)
  have "set t2 \<subseteq> E"
  proof (cases r1)
    case (Inl h)
    with c show ?thesis by (intro emitsD [OF assms(2)]) simp
  next
    case (Inr x)
    with c show ?thesis by (intro emitsD [OF assms(3)]) simp
  qed
  with emitsD [OF assms(1) m] t show "set t \<subseteq> E" by simp
qed

lemma emits_bind [emits_rules]: "emits E m \<Longrightarrow> (\<And>x. emits E (f x)) \<Longrightarrow> emits E (sup_bind m f)"
  unfolding sup_bind_case by (intro emits_rules)

lemma emits_if [emits_rules]: "emits E m \<Longrightarrow> emits E n \<Longrightarrow> emits E (\<lambda>w. if P w then m w else n w)"
  unfolding emits_def by (metis (full_types))

definition wait_events :: "sup_event set" where
  "wait_events = {Health CatalogUp, Health CatalogDown} \<union> range Slept"

lemma emits_probe [emits_rules]: "emits E (probe_catalog we sv)"
proof -
  have "t = []" if "probe_catalog we sv w = (w', t, r)" for w w' t r
    using that by (auto simp: probe_catalog_def sup_bind_def sup_call_def sup_return_def split: prod.splits sum.splits stop.splits)
  then show ?thesis unfolding emits_def by fastforce
qed

lemma wait_emits: "emits wait_events (wait_loop we sv n b :: ('f, 'x, unit) sup)"
proof (induction n arbitrary: b)
  case (Suc n)
  have "emits wait_events (case next_delay b of None \<Rightarrow> sup_halt Panicked | Some (d, b') \<Rightarrow> (\<lambda>w1.
      if sv_cancelled sv (w_tick w1) then sup_halt ShutDown w1 else sup_bind (sup_emit [Slept d]) (\<lambda>_. wait_loop we sv n b' :: ('f, 'x, unit) sup) w1))"
  proof (cases "next_delay b")
    case (Some x)
    have "set [Slept (fst x)] \<subseteq> wait_events" by (simp add: wait_events_def)
    with Some show ?thesis by (cases x) (simp, intro emits_rules Suc.IH, simp)
  qed (simp add: emits_rules)
  note delay = this
  have "emits wait_events (if ok then sup_emit [Health CatalogUp] else sup_bind (sup_emit [Health CatalogDown]) (\<lambda>_.
      case next_delay b of None \<Rightarrow> sup_halt Panicked | Some (d, b') \<Rightarrow> (\<lambda>w1.
      if sv_cancelled sv (w_tick w1) then sup_halt ShutDown w1 else sup_bind (sup_emit [Slept d]) (\<lambda>_. wait_loop we sv n b' :: ('f, 'x, unit) sup) w1)))" for ok
  proof (cases ok)
    case False
    show ?thesis by (subst if_not_P [OF False]) (intro emits_bind emits_basic delay, simp add: wait_events_def)
  qed (auto simp: wait_events_def intro: emits_rules)
  then show ?case unfolding wait_loop.simps by (intro emits_if emits_bind emits_basic emits_probe)
qed (simp add: emits_rules)
text \<open>Events with which a role's state becomes final.\<close>

fun final_event :: "sup_event \<Rightarrow> bool" where
  "final_event (Health (FailedEv _)) = True"
| "final_event (Health StoppedEv) = True"
| "final_event _ = False"

text \<open>A monitor of the events: the operation whose outcome is open. An attempt must not start while one is.\<close>

fun pending :: "sup_event \<Rightarrow> operation_identity option \<Rightarrow> operation_identity option" where
  "pending (AttemptFailed a) p = a"
| "pending (LookedUp i l) p = (if p = Some i then None else p)"
| "pending _ p = p"

fun rebuild_ok :: "operation_identity option \<Rightarrow> sup_event list \<Rightarrow> bool" where
  "rebuild_ok p [] = True"
| "rebuild_ok p (ev # evs) = ((\<forall>k. ev = AttemptStarted k \<longrightarrow> p = None) \<and> rebuild_ok (pending ev p) evs)"

lemma rebuild_ok_append: "rebuild_ok p (s @ t) \<longleftrightarrow> rebuild_ok p s \<and> rebuild_ok (fold pending s p) t"
  by (induction s arbitrary: p) auto

definition recovery_events :: "sup_event set" where
  "recovery_events = wait_events \<union> {Health ReconcilingEv}"

lemma recovery_neutral:
  assumes "set t \<subseteq> recovery_events"
  shows "fold pending t p = p" "rebuild_ok p t" "list_all (\<lambda>ev. \<not> final_event ev) t"
  using assms by (induction t arbitrary: p) (auto simp: recovery_events_def wait_events_def)

text \<open>Reconciliation ends with the catalog's answer, or without one.\<close>

lemma sup_bind_Inr:
  "sup_bind m f w = (w', t, Inr x) \<longleftrightarrow> (\<exists>w1 t1 t2 y. m w = (w1, t1, Inr y) \<and> f y w1 = (w', t2, Inr x) \<and> t = t1 @ t2)"
  by (auto simp: sup_bind_def split: prod.splits sum.splits)

lemma sup_bind_Inl:
  "sup_bind m f w = (w', t, Inl h) \<longleftrightarrow> m w = (w', t, Inl h) \<or>
     (\<exists>w1 t1 t2 y. m w = (w1, t1, Inr y) \<and> f y w1 = (w', t2, Inl h) \<and> t = t1 @ t2)"
  by (auto simp: sup_bind_def split: prod.splits sum.splits)

lemma sup_basic_iff [simp]:
  "sup_emit evs w = (w', t, r) \<longleftrightarrow> w' = w \<and> t = evs \<and> r = Inr ()"
  "sup_return x w = (w', t, s) \<longleftrightarrow> w' = w \<and> t = [] \<and> s = Inr x"
  "sup_halt h w = (w', t, s) \<longleftrightarrow> w' = w \<and> t = [] \<and> s = Inl h"
  by (auto simp: sup_emit_def sup_return_def sup_halt_def)

lemma sup_call_trace: "sup_call m w = (w', t, r) \<Longrightarrow> t = []"
  by (auto simp: sup_call_def split: prod.splits sum.splits stop.splits)

lemma wait_no_failure: "wait_loop we sv n b w \<noteq> (w', t, Inl (Fails e))"
proof (induction n arbitrary: b w t)
  case (Suc n)
  then show ?case
    by (auto simp: sup_bind_Inl sup_bind_Inr probe_catalog_def sup_call_def split: if_splits option.splits prod.splits sum.splits stop.splits)
qed simp

lemma wait_halt: "wait_for_catalog we sv policy n w = (w', t, Inl h) \<Longrightarrow> h \<noteq> Fails e"
  unfolding wait_for_catalog_def by (rule notI) (simp add: wait_no_failure)

lemma wait_recovery: "wait_for_catalog we sv policy n w = (w', t, r) \<Longrightarrow> set t \<subseteq> recovery_events"
  using emitsD [OF wait_emits] unfolding wait_for_catalog_def recovery_events_def by blast

lemma sup_bindE:
  assumes "sup_bind m f w = (w', t, r)"
  obtains (halted) h where "m w = (w', t, Inl h)" "r = Inl h"
  | (went_on) w1 t1 t2 y where "m w = (w1, t1, Inr y)" "f y w1 = (w', t2, r)" "t = t1 @ t2"
  using assms by (cases r) (auto simp: sup_bind_Inl sup_bind_Inr)

lemma sup_emit_bind: "sup_bind (sup_emit evs) f w = (w', t, r) \<longleftrightarrow> (\<exists>u. f () w = (w', u, r) \<and> t = evs @ u)"
  by (cases r) (auto simp: sup_bind_Inl sup_bind_Inr)

lemma sup_call_halt: "sup_call m w = (w', t, Inl h) \<Longrightarrow> \<exists>d. h = ProcessGone d"
  by (auto simp: sup_call_def split: prod.splits sum.splits stop.splits)

definition reconciled :: "operation_identity \<Rightarrow> sup_event list \<Rightarrow> (catalog_error halt, unit) result \<Rightarrow> bool" where
  "reconciled i t r \<longleftrightarrow>
     (if r = Inr () then \<exists>t0 l. t = t0 @ [LookedUp i l] \<and> set t0 \<subseteq> recovery_events else set t \<subseteq> recovery_events) \<and>
     (\<forall>e. r = Inl (Fails e) \<longrightarrow> \<not> is_recoverable_transport e)"

lemma reconciled_append: "set s \<subseteq> recovery_events \<Longrightarrow> reconciled i t r \<Longrightarrow> reconciled i (s @ t) r"
  unfolding reconciled_def by (auto split: if_splits)

lemma reconcile_ends: "reconcile_operation we sv policy n i w = (w', t, r) \<Longrightarrow> reconciled i t r"
proof (induction n arbitrary: w t)
  case 0
  then show ?case by (simp add: reconciled_def)
next
  case (Suc n)
  from Suc.prems [unfolded reconcile_operation.simps] show ?case
  proof (cases rule: sup_bindE)
    case (halted h)
    with sup_call_halt [OF halted(1)] sup_call_trace [OF halted(1)] show ?thesis by (auto simp: reconciled_def)
  next
    case (went_on w1 t1 t2 y)
    note t1 = sup_call_trace [OF went_on(1)]
    show ?thesis
    proof (cases y)
      case (Inr l)
      with went_on t1 show ?thesis by (simp add: reconciled_def)
    next
      case (Inl e)
      show ?thesis
      proof (cases "is_recoverable_transport e")
        case True
        with went_on(2) Inl have "sup_bind (wait_for_catalog we sv policy n) (\<lambda>_.
            sup_bind (sup_emit [Health ReconcilingEv]) (\<lambda>_. reconcile_operation we sv policy n i)) w1 = (w', t2, r)" by simp
        then show ?thesis
        proof (cases rule: sup_bindE)
          case (halted h)
          with wait_halt [OF halted(1)] wait_recovery [OF halted(1)] went_on(3) t1 show ?thesis by (simp add: reconciled_def)
        next
          case (went_on w2 u1 u2 z)
          from went_on(2) obtain u3 where u: "u2 = Health ReconcilingEv # u3" "reconcile_operation we sv policy n i w2 = (w', u3, r)"
            unfolding sup_emit_bind by auto
          have "t = (u1 @ [Health ReconcilingEv]) @ u3" using \<open>t = t1 @ t2\<close> t1 went_on(3) u(1) by simp
          moreover have "set (u1 @ [Health ReconcilingEv]) \<subseteq> recovery_events"
            using wait_recovery [OF went_on(1)] by (simp add: recovery_events_def)
          ultimately show ?thesis using reconciled_append Suc.IH [OF u(2)] by blast
        qed
      next
        case False
        with went_on Inl t1 show ?thesis by (auto simp: reconciled_def)
      qed
    qed
  qed
qed

text \<open>A recovery that succeeds settles the open operation.\<close>

definition recovered :: "operation_identity option \<Rightarrow> sup_event list \<Rightarrow> (catalog_error halt, unit) result \<Rightarrow> bool" where
  "recovered a t r \<longleftrightarrow> rebuild_ok None t \<and> list_all (\<lambda>ev. \<not> final_event ev) t \<and> (r = Inr () \<longrightarrow> fold pending t None = None) \<and>
     (\<forall>e. r = Inl (Fails e) \<longrightarrow> \<not> is_recoverable_transport e)"

lemma recover_ends:
  assumes "recover we sv policy n class a w = (w', t, r)"
  shows "recovered a t r"
proof -
  let ?start = "[AttemptFailed a, Health (DegradedEv class)]"
  from assms obtain t1 where t: "t = ?start @ t1" and w: "sup_bind (wait_for_catalog we sv policy n) (\<lambda>_. sup_bind (sup_emit [Health ReconcilingEv])
      (\<lambda>_. case a of None \<Rightarrow> sup_return () | Some i \<Rightarrow> reconcile_operation we sv policy n i)) w = (w', t1, r)"
    unfolding recover_def sup_emit_bind [of ?start] by blast
  from w show ?thesis
  proof (cases rule: sup_bindE)
    case (halted h)
    with wait_halt [OF halted(1)] recovery_neutral [OF wait_recovery [OF halted(1)]] t show ?thesis by (simp add: recovered_def)
  next
    case (went_on w1 u1 u2 y)
    note u1 = recovery_neutral [OF wait_recovery [OF went_on(1)]]
    from went_on(2) obtain u3 where u: "u2 = Health ReconcilingEv # u3"
      "(case a of None \<Rightarrow> sup_return () | Some i \<Rightarrow> reconcile_operation we sv policy n i) w1 = (w', u3, r)" unfolding sup_emit_bind by auto
    show ?thesis
    proof (cases a)
      case None
      with u t went_on(3) u1 show ?thesis by (simp add: recovered_def rebuild_ok_append)
    next
      case (Some i)
      with u(2) have R: "reconciled i u3 r" by (intro reconcile_ends) simp
      show ?thesis
      proof (cases "r = Inr ()")
        case True
        with R obtain v l where v: "u3 = v @ [LookedUp i l]" "set v \<subseteq> recovery_events" by (auto simp: reconciled_def)
        with recovery_neutral [OF v(2)] u(1) t went_on(3) u1 Some True show ?thesis by (simp add: recovered_def rebuild_ok_append)
      next
        case False
        with R have v: "set u3 \<subseteq> recovery_events" by (simp add: reconciled_def)
        from recovery_neutral [OF v] u(1) t went_on(3) u1 Some False R show ?thesis
          by (simp add: recovered_def rebuild_ok_append reconciled_def)
      qed
    qed
  qed
qed
definition calm :: "sup_event list \<Rightarrow> bool" where
  "calm t \<longleftrightarrow> list_all (\<lambda>ev. \<not> final_event ev) t"

text \<open>How supervision ends: stopped with an \<open>Ok\<close>, failed with a permanent error, or not at all.\<close>

fun ended :: "('e \<Rightarrow> catalog_error option) \<Rightarrow> sup_event list \<Rightarrow> ('e sup_error halt, unit) result \<Rightarrow> bool" where
  "ended ce t (Inr _) = (\<exists>t0. t = t0 @ [Health StoppedEv] \<and> calm t0)"
| "ended ce t (Inl (Fails (WorkerError e))) =
     ((\<exists>t0. t = t0 @ [Health (FailedEv (map_option class_of (ce e)))] \<and> calm t0) \<and> recoverable_class ce e = None)"
| "ended ce t (Inl (Fails (ReconcileError c))) =
     ((\<exists>t0. t = t0 @ [Health (FailedEv (Some (class_of c)))] \<and> calm t0) \<and> \<not> is_recoverable_transport c)"
| "ended ce t (Inl _) = calm t"

lemma ended_append:
  assumes "calm s" "ended ce t r"
  shows "ended ce (s @ t) r"
  using assms by (induction ce t r rule: ended.induct) (auto simp: calm_def)

lemma after_attempt_ends:
  assumes "after_attempt ce (recover we sv policy n) rebuild x w = (w', t, r)"
    and cont: "\<And>w1 u. rebuild w1 = (w', u, r) \<Longrightarrow> rebuild_ok None u \<and> ended ce u r"
  shows "rebuild_ok None t \<and> ended ce t r"
proof (cases x)
  case (Inr y)
  with assms(1) show ?thesis by (simp add: after_attempt_def calm_def)
next
  case (Inl e)
  show ?thesis
  proof (cases "recoverable_class ce e")
    case None
    with assms(1) Inl show ?thesis by (auto simp: after_attempt_def sup_emit_bind calm_def)
  next
    case (Some cls)
    with assms(1) Inl have "sup_case (recover we sv policy n cls (ambiguous_operation ce e)) stop_or_fail (\<lambda>_. rebuild) w = (w', t, r)"
      by (simp add: after_attempt_def)
    then obtain w1 t1 x1 t2 where R: "recover we sv policy n cls (ambiguous_operation ce e) w = (w1, t1, x1)" and t: "t = t1 @ t2"
      and c: "(case x1 of Inl h \<Rightarrow> stop_or_fail h w1 | Inr _ \<Rightarrow> rebuild w1) = (w', t2, r)" by (elim sup_caseE)
    note ends = recover_ends [OF R]
    show ?thesis
    proof (cases x1)
      case (Inr y)
      with c cont [of w1 t2] ends show ?thesis
        by (auto simp: recovered_def t rebuild_ok_append calm_def intro: ended_append [unfolded calm_def])
    next
      case (Inl h)
      with c ends show ?thesis
        by (cases h) (auto simp: recovered_def stop_or_fail_def t rebuild_ok_append calm_def sup_emit_bind)
    qed
  qed
qed

lemma supervise_ends:
  "supervise_loop we sv rw policy n k w = (w', t, r) \<Longrightarrow> rebuild_ok None t \<and> ended (rw_catalog_error rw) t r"
proof (induction n arbitrary: k w t)
  case 0
  then show ?case by (simp add: calm_def)
next
  case (Suc n)
  let ?start = "[AttemptStarted k]" and ?ready = "if rw_ready rw k then [Health HealthyEv] else []"
  from Suc.prems obtain u where t: "t = ?start @ u" and u: "sup_bind (sup_call (rw_attempt rw k)) (\<lambda>x. sup_bind (sup_emit ?ready) (\<lambda>_.
      after_attempt (rw_catalog_error rw) (recover we sv policy n) (supervise_loop we sv rw policy n (Suc k)) x)) w = (w', u, r)"
    unfolding supervise_loop.simps sup_emit_bind [of ?start] by blast
  from u show ?case
  proof (cases rule: sup_bindE)
    case (halted h)
    with sup_call_halt [OF halted(1)] sup_call_trace [OF halted(1)] t show ?thesis by (auto simp: calm_def)
  next
    case (went_on w1 t1 t2 x)
    from went_on(2) obtain v where v: "t2 = ?ready @ v"
      and body: "after_attempt (rw_catalog_error rw) (recover we sv policy n) (supervise_loop we sv rw policy n (Suc k)) x w1 = (w', v, r)"
      unfolding sup_emit_bind [of ?ready] by blast
    have "rebuild_ok None v \<and> ended (rw_catalog_error rw) v r" using after_attempt_ends [OF body] Suc.IH by blast
    moreover have "calm (AttemptStarted k # ?ready)" by (simp add: calm_def)
    ultimately show ?thesis using ended_append [of "AttemptStarted k # ?ready" "rw_catalog_error rw" v r]
      sup_call_trace [OF went_on(1)] went_on(3) by (auto simp: t v rebuild_ok_append split: if_splits)
  qed
qed
section \<open>Properties\<close>

definition health_events :: "sup_event list \<Rightarrow> health_event list" where
  "health_events t = concat (map (\<lambda>ev. case ev of Health h \<Rightarrow> [h] | _ \<Rightarrow> []) t)"

lemma calm_not_terminal: "calm t \<Longrightarrow> \<not> is_terminal s \<Longrightarrow> \<not> is_terminal (fold state_after (health_events t) s)"
proof (induction t arbitrary: s)
  case (Cons ev t)
  have "\<not> is_terminal (state_after h s)" if "ev = Health h" for h
    using that Cons.prems by (cases h) (auto simp: calm_def)
  with Cons show ?case by (cases ev) (auto simp: health_events_def calm_def)
qed (simp add: health_events_def)

text \<open>C15: how supervision ends, and what it never does. In every run of a supervised role, an attempt
  after one whose commit was left ambiguous starts only once the catalog has answered for that
  operation. Beside any other roles of the process, the role's state is \<open>Stopped\<close> when supervision
  returned \<open>Ok\<close>, \<open>Failed\<close> when it returned an error, and neither while it runs; and the error is one
  that waiting cannot mend: a worker's error that is no recoverable catalog failure, or a lookup that
  failed for good.\<close>

theorem supervised_role_outcome:
  assumes run: "supervise_role we sv rw policy n w = (w', t, r)"
    and health: "health_run evs g g'" "own_events label evs = health_events t"
    and start: "entry_of g label = Some e" "\<not> is_terminal (re_state e)"
  shows "rebuild_ok None t \<and>
    (case r of
       Inr _ \<Rightarrow> handle_state g' label = Stopped
     | Inl (Fails (WorkerError x)) \<Rightarrow> handle_state g' label = Failed \<and> recoverable_class (rw_catalog_error rw) x = None
     | Inl (Fails (ReconcileError c)) \<Rightarrow> handle_state g' label = Failed \<and> \<not> is_recoverable_transport c
     | Inl _ \<Rightarrow> \<not> is_terminal (handle_state g' label))"
proof -
  have ends: "rebuild_ok None t" "ended (rw_catalog_error rw) t r" using supervise_ends run unfolding supervise_role_def by blast+
  have s: "handle_state g' label = fold state_after (health_events t) (re_state e)"
    using run_state [OF health(1), of label] start(1) health(2) by (auto simp: handle_state_def)
  have app: "health_events (u @ v) = health_events u @ health_events v" for u v by (simp add: health_events_def)
  have last: "fold state_after (health_events (t0 @ [Health h])) (re_state e) = state_after h (fold state_after (health_events t0) (re_state e))"
    for t0 h by (simp add: app) (simp add: health_events_def)
  note calm = calm_not_terminal [OF _ start(2)]
  show ?thesis using ends calm
    by (cases "(rw_catalog_error rw, t, r)" rule: ended.cases) (auto simp: s last)
qed

end
