(* ===== verification/SupervisorSafety.thy ===== *)
theory SupervisorSafety
  imports Supervisor IngestSafety
begin

text \<open>
  Rebuilding is safe: the ledgers of \<open>IngestSafety\<close> and \<open>MvSafety\<close> are invariants of every attempt, so
  they are invariants of supervision, over any number of failures, waits and rebuilds. The contract
  \<open>rebuilt_worker\<close> is interpreted for the two workers.
\<close>

definition route_inv where
  "route_inv we I cfg route ht cols E dec T lg P kafka w \<longleftrightarrow>
     (ingest_world we I cfg route ht cols E dec T lg P \<and> (\<forall>k. delivers lg (kafka k)) \<and>
      (\<forall>k assigned. snd ` set (messages (kafka k assigned)) \<subseteq> T) \<longrightarrow>
      ledger I cfg route ht (file_view (lb_arrow I) (lb_df I) cols) (table_row E dec cols) T lg (w_catalog w, w_files w) \<and> fresh_paths P w)"

interpretation route_role: rebuilt_worker we "\<lambda>k. route_work we I cfg route ht (polls k) (kafka k)"
  "route_inv we I cfg route ht cols E dec T lg P kafka"
  for we I cfg route ht polls kafka cols E dec T lg P
proof
  fix w k w' r
  assume inv: "route_inv we I cfg route ht cols E dec T lg P kafka w" and run: "route_work we I cfg route ht (polls k) (kafka k) w = (w', r)"
  show "route_inv we I cfg route ht cols E dec T lg P kafka w'"
    unfolding route_inv_def
  proof (intro impI)
    assume h: "ingest_world we I cfg route ht cols E dec T lg P \<and> (\<forall>k. delivers lg (kafka k)) \<and>
      (\<forall>k assigned. snd ` set (messages (kafka k assigned)) \<subseteq> T)"
    with inv have l: "ledger I cfg route ht (file_view (lb_arrow I) (lb_df I) cols) (table_row E dec cols) T lg (w_catalog w, w_files w)"
      "fresh_paths P w" unfolding route_inv_def by blast+
    have "\<exists>S b bs rest. loop_inv I cfg route ht cols E dec T lg P S bs rest b w'"
      using route_work_ok [OF _ _ _ l run] h by blast
    then show "ledger I cfg route ht (file_view (lb_arrow I) (lb_df I) cols) (table_row E dec cols) T lg (w_catalog w', w_files w') \<and> fresh_paths P w'"
      unfolding loop_inv_def by blast
  qed
next
  fix w assume inv: "route_inv we I cfg route ht cols E dec T lg P kafka w"
  show "route_inv we I cfg route ht cols E dec T lg P kafka (others_ran we w)"
    unfolding route_inv_def
  proof (intro impI)
    assume h: "ingest_world we I cfg route ht cols E dec T lg P \<and> (\<forall>k. delivers lg (kafka k)) \<and>
      (\<forall>k assigned. snd ` set (messages (kafka k assigned)) \<subseteq> T)"
    with inv have l: "ledger I cfg route ht (file_view (lb_arrow I) (lb_df I) cols) (table_row E dec cols) T lg (w_catalog w, w_files w)"
      "fresh_paths P w" unfolding route_inv_def by blast+
    have "rely we P (ledger I cfg route ht (file_view (lb_arrow I) (lb_df I) cols) (table_row E dec cols) T lg)"
      using h by (simp add: ingest_world_def)
    from others_keep [OF this l]
    show "ledger I cfg route ht (file_view (lb_arrow I) (lb_df I) cols) (table_row E dec cols) T lg
        (w_catalog (others_ran we w), w_files (others_ran we w)) \<and> fresh_paths P (others_ran we w)" by blast
  qed
qed

definition view_inv where
  "view_inv we I fleet s start G tcols P w \<longleftrightarrow>
     (mv_world we I (mc_limits (fl_config fleet)) s start G tcols P \<and> fl_selected fleet = [s] \<longrightarrow>
      mv_inv I (mc_limits (fl_config fleet)) s start G tcols P w)"

interpretation view_role: rebuilt_worker we "\<lambda>k. mv_run we I fleet (cs k)" "view_inv we I fleet s start G tcols P"
  for we I fleet cs s start G tcols P
proof
  fix w k w' r
  assume "view_inv we I fleet s start G tcols P w" "mv_run we I fleet (cs k) w = (w', r)"
  then show "view_inv we I fleet s start G tcols P w'" unfolding view_inv_def using mv_run_ok by blast
next
  fix w assume "view_inv we I fleet s start G tcols P w"
  then show "view_inv we I fleet s start G tcols P (others_ran we w)" unfolding view_inv_def using mv_others(1) by blast
qed

section \<open>Properties\<close>

text \<open>C9: ingest is exactly-once under supervision. However often a route's worker is rebuilt, after
  whatever recoverable failures, and wherever the process is at the end or when it is cut off, the
  table's ledger holds: every message of the committed offsets that its attempt accepted is in the
  table once, and nothing else is. Each attempt may be delivered different messages of the log.\<close>

theorem supervised_ingest_exactly_once:
  assumes "ingest_world we I cfg route ht cols E dec T lg P"
    and "\<And>k. delivers lg (kafka k)" "\<And>k assigned. snd ` set (messages (kafka k assigned)) \<subseteq> T"
    and "ledger I cfg route ht (file_view (lb_arrow I) (lb_df I) cols) (table_row E dec cols) T lg (w_catalog w, w_files w)"
    and "fresh_paths P w" "rw_attempt rw = (\<lambda>k. route_work we I cfg route ht (polls k) (kafka k))"
    and "supervise_role we sv rw policy n w = (w', t, r)"
  shows "ledger I cfg route ht (file_view (lb_arrow I) (lb_df I) cols) (table_row E dec cols) T lg (w_catalog w', w_files w')"
proof -
  have "route_inv we I cfg route ht cols E dec T lg P kafka w" using assms(4,5) by (simp add: route_inv_def)
  from route_role.supervised_keeps [OF assms(6) this assms(7)] assms(1-3) show ?thesis by (simp add: route_inv_def)
qed

text \<open>C10: a view is exactly-once under supervision, in the same sense.\<close>

theorem supervised_view_exactly_once:
  assumes "mv_world we I (mc_limits (fl_config fleet)) s start G tcols P" "fl_selected fleet = [s]"
    and "mv_ledger I (mc_limits (fl_config fleet)) s start G (file_view (lb_arrow I) (lb_df I) tcols) (w_catalog w, w_files w)"
    and "fresh_paths P w" "rw_attempt rw = (\<lambda>k. mv_run we I fleet (cs k))" "supervise_role we sv rw policy n w = (w', t, r)"
  shows "mv_ledger I (mc_limits (fl_config fleet)) s start G (file_view (lb_arrow I) (lb_df I) tcols) (w_catalog w', w_files w')"
proof -
  have "view_inv we I fleet s start G tcols P w" using assms(3,4) by (simp add: view_inv_def mv_inv_def)
  from view_role.supervised_keeps [OF assms(5) this assms(6)] assms(1,2) show ?thesis by (simp add: view_inv_def mv_inv_def)
qed
section \<open>A run with a lost acknowledgement\<close>

text \<open>The connection breaks during the \<open>COMMIT\<close> of call \<open>k\<close>, which is durable.\<close>

definition flaky_we :: "nat \<Rightarrow> (schema \<times> cells list list) wenv" where
  "flaky_we k = demo_we\<lparr>we_db := (\<lambda>n. if n = k
     then (quiet_env 5)\<lparr>env_fail := (\<lambda>st. if st = SCommit then Some (Io, True) else None)\<rparr> else quiet_env 5)\<rparr>"

definition demo_sup :: sup_env where
  "demo_sup = \<lparr>sv_cancelled = (\<lambda>_. False), sv_late = (\<lambda>_. False)\<rparr>"

definition demo_route_worker :: "(schema \<times> cells list list, ingest_error) role_worker" where
  "demo_route_worker = \<lparr>rw_attempt = (\<lambda>_. route_work (flaky_we 3) demo_ingest_libs demo_ingest_config demo_route demo_ht [Some [0]] demo_kafka),
     rw_ready = (\<lambda>_. True), rw_catalog_error = ingest_catalog_error\<rparr>"

abbreviation demo_policy :: recovery_policy where
  "demo_policy \<equiv> policy_from_config default_catalog_config 1"

lemma demo_route_supervised:
  "\<exists>w' i. supervise_role (flaky_we 3) demo_sup demo_route_worker demo_policy 5 demo_ingest_world =
     (w', [AttemptStarted 0, Health HealthyEv, AttemptFailed (Some i), Health (DegradedEv Transport), Health CatalogUp, Health ReconcilingEv,
       LookedUp i (LookupCommitted 1), AttemptStarted 1, Health HealthyEv, Health StoppedEv], Inr ())"
proof -
  let ?i = "\<lparr>oi_hypertable = 1, oi_key = ''ukiel/ingest/v1/030000000000000000030000000000000001'',
    oi_fingerprint = [3, 0, 0, 0, 0, 0, 0, 0, 0, 3, 0, 0, 0, 0, 0, 0, 0, 1]\<rparr>"
  have "snd (supervise_role (flaky_we 3) demo_sup demo_route_worker demo_policy 5 demo_ingest_world) =
    ([AttemptStarted 0, Health HealthyEv, AttemptFailed (Some ?i), Health (DegradedEv Transport), Health CatalogUp, Health ReconcilingEv,
       LookedUp ?i (LookupCommitted 1), AttemptStarted 1, Health HealthyEv, Health StoppedEv], Inr ())" by code_simp
  then show ?thesis by (metis prod.collapse)
qed

lemma flaky_paths: "drawn_paths (flaky_we k) = drawn_paths demo_we"
  by (intro ext) (simp add: drawn_paths_def output_path_def flaky_we_def)

lemma flaky_rely: "rely (flaky_we k) P J = rely demo_we P J"
  by (simp add: rely_def flaky_we_def)

lemma flaky_ingest_ok:
  "ingest_world (flaky_we k) demo_ingest_libs demo_ingest_config demo_route demo_ht demo_columns (\<lambda>_ _ _ _ _. cell.Null) (\<lambda>_. [I64 5])
     {7} demo_log (drawn_paths demo_we 1)"
  using demo_ingest_ok by (simp add: ingest_world_def flaky_rely) (simp add: output_path_def flaky_we_def)

theorem supervised_ingest_exactly_once_witness:
  "let (w', t, r) = supervise_role (flaky_we 3) demo_sup demo_route_worker demo_policy 5 demo_ingest_world
   in r = Inr () \<and> AttemptStarted 1 \<in> set t \<and>
      ledger demo_ingest_libs demo_ingest_config demo_route demo_ht (file_view (lb_arrow demo_ingest_libs) (lb_df demo_ingest_libs) demo_columns)
        (table_row (\<lambda>_ _ _ _ _. cell.Null) (\<lambda>_. [I64 5]) demo_columns) {7} demo_log (w_catalog w', w_files w')"
proof -
  obtain w' i where run: "supervise_role (flaky_we 3) demo_sup demo_route_worker demo_policy 5 demo_ingest_world =
     (w', [AttemptStarted 0, Health HealthyEv, AttemptFailed (Some i), Health (DegradedEv Transport), Health CatalogUp, Health ReconcilingEv,
       LookedUp i (LookupCommitted 1), AttemptStarted 1, Health HealthyEv, Health StoppedEv], Inr ())" using demo_route_supervised by blast
  have T: "snd ` set (messages (demo_kafka assigned)) \<subseteq> {7}" for assigned
    by (auto simp: demo_kafka_def demo_log_def split: option.split)
  have fresh: "fresh_paths (drawn_paths demo_we 1) demo_ingest_world"
    by (simp add: fresh_paths_def part_paths_def demo_ingest_world_def empty_catalog_def)
  have rw: "rw_attempt demo_route_worker = (\<lambda>k. route_work (flaky_we 3) demo_ingest_libs demo_ingest_config demo_route demo_ht
      ((\<lambda>_. [Some [0]]) k) ((\<lambda>_. demo_kafka) k))" by (simp add: demo_route_worker_def)
  from supervised_ingest_exactly_once [OF flaky_ingest_ok demo_delivers T demo_ledger fresh rw run] run show ?thesis by simp
qed

text \<open>The same run beside a role of its own: the role goes down, recovers and stops.\<close>

lemma health_run_exists: "\<exists>g'. health_run evs g g'"
proof (induction evs arbitrary: g)
  case (Cons x evs)
  obtain label ev where x: "x = (label, ev)" by (cases x)
  from Cons.IH obtain g' where "health_run evs (apply_event 0 label ev g) g'" by blast
  then show ?case unfolding x using run_step [OF health_step.intros [of label ev g 0]] by blast
qed (use health_run.intros(1) in blast)

theorem supervised_role_outcome_witness:
  "\<exists>evs g'. length (own_events ''ingest'' evs) = 6 \<and> health_run evs (registry_new 0 [IngestRole, GcRole]) g' \<and> handle_state g' ''ingest'' = Stopped"
proof -
  obtain w' i where run: "supervise_role (flaky_we 3) demo_sup demo_route_worker demo_policy 5 demo_ingest_world =
     (w', [AttemptStarted 0, Health HealthyEv, AttemptFailed (Some i), Health (DegradedEv Transport), Health CatalogUp, Health ReconcilingEv,
       LookedUp i (LookupCommitted 1), AttemptStarted 1, Health HealthyEv, Health StoppedEv], Inr ())" (is "_ = (_, ?t, _)")
    using demo_route_supervised by blast
  let ?evs = "(''gc'', FailedEv None) # map (Pair ''ingest'') (health_events ?t)"
  obtain g' where h: "health_run ?evs (registry_new 0 [IngestRole, GcRole]) g'" using health_run_exists by blast
  have own: "own_events ''ingest'' ?evs = health_events ?t" by (simp add: own_events_def health_events_def)
  have e: "entry_of (registry_new 0 [IngestRole, GcRole]) ''ingest'' =
      Some \<lparr>re_state = Starting, re_since = 0, re_recovery_attempts = 0, re_last_error_class = None\<rparr>"
    by code_simp
  have "handle_state g' ''ingest'' = Stopped" using supervised_role_outcome [OF run h own e] by simp
  moreover have "length (own_events ''ingest'' ?evs) = 6" unfolding own by (simp add: health_events_def)
  ultimately show ?thesis using h by blast
qed

definition demo_view_worker :: "(schema \<times> cells list list, mv_error) role_worker" where
  "demo_view_worker = \<lparr>rw_attempt = (\<lambda>_. mv_run demo_we demo_mv_libs demo_fleet [False, True]), rw_ready = (\<lambda>_. True), rw_catalog_error = mv_catalog_error\<rparr>"

theorem supervised_view_exactly_once_witness:
  "let (w', t, r) = supervise_role demo_we demo_sup demo_view_worker demo_policy 5 demo_mv_world
   in mv_ledger demo_mv_libs (mc_limits (fl_config demo_fleet)) demo_sel 0 (\<lambda>p. the (w_files demo_world p))
     (file_view (lb_arrow demo_mv_libs) (lb_df demo_mv_libs) demo_columns) (w_catalog w', w_files w')"
proof -
  obtain w' t r where run: "supervise_role demo_we demo_sup demo_view_worker demo_policy 5 demo_mv_world = (w', t, r)" by (rule prod_cases3)
  have fresh: "fresh_paths (drawn_paths demo_we 2) demo_mv_world"
    by (auto simp: fresh_paths_def part_paths_def drawn_paths_def output_path_def demo_mv_world_def demo_mv_state_def demo_world_defs)
  have rw: "rw_attempt demo_view_worker = (\<lambda>k. mv_run demo_we demo_mv_libs demo_fleet ((\<lambda>_. [False, True]) k))"
    by (simp add: demo_view_worker_def)
  from supervised_view_exactly_once [OF demo_mv_ok demo_fleet_sel demo_mv_ledger fresh rw run] run show ?thesis by simp
qed

end
