(* ===== verification/Bootstrap.thy ===== *)
theory Bootstrap
  imports Supervisor
begin

text \<open>
  Table and pipeline bootstrap, \<^verbatim>\<open>crates/ukield/src/bootstrap.rs\<close>: on every boot the configured tables and
  pipelines are created where they are missing. An \<open>anyhow\<close> error is a value that says which call it
  came from; the catalog error the supervisor looks for is the one a catalog call returned.
\<close>

section \<open>Definitions\<close>

datatype bootstrap_error =
    BCatalog catalog_error
  | BExpr expr_error
  | BSchema schema_error
  | BSortKey sort_key_error
  | BPipeline pipeline_error
  | BWrite write_error
  | PlacementConflict string
  | UnknownPlacement string string

fun bootstrap_catalog_error :: "bootstrap_error \<Rightarrow> catalog_error option" where
  "bootstrap_catalog_error (BCatalog e) = Some e"
| "bootstrap_catalog_error _ = None"

text \<open>\<open>mb as i64 * 1024 * 1024\<close> wraps twice.\<close>

definition placement_from :: "table_config \<Rightarrow> (bootstrap_error, placement) result" where
  "placement_from t =
     (case (tb_placement t, tb_target_file_mb t) of
        (Some _, Some _) \<Rightarrow> Inl (PlacementConflict (tb_name t))
      | (None, Some mb) \<Rightarrow> Inr (SizeTargeted (wrap_i64 (wrap_i64 (wrap_i64 (int mb) * 1024) * 1024)))
      | (Some p, None) \<Rightarrow>
          if p = ''separated'' then Inr Separated
          else if p = ''packed'' then Inr Packed
          else Inl (UnknownPlacement (tb_name t) p)
      | (None, None) \<Rightarrow> Inr Packed)"

text \<open>The hypertable of a table section: the existing one, or a new one with its placement.\<close>

definition ensure_hypertable :: "'f wenv \<Rightarrow> table_config \<Rightarrow> ('f, bootstrap_error, hypertable) act" where
  "ensure_hypertable we t =
     act_bind (act_try (act_call we id (\<lambda>env. get_hypertable env (tb_name t)))) (\<lambda>found.
       case found of
         Inr existing \<Rightarrow> act_return existing
       | Inl (NotFound _) \<Rightarrow>
           act_bind (act_call we BCatalog (\<lambda>env.
             create_hypertable env (tb_name t) (schema_json t) (partition_spec_json t) (tb_sort_key t) (tb_packing_key t))) (\<lambda>i.
           act_bind (act_lift (placement_from t)) (\<lambda>p.
           act_bind (if p \<noteq> Packed then act_call we BCatalog (\<lambda>env. set_placement env i p) else act_return ()) (\<lambda>_.
             act_call we BCatalog (\<lambda>env. get_hypertable env (tb_name t)))))
       | Inl e \<Rightarrow> act_raise (BCatalog e))"

fun ensure_logical :: "'f wenv \<Rightarrow> string \<Rightarrow> hypertable_id \<Rightarrow> namespace_id list \<Rightarrow> ('f, bootstrap_error, unit) act" where
  "ensure_logical we name ht [] = act_return ()"
| "ensure_logical we name ht (ns # rest) =
     act_bind (act_try (act_call we id (\<lambda>env. get_logical_table env ns name))) (\<lambda>found.
     act_bind (case found of
         Inr _ \<Rightarrow> act_return ()
       | Inl (NotFound _) \<Rightarrow> act_bind (act_call we BCatalog (\<lambda>env. create_logical_table env ns name ht)) (\<lambda>_. act_return ())
       | Inl e \<Rightarrow> act_raise (BCatalog e)) (\<lambda>_.
     ensure_logical we name ht rest))"

definition check_table :: "datafusion \<Rightarrow> table_config \<Rightarrow> (bootstrap_error, unit) result" where
  "check_table D t =
     rbind (map_sum BExpr id (validate_table_schema D (schema_json t))) (\<lambda>_.
     rbind (map_sum BSchema id (parse (schema_json t))) (\<lambda>cols.
       map_sum BSortKey id (validate_sort_key (physical_schema cols) (tb_sort_key t) (tb_packing_key t) (Some (tb_ts_column t)))))"

fun bootstrap_apply :: "'f wenv \<Rightarrow> datafusion \<Rightarrow> table_config list \<Rightarrow> ('f, bootstrap_error, unit) act" where
  "bootstrap_apply we D [] = act_return ()"
| "bootstrap_apply we D (t # ts) =
     act_bind (act_lift (check_table D t)) (\<lambda>_.
     act_bind (ensure_hypertable we t) (\<lambda>h.
     act_bind (ensure_logical we (tb_name t) (ht_id h) (tb_namespaces t)) (\<lambda>_.
       bootstrap_apply we D ts)))"

fun apply_pipelines ::
  "'f wenv \<Rightarrow> ('w, 'f) pipeline_libs \<Rightarrow> execution_limits \<Rightarrow> mv_pipeline_config list \<Rightarrow> ('f, bootstrap_error, unit) act" where
  "apply_pipelines we I limits [] = act_return ()"
| "apply_pipelines we I limits (p # ps) =
     act_bind (act_call we BCatalog (\<lambda>env. get_hypertable env (mp_source p))) (\<lambda>source.
     act_bind (act_call we BCatalog (\<lambda>env. get_hypertable env (mp_target p))) (\<lambda>target.
     act_bind (act_lift (map_sum BExpr id (validate_table_schema (lb_df I) (table_schema source)))) (\<lambda>_.
     act_bind (act_lift (map_sum BExpr id (validate_table_schema (lb_df I) (table_schema target)))) (\<lambda>_.
     act_bind (act_lift (map_sum BSchema query_schema (parse (table_schema source)))) (\<lambda>input.
     act_bind (act_lift (map_sum BPipeline id (prepare_pipeline I (ht_name source) (mp_sql p) input limits))) (\<lambda>prepared.
     act_bind (act_lift (map_sum BWrite id (validate_output_schema (write_libs.truncate I) (pp_output_schema prepared) target))) (\<lambda>_.
     act_bind (act_call we BCatalog (\<lambda>env. ensure_pipeline env
         \<lparr>pd_name = mp_name p, pd_source = Parquet (ht_id source), pd_target = ht_id target, pd_sql = mp_sql p,
           pd_delivery = ExactlyOnce, pd_error_policy = mp_error_policy p, pd_event_time_column = None\<rparr>)) (\<lambda>_.
       apply_pipelines we I limits ps))))))))"

section \<open>What bootstrap leaves alone\<close>



abbreviation names :: "catalog \<Rightarrow> string set" where
  "names c \<equiv> hr_name ` set (hypertables c)"










section \<open>A run of bootstrap\<close>



lemma get_hypertable_missing:
  "get_hypertable env name c = (c', Inl (NotFound e)) \<Longrightarrow> name \<notin> names c"
  by (auto simp: get_hypertable_def tx_bind_def query_def tx_return_def tx_fail_def find_None_iff split: option.splits)












section \<open>Properties\<close>

text \<open>One table in an empty catalog, size-targeted and visible in one namespace.\<close>

definition no_expressions :: datafusion where
  "no_expressions = \<lparr>df_refs = (\<lambda>_ _. None), df_compile = (\<lambda>_ _ _ _. None)\<rparr>"

definition demo_table :: table_config where
  "demo_table = \<lparr>tb_name = ''events'', tb_topic = Some ''events'', tb_ts_column = ''ts'', tb_packing_key = ''tenant'', tb_sort_key = [''tenant'', ''ts''],
     tb_partition_columns = [], tb_placement = None, tb_target_file_mb = Some 64, tb_namespaces = [7],
     tb_columns = [\<lparr>cf_name = ''tenant'', cf_type_name = ''int64'', cf_nullable = None, cf_default = None, cf_materialized = None, cf_alias = None\<rparr>,
       \<lparr>cf_name = ''ts'', cf_type_name = ''int64'', cf_nullable = None, cf_default = None, cf_materialized = None, cf_alias = None\<rparr>]\<rparr>"

definition fresh_world :: "unit world" where
  "fresh_world = \<lparr>w_tick = 0, w_catalog = empty_catalog, w_files = Map.empty, w_uploads = []\<rparr>"


text \<open>A placement can be lost. The table is created and its placement set by two separate statements, and
  a table that exists is never given its placement. When the second statement fails for lack of a
  connection, the startup step waits, runs again and succeeds, and the size-targeted table stays packed.
  And an unknown placement is refused on the first boot, after the table was made, but passes on the next.\<close>

definition lossy_we :: "unit wenv" where
  "lossy_we = (calm_wenv 0)\<lparr>we_db := (\<lambda>n. if n = 2 then (quiet_env 0)\<lparr>env_fail := (\<lambda>_. Some (PoolTimedOut, False))\<rparr> else quiet_env 0)\<rparr>"

lemma bootstrap_placement_lost:
  "placement_from demo_table = Inr (SizeTargeted (64 * 1024 * 1024)) \<and>
   (case with_catalog_recovery lossy_we \<lparr>sv_cancelled = (\<lambda>_. False), sv_late = (\<lambda>_. False)\<rparr> (policy_from_config (uc_catalog demo_config) 1)
       bootstrap_catalog_error (bootstrap_apply lossy_we no_expressions [demo_table]) 2 fresh_world of
      (w, _, r) \<Rightarrow> r = Inr () \<and> map hypertable_from_row (hypertables (w_catalog w)) =
        [\<lparr>ht_id = 1, ht_name = ''events'', table_schema = schema_json demo_table, partition_spec = partition_spec_json demo_table,
          sort_key_cols = [''tenant'', ''ts''], packing_key = ''tenant'', ht_placement = Packed\<rparr>]) \<and>
   (let bad = demo_table\<lparr>tb_target_file_mb := None, tb_placement := Some ''seperated''\<rparr>;
        (w, r) = bootstrap_apply (calm_wenv 0) no_expressions [bad] fresh_world
    in r = Inl (Raised (UnknownPlacement ''events'' ''seperated'')) \<and> snd (bootstrap_apply (calm_wenv 0) no_expressions [bad] w) = Inr ())"
  by (intro conjI; code_simp)

end
