(* ===== verification/DiskCache.thy ===== *)
theory DiskCache
  imports Config
begin

text \<open>
  The disk cache of the query path, \<^verbatim>\<open>crates/ukiel-query/src/cache/disk.rs\<close>: published files, pinned reads
  and temporary fills under one budget of bytes and entries. An operation that holds the state lock is a
  function on the state and the directory; which system call fails is an argument. Byte counters wrap
  at 64 bits, as a release build does. Metrics are left out.
\<close>

section \<open>Names\<close>

text \<open>\<open>str::rsplit_once\<close>, \<open>strip_suffix\<close>, \<open>strip_prefix\<close>, \<open>split\<close> and \<open>parse\<close> on the integer types.\<close>

definition rsplit_once :: "string \<Rightarrow> string \<Rightarrow> (string \<times> string) option" where
  "rsplit_once pat s =
     (case filter (\<lambda>i. take (length pat) (drop i s) = pat) (rev [0..<Suc (length s)]) of
        [] \<Rightarrow> None
      | i # _ \<Rightarrow> Some (take i s, drop (i + length pat) s))"

definition strip_suffix :: "string \<Rightarrow> string \<Rightarrow> string option" where
  "strip_suffix suf s = (if length suf \<le> length s \<and> drop (length s - length suf) s = suf then Some (take (length s - length suf) s) else None)"

definition strip_prefix :: "string \<Rightarrow> string \<Rightarrow> string option" where
  "strip_prefix pre s = (if take (length pre) s = pre then Some (drop (length pre) s) else None)"

function split_str :: "string \<Rightarrow> string \<Rightarrow> string \<Rightarrow> string list" where
  "split_str pat acc s =
     (if pat = [] \<or> s = [] then [rev acc]
      else if take (length pat) s = pat then rev acc # split_str pat [] (drop (length pat) s)
      else split_str pat (hd s # acc) (tl s))"
  by pat_completeness auto

termination
  by (relation "measure (\<lambda>(_, _, s). length s)") (auto simp: length_greater_0_conv)

declare split_str.simps [simp del]

definition parse_unsigned :: "nat \<Rightarrow> string \<Rightarrow> nat option" where
  "parse_unsigned w s =
     (case digits_value (case s of c # r \<Rightarrow> if c = CHR ''+'' then r else s | [] \<Rightarrow> s) of
        Some n \<Rightarrow> if n < 2 ^ w then Some n else None
      | None \<Rightarrow> None)"

definition parse_i64 :: "string \<Rightarrow> int option" where
  "parse_i64 s =
     (case s of
        c # r \<Rightarrow>
          if c = CHR ''-'' then (case digits_value r of Some n \<Rightarrow> if n \<le> 2 ^ 63 then Some (- int n) else None | None \<Rightarrow> None)
          else (case parse_unsigned 63 s of Some n \<Rightarrow> Some (int n) | None \<Rightarrow> None)
      | [] \<Rightarrow> None)"

definition is_hexdigit :: "char \<Rightarrow> bool" where
  "is_hexdigit c = (let n = (of_char c :: nat) in 48 \<le> n \<and> n \<le> 57 \<or> 65 \<le> n \<and> n \<le> 70 \<or> 97 \<le> n \<and> n \<le> 102)"

definition is_hash :: "string \<Rightarrow> bool" where
  "is_hash s \<longleftrightarrow> length s = 64 \<and> list_all is_hexdigit s"

definition legacy_part :: "(string \<Rightarrow> bool) \<Rightarrow> string \<Rightarrow> bool" where
  "legacy_part is_uuid part =
     (case split_str ''__'' [] part of
        [a, b, l, u] \<Rightarrow> a = ''ht'' \<and> parse_i64 b \<noteq> None \<and>
          (case strip_prefix ''L'' l of Some n \<Rightarrow> parse_unsigned 16 n \<noteq> None | None \<Rightarrow> False) \<and> is_uuid u
      | _ \<Rightarrow> False)"

text \<open>The tail of \<open>managed_name\<close>: a legacy name, with its extension or in a temporary.\<close>

definition legacy_object :: "(string \<Rightarrow> bool) \<Rightarrow> bool \<Rightarrow> string \<Rightarrow> bool" where
  "legacy_object is_uuid temporary obj =
     (case strip_suffix ''.parquet'' obj of
        Some part \<Rightarrow> legacy_part is_uuid part
      | None \<Rightarrow> temporary \<and> legacy_part is_uuid obj)"

definition managed_base :: "(string \<Rightarrow> bool) \<Rightarrow> bool \<Rightarrow> string \<Rightarrow> bool" where
  "managed_base is_uuid temporary base =
     (if (case strip_suffix ''.file'' base of Some h \<Rightarrow> is_hash h | None \<Rightarrow> False) then True
      else case rsplit_once ''.chunk-'' base of
        Some (obj, chunk) \<Rightarrow>
          if parse_unsigned 64 chunk = None then False
          else if (case rsplit_once ''.'' obj of
                     Some (key, sz) \<Rightarrow> is_hash key \<and> (case parse_unsigned 64 sz of Some n \<Rightarrow> 0 < n | None \<Rightarrow> False)
                   | None \<Rightarrow> False) then True
          else legacy_object is_uuid temporary obj
      | None \<Rightarrow> legacy_object is_uuid temporary base)"

definition managed_name :: "(string \<Rightarrow> bool) \<Rightarrow> string \<Rightarrow> bool" where
  "managed_name is_uuid name =
     (case rsplit_once ''.tmp-'' name of
        Some (base, i) \<Rightarrow> if is_uuid i then managed_base is_uuid True base else False
      | None \<Rightarrow> managed_base is_uuid False name)"

definition is_temporary :: "(string \<Rightarrow> bool) \<Rightarrow> string \<Rightarrow> bool" where
  "is_temporary is_uuid name = (case rsplit_once ''.tmp-'' name of Some (_, i) \<Rightarrow> is_uuid i | None \<Rightarrow> False)"

section \<open>The state and its directory\<close>

record cache_entry =
  en_bytes :: nat
  en_readers :: nat

text \<open>The LRU list has its most recent entry first; \<open>ca_files\<close> is the directory without the lock file.\<close>

record cache =
  ca_entries :: "(string \<times> cache_entry) list"
  ca_pending :: "(string \<times> nat) list"
  ca_resident :: nat
  ca_reserved :: nat
  ca_files :: "string \<Rightarrow> bytes option"

record disk_cache =
  dc_max_bytes :: nat
  dc_max_entries :: nat

text \<open>Which system calls fail. \<open>dk_write\<close> is the number of bytes written before the failure.\<close>

record disk_io =
  dk_remove :: "string \<Rightarrow> bool"
  dk_open :: "string \<Rightarrow> bool"
  dk_stat :: "string \<Rightarrow> bool"
  dk_create :: bool
  dk_write :: "nat option"
  dk_flush :: bool
  dk_rename :: bool

definition good_io :: disk_io where
  "good_io = \<lparr>dk_remove = (\<lambda>_. False), dk_open = (\<lambda>_. False), dk_stat = (\<lambda>_. False), dk_create = False, dk_write = None,
     dk_flush = False, dk_rename = False\<rparr>"

datatype removed = RmOk | RmMissing | RmError

definition remove_file :: "disk_io \<Rightarrow> string \<Rightarrow> (string \<Rightarrow> bytes option) \<Rightarrow> (string \<Rightarrow> bytes option) \<times> removed" where
  "remove_file io p fs =
     (if dk_remove io p then (fs, RmError)
      else case fs p of None \<Rightarrow> (fs, RmMissing) | Some _ \<Rightarrow> (fs(p := None), RmOk))"

definition add_u64 :: "nat \<Rightarrow> nat \<Rightarrow> nat" where
  "add_u64 a b = (a + b) mod 2 ^ 64"

definition sub_u64 :: "nat \<Rightarrow> nat \<Rightarrow> nat" where
  "sub_u64 a b = (if b \<le> a then a - b else 2 ^ 64 + a - b)"

definition lru_pop :: "'k \<Rightarrow> ('k \<times> 'v) list \<Rightarrow> ('k \<times> 'v) list" where
  "lru_pop k xs = filter (\<lambda>x. fst x \<noteq> k) xs"

definition lru_put :: "'k \<Rightarrow> 'v \<Rightarrow> ('k \<times> 'v) list \<Rightarrow> ('k \<times> 'v) list" where
  "lru_put k v xs = (k, v) # lru_pop k xs"

definition lru_update :: "'k \<Rightarrow> ('v \<Rightarrow> 'v) \<Rightarrow> ('k \<times> 'v) list \<Rightarrow> ('k \<times> 'v) list" where
  "lru_update k f xs = map (\<lambda>(k', v). (k', if k' = k then f v else v)) xs"

text \<open>\<open>make_room\<close>: its loop ends because every round drops an entry.\<close>

definition crowded :: "disk_cache \<Rightarrow> nat \<Rightarrow> bool \<Rightarrow> cache \<Rightarrow> bool" where
  "crowded dc n entry c \<longleftrightarrow>
     dc_max_bytes dc - add_u64 (ca_resident c) (ca_reserved c) < n \<or>
     dc_max_entries dc < saturating_usize (saturating_usize (length (ca_entries c) + length (ca_pending c)) + of_bool entry)"

definition victim :: "cache \<Rightarrow> (string \<times> cache_entry) option" where
  "victim c = find (\<lambda>x. en_readers (snd x) = 0) (rev (ca_entries c))"

definition evict :: "string \<Rightarrow> cache_entry \<Rightarrow> (string \<Rightarrow> bytes option) \<Rightarrow> cache \<Rightarrow> cache" where
  "evict p e fs c = c\<lparr>ca_entries := lru_pop p (ca_entries c), ca_resident := sub_u64 (ca_resident c) (en_bytes e), ca_files := fs\<rparr>"

lemma victim_in: "victim c = Some (p, e) \<Longrightarrow> (p, e) \<in> set (ca_entries c) \<and> en_readers e = 0"
  by (auto simp: victim_def dest: find_SomeD)

lemma lru_pop_shorter: "(p, e) \<in> set xs \<Longrightarrow> length (lru_pop p xs) < length xs"
  unfolding lru_pop_def by (rule length_filter_less) auto

function evict_loop :: "disk_cache \<Rightarrow> disk_io \<Rightarrow> nat \<Rightarrow> bool \<Rightarrow> cache \<Rightarrow> cache \<times> bool" where
  "evict_loop dc io n entry c =
     (if crowded dc n entry c then
        (case victim c of
           None \<Rightarrow> (c, False)
         | Some (p, e) \<Rightarrow>
             (case remove_file io p (ca_files c) of
                (fs, RmError) \<Rightarrow> (c, False)
              | (fs, _) \<Rightarrow> evict_loop dc io n entry (evict p e fs c)))
      else (c, True))"
  by pat_completeness auto

termination
  by (relation "measure (\<lambda>(_, _, _, _, c). length (ca_entries c))")
    (auto simp: evict_def dest!: sym [of "Some _"] intro!: lru_pop_shorter dest: victim_in)

declare evict_loop.simps [simp del]

definition make_room :: "disk_cache \<Rightarrow> disk_io \<Rightarrow> nat \<Rightarrow> bool \<Rightarrow> cache \<Rightarrow> cache \<times> bool" where
  "make_room dc io n entry c = (if dc_max_bytes dc < n then (c, False) else evict_loop dc io n entry c)"
section \<open>Operations\<close>

record cache_stats =
  st_resident_bytes :: nat
  st_reserved_bytes :: nat
  st_entries :: nat
  st_inflight_entries :: nat
  st_size_entries :: nat

definition disk_stats :: "cache \<Rightarrow> cache_stats" where
  "disk_stats c = \<lparr>st_resident_bytes = ca_resident c, st_reserved_bytes = ca_reserved c, st_entries = length (ca_entries c),
     st_inflight_entries = length (ca_pending c), st_size_entries = 0\<rparr>"

text \<open>\<open>read\<close>: the data behind the open handle, and a lease. A file that cannot be opened or has the wrong
  length is removed and, once it is gone, forgotten.\<close>

definition forget_unreadable :: "disk_io \<Rightarrow> string \<Rightarrow> cache_entry \<Rightarrow> cache \<Rightarrow> cache" where
  "forget_unreadable io name e c =
     (case remove_file io name (ca_files c) of (fs, rm) \<Rightarrow>
        if rm = RmOk \<or> fs name = None \<or> dk_stat io name then evict name e fs c else c\<lparr>ca_files := fs\<rparr>)"

definition cache_read :: "disk_io \<Rightarrow> string \<Rightarrow> cache \<Rightarrow> cache \<times> bytes option" where
  "cache_read io name c =
     (case map_of (ca_entries c) name of
        None \<Rightarrow> (c, None)
      | Some e \<Rightarrow>
          let c1 = c\<lparr>ca_entries := lru_put name e (ca_entries c)\<rparr> in
          (case (if dk_open io name then None else ca_files c name) of
             Some data \<Rightarrow>
               if length data = en_bytes e
               then (c1\<lparr>ca_entries := lru_put name (e\<lparr>en_readers := add_u64 (en_readers e) 1\<rparr>) (ca_entries c)\<rparr>, Some data)
               else (forget_unreadable io name e c1, None)
           | None \<Rightarrow> (forget_unreadable io name e c1, None)))"

text \<open>\<open>Drop for ReadLease\<close>\<close>

definition lease_drop :: "string \<Rightarrow> cache \<Rightarrow> cache" where
  "lease_drop name c = c\<lparr>ca_entries := lru_update name (\<lambda>e. e\<lparr>en_readers := sub_u64 (en_readers e) 1\<rparr>) (ca_entries c)\<rparr>"

record fill =
  xf_path :: string
  xf_tmp :: string
  xf_bytes :: nat

definition cache_reserve :: "disk_cache \<Rightarrow> disk_io \<Rightarrow> string \<Rightarrow> string \<Rightarrow> nat \<Rightarrow> cache \<Rightarrow> cache \<times> fill option" where
  "cache_reserve dc io uuid name n c =
     (if name \<in> fst ` set (ca_entries c) \<or> name \<in> fst ` set (ca_pending c) then (c, None)
      else case make_room dc io n True c of
        (c1, False) \<Rightarrow> (c1, None)
      | (c1, True) \<Rightarrow>
          let tmp = name @ ''.tmp-'' @ uuid in
          if dk_create io \<or> ca_files c1 tmp \<noteq> None then (c1, None)
          else (c1\<lparr>ca_files := (ca_files c1)(tmp \<mapsto> []), ca_pending := (name, n) # ca_pending c1, ca_reserved := add_u64 (ca_reserved c1) n\<rparr>,
                Some \<lparr>xf_path = name, xf_tmp = tmp, xf_bytes = n\<rparr>))"

text \<open>\<open>Fill::grow\<close>; \<open>None\<close> is the panic of \<open>expect\<close>.\<close>

definition fill_grow :: "disk_cache \<Rightarrow> disk_io \<Rightarrow> nat \<Rightarrow> fill \<Rightarrow> cache \<Rightarrow> (cache \<times> fill \<times> bool) option" where
  "fill_grow dc io n f c =
     (case make_room dc io n False c of
        (c1, False) \<Rightarrow> Some (c1, f, False)
      | (c1, True) \<Rightarrow>
          let f1 = f\<lparr>xf_bytes := add_u64 (xf_bytes f) n\<rparr> in
          if xf_path f \<in> fst ` set (ca_pending c1)
          then Some (c1\<lparr>ca_reserved := add_u64 (ca_reserved c1) n, ca_pending := lru_update (xf_path f) (\<lambda>_. xf_bytes f1) (ca_pending c1)\<rparr>, f1, True)
          else None)"

text \<open>\<open>write_all_at\<close> of some bytes: a gap is filled with zeros, and no bytes change nothing.\<close>

definition splice :: "nat \<Rightarrow> bytes \<Rightarrow> bytes \<Rightarrow> bytes" where
  "splice off new old =
     (if new = [] then old else take off (old @ replicate (off - length old) 0) @ new @ drop (off + length new) old)"

fun write_chunks_at :: "nat option \<Rightarrow> bytes list \<Rightarrow> nat \<Rightarrow> bytes \<Rightarrow> bytes \<times> bool" where
  "write_chunks_at budget [] off old = (old, True)"
| "write_chunks_at budget (b # bs) off old =
     (case budget of
        Some k \<Rightarrow>
          if k < length b then (splice off (take k b) old, False)
          else write_chunks_at (Some (k - length b)) bs (off + length b) (splice off b old)
      | None \<Rightarrow> write_chunks_at None bs (off + length b) (splice off b old))"

definition fill_write_at :: "disk_io \<Rightarrow> bytes list \<Rightarrow> nat \<Rightarrow> fill \<Rightarrow> cache \<Rightarrow> cache \<times> bool" where
  "fill_write_at io payload off f c =
     (let upto = off + length (concat payload) in
      if 2 ^ 64 \<le> upto \<or> xf_bytes f < upto then (c, False)
      else case ca_files c (xf_tmp f) of
        None \<Rightarrow> (c, True)
      | Some old \<Rightarrow>
          (case write_chunks_at (dk_write io) payload off old of
             (new, ok) \<Rightarrow> (c\<lparr>ca_files := (ca_files c)(xf_tmp f \<mapsto> new)\<rparr>, ok)))"

text \<open>\<open>Drop for Fill\<close> of a fill that was not published; the flag says that its charge was released.\<close>

definition fill_drop :: "disk_io \<Rightarrow> fill \<Rightarrow> cache \<Rightarrow> cache \<times> bool" where
  "fill_drop io f c =
     (case remove_file io (xf_tmp f) (ca_files c) of
        (fs, RmError) \<Rightarrow> (c, False)
      | (fs, _) \<Rightarrow> (c\<lparr>ca_files := fs, ca_pending := lru_pop (xf_path f) (ca_pending c), ca_reserved := sub_u64 (ca_reserved c) (xf_bytes f)\<rparr>, True))"

datatype published = Published | Refused bool

definition fill_publish :: "disk_io \<Rightarrow> fill \<Rightarrow> cache \<Rightarrow> cache \<times> published" where
  "fill_publish io f c =
     (let refused = (case fill_drop io f c of (c1, ok) \<Rightarrow> (c1, Refused ok)) in
      case ca_files c (xf_tmp f) of
        None \<Rightarrow> refused
      | Some data \<Rightarrow>
          if dk_flush io \<or> length data \<noteq> xf_bytes f \<or> dk_rename io then refused
          else (c\<lparr>ca_files := (ca_files c)(xf_tmp f := None, xf_path f \<mapsto> data), ca_pending := lru_pop (xf_path f) (ca_pending c),
                  ca_reserved := sub_u64 (ca_reserved c) (xf_bytes f), ca_resident := add_u64 (ca_resident c) (xf_bytes f),
                  ca_entries := lru_put (xf_path f) \<lparr>en_bytes = xf_bytes f, en_readers = 0\<rparr> (ca_entries c)\<rparr>, Published))"

text \<open>\<open>DiskCache::open\<close> on the items of the directory in the order it is listed: \<open>None\<close> is not a regular file.\<close>

datatype open_error = CapacitiesNotPositive | UnrecognizedContents | CannotRemove | CannotTrim

fun reindex :: "disk_cache \<Rightarrow> disk_io \<Rightarrow> (string \<Rightarrow> bool) \<Rightarrow> (string \<times> bytes) list \<Rightarrow> cache \<Rightarrow> (open_error, cache) result" where
  "reindex dc io is_uuid [] c = Inr c"
| "reindex dc io is_uuid ((name, data) # items) c =
     (if is_temporary is_uuid name \<or> dc_max_bytes dc < length data then
        (case remove_file io name (ca_files c) of
           (fs, RmOk) \<Rightarrow> reindex dc io is_uuid items (c\<lparr>ca_files := fs\<rparr>)
         | _ \<Rightarrow> Inl CannotRemove)
      else
        (case make_room dc io (length data) True c of
           (c1, False) \<Rightarrow> Inl CannotTrim
         | (c1, True) \<Rightarrow>
             reindex dc io is_uuid items
               (c1\<lparr>ca_resident := add_u64 (ca_resident c1) (length data),
                  ca_entries := lru_put name \<lparr>en_bytes = length data, en_readers = 0\<rparr> (ca_entries c1)\<rparr>)))"

definition cache_open ::
  "cache_config \<Rightarrow> disk_io \<Rightarrow> (string \<Rightarrow> bool) \<Rightarrow> (string \<times> bytes option) list \<Rightarrow> (open_error, disk_cache \<times> cache) result" where
  "cache_open config io is_uuid items =
     (let dc = \<lparr>dc_max_bytes = ch_max_bytes config, dc_max_entries = ch_max_entries config\<rparr> in
      if ch_max_bytes config = 0 \<or> ch_max_entries config = 0 \<or> ch_chunk_size config = 0 then Inl CapacitiesNotPositive
      else if \<not> list_all (\<lambda>(name, f). f \<noteq> None \<and> managed_name is_uuid name) items then Inl UnrecognizedContents
      else map_sum id (\<lambda>c. (dc, c)) (reindex dc io is_uuid (map (\<lambda>(name, f). (name, the f)) items)
             \<lparr>ca_entries = [], ca_pending = [], ca_resident = 0, ca_reserved = 0, ca_files = (\<lambda>n. Option.bind (map_of items n) id)\<rparr>))"

section \<open>The users of one cache\<close>

text \<open>What its tasks hold: fills, read leases, and fills that are gone while their temporary file could not
  be removed. A fill is called by its temporary name.\<close>

record cache_users =
  cu_cache :: cache
  cu_fills :: "fill list"
  cu_stale :: "fill list"
  cu_leases :: "string list"

datatype cache_op =
    OpRead disk_io string
  | OpRelease string
  | OpReserve disk_io string string nat
  | OpGrow disk_io string nat
  | OpWrite disk_io string "bytes list" nat
  | OpPublish disk_io string
  | OpAbandon disk_io string

definition find_fill :: "cache_users \<Rightarrow> string \<Rightarrow> fill option" where
  "find_fill u tmp = find (\<lambda>f. xf_tmp f = tmp) (cu_fills u)"

text \<open>One operation; \<open>None\<close> is a panic. A lease or fill that no task holds cannot be used.\<close>

fun cache_exec :: "disk_cache \<Rightarrow> cache_op \<Rightarrow> cache_users \<Rightarrow> cache_users option" where
  "cache_exec dc (OpRead io name) u =
     (case cache_read io name (cu_cache u) of
        (c, None) \<Rightarrow> Some (u\<lparr>cu_cache := c\<rparr>)
      | (c, Some _) \<Rightarrow> Some (u\<lparr>cu_cache := c, cu_leases := name # cu_leases u\<rparr>))"
| "cache_exec dc (OpRelease name) u =
     (if name \<in> set (cu_leases u) then Some (u\<lparr>cu_cache := lease_drop name (cu_cache u), cu_leases := remove1 name (cu_leases u)\<rparr>) else Some u)"
| "cache_exec dc (OpReserve io uuid name n) u =
     (case cache_reserve dc io uuid name n (cu_cache u) of
        (c, None) \<Rightarrow> Some (u\<lparr>cu_cache := c\<rparr>)
      | (c, Some f) \<Rightarrow> Some (u\<lparr>cu_cache := c, cu_fills := f # cu_fills u\<rparr>))"
| "cache_exec dc (OpGrow io tmp n) u =
     (case find_fill u tmp of
        None \<Rightarrow> Some u
      | Some f \<Rightarrow> map_option (\<lambda>(c, f1, _). u\<lparr>cu_cache := c, cu_fills := map (\<lambda>g. if xf_tmp g = tmp then f1 else g) (cu_fills u)\<rparr>)
          (fill_grow dc io n f (cu_cache u)))"
| "cache_exec dc (OpWrite io tmp payload off) u =
     (case find_fill u tmp of
        None \<Rightarrow> Some u
      | Some f \<Rightarrow> Some (u\<lparr>cu_cache := fst (fill_write_at io payload off f (cu_cache u))\<rparr>))"
| "cache_exec dc (OpPublish io tmp) u =
     (case find_fill u tmp of
        None \<Rightarrow> Some u
      | Some f \<Rightarrow> (case fill_publish io f (cu_cache u) of (c, r) \<Rightarrow>
          Some (u\<lparr>cu_cache := c, cu_fills := remove1 f (cu_fills u), cu_stale := (if r = Refused False then [f] else []) @ cu_stale u\<rparr>)))"
| "cache_exec dc (OpAbandon io tmp) u =
     (case find_fill u tmp of
        None \<Rightarrow> Some u
      | Some f \<Rightarrow> (case fill_drop io f (cu_cache u) of (c, ok) \<Rightarrow>
          Some (u\<lparr>cu_cache := c, cu_fills := remove1 f (cu_fills u), cu_stale := (if ok then [] else [f]) @ cu_stale u\<rparr>)))"

fun cache_execs :: "disk_cache \<Rightarrow> cache_op list \<Rightarrow> cache_users \<Rightarrow> cache_users option" where
  "cache_execs dc [] u = Some u"
| "cache_execs dc (op # ops) u = Option.bind (cache_exec dc op u) (cache_execs dc ops)"
section \<open>The budget\<close>

definition plain :: "string \<Rightarrow> bool" where
  "plain name \<longleftrightarrow> \<not> (\<exists>a b. name = a @ ''.tmp-'' @ b)"

lemma tmp_not_plain [simp]: "\<not> plain (name @ ''.tmp-'' @ uuid)" "\<not> plain (name @ CHR ''.'' # CHR ''t'' # CHR ''m'' # CHR ''p'' # CHR ''-'' # uuid)"
  by (auto simp: plain_def)

abbreviation charge_of :: "fill \<Rightarrow> string \<times> nat" where
  "charge_of f \<equiv> (xf_path f, xf_bytes f)"

text \<open>The counters tell the truth, both limits hold, the files of the directory are those of the entries
  and of the fills (and, while the directory is being indexed, of \<open>X\<close>), and none is longer than its charge.\<close>

definition budget_ok :: "disk_cache \<Rightarrow> string set \<Rightarrow> fill list \<Rightarrow> cache \<Rightarrow> bool" where
  "budget_ok dc X fs c \<longleftrightarrow>
     distinct (map fst (ca_entries c)) \<and> distinct (map fst (ca_pending c)) \<and> fst ` set (ca_entries c) \<inter> fst ` set (ca_pending c) = {} \<and>
     distinct (map xf_tmp fs) \<and> mset (ca_pending c) = mset (map charge_of fs) \<and>
     ca_resident c = (\<Sum>x\<leftarrow>ca_entries c. en_bytes (snd x)) \<and> ca_reserved c = (\<Sum>x\<leftarrow>ca_pending c. snd x) \<and>
     ca_resident c + ca_reserved c \<le> dc_max_bytes dc \<and> length (ca_entries c) + length (ca_pending c) \<le> dc_max_entries dc \<and>
     (\<forall>x \<in> set (ca_entries c). plain (fst x) \<and> (\<exists>d. ca_files c (fst x) = Some d \<and> length d = en_bytes (snd x))) \<and>
     (\<forall>f \<in> set fs. plain (xf_path f) \<and> \<not> plain (xf_tmp f) \<and> (\<exists>d. ca_files c (xf_tmp f) = Some d \<and> length d \<le> xf_bytes f)) \<and>
     dom (ca_files c) \<subseteq> fst ` set (ca_entries c) \<union> xf_tmp ` set fs \<union> X"

definition limits_ok :: "disk_cache \<Rightarrow> bool" where
  "limits_ok dc \<longleftrightarrow> dc_max_bytes dc < 2 ^ 64 \<and> dc_max_entries dc < 2 ^ 64 - 1"

lemma budget_perm: "budget_ok dc X fs c \<Longrightarrow> mset fs = mset gs \<Longrightarrow> budget_ok dc X gs c"
proof -
  assume b: "budget_ok dc X fs c" and m: "mset fs = mset gs"
  have "mset (map xf_tmp fs) = mset (map xf_tmp gs)" "mset (map charge_of fs) = mset (map charge_of gs)" using m by simp_all
  moreover from this(1) have "distinct (map xf_tmp gs)" using b mset_eq_imp_distinct_iff [of "map xf_tmp fs"] by (simp add: budget_ok_def)
  moreover have "set fs = set gs" by (rule mset_eq_setD [OF m])
  ultimately show ?thesis using b by (simp add: budget_ok_def)
qed

lemma filter_key: "distinct (map fst xs) \<Longrightarrow> (p, e) \<in> set xs \<Longrightarrow> filter (\<lambda>x. fst x = p) xs = [(p, e)]"
proof (induction xs)
  case (Cons x xs)
  show ?case
  proof (cases "fst x = p")
    case True
    have no: "fst y \<noteq> p" if "y \<in> set xs" for y using Cons.prems(1) True that by (metis distinct.simps(2) image_eqI list.set_map list.simps(9))
    then have "filter (\<lambda>x. fst x = p) xs = []" by (simp add: filter_empty_conv)
    moreover have "x = (p, e)" using Cons.prems(2) no [of "(p, e)"] by auto
    ultimately show ?thesis by simp
  next
    case False
    with Cons show ?thesis by auto
  qed
qed simp

lemma lru_pop_props:
  assumes "distinct (map fst xs)" "(p, e) \<in> set xs"
  shows "set (lru_pop p xs) = set xs - {(p, e)}" "distinct (map fst (lru_pop p xs))" "p \<notin> fst ` set (lru_pop p xs)"
    "Suc (length (lru_pop p xs)) = length xs" "mset xs = add_mset (p, e) (mset (lru_pop p xs))"
proof -
  have u: "x = (p, e)" if "x \<in> set xs" "fst x = p" for x
    using eq_key_imp_eq_value [OF assms(1) _ assms(2), of "snd x"] that by (metis prod.collapse)
  have "x \<in> set xs \<and> fst x \<noteq> p \<longleftrightarrow> x \<in> set xs \<and> x \<noteq> (p, e)" for x
    by (cases "x = (p, e)") (use u [of x] in auto)
  then show "set (lru_pop p xs) = set xs - {(p, e)}" by (simp add: lru_pop_def set_eq_iff)
  show "distinct (map fst (lru_pop p xs))" using assms(1) by (simp add: lru_pop_def distinct_map_filter)
  show "p \<notin> fst ` set (lru_pop p xs)" by (auto simp: lru_pop_def)
  have "filter (\<lambda>x. fst x = p) xs = [(p, e)]" using assms by (rule filter_key)
  then have "filter_mset (\<lambda>x. fst x = p) (mset xs) = {#(p, e)#}" by (simp flip: mset_filter)
  then have "mset xs = {#(p, e)#} + mset (lru_pop p xs)"
    using multiset_partition [of "mset xs" "\<lambda>x. fst x = p"] by (simp only: lru_pop_def mset_filter)
  then show m: "mset xs = add_mset (p, e) (mset (lru_pop p xs))" by simp
  from arg_cong [OF m, of size] show "Suc (length (lru_pop p xs)) = length xs" by simp
qed

lemma sum_list_mset: "mset xs = add_mset y (mset ys) \<Longrightarrow> (\<Sum>x\<leftarrow>xs. f x) = f y + (\<Sum>x\<leftarrow>ys. (f x :: nat))"
  by (metis mset_map image_mset_add_mset sum_mset.add_mset sum_mset_sum_list)

lemma fills_of_pending:
  assumes "budget_ok dc X fs c" "f \<in> set fs"
  shows "charge_of f \<in> set (ca_pending c)" "xf_bytes f \<le> ca_reserved c"
    "\<And>g. g \<in> set fs \<Longrightarrow> xf_tmp g = xf_tmp f \<Longrightarrow> g = f"
proof -
  have "mset (ca_pending c) = mset (map charge_of fs)" using assms(1) by (simp add: budget_ok_def)
  then have "set (ca_pending c) = charge_of ` set fs" by (metis mset_eq_setD set_map)
  with assms(2) show i: "charge_of f \<in> set (ca_pending c)" by simp
  then have "xf_bytes f \<le> (\<Sum>x\<leftarrow>ca_pending c. snd x)" using member_le_sum_list [of "xf_bytes f" "map snd (ca_pending c)"] by force
  then show "xf_bytes f \<le> ca_reserved c" using assms(1) by (simp add: budget_ok_def)
  have "inj_on xf_tmp (set fs)" using assms(1) by (simp add: budget_ok_def distinct_map)
  then show "g = f" if "g \<in> set fs" "xf_tmp g = xf_tmp f" for g by (rule inj_onD) (use that assms(2) in auto)
qed

lemma evict_budget:
  assumes "budget_ok dc X fs c" "(p, e) \<in> set (ca_entries c)" "gs p = None" "\<And>q. q \<noteq> p \<Longrightarrow> gs q = ca_files c q"
  shows "budget_ok dc X fs (evict p e gs c)"
proof -
  note b = assms(1) [unfolded budget_ok_def]
  note pop = lru_pop_props [OF _ assms(2)]
  have d: "distinct (map fst (ca_entries c))" using b by simp
  have r: "(\<Sum>x\<leftarrow>ca_entries c. en_bytes (snd x)) = en_bytes e + (\<Sum>x\<leftarrow>lru_pop p (ca_entries c). en_bytes (snd x))"
    using sum_list_mset [OF pop(5) [OF d], of "\<lambda>x. en_bytes (snd x)"] by simp
  have t: "xf_tmp f \<noteq> p" if "f \<in> set fs" for f using b assms(2) that by auto
  have en: "plain (fst x) \<and> (\<exists>d. gs (fst x) = Some d \<and> length d = en_bytes (snd x))" if "x \<in> set (lru_pop p (ca_entries c))" for x
  proof -
    have "fst x \<noteq> p" using that pop(3) [OF d] by force
    moreover have "x \<in> set (ca_entries c)" using that pop(1) [OF d] by simp
    ultimately show ?thesis using b assms(4) by auto
  qed
  have dm: "dom gs \<subseteq> fst ` set (lru_pop p (ca_entries c)) \<union> xf_tmp ` set fs \<union> X"
  proof
    fix q assume "q \<in> dom gs"
    then have "q \<noteq> p" using assms(3) by auto
    with \<open>q \<in> dom gs\<close> assms(4) [of q] have q: "q \<noteq> p" "q \<in> dom (ca_files c)" by (auto simp: dom_def)
    then have "q \<in> fst ` set (ca_entries c) \<union> xf_tmp ` set fs \<union> X" using b by blast
    with q(1) show "q \<in> fst ` set (lru_pop p (ca_entries c)) \<union> xf_tmp ` set fs \<union> X" by (auto simp: lru_pop_def)
  qed
  show ?thesis
    unfolding budget_ok_def evict_def
    using b pop(2,4) [OF d] r t assms(4) en dm by (auto simp: sub_u64_def lru_pop_def)
qed
text \<open>What eviction does: entries without readers go, with their files, and nothing else changes.\<close>

definition evicted :: "cache \<Rightarrow> cache \<Rightarrow> bool" where
  "evicted c c' \<longleftrightarrow> ca_pending c' = ca_pending c \<and> ca_reserved c' = ca_reserved c \<and> set (ca_entries c') \<subseteq> set (ca_entries c) \<and>
     (\<forall>x \<in> set (ca_entries c). en_readers (snd x) \<noteq> 0 \<longrightarrow> x \<in> set (ca_entries c')) \<and>
     (\<forall>q. q \<notin> fst ` set (ca_entries c) - fst ` set (ca_entries c') \<longrightarrow> ca_files c' q = ca_files c q)"

lemma evicted_refl: "evicted c c"
  by (simp add: evicted_def)

lemma evicted_trans:
  assumes "evicted a b" "evicted b c"
  shows "evicted a c"
proof -
  note a = assms(1) [unfolded evicted_def] and b = assms(2) [unfolded evicted_def]
  have "ca_files c q = ca_files a q" if "q \<notin> fst ` set (ca_entries a) - fst ` set (ca_entries c)" for q
  proof -
    have "fst ` set (ca_entries c) \<subseteq> fst ` set (ca_entries b)" "fst ` set (ca_entries b) \<subseteq> fst ` set (ca_entries a)" using a b by blast+
    with that have "q \<notin> fst ` set (ca_entries a) - fst ` set (ca_entries b)" "q \<notin> fst ` set (ca_entries b) - fst ` set (ca_entries c)" by blast+
    with a b show ?thesis by metis
  qed
  moreover have "x \<in> set (ca_entries c)" if "x \<in> set (ca_entries a)" "en_readers (snd x) \<noteq> 0" for x using a b that by blast
  ultimately show ?thesis using a b unfolding evicted_def by auto
qed

lemma evict_loop_ok:
  assumes "budget_ok dc X fs c" "evict_loop dc io n entry c = (c', ok)"
  shows "budget_ok dc X fs c' \<and> evicted c c' \<and> (ok \<longrightarrow> \<not> crowded dc n entry c')"
  using assms
proof (induction dc io n entry c arbitrary: c' ok rule: evict_loop.induct)
  case (1 dc io n entry c)
  note run = "1.prems"(2) [unfolded evict_loop.simps [of dc io n entry c]]
  show ?case
  proof (cases "crowded dc n entry c")
    case False
    with run "1.prems"(1) show ?thesis by (auto simp: evicted_refl)
  next
    case crowded: True
    show ?thesis
    proof (cases "victim c")
      case None
      with run crowded "1.prems"(1) show ?thesis by (auto simp: evicted_refl)
    next
      case (Some x)
      obtain p e where x: "x = (p, e)" by (cases x)
      obtain gs rm where rm: "remove_file io p (ca_files c) = (gs, rm)" by (rule prod.exhaust)
      show ?thesis
      proof (cases "rm = RmError")
        case True
        with run crowded Some x rm "1.prems"(1) show ?thesis by (auto simp: evicted_refl)
      next
        case False
        have v: "(p, e) \<in> set (ca_entries c)" "en_readers e = 0" using victim_in Some x by auto
        have gs: "gs p = None" "\<And>q. q \<noteq> p \<Longrightarrow> gs q = ca_files c q"
          using rm False by (auto simp: remove_file_def split: if_splits option.splits)
        let ?c = "evict p e gs c"
        note b = evict_budget [OF "1.prems"(1) v(1) gs]
        have loop: "evict_loop dc io n entry ?c = (c', ok)" using run crowded Some x rm False by (cases rm) simp_all
        have d: "distinct (map fst (ca_entries c))" using "1.prems"(1) by (simp add: budget_ok_def)
        have "gs q = ca_files c q" if "q \<notin> fst ` set (ca_entries c) - fst ` set (lru_pop p (ca_entries c))" for q
        proof -
          have "p \<in> fst ` set (ca_entries c)" using v(1) by (rule image_eqI [rotated]) simp
          with that lru_pop_props(3) [OF d v(1)] have "q \<noteq> p" by blast
          then show ?thesis by (rule gs(2))
        qed
        then have "evicted c ?c"
          using lru_pop_props(1) [OF d v(1)] v(2) by (auto simp: evicted_def evict_def)
        moreover have "budget_ok dc X fs c' \<and> evicted ?c c' \<and> (ok \<longrightarrow> \<not> crowded dc n entry c')"
        proof (cases rm)
          case RmOk
          show ?thesis by (rule "1.IH"(1) [OF crowded Some x [symmetric] rm [symmetric] RmOk b loop])
        next
          case RmMissing
          show ?thesis by (rule "1.IH"(2) [OF crowded Some x [symmetric] rm [symmetric] RmMissing b loop])
        qed (use False in simp)
        ultimately show ?thesis by (blast intro: evicted_trans)
      qed
    qed
  qed
qed

lemma make_room_ok:
  assumes "limits_ok dc" "budget_ok dc X fs c" "make_room dc io n entry c = (c', ok)"
  shows "budget_ok dc X fs c'" "evicted c c'"
    "ok \<Longrightarrow> n + ca_resident c' + ca_reserved c' \<le> dc_max_bytes dc"
    "ok \<Longrightarrow> length (ca_entries c') + length (ca_pending c') + of_bool entry \<le> dc_max_entries dc"
proof -
  have "budget_ok dc X fs c' \<and> evicted c c' \<and> (ok \<longrightarrow> n \<le> dc_max_bytes dc \<and> \<not> crowded dc n entry c')"
    using evict_loop_ok [OF assms(2)] assms(2,3) by (auto simp: make_room_def evicted_refl split: if_splits)
  then have k: "ok \<Longrightarrow> n \<le> dc_max_bytes dc \<and> \<not> crowded dc n entry c'" and b: "budget_ok dc X fs c'" "evicted c c'" by blast+
  from b show "budget_ok dc X fs c'" "evicted c c'" .
  have "ca_resident c' + ca_reserved c' \<le> dc_max_bytes dc" "length (ca_entries c') + length (ca_pending c') \<le> dc_max_entries dc"
    using b(1) by (simp_all add: budget_ok_def)
  with k assms(1) show "ok \<Longrightarrow> n + ca_resident c' + ca_reserved c' \<le> dc_max_bytes dc"
    "ok \<Longrightarrow> length (ca_entries c') + length (ca_pending c') + of_bool entry \<le> dc_max_entries dc"
    by (auto simp: crowded_def limits_ok_def add_u64_def saturating_usize_def)
qed

lemma evicted_pending: "evicted c c' \<Longrightarrow> ca_pending c' = ca_pending c \<and> ca_reserved c' = ca_reserved c"
  by (simp add: evicted_def)

lemma evicted_files: "evicted c c' \<Longrightarrow> q \<notin> fst ` set (ca_entries c) \<Longrightarrow> ca_files c' q = ca_files c q"
  by (auto simp: evicted_def)
text \<open>A change of an entry's readers, and its place in the list, costs nothing.\<close>

lemma budget_readers:
  assumes "budget_ok dc X fs c" "map_of (ca_entries c) name = Some e" "en_bytes e' = en_bytes e"
  shows "budget_ok dc X fs (c\<lparr>ca_entries := lru_put name e' (ca_entries c)\<rparr>)"
proof -
  note b = assms(1) [unfolded budget_ok_def]
  have i: "(name, e) \<in> set (ca_entries c)" using assms(2) by (rule map_of_SomeD)
  have d: "distinct (map fst (ca_entries c))" using b by simp
  note pop = lru_pop_props [OF d i]
  have "(\<Sum>x\<leftarrow>ca_entries c. en_bytes (snd x)) = en_bytes e + (\<Sum>x\<leftarrow>lru_pop name (ca_entries c). en_bytes (snd x))"
    using sum_list_mset [OF pop(5), of "\<lambda>x. en_bytes (snd x)"] by simp
  moreover have "fst ` set (lru_put name e' (ca_entries c)) = fst ` set (ca_entries c)"
    using i pop(1) by (force simp: lru_put_def)
  moreover have "plain (fst x) \<and> (\<exists>d. ca_files c (fst x) = Some d \<and> length d = en_bytes (snd x))" if "x \<in> set (lru_put name e' (ca_entries c))" for x
    using that b i pop(1) assms(3) by (auto simp: lru_put_def)
  ultimately show ?thesis using b pop(2-4) assms(3) by (simp add: budget_ok_def lru_put_def)
qed

lemma budget_update_readers:
  assumes "budget_ok dc X fs c" "\<And>e. en_bytes (g e) = en_bytes e"
  shows "budget_ok dc X fs (c\<lparr>ca_entries := lru_update name g (ca_entries c)\<rparr>)"
proof -
  have f: "map fst (lru_update name g xs) = map fst xs" for xs by (induction xs) (auto simp: lru_update_def)
  have s: "map (\<lambda>x. en_bytes (snd x)) (lru_update name g xs) = map (\<lambda>x. en_bytes (snd x)) xs" for xs
    using assms(2) by (induction xs) (auto simp: lru_update_def)
  have l: "length (lru_update name g xs) = length xs" for xs by (simp add: lru_update_def)
  have i: "fst ` set (lru_update name g xs) = fst ` set xs" for xs using f [of xs] by (metis set_map)
  have "\<exists>y \<in> set xs. fst x = fst y \<and> en_bytes (snd x) = en_bytes (snd y)" if "x \<in> set (lru_update name g xs)" for x xs
    using that assms(2) by (force simp: lru_update_def)
  then have "plain (fst x) \<and> (\<exists>d. ca_files c (fst x) = Some d \<and> length d = en_bytes (snd x))" if "x \<in> set (lru_update name g (ca_entries c))" for x
    using that assms(1) unfolding budget_ok_def by metis
  then show ?thesis using assms(1) by (simp add: budget_ok_def f s l i)
qed

lemma read_budget:
  assumes "budget_ok dc X fs c" "cache_read io name c = (c', r)" "\<not> dk_stat io name"
  shows "budget_ok dc X fs c'"
proof (cases "map_of (ca_entries c) name")
  case None
  with assms show ?thesis by (simp add: cache_read_def)
next
  case (Some e)
  let ?c1 = "c\<lparr>ca_entries := lru_put name e (ca_entries c)\<rparr>"
  have b1: "budget_ok dc X fs ?c1" by (rule budget_readers [OF assms(1) Some]) simp
  have b2: "budget_ok dc X fs (c\<lparr>ca_entries := lru_put name (e\<lparr>en_readers := k\<rparr>) (ca_entries c)\<rparr>)" for k
    by (rule budget_readers [OF assms(1) Some]) simp
  obtain gs rm where rm: "remove_file io name (ca_files c) = (gs, rm)" by (rule prod.exhaust)
  have gs: "\<And>q. q \<noteq> name \<Longrightarrow> gs q = ca_files c q" using rm by (auto simp: remove_file_def split: if_splits option.splits)
  have "budget_ok dc X fs (forget_unreadable io name e ?c1)"
  proof (cases "gs name")
    case None
    have i: "(name, e) \<in> set (ca_entries ?c1)" by (simp add: lru_put_def)
    have "budget_ok dc X fs (evict name e gs ?c1)" by (rule evict_budget [OF b1 i]) (use gs None in simp_all)
    with rm None show ?thesis by (simp add: forget_unreadable_def)
  next
    case (Some d)
    with rm have "gs = ca_files c" "rm \<noteq> RmOk" by (auto simp: remove_file_def split: if_splits option.splits)
    with rm Some b1 assms(3) show ?thesis by (simp add: forget_unreadable_def)
  qed
  with assms(2) Some b2 show ?thesis by (auto simp: cache_read_def Let_def split: if_splits option.splits)
qed
lemma reserve_budget:
  assumes "limits_ok dc" "budget_ok dc X fs c" "cache_reserve dc io uuid name n c = (c', r)" "plain name"
  shows "budget_ok dc X ((case r of None \<Rightarrow> [] | Some f \<Rightarrow> [f]) @ fs) c'"
proof (cases "name \<in> fst ` set (ca_entries c) \<or> name \<in> fst ` set (ca_pending c)")
  case True
  with assms show ?thesis by (auto simp: cache_reserve_def)
next
  case new: False
  obtain c1 ok where m: "make_room dc io n True c = (c1, ok)" by (rule prod.exhaust)
  note room = make_room_ok [OF assms(1,2) m]
  let ?tmp = "name @ ''.tmp-'' @ uuid"
  show ?thesis
  proof (cases "ok \<and> \<not> dk_create io \<and> ca_files c1 ?tmp = None")
    case False
    with assms(3) new m room(1) show ?thesis by (cases ok) (auto simp: cache_reserve_def Let_def)
  next
    case True
    let ?f = "\<lparr>xf_path = name, xf_tmp = ?tmp, xf_bytes = n\<rparr>"
    have r: "r = Some ?f" "c' = c1\<lparr>ca_files := (ca_files c1)(?tmp \<mapsto> []), ca_pending := (name, n) # ca_pending c1, ca_reserved := add_u64 (ca_reserved c1) n\<rparr>"
      using assms(3) new m True by (auto simp: cache_reserve_def Let_def)
    note b = room(1) [unfolded budget_ok_def]
    have fits: "n + ca_resident c1 + ca_reserved c1 \<le> dc_max_bytes dc" "length (ca_entries c1) + length (ca_pending c1) + 1 \<le> dc_max_entries dc"
      using room(3,4) True by simp_all
    then have add: "add_u64 (ca_reserved c1) n = ca_reserved c1 + n" using assms(1) by (simp add: add_u64_def limits_ok_def)
    have "fst ` set (ca_entries c1) \<subseteq> fst ` set (ca_entries c)" using room(2) by (auto simp: evicted_def)
    then have fresh: "name \<notin> fst ` set (ca_entries c1)" "name \<notin> fst ` set (ca_pending c1)" using new evicted_pending [OF room(2)] by auto
    have tmp: "?tmp \<notin> xf_tmp ` set fs" "?tmp \<notin> fst ` set (ca_entries c1)" using b True by auto
    have en: "plain (fst x) \<and> (\<exists>d. ((ca_files c1)(?tmp \<mapsto> [])) (fst x) = Some d \<and> length d = en_bytes (snd x))" if "x \<in> set (ca_entries c1)" for x
    proof -
      have "fst x \<noteq> ?tmp" using that tmp(2) by force
      with b that show ?thesis by simp
    qed
    have fl: "plain (xf_path f) \<and> \<not> plain (xf_tmp f) \<and> (\<exists>d. ((ca_files c1)(?tmp \<mapsto> [])) (xf_tmp f) = Some d \<and> length d \<le> xf_bytes f)"
      if "f \<in> set (?f # fs)" for f
      using that b tmp(1) assms(4) by auto
    have dm: "dom ((ca_files c1)(?tmp \<mapsto> [])) \<subseteq> fst ` set (ca_entries c1) \<union> xf_tmp ` set (?f # fs) \<union> X" using b by auto
    show ?thesis
      unfolding r budget_ok_def using b fits fresh tmp add en fl dm by simp
  qed
qed

lemma splice_length: "off + length new \<le> n \<Longrightarrow> length old \<le> n \<Longrightarrow> length (splice off new old) \<le> n"
  by (auto simp: splice_def)

lemma write_chunks_length:
  "off + length (concat bs) \<le> n \<Longrightarrow> length old \<le> n \<Longrightarrow> length (fst (write_chunks_at budget bs off old)) \<le> n"
proof (induction budget bs off old rule: write_chunks_at.induct)
  case (2 budget b bs off old)
  have "length (splice off (take k b) old) \<le> n" for k using "2.prems" by (intro splice_length) auto
  moreover have "length (splice off b old) \<le> n" using "2.prems" by (intro splice_length) auto
  ultimately show ?case using "2.IH" "2.prems" by (auto split: option.splits)
qed simp

text \<open>A change of one fill's temporary file within its charge.\<close>

lemma budget_tmp:
  assumes "budget_ok dc X fs c" "f \<in> set fs" "length d \<le> xf_bytes f"
  shows "budget_ok dc X fs (c\<lparr>ca_files := (ca_files c)(xf_tmp f \<mapsto> d)\<rparr>)"
proof -
  note b = assms(1) [unfolded budget_ok_def]
  have "fst x \<noteq> xf_tmp f" if "x \<in> set (ca_entries c)" for x using b that assms(2) by metis
  moreover have "g = f" if "g \<in> set fs" "xf_tmp g = xf_tmp f" for g by (rule fills_of_pending(3) [OF assms(1,2) that])
  ultimately show ?thesis using b assms(2,3) by (auto simp: budget_ok_def)
qed

lemma write_budget:
  assumes "budget_ok dc X fs c" "f \<in> set fs"
  shows "budget_ok dc X fs (fst (fill_write_at io payload off f c))"
proof -
  obtain old where old: "ca_files c (xf_tmp f) = Some old" "length old \<le> xf_bytes f" using assms by (auto simp: budget_ok_def)
  have "length (fst (write_chunks_at (dk_write io) payload off old)) \<le> xf_bytes f" if "off + length (concat payload) \<le> xf_bytes f"
    by (rule write_chunks_length [OF that old(2)])
  then show ?thesis using budget_tmp [OF assms] assms(1) old(1)
    by (auto simp: fill_write_at_def Let_def split: prod.split)
qed

lemma pending_pop:
  assumes "budget_ok dc X (f # fs) c"
  shows "mset (lru_pop (xf_path f) (ca_pending c)) = mset (map charge_of fs)"
    "(\<Sum>x\<leftarrow>ca_pending c. snd x) = xf_bytes f + (\<Sum>x\<leftarrow>lru_pop (xf_path f) (ca_pending c). snd x)"
    "fst ` set (lru_pop (xf_path f) (ca_pending c)) = fst ` set (ca_pending c) - {xf_path f}"
    "distinct (map fst (lru_pop (xf_path f) (ca_pending c)))" "Suc (length (lru_pop (xf_path f) (ca_pending c))) = length (ca_pending c)"
proof -
  have d: "distinct (map fst (ca_pending c))" and m: "mset (ca_pending c) = mset (map charge_of (f # fs))" using assms by (simp_all add: budget_ok_def)
  have i: "charge_of f \<in> set (ca_pending c)" by (rule fills_of_pending(1) [OF assms]) simp
  note pop = lru_pop_props [OF d i]
  from pop(5) m show "mset (lru_pop (xf_path f) (ca_pending c)) = mset (map charge_of fs)" by simp
  show "(\<Sum>x\<leftarrow>ca_pending c. snd x) = xf_bytes f + (\<Sum>x\<leftarrow>lru_pop (xf_path f) (ca_pending c). snd x)"
    using sum_list_mset [OF pop(5), of snd] by simp
  show "fst ` set (lru_pop (xf_path f) (ca_pending c)) = fst ` set (ca_pending c) - {xf_path f}" by (auto simp: lru_pop_def)
  show "distinct (map fst (lru_pop (xf_path f) (ca_pending c)))" by (rule pop(2))
  show "Suc (length (lru_pop (xf_path f) (ca_pending c))) = length (ca_pending c)" by (rule pop(4))
qed

lemma drop_budget:
  assumes "budget_ok dc X (f # fs) c" "fill_drop io f c = (c', ok)"
  shows "budget_ok dc X ((if ok then [] else [f]) @ fs) c'"
proof -
  note b = assms(1) [unfolded budget_ok_def] and pop = pending_pop [OF assms(1)]
  obtain gs rm where rm: "remove_file io (xf_tmp f) (ca_files c) = (gs, rm)" by (rule prod.exhaust)
  show ?thesis
  proof (cases "rm = RmError")
    case True
    with assms rm show ?thesis by (simp add: fill_drop_def)
  next
    case False
    have gs: "gs = (ca_files c)(xf_tmp f := None)" using rm False by (auto simp: remove_file_def fun_eq_iff split: if_splits option.splits)
    have c': "ok" "c' = c\<lparr>ca_files := gs, ca_pending := lru_pop (xf_path f) (ca_pending c), ca_reserved := sub_u64 (ca_reserved c) (xf_bytes f)\<rparr>"
      using assms(2) rm False by (cases rm; simp add: fill_drop_def)+
    have "xf_tmp f \<notin> xf_tmp ` set fs" using b by simp
    then have n: "xf_tmp g \<noteq> xf_tmp f" if "g \<in> set fs" for g using that by (metis image_eqI)
    have e: "fst x \<noteq> xf_tmp f" if "x \<in> set (ca_entries c)" for x using b that by (metis list.set_intros(1))
    have dm: "dom gs \<subseteq> fst ` set (ca_entries c) \<union> xf_tmp ` set fs \<union> X" using b by (auto simp: gs split: if_splits)
    have s: "sub_u64 (ca_reserved c) (xf_bytes f) = (\<Sum>x\<leftarrow>lru_pop (xf_path f) (ca_pending c). snd x)" using b pop(2) by (simp add: sub_u64_def)
    have en: "plain (fst x) \<and> (\<exists>d. gs (fst x) = Some d \<and> length d = en_bytes (snd x))" if "x \<in> set (ca_entries c)" for x
      using b e that by (simp add: gs)
    have fl: "plain (xf_path g) \<and> \<not> plain (xf_tmp g) \<and> (\<exists>d. gs (xf_tmp g) = Some d \<and> length d \<le> xf_bytes g)" if "g \<in> set fs" for g
      using b n that by (simp add: gs)
    have "fst ` set (ca_entries c) \<inter> (fst ` set (ca_pending c) - {xf_path f}) = {}" using b by blast
    with b pop c' dm s en fl show ?thesis by (simp add: budget_ok_def)
  qed
qed
lemma publish_budget:
  assumes "limits_ok dc" "budget_ok dc X (f # fs) c" "fill_publish io f c = (c', r)"
  shows "budget_ok dc X ((if r = Refused False then [f] else []) @ fs) c'"
proof -
  note b = assms(2) [unfolded budget_ok_def] and pop = pending_pop [OF assms(2)]
  obtain d where d: "ca_files c (xf_tmp f) = Some d" using b by auto
  show ?thesis
  proof (cases "dk_flush io \<or> length d \<noteq> xf_bytes f \<or> dk_rename io")
    case True
    obtain c1 ok where dr: "fill_drop io f c = (c1, ok)" by (rule prod.exhaust)
    have "c' = c1" "r = Refused ok" using assms(3) d True dr by (auto simp: fill_publish_def Let_def)
    with drop_budget [OF assms(2) dr] show ?thesis by (cases ok) simp_all
  next
    case False
    let ?p = "xf_path f" and ?gs = "(ca_files c)(xf_tmp f := None, xf_path f \<mapsto> d)"
    have c': "r = Published" "c' = c\<lparr>ca_files := ?gs, ca_pending := lru_pop ?p (ca_pending c),
        ca_reserved := sub_u64 (ca_reserved c) (xf_bytes f), ca_resident := add_u64 (ca_resident c) (xf_bytes f),
        ca_entries := lru_put ?p \<lparr>en_bytes = xf_bytes f, en_readers = 0\<rparr> (ca_entries c)\<rparr>"
      using assms(3) d False by (auto simp: fill_publish_def Let_def)
    have len: "length d = xf_bytes f" using False by simp
    have pend: "?p \<in> fst ` set (ca_pending c)" using fills_of_pending(1) [OF assms(2), of f] by force
    have new: "?p \<notin> fst ` set (ca_entries c)" using b pend by blast
    then have put: "lru_put ?p v (ca_entries c) = (?p, v) # ca_entries c" for v
      by (force simp: lru_put_def lru_pop_def filter_id_conv)
    have "xf_tmp f \<notin> xf_tmp ` set fs" using b by simp
    then have n: "xf_tmp g \<noteq> xf_tmp f" if "g \<in> set fs" for g using that by (metis image_eqI)
    have e: "fst x \<noteq> xf_tmp f" "fst x \<noteq> ?p" if "x \<in> set (ca_entries c)" for x
      using b new that by (metis list.set_intros(1), metis image_eqI)
    have t: "xf_tmp g \<noteq> ?p" if "g \<in> set fs" for g using b that by (metis list.set_intros)
    have s: "sub_u64 (ca_reserved c) (xf_bytes f) = (\<Sum>x\<leftarrow>lru_pop ?p (ca_pending c). snd x)" using b pop(2) by (simp add: sub_u64_def)
    have a: "add_u64 (ca_resident c) (xf_bytes f) = ca_resident c + xf_bytes f" using b pop(2) assms(1) by (simp add: add_u64_def limits_ok_def)
    have en: "plain (fst x) \<and> (\<exists>d. ?gs (fst x) = Some d \<and> length d = en_bytes (snd x))" if "x \<in> set (ca_entries c)" for x
      using b e that by simp
    have fl: "plain (xf_path g) \<and> \<not> plain (xf_tmp g) \<and> (\<exists>d. ?gs (xf_tmp g) = Some d \<and> length d \<le> xf_bytes g)" if "g \<in> set fs" for g
      using b n t that by simp
    have dm: "dom ?gs \<subseteq> insert ?p (fst ` set (ca_entries c) \<union> xf_tmp ` set fs \<union> X)" using b by (auto split: if_splits)
    have dj: "fst ` set (ca_entries c) \<inter> (fst ` set (ca_pending c) - {?p}) = {}" using b by blast
    have pl: "plain ?p" using b by simp
    show ?thesis
      unfolding c' budget_ok_def put using b pop s a en fl dm dj pl len new by simp
  qed
qed

lemma lru_update_props:
  assumes "distinct (map fst xs)" "(p, e) \<in> set xs"
  shows "map fst (lru_update p g xs) = map fst xs" "length (lru_update p g xs) = length xs"
    "mset (lru_update p g xs) = add_mset (p, g e) (mset (lru_pop p xs))" "fst ` set (lru_update p g xs) = fst ` set xs"
proof -
  show f: "map fst (lru_update p g xs) = map fst xs" by (induction xs) (auto simp: lru_update_def)
  show "length (lru_update p g xs) = length xs" by (simp add: lru_update_def)
  show "fst ` set (lru_update p g xs) = fst ` set xs" using f by (metis set_map)
  have m: "mset xs = add_mset (p, e) (mset (lru_pop p xs))" by (rule lru_pop_props(5) [OF assms])
  have "image_mset (\<lambda>(k', v). (k', if k' = p then g v else v)) (mset (lru_pop p xs)) = image_mset id (mset (lru_pop p xs))"
    by (rule image_mset_cong) (auto simp: lru_pop_def)
  with arg_cong [OF m, of "image_mset (\<lambda>(k', v). (k', if k' = p then g v else v))"]
  show "mset (lru_update p g xs) = add_mset (p, g e) (mset (lru_pop p xs))" by (simp add: lru_update_def)
qed

lemma grow_budget:
  assumes "limits_ok dc" "budget_ok dc X (f # fs) c"
  shows "\<exists>c' f' ok. fill_grow dc io n f c = Some (c', f', ok) \<and> budget_ok dc X (f' # fs) c' \<and> xf_tmp f' = xf_tmp f"
proof -
  obtain c1 ok where m: "make_room dc io n False c = (c1, ok)" by (rule prod.exhaust)
  note room = make_room_ok [OF assms(1,2) m]
  show ?thesis
  proof (cases ok)
    case False
    with m room(1) show ?thesis by (intro exI [of _ c1] exI [of _ f] exI [of _ False]) (simp add: fill_grow_def)
  next
    case True
    note b = room(1) [unfolded budget_ok_def] and pop = pending_pop [OF room(1)]
    let ?p = "xf_path f" and ?v = "xf_bytes f + n" and ?f = "f\<lparr>xf_bytes := xf_bytes f + n\<rparr>"
    have fits: "n + ca_resident c1 + ca_reserved c1 \<le> dc_max_bytes dc" using room(3) True by simp
    have i: "charge_of f \<in> set (ca_pending c1)" "xf_bytes f \<le> ca_reserved c1" using fills_of_pending(1,2) [OF room(1)] by simp_all
    have add: "add_u64 (xf_bytes f) n = ?v" "add_u64 (ca_reserved c1) n = ca_reserved c1 + n"
      using fits i(2) assms(1) by (simp_all add: add_u64_def limits_ok_def)
    have d: "distinct (map fst (ca_pending c1))" using b by simp
    note up = lru_update_props [OF d i(1), of "\<lambda>_. ?v"]
    have g: "fill_grow dc io n f c = Some (c1\<lparr>ca_reserved := ca_reserved c1 + n, ca_pending := lru_update ?p (\<lambda>_. ?v) (ca_pending c1)\<rparr>, ?f, True)"
      using m True add image_eqI [OF _ i(1), of ?p fst] by (simp add: fill_grow_def Let_def)
    have fl: "plain (xf_path h) \<and> \<not> plain (xf_tmp h) \<and> (\<exists>d. ca_files c1 (xf_tmp h) = Some d \<and> length d \<le> xf_bytes h)" if "h \<in> set (?f # fs)" for h
      using that b by (auto intro: trans_le_add1)
    have mm: "mset (lru_update ?p (\<lambda>_. ?v) (ca_pending c1)) = mset (map charge_of (?f # fs))"
      using up(3) pop(1) by simp
    have sm: "(\<Sum>x\<leftarrow>lru_update ?p (\<lambda>_. ?v) (ca_pending c1). snd x) = ca_reserved c1 + n"
      using sum_list_mset [OF up(3), of snd] pop(2) b by simp
    show ?thesis
      by (intro exI [of _ "c1\<lparr>ca_reserved := ca_reserved c1 + n, ca_pending := lru_update ?p (\<lambda>_. ?v) (ca_pending c1)\<rparr>"] exI [of _ ?f] exI [of _ True] conjI g)
        (unfold budget_ok_def, use b fits fl mm sm up in simp_all)
  qed
qed

end
