(* ===== verification/CacheSafety.thy ===== *)
theory CacheSafety
  imports DiskCache
begin

text \<open>
  What the disk cache promises over every sequence of operations of its users: the budget of bytes and
  entries, that a restart accepts the directory a process left behind, and that a pinned entry stays.
  The last holds as long as no pinned entry becomes unreadable; a run where one does is shown at the end.
\<close>

section \<open>Sequences of operations\<close>

definition users_ok :: "disk_cache \<Rightarrow> cache_users \<Rightarrow> bool" where
  "users_ok dc u \<longleftrightarrow> budget_ok dc {} (cu_fills u @ cu_stale u) (cu_cache u)"

text \<open>The names the store uses: a whole object and a chunk of one, both under the digest of the location;
  and the names \<open>Uuid::new_v4\<close> prints.\<close>

definition cache_name :: "string \<Rightarrow> bool" where
  "cache_name name \<longleftrightarrow> (\<exists>h. is_hash h \<and> (name = h @ ''.file'' \<or>
     (\<exists>sz i. 0 < sz \<and> sz < 2 ^ 64 \<and> i < 2 ^ 64 \<and> name = h @ ''.'' @ show_nat sz @ ''.chunk-'' @ show_nat i)))"

definition drawn_uuid :: "(string \<Rightarrow> bool) \<Rightarrow> string \<Rightarrow> bool" where
  "drawn_uuid is_uuid s \<longleftrightarrow> is_uuid s \<and> list_all (\<lambda>c. is_hexdigit c \<or> c = CHR ''-'') s"

fun op_ok :: "(string \<Rightarrow> bool) \<Rightarrow> cache_op \<Rightarrow> bool" where
  "op_ok is_uuid (OpRead io name) \<longleftrightarrow> \<not> dk_stat io name"
| "op_ok is_uuid (OpReserve io uuid name n) \<longleftrightarrow> cache_name name \<and> drawn_uuid is_uuid uuid"
| "op_ok is_uuid _ \<longleftrightarrow> True"

lemma plain_nodot: "CHR ''.'' \<notin> set s \<Longrightarrow> plain s"
  by (auto simp: plain_def)

lemma plain_dot:
  assumes "CHR ''.'' \<notin> set h" "take 4 rest \<noteq> ''tmp-''" "plain rest"
  shows "plain (h @ CHR ''.'' # rest)"
  unfolding plain_def
proof
  assume "\<exists>a b. h @ CHR ''.'' # rest = a @ ''.tmp-'' @ b"
  then obtain a b where e: "h @ CHR ''.'' # rest = a @ ''.tmp-'' @ b" by blast
  from e show False
  proof (rule append_eq_append_conv2 [THEN iffD1, THEN exE])
    fix us assume "h = a @ us \<and> us @ CHR ''.'' # rest = ''.tmp-'' @ b \<or> h @ us = a \<and> CHR ''.'' # rest = us @ ''.tmp-'' @ b"
    then show False
    proof
      assume "h = a @ us \<and> us @ CHR ''.'' # rest = ''.tmp-'' @ b"
      with assms(1,2) show False by (cases us) auto
    next
      assume "h @ us = a \<and> CHR ''.'' # rest = us @ ''.tmp-'' @ b"
      with assms(2,3) show False by (cases us) (auto simp: plain_def)
    qed
  qed
qed

lemma hash_nodot: "is_hash h \<Longrightarrow> CHR ''.'' \<notin> set h"
  by (auto simp: is_hash_def list_all_iff is_hexdigit_def Let_def)

lemma show_nat_nodot: "CHR ''.'' \<notin> set (show_nat n)"
  by (rule nondigit_not_in_show_nat) simp

lemma show_nat_not_tmp: "take 4 (show_nat n @ s) \<noteq> ''tmp-''"
proof
  assume a: "take 4 (show_nat n @ s) = ''tmp-''"
  obtain c r where c: "show_nat n = c # r" by (cases "show_nat n") auto
  with a have "c = CHR ''t''" by (auto simp: take_Cons')
  moreover have "CHR ''t'' \<notin> set (show_nat n)" by (rule nondigit_not_in_show_nat) simp
  ultimately show False using c by simp
qed

lemma cache_name_plain: "cache_name name \<Longrightarrow> plain name"
proof -
  assume "cache_name name"
  then obtain h where h: "is_hash h" and n: "name = h @ ''.file'' \<or> (\<exists>sz i. name = h @ ''.'' @ show_nat sz @ ''.chunk-'' @ show_nat i)"
    by (auto simp: cache_name_def)
  have f: "plain (h @ CHR ''.'' # ''file'')" by (rule plain_dot [OF hash_nodot [OF h]]) (auto intro: plain_nodot)
  have "plain (''chunk-'' @ show_nat i)" for i by (rule plain_nodot) (simp add: show_nat_nodot)
  then have "plain (show_nat sz @ CHR ''.'' # ''chunk-'' @ show_nat i)" for sz i by (intro plain_dot show_nat_nodot) simp_all
  then have "plain (h @ CHR ''.'' # show_nat sz @ CHR ''.'' # ''chunk-'' @ show_nat i)" for sz i
    by (rule plain_dot [OF hash_nodot [OF h] show_nat_not_tmp])
  with f n show ?thesis by auto
qed

lemma find_fill_in: "find_fill u tmp = Some f \<Longrightarrow> f \<in> set (cu_fills u) \<and> xf_tmp f = tmp"
  unfolding find_fill_def by (auto dest: find_SomeD)

lemma fill_first: "f \<in> set fs \<Longrightarrow> mset (fs @ ss) = mset (f # (remove1 f fs @ ss))"
  by simp

lemma replace_fill:
  assumes "distinct (map xf_tmp fs)" "f \<in> set fs" "xf_tmp f = tmp"
  shows "mset (map (\<lambda>g. if xf_tmp g = tmp then f1 else g) fs) = add_mset f1 (mset (remove1 f fs))"
  using assms
proof (induction fs)
  case (Cons g fs)
  show ?case
  proof (cases "g = f")
    case True
    have "xf_tmp h \<noteq> tmp" if "h \<in> set fs" for h using that Cons.prems(1,3) True by (metis distinct.simps(2) image_eqI list.set_map list.simps(9))
    then have "map (\<lambda>g. if xf_tmp g = tmp then f1 else g) fs = fs" by (simp add: map_idI)
    with True Cons.prems(3) show ?thesis by simp
  next
    case False
    with Cons.prems have f: "f \<in> set fs" by simp
    then have "xf_tmp g \<noteq> tmp" using Cons.prems(1,3) by (metis distinct.simps(2) image_eqI list.set_map list.simps(9))
    with Cons.IH Cons.prems f False show ?thesis by simp
  qed
qed simp

lemma exec_budget:
  assumes "limits_ok dc" "users_ok dc u" "op_ok is_uuid op"
  shows "\<exists>u'. cache_exec dc op u = Some u' \<and> users_ok dc u'"
proof -
  let ?c = "cu_cache u" and ?fs = "cu_fills u" and ?ss = "cu_stale u"
  have b: "budget_ok dc {} (?fs @ ?ss) ?c" using assms(2) by (simp add: users_ok_def)
  have first: "budget_ok dc {} (f # (remove1 f ?fs @ ?ss)) ?c" if "f \<in> set ?fs" for f
    by (rule budget_perm [OF b]) (use that in simp)
  show ?thesis
  proof (cases op)
    case (OpRead io name)
    obtain c' r where r: "cache_read io name ?c = (c', r)" by (rule prod.exhaust)
    have "budget_ok dc {} (?fs @ ?ss) c'" by (rule read_budget [OF b r]) (use assms(3) OpRead in simp)
    with OpRead r show ?thesis by (cases r) (simp_all add: users_ok_def)
  next
    case (OpRelease name)
    have "budget_ok dc {} (?fs @ ?ss) (lease_drop name ?c)" unfolding lease_drop_def by (rule budget_update_readers [OF b]) simp
    with OpRelease b show ?thesis by (auto simp: users_ok_def)
  next
    case (OpReserve io uuid name n)
    obtain c' r where r: "cache_reserve dc io uuid name n ?c = (c', r)" by (rule prod.exhaust)
    have "budget_ok dc {} ((case r of None \<Rightarrow> [] | Some f \<Rightarrow> [f]) @ ?fs @ ?ss) c'"
      by (rule reserve_budget [OF assms(1) b r]) (use assms(3) OpReserve cache_name_plain in simp)
    with OpReserve r show ?thesis by (cases r) (simp_all add: users_ok_def)
  next
    case (OpGrow io tmp n)
    show ?thesis
    proof (cases "find_fill u tmp")
      case (Some f)
      note f = find_fill_in [OF Some]
      obtain c' f' ok where g: "fill_grow dc io n f ?c = Some (c', f', ok)" "budget_ok dc {} (f' # (remove1 f ?fs @ ?ss)) c'"
        using grow_budget [OF assms(1) first] f by blast
      have d: "distinct (map xf_tmp ?fs)" using b by (simp add: budget_ok_def)
      have "budget_ok dc {} (map (\<lambda>g. if xf_tmp g = tmp then f' else g) ?fs @ ?ss) c'"
        by (rule budget_perm [OF g(2)]) (use replace_fill [OF d, of f tmp f'] f in simp)
      with OpGrow Some g(1) show ?thesis by (simp add: users_ok_def)
    qed (use OpGrow assms(2) in simp)
  next
    case (OpWrite io tmp payload off)
    show ?thesis
    proof (cases "find_fill u tmp")
      case (Some f)
      have "budget_ok dc {} (?fs @ ?ss) (fst (fill_write_at io payload off f ?c))"
        by (rule write_budget [OF b]) (use find_fill_in [OF Some] in simp)
      with OpWrite Some show ?thesis by (simp add: users_ok_def)
    qed (use OpWrite assms(2) in simp)
  next
    case (OpPublish io tmp)
    show ?thesis
    proof (cases "find_fill u tmp")
      case (Some f)
      obtain c' r where r: "fill_publish io f ?c = (c', r)" by (rule prod.exhaust)
      have p: "budget_ok dc {} ((if r = Refused False then [f] else []) @ (remove1 f ?fs @ ?ss)) c'"
        by (rule publish_budget [OF assms(1) first r]) (use find_fill_in [OF Some] in simp)
      have "budget_ok dc {} (remove1 f ?fs @ ((if r = Refused False then [f] else []) @ ?ss)) c'" by (rule budget_perm [OF p]) simp
      with OpPublish Some r show ?thesis by (simp add: users_ok_def)
    qed (use OpPublish assms(2) in simp)
  next
    case (OpAbandon io tmp)
    show ?thesis
    proof (cases "find_fill u tmp")
      case (Some f)
      obtain c' ok where r: "fill_drop io f ?c = (c', ok)" by (rule prod.exhaust)
      have p: "budget_ok dc {} ((if ok then [] else [f]) @ (remove1 f ?fs @ ?ss)) c'"
        by (rule drop_budget [OF first r]) (use find_fill_in [OF Some] in simp)
      have "budget_ok dc {} (remove1 f ?fs @ ((if ok then [] else [f]) @ ?ss)) c'" by (rule budget_perm [OF p]) simp
      with OpAbandon Some r show ?thesis by (simp add: users_ok_def)
    qed (use OpAbandon assms(2) in simp)
  qed
qed

lemma execs_budget:
  assumes "limits_ok dc" "list_all (op_ok is_uuid) ops"
  shows "users_ok dc u \<Longrightarrow> \<exists>u'. cache_execs dc ops u = Some u' \<and> users_ok dc u'"
  using assms(2)
proof (induction ops arbitrary: u)
  case (Cons op ops)
  then obtain u1 where "cache_exec dc op u = Some u1" "users_ok dc u1" using exec_budget [OF assms(1)] by fastforce
  with Cons show ?case by simp
qed simp
section \<open>The directory\<close>

abbreviation disk_bytes :: "cache \<Rightarrow> nat" where
  "disk_bytes c \<equiv> \<Sum>n \<in> dom (ca_files c). length (the (ca_files c n))"

lemma resident_files:
  assumes "budget_ok dc X fs c"
  shows "ca_resident c = (\<Sum>n \<in> fst ` set (ca_entries c). length (the (ca_files c n)))"
proof -
  note b = assms [unfolded budget_ok_def]
  let ?E = "fst ` set (ca_entries c)" and ?len = "\<lambda>n. length (the (ca_files c n))"
  have "(\<Sum>n \<in> ?E. ?len n) = (\<Sum>x \<in> set (ca_entries c). ?len (fst x))"
    using b by (intro sum.reindex [unfolded o_def]) (simp add: distinct_map)
  also have "\<dots> = (\<Sum>x \<in> set (ca_entries c). en_bytes (snd x))"
  proof (rule sum.cong [OF refl])
    fix x assume "x \<in> set (ca_entries c)"
    with b obtain d where "ca_files c (fst x) = Some d" "length d = en_bytes (snd x)" by blast
    then show "?len (fst x) = en_bytes (snd x)" by simp
  qed
  also have "\<dots> = ca_resident c" using b by (simp add: sum_list_distinct_conv_sum_set distinct_map)
  finally show ?thesis by simp
qed

lemma directory_within_budget:
  assumes "budget_ok dc {} fs c"
  shows "finite (dom (ca_files c))" "disk_bytes c \<le> dc_max_bytes dc" "card (dom (ca_files c)) \<le> dc_max_entries dc"
proof -
  note b = assms [unfolded budget_ok_def]
  let ?E = "fst ` set (ca_entries c)" and ?T = "xf_tmp ` set fs" and ?len = "\<lambda>n. length (the (ca_files c n))"
  have dom: "dom (ca_files c) \<subseteq> ?E \<union> ?T" using b by simp
  then show fin: "finite (dom (ca_files c))" by (rule finite_subset) simp
  have E: "(\<Sum>n \<in> ?E. ?len n) = ca_resident c" by (rule resident_files [OF assms, symmetric])
  have r: "ca_reserved c = (\<Sum>f\<leftarrow>fs. xf_bytes f)"
  proof -
    have "ca_reserved c = sum_mset (image_mset snd (mset (ca_pending c)))" using b by (simp add: sum_mset_sum_list [symmetric])
    also have "\<dots> = sum_mset (image_mset snd (mset (map charge_of fs)))" using b by simp
    also have "\<dots> = (\<Sum>f\<leftarrow>fs. xf_bytes f)" by (simp add: sum_mset_sum_list [symmetric] image_mset.compositionality comp_def)
    finally show ?thesis .
  qed
  have "(\<Sum>n \<in> ?T. ?len n) = (\<Sum>f \<in> set fs. ?len (xf_tmp f))"
    using b by (intro sum.reindex [unfolded o_def]) (simp add: distinct_map)
  also have "\<dots> \<le> (\<Sum>f \<in> set fs. xf_bytes f)"
  proof (rule sum_mono)
    fix f assume "f \<in> set fs"
    with b obtain d where "ca_files c (xf_tmp f) = Some d" "length d \<le> xf_bytes f" by blast
    then show "?len (xf_tmp f) \<le> xf_bytes f" by simp
  qed
  also have "\<dots> = ca_reserved c"
  proof -
    have "distinct fs" using b by (simp add: distinct_map)
    then show ?thesis unfolding r by (rule sum_list_distinct_conv_sum_set [symmetric])
  qed
  finally have T: "(\<Sum>n \<in> ?T. ?len n) \<le> ca_reserved c" .
  have "disk_bytes c \<le> (\<Sum>n \<in> ?E \<union> ?T. ?len n)" by (rule sum_mono2 [OF _ dom]) simp_all
  also have "\<dots> \<le> (\<Sum>n \<in> ?E. ?len n) + (\<Sum>n \<in> ?T. ?len n)" by (simp add: sum_Un_nat)
  also have "\<dots> \<le> dc_max_bytes dc" using E T b by simp
  finally show "disk_bytes c \<le> dc_max_bytes dc" .
  have l: "length (ca_pending c) = length fs" using b by (metis length_map size_mset)
  have "card (dom (ca_files c)) \<le> card (?E \<union> ?T)" by (rule card_mono [OF _ dom]) simp
  also have "\<dots> \<le> card ?E + card ?T" by (rule card_Un_le)
  also have "\<dots> \<le> length (ca_entries c) + length fs" by (intro add_mono order_trans [OF card_image_le] card_length) simp_all
  also have "\<dots> \<le> dc_max_entries dc" using b l by simp
  finally show "card (dom (ca_files c)) \<le> dc_max_entries dc" .
qed

section \<open>Opening a directory\<close>

text \<open>The state while the directory is indexed, with \<open>items\<close> still to come.\<close>

definition indexing :: "disk_cache \<Rightarrow> (string \<Rightarrow> bool) \<Rightarrow> (string \<times> bytes) list \<Rightarrow> cache \<Rightarrow> bool" where
  "indexing dc is_uuid items c \<longleftrightarrow> budget_ok dc (fst ` set items) [] c \<and> distinct (map fst items) \<and>
     fst ` set (ca_entries c) \<inter> fst ` set items = {} \<and> (\<forall>x \<in> set items. ca_files c (fst x) = Some (snd x)) \<and>
     (\<forall>x \<in> set items. \<not> is_temporary is_uuid (fst x) \<longrightarrow> plain (fst x)) \<and> (\<forall>x \<in> set (ca_entries c). en_readers (snd x) = 0) \<and>
     (\<forall>n \<in> fst ` set items \<union> fst ` set (ca_entries c). managed_name is_uuid n)"

lemma indexing_removed:
  assumes "indexing dc is_uuid ((name, data) # items) c"
  shows "indexing dc is_uuid items (c\<lparr>ca_files := (ca_files c)(name := None)\<rparr>)"
proof -
  note i = assms [unfolded indexing_def]
  have "budget_ok dc (fst ` set items) [] (c\<lparr>ca_files := (ca_files c)(name := None)\<rparr>)"
    using i by (auto simp: budget_ok_def split: if_splits)
  with i show ?thesis by (auto simp: indexing_def image_iff)
qed

lemma indexing_added:
  assumes "limits_ok dc" "indexing dc is_uuid ((name, data) # items) c" "\<not> is_temporary is_uuid name"
    and m: "make_room dc io (length data) True c = (c1, True)"
  shows "indexing dc is_uuid items
    (c1\<lparr>ca_resident := add_u64 (ca_resident c1) (length data), ca_entries := lru_put name \<lparr>en_bytes = length data, en_readers = 0\<rparr> (ca_entries c1)\<rparr>)"
    (is "indexing dc is_uuid items ?c")
proof -
  let ?X = "fst ` set items" and ?e = "\<lparr>en_bytes = length data, en_readers = 0\<rparr>"
  note i = assms(2) [unfolded indexing_def]
  have b0: "budget_ok dc (fst ` set ((name, data) # items)) [] c" using i by simp
  note room = make_room_ok [OF assms(1) b0 m]
  note b = room(1) [unfolded budget_ok_def]
  have sub: "fst ` set (ca_entries c1) \<subseteq> fst ` set (ca_entries c)" using room(2) by (auto simp: evicted_def)
  have new: "name \<notin> fst ` set (ca_entries c1)" using sub i by auto
  then have put: "lru_put name ?e (ca_entries c1) = (name, ?e) # ca_entries c1" by (force simp: lru_put_def lru_pop_def filter_id_conv)
  have files: "ca_files c1 q = ca_files c q" if "q \<in> insert name ?X" for q
    by (rule evicted_files [OF room(2)]) (use that i in auto)
  have add: "add_u64 (ca_resident c1) (length data) = ca_resident c1 + length data"
    using room(3) assms(1) by (simp add: add_u64_def limits_ok_def)
  have "plain name" using i assms(3) by simp
  moreover have "ca_files c1 name = Some data" using files [of name] i by simp
  moreover have "dom (ca_files c1) \<subseteq> insert name (fst ` set (ca_entries c1)) \<union> ?X" using b by auto
  moreover have "ca_pending c1 = []" using b by simp
  ultimately have "budget_ok dc ?X [] ?c" using b add new room(3,4) by (simp add: budget_ok_def put)
  moreover have "fst ` set (ca_entries ?c) \<inter> ?X = {}"
  proof -
    have "name \<notin> ?X" "fst ` set (ca_entries c) \<inter> ?X = {}" using i by auto
    with sub have "insert name (fst ` set (ca_entries c1)) \<inter> ?X = {}" by blast
    then show ?thesis by (simp add: put)
  qed
  moreover have "\<forall>x \<in> set (ca_entries ?c). en_readers (snd x) = 0" 
  proof -
    have "set (ca_entries c1) \<subseteq> set (ca_entries c)" using room(2) by (simp add: evicted_def)
    moreover have "\<forall>x \<in> set (ca_entries c). en_readers (snd x) = 0" using i by blast
    ultimately have "\<forall>x \<in> set (ca_entries c1). en_readers (snd x) = 0" by blast
    with put show ?thesis by simp
  qed
  moreover have "\<forall>n \<in> ?X \<union> fst ` set (ca_entries ?c). managed_name is_uuid n"
  proof -
    have "fst ` set (ca_entries ?c) = insert name (fst ` set (ca_entries c1))" by (simp add: put)
    moreover have "\<forall>n \<in> insert name ?X \<union> fst ` set (ca_entries c). managed_name is_uuid n" using i by auto
    ultimately show ?thesis using sub by blast
  qed
  ultimately show ?thesis using i files by (simp add: indexing_def)
qed

lemma reindex_budget:
  assumes "limits_ok dc" "reindex dc io is_uuid items c = Inr c'" "indexing dc is_uuid items c"
  shows "indexing dc is_uuid [] c'"
  using assms(2,3)
proof (induction items arbitrary: c)
  case (Cons x items)
  obtain name data where x: "x = (name, data)" by (cases x)
  have i: "indexing dc is_uuid ((name, data) # items) c" using Cons.prems(2) x by simp
  show ?case
  proof (cases "is_temporary is_uuid name \<or> dc_max_bytes dc < length data")
    case True
    have "reindex dc io is_uuid items (c\<lparr>ca_files := (ca_files c)(name := None)\<rparr>) = Inr c'"
      using Cons.prems(1) True x by (auto simp: remove_file_def split: if_splits option.splits)
    then show ?thesis by (rule Cons.IH) (rule indexing_removed [OF i])
  next
    case False
    obtain c1 ok where m: "make_room dc io (length data) True c = (c1, ok)" by (rule prod.exhaust)
    have ok: ok and rest: "reindex dc io is_uuid items
        (c1\<lparr>ca_resident := add_u64 (ca_resident c1) (length data), ca_entries := lru_put name \<lparr>en_bytes = length data, en_readers = 0\<rparr> (ca_entries c1)\<rparr>) = Inr c'"
      using Cons.prems(1) False x m by (auto split: bool.splits)
    show ?thesis by (rule Cons.IH [OF rest]) (rule indexing_added [OF assms(1) i _ m [unfolded eqTrueI [OF ok]]], use False in simp)
  qed
qed simp

lemma rsplit_once_None: "rsplit_once pat s = None \<longleftrightarrow> \<not> (\<exists>a b. s = a @ pat @ b)"
proof
  assume "rsplit_once pat s = None"
  then have "filter (\<lambda>i. take (length pat) (drop i s) = pat) (rev [0..<Suc (length s)]) = []" by (auto simp: rsplit_once_def split: list.splits)
  then have no: "take (length pat) (drop i s) \<noteq> pat" if "i \<le> length s" for i
    using that unfolding filter_empty_conv set_rev set_upt by (auto simp: less_Suc_eq_le)
  show "\<not> (\<exists>a b. s = a @ pat @ b)"
  proof
    assume "\<exists>a b. s = a @ pat @ b"
    then obtain a b where "s = a @ pat @ b" by blast
    with no [of "length a"] show False by simp
  qed
next
  assume no: "\<not> (\<exists>a b. s = a @ pat @ b)"
  have "take (length pat) (drop i s) \<noteq> pat" for i
  proof
    assume "take (length pat) (drop i s) = pat"
    then have "s = take i s @ pat @ drop (length pat) (drop i s)" by (metis append_take_drop_id)
    with no show False by blast
  qed
  then show "rsplit_once pat s = None" by (simp add: rsplit_once_def)
qed

lemma plain_rsplit: "plain name \<longleftrightarrow> rsplit_once ''.tmp-'' name = None"
  by (simp only: rsplit_once_None plain_def)

text \<open>The last occurrence of a pattern whose first character does not come again.\<close>

lemma rsplit_once_last:
  assumes "c \<notin> set p" "c \<notin> set b"
  shows "rsplit_once (c # p) (a @ (c # p) @ b) = Some (a, b)"
proof -
  let ?pat = "c # p" let ?s = "a @ ?pat @ b" let ?P = "\<lambda>i. take (length ?pat) (drop i ?s) = ?pat"
  have no: "\<not> ?P i" if "length a < i" for i
  proof
    assume P: "?P i"
    have "drop i ?s = drop (i - length a - 1) (p @ b)" using that by (simp add: drop_Cons' diff_diff_left)
    then have "c \<in> set (p @ b)" using P by (metis in_set_dropD in_set_takeD list.set_intros(1))
    with assms show False by simp
  qed
  have "[0..<Suc (length ?s)] = [0..<length a] @ length a # [Suc (length a)..<Suc (length ?s)]"
    using upt_add_eq_append [of 0 "length a" "Suc (length (?pat @ b))"] by (simp add: upt_conv_Cons del: upt_Suc)
  then have "rev [0..<Suc (length ?s)] = rev [Suc (length a)..<Suc (length ?s)] @ length a # rev [0..<length a]" by (simp only: rev_append rev.simps append_assoc append_Cons append_Nil)
  moreover have "filter ?P (rev [Suc (length a)..<Suc (length ?s)]) = []"
    unfolding filter_empty_conv set_rev set_upt using no by (metis (no_types, lifting) Suc_le_lessD atLeastLessThan_iff)
  ultimately have "filter ?P (rev [0..<Suc (length ?s)]) = length a # filter ?P (rev [0..<length a])" by (simp only: filter_append append_Nil filter.simps) simp
  then show ?thesis by (simp only: rsplit_once_def list.case) simp
qed

lemma parse_show_nat:
  assumes "n < 2 ^ w"
  shows "parse_unsigned w (show_nat n) = Some n"
proof -
  have v: "foldl (\<lambda>k c. k * 10 + (of_char c - 48)) 0 (show_nat m) = m" for m
  proof (induction m rule: show_nat.induct)
    case (1 m)
    show ?case
    proof (cases "m < 10")
      case True
      then show ?thesis by (subst show_nat.simps) (simp add: digit_char_def)
    next
      case False
      with 1 show ?thesis by (subst show_nat.simps) (simp add: digit_char_def)
    qed
  qed
  have "48 \<le> (of_char c :: nat) \<and> (of_char c :: nat) \<le> 57" if "c \<in> set (show_nat n)" for c
    using that nondigit_not_in_show_nat [of c n] by (meson not_le)
  then have d: "digits_value (show_nat n) = Some n" using v [of n] by (simp add: digits_value_def list_all_iff)
  have "CHR ''+'' \<notin> set (show_nat n)" by (rule nondigit_not_in_show_nat) simp
  then have "(case show_nat n of [] \<Rightarrow> show_nat n | c # r \<Rightarrow> if c = CHR ''+'' then r else show_nat n) = show_nat n"
    by (cases "show_nat n") auto
  with d assms show ?thesis by (simp add: parse_unsigned_def)
qed

lemma strip_file [simp]: "strip_suffix ''.file'' (h @ ''.file'') = Some h" "strip_suffix ''.file'' (h @ CHR ''.'' # ''file'') = Some h"
  by (simp_all add: strip_suffix_def)

lemma managed_cache_name:
  assumes "cache_name name"
  shows "managed_base is_uuid t name"
proof -
  obtain h where h: "is_hash h" and n: "name = h @ ''.file'' \<or>
     (\<exists>sz i. 0 < sz \<and> sz < 2 ^ 64 \<and> i < 2 ^ 64 \<and> name = h @ ''.'' @ show_nat sz @ ''.chunk-'' @ show_nat i)"
    using assms unfolding cache_name_def by blast
  from n show ?thesis
  proof
    assume "name = h @ ''.file''"
    with h show ?thesis by (simp add: managed_base_def)
  next
    assume "\<exists>sz i. 0 < sz \<and> sz < 2 ^ 64 \<and> i < 2 ^ 64 \<and> name = h @ ''.'' @ show_nat sz @ ''.chunk-'' @ show_nat i"
    then obtain sz i where s: "0 < sz" "sz < 2 ^ 64" "i < 2 ^ 64" and nm: "name = h @ ''.'' @ show_nat sz @ ''.chunk-'' @ show_nat i" by blast
    have "rsplit_once ''.chunk-'' ((h @ ''.'' @ show_nat sz) @ ''.chunk-'' @ show_nat i) = Some (h @ ''.'' @ show_nat sz, show_nat i)"
      by (rule rsplit_once_last) (simp_all add: show_nat_nodot)
    then have c: "rsplit_once ''.chunk-'' name = Some (h @ ''.'' @ show_nat sz, show_nat i)" by (simp only: nm append_assoc)
    have "rsplit_once ''.'' (h @ ''.'' @ show_nat sz) = Some (h, show_nat sz)" by (rule rsplit_once_last) (simp_all add: show_nat_nodot)
    with c h s show ?thesis unfolding managed_base_def by (simp only: option.case prod.case parse_show_nat) simp
  qed
qed

lemma dot_not_uuid: "drawn_uuid is_uuid s \<Longrightarrow> CHR ''.'' \<notin> set s"
  by (auto simp: drawn_uuid_def list_all_iff is_hexdigit_def Let_def)

lemma managed_own:
  assumes "cache_name name"
  shows "managed_name is_uuid name" "\<not> is_temporary is_uuid name"
    "drawn_uuid is_uuid uuid \<Longrightarrow> managed_name is_uuid (name @ ''.tmp-'' @ uuid) \<and> is_temporary is_uuid (name @ ''.tmp-'' @ uuid)"
proof -
  have "rsplit_once ''.tmp-'' name = None" using cache_name_plain [OF assms] by (simp only: plain_rsplit)
  then show "managed_name is_uuid name" "\<not> is_temporary is_uuid name" using managed_cache_name [OF assms] by (simp_all add: managed_name_def is_temporary_def)
  assume u: "drawn_uuid is_uuid uuid"
  have "rsplit_once ''.tmp-'' (name @ ''.tmp-'' @ uuid) = Some (name, uuid)" by (rule rsplit_once_last) (simp_all add: dot_not_uuid [OF u])
  with u managed_cache_name [OF assms] show "managed_name is_uuid (name @ ''.tmp-'' @ uuid) \<and> is_temporary is_uuid (name @ ''.tmp-'' @ uuid)"
    by (simp only: managed_name_def is_temporary_def option.case prod.case drawn_uuid_def) simp
qed
section \<open>Names of a run\<close>

definition own_names :: "(string \<Rightarrow> bool) \<Rightarrow> fill list \<Rightarrow> cache \<Rightarrow> bool" where
  "own_names is_uuid fs c \<longleftrightarrow> (\<forall>n \<in> fst ` set (ca_entries c). managed_name is_uuid n \<and> plain n) \<and>
     (\<forall>f \<in> set fs. cache_name (xf_path f) \<and> (\<exists>uuid. drawn_uuid is_uuid uuid \<and> xf_tmp f = xf_path f @ ''.tmp-'' @ uuid))"

lemma make_room_entries: "make_room dc io n entry c = (c', ok) \<Longrightarrow> fst ` set (ca_entries c') \<subseteq> fst ` set (ca_entries c)"
proof -
  have "evict_loop dc io n entry c = (c', ok) \<Longrightarrow> fst ` set (ca_entries c') \<subseteq> fst ` set (ca_entries c)" for c' ok
  proof (induction dc io n entry c arbitrary: c' ok rule: evict_loop.induct)
    case (1 dc io n entry c)
    have pop: "fst ` set (ca_entries (evict p e fs c)) \<subseteq> fst ` set (ca_entries c)" for p e fs by (auto simp: evict_def lru_pop_def)
    show ?case
    proof (cases "crowded dc n entry c")
      case True
      show ?thesis
      proof (cases "victim c")
        case None
        with "1.prems" True show ?thesis by (simp add: evict_loop.simps [of dc io n entry c])
      next
        case (Some x)
        obtain p e where x: "x = (p, e)" by (cases x)
        obtain fs rm where rm: "remove_file io p (ca_files c) = (fs, rm)" by (rule prod.exhaust)
        show ?thesis
        proof (cases rm)
          case RmOk
          with "1.prems" True Some x rm have "evict_loop dc io n entry (evict p e fs c) = (c', ok)" by (simp add: evict_loop.simps [of dc io n entry c])
          from "1.IH"(1) [OF True Some x [symmetric] rm [symmetric] RmOk this] pop show ?thesis by blast
        next
          case RmMissing
          with "1.prems" True Some x rm have "evict_loop dc io n entry (evict p e fs c) = (c', ok)" by (simp add: evict_loop.simps [of dc io n entry c])
          from "1.IH"(2) [OF True Some x [symmetric] rm [symmetric] RmMissing this] pop show ?thesis by blast
        next
          case RmError
          with "1.prems" True Some x rm show ?thesis by (simp add: evict_loop.simps [of dc io n entry c])
        qed
      qed
    qed (use "1.prems" in \<open>simp add: evict_loop.simps [of dc io n entry c]\<close>)
  qed
  then show "make_room dc io n entry c = (c', ok) \<Longrightarrow> fst ` set (ca_entries c') \<subseteq> fst ` set (ca_entries c)"
    by (auto simp: make_room_def split: if_splits)
qed

lemma lru_put_names: "map_of xs k = Some v \<Longrightarrow> fst ` set (lru_put k w xs) \<subseteq> fst ` set xs"
  by (auto simp: lru_put_def lru_pop_def dest!: map_of_SomeD intro: rev_image_eqI)

lemma read_names: "fst ` set (ca_entries (fst (cache_read io name c))) \<subseteq> fst ` set (ca_entries c)"
proof (cases "map_of (ca_entries c) name")
  case (Some e)
  have put: "fst ` set (lru_put name w (ca_entries c)) \<subseteq> fst ` set (ca_entries c)" for w by (rule lru_put_names [OF Some])
  have pop: "fst ` set (lru_pop name xs) \<subseteq> fst ` set xs" for xs :: "(string \<times> cache_entry) list" by (auto simp: lru_pop_def)
  have "fst ` set (lru_pop name (lru_put name e (ca_entries c))) \<subseteq> fst ` set (ca_entries c)" by (rule subset_trans [OF pop put])
  with put [of e] have "fst ` set (ca_entries (forget_unreadable io name e (c\<lparr>ca_entries := lru_put name e (ca_entries c)\<rparr>))) \<subseteq> fst ` set (ca_entries c)"
    by (simp add: forget_unreadable_def evict_def split: prod.split)
  with Some put show ?thesis by (simp add: cache_read_def Let_def split: option.split)
qed (simp add: cache_read_def)

lemma grow_shape: "fill_grow dc io n f c = Some (c', f', ok) \<Longrightarrow>
    fst ` set (ca_entries c') \<subseteq> fst ` set (ca_entries c) \<and> xf_path f' = xf_path f \<and> xf_tmp f' = xf_tmp f"
proof -
  assume g: "fill_grow dc io n f c = Some (c', f', ok)"
  obtain c1 k where m: "make_room dc io n False c = (c1, k)" by (rule prod.exhaust)
  have "ca_entries c' = ca_entries c1 \<and> xf_path f' = xf_path f \<and> xf_tmp f' = xf_tmp f"
    using g m by (cases k) (auto simp: fill_grow_def Let_def split: if_splits)
  with make_room_entries [OF m] show ?thesis by simp
qed

lemma exec_names:
  assumes "own_names is_uuid (cu_fills u @ cu_stale u) (cu_cache u)" "op_ok is_uuid op" "cache_exec dc op u = Some u'"
  shows "own_names is_uuid (cu_fills u' @ cu_stale u') (cu_cache u')"
proof -
  let ?c = "cu_cache u" and ?fs = "cu_fills u" and ?ss = "cu_stale u"
  have own: "own_names is_uuid gs c" if "fst ` set (ca_entries c) \<subseteq> fst ` set (ca_entries ?c)" "set gs \<subseteq> set ?fs \<union> set ?ss" for gs c
    using assms(1) that unfolding own_names_def by (metis (no_types, lifting) in_mono set_append)
  have drop: "fst ` set (ca_entries (fst (fill_drop io f ?c))) \<subseteq> fst ` set (ca_entries ?c)" for io f
    by (auto simp: fill_drop_def split: prod.split removed.split)
  show ?thesis
  proof (cases op)
    case (OpRead io name)
    have "cu_cache u' = fst (cache_read io name ?c)" "cu_fills u' = ?fs" "cu_stale u' = ?ss"
      using assms(3) OpRead by (auto split: prod.splits option.splits)
    with own [OF read_names] show ?thesis by simp
  next
    case (OpRelease name)
    have "fst ` set (ca_entries (lease_drop name ?c)) \<subseteq> fst ` set (ca_entries ?c)" by (force simp: lease_drop_def lru_update_def)
    with own assms(3) OpRelease show ?thesis by (auto split: if_splits)
  next
    case (OpReserve io uuid name n)
    obtain c' r where r: "cache_reserve dc io uuid name n ?c = (c', r)" by (rule prod.exhaust)
    obtain c1 k where m: "make_room dc io n True ?c = (c1, k)" by (rule prod.exhaust)
    have "ca_entries c' = ca_entries ?c \<or> ca_entries c' = ca_entries c1"
      using r m by (cases k) (auto simp: cache_reserve_def Let_def split: if_splits)
    with make_room_entries [OF m] have e: "fst ` set (ca_entries c') \<subseteq> fst ` set (ca_entries ?c)" by (elim disjE) simp_all
    have f: "cache_name (xf_path f) \<and> (\<exists>uuid. drawn_uuid is_uuid uuid \<and> xf_tmp f = xf_path f @ ''.tmp-'' @ uuid)" if "r = Some f" for f
      using r that assms(2) OpReserve by (auto simp: cache_reserve_def Let_def split: prod.splits bool.splits if_splits)
    have "own_names is_uuid (?fs @ ?ss) c'" by (rule own [OF e]) simp
    with f assms(3) OpReserve r show ?thesis by (cases r) (auto simp: own_names_def)
  next
    case (OpGrow io tmp n)
    show ?thesis
    proof (cases "find_fill u tmp")
      case (Some f)
      then obtain c' f' ok where g: "fill_grow dc io n f ?c = Some (c', f', ok)" and u': "u' = u\<lparr>cu_cache := c', cu_fills := map (\<lambda>g. if xf_tmp g = tmp then f' else g) ?fs\<rparr>"
        using assms(3) OpGrow by auto
      note sh = grow_shape [OF g]
      have "own_names is_uuid (?fs @ ?ss) c'" by (rule own) (use sh in simp_all)
      moreover have "f \<in> set ?fs" using find_fill_in [OF Some] by simp
      ultimately show ?thesis using sh u' by (auto simp: own_names_def)
    qed (use OpGrow assms in auto)
  next
    case (OpWrite io tmp payload off)
    have e: "ca_entries (fst (fill_write_at io payload off f ?c)) = ca_entries ?c" for f by (simp add: fill_write_at_def Let_def split: option.split prod.split)
    have "cu_fills u' = ?fs" "cu_stale u' = ?ss" "ca_entries (cu_cache u') = ca_entries ?c" using assms(3) OpWrite e by (auto split: option.splits)
    with own show ?thesis by simp
  next
    case (OpPublish io tmp)
    show ?thesis
    proof (cases "find_fill u tmp")
      case (Some f)
      obtain c' r where r: "fill_publish io f ?c = (c', r)" by (rule prod.exhaust)
      have f: "f \<in> set ?fs" using find_fill_in [OF Some] by simp
      have e: "fst ` set (ca_entries c') \<subseteq> insert (xf_path f) (fst ` set (ca_entries ?c))"
        using r drop [of io f] by (auto simp: fill_publish_def Let_def lru_put_def lru_pop_def split: option.splits prod.splits if_splits)
      have n: "cache_name (xf_path f)" using assms(1) f by (simp add: own_names_def)
      have "cu_cache u' = c'" "set (cu_fills u' @ cu_stale u') \<subseteq> set ?fs \<union> set ?ss"
        using assms(3) OpPublish Some r f set_remove1_subset [of f ?fs] by auto
      moreover have "managed_name is_uuid n \<and> plain n" if "n \<in> fst ` set (ca_entries c')" for n
      proof -
        have "n = xf_path f \<or> n \<in> fst ` set (ca_entries ?c)" using that e by blast
        moreover have "\<forall>n \<in> fst ` set (ca_entries ?c). managed_name is_uuid n \<and> plain n" using assms(1) unfolding own_names_def by (rule conjunct1)
        ultimately show ?thesis using managed_own(1) [OF \<open>cache_name (xf_path f)\<close>] cache_name_plain [OF \<open>cache_name (xf_path f)\<close>] by blast
      qed
      moreover have "cache_name (xf_path g) \<and> (\<exists>uuid. drawn_uuid is_uuid uuid \<and> xf_tmp g = xf_path g @ ''.tmp-'' @ uuid)"
        if "g \<in> set ?fs \<union> set ?ss" for g
        using that assms(1) by (auto simp: own_names_def)
      ultimately show ?thesis unfolding own_names_def by (metis (no_types, lifting) subsetD)
    qed (use OpPublish assms in auto)
  next
    case (OpAbandon io tmp)
    show ?thesis
    proof (cases "find_fill u tmp")
      case (Some f)
      obtain c' ok where r: "fill_drop io f ?c = (c', ok)" by (rule prod.exhaust)
      have f: "f \<in> set ?fs" using find_fill_in [OF Some] by simp
      have "own_names is_uuid (cu_fills u' @ cu_stale u') c'"
      proof (rule own)
        show "fst ` set (ca_entries c') \<subseteq> fst ` set (ca_entries ?c)" using drop [of io f] r by simp
        show "set (cu_fills u' @ cu_stale u') \<subseteq> set ?fs \<union> set ?ss"
          using assms(3) OpAbandon Some r f set_remove1_subset [of f ?fs] by (cases ok) auto
      qed
      with assms(3) OpAbandon Some r show ?thesis by auto
    qed (use OpAbandon assms in auto)
  qed
qed
section \<open>Starting again\<close>

definition idle :: "cache \<Rightarrow> cache_users" where
  "idle c = \<lparr>cu_cache = c, cu_fills = [], cu_stale = [], cu_leases = []\<rparr>"

lemma managed_plain: "managed_name is_uuid n \<Longrightarrow> \<not> is_temporary is_uuid n \<Longrightarrow> plain n"
  by (auto simp: managed_name_def is_temporary_def plain_rsplit split: option.splits if_splits)

lemma evict_loop_succeeds:
  assumes "\<forall>x \<in> set (ca_entries c). en_readers (snd x) = 0" "ca_pending c = []" "ca_reserved c = 0" "n \<le> dc_max_bytes dc" "1 \<le> dc_max_entries dc"
    and "\<forall>p. \<not> dk_remove io p" "budget_ok dc X [] c"
  shows "snd (evict_loop dc io n entry c)"
  using assms
proof (induction dc io n entry c rule: evict_loop.induct)
  case (1 dc io n entry c)
  show ?case
  proof (cases "crowded dc n entry c")
    case True
    have "ca_entries c \<noteq> []"
    proof
      assume e: "ca_entries c = []"
      with "1.prems"(7) have "ca_resident c = 0" by (simp add: budget_ok_def)
      with e True "1.prems"(2-5) show False by (cases entry) (auto simp: crowded_def add_u64_def saturating_usize_def)
    qed
    then obtain x where "x \<in> set (ca_entries c)" by (meson list.set_sel(1))
    with "1.prems"(1) have "\<exists>x. x \<in> set (rev (ca_entries c)) \<and> en_readers (snd x) = 0" by (intro exI [of _ x]) simp
    then have "victim c \<noteq> None" unfolding victim_def find_None_iff by blast
    then obtain p e where v: "victim c = Some (p, e)" by auto
    have p: "(p, e) \<in> set (ca_entries c)" using victim_in [OF v] by simp
    obtain gs rm where rm: "remove_file io p (ca_files c) = (gs, rm)" by (rule prod.exhaust)
    have gs: "gs p = None" "\<And>q. q \<noteq> p \<Longrightarrow> gs q = ca_files c q" "rm \<noteq> RmError"
      using rm "1.prems"(6) by (auto simp: remove_file_def split: option.splits)
    have b: "budget_ok dc X [] (evict p e gs c)" by (rule evict_budget [OF "1.prems"(7) p gs(1,2)])
    have z: "\<forall>x \<in> set (ca_entries (evict p e gs c)). en_readers (snd x) = 0" "ca_pending (evict p e gs c) = []" "ca_reserved (evict p e gs c) = 0"
      using "1.prems"(1-3) by (auto simp: evict_def lru_pop_def)
    show ?thesis
    proof (cases rm)
      case RmOk
      from "1.IH"(1) [OF True v refl rm [symmetric] RmOk z "1.prems"(4-6) b] RmOk True v rm show ?thesis
        by (simp add: evict_loop.simps [of dc io n entry c])
    next
      case RmMissing
      from "1.IH"(2) [OF True v refl rm [symmetric] RmMissing z "1.prems"(4-6) b] RmMissing True v rm show ?thesis
        by (simp add: evict_loop.simps [of dc io n entry c])
    qed (use gs(3) in simp)
  qed (simp add: evict_loop.simps [of dc io n entry c])
qed

lemma reindex_succeeds:
  assumes "limits_ok dc" "1 \<le> dc_max_entries dc" "\<forall>p. \<not> dk_remove io p" "indexing dc is_uuid items c"
  shows "\<exists>c'. reindex dc io is_uuid items c = Inr c'"
  using assms(4)
proof (induction items arbitrary: c)
  case (Cons x items)
  obtain name data where x: "x = (name, data)" by (cases x)
  have i: "indexing dc is_uuid ((name, data) # items) c" using Cons.prems x by simp
  show ?case
  proof (cases "is_temporary is_uuid name \<or> dc_max_bytes dc < length data")
    case True
    have "ca_files c name = Some data" using i by (simp add: indexing_def)
    then have "remove_file io name (ca_files c) = ((ca_files c)(name := None), RmOk)" using assms(3) by (simp add: remove_file_def)
    with Cons.IH [OF indexing_removed [OF i]] True x show ?thesis by simp
  next
    case False
    obtain c1 ok where m: "make_room dc io (length data) True c = (c1, ok)" by (rule prod.exhaust)
    have z: "\<forall>x \<in> set (ca_entries c). en_readers (snd x) = 0" and b: "budget_ok dc (fst ` set ((name, data) # items)) [] c"
      using i by (simp_all add: indexing_def)
    then have "ca_pending c = []" "ca_reserved c = 0" by (simp_all add: budget_ok_def)
    then have ok using evict_loop_succeeds [OF z _ _ _ assms(2,3) b, of "length data" True] m False by (simp add: make_room_def)
    with Cons.IH [OF indexing_added [OF assms(1) i _ m [unfolded eqTrueI [OF \<open>ok\<close>]]]] m False x show ?thesis by simp
  qed
qed simp
section \<open>Leases\<close>

text \<open>The readers of an entry are its leases.\<close>

definition leases_exact :: "cache_users \<Rightarrow> bool" where
  "leases_exact u \<longleftrightarrow> set (cu_leases u) \<subseteq> fst ` set (ca_entries (cu_cache u)) \<and>
     (\<forall>x \<in> set (ca_entries (cu_cache u)). en_readers (snd x) = count_list (cu_leases u) (fst x))"

fun readable :: "cache_op \<Rightarrow> bool" where
  "readable (OpRead io name) \<longleftrightarrow> \<not> dk_open io name"
| "readable _ \<longleftrightarrow> True"

text \<open>What a step does to a pinned entry.\<close>

definition pins_kept :: "cache_users \<Rightarrow> cache_users \<Rightarrow> bool" where
  "pins_kept u u' \<longleftrightarrow> (\<forall>name \<in> set (cu_leases u). ca_files (cu_cache u') name = ca_files (cu_cache u) name)"

lemma leases_room:
  assumes "leases_exact u" "evicted (cu_cache u) c'"
  shows "leases_exact (u\<lparr>cu_cache := c'\<rparr>)" "\<forall>name \<in> set (cu_leases u). ca_files c' name = ca_files (cu_cache u) name"
proof -
  note l = assms(1) [unfolded leases_exact_def] and e = assms(2) [unfolded evicted_def]
  have kept: "name \<in> fst ` set (ca_entries c')" if "name \<in> set (cu_leases u)" for name
  proof -
    have "name \<in> fst ` set (ca_entries (cu_cache u))" using that l by blast
    then obtain x where x: "x \<in> set (ca_entries (cu_cache u))" "fst x = name" by force
    then have "en_readers (snd x) \<noteq> 0" using l that by (simp add: count_list_0_iff)
    with e x show ?thesis by blast
  qed
  have "set (ca_entries c') \<subseteq> set (ca_entries (cu_cache u))" using e by blast
  with l have "\<forall>x \<in> set (ca_entries c'). en_readers (snd x) = count_list (cu_leases u) (fst x)" by blast
  with kept show "leases_exact (u\<lparr>cu_cache := c'\<rparr>)" unfolding leases_exact_def by (simp add: subsetI)
  from kept e show "\<forall>name \<in> set (cu_leases u). ca_files c' name = ca_files (cu_cache u) name" by blast
qed
text \<open>Files of temporaries may change; the entries do not.\<close>

lemma leases_files:
  assumes "leases_exact u" "users_ok dc u" "ca_entries c' = ca_entries (cu_cache u)"
    and "\<And>q. plain q \<Longrightarrow> ca_files c' q = ca_files (cu_cache u) q" "cu_leases v = cu_leases u" "cu_cache v = c'"
  shows "leases_exact v \<and> pins_kept u v"
proof -
  have "plain name" if "name \<in> set (cu_leases u)" for name
    using that assms(1,2) by (auto simp: leases_exact_def users_ok_def budget_ok_def)
  with assms show ?thesis by (simp add: leases_exact_def pins_kept_def)
qed

lemma drop_effect:
  "ca_entries (fst (fill_drop io f c)) = ca_entries c" "q \<noteq> xf_tmp f \<Longrightarrow> ca_files (fst (fill_drop io f c)) q = ca_files c q"
  by (auto simp: fill_drop_def remove_file_def split: option.split)

lemma tmp_of_fill: "users_ok dc u \<Longrightarrow> f \<in> set (cu_fills u) \<Longrightarrow> plain q \<Longrightarrow> q \<noteq> xf_tmp f"
  by (auto simp: users_ok_def budget_ok_def)

lemma read_leases:
  assumes "users_ok dc u" "leases_exact u" "length (cu_leases u) + 1 < 2 ^ 64" "\<not> dk_open io name"
    and "cache_exec dc (OpRead io name) u = Some u'"
  shows "leases_exact u' \<and> pins_kept u u'"
proof (cases "map_of (ca_entries (cu_cache u)) name")
  case None
  with assms(2,5) show ?thesis by (simp add: cache_read_def pins_kept_def)
next
  case (Some e)
  let ?c = "cu_cache u"
  have i: "(name, e) \<in> set (ca_entries ?c)" using Some by (rule map_of_SomeD)
  have d: "distinct (map fst (ca_entries ?c))" using assms(1) by (simp add: users_ok_def budget_ok_def)
  note pop = lru_pop_props [OF d i]
  obtain data where f: "ca_files ?c name = Some data" "length data = en_bytes e" using assms(1) i by (fastforce simp: users_ok_def budget_ok_def)
  have r: "en_readers e = count_list (cu_leases u) name" using assms(2) i by (fastforce simp: leases_exact_def)
  have "en_readers e < 2 ^ 64 - 1" using r count_le_length [of "cu_leases u" name] assms(3) by simp
  then have add: "add_u64 (en_readers e) 1 = en_readers e + 1" by (simp add: add_u64_def)
  let ?e = "e\<lparr>en_readers := en_readers e + 1\<rparr>"
  have u': "u' = u\<lparr>cu_cache := ?c\<lparr>ca_entries := (name, ?e) # lru_pop name (ca_entries ?c)\<rparr>, cu_leases := name # cu_leases u\<rparr>"
    using assms(4,5) Some f add by (simp add: cache_read_def Let_def lru_put_def)
  have "en_readers (snd x) = count_list (name # cu_leases u) (fst x)" if "x \<in> set (lru_pop name (ca_entries ?c))" for x
  proof -
    have "x \<in> set (ca_entries ?c)" "fst x \<noteq> name" using that by (auto simp: lru_pop_def)
    with assms(2) show ?thesis by (simp add: leases_exact_def)
  qed
  moreover have "fst ` set (ca_entries ?c) = insert name (fst ` set (lru_pop name (ca_entries ?c)))"
    using pop(1) i by (metis fst_conv image_insert insert_Diff)
  ultimately show ?thesis using assms(2) r u' by (auto simp: leases_exact_def pins_kept_def)
qed

lemma release_leases:
  assumes "leases_exact u" "cache_exec dc (OpRelease name) u = Some u'"
  shows "leases_exact u' \<and> pins_kept u u'"
proof (cases "name \<in> set (cu_leases u)")
  case False
  with assms show ?thesis by (simp add: pins_kept_def)
next
  case True
  let ?c = "cu_cache u"
  have u': "u' = u\<lparr>cu_cache := lease_drop name ?c, cu_leases := remove1 name (cu_leases u)\<rparr>" using assms(2) True by simp
  have c: "count_list (remove1 name xs) y = count_list xs y - (if y = name then 1 else 0)" for xs and y :: string
    by (induction xs) auto
  have pos: "0 < count_list (cu_leases u) name" using True by (metis count_list_0_iff neq0_conv)
  have "en_readers (snd x) = count_list (remove1 name (cu_leases u)) (fst x)" if x: "x \<in> set (ca_entries (lease_drop name ?c))" for x
  proof -
    obtain y where y: "y \<in> set (ca_entries ?c)" "x = (\<lambda>(k', v). (k', if k' = name then v\<lparr>en_readers := sub_u64 (en_readers v) 1\<rparr> else v)) y"
      using x by (auto simp: lease_drop_def lru_update_def)
    obtain k e0 where k: "y = (k, e0)" by (cases y)
    obtain e where e: "(fst x, e) \<in> set (ca_entries ?c)" "snd x = (if fst x = name then e\<lparr>en_readers := sub_u64 (en_readers e) 1\<rparr> else e)"
      by (rule that [of e0]) (use y k in simp_all)
    have "en_readers e = count_list (cu_leases u) (fst x)" using assms(1) e(1) by (fastforce simp: leases_exact_def)
    with e(2) pos show ?thesis by (cases "fst x = name") (simp_all add: c sub_u64_def)
  qed
  moreover have "fst ` set (ca_entries (lease_drop name ?c)) = fst ` set (ca_entries ?c)" by (force simp: lease_drop_def lru_update_def)
  moreover have "set (remove1 name (cu_leases u)) \<subseteq> fst ` set (ca_entries ?c)" using assms(1) set_remove1_subset [of name "cu_leases u"] by (auto simp: leases_exact_def)
  moreover have "ca_files (lease_drop name ?c) = ca_files ?c" by (simp add: lease_drop_def)
  ultimately show ?thesis using u' by (simp add: leases_exact_def pins_kept_def)
qed

lemma publish_leases:
  assumes "users_ok dc u" "leases_exact u" "f \<in> set (cu_fills u)" "fill_publish io f (cu_cache u) = (c', r)"
    and "cu_leases v = cu_leases u" "cu_cache v = c'"
  shows "leases_exact v \<and> pins_kept u v"
proof (cases "r = Published")
  case False
  have d: "c' = fst (fill_drop io f (cu_cache u))"
    using assms(4) False by (auto simp: fill_publish_def Let_def split: option.splits prod.splits if_splits)
  show ?thesis
    by (rule leases_files [OF assms(2,1) _ _ assms(5,6)]) (use d drop_effect tmp_of_fill [OF assms(1,3)] in auto)
next
  case True
  let ?c = "cu_cache u"
  have b: "budget_ok dc {} (cu_fills u @ cu_stale u) ?c" using assms(1) by (simp add: users_ok_def)
  obtain data where p: "ca_files c' = (ca_files ?c)(xf_tmp f := None, xf_path f \<mapsto> data)"
    "ca_entries c' = lru_put (xf_path f) \<lparr>en_bytes = xf_bytes f, en_readers = 0\<rparr> (ca_entries ?c)"
    using assms(4) True by (auto simp: fill_publish_def Let_def split: option.splits prod.splits if_splits)
  have "xf_path f \<in> fst ` set (ca_pending ?c)" using fills_of_pending(1) [OF b, of f] assms(3) by force
  then have new: "xf_path f \<notin> fst ` set (ca_entries ?c)" using b unfolding budget_ok_def by blast
  then have e: "ca_entries c' = (xf_path f, \<lparr>en_bytes = xf_bytes f, en_readers = 0\<rparr>) # ca_entries ?c"
    unfolding p(2) by (force simp: lru_put_def lru_pop_def filter_id_conv)
  have sub: "set (cu_leases u) \<subseteq> fst ` set (ca_entries ?c)" using assms(2) by (simp add: leases_exact_def)
  then have "xf_path f \<notin> set (cu_leases u)" using new by blast
  then have "count_list (cu_leases u) (xf_path f) = 0" by (simp add: count_list_0_iff)
  moreover have "ca_files c' n = ca_files ?c n" if "n \<in> set (cu_leases u)" for n
  proof -
    have "n \<in> fst ` set (ca_entries ?c)" using that sub by blast
    then have "plain n" using b by (auto simp: budget_ok_def)
    then have "n \<noteq> xf_tmp f" by (rule tmp_of_fill [OF assms(1,3)])
    with that \<open>xf_path f \<notin> set (cu_leases u)\<close> show ?thesis by (auto simp: p(1))
  qed
  ultimately show ?thesis using assms(2,5,6) e sub by (auto simp: leases_exact_def pins_kept_def)
qed
lemma exec_leases:
  assumes "limits_ok dc" "users_ok dc u" "leases_exact u" "op_ok is_uuid op" "readable op" "length (cu_leases u) + 1 < 2 ^ 64"
    and "cache_exec dc op u = Some u'"
  shows "leases_exact u' \<and> pins_kept u u'"
proof -
  let ?c = "cu_cache u"
  have b: "budget_ok dc {} (cu_fills u @ cu_stale u) ?c" using assms(2) by (simp add: users_ok_def)
  have same: ?thesis if "u' = u" using that assms(3) by (simp add: pins_kept_def)
  have room: "leases_exact v \<and> pins_kept u v"
    if "make_room dc io n e ?c = (c1, k)" "ca_entries c' = ca_entries c1" "\<And>q. plain q \<Longrightarrow> ca_files c' q = ca_files c1 q"
      "cu_leases v = cu_leases u" "cu_cache v = c'" for io n e c1 k c' v
  proof -
    note r = make_room_ok(1,2) [OF assms(1) b that(1)]
    note l = leases_room [OF assms(3) r(2)]
    have u1: "users_ok dc (u\<lparr>cu_cache := c1\<rparr>)" using r(1) by (simp add: users_ok_def)
    have "leases_exact v \<and> pins_kept (u\<lparr>cu_cache := c1\<rparr>) v"
      by (rule leases_files [OF l(1) u1, of c']) (use that in simp_all)
    with l(2) show ?thesis by (simp add: pins_kept_def)
  qed
  show ?thesis
  proof (cases op)
    case (OpRead io name)
    with assms show ?thesis by (intro read_leases [of dc u io name]) simp_all
  next
    case (OpRelease name)
    with assms show ?thesis by (intro release_leases [of u dc name]) simp_all
  next
    case (OpReserve io uuid name n)
    obtain c1 k where m: "make_room dc io n True ?c = (c1, k)" by (rule prod.exhaust)
    obtain c' r where r: "cache_reserve dc io uuid name n ?c = (c', r)" by (rule prod.exhaust)
    have v: "cu_leases u' = cu_leases u" "cu_cache u' = c'" using assms(7) OpReserve r by (auto split: option.splits)
    have "c' = ?c \<and> r = None \<or> ca_entries c' = ca_entries c1 \<and> (\<forall>q. plain q \<longrightarrow> ca_files c' q = ca_files c1 q)"
      using r m by (cases k) (auto simp: cache_reserve_def Let_def split: if_splits)
    then show ?thesis
    proof
      assume "c' = ?c \<and> r = None"
      with assms(7) OpReserve r show ?thesis by (intro same) simp
    next
      assume "ca_entries c' = ca_entries c1 \<and> (\<forall>q. plain q \<longrightarrow> ca_files c' q = ca_files c1 q)"
      then show ?thesis by (intro room [OF m _ _ v]) simp_all
    qed
  next
    case (OpGrow io tmp n)
    show ?thesis
    proof (cases "find_fill u tmp")
      case (Some f)
      obtain c1 k where m: "make_room dc io n False ?c = (c1, k)" by (rule prod.exhaust)
      obtain c' f' ok where g: "fill_grow dc io n f ?c = Some (c', f', ok)" and v: "cu_leases u' = cu_leases u" "cu_cache u' = c'"
        using assms(7) OpGrow Some by auto
      have "ca_entries c' = ca_entries c1 \<and> ca_files c' = ca_files c1"
        using g m by (cases k) (auto simp: fill_grow_def Let_def split: if_splits)
      then show ?thesis by (intro room [OF m _ _ v]) simp_all
    qed (use same assms(7) OpGrow in simp)
  next
    case (OpWrite io tmp payload off)
    show ?thesis
    proof (cases "find_fill u tmp")
      case (Some f)
      let ?c' = "fst (fill_write_at io payload off f ?c)"
      have e: "ca_entries ?c' = ca_entries ?c" by (simp add: fill_write_at_def Let_def split: option.split prod.split)
      have q: "ca_files ?c' q = ca_files ?c q" if "q \<noteq> xf_tmp f" for q using that by (simp add: fill_write_at_def Let_def split: option.split prod.split)
      have v: "cu_leases u' = cu_leases u" "cu_cache u' = ?c'" using assms(7) OpWrite Some by auto
      show ?thesis by (rule leases_files [OF assms(3,2) e q v]) (use tmp_of_fill [OF assms(2)] find_fill_in [OF Some] in blast)
    qed (use same assms(7) OpWrite in simp)
  next
    case (OpPublish io tmp)
    show ?thesis
    proof (cases "find_fill u tmp")
      case (Some f)
      obtain c' r where r: "fill_publish io f ?c = (c', r)" by (rule prod.exhaust)
      show ?thesis by (rule publish_leases [OF assms(2,3) _ r]) (use assms(7) OpPublish Some r find_fill_in [OF Some] in auto)
    qed (use same assms(7) OpPublish in simp)
  next
    case (OpAbandon io tmp)
    show ?thesis
    proof (cases "find_fill u tmp")
      case (Some f)
      let ?c' = "fst (fill_drop io f ?c)"
      have v: "cu_leases u' = cu_leases u" "cu_cache u' = ?c'" using assms(7) OpAbandon Some by (auto split: prod.splits)
      show ?thesis
        by (rule leases_files [OF assms(3,2) drop_effect(1) drop_effect(2) v]) (use tmp_of_fill [OF assms(2)] find_fill_in [OF Some] in blast)
    qed (use same assms(7) OpAbandon in simp)
  qed
qed
lemma execs_names:
  assumes "list_all (op_ok is_uuid) ops"
  shows "own_names is_uuid (cu_fills u @ cu_stale u) (cu_cache u) \<Longrightarrow> cache_execs dc ops u = Some u' \<Longrightarrow>
    own_names is_uuid (cu_fills u' @ cu_stale u') (cu_cache u')"
  using assms
proof (induction ops arbitrary: u)
  case (Cons op ops)
  obtain u1 where u1: "cache_exec dc op u = Some u1" using Cons.prems(2) by (cases "cache_exec dc op u") auto
  have "own_names is_uuid (cu_fills u1 @ cu_stale u1) (cu_cache u1)" by (rule exec_names [OF Cons.prems(1) _ u1]) (use Cons.prems(3) in simp)
  with Cons u1 show ?case by simp
qed simp

lemma execs_leases:
  assumes "limits_ok dc" "list_all (op_ok is_uuid) ops" "list_all readable ops"
  shows "users_ok dc u \<Longrightarrow> leases_exact u \<Longrightarrow> length (cu_leases u) + length ops < 2 ^ 64 \<Longrightarrow> cache_execs dc ops u = Some u' \<Longrightarrow>
    leases_exact u' \<and> length (cu_leases u') \<le> length (cu_leases u) + length ops"
  using assms(2,3)
proof (induction ops arbitrary: u)
  case (Cons op ops)
  obtain u1 where u1: "cache_exec dc op u = Some u1" using Cons.prems(4) by (cases "cache_exec dc op u") auto
  have ok: "op_ok is_uuid op" "readable op" using Cons.prems(5,6) by simp_all
  have b: "users_ok dc u1" using exec_budget [OF assms(1) Cons.prems(1) ok(1)] u1 by auto
  have l: "leases_exact u1" using exec_leases [OF assms(1) Cons.prems(1,2) ok _ u1] Cons.prems(3) by simp
  have "length (cu_leases u1) \<le> length (cu_leases u) + 1"
    using u1 by (cases op) (auto simp: length_remove1 split: option.splits prod.splits if_splits)
  with Cons.IH [OF b l] Cons.prems u1 show ?case by simp
qed simp

lemma map_sum_Inr: "map_sum f g r = Inr y \<Longrightarrow> (\<And>x. r = Inr x \<Longrightarrow> y = g x \<Longrightarrow> P) \<Longrightarrow> P"
  by (cases r) auto

lemma indexing_start:
  assumes "\<And>x. x \<in> set items \<Longrightarrow> snd x \<noteq> None \<and> managed_name is_uuid (fst x)" "distinct (map fst items)"
  shows "indexing dc is_uuid (map (\<lambda>(name, f). (name, the f)) items)
    \<lparr>ca_entries = [], ca_pending = [], ca_resident = 0, ca_reserved = 0, ca_files = (\<lambda>n. Option.bind (map_of items n) id)\<rparr>"
proof -
  have f: "map fst (map (\<lambda>(name, f). (name, the f)) items) = map fst items" by (induction items) auto
  have s: "fst ` set (map (\<lambda>(name, f). (name, the f)) items) = fst ` set items" using f by (metis set_map)
  have files: "Option.bind (map_of items (fst x)) id = Some (snd x)" if x: "x \<in> set (map (\<lambda>(name, f). (name, the f)) items)" for x
  proof -
    obtain d where "(fst x, d) \<in> set items" "snd x = the d" using x by auto
    moreover from this assms(1) have "d \<noteq> None" by fastforce
    ultimately show ?thesis using assms(2) by (auto simp: map_of_eq_Some_iff)
  qed
  have dom: "dom (\<lambda>n. Option.bind (map_of items n) id) \<subseteq> fst ` set items"
    by (auto simp: dom_def bind_eq_Some_conv dest!: map_of_SomeD intro: rev_image_eqI)
  have plain: "plain (fst x)" if x: "x \<in> set (map (\<lambda>(name, f). (name, the f)) items)" and t: "\<not> is_temporary is_uuid (fst x)" for x
  proof -
    obtain y where y: "y \<in> set items" "fst x = fst y" using x by force
    with assms(1) [OF y(1)] t show ?thesis by (intro managed_plain) simp_all
  qed
  have "indexing dc is_uuid its \<lparr>ca_entries = [], ca_pending = [], ca_resident = 0, ca_reserved = 0, ca_files = g\<rparr>"
    if "map fst its = map fst items" "fst ` set its = fst ` set items" "\<And>x. x \<in> set its \<Longrightarrow> g (fst x) = Some (snd x)" "dom g \<subseteq> fst ` set items"
      "\<And>x. x \<in> set its \<Longrightarrow> \<not> is_temporary is_uuid (fst x) \<Longrightarrow> plain (fst x)" for its g
  proof -
    have "\<forall>n \<in> fst ` set its. managed_name is_uuid n" using that(2) assms(1) by auto
    with that assms(2) show ?thesis by (simp add: indexing_def budget_ok_def)
  qed
  from this [OF f s files dom plain] show ?thesis .
qed

lemma opened:
  assumes "cache_open config io is_uuid items = Inr (dc, c)" "distinct (map fst items)"
    and "ch_max_bytes config < 2 ^ 64" "ch_max_entries config < 2 ^ 64 - 1"
  shows "dc = \<lparr>dc_max_bytes = ch_max_bytes config, dc_max_entries = ch_max_entries config\<rparr>" "limits_ok dc" "users_ok dc (idle c)" "leases_exact (idle c)"
    "own_names is_uuid [] c"
proof -
  let ?items = "map (\<lambda>(name, f). (name, the f)) items"
  let ?c = "\<lparr>ca_entries = [], ca_pending = [], ca_resident = 0, ca_reserved = 0, ca_files = (\<lambda>n. Option.bind (map_of items n) id)\<rparr>"
  show dc: "dc = \<lparr>dc_max_bytes = ch_max_bytes config, dc_max_entries = ch_max_entries config\<rparr>"
    using assms(1) by (auto simp: cache_open_def Let_def split: if_splits elim!: map_sum_Inr)
  show lim: "limits_ok dc" using assms(3,4) by (simp add: limits_ok_def dc)
  have m: "\<And>x. x \<in> set items \<Longrightarrow> snd x \<noteq> None \<and> managed_name is_uuid (fst x)" and r: "reindex dc io is_uuid ?items ?c = Inr c"
    using assms(1) by (auto simp: cache_open_def Let_def dc list_all_iff split: if_splits elim!: map_sum_Inr)
  have "indexing dc is_uuid ?items ?c" by (rule indexing_start [OF m assms(2)])
  from reindex_budget [OF lim r this] have i: "indexing dc is_uuid [] c" .
  then show "users_ok dc (idle c)" by (simp add: users_ok_def idle_def indexing_def)
  from i show "leases_exact (idle c)" by (simp add: leases_exact_def idle_def indexing_def)
  from i show "own_names is_uuid [] c" by (auto simp: own_names_def indexing_def budget_ok_def)
qed
section \<open>Properties\<close>

text \<open>C32: the cache stays in its budget. A cache opened over a directory with distinct names, after any sequence
  of reads, reservations, growing, writes, publications, abandoned fills and dropped leases, whichever
  system calls fail, has not panicked, and its directory holds at most the configured bytes in at most
  the configured number of files. The counters it reports are those sums: entries are charged what their
  files hold and fills at least that. One failure is excluded: the existence check behind a failed removal
  of an unreadable file answers truly (\<open>Path::exists\<close> takes a failing \<open>stat\<close> for absence and would drop
  the charge of a file that is still there). The users name files as the store does, by the digest of the
  location, and temporaries by a fresh identifier.\<close>

theorem cache_stays_in_budget:
  assumes "cache_open config io is_uuid items = Inr (dc, c)" "distinct (map fst items)"
    and "ch_max_bytes config < 2 ^ 64" "ch_max_entries config < 2 ^ 64 - 1" "list_all (op_ok is_uuid) ops"
  shows "\<exists>u. cache_execs dc ops (idle c) = Some u \<and>
    disk_bytes (cu_cache u) \<le> ch_max_bytes config \<and> card (dom (ca_files (cu_cache u))) \<le> ch_max_entries config \<and>
    st_resident_bytes (disk_stats (cu_cache u)) + st_reserved_bytes (disk_stats (cu_cache u)) \<le> ch_max_bytes config \<and>
    st_resident_bytes (disk_stats (cu_cache u)) = (\<Sum>n \<in> fst ` set (ca_entries (cu_cache u)). length (the (ca_files (cu_cache u) n)))"
proof -
  note o = opened [OF assms(1-4)]
  obtain u where u: "cache_execs dc ops (idle c) = Some u" "users_ok dc u" using execs_budget [OF o(2) assms(5) o(3)] by blast
  have b: "budget_ok dc {} (cu_fills u @ cu_stale u) (cu_cache u)" using u(2) by (simp add: users_ok_def)
  note d = directory_within_budget(2,3) [OF b] and s = resident_files [OF b]
  have "ca_resident (cu_cache u) + ca_reserved (cu_cache u) \<le> dc_max_bytes dc" using b by (simp add: budget_ok_def)
  with u(1) d s show ?thesis unfolding o(1) by (auto simp: disk_stats_def)
qed

text \<open>A restart accepts what a process left behind. Wherever a process that used the cache stopped, with
  fills under way and temporary files that could not be removed, opening the directory again under any
  positive limits succeeds when files can be removed, drops the temporaries and fits the new limits.\<close>

lemma cache_restart:
  assumes "cache_open config io is_uuid items = Inr (dc, c)" "distinct (map fst items)"
    and "ch_max_bytes config < 2 ^ 64" "ch_max_entries config < 2 ^ 64 - 1" "list_all (op_ok is_uuid) ops"
    and "cache_execs dc ops (idle c) = Some u" "distinct (map fst left)" "\<forall>n. map_of left n = map_option Some (ca_files (cu_cache u) n)"
    and "0 < ch_max_bytes config'" "0 < ch_max_entries config'" "0 < ch_chunk_size config'"
    and "ch_max_bytes config' < 2 ^ 64" "ch_max_entries config' < 2 ^ 64 - 1" "\<forall>p. \<not> dk_remove io' p"
  shows "\<exists>dc' c'. cache_open config' io' is_uuid left = Inr (dc', c') \<and> disk_bytes c' \<le> ch_max_bytes config' \<and>
    card (dom (ca_files c')) \<le> ch_max_entries config' \<and> (\<forall>n \<in> dom (ca_files c'). \<not> is_temporary is_uuid n)"
proof -
  note o = opened [OF assms(1-4)]
  let ?dc = "\<lparr>dc_max_bytes = ch_max_bytes config', dc_max_entries = ch_max_entries config'\<rparr>" and ?items = "map (\<lambda>(name, f). (name, the f)) left"
  let ?c = "\<lparr>ca_entries = [], ca_pending = [], ca_resident = 0, ca_reserved = 0, ca_files = (\<lambda>n. Option.bind (map_of left n) id)\<rparr>"
  have own: "own_names is_uuid (cu_fills u @ cu_stale u) (cu_cache u)"
    by (rule execs_names [OF assms(5) _ assms(6)]) (use o(5) in \<open>simp add: idle_def\<close>)
  have b: "budget_ok dc {} (cu_fills u @ cu_stale u) (cu_cache u)"
    using execs_budget [OF o(2) assms(5) o(3)] assms(6) by (simp add: users_ok_def)
  have managed: "managed_name is_uuid n" if "n \<in> dom (ca_files (cu_cache u))" for n
  proof -
    have "n \<in> fst ` set (ca_entries (cu_cache u)) \<union> xf_tmp ` set (cu_fills u @ cu_stale u)" using b that unfolding budget_ok_def by blast
    then show ?thesis
    proof
      assume "n \<in> fst ` set (ca_entries (cu_cache u))"
      with own show ?thesis unfolding own_names_def by blast
    next
      assume "n \<in> xf_tmp ` set (cu_fills u @ cu_stale u)"
      then obtain f where f: "f \<in> set (cu_fills u @ cu_stale u)" "n = xf_tmp f" by blast
      then obtain uuid where t: "cache_name (xf_path f)" "drawn_uuid is_uuid uuid" "xf_tmp f = xf_path f @ ''.tmp-'' @ uuid"
        using own unfolding own_names_def by blast
      show ?thesis unfolding f(2) t(3) by (rule managed_own(3) [OF t(1,2), THEN conjunct1])
    qed
  qed
  have left: "snd x \<noteq> None \<and> managed_name is_uuid (fst x)" if "x \<in> set left" for x
  proof -
    have "map_of left (fst x) = Some (snd x)" using assms(7) that by (simp add: map_of_eq_Some_iff)
    then obtain d where "ca_files (cu_cache u) (fst x) = Some d" "snd x = Some d" using assms(8) by (auto simp: map_option_case split: option.splits)
    with managed [of "fst x"] show ?thesis by (simp add: domI)
  qed
  have lim: "limits_ok ?dc" using assms(12,13) by (simp add: limits_ok_def)
  have i: "indexing ?dc is_uuid ?items ?c" by (rule indexing_start [OF left assms(7)])
  have one: "1 \<le> dc_max_entries ?dc" using assms(10) by simp
  obtain c' where c': "reindex ?dc io' is_uuid ?items ?c = Inr c'" using reindex_succeeds [OF lim one assms(14) i] by blast
  have "list_all (\<lambda>(name, f). f \<noteq> None \<and> managed_name is_uuid name) left" using left by (auto simp: list_all_iff)
  with assms(9-11) c' have open': "cache_open config' io' is_uuid left = Inr (?dc, c')" by (simp add: cache_open_def Let_def)
  have b': "budget_ok ?dc {} [] c'" using reindex_budget [OF lim c' i] by (simp add: indexing_def)
  have "\<not> is_temporary is_uuid n" if "n \<in> dom (ca_files c')" for n
  proof -
    have "plain n" using b' that by (auto simp: budget_ok_def)
    then show ?thesis by (simp only: plain_rsplit is_temporary_def option.case) simp
  qed
  with open' directory_within_budget(2,3) [OF b'] show ?thesis by auto
qed
text \<open>A pinned entry stays. As long as files of the cache can be opened, the readers of every entry are
  exactly its leases, however operations interleave, and no operation touches the file of an entry
  while a lease on it is held before the operation.\<close>

lemma cache_pins_readers:
  assumes "cache_open config io is_uuid items = Inr (dc, c)" "distinct (map fst items)"
    and "ch_max_bytes config < 2 ^ 64" "ch_max_entries config < 2 ^ 64 - 1" "list_all (op_ok is_uuid) (ops @ [op])" "list_all readable (ops @ [op])"
    and "length ops + 1 < 2 ^ 64" "cache_execs dc ops (idle c) = Some u" "cache_exec dc op u = Some u'"
  shows "(\<forall>x \<in> set (ca_entries (cu_cache u)). en_readers (snd x) = count_list (cu_leases u) (fst x)) \<and>
    (\<forall>name \<in> set (cu_leases u). name \<in> fst ` set (ca_entries (cu_cache u)) \<and> ca_files (cu_cache u) name \<noteq> None \<and>
      ca_files (cu_cache u') name = ca_files (cu_cache u) name)"
proof -
  note o = opened [OF assms(1-4)]
  have ok: "list_all (op_ok is_uuid) ops" "list_all readable ops" "op_ok is_uuid op" "readable op" using assms(5,6) by simp_all
  have u: "users_ok dc u" using execs_budget [OF o(2) ok(1) o(3)] assms(8) by simp
  have l: "leases_exact u" "length (cu_leases u) \<le> length ops"
    using execs_leases [OF o(2) ok(1,2) o(3,4) _ assms(8)] assms(7) by (simp_all add: idle_def)
  have p: "pins_kept u u'" using exec_leases [OF o(2) u l(1) ok(3,4) _ assms(9)] l(2) assms(7) by simp
  have "ca_files (cu_cache u) name \<noteq> None" if "name \<in> set (cu_leases u)" for name
  proof -
    have "name \<in> fst ` set (ca_entries (cu_cache u))" using l(1) that unfolding leases_exact_def by blast
    with u show ?thesis by (auto simp: users_ok_def budget_ok_def)
  qed
  with l(1) p show ?thesis unfolding leases_exact_def pins_kept_def by blast
qed

text \<open>A directory with nothing in it, a digest and the identifiers of two fills.\<close>

definition demo_hash :: string where
  "demo_hash = replicate 64 (CHR ''a'')"

definition demo_object :: string where
  "demo_object = demo_hash @ ''.file''"

definition demo_cache :: cache_config where
  "demo_cache = default_cache_config\<lparr>ch_max_bytes := 4, ch_max_entries := 2\<rparr>"

definition empty_dir :: cache where
  "empty_dir = \<lparr>ca_entries = [], ca_pending = [], ca_resident = 0, ca_reserved = 0, ca_files = (\<lambda>n. Option.bind (map_of [] n) id)\<rparr>"

abbreviation demo_limits :: disk_cache where
  "demo_limits \<equiv> \<lparr>dc_max_bytes = 4, dc_max_entries = 2\<rparr>"

definition demo_fill :: "string \<Rightarrow> bytes \<Rightarrow> cache_op list" where
  "demo_fill uuid data = [OpReserve good_io uuid demo_object (length data), OpWrite good_io (demo_object @ ''.tmp-'' @ uuid) [data] 0,
     OpPublish good_io (demo_object @ ''.tmp-'' @ uuid)]"

lemma demo_open: "cache_open demo_cache good_io (\<lambda>_. True) [] = Inr (demo_limits, empty_dir)"
  by (simp add: cache_open_def demo_cache_def default_cache_config_def empty_dir_def)

lemma demo_name: "cache_name demo_object"
  unfolding cache_name_def demo_object_def by (intro exI [of _ demo_hash]) (simp add: is_hash_def demo_hash_def list_all_iff is_hexdigit_def)

lemma demo_limits_ok: "ch_max_bytes demo_cache < 2 ^ 64" "ch_max_entries demo_cache < 2 ^ 64 - 1"
  by (simp_all add: demo_cache_def)

lemma demo_fill_ok: "list_all (\<lambda>c. is_hexdigit c \<or> c = CHR ''-'') uuid \<Longrightarrow> list_all (op_ok (\<lambda>_. True)) (demo_fill uuid data)"
  by (simp add: demo_fill_def demo_name drawn_uuid_def)

lemma demo_run:
  assumes "length data \<le> 4" "data \<noteq> []"
  shows "cache_execs demo_limits (demo_fill uuid data) (idle empty_dir) =
    Some (idle \<lparr>ca_entries = [(demo_object, \<lparr>en_bytes = length data, en_readers = 0\<rparr>)], ca_pending = [], ca_resident = length data, ca_reserved = 0,
      ca_files = [demo_object \<mapsto> data]\<rparr>)"
proof -
  have r: "make_room demo_limits good_io (length data) True empty_dir = (empty_dir, True)"
    using assms(1) by (simp add: make_room_def evict_loop.simps crowded_def empty_dir_def add_u64_def saturating_usize_def)
  show ?thesis
    using assms by (simp add: demo_fill_def idle_def cache_reserve_def r) (simp add: empty_dir_def good_io_def Let_def find_fill_def fill_write_at_def splice_def
        fill_publish_def add_u64_def sub_u64_def lru_pop_def lru_put_def fun_eq_iff)
qed

text \<open>C32: an object of three bytes, and a second fill of its name, which is refused.\<close>

theorem cache_stays_in_budget_witness:
  "cache_open demo_cache good_io (\<lambda>_. True) [] = Inr (demo_limits, empty_dir) \<and>
   (\<exists>u. cache_execs demo_limits (demo_fill ''1'' [1, 2, 3] @ demo_fill ''2'' [4]) (idle empty_dir) = Some u \<and> disk_bytes (cu_cache u) \<le> 4)"
proof -
  have ops: "list_all (op_ok (\<lambda>_. True)) (demo_fill ''1'' [1, 2, 3] @ demo_fill ''2'' [4])"
    using demo_fill_ok [of "''1''"] demo_fill_ok [of "''2''"] by (simp add: is_hexdigit_def)
  from cache_stays_in_budget [OF demo_open _ demo_limits_ok ops] demo_open show ?thesis by (auto simp: demo_cache_def)
qed

text \<open>The process stops with one file published.\<close>

definition left_dir :: "(string \<times> bytes option) list" where
  "left_dir = [(demo_object, Some [1, 2, 3])]"

lemma cache_restart_witness:
  "\<exists>u dc' c'. cache_execs demo_limits (demo_fill ''1'' [1, 2, 3]) (idle empty_dir) = Some u \<and>
     cache_open demo_cache good_io (\<lambda>_. True) left_dir = Inr (dc', c') \<and> disk_bytes c' \<le> 4"
proof -
  have ops: "list_all (op_ok (\<lambda>_. True)) (demo_fill ''1'' [1, 2, 3])" using demo_fill_ok [of "''1''"] by (simp add: is_hexdigit_def)
  let ?r = "cache_execs demo_limits (demo_fill ''1'' [1, 2, 3]) (idle empty_dir)"
  obtain u where u: "?r = Some u" using demo_run [of "[1, 2, 3]" "''1''"] by simp
  have f: "ca_files (cu_cache u) = [demo_object \<mapsto> [1, 2, 3]]"
    using u demo_run [of "[1, 2, 3]" "''1''"] by (simp add: idle_def)
  have d: "distinct (map fst left_dir)" "\<forall>n. map_of left_dir n = map_option Some (ca_files (cu_cache u) n)"
    by (simp_all add: left_dir_def f)
  have "\<exists>dc' c'. cache_open demo_cache good_io (\<lambda>_. True) left_dir = Inr (dc', c') \<and> disk_bytes c' \<le> ch_max_bytes demo_cache \<and>
      card (dom (ca_files c')) \<le> ch_max_entries demo_cache \<and> (\<forall>n \<in> dom (ca_files c'). \<not> is_temporary (\<lambda>_. True) n)"
    by (rule cache_restart [OF demo_open _ demo_limits_ok ops u d]) (simp_all add: demo_cache_def default_cache_config_def good_io_def)
  with u show ?thesis by (auto simp: demo_cache_def)
qed

text \<open>Why readability is needed there. A reader holds a lease on an entry; a second read cannot open the
  file, removes it and forgets the entry with its reader; the object is filled again; and the first
  lease, when dropped, takes its reader off the new entry, which has none. The count wraps (a build with
  overflow checks panics), and the entry can never be evicted.\<close>

definition unopenable :: disk_io where
  "unopenable = good_io\<lparr>dk_open := (\<lambda>_. True)\<rparr>"

definition demo_refill :: "string \<Rightarrow> cache_op list" where
  "demo_refill uuid = [OpReserve good_io uuid ''o'' 1, OpWrite good_io (''o.tmp-'' @ uuid) [[1]] 0, OpPublish good_io (''o.tmp-'' @ uuid)]"

lemma stale_lease_wraps:
  "map_option (\<lambda>u. ca_entries (cu_cache u)) (cache_execs demo_limits (demo_refill ''1'' @ [OpRead good_io ''o'', OpRead unopenable ''o''] @ demo_refill ''2'' @ [OpRelease ''o''])
      (idle \<lparr>ca_entries = [], ca_pending = [], ca_resident = 0, ca_reserved = 0, ca_files = (\<lambda>_. None)\<rparr>)) =
    Some [(''o'', \<lparr>en_bytes = 1, en_readers = 2 ^ 64 - 1\<rparr>)]"
  by code_simp

end
