(* ===== verification/Spec2Isabelle.thy ===== *)
theory Spec2Isabelle
  imports GcWorker Provider Pipelines Feed Operation Stats Sorting CommitProps Deletion SupervisorSafety Bootstrap CacheSafety
begin

text \<open>
  \<^bold>\<open>Ukiel.\<close> A multi-tenant column store: immutable Parquet parts in an object store, and a
  PostgreSQL catalog that says which parts are live. Writers (ingest, the compactor,
  materialised views) upload objects under a registered intent and then commit them;
  a commit is one row of an ordered log. Queries plan over the live parts of one
  namespace. A collector deletes the objects of tombstoned parts and of abandoned
  intents. Everything that makes the system correct goes through the catalog, so the
  development is built around it. All paths below are under \<^verbatim>\<open>src/crates/\<close>.

  \<^bold>\<open>Theories.\<close>

  \<^item> \<open>Prelude\<close>: machine-integer ranges, byte encodings, decimal printing, results as sums,
    the simplification collections. \<open>Json\<close>: \<^verbatim>\<open>serde_json\<close> values as the sources use them.
  \<^item> \<open>Core\<close>: \<^verbatim>\<open>ukiel-core/src\<close> \<^verbatim>\<open>part.rs\<close>, \<^verbatim>\<open>commit.rs\<close>, \<^verbatim>\<open>table.rs\<close>, \<^verbatim>\<open>pipeline.rs\<close>, each struct a record and
    each enum a datatype.
  \<^item> \<open>KeyFilter\<close>: \<^verbatim>\<open>keyfilter.rs\<close>, the Bloom filter of a part's packing keys and the SQL predicate
    generated for it. It has no false negative, and the SQL decides the same as the Rust
    test, except for negative keys, where the two differ.
  \<^item> \<open>Operation\<close>: \<^verbatim>\<open>operation.rs\<close>, the identities that make a mutation replayable. Distinct
    intents have distinct canonical bytes; enumeration order does not matter; keys fit.
  \<^item> \<open>Schema\<close>, \<open>Sorting\<close>, \<open>Stats\<close>: \<^verbatim>\<open>schema.rs\<close>, \<^verbatim>\<open>sorting.rs\<close>, \<^verbatim>\<open>stats.rs\<close>. Table schemas and the three
    Arrow schemas, sort-key validation and writer stamps, key bitmaps, row-group spans and
    column statistics, streamed and one-shot.
  \<^item> \<open>CatalogError\<close>: \<^verbatim>\<open>ukiel-catalog/src/error.rs\<close>, which failures recovery may act on.
  \<^item> \<open>CatalogState\<close>: the tables of \<^verbatim>\<open>migrations/\<close> as one record of row lists with their sequences,
    and the way a statement runs. An operation is a state transformer that returns a result
    (\<open>'a tx\<close>); the environment \<open>env\<close> says which statement fails, with which driver error and
    whether a failing \<open>COMMIT\<close> was durable, and what the database clock reads. A rolled-back
    transaction restores the tables and keeps the sequences, as PostgreSQL does.
  \<^item> \<open>Leases\<close>, \<open>Commit\<close>, \<open>Feed\<close>, \<open>CatalogGc\<close>, \<open>PartQueries\<close>, \<open>Tables\<close>, \<open>Pipelines\<close>: the operations of the
    catalog, one theory per source file (\<open>Commit\<close> also holds \<^verbatim>\<open>offsets.rs\<close> and \<^verbatim>\<open>faults.rs\<close>, \<open>Feed\<close> also
    \<^verbatim>\<open>cursors.rs\<close>). \<open>Feed\<close> models the publication barrier as a step relation over concurrent
    writers and readers, because what a feed head promises is a matter of interleaving.
  \<^item> \<open>CatalogRun\<close>: the relation \<open>catalog_step\<close>, any operation of the catalog under any failure, and
    what every step keeps. \<open>CommitSafety\<close>: lemmas on what a reachable catalog remembers.
    \<open>CommitProps\<close>: the theorems on commits, atomicity, replay, fencing, offsets.
  \<^item> \<open>GcWorker\<close>: \<^verbatim>\<open>ukiel-gc/src/lib.rs\<close>. The worker runs in a world whose catalog other clients
    change between any two of its calls; every call leaves an event in a trace, with the catalog it met,
    and a delete is judged by the events before it. The two loops share an interface, the locales \<open>safe_loop\<close> and \<open>progress_loop\<close>, interpreted for reap and sweep.
  \<^item> \<open>Provider\<close>: \<^verbatim>\<open>ukiel-query/src\<close> \<^verbatim>\<open>provider.rs\<close>, \<^verbatim>\<open>context.rs\<close>, \<^verbatim>\<open>view_types.rs\<close>. The plan of a scan, what
    it yields given the files, pushed-down predicate and limit included, and that pruning in four places
    loses nothing.
  \<^item> \<open>Arrow\<close>: record batches as rows of cells, and the record of functions that stands for the Arrow
    and Parquet crates with the contract \<open>writer_ok\<close> of the file writer. \<open>Expr\<close>: \<^verbatim>\<open>ukiel-expr/src/lib.rs\<close>,
    default, materialised and alias columns over DataFusion as a parameter.
  \<^item> \<open>Merge\<close>, \<open>Rewrite\<close>: \<^verbatim>\<open>ukiel-compactor/src\<close> \<^verbatim>\<open>merge.rs\<close> and \<^verbatim>\<open>rewrite.rs\<close>. The k-way merge is the stable
    sort of its inputs or an error; the chunk writer stores every row once, in order, in files
    of the shape the placement asks for and with metadata that tell the truth.
  \<^item> \<open>Worker\<close>: the world of a worker. Its calls are numbered; before each, other clients act, and the
    worker may be dropped before or during it. \<open>Compactor\<close>: \<^verbatim>\<open>compactor.rs\<close> over that world, with the
    renewal task interleaved. \<open>Deletion\<close>: \<^verbatim>\<open>deletion.rs\<close>.
  \<^item> \<open>Contents\<close>: a table as the multiset of its rows, the abstract view the write path is specified
    by, and that the objects a worker read and wrote are in the store when it commits.
  \<^item> \<open>L0Write\<close>: \<^verbatim>\<open>ukiel-write/src/lib.rs\<close>, adapting batches to a table, grouping rows by partition and
    encoding. \<open>Publish\<close>: its \<open>L0Writer\<close>, the intents, the uploads and the one identified \<open>ADD\<close>, and the \<open>rely\<close>
    under which other clients act: they keep an invariant of the catalog and the store and stay off
    the paths this worker draws.
  \<^item> \<open>Ingest\<close>: \<^verbatim>\<open>ukiel-ingest/src\<close>, a route from its assignment to the flush. \<open>IngestSafety\<close>: the ledger of a
    table, which rows of the Kafka log it holds, and that every step of a route keeps it.
  \<^item> \<open>PipelineExec\<close>: \<^verbatim>\<open>ukiel-pipeline/src/lib.rs\<close>, SQL over one input. \<open>Mv\<close>: \<^verbatim>\<open>ukiel-mv/src/lib.rs\<close>, the view
    worker. \<open>MvSafety\<close>: the ledger of a view and that every step of the worker keeps it; the cycle check.
  \<^item> \<open>DiskCache\<close>: \<^verbatim>\<open>ukiel-query/src/cache/disk.rs\<close>, the file cache under the object store of the query path:
    its names, its state and directory, and each operation with the system call that fails as an argument.
    \<open>CacheSafety\<close>: any sequence of operations of its users keeps the budget, a restart accepts what was left,
    and a pinned entry stays while files can be opened (\<open>stale_lease_wraps\<close> shows why that is needed).
  \<^item> \<open>Float64\<close>: binary64 arithmetic as rationals rounded to 53 bits, half to even, with \<open>nan\<close> and the
    infinities as values of the type \<open>f64\<close>; overflow and subnormals do not occur in the ranges used.
  \<^item> \<open>Config\<close>: \<^verbatim>\<open>ukield/src/config.rs\<close>, the sections, their defaults, loading and validation, and the pool
    configuration of \<^verbatim>\<open>ukiel-catalog/src/lib.rs\<close>. \<open>Health\<close>: \<^verbatim>\<open>health.rs\<close>, the registry as a step relation over
    the events of the role handles. \<open>Recovery\<close>: \<^verbatim>\<open>recovery.rs\<close>, backoff, jitter and the wait for the catalog.
  \<^item> \<open>Supervisor\<close>: \<^verbatim>\<open>supervisor.rs\<close> over the world of \<open>Worker\<close>, with a trace of what it reports. The locale
    \<open>rebuilt_worker\<close> is the contract of a worker that is rebuilt. \<open>SupervisorSafety\<close> interprets it on an
    ingest route and on a view fleet. \<open>Bootstrap\<close>: \<^verbatim>\<open>bootstrap.rs\<close>, the configured tables and pipelines at boot.

  \<^bold>\<open>What the theorems show.\<close> A commit is atomic and its answer tells which way it went; an
  identified operation takes effect at most once and an ambiguous outcome can be decided by
  a lookup; a part is consumed once, offsets are consumed once, and a worker that lost its
  lease commits nothing, all over arbitrary runs. The outcome of a commit without failures is
  a function of the tables that is written out. A feed head bounds a complete prefix, pages
  compose and cursors never retreat. A scan of a namespace's session yields its own rows
  only and loses none. The collector deletes only what the catalog authorised, and an
  undisturbed pass ends. A merge changes no table's contents, whatever becomes of it; a
  deletion removes a key's rows and no others. A table holds exactly the accepted messages of the
  offsets its route committed, each once, and a view exactly one attempt's rows for each source
  \<open>ADD\<close> it applied; both still hold when the supervisor rebuilds the worker after any number of failures. No
  worker is rebuilt while an ambiguous commit is undecided, a role that ended stays ended, the process
  reports ready only when every role said so, retries stay in their jitter band, and waiting for the
  catalog ends when the catalog answers, with one sleep per failed probe in the band of its attempt. The disk
  cache never exceeds its budget, and bootstrap creates what is missing and alters nothing. Where the code
  does not do what it means to, or not what its documentation says, a lemma shows the case:
  \<open>reconcile_race\<close>, \<open>bitmap_entry_shadows_column\<close>, \<open>negative_key_sql_divergence\<close>, \<open>stale_lease_wraps\<close>,
  \<open>bootstrap_placement_lost\<close>.

  \<^bold>\<open>Conventions.\<close> Rust \<open>i64\<close> values are integers with their range as a hypothesis where it
  matters and \<open>wrap_i64\<close> where the code computes; time is in milliseconds; a \<open>Result\<close> is a sum
  with the error on the left. The reap and sweep loops may run for ever against a busy
  catalog and are \<open>partial_function (option)\<close>; that they return when undisturbed is proved. The
  worker's \<open>run\<close> is bounded by a number of ticks, which stands for the cancellation. The cycle
  check of pipelines has a termination proof. Third-party code is a parameter: the BLAKE3
  digest (collision-free where identities are compared), the roaring and base64 decoder
  \<open>de\<close>, PostgreSQL's rendering of JSON (\<open>pv_text\<close>) and its cast \<open>bigint\<close> (an integer is cast back unchanged within
  64 bits and raises outside, \<open>bigint_cast\<close>; \<open>int8in\<close> is such a cast), the order in which DataFusion
  merges streams, the SQL expression compiler, the object store, TOML and URL parsing. Supervision and waiting run on fuel: a run that
  uses it up ends in \<open>StillRunning\<close>, and a wait for a catalog that answers is proved not to need more than
  one unit per failed probe. The overflow of \<open>renew * 3\<close> in \<open>validate\<close> wraps, as a release build does.

  \<^bold>\<open>Not modelled.\<close> The connection pool, metrics, HTTP, the object-store wrapper and the footer cache above the disk cache, Parquet encoding and the Arrow
  kernels, which are I/O or third-party code; the spawning of tasks in \<^verbatim>\<open>run.rs\<close>; \<open>read_parts_to_batch\<close>, a reader
  only tests call; the benchmark tools.

  \<^bold>\<open>Simplifications.\<close> The collector's tombstone grace, a double of seconds in the code, is a whole number
  of milliseconds. An object that is gone is noticed when a reader opens it, not in the middle of its
  stream. A view worker's and a route's run is over a list of events, and the end of the list stands for
  the cancellation. A sequence value drawn by an insert that then fails with an error is reused in the model
  and skipped by PostgreSQL; ids are unique and increase either way. The checks of \<^verbatim>\<open>0002_pipelines.sql\<close>
  repeat what is validated before the insert and are left out. Column expressions are functions of the
  row, although the code admits clock and random expressions. The scan's rows are those DataFusion's plan
  nodes would pass on; the query's own filters are applied above them.

  \<^bold>\<open>Assumptions of the two ledgers.\<close> Ingest: the decoder and the column expressions are functions of
  the row, Kafka delivers each partition from the assigned offset in order, and the digest separates
  the flushes of one log. Views: a source object is written once (\<open>G\<close> names its contents), source and
  target differ, and the digest separates the events of one view; the SQL may depend on the attempt.
\<close>

end
